(* ===== verification/HG_Prelude.thy ===== *)
theory HG_Prelude
  imports Main "HOL-Library.Word"
begin

text \<open>
  Shared vocabulary of the development: the machine integers of the firmware, little-endian
  byte codecs, byte buffers written in place, and the generic facts the component theories
  use. The C types \<open>uint8_t\<close>, \<open>uint16_t\<close>, \<open>uint32_t\<close> and \<open>uint64_t\<close> are words of their
  width, so that every addition and subtraction wraps as it does on the target.
\<close>

unbundle bit_operations_syntax

section \<open>Machine integers\<close>

type_synonym u8 = "8 word"
type_synonym u16 = "16 word"
type_synonym u32 = "32 word"
type_synonym u64 = "64 word"

named_theorems le_simps \<open>round trips of the little-endian codecs\<close>
named_theorems buf_simps \<open>reads and writes of byte buffers\<close>

lemma unat_u8_less [simp]: "unat (x :: u8) < 256"
  using unsigned_less [of x] by simp

lemma unat_u16_less [simp]: "unat (x :: u16) < 65536"
  using unsigned_less [of x] by simp

lemma unat_u32_less [simp]: "unat (x :: u32) < 4294967296"
  using unsigned_less [of x] by simp

lemma unat_of_nat_u8: "n < 256 \<Longrightarrow> unat (of_nat n :: u8) = n"
  by (simp add: unat_of_nat)

lemma unat_of_nat_u16: "n < 65536 \<Longrightarrow> unat (of_nat n :: u16) = n"
  by (simp add: unat_of_nat)

lemma unat_of_nat_u32: "n < 4294967296 \<Longrightarrow> unat (of_nat n :: u32) = n"
  by (simp add: unat_of_nat)

lemma of_nat_u8_inj: "a < 256 \<Longrightarrow> b < 256 \<Longrightarrow> ((of_nat a :: u8) = of_nat b) = (a = b)"
  by (metis unat_of_nat_u8)

lemma of_nat_eq_0_u8: "n < 256 \<Longrightarrow> ((of_nat n :: u8) = 0) = (n = 0)"
  by (simp add: unat_of_nat_u8 flip: unsigned_eq_0_iff [where 'a = nat])

lemma word_xor_left_cancel: "(x XOR y = x XOR z) = (y = (z :: 'a :: len word))"
proof
  assume "x XOR y = x XOR z"
  then have "x XOR (x XOR y) = x XOR (x XOR z)" by simp
  then show "y = z" by (simp flip: xor.assoc)
qed simp

lemma word_xor_right_cancel: "(y XOR x = z XOR x) = (y = (z :: 'a :: len word))"
  by (simp add: word_xor_left_cancel xor.commute [of _ x])

lemma word_xor_eq_0: "(x XOR y = 0) = (x = (y :: 'a :: len word))"
  using word_xor_left_cancel [of x y x] by auto

lemma bit_u8_imp: "bit (x :: u8) n \<Longrightarrow> n < 8"
  using bit_imp_le_length [of x n] by simp

lemma ucast_u8_u32: "((ucast (a :: u8) :: u32) = ucast b) = (a = b)"
proof
  assume "(ucast a :: u32) = ucast b"
  then have "(ucast (ucast a :: u32) :: u8) = ucast (ucast b :: u32)" by simp
  then show "a = b" by (simp add: ucast_up_ucast_id is_up)
qed simp

section \<open>Little-endian codecs\<close>

text \<open>
  The firmware writes multi-byte fields one byte at a time (\<open>(uint8_t)(v >> 8)\<close>) and reads
  them back with shifts and ors; these are those two directions at each width.
\<close>

definition le16_put :: "u16 \<Rightarrow> u8 list" where
  "le16_put v = [ucast (v AND 0xFF), ucast (drop_bit 8 v AND 0xFF)]"

definition le16_get :: "u8 \<Rightarrow> u8 \<Rightarrow> u16" where
  "le16_get a b = ucast a OR push_bit 8 (ucast b)"

definition le32_put :: "u32 \<Rightarrow> u8 list" where
  "le32_put v = [ucast (v AND 0xFF), ucast (drop_bit 8 v AND 0xFF),
     ucast (drop_bit 16 v AND 0xFF), ucast (drop_bit 24 v AND 0xFF)]"

definition le32_get :: "u8 \<Rightarrow> u8 \<Rightarrow> u8 \<Rightarrow> u8 \<Rightarrow> u32" where
  "le32_get a b c d =
     ucast a OR push_bit 8 (ucast b) OR push_bit 16 (ucast c) OR push_bit 24 (ucast d)"

definition le64_put :: "u64 \<Rightarrow> u8 list" where
  "le64_put v = [ucast (v AND 0xFF), ucast (drop_bit 8 v AND 0xFF),
     ucast (drop_bit 16 v AND 0xFF), ucast (drop_bit 24 v AND 0xFF),
     ucast (drop_bit 32 v AND 0xFF), ucast (drop_bit 40 v AND 0xFF),
     ucast (drop_bit 48 v AND 0xFF), ucast (drop_bit 56 v AND 0xFF)]"

definition le64_get :: "u8 \<Rightarrow> u8 \<Rightarrow> u8 \<Rightarrow> u8 \<Rightarrow> u8 \<Rightarrow> u8 \<Rightarrow> u8 \<Rightarrow> u8 \<Rightarrow> u64" where
  "le64_get a b c d e f g h =
     ucast a OR push_bit 8 (ucast b) OR push_bit 16 (ucast c) OR push_bit 24 (ucast d) OR
     push_bit 32 (ucast e) OR push_bit 40 (ucast f) OR push_bit 48 (ucast g) OR
     push_bit 56 (ucast h)"

lemma length_le_put [simp]:
  "length (le16_put v) = 2" "length (le32_put w) = 4" "length (le64_put x) = 8"
  by (simp_all add: le16_put_def le32_put_def le64_put_def)

lemma mask8_numeral: "(0xFF :: 'a :: len word) = mask 8"
  by (simp add: mask_eq_exp_minus_1)

lemma byte_lane:
  "bit (push_bit k (ucast (ucast (drop_bit k (v :: 'a :: len word) AND 0xFF) :: u8)) :: 'a word) n
     = (k \<le> n \<and> n < k + 8 \<and> n < LENGTH('a) \<and> bit v n)"
  unfolding mask8_numeral by (auto simp: bit_simps)

lemmas byte_lane0 = byte_lane [where k = 0, simplified]

lemma le16_round [le_simps]:
  "le16_get (ucast (v AND 0xFF)) (ucast (drop_bit 8 v AND 0xFF)) = v"
  unfolding le16_get_def
  by (rule bit_word_eqI) (simp only: bit_or_iff byte_lane byte_lane0, auto)

lemma le32_round [le_simps]:
  "le32_get (ucast (v AND 0xFF)) (ucast (drop_bit 8 v AND 0xFF))
     (ucast (drop_bit 16 v AND 0xFF)) (ucast (drop_bit 24 v AND 0xFF)) = v"
  unfolding le32_get_def
  by (rule bit_word_eqI) (simp only: bit_or_iff byte_lane byte_lane0, auto)

lemma le64_round [le_simps]:
  "le64_get (ucast (v AND 0xFF)) (ucast (drop_bit 8 v AND 0xFF))
     (ucast (drop_bit 16 v AND 0xFF)) (ucast (drop_bit 24 v AND 0xFF))
     (ucast (drop_bit 32 v AND 0xFF)) (ucast (drop_bit 40 v AND 0xFF))
     (ucast (drop_bit 48 v AND 0xFF)) (ucast (drop_bit 56 v AND 0xFF)) = v"
  unfolding le64_get_def
  by (rule bit_word_eqI) (simp only: bit_or_iff byte_lane byte_lane0, auto)

lemma le16_put_get: "le16_put (le16_get a b) = [a, b]"
proof -
  have "ucast (le16_get a b AND 0xFF) = a"
    unfolding le16_get_def mask8_numeral
    by (rule bit_word_eqI) (auto simp: bit_simps dest: bit_u8_imp)
  moreover have "ucast (drop_bit 8 (le16_get a b) AND 0xFF) = b"
    unfolding le16_get_def mask8_numeral
    by (rule bit_word_eqI) (auto simp: bit_simps dest: bit_u8_imp)
  ultimately show ?thesis by (simp add: le16_put_def)
qed

lemma le32_put_get: "le32_put (le32_get a b c d) = [a, b, c, d]"
proof -
  have "ucast (le32_get a b c d AND 0xFF) = a"
    "ucast (drop_bit 8 (le32_get a b c d) AND 0xFF) = b"
    "ucast (drop_bit 16 (le32_get a b c d) AND 0xFF) = c"
    "ucast (drop_bit 24 (le32_get a b c d) AND 0xFF) = d"
    unfolding le32_get_def mask8_numeral
    by (rule bit_word_eqI; auto simp: bit_simps dest: bit_u8_imp)+
  then show ?thesis by (simp add: le32_put_def)
qed

text \<open>Reads of a little-endian field at an offset of a buffer.\<close>

definition le16_at :: "u8 list \<Rightarrow> nat \<Rightarrow> u16" where
  "le16_at p i = le16_get (p ! i) (p ! (i + 1))"

definition le32_at :: "u8 list \<Rightarrow> nat \<Rightarrow> u32" where
  "le32_at p i = le32_get (p ! i) (p ! (i + 1)) (p ! (i + 2)) (p ! (i + 3))"

definition le64_at :: "u8 list \<Rightarrow> nat \<Rightarrow> u64" where
  "le64_at p i = le64_get (p ! i) (p ! (i + 1)) (p ! (i + 2)) (p ! (i + 3))
     (p ! (i + 4)) (p ! (i + 5)) (p ! (i + 6)) (p ! (i + 7))"

lemmas le_put_defs = le16_put_def le32_put_def le64_put_def
lemmas le_at_defs = le16_at_def le32_at_def le64_at_def

lemma le_at_append [buf_simps]:
  "i + 2 \<le> length p \<Longrightarrow> le16_at (p @ xs) i = le16_at p i"
  "i + 4 \<le> length p \<Longrightarrow> le32_at (p @ xs) i = le32_at p i"
  "i + 8 \<le> length p \<Longrightarrow> le64_at (p @ xs) i = le64_at p i"
  by (simp_all add: le_at_defs nth_append)

text \<open>\<open>memcpy(buf + off, src, n)\<close> within a buffer, with \<open>src\<close> the \<open>n\<close> bytes.\<close>

definition mem_put :: "u8 list \<Rightarrow> nat \<Rightarrow> u8 list \<Rightarrow> u8 list" where
  "mem_put buf off src = take off buf @ src @ drop (off + length src) buf"

lemma length_mem_put [buf_simps]:
  "off + length src \<le> length buf \<Longrightarrow> length (mem_put buf off src) = length buf"
  by (simp add: mem_put_def)

lemma nth_mem_put [buf_simps]:
  "off + length src \<le> length buf \<Longrightarrow>
     mem_put buf off src ! p =
       (if off \<le> p \<and> p < off + length src then src ! (p - off) else buf ! p)"
  by (auto simp: mem_put_def nth_append)

section \<open>Character arrays\<close>

text \<open>
  A \<open>char\<close> array is the list of its bytes. \<open>strnlen\<close> is the library function, \<open>cstr\<close> the
  string an array holds, and \<open>put_cstr\<close> the pair \<open>memcpy(d, s, n); d[n] = 0\<close> into an array
  that is long enough.
\<close>

definition strnlen :: "u8 list \<Rightarrow> nat \<Rightarrow> nat" where
  "strnlen s n = length (takeWhile (\<lambda>c. c \<noteq> 0) (take n s))"

definition cstr :: "u8 list \<Rightarrow> u8 list" where
  "cstr s = takeWhile (\<lambda>c. c \<noteq> 0) s"

definition put_cstr :: "u8 list \<Rightarrow> u8 list \<Rightarrow> u8 list" where
  "put_cstr d s = s @ 0 # drop (length s + 1) d"

lemma cstr_put_cstr [buf_simps]: "0 \<notin> set s \<Longrightarrow> cstr (put_cstr d s) = s"
  unfolding cstr_def put_cstr_def by (subst takeWhile_append2) auto

lemma take_put_cstr [buf_simps]: "n \<le> length s \<Longrightarrow> take n (put_cstr d s) = take n s"
  by (simp add: put_cstr_def)

lemma length_put_cstr [buf_simps]: "length s < length d \<Longrightarrow> length (put_cstr d s) = length d"
  by (simp add: put_cstr_def)

lemma take_strnlen: "strnlen s n < n \<Longrightarrow> take (strnlen s n) s = cstr s"
proof (induction n arbitrary: s)
  case (Suc n)
  then show ?case by (cases s) (auto simp: strnlen_def cstr_def)
qed simp

lemma take_length_cstr: "take (length (cstr s)) s = cstr s"
  by (simp add: cstr_def flip: takeWhile_eq_take)

lemma cstr_no_nul: "0 \<notin> set (cstr s)"
  by (auto simp: cstr_def dest: set_takeWhileD)

section \<open>Formatted numbers\<close>

text \<open>The \<open>%u\<close> of \<open>snprintf\<close>.\<close>

fun show_dec :: "nat \<Rightarrow> string" where
  "show_dec n =
     (if n < 10 then [''0123456789'' ! n] else show_dec (n div 10) @ [''0123456789'' ! (n mod 10)])"

declare show_dec.simps [simp del]

section \<open>Lists\<close>

text \<open>The \<open>i\<close>th record of an array of records of \<open>k\<close> bytes.\<close>

lemma drop_concat_records:
  assumes "\<forall>x \<in> set xs. length (f x) = k" "i < length xs"
  shows "drop (i * k) (concat (map f xs)) = f (xs ! i) @ drop ((i + 1) * k) (concat (map f xs))"
  using assms
proof (induction xs arbitrary: i)
  case (Cons x xs)
  then show ?case by (cases i) simp_all
qed simp

lemma length_concat_records:
  "\<forall>x \<in> set xs. length (f x) = k \<Longrightarrow> length (concat (map f xs)) = length xs * k"
  by (induction xs) simp_all

lemma set_takeWhile_insert: "set (takeWhile P q @ e # dropWhile P q) = insert e (set q)"
  by (induction q) auto

lemma length_takeWhile_insert: "length (takeWhile P q @ e # dropWhile P q) = Suc (length q)"
  by (induction q) auto

lemma map_nth_upt_take: "n \<le> length xs \<Longrightarrow> map ((!) xs) [0 ..< n] = take n xs"
  by (rule nth_equalityI) simp_all

lemma nth_append_less: "i < length p \<Longrightarrow> (p @ xs) ! i = p ! i"
  by (simp add: nth_append)

text \<open>A search loop: the first index whose element satisfies the test.\<close>

fun first_idx :: "('a \<Rightarrow> bool) \<Rightarrow> 'a list \<Rightarrow> nat option" where
  "first_idx P [] = None"
| "first_idx P (x # xs) = (if P x then Some 0 else map_option Suc (first_idx P xs))"

lemma first_idx_None: "first_idx P xs = None \<longleftrightarrow> (\<forall>x \<in> set xs. \<not> P x)"
  by (induction xs) auto

lemma first_idx_None_nth: "first_idx P xs = None \<longleftrightarrow> (\<forall>k < length xs. \<not> P (xs ! k))"
  by (simp add: first_idx_None all_set_conv_all_nth)

lemma first_idx_Some:
  "first_idx P xs = Some i \<Longrightarrow> i < length xs \<and> P (xs ! i) \<and> (\<forall>j < i. \<not> P (xs ! j))"
proof (induction xs arbitrary: i)
  case (Cons x xs)
  then show ?case by (cases i) (auto simp: less_Suc_eq_0_disj split: if_splits)
qed simp

lemma first_idx_eq_Some:
  assumes "i < length xs" "P (xs ! i)" "\<forall>j < length xs. P (xs ! j) \<longrightarrow> j = i"
  shows "first_idx P xs = Some i"
proof (cases "first_idx P xs")
  case None
  with assms(1,2) show ?thesis by (auto simp: first_idx_None)
next
  case (Some k)
  with first_idx_Some [OF Some] assms(3) show ?thesis by auto
qed

section \<open>Results\<close>

text \<open>
  A function that can fail returns \<open>Inl e\<close> or \<open>Inr x\<close>; \<open>ebind\<close> is its sequencing with early
  return, \<open>need e\<close> turns a missing value into the error \<open>e\<close>, and \<open>efold\<close> is a loop with an
  early return.
\<close>

definition ebind :: "'e + 'a \<Rightarrow> ('a \<Rightarrow> 'e + 'b) \<Rightarrow> 'e + 'b" where
  "ebind m f = (case m of Inl e \<Rightarrow> Inl e | Inr x \<Rightarrow> f x)"

lemma ebind_simps [simp]: "ebind (Inl e) f = Inl e" "ebind (Inr x) f = f x"
  by (simp_all add: ebind_def)

lemma ebind_eq_Inr: "ebind m f = Inr y \<longleftrightarrow> (\<exists>x. m = Inr x \<and> f x = Inr y)"
  by (cases m) simp_all

definition need :: "'e \<Rightarrow> 'a option \<Rightarrow> 'e + 'a" where
  "need e x = (case x of None \<Rightarrow> Inl e | Some y \<Rightarrow> Inr y)"

lemma need_simps [simp]: "need e None = Inl e" "need e (Some y) = Inr y"
  by (simp_all add: need_def)

lemma need_eq_Inr: "need e x = Inr y \<longleftrightarrow> x = Some y"
  by (cases x) simp_all

definition guard_not :: "bool \<Rightarrow> 'e \<Rightarrow> 'e + unit" where
  "guard_not bad e = (if bad then Inl e else Inr ())"

lemma guard_not_eq_Inr: "guard_not bad e = Inr u \<longleftrightarrow> \<not> bad"
  by (simp add: guard_not_def)

fun efold :: "('a \<Rightarrow> 's \<Rightarrow> 'e + 's) \<Rightarrow> 'a list \<Rightarrow> 's \<Rightarrow> 'e + 's" where
  "efold f [] s = Inr s"
| "efold f (x # xs) s = ebind (f x s) (efold f xs)"

lemmas result_simps = ebind_eq_Inr need_eq_Inr guard_not_eq_Inr

section \<open>Flash writes\<close>

text \<open>
  What a write of a key of the flash store meets: the namespace does not open, the value is not
  accepted, the commit fails (the argument says whether the value is there nevertheless), or it is done.
\<close>

datatype nvs_result = NvsOpenFails | NvsSetFails | NvsCommitFails bool | NvsDone

section \<open>Machines driven by a list of events\<close>

text \<open>
  Every stateful component below is an operation \<open>state \<Rightarrow> event \<Rightarrow> state \<times> output\<close>; a run
  feeds it a list of events. The interface \<open>step_invariant\<close> is what a component promises
  about one step, and what holds of its runs is proved once here.
\<close>

fun run_steps :: "('s \<Rightarrow> 'e \<Rightarrow> 's \<times> 'o) \<Rightarrow> 's \<Rightarrow> 'e list \<Rightarrow> 's \<times> 'o list" where
  "run_steps step s [] = (s, [])"
| "run_steps step s (e # es) =
     (let (s', out) = step s e; (s'', outs) = run_steps step s' es in (s'', out # outs))"

lemma run_steps_Cons [simp]:
  "fst (run_steps step s (e # es)) = fst (run_steps step (fst (step s e)) es)"
  "snd (run_steps step s (e # es)) = snd (step s e) # snd (run_steps step (fst (step s e)) es)"
  by (simp_all add: split_def Let_def)

lemma run_steps_append:
  "fst (run_steps step s (xs @ ys)) = fst (run_steps step (fst (run_steps step s xs)) ys)"
  "snd (run_steps step s (xs @ ys)) =
     snd (run_steps step s xs) @ snd (run_steps step (fst (run_steps step s xs)) ys)"
  by (induction xs arbitrary: s) (simp_all del: run_steps.simps(2))

declare run_steps.simps(2) [simp del]

lemma length_run_steps [simp]: "length (snd (run_steps step s es)) = length es"
  by (induction es arbitrary: s) simp_all

text \<open>Some components rely on their caller for a property of the event: \<open>ev_ok\<close>.\<close>

locale guarded_invariant =
  fixes step :: "'s \<Rightarrow> 'e \<Rightarrow> 's \<times> 'o"
    and inv :: "'s \<Rightarrow> bool"
    and ev_ok :: "'e \<Rightarrow> bool"
  assumes guarded_keeps: "inv s \<Longrightarrow> ev_ok e \<Longrightarrow> inv (fst (step s e))"
begin

lemma guarded_run_keeps: "inv s \<Longrightarrow> \<forall>e \<in> set es. ev_ok e \<Longrightarrow> inv (fst (run_steps step s es))"
  by (induction es arbitrary: s) (simp_all add: guarded_keeps)

lemma guarded_run_outputs:
  assumes "inv s" "\<forall>e \<in> set es. ev_ok e" and "\<And>s e. inv s \<Longrightarrow> ev_ok e \<Longrightarrow> P e (snd (step s e))"
  shows "list_all2 P es (snd (run_steps step s es))"
  using assms(1,2)
proof (induction es arbitrary: s)
  case (Cons e es)
  then show ?case using assms(3) [of s e] by (simp add: guarded_keeps)
qed simp

end

locale step_invariant =
  fixes step :: "'s \<Rightarrow> 'e \<Rightarrow> 's \<times> 'o"
    and inv :: "'s \<Rightarrow> bool"
  assumes step_keeps: "inv s \<Longrightarrow> inv (fst (step s e))"

sublocale step_invariant \<subseteq> guarded_invariant step inv "\<lambda>_. True"
  by unfold_locales (rule step_keeps)

context step_invariant
begin

lemma run_keeps: "inv s \<Longrightarrow> inv (fst (run_steps step s es))"
  by (rule guarded_run_keeps) simp_all

lemma run_outputs:
  assumes "inv s" and "\<And>s e. inv s \<Longrightarrow> P (snd (step s e))"
  shows "\<forall>out \<in> set (snd (run_steps step s es)). P out"
proof -
  have "list_all2 (\<lambda>_. P) es (snd (run_steps step s es))"
    by (rule guarded_run_outputs [OF assms(1)]) (simp_all add: assms(2))
  then show ?thesis by (auto simp: list_all2_conv_all_nth in_set_conv_nth)
qed

end

end
