(* ===== verification/Ring_Dup.thy ===== *)
theory Ring_Dup
  imports HG_Prelude
begin

text \<open>
  \<^verbatim>\<open>components/ring_proto/ring_dup.c\<close>: the one-slot cache that makes tracked commands
  at-most-once at the zone. A retransmission of the frame in execution is absorbed, one that
  arrives within 3000 ms of its completion is answered from the cache, and only a frame with
  another sequence number, or a repeat after the window, executes.
\<close>

datatype dup_verdict = DUP_EXEC | DUP_ABSORB | DUP_REPLAY

text \<open>\<open>state\<close> holds 0, \<open>RING_DUP_ABSORB\<close> (1) or \<open>RING_DUP_REPLAY\<close> (2).\<close>

definition RING_DUP_ABSORB :: u8 where "RING_DUP_ABSORB = 1"
definition RING_DUP_REPLAY :: u8 where "RING_DUP_REPLAY = 2"

record ring_dup =
  dup_seq :: u16
  dup_state :: u8
  dup_status :: u8
  dup_t_ms :: u32
  dup_detail :: "u8 list"

definition ring_dup_init :: ring_dup where
  "ring_dup_init = \<lparr>dup_seq = 0, dup_state = 0, dup_status = 0, dup_t_ms = 0, dup_detail = []\<rparr>"

definition ring_dup_check :: "ring_dup \<Rightarrow> u16 \<Rightarrow> u32 \<Rightarrow> dup_verdict" where
  "ring_dup_check c seq now =
     (if dup_seq c \<noteq> seq then DUP_EXEC
      else if dup_state c = RING_DUP_ABSORB then DUP_ABSORB
      else if dup_state c = RING_DUP_REPLAY then
        (if now - dup_t_ms c \<le> 3000 then DUP_REPLAY else DUP_EXEC)
      else DUP_EXEC)"

definition ring_dup_start :: "ring_dup \<Rightarrow> u16 \<Rightarrow> u32 \<Rightarrow> ring_dup" where
  "ring_dup_start c seq now =
     c\<lparr>dup_seq := seq, dup_state := RING_DUP_ABSORB, dup_status := 0, dup_t_ms := now,
       dup_detail := []\<rparr>"

text \<open>
  \<open>detail\<close> is a C string, \<open>None\<close> for NULL; \<open>strncpy\<close> keeps its first 125 bytes.
\<close>

definition ring_dup_done ::
  "ring_dup \<Rightarrow> u16 \<Rightarrow> u8 \<Rightarrow> u8 list option \<Rightarrow> u32 \<Rightarrow> ring_dup" where
  "ring_dup_done c seq status detail now =
     (if dup_seq c \<noteq> seq then c
      else
        let c1 = c\<lparr>dup_state := RING_DUP_REPLAY, dup_t_ms := now, dup_status := status\<rparr>
        in case detail of None \<Rightarrow> c1 | Some d \<Rightarrow> c1\<lparr>dup_detail := take 125 d\<rparr>)"

lemmas ring_dup_defs = ring_dup_init_def ring_dup_check_def ring_dup_start_def ring_dup_done_def
  RING_DUP_ABSORB_def RING_DUP_REPLAY_def

section \<open>The zone's use of the cache\<close>

text \<open>
  \<^verbatim>\<open>zone/main/zone_ring.c\<close>, \<open>zring_dup_begin\<close>: what an arriving tracked frame does.
  \<open>DupRun\<close> is the return 0 (the caller executes it), the other two return 1.
\<close>

datatype dup_action = DupSilent | DupReply u8 "u8 list" | DupRun

definition zring_dup_begin :: "ring_dup \<Rightarrow> u16 \<Rightarrow> u32 \<Rightarrow> ring_dup \<times> dup_action" where
  "zring_dup_begin c seq now =
     (case ring_dup_check c seq now of
        DUP_ABSORB \<Rightarrow> (c, DupSilent)
      | DUP_REPLAY \<Rightarrow> (c, DupReply (dup_status c) (dup_detail c))
      | DUP_EXEC \<Rightarrow> (ring_dup_start c seq now, DupRun))"

text \<open>Arrivals and completions, in the order the zone's task sees them.\<close>

datatype dup_event = Arrive u16 u32 | Complete u16 u8 "u8 list" u32

fun dup_step :: "ring_dup \<Rightarrow> dup_event \<Rightarrow> ring_dup \<times> dup_action" where
  "dup_step c (Arrive seq now) = zring_dup_begin c seq now"
| "dup_step c (Complete seq status detail now) =
     (ring_dup_done c seq status (Some detail) now, DupSilent)"

text \<open>
  A retransmission burst of one frame: the event is an arrival of \<open>seq\<close>, or the completion of
  \<open>seq\<close>, and no arrival comes later than 3000 ms after the completion before it.
\<close>

fun dup_burst :: "u16 \<Rightarrow> u32 option \<Rightarrow> dup_event list \<Rightarrow> bool" where
  "dup_burst seq fin [] = True"
| "dup_burst seq fin (Arrive s now # es) =
     (s = seq \<and> (case fin of None \<Rightarrow> True | Some t \<Rightarrow> now - t \<le> 3000) \<and> dup_burst seq fin es)"
| "dup_burst seq fin (Complete s status detail now # es) =
     (s = seq \<and> dup_burst seq (Some now) es)"

definition dup_holds :: "ring_dup \<Rightarrow> u16 \<Rightarrow> u32 option \<Rightarrow> bool" where
  "dup_holds c seq fin \<longleftrightarrow> dup_seq c = seq \<and>
     (case fin of None \<Rightarrow> dup_state c = RING_DUP_ABSORB
      | Some t \<Rightarrow> dup_state c = RING_DUP_REPLAY \<and> dup_t_ms c = t)"

lemma dup_burst_no_run:
  "dup_holds c seq fin \<Longrightarrow> dup_burst seq fin es \<Longrightarrow> DupRun \<notin> set (snd (run_steps dup_step c es))"
proof (induction es arbitrary: c fin)
  case Nil
  then show ?case by simp
next
  case (Cons e es)
  show ?case
  proof (cases e)
    case (Arrive s now)
    with Cons.prems have "snd (dup_step c e) \<noteq> DupRun" "fst (dup_step c e) = c"
      by (auto simp: zring_dup_begin_def ring_dup_defs dup_holds_def split: option.splits)
    with Cons Arrive show ?thesis by auto
  next
    case (Complete s status detail now)
    with Cons.prems have "dup_holds (fst (dup_step c e)) seq (Some now)"
      by (auto simp: ring_dup_defs dup_holds_def)
    with Cons Complete show ?thesis by auto
  qed
qed

lemma dup_begin_holds:
  "snd (zring_dup_begin c seq now) = DupRun \<Longrightarrow>
     dup_holds (fst (zring_dup_begin c seq now)) seq None"
  by (auto simp: zring_dup_begin_def ring_dup_defs dup_holds_def split: dup_verdict.splits if_splits)

lemma dup_done_replays:
  assumes "dup_seq c = seq" "later - now \<le> 3000"
  shows "snd (zring_dup_begin (ring_dup_done c seq status (Some detail) now) seq later)
    = DupReply status (take 125 detail)"
  using assms by (simp add: zring_dup_begin_def ring_dup_defs)

section \<open>Properties\<close>

text \<open>Once a tracked frame has been dispatched, no retransmission of it runs again: not while it is in execution, and not within 3000 ms of its completion, however the arrivals and completions interleave.\<close>

lemma at_most_once:
  assumes "snd (zring_dup_begin c seq now) = DupRun" "dup_burst seq None es"
  shows "DupRun \<notin> set (snd (run_steps dup_step (fst (zring_dup_begin c seq now)) es))"
  using dup_burst_no_run [OF dup_begin_holds [OF assms(1)] assms(2)] .

lemma at_most_once_witness:
  "DupRun \<notin> set (snd (run_steps dup_step (fst (zring_dup_begin ring_dup_init 7 0))
     [Arrive 7 500, Complete 7 0 [79, 75] 3600, Arrive 7 4000]))"
  by (rule at_most_once) (simp_all add: zring_dup_begin_def ring_dup_defs)

end
