(* ===== verification/Ring_Crc.thy ===== *)
theory Ring_Crc
  imports HG_Prelude
begin

text \<open>
  \<^verbatim>\<open>components/ring_proto/ring_crc.c\<close>: the CRC-16/CCITT-FALSE of a ring frame, computed
  byte by byte from a table. The table-driven routine is proved equal to the bitwise shift
  register it tabulates, and the error detection the link layer relies on is proved of it: no
  change of a frame that stays within two adjacent bytes keeps its checksum.
\<close>

section \<open>The table-driven routine\<close>

definition crc16_table :: "u16 list" where
  "crc16_table = [
    0x0000, 0x1021, 0x2042, 0x3063, 0x4084, 0x50A5, 0x60C6, 0x70E7,
    0x8108, 0x9129, 0xA14A, 0xB16B, 0xC18C, 0xD1AD, 0xE1CE, 0xF1EF,
    0x1231, 0x0210, 0x3273, 0x2252, 0x52B5, 0x4294, 0x72F7, 0x62D6,
    0x9339, 0x8318, 0xB37B, 0xA35A, 0xD3BD, 0xC39C, 0xF3FF, 0xE3DE,
    0x2462, 0x3443, 0x0420, 0x1401, 0x64E6, 0x74C7, 0x44A4, 0x5485,
    0xA56A, 0xB54B, 0x8528, 0x9509, 0xE5EE, 0xF5CF, 0xC5AC, 0xD58D,
    0x3653, 0x2672, 0x1611, 0x0630, 0x76D7, 0x66F6, 0x5695, 0x46B4,
    0xB75B, 0xA77A, 0x9719, 0x8738, 0xF7DF, 0xE7FE, 0xD79D, 0xC7BC,
    0x48C4, 0x58E5, 0x6886, 0x78A7, 0x0840, 0x1861, 0x2802, 0x3823,
    0xC9CC, 0xD9ED, 0xE98E, 0xF9AF, 0x8948, 0x9969, 0xA90A, 0xB92B,
    0x5AF5, 0x4AD4, 0x7AB7, 0x6A96, 0x1A71, 0x0A50, 0x3A33, 0x2A12,
    0xDBFD, 0xCBDC, 0xFBBF, 0xEB9E, 0x9B79, 0x8B58, 0xBB3B, 0xAB1A,
    0x6CA6, 0x7C87, 0x4CE4, 0x5CC5, 0x2C22, 0x3C03, 0x0C60, 0x1C41,
    0xEDAE, 0xFD8F, 0xCDEC, 0xDDCD, 0xAD2A, 0xBD0B, 0x8D68, 0x9D49,
    0x7E97, 0x6EB6, 0x5ED5, 0x4EF4, 0x3E13, 0x2E32, 0x1E51, 0x0E70,
    0xFF9F, 0xEFBE, 0xDFDD, 0xCFFC, 0xBF1B, 0xAF3A, 0x9F59, 0x8F78,
    0x9188, 0x81A9, 0xB1CA, 0xA1EB, 0xD10C, 0xC12D, 0xF14E, 0xE16F,
    0x1080, 0x00A1, 0x30C2, 0x20E3, 0x5004, 0x4025, 0x7046, 0x6067,
    0x83B9, 0x9398, 0xA3FB, 0xB3DA, 0xC33D, 0xD31C, 0xE37F, 0xF35E,
    0x02B1, 0x1290, 0x22F3, 0x32D2, 0x4235, 0x5214, 0x6277, 0x7256,
    0xB5EA, 0xA5CB, 0x95A8, 0x8589, 0xF56E, 0xE54F, 0xD52C, 0xC50D,
    0x34E2, 0x24C3, 0x14A0, 0x0481, 0x7466, 0x6447, 0x5424, 0x4405,
    0xA7DB, 0xB7FA, 0x8799, 0x97B8, 0xE75F, 0xF77E, 0xC71D, 0xD73C,
    0x26D3, 0x36F2, 0x0691, 0x16B0, 0x6657, 0x7676, 0x4615, 0x5634,
    0xD94C, 0xC96D, 0xF90E, 0xE92F, 0x99C8, 0x89E9, 0xB98A, 0xA9AB,
    0x5844, 0x4865, 0x7806, 0x6827, 0x18C0, 0x08E1, 0x3882, 0x28A3,
    0xCB7D, 0xDB5C, 0xEB3F, 0xFB1E, 0x8BF9, 0x9BD8, 0xABBB, 0xBB9A,
    0x4A75, 0x5A54, 0x6A37, 0x7A16, 0x0AF1, 0x1AD0, 0x2AB3, 0x3A92,
    0xFD2E, 0xED0F, 0xDD6C, 0xCD4D, 0xBDAA, 0xAD8B, 0x9DE8, 0x8DC9,
    0x7C26, 0x6C07, 0x5C64, 0x4C45, 0x3CA2, 0x2C83, 0x1CE0, 0x0CC1,
    0xEF1F, 0xFF3E, 0xCF5D, 0xDF7C, 0xAF9B, 0xBFBA, 0x8FD9, 0x9FF8,
    0x6E17, 0x7E36, 0x4E55, 0x5E74, 0x2E93, 0x3EB2, 0x0ED1, 0x1EF0]"

definition ring_crc16_step :: "u16 \<Rightarrow> u8 \<Rightarrow> u16" where
  "ring_crc16_step crc b =
     (let tbl_idx = (ucast (drop_bit 8 crc XOR ucast b) :: u8)
      in push_bit 8 crc XOR crc16_table ! unat tbl_idx)"

definition ring_crc16 :: "u8 list \<Rightarrow> u16" where
  "ring_crc16 p = foldl ring_crc16_step 0xFFFF p"

section \<open>The shift register it tabulates\<close>

definition crc16_bit :: "u16 \<Rightarrow> u16" where
  "crc16_bit c = (if bit c 15 then push_bit 1 c XOR 0x1021 else push_bit 1 c)"

definition crc16_byte :: "u16 \<Rightarrow> u16" where
  "crc16_byte c = crc16_bit (crc16_bit (crc16_bit (crc16_bit (crc16_bit (crc16_bit
     (crc16_bit (crc16_bit c)))))))"

definition crc16_ref :: "u8 list \<Rightarrow> u16" where
  "crc16_ref p = foldl (\<lambda>c b. crc16_byte (c XOR push_bit 8 (ucast b))) 0xFFFF p"

section \<open>The table is the register's table\<close>

fun crc_tab_ok :: "u16 \<Rightarrow> u16 list \<Rightarrow> bool" where
  "crc_tab_ok c [] = True"
| "crc_tab_ok c (t # ts) = (t = crc16_byte c \<and> crc_tab_ok (c + 0x100) ts)"

lemma crc_tab_ok_nth:
  "crc_tab_ok c ts \<Longrightarrow> i < length ts \<Longrightarrow> ts ! i = crc16_byte (c + of_nat i * 0x100)"
proof (induction ts arbitrary: c i)
  case Nil
  then show ?case by simp
next
  case (Cons t ts)
  show ?case
  proof (cases i)
    case 0
    with Cons.prems show ?thesis by simp
  next
    case (Suc j)
    with Cons.prems have "ts ! j = crc16_byte (c + 0x100 + of_nat j * 0x100)"
      by (intro Cons.IH) simp_all
    then show ?thesis by (simp add: Suc algebra_simps)
  qed
qed

lemma crc16_table_ok: "crc_tab_ok 0 crc16_table"
  by (simp add: crc16_byte_def crc16_bit_def crc16_table_def)

lemma length_crc16_table: "length crc16_table = 256"
  by (simp add: crc16_table_def)

lemma crc16_table_nth: "crc16_table ! unat (h :: u8) = crc16_byte (push_bit 8 (ucast h))"
  using crc_tab_ok_nth [OF crc16_table_ok, of "unat h"]
  by (simp add: length_crc16_table push_bit_eq_mult)

lemma crc16_bit_xor: "crc16_bit (a XOR b) = crc16_bit a XOR crc16_bit b"
  by (rule bit_word_eqI) (auto simp: crc16_bit_def bit_xor_iff bit_push_bit_iff)

lemma crc16_byte_xor: "crc16_byte (a XOR b) = crc16_byte a XOR crc16_byte b"
  by (simp add: crc16_byte_def crc16_bit_xor)

lemma crc16_bit_low:
  "k < 8 \<Longrightarrow> crc16_bit (push_bit k (c AND 0xFF)) = push_bit (Suc k) (c AND 0xFF)"
  by (auto simp: crc16_bit_def mask8_numeral bit_simps)

lemma crc16_byte_low: "crc16_byte (c AND 0xFF) = push_bit 8 c"
proof -
  have "crc16_byte (c AND 0xFF) = push_bit 8 (c AND 0xFF)"
    unfolding crc16_byte_def
    using crc16_bit_low [of 0 c] crc16_bit_low [of 1 c] crc16_bit_low [of 2 c]
      crc16_bit_low [of 3 c] crc16_bit_low [of 4 c] crc16_bit_low [of 5 c]
      crc16_bit_low [of 6 c] crc16_bit_low [of 7 c]
    by (simp add: numeral_eq_Suc)
  also have "\<dots> = push_bit 8 c"
    unfolding mask8_numeral by (rule bit_word_eqI) (auto simp: bit_simps)
  finally show ?thesis .
qed

lemma crc16_byte_ucast: "crc16_byte (ucast (b :: u8)) = push_bit 8 (ucast b)"
proof -
  have "(ucast b :: u16) = ucast b AND 0xFF"
    unfolding mask8_numeral by (rule bit_word_eqI) (auto simp: bit_simps dest: bit_u8_imp)
  then show ?thesis by (metis crc16_byte_low)
qed

lemma ring_crc16_step_byte: "ring_crc16_step c b = crc16_byte (c XOR push_bit 8 (ucast b))"
proof -
  define h where "h = (ucast (drop_bit 8 c XOR ucast b) :: u8)"
  have "c XOR push_bit 8 (ucast b) = push_bit 8 (ucast h) XOR (c AND 0xFF)"
    unfolding mask8_numeral h_def by (rule bit_word_eqI) (auto simp: bit_simps)
  then have "crc16_byte (c XOR push_bit 8 (ucast b)) =
      crc16_byte (push_bit 8 (ucast h)) XOR push_bit 8 c"
    by (simp only: crc16_byte_xor crc16_byte_low)
  moreover have "ring_crc16_step c b = push_bit 8 c XOR crc16_byte (push_bit 8 (ucast h))"
    by (simp only: ring_crc16_step_def Let_def crc16_table_nth h_def)
  ultimately show ?thesis by (simp only: xor.commute)
qed

lemma ring_crc16_eq_ref: "ring_crc16 p = crc16_ref p"
  unfolding ring_crc16_def crc16_ref_def ring_crc16_step_byte ..

section \<open>Error detection\<close>

lemma crc16_bit_kernel: "crc16_bit c = 0 \<Longrightarrow> c = 0"
proof -
  assume z: "crc16_bit c = 0"
  have top: "\<not> bit c 15"
  proof
    assume "bit c 15"
    moreover have "bit (push_bit 1 c XOR 0x1021) 0"
      by (simp only: bit_xor_iff bit_push_bit_iff) simp
    ultimately have "bit (crc16_bit c) 0" by (simp only: crc16_bit_def if_True)
    with z show False by simp
  qed
  with z have p: "push_bit 1 c = 0" by (simp add: crc16_bit_def)
  show "c = 0"
  proof (rule bit_word_eqI)
    fix n assume n: "n < LENGTH(16)"
    show "bit c n = bit (0 :: u16) n"
    proof (cases "n = 15")
      case True with top show ?thesis by simp
    next
      case False
      have "bit (push_bit 1 c) (Suc n) = bit c n"
        by (simp only: bit_push_bit_iff, use n False in auto)
      with p show ?thesis by simp
    qed
  qed
qed

lemma crc16_bit_eq_iff: "(crc16_bit a = crc16_bit b) = (a = b)"
  using crc16_bit_kernel [of "a XOR b"] by (auto simp: crc16_bit_xor word_xor_eq_0)

lemma crc16_byte_eq_iff: "(crc16_byte a = crc16_byte b) = (a = b)"
  by (simp add: crc16_byte_def crc16_bit_eq_iff)

lemma ring_crc16_step_inj: "(ring_crc16_step c x = ring_crc16_step d x) = (c = d)"
  by (simp add: ring_crc16_step_byte word_xor_right_cancel crc16_byte_eq_iff)

lemma crc_foldl_inj: "foldl ring_crc16_step c p = foldl ring_crc16_step d p \<Longrightarrow> c = d"
proof (induction p arbitrary: c d)
  case Nil
  then show ?case by simp
next
  case (Cons x p)
  then have "ring_crc16_step c x = ring_crc16_step d x" by simp
  then show ?case by (simp add: ring_crc16_step_inj)
qed

lemma crc_two_bytes:
  "ring_crc16_step (ring_crc16_step c a) b =
     crc16_byte (crc16_byte (c XOR (push_bit 8 (ucast a) XOR ucast b)))"
  by (simp add: ring_crc16_step_byte crc16_byte_xor crc16_byte_ucast ac_simps)

lemma two_bytes_inj:
  fixes a b a' b' :: u8
  assumes "push_bit 8 (ucast a) XOR ucast b = (push_bit 8 (ucast a') XOR ucast b' :: u16)"
  shows "a = a' \<and> b = b'"
proof -
  have *: "bit (push_bit 8 (ucast a) XOR ucast b :: u16) n =
      bit (push_bit 8 (ucast a') XOR ucast b' :: u16) n" for n
    by (simp only: assms)
  have "a = a'"
  proof (rule bit_word_eqI)
    fix n assume "n < LENGTH(8)"
    with * [of "n + 8"] show "bit a n = bit a' n" by (auto simp: bit_simps dest: bit_u8_imp)
  qed
  moreover have "b = b'"
  proof (rule bit_word_eqI)
    fix n assume "n < LENGTH(8)"
    with * [of n] show "bit b n = bit b' n" by (auto simp: bit_simps)
  qed
  ultimately show ?thesis ..
qed

lemma ring_crc16_detects_burst:
  assumes "ring_crc16 (pre @ a # b # post) = ring_crc16 (pre @ a' # b' # post)"
  shows "a = a' \<and> b = b'"
proof -
  let ?c = "foldl ring_crc16_step 0xFFFF pre"
  from assms have "ring_crc16_step (ring_crc16_step ?c a) b = ring_crc16_step (ring_crc16_step ?c a') b'"
    by (auto simp: ring_crc16_def dest: crc_foldl_inj)
  then show ?thesis
    unfolding crc_two_bytes crc16_byte_eq_iff word_xor_left_cancel by (rule two_bytes_inj)
qed

section \<open>Properties\<close>

text \<open>No damage that stays within two adjacent bytes of a frame keeps its checksum.\<close>

lemma crc_detects_two_adjacent_bytes:
  "(a, b) \<noteq> (a', b') \<Longrightarrow>
     ring_crc16 (pre @ a # b # post) \<noteq> ring_crc16 (pre @ a' # b' # post)"
  by (auto dest: ring_crc16_detects_burst)

lemma crc_detects_two_adjacent_bytes_witness:
  "ring_crc16 ([1, 2] @ 3 # 4 # [5]) \<noteq> ring_crc16 ([1, 2] @ 0 # 7 # [5])"
  by (rule crc_detects_two_adjacent_bytes) simp

text \<open>The table-driven CRC of a ring frame equals the bitwise CCITT-FALSE shift register on every byte string.\<close>

lemma crc_is_shift_register:
  "ring_crc16 p = crc16_ref p"
  by (rule ring_crc16_eq_ref)

end
