(* ===== verification/Ring_Cobs.thy ===== *)
theory Ring_Cobs
  imports HG_Prelude
begin

text \<open>
  \<^verbatim>\<open>components/ring_proto/ring_cobs.c\<close>: consistent-overhead byte stuffing, the
  encoding that keeps zero bytes out of a frame so that zero can delimit it. The encoder is
  modelled as the C loop (an output buffer with a reserved code byte patched later), and shown
  equal to a block-by-block description from which the round trip, the absence of zeros and
  the size bound follow.
\<close>

section \<open>The encoder\<close>

text \<open>
  \<open>ce_out\<close> is \<open>out[0 .. out_idx)\<close>; a reserved code byte holds 0 until its block is
  finalised.
\<close>

record cobs_enc =
  ce_out :: "u8 list"
  ce_code_pos :: nat
  ce_count :: u8

definition cobs_enc_init :: cobs_enc where
  "cobs_enc_init = \<lparr>ce_out = [0], ce_code_pos = 0, ce_count = 0\<rparr>"

definition cobs_enc_byte :: "cobs_enc \<Rightarrow> u8 \<Rightarrow> cobs_enc" where
  "cobs_enc_byte s b =
     (if b = 0
      then \<lparr>ce_out = (ce_out s)[ce_code_pos s := ce_count s + 1] @ [0],
            ce_code_pos = length (ce_out s), ce_count = 0\<rparr>
      else
        let out = ce_out s @ [b]; count = ce_count s + 1 in
        if count = 254
        then \<lparr>ce_out = out[ce_code_pos s := 0xFF] @ [0], ce_code_pos = length out, ce_count = 0\<rparr>
        else \<lparr>ce_out = out, ce_code_pos = ce_code_pos s, ce_count = count\<rparr>)"

definition ring_cobs_encode :: "u8 list \<Rightarrow> u8 list" where
  "ring_cobs_encode xs =
     (let s = foldl cobs_enc_byte cobs_enc_init xs
      in (ce_out s)[ce_code_pos s := ce_count s + 1])"

section \<open>The decoder\<close>

text \<open>The argument is the input from \<open>in_idx\<close> on; \<open>None\<close> is the return value -1.\<close>

fun ring_cobs_decode :: "u8 list \<Rightarrow> u8 list option" where
  "ring_cobs_decode [] = Some []"
| "ring_cobs_decode (code # rest) =
     (if code = 0 then None
      else
        let block_len = unat (code - 1) in
        if block_len > length rest then None
        else if 0 \<in> set (take block_len rest) then None
        else
          case ring_cobs_decode (drop block_len rest) of
            None \<Rightarrow> None
          | Some out \<Rightarrow>
              Some (take block_len rest @
                (if code < 0xFF \<and> drop block_len rest \<noteq> [] then [0] else []) @ out))"

section \<open>The encoding, block by block\<close>

fun cobs_blocks :: "u8 list \<Rightarrow> u8 list \<Rightarrow> u8 list" where
  "cobs_blocks blk [] = of_nat (length blk + 1) # blk"
| "cobs_blocks blk (x # xs) =
     (if x = 0 then of_nat (length blk + 1) # blk @ cobs_blocks [] xs
      else if length blk = 253 then 255 # blk @ x # cobs_blocks [] xs
      else cobs_blocks (blk @ [x]) xs)"

lemma cobs_count_254:
  "length blk < 254 \<Longrightarrow> ((of_nat (length blk) :: u8) + 1 = 254) = (length blk = 253)"
proof -
  assume l: "length blk < 254"
  have "((of_nat (length blk) :: u8) + 1 = 254) = ((of_nat (length blk + 1) :: u8) = of_nat 254)"
    by (simp add: add.commute)
  also have "\<dots> = (length blk + 1 = 254)"
    by (rule of_nat_u8_inj) (use l in simp_all)
  finally show ?thesis by simp
qed

lemma cobs_fold_blocks:
  assumes "length blk < 254"
  shows "(let s = foldl cobs_enc_byte
             \<lparr>ce_out = pre @ 0 # blk, ce_code_pos = length pre, ce_count = of_nat (length blk)\<rparr> xs
          in (ce_out s)[ce_code_pos s := ce_count s + 1]) = pre @ cobs_blocks blk xs"
  using assms
proof (induction blk xs arbitrary: pre rule: cobs_blocks.induct)
  case (1 blk)
  then show ?case by (simp add: add.commute)
next
  case (2 blk x xs)
  consider "x = 0" | "x \<noteq> 0" "length blk = 253" | "x \<noteq> 0" "length blk < 253"
    using "2.prems" by linarith
  then show ?case
  proof cases
    case 1
    with "2.IH"(1) [of "pre @ of_nat (length blk + 1) # blk"] show ?thesis
      by (simp add: cobs_enc_byte_def add.commute)
  next
    case 2
    then have "cobs_enc_byte
        \<lparr>ce_out = pre @ 0 # blk, ce_code_pos = length pre, ce_count = of_nat (length blk)\<rparr> x
      = \<lparr>ce_out = (pre @ 255 # blk @ [x]) @ 0 # [], ce_code_pos = length (pre @ 255 # blk @ [x]),
         ce_count = of_nat (length [])\<rparr>"
      by (simp add: cobs_enc_byte_def)
    with 2 "2.IH"(2) [of "pre @ 255 # blk @ [x]"] show ?thesis by simp
  next
    case 3
    then have "cobs_enc_byte
        \<lparr>ce_out = pre @ 0 # blk, ce_code_pos = length pre, ce_count = of_nat (length blk)\<rparr> x
      = \<lparr>ce_out = pre @ 0 # (blk @ [x]), ce_code_pos = length pre,
         ce_count = of_nat (length (blk @ [x]))\<rparr>"
      using cobs_count_254 [of blk] by (simp add: cobs_enc_byte_def Let_def add.commute)
    with 3 "2.IH"(3) [of pre] show ?thesis by simp
  qed
qed

lemma ring_cobs_encode_blocks: "ring_cobs_encode xs = cobs_blocks [] xs"
  using cobs_fold_blocks [of "[]" "[]" xs]
  by (simp add: ring_cobs_encode_def cobs_enc_init_def)

lemma cobs_blocks_nonempty [simp]: "cobs_blocks blk xs \<noteq> []"
  by (induction blk xs rule: cobs_blocks.induct) auto

lemma cobs_blocks_no_zero:
  "length blk < 254 \<Longrightarrow> 0 \<notin> set blk \<Longrightarrow> 0 \<notin> set (cobs_blocks blk xs)"
proof (induction blk xs rule: cobs_blocks.induct)
  case (1 blk)
  then show ?case using of_nat_eq_0_u8 [of "length blk + 1"] by auto
next
  case (2 blk x xs)
  then show ?case using of_nat_eq_0_u8 [of "length blk + 1"] by auto
qed

lemma cobs_blocks_length:
  "length blk < 254 \<Longrightarrow>
     length (cobs_blocks blk xs) \<le> length blk + length xs + (length blk + length xs) div 254 + 1"
proof (induction blk xs rule: cobs_blocks.induct)
  case (1 blk)
  then show ?case by simp
next
  case (2 blk x xs)
  consider "x = 0" | "x \<noteq> 0" "length blk = 253" | "x \<noteq> 0" "length blk < 253"
    using "2.prems" by linarith
  then show ?case
  proof cases
    case 1
    moreover have "length xs div 254 \<le> (length blk + Suc (length xs)) div 254"
      by (intro div_le_mono) simp
    ultimately show ?thesis using "2.IH"(1) by simp
  next
    case 2
    moreover have "(253 + Suc (length xs)) div 254 = 1 + length xs div 254" by simp
    ultimately show ?thesis using "2.IH"(2) by simp
  next
    case 3
    then show ?thesis using "2.IH"(3) by simp
  qed
qed

lemma cobs_decode_block:
  assumes "length blk < 255" "0 \<notin> set blk"
  shows "ring_cobs_decode (of_nat (length blk + 1) # blk @ rest) =
    map_option (\<lambda>out. blk @ (if length blk < 254 \<and> rest \<noteq> [] then [0] else []) @ out)
      (ring_cobs_decode rest)"
proof -
  have l: "unat (of_nat (length blk) :: u8) = length blk"
    using assms by (intro unat_of_nat_u8) simp
  have "of_nat (length blk + 1) - 1 = (of_nat (length blk) :: u8)" by simp
  moreover have "(of_nat (length blk + 1) :: u8) \<noteq> 0"
    using assms by (subst of_nat_eq_0_u8) auto
  moreover have "((of_nat (length blk + 1) :: u8) < 0xFF) = (length blk < 254)"
    using assms by (simp add: word_less_nat_alt unat_of_nat_u8 del: of_nat_Suc of_nat_add)
  ultimately show ?thesis
    using assms l by (auto simp: Let_def simp del: of_nat_Suc of_nat_add split: option.splits)
qed

lemma cobs_decode_blocks:
  "length blk < 254 \<Longrightarrow> 0 \<notin> set blk \<Longrightarrow> ring_cobs_decode (cobs_blocks blk xs) = Some (blk @ xs)"
proof (induction blk xs rule: cobs_blocks.induct)
  case (1 blk)
  then show ?case using cobs_decode_block [of blk "[]"] by simp
next
  case (2 blk x xs)
  consider "x = 0" | "x \<noteq> 0" "length blk = 253" | "x \<noteq> 0" "length blk < 253"
    using "2.prems" by linarith
  then show ?case
  proof cases
    case 1
    with "2.prems" "2.IH"(1) show ?thesis
      using cobs_decode_block [of blk "cobs_blocks [] xs"] by (simp del: of_nat_Suc of_nat_add)
  next
    case 2
    with "2.prems" "2.IH"(2) show ?thesis
      using cobs_decode_block [of "blk @ [x]" "cobs_blocks [] xs"] by auto
  next
    case 3
    with "2.prems" "2.IH"(3) show ?thesis by auto
  qed
qed

section \<open>What the codec promises\<close>

lemma cobs_round_trip: "ring_cobs_decode (ring_cobs_encode xs) = Some xs"
  by (simp add: ring_cobs_encode_blocks cobs_decode_blocks)

lemma cobs_encode_no_zero: "0 \<notin> set (ring_cobs_encode xs)"
  by (simp add: ring_cobs_encode_blocks cobs_blocks_no_zero)

lemma cobs_encode_length: "length (ring_cobs_encode xs) \<le> length xs + length xs div 254 + 1"
  using cobs_blocks_length [of "[]" xs] by (simp add: ring_cobs_encode_blocks)

lemma cobs_encode_nonempty: "ring_cobs_encode xs \<noteq> []"
  by (simp add: ring_cobs_encode_blocks)

lemma cobs_decode_length: "ring_cobs_decode bs = Some out \<Longrightarrow> length out \<le> length bs"
proof (induction bs arbitrary: out rule: ring_cobs_decode.induct)
  case 1
  then show ?case by simp
next
  case (2 code rest)
  then show ?case by (force simp: Let_def split: if_splits option.splits)
qed

section \<open>Properties\<close>

text \<open>Byte stuffing is undone by its decoder, leaves no zero in the output, and adds at most one byte per 254 and one more.\<close>

lemma cobs_codec:
  "ring_cobs_decode (ring_cobs_encode xs) = Some xs \<and> 0 \<notin> set (ring_cobs_encode xs) \<and>
     length (ring_cobs_encode xs) \<le> length xs + length xs div 254 + 1"
  using cobs_encode_length [of xs] by (simp add: cobs_round_trip cobs_encode_no_zero)

end
