(* ===== verification/Ring_Frame.thy ===== *)
theory Ring_Frame
  imports Ring_Crc Ring_Cobs
begin

text \<open>
  \<^verbatim>\<open>components/ring_proto/ring_frame.c\<close> and the frame constants of
  \<^verbatim>\<open>ring_proto.h\<close>: the frame encoder and the incremental decoder the UART task feeds one
  byte at a time. The lemmas show that a decoder in any state recovers every encoded frame
  (it resynchronises on the leading delimiter), that what it accepts is an encoding with a
  matching checksum, and that it never writes outside its buffer.
\<close>

section \<open>Constants and headers\<close>

definition RING_MAGIC :: u8 where "RING_MAGIC = 0xA1"
definition RING_HDR_LEN :: nat where "RING_HDR_LEN = 9"
definition RING_MAX_PAYLOAD :: nat where "RING_MAX_PAYLOAD = 128"
definition RING_FRAME_MAX :: nat where "RING_FRAME_MAX = RING_HDR_LEN + RING_MAX_PAYLOAD + 2"
definition RING_WIRE_MAX :: nat where "RING_WIRE_MAX = 143"
definition RING_DEC_DISCARD :: u16 where "RING_DEC_DISCARD = 0xFFFF"

lemmas ring_consts = RING_MAGIC_def RING_HDR_LEN_def RING_MAX_PAYLOAD_def RING_FRAME_MAX_def
  RING_WIRE_MAX_def RING_DEC_DISCARD_def

record ring_hdr =
  h_src :: u8
  h_dst :: u8
  h_type :: u8
  h_flags :: u8
  h_ttl :: u8
  h_len :: u8
  h_seq :: u16

section \<open>Encoding a frame\<close>

text \<open>The content up to the checksum; \<open>memcpy\<close> copies \<open>h->len\<close> bytes of the payload.\<close>

definition ring_frame_raw :: "ring_hdr \<Rightarrow> u8 list \<Rightarrow> u8 list" where
  "ring_frame_raw h payload =
     [RING_MAGIC, h_src h, h_dst h, h_type h, h_flags h, h_ttl h, h_len h]
     @ le16_put (h_seq h) @ take (unat (h_len h)) payload"

text \<open>\<open>None\<close> is -1; the result is the wire content, its length the returned value.\<close>

definition ring_frame_encode :: "ring_hdr \<Rightarrow> u8 list \<Rightarrow> nat \<Rightarrow> u8 list option" where
  "ring_frame_encode h payload cap =
     (if unat (h_len h) > RING_MAX_PAYLOAD then None
      else
        let raw = ring_frame_raw h payload;
            crc = ring_crc16 raw;
            cobs = ring_cobs_encode (raw @ le16_put crc);
            wlen = length cobs + 2
        in if wlen > cap then None else Some ([0] @ cobs @ [0]))"

section \<open>The incremental decoder\<close>

record ring_dec =
  dec_buf :: "u8 list"
  dec_n :: u16

definition ring_dec_init :: "ring_dec \<Rightarrow> ring_dec" where
  "ring_dec_init d = d\<lparr>dec_n := 0\<rparr>"

definition ring_dec_reset :: "ring_dec \<Rightarrow> ring_dec" where
  "ring_dec_reset d = d\<lparr>dec_n := 0\<rparr>"

datatype dec_out = DecMore | DecBad | DecFrame ring_hdr "u8 list"

definition ring_dec_content :: "u8 list \<Rightarrow> dec_out" where
  "ring_dec_content content =
     (case ring_cobs_decode content of
        None \<Rightarrow> DecBad
      | Some raw \<Rightarrow>
          if length raw < RING_HDR_LEN then DecBad
          else if raw ! 0 \<noteq> RING_MAGIC then DecBad
          else
            let len = raw ! 6 in
            if length raw \<noteq> RING_HDR_LEN + unat len + 2 then DecBad
            else if unat len > RING_MAX_PAYLOAD then DecBad
            else
              let crc_calc = ring_crc16 (take (RING_HDR_LEN + unat len) raw);
                  crc_recv = le16_get (raw ! (RING_HDR_LEN + unat len))
                                      (raw ! (RING_HDR_LEN + unat len + 1))
              in if crc_calc \<noteq> crc_recv then DecBad
                 else DecFrame
                   \<lparr>h_src = raw ! 1, h_dst = raw ! 2, h_type = raw ! 3, h_flags = raw ! 4,
                    h_ttl = raw ! 5, h_len = len, h_seq = le16_get (raw ! 7) (raw ! 8)\<rparr>
                   (take (unat len) (drop RING_HDR_LEN raw)))"

definition ring_dec_feed :: "ring_dec \<Rightarrow> u8 \<Rightarrow> ring_dec \<times> dec_out" where
  "ring_dec_feed d b =
     (if b = 0 then
        if dec_n d = 0 \<or> dec_n d = RING_DEC_DISCARD then (d\<lparr>dec_n := 0\<rparr>, DecMore)
        else (d\<lparr>dec_n := 0\<rparr>, ring_dec_content (take (unat (dec_n d)) (dec_buf d)))
      else if dec_n d = RING_DEC_DISCARD then (d, DecMore)
      else if unat (dec_n d) \<ge> RING_WIRE_MAX - 2 then (d\<lparr>dec_n := RING_DEC_DISCARD\<rparr>, DecBad)
      else (d\<lparr>dec_buf := (dec_buf d)[unat (dec_n d) := b], dec_n := dec_n d + 1\<rparr>, DecMore))"

text \<open>The UART task's loop over the bytes it read: the decoder after them and its answers.\<close>

definition ring_dec_run :: "ring_dec \<Rightarrow> u8 list \<Rightarrow> ring_dec \<times> dec_out list" where
  "ring_dec_run d bs = run_steps ring_dec_feed d bs"

section \<open>The buffer invariant\<close>

definition ring_dec_ok :: "ring_dec \<Rightarrow> bool" where
  "ring_dec_ok d \<longleftrightarrow> length (dec_buf d) = RING_WIRE_MAX \<and>
     (unat (dec_n d) \<le> RING_WIRE_MAX - 2 \<or> dec_n d = RING_DEC_DISCARD)"

lemma unat_u16_inc: "unat (n :: u16) \<le> 1000 \<Longrightarrow> unat (n + 1) = unat n + 1"
  by (simp add: unat_word_ariths)

lemma ring_dec_feed_ok: "ring_dec_ok d \<Longrightarrow> ring_dec_ok (fst (ring_dec_feed d b))"
  by (auto simp: ring_dec_ok_def ring_dec_feed_def ring_consts unat_u16_inc)

interpretation dec: step_invariant ring_dec_feed ring_dec_ok
  by unfold_locales (rule ring_dec_feed_ok)

lemma ring_dec_run_simps [simp]:
  "ring_dec_run d [] = (d, [])"
  "fst (ring_dec_run d (b # bs)) = fst (ring_dec_run (fst (ring_dec_feed d b)) bs)"
  "snd (ring_dec_run d (b # bs)) =
     snd (ring_dec_feed d b) # snd (ring_dec_run (fst (ring_dec_feed d b)) bs)"
  by (simp_all add: ring_dec_run_def)

lemma ring_dec_run_append:
  "fst (ring_dec_run d (xs @ ys)) = fst (ring_dec_run (fst (ring_dec_run d xs)) ys)"
  "snd (ring_dec_run d (xs @ ys)) =
     snd (ring_dec_run d xs) @ snd (ring_dec_run (fst (ring_dec_run d xs)) ys)"
  by (simp_all add: ring_dec_run_def run_steps_append)

section \<open>Round trip\<close>

lemma ring_frame_raw_len:
  "length payload = unat (h_len h) \<Longrightarrow> length (ring_frame_raw h payload) = RING_HDR_LEN + unat (h_len h)"
  by (simp add: ring_frame_raw_def RING_HDR_LEN_def)

lemma ring_dec_content_raw:
  assumes "length payload = unat (h_len h)" "unat (h_len h) \<le> RING_MAX_PAYLOAD"
    and "content = ring_cobs_encode (ring_frame_raw h payload @ le16_put (ring_crc16 (ring_frame_raw h payload)))"
  shows "ring_dec_content content = DecFrame h payload"
proof -
  define raw where "raw = ring_frame_raw h payload @ le16_put (ring_crc16 (ring_frame_raw h payload))"
  have dec: "ring_cobs_decode content = Some raw"
    by (simp add: assms(3) cobs_round_trip raw_def)
  note l = ring_frame_raw_len [OF assms(1)]
  have n6: "raw ! 6 = h_len h" "raw ! 0 = RING_MAGIC"
    by (simp_all add: raw_def ring_frame_raw_def nth_append)
  have tk: "take (9 + unat (h_len h)) raw = ring_frame_raw h payload"
    using l by (simp add: raw_def RING_HDR_LEN_def)
  have crc: "le16_get (raw ! (9 + unat (h_len h))) (raw ! (10 + unat (h_len h))) = ring_crc16 (ring_frame_raw h payload)"
    using l by (simp add: raw_def RING_HDR_LEN_def nth_append le16_put_def le_simps)
  have rest: "raw ! Suc 0 = h_src h" "raw ! 2 = h_dst h" "raw ! 3 = h_type h" "raw ! 4 = h_flags h"
    "raw ! 5 = h_ttl h" "le16_get (raw ! 7) (raw ! 8) = h_seq h" "take (unat (h_len h)) (drop 9 raw) = payload"
    using assms(1) by (simp_all add: raw_def ring_frame_raw_def nth_append le16_put_def le_simps)
  have "length raw = 9 + unat (h_len h) + 2"
    using l by (simp add: raw_def RING_HDR_LEN_def)
  with assms(2) show ?thesis
    using ring_hdr.surjective [of h]
    by (simp add: ring_dec_content_def dec ring_consts n6 [unfolded ring_consts] Let_def tk crc rest)
qed

lemma ring_dec_run_store:
  assumes "0 \<notin> set bs" "length (dec_buf d) = RING_WIRE_MAX"
    and "unat (dec_n d) + length bs \<le> RING_WIRE_MAX - 2"
  shows "ring_dec_run d bs =
    (d\<lparr>dec_buf := take (unat (dec_n d)) (dec_buf d) @ bs @ drop (unat (dec_n d) + length bs) (dec_buf d),
       dec_n := dec_n d + of_nat (length bs)\<rparr>, replicate (length bs) DecMore)"
  using assms
proof (induction bs arbitrary: d)
  case Nil
  then show ?case by simp
next
  case (Cons b bs)
  let ?d = "d\<lparr>dec_buf := (dec_buf d)[unat (dec_n d) := b], dec_n := dec_n d + 1\<rparr>"
  have n: "unat (dec_n d) < 141" using Cons.prems by (simp add: RING_WIRE_MAX_def)
  then have nd: "dec_n d \<noteq> RING_DEC_DISCARD" by (auto simp: RING_DEC_DISCARD_def)
  have u: "unat (dec_n d + 1) = unat (dec_n d) + 1" using n by (intro unat_u16_inc) simp
  have feed: "ring_dec_feed d b = (?d, DecMore)"
    using Cons.prems n nd by (auto simp: ring_dec_feed_def RING_WIRE_MAX_def)
  have "ring_dec_run ?d bs =
    (?d\<lparr>dec_buf := take (unat (dec_n ?d)) (dec_buf ?d) @ bs @ drop (unat (dec_n ?d) + length bs) (dec_buf ?d),
       dec_n := dec_n ?d + of_nat (length bs)\<rparr>, replicate (length bs) DecMore)"
    using Cons.prems u by (intro Cons.IH) simp_all
  moreover have "take (Suc (unat (dec_n d))) ((dec_buf d)[unat (dec_n d) := b]) = take (unat (dec_n d)) (dec_buf d) @ [b]"
    using n Cons.prems by (simp add: take_Suc_conv_app_nth RING_WIRE_MAX_def)
  ultimately show ?case
    using feed u by (intro prod_eqI) (simp_all add: add.assoc)
qed

lemma ring_frame_encode_Some:
  "ring_frame_encode h payload cap = Some wire \<Longrightarrow>
     unat (h_len h) \<le> RING_MAX_PAYLOAD \<and>
     wire = 0 # ring_cobs_encode (ring_frame_raw h payload @ le16_put (ring_crc16 (ring_frame_raw h payload))) @ [0]"
  by (auto simp: ring_frame_encode_def Let_def split: if_splits)

lemma ring_frame_encode_length: "ring_frame_encode h payload cap = Some wire \<Longrightarrow> length wire \<le> cap"
  by (auto simp: ring_frame_encode_def Let_def split: if_splits)

lemma ring_frame_cobs_len:
  assumes "unat (h_len h) \<le> RING_MAX_PAYLOAD"
  shows "length (ring_cobs_encode (ring_frame_raw h payload @ le16_put (ring_crc16 (ring_frame_raw h payload)))) \<le> 140"
proof -
  let ?r = "ring_frame_raw h payload @ le16_put (ring_crc16 (ring_frame_raw h payload))"
  have "length ?r \<le> 139"
    using assms by (simp add: ring_frame_raw_def RING_MAX_PAYLOAD_def)
  then show ?thesis using cobs_encode_length [of ?r] by simp
qed

lemma ring_frame_encode_fits:
  "unat (h_len h) \<le> RING_MAX_PAYLOAD \<Longrightarrow> \<exists>wire. ring_frame_encode h payload RING_WIRE_MAX = Some wire"
  using ring_frame_cobs_len [of h payload]
  by (auto simp: ring_frame_encode_def Let_def RING_WIRE_MAX_def)

lemma ring_dec_feed_zero:
  "\<exists>o1. ring_dec_feed d 0 = (d\<lparr>dec_n := 0\<rparr>, o1)"
  by (simp add: ring_dec_feed_def)

lemma ring_frame_recovered:
  assumes ok: "ring_dec_ok d" and enc: "ring_frame_encode h payload cap = Some wire"
    and len: "length payload = unat (h_len h)"
  shows "dec_n (fst (ring_dec_run d wire)) = 0 \<and> last (snd (ring_dec_run d wire)) = DecFrame h payload"
proof -
  let ?c = "ring_cobs_encode (ring_frame_raw h payload @ le16_put (ring_crc16 (ring_frame_raw h payload)))"
  from ring_frame_encode_Some [OF enc] have le: "unat (h_len h) \<le> RING_MAX_PAYLOAD"
    and wire: "wire = 0 # ?c @ [0]" by auto
  have cl: "length ?c \<le> 140" using le by (rule ring_frame_cobs_len)
  obtain o1 where f0: "ring_dec_feed d 0 = (d\<lparr>dec_n := 0\<rparr>, o1)" using ring_dec_feed_zero by blast
  let ?d = "d\<lparr>dec_buf := ?c @ drop (length ?c) (dec_buf d), dec_n := of_nat (length ?c)\<rparr>"
  have run: "ring_dec_run (d\<lparr>dec_n := 0\<rparr>) ?c = (?d, replicate (length ?c) DecMore)"
    using ring_dec_run_store [of ?c "d\<lparr>dec_n := 0\<rparr>"] ok cl cobs_encode_no_zero
    by (simp add: ring_dec_ok_def RING_WIRE_MAX_def)
  have n: "unat (of_nat (length ?c) :: u16) = length ?c" using cl by (intro unat_of_nat_u16) simp
  have "of_nat (length ?c) \<noteq> (0 :: u16)" using n cobs_encode_nonempty by (metis length_0_conv unat_0)
  moreover have "of_nat (length ?c) \<noteq> RING_DEC_DISCARD" using n cl by (auto simp: RING_DEC_DISCARD_def)
  ultimately have "ring_dec_feed ?d 0 = (?d\<lparr>dec_n := 0\<rparr>, ring_dec_content ?c)"
    by (simp add: ring_dec_feed_def n)
  also have "ring_dec_content ?c = DecFrame h payload"
    using ring_dec_content_raw [OF len le] by simp
  finally show ?thesis
    using f0 run by (simp add: wire ring_dec_run_append Let_def split_def)
qed

section \<open>Soundness of acceptance\<close>

lemma ring_dec_content_sound:
  assumes "ring_dec_content content = DecFrame h payload"
  shows "unat (h_len h) \<le> RING_MAX_PAYLOAD \<and> length payload = unat (h_len h) \<and>
    ring_cobs_decode content = Some (ring_frame_raw h payload @ le16_put (ring_crc16 (ring_frame_raw h payload)))"
proof -
  from assms obtain raw where raw: "ring_cobs_decode content = Some raw"
    and l: "length raw = 9 + unat (raw ! 6) + 2" and m: "raw ! 0 = RING_MAGIC"
    and le: "unat (raw ! 6) \<le> 128"
    and crc: "ring_crc16 (take (9 + unat (raw ! 6)) raw) =
       le16_get (raw ! (9 + unat (raw ! 6))) (raw ! (9 + unat (raw ! 6) + 1))"
    and h: "h = \<lparr>h_src = raw ! 1, h_dst = raw ! 2, h_type = raw ! 3, h_flags = raw ! 4,
                    h_ttl = raw ! 5, h_len = raw ! 6, h_seq = le16_get (raw ! 7) (raw ! 8)\<rparr>"
    and p: "payload = take (unat (raw ! 6)) (drop 9 raw)"
    by (auto simp: ring_dec_content_def RING_HDR_LEN_def RING_MAX_PAYLOAD_def Let_def
        split: option.splits if_splits)
  let ?n = "unat (raw ! 6)"
  have head: "take 9 raw = [RING_MAGIC, raw ! 1, raw ! 2, raw ! 3, raw ! 4, raw ! 5, raw ! 6] @
     le16_put (le16_get (raw ! 7) (raw ! 8))"
    by (rule nth_equalityI) (use l m in \<open>auto simp: le16_put_get less_Suc_eq numeral_eq_Suc\<close>)
  have "take (9 + ?n) raw = take 9 raw @ take ?n (drop 9 raw)" by (simp add: take_add)
  then have fr: "ring_frame_raw h payload = take (9 + ?n) raw"
    using l by (simp add: ring_frame_raw_def h p head)
  have "drop (9 + ?n) raw = [raw ! (9 + ?n), raw ! (9 + ?n + 1)]"
    by (rule nth_equalityI) (use l in \<open>auto simp: less_Suc_eq numeral_eq_Suc\<close>)
  then have "raw = take (9 + ?n) raw @ le16_put (le16_get (raw ! (9 + ?n)) (raw ! (9 + ?n + 1)))"
    by (metis append_take_drop_id le16_put_get)
  then show ?thesis
    using raw fr crc le l by (simp add: h p RING_MAX_PAYLOAD_def)
qed

section \<open>Properties\<close>

definition sample_hdr :: ring_hdr where
  "sample_hdr = \<lparr>h_src = 0, h_dst = 3, h_type = 0x10, h_flags = 1, h_ttl = 16, h_len = 2, h_seq = 7\<rparr>"

definition sample_dec :: ring_dec where
  "sample_dec = \<lparr>dec_buf = replicate 143 0xAA, dec_n = 77\<rparr>"

text \<open>Over any byte stream the decoder keeps its buffer length and a fill level that is a valid write index or the discard mark, so it never writes outside its buffer.\<close>

lemma decoder_in_bounds:
  "ring_dec_ok d \<Longrightarrow> ring_dec_ok (fst (run_steps ring_dec_feed d bs))"
  by (rule dec.run_keeps)

lemma decoder_in_bounds_witness:
  "ring_dec_ok (fst (run_steps ring_dec_feed sample_dec [0, 5, 5, 0, 1]))"
  by (rule decoder_in_bounds) (simp add: sample_dec_def ring_dec_ok_def RING_WIRE_MAX_def)

text \<open>Whatever bytes the decoder accepts are the stuffing of the header and payload it returns, followed by their matching checksum; the payload has the announced length and never exceeds 128 bytes.\<close>

lemma frame_acceptance_sound:
  assumes "ring_dec_content content = DecFrame h payload"
  shows "unat (h_len h) \<le> RING_MAX_PAYLOAD \<and> length payload = unat (h_len h) \<and>
    ring_cobs_decode content =
      Some (ring_frame_raw h payload @ le16_put (ring_crc16 (ring_frame_raw h payload)))"
  using assms by (rule ring_dec_content_sound)

lemma frame_acceptance_sound_witness:
  "length [1, 0 :: u8] = unat (h_len sample_hdr)"
proof -
  let ?raw = "ring_frame_raw sample_hdr [1, 0]"
  have r: "?raw = [0xA1, 0, 3, 0x10, 1, 16, 2, 7, 0, 1, 0]"
    by (simp add: ring_frame_raw_def sample_hdr_def RING_MAGIC_def le16_put_def)
  have "ring_dec_content (ring_cobs_encode (?raw @ le16_put (ring_crc16 ?raw))) = DecFrame sample_hdr [1, 0]"
    by (rule ring_dec_content_raw) (simp_all add: sample_hdr_def RING_MAX_PAYLOAD_def)
  from frame_acceptance_sound [OF this] show ?thesis by blast
qed

text \<open>C29. A decoder in any reachable state, however much garbage it holds, returns exactly the encoded header and payload when the bytes of a frame arrive, and is then ready for the next frame.\<close>

lemma frame_resync:
  assumes "ring_dec_ok d" "ring_frame_encode h payload cap = Some wire"
    "length payload = unat (h_len h)"
  shows "last (snd (ring_dec_run d wire)) = DecFrame h payload \<and> dec_n (fst (ring_dec_run d wire)) = 0"
  using ring_frame_recovered [OF assms] by blast

lemma frame_resync_witness:
  "\<exists>wire. ring_frame_encode sample_hdr [1, 0] RING_WIRE_MAX = Some wire \<and>
     last (snd (ring_dec_run sample_dec wire)) = DecFrame sample_hdr [1, 0]"
proof -
  obtain wire where w: "ring_frame_encode sample_hdr [1, 0] RING_WIRE_MAX = Some wire"
    using ring_frame_encode_fits [of sample_hdr "[1, 0]"] by (auto simp: sample_hdr_def RING_MAX_PAYLOAD_def)
  have "ring_dec_ok sample_dec" by (simp add: sample_dec_def ring_dec_ok_def RING_WIRE_MAX_def)
  from frame_resync [OF this w] w show ?thesis by (simp add: sample_hdr_def)
qed

end
