(* ===== verification/Ring_Proto.thy ===== *)
theory Ring_Proto
  imports HG_Prelude
begin

text \<open>
  The constants of \<^verbatim>\<open>components/ring_proto/ring_proto.h\<close> that every side of the ring uses:
  node ids, frame types, flags, and the sizes of the fixed payloads.
\<close>

definition RING_ID_MASTER :: u8 where "RING_ID_MASTER = 0x00"
definition RING_ID_UNASSIGNED :: u8 where "RING_ID_UNASSIGNED = 0xFE"
definition RING_ID_BCAST :: u8 where "RING_ID_BCAST = 0xFF"
definition RING_TTL_INIT :: u8 where "RING_TTL_INIT = 16"
definition HG_MAX_ZONES :: nat where "HG_MAX_ZONES = 8"
definition RING_F_ACK_REQ :: u8 where "RING_F_ACK_REQ = 0x01"
definition HG_TS_LEN :: nat where "HG_TS_LEN = 13"
definition HG_ASSIGN_LEN :: nat where "HG_ASSIGN_LEN = 7"
definition RING_T_HEARTBEAT :: u8 where "RING_T_HEARTBEAT = 0x01"
definition RING_T_ACK :: u8 where "RING_T_ACK = 0x02"
definition RING_T_FAULT_EVENT :: u8 where "RING_T_FAULT_EVENT = 0x03"
definition RING_T_NOTIFY :: u8 where "RING_T_NOTIFY = 0x04"
definition RING_T_CMD :: u8 where "RING_T_CMD = 0x10"
definition RING_T_TIME_SYNC :: u8 where "RING_T_TIME_SYNC = 0x11"
definition RING_T_ASSIGN_ID :: u8 where "RING_T_ASSIGN_ID = 0x12"
definition RING_T_CFG_CHUNK :: u8 where "RING_T_CFG_CHUNK = 0x13"
definition RING_T_CFG_COMMIT :: u8 where "RING_T_CFG_COMMIT = 0x14"
definition RING_T_FW_UPDATE :: u8 where "RING_T_FW_UPDATE = 0x15"
definition RING_T_CFG_GET :: u8 where "RING_T_CFG_GET = 0x16"

lemmas ring_ids = RING_ID_MASTER_def RING_ID_UNASSIGNED_def RING_ID_BCAST_def RING_TTL_INIT_def
  HG_ASSIGN_LEN_def
lemmas ring_types = RING_T_HEARTBEAT_def RING_T_ACK_def RING_T_FAULT_EVENT_def
  RING_T_NOTIFY_def RING_T_CMD_def RING_T_TIME_SYNC_def
  RING_T_ASSIGN_ID_def RING_T_CFG_CHUNK_def RING_T_CFG_COMMIT_def RING_T_FW_UPDATE_def
  RING_T_CFG_GET_def

end
