(* ===== verification/Ring_Journey.thy ===== *)
theory Ring_Journey
  imports Ring_Link
begin

text \<open>
  A frame's way along the daisy chain: the boards of \<^verbatim>\<open>ring_link.c\<close> wired output to
  input, at the level of the bytes on the wire (\<open>ring_chain\<close>) and at the level of headers
  (\<open>ring_walk\<close>). The byte level refines the header level, and delivery, the broadcast, the
  hop count and the end of every circulation are proved of the latter.
\<close>

section \<open>One board between two wires\<close>

definition node_rx ::
  "(ring_frame \<Rightarrow> bool) \<Rightarrow> u8 \<Rightarrow> u32 \<Rightarrow> ring_link \<Rightarrow> u8 list \<Rightarrow> link_eff list" where
  "node_rx room my_id now s bytes = concat (snd (run_steps (ring_rx_byte room my_id now) s bytes))"

definition frame_of :: "ring_hdr \<Rightarrow> u8 list \<Rightarrow> ring_frame" where
  "frame_of h p = \<lparr>f_hdr = h, f_payload =
     take (unat (h_len h)) p @ replicate (RING_MAX_PAYLOAD - unat (h_len h)) 0\<rparr>"

definition zone_idle :: "ring_link \<Rightarrow> bool" where
  "zone_idle s \<longleftrightarrow> \<not> rl_is_master s \<and> ring_dec_ok (rl_dec s) \<and> dec_n (rl_dec s) = 0"

definition wire_of :: "ring_hdr \<Rightarrow> u8 list \<Rightarrow> u8 list" where
  "wire_of h p =
     0 # ring_cobs_encode (ring_frame_raw h p @ le16_put (ring_crc16 (ring_frame_raw h p))) @ [0]"

lemma encode_wire_of:
  "unat (h_len h) \<le> RING_MAX_PAYLOAD \<Longrightarrow> ring_frame_encode h p RING_WIRE_MAX = Some (wire_of h p)"
  using ring_frame_encode_fits [of h p]
  by (auto simp: wire_of_def dest: ring_frame_encode_Some)

lemma rx_quiet_run:
  assumes "set (snd (ring_dec_run d bs)) \<subseteq> {DecMore}" "rl_dec s = d"
  shows "concat (snd (run_steps (ring_rx_byte room i now) s bs)) = [] \<and>
    fst (run_steps (ring_rx_byte room i now) s bs) = s\<lparr>rl_dec := fst (ring_dec_run d bs)\<rparr>"
  using assms
proof (induction bs arbitrary: d s)
  case Nil
  then show ?case by auto
next
  case (Cons b bs)
  let ?d = "fst (ring_dec_feed d b)"
  have "ring_rx_byte room i now s b = (s\<lparr>rl_dec := ?d\<rparr>, [])"
    using Cons.prems by (simp add: ring_rx_byte_def split_def Let_def)
  moreover from Cons.prems have "set (snd (ring_dec_run ?d bs)) \<subseteq> {DecMore}" by simp
  ultimately show ?case using Cons.IH [of ?d "s\<lparr>rl_dec := ?d\<rparr>"] by simp
qed

lemma dec_run_wire:
  assumes "ring_dec_ok d" "dec_n d = 0" "length p = unat (h_len h)" "unat (h_len h) \<le> RING_MAX_PAYLOAD"
  obtains front where "wire_of h p = front @ [0]"
    and "set (snd (ring_dec_run d front)) \<subseteq> {DecMore}"
    and "ring_dec_feed (fst (ring_dec_run d front)) 0 = (fst (ring_dec_run d (wire_of h p)), DecFrame h p)"
proof -
  let ?c = "ring_cobs_encode (ring_frame_raw h p @ le16_put (ring_crc16 (ring_frame_raw h p)))"
  define front where "front = 0 # ?c"
  have w: "wire_of h p = front @ [0]" by (simp add: wire_of_def front_def)
  have f0: "ring_dec_feed d 0 = (d, DecMore)" using assms(2) by (simp add: ring_dec_feed_def)
  have "ring_dec_run d ?c = (d\<lparr>dec_buf := take (unat (dec_n d)) (dec_buf d) @ ?c @ drop (unat (dec_n d) + length ?c) (dec_buf d),
       dec_n := dec_n d + of_nat (length ?c)\<rparr>, replicate (length ?c) DecMore)"
    using assms ring_frame_cobs_len [OF assms(4), of p]
    by (intro ring_dec_run_store) (auto simp: cobs_encode_no_zero ring_dec_ok_def RING_WIRE_MAX_def)
  then have q: "set (snd (ring_dec_run d front)) \<subseteq> {DecMore}"
    by (auto simp: f0 front_def)
  have "last (snd (ring_dec_run d (wire_of h p))) = DecFrame h p"
    using ring_frame_recovered [OF assms(1) encode_wire_of assms(3)] assms(4) by blast
  then have "snd (ring_dec_feed (fst (ring_dec_run d front)) 0) = DecFrame h p"
    by (simp add: w ring_dec_run_append)
  moreover have "fst (ring_dec_feed (fst (ring_dec_run d front)) 0) = fst (ring_dec_run d (wire_of h p))"
    by (simp add: w ring_dec_run_append)
  ultimately show ?thesis using w q by (intro that) (auto intro: prod_eqI)
qed

lemma dispatch_effects:
  "snd (ring_link_dispatch room i now (s\<lparr>rl_dec := d\<rparr>) h p) = snd (ring_link_dispatch room i now s h p)"
  by (auto simp: ring_link_dispatch_def ring_link_enqueue_def ring_link_forward_def Let_def
      split: ring_rt.splits option.splits)

lemma node_rx_frame:
  assumes "zone_idle s" "length p = unat (h_len h)" "unat (h_len h) \<le> RING_MAX_PAYLOAD"
  shows "node_rx room i now s (wire_of h p) = snd (ring_link_dispatch room i now s h p)"
proof -
  let ?d = "rl_dec s"
  from assms(1) have "ring_dec_ok ?d" "dec_n ?d = 0" by (auto simp: zone_idle_def)
  from dec_run_wire [OF this assms(2,3)] obtain front where w: "wire_of h p = front @ [0]"
    and q: "set (snd (ring_dec_run ?d front)) \<subseteq> {DecMore}"
    and z: "ring_dec_feed (fst (ring_dec_run ?d front)) 0 = (fst (ring_dec_run ?d (wire_of h p)), DecFrame h p)"
    by blast
  show ?thesis
    using rx_quiet_run [OF q refl [of "rl_dec s"], of room i now] z
    by (simp add: node_rx_def w run_steps_append ring_rx_byte_def dispatch_effects)
qed

section \<open>The chain of boards\<close>

fun eff_frames :: "link_eff list \<Rightarrow> ring_frame list" where
  "eff_frames [] = []"
| "eff_frames (EffEnqueue f # es) = f # eff_frames es"
| "eff_frames (EffWire w # es) = eff_frames es"

fun eff_wire :: "link_eff list \<Rightarrow> u8 list" where
  "eff_wire [] = []"
| "eff_wire (EffEnqueue f # es) = eff_wire es"
| "eff_wire (EffWire w # es) = w @ eff_wire es"

text \<open>
  The bytes leaving one board enter the next. The result is what each board put in its consume
  queue, in ring order, and the bytes that leave the last board (towards the master's receiver).
\<close>

fun ring_chain ::
  "u32 \<Rightarrow> (u8 \<times> ring_link) list \<Rightarrow> u8 list \<Rightarrow> (u8 \<times> ring_frame) list \<times> u8 list" where
  "ring_chain now [] wire = ([], wire)"
| "ring_chain now ((i, s) # ns) wire =
     (let effs = node_rx (\<lambda>_. True) i now s wire;
          (got, out) = ring_chain now ns (eff_wire effs)
      in (map (Pair i) (eff_frames effs) @ got, out))"

text \<open>The same journey told with headers only.\<close>

fun ring_walk ::
  "(u8 \<times> u8 list) list \<Rightarrow> ring_hdr \<Rightarrow> u8 list \<Rightarrow> (u8 \<times> ring_hdr) list \<times> ring_hdr option" where
  "ring_walk [] h p = ([], Some h)"
| "ring_walk ((i, mac) # ns) h p =
     (let onward = (if h_ttl h = 0 then ([], None)
                    else ring_walk ns (h\<lparr>h_ttl := h_ttl h - 1\<rparr>) p) in
      case ring_route False i mac h p of
        RT_DROP_SELF \<Rightarrow> ([], None)
      | RT_DROP \<Rightarrow> ([], None)
      | RT_CONSUME \<Rightarrow> ([(i, h)], None)
      | RT_FORWARD \<Rightarrow> onward
      | RT_CONSUME_FWD \<Rightarrow> ((i, h) # fst onward, snd onward))"

lemma ring_chain_silent:
  "\<forall>x \<in> set ns. zone_idle (snd x) \<Longrightarrow> ring_chain now ns [] = ([], [])"
  by (induction ns) (auto simp: node_rx_def)

lemma dispatch_zone:
  assumes "zone_idle s" "unat (h_len h) \<le> RING_MAX_PAYLOAD"
  shows "snd (ring_link_dispatch (\<lambda>_. True) i now s h p) =
    (let fwd = (if h_ttl h = 0 then [] else [EffWire (wire_of (h\<lparr>h_ttl := h_ttl h - 1\<rparr>) p)]) in
     case ring_route False i (rl_my_mac s) h p of
       RT_DROP_SELF \<Rightarrow> [] | RT_DROP \<Rightarrow> []
     | RT_CONSUME \<Rightarrow> [EffEnqueue (frame_of h p)]
     | RT_FORWARD \<Rightarrow> fwd
     | RT_CONSUME_FWD \<Rightarrow> fwd @ [EffEnqueue (frame_of h p)])"
  using assms encode_wire_of [of "h\<lparr>h_ttl := h_ttl h - 1\<rparr>" p]
  by (auto simp: ring_link_dispatch_def ring_link_enqueue_def ring_link_forward_def zone_idle_def
      frame_of_def Let_def split: ring_rt.splits)

lemma ring_chain_walk:
  assumes "\<forall>x \<in> set ns. zone_idle (snd x)"
    and "length p = unat (h_len h)" "unat (h_len h) \<le> RING_MAX_PAYLOAD"
  shows "ring_chain now ns (wire_of h p) =
    (map (\<lambda>(i, h). (i, frame_of h p)) (fst (ring_walk (map (\<lambda>(i, s). (i, rl_my_mac s)) ns) h p)),
     case snd (ring_walk (map (\<lambda>(i, s). (i, rl_my_mac s)) ns) h p) of
       None \<Rightarrow> [] | Some h' \<Rightarrow> wire_of h' p)"
  using assms
proof (induction ns arbitrary: h)
  case Nil
  then show ?case by simp
next
  case (Cons n ns)
  obtain i s where n: "n = (i, s)" by (cases n)
  have idle: "zone_idle s" and rest: "\<forall>x \<in> set ns. zone_idle (snd x)"
    using Cons.prems(1) n by auto
  have sil: "ring_chain now ns [] = ([], [])" using rest by (rule ring_chain_silent)
  have IH: "ring_chain now ns (wire_of (h\<lparr>h_ttl := h_ttl h - 1\<rparr>) p) =
    (map (\<lambda>(i, h). (i, frame_of h p))
       (fst (ring_walk (map (\<lambda>(i, s). (i, rl_my_mac s)) ns) (h\<lparr>h_ttl := h_ttl h - 1\<rparr>) p)),
     case snd (ring_walk (map (\<lambda>(i, s). (i, rl_my_mac s)) ns) (h\<lparr>h_ttl := h_ttl h - 1\<rparr>) p) of
       None \<Rightarrow> [] | Some h' \<Rightarrow> wire_of h' p)"
    using Cons.prems rest by (intro Cons.IH) simp_all
  have "node_rx (\<lambda>_. True) i now s (wire_of h p) = snd (ring_link_dispatch (\<lambda>_. True) i now s h p)"
    using idle Cons.prems(2,3) by (rule node_rx_frame)
  then show ?case
    using dispatch_zone [OF idle Cons.prems(3), of i now p] IH sil
    by (auto simp: n Let_def split: ring_rt.splits)
qed

section \<open>Where a frame ends up\<close>

lemma ttl_dec: "h_ttl h \<noteq> 0 \<Longrightarrow> unat (h_ttl h - 1) = unat (h_ttl h) - 1"
  by (simp add: unat_minus_one)

lemma ttl_gt1: "1 < unat (h_ttl h) \<Longrightarrow> \<not> h_ttl h \<le> 1 \<and> h_ttl h \<noteq> 0"
  by (auto simp: word_le_nat_alt)

definition unicast :: "u8 \<Rightarrow> bool" where
  "unicast i \<longleftrightarrow> i \<noteq> RING_ID_UNASSIGNED \<and> i \<noteq> RING_ID_BCAST"

text \<open>A unicast nobody on this stretch sends or owns passes it, one hop per board.\<close>

lemma walk_passes:
  assumes "unicast (h_dst h)" "h_dst h \<notin> fst ` set ns" "h_src h \<notin> fst ` set ns"
    and "length ns < unat (h_ttl h)"
  shows "ring_walk (ns @ ms) h p =
    ring_walk ms (h\<lparr>h_ttl := h_ttl h - of_nat (length ns)\<rparr>) p"
  using assms
proof (induction ns arbitrary: h)
  case Nil
  then show ?case by simp
next
  case (Cons n ns)
  obtain i mac where n: "n = (i, mac)" by (cases n)
  have t: "\<not> h_ttl h \<le> 1" "h_ttl h \<noteq> 0" using Cons.prems(4) ttl_gt1 [of h] by auto
  have "ring_route False i mac h p = RT_FORWARD"
    using Cons.prems t by (auto simp: ring_route_def n unicast_def Let_def)
  moreover have "ring_walk (ns @ ms) (h\<lparr>h_ttl := h_ttl h - 1\<rparr>) p =
      ring_walk ms (h\<lparr>h_ttl := h_ttl h - 1 - of_nat (length ns)\<rparr>) p"
    using Cons.prems t ttl_dec [of h] by (subst Cons.IH) auto
  ultimately show ?case using t by (simp add: n algebra_simps)
qed

lemma walk_unclaimed:
  assumes "unicast (h_dst h)" "h_dst h \<notin> fst ` set ns" "h_src h \<notin> fst ` set ns"
    and "length ns < unat (h_ttl h)"
  shows "ring_walk ns h p = ([], Some (h\<lparr>h_ttl := h_ttl h - of_nat (length ns)\<rparr>))"
  using walk_passes [OF assms, of "[]" p] by simp

lemma walk_delivers:
  assumes "unicast (h_dst h)" "h_dst h \<notin> fst ` set ns" "h_src h \<notin> fst ` set ns"
    and "length ns < unat (h_ttl h)" "h_src h \<noteq> h_dst h"
  shows "ring_walk (ns @ (h_dst h, mac) # ms) h p =
    ([(h_dst h, h\<lparr>h_ttl := h_ttl h - of_nat (length ns)\<rparr>)], None)"
  using assms(1,5) by (simp add: walk_passes [OF assms(1-4)] ring_route_def Let_def unicast_def)

lemma walk_broadcast:
  assumes "h_dst h = RING_ID_BCAST" "h_src h \<notin> fst ` set ns" "RING_ID_BCAST \<notin> fst ` set ns"
    and "length ns \<le> unat (h_ttl h)"
  shows "map fst (fst (ring_walk ns h p)) = map fst ns \<and>
    snd (ring_walk ns h p) = Some (h\<lparr>h_ttl := h_ttl h - of_nat (length ns)\<rparr>)"
  using assms
proof (induction ns arbitrary: h)
  case Nil
  then show ?case by simp
next
  case (Cons n ns)
  obtain i mac where n: "n = (i, mac)" by (cases n)
  have t: "h_ttl h \<noteq> 0" using Cons.prems(4) by auto
  have "ring_route False i mac h p = RT_CONSUME_FWD"
    using Cons.prems by (auto simp: ring_route_def n Let_def)
  moreover have "map fst (fst (ring_walk ns (h\<lparr>h_ttl := h_ttl h - 1\<rparr>) p)) = map fst ns \<and>
      snd (ring_walk ns (h\<lparr>h_ttl := h_ttl h - 1\<rparr>) p) =
        Some (h\<lparr>h_ttl := h_ttl h - 1 - of_nat (length ns)\<rparr>)"
    using Cons.prems t ttl_dec [of h] Cons.IH [of "h\<lparr>h_ttl := h_ttl h - 1\<rparr>"] by auto
  ultimately show ?case using t by (simp add: n algebra_simps)
qed

text \<open>
  Boards wired into a loop without a master are a walk along the loop unrolled; no frame, of
  whatever type and address, gets past more boards than its time-to-live.
\<close>

lemma walk_dies:
  "unat (h_ttl h) < length ns \<Longrightarrow> snd (ring_walk ns h p) = None"
proof (induction ns arbitrary: h)
  case Nil
  then show ?case by simp
next
  case (Cons n ns)
  obtain i mac where n: "n = (i, mac)" by (cases n)
  show ?case
  proof (cases "h_ttl h = 0")
    case True
    then show ?thesis by (simp add: n Let_def split: ring_rt.split)
  next
    case False
    with Cons have "snd (ring_walk ns (h\<lparr>h_ttl := h_ttl h - 1\<rparr>) p) = None"
      using ttl_dec [of h] unat_gt_0 [of "h_ttl h"] by (intro Cons.IH) simp
    with False show ?thesis by (simp add: n Let_def split: ring_rt.split)
  qed
qed

lemma walk_visits_bounded: "length (fst (ring_walk ns h p)) \<le> unat (h_ttl h) + 1"
proof (induction ns arbitrary: h)
  case Nil
  then show ?case by simp
next
  case (Cons n ns)
  obtain i mac where n: "n = (i, mac)" by (cases n)
  show ?case
  proof (cases "h_ttl h = 0")
    case True
    then show ?thesis by (simp add: n Let_def split: ring_rt.split)
  next
    case False
    with Cons [of "h\<lparr>h_ttl := h_ttl h - 1\<rparr>"] have
      "length (fst (ring_walk ns (h\<lparr>h_ttl := h_ttl h - 1\<rparr>) p)) \<le> unat (h_ttl h)"
      using ttl_dec [of h] unat_gt_0 [of "h_ttl h"] by simp
    with False show ?thesis by (simp add: n Let_def split: ring_rt.split)
  qed
qed

section \<open>Properties\<close>

definition sample_zone :: "u8 \<Rightarrow> ring_link" where
  "sample_zone m = \<lparr>rl_is_master = False, rl_my_mac = [m, 0, 0, 0, 0, 1],
     rl_ctr = \<lparr>rx_crc_err = 0, rx_uart_err = 0, rx_drop = 0, fwd_count = 0, tx_count = 0,
       drop_self = 0\<rparr>,
     rl_ts_returned_ms = 0, rl_last_rx_ms = 0, rl_dec = \<lparr>dec_buf = replicate 143 0, dec_n = 0\<rparr>\<rparr>"

lemma sample_zone_idle: "zone_idle (sample_zone m)"
  by (simp add: zone_idle_def sample_zone_def ring_dec_ok_def RING_WIRE_MAX_def)

text \<open>A broadcast is consumed once by every board of the ring in ring order and comes back to the sender.\<close>

lemma broadcast_reaches_all:
  assumes "h_dst h = RING_ID_BCAST" "h_src h \<notin> fst ` set ns" "RING_ID_BCAST \<notin> fst ` set ns"
    "length ns \<le> unat (h_ttl h)"
  shows "map fst (fst (ring_walk ns h p)) = map fst ns \<and>
    snd (ring_walk ns h p) = Some (h\<lparr>h_ttl := h_ttl h - of_nat (length ns)\<rparr>)"
  using assms by (rule walk_broadcast)

lemma broadcast_reaches_all_witness:
  "map fst (fst (ring_walk [(1, [1]), (2, [2])] (sample_hdr\<lparr>h_dst := 0xFF\<rparr>) [1, 0])) = [1, 2]"
  using broadcast_reaches_all [of "sample_hdr\<lparr>h_dst := 0xFF\<rparr>" "[(1, [1]), (2, [2])]" "[1, 0]"]
  by (simp add: sample_hdr_def ring_ids)

text \<open>A unicast for a board of the ring is consumed by that board only, with its time-to-live reduced by the boards before it, and goes no further.\<close>

lemma unicast_delivered:
  assumes "unicast (h_dst h)" "h_dst h \<notin> fst ` set ns" "h_src h \<notin> fst ` set ns"
    "length ns < unat (h_ttl h)" "h_src h \<noteq> h_dst h"
  shows "ring_walk (ns @ (h_dst h, mac) # ms) h p =
    ([(h_dst h, h\<lparr>h_ttl := h_ttl h - of_nat (length ns)\<rparr>)], None)"
  using assms by (rule walk_delivers)

lemma unicast_delivered_witness:
  "ring_walk ([(1, [1]), (2, [2])] @ (h_dst sample_hdr, [3]) # [(4, [4])]) sample_hdr [1, 0] =
     ([(3, sample_hdr\<lparr>h_ttl := 14\<rparr>)], None)"
  by (subst unicast_delivered) (simp_all add: sample_hdr_def unicast_def ring_ids)

text \<open>A frame's bytes sent through a chain of idle boards reach exactly the consume queues, and leave the last board as exactly the frame, that the header-level walk predicts.\<close>

lemma chain_refines_walk:
  assumes "\<forall>x \<in> set ns. zone_idle (snd x)"
    "length p = unat (h_len h)" "unat (h_len h) \<le> RING_MAX_PAYLOAD"
  shows "ring_chain now ns (wire_of h p) =
    (map (\<lambda>(i, h). (i, frame_of h p)) (fst (ring_walk (map (\<lambda>(i, s). (i, rl_my_mac s)) ns) h p)),
     case snd (ring_walk (map (\<lambda>(i, s). (i, rl_my_mac s)) ns) h p) of
       None \<Rightarrow> [] | Some h' \<Rightarrow> wire_of h' p)"
  using assms by (rule ring_chain_walk)

lemma chain_refines_walk_witness:
  "fst (ring_chain 5 [(1, sample_zone 1), (3, sample_zone 3)] (wire_of sample_hdr [1, 0])) \<noteq> []"
proof (subst chain_refines_walk)
  show "\<forall>x \<in> set [(1, sample_zone 1), (3, sample_zone 3)]. zone_idle (snd x)"
    by (simp add: sample_zone_idle)
qed (simp_all add: sample_hdr_def RING_MAX_PAYLOAD_def ring_route_def sample_zone_def ring_ids word_le_nat_alt)

text \<open>C30. No frame of whatever type and address gets past more boards than its time-to-live, and at most one more takes it in, even in a loop without a master: the bytes leaving a longer chain of boards are none.\<close>

lemma no_endless_circulation:
  assumes "\<forall>x \<in> set ns. zone_idle (snd x)"
    "length p = unat (h_len h)" "unat (h_len h) \<le> RING_MAX_PAYLOAD"
  shows "(unat (h_ttl h) < length ns \<longrightarrow> snd (ring_chain now ns (wire_of h p)) = []) \<and>
    length (fst (ring_chain now ns (wire_of h p))) \<le> unat (h_ttl h) + 1"
  using walk_dies [of h "map (\<lambda>(i, s). (i, rl_my_mac s)) ns" p]
    walk_visits_bounded [of "map (\<lambda>(i, s). (i, rl_my_mac s)) ns" h p]
  by (simp add: ring_chain_walk [OF assms])

lemma no_endless_circulation_witness:
  \<open>snd (ring_chain 5 (replicate 17 (9, sample_zone 9)) (wire_of sample_hdr [1, 0])) = []\<close>
  using no_endless_circulation [of "replicate 17 (9, sample_zone 9)" "[1, 0]" sample_hdr 5]
    sample_zone_idle [of 9]
  by (simp add: sample_hdr_def RING_MAX_PAYLOAD_def)

end
