(* ===== verification/Ring_Trk.thy ===== *)
theory Ring_Trk
  imports Ring_Link "HOL-Library.Multiset"
begin

text \<open>
  \<^verbatim>\<open>components/ring_proto/ring_trk.c\<close>: the master's stop-and-wait tracker. A queue of
  at most eight encoded frames; the head is in flight once its attempt count is positive, is
  retransmitted byte for byte on timeout, and leaves by acknowledgement, by a third timeout, or
  because it came back unclaimed.
\<close>

definition RING_TRK_DEPTH :: nat where "RING_TRK_DEPTH = 8"

definition ring_ack_timeout_ms :: "u8 \<Rightarrow> u32" where
  "ring_ack_timeout_ms ring_size =
     (let v = 200 + 40 * ucast ring_size; v1 = (if v < 400 then 400 else v)
      in if v1 > 900 then 900 else v1)"

record ring_trk_slot =
  ts_seq :: u16
  ts_dst :: u8
  ts_type :: u8
  ts_wire :: "u8 list"
  ts_attempts :: u8
  ts_last_send_ms :: u32

text \<open>\<open>q[0 .. n)\<close>, head of line first.\<close>

type_synonym ring_trk = "ring_trk_slot list"

datatype trk_ev_kind = EV_NONE | EV_SEND | EV_DONE | EV_FAIL

record ring_trk_ev =
  ev_kind :: trk_ev_kind
  ev_seq :: u16
  ev_dst :: u8
  ev_type :: u8
  ev_wire :: "u8 list option"
  ev_status :: u8
  ev_detail :: "u8 list"
  ev_fail_token :: "string option"

definition ring_trk_init :: ring_trk where
  "ring_trk_init = []"

definition is_priority_type :: "u8 \<Rightarrow> bool" where
  "is_priority_type t \<longleftrightarrow> t = RING_T_CMD \<or> t = RING_T_FW_UPDATE"

text \<open>The \<open>while\<close> loop of the submission: the first index from \<open>idx\<close> on whose entry is no
  command.\<close>

fun trk_skip_priority :: "ring_trk \<Rightarrow> nat \<Rightarrow> nat" where
  "trk_skip_priority [] idx = idx"
| "trk_skip_priority (e # q) idx =
     (if is_priority_type (ts_type e) then trk_skip_priority q (idx + 1) else idx)"

definition ring_trk_submit :: "ring_trk \<Rightarrow> ring_hdr \<Rightarrow> u8 list \<Rightarrow> ring_trk option" where
  "ring_trk_submit t h payload =
     (if length t \<ge> RING_TRK_DEPTH then None
      else
        case ring_frame_encode h payload RING_WIRE_MAX of
          None \<Rightarrow> None
        | Some wire \<Rightarrow>
            let e = \<lparr>ts_seq = h_seq h, ts_dst = h_dst h, ts_type = h_type h, ts_wire = wire,
                     ts_attempts = 0, ts_last_send_ms = 0\<rparr>;
                start = (if t \<noteq> [] \<and> ts_attempts (hd t) > 0 then 1 else 0);
                idx = (if is_priority_type (h_type h)
                       then trk_skip_priority (drop start t) start else length t)
            in Some (take idx t @ e # drop idx t))"

definition fill_send :: "ring_trk_slot \<Rightarrow> ring_trk_ev" where
  "fill_send e = \<lparr>ev_kind = EV_SEND, ev_seq = ts_seq e, ev_dst = ts_dst e, ev_type = ts_type e,
     ev_wire = Some (ts_wire e), ev_status = 0, ev_detail = [], ev_fail_token = None\<rparr>"

definition fill_fail :: "ring_trk_slot \<Rightarrow> string \<Rightarrow> ring_trk_ev" where
  "fill_fail e token = \<lparr>ev_kind = EV_FAIL, ev_seq = ts_seq e, ev_dst = ts_dst e,
     ev_type = ts_type e, ev_wire = None, ev_status = 0, ev_detail = [],
     ev_fail_token = Some token\<rparr>"

text \<open>An operation returns the queue and, where the C returns 1, the event it filled in.\<close>

definition ring_trk_tick :: "ring_trk \<Rightarrow> u32 \<Rightarrow> u8 \<Rightarrow> ring_trk \<times> ring_trk_ev option" where
  "ring_trk_tick t now ring_size =
     (case t of
        [] \<Rightarrow> (t, None)
      | e # q \<Rightarrow>
          if ts_attempts e = 0 then
            let e' = e\<lparr>ts_attempts := 1, ts_last_send_ms := now\<rparr>
            in (e' # q, Some (fill_send e'))
          else if now - ts_last_send_ms e < ring_ack_timeout_ms ring_size then (t, None)
          else if ts_attempts e \<ge> 3 then (q, Some (fill_fail e ''ZONE_TIMEOUT''))
          else
            let e' = e\<lparr>ts_attempts := ts_attempts e + 1, ts_last_send_ms := now\<rparr>
            in (e' # q, Some (fill_send e')))"

definition ring_trk_ack ::
  "ring_trk \<Rightarrow> u16 \<Rightarrow> u8 \<Rightarrow> u8 list \<Rightarrow> u8 \<Rightarrow> ring_trk \<times> ring_trk_ev option" where
  "ring_trk_ack t acked_seq status detail detail_len =
     (case t of
        [] \<Rightarrow> (t, None)
      | e # q \<Rightarrow>
          if ts_attempts e = 0 \<or> ts_seq e \<noteq> acked_seq then (t, None)
          else
            let n = (if unat detail_len > 125 then 125 else unat detail_len)
            in (q, Some \<lparr>ev_kind = EV_DONE, ev_seq = ts_seq e, ev_dst = ts_dst e,
                  ev_type = ts_type e, ev_wire = None, ev_status = status,
                  ev_detail = take n detail, ev_fail_token = None\<rparr>))"

text \<open>\<open>None\<close> is -1: no such entry, or the entry is in flight.\<close>

fun ring_trk_cancel :: "ring_trk \<Rightarrow> u16 \<Rightarrow> ring_trk option" where
  "ring_trk_cancel [] seq = None"
| "ring_trk_cancel (e # q) seq =
     (if ts_seq e \<noteq> seq then map_option ((#) e) (ring_trk_cancel q seq)
      else if ts_attempts e \<noteq> 0 then None
      else Some q)"

definition ring_trk_unclaimed :: "ring_trk \<Rightarrow> ring_hdr \<Rightarrow> ring_trk \<times> ring_trk_ev option" where
  "ring_trk_unclaimed t returned =
     (case t of
        [] \<Rightarrow> (t, None)
      | e # q \<Rightarrow>
          if ts_attempts e = 0 then (t, None)
          else if ts_seq e \<noteq> h_seq returned \<or> ts_dst e \<noteq> h_dst returned then (t, None)
          else (q, Some (fill_fail e ''ZONE_UNKNOWN'')))"

section \<open>The tracker as a machine\<close>

datatype trk_op =
    Submit ring_hdr "u8 list"
  | Tick u32 u8
  | Ack u16 u8 "u8 list" u8
  | Cancel u16
  | Unclaimed ring_hdr

text \<open>The outcome of an operation: accepted or refused, withdrawn, or an event.\<close>

datatype trk_res = TrkOk | TrkErr | TrkQuiet | TrkEv ring_trk_ev

fun trk_step :: "ring_trk \<Rightarrow> trk_op \<Rightarrow> ring_trk \<times> trk_res" where
  "trk_step t (Submit h p) =
     (case ring_trk_submit t h p of None \<Rightarrow> (t, TrkErr) | Some t' \<Rightarrow> (t', TrkOk))"
| "trk_step t (Cancel seq) =
     (case ring_trk_cancel t seq of None \<Rightarrow> (t, TrkErr) | Some t' \<Rightarrow> (t', TrkOk))"
| "trk_step t (Tick now sz) =
     map_prod id (case_option TrkQuiet TrkEv) (ring_trk_tick t now sz)"
| "trk_step t (Ack seq st d n) =
     map_prod id (case_option TrkQuiet TrkEv) (ring_trk_ack t seq st d n)"
| "trk_step t (Unclaimed h) =
     map_prod id (case_option TrkQuiet TrkEv) (ring_trk_unclaimed t h)"

section \<open>The invariant\<close>

text \<open>
  Only the head may have been sent, at most three times; the entries behind an in-flight head
  are ordered, commands before the rest.
\<close>

definition trk_queued :: "ring_trk \<Rightarrow> ring_trk" where
  "trk_queued t = (if t \<noteq> [] \<and> ts_attempts (hd t) > 0 then tl t else t)"

definition trk_rank :: "ring_trk_slot \<Rightarrow> nat" where
  "trk_rank e = (if is_priority_type (ts_type e) then 0 else 1)"

definition trk_ok :: "ring_trk \<Rightarrow> bool" where
  "trk_ok t \<longleftrightarrow> length t \<le> RING_TRK_DEPTH \<and>
     (\<forall>e \<in> set (trk_queued t). ts_attempts e = 0) \<and>
     (\<forall>e \<in> set t. ts_attempts e \<le> 3 \<and> length (ts_wire e) \<le> RING_WIRE_MAX) \<and>
     sorted (map trk_rank (trk_queued t))"

lemma trk_skip_priority_eq:
  "trk_skip_priority q idx = idx + length (takeWhile (\<lambda>e. is_priority_type (ts_type e)) q)"
  by (induction q arbitrary: idx) auto

lemma takeWhile_insert:
  "take (length (takeWhile P q)) q = takeWhile P q"
  "drop (length (takeWhile P q)) q = dropWhile P q"
  by (simp_all add: takeWhile_eq_take [symmetric] dropWhile_eq_drop [symmetric])

text \<open>Where a submitted entry lands: after the commands already queued, or at the end.\<close>

lemma ring_trk_submit_place:
  assumes "ring_trk_submit t h p = Some t'"
  obtains e where "ts_seq e = h_seq h" "ts_dst e = h_dst h" "ts_type e = h_type h"
    "ts_attempts e = 0" "ring_frame_encode h p RING_WIRE_MAX = Some (ts_wire e)"
    "length t < RING_TRK_DEPTH"
    "t' = take (length t - length (trk_queued t)) t @
       (if is_priority_type (h_type h)
        then takeWhile (\<lambda>e. is_priority_type (ts_type e)) (trk_queued t) @ e #
             dropWhile (\<lambda>e. is_priority_type (ts_type e)) (trk_queued t)
        else trk_queued t @ [e])"
proof -
  from assms obtain wire where w: "ring_frame_encode h p RING_WIRE_MAX = Some wire"
    and l: "length t < RING_TRK_DEPTH"
    by (auto simp: ring_trk_submit_def split: if_splits option.splits)
  define e where "e = \<lparr>ts_seq = h_seq h, ts_dst = h_dst h, ts_type = h_type h, ts_wire = wire,
    ts_attempts = 0, ts_last_send_ms = 0\<rparr>"
  show ?thesis
  proof (rule that [of e])
    show "t' = take (length t - length (trk_queued t)) t @
       (if is_priority_type (h_type h)
        then takeWhile (\<lambda>e. is_priority_type (ts_type e)) (trk_queued t) @ e #
             dropWhile (\<lambda>e. is_priority_type (ts_type e)) (trk_queued t)
        else trk_queued t @ [e])"
      using assms w l
      by (cases t)
        (auto simp: ring_trk_submit_def trk_queued_def e_def [symmetric] Let_def
          trk_skip_priority_eq takeWhile_insert split: if_splits)
  qed (use w l in \<open>simp_all add: e_def\<close>)
qed

lemma sorted_insert_mid:
  "sorted (map f (xs @ ys)) \<Longrightarrow> \<forall>x \<in> set xs. f x \<le> f e \<Longrightarrow> \<forall>y \<in> set ys. f e \<le> f y \<Longrightarrow>
     sorted (map f (xs @ e # ys))"
  by (auto simp: sorted_append)

lemma trk_queued_prefix:
  "trk_queued (take (length t - length (trk_queued t)) t @ q) =
     (if t \<noteq> [] \<and> ts_attempts (hd t) > 0 then q else trk_queued q)"
  by (cases t) (auto simp: trk_queued_def)

lemma trk_rank_dropWhile:
  "sorted (map trk_rank q) \<Longrightarrow>
     \<forall>y \<in> set (dropWhile (\<lambda>e. is_priority_type (ts_type e)) q). trk_rank y = 1"
proof (induction q)
  case (Cons a q)
  show ?case
  proof (cases "is_priority_type (ts_type a)")
    case False
    then have a: "trk_rank a = 1" by (simp add: trk_rank_def)
    have "trk_rank y = 1" if "y \<in> set q" for y
    proof -
      have "trk_rank a \<le> trk_rank y" using Cons.prems that by simp
      moreover have "trk_rank y \<le> 1" by (simp add: trk_rank_def)
      ultimately show ?thesis using a by simp
    qed
    with a False show ?thesis by simp
  qed (use Cons in simp)
qed simp

lemma trk_ok_submit:
  assumes "trk_ok t" "ring_trk_submit t h p = Some t'"
  shows "trk_ok t'"
proof -
  from ring_trk_submit_place [OF assms(2)] obtain e where
    e: "ts_type e = h_type h" "ts_attempts e = 0"
      "ring_frame_encode h p RING_WIRE_MAX = Some (ts_wire e)" "length t < RING_TRK_DEPTH"
    and t': "t' = take (length t - length (trk_queued t)) t @
       (if is_priority_type (h_type h)
        then takeWhile (\<lambda>e. is_priority_type (ts_type e)) (trk_queued t) @ e #
             dropWhile (\<lambda>e. is_priority_type (ts_type e)) (trk_queued t)
        else trk_queued t @ [e])" by metis
  define q where "q = (if is_priority_type (h_type h)
        then takeWhile (\<lambda>e. is_priority_type (ts_type e)) (trk_queued t) @ e #
             dropWhile (\<lambda>e. is_priority_type (ts_type e)) (trk_queued t)
        else trk_queued t @ [e])"
  have tq: "t' = take (length t - length (trk_queued t)) t @ q" using t' by (simp add: q_def)
  have sp: "takeWhile (\<lambda>e. is_priority_type (ts_type e)) (trk_queued t) @
     dropWhile (\<lambda>e. is_priority_type (ts_type e)) (trk_queued t) = trk_queued t" by simp
  have setq: "set q = insert e (set (trk_queued t))" "length q = Suc (length (trk_queued t))"
    by (cases "is_priority_type (h_type h)";
        simp add: q_def set_takeWhile_insert length_takeWhile_insert del: set_append length_append;
        simp)+
  have att: "\<forall>x \<in> set q. ts_attempts x = 0" using assms(1) e by (auto simp: setq trk_ok_def)
  then have qq: "trk_queued q = q" by (cases q) (auto simp: trk_queued_def)
  have queued: "trk_queued t' = q" using qq trk_queued_prefix [of t q] by (simp add: tq)
  have wl: "length (ts_wire e) \<le> RING_WIRE_MAX"
    using e(3) by (rule ring_frame_encode_length)
  have sub: "set (trk_queued t) \<subseteq> set t" "length (trk_queued t) \<le> length t"
    by (auto simp: trk_queued_def dest: list.set_sel(2))
  have srt: "sorted (map trk_rank (trk_queued t))" using assms(1) by (simp add: trk_ok_def)
  have "sorted (map trk_rank q)"
  proof (cases "is_priority_type (h_type h)")
    case True
    with e srt show ?thesis
      unfolding q_def using sp trk_rank_dropWhile [OF srt]
      by (auto intro!: sorted_insert_mid simp: trk_rank_def simp del: map_append dest: set_takeWhileD)
  next
    case False
    with e srt show ?thesis
      by (auto simp: q_def sorted_append trk_rank_def)
  qed
  moreover have "length t' \<le> RING_TRK_DEPTH"
    using e(4) setq sub by (simp add: tq)
  moreover have "\<forall>x \<in> set t'. ts_attempts x \<le> 3 \<and> length (ts_wire x) \<le> RING_WIRE_MAX"
    using assms(1) sub wl e(2) by (auto simp: tq setq trk_ok_def dest!: in_set_takeD)
  ultimately show ?thesis using att by (simp add: trk_ok_def queued)
qed

text \<open>The invariant of a queue in terms of its head and its tail.\<close>

lemma trk_ok_Nil [simp]: "trk_ok []"
  by (simp add: trk_ok_def trk_queued_def)

lemma trk_ok_Cons:
  "trk_ok (e # q) \<longleftrightarrow>
     Suc (length q) \<le> RING_TRK_DEPTH \<and> ts_attempts e \<le> 3 \<and> length (ts_wire e) \<le> RING_WIRE_MAX \<and>
     (\<forall>x \<in> set q. ts_attempts x = 0 \<and> length (ts_wire x) \<le> RING_WIRE_MAX) \<and>
     sorted (map trk_rank q) \<and> (ts_attempts e = 0 \<longrightarrow> (\<forall>x \<in> set q. trk_rank e \<le> trk_rank x))"
proof -
  have "(a \<le> 3) = (a = (0 :: u8) \<or> 0 < a \<and> a \<le> 3)" for a
    using word_gt_0 [of a] by auto
  then show ?thesis
    by (cases "ts_attempts e = 0")
      (auto simp: trk_ok_def trk_queued_def word_gt_0)
qed

lemma trk_ok_tl: "trk_ok (e # q) \<Longrightarrow> trk_ok q"
  by (cases q) (simp_all add: trk_ok_Cons)

lemma trk_ok_head:
  "trk_ok (e # q) \<Longrightarrow> ts_attempts f \<noteq> 0 \<Longrightarrow> ts_attempts f \<le> 3 \<Longrightarrow> ts_wire f = ts_wire e \<Longrightarrow>
     trk_ok (f # q)"
  by (simp add: trk_ok_Cons)

lemma attempts_succ:
  assumes "\<not> 3 \<le> (a :: u8)"
  shows "a + 1 \<noteq> 0 \<and> a + 1 \<le> 3 \<and> unat (a + 1) = unat a + 1"
proof -
  have "unat a < 3" using assms by (simp add: word_le_nat_alt)
  then have "unat (a + 1) = unat a + 1" by (simp add: unat_word_ariths)
  with \<open>unat a < 3\<close> show ?thesis by (auto simp: word_le_nat_alt)
qed

lemma trk_ok_tick: "trk_ok t \<Longrightarrow> trk_ok (fst (ring_trk_tick t now sz))"
proof (cases t)
  case (Cons e q)
  assume ok: "trk_ok t"
  consider "ts_attempts e = 0" | "ts_attempts e \<noteq> 0" "3 \<le> ts_attempts e"
    | "ts_attempts e \<noteq> 0" "\<not> 3 \<le> ts_attempts e" by blast
  then show ?thesis
  proof cases
    case 1
    then show ?thesis using ok trk_ok_head [of e q "e\<lparr>ts_attempts := 1, ts_last_send_ms := now\<rparr>"]
      by (simp add: Cons ring_trk_tick_def Let_def)
  next
    case 2
    then show ?thesis using ok trk_ok_tl [of e q]
      by (simp add: Cons ring_trk_tick_def)
  next
    case 3
    define f where "f = e\<lparr>ts_attempts := ts_attempts e + 1, ts_last_send_ms := now\<rparr>"
    have "trk_ok (f # q)"
      using ok trk_ok_head [of e q f] attempts_succ [OF 3(2)] by (simp only: Cons) (simp add: f_def)
    then show ?thesis using ok 3
      by (simp add: Cons ring_trk_tick_def Let_def f_def)
  qed
qed (simp add: ring_trk_tick_def)

lemma trk_ok_ack: "trk_ok t \<Longrightarrow> trk_ok (fst (ring_trk_ack t seq st d n))"
  by (cases t) (auto simp: ring_trk_ack_def Let_def dest: trk_ok_tl)

lemma trk_ok_unclaimed: "trk_ok t \<Longrightarrow> trk_ok (fst (ring_trk_unclaimed t h))"
  by (cases t) (auto simp: ring_trk_unclaimed_def dest: trk_ok_tl)

text \<open>A cancellation takes out the first entry of that number, which was never sent.\<close>

lemma ring_trk_cancel_split:
  "ring_trk_cancel t seq = Some t' \<Longrightarrow>
     \<exists>xs e ys. t = xs @ e # ys \<and> t' = xs @ ys \<and> ts_seq e = seq \<and> ts_attempts e = 0 \<and>
        seq \<notin> ts_seq ` set xs"
proof (induction t arbitrary: t')
  case (Cons a t)
  show ?case
  proof (cases "ts_seq a = seq")
    case True
    with Cons.prems have "a # t = [] @ a # t \<and> t' = [] @ t \<and> ts_attempts a = 0 \<and> seq \<notin> ts_seq ` set []"
      by (simp split: if_splits)
    with True show ?thesis by blast
  next
    case False
    with Cons.prems obtain u where "t' = a # u" "ring_trk_cancel t seq = Some u" by auto
    with Cons.IH obtain xs e ys where "a # t = (a # xs) @ e # ys" "t' = (a # xs) @ ys"
      "ts_seq e = seq" "ts_attempts e = 0" "seq \<notin> ts_seq ` set (a # xs)" using False by auto
    then show ?thesis by blast
  qed
qed simp

lemma trk_ok_cancel:
  assumes "trk_ok t" "ring_trk_cancel t seq = Some t'"
  shows "trk_ok t'"
proof -
  from ring_trk_cancel_split [OF assms(2)] obtain xs e ys where
    t: "t = xs @ e # ys" "t' = xs @ ys" "ts_attempts e = 0" by blast
  show ?thesis
  proof (cases xs)
    case Nil
    with assms(1) t trk_ok_tl [of e ys] show ?thesis by simp
  next
    case (Cons a as)
    with assms(1) t show ?thesis by (simp add: trk_ok_Cons sorted_append)
  qed
qed

lemma trk_ok_step: "trk_ok t \<Longrightarrow> trk_ok (fst (trk_step t x))"
  by (cases x)
    (simp_all add: trk_ok_tick trk_ok_ack trk_ok_unclaimed split: option.split,
     auto dest: trk_ok_submit trk_ok_cancel)

interpretation trk: step_invariant trk_step trk_ok
  by unfold_locales (rule trk_ok_step)

section \<open>Every accepted frame is accounted for\<close>

fun trk_accepted :: "trk_op \<times> trk_res \<Rightarrow> u16 multiset" where
  "trk_accepted (Submit h p, TrkOk) = {#h_seq h#}"
| "trk_accepted _ = {#}"

fun trk_withdrawn :: "trk_op \<times> trk_res \<Rightarrow> u16 multiset" where
  "trk_withdrawn (Cancel seq, TrkOk) = {#seq#}"
| "trk_withdrawn _ = {#}"

fun trk_finished :: "trk_op \<times> trk_res \<Rightarrow> u16 multiset" where
  "trk_finished (_, TrkEv ev) = (if ev_kind ev \<in> {EV_DONE, EV_FAIL} then {#ev_seq ev#} else {#})"
| "trk_finished _ = {#}"

abbreviation trk_seqs :: "ring_trk \<Rightarrow> u16 multiset" where
  "trk_seqs t \<equiv> mset (map ts_seq t)"

lemma mset_takeWhile_insert: "mset (takeWhile P q @ e # dropWhile P q) = add_mset e (mset q)"
  by (induction q) auto

lemma ring_trk_submit_mset:
  assumes "ring_trk_submit t h p = Some t'"
  shows "\<exists>e. ts_seq e = h_seq h \<and> mset t' = add_mset e (mset t)"
proof -
  from ring_trk_submit_place [OF assms] obtain e where
    e: "ts_seq e = h_seq h"
    and t': "t' = take (length t - length (trk_queued t)) t @
       (if is_priority_type (h_type h)
        then takeWhile (\<lambda>e. is_priority_type (ts_type e)) (trk_queued t) @ e #
             dropWhile (\<lambda>e. is_priority_type (ts_type e)) (trk_queued t)
        else trk_queued t @ [e])" by metis
  have "mset t' = mset (take (length t - length (trk_queued t)) t) + add_mset e (mset (trk_queued t))"
    unfolding t' by (cases "is_priority_type (h_type h)") (simp_all only: mset_append [of "take _ t"] mset_takeWhile_insert if_True if_False, simp)
  moreover have "take (length t - length (trk_queued t)) t @ trk_queued t = t"
    by (cases t) (simp_all add: trk_queued_def)
  then have "mset (take (length t - length (trk_queued t)) t) + mset (trk_queued t) = mset t"
    by (metis mset_append)
  ultimately show ?thesis using e by (intro exI [of _ e]) simp
qed

lemma trk_step_account:
  assumes "trk_step t x = (t', r)"
  shows "trk_seqs t + trk_accepted (x, r) =
    trk_finished (x, r) + trk_withdrawn (x, r) + trk_seqs t'"
proof (cases x)
  case (Submit h p)
  show ?thesis
  proof (cases "ring_trk_submit t h p")
    case (Some u)
    with ring_trk_submit_mset [OF Some] assms show ?thesis by (auto simp: Submit)
  qed (use assms Submit in auto)
next
  case (Tick now sz)
  then show ?thesis using assms
    by (cases t) (simp_all add: ring_trk_tick_def Let_def fill_send_def fill_fail_def split: if_splits, auto)
next
  case (Ack seq st d n)
  then show ?thesis using assms
    by (cases t) (auto simp: ring_trk_ack_def Let_def split: if_splits)
next
  case (Unclaimed h)
  then show ?thesis using assms
    by (cases t) (auto simp: ring_trk_unclaimed_def fill_fail_def split: if_splits)
next
  case (Cancel seq)
  show ?thesis
  proof (cases "ring_trk_cancel t seq")
    case (Some u)
    with ring_trk_cancel_split [OF Some] assms show ?thesis by (auto simp: Cancel)
  qed (use assms Cancel in auto)
qed

lemma trk_run_account:
  assumes "run_steps trk_step t xs = (t', rs)"
  shows "trk_seqs t + (\<Sum>p \<leftarrow> zip xs rs. trk_accepted p) =
    (\<Sum>p \<leftarrow> zip xs rs. trk_finished p) + (\<Sum>p \<leftarrow> zip xs rs. trk_withdrawn p) + trk_seqs t'"
  using assms
proof (induction xs arbitrary: t rs)
  case (Cons x xs)
  obtain u r where u: "trk_step t x = (u, r)" by force
  obtain rs' where rs: "run_steps trk_step u xs = (t', rs')" "rs = r # rs'"
    using Cons.prems u by (auto simp: run_steps.simps split: prod.splits)
  let ?A = "\<Sum>p \<leftarrow> zip xs rs'. trk_accepted p" and ?F = "\<Sum>p \<leftarrow> zip xs rs'. trk_finished p"
    and ?W = "\<Sum>p \<leftarrow> zip xs rs'. trk_withdrawn p"
  have "trk_seqs t + trk_accepted (x, r) + ?A =
      trk_finished (x, r) + trk_withdrawn (x, r) + (trk_seqs u + ?A)"
    by (simp only: trk_step_account [OF u] add.assoc)
  also have "trk_seqs u + ?A = ?F + ?W + trk_seqs t'" by (rule Cons.IH [OF rs(1)])
  finally show ?case by (simp add: rs(2) union_ac)
qed simp

section \<open>A silent destination\<close>

text \<open>
  Ticks that are never closer than the longest acknowledgement timeout: each queued frame is
  sent three times and then reported, in queue order, and the queue is empty afterwards.
\<close>

lemma ring_ack_timeout_ms_le: "ring_ack_timeout_ms sz \<le> 900"
  by (auto simp: ring_ack_timeout_ms_def Let_def)

lemma ring_ack_timeout_ms_ge: "400 \<le> ring_ack_timeout_ms sz"
  by (auto simp: ring_ack_timeout_ms_def Let_def)

fun tick_every :: "u32 \<Rightarrow> u32 \<Rightarrow> u8 \<Rightarrow> nat \<Rightarrow> trk_op list" where
  "tick_every now d sz 0 = []"
| "tick_every now d sz (Suc n) = Tick now sz # tick_every (now + d) d sz n"

definition sent :: "ring_trk_slot \<Rightarrow> u8 \<Rightarrow> u32 \<Rightarrow> ring_trk_slot" where
  "sent e a now = e\<lparr>ts_attempts := a, ts_last_send_ms := now\<rparr>"

lemma not_due:
  assumes "900 \<le> (d :: u32)"
  shows "\<not> d < ring_ack_timeout_ms sz"
  using order_trans [OF ring_ack_timeout_ms_le assms] by (simp add: not_less)

lemma sent_again:
  "900 \<le> d \<Longrightarrow> a \<in> {1, 2} \<Longrightarrow>
     ring_trk_tick (sent e a now # q) (now + d) sz =
       (sent e (a + 1) (now + d) # q, Some (fill_send e))"
  by (elim insertE emptyE)
    (simp_all add: ring_trk_tick_def sent_def not_due fill_send_def word_le_nat_alt)

lemma sent_gives_up:
  "900 \<le> d \<Longrightarrow>
     ring_trk_tick (sent e 3 now # q) (now + d) sz = (q, Some (fill_fail e ''ZONE_TIMEOUT''))"
  by (simp add: ring_trk_tick_def sent_def not_due fill_fail_def)

lemma silent_head:
  assumes "ts_attempts e = 0" "900 \<le> d"
  shows "run_steps trk_step (e # q) (tick_every now d sz (4 + n)) =
    (fst (run_steps trk_step q (tick_every (now + 4 * d) d sz n)),
     [TrkEv (fill_send e), TrkEv (fill_send e), TrkEv (fill_send e),
      TrkEv (fill_fail e ''ZONE_TIMEOUT'')] @
     snd (run_steps trk_step q (tick_every (now + 4 * d) d sz n)))"
proof -
  have four: "tick_every now d sz (4 + n) =
    [Tick now sz, Tick (now + d) sz, Tick (now + d + d) sz, Tick (now + d + d + d) sz] @
    tick_every (now + 4 * d) d sz n"
    by (simp add: eval_nat_numeral) (simp add: algebra_simps)
  let ?s1 = "sent e 1 now" and ?s2 = "sent e 2 (now + d)" and ?s3 = "sent e 3 (now + d + d)"
  have 1: "trk_step (e # q) (Tick now sz) = (?s1 # q, TrkEv (fill_send e))"
    using assms(1) by (simp add: ring_trk_tick_def sent_def fill_send_def Let_def)
  note again = sent_again [where a = 1, simplified] sent_again [where a = 2, simplified]
  have 2: "trk_step (?s1 # q) (Tick (now + d) sz) = (?s2 # q, TrkEv (fill_send e))"
    by (simp only: trk_step.simps again [OF assms(2)] map_prod_simp id_apply option.case)
  have 3: "trk_step (?s2 # q) (Tick (now + d + d) sz) = (?s3 # q, TrkEv (fill_send e))"
    by (simp only: trk_step.simps again [OF assms(2)] map_prod_simp id_apply option.case)
  have 4: "trk_step (?s3 # q) (Tick (now + d + d + d) sz) = (q, TrkEv (fill_fail e ''ZONE_TIMEOUT''))"
    by (simp only: trk_step.simps sent_gives_up [OF assms(2)] map_prod_simp id_apply option.case)
  show ?thesis
    by (simp only: four append_Cons append_Nil run_steps.simps(2) 1 2 3 4 Let_def prod.case split_def fst_conv snd_conv)
qed

lemma silent_queue_drains:
  assumes "900 \<le> d" "\<forall>e \<in> set t. ts_attempts e = 0"
  shows "run_steps trk_step t (tick_every now d sz (4 * length t)) =
    ([], concat (map (\<lambda>e. [TrkEv (fill_send e), TrkEv (fill_send e), TrkEv (fill_send e),
      TrkEv (fill_fail e ''ZONE_TIMEOUT'')]) t))"
  using assms(2)
proof (induction t arbitrary: now)
  case (Cons e t)
  have "tick_every now d sz (4 * length (e # t)) = tick_every now d sz (4 + 4 * length t)"
    by simp
  then show ?case using silent_head [OF _ assms(1), of e t now sz "4 * length t"] Cons by simp
qed simp

section \<open>What leaves for the wire\<close>

text \<open>
  The output of the tracker, read as a history: every frame has an episode of at most three
  identical transmissions that one verdict closes. A frame is its number, destination, type and
  encoding, taken from the submission and not from the queue.
\<close>

type_synonym trk_frame = "u16 \<times> u8 \<times> u8 \<times> u8 list"

fun taken_frames :: "(trk_op \<times> trk_res) list \<Rightarrow> trk_frame multiset" where
  "taken_frames [] = {#}"
| "taken_frames ((Submit h p, TrkOk) # xs) =
     add_mset (h_seq h, h_dst h, h_type h, the (ring_frame_encode h p RING_WIRE_MAX)) (taken_frames xs)"
| "taken_frames (_ # xs) = taken_frames xs"

fun wire_log :: "trk_res list \<Rightarrow> ring_trk_ev list" where
  "wire_log [] = []"
| "wire_log (TrkEv ev # rs) = ev # wire_log rs"
| "wire_log (_ # rs) = wire_log rs"

fun transmits :: "trk_frame \<Rightarrow> ring_trk_ev \<Rightarrow> bool" where
  "transmits (seq, dst, typ, wire) ev \<longleftrightarrow>
     ev_kind ev = EV_SEND \<and> (ev_seq ev, ev_dst ev, ev_type ev, ev_wire ev) = (seq, dst, typ, Some wire)"

fun concludes :: "trk_frame \<Rightarrow> ring_trk_ev \<Rightarrow> bool" where
  "concludes (seq, dst, typ, wire) ev \<longleftrightarrow>
     ev_kind ev \<in> {EV_DONE, EV_FAIL} \<and> (ev_seq ev, ev_dst ev, ev_type ev) = (seq, dst, typ)"

text \<open>\<open>episodes log fs cur\<close>: the log is made of the closed episodes of the frames \<open>fs\<close>, followed by
  the transmissions so far of \<open>cur\<close>, if a frame is in flight.\<close>

inductive episodes :: "ring_trk_ev list \<Rightarrow> trk_frame list \<Rightarrow> (trk_frame \<times> nat) option \<Rightarrow> bool" where
  start: "episodes [] [] None"
| first: "episodes log fs None \<Longrightarrow> transmits f ev \<Longrightarrow> episodes (log @ [ev]) fs (Some (f, 1))"
| again: "episodes log fs (Some (f, n)) \<Longrightarrow> n < 3 \<Longrightarrow> transmits f ev \<Longrightarrow>
    episodes (log @ [ev]) fs (Some (f, n + 1))"
| close: "episodes log fs (Some (f, n)) \<Longrightarrow> concludes f ev \<Longrightarrow> episodes (log @ [ev]) (fs @ [f]) None"

definition slot_frame :: "ring_trk_slot \<Rightarrow> trk_frame" where
  "slot_frame e = (ts_seq e, ts_dst e, ts_type e, ts_wire e)"

definition in_flight :: "ring_trk \<Rightarrow> (trk_frame \<times> nat) option" where
  "in_flight t = (case t of [] \<Rightarrow> None
     | e # q \<Rightarrow> if ts_attempts e = 0 then None else Some (slot_frame e, unat (ts_attempts e)))"

text \<open>One step extends the history by its event, and moves frames from the queue to the closed
  episodes.\<close>

lemma episodes_idle:
  assumes "trk_ok (e # q)"
  shows "in_flight q = None"
  using assms by (cases q) (simp_all add: trk_ok_Cons in_flight_def)

lemma episodes_quiet: "in_flight (e # q) = in_flight (e # q')"
  by (simp add: in_flight_def)

lemma episodes_closed:
  assumes "trk_ok (e # q)" "ts_attempts e \<noteq> 0" "episodes log fs (in_flight (e # q))"
    "concludes (slot_frame e) ev"
  shows "episodes (log @ [ev]) (fs @ [slot_frame e]) (in_flight q)"
  using episodes.close [of log fs "slot_frame e"] assms by (simp add: episodes_idle) (simp add: in_flight_def)

lemma submit_frame:
  assumes "ring_trk_submit t h p = Some t'"
  shows "in_flight t' = in_flight t"
    "mset (map slot_frame t') =
       add_mset (h_seq h, h_dst h, h_type h, the (ring_frame_encode h p RING_WIRE_MAX)) (mset (map slot_frame t))"
proof -
  obtain e where e: "ts_seq e = h_seq h" "ts_dst e = h_dst h" "ts_type e = h_type h" "ts_attempts e = 0"
      "ring_frame_encode h p RING_WIRE_MAX = Some (ts_wire e)"
    and t': "t' = take (length t - length (trk_queued t)) t @
       (if is_priority_type (h_type h)
        then takeWhile (\<lambda>e. is_priority_type (ts_type e)) (trk_queued t) @ e #
             dropWhile (\<lambda>e. is_priority_type (ts_type e)) (trk_queued t)
        else trk_queued t @ [e])"
    using ring_trk_submit_place [OF assms] by metis
  define q where "q = (if is_priority_type (h_type h)
        then takeWhile (\<lambda>e. is_priority_type (ts_type e)) (trk_queued t) @ e #
             dropWhile (\<lambda>e. is_priority_type (ts_type e)) (trk_queued t)
        else trk_queued t @ [e])"
  have q: "mset q = add_mset e (mset (trk_queued t))"
    unfolding q_def by (cases "is_priority_type (h_type h)") (simp_all only: mset_takeWhile_insert if_True if_False, simp)
  have split: "take (length t - length (trk_queued t)) t @ trk_queued t = t"
    by (cases t) (simp_all add: trk_queued_def)
  have "mset t' = mset (take (length t - length (trk_queued t)) t) + add_mset e (mset (trk_queued t))"
    by (simp only: t' q_def [symmetric] mset_append q)
  also have "\<dots> = add_mset e (mset t)" by (subst (4) split [symmetric]) (simp only: mset_append, simp)
  finally show "mset (map slot_frame t') =
       add_mset (h_seq h, h_dst h, h_type h, the (ring_frame_encode h p RING_WIRE_MAX)) (mset (map slot_frame t))"
    using e by (simp add: slot_frame_def)
  show "in_flight t' = in_flight t"
    using e(4) unfolding t'
    by (cases t) (auto simp: in_flight_def trk_queued_def word_gt_0 takeWhile_eq_Nil_iff split: list.split)
qed

definition history_ok :: "(trk_op \<times> trk_res) list \<Rightarrow> ring_trk \<Rightarrow> bool" where
  "history_ok h t \<longleftrightarrow> trk_ok t \<and>
     (\<exists>fs. episodes (wire_log (map snd h)) fs (in_flight t) \<and> mset fs + mset (map slot_frame t) \<subseteq># taken_frames h)"

lemma taken_frames_append: "taken_frames (g @ h) = taken_frames g + taken_frames h"
  by (induction g rule: taken_frames.induct) simp_all

lemma wire_log_append: "wire_log (r @ s) = wire_log r @ wire_log s"
  by (induction r rule: wire_log.induct) simp_all

lemma history_quiet:
  assumes "history_ok h t" "trk_ok t'" "in_flight t' = in_flight t" "wire_log [r] = []"
    "mset (map slot_frame t') \<subseteq># mset (map slot_frame t) + taken_frames [(x, r)]"
  shows "history_ok (h @ [(x, r)]) t'"
proof -
  obtain fs where fs: "episodes (wire_log (map snd h)) fs (in_flight t)" "mset fs + mset (map slot_frame t) \<subseteq># taken_frames h"
    using assms(1) by (auto simp: history_ok_def)
  have "mset fs + mset (map slot_frame t') \<subseteq># mset fs + mset (map slot_frame t) + taken_frames [(x, r)]"
    using assms(5) by (simp only: subset_mset.add_left_mono add.assoc)
  also have "\<dots> \<subseteq># taken_frames h + taken_frames [(x, r)]" using fs(2) by (rule subset_mset.add_right_mono)
  finally show ?thesis using fs(1) assms(2,3,4)
    by (auto simp: history_ok_def taken_frames_append wire_log_append simp del: wire_log.simps taken_frames.simps)
qed

lemma history_closes:
  assumes "history_ok h (e # q)" "ts_attempts e \<noteq> 0" "concludes (slot_frame e) ev" "taken_frames [(x, TrkEv ev)] = {#}"
  shows "history_ok (h @ [(x, TrkEv ev)]) q"
proof -
  obtain fs where fs: "episodes (wire_log (map snd h)) fs (in_flight (e # q))"
      "mset fs + mset (map slot_frame (e # q)) \<subseteq># taken_frames h" and ok: "trk_ok (e # q)"
    using assms(1) by (auto simp: history_ok_def)
  have "episodes (wire_log (map snd (h @ [(x, TrkEv ev)]))) (fs @ [slot_frame e]) (in_flight q)"
    using episodes_closed [OF ok assms(2) fs(1) assms(3)] by (simp add: wire_log_append)
  moreover have "mset (fs @ [slot_frame e]) + mset (map slot_frame q) \<subseteq># taken_frames (h @ [(x, TrkEv ev)])"
    using fs(2) assms(4) by (simp add: taken_frames_append)
  ultimately show ?thesis using trk_ok_tl [OF ok] unfolding history_ok_def by blast
qed

lemma history_sends:
  assumes "history_ok h (e # q)" "ts_attempts e < 3" "e' = e\<lparr>ts_attempts := ts_attempts e + 1, ts_last_send_ms := now\<rparr>"
    "taken_frames [(x, TrkEv (fill_send e'))] = {#}"
  shows "history_ok (h @ [(x, TrkEv (fill_send e'))]) (e' # q)"
proof -
  obtain fs where fs: "episodes (wire_log (map snd h)) fs (in_flight (e # q))"
      "mset fs + mset (map slot_frame (e # q)) \<subseteq># taken_frames h" and ok: "trk_ok (e # q)"
    using assms(1) by (auto simp: history_ok_def)
  have a: "ts_attempts e' \<noteq> 0" "ts_attempts e' \<le> 3" "unat (ts_attempts e') = unat (ts_attempts e) + 1"
    using attempts_succ [of "ts_attempts e"] assms(2) by (simp_all add: assms(3) not_le)
  have s: "slot_frame e' = slot_frame e" "transmits (slot_frame e) (fill_send e')"
    by (simp_all add: assms(3) slot_frame_def fill_send_def)
  have f: "in_flight (e' # q) = Some (slot_frame e, unat (ts_attempts e) + 1)" using a s(1) by (simp add: in_flight_def)
  have "episodes (wire_log (map snd h) @ [fill_send e']) fs (in_flight (e' # q))"
  proof (cases "ts_attempts e = 0")
    case True
    with fs(1) show ?thesis using episodes.first [OF _ s(2)] by (simp add: f) (simp add: in_flight_def)
  next
    case False
    with fs(1) assms(2) show ?thesis
      using episodes.again [OF _ _ s(2), of _ fs "unat (ts_attempts e)"] by (simp add: f word_less_nat_alt) (simp add: in_flight_def)
  qed
  moreover have "trk_ok (e' # q)" using trk_ok_head [OF ok a(1,2)] by (simp add: assms(3))
  moreover have "mset fs + mset (map slot_frame (e' # q)) \<subseteq># taken_frames (h @ [(x, TrkEv (fill_send e'))])"
    using fs(2) assms(4) by (simp add: taken_frames_append s(1))
  ultimately show ?thesis unfolding history_ok_def by (auto simp: wire_log_append)
qed

lemma trk_tick_cases:
  assumes "ring_trk_tick t now sz = (t', ev)"
  obtains (quiet) "t' = t" "ev = None"
  | (sends) e q e' where "t = e # q" "ts_attempts e < 3" "e' = e\<lparr>ts_attempts := ts_attempts e + 1, ts_last_send_ms := now\<rparr>"
      "t' = e' # q" "ev = Some (fill_send e')"
  | (fails) e q where "t = e # q" "ts_attempts e \<noteq> 0" "t' = q" "ev = Some (fill_fail e ''ZONE_TIMEOUT'')"
  using assms by (cases t) (auto simp: ring_trk_tick_def Let_def not_le split: if_splits)

lemma history_step:
  assumes "history_ok h t" "trk_step t x = (t', r)"
  shows "history_ok (h @ [(x, r)]) t'"
proof -
  have ok: "trk_ok t'" using trk_ok_step [of t x] assms by (simp add: history_ok_def)
  show ?thesis
  proof (cases x)
    case (Submit hd p)
    show ?thesis
    proof (cases "ring_trk_submit t hd p")
      case None
      then show ?thesis using assms ok Submit by (intro history_quiet [OF assms(1)]) auto
    next
      case (Some u)
      then show ?thesis using assms ok Submit submit_frame [OF Some]
        by (intro history_quiet [OF assms(1)]) auto
    qed
  next
    case (Tick now sz)
    obtain ev where ev: "ring_trk_tick t now sz = (t', ev)" "r = case_option TrkQuiet TrkEv ev"
      using assms(2) Tick by (cases "ring_trk_tick t now sz") auto
    from ev(1) show ?thesis
    proof (cases rule: trk_tick_cases)
      case quiet
      then show ?thesis using ev ok by (intro history_quiet [OF assms(1)]) (auto simp: Tick)
    next
      case (sends e q e')
      then show ?thesis using ev history_sends [of h e q e' now x] assms(1) by (simp add: Tick)
    next
      case (fails e q)
      then show ?thesis using ev history_closes [of h e q "fill_fail e ''ZONE_TIMEOUT''" x] assms(1)
        by (simp add: Tick slot_frame_def fill_fail_def)
    qed
  next
    case (Ack seq st d n)
    show ?thesis
    proof (cases "snd (ring_trk_ack t seq st d n)")
      case None
      then have "t' = t" "r = TrkQuiet" using assms(2) by (auto simp: Ack ring_trk_ack_def Let_def split: list.splits if_splits)
      then show ?thesis using ok by (intro history_quiet [OF assms(1)]) (auto simp: Ack)
    next
      case (Some ev)
      then obtain e q where e: "t = e # q" "ts_attempts e \<noteq> 0" "t' = q" "r = TrkEv ev" "concludes (slot_frame e) ev"
        using assms(2) by (auto simp: Ack ring_trk_ack_def Let_def slot_frame_def split: list.splits if_splits)
      then show ?thesis using history_closes [of h e q ev x] assms(1) by (simp add: Ack)
    qed
  next
    case (Unclaimed hd)
    show ?thesis
    proof (cases "snd (ring_trk_unclaimed t hd)")
      case None
      then have "t' = t" "r = TrkQuiet" using assms(2) by (auto simp: Unclaimed ring_trk_unclaimed_def split: list.splits if_splits)
      then show ?thesis using ok by (intro history_quiet [OF assms(1)]) (auto simp: Unclaimed)
    next
      case (Some ev)
      then obtain e q where e: "t = e # q" "ts_attempts e \<noteq> 0" "t' = q" "r = TrkEv ev" "concludes (slot_frame e) ev"
        using assms(2)
        by (auto simp: Unclaimed ring_trk_unclaimed_def fill_fail_def slot_frame_def split: list.splits if_splits)
      then show ?thesis using history_closes [of h e q ev x] assms(1) by (simp add: Unclaimed)
    qed
  next
    case (Cancel seq)
    show ?thesis
    proof (cases "ring_trk_cancel t seq")
      case None
      then show ?thesis using assms ok by (intro history_quiet [OF assms(1)]) (auto simp: Cancel)
    next
      case (Some u)
      obtain xs e ys where c: "t = xs @ e # ys" "u = xs @ ys" "ts_attempts e = 0" using ring_trk_cancel_split [OF Some] by blast
      have "in_flight u = in_flight t"
      proof (cases xs)
        case Nil
        then show ?thesis using c assms(1) episodes_idle [of e ys] by (simp add: history_ok_def) (simp add: in_flight_def)
      qed (simp add: c in_flight_def)
      moreover have "mset (map slot_frame u) \<subseteq># mset (map slot_frame t)" by (simp add: c)
      ultimately show ?thesis using assms ok Some by (intro history_quiet [OF assms(1)]) (auto simp: Cancel)
    qed
  qed
qed

lemma history_run:
  "history_ok h t \<Longrightarrow> run_steps trk_step t xs = (t', rs) \<Longrightarrow> history_ok (h @ zip xs rs) t'"
proof (induction xs arbitrary: h t rs)
  case (Cons x xs)
  obtain u r where u: "trk_step t x = (u, r)" by force
  obtain rs' where rs: "run_steps trk_step u xs = (t', rs')" "rs = r # rs'"
    using Cons.prems(2) u by (auto simp: run_steps.simps split: prod.splits)
  show ?case using Cons.IH [OF history_step [OF Cons.prems(1) u] rs(1)] by (simp add: rs(2))
qed simp

lemma history_init: "history_ok [] ring_trk_init"
  by (auto simp: history_ok_def ring_trk_init_def in_flight_def intro: episodes.start)

lemma transmits_unique: "transmits f ev \<Longrightarrow> transmits g ev \<longleftrightarrow> g = f"
  by (cases f; cases g) auto

lemma concludes_no_send: "concludes f ev \<Longrightarrow> \<not> transmits g ev"
  by (cases f; cases g) auto

lemma episodes_count:
  "episodes log fs cur \<Longrightarrow> length (filter (transmits f) log) \<le>
     3 * count (mset fs) f + (case cur of None \<Rightarrow> 0 | Some (g, n) \<Rightarrow> if g = f then n else 0) \<and>
   (case cur of None \<Rightarrow> True | Some (g, n) \<Rightarrow> n \<le> 3)"
  by (induction rule: episodes.induct) (auto simp: transmits_unique concludes_no_send)

lemma history_count:
  assumes "history_ok h t"
  shows "length (filter (transmits f) (wire_log (map snd h))) \<le> 3 * count (taken_frames h) f"
proof -
  obtain fs where fs: "episodes (wire_log (map snd h)) fs (in_flight t)" "mset fs + mset (map slot_frame t) \<subseteq># taken_frames h"
    using assms by (auto simp: history_ok_def)
  have "(case in_flight t of None \<Rightarrow> 0 | Some (g, n) \<Rightarrow> if g = f then n else 0) \<le> 3 * count (mset (map slot_frame t)) f"
    using episodes_count [OF fs(1), of f] by (cases t) (auto simp: in_flight_def)
  then have "length (filter (transmits f) (wire_log (map snd h))) \<le> 3 * count (mset fs + mset (map slot_frame t)) f"
    using episodes_count [OF fs(1), of f] by simp
  also have "\<dots> \<le> 3 * count (taken_frames h) f" using mset_subset_eq_count [OF fs(2), of f] by simp
  finally show ?thesis .
qed

section \<open>Properties\<close>

text \<open>With ticks at least 900 ms apart and no answer, every queued frame is sent exactly three times with identical bytes, then reported as timed out, in queue order, and the queue is empty after four ticks per frame.\<close>

lemma silent_destination:
  assumes "900 \<le> d" "\<forall>e \<in> set t. ts_attempts e = 0"
  shows "run_steps trk_step t (tick_every now d sz (4 * length t)) =
    ([], concat (map (\<lambda>e. [TrkEv (fill_send e), TrkEv (fill_send e), TrkEv (fill_send e),
      TrkEv (fill_fail e ''ZONE_TIMEOUT'')]) t))"
  using assms by (rule silent_queue_drains)

lemma silent_destination_witness:
  "fst (run_steps trk_step
     [\<lparr>ts_seq = 7, ts_dst = 3, ts_type = 0x10, ts_wire = [0, 1, 0], ts_attempts = 0, ts_last_send_ms = 0\<rparr>]
     (tick_every 0 1000 8 (4 * 1))) = []"
  using silent_destination [of 1000 "[\<lparr>ts_seq = 7, ts_dst = 3, ts_type = 0x10, ts_wire = [0, 1, 0],
      ts_attempts = 0, ts_last_send_ms = 0\<rparr>]" 0 8] by simp

text \<open>Between any two states of the tracker, what was queued or accepted is what finished with an event, was withdrawn, or is still queued: no sequence number is lost or reported twice.\<close>

lemma every_frame_accounted:
  assumes "run_steps trk_step t xs = (t', rs)"
  shows "trk_seqs t + (\<Sum>p \<leftarrow> zip xs rs. trk_accepted p) =
    (\<Sum>p \<leftarrow> zip xs rs. trk_finished p) + (\<Sum>p \<leftarrow> zip xs rs. trk_withdrawn p) + trk_seqs t'"
  using assms by (rule trk_run_account)

lemma every_frame_accounted_witness:
  "trk_seqs [] + (\<Sum>p \<leftarrow> zip [Tick 0 1] [TrkQuiet]. trk_accepted p) =
    (\<Sum>p \<leftarrow> zip [Tick 0 1] [TrkQuiet]. trk_finished p) +
    (\<Sum>p \<leftarrow> zip [Tick 0 1] [TrkQuiet]. trk_withdrawn p) + trk_seqs []"
  by (rule every_frame_accounted) (simp add: run_steps.simps ring_trk_tick_def)

text \<open>C31. Over any sequence of submissions, ticks, acknowledgements, cancellations and returned frames, read off what leaves the tracker: a frame, with the bytes of its encoding, goes out at most three times for each time it was accepted, one frame is finished by exactly one verdict before the next one is sent, and no verdict and no transmission concerns a frame that was not accepted. The queue holds at most eight entries, only its head was ever sent, and behind it commands stand ahead of configuration frames.\<close>

lemma tracker_sends_each_frame_at_most_thrice:
  "let (t, rs) = run_steps trk_step ring_trk_init xs; log = wire_log rs; taken = taken_frames (zip xs rs) in
    trk_ok t \<and> length (filter (transmits f) log) \<le> 3 * count taken f \<and>
    (\<exists>fs. episodes log fs (in_flight t) \<and> mset fs + mset (map slot_frame t) \<subseteq># taken)"
proof -
  obtain t rs where r: "run_steps trk_step ring_trk_init xs = (t, rs)" by force
  have l: "map snd (zip xs rs) = rs" using length_run_steps [of trk_step ring_trk_init xs] by (simp add: r)
  have "history_ok (zip xs rs) t" using history_run [OF history_init r] by simp
  then show ?thesis using history_count [of "zip xs rs" t f] unfolding history_ok_def l by (simp add: r)
qed

end
