(* ===== verification/Ring_Cfgx.thy ===== *)
theory Ring_Cfgx
  imports HG_Prelude
begin

text \<open>
  \<^verbatim>\<open>components/ring_proto/ring_cfgx.c\<close>: a configuration blob travels as up to seven
  CFG_CHUNK payloads of 112 data bytes; the reassembler collects them in any order. The main
  results: the reassembler never writes outside its buffer, and chunks of one blob, fed in any
  order and with any repetition, give the blob back exactly when the last missing one arrives.
\<close>

definition RING_CFG_DATA_MAX :: nat where "RING_CFG_DATA_MAX = 112"
definition RING_CFG_BUF_MAX :: nat where "RING_CFG_BUF_MAX = 768"
definition RING_CFG_IDLE_MS :: u32 where "RING_CFG_IDLE_MS = 2000"
definition RING_CFG_HDR_LEN :: nat where "RING_CFG_HDR_LEN = 9"
definition RING_CFG_MAX_CHUNKS :: nat where
  "RING_CFG_MAX_CHUNKS = (RING_CFG_BUF_MAX + RING_CFG_DATA_MAX - 1) div RING_CFG_DATA_MAX"

lemmas cfg_consts = RING_CFG_DATA_MAX_def RING_CFG_BUF_MAX_def RING_CFG_HDR_LEN_def
  RING_CFG_MAX_CHUNKS_def

section \<open>The chunker\<close>

definition ring_cfg_chunk_count :: "nat \<Rightarrow> nat" where
  "ring_cfg_chunk_count blob_len = (blob_len + RING_CFG_DATA_MAX - 1) div RING_CFG_DATA_MAX"

definition ring_cfg_chunk_build ::
  "u8 \<Rightarrow> u32 \<Rightarrow> u8 list \<Rightarrow> u8 \<Rightarrow> nat \<Rightarrow> u8 list option" where
  "ring_cfg_chunk_build kind gen blob idx cap =
     (let blob_len = length blob
      in if blob_len > RING_CFG_BUF_MAX then None
         else
           let count = ring_cfg_chunk_count blob_len
           in if unat idx \<ge> count then None
              else
                let off = unat idx * RING_CFG_DATA_MAX;
                    remaining = blob_len - off;
                    data_len = (if remaining < RING_CFG_DATA_MAX then remaining
                                else RING_CFG_DATA_MAX)
                in if cap < RING_CFG_HDR_LEN + data_len then None
                   else Some ([kind] @ le32_put gen @ [idx, of_nat count] @
                     le16_put (of_nat blob_len) @ take data_len (drop off blob)))"

section \<open>The reassembler\<close>

record ring_casm =
  ca_active :: bool
  ca_kind :: u8
  ca_gen :: u32
  ca_total :: u16
  ca_count :: u8
  ca_got_mask :: u8
  ca_last_ms :: u32
  ca_buf :: "u8 list"

definition ring_casm_init :: ring_casm where
  "ring_casm_init = \<lparr>ca_active = False, ca_kind = 0, ca_gen = 0, ca_total = 0, ca_count = 0,
     ca_got_mask = 0, ca_last_ms = 0, ca_buf = replicate RING_CFG_BUF_MAX 0\<rparr>"

definition casm_start :: "ring_casm \<Rightarrow> u8 \<Rightarrow> u32 \<Rightarrow> u8 \<Rightarrow> u16 \<Rightarrow> ring_casm" where
  "casm_start a kind gen count tot = a\<lparr>ca_active := True, ca_kind := kind, ca_gen := gen,
     ca_count := count, ca_total := tot, ca_got_mask := 0,
     ca_buf := replicate RING_CFG_BUF_MAX 0\<rparr>"

datatype casm_res = CasmProgress | CasmComplete | CasmRejected

text \<open>The last third of the C function: store the data and see whether all is there.\<close>

definition casm_store :: "ring_casm \<Rightarrow> u8 \<Rightarrow> u8 list \<Rightarrow> u32 \<Rightarrow> ring_casm \<times> casm_res" where
  "casm_store a idx data now =
     (let a' = a\<lparr>ca_buf := mem_put (ca_buf a) (unat idx * RING_CFG_DATA_MAX) data,
                ca_got_mask := ca_got_mask a OR push_bit (unat idx) 1,
                ca_last_ms := now\<rparr>;
          full_mask = push_bit (unat (ca_count a')) 1 - 1
      in (a', if ca_got_mask a' = full_mask then CasmComplete else CasmProgress))"

definition ring_casm_feed :: "ring_casm \<Rightarrow> u8 list \<Rightarrow> u32 \<Rightarrow> ring_casm \<times> casm_res" where
  "ring_casm_feed a payload now =
     (if length payload < RING_CFG_HDR_LEN then (a, CasmRejected)
      else
        let kind = payload ! 0; gen = le32_at payload 1; idx = payload ! 5;
            count = payload ! 6; tot = le16_at payload 7;
            data_len = length payload - RING_CFG_HDR_LEN;
            data = drop RING_CFG_HDR_LEN payload
        in if count = 0 \<or> unat count > RING_CFG_MAX_CHUNKS then (a, CasmRejected)
           else if idx \<ge> count then (a, CasmRejected)
           else if unat tot > RING_CFG_BUF_MAX then (a, CasmRejected)
           else if unat count \<noteq> ring_cfg_chunk_count (unat tot) then (a, CasmRejected)
           else
             let last = (int (unat idx) = int (unat count) - 1);
                 rem = int (unat tot) - int RING_CFG_DATA_MAX * int (unat idx);
                 expected_len = (if last then nat rem else RING_CFG_DATA_MAX)
             in if last \<and> (rem \<le> 0 \<or> rem > int RING_CFG_DATA_MAX) then (a, CasmRejected)
                else if data_len \<noteq> expected_len then (a, CasmRejected)
                else if \<not> ca_active a \<or> ca_kind a \<noteq> kind \<or> ca_gen a \<noteq> gen
                then casm_store (casm_start a kind gen count tot) idx data now
                else if ca_count a \<noteq> count \<or> ca_total a \<noteq> tot then (a, CasmRejected)
                else casm_store a idx data now)"

definition ring_casm_idle_expired :: "ring_casm \<Rightarrow> u32 \<Rightarrow> bool" where
  "ring_casm_idle_expired a now \<longleftrightarrow> ca_active a \<and> now - ca_last_ms a > RING_CFG_IDLE_MS"

section \<open>The buffer is never overrun\<close>

definition casm_ok :: "ring_casm \<Rightarrow> bool" where
  "casm_ok a \<longleftrightarrow> length (ca_buf a) = RING_CFG_BUF_MAX \<and>
     (ca_active a \<longrightarrow> 0 < unat (ca_count a) \<and> unat (ca_count a) \<le> 7 \<and>
        unat (ca_total a) \<le> RING_CFG_BUF_MAX \<and>
        unat (ca_count a) = ring_cfg_chunk_count (unat (ca_total a)) \<and>
        (\<forall>i. bit (ca_got_mask a) i \<longrightarrow> i < unat (ca_count a)))"

text \<open>An accepted chunk lies inside the first \<open>total\<close> bytes.\<close>

lemma chunk_fits:
  assumes "i < ring_cfg_chunk_count tot" "tot \<le> RING_CFG_BUF_MAX"
    "n = (if int i = int (ring_cfg_chunk_count tot) - 1
          then nat (int tot - int RING_CFG_DATA_MAX * int i) else RING_CFG_DATA_MAX)"
  shows "i * RING_CFG_DATA_MAX + n \<le> tot" "0 < n" "n \<le> RING_CFG_DATA_MAX"
    "n = min (tot - i * RING_CFG_DATA_MAX) RING_CFG_DATA_MAX"
proof -
  define c where "c = (tot + 111) div 112"
  have c: "112 * c \<le> tot + 111" "tot + 111 < 112 * c + 112"
    unfolding c_def by (rule times_div_less_eq_dividend) (use dividend_less_times_div [of 112 "tot + 111"] in simp)
  have i: "i < c" using assms(1) by (simp add: c_def ring_cfg_chunk_count_def cfg_consts)
  have n: "n = (if i = c - 1 then tot - 112 * i else 112)"
  proof -
    have "(int i = int c - 1) = (i = c - 1)" using i by arith
    moreover have "nat (int tot - 112 * int i) = tot - 112 * i" by arith
    moreover have "ring_cfg_chunk_count tot = c"
      by (simp add: c_def ring_cfg_chunk_count_def cfg_consts)
    ultimately show ?thesis by (simp only: assms(3) RING_CFG_DATA_MAX_def of_nat_numeral)
  qed
  show "i * RING_CFG_DATA_MAX + n \<le> tot" "0 < n" "n \<le> RING_CFG_DATA_MAX"
    "n = min (tot - i * RING_CFG_DATA_MAX) RING_CFG_DATA_MAX"
    using c i by (auto simp: n cfg_consts min_def)
qed

text \<open>The acceptance test of a chunk header, and what an accepted chunk does.\<close>

definition casm_accepts :: "u8 list \<Rightarrow> bool" where
  "casm_accepts p \<longleftrightarrow>
     RING_CFG_HDR_LEN \<le> length p \<and> p ! 6 \<noteq> 0 \<and> unat (p ! 6) \<le> RING_CFG_MAX_CHUNKS \<and>
     p ! 5 < p ! 6 \<and> unat (le16_at p 7) \<le> RING_CFG_BUF_MAX \<and>
     unat (p ! 6) = ring_cfg_chunk_count (unat (le16_at p 7)) \<and>
     length p - RING_CFG_HDR_LEN =
       (if int (unat (p ! 5)) = int (ring_cfg_chunk_count (unat (le16_at p 7))) - 1
        then nat (int (unat (le16_at p 7)) - int RING_CFG_DATA_MAX * int (unat (p ! 5)))
        else RING_CFG_DATA_MAX)"

definition casm_same :: "ring_casm \<Rightarrow> u8 list \<Rightarrow> bool" where
  "casm_same a p \<longleftrightarrow> ca_active a \<and> ca_kind a = p ! 0 \<and> ca_gen a = le32_at p 1"

lemma ring_casm_feed_eq:
  "ring_casm_feed a p now =
     (if \<not> casm_accepts p then (a, CasmRejected)
      else if \<not> casm_same a p
      then casm_store (casm_start a (p ! 0) (le32_at p 1) (p ! 6) (le16_at p 7)) (p ! 5)
             (drop RING_CFG_HDR_LEN p) now
      else if ca_count a \<noteq> p ! 6 \<or> ca_total a \<noteq> le16_at p 7 then (a, CasmRejected)
      else casm_store a (p ! 5) (drop RING_CFG_HDR_LEN p) now)"
proof (cases "RING_CFG_HDR_LEN \<le> length p \<and> p ! 6 \<noteq> 0 \<and> unat (p ! 6) \<le> RING_CFG_MAX_CHUNKS \<and>
     p ! 5 < p ! 6 \<and> unat (le16_at p 7) \<le> RING_CFG_BUF_MAX \<and>
     unat (p ! 6) = ring_cfg_chunk_count (unat (le16_at p 7))")
  case True
  let ?n = "if int (unat (p ! 5)) = int (ring_cfg_chunk_count (unat (le16_at p 7))) - 1
        then nat (int (unat (le16_at p 7)) - int RING_CFG_DATA_MAX * int (unat (p ! 5)))
        else RING_CFG_DATA_MAX"
  from True have "unat (p ! 5) < ring_cfg_chunk_count (unat (le16_at p 7))"
    by (simp add: word_less_nat_alt)
  then have "0 < ?n \<and> ?n \<le> RING_CFG_DATA_MAX" using chunk_fits(2,3) True by blast
  with True show ?thesis
    by (auto simp: ring_casm_feed_def casm_accepts_def casm_same_def Let_def)
next
  case False
  then show ?thesis by (auto simp: ring_casm_feed_def casm_accepts_def Let_def)
qed

lemma casm_accepts_fits:
  assumes "casm_accepts p"
  shows "unat (p ! 5) * RING_CFG_DATA_MAX + length (drop RING_CFG_HDR_LEN p) \<le> unat (le16_at p 7)"
    "unat (p ! 5) < unat (p ! 6)" "unat (p ! 6) \<le> 7" "unat (le16_at p 7) \<le> RING_CFG_BUF_MAX"
    "unat (p ! 6) = ring_cfg_chunk_count (unat (le16_at p 7))"
proof -
  from assms have i: "unat (p ! 5) < ring_cfg_chunk_count (unat (le16_at p 7))"
    and t: "unat (le16_at p 7) \<le> RING_CFG_BUF_MAX"
    by (simp_all add: casm_accepts_def word_less_nat_alt)
  show "unat (p ! 5) * RING_CFG_DATA_MAX + length (drop RING_CFG_HDR_LEN p) \<le> unat (le16_at p 7)"
    using chunk_fits(1) [OF i t refl] assms unfolding casm_accepts_def length_drop by presburger
  show "unat (p ! 5) < unat (p ! 6)" "unat (p ! 6) \<le> 7" "unat (le16_at p 7) \<le> RING_CFG_BUF_MAX"
    "unat (p ! 6) = ring_cfg_chunk_count (unat (le16_at p 7))"
    using assms by (simp_all add: casm_accepts_def word_less_nat_alt cfg_consts)
qed

lemma casm_ok_store:
  assumes "casm_ok a" "ca_active a" "unat idx < unat (ca_count a)"
    "unat idx * RING_CFG_DATA_MAX + length data \<le> unat (ca_total a)"
  shows "casm_ok (fst (casm_store a idx data now))"
proof -
  from assms have "unat idx * RING_CFG_DATA_MAX + length data \<le> length (ca_buf a)"
    by (simp add: casm_ok_def)
  with assms show ?thesis
    by (auto simp: casm_ok_def casm_store_def Let_def length_mem_put bit_simps)
qed

lemma casm_ok_start:
  "casm_accepts p \<Longrightarrow> casm_ok (casm_start a (p ! 0) (le32_at p 1) (p ! 6) (le16_at p 7))"
  using casm_accepts_fits [of p] by (simp add: casm_ok_def casm_start_def)

lemma casm_ok_feed: "casm_ok a \<Longrightarrow> casm_ok (fst (ring_casm_feed a p now))"
  using casm_accepts_fits [of p] casm_ok_start [of p a]
  by (auto simp: ring_casm_feed_eq intro!: casm_ok_store) (auto simp: casm_start_def casm_same_def)

abbreviation casm_step :: "ring_casm \<Rightarrow> u8 list \<times> u32 \<Rightarrow> ring_casm \<times> casm_res" where
  "casm_step a pt \<equiv> ring_casm_feed a (fst pt) (snd pt)"

interpretation casm: step_invariant casm_step casm_ok
  by unfold_locales (rule casm_ok_feed)

lemma casm_ok_init: "casm_ok ring_casm_init"
  by (simp add: casm_ok_def ring_casm_init_def)

section \<open>Reassembly in any order\<close>

lemma chunk_build_fields:
  assumes "ring_cfg_chunk_build kind gen blob idx cap = Some p"
  shows "casm_accepts p" "p ! 0 = kind" "le32_at p 1 = gen" "p ! 5 = idx"
    "unat (p ! 6) = ring_cfg_chunk_count (length blob)" "unat (le16_at p 7) = length blob"
    "drop RING_CFG_HDR_LEN p = take RING_CFG_DATA_MAX (drop (unat idx * RING_CFG_DATA_MAX) blob)"
    "unat idx < ring_cfg_chunk_count (length blob)" "length blob \<le> RING_CFG_BUF_MAX"
proof -
  let ?c = "ring_cfg_chunk_count (length blob)"
  from assms have len: "length blob \<le> RING_CFG_BUF_MAX" and i: "unat idx < ?c"
    and p: "p = [kind] @ le32_put gen @ [idx, of_nat ?c] @ le16_put (of_nat (length blob)) @
       take RING_CFG_DATA_MAX (drop (unat idx * RING_CFG_DATA_MAX) blob)"
    by (auto simp: ring_cfg_chunk_build_def Let_def split: if_splits)
  have c7: "?c \<le> 7" using len by (simp add: ring_cfg_chunk_count_def cfg_consts)
  have uc: "unat (of_nat ?c :: u8) = ?c" using c7 by (simp add: unat_of_nat_u8)
  have ul: "unat (of_nat (length blob) :: u16) = length blob"
    using len by (simp add: unat_of_nat_u16 cfg_consts)
  show f: "p ! 0 = kind" "le32_at p 1 = gen" "p ! 5 = idx" "unat (p ! 6) = ?c"
      "unat (le16_at p 7) = length blob"
      "drop RING_CFG_HDR_LEN p = take RING_CFG_DATA_MAX (drop (unat idx * RING_CFG_DATA_MAX) blob)"
    using uc ul by (simp_all add: p le_put_defs le_at_defs le_simps RING_CFG_HDR_LEN_def)
  show "unat idx < ?c" "length blob \<le> RING_CFG_BUF_MAX" by fact+
  have n: "length p - RING_CFG_HDR_LEN =
      min (length blob - unat idx * RING_CFG_DATA_MAX) RING_CFG_DATA_MAX"
    unfolding length_drop [symmetric] f(6) by (simp add: min.commute)
  have "p ! 6 \<noteq> 0" using f(4) i by auto
  moreover have "p ! 5 < p ! 6" using f(3,4) i by (simp add: word_less_nat_alt)
  moreover have "RING_CFG_HDR_LEN \<le> length p" by (simp add: p RING_CFG_HDR_LEN_def)
  ultimately show "casm_accepts p"
    using chunk_fits(4) [OF i len refl] c7 len n
    unfolding casm_accepts_def f(3) f(4) f(5) by (simp add: RING_CFG_MAX_CHUNKS_def cfg_consts)
qed

text \<open>The state of a transfer of which the chunks \<open>S\<close> have arrived.\<close>

definition casm_has :: "u8 \<Rightarrow> u32 \<Rightarrow> u8 list \<Rightarrow> nat set \<Rightarrow> ring_casm \<Rightarrow> bool" where
  "casm_has kind gen blob S a \<longleftrightarrow>
     ca_active a \<and> ca_kind a = kind \<and> ca_gen a = gen \<and> unat (ca_total a) = length blob \<and>
     unat (ca_count a) = ring_cfg_chunk_count (length blob) \<and>
     length (ca_buf a) = RING_CFG_BUF_MAX \<and>
     (\<forall>i. bit (ca_got_mask a) i \<longleftrightarrow> i \<in> S) \<and> S \<subseteq> {..< ring_cfg_chunk_count (length blob)} \<and>
     (\<forall>q < length blob. q div RING_CFG_DATA_MAX \<in> S \<longrightarrow> ca_buf a ! q = blob ! q)"

lemma full_mask_iff:
  assumes "\<forall>i. bit (m :: u8) i \<longleftrightarrow> i \<in> S" "S \<subseteq> {..< c}" "c \<le> 7"
  shows "(m = push_bit c 1 - 1) = (S = {..< c})"
proof -
  have "(push_bit c 1 - 1 :: u8) = mask c" by (simp add: mask_eq_exp_minus_1 push_bit_eq_mult)
  moreover have "(m = mask c) = (\<forall>i < 8. (i \<in> S) = (i < c))"
    using assms(1) by (simp add: bit_eq_iff bit_mask_iff)
  moreover have "(\<forall>i < 8. (i \<in> S) = (i < c)) = (S = {..< c})"
    using assms(2,3) by (auto simp: subset_iff)
  ultimately show ?thesis by simp
qed

lemma casm_store_has:
  assumes h: "casm_has kind gen blob S a" and i: "unat idx < ring_cfg_chunk_count (length blob)"
    and len: "length blob \<le> RING_CFG_BUF_MAX"
  defines "data \<equiv> take RING_CFG_DATA_MAX (drop (unat idx * RING_CFG_DATA_MAX) blob)"
  shows "casm_has kind gen blob (insert (unat idx) S) (fst (casm_store a idx data now))"
    "snd (casm_store a idx data now) =
       (if insert (unat idx) S = {..< ring_cfg_chunk_count (length blob)} then CasmComplete
        else CasmProgress)"
proof -
  let ?c = "ring_cfg_chunk_count (length blob)"
  have c7: "?c \<le> 7" using len by (simp add: ring_cfg_chunk_count_def cfg_consts)
  have bits: "\<forall>k. bit (ca_got_mask a OR push_bit (unat idx) 1) k \<longleftrightarrow> k \<in> insert (unat idx) S"
    using h i c7 by (auto simp: casm_has_def bit_simps)
  have dl: "length data = min RING_CFG_DATA_MAX (length blob - unat idx * RING_CFG_DATA_MAX)"
    by (simp add: data_def)
  have fit: "unat idx * RING_CFG_DATA_MAX + length data \<le> length (ca_buf a)"
    using h len i by (simp add: casm_has_def dl cfg_consts ring_cfg_chunk_count_def)
  have buf: "mem_put (ca_buf a) (unat idx * RING_CFG_DATA_MAX) data ! q = blob ! q"
    if "q < length blob" "q div RING_CFG_DATA_MAX \<in> insert (unat idx) S" for q
  proof (cases "q div RING_CFG_DATA_MAX = unat idx")
    case True
    then have "unat idx * RING_CFG_DATA_MAX \<le> q" "q < unat idx * RING_CFG_DATA_MAX + RING_CFG_DATA_MAX"
      by (auto simp: cfg_consts)
    with that have "unat idx * RING_CFG_DATA_MAX \<le> q" "q < unat idx * RING_CFG_DATA_MAX + length data"
      by (auto simp: dl)
    then show ?thesis
      by (simp add: nth_mem_put [OF fit]) (simp add: data_def)
  next
    case False
    then have "\<not> (unat idx * RING_CFG_DATA_MAX \<le> q \<and> q < unat idx * RING_CFG_DATA_MAX + length data)"
      unfolding dl by (auto simp: cfg_consts)
    with that False h show ?thesis
      by (auto simp: nth_mem_put [OF fit] casm_has_def)
  qed
  show "casm_has kind gen blob (insert (unat idx) S) (fst (casm_store a idx data now))"
    using h bits buf i length_mem_put [OF fit] by (simp add: casm_has_def casm_store_def Let_def)
  have "insert (unat idx) S \<subseteq> {..< ?c}" using h i by (simp add: casm_has_def)
  from full_mask_iff [OF bits this c7] h
  show "snd (casm_store a idx data now) =
       (if insert (unat idx) S = {..< ?c} then CasmComplete else CasmProgress)"
    by (simp add: casm_store_def Let_def casm_has_def)
qed

lemma casm_feed_has:
  assumes b: "ring_cfg_chunk_build kind gen blob idx cap = Some p"
    and S: "casm_has kind gen blob S a \<or> S = {} \<and> \<not> (ca_active a \<and> ca_kind a = kind \<and> ca_gen a = gen)"
  shows "casm_has kind gen blob (insert (unat idx) S) (fst (ring_casm_feed a p now))"
    "snd (ring_casm_feed a p now) =
       (if insert (unat idx) S = {..< ring_cfg_chunk_count (length blob)} then CasmComplete
        else CasmProgress)"
proof -
  note f = chunk_build_fields [OF b]
  have "\<exists>a0. casm_has kind gen blob S a0 \<and>
     ring_casm_feed a p now = casm_store a0 idx (drop RING_CFG_HDR_LEN p) now"
  proof (cases "casm_same a p")
    case True
    then have h: "casm_has kind gen blob S a" using S f(2,3) by (simp add: casm_same_def)
    then have "unat (ca_count a) = unat (p ! 6)" "unat (ca_total a) = unat (le16_at p 7)"
      by (simp_all add: casm_has_def f)
    then have "ca_count a = p ! 6" "ca_total a = le16_at p 7" by (simp_all add: word_unat_eq_iff)
    with h True f(1,4) show ?thesis by (auto simp: ring_casm_feed_eq)
  next
    case False
    with S f(2,3) have S0: "S = {}" by (auto simp: casm_same_def casm_has_def)
    have "casm_has kind gen blob S (casm_start a (p ! 0) (le32_at p 1) (p ! 6) (le16_at p 7))"
      by (simp add: casm_has_def casm_start_def S0 f del: One_nat_def)
    with False f(1,4) show ?thesis by (auto simp: ring_casm_feed_eq)
  qed
  then obtain a0 where a0: "casm_has kind gen blob S a0"
    and feed: "ring_casm_feed a p now = casm_store a0 idx (drop RING_CFG_HDR_LEN p) now" by blast
  show "casm_has kind gen blob (insert (unat idx) S) (fst (ring_casm_feed a p now))"
    "snd (ring_casm_feed a p now) =
       (if insert (unat idx) S = {..< ring_cfg_chunk_count (length blob)} then CasmComplete
        else CasmProgress)"
    unfolding feed f(7) using casm_store_has [OF a0 f(8,9)] by blast+
qed

text \<open>A run over the chunks \<open>is\<close>, each with its arrival time.\<close>

lemma casm_run_has:
  assumes "map (\<lambda>i. ring_cfg_chunk_build kind gen blob i cap) is = map (Some \<circ> fst) ps"
    and "casm_has kind gen blob S a \<or>
      S = {} \<and> \<not> (ca_active a \<and> ca_kind a = kind \<and> ca_gen a = gen)" "is \<noteq> []"
  shows "casm_has kind gen blob (S \<union> unat ` set is) (fst (run_steps casm_step a ps)) \<and>
    snd (run_steps casm_step a ps) =
      map (\<lambda>k. if S \<union> unat ` set (take (Suc k) is) = {..< ring_cfg_chunk_count (length blob)}
               then CasmComplete else CasmProgress) [0 ..< length is]"
  using assms
proof (induction "is" arbitrary: ps S a)
  case (Cons i "is")
  from Cons.prems(1) obtain pt qs where ps: "ps = pt # qs"
    and b: "ring_cfg_chunk_build kind gen blob i cap = Some (fst pt)"
    and qs: "map (\<lambda>i. ring_cfg_chunk_build kind gen blob i cap) is = map (Some \<circ> fst) qs"
    by (cases ps) auto
  note step = casm_feed_has [OF b Cons.prems(2), of "snd pt"]
  show ?case
  proof (cases "is = []")
    case True
    with qs step show ?thesis by (simp add: ps)
  next
    case False
    have "[0 ..< length (i # is)] = 0 # map Suc [0 ..< length is]"
      by (simp add: map_Suc_upt upt_conv_Cons del: upt_Suc)
    then show ?thesis
      using Cons.IH [OF qs disjI1 [OF step(1)] False] step(2)
      by (simp add: ps insert_commute Un_insert_right Un_insert_left del: upt_Suc)
  qed
qed simp

lemma chunk_of_index:
  assumes "q < length blob"
  shows "q div RING_CFG_DATA_MAX < ring_cfg_chunk_count (length blob)"
proof -
  have "q div 112 < (q + 112) div 112" by simp
  also have "\<dots> \<le> (length blob + 111) div 112" using assms by (intro div_le_mono) simp
  finally have "q div 112 < (length blob + 111) div 112" .
  then show ?thesis by (simp add: ring_cfg_chunk_count_def cfg_consts)
qed

lemma casm_has_all:
  assumes "casm_has kind gen blob {..< ring_cfg_chunk_count (length blob)} a"
    "length blob \<le> RING_CFG_BUF_MAX"
  shows "take (unat (ca_total a)) (ca_buf a) = blob"
proof (rule nth_equalityI)
  from assms have a: "unat (ca_total a) = length blob" "length (ca_buf a) = RING_CFG_BUF_MAX"
    by (simp_all add: casm_has_def)
  with assms(2) show "length (take (unat (ca_total a)) (ca_buf a)) = length blob" by simp
  fix q assume "q < length (take (unat (ca_total a)) (ca_buf a))"
  then have q: "q < length blob" using a by simp
  with chunk_of_index [OF q] assms(1) a(1)
  show "take (unat (ca_total a)) (ca_buf a) ! q = blob ! q" by (simp add: casm_has_def)
qed

lemma casm_reassembles:
  assumes chunks: "map (\<lambda>i. ring_cfg_chunk_build kind gen blob i cap) is = map (Some \<circ> fst) ps"
    and other: "\<not> (ca_active a \<and> ca_kind a = kind \<and> ca_gen a = gen)"
    and all: "unat ` set is = {..< ring_cfg_chunk_count (length blob)}" "is \<noteq> []"
  shows "take (unat (ca_total (fst (run_steps casm_step a ps)))) (ca_buf (fst (run_steps casm_step a ps)))
      = blob"
    "last (snd (run_steps casm_step a ps)) = CasmComplete"
    "distinct is \<Longrightarrow> \<forall>r \<in> set (butlast (snd (run_steps casm_step a ps))). r = CasmProgress"
proof -
  let ?c = "ring_cfg_chunk_count (length blob)"
  have run: "casm_has kind gen blob ({} \<union> unat ` set is) (fst (run_steps casm_step a ps)) \<and>
    snd (run_steps casm_step a ps) =
      map (\<lambda>k. if {} \<union> unat ` set (take (Suc k) is) = {..< ?c} then CasmComplete else CasmProgress)
        [0 ..< length is]"
    by (rule casm_run_has [OF chunks _ all(2)]) (intro disjI2 conjI refl other)
  then have h: "casm_has kind gen blob {..< ?c} (fst (run_steps casm_step a ps))"
    and r: "snd (run_steps casm_step a ps) =
      map (\<lambda>k. if unat ` set (take (Suc k) is) = {..< ?c} then CasmComplete else CasmProgress)
        [0 ..< length is]"
    unfolding Un_empty_left all(1) by (rule conjunct1, rule conjunct2)
  have "length blob \<le> RING_CFG_BUF_MAX"
  proof -
    from chunks all(2) obtain i p where "ring_cfg_chunk_build kind gen blob i cap = Some p"
      by (metis (no_types, lifting) comp_apply list.collapse list.map_disc_iff list.map_sel(1))
    then show ?thesis by (rule chunk_build_fields(9))
  qed
  from casm_has_all [OF h this]
  show "take (unat (ca_total (fst (run_steps casm_step a ps)))) (ca_buf (fst (run_steps casm_step a ps)))
      = blob" .
  show "last (snd (run_steps casm_step a ps)) = CasmComplete"
    using all by (simp add: r last_map)
  show "\<forall>r \<in> set (butlast (snd (run_steps casm_step a ps))). r = CasmProgress" if "distinct is"
  proof -
    have "unat ` set (take (Suc k) is) \<noteq> {..< ?c}" if "Suc k < length is" for k
    proof
      assume "unat ` set (take (Suc k) is) = {..< ?c}"
      then have "set (take (Suc k) is) = set is"
        using all(1) inj_image_eq_iff [OF inj_unsigned] by metis
      then have "card (set (take (Suc k) is)) = card (set is)" by simp
      with \<open>distinct is\<close> that show False by (simp add: distinct_card)
    qed
    moreover have "butlast [0 ..< length is] = [0 ..< length is - 1]"
      by (cases "length is") simp_all
    ultimately show ?thesis by (auto simp: r simp flip: map_butlast)
  qed
qed

section \<open>Properties\<close>

text \<open>Whatever payloads arrive, the reassembler keeps its 768-byte buffer and consistent transfer fields: it never writes outside, and a transfer in progress can complete.\<close>

lemma reassembler_in_bounds:
  "casm_ok a \<Longrightarrow> casm_ok (fst (run_steps casm_step a ps))"
  by (rule casm.run_keeps)

lemma reassembler_in_bounds_witness:
  "casm_ok (fst (run_steps casm_step ring_casm_init [([1, 2, 3], 0), (replicate 20 1, 5)]))"
  by (rule reassembler_in_bounds [OF casm_ok_init])

text \<open>The chunks of a configuration blob, fed in any order and with repetitions to a reassembler that was not in that transfer, give the blob back once all have arrived; if none is repeated, completion is reported on the last one and not before.\<close>

lemma chunks_reassemble:
  assumes "map (\<lambda>i. ring_cfg_chunk_build kind gen blob i cap) is = map (Some \<circ> fst) ps"
    "\<not> (ca_active a \<and> ca_kind a = kind \<and> ca_gen a = gen)"
    "unat ` set is = {..< ring_cfg_chunk_count (length blob)}" "is \<noteq> []"
  shows "take (unat (ca_total (fst (run_steps casm_step a ps)))) (ca_buf (fst (run_steps casm_step a ps))) = blob \<and>
    last (snd (run_steps casm_step a ps)) = CasmComplete \<and>
    (distinct is \<longrightarrow> (\<forall>r \<in> set (butlast (snd (run_steps casm_step a ps))). r = CasmProgress))"
  using casm_reassembles [OF assms] by blast

lemma chunks_reassemble_witness:
  "take (unat (ca_total (fst (run_steps casm_step ring_casm_init
        [(the (ring_cfg_chunk_build 1 9 [4, 5] 0 137), 0)]))))
     (ca_buf (fst (run_steps casm_step ring_casm_init
        [(the (ring_cfg_chunk_build 1 9 [4, 5] 0 137), 0)]))) = [4, 5]"
proof -
  let ?p = "the (ring_cfg_chunk_build 1 9 [4, 5] 0 137)"
  have b: "ring_cfg_chunk_build 1 9 [4, 5] 0 137 = Some ?p"
    by (simp add: ring_cfg_chunk_build_def ring_cfg_chunk_count_def cfg_consts Let_def)
  have "map (\<lambda>i. ring_cfg_chunk_build 1 9 [4, 5] i 137) [0] = map (Some \<circ> fst) [(?p, 0 :: u32)]"
    by (simp add: b [symmetric])
  from chunks_reassemble [OF this, of ring_casm_init] show ?thesis
    by (simp add: ring_casm_init_def ring_cfg_chunk_count_def cfg_consts lessThan_Suc)
qed

end
