(* ===== verification/Ring_Tlm.thy ===== *)
theory Ring_Tlm
  imports Ring_Proto
begin

text \<open>
  \<^verbatim>\<open>components/ring_proto/ring_tlm.c\<close> and \<^verbatim>\<open>ring_tlm_hb.c\<close>: the payloads of TIME_SYNC,
  ASSIGN_ID, FW_UPDATE, ACK and HEARTBEAT. A payload and a character array are lists of bytes
  (an array has the length of its C declaration); \<open>None\<close> is the -1 of the C. Where the
  C parses into a structure the caller owns, the parser takes its old contents, since it
  leaves the bytes behind a terminator and the shelves beyond \<open>n_shelves\<close> alone. What
  every codec promises is stated once, as an interface.
\<close>

section \<open>The contract of a codec\<close>

text \<open>\<open>view\<close> is what the sender means: the part of the structure that travels.\<close>

locale byte_codec =
  fixes pack :: "'a \<Rightarrow> u8 list option"
    and parse :: "u8 list \<Rightarrow> 'a option"
    and view :: "'a \<Rightarrow> 'b"
  assumes round_trip: "pack a = Some bs \<Longrightarrow> map_option view (parse bs) = Some (view a)"
begin

lemma parse_pack: "pack a = Some bs \<Longrightarrow> \<exists>a'. parse bs = Some a' \<and> view a' = view a"
  using round_trip [of a bs] by auto

lemma pack_inj: "pack a = Some bs \<Longrightarrow> pack b = Some bs \<Longrightarrow> view a = view b"
  using round_trip [of a bs] round_trip [of b bs] by simp

end

text \<open>
  The rule for protocol evolution: a receiver ignores what a newer sender appended.
\<close>

locale extensible_codec = byte_codec +
  assumes trailing: "parse bs = Some a \<Longrightarrow> parse (bs @ xs) = Some a"
begin

lemma parse_newer: "pack a = Some bs \<Longrightarrow> map_option view (parse (bs @ xs)) = Some (view a)"
  using round_trip [of a bs] trailing [of bs] by auto

lemma no_proper_prefix: "pack a = Some bs \<Longrightarrow> pack b = Some (bs @ xs) \<Longrightarrow> view a = view b"
  using parse_newer [of a bs xs] round_trip [of b "bs @ xs"] by simp

end

section \<open>TIME_SYNC\<close>

record hg_ts =
  ts_utc :: u32
  ts_utc_offset_s :: u32
  ts_flags :: u8
  ts_ring_size :: u8
  ts_online_mask :: u16
  ts_inhibit_mask :: u8

text \<open>The signed \<open>utc_offset_s\<close> is kept as its 32 bits, which is how the C moves it.\<close>

definition hg_ts_pack :: "hg_ts \<Rightarrow> u8 list option" where
  "hg_ts_pack t = Some (le32_put (ts_utc t) @ le32_put (ts_utc_offset_s t) @
     [ts_flags t, ts_ring_size t] @ le16_put (ts_online_mask t) @ [ts_inhibit_mask t])"

definition hg_ts_parse :: "u8 list \<Rightarrow> hg_ts option" where
  "hg_ts_parse p =
     (if length p < HG_TS_LEN then None
      else Some \<lparr>ts_utc = le32_at p 0, ts_utc_offset_s = le32_at p 4, ts_flags = p ! 8,
        ts_ring_size = p ! 9, ts_online_mask = le16_at p 10, ts_inhibit_mask = p ! 12\<rparr>)"

interpretation ts: extensible_codec hg_ts_pack hg_ts_parse "\<lambda>t. t"
proof
  fix t bs assume "hg_ts_pack t = Some bs"
  then show "map_option (\<lambda>t. t) (hg_ts_parse bs) = Some t"
    by (auto simp: hg_ts_pack_def hg_ts_parse_def HG_TS_LEN_def le_put_defs le_at_defs le_simps)
next
  fix bs a xs assume "hg_ts_parse bs = Some a"
  then show "hg_ts_parse (bs @ xs) = Some a"
    by (auto simp: hg_ts_parse_def HG_TS_LEN_def le_at_defs nth_append split: if_splits)
qed

section \<open>ASSIGN_ID\<close>

record hg_assign =
  as_mac :: "u8 list"
  as_zone_id :: u8

definition hg_assign_pack :: "hg_assign \<Rightarrow> u8 list option" where
  "hg_assign_pack a = Some (take 6 (as_mac a) @ [as_zone_id a])"

definition hg_assign_parse :: "u8 list \<Rightarrow> hg_assign option" where
  "hg_assign_parse p =
     (if length p \<noteq> HG_ASSIGN_LEN then None
      else Some \<lparr>as_mac = take 6 p, as_zone_id = p ! 6\<rparr>)"

interpretation assign: byte_codec
  "\<lambda>a. if length (as_mac a) = 6 then hg_assign_pack a else None" hg_assign_parse "\<lambda>a. a"
  by unfold_locales
    (auto simp: hg_assign_pack_def hg_assign_parse_def HG_ASSIGN_LEN_def nth_append split: if_splits)

section \<open>FW_UPDATE\<close>

record hg_fwu =
  fw_reboot_delay_ms :: u16
  fw_ssid :: "u8 list"
  fw_pass :: "u8 list"

definition hg_fwu_pack :: "hg_fwu \<Rightarrow> nat \<Rightarrow> u8 list option" where
  "hg_fwu_pack f cap =
     (let ssid_len = strnlen (fw_ssid f) 33; pass_len = strnlen (fw_pass f) 65
      in if ssid_len \<ge> 33 \<or> pass_len \<ge> 65 then None
         else
           let payload_len = 2 + 1 + ssid_len + 1 + pass_len
           in if payload_len > 99 \<or> cap < payload_len then None
              else Some (le16_put (fw_reboot_delay_ms f) @ of_nat ssid_len #
                take ssid_len (fw_ssid f) @ of_nat pass_len # take pass_len (fw_pass f)))"

definition hg_fwu_parse :: "hg_fwu \<Rightarrow> u8 list \<Rightarrow> hg_fwu option" where
  "hg_fwu_parse old p =
     (let n = length p
      in if n < 3 then None
         else
           let ssid_len = unat (p ! 2)
           in if ssid_len \<ge> 33 then None
              else if 3 + ssid_len \<ge> n then None
              else
                let pass_len = unat (p ! (3 + ssid_len))
                in if pass_len \<ge> 65 then None
                   else if 3 + ssid_len + 1 + pass_len > n then None
                   else Some \<lparr>fw_reboot_delay_ms = le16_at p 0,
                     fw_ssid = put_cstr (fw_ssid old) (take ssid_len (drop 3 p)),
                     fw_pass = put_cstr (fw_pass old)
                       (take pass_len (drop (3 + ssid_len + 1) p))\<rparr>)"

text \<open>What a FW_UPDATE says: the delay and the two strings.\<close>

definition fwu_view :: "hg_fwu \<Rightarrow> u16 \<times> u8 list \<times> u8 list" where
  "fwu_view f = (fw_reboot_delay_ms f, cstr (fw_ssid f), cstr (fw_pass f))"

lemma strnlen_less: "strnlen s n < n \<Longrightarrow> strnlen s n = length (cstr s)"
  using take_strnlen [of s n] by (metis length_take min.absorb2 min_def strnlen_def
      length_takeWhile_le le_trans nat_le_linear)

interpretation fwu: extensible_codec "\<lambda>f. hg_fwu_pack f cap" "hg_fwu_parse old" fwu_view
  for cap old
proof
  fix f bs assume "hg_fwu_pack f cap = Some bs"
  then have s: "strnlen (fw_ssid f) 33 < 33" and p: "strnlen (fw_pass f) 65 < 65"
    and bs: "bs = le16_put (fw_reboot_delay_ms f) @ of_nat (strnlen (fw_ssid f) 33) #
       take (strnlen (fw_ssid f) 33) (fw_ssid f) @ of_nat (strnlen (fw_pass f) 65) #
       take (strnlen (fw_pass f) 65) (fw_pass f)"
    by (auto simp: hg_fwu_pack_def Let_def split: if_splits)
  define ss where "ss = cstr (fw_ssid f)"
  define ps where "ps = cstr (fw_pass f)"
  have l: "length ss < 33" "length ps < 65" "0 \<notin> set ss" "0 \<notin> set ps"
    using s p by (simp_all add: ss_def ps_def cstr_no_nul flip: strnlen_less)
  have bs: "bs = le16_put (fw_reboot_delay_ms f) @ of_nat (length ss) # ss @ of_nat (length ps) # ps"
    using bs by (simp add: strnlen_less [OF s] strnlen_less [OF p] take_length_cstr
        ss_def ps_def)
  have u: "unat (of_nat (length ss) :: u8) = length ss" "unat (of_nat (length ps) :: u8) = length ps"
    using l by (simp_all add: unat_of_nat_u8)
  have d: "drop (4 + length ss) (a # b # c # ss @ y # ps) = ps" for a b c y
    by (simp add: eval_nat_numeral)
  show "map_option fwu_view (hg_fwu_parse old bs) = Some (fwu_view f)"
    using l by (simp add: d bs hg_fwu_parse_def Let_def le16_put_def u nth_append le16_at_def
        le16_round fwu_view_def cstr_put_cstr flip: ss_def ps_def)
next
  fix bs a xs assume a: "hg_fwu_parse old bs = Some a"
  define n where "n = unat (bs ! 2)"
  define m where "m = unat (bs ! (3 + n))"
  have c: "3 \<le> length bs \<and> n < 33 \<and> 3 + n < length bs \<and> m < 65 \<and> 3 + n + 1 + m \<le> length bs"
    using a unfolding n_def m_def hg_fwu_parse_def Let_def
    by (simp only: not_le not_less split: if_splits) simp_all
  then have "(bs @ xs) ! 2 = bs ! 2" "(bs @ xs) ! (3 + n) = bs ! (3 + n)"
    "le16_at (bs @ xs) 0 = le16_at bs 0"
    "take n (drop 3 (bs @ xs)) = take n (drop 3 bs)"
    "take m (drop (3 + n + 1) (bs @ xs)) = take m (drop (3 + n + 1) bs)"
    by (simp_all add: nth_append_less le_at_append)
  with c show "hg_fwu_parse old (bs @ xs) = Some a"
    unfolding a [symmetric] hg_fwu_parse_def Let_def n_def m_def by (simp del: drop_append take_append)
qed

section \<open>ACK\<close>

record hg_ack =
  ack_acked_seq :: u16
  ack_status :: u8
  ack_detail :: "u8 list"
  ack_detail_len :: u8

definition hg_ack_pack :: "hg_ack \<Rightarrow> nat \<Rightarrow> u8 list option" where
  "hg_ack_pack a cap =
     (if ack_detail_len a > 125 then None
      else
        let payload_len = 3 + unat (ack_detail_len a)
        in if cap < payload_len then None
           else Some (le16_put (ack_acked_seq a) @ ack_status a #
             take (unat (ack_detail_len a)) (ack_detail a)))"

definition hg_ack_parse :: "hg_ack \<Rightarrow> u8 list \<Rightarrow> hg_ack option" where
  "hg_ack_parse old p =
     (let n = length p
      in if n < 3 then None
         else if n > 128 then None
         else
           let detail_len = of_nat (n - 3) :: u8
           in if detail_len > 125 then None
              else Some \<lparr>ack_acked_seq = le16_at p 0, ack_status = p ! 2,
                ack_detail = put_cstr (ack_detail old) (take (unat detail_len) (drop 3 p)),
                ack_detail_len = detail_len\<rparr>)"

text \<open>What an ACK says: the detail up to its length.\<close>

definition ack_view :: "hg_ack \<Rightarrow> u16 \<times> u8 \<times> u8 list" where
  "ack_view a = (ack_acked_seq a, ack_status a, take (unat (ack_detail_len a)) (ack_detail a))"

interpretation ack: byte_codec "\<lambda>a. hg_ack_pack a cap" "hg_ack_parse old" ack_view
  for cap old
proof
  fix a bs assume "hg_ack_pack a cap = Some bs"
  then have len: "unat (ack_detail_len a) \<le> 125"
    and bs: "bs = le16_put (ack_acked_seq a) @ ack_status a # take (unat (ack_detail_len a)) (ack_detail a)"
    by (auto simp: hg_ack_pack_def Let_def word_le_nat_alt not_less split: if_splits)
  define d where "d = take (unat (ack_detail_len a)) (ack_detail a)"
  have l: "length d \<le> 125" using len by (simp add: d_def)
  have u: "unat (of_nat (length d) :: u8) = length d" using l by (simp add: unat_of_nat_u8)
  then have "\<not> 125 < (of_nat (length d) :: u8)" using l by (simp add: word_less_nat_alt)
  then show "map_option ack_view (hg_ack_parse old bs) = Some (ack_view a)"
    using l by (simp add: bs hg_ack_parse_def Let_def le16_put_def u le16_at_def le16_round
        ack_view_def take_put_cstr flip: d_def)
qed

section \<open>HEARTBEAT\<close>

record hg_hb_shelf =
  sh_raw_a :: u16
  sh_raw_b :: u16
  sh_pct_a :: u8
  sh_pct_b :: u8
  sh_white :: u8
  sh_red :: u8
  sh_out_flags :: u8
  sh_light_state :: u8
  sh_water_state :: u8
  sh_rsvd :: u8
  sh_pump_today_s :: u16

record hg_hb =
  hb_mac :: "u8 list"
  hb_fw_maj :: u8
  hb_fw_min :: u8
  hb_fw_patch :: u8
  hb_n_shelves :: u8
  hb_uptime_s :: u32
  hb_unix_time :: u32
  hb_cfg_gen :: u32
  hb_cfg_crc :: u32
  hb_hw_crc :: u32
  hb_cfg_src :: u8
  hb_mode :: u8
  hb_reset_reason :: u8
  hb_time_quality :: u8
  hb_active_faults :: u64
  hb_shelf_faults :: "u16 list"
  hb_link_flags :: u8
  hb_override_mask :: u8
  hb_rx_crc_err :: u16
  hb_rx_uart_err :: u16
  hb_rx_drop :: u16
  hb_fwd_count :: u16
  hb_min_free_heap_kb :: u16
  hb_shelf :: "hg_hb_shelf list"

text \<open>The two loop bodies over the shelves.\<close>

definition hb_shelf_put :: "hg_hb_shelf \<Rightarrow> u8 list" where
  "hb_shelf_put s = le16_put (sh_raw_a s) @ le16_put (sh_raw_b s) @
     [sh_pct_a s, sh_pct_b s, sh_white s, sh_red s, sh_out_flags s, sh_light_state s,
      sh_water_state s, sh_rsvd s] @ le16_put (sh_pump_today_s s)"

definition hb_shelf_get :: "u8 list \<Rightarrow> hg_hb_shelf" where
  "hb_shelf_get b = \<lparr>sh_raw_a = le16_at b 0, sh_raw_b = le16_at b 2, sh_pct_a = b ! 4,
     sh_pct_b = b ! 5, sh_white = b ! 6, sh_red = b ! 7, sh_out_flags = b ! 8,
     sh_light_state = b ! 9, sh_water_state = b ! 10, sh_rsvd = b ! 11,
     sh_pump_today_s = le16_at b 12\<rparr>"

definition hg_hb_pack :: "hg_hb \<Rightarrow> nat \<Rightarrow> u8 list option" where
  "hg_hb_pack h cap =
     (if hb_n_shelves h > 4 then None
      else
        let payload_len = 62 + 14 * unat (hb_n_shelves h)
        in if cap < payload_len then None
           else Some (take 6 (hb_mac h) @
             [hb_fw_maj h, hb_fw_min h, hb_fw_patch h, hb_n_shelves h] @
             le32_put (hb_uptime_s h) @ le32_put (hb_unix_time h) @ le32_put (hb_cfg_gen h) @
             le32_put (hb_cfg_crc h) @ le32_put (hb_hw_crc h) @
             [hb_cfg_src h, hb_mode h, hb_reset_reason h, hb_time_quality h] @
             le64_put (hb_active_faults h) @
             le16_put (hb_shelf_faults h ! 0) @ le16_put (hb_shelf_faults h ! 1) @
             le16_put (hb_shelf_faults h ! 2) @ le16_put (hb_shelf_faults h ! 3) @
             [hb_link_flags h, hb_override_mask h] @
             le16_put (hb_rx_crc_err h) @ le16_put (hb_rx_uart_err h) @
             le16_put (hb_rx_drop h) @ le16_put (hb_fwd_count h) @
             le16_put (hb_min_free_heap_kb h) @
             concat (map (\<lambda>i. hb_shelf_put (hb_shelf h ! i)) [0 ..< unat (hb_n_shelves h)])))"

definition hg_hb_parse :: "hg_hb \<Rightarrow> u8 list \<Rightarrow> hg_hb option" where
  "hg_hb_parse old p =
     (if length p < 62 then None
      else
        let n_shelves = p ! 9
        in if n_shelves > 4 then None
           else if length p < 62 + 14 * unat n_shelves then None
           else Some \<lparr>hb_mac = take 6 p, hb_fw_maj = p ! 6, hb_fw_min = p ! 7,
             hb_fw_patch = p ! 8, hb_n_shelves = n_shelves, hb_uptime_s = le32_at p 10,
             hb_unix_time = le32_at p 14, hb_cfg_gen = le32_at p 18, hb_cfg_crc = le32_at p 22,
             hb_hw_crc = le32_at p 26, hb_cfg_src = p ! 30, hb_mode = p ! 31,
             hb_reset_reason = p ! 32, hb_time_quality = p ! 33,
             hb_active_faults = le64_at p 34,
             hb_shelf_faults = [le16_at p 42, le16_at p 44, le16_at p 46, le16_at p 48],
             hb_link_flags = p ! 50, hb_override_mask = p ! 51, hb_rx_crc_err = le16_at p 52,
             hb_rx_uart_err = le16_at p 54, hb_rx_drop = le16_at p 56,
             hb_fwd_count = le16_at p 58, hb_min_free_heap_kb = le16_at p 60,
             hb_shelf = map (\<lambda>i. hb_shelf_get (drop (62 + i * 14) p)) [0 ..< unat n_shelves] @
               drop (unat n_shelves) (hb_shelf old)\<rparr>)"

text \<open>The array lengths of the C declaration, and the part of a heartbeat that travels.\<close>

definition hb_wf :: "hg_hb \<Rightarrow> bool" where
  "hb_wf h \<longleftrightarrow> length (hb_mac h) = 6 \<and> length (hb_shelf_faults h) = 4 \<and> length (hb_shelf h) = 4"

definition hb_view :: "hg_hb \<Rightarrow> hg_hb" where
  "hb_view h = h\<lparr>hb_shelf := take (unat (hb_n_shelves h)) (hb_shelf h)\<rparr>"

lemma length_hb_shelf_put [simp]: "length (hb_shelf_put s) = 14"
  by (simp add: hb_shelf_put_def)

lemma hb_shelf_round: "hb_shelf_get (hb_shelf_put s @ xs) = s"
  by (simp add: hb_shelf_get_def hb_shelf_put_def le16_put_def le16_at_def le16_round)

definition hb_base :: "hg_hb \<Rightarrow> u8 list" where
  "hb_base h = take 6 (hb_mac h) @
     [hb_fw_maj h, hb_fw_min h, hb_fw_patch h, hb_n_shelves h] @
     le32_put (hb_uptime_s h) @ le32_put (hb_unix_time h) @ le32_put (hb_cfg_gen h) @
     le32_put (hb_cfg_crc h) @ le32_put (hb_hw_crc h) @
     [hb_cfg_src h, hb_mode h, hb_reset_reason h, hb_time_quality h] @
     le64_put (hb_active_faults h) @
     le16_put (hb_shelf_faults h ! 0) @ le16_put (hb_shelf_faults h ! 1) @
     le16_put (hb_shelf_faults h ! 2) @ le16_put (hb_shelf_faults h ! 3) @
     [hb_link_flags h, hb_override_mask h] @
     le16_put (hb_rx_crc_err h) @ le16_put (hb_rx_uart_err h) @
     le16_put (hb_rx_drop h) @ le16_put (hb_fwd_count h) @
     le16_put (hb_min_free_heap_kb h)"

lemma length_hb_base: "length (hb_mac h) = 6 \<Longrightarrow> length (hb_base h) = 62"
  by (simp add: hb_base_def)

lemma hb_base_at:
  assumes "length (hb_mac h) = 6"
  shows "take 6 (hb_base h) = hb_mac h"
    "hb_base h ! 6 = hb_fw_maj h" "hb_base h ! 7 = hb_fw_min h" "hb_base h ! 8 = hb_fw_patch h"
    "hb_base h ! 9 = hb_n_shelves h"
    "le32_at (hb_base h) 10 = hb_uptime_s h" "le32_at (hb_base h) 14 = hb_unix_time h"
    "le32_at (hb_base h) 18 = hb_cfg_gen h" "le32_at (hb_base h) 22 = hb_cfg_crc h"
    "le32_at (hb_base h) 26 = hb_hw_crc h"
    "hb_base h ! 30 = hb_cfg_src h" "hb_base h ! 31 = hb_mode h"
    "hb_base h ! 32 = hb_reset_reason h" "hb_base h ! 33 = hb_time_quality h"
    "le64_at (hb_base h) 34 = hb_active_faults h"
    "le16_at (hb_base h) 42 = hb_shelf_faults h ! 0" "le16_at (hb_base h) 44 = hb_shelf_faults h ! 1"
    "le16_at (hb_base h) 46 = hb_shelf_faults h ! 2" "le16_at (hb_base h) 48 = hb_shelf_faults h ! 3"
    "hb_base h ! 50 = hb_link_flags h" "hb_base h ! 51 = hb_override_mask h"
    "le16_at (hb_base h) 52 = hb_rx_crc_err h" "le16_at (hb_base h) 54 = hb_rx_uart_err h"
    "le16_at (hb_base h) 56 = hb_rx_drop h" "le16_at (hb_base h) 58 = hb_fwd_count h"
    "le16_at (hb_base h) 60 = hb_min_free_heap_kb h"
proof -
  from assms obtain a b c d e f where "hb_mac h = [a, b, c, d, e, f]"
    by (auto simp: length_Suc_conv numeral_eq_Suc)
  then have m: "take 6 (hb_mac h) = [a, b, c, d, e, f]" "hb_mac h = [a, b, c, d, e, f]" by simp_all
  show "take 6 (hb_base h) = hb_mac h" by (simp add: hb_base_def m)
  show "hb_base h ! 6 = hb_fw_maj h" "hb_base h ! 7 = hb_fw_min h" "hb_base h ! 8 = hb_fw_patch h"
    "hb_base h ! 9 = hb_n_shelves h"
    "le32_at (hb_base h) 10 = hb_uptime_s h" "le32_at (hb_base h) 14 = hb_unix_time h"
    "le32_at (hb_base h) 18 = hb_cfg_gen h" "le32_at (hb_base h) 22 = hb_cfg_crc h"
    "le32_at (hb_base h) 26 = hb_hw_crc h"
    "hb_base h ! 30 = hb_cfg_src h" "hb_base h ! 31 = hb_mode h"
    "hb_base h ! 32 = hb_reset_reason h" "hb_base h ! 33 = hb_time_quality h"
    "le64_at (hb_base h) 34 = hb_active_faults h"
    "le16_at (hb_base h) 42 = hb_shelf_faults h ! 0" "le16_at (hb_base h) 44 = hb_shelf_faults h ! 1"
    "le16_at (hb_base h) 46 = hb_shelf_faults h ! 2" "le16_at (hb_base h) 48 = hb_shelf_faults h ! 3"
    "hb_base h ! 50 = hb_link_flags h" "hb_base h ! 51 = hb_override_mask h"
    "le16_at (hb_base h) 52 = hb_rx_crc_err h" "le16_at (hb_base h) 54 = hb_rx_uart_err h"
    "le16_at (hb_base h) 56 = hb_rx_drop h" "le16_at (hb_base h) 58 = hb_fwd_count h"
    "le16_at (hb_base h) 60 = hb_min_free_heap_kb h"
    by (simp_all add: hb_base_def m(1) le_put_defs le_at_defs le_simps)
qed

lemma hg_hb_pack_eq:
  "hg_hb_pack h cap =
     (if hb_n_shelves h > 4 \<or> cap < 62 + 14 * unat (hb_n_shelves h) then None
      else Some (hb_base h @
        concat (map (\<lambda>i. hb_shelf_put (hb_shelf h ! i)) [0 ..< unat (hb_n_shelves h)])))"
  by (simp add: hg_hb_pack_def hb_base_def Let_def)

text \<open>Shelf records behind a base of 62 bytes.\<close>

lemma hb_shelves_round:
  assumes "length base = 62"
  shows "map (\<lambda>i. hb_shelf_get (drop (62 + i * 14)
      (base @ concat (map (\<lambda>i. hb_shelf_put (s ! i)) [0 ..< n]) @ xs))) [0 ..< n] =
    map ((!) s) [0 ..< n]"
proof (rule map_cong [OF refl])
  fix i assume "i \<in> set [0 ..< n]"
  then have i: "i < n" by simp
  have "drop (i * 14) (concat (map (\<lambda>i. hb_shelf_put (s ! i)) [0 ..< n]) @ xs) =
     hb_shelf_put (s ! i) @ (drop ((i + 1) * 14) (concat (map (\<lambda>i. hb_shelf_put (s ! i)) [0 ..< n])) @ xs)"
  proof -
    have len: "length (concat (map (\<lambda>i. hb_shelf_put (s ! i)) [0 ..< n])) = n * 14"
      using length_concat_records [of "[0 ..< n]" "\<lambda>i. hb_shelf_put (s ! i)" 14] by simp
    moreover have "i * 14 \<le> n * 14" using i by simp
    ultimately show ?thesis
      using drop_concat_records [of "[0 ..< n]" "\<lambda>i. hb_shelf_put (s ! i)" 14 i] i by simp
  qed
  moreover have "drop (62 + i * 14) (base @ ys) = drop (i * 14) ys" for ys
    using assms by simp
  ultimately show "hb_shelf_get (drop (62 + i * 14)
      (base @ concat (map (\<lambda>i. hb_shelf_put (s ! i)) [0 ..< n]) @ xs)) = s ! i"
    by (simp only: hb_shelf_round)
qed

lemma hg_hb_parse_ext:
  assumes "hg_hb_parse old p = Some h"
  shows "hg_hb_parse old (p @ xs) = Some h"
proof -
  from assms have l: "62 \<le> length p" "\<not> p ! 9 > 4" "62 + 14 * unat (p ! 9) \<le> length p"
    by (auto simp: hg_hb_parse_def Let_def not_less split: if_splits)
  have shelf: "hb_shelf_get (drop (62 + i * 14) (p @ xs)) = hb_shelf_get (drop (62 + i * 14) p)"
    if "i < unat (p ! 9)" for i
  proof -
    have "62 + i * 14 + 14 \<le> length p" using that l(3) by simp
    then show ?thesis by (simp add: hb_shelf_get_def le_at_append nth_append_less)
  qed
  have shelves: "map (\<lambda>i. hb_shelf_get (drop (62 + i * 14) (p @ xs))) [0 ..< unat (p ! 9)] =
      map (\<lambda>i. hb_shelf_get (drop (62 + i * 14) p)) [0 ..< unat (p ! 9)]"
    by (rule map_cong [OF refl]) (simp add: shelf del: drop_append)
  show ?thesis using l assms
    by (simp add: hg_hb_parse_def Let_def le_at_append nth_append_less shelves
        del: drop_append map_eq_conv)
qed

interpretation hb: extensible_codec
  "\<lambda>h. if hb_wf h then hg_hb_pack h cap else None" "hg_hb_parse old" hb_view
  for cap old
proof
  fix h bs assume "(if hb_wf h then hg_hb_pack h cap else None) = Some bs"
  then have wf: "hb_wf h" and n: "\<not> hb_n_shelves h > 4"
    and bs: "bs = hb_base h @
        concat (map (\<lambda>i. hb_shelf_put (hb_shelf h ! i)) [0 ..< unat (hb_n_shelves h)])"
    by (auto simp: hg_hb_pack_eq split: if_splits)
  let ?n = "unat (hb_n_shelves h)"
  from wf have mac: "length (hb_mac h) = 6" and sh: "length (hb_shelf h) = 4"
    and sf: "length (hb_shelf_faults h) = 4" by (simp_all add: hb_wf_def)
  note base = length_hb_base [OF mac]
  have n4: "?n \<le> 4" using n by (simp add: word_less_nat_alt not_less)
  from sf have sf4: "[hb_shelf_faults h ! 0, hb_shelf_faults h ! 1, hb_shelf_faults h ! 2,
      hb_shelf_faults h ! 3] = hb_shelf_faults h"
    by (auto simp: length_Suc_conv numeral_eq_Suc)
  have shelves: "map ((!) (hb_shelf h)) [0 ..< ?n] = take ?n (hb_shelf h)"
    using n4 sh by (simp add: map_nth_upt_take)
  have len: "length bs = 62 + 14 * ?n"
    using base length_concat_records [of "[0 ..< ?n]" "\<lambda>i. hb_shelf_put (hb_shelf h ! i)" 14]
    by (simp add: bs)
  have "hg_hb_parse old bs = Some (h\<lparr>hb_shelf := take ?n (hb_shelf h) @ drop ?n (hb_shelf old)\<rparr>)"
    using n n4 len base hb_shelves_round [OF base, of "hb_shelf h" ?n "[]"] sf4
    by (simp add: hg_hb_parse_def Let_def bs le_at_append nth_append_less hb_base_at [OF mac] shelves)
  then show "map_option hb_view (hg_hb_parse old bs) = Some (hb_view h)"
    using n4 sh by (simp add: hb_view_def)
qed (rule hg_hb_parse_ext)

section \<open>Properties\<close>

definition sample_hb :: hg_hb where
  "sample_hb = \<lparr>hb_mac = [1, 2, 3, 4, 5, 6], hb_fw_maj = 1, hb_fw_min = 2, hb_fw_patch = 3,
     hb_n_shelves = 1, hb_uptime_s = 100, hb_unix_time = 0, hb_cfg_gen = 4, hb_cfg_crc = 5,
     hb_hw_crc = 6, hb_cfg_src = 1, hb_mode = 0, hb_reset_reason = 0, hb_time_quality = 2,
     hb_active_faults = 0, hb_shelf_faults = [0, 0, 0, 0], hb_link_flags = 3,
     hb_override_mask = 0, hb_rx_crc_err = 0, hb_rx_uart_err = 0, hb_rx_drop = 0,
     hb_fwd_count = 9, hb_min_free_heap_kb = 100,
     hb_shelf = replicate 4 \<lparr>sh_raw_a = 1, sh_raw_b = 2, sh_pct_a = 3, sh_pct_b = 4,
       sh_white = 5, sh_red = 6, sh_out_flags = 7, sh_light_state = 8, sh_water_state = 9,
       sh_rsvd = 0, sh_pump_today_s = 10\<rparr>\<rparr>"

text \<open>A packed heartbeat is parsed back field for field, also when a newer zone has appended bytes the receiver does not know.\<close>

lemma heartbeat_readable_by_older_master:
  assumes "hb_wf h" "hg_hb_pack h cap = Some bs"
  shows "map_option hb_view (hg_hb_parse old (bs @ xs)) = Some (hb_view h)"
  by (rule hb.parse_newer [where cap = cap]) (simp add: assms)

lemma heartbeat_readable_by_older_master_witness:
  "map_option hb_view (hg_hb_parse sample_hb (the (hg_hb_pack sample_hb 118) @ [0xAB])) = Some (hb_view sample_hb)"
proof (rule heartbeat_readable_by_older_master)
  show "hb_wf sample_hb" by (simp add: hb_wf_def sample_hb_def)
  show "hg_hb_pack sample_hb 118 = Some (the (hg_hb_pack sample_hb 118))"
    by (simp add: hg_hb_pack_eq sample_hb_def)
qed

end
