(* ===== verification/Ring_Health.thy ===== *)
theory Ring_Health
  imports Ring_Tlm
begin

text \<open>
  \<^verbatim>\<open>components/ring_proto/ring_health.c\<close>: the health ladder of the zones and the analysis
  of a broken ring. The evaluator runs once a second over the node table; the lines it would
  pass to its callback are returned as a list. The main results: which health and which
  notification a node gets, that a single cut on a settled ring is named by its two ends,
  and that a changed verdict is published only after three ticks that agree on it.
\<close>

datatype node_health = NODE_H_EMPTY | NODE_H_ONLINE | NODE_H_DEGRADED | NODE_H_OFFLINE
  | NODE_H_UPDATING

record hg_node =
  nd_used :: bool
  nd_id :: u8
  nd_mac :: "u8 list"
  nd_name :: "u8 list"
  nd_unconfigured :: bool
  nd_health :: node_health
  nd_fault_flag :: bool
  nd_last_hb_ms :: u32
  nd_updating_until_ms :: u32
  nd_hops :: u8
  nd_link_flags :: u8
  nd_cmd_timeouts :: u8
  nd_hops_valid :: bool
  nd_hb :: hg_hb
  nd_seq_drop_tally :: u32

datatype ring_state = RING_ST_IDLE | RING_ST_OK | RING_ST_OPEN

record ring_status =
  rs_state :: ring_state
  rs_size :: u8
  rs_online_mask :: u16
  rs_blame :: string
  rs_pending_blame :: string
  rs_pending_ticks :: u8

definition LINK_MASTER_ALIVE :: u8 where "LINK_MASTER_ALIVE = 0x02"
definition WITNESS_MIN_UPTIME_S :: u32 where "WITNESS_MIN_UPTIME_S = 10"
definition BLAME_DWELL_TICKS :: u8 where "BLAME_DWELL_TICKS = 3"

fun health_name :: "node_health \<Rightarrow> string" where
  "health_name NODE_H_ONLINE = ''ONLINE''"
| "health_name NODE_H_DEGRADED = ''DEGRADED''"
| "health_name NODE_H_OFFLINE = ''OFFLINE''"
| "health_name NODE_H_UPDATING = ''UPDATING''"
| "health_name NODE_H_EMPTY = ''EMPTY''"

section \<open>Who is to blame\<close>

definition chain_pos :: "hg_node list \<Rightarrow> hg_node \<Rightarrow> u8" where
  "chain_pos tab k =
     (if nd_hops_valid k then nd_hops k
      else
        let used = of_nat (length (filter nd_used tab)) :: u8;
            lower = of_nat (length (filter (\<lambda>n. nd_used n \<and> nd_id n < nd_id k) tab)) :: u8
        in if used \<noteq> 0 then used - 1 - lower else 0)"

text \<open>The two searches keep the best row so far with its position.\<close>

definition most_downstream_offline :: "hg_node list \<Rightarrow> hg_node option" where
  "most_downstream_offline tab =
     map_option fst (fold (\<lambda>nd best.
       if \<not> nd_used nd \<or> nd_health nd \<noteq> NODE_H_OFFLINE \<or> \<not> nd_hops_valid nd then best
       else
         let pos = chain_pos tab nd
         in case best of
              None \<Rightarrow> Some (nd, pos)
            | Some (b, best_pos) \<Rightarrow>
                if pos < best_pos \<or> pos = best_pos \<and> nd_id nd < nd_id b then Some (nd, pos)
                else best) tab None)"

definition is_witness :: "hg_node \<Rightarrow> bool" where
  "is_witness nd \<longleftrightarrow> nd_used nd \<and> (nd_health nd = NODE_H_ONLINE \<or> nd_health nd = NODE_H_DEGRADED) \<and>
     \<not> hb_uptime_s (nd_hb nd) < WITNESS_MIN_UPTIME_S"

definition anything_alive_below :: "hg_node list \<Rightarrow> u8 \<Rightarrow> bool" where
  "anything_alive_below tab u_pos =
     list_ex (\<lambda>nd. nd_used nd \<and> nd_hops_valid nd \<and>
       nd_health nd \<noteq> NODE_H_OFFLINE \<and> nd_health nd \<noteq> NODE_H_EMPTY \<and>
       chain_pos tab nd < u_pos) tab"

definition most_upstream_witness :: "hg_node list \<Rightarrow> hg_node option" where
  "most_upstream_witness tab =
     map_option fst (fold (\<lambda>nd best.
       if \<not> is_witness nd then best
       else
         let pos = chain_pos tab nd
         in case best of
              None \<Rightarrow> Some (nd, pos)
            | Some (b, best_pos) \<Rightarrow>
                if pos > best_pos \<or> pos = best_pos \<and> nd_id nd < nd_id b then Some (nd, pos)
                else best) tab None)"

definition zone_name :: "hg_node \<Rightarrow> string" where
  "zone_name nd = ''Z'' @ show_dec (unat (nd_id nd))"

definition ring_blame :: "hg_node list \<Rightarrow> string" where
  "ring_blame tab =
     (let u = most_downstream_offline tab;
          d = most_upstream_witness tab;
          unripe = (case d of
              Some dn \<Rightarrow> nd_link_flags dn AND LINK_MASTER_ALIVE \<noteq> 0
            | None \<Rightarrow> (case u of
                Some un \<Rightarrow> anything_alive_below tab (chain_pos tab un)
              | None \<Rightarrow> True))
      in if unripe then ''no node reports a fault''
         else
           let dname = (case d of Some dn \<Rightarrow> zone_name dn | None \<Rightarrow> ''M'')
           in case u of
                None \<Rightarrow> ''wire M->'' @ dname
              | Some un \<Rightarrow> zone_name un @ '' dead or wire '' @ zone_name un @ ''->'' @ dname)"

section \<open>The evaluator\<close>

definition ring_online_mask :: "hg_node list \<Rightarrow> u32 \<Rightarrow> u16" where
  "ring_online_mask tab now =
     fold (\<lambda>nd m. if nd_used nd \<and> now - nd_last_hb_ms nd < 5000
                   then m OR push_bit (unat (nd_id nd)) 1 else m) tab 0"

text \<open>The body of the loop over the slots.\<close>

definition node_ladder :: "u32 \<Rightarrow> hg_node \<Rightarrow> node_health" where
  "node_ladder now nd =
     (if now < nd_updating_until_ms nd then NODE_H_UPDATING
      else
        let since_hb = now - nd_last_hb_ms nd
        in if since_hb \<ge> 10000 then NODE_H_OFFLINE
           else if since_hb \<ge> 5000 \<or> nd_cmd_timeouts nd \<ge> 3 then NODE_H_DEGRADED
           else NODE_H_ONLINE)"

definition node_eval :: "u32 \<Rightarrow> hg_node \<Rightarrow> hg_node \<times> string list" where
  "node_eval now nd =
     (if \<not> nd_used nd then (nd, [])
      else
        let prev = nd_health nd; nh = node_ladder now nd
        in if nh \<noteq> prev
           then (nd\<lparr>nd_health := nh\<rparr>,
                 if prev \<noteq> NODE_H_EMPTY
                 then [''NODE '' @ show_dec (unat (nd_id nd)) @ '' '' @ health_name nh] else [])
           else (nd, []))"

text \<open>The verdict of one open tick, with the dwell of a changed one.\<close>

definition ring_open_tick :: "ring_status \<Rightarrow> string \<Rightarrow> ring_status \<times> string list" where
  "ring_open_tick st cand =
     (let (adopt, st1) =
        (if rs_state st \<noteq> RING_ST_OPEN then (True, st)
         else if cand = rs_blame st then (False, st\<lparr>rs_pending_ticks := 0\<rparr>)
         else if cand = rs_pending_blame st
         then let t = rs_pending_ticks st + 1 in (t \<ge> BLAME_DWELL_TICKS, st\<lparr>rs_pending_ticks := t\<rparr>)
         else (False, st\<lparr>rs_pending_blame := cand, rs_pending_ticks := 1\<rparr>));
          (st2, evs) =
        (if adopt
         then (st1\<lparr>rs_blame := cand, rs_pending_blame := [], rs_pending_ticks := 0\<rparr>,
               [''RING OPEN '' @ cand])
         else (st1, []))
      in (st2\<lparr>rs_state := RING_ST_OPEN\<rparr>, evs))"

definition ring_health_eval ::
  "hg_node list \<Rightarrow> u32 \<Rightarrow> u32 \<Rightarrow> ring_status \<Rightarrow> hg_node list \<times> ring_status \<times> string list" where
  "ring_health_eval tab now ts_last_returned_ms st =
     (let tab' = map (fst \<circ> node_eval now) tab;
          evs = concat (map (snd \<circ> node_eval now) tab);
          used_count = of_nat (length (filter nd_used tab)) :: u8;
          st1 = st\<lparr>rs_size := used_count, rs_online_mask := ring_online_mask tab' now\<rparr>
      in if used_count = 0
         then (tab', st1\<lparr>rs_state := RING_ST_IDLE, rs_blame := [], rs_pending_blame := [],
                 rs_pending_ticks := 0\<rparr>, evs)
         else if now - ts_last_returned_ms \<ge> 5000
         then let (st2, e2) = ring_open_tick st1 (ring_blame tab') in (tab', st2, evs @ e2)
         else
           let st2 = (if rs_state st1 = RING_ST_OPEN then st1\<lparr>rs_blame := []\<rparr> else st1);
               e2 = (if rs_state st1 = RING_ST_OPEN then [''RING CLOSED''] else [])
           in (tab', st2\<lparr>rs_pending_blame := [], rs_pending_ticks := 0, rs_state := RING_ST_OK\<rparr>,
               evs @ e2))"

section \<open>The online mask\<close>

lemma online_fold_bit:
  "i < 16 \<Longrightarrow>
     bit (fold (\<lambda>nd m. if nd_used nd \<and> now - nd_last_hb_ms nd < 5000
                   then m OR push_bit (unat (nd_id nd)) 1 else m) tab m0 :: u16) i \<longleftrightarrow>
     bit m0 i \<or> (\<exists>nd \<in> set tab. nd_used nd \<and> now - nd_last_hb_ms nd < 5000 \<and> unat (nd_id nd) = i)"
  by (induction tab arbitrary: m0) (auto simp: bit_simps)

lemma online_mask_bit:
  "i < 16 \<Longrightarrow> bit (ring_online_mask tab now) i \<longleftrightarrow>
     (\<exists>nd \<in> set tab. nd_used nd \<and> now - nd_last_hb_ms nd < 5000 \<and> unat (nd_id nd) = i)"
  using online_fold_bit [of i now tab 0] by (simp add: ring_online_mask_def)

text \<open>A zone the ladder calls ONLINE is in the mask that the same evaluation publishes.\<close>

lemma node_eval_same [simp]:
  "nd_used (fst (node_eval now nd)) = nd_used nd" "nd_id (fst (node_eval now nd)) = nd_id nd"
  "nd_last_hb_ms (fst (node_eval now nd)) = nd_last_hb_ms nd"
  "nd_updating_until_ms (fst (node_eval now nd)) = nd_updating_until_ms nd"
  "nd_hops (fst (node_eval now nd)) = nd_hops nd"
  "nd_cmd_timeouts (fst (node_eval now nd)) = nd_cmd_timeouts nd"
  by (simp_all add: node_eval_def Let_def)

lemma node_eval_health: "nd_used nd \<Longrightarrow> nd_health (fst (node_eval now nd)) = node_ladder now nd"
  by (simp add: node_eval_def Let_def)

lemma health_eval_tab: "fst (ring_health_eval tab now t st) = map (fst \<circ> node_eval now) tab"
  by (simp add: ring_health_eval_def Let_def split_def)

lemma health_eval_mask:
  "rs_online_mask (fst (snd (ring_health_eval tab now t st))) =
     ring_online_mask (map (fst \<circ> node_eval now) tab) now"
  by (simp add: ring_health_eval_def Let_def split_def ring_open_tick_def)

lemma online_in_mask:
  assumes "ring_health_eval tab now t st = (tab', st', evs)"
    and "nd \<in> set tab'" "nd_used nd" "nd_health nd = NODE_H_ONLINE" "unat (nd_id nd) < 16"
  shows "bit (rs_online_mask st') (unat (nd_id nd))"
proof -
  have tab': "tab' = map (fst \<circ> node_eval now) tab"
    and mask: "rs_online_mask st' = ring_online_mask tab' now"
    using health_eval_tab [of tab now t st] health_eval_mask [of tab now t st] assms(1) by simp_all
  from assms(2,3) obtain n where n: "nd = fst (node_eval now n)" "nd_used n"
    by (auto simp: tab')
  then have "node_ladder now n = NODE_H_ONLINE" using assms(4) node_eval_health by metis
  then have "now - nd_last_hb_ms nd < 5000"
    by (auto simp: n node_ladder_def Let_def not_le split: if_splits)
  with assms(2,3,5) show ?thesis by (auto simp: mask online_mask_bit)
qed

section \<open>A node that has gone silent\<close>

fun silent_run :: "hg_node \<Rightarrow> u32 list \<Rightarrow> hg_node \<times> string list" where
  "silent_run nd [] = (nd, [])"
| "silent_run nd (now # nows) =
     (let (nd', e) = node_eval now nd; (nd'', es) = silent_run nd' nows in (nd'', e @ es))"

fun health_rank :: "node_health \<Rightarrow> nat" where
  "health_rank NODE_H_ONLINE = 0"
| "health_rank NODE_H_DEGRADED = 1"
| "health_rank NODE_H_OFFLINE = 2"
| "health_rank _ = 0"

lemma ladder_rank_mono:
  assumes "unat (n1 - nd_last_hb_ms nd) \<le> unat (n2 - nd_last_hb_ms nd)"
    "\<not> n1 < nd_updating_until_ms nd" "\<not> n2 < nd_updating_until_ms nd"
  shows "health_rank (node_ladder n1 nd) \<le> health_rank (node_ladder n2 nd)"
proof -
  have "n1 - nd_last_hb_ms nd \<le> n2 - nd_last_hb_ms nd" using assms(1) by (simp add: word_le_nat_alt)
  then have "10000 \<le> n1 - nd_last_hb_ms nd \<Longrightarrow> 10000 \<le> n2 - nd_last_hb_ms nd"
    "5000 \<le> n1 - nd_last_hb_ms nd \<Longrightarrow> 5000 \<le> n2 - nd_last_hb_ms nd" by simp_all
  with assms(2,3) show ?thesis by (simp add: node_ladder_def Let_def)
qed

lemma ladder_same: "node_ladder now (fst (node_eval t nd)) = node_ladder now nd"
  by (simp add: node_ladder_def Let_def)

lemma ladder_ranks:
  "\<not> now < nd_updating_until_ms nd \<Longrightarrow>
     node_ladder now nd \<in> {NODE_H_ONLINE, NODE_H_DEGRADED, NODE_H_OFFLINE}"
  by (simp add: node_ladder_def Let_def)

lemma rank_inj:
  "a \<in> {NODE_H_ONLINE, NODE_H_DEGRADED, NODE_H_OFFLINE} \<Longrightarrow>
   b \<in> {NODE_H_ONLINE, NODE_H_DEGRADED, NODE_H_OFFLINE} \<Longrightarrow> (health_rank a = health_rank b) = (a = b)"
  by auto

lemma silent_run_bound:
  assumes "nd_used nd" "\<forall>now \<in> set nows. \<not> now < nd_updating_until_ms nd"
    "sorted (map (\<lambda>now. unat (now - nd_last_hb_ms nd)) nows)"
    "nd_health nd \<in> {NODE_H_ONLINE, NODE_H_DEGRADED, NODE_H_OFFLINE}"
    "\<forall>now \<in> set nows. health_rank (nd_health nd) \<le> health_rank (node_ladder now nd)"
  shows "length (snd (silent_run nd nows)) + health_rank (nd_health nd) \<le>
    health_rank (nd_health (fst (silent_run nd nows)))"
  using assms
proof (induction nows arbitrary: nd)
  case (Cons now nows)
  let ?nd = "fst (node_eval now nd)"
  have h: "nd_health ?nd = node_ladder now nd" using Cons.prems(1) by (rule node_eval_health)
  have l: "node_ladder now nd \<in> {NODE_H_ONLINE, NODE_H_DEGRADED, NODE_H_OFFLINE}"
    using Cons.prems(2) by (intro ladder_ranks) simp
  have mono: "health_rank (node_ladder now nd) \<le> health_rank (node_ladder t nd)" if "t \<in> set nows" for t
    using Cons.prems(2,3) that by (intro ladder_rank_mono) auto
  have IH: "length (snd (silent_run ?nd nows)) + health_rank (node_ladder now nd) \<le>
      health_rank (nd_health (fst (silent_run ?nd nows)))"
    using Cons.IH [of ?nd] Cons.prems mono l by (simp add: h ladder_same)
  have "health_rank (nd_health nd) \<le> health_rank (node_ladder now nd)" using Cons.prems(5) by simp
  moreover have "snd (node_eval now nd) \<noteq> [] \<Longrightarrow>
      health_rank (nd_health nd) \<noteq> health_rank (node_ladder now nd)"
    using rank_inj [OF Cons.prems(4) l] by (auto simp: node_eval_def Let_def split: if_splits)
  moreover have "length (snd (node_eval now nd)) \<le> 1" by (simp add: node_eval_def Let_def)
  ultimately have "length (snd (node_eval now nd)) + health_rank (nd_health nd) \<le>
      health_rank (node_ladder now nd)" by (cases "snd (node_eval now nd)") auto
  with IH show ?case by (simp add: split_def Let_def)
qed simp

lemma silent_node_notices:
  assumes "nd_used nd" "nd_health nd = node_ladder t0 nd"
    "\<forall>now \<in> set (t0 # nows). \<not> now < nd_updating_until_ms nd"
    "sorted (map (\<lambda>now. unat (now - nd_last_hb_ms nd)) (t0 # nows))"
  shows "length (snd (silent_run nd nows)) \<le> 2"
proof -
  have "\<forall>now \<in> set nows. health_rank (nd_health nd) \<le> health_rank (node_ladder now nd)"
    using assms(3,4) unfolding assms(2) by (auto intro: ladder_rank_mono)
  moreover have "nd_health nd \<in> {NODE_H_ONLINE, NODE_H_DEGRADED, NODE_H_OFFLINE}"
    unfolding assms(2) using assms(3) by (intro ladder_ranks) simp
  ultimately have "length (snd (silent_run nd nows)) \<le> health_rank (nd_health (fst (silent_run nd nows)))"
    using silent_run_bound [OF assms(1), of nows] assms(3,4) by simp
  also have "\<dots> \<le> 2" by (cases "nd_health (fst (silent_run nd nows))") simp_all
  finally show ?thesis .
qed

section \<open>The dwell of a changed verdict\<close>

text \<open>What an open ring knows about the verdicts it has seen so far.\<close>

definition dwell_ok :: "string list \<Rightarrow> ring_status \<Rightarrow> bool" where
  "dwell_ok seen st \<longleftrightarrow> rs_state st = RING_ST_OPEN \<and> unat (rs_pending_ticks st) \<le> 2 \<and>
     unat (rs_pending_ticks st) \<le> length seen \<and>
     (\<forall>j < unat (rs_pending_ticks st). rev seen ! j = rs_pending_blame st)"

lemma dwell_step:
  assumes "dwell_ok seen st"
  shows "dwell_ok (seen @ [cand]) (fst (ring_open_tick st cand))"
    "snd (ring_open_tick st cand) \<noteq> [] \<Longrightarrow>
       snd (ring_open_tick st cand) = [''RING OPEN '' @ cand] \<and> 2 \<le> length seen \<and>
       seen ! (length seen - 1) = cand \<and> seen ! (length seen - 2) = cand"
    "rs_blame (fst (ring_open_tick st cand)) =
       (if snd (ring_open_tick st cand) = [] then rs_blame st else cand)"
proof -
  from assms have o: "rs_state st = RING_ST_OPEN" and le: "unat (rs_pending_ticks st) \<le> 2"
    by (simp_all add: dwell_ok_def)
  have u: "unat (rs_pending_ticks st + 1) = unat (rs_pending_ticks st) + 1"
    using le by (simp add: unat_word_ariths)
  have ad: "(rs_pending_ticks st + 1 \<ge> BLAME_DWELL_TICKS) = (unat (rs_pending_ticks st) = 2)"
    using le u by (auto simp: word_le_nat_alt BLAME_DWELL_TICKS_def)
  show "dwell_ok (seen @ [cand]) (fst (ring_open_tick st cand))"
    using assms u ad
    by (auto simp: dwell_ok_def ring_open_tick_def Let_def split_def nth_Cons' split: if_splits)
  show "snd (ring_open_tick st cand) = [''RING OPEN '' @ cand] \<and> 2 \<le> length seen \<and>
       seen ! (length seen - 1) = cand \<and> seen ! (length seen - 2) = cand" if "snd (ring_open_tick st cand) \<noteq> []"
  proof -
    from that o ad have "unat (rs_pending_ticks st) = 2" "cand = rs_pending_blame st"
      "snd (ring_open_tick st cand) = [''RING OPEN '' @ cand]"
      by (auto simp: ring_open_tick_def Let_def split_def split: if_splits)
    moreover from assms this have "2 \<le> length seen" "rev seen ! 0 = cand" "rev seen ! 1 = cand"
      by (simp_all add: dwell_ok_def)
    then have l: "0 < length seen" "1 < length seen" by linarith+
    have "seen ! (length seen - 1) = cand" "seen ! (length seen - 2) = cand"
      using rev_nth [OF l(1)] rev_nth [OF l(2)] \<open>rev seen ! 0 = cand\<close> \<open>rev seen ! 1 = cand\<close>
      by (simp_all add: numeral_2_eq_2)
    ultimately show ?thesis using \<open>2 \<le> length seen\<close> by simp
  qed
  show "rs_blame (fst (ring_open_tick st cand)) =
       (if snd (ring_open_tick st cand) = [] then rs_blame st else cand)"
    using o by (auto simp: ring_open_tick_def Let_def split_def)
qed

lemma dwell_run:
  assumes "dwell_ok seen st" "n < length cs"
    "snd (run_steps ring_open_tick st cs) ! n \<noteq> []"
  shows "snd (run_steps ring_open_tick st cs) ! n = [''RING OPEN '' @ cs ! n] \<and>
    2 \<le> length seen + n \<and> (seen @ cs) ! (length seen + n - 1) = cs ! n \<and>
    (seen @ cs) ! (length seen + n - 2) = cs ! n"
  using assms
proof (induction cs arbitrary: seen st n)
  case (Cons c cs)
  show ?case
  proof (cases n)
    case 0
    with Cons.prems dwell_step(2) [OF Cons.prems(1), of c] show ?thesis
      by (simp add: nth_append)
  next
    case (Suc m)
    with Cons.IH [OF dwell_step(1) [OF Cons.prems(1), of c], of m] Cons.prems
    show ?thesis by simp
  qed
qed simp

section \<open>A single cut is named by its two ends\<close>

text \<open>The searches find the candidate that strictly beats every other one.\<close>

lemma fold_best:
  assumes f: "\<And>x b. f x b = (if \<not> P x then b
      else case b of None \<Rightarrow> Some (x, g x)
                   | Some (y, q) \<Rightarrow> if better x (g x) y q then Some (x, g x) else b)"
    and u: "P u" "u \<in> set xs \<or> b = Some (u, g u)"
    and b: "b = None \<or> (\<exists>x. b = Some (x, g x) \<and> (x = u \<or> better u (g u) x (g x)))"
    and beats: "\<forall>x \<in> set xs. P x \<longrightarrow> x = u \<or> better u (g u) x (g x) \<and> \<not> better x (g x) u (g u)"
  shows "fold f xs b = Some (u, g u)"
  using u(2) b beats
proof (induction xs arbitrary: b)
  case (Cons x xs)
  have x: "P x \<Longrightarrow> x = u \<or> better u (g u) x (g x) \<and> \<not> better x (g x) u (g u)"
    using Cons.prems(3) by simp
  have "f x b = Some (u, g u) \<or> u \<in> set xs"
    using Cons.prems(1,2) x u(1) by (cases b) (auto simp: f split: if_splits)
  moreover have "f x b = None \<or>
      (\<exists>y. f x b = Some (y, g y) \<and> (y = u \<or> better u (g u) y (g y)))"
  proof -
    have "f x b = b \<or> P x \<and> f x b = Some (x, g x)" by (cases b) (simp_all add: f split_def)
    then show ?thesis
    proof
      assume "f x b = b" with Cons.prems(2) show ?thesis by simp
    next
      assume "P x \<and> f x b = Some (x, g x)" with x show ?thesis by blast
    qed
  qed
  ultimately have "fold f xs (f x b) = Some (u, g u)"
    using Cons.prems(3) by (intro Cons.IH) auto
  then show ?case by simp
qed (use u in auto)

lemma fold_none:
  assumes f: "\<And>x b. \<not> P x \<Longrightarrow> f x b = b" and "\<forall>x \<in> set xs. \<not> P x"
  shows "fold f xs b = b"
  using assms(2) by (induction xs arbitrary: b) (simp_all add: f)

abbreviation offline_row :: "hg_node \<Rightarrow> bool" where
  "offline_row nd \<equiv> nd_used nd \<and> nd_health nd = NODE_H_OFFLINE \<and> nd_hops_valid nd"

lemma most_downstream_offline_eq:
  assumes "u \<in> set tab" "offline_row u"
    "\<forall>x \<in> set tab. offline_row x \<longrightarrow> x = u \<or> nd_hops u < nd_hops x"
  shows "most_downstream_offline tab = Some u"
proof -
  have pos: "chain_pos tab x = nd_hops x" if "offline_row x" for x
    using that by (simp add: chain_pos_def)
  have "fold (\<lambda>nd best.
       if \<not> nd_used nd \<or> nd_health nd \<noteq> NODE_H_OFFLINE \<or> \<not> nd_hops_valid nd then best
       else
         let pos = chain_pos tab nd
         in case best of
              None \<Rightarrow> Some (nd, pos)
            | Some (b, best_pos) \<Rightarrow>
                if pos < best_pos \<or> pos = best_pos \<and> nd_id nd < nd_id b then Some (nd, pos)
                else best) tab None = Some (u, chain_pos tab u)"
    by (rule fold_best [where P = offline_row and
          better = "\<lambda>a p b q. p < q \<or> p = q \<and> nd_id a < nd_id b"])
      (use assms pos in \<open>auto simp: Let_def split: option.split\<close>)
  then show ?thesis by (simp add: most_downstream_offline_def)
qed

lemma most_downstream_offline_none:
  "\<forall>x \<in> set tab. \<not> offline_row x \<Longrightarrow> most_downstream_offline tab = None"
  unfolding most_downstream_offline_def by (subst fold_none [where P = offline_row]) auto

lemma most_upstream_witness_eq:
  assumes "d \<in> set tab" "is_witness d" "\<forall>x \<in> set tab. is_witness x \<longrightarrow> nd_hops_valid x"
    "\<forall>x \<in> set tab. is_witness x \<longrightarrow> x = d \<or> nd_hops x < nd_hops d"
  shows "most_upstream_witness tab = Some d"
proof -
  have pos: "chain_pos tab x = nd_hops x" if "is_witness x" "x \<in> set tab" for x
    using that assms(3) by (simp add: chain_pos_def)
  have "fold (\<lambda>nd best.
       if \<not> is_witness nd then best
       else
         let pos = chain_pos tab nd
         in case best of
              None \<Rightarrow> Some (nd, pos)
            | Some (b, best_pos) \<Rightarrow>
                if pos > best_pos \<or> pos = best_pos \<and> nd_id nd < nd_id b then Some (nd, pos)
                else best) tab None = Some (d, chain_pos tab d)"
    by (rule fold_best [where P = is_witness and
          better = "\<lambda>a p b q. p > q \<or> p = q \<and> nd_id a < nd_id b"])
      (use assms pos in \<open>auto simp: Let_def split: option.split\<close>)
  then show ?thesis by (simp add: most_upstream_witness_def)
qed

lemma most_upstream_witness_none:
  "\<forall>x \<in> set tab. \<not> is_witness x \<Longrightarrow> most_upstream_witness tab = None"
  unfolding most_upstream_witness_def by (subst fold_none [where P = is_witness]) auto

text \<open>
  A settled cut: every zone has been heard, no two sit at one position, the zones from
  position \<open>k\<close> up (toward the master's transmitter) are offline, and the ones below are alive,
  past their boot grace and report that they no longer hear the master.
\<close>

definition settled_cut :: "hg_node list \<Rightarrow> u8 \<Rightarrow> bool" where
  "settled_cut tab k \<longleftrightarrow>
     (\<forall>x \<in> set tab. nd_used x \<longrightarrow> nd_hops_valid x \<and>
        (\<forall>y \<in> set tab. nd_used y \<longrightarrow> nd_hops x = nd_hops y \<longrightarrow> x = y) \<and>
        (if k \<le> nd_hops x then nd_health x = NODE_H_OFFLINE
         else is_witness x \<and> nd_link_flags x AND LINK_MASTER_ALIVE = 0))"

lemma settled_cut_offline:
  "settled_cut tab k \<Longrightarrow> x \<in> set tab \<Longrightarrow> offline_row x = (nd_used x \<and> k \<le> nd_hops x)"
  by (auto simp: settled_cut_def is_witness_def split: if_splits)

lemma settled_cut_witness:
  "settled_cut tab k \<Longrightarrow> x \<in> set tab \<Longrightarrow> is_witness x = (nd_used x \<and> nd_hops x < k)"
  by (auto simp: settled_cut_def is_witness_def not_le split: if_splits)

lemma settled_cut_inj:
  "settled_cut tab k \<Longrightarrow> x \<in> set tab \<Longrightarrow> y \<in> set tab \<Longrightarrow> nd_used x \<Longrightarrow> nd_used y \<Longrightarrow>
     nd_hops x \<le> nd_hops y \<Longrightarrow> x = y \<or> nd_hops x < nd_hops y"
  unfolding settled_cut_def by (meson order_le_less)

definition lowest_above :: "hg_node list \<Rightarrow> u8 \<Rightarrow> hg_node \<Rightarrow> bool" where
  "lowest_above tab k u \<longleftrightarrow> u \<in> set tab \<and> nd_used u \<and> k \<le> nd_hops u \<and>
     (\<forall>x \<in> set tab. nd_used x \<longrightarrow> k \<le> nd_hops x \<longrightarrow> nd_hops u \<le> nd_hops x)"

definition highest_below :: "hg_node list \<Rightarrow> u8 \<Rightarrow> hg_node \<Rightarrow> bool" where
  "highest_below tab k d \<longleftrightarrow> d \<in> set tab \<and> nd_used d \<and> nd_hops d < k \<and>
     (\<forall>x \<in> set tab. nd_used x \<longrightarrow> nd_hops x < k \<longrightarrow> nd_hops x \<le> nd_hops d)"

lemma settled_cut_u:
  assumes "settled_cut tab k" "lowest_above tab k u"
  shows "most_downstream_offline tab = Some u"
proof (rule most_downstream_offline_eq)
  show "u \<in> set tab" "offline_row u"
    using assms settled_cut_offline [OF assms(1), of u] by (auto simp: lowest_above_def)
  show "\<forall>x \<in> set tab. offline_row x \<longrightarrow> x = u \<or> nd_hops u < nd_hops x"
    using assms settled_cut_offline [OF assms(1)] settled_cut_inj [OF assms(1), of u]
    unfolding lowest_above_def by metis
qed

lemma settled_cut_d:
  assumes "settled_cut tab k" "highest_below tab k d"
  shows "most_upstream_witness tab = Some d" "nd_link_flags d AND LINK_MASTER_ALIVE = 0"
proof -
  show "nd_link_flags d AND LINK_MASTER_ALIVE = 0"
    using assms by (auto simp: settled_cut_def highest_below_def not_le [symmetric])
  show "most_upstream_witness tab = Some d"
  proof (rule most_upstream_witness_eq)
    show "d \<in> set tab" "is_witness d"
      using assms settled_cut_witness [OF assms(1), of d] by (auto simp: highest_below_def)
    show "\<forall>x \<in> set tab. is_witness x \<longrightarrow> nd_hops_valid x"
      using assms(1) by (auto simp: settled_cut_def is_witness_def)
    show "\<forall>x \<in> set tab. is_witness x \<longrightarrow> x = d \<or> nd_hops x < nd_hops d"
      using assms settled_cut_witness [OF assms(1)] settled_cut_inj [OF assms(1), of _ d]
      unfolding highest_below_def by metis
  qed
qed

lemma blame_between:
  assumes "settled_cut tab k" "lowest_above tab k u" "highest_below tab k d"
  shows "ring_blame tab =
    zone_name u @ '' dead or wire '' @ zone_name u @ ''->'' @ zone_name d"
  using settled_cut_u [OF assms(1,2)] settled_cut_d [OF assms(1,3)]
  by (simp add: ring_blame_def Let_def)

lemma blame_first_leg:
  assumes "settled_cut tab k" "highest_below tab k d" "\<forall>x \<in> set tab. nd_used x \<longrightarrow> nd_hops x < k"
  shows "ring_blame tab = ''wire M->'' @ zone_name d"
proof -
  have "most_downstream_offline tab = None"
    using assms(3) settled_cut_offline [OF assms(1)]
    by (intro most_downstream_offline_none) (metis not_le)
  then show ?thesis using settled_cut_d [OF assms(1,2)] by (simp add: ring_blame_def Let_def)
qed

lemma blame_last_leg:
  assumes "settled_cut tab k" "lowest_above tab k u" "\<forall>x \<in> set tab. nd_used x \<longrightarrow> k \<le> nd_hops x"
  shows "ring_blame tab = zone_name u @ '' dead or wire '' @ zone_name u @ ''->M''"
proof -
  have "most_upstream_witness tab = None"
    using assms(3) settled_cut_witness [OF assms(1)]
    by (intro most_upstream_witness_none) (metis not_le)
  moreover have "\<not> anything_alive_below tab (chain_pos tab u)"
    using assms(1,3) by (auto simp: anything_alive_below_def list_ex_iff settled_cut_def)
  ultimately show ?thesis using settled_cut_u [OF assms(1,2)] by (simp add: ring_blame_def Let_def)
qed

text \<open>The 48 byte buffer of the verdict is never truncated.\<close>

lemma length_show_dec: "n < 1000 \<Longrightarrow> length (show_dec n) \<le> 3"
  by (subst show_dec.simps, subst show_dec.simps, subst show_dec.simps) auto

lemma length_ring_blame: "length (ring_blame tab) < 48"
proof -
  have z: "length (zone_name nd) \<le> 4" for nd
    using length_show_dec [of "unat (nd_id nd)"] unat_u8_less [of "nd_id nd"]
    by (simp add: zone_name_def)
  have "length (zone_name a @ '' dead or wire '' @ zone_name b @ ''->'' @ c) < 48"
    if "length c \<le> 4" for a b c
    using z [of a] z [of b] that by simp
  moreover have "length (''wire M->'' @ zone_name a) < 48" for a using z [of a] by simp
  ultimately show ?thesis using z
    by (auto simp: ring_blame_def Let_def split: option.split simp del: append.simps length_append)
qed

section \<open>The published verdict\<close>

text \<open>
  A zone above the break has been silent for 10 s; one below it is heard, has been up long enough
  and reports the master lost. All were heard before, at distinct positions, and none is updating.
\<close>

definition broken_at :: "u8 \<Rightarrow> u32 \<Rightarrow> hg_node list \<Rightarrow> bool" where
  "broken_at k now tab \<longleftrightarrow>
     (\<forall>x \<in> set tab. nd_used x \<longrightarrow> nd_hops_valid x \<and> \<not> now < nd_updating_until_ms x \<and>
        (\<forall>y \<in> set tab. nd_used y \<longrightarrow> nd_hops x = nd_hops y \<longrightarrow> x = y) \<and>
        (if k \<le> nd_hops x then 10000 \<le> now - nd_last_hb_ms x
         else now - nd_last_hb_ms x < 10000 \<and> 10 \<le> hb_uptime_s (nd_hb x) \<and> nd_link_flags x AND 2 = 0))"

text \<open>An evaluation that finds this picture: nothing came round for 5 s, and the ends of the break are
  the zones \<open>u\<close> and \<open>d\<close>.\<close>

definition shows_break :: "u8 \<Rightarrow> u8 \<Rightarrow> hg_node list \<times> u32 \<times> u32 \<Rightarrow> bool" where
  "shows_break u d = (\<lambda>(tab, now, returned). length tab \<le> 255 \<and> 5000 \<le> now - returned \<and>
     (\<exists>k un dn. broken_at k now tab \<and> lowest_above tab k un \<and> highest_below tab k dn \<and> nd_id un = u \<and> nd_id dn = d))"

definition health_step :: "ring_status \<Rightarrow> hg_node list \<times> u32 \<times> u32 \<Rightarrow> ring_status \<times> string list" where
  "health_step st = (\<lambda>(tab, now, returned). snd (ring_health_eval tab now returned st))"

definition break_text :: "u8 \<Rightarrow> u8 \<Rightarrow> string" where
  "break_text u d = ''Z'' @ show_dec (unat u) @ '' dead or wire Z'' @ show_dec (unat u) @ ''->Z'' @ show_dec (unat d)"

lemma node_eval_more [simp]:
  "nd_hops_valid (fst (node_eval now nd)) = nd_hops_valid nd" "nd_link_flags (fst (node_eval now nd)) = nd_link_flags nd"
  "nd_hb (fst (node_eval now nd)) = nd_hb nd"
  by (simp_all add: node_eval_def Let_def)

lemma broken_settles:
  assumes "broken_at k now tab"
  shows "settled_cut (map (fst \<circ> node_eval now) tab) k"
  using assms
  by (auto simp: settled_cut_def broken_at_def node_eval_health node_ladder_def is_witness_def Let_def
      WITNESS_MIN_UPTIME_S_def LINK_MASTER_ALIVE_def not_less split: if_splits)

lemma shows_breakI:
  "length tab \<le> 255 \<Longrightarrow> 5000 \<le> now - ret \<Longrightarrow> broken_at k now tab \<Longrightarrow> lowest_above tab k un \<Longrightarrow> highest_below tab k dn \<Longrightarrow>
     nd_id un = u \<Longrightarrow> nd_id dn = d \<Longrightarrow> shows_break u d (tab, now, ret)"
  unfolding shows_break_def by blast

text \<open>How many evaluations a steady verdict \<open>c\<close> still has to wait.\<close>

definition dwell_left :: "string \<Rightarrow> ring_status \<Rightarrow> nat" where
  "dwell_left c st = (if rs_state st \<noteq> RING_ST_OPEN then 1 else if c = rs_blame st then 0
     else if c = rs_pending_blame st then 3 - unat (rs_pending_ticks st) else 3)"

lemma dwell_left_tick:
  assumes "unat (rs_pending_ticks st) \<le> 2"
  shows "unat (rs_pending_ticks (fst (ring_open_tick st c))) \<le> 2"
    "dwell_left c (fst (ring_open_tick st c)) = dwell_left c st - 1"
    "snd (ring_open_tick st c) = (if dwell_left c st = 1 then [''RING OPEN '' @ c] else [])"
proof -
  have u: "unat (rs_pending_ticks st + 1) = unat (rs_pending_ticks st) + 1"
    using assms by (simp add: unat_word_ariths)
  then have ad: "(BLAME_DWELL_TICKS \<le> rs_pending_ticks st + 1) = (unat (rs_pending_ticks st) = 2)"
    using assms by (auto simp: word_le_nat_alt BLAME_DWELL_TICKS_def)
  show "unat (rs_pending_ticks (fst (ring_open_tick st c))) \<le> 2"
    "dwell_left c (fst (ring_open_tick st c)) = dwell_left c st - 1"
    "snd (ring_open_tick st c) = (if dwell_left c st = 1 then [''RING OPEN '' @ c] else [])"
    using assms u by (auto simp: dwell_left_def ring_open_tick_def Let_def split_def ad)
qed

lemma node_eval_no_verdict: "filter (\<lambda>l. l = ''RING OPEN '' @ c) (snd (node_eval now nd)) = []"
  by (simp add: node_eval_def Let_def)

lemma break_step:
  assumes "shows_break u d x" "unat (rs_pending_ticks st) \<le> 2"
  shows "unat (rs_pending_ticks (fst (health_step st x))) \<le> 2"
    "dwell_left (break_text u d) (fst (health_step st x)) = dwell_left (break_text u d) st - 1"
    "filter (\<lambda>l. l = ''RING OPEN '' @ break_text u d) (snd (health_step st x)) =
       (if dwell_left (break_text u d) st = 1 then [''RING OPEN '' @ break_text u d] else [])"
    "rs_state (fst (health_step st x)) = RING_ST_OPEN"
proof -
  obtain tab now ret k un dn where x: "x = (tab, now, ret)" "5000 \<le> now - ret" "length tab \<le> 255" "broken_at k now tab"
      "lowest_above tab k un" "highest_below tab k dn" "nd_id un = u" "nd_id dn = d"
    using assms(1) by (auto simp: shows_break_def)
  let ?tab = "map (fst \<circ> node_eval now) tab"
  have ends: "lowest_above ?tab k (fst (node_eval now un))" "highest_below ?tab k (fst (node_eval now dn))"
    using x(5,6) by (auto simp: lowest_above_def highest_below_def)
  have b: "ring_blame ?tab = break_text u d"
    using blame_between [OF broken_settles [OF x(4)] ends] x(7,8) by (simp add: break_text_def zone_name_def)
  define n where "n = length (filter nd_used tab)"
  have "n \<le> 255" using x(3) le_trans [OF length_filter_le] unfolding n_def by blast
  moreover have "un \<in> set (filter nd_used tab)" using x(5) by (simp add: lowest_above_def)
  then have "0 < n" unfolding n_def by (rule length_pos_if_in_set)
  ultimately have n: "(of_nat n :: u8) \<noteq> 0" using of_nat_eq_0_u8 [of n] by simp
  define st1 where "st1 = st\<lparr>rs_size := of_nat n, rs_online_mask := ring_online_mask ?tab now\<rparr>"
  have st1: "rs_pending_ticks st1 = rs_pending_ticks st" "dwell_left c st1 = dwell_left c st" for c
    by (simp_all add: st1_def dwell_left_def)
  have s: "health_step st x = (fst (ring_open_tick st1 (break_text u d)),
      concat (map (snd \<circ> node_eval now) tab) @ snd (ring_open_tick st1 (break_text u d)))"
    using n x(2) unfolding health_step_def x(1) ring_health_eval_def Let_def
    by (simp add: split_def st1_def n_def b)
  have q: "filter (\<lambda>l. l = ''RING OPEN '' @ break_text u d) (concat (map (snd \<circ> node_eval now) tab)) = []"
    by (induction tab) (simp_all add: node_eval_no_verdict del: append.simps)
  note t = dwell_left_tick [of st1 "break_text u d"]
  show "unat (rs_pending_ticks (fst (health_step st x))) \<le> 2"
    "dwell_left (break_text u d) (fst (health_step st x)) = dwell_left (break_text u d) st - 1"
    using t(1,2) assms(2) by (simp_all add: s st1)
  show "filter (\<lambda>l. l = ''RING OPEN '' @ break_text u d) (snd (health_step st x)) =
       (if dwell_left (break_text u d) st = 1 then [''RING OPEN '' @ break_text u d] else [])"
    using t(3) assms(2) q by (simp add: s st1 del: append.simps)
  show "rs_state (fst (health_step st x)) = RING_ST_OPEN" by (simp add: s ring_open_tick_def split_def Let_def)
qed

lemma break_run:
  assumes "list_all (shows_break u d) xs" "unat (rs_pending_ticks st) \<le> 2" "dwell_left (break_text u d) st \<le> length xs"
    "xs \<noteq> [] \<or> rs_state st = RING_ST_OPEN"
  shows "rs_state (fst (run_steps health_step st xs)) = RING_ST_OPEN \<and>
    rs_blame (fst (run_steps health_step st xs)) = break_text u d \<and>
    length (filter (\<lambda>l. l = ''RING OPEN '' @ break_text u d) (concat (snd (run_steps health_step st xs)))) =
      (if dwell_left (break_text u d) st = 0 then 0 else 1)"
  using assms
proof (induction xs arbitrary: st)
  case Nil
  then show ?case by (auto simp: dwell_left_def split: if_splits)
next
  case (Cons x xs)
  have x: "shows_break u d x" using Cons.prems(1) by simp
  note b = break_step [OF x Cons.prems(2)]
  have "dwell_left (break_text u d) (fst (health_step st x)) \<le> length xs" using b(2) Cons.prems(3) by simp
  note ih = Cons.IH [OF _ b(1) this disjI2 [OF b(4)]]
  show ?case using ih Cons.prems(1) b(2,3) by (simp del: append.simps)
qed

text \<open>No evaluation leaves a verdict waiting for more than three.\<close>

lemma pending_bounded: "unat (rs_pending_ticks st) \<le> 2 \<Longrightarrow> unat (rs_pending_ticks (fst (health_step st x))) \<le> 2"
  using dwell_left_tick(1) [of "st\<lparr>rs_size := s, rs_online_mask := m\<rparr>" for s m]
  by (cases x) (simp add: health_step_def ring_health_eval_def Let_def split_def)

interpretation health: step_invariant health_step "\<lambda>st. unat (rs_pending_ticks st) \<le> 2"
  by unfold_locales (rule pending_bounded)

section \<open>Properties\<close>

definition sample_node :: "u8 \<Rightarrow> u8 \<Rightarrow> node_health \<Rightarrow> hg_node" where
  "sample_node i hops health = \<lparr>nd_used = True, nd_id = i, nd_mac = [i, 0, 0, 0, 0, 1],
     nd_name = [], nd_unconfigured = False, nd_health = health, nd_fault_flag = False,
     nd_last_hb_ms = 0, nd_updating_until_ms = 0, nd_hops = hops, nd_link_flags = 1,
     nd_cmd_timeouts = 0, nd_hops_valid = True, nd_hb = sample_hb, nd_seq_drop_tally = 0\<rparr>"

text \<open>A zone that falls silent is announced at most twice, however often the ladder runs: once as degraded and once as offline, since its health only ever gets worse.\<close>

lemma silent_node_is_reported_at_most_twice:
  assumes "nd_used nd" "nd_health nd = node_ladder t0 nd"
    "\<forall>now \<in> set (t0 # nows). \<not> now < nd_updating_until_ms nd"
    "sorted (map (\<lambda>now. unat (now - nd_last_hb_ms nd)) (t0 # nows))"
  shows "length (snd (silent_run nd nows)) \<le> 2"
  using assms by (rule silent_node_notices)

lemma silent_node_is_reported_at_most_twice_witness:
  \<open>length (snd (silent_run (sample_node 1 1 NODE_H_ONLINE) [2000, 6000, 11000, 30000])) \<le> 2\<close>
  by (rule silent_node_is_reported_at_most_twice [where ?t0.0 = 1000])
    (simp_all add: sample_node_def node_ladder_def)

text \<open>While the ring is open a changed verdict is announced only on a tick whose two predecessors gave the same one: the last three candidates agree.\<close>

lemma verdict_dwells:
  assumes "rs_state st = RING_ST_OPEN" "rs_pending_ticks st = 0" "n < length cs"
    "snd (run_steps ring_open_tick st cs) ! n \<noteq> []"
  shows "snd (run_steps ring_open_tick st cs) ! n = [''RING OPEN '' @ cs ! n] \<and>
    2 \<le> n \<and> cs ! (n - 1) = cs ! n \<and> cs ! (n - 2) = cs ! n"
  using dwell_run [of "[]" st n cs] assms by (simp add: dwell_ok_def)

lemma verdict_dwells_witness:
  \<open>snd (run_steps ring_open_tick \<lparr>rs_state = RING_ST_OPEN, rs_size = 2, rs_online_mask = 6,
     rs_blame = ''a'', rs_pending_blame = [], rs_pending_ticks = 0\<rparr> [''b'', ''b'', ''b'']) ! 2 =
     [''RING OPEN b'']\<close>
  by (subst verdict_dwells [THEN conjunct1])
    (simp_all add: run_steps.simps ring_open_tick_def BLAME_DWELL_TICKS_def Let_def)

text \<open>C35. On a ring that is broken in one place between two zones, three health evaluations in a row that find the break, or a single one if the ring was not open before, publish the verdict that names the two zones at the ends of the break, whatever was evaluated before from a start without a pending verdict, and announce it in exactly one RING OPEN line, or in none if it was the published verdict already. An evaluation finds the break when nothing came round for 5 s, the zones above it are silent for 10 s, those below it are heard, up for 10 s and report the master lost, and all of them were heard before, at distinct positions, and none is updating.\<close>

lemma cut_is_named:
  assumes "rs_pending_ticks st = 0" "list_all (shows_break u d) xs"
    "3 \<le> length xs \<or> xs \<noteq> [] \<and> rs_state (fst (run_steps health_step st before)) \<noteq> RING_ST_OPEN"
  shows "let st1 = fst (run_steps health_step st before); (st2, lines) = run_steps health_step st1 xs in
    rs_state st2 = RING_ST_OPEN \<and> rs_blame st2 = break_text u d \<and>
    length (filter (\<lambda>l. l = ''RING OPEN '' @ break_text u d) (concat lines)) =
      (if rs_state st1 = RING_ST_OPEN \<and> rs_blame st1 = break_text u d then 0 else 1)"
proof -
  define st1 where "st1 = fst (run_steps health_step st before)"
  have p: "unat (rs_pending_ticks st1) \<le> 2" unfolding st1_def using assms(1) by (intro health.run_keeps) simp
  have "dwell_left (break_text u d) st1 \<le> length xs" using assms(3) by (auto simp: dwell_left_def st1_def Suc_le_eq)
  moreover have "xs \<noteq> [] \<or> rs_state st1 = RING_ST_OPEN" using assms(3) by auto
  moreover have z: "dwell_left (break_text u d) st1 = 0 \<longleftrightarrow> rs_state st1 = RING_ST_OPEN \<and> rs_blame st1 = break_text u d"
    using p by (auto simp: dwell_left_def)
  ultimately show ?thesis using break_run [OF assms(2) p]
    unfolding Let_def split_def st1_def [symmetric] by (simp add: z del: append.simps)
qed

lemma cut_is_named_witness:
  \<open>rs_blame (fst (run_steps health_step \<lparr>rs_state = RING_ST_OK, rs_size = 2, rs_online_mask = 6, rs_blame = [],
       rs_pending_blame = [], rs_pending_ticks = 0\<rparr>
     [([sample_node 1 1 NODE_H_ONLINE, (sample_node 2 0 NODE_H_ONLINE)\<lparr>nd_last_hb_ms := 11000\<rparr>], 12000, 1000)])) =
   ''Z1 dead or wire Z1->Z2''\<close>
proof -
  let ?st = "\<lparr>rs_state = RING_ST_OK, rs_size = 2, rs_online_mask = 6, rs_blame = [], rs_pending_blame = [], rs_pending_ticks = 0\<rparr>"
  let ?u = "sample_node 1 1 NODE_H_ONLINE" and ?d = "(sample_node 2 0 NODE_H_ONLINE)\<lparr>nd_last_hb_ms := 11000\<rparr>"
  have "broken_at 1 12000 [?u, ?d]" "lowest_above [?u, ?d] 1 ?u" "highest_below [?u, ?d] 1 ?d" "nd_id ?u = 1" "nd_id ?d = 2"
    by (auto simp: broken_at_def lowest_above_def highest_below_def sample_node_def sample_hb_def)
  from shows_breakI [OF _ _ this] have "list_all (shows_break 1 2) [([?u, ?d], 12000, 1000)]" by simp
  from cut_is_named [OF _ this, of ?st "[]"] show ?thesis by (simp add: break_text_def show_dec.simps Let_def split_def)
qed

end
