(* ===== verification/HG_Blob.thy ===== *)
theory HG_Blob
  imports HG_Prelude
begin

text \<open>
  \<^verbatim>\<open>components/hg_blob/hg_blob.c\<close>: the envelope of everything the firmware keeps in flash or
  sends as a configuration: magic, version, length, generation and a CRC-32 over the first twelve
  bytes and the payload. The main results: what is wrapped is unwrapped again, by a reader of
  the same or a newer version and out of a larger buffer; and a change of a single byte
  under the CRC is always refused.
\<close>

definition HG_BLOB_HDR_LEN :: nat where "HG_BLOB_HDR_LEN = 16"

section \<open>CRC-32\<close>

text \<open>One of the eight rounds per byte, one byte, and the running checksum.\<close>

definition crc32_round :: "u32 \<Rightarrow> u32" where
  "crc32_round c = drop_bit 1 c XOR (0xEDB88320 AND - (c AND 1))"

definition crc32_byte :: "u32 \<Rightarrow> u8 \<Rightarrow> u32" where
  "crc32_byte c b = (crc32_round ^^ 8) (c XOR ucast b)"

definition hg_crc32 :: "u32 \<Rightarrow> u8 list \<Rightarrow> u32" where
  "hg_crc32 seed buf = NOT (foldl crc32_byte (NOT seed) buf)"

section \<open>Wrapping and unwrapping\<close>

datatype hg_blob_rc = HG_BLOB_OK | HG_BLOB_MIGRATED | HG_BLOB_E_SHORT | HG_BLOB_E_MAGIC
  | HG_BLOB_E_LENGTH | HG_BLOB_E_CRC | HG_BLOB_E_VERSION_NEWER | HG_BLOB_E_VERSION_OLD

text \<open>\<open>None\<close> is the 0 of the C (no room). \<open>payload\<close> is the \<open>len\<close> bytes at the C pointer.\<close>

definition hg_blob_wrap :: "u32 \<Rightarrow> u16 \<Rightarrow> u32 \<Rightarrow> u8 list \<Rightarrow> nat \<Rightarrow> u8 list option" where
  "hg_blob_wrap magic version generation payload cap =
     (if cap < HG_BLOB_HDR_LEN + length payload then None
      else
        let hdr = le32_put magic @ le16_put version @ le16_put (of_nat (length payload)) @
                  le32_put generation;
            c = hg_crc32 (hg_crc32 0 hdr) payload
        in Some (hdr @ le32_put c @ payload))"

text \<open>The return code, and on success the filled payload buffer and the generation.\<close>

definition hg_blob_unwrap ::
  "u32 \<Rightarrow> u16 \<Rightarrow> u16 \<Rightarrow> u8 list \<Rightarrow> nat \<Rightarrow> hg_blob_rc \<times> (u8 list \<times> u32) option" where
  "hg_blob_unwrap magic cur_ver min_compat inp payload_cap =
     (if length inp < HG_BLOB_HDR_LEN then (HG_BLOB_E_SHORT, None)
      else if le32_at inp 0 \<noteq> magic then (HG_BLOB_E_MAGIC, None)
      else
        let len = unat (le16_at inp 6)
        in if len > payload_cap \<or> HG_BLOB_HDR_LEN + len > length inp then (HG_BLOB_E_LENGTH, None)
           else
             let body = take len (drop HG_BLOB_HDR_LEN inp);
                 c = hg_crc32 (hg_crc32 0 (take 12 inp)) body
             in if c \<noteq> le32_at inp 12 then (HG_BLOB_E_CRC, None)
                else
                  let ver = le16_at inp 4
                  in if ver > cur_ver then (HG_BLOB_E_VERSION_NEWER, None)
                     else if ver < min_compat then (HG_BLOB_E_VERSION_OLD, None)
                     else (if ver < cur_ver \<or> len < payload_cap then HG_BLOB_MIGRATED
                           else HG_BLOB_OK,
                           Some (body @ replicate (payload_cap - len) 0, le32_at inp 8)))"

section \<open>Round trip\<close>

lemma blob_header_fields:
  assumes "hdr = le32_put magic @ le16_put ver @ le16_put len @ le32_put gen"
  shows "length hdr = 12" "le32_at (hdr @ xs) 0 = magic" "le16_at (hdr @ xs) 4 = ver"
    "le16_at (hdr @ xs) 6 = len" "le32_at (hdr @ xs) 8 = gen"
    "le32_at (hdr @ le32_put c @ xs) 12 = c"
  by (simp_all add: assms le_put_defs le_at_defs le_simps)

lemma blob_round_trip:
  assumes "hg_blob_wrap magic ver gen payload cap = Some bs"
    "length payload \<le> pcap" "length payload < 65536" "min_compat \<le> ver" "ver \<le> cur_ver"
  shows "hg_blob_unwrap magic cur_ver min_compat (bs @ xs) pcap =
    (if ver < cur_ver \<or> length payload < pcap then HG_BLOB_MIGRATED else HG_BLOB_OK,
     Some (payload @ replicate (pcap - length payload) 0, gen))"
proof -
  define hdr where "hdr = le32_put magic @ le16_put ver @ le16_put (of_nat (length payload)) @
    le32_put gen"
  define c where "c = hg_crc32 (hg_crc32 0 hdr) payload"
  have bs: "bs = hdr @ le32_put c @ payload"
    using assms(1) by (auto simp: hg_blob_wrap_def Let_def hdr_def c_def split: if_splits)
  note f = blob_header_fields [OF hdr_def]
  have l: "unat (of_nat (length payload) :: u16) = length payload"
    using assms(3) by (simp add: unat_of_nat_u16)
  have t: "take 12 (bs @ xs) = hdr" "take (length payload) (drop 16 (bs @ xs)) = payload"
    using f(1) by (simp_all add: bs)
  have g: "le32_at (bs @ xs) 0 = magic" "le16_at (bs @ xs) 4 = ver"
    "le16_at (bs @ xs) 6 = of_nat (length payload)" "le32_at (bs @ xs) 8 = gen"
    "le32_at (bs @ xs) 12 = c" "length bs = 16 + length payload"
    using f by (simp_all add: bs)
  show ?thesis
    using assms(2,4,5)
    by (simp add: hg_blob_unwrap_def g t l HG_BLOB_HDR_LEN_def c_def Let_def not_less
        del: take_append drop_append)
qed

section \<open>The CRC\<close>

text \<open>The checksum can be computed piecewise.\<close>

lemma hg_crc32_append: "hg_crc32 (hg_crc32 s a) b = hg_crc32 s (a @ b)"
  by (simp add: hg_crc32_def)

text \<open>A round is invertible, because the polynomial has its top bit set.\<close>

lemma crc32_round_bit_poly:
  "n < 32 \<Longrightarrow> bit (drop_bit 1 c XOR ((p :: u32) AND - (c AND 1))) n =
     ((n < 31 \<and> bit c (Suc n)) \<noteq> (bit c 0 \<and> bit p n))"
proof -
  assume n: "n < 32"
  have "c AND 1 = (if bit c 0 then 1 else 0)" by (simp add: and_one_eq bit_0 odd_iff_mod_2_eq_one)
  moreover have "\<not> bit c 32" using bit_imp_le_length [of c 32] by auto
  moreover have "n = 31 \<or> n < 31" using n by linarith
  moreover have "bit c (Suc n) \<Longrightarrow> n < 31" using bit_imp_le_length [of c "Suc n"] by simp
  ultimately show ?thesis using n
    by (cases "bit c 0") (auto simp add: bit_xor_iff bit_and_iff bit_drop_bit_eq bit_minus_1_iff simp del: bit_0)
qed

lemma crc32_round_bit:
  "n < 32 \<Longrightarrow> bit (crc32_round c) n = ((n < 31 \<and> bit c (Suc n)) \<noteq> (bit c 0 \<and> bit (0xEDB88320 :: u32) n))"
  unfolding crc32_round_def by (rule crc32_round_bit_poly)

lemma crc32_round_inj: "crc32_round x = crc32_round y \<Longrightarrow> x = y"
proof -
  assume eq: "crc32_round x = crc32_round y"
  have top: "bit (0xEDB88320 :: u32) 31" by simp
  define p where "p = (0xEDB88320 :: u32)"
  have rb: "n < 32 \<Longrightarrow> bit (crc32_round c) n = ((n < 31 \<and> bit c (Suc n)) \<noteq> (bit c 0 \<and> bit p n))" for n c
    unfolding p_def by (rule crc32_round_bit)
  have "bit p 31" using top by (simp only: p_def)
  then have b0: "bit x 0 = bit y 0" using rb [of 31 x] rb [of 31 y] eq by simp
  show "x = y"
  proof (rule bit_word_eqI)
    fix n assume n: "n < LENGTH(32)"
    show "bit x n = bit y n"
    proof (cases n)
      case (Suc m)
      then show ?thesis using n rb [of m x] rb [of m y] eq b0 by auto
    qed (use b0 in simp)
  qed
qed

lemma funpow_inj: "(\<And>x y. (f :: 'a \<Rightarrow> 'a) x = f y \<Longrightarrow> x = y) \<Longrightarrow> (f ^^ n) x = (f ^^ n) y \<Longrightarrow> x = y"
  by (induction n) auto

lemma crc32_byte_inj:
  "crc32_byte c b = crc32_byte d b \<Longrightarrow> c = d"
  "crc32_byte c a = crc32_byte c b \<Longrightarrow> a = b"
proof -
  have f: "(crc32_round ^^ 8) x = (crc32_round ^^ 8) y \<Longrightarrow> x = y" for x y
    using funpow_inj [of crc32_round 8 x y] crc32_round_inj by blast
  show "crc32_byte c b = crc32_byte d b \<Longrightarrow> c = d"
    using f by (fastforce simp: crc32_byte_def word_xor_right_cancel)
  show "crc32_byte c a = crc32_byte c b \<Longrightarrow> a = b"
    using f [of "c XOR ucast a" "c XOR ucast b"] by (simp add: crc32_byte_def word_xor_left_cancel ucast_u8_u32)
qed

lemma crc32_foldl_inj: "foldl crc32_byte c xs = foldl crc32_byte d xs \<Longrightarrow> c = d"
  by (induction xs arbitrary: c d) (auto dest: crc32_byte_inj(1))

lemma hg_crc32_one_byte:
  assumes "i < length xs" "x \<noteq> xs ! i"
  shows "hg_crc32 s (xs[i := x]) \<noteq> hg_crc32 s xs"
proof
  assume "hg_crc32 s (xs[i := x]) = hg_crc32 s xs"
  then have "foldl crc32_byte (NOT s) (take i xs @ x # drop (Suc i) xs) =
      foldl crc32_byte (NOT s) (take i xs @ xs ! i # drop (Suc i) xs)"
    using assms(1) by (simp add: hg_crc32_def upd_conv_take_nth_drop id_take_nth_drop [symmetric])
  then have "crc32_byte (foldl crc32_byte (NOT s) (take i xs)) x =
      crc32_byte (foldl crc32_byte (NOT s) (take i xs)) (xs ! i)"
    by (auto dest: crc32_foldl_inj)
  with assms(2) show False using crc32_byte_inj(2) by blast
qed

lemma le32_at_update:
  assumes "k + 4 \<le> length p" "k \<le> i" "i < k + 4" "x \<noteq> p ! i"
  shows "le32_at (p[i := x]) k \<noteq> le32_at p k"
proof
  assume "le32_at (p[i := x]) k = le32_at p k"
  then have "[p[i := x] ! k, p[i := x] ! (k + 1), p[i := x] ! (k + 2), p[i := x] ! (k + 3)] =
      [p ! k, p ! (k + 1), p ! (k + 2), p ! (k + 3)]"
    unfolding le32_at_def by (metis le32_put_get)
  moreover have "i = k \<or> i = k + 1 \<or> i = k + 2 \<or> i = k + 3" using assms(2,3) by linarith
  ultimately show False using assms(1,4) by auto
qed

lemma blob_detects_one_byte:
  assumes "hg_blob_wrap magic ver gen payload cap = Some bs" "length payload < 65536"
    "i < length bs" "i \<notin> {6, 7}" "x \<noteq> bs ! i" "length payload \<le> pcap"
  shows "fst (hg_blob_unwrap magic cur_ver min_compat (bs[i := x]) pcap) =
    (if i < 4 then HG_BLOB_E_MAGIC else HG_BLOB_E_CRC)"
proof -
  define hdr where "hdr = le32_put magic @ le16_put ver @ le16_put (of_nat (length payload)) @
    le32_put gen"
  define c where "c = hg_crc32 (hg_crc32 0 hdr) payload"
  have bs: "bs = hdr @ le32_put c @ payload"
    using assms(1) by (auto simp: hg_blob_wrap_def Let_def hdr_def c_def split: if_splits)
  note f = blob_header_fields [OF hdr_def]
  have len: "length bs = 16 + length payload" using f(1) by (simp add: bs)
  have l: "unat (of_nat (length payload) :: u16) = length payload"
    using assms(2) by (simp add: unat_of_nat_u16)
  have g: "le32_at bs 0 = magic" "le16_at bs 6 = of_nat (length payload)" "le32_at bs 12 = c"
    using f by (simp_all add: bs)
  have c: "c = hg_crc32 0 (take 12 bs @ drop 16 bs)"
    using f(1) by (simp add: bs c_def hg_crc32_append)
  show ?thesis
  proof (cases "i < 4")
    case True
    then have "le32_at (bs[i := x]) 0 \<noteq> magic"
      using le32_at_update [of 0 bs i x] len assms(5) g(1) by simp
    with True len show ?thesis by (simp add: hg_blob_unwrap_def HG_BLOB_HDR_LEN_def)
  next
    case False
    have u: "le32_at (bs[i := x]) 0 = magic" "le16_at (bs[i := x]) 6 = of_nat (length payload)"
      using False assms(4) g(1,2) by (simp_all add: le_at_defs)
    have crc: "hg_crc32 0 (take 12 (bs[i := x]) @ drop 16 (bs[i := x])) \<noteq> le32_at (bs[i := x]) 12"
    proof (cases "12 \<le> i \<and> i < 16")
      case True
      then have "take 12 (bs[i := x]) @ drop 16 (bs[i := x]) = take 12 bs @ drop 16 bs" by simp
      with le32_at_update [of 12 bs i x] True len assms(5) g(3) c show ?thesis by simp
    next
      case out: False
      define j where "j = (if i < 12 then i else i - 4)"
      have "take 12 (bs[i := x]) @ drop 16 (bs[i := x]) = (take 12 bs @ drop 16 bs)[j := x]"
        using out len by (auto simp: j_def list_update_append take_update_swap drop_update_swap list_update_beyond)
      moreover have "(take 12 bs @ drop 16 bs) ! j = bs ! i" "j < length (take 12 bs @ drop 16 bs)"
        using out len assms(3) by (auto simp: j_def nth_append)
      moreover have "le32_at (bs[i := x]) 12 = c" using out g(3) by (auto simp: le_at_defs)
      ultimately show ?thesis
        using hg_crc32_one_byte [of j "take 12 bs @ drop 16 bs" x 0] assms(5) c by simp
    qed
    then show ?thesis using False len l u assms(6)
      by (simp add: hg_blob_unwrap_def HG_BLOB_HDR_LEN_def Let_def hg_crc32_append)
  qed
qed

section \<open>The CRC of a changed word\<close>

lemma crc32_round_xor: "crc32_round (a XOR b) = crc32_round a XOR crc32_round b"
proof (rule bit_word_eqI)
  fix n assume n: "n < LENGTH(32)"
  then have n': "n < 32" by simp
  show "bit (crc32_round (a XOR b)) n = bit (crc32_round a XOR crc32_round b) n"
    unfolding bit_xor_iff crc32_round_bit [OF n'] by auto
qed

lemma crc32_rounds_xor: "(crc32_round ^^ n) (a XOR b) = (crc32_round ^^ n) a XOR (crc32_round ^^ n) b"
  by (induction n) (simp_all add: crc32_round_xor)

lemma bit_push_u32: "bit (push_bit k (v :: u32)) n \<longleftrightarrow> k \<le> n \<and> n < 32 \<and> bit v (n - k)"
  by (simp only: bit_push_bit_iff possible_bit_word) auto

lemma crc32_round_push: "\<not> bit v 31 \<Longrightarrow> crc32_round (push_bit 1 v) = v"
proof (rule bit_word_eqI)
  fix n assume n: "n < LENGTH(32)" and v: "\<not> bit v 31"
  from n have n': "n < 32" by simp
  show "bit (crc32_round (push_bit 1 v)) n = bit v n"
    unfolding crc32_round_bit [OF n'] bit_push_u32 using v n' by (cases "n = 31") auto
qed

lemma crc32_rounds_push: "\<forall>i. 32 - n \<le> i \<longrightarrow> \<not> bit v i \<Longrightarrow> n \<le> 32 \<Longrightarrow> (crc32_round ^^ n) (push_bit n v) = v"
proof (induction n arbitrary: v)
  case (Suc n)
  have "(crc32_round ^^ n) (push_bit n (push_bit 1 v)) = push_bit 1 v"
  proof (rule Suc.IH)
    show "\<forall>i. 32 - n \<le> i \<longrightarrow> \<not> bit (push_bit 1 v) i"
      unfolding bit_push_u32 using Suc.prems by auto
  qed (use Suc.prems in simp)
  moreover have "push_bit n (push_bit 1 v) = push_bit (Suc n) v" by (simp only: push_bit_push_bit) simp
  moreover have "crc32_round (push_bit 1 v) = v" by (rule crc32_round_push) (use Suc.prems in simp)
  ultimately show ?case by (simp only: funpow.simps o_apply)
qed simp

text \<open>Four bytes at once: the checksum of a word is the register shifted 32 times over their sum.\<close>

lemma crc32_byte_word:
  assumes "\<forall>i. 24 \<le> i \<longrightarrow> \<not> bit v i"
  shows "(crc32_round ^^ 8) (c XOR (ucast b OR push_bit 8 v)) = crc32_byte c b XOR v"
proof -
  have "ucast b OR push_bit 8 v = ucast b XOR push_bit 8 v"
    by (rule bit_word_eqI) (auto simp only: bit_or_iff bit_xor_iff bit_push_u32 bit_unsigned_iff dest: bit_u8_imp)
  moreover have "(crc32_round ^^ 8) (push_bit 8 v) = v" by (rule crc32_rounds_push) (use assms in simp_all)
  ultimately show ?thesis by (simp only: crc32_byte_def crc32_rounds_xor xor.assoc)
qed

lemma crc32_word: "foldl crc32_byte s (le32_put w) = (crc32_round ^^ 32) (s XOR w)"
proof -
  define a b c d :: u8 where "a = ucast (w AND 0xFF)" and "b = ucast (drop_bit 8 w AND 0xFF)"
    and "c = ucast (drop_bit 16 w AND 0xFF)" and "d = ucast (drop_bit 24 w AND 0xFF)"
  define v3 v2 v1 :: u32 where "v3 = ucast d" and "v2 = ucast c OR push_bit 8 v3"
    and "v1 = ucast b OR push_bit 8 v2"
  have bits: "\<forall>i. 24 \<le> i \<longrightarrow> \<not> bit v1 i" "\<forall>i. 24 \<le> i \<longrightarrow> \<not> bit v2 i" "\<forall>i. 24 \<le> i \<longrightarrow> \<not> bit v3 i"
    unfolding v1_def v2_def v3_def bit_or_iff bit_push_u32 by (auto simp: bit_simps dest!: bit_u8_imp)
  have "w = ucast a OR push_bit 8 v1"
    unfolding v1_def v2_def v3_def a_def b_def c_def d_def
    by (subst le32_round [of w, symmetric]) (simp add: le32_get_def push_bit_or or.assoc)
  moreover have "le32_put w = [a, b, c, d]" by (simp add: le32_put_def a_def b_def c_def d_def)
  moreover have "(crc32_round ^^ 32) x = (crc32_round ^^ 8) ((crc32_round ^^ 8) ((crc32_round ^^ 8) ((crc32_round ^^ 8) x)))" for x
  proof -
    have "(crc32_round ^^ 32) x = (crc32_round ^^ (8 + (8 + (8 + 8)))) x" by simp
    then show ?thesis by (simp only: funpow_add o_apply)
  qed
  ultimately show ?thesis
    using crc32_byte_word [OF bits(1), of s a] crc32_byte_word [OF bits(2), of "crc32_byte s a" b]
      crc32_byte_word [OF bits(3), of "crc32_byte (crc32_byte s a) b" c]
    by (simp add: v1_def v2_def v3_def) (simp add: crc32_byte_def)
qed

lemma hg_crc32_first_word: "hg_crc32 s (le32_put w @ xs) = hg_crc32 s (le32_put v @ xs) \<longleftrightarrow> w = v"
proof
  assume "hg_crc32 s (le32_put w @ xs) = hg_crc32 s (le32_put v @ xs)"
  then have "foldl crc32_byte (NOT s) (le32_put w) = foldl crc32_byte (NOT s) (le32_put v)"
    by (auto simp: hg_crc32_def dest: crc32_foldl_inj)
  then have "NOT s XOR w = NOT s XOR v"
    unfolding crc32_word using funpow_inj [of crc32_round 32] crc32_round_inj by blast
  then show "w = v" by (simp add: word_xor_left_cancel)
qed simp

section \<open>Properties\<close>

text \<open>A wrapped payload is unwrapped to the same payload (zero-padded to the reader's size) and generation by any reader whose version range admits it, also with bytes behind it.\<close>

lemma blob_read_back:
  assumes "hg_blob_wrap magic ver gen payload cap = Some bs" "length payload \<le> pcap"
    "length payload < 65536" "min_compat \<le> ver" "ver \<le> cur_ver"
  shows "hg_blob_unwrap magic cur_ver min_compat (bs @ xs) pcap =
    (if ver < cur_ver \<or> length payload < pcap then HG_BLOB_MIGRATED else HG_BLOB_OK,
     Some (payload @ replicate (pcap - length payload) 0, gen))"
  using assms by (rule blob_round_trip)

lemma blob_read_back_witness:
  \<open>hg_blob_unwrap 7 2 1 (the (hg_blob_wrap 7 1 9 [4, 5] 64) @ [0]) 4 =
     (HG_BLOB_MIGRATED, Some ([4, 5, 0, 0], 9))\<close>
proof -
  have "hg_blob_wrap 7 1 9 [4, 5] 64 = Some (the (hg_blob_wrap 7 1 9 [4, 5] 64))"
    by (simp add: hg_blob_wrap_def HG_BLOB_HDR_LEN_def Let_def)
  from blob_read_back [OF this, of 4 1 2 "[0]"] show ?thesis by (simp add: numeral_2_eq_2)
qed

text \<open>C39. Changing any single byte of a stored blob, outside its two length bytes, makes the reader refuse it: with a magic error in the first four bytes and a checksum error everywhere else, version, generation, checksum and payload alike.\<close>

lemma blob_corruption_refused:
  assumes "hg_blob_wrap magic ver gen payload cap = Some bs" "length payload < 65536"
    "i < length bs" "i \<notin> {6, 7}" "x \<noteq> bs ! i" "length payload \<le> pcap"
  shows "fst (hg_blob_unwrap magic cur_ver min_compat (bs[i := x]) pcap) =
    (if i < 4 then HG_BLOB_E_MAGIC else HG_BLOB_E_CRC)"
  using assms by (rule blob_detects_one_byte)

lemma blob_corruption_refused_witness:
  \<open>fst (hg_blob_unwrap 7 1 1 ((the (hg_blob_wrap 7 1 9 [4, 5] 64))[16 := 5]) 4) = HG_BLOB_E_CRC\<close>
proof -
  let ?b = "the (hg_blob_wrap 7 1 9 [4, 5] 64)"
  have w: "hg_blob_wrap 7 1 9 [4, 5] 64 = Some ?b"
    by (simp add: hg_blob_wrap_def HG_BLOB_HDR_LEN_def Let_def)
  have "length ?b = 18" "?b ! 16 = 4"
    by (simp_all add: hg_blob_wrap_def HG_BLOB_HDR_LEN_def Let_def le_put_defs)
  then show ?thesis using blob_corruption_refused [OF w, of 16 5 4 1 1] by simp
qed

end
