(* ===== verification/Zone_Table.thy ===== *)
theory Zone_Table
  imports HG_Blob Ring_Proto
begin

text \<open>
  \<^verbatim>\<open>components/node_store/ztab.c\<close>: the master's table of the at most eight zones, the
  decision of an enrolment, and its flash image. The abstract view of a table is a map from
  MAC addresses to ids; the main results are that the table always stays a partial injection
  with ids 1 to 8, that an enrolment acts on the map as its decision table says, and that
  the image of a table is read back.
\<close>

definition HG_MAGIC_ZTAB :: u32 where "HG_MAGIC_ZTAB = 0x545A4748"
definition ZTAB_F_ASSIGNED :: u8 where "ZTAB_F_ASSIGNED = 0x01"
definition ZTAB_F_UNCONFIGURED :: u8 where "ZTAB_F_UNCONFIGURED = 0x02"

record ztab_ent =
  ze_mac :: "u8 list"
  ze_id :: u8
  ze_flags :: u8
  ze_name :: "u8 list"

type_synonym ztab = "ztab_ent list"

definition ztab_ent_zero :: ztab_ent where
  "ztab_ent_zero = \<lparr>ze_mac = replicate 6 0, ze_id = 0, ze_flags = 0, ze_name = replicate 16 0\<rparr>"

definition ztab_empty :: ztab where
  "ztab_empty = replicate HG_MAX_ZONES ztab_ent_zero"

definition ztab_find_mac :: "ztab \<Rightarrow> u8 list \<Rightarrow> nat option" where
  "ztab_find_mac t mac = first_idx (\<lambda>e. ze_mac e = mac) t"

definition ztab_find_id :: "ztab \<Rightarrow> u8 \<Rightarrow> nat option" where
  "ztab_find_id t i = (if i = 0 then None else first_idx (\<lambda>e. ze_id e = i) t)"

definition ztab_place :: "ztab \<Rightarrow> u8 list \<Rightarrow> u8 \<Rightarrow> ztab option" where
  "ztab_place t mac i =
     map_option (\<lambda>k. t[k := \<lparr>ze_mac = mac, ze_id = i,
         ze_flags = ZTAB_F_ASSIGNED OR ZTAB_F_UNCONFIGURED, ze_name = replicate 16 0\<rparr>])
       (first_idx (\<lambda>e. ze_id e = 0) t)"

text \<open>
  An assignment returns the table and the id, \<open>None\<close> for -1. The ids are tried in the order
  of the C loop.
\<close>

definition ztab_assign :: "ztab \<Rightarrow> u8 list \<Rightarrow> ztab \<times> u8 option" where
  "ztab_assign t mac =
     (case ztab_find_mac t mac of
        Some slot \<Rightarrow> (t, Some (ze_id (t ! slot)))
      | None \<Rightarrow>
          case List.find (\<lambda>i. ztab_find_id t i = None) [1, 2, 3, 4, 5, 6, 7, 8] of
            None \<Rightarrow> (t, None)
          | Some i \<Rightarrow>
              case ztab_place t mac i of None \<Rightarrow> (t, None) | Some t' \<Rightarrow> (t', Some i))"

definition ztab_set_name :: "ztab \<Rightarrow> u8 \<Rightarrow> u8 list \<Rightarrow> ztab option" where
  "ztab_set_name t i name =
     (case ztab_find_id t i of
        None \<Rightarrow> None
      | Some slot \<Rightarrow>
          if length name > 15 then None
          else Some (t[slot := (t ! slot)\<lparr>ze_name := name @ replicate (16 - length name) 0\<rparr>]))"

definition ztab_clear :: "ztab \<Rightarrow> u8 \<Rightarrow> ztab option" where
  "ztab_clear t i = map_option (\<lambda>slot. t[slot := ztab_ent_zero]) (ztab_find_id t i)"

datatype ztab_en = ZTAB_EN_KNOWN | ZTAB_EN_ASSIGNED | ZTAB_EN_CONFLICT | ZTAB_EN_STALE
  | ZTAB_EN_FULL

text \<open>The verdict with the id the C writes through \<open>out_id\<close>, where it writes one.\<close>

definition ztab_enrol :: "ztab \<Rightarrow> u8 list \<Rightarrow> u8 \<Rightarrow> ztab \<times> ztab_en \<times> u8 option" where
  "ztab_enrol t mac claimed_id =
     (case ztab_find_mac t mac of
        Some slot \<Rightarrow>
          let assigned_id = ze_id (t ! slot)
          in (t, if claimed_id = assigned_id then ZTAB_EN_KNOWN else ZTAB_EN_STALE,
              Some assigned_id)
      | None \<Rightarrow>
          if claimed_id \<ge> 1 \<and> unat claimed_id \<le> HG_MAX_ZONES then
            case ztab_find_id t claimed_id of
              Some _ \<Rightarrow> (t, ZTAB_EN_CONFLICT, Some claimed_id)
            | None \<Rightarrow>
                (case ztab_place t mac claimed_id of
                   None \<Rightarrow> (t, ZTAB_EN_FULL, None)
                 | Some t' \<Rightarrow> (t', ZTAB_EN_ASSIGNED, Some claimed_id))
          else
            case ztab_assign t mac of
              (t', None) \<Rightarrow> (t', ZTAB_EN_FULL, None)
            | (t', Some i) \<Rightarrow> (t', ZTAB_EN_ASSIGNED, Some i))"

section \<open>The flash image\<close>

definition ztab_ent_bytes :: "ztab_ent \<Rightarrow> u8 list" where
  "ztab_ent_bytes e = ze_mac e @ [ze_id e, ze_flags e] @ ze_name e"

definition ztab_ent_of_bytes :: "u8 list \<Rightarrow> ztab_ent" where
  "ztab_ent_of_bytes b = \<lparr>ze_mac = take 6 b, ze_id = b ! 6, ze_flags = b ! 7,
     ze_name = take 16 (drop 8 b)\<rparr>"

definition ztab_pack :: "ztab \<Rightarrow> u32 \<Rightarrow> nat \<Rightarrow> u8 list option" where
  "ztab_pack t gen cap =
     (if cap < HG_BLOB_HDR_LEN + 192 then None
      else hg_blob_wrap HG_MAGIC_ZTAB 1 gen (concat (map ztab_ent_bytes t)) cap)"

definition ztab_unpack :: "u8 list \<Rightarrow> (ztab \<times> u32) option" where
  "ztab_unpack inp =
     (if length inp < HG_BLOB_HDR_LEN then None
      else
        case hg_blob_unwrap HG_MAGIC_ZTAB 1 1 inp 192 of
          (_, None) \<Rightarrow> None
        | (rc, Some (p, gen)) \<Rightarrow>
            if rc \<noteq> HG_BLOB_OK \<and> rc \<noteq> HG_BLOB_MIGRATED then None
            else Some (map (\<lambda>i. ztab_ent_of_bytes (drop (i * 24) p)) [0 ..< HG_MAX_ZONES], gen))"

section \<open>The invariant\<close>

text \<open>
  Eight rows of the declared layout; the ids in use are 1 to 8 and distinct, and so are the MACs
  in use; an unused row has the zero MAC and no used row has it.
\<close>

definition ztab_ent_ok :: "ztab_ent \<Rightarrow> bool" where
  "ztab_ent_ok e \<longleftrightarrow> length (ze_mac e) = 6 \<and> length (ze_name e) = 16 \<and> ze_id e \<le> 8 \<and>
     (ze_id e = 0) = (ze_mac e = replicate 6 0)"

definition ztab_ok :: "ztab \<Rightarrow> bool" where
  "ztab_ok t \<longleftrightarrow> length t = HG_MAX_ZONES \<and> (\<forall>i < length t. ztab_ent_ok (t ! i)) \<and>
     (\<forall>i < length t. \<forall>j < length t. i \<noteq> j \<longrightarrow> ze_id (t ! i) \<noteq> 0 \<longrightarrow>
        ze_id (t ! i) \<noteq> ze_id (t ! j) \<and> ze_mac (t ! i) \<noteq> ze_mac (t ! j))"

text \<open>A MAC a zone can have.\<close>

definition zone_mac :: "u8 list \<Rightarrow> bool" where
  "zone_mac mac \<longleftrightarrow> length mac = 6 \<and> mac \<noteq> replicate 6 0"

text \<open>The abstract view.\<close>

definition ztab_map :: "ztab \<Rightarrow> u8 list \<Rightarrow> u8 option" where
  "ztab_map t mac =
     map_option ze_id (List.find (\<lambda>e. ze_id e \<noteq> 0 \<and> ze_mac e = mac) t)"

lemma ztab_row_unique:
  "ztab_ok t \<Longrightarrow> i < length t \<Longrightarrow> j < length t \<Longrightarrow> ze_id (t ! i) \<noteq> 0 \<Longrightarrow>
     ze_id (t ! i) = ze_id (t ! j) \<or> ze_mac (t ! i) = ze_mac (t ! j) \<Longrightarrow> i = j"
  unfolding ztab_ok_def by blast

lemma ztab_map_Some:
  assumes "ztab_ok t"
  shows "ztab_map t mac = Some i \<longleftrightarrow>
    (\<exists>k < length t. ze_mac (t ! k) = mac \<and> ze_id (t ! k) = i \<and> i \<noteq> 0)"
proof -
  have "ztab_map t mac = Some i \<longleftrightarrow>
     (\<exists>k < length t. ze_id (t ! k) \<noteq> 0 \<and> ze_mac (t ! k) = mac \<and> ze_id (t ! k) = i \<and>
        (\<forall>j < k. \<not> (ze_id (t ! j) \<noteq> 0 \<and> ze_mac (t ! j) = mac)))"
    by (auto simp: ztab_map_def find_Some_iff)
  also have "\<dots> \<longleftrightarrow> (\<exists>k < length t. ze_mac (t ! k) = mac \<and> ze_id (t ! k) = i \<and> i \<noteq> 0)"
  proof -
    have "\<not> (ze_id (t ! j) \<noteq> 0 \<and> ze_mac (t ! j) = mac)"
      if "k < length t" "ze_mac (t ! k) = mac" "j < k" for j k
      using ztab_row_unique [OF assms, of j k] that by auto
    then show ?thesis by blast
  qed
  finally show ?thesis .
qed

lemma ztab_map_None:
  "ztab_ok t \<Longrightarrow> ztab_map t mac = None \<longleftrightarrow> (\<forall>k < length t. ze_mac (t ! k) = mac \<longrightarrow> ze_id (t ! k) = 0)"
  using ztab_map_Some [of t mac] by (metis not_None_eq)

lemma ztab_map_inj:
  assumes "ztab_ok t" "ztab_map t a = Some i" "ztab_map t b = Some i"
  shows "a = b"
  using assms(2,3) ztab_row_unique [OF assms(1)] unfolding ztab_map_Some [OF assms(1)] by metis

lemma ran_ztab_map:
  assumes "ztab_ok t"
  shows "i \<in> ran (ztab_map t) \<longleftrightarrow> i \<noteq> 0 \<and> (\<exists>k < length t. ze_id (t ! k) = i)"
  using ztab_map_Some [OF assms] by (auto simp: ran_def)

lemma ran_ztab_map_bound: "ztab_ok t \<Longrightarrow> i \<in> ran (ztab_map t) \<Longrightarrow> 1 \<le> unat i \<and> unat i \<le> 8"
  by (auto simp: ran_ztab_map ztab_ok_def ztab_ent_ok_def word_le_nat_alt unat_gt_0 Suc_le_eq)

text \<open>The two searches in terms of the abstract map.\<close>

lemma ztab_find_id_map:
  assumes "ztab_ok t"
  shows "ztab_find_id t i = None \<longleftrightarrow> i \<notin> ran (ztab_map t)"
  using ran_ztab_map [OF assms, of i]
  by (auto simp: ztab_find_id_def first_idx_None_nth)

lemma ztab_find_id_Some:
  "ztab_find_id t i = Some k \<Longrightarrow> k < length t \<and> ze_id (t ! k) = i \<and> i \<noteq> 0"
  by (auto simp: ztab_find_id_def dest: first_idx_Some split: if_splits)

lemma ztab_find_mac_map:
  assumes "ztab_ok t" "zone_mac mac"
  shows "map_option (\<lambda>k. ze_id (t ! k)) (ztab_find_mac t mac) = ztab_map t mac"
proof (cases "ztab_find_mac t mac")
  case None
  then have "\<forall>k < length t. ze_mac (t ! k) \<noteq> mac"
    by (simp add: ztab_find_mac_def first_idx_None_nth)
  then have "ztab_map t mac = None" by (simp add: ztab_map_None [OF assms(1)])
  then show ?thesis using None by simp
next
  case (Some k)
  then have k: "k < length t" "ze_mac (t ! k) = mac"
    unfolding ztab_find_mac_def by (auto dest: first_idx_Some)
  then have "ze_id (t ! k) \<noteq> 0"
    using assms by (auto simp: ztab_ok_def ztab_ent_ok_def zone_mac_def)
  then have "ztab_map t mac = Some (ze_id (t ! k))" using k by (auto simp: ztab_map_Some [OF assms(1)])
  then show ?thesis using Some by simp
qed

section \<open>Updates of one row\<close>

lemma ztab_ok_put:
  assumes "ztab_ok t" "k < length t" "ztab_ent_ok e"
    "\<forall>j < length t. j \<noteq> k \<longrightarrow> ze_id e \<noteq> 0 \<longrightarrow> ze_id (t ! j) \<noteq> ze_id e \<and> ze_mac (t ! j) \<noteq> ze_mac e"
  shows "ztab_ok (t[k := e])"
proof -
  have "ze_id (t ! i) \<noteq> ze_id e \<and> ze_mac (t ! i) \<noteq> ze_mac e"
    if "i < length t" "i \<noteq> k" "ze_id (t ! i) \<noteq> 0" for i
  proof (cases "ze_id e = 0")
    case True
    then have "ze_mac e = replicate 6 0" using assms(3) by (simp add: ztab_ent_ok_def)
    moreover have "ze_mac (t ! i) \<noteq> replicate 6 0"
      using assms(1) that by (auto simp: ztab_ok_def ztab_ent_ok_def)
    ultimately show ?thesis using True that by simp
  qed (use assms(4) that in blast)
  then show ?thesis using assms by (auto simp: ztab_ok_def nth_list_update)
qed

lemma ztab_map_put:
  assumes "ztab_ok t" "k < length t" "ztab_ok (t[k := e])" "ze_id (t ! k) = 0" "ze_id e \<noteq> 0"
  shows "ztab_map (t[k := e]) = (ztab_map t)(ze_mac e \<mapsto> ze_id e)"
proof (rule ext)
  fix mac
  show "ztab_map (t[k := e]) mac = ((ztab_map t)(ze_mac e \<mapsto> ze_id e)) mac"
  proof (cases "mac = ze_mac e")
    case True
    have "ztab_map (t[k := e]) (ze_mac e) = Some (ze_id e)"
      using assms(2,5) by (auto simp: ztab_map_Some [OF assms(3)] nth_list_update)
    with True show ?thesis by simp
  next
    case False
    have "ztab_map (t[k := e]) mac = Some i \<longleftrightarrow> ztab_map t mac = Some i" for i
      using False assms(2,4)
      by (auto simp: ztab_map_Some [OF assms(3)] ztab_map_Some [OF assms(1)] nth_list_update)
    with False show ?thesis by (metis fun_upd_other not_None_eq)
  qed
qed

lemma ztab_map_clear:
  assumes "ztab_ok t" "k < length t" "ztab_ok (t[k := e])" "ze_id e = 0"
    "ze_id (t ! k) \<noteq> 0"
  shows "ztab_map (t[k := e]) = (ztab_map t)(ze_mac (t ! k) := None)"
proof (rule ext)
  fix mac
  have "ztab_map (t[k := e]) mac = Some i \<longleftrightarrow>
      mac \<noteq> ze_mac (t ! k) \<and> ztab_map t mac = Some i" for i
    using assms
    by (auto simp: ztab_map_Some [OF assms(3)] ztab_map_Some [OF assms(1)] nth_list_update ztab_ok_def)
  then show "ztab_map (t[k := e]) mac = ((ztab_map t)(ze_mac (t ! k) := None)) mac"
    by (metis fun_upd_apply not_None_eq)
qed

text \<open>A free id means a free row: eight rows cannot hold eight ids other than a ninth.\<close>

lemma free_row:
  assumes "ztab_ok t" "i \<notin> ran (ztab_map t)" "1 \<le> unat i" "unat i \<le> 8"
  obtains k where "k < length t" "ze_id (t ! k) = 0"
    "first_idx (\<lambda>e. ze_id e = 0) t = Some k"
proof (cases "first_idx (\<lambda>e. ze_id e = 0) t")
  case None
  then have full: "ze_id (t ! k) \<noteq> 0" if "k < length t" for k
    using that by (auto simp: first_idx_None)
  have len: "length t = 8" using assms(1) by (simp add: ztab_ok_def HG_MAX_ZONES_def)
  let ?f = "\<lambda>k. unat (ze_id (t ! k))"
  have inj: "inj_on ?f {..< 8}"
    using ztab_row_unique [OF assms(1)] full
    by (auto simp: inj_on_def len simp flip: word_unat_eq_iff)
  have sub: "?f ` {..< 8} \<subseteq> {1 .. 8}"
    using assms(1) full by (auto simp: ztab_ok_def ztab_ent_ok_def len word_le_nat_alt unat_gt_0 Suc_le_eq)
  have "card (?f ` {..< 8}) = card {1 :: nat .. 8}" using card_image [OF inj] by simp
  then have "?f ` {..< 8} = {1 .. 8}" using sub by (intro card_subset_eq) auto
  then have "unat i \<in> ?f ` {..< 8}" using assms(3,4) by simp
  then obtain k where "k < length t" "ze_id (t ! k) = i"
    by (auto simp: len simp flip: word_unat_eq_iff)
  moreover have "i \<noteq> 0" using assms(3) by auto
  ultimately have "i \<in> ran (ztab_map t)" unfolding ran_ztab_map [OF assms(1)] by blast
  with assms(2) show ?thesis by simp
next
  case (Some k)
  with first_idx_Some [OF Some] that show ?thesis by blast
qed

section \<open>The operations against the map\<close>

lemma ztab_place_map:
  assumes ok: "ztab_ok t" and mac: "zone_mac mac" "ztab_map t mac = None"
    and i: "i \<notin> ran (ztab_map t)" "1 \<le> unat i" "unat i \<le> 8"
  shows "\<exists>t'. ztab_place t mac i = Some t' \<and> ztab_ok t' \<and> ztab_map t' = (ztab_map t)(mac \<mapsto> i)"
proof -
  from free_row [OF ok i] obtain k where k: "k < length t" "ze_id (t ! k) = 0"
    "first_idx (\<lambda>e. ze_id e = 0) t = Some k" by blast
  define e where "e = \<lparr>ze_mac = mac, ze_id = i,
         ze_flags = ZTAB_F_ASSIGNED OR ZTAB_F_UNCONFIGURED, ze_name = replicate 16 0\<rparr>"
  have i0: "i \<noteq> 0" using i(2) by auto
  have put: "ztab_ok (t[k := e])"
  proof (rule ztab_ok_put [OF ok k(1)])
    show "ztab_ent_ok e" using mac(1) i(3) i0
      by (simp add: e_def ztab_ent_ok_def zone_mac_def word_le_nat_alt)
    show "\<forall>j < length t. j \<noteq> k \<longrightarrow> ze_id e \<noteq> 0 \<longrightarrow> ze_id (t ! j) \<noteq> ze_id e \<and> ze_mac (t ! j) \<noteq> ze_mac e"
    proof (intro allI impI conjI)
      fix j assume j: "j < length t"
      show "ze_id (t ! j) \<noteq> ze_id e" using i(1) i0 j by (auto simp: e_def ran_ztab_map [OF ok])
      have "ztab_ent_ok (t ! j)" using ok j by (simp add: ztab_ok_def)
      then show "ze_mac (t ! j) \<noteq> ze_mac e"
        using mac j ztab_map_None [OF ok, of mac] by (auto simp: e_def ztab_ent_ok_def zone_mac_def)
    qed
  qed
  moreover have "ztab_place t mac i = Some (t[k := e])" by (simp add: ztab_place_def k e_def)
  moreover have "ztab_map (t[k := e]) = (ztab_map t)(mac \<mapsto> i)"
    using ztab_map_put [OF ok k(1) put k(2)] i0 by (simp add: e_def)
  ultimately show ?thesis by blast
qed

text \<open>What the decision table promises, on the map alone.\<close>

definition enrol_spec ::
  "(u8 list \<Rightarrow> u8 option) \<Rightarrow> u8 list \<Rightarrow> u8 \<Rightarrow> (u8 list \<Rightarrow> u8 option) \<times> ztab_en \<times> u8 option" where
  "enrol_spec m mac claimed =
     (case m mac of
        Some i \<Rightarrow> (m, if claimed = i then ZTAB_EN_KNOWN else ZTAB_EN_STALE, Some i)
      | None \<Rightarrow>
          if 1 \<le> claimed \<and> claimed \<le> 8 then
            if claimed \<in> ran m then (m, ZTAB_EN_CONFLICT, Some claimed)
            else (m(mac \<mapsto> claimed), ZTAB_EN_ASSIGNED, Some claimed)
          else
            case List.find (\<lambda>i. i \<notin> ran m) [1, 2, 3, 4, 5, 6, 7, 8] of
              None \<Rightarrow> (m, ZTAB_EN_FULL, None)
            | Some i \<Rightarrow> (m(mac \<mapsto> i), ZTAB_EN_ASSIGNED, Some i))"

lemma find_free_id:
  assumes "List.find P [1, 2, 3, 4, 5, 6, 7, 8 :: u8] = Some i"
  shows "P i" "1 \<le> unat i" "unat i \<le> 8"
proof -
  have "i \<in> set [1, 2, 3, 4, 5, 6, 7, 8 :: u8]" "P i"
    using assms by (metis find_Some_iff nth_mem)+
  then show "P i" "1 \<le> unat i" "unat i \<le> 8" by auto
qed

lemma ztab_assign_map:
  assumes ok: "ztab_ok t" and mac: "zone_mac mac" "ztab_map t mac = None"
  shows "case ztab_assign t mac of (t', r) \<Rightarrow>
    ztab_ok t' \<and> (case List.find (\<lambda>i. i \<notin> ran (ztab_map t)) [1, 2, 3, 4, 5, 6, 7, 8] of
      None \<Rightarrow> t' = t \<and> r = None
    | Some i \<Rightarrow> ztab_map t' = (ztab_map t)(mac \<mapsto> i) \<and> r = Some i)"
proof -
  have "ztab_find_mac t mac = None" using ztab_find_mac_map [OF ok mac(1)] mac(2) by simp
  moreover have "(\<lambda>i. ztab_find_id t i = None) = (\<lambda>i. i \<notin> ran (ztab_map t))"
    by (simp add: ztab_find_id_map [OF ok])
  ultimately have *: "ztab_assign t mac =
     (case List.find (\<lambda>i. i \<notin> ran (ztab_map t)) [1, 2, 3, 4, 5, 6, 7, 8] of
            None \<Rightarrow> (t, None)
          | Some i \<Rightarrow>
              case ztab_place t mac i of None \<Rightarrow> (t, None) | Some t' \<Rightarrow> (t', Some i))"
    by (simp add: ztab_assign_def)
  show ?thesis
  proof (cases "List.find (\<lambda>i. i \<notin> ran (ztab_map t)) [1, 2, 3, 4, 5, 6, 7, 8 :: u8]")
    case None
    show ?thesis using ok unfolding * None by simp
  next
    case (Some i)
    with ztab_place_map [OF ok mac find_free_id [OF Some]] * show ?thesis by auto
  qed
qed

lemma ztab_enrol_refines:
  assumes "ztab_ok t" "zone_mac mac" "ztab_enrol t mac claimed = (t', v, r)"
  shows "ztab_ok t'" "enrol_spec (ztab_map t) mac claimed = (ztab_map t', v, r)"
proof -
  have "ztab_ok t' \<and> enrol_spec (ztab_map t) mac claimed = (ztab_map t', v, r)"
  proof (cases "ztab_find_mac t mac")
    case (Some k)
    then have m: "ztab_map t mac = Some (ze_id (t ! k))"
      using ztab_find_mac_map [OF assms(1,2)] by simp
    from assms(3) have "t' = t" "r = Some (ze_id (t ! k))"
      "v = (if claimed = ze_id (t ! k) then ZTAB_EN_KNOWN else ZTAB_EN_STALE)"
      by (auto simp: ztab_enrol_def Some Let_def)
    then show ?thesis using assms(1) by (simp add: enrol_spec_def m)
  next
    case None
    with ztab_find_mac_map [OF assms(1,2)] have m: "ztab_map t mac = None" by simp
    show ?thesis
    proof (cases "1 \<le> claimed \<and> claimed \<le> 8")
      case True
      then have c: "1 \<le> unat claimed" "unat claimed \<le> 8" by (simp_all add: word_le_nat_alt)
      show ?thesis
      proof (cases "claimed \<in> ran (ztab_map t)")
        case r: True
        then obtain k where "ztab_find_id t claimed = Some k"
          using ztab_find_id_map [OF assms(1)] by fastforce
        with r True None m c assms(1,3) show ?thesis
          by (auto simp: ztab_enrol_def enrol_spec_def HG_MAX_ZONES_def)
      next
        case r: False
        then have "ztab_find_id t claimed = None" using ztab_find_id_map [OF assms(1)] by simp
        with r True None m c assms(3) ztab_place_map [OF assms(1,2) m r c] show ?thesis
          by (auto simp: ztab_enrol_def enrol_spec_def HG_MAX_ZONES_def)
      qed
    next
      case False
      then have "\<not> (1 \<le> claimed \<and> unat claimed \<le> HG_MAX_ZONES)"
        by (simp add: HG_MAX_ZONES_def word_le_nat_alt)
      then have e: "ztab_enrol t mac claimed = (case ztab_assign t mac of
              (t', None) \<Rightarrow> (t', ZTAB_EN_FULL, None)
            | (t', Some i) \<Rightarrow> (t', ZTAB_EN_ASSIGNED, Some i))"
        by (simp only: ztab_enrol_def None option.case if_False)
      show ?thesis
      proof (cases "List.find (\<lambda>i. i \<notin> ran (ztab_map t)) [1, 2, 3, 4, 5, 6, 7, 8 :: u8]")
        case f: None
        with ztab_assign_map [OF assms(1,2) m] e assms(3) m False show ?thesis
          by (simp only: enrol_spec_def option.case split: prod.splits) auto
      next
        case f: (Some i)
        with ztab_assign_map [OF assms(1,2) m] e assms(3) m False show ?thesis
          by (simp only: enrol_spec_def option.case split: prod.splits) auto
      qed
    qed
  qed
  then show "ztab_ok t'" "enrol_spec (ztab_map t) mac claimed = (ztab_map t', v, r)" by simp_all
qed

lemma ztab_ok_name:
  assumes "ztab_ok t" "ztab_set_name t i name = Some t'"
  shows "ztab_ok t'" "ztab_map t' = ztab_map t"
proof -
  from assms(2) obtain k where k: "ztab_find_id t i = Some k" "length name \<le> 15"
    and t': "t' = t[k := (t ! k)\<lparr>ze_name := name @ replicate (16 - length name) 0\<rparr>]"
    by (auto simp: ztab_set_name_def split: option.splits if_splits)
  let ?e = "(t ! k)\<lparr>ze_name := name @ replicate (16 - length name) 0\<rparr>"
  note f = ztab_find_id_Some [OF k(1)]
  show ok': "ztab_ok t'" unfolding t'
  proof (rule ztab_ok_put [OF assms(1)])
    show "k < length t" using f by simp
    have "ztab_ent_ok (t ! k)" using assms(1) f by (simp add: ztab_ok_def)
    then show "ztab_ent_ok ?e" using k(2) by (simp add: ztab_ent_ok_def)
    show "\<forall>j < length t. j \<noteq> k \<longrightarrow> ze_id ?e \<noteq> 0 \<longrightarrow> ze_id (t ! j) \<noteq> ze_id ?e \<and> ze_mac (t ! j) \<noteq> ze_mac ?e"
      using ztab_row_unique [OF assms(1), of k] f by auto metis+
  qed
  have "ztab_map t' mac = Some j \<longleftrightarrow> ztab_map t mac = Some j" for mac j
    using f by (auto simp: ztab_map_Some [OF ok'] ztab_map_Some [OF assms(1)])
      (auto simp: t' nth_list_update)
  then show "ztab_map t' = ztab_map t" by (metis not_None_eq ext)
qed

lemma ztab_ok_clear:
  assumes "ztab_ok t" "ztab_clear t i = Some t'"
  shows "ztab_ok t'" "i \<notin> ran (ztab_map t')" "\<exists>mac. ztab_map t mac = Some i \<and> ztab_map t' = (ztab_map t)(mac := None)"
proof -
  from assms(2) obtain k where k: "ztab_find_id t i = Some k" and t': "t' = t[k := ztab_ent_zero]"
    by (auto simp: ztab_clear_def)
  note f = ztab_find_id_Some [OF k(1)]
  show ok': "ztab_ok t'" unfolding t'
    using f by (intro ztab_ok_put [OF assms(1)]) (auto simp: ztab_ent_zero_def ztab_ent_ok_def)
  have m: "ztab_map t (ze_mac (t ! k)) = Some i" using f by (auto simp: ztab_map_Some [OF assms(1)])
  have m': "ztab_map t' = (ztab_map t)(ze_mac (t ! k) := None)"
    using ztab_map_clear [OF assms(1) conjunct1 [OF f] ok' [unfolded t']] f
    by (simp add: t' ztab_ent_zero_def)
  show "\<exists>mac. ztab_map t mac = Some i \<and> ztab_map t' = (ztab_map t)(mac := None)"
    using m m' by blast
  show "i \<notin> ran (ztab_map t')"
    using ztab_map_inj [OF assms(1) m] by (auto simp: ran_def m' split: if_splits)
qed

section \<open>The table as a machine\<close>

datatype ztab_op = Enrol "u8 list" u8 | SetName u8 "u8 list" | Clear u8

datatype ztab_res = ZEnrol ztab_en "u8 option" | ZOk | ZErr

fun ztab_step :: "ztab \<Rightarrow> ztab_op \<Rightarrow> ztab \<times> ztab_res" where
  "ztab_step t (Enrol mac c) = (case ztab_enrol t mac c of (t', v, r) \<Rightarrow> (t', ZEnrol v r))"
| "ztab_step t (SetName i name) =
     (case ztab_set_name t i name of None \<Rightarrow> (t, ZErr) | Some t' \<Rightarrow> (t', ZOk))"
| "ztab_step t (Clear i) = (case ztab_clear t i of None \<Rightarrow> (t, ZErr) | Some t' \<Rightarrow> (t', ZOk))"

text \<open>The caller never enrols the zero MAC.\<close>

fun ztab_op_ok :: "ztab_op \<Rightarrow> bool" where
  "ztab_op_ok (Enrol mac c) = zone_mac mac"
| "ztab_op_ok _ = True"

lemma ztab_ok_step: "ztab_ok t \<Longrightarrow> ztab_op_ok x \<Longrightarrow> ztab_ok (fst (ztab_step t x))"
  by (cases x)
    (auto split: prod.split option.split dest: ztab_enrol_refines(1) ztab_ok_name(1) ztab_ok_clear(1))

interpretation ztab: guarded_invariant ztab_step ztab_ok ztab_op_ok
  by unfold_locales (rule ztab_ok_step)

lemma ztab_ok_empty: "ztab_ok ztab_empty"
  by (auto simp: ztab_ok_def ztab_empty_def ztab_ent_zero_def ztab_ent_ok_def)

lemma ztab_map_empty: "ztab_map ztab_empty = Map.empty"
proof (rule ext)
  fix mac
  have "\<forall>k < length ztab_empty. ze_id (ztab_empty ! k) = 0"
    by (auto simp: ztab_empty_def ztab_ent_zero_def)
  then show "ztab_map ztab_empty mac = None" by (simp add: ztab_map_None [OF ztab_ok_empty])
qed

text \<open>
  The zero MAC is what an empty row holds, so the search finds it: a zone that reported it
  would be told that it already has the id 0.
\<close>

lemma ztab_enrol_zero_mac:
  assumes "ztab_ok t" "first_idx (\<lambda>e. ze_id e = 0) t = Some k"
  shows "ztab_assign t (replicate 6 0) = (t, Some 0)"
proof -
  have z: "(ze_mac (t ! j) = replicate 6 0) = (ze_id (t ! j) = 0)" if "j < length t" for j
    using assms(1) that by (simp add: ztab_ok_def ztab_ent_ok_def)
  note f = first_idx_Some [OF assms(2)]
  obtain m where m: "ztab_find_mac t (replicate 6 0) = Some m"
  proof (cases "ztab_find_mac t (replicate 6 0)")
    case None
    then have "ze_mac (t ! k) \<noteq> replicate 6 0"
      using f unfolding ztab_find_mac_def first_idx_None_nth by blast
    with f z show ?thesis by simp
  qed
  with first_idx_Some have "m < length t" "ze_mac (t ! m) = replicate 6 0"
    unfolding ztab_find_mac_def by blast+
  then show ?thesis using z m by (simp add: ztab_assign_def)
qed

section \<open>The image is read back\<close>

lemma ztab_ent_bytes_round:
  "ztab_ent_ok e \<Longrightarrow> ztab_ent_of_bytes (ztab_ent_bytes e @ xs) = e"
  by (simp add: ztab_ent_ok_def ztab_ent_of_bytes_def ztab_ent_bytes_def nth_append)

lemma ztab_pack_unpack:
  assumes "ztab_ok t" "ztab_pack t gen cap = Some bs"
  shows "ztab_unpack (bs @ xs) = Some (t, gen)"
proof -
  let ?p = "concat (map ztab_ent_bytes t)"
  have len: "length t = 8" using assms(1) by (simp add: ztab_ok_def HG_MAX_ZONES_def)
  have rec: "\<forall>e \<in> set t. length (ztab_ent_bytes e) = 24"
    using assms(1) by (auto simp: ztab_ok_def ztab_ent_ok_def ztab_ent_bytes_def in_set_conv_nth)
  have pl: "length ?p = 192" using length_concat_records [OF rec] by (simp add: len)
  have w: "hg_blob_wrap HG_MAGIC_ZTAB 1 gen ?p cap = Some bs"
    using assms(2) by (simp add: ztab_pack_def split: if_splits)
  have "hg_blob_unwrap HG_MAGIC_ZTAB 1 1 (bs @ xs) 192 = (HG_BLOB_OK, Some (?p, gen))"
    using blob_round_trip [OF w, of 192 1 1 xs] pl by simp
  moreover have "ztab_ent_of_bytes (drop (i * 24) ?p) = t ! i" if "i < 8" for i
    using drop_concat_records [OF rec, of i] that assms(1) len
    by (simp add: ztab_ent_bytes_round ztab_ok_def)
  then have "map (\<lambda>i. ztab_ent_of_bytes (drop (i * 24) ?p)) [0 ..< 8] = t"
    using len by (intro nth_equalityI) simp_all
  moreover have "HG_BLOB_HDR_LEN \<le> length bs"
    using w by (auto simp: hg_blob_wrap_def Let_def HG_BLOB_HDR_LEN_def split: if_splits)
  ultimately show ?thesis by (simp add: ztab_unpack_def HG_MAX_ZONES_def del: upt_Suc)
qed

section \<open>Properties\<close>

lemma zone_mac_nonzero: "x \<noteq> 0 \<Longrightarrow> zone_mac [x, 0, 0, 0, 0, 9]"
  by (simp add: zone_mac_def numeral_eq_Suc)

text \<open>The search for a MAC also looks at empty rows: while a row is free, the all-zero MAC is found there and the assignment answers with the id 0, which is no zone id.\<close>

lemma zero_mac_matches_an_empty_row:
  assumes "ztab_ok t" "first_idx (\<lambda>e. ze_id e = 0) t = Some k"
  shows "ztab_assign t (replicate 6 0) = (t, Some 0)"
  using assms by (rule ztab_enrol_zero_mac)

lemma zero_mac_matches_an_empty_row_witness:
  \<open>ztab_assign ztab_empty (replicate 6 0) = (ztab_empty, Some 0)\<close>
  by (rule zero_mac_matches_an_empty_row [OF ztab_ok_empty, of 0])
    (simp add: ztab_empty_def HG_MAX_ZONES_def ztab_ent_zero_def numeral_eq_Suc)

text \<open>The flash image of a consistent table is read back as that table and its generation.\<close>

lemma zone_table_survives_restart:
  assumes "ztab_ok t" "ztab_pack t gen cap = Some bs"
  shows "ztab_unpack (bs @ xs) = Some (t, gen)"
  using assms by (rule ztab_pack_unpack)

lemma zone_table_survives_restart_witness:
  \<open>ztab_unpack (the (ztab_pack ztab_empty 3 208) @ []) = Some (ztab_empty, 3)\<close>
  by (rule zone_table_survives_restart [OF ztab_ok_empty, where cap = 208])
    (simp add: ztab_pack_def hg_blob_wrap_def HG_BLOB_HDR_LEN_def ztab_empty_def HG_MAX_ZONES_def
      ztab_ent_zero_def ztab_ent_bytes_def Let_def length_concat sum_list_replicate)

text \<open>Over any sequence of enrolments, renamings and removals the table keeps eight rows, ids 1 to 8, and no id or MAC in two rows.\<close>

lemma zone_table_stays_consistent:
  assumes "ztab_ok t" "\<forall>x \<in> set xs. ztab_op_ok x"
  shows "ztab_ok (fst (run_steps ztab_step t xs))"
  using assms by (rule ztab.guarded_run_keeps)

lemma zone_table_stays_consistent_witness:
  \<open>ztab_ok (fst (run_steps ztab_step ztab_empty
     [Enrol [1, 0, 0, 0, 0, 9] 0xFE, SetName 1 [65], Enrol [2, 0, 0, 0, 0, 9] 1, Clear 1]))\<close>
  by (rule zone_table_stays_consistent [OF ztab_ok_empty]) (simp add: zone_mac_nonzero)

text \<open>Seen as a map from MAC addresses to ids, an enrolment does exactly what the decision table says: known, stale, conflict, the claimed id if it is free, else the lowest free one, full only when all eight ids are taken; and the table stays consistent.\<close>

lemma enrolment_follows_the_table:
  assumes "ztab_ok t" "zone_mac mac" "ztab_enrol t mac claimed = (t', v, r)"
  shows "ztab_ok t' \<and> enrol_spec (ztab_map t) mac claimed = (ztab_map t', v, r)"
  using ztab_enrol_refines [OF assms] by blast

lemma enrolment_follows_the_table_witness:
  \<open>fst (snd (ztab_enrol ztab_empty [1, 0, 0, 0, 0, 9] 5)) = ZTAB_EN_ASSIGNED\<close>
proof -
  obtain t' v r where e: "ztab_enrol ztab_empty [1, 0, 0, 0, 0, 9] 5 = (t', v, r)"
    by (metis prod_cases3)
  from enrolment_follows_the_table [OF ztab_ok_empty _ e] show ?thesis
    by (simp add: e zone_mac_nonzero enrol_spec_def ztab_map_empty)
qed

end
