(* ===== verification/Fleet_Seq.thy ===== *)
theory Fleet_Seq
  imports Ring_Proto
begin

text \<open>
  \<^verbatim>\<open>components/node_mgr/fleet_seq.c\<close>: the sequencer of a fleet firmware update, one zone
  after the other. An operation returns the new state and, where the C returns 1, the action
  the caller has to carry out. The main result is the shape of everything a run can ask
  for: the zones in the given order, each started before it is done, a new one only after
  the previous one succeeded, and nothing after a failure.
\<close>

definition FLEET_HOLD_MS :: u32 where "FLEET_HOLD_MS = 180000"
definition FLEET_UPTIME_RESET_S :: u32 where "FLEET_UPTIME_RESET_S = 60"

datatype fz_state = FZS_IDLE | FZS_PRECHECK | FZS_WAIT_ACK | FZS_WAIT_HB

record fleet =
  fl_zones :: "u8 list"
  fl_n :: u8
  fl_idx :: u8
  fl_active :: bool
  fl_cancel_req :: bool
  fl_st :: fz_state
  fl_deadline_ms :: u32
  fl_ack_ms :: u32
  fl_seq :: u16
  fl_pre_fw :: "u8 \<times> u8 \<times> u8"

datatype fleet_act = FA_START u8 | FA_FAILED u8 | FA_DONE u8 "u8 \<times> u8 \<times> u8"

definition fleet_init :: fleet where
  "fleet_init = \<lparr>fl_zones = replicate HG_MAX_ZONES 0, fl_n = 0, fl_idx = 0,
     fl_active = False, fl_cancel_req = False, fl_st = FZS_IDLE, fl_deadline_ms = 0,
     fl_ack_ms = 0, fl_seq = 0, fl_pre_fw = (0, 0, 0)\<rparr>"

datatype fleet_start_rc = FleetStarted | FleetBusy | FleetInvalid

definition fleet_start :: "fleet \<Rightarrow> u8 list \<Rightarrow> fleet \<times> fleet_start_rc" where
  "fleet_start s zones =
     (let n = length zones
      in if fl_active s then (s, FleetBusy)
         else if n = 0 \<or> n > HG_MAX_ZONES then (s, FleetInvalid)
         else (fleet_init\<lparr>fl_zones := zones @ replicate (HG_MAX_ZONES - n) 0, fl_n := of_nat n,
                 fl_active := True, fl_st := FZS_PRECHECK\<rparr>, FleetStarted))"

definition fleet_cancel :: "fleet \<Rightarrow> fleet" where
  "fleet_cancel s =
     (if \<not> fl_active s then s
      else if fl_st s = FZS_PRECHECK then s\<lparr>fl_active := False\<rparr>
      else s\<lparr>fl_cancel_req := True\<rparr>)"

definition cur_zone :: "fleet \<Rightarrow> u8" where
  "cur_zone s = fl_zones s ! unat (fl_idx s)"

definition advance :: "fleet \<Rightarrow> bool \<Rightarrow> fleet" where
  "advance s failed =
     (if failed \<or> fl_cancel_req s \<or> fl_idx s + 1 \<ge> fl_n s then s\<lparr>fl_active := False\<rparr>
      else s\<lparr>fl_idx := fl_idx s + 1, fl_st := FZS_PRECHECK\<rparr>)"

text \<open>What the caller reports about the current zone with every tick.\<close>

record fleet_obs =
  ob_now_ms :: u32
  ob_image_ok :: bool
  ob_online :: bool
  ob_hb_valid :: bool
  ob_hb_fw :: "u8 \<times> u8 \<times> u8"
  ob_hb_uptime :: u32
  ob_hb_arrived_ms :: u32

definition fleet_tick :: "fleet \<Rightarrow> fleet_obs \<Rightarrow> fleet \<times> fleet_act option" where
  "fleet_tick s b =
     (if \<not> fl_active s then (s, None)
      else
        case fl_st s of
          FZS_PRECHECK \<Rightarrow>
            let z = cur_zone s
            in if \<not> ob_image_ok b \<or> \<not> ob_online b then (advance s True, Some (FA_FAILED z))
               else (s\<lparr>fl_st := FZS_WAIT_ACK\<rparr>, Some (FA_START z))
        | FZS_WAIT_HB \<Rightarrow>
            let z = cur_zone s;
                fresh = (ob_hb_valid b \<and> sint (ob_hb_arrived_ms b - fl_ack_ms s) > 0);
                fw_changed = (ob_hb_fw b \<noteq> fl_pre_fw s);
                uptime_low = (ob_hb_uptime b < FLEET_UPTIME_RESET_S)
            in if fresh \<and> (fw_changed \<or> uptime_low)
               then (advance s False, Some (FA_DONE z (ob_hb_fw b)))
               else if sint (ob_now_ms b - fl_deadline_ms s) \<ge> 0
               then (advance s True, Some (FA_FAILED z))
               else (s, None)
        | _ \<Rightarrow> (s, None))"

definition fleet_on_ack :: "fleet \<Rightarrow> u16 \<Rightarrow> bool \<Rightarrow> u32 \<Rightarrow> fleet \<times> fleet_act option" where
  "fleet_on_ack s seq ok now =
     (if \<not> fl_active s \<or> fl_st s \<noteq> FZS_WAIT_ACK \<or> seq \<noteq> fl_seq s then (s, None)
      else if \<not> ok then (advance s True, Some (FA_FAILED (cur_zone s)))
      else (s\<lparr>fl_st := FZS_WAIT_HB, fl_ack_ms := now\<rparr>, None))"

definition fleet_note_submitted ::
  "fleet \<Rightarrow> bool \<Rightarrow> u16 \<Rightarrow> u32 \<Rightarrow> u8 \<times> u8 \<times> u8 \<Rightarrow> fleet \<times> fleet_act option" where
  "fleet_note_submitted s submitted seq now pre_fw =
     (if \<not> fl_active s \<or> fl_st s \<noteq> FZS_WAIT_ACK then (s, None)
      else if \<not> submitted then (advance s True, Some (FA_FAILED (cur_zone s)))
      else (s\<lparr>fl_seq := seq, fl_deadline_ms := now + FLEET_HOLD_MS, fl_pre_fw := pre_fw\<rparr>, None))"

definition fleet_status :: "fleet \<Rightarrow> string" where
  "fleet_status s =
     (if \<not> fl_active s then ''IDLE''
      else show_dec (unat (cur_zone s)) @ '' '' @
        (case fl_st s of FZS_PRECHECK \<Rightarrow> ''PRECHECK'' | FZS_WAIT_ACK \<Rightarrow> ''UPDATING''
         | _ \<Rightarrow> ''WAIT_HB''))"

section \<open>One run\<close>

text \<open>Everything that can happen to a started run until it ends.\<close>

datatype fleet_ev =
    FlTick fleet_obs
  | FlAck u16 bool u32
  | FlSubmitted bool u16 u32 "u8 \<times> u8 \<times> u8"
  | FlCancel

fun fleet_step :: "fleet \<Rightarrow> fleet_ev \<Rightarrow> fleet \<times> fleet_act option" where
  "fleet_step s (FlTick b) = fleet_tick s b"
| "fleet_step s (FlAck seq ok now) = fleet_on_ack s seq ok now"
| "fleet_step s (FlSubmitted ok seq now fw) = fleet_note_submitted s ok seq now fw"
| "fleet_step s FlCancel = (fleet_cancel s, None)"

text \<open>The actions without the firmware versions.\<close>

datatype fa_kind = KStart | KDone | KFailed

fun act_kind :: "fleet_act \<Rightarrow> fa_kind \<times> u8" where
  "act_kind (FA_START z) = (KStart, z)"
| "act_kind (FA_FAILED z) = (KFailed, z)"
| "act_kind (FA_DONE z fw) = (KDone, z)"

definition fleet_done :: "u8 list \<Rightarrow> nat \<Rightarrow> (fa_kind \<times> u8) list" where
  "fleet_done zones k = concat (map (\<lambda>z. [(KStart, z), (KDone, z)]) (take k zones))"

text \<open>
  The log of a run over \<open>zones\<close> in a state: everything done before the current zone, then
  what the phase says of it; a run that ended did so after a success, a failure with or
  without a start, or a cancellation before a start.
\<close>

definition fleet_log_ok :: "u8 list \<Rightarrow> fleet \<times> (fa_kind \<times> u8) list \<Rightarrow> bool" where
  "fleet_log_ok zones sl \<longleftrightarrow>
     (let s = fst sl; lg = snd sl; i = unat (fl_idx s); z = zones ! i in
       take (length zones) (fl_zones s) = zones \<and> unat (fl_n s) = length zones \<and>
       length zones \<le> HG_MAX_ZONES \<and> i < length zones \<and>
       (if fl_active s then
          (fl_st s = FZS_PRECHECK \<and> lg = fleet_done zones i) \<or>
          (fl_st s \<in> {FZS_WAIT_ACK, FZS_WAIT_HB} \<and> lg = fleet_done zones i @ [(KStart, z)])
        else \<exists>rest \<in> {[], [(KStart, z), (KDone, z)], [(KFailed, z)], [(KStart, z), (KFailed, z)]}.
               lg = fleet_done zones i @ rest))"

definition fleet_log_step ::
  "fleet \<times> (fa_kind \<times> u8) list \<Rightarrow> fleet_ev \<Rightarrow> (fleet \<times> (fa_kind \<times> u8) list) \<times> unit" where
  "fleet_log_step sl e =
     (let (s', a) = fleet_step (fst sl) e
      in ((s', snd sl @ (case a of None \<Rightarrow> [] | Some x \<Rightarrow> [act_kind x])), ()))"

lemma cur_zone_nth:
  "take (length zones) (fl_zones s) = zones \<Longrightarrow> unat (fl_idx s) < length zones \<Longrightarrow>
     cur_zone s = zones ! unat (fl_idx s)"
  unfolding cur_zone_def by (metis nth_take)

lemma fleet_done_Suc:
  "k < length zones \<Longrightarrow>
     fleet_done zones (Suc k) = fleet_done zones k @ [(KStart, zones ! k), (KDone, zones ! k)]"
  by (simp add: fleet_done_def take_Suc_conv_app_nth)

lemma advance_idx:
  assumes "unat (fl_n s) \<le> 8" "unat (fl_idx s) < unat (fl_n s)"
  shows "(fl_idx s + 1 \<ge> fl_n s) = (unat (fl_idx s) + 1 \<ge> unat (fl_n s))"
    "unat (fl_idx s + 1) = unat (fl_idx s) + 1"
proof -
  show u: "unat (fl_idx s + 1) = unat (fl_idx s) + 1" using assms by (simp add: unat_word_ariths)
  show "(fl_idx s + 1 \<ge> fl_n s) = (unat (fl_idx s) + 1 \<ge> unat (fl_n s))"
    unfolding word_le_nat_alt u ..
qed

lemma fleet_log_fail:
  assumes "fleet_log_ok zones (s, lg)" "fl_active s"
  shows "fleet_log_ok zones (advance s True, lg @ [(KFailed, zones ! unat (fl_idx s))])"
  using assms by (auto simp: fleet_log_ok_def advance_def Let_def)

lemma fleet_log_success:
  assumes "fleet_log_ok zones (s, lg)" "fl_active s" "fl_st s = FZS_WAIT_HB"
  shows "fleet_log_ok zones (advance s False, lg @ [(KDone, zones ! unat (fl_idx s))])"
proof -
  have "unat (fl_n s) \<le> 8" "unat (fl_idx s) < unat (fl_n s)"
    using assms(1) by (simp_all add: fleet_log_ok_def Let_def HG_MAX_ZONES_def)
  note idx = advance_idx [OF this]
  show ?thesis
  proof (cases "fl_cancel_req s \<or> fl_idx s + 1 \<ge> fl_n s")
    case True
    with assms show ?thesis by (auto simp: fleet_log_ok_def advance_def Let_def)
  next
    case False
    with assms idx show ?thesis
      by (simp add: fleet_log_ok_def advance_def Let_def fleet_done_Suc)
  qed
qed

lemma fleet_log_keeps:
  assumes "fleet_log_ok zones sl"
  shows "fleet_log_ok zones (fst (fleet_log_step sl e))"
proof (cases sl)
  case (Pair s lg)
  have ok: "fleet_log_ok zones (s, lg)" using assms Pair by simp
  have z: "cur_zone s = zones ! unat (fl_idx s)"
    using ok by (intro cur_zone_nth) (simp_all add: fleet_log_ok_def Let_def)
  show ?thesis
  proof (cases "fl_active s")
    case False
    then show ?thesis using ok
      by (cases e) (simp_all add: Pair fleet_log_step_def fleet_tick_def fleet_on_ack_def
          fleet_note_submitted_def fleet_cancel_def)
  next
    case act: True
    note fail = fleet_log_fail [OF ok act]
    show ?thesis
    proof (cases e)
      case (FlTick b)
      show ?thesis
      proof (cases "fl_st s")
        case FZS_PRECHECK
        have "fleet_log_ok zones (s\<lparr>fl_st := FZS_WAIT_ACK\<rparr>, lg @ [(KStart, zones ! unat (fl_idx s))])"
          using ok act FZS_PRECHECK by (simp add: fleet_log_ok_def Let_def)
        with fail show ?thesis
          by (simp add: Pair FlTick fleet_log_step_def fleet_tick_def act FZS_PRECHECK z Let_def)
      next
        case FZS_WAIT_HB
        with fail fleet_log_success [OF ok act FZS_WAIT_HB] ok show ?thesis
          by (simp add: Pair FlTick fleet_log_step_def fleet_tick_def act z Let_def)
      qed (use ok in \<open>simp_all add: Pair FlTick fleet_log_step_def fleet_tick_def act\<close>)
    next
      case (FlAck seq a now)
      have "fl_st s = FZS_WAIT_ACK \<Longrightarrow>
          fleet_log_ok zones (s\<lparr>fl_st := FZS_WAIT_HB, fl_ack_ms := now\<rparr>, lg)"
        using ok act by (simp add: fleet_log_ok_def Let_def)
      with fail ok show ?thesis
        by (simp add: Pair FlAck fleet_log_step_def fleet_on_ack_def act z)
    next
      case (FlSubmitted a seq now fw)
      have "fl_st s = FZS_WAIT_ACK \<Longrightarrow> fleet_log_ok zones
          (s\<lparr>fl_seq := seq, fl_deadline_ms := now + FLEET_HOLD_MS, fl_pre_fw := fw\<rparr>, lg)"
        using ok act by (simp add: fleet_log_ok_def Let_def)
      with fail ok show ?thesis
        by (simp add: Pair FlSubmitted fleet_log_step_def fleet_note_submitted_def act z)
    next
      case FlCancel
      with ok act show ?thesis
        by (auto simp: Pair fleet_log_step_def fleet_cancel_def fleet_log_ok_def Let_def)
    qed
  qed
qed

interpretation fleet: step_invariant fleet_log_step "fleet_log_ok zones" for zones
  by unfold_locales (rule fleet_log_keeps)

lemma fleet_log_start:
  "fleet_start s zones = (s', FleetStarted) \<Longrightarrow> fleet_log_ok zones (s', [])"
  by (auto simp: fleet_start_def fleet_init_def fleet_log_ok_def Let_def fleet_done_def
      HG_MAX_ZONES_def unat_of_nat_u8 split: if_splits)

lemma fleet_log_run:
  "fst (run_steps fleet_log_step (s, lg) es) =
     (fst (run_steps fleet_step s es),
      lg @ concat (map (\<lambda>a. case a of None \<Rightarrow> [] | Some x \<Rightarrow> [act_kind x]) (snd (run_steps fleet_step s es))))"
  by (induction es arbitrary: s lg) (simp_all add: fleet_log_step_def split_def Let_def)

text \<open>A waiting zone is always settled, at the latest by the tick at its deadline.\<close>

lemma fleet_deadline:
  assumes "fl_active s" "fl_st s = FZS_WAIT_HB" "0 \<le> sint (ob_now_ms b - fl_deadline_ms s)"
  shows "\<exists>a. snd (fleet_tick s b) = Some a \<and> (a = FA_FAILED (cur_zone s) \<or> a = FA_DONE (cur_zone s) (ob_hb_fw b))"
  using assms by (simp add: fleet_tick_def Let_def)

text \<open>The log of a whole run, read off the invariant.\<close>

lemma fleet_log_shape:
  assumes "fleet_start s zones = (s', FleetStarted)"
  shows "\<exists>k \<le> length zones. \<exists>rest. rest \<in> {[]} \<union> (\<Union>z \<in> set zones. {[(KStart, z)], [(KFailed, z)], [(KStart, z), (KFailed, z)]}) \<and>
    concat (map (\<lambda>a. case a of None \<Rightarrow> [] | Some x \<Rightarrow> [act_kind x]) (snd (run_steps fleet_step s' es))) =
      fleet_done zones k @ rest"
proof -
  define sl where "sl = fst (run_steps fleet_log_step (s', []) es)"
  define i where "i = unat (fl_idx (fst sl))"
  have ok: "fleet_log_ok zones sl"
    unfolding sl_def by (rule fleet.run_keeps [OF fleet_log_start [OF assms]])
  then have i: "i < length zones" by (simp add: fleet_log_ok_def Let_def i_def)
  obtain rest where r: "snd sl = fleet_done zones i @ rest" and
    rest: "rest \<in> {[], [(KStart, zones ! i)], [(KStart, zones ! i), (KDone, zones ! i)],
      [(KFailed, zones ! i)], [(KStart, zones ! i), (KFailed, zones ! i)]}"
  proof (cases "fl_active (fst sl)")
    case True
    with ok have "snd sl = fleet_done zones i @ [] \<or> snd sl = fleet_done zones i @ [(KStart, zones ! i)]"
      by (simp only: fleet_log_ok_def Let_def i_def if_True append_Nil2) blast
    with that show thesis by blast
  next
    case False
    with ok have "\<exists>rest \<in> {[], [(KStart, zones ! i), (KDone, zones ! i)], [(KFailed, zones ! i)],
        [(KStart, zones ! i), (KFailed, zones ! i)]}. snd sl = fleet_done zones i @ rest"
      by (simp only: fleet_log_ok_def Let_def i_def if_False)
    with that show thesis by blast
  qed
  have z: "zones ! i \<in> set zones" using i by simp
  have sl: "snd sl = concat (map (\<lambda>a. case a of None \<Rightarrow> [] | Some x \<Rightarrow> [act_kind x])
      (snd (run_steps fleet_step s' es)))"
    by (simp add: sl_def fleet_log_run)
  show ?thesis
  proof (cases "rest = [(KStart, zones ! i), (KDone, zones ! i)]")
    case True
    then have "snd sl = fleet_done zones (Suc i) @ []" using r fleet_done_Suc [OF i] by simp
    with i sl show ?thesis by (intro exI [of _ "Suc i"] conjI exI [of _ "[]"]) simp_all
  next
    case False
    with rest z have "rest \<in> {[]} \<union> (\<Union>z \<in> set zones. {[(KStart, z)], [(KFailed, z)], [(KStart, z), (KFailed, z)]})"
      by blast
    with i r sl show ?thesis by (intro exI [of _ i] conjI exI [of _ rest]) simp_all
  qed
qed

section \<open>Properties\<close>

definition sample_obs :: fleet_obs where
  "sample_obs = \<lparr>ob_now_ms = 0, ob_image_ok = True, ob_online = True, ob_hb_valid = True,
     ob_hb_fw = (1, 0, 0), ob_hb_uptime = 5, ob_hb_arrived_ms = 0\<rparr>"

text \<open>C36. Everything a fleet update asks for, whatever ticks, acknowledgements and cancellations come in, is: the zones in the given order, each started and then done, a new one only after the previous one succeeded; then at most one unfinished or failed zone; after a failure nothing more.\<close>

lemma fleet_runs_in_order:
  assumes "fleet_start s zones = (s', FleetStarted)"
  shows "\<exists>k \<le> length zones. \<exists>rest. rest \<in> {[]} \<union> (\<Union>z \<in> set zones. {[(KStart, z)], [(KFailed, z)], [(KStart, z), (KFailed, z)]}) \<and>
    concat (map (\<lambda>a. case a of None \<Rightarrow> [] | Some x \<Rightarrow> [act_kind x]) (snd (run_steps fleet_step s' es))) =
      fleet_done zones k @ rest"
  using fleet_log_shape [OF assms] .

lemma fleet_runs_in_order_witness:
  \<open>\<exists>k \<le> 2. \<exists>rest. rest \<in> {[]} \<union> (\<Union>z \<in> {3, 4}. {[(KStart, z)], [(KFailed, z)], [(KStart, z), (KFailed, z)]}) \<and>
    concat (map (\<lambda>a. case a of None \<Rightarrow> [] | Some x \<Rightarrow> [act_kind x])
      (snd (run_steps fleet_step (fst (fleet_start fleet_init [3, 4])) [FlTick sample_obs, FlCancel]))) =
      fleet_done [3, 4] k @ rest\<close>
  using fleet_runs_in_order [of fleet_init "[3, 4]" "fst (fleet_start fleet_init [3, 4])" "[FlTick sample_obs, FlCancel]"]
  by (simp add: fleet_start_def fleet_init_def HG_MAX_ZONES_def numeral_2_eq_2)

end
