(* ===== verification/C_Text.thy ===== *)
theory C_Text
  imports HG_Prelude
begin

text \<open>
  What the components that read and print text take from the C library: the character classes,
  \<open>strtol\<close> with the 32 bit \<open>long\<close> of the targets, whole-string integers, the case-insensitive
  comparison of \<^verbatim>\<open>components/hg_cfg/hg_cfg_fields.c\<close>, and \<open>"%u"\<close>. A C string is the
  list of its characters without the terminator; in a byte array it is the list of their codes.
  The central lemma is that a printed number is read back.
\<close>

section \<open>Characters and numbers\<close>

text \<open>The classifications of \<open>ctype.h\<close> in the C locale.\<close>

definition char_code :: "char \<Rightarrow> nat" where "char_code c = of_char c"

definition is_digit :: "char \<Rightarrow> bool" where
  "is_digit c \<longleftrightarrow> 48 \<le> char_code c \<and> char_code c \<le> 57"

definition is_alpha :: "char \<Rightarrow> bool" where
  "is_alpha c \<longleftrightarrow> (65 \<le> char_code c \<and> char_code c \<le> 90) \<or> (97 \<le> char_code c \<and> char_code c \<le> 122)"

definition is_space :: "char \<Rightarrow> bool" where
  "is_space c \<longleftrightarrow> char_code c = 32 \<or> (9 \<le> char_code c \<and> char_code c \<le> 13)"

definition dec_value :: "string \<Rightarrow> int" where
  "dec_value ds = foldl (\<lambda>a c. a * 10 + (int (char_code c) - 48)) 0 ds"

text \<open>
  \<open>strtol\<close> to base ten, with the 32 bit \<open>long\<close> of the targets: leading blanks and a sign are
  accepted, the value saturates, and without digits nothing is consumed.
\<close>

definition strtol10 :: "string \<Rightarrow> int \<times> string" where
  "strtol10 p =
     (let q = dropWhile is_space p;
          (neg, q1) = (case q of
              [] \<Rightarrow> (False, q)
            | c # r \<Rightarrow> if c = CHR ''+'' then (False, r)
                      else if c = CHR ''-'' then (True, r) else (False, q));
          ds = takeWhile is_digit q1
      in if ds = [] then (0, p)
         else
           let v = (if neg then - dec_value ds else dec_value ds)
           in (max (- 2147483648) (min 2147483647 v), dropWhile is_digit q1))"

fun starts_with :: "(char \<Rightarrow> bool) \<Rightarrow> string \<Rightarrow> bool" where
  "starts_with P [] = False"
| "starts_with P (c # p) = P c"

text \<open>The \<open>parse_int\<close> of the configuration code: the whole text is a number.\<close>

definition parse_int :: "string \<Rightarrow> int option" where
  "parse_int s = (let (v, rest) = strtol10 s in if rest = s \<or> rest \<noteq> [] then None else Some v)"

definition to_up :: "char \<Rightarrow> char" where
  "to_up c = (if 97 \<le> char_code c \<and> char_code c \<le> 122 then char_of (char_code c - 32) else c)"

fun ci_eq :: "string \<Rightarrow> string \<Rightarrow> bool" where
  "ci_eq (a # as) (b # bs) = (to_up a = to_up b \<and> ci_eq as bs)"
| "ci_eq as bs = (as = bs)"

lemma ci_eq_refl [simp]: "ci_eq s s"
  by (induction s) simp_all

lemma ci_eq_map: "ci_eq a b = (map to_up a = map to_up b)"
  by (induction a b rule: ci_eq.induct) auto

text \<open>Text in a byte array.\<close>

definition byte_of :: "char \<Rightarrow> u8" where
  "byte_of c = of_nat (char_code c)"

definition bytes_of :: "string \<Rightarrow> u8 list" where
  "bytes_of s = map byte_of s"

definition char_of_byte :: "u8 \<Rightarrow> char" where
  "char_of_byte b = char_of (unat b)"

definition text_at :: "u8 list \<Rightarrow> nat \<Rightarrow> string" where
  "text_at p i = map char_of_byte (cstr (drop i p))"

definition c_string :: "string \<Rightarrow> bool" where
  "c_string s \<longleftrightarrow> (\<forall>c \<in> set s. char_code c \<noteq> 0)"

lemma char_code_less: "char_code c < 256"
  by (simp add: char_code_def)

lemma unat_byte_of [simp]: "unat (byte_of c) = char_code c"
  using char_code_less [of c] by (simp add: byte_of_def unat_of_nat)

lemma char_of_byte_of [simp]: "char_of_byte (byte_of c) = c"
  by (simp add: char_of_byte_def) (simp add: char_code_def)

lemma byte_of_char_of_byte [simp]: "byte_of (char_of_byte b) = b"
  by (simp add: byte_of_def char_of_byte_def char_code_def)

lemma length_bytes_of [simp]: "length (bytes_of s) = length s"
  by (simp add: bytes_of_def)

lemma map_char_of_bytes_of [simp]: "map char_of_byte (bytes_of s) = s"
  by (simp add: bytes_of_def comp_def)

lemma byte_of_zero: "byte_of c = 0 \<longleftrightarrow> char_code c = 0"
  by (metis unat_byte_of unat_0 unat_eq_zero)

lemma zero_bytes_of [simp]: "0 \<in> set (bytes_of s) \<longleftrightarrow> \<not> c_string s"
  by (auto simp: bytes_of_def c_string_def image_iff byte_of_zero eq_commute [of 0])

lemma text_at_mem_put:
  assumes "c_string s" "i \<le> length p"
  shows "text_at (mem_put p i (bytes_of s @ 0 # xs)) i = s"
proof -
  have "drop i (mem_put p i (bytes_of s @ 0 # xs)) = bytes_of s @ 0 # xs @ drop (i + length s + 1 + length xs) p"
    using assms(2) by (simp add: mem_put_def ac_simps)
  moreover have "cstr (bytes_of s @ 0 # ys) = bytes_of s" for ys
    unfolding cstr_def using assms(1) by (subst takeWhile_append2) auto
  ultimately show ?thesis by (simp add: text_at_def)
qed

section \<open>Printed numbers are read back\<close>

definition digit_char :: "nat \<Rightarrow> char" where "digit_char d = ''0123456789'' ! d"

lemma less_10_cases: "d < 10 \<Longrightarrow> d \<in> {0, 1, 2, 3, 4, 5, 6, 7, 8, 9 :: nat}"
  by auto

lemma digit_char_code: "d < 10 \<Longrightarrow> char_code (digit_char d) = 48 + d"
  by (drule less_10_cases) (auto simp: digit_char_def char_code_def)

lemma is_digit_digit_char [simp]: "d < 10 \<Longrightarrow> is_digit (digit_char d)"
  by (simp add: is_digit_def digit_char_code)

lemma show_dec_rec: "show_dec n = (if n < 10 then [digit_char n] else show_dec (n div 10) @ [digit_char (n mod 10)])"
  by (subst show_dec.simps) (simp add: digit_char_def)

lemma dec_value_snoc: "dec_value (ds @ [c]) = dec_value ds * 10 + (int (char_code c) - 48)"
  by (simp add: dec_value_def)

lemma show_dec_nonempty [simp]: "show_dec n \<noteq> []"
  by (subst show_dec_rec) simp

lemma show_dec_digits: "\<forall>c \<in> set (show_dec n). is_digit c"
proof (induction n rule: less_induct)
  case (less n)
  have "\<not> n < 10 \<Longrightarrow> \<forall>c \<in> set (show_dec (n div 10)). is_digit c" by (intro less.IH) simp
  then show ?case by (subst show_dec_rec) auto
qed

lemma dec_value_show_dec [simp]: "dec_value (show_dec n) = int n"
proof (induction n rule: less_induct)
  case (less n)
  show ?case
  proof (cases "n < 10")
    case True
    then show ?thesis by (subst show_dec_rec) (simp add: dec_value_def digit_char_code)
  next
    case False
    then have "dec_value (show_dec (n div 10)) = int (n div 10)" by (intro less.IH) simp
    with False show ?thesis
      by (subst show_dec_rec) (simp add: dec_value_snoc digit_char_code, presburger)
  qed
qed

lemma digit_not_space: "is_digit c \<Longrightarrow> \<not> is_space c"
  by (auto simp: is_digit_def is_space_def)

lemma digit_not_sign: "is_digit c \<Longrightarrow> c \<noteq> CHR ''+'' \<and> c \<noteq> CHR ''-''"
  by (auto simp: is_digit_def char_code_def)

lemma strtol_digits:
  assumes "\<forall>c \<in> set ds. is_digit c" "ds \<noteq> []" "rest = [] \<or> \<not> is_digit (hd rest)" "dec_value ds < 2147483648"
    "0 \<le> dec_value ds"
  shows "strtol10 (ds @ rest) = (dec_value ds, rest)"
proof -
  obtain d ds' where ds: "ds = d # ds'" using assms(2) by (cases ds) auto
  have d: "is_digit d" using assms(1) ds by simp
  have t: "takeWhile is_digit (ds @ rest) = ds" "dropWhile is_digit (ds @ rest) = rest"
    using assms(1,3) by (cases rest; simp add: takeWhile_append dropWhile_append)+
  have sp: "dropWhile is_space (ds @ rest) = ds @ rest"
    using digit_not_space [OF d] by (simp add: ds)
  show ?thesis
    using digit_not_sign [OF d] t sp assms(2,4,5) by (simp add: strtol10_def ds)
qed

lemma parse_int_show_dec: "n < 2147483648 \<Longrightarrow> parse_int (show_dec n) = Some (int n)"
  using strtol_digits [of "show_dec n" "[]"] show_dec_digits [of n]
  by (simp add: parse_int_def eq_commute [of "[]"])

end
