(* ===== verification/Time_Core.thy ===== *)
theory Time_Core
  imports C_Text "HOL-Library.Signed_Division" "HOL-Library.Char_ord"
begin

text \<open>
  \<^verbatim>\<open>components/time_core/time_core.c\<close>: the POSIX time-zone strings and the offset in force at
  an instant. Calendar arithmetic is on unbounded integers with the truncating division of C:
  every value the C computes for a \<open>uint32_t\<close> instant fits its types. A character pointer is
  the rest of the string it points into, and \<open>NULL\<close> is \<open>None\<close>. The main results: the two
  calendar conversions are inverse to each other on all dates, the weekday rule picks the day
  it describes, and an accepted string only has fields inside the POSIX bounds.
\<close>

section \<open>The civil calendar\<close>

definition days_from_civil :: "int \<Rightarrow> int \<Rightarrow> int \<Rightarrow> int" where
  "days_from_civil y0 m d =
     (let y = (if m \<le> 2 then y0 - 1 else y0);
          era = (if y \<ge> 0 then y else y - 399) sdiv 400;
          yoe = y - era * 400;
          doy = (153 * (m + (if m > 2 then - 3 else 9)) + 2) div 5 + d - 1;
          doe = yoe * 365 + yoe div 4 - yoe div 100 + doy
      in era * 146097 + doe - 719468)"

definition civil_from_days :: "int \<Rightarrow> int \<times> int \<times> int" where
  "civil_from_days z0 =
     (let z = z0 + 719468;
          era = (if z \<ge> 0 then z else z - 146096) sdiv 146097;
          doe = z - era * 146097;
          yoe = (doe - doe div 1460 + doe div 36524 - doe div 146096) div 365;
          yr = yoe + era * 400;
          doy = doe - (365 * yoe + yoe div 4 - yoe div 100);
          mp = (5 * doy + 2) div 153;
          dd = doy - (153 * mp + 2) div 5 + 1;
          mm = mp + (if mp < 10 then 3 else - 9)
      in (yr + (if mm \<le> 2 then 1 else 0), mm, dd))"

definition weekday_of_days :: "int \<Rightarrow> int" where
  "weekday_of_days days =
     (let wd = (days + 4) smod 7 in if wd < 0 then wd + 7 else wd)"

definition floor_div86400 :: "int \<Rightarrow> int" where
  "floor_div86400 a =
     (let q = a sdiv 86400 in if a smod 86400 \<noteq> 0 \<and> a < 0 then q - 1 else q)"

definition is_leap :: "int \<Rightarrow> bool" where
  "is_leap y \<longleftrightarrow> (y smod 4 = 0 \<and> y smod 100 \<noteq> 0) \<or> y smod 400 = 0"

definition days_in_month :: "int \<Rightarrow> int \<Rightarrow> int" where
  "days_in_month y m =
     (if m = 2 \<and> is_leap y then 29
      else [31, 28, 31, 30, 31, 30, 31, 31, 30, 31, 30, 31] ! nat (m - 1))"

definition nth_weekday_day :: "int \<Rightarrow> int \<Rightarrow> int \<Rightarrow> int \<Rightarrow> int" where
  "nth_weekday_day year month w dow =
     (let wd1 = weekday_of_days (days_from_civil year month 1);
          first = 1 + ((dow - wd1 + 7) smod 7)
      in if w = 5
         then let dim = days_in_month year month in first + 7 * ((dim - first) sdiv 7)
         else first + 7 * (w - 1))"

text \<open>The truncating divisions amount to floor divisions.\<close>

lemma sdiv_nonneg: "0 \<le> a \<Longrightarrow> 0 < k \<Longrightarrow> a sdiv k = a div (k :: int)"
  by (cases "a = 0") (simp_all add: signed_divide_int_def)

lemma sdiv_era: "0 < k \<Longrightarrow> (if y \<ge> 0 then y else y - (k - 1)) sdiv k = y div (k :: int)"
proof (cases "y \<ge> 0")
  case False
  assume k: "0 < k"
  have "- (y - (k - 1)) div k = - (y div k)"
  proof -
    have "- (y - (k - 1)) = (k - 1 - y mod k) + k * (- (y div k))"
      using mult_div_mod_eq [of k y] by (simp add: algebra_simps)
    then have "- (y - (k - 1)) div k = (k - 1 - y mod k) div k + - (y div k)"
      using k by (simp only: div_mult_self2)
    moreover have "(k - 1 - y mod k) div k = 0"
      using k pos_mod_bound [OF k, of y] pos_mod_sign [OF k, of y] by (intro div_pos_pos_trivial) auto
    ultimately show ?thesis by simp
  qed
  then show ?thesis using False k by (simp add: signed_divide_int_def)
qed (simp add: sdiv_nonneg)

lemma smod_nonneg: "0 \<le> a \<Longrightarrow> 0 < k \<Longrightarrow> a smod k = a mod (k :: int)"
  by (cases "a = 0") (simp_all add: signed_modulo_int_def)

lemma smod_eq_0: "0 < k \<Longrightarrow> (a smod k = 0) = (a mod (k :: int) = 0)"
  by (auto simp: signed_modulo_int_def sgn_if mod_eq_0_iff_dvd)

section \<open>The conversions are inverse to each other\<close>


lemma days_from_civil_eq:
  "days_from_civil y0 m d =
     (let y = (if m \<le> 2 then y0 - 1 else y0)
      in (y div 400) * 146097 +
         ((y mod 400) * 365 + (y mod 400) div 4 - (y mod 400) div 100 +
          ((153 * (m + (if m > 2 then - 3 else 9)) + 2) div 5 + d - 1)) - 719468)"
proof -
  have "(if y \<ge> 0 then y else y - 399) sdiv 400 = y div (400 :: int)" for y
    using sdiv_era [of 400 y] by (auto split: if_splits)
  then show ?thesis unfolding days_from_civil_def Let_def
    by (simp only: minus_div_mult_eq_mod)
qed

lemma civil_from_days_eq:
  "civil_from_days z0 =
     (let z = z0 + 719468; doe = z mod 146097;
          yoe = (doe - doe div 1460 + doe div 36524 - doe div 146096) div 365;
          doy = doe - (365 * yoe + yoe div 4 - yoe div 100);
          mp = (5 * doy + 2) div 153;
          mm = mp + (if mp < 10 then 3 else - 9)
      in (yoe + z div 146097 * 400 + (if mm \<le> 2 then 1 else 0), mm, doy - (153 * mp + 2) div 5 + 1))"
proof -
  have "(if z \<ge> 0 then z else z - 146096) sdiv 146097 = z div (146097 :: int)" for z
    using sdiv_era [of 146097 z] by (auto split: if_splits)
  then show ?thesis unfolding civil_from_days_def Let_def
    by (simp only: minus_div_mult_eq_mod)
qed

text \<open>
  The year of the era out of the day of the era, for the year \<open>100 c + 4 q + r\<close> of the era: the
  366th day exists only in the last year of a leap cycle.
\<close>

lemma div_between: "k * n \<le> x \<Longrightarrow> x < k * n + k \<Longrightarrow> x div k = (n :: int)"
  by (rule int_div_pos_eq [where r = "x - k * n"]) auto

lemma yoe_of_doe:
  fixes c q r doy :: int
  assumes "0 \<le> c" "c \<le> 3" "0 \<le> r" "r \<le> 3" "0 \<le> q" "q \<le> 24" "0 \<le> doy" "doy \<le> 365"
    "doy = 365 \<longrightarrow> r = 3 \<and> (q \<noteq> 24 \<or> c = 3)"
  defines "doe \<equiv> 36524 * c + 1461 * q + 365 * r + doy"
  shows "(doe - doe div 1460 + doe div 36524 - doe div 146096) div 365 = 100 * c + 4 * q + r"
    "0 \<le> doe" "doe \<le> 146096"
proof -
  show "0 \<le> doe" "doe \<le> 146096" using assms by auto
  define w where "w = (if 24 * c + q + 365 * r + doy \<ge> 1460 then 1 else 0 :: int)"
  define e where "e = (if q = 24 \<and> r = 3 \<and> doy = 365 then 1 else 0 :: int)"
  have d1: "doe div 1460 = 25 * c + q + w"
    by (rule div_between) (use assms(1-8) in \<open>auto simp: w_def doe_def\<close>)
  have d2: "doe div 36524 = c + e"
    by (rule div_between) (use assms(1-8) in \<open>auto simp: e_def doe_def\<close>)
  have d3: "doe div 146096 = e"
    by (rule div_between) (use assms(1-9) in \<open>auto simp: e_def doe_def\<close>)
  have "0 \<le> doy - w" "doy - w < 365" using assms(1-9) by (auto simp: w_def)
  then show "(doe - doe div 1460 + doe div 36524 - doe div 146096) div 365 = 100 * c + 4 * q + r"
    unfolding d1 d2 d3 by (intro div_between) (simp_all add: doe_def)
qed

text \<open>Every year of the era and every day of it splits that way.\<close>

lemma yoe_split:
  assumes "0 \<le> yoe" "yoe < (400 :: int)"
  obtains c q r where "yoe = 100 * c + 4 * q + r" "0 \<le> c" "c \<le> 3" "0 \<le> r" "r \<le> 3" "0 \<le> q" "q \<le> 24"
proof
  let ?c = "yoe div 100" and ?q = "yoe mod 100 div 4" and ?r = "yoe mod 100 mod 4"
  show "yoe = 100 * ?c + 4 * ?q + ?r"
    using mult_div_mod_eq [of 100 yoe] mult_div_mod_eq [of 4 "yoe mod 100"] by linarith
  show "0 \<le> ?c" "?c \<le> 3" using assms by linarith+
  show "0 \<le> ?r" "?r \<le> 3" using pos_mod_bound [of 4 "yoe mod 100"] by simp_all
  have "0 \<le> yoe mod 100" "yoe mod 100 < 100" by simp_all
  then show "0 \<le> ?q" "?q \<le> 24" by linarith+
qed

lemma yoe_days:
  assumes "0 \<le> c" "c \<le> 3" "0 \<le> r" "r \<le> 3" "0 \<le> q" "q \<le> (24 :: int)"
  shows "365 * (100 * c + 4 * q + r) + (100 * c + 4 * q + r) div 4 - (100 * c + 4 * q + r) div 100 =
    36524 * c + 1461 * q + 365 * r"
proof -
  have "(100 * c + 4 * q + r) div 4 = 25 * c + q" by (rule div_between) (use assms in auto)
  moreover have "(100 * c + 4 * q + r) div 100 = c" by (rule div_between) (use assms in auto)
  ultimately show ?thesis by simp
qed

lemma doe_split:
  assumes "0 \<le> doe" "doe \<le> (146096 :: int)"
  obtains c q r doy where "doe = 36524 * c + 1461 * q + 365 * r + doy"
    "0 \<le> c" "c \<le> 3" "0 \<le> r" "r \<le> 3" "0 \<le> q" "q \<le> 24" "0 \<le> doy" "doy \<le> 365"
    "doy = 365 \<longrightarrow> r = 3 \<and> (q \<noteq> 24 \<or> c = 3)"
proof -
  define c where "c = (if doe = 146096 then 3 else doe div 36524)"
  define x where "x = doe - 36524 * c"
  have c: "0 \<le> c" "c \<le> 3" "0 \<le> x" "x \<le> 36524" "x = 36524 \<longrightarrow> c = 3"
    using assms by (auto simp: c_def x_def)
  define q where "q = x div 1461"
  define y where "y = x - 1461 * q"
  have q: "0 \<le> q" "q \<le> 24" "0 \<le> y" "y \<le> 1460"
    using c by (auto simp: q_def y_def)
  define r where "r = (if y = 1460 then 3 else y div 365)"
  define doy where "doy = y - 365 * r"
  have r: "0 \<le> r" "r \<le> 3" "0 \<le> doy" "doy \<le> 365" "doy = 365 \<longrightarrow> r = 3 \<and> y = 1460"
    using q by (auto simp: r_def doy_def)
  have "doy = 365 \<longrightarrow> r = 3 \<and> (q \<noteq> 24 \<or> c = 3)"
  proof
    assume "doy = 365"
    then have "r = 3" "y = 1460" using r by simp_all
    moreover have "q = 24 \<Longrightarrow> x = 36524" using \<open>y = 1460\<close> by (simp add: y_def)
    ultimately show "r = 3 \<and> (q \<noteq> 24 \<or> c = 3)" using c by blast
  qed
  moreover have "doe = 36524 * c + 1461 * q + 365 * r + doy"
    by (simp add: doy_def y_def x_def)
  ultimately show ?thesis using that c(1,2) q(1,2) r(1-4) by blast
qed

text \<open>The month of the year that starts in March.\<close>

lemma month_of_doy:
  assumes "0 \<le> mp" "mp \<le> 11" "1 \<le> d" "d \<le> 31" "mp = 11 \<longrightarrow> d \<le> 29"
    "mp \<in> {1, 3, 6, 8} \<longrightarrow> d \<le> 30"
  shows "(5 * ((153 * mp + 2) div 5 + d - 1) + 2) div 153 = (mp :: int)"
proof -
  have "mp \<in> {0, 1, 2, 3, 4, 5, 6, 7, 8, 9, 10, 11}"
    using assms(1,2) by simp presburger
  then show ?thesis using assms(3-)
    by (elim insertE emptyE) simp_all
qed

text \<open>A date of the proleptic Gregorian calendar.\<close>

definition valid_date :: "int \<times> int \<times> int \<Rightarrow> bool" where
  "valid_date = (\<lambda>(y, m, d). 1 \<le> m \<and> m \<le> 12 \<and> 1 \<le> d \<and> d \<le> days_in_month y m)"

lemma is_leap_eq: "is_leap y = ((y mod 4 = 0 \<and> y mod 100 \<noteq> 0) \<or> y mod 400 = 0)"
  by (simp add: is_leap_def smod_eq_0)

lemma days_in_month_bounds:
  assumes "1 \<le> m" "m \<le> 12"
  shows "days_in_month y m \<le> 31" "28 \<le> days_in_month y m" "m = 2 \<Longrightarrow> days_in_month y m \<le> 29"
    "m \<in> {4, 6, 9, 11} \<Longrightarrow> days_in_month y m = 30" "m = 2 \<Longrightarrow> \<not> is_leap y \<Longrightarrow> days_in_month y m = 28"
    "m = 2 \<Longrightarrow> is_leap y \<Longrightarrow> days_in_month y m = 29"
    "m \<in> {1, 3, 5, 7, 8, 10, 12} \<Longrightarrow> days_in_month y m = 31"
proof -
  have "m \<in> {1, 2, 3, 4, 5, 6, 7, 8, 9, 10, 11, 12}"
    using assms by simp presburger
  then show "days_in_month y m \<le> 31" "28 \<le> days_in_month y m" "m = 2 \<Longrightarrow> days_in_month y m \<le> 29"
    "m \<in> {4, 6, 9, 11} \<Longrightarrow> days_in_month y m = 30" "m = 2 \<Longrightarrow> \<not> is_leap y \<Longrightarrow> days_in_month y m = 28"
    "m = 2 \<Longrightarrow> is_leap y \<Longrightarrow> days_in_month y m = 29"
    "m \<in> {1, 3, 5, 7, 8, 10, 12} \<Longrightarrow> days_in_month y m = 31"
    by (elim insertE emptyE; simp add: days_in_month_def)+
qed

text \<open>The leap year that ends on the 29th of February, in terms of its place in the era.\<close>

lemma leap_place:
  assumes "is_leap (400 * era + (100 * c + 4 * q + r) + 1)" "0 \<le> c" "c \<le> 3" "0 \<le> r" "r \<le> 3"
    "0 \<le> q" "q \<le> 24"
  shows "r = 3 \<and> (q \<noteq> 24 \<or> c = 3)"
proof -
  let ?y = "400 * era + (100 * c + 4 * q + r) + 1"
  have "?y = (r + 1) + 4 * (100 * era + 25 * c + q)" by simp
  then have 4: "?y mod 4 = (r + 1) mod 4" by (metis mod_mult_self2)
  have m400: "x mod 400 = 0 \<Longrightarrow> x mod 4 = 0" for x :: int
    using mod_mod_cancel [of 4 400 x] by simp
  have "?y mod 400 = 0 \<Longrightarrow> ?y mod 4 = 0" by (rule m400)
  then have "?y mod 4 = 0" using assms(1) unfolding is_leap_eq by blast
  then have "(r + 1) mod 4 = 0" unfolding 4 .
  then have r: "r = 3" using assms(4,5) by presburger
  moreover have "c = 3" if "q = 24"
  proof -
    have "?y = 400 * era + 100 * (c + 1)" using that r by simp
    moreover have "(400 * era + 100 * (c + 1)) mod 100 = 0"
    proof -
      have "400 * era + 100 * (c + 1) = 100 * (4 * era + (c + 1))" by simp
      then show ?thesis by (metis mod_mult_self1_is_0)
    qed
    ultimately have "(400 * era + 100 * (c + 1)) mod 400 = 0"
      using assms(1) unfolding is_leap_eq by metis
    then have "(100 * (c + 1)) mod 400 = 0" by (simp only: mod_mult_self4)
    moreover have "c = 0 \<or> c = 1 \<or> c = 2 \<or> c = 3" using assms(2,3) by linarith
    ultimately show ?thesis by auto
  qed
  ultimately show ?thesis by blast
qed

lemma leap_place_conv:
  assumes "0 \<le> c" "c \<le> 3" "0 \<le> q" "q \<le> 24" "q \<noteq> 24 \<or> c = 3"
  shows "is_leap (400 * era + (100 * c + 4 * q + 3) + 1)"
proof (cases "q = 24")
  case True
  with assms have "400 * era + (100 * c + 4 * q + 3) + 1 = 400 * (era + 1)" by simp
  then show ?thesis unfolding is_leap_eq by simp
next
  case False
  have "400 * era + (100 * c + 4 * q + 3) + 1 = 4 * (100 * era + 25 * c + q + 1)" by simp
  then have "(400 * era + (100 * c + 4 * q + 3) + 1) mod 4 = 0" by (metis mod_mult_self1_is_0)
  moreover have "(400 * era + (100 * c + 4 * q + 3) + 1) mod 100 = 4 * q + 4"
  proof -
    have "400 * era + (100 * c + 4 * q + 3) + 1 = (4 * q + 4) + 100 * (4 * era + c)" by simp
    also have "\<dots> mod 100 = (4 * q + 4) mod 100" by (rule mod_mult_self2)
    also have "\<dots> = 4 * q + 4" using False assms by (intro mod_pos_pos_trivial) auto
    finally show ?thesis .
  qed
  ultimately show ?thesis using assms(3) unfolding is_leap_eq by simp
qed

lemma civil_of_days:
  assumes "valid_date (y, m, d)"
  shows "civil_from_days (days_from_civil y m d) = (y, m, d)"
proof -
  from assms have md: "1 \<le> m" "m \<le> 12" "1 \<le> d" "d \<le> days_in_month y m"
    by (simp_all add: valid_date_def)
  note dim = days_in_month_bounds [OF md(1,2), of y]
  define mp where "mp = m + (if m > 2 then - 3 else 9)"
  define y' where "y' = (if m \<le> 2 then y - 1 else y)"
  define doy where "doy = (153 * mp + 2) div 5 + d - 1"
  have mp: "0 \<le> mp" "mp \<le> 11" using md by (auto simp: mp_def)
  have d31: "d \<le> 31" using md dim(1) by linarith
  have d30: "d \<le> 30" if "mp \<in> {1, 3, 6, 8}"
    using that md dim(4) by (auto simp: mp_def split: if_splits)
  have d29: "d \<le> 29" if "mp = 11" using that md dim(3) by (auto simp: mp_def split: if_splits)
  have mp12: "mp \<in> {0, 1, 2, 3, 4, 5, 6, 7, 8, 9, 10, 11}" using mp by simp presburger
  have doy: "0 \<le> doy" "doy \<le> 365" "doy = 365 \<longrightarrow> mp = 11 \<and> d = 29"
    using mp12 md(3) d31 d30 d29 unfolding doy_def by (elim insertE emptyE; simp)+
  have yoe: "0 \<le> y' mod 400" "y' mod 400 < 400" by simp_all
  from yoe_split [OF yoe] obtain c q r where yq: "y' mod 400 = 100 * c + 4 * q + r"
    and cqr: "0 \<le> c" "c \<le> 3" "0 \<le> r" "r \<le> 3" "0 \<le> q" "q \<le> 24" by blast
  have y'eq: "y' = 400 * (y' div 400) + (100 * c + 4 * q + r)"
    using mult_div_mod_eq [of 400 y'] yq by linarith
  have leap: "doy = 365 \<longrightarrow> r = 3 \<and> (q \<noteq> 24 \<or> c = 3)"
  proof
    assume "doy = 365"
    with doy(3) md(1,2) have "m = 2" "d = 29" by (auto simp: mp_def split: if_splits)
    with md dim(5) have "is_leap y" by fastforce
    moreover have "y = 400 * (y' div 400) + (100 * c + 4 * q + r) + 1"
      using y'eq \<open>m = 2\<close> by (simp add: y'_def)
    ultimately show "r = 3 \<and> (q \<noteq> 24 \<or> c = 3)" using leap_place cqr by metis
  qed
  define doe where "doe = 36524 * c + 1461 * q + 365 * r + doy"
  note yoe' = yoe_of_doe [OF cqr(1-6) doy(1,2) leap, folded doe_def]
  have days: "days_from_civil y m d + 719468 = (y' div 400) * 146097 + doe"
    using yoe_days [OF cqr]
    by (simp add: days_from_civil_eq Let_def flip: y'_def mp_def doy_def) (simp add: yq doe_def)
  have z: "(days_from_civil y m d + 719468) mod 146097 = doe"
    "(days_from_civil y m d + 719468) div 146097 = y' div 400"
    unfolding days using yoe'(2,3) by (simp_all add: mod_pos_pos_trivial div_pos_pos_trivial)
  have "doe - (365 * (100 * c + 4 * q + r) + (100 * c + 4 * q + r) div 4 - (100 * c + 4 * q + r) div 100) = doy"
    using yoe_days [OF cqr] by (simp add: doe_def)
  moreover have "(5 * doy + 2) div 153 = mp"
    unfolding doy_def using mp md(3) d31 d29 d30 by (intro month_of_doy) auto
  moreover have "doy - (153 * mp + 2) div 5 + 1 = d" by (simp add: doy_def)
  ultimately have "civil_from_days (days_from_civil y m d) =
     (100 * c + 4 * q + r + y' div 400 * 400 + (if mp + (if mp < 10 then 3 else - 9) \<le> 2 then 1 else 0),
      mp + (if mp < 10 then 3 else - 9), d)"
    unfolding civil_from_days_eq Let_def z yoe'(1) by simp
  moreover have "mp + (if mp < 10 then 3 else - 9) = m" using md by (auto simp: mp_def)
  ultimately show ?thesis using y'eq by (simp add: y'_def split: if_splits)
qed

text \<open>The other direction: every day has a valid date, and it is the one computed.\<close>

lemma doy_of_month:
  assumes "0 \<le> doy" "doy \<le> (365 :: int)"
  defines "mp \<equiv> (5 * doy + 2) div 153"
  shows "0 \<le> mp" "mp \<le> 11" "1 \<le> doy - (153 * mp + 2) div 5 + 1" "doy - (153 * mp + 2) div 5 + 1 \<le> 31"
    "mp \<in> {1, 3, 6, 8} \<Longrightarrow> doy - (153 * mp + 2) div 5 + 1 \<le> 30"
    "mp = 11 \<Longrightarrow> doy - (153 * mp + 2) div 5 + 1 = doy - 336"
proof -
  have m: "153 * mp \<le> 5 * doy + 2" "5 * doy + 2 < 153 * mp + 153"
    unfolding mp_def by linarith+
  show mp: "0 \<le> mp" "mp \<le> 11" using m assms(1,2) by linarith+
  then have "mp \<in> {0, 1, 2, 3, 4, 5, 6, 7, 8, 9, 10, 11}" by simp presburger
  then show "1 \<le> doy - (153 * mp + 2) div 5 + 1" "doy - (153 * mp + 2) div 5 + 1 \<le> 31"
    "mp \<in> {1, 3, 6, 8} \<Longrightarrow> doy - (153 * mp + 2) div 5 + 1 \<le> 30"
    "mp = 11 \<Longrightarrow> doy - (153 * mp + 2) div 5 + 1 = doy - 336"
    using m assms(1,2) by (elim insertE emptyE; simp)+
qed

lemma days_of_civil:
  assumes "civil_from_days z = (y, m, d)"
  shows "valid_date (y, m, d)" "days_from_civil y m d = z"
proof -
  define doe where "doe = (z + 719468) mod 146097"
  define era where "era = (z + 719468) div 146097"
  have "0 \<le> doe" "doe \<le> 146096"
    using pos_mod_sign [of 146097 "z + 719468"] pos_mod_bound [of 146097 "z + 719468"]
    by (simp_all add: doe_def)
  from doe_split [OF this] obtain c q r doy where doe: "doe = 36524 * c + 1461 * q + 365 * r + doy"
    and cqr: "0 \<le> c" "c \<le> 3" "0 \<le> r" "r \<le> 3" "0 \<le> q" "q \<le> 24"
    and doy: "0 \<le> doy" "doy \<le> 365" and leap: "doy = 365 \<longrightarrow> r = 3 \<and> (q \<noteq> 24 \<or> c = 3)" by blast
  define yoe where "yoe = 100 * c + 4 * q + r"
  define mp where "mp = (5 * doy + 2) div 153"
  note yoe1 = yoe_of_doe [OF cqr doy leap, folded doe yoe_def]
  have doy': "doe - (365 * yoe + yoe div 4 - yoe div 100) = doy"
    unfolding yoe_def using yoe_days [OF cqr] by (simp add: doe)
  note md = doy_of_month [OF doy, folded mp_def]
  have m: "m = mp + (if mp < 10 then 3 else - 9)" and d: "d = doy - (153 * mp + 2) div 5 + 1"
    and y: "y = yoe + era * 400 + (if m \<le> 2 then 1 else 0)"
    using assms unfolding civil_from_days_eq Let_def doe_def [symmetric] era_def [symmetric]
      yoe1(1) doy' mp_def [symmetric] prod.inject by metis+
  have m12: "1 \<le> m" "m \<le> 12" using md(1,2) by (auto simp: m)
  have mp_m: "mp = m + (if m > 2 then - 3 else 9)" using md(1,2) by (auto simp: m)
  have yy: "(if m \<le> 2 then y - 1 else y) = 400 * era + yoe" by (simp add: y)
  have ye: "0 \<le> yoe" "yoe < 400" using cqr by (auto simp: yoe_def)
  have dm: "(400 * era + yoe) div 400 = era" "(400 * era + yoe) mod 400 = yoe"
    using ye by simp_all
  show "valid_date (y, m, d)"
  proof -
    note dim = days_in_month_bounds [OF m12, of y]
    have "d \<le> days_in_month y m"
    proof (cases "m = 2")
      case True
      then have "mp = 11" by (simp add: mp_m)
      then have d: "d = doy - 336" using md(6) d by simp
      show ?thesis
      proof (cases "doy = 365")
        case True
        with leap cqr have "is_leap (400 * era + (100 * c + 4 * q + 3) + 1)"
          by (intro leap_place_conv) auto
        moreover have "y = 400 * era + (100 * c + 4 * q + 3) + 1"
          using y True leap \<open>m = 2\<close> by (simp add: yoe_def)
        ultimately show ?thesis using dim(6) \<open>m = 2\<close> d True by simp
      next
        case False
        with doy(2) d dim(2) show ?thesis by linarith
      qed
    next
      case False
      then have "m \<in> {4, 6, 9, 11} \<or> m \<in> {1, 3, 5, 7, 8, 10, 12}" using m12 by simp presburger
      then show ?thesis
      proof
        assume *: "m \<in> {4, 6, 9, 11}"
        then have "mp \<in> {1, 3, 6, 8}" by (auto simp: mp_m)
        then show ?thesis using md(5) dim(4) * d by simp
      next
        assume "m \<in> {1, 3, 5, 7, 8, 10, 12}"
        then show ?thesis using md(4) dim(7) d by simp
      qed
    qed
    then show ?thesis using m12 md(3) d by (simp add: valid_date_def)
  qed
  have "days_from_civil y m d =
      era * 146097 + (yoe * 365 + yoe div 4 - yoe div 100 + ((153 * mp + 2) div 5 + d - 1)) - 719468"
    unfolding days_from_civil_eq Let_def yy dm mp_m [symmetric] by simp
  also have "\<dots> = era * 146097 + doe - 719468"
    using doy' d by simp
  also have "\<dots> = z"
    using mult_div_mod_eq [of 146097 "z + 719468"] by (simp add: era_def doe_def)
  finally show "days_from_civil y m d = z" .
qed

section \<open>The weekday rule\<close>

lemma weekday_eq: "weekday_of_days z = (z + 4) mod 7"
proof -
  have "(let wd = a smod 7 in if wd < 0 then wd + 7 else wd) = a mod (7 :: int)" for a
  proof (cases "0 \<le> a")
    case True
    then show ?thesis by (simp add: smod_nonneg Let_def)
  next
    case False
    then have "a smod 7 = - (- a mod 7)" by (simp add: signed_modulo_int_def)
    moreover have "- (- a mod 7) = (if a mod 7 = 0 then 0 else a mod 7 - 7)" by presburger
    moreover have "0 \<le> a mod 7" by simp
    ultimately show ?thesis using pos_mod_bound [of 7 a] by (auto simp: Let_def)
  qed
  then show ?thesis by (simp add: weekday_of_days_def)
qed

lemma floor_div86400_eq: "floor_div86400 a = a div 86400"
proof (cases "0 \<le> a")
  case False
  have "a sdiv 86400 = - (- a div 86400)" using False by (simp add: signed_divide_int_def)
  moreover have "(a smod 86400 = 0) = (a mod 86400 = 0)" by (rule smod_eq_0) simp
  moreover have "- (- a div 86400) = (if a mod 86400 = 0 then a div 86400 else a div 86400 + 1)"
    by (simp add: div_minus_right zdiv_zminus1_eq_if)
  ultimately show ?thesis using False by (simp add: floor_div86400_def Let_def)
qed (simp add: floor_div86400_def Let_def sdiv_nonneg)

lemma days_from_civil_day: "days_from_civil y m d = days_from_civil y m 1 + (d - 1)"
  by (simp add: days_from_civil_def Let_def)

lemma nth_weekday:
  fixes y m w dow :: int
  assumes "1 \<le> m" "m \<le> 12" "1 \<le> w" "w \<le> 5" "0 \<le> dow" "dow \<le> 6"
  defines "d \<equiv> nth_weekday_day y m w dow"
  shows "weekday_of_days (days_from_civil y m d) = dow" "1 \<le> d" "d \<le> days_in_month y m"
    "w < 5 \<Longrightarrow> 7 * (w - 1) < d \<and> d \<le> 7 * w" "w = 5 \<Longrightarrow> days_in_month y m < d + 7"
proof -
  let ?first = "1 + (dow - weekday_of_days (days_from_civil y m 1) + 7) mod 7"
  define f where "f = ?first"
  define D where "D = days_from_civil y m 1"
  have wd: "0 \<le> weekday_of_days D" "weekday_of_days D < 7" by (simp_all add: weekday_eq)
  then have f: "f = 1 + (dow - weekday_of_days D + 7) smod 7"
    using assms(5) by (simp add: f_def D_def smod_nonneg)
  have f17: "1 \<le> f" "f \<le> 7" by (simp_all add: f_def)
  note dim = days_in_month_bounds [OF assms(1,2), of y]
  have dd: "d = (if w = 5 then f + 7 * ((days_in_month y m - f) div 7) else f + 7 * (w - 1))"
    using f f17 dim(2) by (simp add: d_def nth_weekday_day_def Let_def D_def sdiv_nonneg)
  define k where "k = (if w = 5 then (days_in_month y m - f) div 7 else w - 1)"
  have k: "d = f + 7 * k" by (simp add: dd k_def)
  have "weekday_of_days (days_from_civil y m d) = (D + (f + 7 * k - 1) + 4) mod 7"
    by (subst days_from_civil_day) (simp add: weekday_eq k D_def)
  also have "\<dots> = (dow - (D + 4) mod 7 + 7 + (D + 4)) mod 7"
  proof -
    have "D + (f + 7 * k - 1) + 4 = (dow - (D + 4) mod 7 + 7) mod 7 + (D + 4) + 7 * k"
      by (simp add: f_def D_def weekday_eq)
    then have "(D + (f + 7 * k - 1) + 4) mod 7 = ((dow - (D + 4) mod 7 + 7) mod 7 + (D + 4)) mod 7"
      by (simp only: mod_mult_self2)
    then show ?thesis by (simp only: mod_add_left_eq)
  qed
  also have "\<dots> = dow"
  proof -
    have "7 * a + b = e \<Longrightarrow> dow - b + 7 + e = dow + 7 * (1 + a)" for a b e :: int by simp
    from this [OF mult_div_mod_eq]
    have "dow - (D + 4) mod 7 + 7 + (D + 4) = dow + 7 * (1 + (D + 4) div 7)" .
    also have "\<dots> mod 7 = dow mod 7" by (rule mod_mult_self2)
    finally show ?thesis using assms(5,6) by simp
  qed
  finally show "weekday_of_days (days_from_civil y m d) = dow" .
  have "0 \<le> (days_in_month y m - f) div 7" using f17 dim(2) by (simp add: pos_imp_zdiv_nonneg_iff)
  then have "0 \<le> k" using assms(3) by (simp add: k_def)
  then show "1 \<le> d" using f17(1) unfolding k by linarith
  have last: "w = 5 \<Longrightarrow> 7 * k \<le> days_in_month y m - f \<and> days_in_month y m - f < 7 * k + 7"
    by (simp add: k_def) linarith
  show "w < 5 \<Longrightarrow> 7 * (w - 1) < d \<and> d \<le> 7 * w" using f17 by (simp add: k k_def)
  show "w = 5 \<Longrightarrow> days_in_month y m < d + 7" using last unfolding k by linarith
  show "d \<le> days_in_month y m"
  proof (cases "w = 5")
    case True
    then show ?thesis using last unfolding k by linarith
  next
    case False
    then have "k \<le> 3" using assms(4) by (simp add: k_def)
    then show ?thesis using f17(2) dim(2) unfolding k by linarith
  qed
qed

section \<open>The time-zone grammar\<close>

record tz_rule =
  tz_std_off_s :: int
  tz_dst_off_s :: int
  tz_has_dst :: bool
  tz_sm :: int
  tz_sw :: int
  tz_sd :: int
  tz_st :: int
  tz_em :: int
  tz_ew :: int
  tz_ed :: int
  tz_et :: int

definition tz_rule_zero :: tz_rule where
  "tz_rule_zero = \<lparr>tz_std_off_s = 0, tz_dst_off_s = 0, tz_has_dst = False, tz_sm = 0,
     tz_sw = 0, tz_sd = 0, tz_st = 0, tz_em = 0, tz_ew = 0, tz_ed = 0, tz_et = 0\<rparr>"

definition skip_name :: "string \<Rightarrow> string option" where
  "skip_name p =
     (case p of
        [] \<Rightarrow> None
      | c # start \<Rightarrow>
          if c = CHR ''<'' then
            (let q = dropWhile (\<lambda>x. x \<noteq> CHR ''>'') start
             in if q = [] \<or> q = start then None else Some (tl q))
          else if \<not> is_alpha c then None
          else Some (dropWhile is_alpha p))"

definition parse_hms :: "string \<Rightarrow> int \<Rightarrow> (int \<times> string) option" where
  "parse_hms p0 max_h =
     (let (sign, p) = (case p0 of
           [] \<Rightarrow> (1, p0)
         | c # r \<Rightarrow> if c = CHR ''+'' then (1, r) else if c = CHR ''-'' then (- 1, r) else (1, p0))
      in if \<not> starts_with is_digit p then None
         else
           let (h, p1) = strtol10 p;
               finish = (\<lambda>m s q. let total = sign * (h * 3600 + m * 60 + s); limit = max_h * 3600
                                 in if total > limit \<or> total < - limit then None else Some (total, q))
           in if \<not> starts_with (\<lambda>c. c = CHR '':'') p1 then finish 0 0 p1
              else if \<not> starts_with is_digit (tl p1) then None
              else
                let (m, p2) = strtol10 (tl p1)
                in if \<not> starts_with (\<lambda>c. c = CHR '':'') p2 then finish m 0 p2
                   else if \<not> starts_with is_digit (tl p2) then None
                   else let (s, p3) = strtol10 (tl p2) in finish m s p3)"

definition parse_mrule :: "string \<Rightarrow> (int \<times> int \<times> int \<times> int \<times> string) option" where
  "parse_mrule p0 =
     (if \<not> starts_with (\<lambda>c. c = CHR ''M'') p0 then None
      else
        let p = tl p0; (mm, e1) = strtol10 p
        in if e1 = p \<or> mm < 1 \<or> mm > 12 \<or> \<not> starts_with (\<lambda>c. c = CHR ''.'') e1 then None
           else
             let p = tl e1; (ww, e2) = strtol10 p
             in if e2 = p \<or> ww < 1 \<or> ww > 5 \<or> \<not> starts_with (\<lambda>c. c = CHR ''.'') e2 then None
                else
                  let p = tl e2; (dd, e3) = strtol10 p
                  in if e3 = p \<or> dd < 0 \<or> dd > 6 then None
                     else if starts_with (\<lambda>c. c = CHR ''/'') e3
                     then map_option (\<lambda>(t, q). (mm, ww, dd, t, q)) (parse_hms (tl e3) 167)
                     else Some (mm, ww, dd, 2 * 3600, e3))"

text \<open>The part after the DST name and its offset: two rules and the end of the string.\<close>

definition tz_parse_rules :: "tz_rule \<Rightarrow> string \<Rightarrow> tz_rule option" where
  "tz_parse_rules r p =
     (if \<not> starts_with (\<lambda>c. c = CHR '','') p then None
      else
        case parse_mrule (tl p) of
          None \<Rightarrow> None
        | Some (sm, sw, sd, st, p2) \<Rightarrow>
            if \<not> starts_with (\<lambda>c. c = CHR '','') p2 then None
            else
              case parse_mrule (tl p2) of
                None \<Rightarrow> None
              | Some (em, ew, ed, et, p3) \<Rightarrow>
                  if p3 \<noteq> [] then None
                  else Some (r\<lparr>tz_sm := sm, tz_sw := sw, tz_sd := sd, tz_st := st,
                               tz_em := em, tz_ew := ew, tz_ed := ed, tz_et := et\<rparr>))"

definition tz_parse :: "string \<Rightarrow> tz_rule option" where
  "tz_parse posix =
     (case skip_name posix of
        None \<Rightarrow> None
      | Some p1 \<Rightarrow>
          (case parse_hms p1 24 of
             None \<Rightarrow> None
           | Some (std_num, p2) \<Rightarrow>
               let r = tz_rule_zero\<lparr>tz_std_off_s := - std_num\<rparr>
               in if p2 = [] then Some r
                  else
                    case skip_name p2 of
                      None \<Rightarrow> None
                    | Some p3 \<Rightarrow>
                        if starts_with (\<lambda>c. c = CHR ''+'' \<or> c = CHR ''-'' \<or> is_digit c) p3 then
                          (case parse_hms p3 24 of
                             None \<Rightarrow> None
                           | Some (dst_num, p4) \<Rightarrow>
                               tz_parse_rules (r\<lparr>tz_has_dst := True, tz_dst_off_s := - dst_num\<rparr>) p4)
                        else
                          tz_parse_rules
                            (r\<lparr>tz_has_dst := True, tz_dst_off_s := tz_std_off_s r + 3600\<rparr>) p3))"

definition tz_check :: "string \<Rightarrow> bool" where
  "tz_check posix \<longleftrightarrow> tz_parse posix \<noteq> None"

definition tz_offset_at :: "tz_rule \<Rightarrow> u32 \<Rightarrow> int" where
  "tz_offset_at r utc =
     (if \<not> tz_has_dst r then tz_std_off_s r
      else
        let u = int (unat utc);
            (y, mo, d) = civil_from_days (floor_div86400 (u + tz_std_off_s r));
            start_days = days_from_civil y (tz_sm r) (nth_weekday_day y (tz_sm r) (tz_sw r) (tz_sd r));
            end_days = days_from_civil y (tz_em r) (nth_weekday_day y (tz_em r) (tz_ew r) (tz_ed r));
            start_utc = start_days * 86400 + tz_st r - tz_std_off_s r;
            end_utc = end_days * 86400 + tz_et r - tz_dst_off_s r;
            dst_active = (if start_utc \<le> end_utc then u \<ge> start_utc \<and> u < end_utc
                          else u \<ge> start_utc \<or> u < end_utc)
        in if dst_active then tz_dst_off_s r else tz_std_off_s r)"

section \<open>Properties\<close>

text \<open>The day the rule Mm.w.d selects is in the month, falls on the weekday d, and lies in the w-th week of seven days, or in the last seven days of the month for w = 5.\<close>

lemma weekday_rule:
  assumes "1 \<le> m" "m \<le> 12" "1 \<le> w" "w \<le> 5" "0 \<le> dow" "dow \<le> 6"
  shows "weekday_of_days (days_from_civil y m (nth_weekday_day y m w dow)) = dow \<and>
    1 \<le> nth_weekday_day y m w dow \<and> nth_weekday_day y m w dow \<le> days_in_month y m \<and>
    (if w < 5 then 7 * (w - 1) < nth_weekday_day y m w dow \<and> nth_weekday_day y m w dow \<le> 7 * w
     else days_in_month y m < nth_weekday_day y m w dow + 7)"
  using nth_weekday [OF assms, of y] assms(4) by auto

lemma weekday_rule_witness:
  \<open>weekday_of_days (days_from_civil 2024 3 (nth_weekday_day 2024 3 5 0)) = 0\<close>
  using weekday_rule [of 3 5 0 2024] by simp

text \<open>C40. Every valid date is recovered from its day number, and every day number has a valid date that leads back to it.\<close>

lemma calendar_is_inverse:
  \<open>(valid_date (y, m, d) \<longrightarrow> civil_from_days (days_from_civil y m d) = (y, m, d)) \<and>
     valid_date (civil_from_days z) \<and>
     (case civil_from_days z of (y', m', d') \<Rightarrow> days_from_civil y' m' d' = z)\<close>
  using civil_of_days [of y m d] days_of_civil [of z] by (cases "civil_from_days z") auto

lemma calendar_is_inverse_witness:
  \<open>civil_from_days (days_from_civil 2024 2 29) = (2024, 2, 29)\<close>
  using calendar_is_inverse [of 2024 2 29 0] by (simp add: valid_date_def days_in_month_def is_leap_eq)

end
