(* ===== verification/HG_Cfg.thy ===== *)
theory HG_Cfg
  imports C_Text Ring_Proto
begin

text \<open>
  \<^verbatim>\<open>components/hg_cfg\<close>: the two configuration planes of a zone, the table that gives every
  field a name, a type and a range, reading and writing a field as text, and the validation of
  a whole plane. The C addresses fields by their offset, sends the structs as they lie in
  memory and computes checksums over them, so a plane is its byte image; the offsets are those
  of \<^verbatim>\<open>hg_cfg_types.h\<close>. Shown: what a text write accepts is in range and reads back to
  a text that writes the same bytes, writes to one field change no other, the defaults are
  valid, and in a validated hardware map no two outputs share a pin.
\<close>

section \<open>The planes\<close>

definition HG_MAX_SHELVES :: nat where "HG_MAX_SHELVES = 4"
definition HG_MAX_AUX :: nat where "HG_MAX_AUX = 2"
definition HG_NONE :: u8 where "HG_NONE = 0xFF"
definition HG_SRC_LOCAL :: u8 where "HG_SRC_LOCAL = 0"
definition HG_SRC_MASTER :: u8 where "HG_SRC_MASTER = 1"

type_synonym hg_zone_hw = "u8 list"   \<comment> \<open>160 bytes\<close>
type_synonym hg_zone_cfg = "u8 list"  \<comment> \<open>336 bytes\<close>

text \<open>Where the parts of the planes begin.\<close>

definition hw_shelf_off :: "nat \<Rightarrow> nat" where "hw_shelf_off s = 32 + 32 * s"
definition hw_aux_off :: "nat \<Rightarrow> nat" where "hw_aux_off a = 16 + 4 * a"
definition cfg_shelf_off :: "nat \<Rightarrow> nat" where "cfg_shelf_off s = 48 + 72 * s"
definition cfg_aux_off :: "nat \<Rightarrow> nat" where "cfg_aux_off a = 24 + 8 * a"

lemmas off_defs = hw_shelf_off_def hw_aux_off_def cfg_shelf_off_def cfg_aux_off_def

section \<open>Defaults\<close>

definition default_shelf_hw :: "nat \<Rightarrow> u8 list" where
  "default_shelf_hw i =
     [of_nat (2 * i), of_nat (2 * i + 1), of_nat i, of_nat (4 + i), of_nat (2 * i), of_nat (2 * i + 1),
      100, 100] @
     le16_put 2800 @ le16_put 2800 @ le16_put 1300 @ le16_put 1300 @ le16_put 300 @ le16_put 3200 @
     le16_put 60 @ le16_put 600 @ [of_nat (8 + i)] @ replicate 7 0"

definition hg_defaults_hw :: hg_zone_hw where
  "hg_defaults_hw =
     [4, 0x40, 0x20, 0] @ le16_put 0xFFFF @ le16_put 1000 @ [32, 33, 34, 35, 36, 39, 25, 26] @
     concat (replicate HG_MAX_AUX [0, HG_NONE, 0, 0]) @ replicate 8 0 @
     concat (map default_shelf_hw [0 ..< HG_MAX_SHELVES])"

definition default_shelf_cfg :: "u8 list" where
  "default_shelf_cfg =
     replicate 16 0 @ [0, 0, 0, 0] @ le32_put 0 @
     le16_put (6 * 60) @ le16_put (22 * 60) @ [50, 30, 0, 0] @ le16_put 0 @ [0, 0] @
     [1, 45, 5, 10] @ le16_put 20 @ le16_put 120 @ [6, 15] @ le16_put 0 @ le16_put 0 @ [0, 0] @
     [3, 15] @ le16_put 60 @
     [0, 60, 5, 0] @ le16_put 120 @ le16_put (10 * 60) @ le16_put (16 * 60) @ replicate 6 0"

definition hg_defaults_cfg :: hg_zone_cfg where
  "hg_defaults_cfg =
     le32_put 0 @ [HG_SRC_LOCAL, 0] @ le16_put 30 @ bytes_of ''zone'' @ replicate 12 0 @
     concat (replicate HG_MAX_AUX ([0, 1] @ le16_put 5 @ le16_put 0 @ le16_put 0)) @ replicate 8 0 @
     concat (replicate HG_MAX_SHELVES default_shelf_cfg)"

section \<open>The field table\<close>

datatype hg_ftype = HG_T_U8 | HG_T_U16 | HG_T_BOOL | HG_T_HHMM | HG_T_ENUM | HG_T_STR16 | HG_T_PIN | HG_T_STR

record hg_field =
  fd_group :: u8
  fd_key :: string
  fd_offset :: nat
  fd_type :: hg_ftype
  fd_min :: int
  fd_max :: int
  fd_enums :: string

definition FLD :: "u8 \<Rightarrow> string \<Rightarrow> nat \<Rightarrow> hg_ftype \<Rightarrow> int \<Rightarrow> int \<Rightarrow> string \<Rightarrow> hg_field" where
  "FLD g k off t lo hi e = \<lparr>fd_group = g, fd_key = k, fd_offset = off, fd_type = t, fd_min = lo,
     fd_max = hi, fd_enums = e\<rparr>"

definition HG_G_ZONECFG :: u8 where "HG_G_ZONECFG = 0"
definition HG_G_SHELF :: u8 where "HG_G_SHELF = 1"
definition HG_G_LIGHT :: u8 where "HG_G_LIGHT = 2"
definition HG_G_WATER :: u8 where "HG_G_WATER = 3"
definition HG_G_FAN :: u8 where "HG_G_FAN = 4"
definition HG_G_VIB :: u8 where "HG_G_VIB = 5"
definition HG_G_AUX :: u8 where "HG_G_AUX = 6"
definition HG_G_HW :: u8 where "HG_G_HW = 7"
definition HG_G_HWSHELF :: u8 where "HG_G_HWSHELF = 8"
definition HG_G_CAL :: u8 where "HG_G_CAL = 9"

lemmas group_ids = HG_G_ZONECFG_def HG_G_SHELF_def HG_G_LIGHT_def HG_G_WATER_def HG_G_FAN_def
  HG_G_VIB_def HG_G_AUX_def HG_G_HW_def HG_G_HWSHELF_def HG_G_CAL_def

definition HG_GROUP_NAMES :: "string list" where
  "HG_GROUP_NAMES = [''ZONECFG'', ''SHELF'', ''LIGHT'', ''WATER'', ''FAN'', ''VIB'', ''AUX'', ''HW'',
     ''HWSHELF'', ''CAL'']"

definition HG_FIELDS :: "hg_field list" where
  "HG_FIELDS = [
     FLD HG_G_ZONECFG ''NAME'' 8 HG_T_STR16 0 15 '''',
     FLD HG_G_ZONECFG ''LINKLOSS_S'' 6 HG_T_U16 10 600 '''',
     FLD HG_G_SHELF ''CROP'' 0 HG_T_STR16 0 15 '''',
     FLD HG_G_SHELF ''ENABLED'' 16 HG_T_BOOL 0 1 '''',
     FLD HG_G_SHELF ''PROFILE'' 17 HG_T_U8 0 16 '''',
     FLD HG_G_LIGHT ''ON'' 0 HG_T_HHMM 0 1439 '''',
     FLD HG_G_LIGHT ''OFF'' 2 HG_T_HHMM 0 1439 '''',
     FLD HG_G_LIGHT ''WHITE'' 4 HG_T_U8 0 100 '''',
     FLD HG_G_LIGHT ''RED'' 5 HG_T_U8 0 100 '''',
     FLD HG_G_LIGHT ''RAMP_MIN'' 6 HG_T_U8 0 120 '''',
     FLD HG_G_LIGHT ''DLI'' 8 HG_T_U16 0 1000 '''',
     FLD HG_G_WATER ''MODE'' 0 HG_T_ENUM 0 1 ''OFF|AUTO'',
     FLD HG_G_WATER ''TARGET'' 1 HG_T_U8 0 100 '''',
     FLD HG_G_WATER ''HYST'' 2 HG_T_U8 1 30 '''',
     FLD HG_G_WATER ''SETTLE_MIN'' 3 HG_T_U8 1 60 '''',
     FLD HG_G_WATER ''DOSE_S'' 4 HG_T_U16 1 300 '''',
     FLD HG_G_WATER ''INTERVAL_MIN'' 6 HG_T_U16 10 1440 '''',
     FLD HG_G_WATER ''MAX_DOSES'' 8 HG_T_U8 0 24 '''',
     FLD HG_G_WATER ''DIFF_MAX'' 9 HG_T_U8 5 50 '''',
     FLD HG_G_WATER ''WIN_START'' 10 HG_T_HHMM 0 1439 '''',
     FLD HG_G_WATER ''WIN_END'' 12 HG_T_HHMM 0 1439 '''',
     FLD HG_G_FAN ''MODE'' 0 HG_T_ENUM 0 3 ''OFF|ON|LIGHT|CYCLE'',
     FLD HG_G_FAN ''ON_MIN'' 1 HG_T_U8 0 60 '''',
     FLD HG_G_FAN ''PERIOD_MIN'' 2 HG_T_U16 0 1440 '''',
     FLD HG_G_VIB ''MODE'' 0 HG_T_ENUM 0 1 ''OFF|PULSE'',
     FLD HG_G_VIB ''INTENSITY'' 1 HG_T_U8 20 100 '''',
     FLD HG_G_VIB ''PULSE_S'' 2 HG_T_U8 1 30 '''',
     FLD HG_G_VIB ''INTERVAL_MIN'' 4 HG_T_U16 5 1440 '''',
     FLD HG_G_VIB ''START'' 6 HG_T_HHMM 0 1439 '''',
     FLD HG_G_VIB ''END'' 8 HG_T_HHMM 0 1439 '''',
     FLD HG_G_AUX ''MODE'' 0 HG_T_ENUM 0 1 ''OFF|PULSE'',
     FLD HG_G_AUX ''PULSE_S'' 1 HG_T_U8 1 30 '''',
     FLD HG_G_AUX ''INTERVAL_MIN'' 2 HG_T_U16 5 1440 '''',
     FLD HG_G_AUX ''START'' 4 HG_T_HHMM 0 1439 '''',
     FLD HG_G_AUX ''END'' 6 HG_T_HHMM 0 1439 '''',
     FLD HG_G_HW ''SHELVES'' 0 HG_T_U8 1 4 '''',
     FLD HG_G_HW ''PCA_ADDR'' 1 HG_T_U8 0 127 '''',
     FLD HG_G_HW ''PCF_ADDR'' 2 HG_T_U8 0 127 '''',
     FLD HG_G_HW ''SOIL_BACKEND'' 3 HG_T_ENUM 0 1 ''INTERNAL|ADS1115'',
     FLD HG_G_HW ''PCF_ACTLOW'' 4 HG_T_U16 0 65535 '''',
     FLD HG_G_HW ''PCA_HZ'' 6 HG_T_U16 200 1500 '''',
     FLD HG_G_HWSHELF ''LED_W'' 0 HG_T_PIN 0 15 '''',
     FLD HG_G_HWSHELF ''LED_R'' 1 HG_T_PIN 0 15 '''',
     FLD HG_G_HWSHELF ''PUMP'' 2 HG_T_PIN 0 15 '''',
     FLD HG_G_HWSHELF ''FAN'' 3 HG_T_PIN 0 15 '''',
     FLD HG_G_HWSHELF ''SOIL_A'' 4 HG_T_PIN 0 7 '''',
     FLD HG_G_HWSHELF ''SOIL_B'' 5 HG_T_PIN 0 7 '''',
     FLD HG_G_HWSHELF ''VIB'' 24 HG_T_PIN 0 15 '''',
     FLD HG_G_HWSHELF ''LED_MAX_W'' 6 HG_T_U8 0 100 '''',
     FLD HG_G_HWSHELF ''LED_MAX_R'' 7 HG_T_U8 0 100 '''',
     FLD HG_G_HWSHELF ''PUMP_MAX_RUN_S'' 20 HG_T_U16 1 300 '''',
     FLD HG_G_HWSHELF ''PUMP_MAX_DAILY_S'' 22 HG_T_U16 1 3600 '''',
     FLD HG_G_CAL ''DRY_A'' 8 HG_T_U16 0 3300 '''',
     FLD HG_G_CAL ''DRY_B'' 10 HG_T_U16 0 3300 '''',
     FLD HG_G_CAL ''WET_A'' 12 HG_T_U16 0 3300 '''',
     FLD HG_G_CAL ''WET_B'' 14 HG_T_U16 0 3300 '''',
     FLD HG_G_CAL ''MIN_OK'' 16 HG_T_U16 0 3300 '''',
     FLD HG_G_CAL ''MAX_OK'' 18 HG_T_U16 0 3300 '''']"

section \<open>Reading and writing a field as text\<close>

definition hg_group_find :: "string \<Rightarrow> nat option" where
  "hg_group_find name = first_idx (ci_eq name) HG_GROUP_NAMES"

definition hg_group_scope :: "u8 \<Rightarrow> nat" where
  "hg_group_scope g =
     (if g = HG_G_ZONECFG \<or> g = HG_G_HW then 0 else if g = HG_G_AUX then 2 else 1)"

definition hg_group_is_hw :: "u8 \<Rightarrow> bool" where
  "hg_group_is_hw g \<longleftrightarrow> g = HG_G_HW \<or> g = HG_G_HWSHELF \<or> g = HG_G_CAL"

text \<open>A pointer into one of the planes: which plane, and the offset.\<close>

datatype plane = PlaneHw | PlaneCfg

definition group_base :: "u8 \<Rightarrow> int \<Rightarrow> (plane \<times> nat) option" where
  "group_base g idx =
     (let scope = hg_group_scope g; i = nat idx in
      if scope = 1 \<and> (idx < 0 \<or> idx \<ge> int HG_MAX_SHELVES) then None
      else if scope = 2 \<and> (idx < 0 \<or> idx \<ge> int HG_MAX_AUX) then None
      else if g = HG_G_ZONECFG then Some (PlaneCfg, 0)
      else if g = HG_G_SHELF then Some (PlaneCfg, cfg_shelf_off i)
      else if g = HG_G_LIGHT then Some (PlaneCfg, cfg_shelf_off i + 24)
      else if g = HG_G_WATER then Some (PlaneCfg, cfg_shelf_off i + 36)
      else if g = HG_G_FAN then Some (PlaneCfg, cfg_shelf_off i + 52)
      else if g = HG_G_VIB then Some (PlaneCfg, cfg_shelf_off i + 56)
      else if g = HG_G_AUX then Some (PlaneCfg, cfg_aux_off i)
      else if g = HG_G_HW then Some (PlaneHw, 0)
      else if g = HG_G_HWSHELF then Some (PlaneHw, hw_shelf_off i)
      else if g = HG_G_CAL then Some (PlaneHw, hw_shelf_off i)
      else None)"

definition find_row :: "u8 \<Rightarrow> string \<Rightarrow> hg_field option" where
  "find_row g key = find (\<lambda>f. fd_group f = g \<and> ci_eq (fd_key f) key) HG_FIELDS"

definition hg_hhmm_parse :: "string \<Rightarrow> int option" where
  "hg_hhmm_parse s =
     (let hs = takeWhile (\<lambda>c. c \<noteq> CHR '':'') s; colon = dropWhile (\<lambda>c. c \<noteq> CHR '':'') s in
      if colon = [] then
        (case parse_int s of None \<Rightarrow> None | Some v \<Rightarrow> if v < 0 \<or> v > 1439 then None else Some v)
      else
        if length hs < 1 \<or> length hs > 2 \<or> length (tl colon) \<noteq> 2 then None
        else
          case (parse_int hs, parse_int (tl colon)) of
            (Some h, Some m) \<Rightarrow>
              if h < 0 \<or> h > 23 \<or> m < 0 \<or> m > 59 then None else Some (h * 60 + m)
          | _ \<Rightarrow> None)"

text \<open>The \<open>%02u\<close> of \<open>snprintf\<close>.\<close>

definition show_dec2 :: "nat \<Rightarrow> string" where
  "show_dec2 n = (if n < 10 then CHR ''0'' # show_dec n else show_dec n)"

definition hg_hhmm_format :: "nat \<Rightarrow> string" where
  "hg_hhmm_format minutes =
     (let m = minutes mod 1440 in show_dec2 (m div 60) @ CHR '':'' # show_dec2 (m mod 60))"

text \<open>
  The loop of \<open>enum_parse\<close> over the names between bars: the index of the matching name, or
  \<open>Inl\<close> the index of the last one.
\<close>

function enum_scan :: "string \<Rightarrow> string \<Rightarrow> int \<Rightarrow> int + int" where
  "enum_scan p val idx =
     (if p = [] then Inl idx
      else
        let name = takeWhile (\<lambda>c. c \<noteq> CHR ''|'') p; bar = dropWhile (\<lambda>c. c \<noteq> CHR ''|'') p in
        if length name < 16 \<and> ci_eq name val then Inr idx
        else if bar = [] then Inl idx
        else enum_scan (tl bar) val (idx + 1))"
  by pat_completeness auto
termination
proof (relation "measure (\<lambda>(p, _). length p)")
  fix p val :: string and idx :: int and name bar :: string
  assume "p \<noteq> []" "bar = dropWhile (\<lambda>c. c \<noteq> CHR ''|'') p" "bar \<noteq> []"
  then have "length (tl bar) < length bar" "length bar \<le> length p"
    by (simp_all add: length_dropWhile_le)
  then have "length (tl bar) < length p" by (rule less_le_trans)
  then show "((tl bar, val, idx + 1), p, val, idx) \<in> measure (\<lambda>(p, _). length p)" by simp
qed simp

declare enum_scan.simps [simp del]

definition enum_parse :: "string \<Rightarrow> string \<Rightarrow> int option" where
  "enum_parse enums val =
     (case enum_scan enums val 0 of
        Inr idx \<Rightarrow> Some idx
      | Inl idx \<Rightarrow>
          (case parse_int val of
             Some v \<Rightarrow> if v \<ge> 0 \<and> v \<le> idx then Some v else None
           | None \<Rightarrow> None))"

fun enum_name :: "string \<Rightarrow> nat \<Rightarrow> string" where
  "enum_name p 0 = take 15 (takeWhile (\<lambda>c. c \<noteq> CHR ''|'') p)"
| "enum_name p (Suc idx) =
     (let bar = dropWhile (\<lambda>c. c \<noteq> CHR ''|'') p in
      if bar = [] then ''?'' else enum_name (tl bar) idx)"

definition str_ok :: "string \<Rightarrow> bool" where
  "str_ok s \<longleftrightarrow> length s \<le> 15 \<and> (\<forall>c \<in> set s. \<not> (char_code c \<le> 0x20 \<or> char_code c > 0x7E))"

datatype field_err = FE_BAD_ARGS | FE_RANGE | FE_FIELD | FE_INDEX

definition put_u8 :: "u8 list \<Rightarrow> nat \<Rightarrow> int \<Rightarrow> u8 list" where
  "put_u8 img dst v = mem_put img dst [of_int v]"

definition put_u16 :: "u8 list \<Rightarrow> nat \<Rightarrow> int \<Rightarrow> u8 list" where
  "put_u16 img dst v = mem_put img dst (le16_put (of_int v))"

definition hg_field_write :: "hg_field \<Rightarrow> u8 list \<Rightarrow> nat \<Rightarrow> string \<Rightarrow> field_err + u8 list" where
  "hg_field_write f img base tx =
     (let dst = base + fd_offset f in
      case fd_type f of
        HG_T_STR16 \<Rightarrow>
          if \<not> str_ok tx then Inl FE_BAD_ARGS
          else Inr (mem_put img dst (bytes_of tx @ replicate (16 - length tx) 0))
      | HG_T_STR \<Rightarrow>
          if int (length tx) > fd_max f then Inl FE_RANGE
          else Inr (mem_put img dst (bytes_of tx @ replicate (nat (fd_max f) + 1 - length tx) 0))
      | HG_T_BOOL \<Rightarrow>
          if ci_eq tx ''ON'' \<or> ci_eq tx ''ENABLE'' \<or> ci_eq tx ''1'' then Inr (put_u8 img dst 1)
          else if ci_eq tx ''OFF'' \<or> ci_eq tx ''DISABLE'' \<or> ci_eq tx ''0'' then Inr (put_u8 img dst 0)
          else Inl FE_BAD_ARGS
      | HG_T_ENUM \<Rightarrow>
          ebind (need FE_BAD_ARGS (enum_parse (fd_enums f) tx)) (\<lambda>v. Inr (put_u8 img dst v))
      | HG_T_HHMM \<Rightarrow>
          ebind (need FE_BAD_ARGS (hg_hhmm_parse tx)) (\<lambda>m. Inr (put_u16 img dst m))
      | HG_T_PIN \<Rightarrow>
          if ci_eq tx ''NONE'' then Inr (mem_put img dst [HG_NONE])
          else
            ebind (need FE_BAD_ARGS (parse_int tx)) (\<lambda>v.
            ebind (guard_not (v < fd_min f \<or> v > fd_max f) FE_RANGE) (\<lambda>_. Inr (put_u8 img dst v)))
      | HG_T_U8 \<Rightarrow>
          ebind (need FE_BAD_ARGS (parse_int tx)) (\<lambda>v.
          ebind (guard_not (v < fd_min f \<or> v > fd_max f) FE_RANGE) (\<lambda>_. Inr (put_u8 img dst v)))
      | HG_T_U16 \<Rightarrow>
          ebind (need FE_BAD_ARGS (parse_int tx)) (\<lambda>v.
          ebind (guard_not (v < fd_min f \<or> v > fd_max f) FE_RANGE) (\<lambda>_. Inr (put_u16 img dst v))))"

text \<open>\<open>snprintf\<close> into a buffer of \<open>cap\<close> bytes keeps \<open>cap - 1\<close> characters.\<close>

definition hg_field_read :: "hg_field \<Rightarrow> u8 list \<Rightarrow> nat \<Rightarrow> nat \<Rightarrow> string" where
  "hg_field_read f img base cap =
     (let src = base + fd_offset f in
      take (cap - 1)
       (case fd_type f of
          HG_T_STR16 \<Rightarrow> text_at img src
        | HG_T_STR \<Rightarrow> text_at img src
        | HG_T_BOOL \<Rightarrow> show_dec (unat (img ! src))
        | HG_T_ENUM \<Rightarrow> enum_name (fd_enums f) (unat (img ! src))
        | HG_T_HHMM \<Rightarrow> hg_hhmm_format (unat (le16_at img src))
        | HG_T_PIN \<Rightarrow> if img ! src = HG_NONE then ''NONE'' else show_dec (unat (img ! src))
        | HG_T_U8 \<Rightarrow> show_dec (unat (img ! src))
        | HG_T_U16 \<Rightarrow> show_dec (unat (le16_at img src))))"

definition hg_field_set_text ::
  "hg_zone_hw \<Rightarrow> hg_zone_cfg \<Rightarrow> u8 \<Rightarrow> int \<Rightarrow> string \<Rightarrow> string \<Rightarrow> field_err + hg_zone_hw \<times> hg_zone_cfg" where
  "hg_field_set_text hw cfg g idx key val =
     ebind (need FE_FIELD (find_row g key)) (\<lambda>f.
     ebind (need FE_INDEX (group_base g idx)) (\<lambda>(pl, base).
     case pl of
       PlaneHw \<Rightarrow> ebind (hg_field_write f hw base val) (\<lambda>hw'. Inr (hw', cfg))
     | PlaneCfg \<Rightarrow> ebind (hg_field_write f cfg base val) (\<lambda>cfg'. Inr (hw, cfg'))))"

definition hg_field_get_text ::
  "hg_zone_hw \<Rightarrow> hg_zone_cfg \<Rightarrow> u8 \<Rightarrow> int \<Rightarrow> string \<Rightarrow> nat \<Rightarrow> field_err + string" where
  "hg_field_get_text hw cfg g idx key cap =
     ebind (need FE_FIELD (find_row g key)) (\<lambda>f.
     ebind (need FE_INDEX (group_base g idx)) (\<lambda>(pl, base).
     Inr (hg_field_read f (case pl of PlaneHw \<Rightarrow> hw | PlaneCfg \<Rightarrow> cfg) base cap)))"

section \<open>Validation\<close>

text \<open>The path an error names, e.g. \<open>shelf[2].water.dose_s\<close> (before \<open>snprintf\<close> cuts it to the caller's buffer).\<close>

definition to_low :: "char \<Rightarrow> char" where
  "to_low c = (if 65 \<le> char_code c \<and> char_code c \<le> 90 then char_of (char_code c + 32) else c)"

definition fail :: "int \<Rightarrow> u8 \<Rightarrow> string \<Rightarrow> string" where
  "fail shelf grp key =
     (let lg = map to_low (take 11 (HG_GROUP_NAMES ! unat grp)); lk = map to_low (take 23 key) in
      if shelf \<ge> 0 then
        if grp = HG_G_SHELF then ''shelf['' @ show_dec (nat shelf) @ ''].'' @ lk
        else ''shelf['' @ show_dec (nat shelf) @ ''].'' @ lg @ ''.'' @ lk
      else lg @ ''.'' @ lk)"

fun str16_scan :: "u8 list \<Rightarrow> bool" where
  "str16_scan [] = False"
| "str16_scan (c # cs) = (if c = 0 then True else if c < 0x20 \<or> c > 0x7E then False else str16_scan cs)"

definition str16_ok :: "u8 list \<Rightarrow> nat \<Rightarrow> bool" where
  "str16_ok img i \<longleftrightarrow> str16_scan (take 16 (drop i img))"

definition field_raw :: "u8 list \<Rightarrow> nat \<Rightarrow> hg_field \<Rightarrow> int" where
  "field_raw img base f =
     (let p = base + fd_offset f in
      if fd_type f = HG_T_U16 \<or> fd_type f = HG_T_HHMM then int (unat (le16_at img p))
      else int (unat (img ! p)))"

definition row_ok :: "u8 list \<Rightarrow> nat \<Rightarrow> hg_field \<Rightarrow> bool" where
  "row_ok img base f =
     (let v = field_raw img base f;
          hi = (if fd_type f = HG_T_HHMM then 1439 else fd_max f);
          lo = (if fd_type f = HG_T_HHMM then 0 else fd_min f)
      in (fd_type f = HG_T_PIN \<and> v = int (unat HG_NONE)) \<or> \<not> (v < lo \<or> v > hi))"

definition check_group_rows :: "u8 list \<Rightarrow> nat \<Rightarrow> u8 \<Rightarrow> int \<Rightarrow> string + unit" where
  "check_group_rows img base grp shelf =
     (case find (\<lambda>f. fd_group f = grp \<and> fd_type f \<noteq> HG_T_STR16 \<and> \<not> row_ok img base f) HG_FIELDS of
        None \<Rightarrow> Inr ()
      | Some f \<Rightarrow> Inl (fail shelf grp (fd_key f)))"

text \<open>
  \<open>mark_dup\<close> enters a pin into a table of used pins; \<open>mark_soil\<close> is the same step for the soil
  channels, written out twice in the C.
\<close>

definition mark_dup :: "bool list \<Rightarrow> u8 \<Rightarrow> bool list option" where
  "mark_dup used pin =
     (if pin = HG_NONE then Some used
      else if pin > 15 \<or> used ! unat pin then None
      else Some (used[unat pin := True]))"

definition mark_soil :: "bool list \<Rightarrow> u8 \<Rightarrow> bool list option" where
  "mark_soil used ch =
     (if ch = HG_NONE then Some used
      else if ch > 7 \<or> used ! unat ch then None
      else Some (used[unat ch := True]))"

text \<open>One round of the shelf loop; the three tables of used pins are its state.\<close>

definition hw_shelf :: "hg_zone_hw \<Rightarrow> nat \<Rightarrow> bool list \<times> bool list \<times> bool list
    \<Rightarrow> string + bool list \<times> bool list \<times> bool list" where
  "hw_shelf hw s = (\<lambda>(pca, pcf, soil).
     (let p = hw_shelf_off s; n = int s in
     ebind (check_group_rows hw p HG_G_HWSHELF n) (\<lambda>_.
     ebind (check_group_rows hw p HG_G_CAL n) (\<lambda>_.
     ebind (need (fail n HG_G_HWSHELF ''LED_W'') (mark_dup pca (hw ! p))) (\<lambda>pca.
     ebind (need (fail n HG_G_HWSHELF ''LED_R'') (mark_dup pca (hw ! (p + 1)))) (\<lambda>pca.
     ebind (need (fail n HG_G_HWSHELF ''VIB'') (mark_dup pca (hw ! (p + 24)))) (\<lambda>pca.
     ebind (need (fail n HG_G_HWSHELF ''PUMP'') (mark_dup pcf (hw ! (p + 2)))) (\<lambda>pcf.
     ebind (need (fail n HG_G_HWSHELF ''FAN'') (mark_dup pcf (hw ! (p + 3)))) (\<lambda>pcf.
     ebind (need (fail n HG_G_HWSHELF ''SOIL_A'') (mark_soil soil (hw ! (p + 4)))) (\<lambda>soil.
     ebind (need (fail n HG_G_HWSHELF ''SOIL_B'') (mark_soil soil (hw ! (p + 5)))) (\<lambda>soil.
     ebind (guard_not (le16_at hw (p + 16) \<ge> le16_at hw (p + 18)) (fail n HG_G_CAL ''MIN_OK'')) (\<lambda>_.
     ebind (guard_not (le16_at hw (p + 8) \<le> le16_at hw (p + 12)) (fail n HG_G_CAL ''DRY_A'')) (\<lambda>_.
     ebind (guard_not (le16_at hw (p + 10) \<le> le16_at hw (p + 14)) (fail n HG_G_CAL ''DRY_B'')) (\<lambda>_.
     Inr (pca, pcf, soil)))))))))))))))"

definition hw_aux :: "hg_zone_hw \<Rightarrow> nat \<Rightarrow> bool list \<Rightarrow> string + bool list" where
  "hw_aux hw a pcf =
     (if hw ! hw_aux_off a \<noteq> 0
      then need (fail (- 1) HG_G_HW ''AUX_PIN'') (mark_dup pcf (hw ! (hw_aux_off a + 1)))
      else Inr pcf)"

definition hg_hw_validate :: "hg_zone_hw \<Rightarrow> string + unit" where
  "hg_hw_validate hw =
     ebind (check_group_rows hw 0 HG_G_HW (- 1)) (\<lambda>_.
     ebind (efold (hw_shelf hw) [0 ..< min (unat (hw ! 0)) HG_MAX_SHELVES]
        (replicate 16 False, replicate 16 False, replicate 8 False)) (\<lambda>(pca, pcf, soil).
     ebind (efold (hw_aux hw) [0 ..< HG_MAX_AUX] pcf) (\<lambda>_.
     Inr ())))"

text \<open>One round of the shelf loop of \<open>hg_cfg_validate\<close>; \<open>hw\<close> is optional.\<close>

definition cfg_shelf :: "hg_zone_cfg \<Rightarrow> hg_zone_hw option \<Rightarrow> nat \<Rightarrow> unit \<Rightarrow> string + unit" where
  "cfg_shelf cfg hw s _ =
     (let p = cfg_shelf_off s; n = int s; light = p + 24; water = p + 36 in
     ebind (guard_not (\<not> str16_ok cfg p) (fail n HG_G_SHELF ''CROP'')) (\<lambda>_.
     ebind (check_group_rows cfg p HG_G_SHELF n) (\<lambda>_.
     ebind (check_group_rows cfg light HG_G_LIGHT n) (\<lambda>_.
     ebind (check_group_rows cfg water HG_G_WATER n) (\<lambda>_.
     ebind (check_group_rows cfg (p + 52) HG_G_FAN n) (\<lambda>_.
     ebind (check_group_rows cfg (p + 56) HG_G_VIB n) (\<lambda>_.
     ebind (guard_not (le16_at cfg light = le16_at cfg (light + 2)) (fail n HG_G_LIGHT ''OFF'')) (\<lambda>_.
     case hw of
       None \<Rightarrow> Inr ()
     | Some hw \<Rightarrow>
         let sh = hw_shelf_off s; dose_s = le16_at cfg (water + 4); max_doses = cfg ! (water + 8) in
         ebind (guard_not (cfg ! (p + 16) \<noteq> 0 \<and> s \<ge> unat (hw ! 0)) (fail n HG_G_SHELF ''ENABLED'')) (\<lambda>_.
         ebind (guard_not (dose_s > le16_at hw (sh + 20)) (fail n HG_G_WATER ''DOSE_S'')) (\<lambda>_.
         guard_not ((ucast max_doses :: u32) * ucast dose_s > ucast (le16_at hw (sh + 22)))
           (fail n HG_G_WATER ''MAX_DOSES'')))))))))))"

definition cfg_aux :: "hg_zone_cfg \<Rightarrow> nat \<Rightarrow> unit \<Rightarrow> string + unit" where
  "cfg_aux cfg a _ =
     (if cfg ! cfg_aux_off a \<noteq> 0 then check_group_rows cfg (cfg_aux_off a) HG_G_AUX (- 1) else Inr ())"

definition hg_cfg_validate :: "hg_zone_cfg \<Rightarrow> hg_zone_hw option \<Rightarrow> string + unit" where
  "hg_cfg_validate cfg hw =
     ebind (guard_not (\<not> str16_ok cfg 8 \<or> cfg ! 8 = 0) (fail (- 1) HG_G_ZONECFG ''NAME'')) (\<lambda>_.
     ebind (check_group_rows cfg 0 HG_G_ZONECFG (- 1)) (\<lambda>_.
     ebind (efold (cfg_aux cfg) [0 ..< HG_MAX_AUX] ()) (\<lambda>_.
     efold (cfg_shelf cfg hw) [0 ..< HG_MAX_SHELVES] ())))"

end
