(* ===== verification/HG_Cfg_Valid.thy ===== *)
theory HG_Cfg_Valid
  imports HG_Cfg
begin

text \<open>
  What the validators of \<^verbatim>\<open>components/hg_cfg/hg_cfg_validate.c\<close> decide: both are shown
  equivalent to a specification without loops or tables of used pins. From it follow the
  safety bounds of a zone: distinct output pins, and a watering plan within the pump limits.
\<close>

section \<open>Rows\<close>

definition rows_ok :: "u8 list \<Rightarrow> nat \<Rightarrow> u8 \<Rightarrow> bool" where
  "rows_ok img base g \<longleftrightarrow>
     (\<forall>f \<in> set HG_FIELDS. fd_group f = g \<and> fd_type f \<noteq> HG_T_STR16 \<longrightarrow> row_ok img base f)"

lemma check_group_rows_Inr: "check_group_rows img base g n = Inr u \<longleftrightarrow> rows_ok img base g"
  by (auto simp: check_group_rows_def rows_ok_def find_None_iff find_Some_iff split: option.splits)

lemma rows_ok_row:
  "rows_ok img base g \<Longrightarrow> f \<in> set HG_FIELDS \<Longrightarrow> fd_group f = g \<Longrightarrow> fd_type f \<noteq> HG_T_STR16 \<Longrightarrow> row_ok img base f"
  by (simp add: rows_ok_def)

section \<open>Used pins\<close>

definition in_use :: "u8 list \<Rightarrow> u8 list" where
  "in_use xs = filter (\<lambda>x. x \<noteq> HG_NONE) xs"

definition fresh :: "nat \<Rightarrow> u8 set \<Rightarrow> u8 list \<Rightarrow> bool" where
  "fresh n A xs \<longleftrightarrow> distinct (in_use xs) \<and> (\<forall>x \<in> set (in_use xs). unat x < n \<and> x \<notin> A)"

definition marks_of :: "nat \<Rightarrow> u8 set \<Rightarrow> bool list" where
  "marks_of n A = map (\<lambda>i. of_nat i \<in> A) [0 ..< n]"

lemma in_use_simps [simp]:
  "in_use [] = []" "in_use (x # xs) = (if x = HG_NONE then in_use xs else x # in_use xs)"
  "in_use (xs @ ys) = in_use xs @ in_use ys"
  by (simp_all add: in_use_def)

lemma fresh_Nil [simp]: "fresh n A []"
  by (simp add: fresh_def)

lemma fresh_Cons:
  "fresh n A (x # xs) \<longleftrightarrow>
     (if x = HG_NONE then fresh n A xs else unat x < n \<and> x \<notin> A \<and> fresh n (insert x A) xs)"
  by (auto simp: fresh_def)

lemma fresh_append: "fresh n A (xs @ ys) \<longleftrightarrow> fresh n A xs \<and> fresh n (A \<union> set (in_use xs)) ys"
  by (auto simp: fresh_def)

lemma marks_of_empty: "marks_of n {} = replicate n False"
  by (simp add: marks_of_def map_replicate_const)

lemma marks_of_nth: "unat x < n \<Longrightarrow> marks_of n A ! unat x = (x \<in> A)"
  by (simp add: marks_of_def)

lemma marks_of_insert:
  assumes "unat x < n" "n \<le> 256"
  shows "(marks_of n A)[unat x := True] = marks_of n (insert x A)"
proof (rule nth_equalityI)
  fix i
  assume "i < length ((marks_of n A)[unat x := True])"
  then have i: "i < n" by (simp add: marks_of_def)
  have "unat x = i \<longleftrightarrow> of_nat i = x"
  proof
    assume "unat x = i"
    then have "of_nat i = (of_nat (unat x) :: u8)" by simp
    then show "of_nat i = x" by simp
  next
    assume "of_nat i = x"
    with i assms(2) show "unat x = i" using unat_of_nat_u8 [of i] by simp
  qed
  with i show "(marks_of n A)[unat x := True] ! i = marks_of n (insert x A) ! i"
    by (auto simp: marks_of_def nth_list_update)
qed (simp add: marks_of_def)

lemma mark_dup_marks:
  "mark_dup (marks_of 16 A) x =
     (if x = HG_NONE then Some (marks_of 16 A)
      else if unat x < 16 \<and> x \<notin> A then Some (marks_of 16 (insert x A)) else None)"
  by (auto simp: mark_dup_def marks_of_nth marks_of_insert word_less_nat_alt)

lemma mark_soil_marks:
  "mark_soil (marks_of 8 A) x =
     (if x = HG_NONE then Some (marks_of 8 A)
      else if unat x < 8 \<and> x \<notin> A then Some (marks_of 8 (insert x A)) else None)"
  by (auto simp: mark_soil_def marks_of_nth marks_of_insert word_less_nat_alt)

text \<open>The outputs of a shelf on the two expanders, and its soil channels.\<close>

definition pca_pins :: "hg_zone_hw \<Rightarrow> nat \<Rightarrow> u8 list" where
  "pca_pins hw s = (let p = hw_shelf_off s in [hw ! p, hw ! (p + 1), hw ! (p + 24)])"

definition pcf_pins :: "hg_zone_hw \<Rightarrow> nat \<Rightarrow> u8 list" where
  "pcf_pins hw s = (let p = hw_shelf_off s in [hw ! (p + 2), hw ! (p + 3)])"

definition soil_chs :: "hg_zone_hw \<Rightarrow> nat \<Rightarrow> u8 list" where
  "soil_chs hw s = (let p = hw_shelf_off s in [hw ! (p + 4), hw ! (p + 5)])"

definition aux_pins :: "hg_zone_hw \<Rightarrow> nat \<Rightarrow> u8 list" where
  "aux_pins hw a = (if hw ! hw_aux_off a \<noteq> 0 then [hw ! (hw_aux_off a + 1)] else [])"

definition shelf_hw_ok :: "hg_zone_hw \<Rightarrow> nat \<Rightarrow> bool" where
  "shelf_hw_ok hw s \<longleftrightarrow>
     (let p = hw_shelf_off s in
      rows_ok hw p HG_G_HWSHELF \<and> rows_ok hw p HG_G_CAL \<and>
      le16_at hw (p + 16) < le16_at hw (p + 18) \<and>
      le16_at hw (p + 12) < le16_at hw (p + 8) \<and> le16_at hw (p + 14) < le16_at hw (p + 10))"

definition add_used :: "u8 set \<Rightarrow> u8 list \<Rightarrow> u8 set" where
  "add_used A xs = A \<union> set (in_use xs)"

lemma need_mark_dup:
  "need e (mark_dup (marks_of 16 A) x) = Inr m \<longleftrightarrow> fresh 16 A [x] \<and> m = marks_of 16 (add_used A [x])"
  by (auto simp: need_eq_Inr mark_dup_marks fresh_Cons add_used_def)

lemma need_mark_soil:
  "need e (mark_soil (marks_of 8 A) x) = Inr m \<longleftrightarrow> fresh 8 A [x] \<and> m = marks_of 8 (add_used A [x])"
  by (auto simp: need_eq_Inr mark_soil_marks fresh_Cons add_used_def)

lemma add_used_simps: "add_used (add_used A xs) ys = add_used A (xs @ ys)" "add_used A [] = A"
  by (auto simp: add_used_def)

lemma fresh_add_used: "fresh n A (xs @ ys) \<longleftrightarrow> fresh n A xs \<and> fresh n (add_used A xs) ys"
  by (simp add: fresh_append add_used_def)

lemma fresh_Cons_used: "fresh n A (x # y # ys) \<longleftrightarrow> fresh n A [x] \<and> fresh n (add_used A [x]) (y # ys)"
  using fresh_add_used [of n A "[x]" "y # ys"] by simp

lemma hw_shelf_Inr:
  "hw_shelf hw s (marks_of 16 A, marks_of 16 B, marks_of 8 C) = Inr r \<longleftrightarrow>
     shelf_hw_ok hw s \<and> fresh 16 A (pca_pins hw s) \<and> fresh 16 B (pcf_pins hw s) \<and> fresh 8 C (soil_chs hw s) \<and>
     r = (marks_of 16 (add_used A (pca_pins hw s)), marks_of 16 (add_used B (pcf_pins hw s)),
          marks_of 8 (add_used C (soil_chs hw s)))"
proof -
  have "x \<le> y \<longleftrightarrow> \<not> y < x" for x y :: u16 by (simp add: not_less)
  then show ?thesis
    by (auto simp: hw_shelf_def Let_def result_simps(1) guard_not_eq_Inr check_group_rows_Inr need_mark_dup
        need_mark_soil add_used_simps shelf_hw_ok_def pca_pins_def pcf_pins_def soil_chs_def fresh_Cons_used)
qed

lemma hw_shelves_Inr:
  "efold (hw_shelf hw) ss (marks_of 16 A, marks_of 16 B, marks_of 8 C) = Inr r \<longleftrightarrow>
     (\<forall>s \<in> set ss. shelf_hw_ok hw s) \<and> fresh 16 A (concat (map (pca_pins hw) ss)) \<and>
     fresh 16 B (concat (map (pcf_pins hw) ss)) \<and> fresh 8 C (concat (map (soil_chs hw) ss)) \<and>
     r = (marks_of 16 (add_used A (concat (map (pca_pins hw) ss))),
          marks_of 16 (add_used B (concat (map (pcf_pins hw) ss))),
          marks_of 8 (add_used C (concat (map (soil_chs hw) ss))))"
proof (induction ss arbitrary: A B C)
  case Nil
  then show ?case by (auto simp: add_used_simps)
next
  case (Cons s ss)
  show ?case
    by (auto simp: ebind_eq_Inr hw_shelf_Inr Cons.IH fresh_add_used add_used_simps)
qed

lemma hw_aux_Inr:
  "hw_aux hw a (marks_of 16 B) = Inr m \<longleftrightarrow>
     fresh 16 B (aux_pins hw a) \<and> m = marks_of 16 (add_used B (aux_pins hw a))"
  by (auto simp: hw_aux_def aux_pins_def need_mark_dup add_used_simps)

lemma hw_auxes_Inr:
  "efold (hw_aux hw) as (marks_of 16 B) = Inr m \<longleftrightarrow>
     fresh 16 B (concat (map (aux_pins hw) as)) \<and> m = marks_of 16 (add_used B (concat (map (aux_pins hw) as)))"
proof (induction as arbitrary: B)
  case Nil
  then show ?case by (auto simp: add_used_simps)
next
  case (Cons a as)
  show ?case by (auto simp: ebind_eq_Inr hw_aux_Inr Cons.IH fresh_add_used add_used_simps)
qed

text \<open>The number of shelves and all pins of a plane.\<close>

definition hw_count :: "hg_zone_hw \<Rightarrow> nat" where
  "hw_count hw = min (unat (hw ! 0)) HG_MAX_SHELVES"

definition all_pca :: "hg_zone_hw \<Rightarrow> u8 list" where
  "all_pca hw = concat (map (pca_pins hw) [0 ..< hw_count hw])"

definition all_pcf :: "hg_zone_hw \<Rightarrow> u8 list" where
  "all_pcf hw = concat (map (pcf_pins hw) [0 ..< hw_count hw]) @ concat (map (aux_pins hw) [0 ..< HG_MAX_AUX])"

definition all_soil :: "hg_zone_hw \<Rightarrow> u8 list" where
  "all_soil hw = concat (map (soil_chs hw) [0 ..< hw_count hw])"

definition hw_spec :: "hg_zone_hw \<Rightarrow> bool" where
  "hw_spec hw \<longleftrightarrow>
     rows_ok hw 0 HG_G_HW \<and> (\<forall>s < hw_count hw. shelf_hw_ok hw s) \<and>
     fresh 16 {} (all_pca hw) \<and> fresh 16 {} (all_pcf hw) \<and> fresh 8 {} (all_soil hw)"

lemma hg_hw_validate_spec: "hg_hw_validate hw = Inr () \<longleftrightarrow> hw_spec hw"
  by (auto simp: hg_hw_validate_def ebind_eq_Inr check_group_rows_Inr hw_shelves_Inr hw_auxes_Inr
      marks_of_empty [symmetric] hw_spec_def all_pca_def all_pcf_def all_soil_def hw_count_def fresh_add_used)

section \<open>The logical plane\<close>

lemma efold_unit: "efold f xs () = Inr u \<longleftrightarrow> (\<forall>x \<in> set xs. f x () = Inr ())"
  by (induction xs) (auto simp: ebind_eq_Inr)

definition shelf_cfg_ok :: "hg_zone_cfg \<Rightarrow> nat \<Rightarrow> bool" where
  "shelf_cfg_ok cfg s \<longleftrightarrow>
     (let p = cfg_shelf_off s in
      str16_ok cfg p \<and> rows_ok cfg p HG_G_SHELF \<and> rows_ok cfg (p + 24) HG_G_LIGHT \<and>
      rows_ok cfg (p + 36) HG_G_WATER \<and> rows_ok cfg (p + 52) HG_G_FAN \<and> rows_ok cfg (p + 56) HG_G_VIB \<and>
      le16_at cfg (p + 24) \<noteq> le16_at cfg (p + 24 + 2))"

definition shelf_fits :: "hg_zone_cfg \<Rightarrow> hg_zone_hw \<Rightarrow> nat \<Rightarrow> bool" where
  "shelf_fits cfg hw s \<longleftrightarrow>
     (let p = cfg_shelf_off s; q = hw_shelf_off s in
      (cfg ! (p + 16) \<noteq> 0 \<longrightarrow> s < unat (hw ! 0)) \<and>
      le16_at cfg (p + 36 + 4) \<le> le16_at hw (q + 20) \<and>
      unat (cfg ! (p + 36 + 8)) * unat (le16_at cfg (p + 36 + 4)) \<le> unat (le16_at hw (q + 22)))"

definition cfg_spec :: "hg_zone_cfg \<Rightarrow> hg_zone_hw option \<Rightarrow> bool" where
  "cfg_spec cfg hwo \<longleftrightarrow>
     str16_ok cfg 8 \<and> cfg ! 8 \<noteq> 0 \<and> rows_ok cfg 0 HG_G_ZONECFG \<and>
     (\<forall>a < HG_MAX_AUX. cfg ! cfg_aux_off a \<noteq> 0 \<longrightarrow> rows_ok cfg (cfg_aux_off a) HG_G_AUX) \<and>
     (\<forall>s < HG_MAX_SHELVES. shelf_cfg_ok cfg s \<and> (\<forall>hw. hwo = Some hw \<longrightarrow> shelf_fits cfg hw s))"

lemma unat_ucast_u32: "unat (ucast (a :: u8) :: u32) = unat a" "unat (ucast (b :: u16) :: u32) = unat b"
  using unat_u8_less [of a] unat_u16_less [of b]
  by (simp_all add: unsigned_ucast_eq take_bit_nat_eq_self del: unat_u8_less unat_u16_less)

text \<open>The 32 bit product of the C does not wrap.\<close>

lemma dose_product:
  "(ucast (a :: u8) :: u32) * ucast (b :: u16) > ucast (c :: u16) \<longleftrightarrow> unat c < unat a * unat b"
proof -
  have "unat a * unat b \<le> 255 * 65535"
    using unat_u8_less [of a] unat_u16_less [of b] by (intro mult_mono) linarith+
  then have "unat ((ucast a :: u32) * ucast b) = unat a * unat b"
    by (simp add: unat_word_ariths unat_ucast_u32)
  then show ?thesis by (simp add: word_less_nat_alt unat_ucast_u32)
qed

lemma cfg_shelf_Inr:
  "cfg_shelf cfg hwo s () = Inr u \<longleftrightarrow>
     shelf_cfg_ok cfg s \<and> (\<forall>hw. hwo = Some hw \<longrightarrow> shelf_fits cfg hw s)"
  by (cases hwo)
    (auto simp: cfg_shelf_def Let_def ebind_eq_Inr guard_not_eq_Inr check_group_rows_Inr shelf_cfg_ok_def
      shelf_fits_def dose_product not_le not_less)

lemma cfg_aux_Inr:
  "cfg_aux cfg a () = Inr u \<longleftrightarrow> (cfg ! cfg_aux_off a \<noteq> 0 \<longrightarrow> rows_ok cfg (cfg_aux_off a) HG_G_AUX)"
  by (auto simp: cfg_aux_def check_group_rows_Inr)

lemma hg_cfg_validate_spec: "hg_cfg_validate cfg hwo = Inr u \<longleftrightarrow> cfg_spec cfg hwo"
  by (auto simp: hg_cfg_validate_def ebind_eq_Inr guard_not_eq_Inr check_group_rows_Inr efold_unit
      cfg_aux_Inr cfg_shelf_Inr cfg_spec_def)

section \<open>Consequences\<close>

lemma row_u16:
  assumes "rows_ok img base g" "FLD g k off HG_T_U16 lo hi e \<in> set HG_FIELDS"
  shows "nat lo \<le> unat (le16_at img (base + off))" "unat (le16_at img (base + off)) \<le> nat hi"
proof -
  have "\<not> (int (unat (le16_at img (base + off))) < lo \<or> int (unat (le16_at img (base + off))) > hi)"
    using rows_ok_row [OF assms] by (simp add: FLD_def row_ok_def field_raw_def Let_def)
  then show "nat lo \<le> unat (le16_at img (base + off))" "unat (le16_at img (base + off)) \<le> nat hi" by arith+
qed

lemma row_u8:
  assumes "rows_ok img base g" "FLD g k off HG_T_U8 lo hi e \<in> set HG_FIELDS"
  shows "nat lo \<le> unat (img ! (base + off))" "unat (img ! (base + off)) \<le> nat hi"
proof -
  have "\<not> (int (unat (img ! (base + off))) < lo \<or> int (unat (img ! (base + off))) > hi)"
    using rows_ok_row [OF assms] by (simp add: FLD_def row_ok_def field_raw_def Let_def)
  then show "nat lo \<le> unat (img ! (base + off))" "unat (img ! (base + off)) \<le> nat hi" by arith+
qed

lemma safety_rows:
  "FLD HG_G_WATER ''DOSE_S'' 4 HG_T_U16 1 300 '''' \<in> set HG_FIELDS"
  "FLD HG_G_HWSHELF ''PUMP_MAX_RUN_S'' 20 HG_T_U16 1 300 '''' \<in> set HG_FIELDS"
  "FLD HG_G_HWSHELF ''PUMP_MAX_DAILY_S'' 22 HG_T_U16 1 3600 '''' \<in> set HG_FIELDS"
  "FLD HG_G_HW ''SHELVES'' 0 HG_T_U8 1 4 '''' \<in> set HG_FIELDS"
  by (simp_all add: HG_FIELDS_def)

lemma hw_count_eq: "hw_spec hw \<Longrightarrow> hw_count hw = unat (hw ! 0) \<and> 1 \<le> unat (hw ! 0) \<and> unat (hw ! 0) \<le> 4"
  using row_u8 [OF _ safety_rows(4), of hw 0] by (auto simp: hw_spec_def hw_count_def HG_MAX_SHELVES_def)

lemma watering_limits:
  assumes "hw_spec hw" "cfg_spec cfg (Some hw)" "s < HG_MAX_SHELVES" "cfg ! (cfg_shelf_off s + 16) \<noteq> 0"
  defines "dose \<equiv> unat (le16_at cfg (cfg_shelf_off s + 36 + 4))"
    and "doses \<equiv> unat (cfg ! (cfg_shelf_off s + 36 + 8))"
  shows "s < unat (hw ! 0)" "1 \<le> dose" "dose \<le> unat (le16_at hw (hw_shelf_off s + 20))" "dose \<le> 300"
    "doses * dose \<le> unat (le16_at hw (hw_shelf_off s + 22))" "doses * dose \<le> 3600"
proof -
  from assms(2,3) have c: "shelf_cfg_ok cfg s" and fit: "shelf_fits cfg hw s"
    by (auto simp: cfg_spec_def)
  from fit assms(4) show s: "s < unat (hw ! 0)" by (simp add: shelf_fits_def Let_def)
  with assms(1) hw_count_eq [OF assms(1)] have rows: "rows_ok hw (hw_shelf_off s) HG_G_HWSHELF"
    by (auto simp: hw_spec_def shelf_hw_ok_def Let_def)
  from c have w: "rows_ok cfg (cfg_shelf_off s + 36) HG_G_WATER" by (simp add: shelf_cfg_ok_def Let_def)
  show "1 \<le> dose" using row_u16 [OF w safety_rows(1)] by (simp add: dose_def)
  show run: "dose \<le> unat (le16_at hw (hw_shelf_off s + 20))"
    using fit by (simp add: shelf_fits_def Let_def dose_def word_le_nat_alt)
  with row_u16 [OF rows safety_rows(2)] show "dose \<le> 300" by linarith
  show day: "doses * dose \<le> unat (le16_at hw (hw_shelf_off s + 22))"
    using fit by (simp add: shelf_fits_def Let_def dose_def doses_def)
  with row_u16 [OF rows safety_rows(3)] show "doses * dose \<le> 3600" by linarith
qed

section \<open>The defaults\<close>

lemma row_ok_alt:
  assumes "0 \<le> fd_min f" "0 \<le> fd_max f"
  shows "row_ok img base f \<longleftrightarrow>
    (let p = base + fd_offset f;
       n = (if fd_type f = HG_T_U16 \<or> fd_type f = HG_T_HHMM then unat (le16_at img p) else unat (img ! p))
     in (fd_type f = HG_T_PIN \<and> n = 255) \<or>
        (if fd_type f = HG_T_HHMM then n \<le> 1439 else nat (fd_min f) \<le> n \<and> n \<le> nat (fd_max f)))"
proof -
  have r: "\<not> (int n < lo \<or> int n > hi) \<longleftrightarrow> nat lo \<le> n \<and> n \<le> nat hi" if "0 \<le> lo" "0 \<le> hi" for n lo hi
    using that by linarith
  have v: "field_raw img base f = int (let p = base + fd_offset f in
      if fd_type f = HG_T_U16 \<or> fd_type f = HG_T_HHMM then unat (le16_at img p) else unat (img ! p))"
    by (simp add: field_raw_def Let_def)
  have n: "int (unat HG_NONE) = int 255" by (simp add: HG_NONE_def)
  show ?thesis
    unfolding row_ok_def v n Let_def of_nat_eq_iff using r [of "fd_min f" "fd_max f"] assms r [of 0 1439]
    by (auto simp del: of_nat_unat)
qed

lemma row_ok_FLD:
  "0 \<le> lo \<Longrightarrow> 0 \<le> hi \<Longrightarrow> t \<in> {HG_T_U8, HG_T_BOOL, HG_T_ENUM} \<Longrightarrow>
     row_ok img base (FLD g k off t lo hi e) \<longleftrightarrow>
       nat lo \<le> unat (img ! (base + off)) \<and> unat (img ! (base + off)) \<le> nat hi"
  "0 \<le> lo \<Longrightarrow> 0 \<le> hi \<Longrightarrow> row_ok img base (FLD g k off HG_T_PIN lo hi e) \<longleftrightarrow>
     unat (img ! (base + off)) = 255 \<or>
     nat lo \<le> unat (img ! (base + off)) \<and> unat (img ! (base + off)) \<le> nat hi"
  "0 \<le> lo \<Longrightarrow> 0 \<le> hi \<Longrightarrow> row_ok img base (FLD g k off HG_T_U16 lo hi e) \<longleftrightarrow>
     nat lo \<le> unat (le16_at img (base + off)) \<and> unat (le16_at img (base + off)) \<le> nat hi"
  "0 \<le> lo \<Longrightarrow> 0 \<le> hi \<Longrightarrow> row_ok img base (FLD g k off HG_T_HHMM lo hi e) \<longleftrightarrow>
     unat (le16_at img (base + off)) \<le> 1439"
  by (subst row_ok_alt; auto simp: FLD_def Let_def)+

text \<open>The range checks of each group, spelled out.\<close>

lemma rows_ok_table:
  "rows_ok img base g \<longleftrightarrow> list_all (\<lambda>f. fd_group f = g \<and> fd_type f \<noteq> HG_T_STR16 \<longrightarrow> row_ok img base f) HG_FIELDS"
  by (auto simp: rows_ok_def list_all_iff)

lemma FLD_sel: "fd_group (FLD g k off t lo hi e) = g" "fd_type (FLD g k off t lo hi e) = t"
  by (simp_all add: FLD_def)

lemmas rows_unfold = rows_ok_table HG_FIELDS_def row_ok_FLD FLD_sel group_ids

lemma rows_HW: "rows_ok img b HG_G_HW \<longleftrightarrow>
    1 \<le> unat (img ! b) \<and> unat (img ! b) \<le> 4 \<and> unat (img ! (b + 1)) \<le> 127 \<and> unat (img ! (b + 2)) \<le> 127 \<and>
    unat (img ! (b + 3)) \<le> 1 \<and> unat (le16_at img (b + 4)) \<le> 65535 \<and>
    200 \<le> unat (le16_at img (b + 6)) \<and> unat (le16_at img (b + 6)) \<le> 1500"
  by (simp add: rows_unfold)

lemma rows_HWSHELF: "rows_ok img b HG_G_HWSHELF \<longleftrightarrow>
    (\<forall>i \<in> {0, 1, 2, 3, 24}. unat (img ! (b + i)) = 255 \<or> unat (img ! (b + i)) \<le> 15) \<and>
    (\<forall>i \<in> {4, 5}. unat (img ! (b + i)) = 255 \<or> unat (img ! (b + i)) \<le> 7) \<and>
    unat (img ! (b + 6)) \<le> 100 \<and> unat (img ! (b + 7)) \<le> 100 \<and>
    1 \<le> unat (le16_at img (b + 20)) \<and> unat (le16_at img (b + 20)) \<le> 300 \<and>
    1 \<le> unat (le16_at img (b + 22)) \<and> unat (le16_at img (b + 22)) \<le> 3600"
  by (simp add: rows_unfold) blast

lemma rows_CAL: "rows_ok img b HG_G_CAL \<longleftrightarrow> (\<forall>i \<in> {8, 10, 12, 14, 16, 18}. unat (le16_at img (b + i)) \<le> 3300)"
  by (simp add: rows_unfold)

lemma rows_ZONECFG: "rows_ok img b HG_G_ZONECFG \<longleftrightarrow>
    10 \<le> unat (le16_at img (b + 6)) \<and> unat (le16_at img (b + 6)) \<le> 600"
  by (simp add: rows_unfold)

lemma rows_SHELF: "rows_ok img b HG_G_SHELF \<longleftrightarrow> unat (img ! (b + 16)) \<le> 1 \<and> unat (img ! (b + 17)) \<le> 16"
  by (simp add: rows_unfold)

lemma rows_LIGHT: "rows_ok img b HG_G_LIGHT \<longleftrightarrow>
    unat (le16_at img b) \<le> 1439 \<and> unat (le16_at img (b + 2)) \<le> 1439 \<and> unat (img ! (b + 4)) \<le> 100 \<and>
    unat (img ! (b + 5)) \<le> 100 \<and> unat (img ! (b + 6)) \<le> 120 \<and> unat (le16_at img (b + 8)) \<le> 1000"
  by (simp add: rows_unfold)

lemma rows_WATER: "rows_ok img b HG_G_WATER \<longleftrightarrow>
    unat (img ! b) \<le> 1 \<and> unat (img ! (b + 1)) \<le> 100 \<and> 1 \<le> unat (img ! (b + 2)) \<and> unat (img ! (b + 2)) \<le> 30 \<and>
    1 \<le> unat (img ! (b + 3)) \<and> unat (img ! (b + 3)) \<le> 60 \<and>
    1 \<le> unat (le16_at img (b + 4)) \<and> unat (le16_at img (b + 4)) \<le> 300 \<and>
    10 \<le> unat (le16_at img (b + 6)) \<and> unat (le16_at img (b + 6)) \<le> 1440 \<and> unat (img ! (b + 8)) \<le> 24 \<and>
    5 \<le> unat (img ! (b + 9)) \<and> unat (img ! (b + 9)) \<le> 50 \<and>
    unat (le16_at img (b + 10)) \<le> 1439 \<and> unat (le16_at img (b + 12)) \<le> 1439"
  by (simp add: rows_unfold)

lemma rows_FAN: "rows_ok img b HG_G_FAN \<longleftrightarrow>
    unat (img ! b) \<le> 3 \<and> unat (img ! (b + 1)) \<le> 60 \<and> unat (le16_at img (b + 2)) \<le> 1440"
  by (simp add: rows_unfold)

lemma rows_VIB: "rows_ok img b HG_G_VIB \<longleftrightarrow>
    unat (img ! b) \<le> 1 \<and> 20 \<le> unat (img ! (b + 1)) \<and> unat (img ! (b + 1)) \<le> 100 \<and>
    1 \<le> unat (img ! (b + 2)) \<and> unat (img ! (b + 2)) \<le> 30 \<and>
    5 \<le> unat (le16_at img (b + 4)) \<and> unat (le16_at img (b + 4)) \<le> 1440 \<and>
    unat (le16_at img (b + 6)) \<le> 1439 \<and> unat (le16_at img (b + 8)) \<le> 1439"
  by (simp add: rows_unfold)

lemmas rows_groups = rows_HW rows_HWSHELF rows_CAL rows_ZONECFG rows_SHELF rows_LIGHT rows_WATER rows_FAN rows_VIB

lemma hg_defaults_hw_eq: "hg_defaults_hw = [
    4, 64, 32, 0, 255, 255, 232, 3, 32, 33, 34, 35, 36, 39, 25, 26, 0, 255, 0, 0, 0, 255, 0, 0,
    0, 0, 0, 0, 0, 0, 0, 0, 0, 1, 0, 4, 0, 1, 100, 100, 240, 10, 240, 10, 20, 5, 20, 5, 44, 1,
    128, 12, 60, 0, 88, 2, 8, 0, 0, 0, 0, 0, 0, 0, 2, 3, 1, 5, 2, 3, 100, 100, 240, 10, 240, 10,
    20, 5, 20, 5, 44, 1, 128, 12, 60, 0, 88, 2, 9, 0, 0, 0, 0, 0, 0, 0, 4, 5, 2, 6, 4, 5, 100,
    100, 240, 10, 240, 10, 20, 5, 20, 5, 44, 1, 128, 12, 60, 0, 88, 2, 10, 0, 0, 0, 0, 0, 0, 0,
    6, 7, 3, 7, 6, 7, 100, 100, 240, 10, 240, 10, 20, 5, 20, 5, 44, 1, 128, 12, 60, 0, 88, 2, 11,
    0, 0, 0, 0, 0, 0, 0]"
  by code_simp

lemma hg_defaults_cfg_eq: "hg_defaults_cfg = [
    0, 0, 0, 0, 0, 0, 30, 0, 122, 111, 110, 101, 0, 0, 0, 0, 0, 0, 0, 0, 0, 0, 0, 0, 0, 1, 5, 0,
    0, 0, 0, 0, 0, 1, 5, 0, 0, 0, 0, 0, 0, 0, 0, 0, 0, 0, 0, 0, 0, 0, 0, 0, 0, 0, 0, 0, 0, 0, 0,
    0, 0, 0, 0, 0, 0, 0, 0, 0, 0, 0, 0, 0, 104, 1, 40, 5, 50, 30, 0, 0, 0, 0, 0, 0, 1, 45, 5, 10,
    20, 0, 120, 0, 6, 15, 0, 0, 0, 0, 0, 0, 3, 15, 60, 0, 0, 60, 5, 0, 120, 0, 88, 2, 192, 3, 0,
    0, 0, 0, 0, 0, 0, 0, 0, 0, 0, 0, 0, 0, 0, 0, 0, 0, 0, 0, 0, 0, 0, 0, 0, 0, 0, 0, 0, 0, 104,
    1, 40, 5, 50, 30, 0, 0, 0, 0, 0, 0, 1, 45, 5, 10, 20, 0, 120, 0, 6, 15, 0, 0, 0, 0, 0, 0, 3,
    15, 60, 0, 0, 60, 5, 0, 120, 0, 88, 2, 192, 3, 0, 0, 0, 0, 0, 0, 0, 0, 0, 0, 0, 0, 0, 0, 0,
    0, 0, 0, 0, 0, 0, 0, 0, 0, 0, 0, 0, 0, 0, 0, 104, 1, 40, 5, 50, 30, 0, 0, 0, 0, 0, 0, 1, 45,
    5, 10, 20, 0, 120, 0, 6, 15, 0, 0, 0, 0, 0, 0, 3, 15, 60, 0, 0, 60, 5, 0, 120, 0, 88, 2, 192,
    3, 0, 0, 0, 0, 0, 0, 0, 0, 0, 0, 0, 0, 0, 0, 0, 0, 0, 0, 0, 0, 0, 0, 0, 0, 0, 0, 0, 0, 0, 0,
    104, 1, 40, 5, 50, 30, 0, 0, 0, 0, 0, 0, 1, 45, 5, 10, 20, 0, 120, 0, 6, 15, 0, 0, 0, 0, 0,
    0, 3, 15, 60, 0, 0, 60, 5, 0, 120, 0, 88, 2, 192, 3, 0, 0, 0, 0, 0, 0]"
  by code_simp

lemma le16_at_drop: "base \<le> length img \<Longrightarrow> le16_at (drop base img) k = le16_at img (base + k)"
  by (simp add: le16_at_def)

lemma rows_ok_drop: "base \<le> length img \<Longrightarrow> rows_ok (drop base img) k g = rows_ok img (base + k) g"
  by (simp add: rows_ok_def row_ok_def field_raw_def le16_at_drop add.assoc Let_def)

lemma shelf_hw_ok_drop:
  assumes "hw_shelf_off s \<le> length hw" "drop (hw_shelf_off s) hw = d"
  shows "shelf_hw_ok hw s \<longleftrightarrow>
    rows_ok d 0 HG_G_HWSHELF \<and> rows_ok d 0 HG_G_CAL \<and> le16_at d 16 < le16_at d 18 \<and>
    le16_at d 12 < le16_at d 8 \<and> le16_at d 14 < le16_at d 10"
  using assms(2) rows_ok_drop [OF assms(1), of 0]
  by (simp add: shelf_hw_ok_def Let_def le16_at_drop [OF assms(1), symmetric])

lemma default_shelf_hw_eq: "default_shelf_hw s =
  [of_nat (2 * s), of_nat (2 * s + 1), of_nat s, of_nat (4 + s), of_nat (2 * s), of_nat (2 * s + 1),
   100, 100, 240, 10, 240, 10, 20, 5, 20, 5, 44, 1, 128, 12, 60, 0, 88, 2, of_nat (8 + s), 0, 0, 0, 0, 0, 0, 0]"
proof -
  have "replicate 7 (0 :: u8) = [0, 0, 0, 0, 0, 0, 0]" by (simp add: numeral_eq_Suc)
  then show ?thesis by (simp add: default_shelf_hw_def le16_put_def)
qed

lemma drop_defaults_hw:
  assumes "s < 4"
  shows "\<exists>r. drop (hw_shelf_off s) hg_defaults_hw = default_shelf_hw s @ r"
proof -
  have "drop (s * 32) (concat (map default_shelf_hw [0 ..< 4])) = default_shelf_hw s @ drop ((s + 1) * 32) (concat (map default_shelf_hw [0 ..< 4]))"
    using drop_concat_records [of "[0 ..< 4]" default_shelf_hw 32 s] assms
    by (simp add: default_shelf_hw_eq)
  moreover have "drop (hw_shelf_off s) hg_defaults_hw = drop (s * 32) (concat (map default_shelf_hw [0 ..< 4]))"
  proof -
    obtain pre where pre: "length pre = 32" and eq: "hg_defaults_hw = pre @ concat (map default_shelf_hw [0 ..< 4])"
    proof
      let ?pre = "[4, 0x40, 0x20, 0] @ le16_put 0xFFFF @ le16_put 1000 @ [32, 33, 34, 35, 36, 39, 25, 26] @
        concat (replicate HG_MAX_AUX [0, HG_NONE, 0, 0]) @ replicate 8 0"
      show "length ?pre = 32" by (simp add: HG_MAX_AUX_def numeral_2_eq_2)
      show "hg_defaults_hw = ?pre @ concat (map default_shelf_hw [0 ..< 4])"
        by (simp only: hg_defaults_hw_def HG_MAX_SHELVES_def append_assoc)
    qed
    have "drop (32 + 32 * s) (pre @ xs) = drop (s * 32) xs" for xs using pre by (simp add: mult.commute)
    then show ?thesis unfolding eq off_defs .
  qed
  ultimately show ?thesis by auto
qed

lemma default_shelf_hw_rows: "s < 4 \<Longrightarrow> shelf_hw_ok hg_defaults_hw s"
proof -
  assume s: "s < 4"
  have l: "hw_shelf_off s \<le> length hg_defaults_hw" using s by (simp add: hg_defaults_hw_eq off_defs)
  obtain r where d: "drop (hw_shelf_off s) hg_defaults_hw = default_shelf_hw s @ r"
    using drop_defaults_hw [OF s] ..
  from s consider "s = 0" | "s = 1" | "s = 2" | "s = 3" by linarith
  then show ?thesis
    unfolding shelf_hw_ok_drop [OF l d] by cases (simp_all add: rows_groups default_shelf_hw_eq le16_at_def le16_get_def)
qed

lemma default_pins:
  assumes "s < 4"
  shows "pca_pins hg_defaults_hw s = [of_nat (2 * s), of_nat (2 * s + 1), of_nat (8 + s)]"
    "pcf_pins hg_defaults_hw s = [of_nat s, of_nat (4 + s)]"
    "soil_chs hg_defaults_hw s = [of_nat (2 * s), of_nat (2 * s + 1)]"
proof -
  have l: "hw_shelf_off s \<le> length hg_defaults_hw" using assms by (simp add: hg_defaults_hw_eq off_defs)
  obtain r where d: "drop (hw_shelf_off s) hg_defaults_hw = default_shelf_hw s @ r"
    using drop_defaults_hw [OF assms] ..
  have n: "hg_defaults_hw ! (hw_shelf_off s + k) = (default_shelf_hw s @ r) ! k" for k
    using l by (simp flip: d)
  show "pca_pins hg_defaults_hw s = [of_nat (2 * s), of_nat (2 * s + 1), of_nat (8 + s)]"
    "pcf_pins hg_defaults_hw s = [of_nat s, of_nat (4 + s)]"
    "soil_chs hg_defaults_hw s = [of_nat (2 * s), of_nat (2 * s + 1)]"
    using n [of 0] n [of 1] n [of 2] by (simp_all add: pca_pins_def pcf_pins_def soil_chs_def n Let_def default_shelf_hw_eq)
qed

lemma upt_4: "[0 ..< 4] = [0, 1, 2, 3 :: nat]" "[0 ..< 2] = [0, 1 :: nat]"
  by (simp_all add: upt_rec)

lemma defaults_hw_valid: "hg_hw_validate hg_defaults_hw = Inr ()"
proof -
  have c: "hw_count hg_defaults_hw = 4" by (simp add: hw_count_def hg_defaults_hw_eq HG_MAX_SHELVES_def)
  have a: "aux_pins hg_defaults_hw 0 = []" "aux_pins hg_defaults_hw (Suc 0) = []"
    by (simp_all add: aux_pins_def hg_defaults_hw_eq off_defs)
  have "rows_ok hg_defaults_hw 0 HG_G_HW"
    by (simp add: rows_HW hg_defaults_hw_eq le16_at_def le16_get_def)
  moreover have "fresh 16 {} (all_pca hg_defaults_hw)"
    by (simp add: all_pca_def c upt_4 default_pins fresh_Cons HG_NONE_def)
  moreover have "fresh 16 {} (all_pcf hg_defaults_hw)"
    by (simp add: all_pcf_def c upt_4 default_pins fresh_Cons HG_NONE_def HG_MAX_AUX_def a)
  moreover have "fresh 8 {} (all_soil hg_defaults_hw)"
    by (simp add: all_soil_def c upt_4 default_pins fresh_Cons HG_NONE_def)
  ultimately show ?thesis
    unfolding hg_hw_validate_spec hw_spec_def c using default_shelf_hw_rows by blast
qed

lemma default_shelf_cfg_eq: "default_shelf_cfg =
  [0, 0, 0, 0, 0, 0, 0, 0, 0, 0, 0, 0, 0, 0, 0, 0, 0, 0, 0, 0, 0, 0, 0, 0,
   104, 1, 40, 5, 50, 30, 0, 0, 0, 0, 0, 0,
   1, 45, 5, 10, 20, 0, 120, 0, 6, 15, 0, 0, 0, 0, 0, 0,
   3, 15, 60, 0, 0, 60, 5, 0, 120, 0, 88, 2, 192, 3, 0, 0, 0, 0, 0, 0]"
  by code_simp

lemma drop_defaults_cfg:
  assumes "s < 4"
  shows "\<exists>r. drop (cfg_shelf_off s) hg_defaults_cfg = default_shelf_cfg @ r"
proof -
  have rep: "concat (replicate HG_MAX_SHELVES default_shelf_cfg) = concat (map (\<lambda>_. default_shelf_cfg) [0 ..< 4])"
    by (simp add: HG_MAX_SHELVES_def map_replicate_const)
  have "drop (s * 72) (concat (map (\<lambda>_. default_shelf_cfg) [0 ..< 4])) =
      default_shelf_cfg @ drop ((s + 1) * 72) (concat (map (\<lambda>_. default_shelf_cfg) [0 ..< 4]))"
    using drop_concat_records [of "[0 ..< 4]" "\<lambda>_. default_shelf_cfg" 72 s] assms
    by (simp add: default_shelf_cfg_eq)
  moreover have "drop (cfg_shelf_off s) hg_defaults_cfg = drop (s * 72) (concat (map (\<lambda>_. default_shelf_cfg) [0 ..< 4]))"
  proof -
    obtain pre where pre: "length pre = 48"
      and eq: "hg_defaults_cfg = pre @ concat (map (\<lambda>_. default_shelf_cfg) [0 ..< 4])"
    proof
      let ?pre = "le32_put 0 @ [HG_SRC_LOCAL, 0] @ le16_put 30 @ bytes_of ''zone'' @ replicate 12 0 @
        concat (replicate HG_MAX_AUX ([0, 1] @ le16_put 5 @ le16_put 0 @ le16_put 0)) @ replicate 8 0"
      show "length ?pre = 48" by (simp add: HG_MAX_AUX_def numeral_2_eq_2)
      show "hg_defaults_cfg = ?pre @ concat (map (\<lambda>_. default_shelf_cfg) [0 ..< 4])"
        by (simp only: hg_defaults_cfg_def rep append_assoc)
    qed
    have "drop (48 + 72 * s) (pre @ xs) = drop (s * 72) xs" for xs using pre by (simp add: mult.commute)
    then show ?thesis unfolding eq off_defs .
  qed
  ultimately show ?thesis by auto
qed

lemma str16_ok_drop: "str16_ok img p = str16_ok (drop p img) 0"
  by (simp add: str16_ok_def)

lemma default_shelf_cfg_rows:
  assumes "s < 4"
  shows "shelf_cfg_ok hg_defaults_cfg s \<and> shelf_fits hg_defaults_cfg hg_defaults_hw s"
proof -
  have l: "cfg_shelf_off s \<le> length hg_defaults_cfg" using assms by (simp add: hg_defaults_cfg_eq off_defs)
  obtain r where d: "drop (cfg_shelf_off s) hg_defaults_cfg = default_shelf_cfg @ r"
    using drop_defaults_cfg [OF assms] ..
  have l': "hw_shelf_off s \<le> length hg_defaults_hw" using assms by (simp add: hg_defaults_hw_eq off_defs)
  obtain r' where d': "drop (hw_shelf_off s) hg_defaults_hw = default_shelf_hw s @ r'"
    using drop_defaults_hw [OF assms] ..
  define c where "c = default_shelf_cfg @ r"
  have n: "hg_defaults_cfg ! (cfg_shelf_off s + k) = c ! k" for k using l by (simp add: c_def flip: d)
  have le: "le16_at hg_defaults_cfg (cfg_shelf_off s + k) = le16_at c k" for k
    using le16_at_drop [OF l, of k] by (simp add: d c_def)
  have le2: "le16_at hg_defaults_cfg (k + cfg_shelf_off s) = le16_at c k" for k
    using le [of k] by (simp add: add.commute)
  have n2: "hg_defaults_cfg ! (k + cfg_shelf_off s) = c ! k" for k
    using n [of k] by (simp add: add.commute)
  have ro: "rows_ok hg_defaults_cfg (cfg_shelf_off s + k) g = rows_ok c k g" for k g
    using rows_ok_drop [OF l, of k g] by (simp add: d c_def)
  have le': "le16_at hg_defaults_hw (hw_shelf_off s + k) = le16_at (default_shelf_hw s @ r') k" for k
    using le16_at_drop [OF l', of k] by (simp add: d')
  have "str16_ok hg_defaults_cfg (cfg_shelf_off s)"
    unfolding str16_ok_drop [of _ "cfg_shelf_off s"] d by (simp add: str16_ok_def default_shelf_cfg_eq)
  moreover have "rows_ok c 0 HG_G_SHELF" "rows_ok c 24 HG_G_LIGHT" "rows_ok c 36 HG_G_WATER"
    "rows_ok c 52 HG_G_FAN" "rows_ok c 56 HG_G_VIB"
    by (simp_all add: rows_groups c_def default_shelf_cfg_eq le16_at_def le16_get_def)
  moreover have "le16_at c 24 = 360" "le16_at c 26 = 1320" "le16_at c 40 = 20" "c ! 44 = 6" "c ! 16 = 0"
    "le16_at (default_shelf_hw s @ r') 20 = 60" "le16_at (default_shelf_hw s @ r') 22 = 600"
    by (simp_all add: c_def default_shelf_cfg_eq default_shelf_hw_eq le16_at_def le16_get_def)
  ultimately show ?thesis
    using ro [of 0] by (simp add: shelf_cfg_ok_def shelf_fits_def Let_def ro le le2 le' n n2 add.assoc)
qed

lemma defaults_cfg_valid: "hg_cfg_validate hg_defaults_cfg (Some hg_defaults_hw) = Inr ()"
proof -
  have "str16_ok hg_defaults_cfg 8" "hg_defaults_cfg ! 8 \<noteq> 0"
    by (simp_all add: str16_ok_def hg_defaults_cfg_eq)
  moreover have "rows_ok hg_defaults_cfg 0 HG_G_ZONECFG"
    by (simp add: rows_ZONECFG hg_defaults_cfg_eq le16_at_def le16_get_def)
  moreover have "hg_defaults_cfg ! cfg_aux_off a = 0" if "a < HG_MAX_AUX" for a
    using that by (auto simp: HG_MAX_AUX_def numeral_2_eq_2 less_Suc_eq hg_defaults_cfg_eq off_defs)
  ultimately show ?thesis
    using default_shelf_cfg_rows by (simp add: hg_cfg_validate_spec cfg_spec_def HG_MAX_SHELVES_def)
qed

text \<open>The default planes with the first shelf enabled.\<close>

definition enabled_cfg :: hg_zone_cfg where
  "enabled_cfg = hg_defaults_cfg[64 := 1]"

lemma enabled_cfg_valid: "hg_cfg_validate enabled_cfg (Some hg_defaults_hw) = Inr ()"
proof -
  have "64 < length hg_defaults_cfg" by (simp add: hg_defaults_cfg_eq)
  then have n: "enabled_cfg ! i = (if i = 64 then 1 else hg_defaults_cfg ! i)" for i
    by (simp add: enabled_cfg_def nth_list_update)
  have l: "le16_at enabled_cfg i = le16_at hg_defaults_cfg i" if "i \<noteq> 63" "i \<noteq> 64" for i
    using that by (simp add: le16_at_def n)
  have st: "str16_ok enabled_cfg p = str16_ok hg_defaults_cfg p" if "p + 16 \<le> 64 \<or> 64 < p" for p
    using that
  proof
    assume "p + 16 \<le> 64"
    then show ?thesis by (simp add: str16_ok_def enabled_cfg_def take_drop add.commute)
  qed (simp add: str16_ok_def enabled_cfg_def)
  have h: "unat (hg_defaults_hw ! 0) = 4" by (simp add: hg_defaults_hw_eq)
  have d: "cfg_spec hg_defaults_cfg (Some hg_defaults_hw)" using defaults_cfg_valid by (simp add: hg_cfg_validate_spec)
  have o: "cfg_shelf_off s = 48 + s * 72" for s by (simp add: off_defs)
  have "shelf_cfg_ok enabled_cfg s \<and> shelf_fits enabled_cfg hg_defaults_hw s" if "s < 4" for s
  proof -
    have "shelf_cfg_ok hg_defaults_cfg s" "shelf_fits hg_defaults_cfg hg_defaults_hw s"
      using d that by (simp_all add: cfg_spec_def HG_MAX_SHELVES_def)
    moreover have "s = 0 \<or> s = 1 \<or> s = 2 \<or> s = 3" using that by linarith
    ultimately show ?thesis
      by (elim disjE) (simp_all add: shelf_cfg_ok_def shelf_fits_def st rows_groups o n l h Let_def)
  qed
  moreover have "enabled_cfg ! cfg_aux_off a = 0" if "a < HG_MAX_AUX" for a
    using that by (auto simp: HG_MAX_AUX_def numeral_2_eq_2 less_Suc_eq hg_defaults_cfg_eq off_defs n)
  ultimately show ?thesis using d
    by (simp add: hg_cfg_validate_spec cfg_spec_def HG_MAX_SHELVES_def st rows_ZONECFG n l)
qed

section \<open>Properties\<close>

text \<open>The factory defaults pass both validators.\<close>

lemma defaults_are_valid:
  \<open>hg_hw_validate hg_defaults_hw = Inr () \<and> hg_cfg_validate hg_defaults_cfg (Some hg_defaults_hw) = Inr ()\<close>
  by (simp add: defaults_hw_valid defaults_cfg_valid)

text \<open>C28. A validated pair of planes never waters an enabled shelf beyond its pump: a dose is at least one second and within the pump's single-run limit, and the doses of a day together stay within its daily limit, whatever the 8 and 16 bit fields hold (at most 300 s and 3600 s).\<close>

lemma watering_is_limited:
  assumes "hg_hw_validate hw = Inr ()" "hg_cfg_validate cfg (Some hw) = Inr ()" "s < HG_MAX_SHELVES"
    "cfg ! (cfg_shelf_off s + 16) \<noteq> 0"
  shows "let dose = unat (le16_at cfg (cfg_shelf_off s + 40)); doses = unat (cfg ! (cfg_shelf_off s + 44)) in
    s < unat (hw ! 0) \<and> 1 \<le> dose \<and> dose \<le> unat (le16_at hw (hw_shelf_off s + 20)) \<and> dose \<le> 300 \<and>
    doses * dose \<le> unat (le16_at hw (hw_shelf_off s + 22)) \<and> doses * dose \<le> 3600"
  using watering_limits [of hw cfg s] assms by (simp add: hg_hw_validate_spec hg_cfg_validate_spec add.assoc)

lemma watering_is_limited_witness:
  \<open>enabled_cfg ! (cfg_shelf_off 0 + 16) = 1 \<and>
    unat (enabled_cfg ! (cfg_shelf_off 0 + 44)) * unat (le16_at enabled_cfg (cfg_shelf_off 0 + 40)) = 120 \<and>
    120 \<le> unat (le16_at hg_defaults_hw (hw_shelf_off 0 + 22)) \<and>
    unat (le16_at enabled_cfg (cfg_shelf_off 0 + 40)) \<le> unat (le16_at hg_defaults_hw (hw_shelf_off 0 + 20))\<close>
proof -
  have v: "enabled_cfg ! (cfg_shelf_off 0 + 16) = 1" "unat (enabled_cfg ! (cfg_shelf_off 0 + 44)) = 6"
    "unat (le16_at enabled_cfg (cfg_shelf_off 0 + 40)) = 20"
    by (simp_all add: enabled_cfg_def hg_defaults_cfg_eq off_defs le16_at_def le16_get_def)
  then show ?thesis
    using watering_is_limited [OF defaults_hw_valid enabled_cfg_valid, of 0] by (simp add: HG_MAX_SHELVES_def Let_def)
qed

text \<open>C32. In a validated hardware plane no two outputs use the same PWM channel, no two use the same expander pin (auxiliary outputs included) and no two probes the same soil channel, and each number exists on its chip.\<close>

lemma no_two_outputs_share_a_pin:
  assumes "hg_hw_validate hw = Inr ()"
  shows "distinct (in_use (all_pca hw)) \<and> distinct (in_use (all_pcf hw)) \<and> distinct (in_use (all_soil hw)) \<and>
    (\<forall>p \<in> set (in_use (all_pca hw @ all_pcf hw)). unat p < 16) \<and> (\<forall>c \<in> set (in_use (all_soil hw)). unat c < 8)"
  using assms by (auto simp: hg_hw_validate_spec hw_spec_def fresh_def)

lemma no_two_outputs_share_a_pin_witness:
  \<open>distinct (in_use (all_pcf hg_defaults_hw))\<close>
  using no_two_outputs_share_a_pin [OF defaults_hw_valid] by simp

text \<open>C33. The two validators, which stop at the first fault they meet, accept exactly the planes of the declarative specification: every row in its range, pins and channels unshared, calibration ordered, light times different, shelves present, doses within the pump limits.\<close>

lemma validators_match_their_specification:
  \<open>(hg_hw_validate hw = Inr () \<longleftrightarrow> hw_spec hw) \<and> (hg_cfg_validate cfg hwo = Inr () \<longleftrightarrow> cfg_spec cfg hwo)\<close>
  by (simp add: hg_hw_validate_spec hg_cfg_validate_spec)

end
