(* ===== verification/HG_Cfg_Text.thy ===== *)
theory HG_Cfg_Text
  imports HG_Cfg_Valid
begin

text \<open>
  The text interface of the field table (\<^verbatim>\<open>components/hg_cfg/hg_cfg_fields.c\<close>): what a
  write accepts is in the range the validator checks, reading it back gives a text that writes
  the same bytes, and a write touches the bytes of its own field only, which no other field of
  either plane shares.
\<close>

section \<open>Bytes of a field\<close>

definition width :: "hg_field \<Rightarrow> nat" where
  "width f = (case fd_type f of HG_T_STR16 \<Rightarrow> 16 | HG_T_STR \<Rightarrow> nat (fd_max f) + 1
     | HG_T_U16 \<Rightarrow> 2 | HG_T_HHMM \<Rightarrow> 2 | _ \<Rightarrow> 1)"

lemma mem_put_twice [buf_simps]:
  "off + length src \<le> length buf \<Longrightarrow> mem_put (mem_put buf off src) off src = mem_put buf off src"
  by (simp add: mem_put_def)

lemma le16_at_mem_put [buf_simps]: "off + 2 \<le> length buf \<Longrightarrow> le16_at (mem_put buf off (le16_put v)) off = v"
  using le16_round [of v] by (simp add: le16_at_def buf_simps) (simp add: le16_put_def)

lemma unat_of_int_u8: "0 \<le> v \<Longrightarrow> v \<le> 255 \<Longrightarrow> unat (of_int v :: u8) = nat v"
  by (simp add: unsigned_of_int take_bit_int_eq_self)

lemma unat_of_int_u16: "0 \<le> v \<Longrightarrow> v \<le> 65535 \<Longrightarrow> unat (of_int v :: u16) = nat v"
  by (simp add: unsigned_of_int take_bit_int_eq_self)

section \<open>Reading what was written\<close>

lemma parse_int_digits:
  assumes "\<forall>c \<in> set ds. is_digit c" "ds \<noteq> []" "dec_value ds < 2147483648" "0 \<le> dec_value ds"
  shows "parse_int ds = Some (dec_value ds)"
  using strtol_digits [OF assms(1,2), of "[]"] assms by (simp add: parse_int_def eq_commute [of "[]"])

lemma show_dec2_facts:
  assumes "n < 100"
  shows "length (show_dec2 n) = 2" "\<forall>c \<in> set (show_dec2 n). is_digit c" "parse_int (show_dec2 n) = Some (int n)"
proof -
  show l: "length (show_dec2 n) = 2"
    using less_mult_imp_div_less [of n 10 10] assms
    by (simp add: show_dec2_def show_dec_rec [of n] show_dec_rec [of "n div 10"])
  show d: "\<forall>c \<in> set (show_dec2 n). is_digit c"
    using show_dec_digits [of n] by (simp add: show_dec2_def is_digit_def char_code_def)
  have v: "dec_value (show_dec2 n) = int n"
    using dec_value_show_dec [of n] by (simp add: show_dec2_def dec_value_def char_code_def)
  have "show_dec2 n \<noteq> []" using l by auto
  then show "parse_int (show_dec2 n) = Some (int n)"
    using parse_int_digits [OF d] v assms by simp
qed

lemma hhmm_parse_format:
  assumes "n < 1440"
  shows "hg_hhmm_parse (hg_hhmm_format n) = Some (int n)"
proof -
  let ?h = "n div 60" and ?m = "n mod 60"
  have hm: "?h < 100" "?m < 100" "?h \<le> 23" "?m \<le> 59" using assms by auto
  note h = show_dec2_facts [OF hm(1)] and m = show_dec2_facts [OF hm(2)]
  have "\<forall>c \<in> set (show_dec2 ?h). c \<noteq> CHR '':''"
    using h(2) by (auto simp: is_digit_def char_code_def)
  then have tw: "takeWhile (\<lambda>c. c \<noteq> CHR '':'') (show_dec2 ?h @ CHR '':'' # show_dec2 ?m) = show_dec2 ?h"
    "dropWhile (\<lambda>c. c \<noteq> CHR '':'') (show_dec2 ?h @ CHR '':'' # show_dec2 ?m) = CHR '':'' # show_dec2 ?m"
    by (simp_all add: takeWhile_append dropWhile_append)
  have ne: "show_dec2 ?h \<noteq> []" using h(1) by auto
  have "int ?h * 60 + int ?m = int n" by (metis div_mod_decomp of_nat_add of_nat_mult of_nat_numeral)
  with assms hm show ?thesis
    by (simp add: hg_hhmm_format_def hg_hhmm_parse_def tw h m ne Let_def)
qed

lemma hhmm_parse_range: "hg_hhmm_parse s = Some v \<Longrightarrow> 0 \<le> v \<and> v \<le> 1439"
  by (auto simp: hg_hhmm_parse_def Let_def split: if_splits option.splits)

lemma enum_scan_range:
  "enum_scan p val i = Inr k \<or> enum_scan p val i = Inl k \<Longrightarrow>
     i \<le> k \<and> k \<le> i + int (length (filter (\<lambda>c. c = CHR ''|'') p))"
proof (induction p val i rule: enum_scan.induct)
  case (1 p val i)
  let ?bar = "dropWhile (\<lambda>c. c \<noteq> CHR ''|'') p"
  show ?case
  proof (cases "?bar = []")
    case True
    with "1.prems" show ?thesis by (subst (asm) (1 2) enum_scan.simps) (auto simp: Let_def split: if_splits)
  next
    case False
    then have hd: "hd ?bar = CHR ''|''" using hd_dropWhile [of "\<lambda>c. c \<noteq> CHR ''|''" p] by simp
    have "filter (\<lambda>c. c = CHR ''|'') p =
        filter (\<lambda>c. c = CHR ''|'') (takeWhile (\<lambda>c. c \<noteq> CHR ''|'') p @ hd ?bar # tl ?bar)"
      using False by simp
    also have "\<dots> = CHR ''|'' # filter (\<lambda>c. c = CHR ''|'') (tl ?bar)"
      using hd by (auto simp: filter_empty_conv dest: set_takeWhileD)
    finally have len: "length (filter (\<lambda>c. c = CHR ''|'') p) = Suc (length (filter (\<lambda>c. c = CHR ''|'') (tl ?bar)))"
      by simp
    show ?thesis
      using "1.prems" "1.IH" [OF _ refl refl] False
      by (subst (asm) (1 2) enum_scan.simps) (auto simp: Let_def len split: if_splits)
  qed
qed

lemma enum_parse_range:
  "enum_parse e val = Some v \<Longrightarrow> 0 \<le> v \<and> v \<le> int (length (filter (\<lambda>c. c = CHR ''|'') e))"
  using enum_scan_range [of e val 0] by (auto simp: enum_parse_def split: sum.splits option.splits if_splits)

section \<open>A field after a write\<close>

text \<open>What the rows of the table share; it is checked row by row.\<close>

definition row_wf :: "hg_field \<Rightarrow> bool" where
  "row_wf f \<longleftrightarrow>
     (case fd_type f of
        HG_T_U8 \<Rightarrow> 0 \<le> fd_min f \<and> fd_max f \<le> 255
      | HG_T_PIN \<Rightarrow> 0 \<le> fd_min f \<and> fd_max f < 255
      | HG_T_U16 \<Rightarrow> 0 \<le> fd_min f \<and> fd_max f \<le> 65535
      | HG_T_BOOL \<Rightarrow> fd_min f = 0 \<and> fd_max f = 1
      | HG_T_ENUM \<Rightarrow> fd_min f = 0 \<and> fd_max f \<le> 9 \<and>
          int (length (filter (\<lambda>c. c = CHR ''|'') (fd_enums f))) = fd_max f \<and>
          (\<forall>v \<in> set [0 ..< nat (fd_max f) + 1]. length (enum_name (fd_enums f) v) < 16 \<and>
             enum_parse (fd_enums f) (enum_name (fd_enums f) v) = Some (int v))
      | HG_T_STR \<Rightarrow> False
      | _ \<Rightarrow> True)"

lemma table_wf: "list_all row_wf HG_FIELDS"
  by code_simp

lemma row_wf_table: "f \<in> set HG_FIELDS \<Longrightarrow> row_wf f"
  using table_wf by (simp add: list_all_iff)

lemma show_dec_short: "n < 100000 \<Longrightarrow> length (show_dec n) \<le> 5"
  by (subst show_dec_rec, subst show_dec_rec, subst show_dec_rec, subst show_dec_rec, subst show_dec_rec) auto

lemma show_dec_not_none: "\<not> ci_eq (show_dec n) ''NONE''"
proof -
  obtain c cs where s: "show_dec n = c # cs" by (cases "show_dec n") auto
  then have "is_digit c" using show_dec_digits [of n] by simp
  then have "to_up c \<noteq> to_up CHR ''N''"
    by (auto simp: to_up_def is_digit_def char_code_def)
  with s show ?thesis by simp
qed

lemmas field_defs = hg_field_write_def hg_field_read_def Let_def

lemma write_frame:
  assumes "row_wf f" "hg_field_write f img base tx = Inr img'"
  shows "\<exists>bs. length bs = width f \<and> img' = mem_put img (base + fd_offset f) bs"
proof -
  let ?dst = "base + fd_offset f"
  consider (u8) v where "img' = put_u8 img ?dst v" "width f = 1" | (none) "img' = mem_put img ?dst [HG_NONE]" "width f = 1"
    | (u16) v where "img' = put_u16 img ?dst v" "width f = 2"
    | (str) "img' = mem_put img ?dst (bytes_of tx @ replicate (16 - length tx) 0)" "length tx \<le> 15" "width f = 16"
    using assms
    by (cases "fd_type f")
      (auto simp: field_defs row_wf_def width_def ebind_eq_Inr need_eq_Inr str_ok_def split: if_splits)
  then show ?thesis
  proof cases
    case (u8 v)
    then show ?thesis by (intro exI [of _ "[of_int v]"]) (simp add: put_u8_def)
  next
    case none
    then show ?thesis by (intro exI [of _ "[HG_NONE]"]) simp
  next
    case (u16 v)
    then show ?thesis by (intro exI [of _ "le16_put (of_int v)"]) (simp add: put_u16_def)
  next
    case str
    then show ?thesis by (intro exI [of _ "bytes_of tx @ replicate (16 - length tx) 0"]) simp
  qed
qed

lemma read_u8: "dst < length img \<Longrightarrow> put_u8 img dst v ! dst = of_int v"
  by (simp add: put_u8_def buf_simps)

lemma read_u16: "dst + 2 \<le> length img \<Longrightarrow> le16_at (put_u16 img dst v) dst = of_int v"
  by (simp add: put_u16_def buf_simps)

lemma put_twice:
  "dst < length img \<Longrightarrow> put_u8 (put_u8 img dst v) dst w = put_u8 img dst w"
  "dst + 2 \<le> length img \<Longrightarrow> put_u16 (put_u16 img dst v) dst w = put_u16 img dst w"
  by (simp_all add: put_u8_def put_u16_def mem_put_def)

lemma read_number:
  assumes "0 \<le> v" "v \<le> 65535" "17 \<le> cap"
  shows "take (cap - Suc 0) (show_dec (nat v)) = show_dec (nat v)" "parse_int (show_dec (nat v)) = Some v"
proof -
  have "nat v < 100000" using assms(2) by linarith
  then show "take (cap - Suc 0) (show_dec (nat v)) = show_dec (nat v)" "parse_int (show_dec (nat v)) = Some v"
    using assms show_dec_short [of "nat v"] parse_int_show_dec [of "nat v"] by simp_all
qed

lemma write_read_back:
  assumes wf: "row_wf f" and fits: "base + fd_offset f + width f \<le> length img"
    and w: "hg_field_write f img base tx = Inr img'" and cap: "17 \<le> cap"
  shows "hg_field_write f img' base (hg_field_read f img' base cap) = Inr img'"
proof -
  let ?dst = "base + fd_offset f"
  have num: "hg_field_write f img' base (take (cap - 1) (show_dec (nat v))) = Inr img'"
    if t: "fd_type f = HG_T_U8 \<or> fd_type f = HG_T_PIN" and v: "img' = put_u8 img ?dst v" "fd_min f \<le> v" "v \<le> fd_max f" for v
  proof -
    have r: "0 \<le> v" "v \<le> 65535" using t v wf by (auto simp: row_wf_def)
    have d: "?dst < length img" using t fits by (auto simp: width_def)
    from t show ?thesis
    proof
      assume "fd_type f = HG_T_U8"
      then show ?thesis using v d by (simp add: field_defs read_number [OF r cap] put_twice guard_not_def)
    next
      assume "fd_type f = HG_T_PIN"
      then show ?thesis
        using v d by (simp add: field_defs read_number [OF r cap] put_twice guard_not_def show_dec_not_none)
    qed
  qed
  show ?thesis
  proof (cases "fd_type f")
    case HG_T_U8
    then obtain v where v: "img' = put_u8 img ?dst v" "fd_min f \<le> v" "v \<le> fd_max f"
      using w by (auto simp: field_defs ebind_eq_Inr need_eq_Inr guard_not_eq_Inr)
    with HG_T_U8 wf fits have "hg_field_read f img' base cap = take (cap - 1) (show_dec (nat v))"
      by (simp add: field_defs read_u8 row_wf_def width_def unat_of_int_u8)
    with num [of v] v HG_T_U8 show ?thesis by simp
  next
    case HG_T_PIN
    show ?thesis
    proof (cases "ci_eq tx ''NONE''")
      case True
      with HG_T_PIN w have i: "img' = mem_put img ?dst [HG_NONE]" by (simp add: field_defs)
      then have "img' ! ?dst = HG_NONE" using fits HG_T_PIN by (simp add: buf_simps width_def)
      with HG_T_PIN cap have "hg_field_read f img' base cap = ''NONE''" by (simp add: field_defs)
      with HG_T_PIN i fits show ?thesis by (simp add: field_defs buf_simps width_def)
    next
      case False
      then obtain v where v: "img' = put_u8 img ?dst v" "fd_min f \<le> v" "v \<le> fd_max f"
        using w HG_T_PIN by (auto simp: field_defs ebind_eq_Inr need_eq_Inr guard_not_eq_Inr)
      have u: "unat (of_int v :: u8) = nat v" "nat v < 255"
        using v wf HG_T_PIN by (auto simp: row_wf_def unat_of_int_u8)
      then have "(of_int v :: u8) \<noteq> HG_NONE" by (auto simp: HG_NONE_def)
      with v HG_T_PIN fits u have "hg_field_read f img' base cap = take (cap - 1) (show_dec (nat v))"
        by (simp add: field_defs read_u8 width_def)
      with num [of v] v HG_T_PIN show ?thesis by simp
    qed
  next
    case HG_T_U16
    then obtain v where v: "img' = put_u16 img ?dst v" "fd_min f \<le> v" "v \<le> fd_max f"
      using w by (auto simp: field_defs ebind_eq_Inr need_eq_Inr guard_not_eq_Inr)
    with HG_T_U16 wf fits have "hg_field_read f img' base cap = take (cap - 1) (show_dec (nat v))"
      by (simp add: field_defs read_u16 row_wf_def width_def unat_of_int_u16)
    with v HG_T_U16 wf fits cap read_number [of v cap] show ?thesis
      by (simp add: field_defs row_wf_def width_def put_twice guard_not_def)
  next
    case HG_T_HHMM
    then obtain v where p: "hg_hhmm_parse tx = Some v" and v: "img' = put_u16 img ?dst v"
      using w by (auto simp: field_defs ebind_eq_Inr need_eq_Inr)
    have r: "0 \<le> v" "v \<le> 1439" using hhmm_parse_range [OF p] by auto
    have l: "length (hg_hhmm_format (nat v)) = 5"
      using r by (simp add: hg_hhmm_format_def Let_def show_dec2_facts)
    have "hg_field_read f img' base cap = hg_hhmm_format (nat v)"
      using HG_T_HHMM v r fits l cap by (simp add: field_defs read_u16 width_def unat_of_int_u16)
    with HG_T_HHMM v r fits show ?thesis
      using hhmm_parse_format [of "nat v"] by (simp add: field_defs width_def put_twice)
  next
    case HG_T_BOOL
    then consider "img' = put_u8 img ?dst 1" | "img' = put_u8 img ?dst 0"
      using w by (auto simp: field_defs split: if_splits)
    then show ?thesis
      by cases (use HG_T_BOOL fits cap in \<open>simp_all add: field_defs read_u8 width_def
        put_twice show_dec_rec [of 0] show_dec_rec [of "Suc 0"] digit_char_def to_up_def char_code_def\<close>)
  next
    case HG_T_ENUM
    then obtain v where p: "enum_parse (fd_enums f) tx = Some v" and v: "img' = put_u8 img ?dst v"
      using w by (auto simp: field_defs ebind_eq_Inr need_eq_Inr)
    have r: "0 \<le> v" "v \<le> fd_max f" "fd_max f \<le> 9"
      using enum_parse_range [OF p] wf HG_T_ENUM by (simp_all add: row_wf_def)
    have "\<forall>v \<in> set [0 ..< nat (fd_max f) + 1]. length (enum_name (fd_enums f) v) < 16 \<and>
        enum_parse (fd_enums f) (enum_name (fd_enums f) v) = Some (int v)"
      using wf unfolding row_wf_def HG_T_ENUM hg_ftype.case by blast
    moreover have "nat v \<in> set [0 ..< nat (fd_max f) + 1]" using r by auto
    ultimately have "length (enum_name (fd_enums f) (nat v)) < 16 \<and>
        enum_parse (fd_enums f) (enum_name (fd_enums f) (nat v)) = Some (int (nat v))" by (rule bspec)
    then have e: "length (enum_name (fd_enums f) (nat v)) < 16"
      "enum_parse (fd_enums f) (enum_name (fd_enums f) (nat v)) = Some v"
      using r by simp_all
    have "hg_field_read f img' base cap = enum_name (fd_enums f) (nat v)"
      using HG_T_ENUM v r fits e(1) cap by (simp add: field_defs read_u8 width_def unat_of_int_u8)
    with HG_T_ENUM v fits e(2) show ?thesis by (simp add: field_defs width_def put_twice)
  next
    case HG_T_STR16
    then have s: "str_ok tx" and i: "img' = mem_put img ?dst (bytes_of tx @ replicate (16 - length tx) 0)"
      using w by (auto simp: field_defs split: if_splits)
    have len: "length tx \<le> 15" and c: "c_string tx" using s by (auto simp: str_ok_def c_string_def)
    have "replicate (16 - length tx) (0 :: u8) = 0 # replicate (15 - length tx) 0"
      using len by (simp add: Suc_diff_le flip: replicate_Suc)
    with i c fits have "text_at img' ?dst = tx" by (simp add: text_at_mem_put)
    with HG_T_STR16 len cap have "hg_field_read f img' base cap = tx" by (simp add: field_defs)
    with HG_T_STR16 s i fits len show ?thesis by (simp add: field_defs width_def buf_simps)
  next
    case HG_T_STR
    with wf show ?thesis by (simp add: row_wf_def)
  qed
qed

text \<open>What a write stores passes the check of the validator.\<close>

lemma str16_scan_text:
  assumes "str_ok tx"
  shows "str16_scan (bytes_of tx @ 0 # xs)"
proof -
  have "\<forall>c \<in> set tx. 0x20 < char_code c \<and> char_code c \<le> 0x7E" using assms by (auto simp: str_ok_def)
  then show ?thesis
    by (induction tx) (auto simp: bytes_of_def byte_of_zero word_less_nat_alt)
qed

lemma write_in_range:
  assumes wf: "row_wf f" and fits: "base + fd_offset f + width f \<le> length img"
    and w: "hg_field_write f img base tx = Inr img'"
  shows "if fd_type f = HG_T_STR16 then str16_ok img' (base + fd_offset f) else row_ok img' base f"
proof (cases "fd_type f")
  case HG_T_STR16
  then have s: "str_ok tx" and i: "img' = mem_put img (base + fd_offset f) (bytes_of tx @ replicate (16 - length tx) 0)"
    using w by (auto simp: field_defs split: if_splits)
  have len: "length tx \<le> 15" using s by (simp add: str_ok_def)
  have r: "replicate (16 - length tx) (0 :: u8) = 0 # replicate (15 - length tx) 0"
    using len by (simp add: Suc_diff_le flip: replicate_Suc)
  have "take 16 (drop (base + fd_offset f) img') = bytes_of tx @ 0 # replicate (15 - length tx) 0"
    unfolding r [symmetric] using len fits HG_T_STR16 by (simp add: i mem_put_def width_def)
  then show ?thesis using HG_T_STR16 str16_scan_text [OF s] by (simp add: str16_ok_def)
next
  case HG_T_U8
  then obtain v where "img' = put_u8 img (base + fd_offset f) v" "fd_min f \<le> v" "v \<le> fd_max f"
    using w by (auto simp: field_defs ebind_eq_Inr need_eq_Inr guard_not_eq_Inr)
  with HG_T_U8 wf fits show ?thesis
    by (auto simp: row_ok_alt row_wf_def read_u8 width_def unat_of_int_u8 Let_def)
next
  case HG_T_U16
  then obtain v where "img' = put_u16 img (base + fd_offset f) v" "fd_min f \<le> v" "v \<le> fd_max f"
    using w by (auto simp: field_defs ebind_eq_Inr need_eq_Inr guard_not_eq_Inr)
  with HG_T_U16 wf fits show ?thesis
    by (auto simp: row_ok_alt row_wf_def read_u16 width_def unat_of_int_u16 Let_def)
next
  case HG_T_HHMM
  then obtain v where "hg_hhmm_parse tx = Some v" "img' = put_u16 img (base + fd_offset f) v"
    using w by (auto simp: field_defs ebind_eq_Inr need_eq_Inr)
  with HG_T_HHMM fits hhmm_parse_range [of tx v] show ?thesis
    by (auto simp: row_ok_def field_raw_def Let_def read_u16 width_def unsigned_of_int take_bit_int_eq_self)
next
  case HG_T_PIN
  show ?thesis
  proof (cases "ci_eq tx ''NONE''")
    case True
    with HG_T_PIN w have "img' = mem_put img (base + fd_offset f) [HG_NONE]" by (simp add: field_defs)
    with HG_T_PIN fits show ?thesis by (simp add: row_ok_def field_raw_def buf_simps width_def Let_def)
  next
    case False
    then obtain v where "img' = put_u8 img (base + fd_offset f) v" "fd_min f \<le> v" "v \<le> fd_max f"
      using w HG_T_PIN by (auto simp: field_defs ebind_eq_Inr need_eq_Inr guard_not_eq_Inr)
    with HG_T_PIN wf fits show ?thesis
      by (auto simp: row_ok_alt row_wf_def read_u8 width_def unat_of_int_u8 Let_def)
  qed
next
  case HG_T_BOOL
  then have "img' = put_u8 img (base + fd_offset f) 1 \<or> img' = put_u8 img (base + fd_offset f) 0"
    using w by (auto simp: field_defs split: if_splits)
  with HG_T_BOOL wf fits show ?thesis by (auto simp: row_ok_alt row_wf_def read_u8 width_def Let_def)
next
  case HG_T_ENUM
  then obtain v where p: "enum_parse (fd_enums f) tx = Some v" and "img' = put_u8 img (base + fd_offset f) v"
    using w by (auto simp: field_defs ebind_eq_Inr need_eq_Inr)
  with HG_T_ENUM wf fits enum_parse_range [OF p] show ?thesis
    by (auto simp: row_ok_alt row_wf_def read_u8 width_def unat_of_int_u8 Let_def)
next
  case HG_T_STR
  with wf show ?thesis by (simp add: row_wf_def)
qed

section \<open>No two fields overlap\<close>

text \<open>
  The unit a group belongs to: the head of the logical plane, a shelf or an auxiliary output of
  it, the head of the hardware plane, a shelf of it; and where in the unit the group begins.
\<close>

definition unit_of :: "hg_field \<Rightarrow> nat" where
  "unit_of f = (let g = fd_group f in
     if g = HG_G_ZONECFG then 0 else if g = HG_G_AUX then 2 else if g = HG_G_HW then 3
     else if g = HG_G_HWSHELF \<or> g = HG_G_CAL then 4 else 1)"

definition in_unit :: "hg_field \<Rightarrow> nat" where
  "in_unit f = (let g = fd_group f in
     (if g = HG_G_LIGHT then 24 else if g = HG_G_WATER then 36 else if g = HG_G_FAN then 52
      else if g = HG_G_VIB then 56 else 0) + fd_offset f)"

definition cells :: "hg_field \<Rightarrow> nat list" where
  "cells f = [in_unit f ..< in_unit f + width f]"

lemma cells_distinct:
  "list_all (\<lambda>u. distinct (concat (map cells (filter (\<lambda>f. unit_of f = u) HG_FIELDS)))) [0, 1, 2, 3, 4]"
  by code_simp

lemma cells_in_unit:
  "list_all (\<lambda>f. in_unit f + width f \<le> [24, 72, 8, 16, 32] ! unit_of f) HG_FIELDS"
  by code_simp

definition unit_base :: "nat \<Rightarrow> nat \<Rightarrow> nat" where
  "unit_base u i = (if u = 1 then 48 + 72 * i else if u = 2 then 24 + 8 * i else if u = 4 then 32 + 32 * i else 0)"

lemma unit_of_less: "unit_of f \<le> 4"
  by (simp add: unit_of_def Let_def)

lemma row_at:
  assumes "group_base (fd_group f) idx = Some (pl, base)"
  shows "base + fd_offset f = unit_base (unit_of f) (nat idx) + in_unit f"
    "pl = (if unit_of f \<ge> 3 then PlaneHw else PlaneCfg)"
    "unit_of f \<in> {1, 4} \<Longrightarrow> 0 \<le> idx \<and> nat idx < 4" "unit_of f = 2 \<Longrightarrow> 0 \<le> idx \<and> nat idx < 2"
  using assms
  by (auto simp: group_base_def hg_group_scope_def unit_base_def unit_of_def in_unit_def off_defs
      HG_MAX_SHELVES_def HG_MAX_AUX_def Let_def group_ids split: if_splits)

lemma in_unit_bound: "f \<in> set HG_FIELDS \<Longrightarrow> in_unit f + width f \<le> [24, 72, 8, 16, 32] ! unit_of f"
  using cells_in_unit by (simp add: list_all_iff)

lemma unit_cases: "unit_of f = 0 \<or> unit_of f = 1 \<or> unit_of f = 2 \<or> unit_of f = 3 \<or> unit_of f = 4"
  using unit_of_less [of f] by linarith

lemma row_fits:
  assumes "f \<in> set HG_FIELDS" "group_base (fd_group f) idx = Some (pl, base)"
  shows "base + fd_offset f + width f \<le> (case pl of PlaneHw \<Rightarrow> 160 | PlaneCfg \<Rightarrow> 336)"
  using row_at [OF assms(2)] in_unit_bound [OF assms(1)] unit_cases [of f]
  by (auto simp: unit_base_def)

lemma distinct_concat_disjoint:
  "distinct (concat (map F xs)) \<Longrightarrow> x \<in> set xs \<Longrightarrow> y \<in> set xs \<Longrightarrow> x \<noteq> y \<Longrightarrow> set (F x) \<inter> set (F y) = {}"
  by (induction xs) auto

lemma cells_disjoint:
  assumes "f \<in> set HG_FIELDS" "h \<in> set HG_FIELDS" "f \<noteq> h" "unit_of f = unit_of h"
  shows "set (cells f) \<inter> set (cells h) = {}"
proof -
  have "unit_of f \<in> set [0, 1, 2, 3, 4]" using unit_of_less [of f] by auto
  then have "distinct (concat (map cells (filter (\<lambda>x. unit_of x = unit_of f) HG_FIELDS)))"
    using cells_distinct unfolding list_all_iff by blast
  from distinct_concat_disjoint [OF this, of f h] show ?thesis using assms by simp
qed

lemma intervals_disjoint:
  fixes a b :: nat
  assumes "set [a ..< a + w] \<inter> set [b ..< b + v] = {}" "0 < w" "0 < v"
  shows "a + w \<le> b \<or> b + v \<le> a"
proof (rule ccontr)
  assume "\<not> (a + w \<le> b \<or> b + v \<le> a)"
  then have "max a b \<in> set [a ..< a + w] \<inter> set [b ..< b + v]" using assms(2,3) by auto
  with assms(1) show False by simp
qed

text \<open>Two rows of the table at two places: the intervals are disjoint, in whatever plane.\<close>

lemma rows_disjoint:
  assumes f: "f \<in> set HG_FIELDS" "group_base (fd_group f) i = Some (pl, b)"
    and h: "h \<in> set HG_FIELDS" "group_base (fd_group h) j = Some (pl, c)"
    and other: "f \<noteq> h \<or> (hg_group_scope (fd_group f) \<noteq> 0 \<and> i \<noteq> j)"
  shows "b + fd_offset f + width f \<le> c + fd_offset h \<or> c + fd_offset h + width h \<le> b + fd_offset f"
proof (cases "unit_of f = unit_of h \<and> (nat i = nat j \<or> unit_of f \<in> {0, 3})")
  case True
  have "f \<noteq> h"
    using other True row_at(3,4) [OF f(2)] row_at(3,4) [OF h(2)]
    by (auto simp: hg_group_scope_def unit_of_def Let_def split: if_splits)
  with True have "set (cells f) \<inter> set (cells h) = {}" by (intro cells_disjoint f(1) h(1)) simp_all
  moreover have "width f > 0" "width h > 0"
    using row_wf_table [OF f(1)] row_wf_table [OF h(1)] by (auto simp: width_def row_wf_def split: hg_ftype.splits)
  ultimately have "in_unit f + width f \<le> in_unit h \<or> in_unit h + width h \<le> in_unit f"
    unfolding cells_def by (intro intervals_disjoint)
  moreover have "unit_base (unit_of f) (nat i) = unit_base (unit_of h) (nat j)"
    using True by (auto simp: unit_base_def)
  ultimately show ?thesis unfolding row_at(1) [OF f(2)] row_at(1) [OF h(2)] by linarith
next
  case False
  note fb = row_at(2-) [OF f(2)] in_unit_bound [OF f(1)]
  note hb = row_at(2-) [OF h(2)] in_unit_bound [OF h(1)]
  have planes: "unit_of f \<ge> 3 \<longleftrightarrow> unit_of h \<ge> 3"
    using fb(1) hb(1) by (auto split: if_splits)
  consider (same) "unit_of f = unit_of h" "unit_of f \<in> {1, 2, 4}" "nat i \<noteq> nat j"
    | (other) "unit_of f \<noteq> unit_of h"
  proof (cases "unit_of f = unit_of h")
    case True
    with False have "nat i \<noteq> nat j" "unit_of f \<notin> {0, 3}" by auto
    moreover have "unit_of f \<in> {1, 2, 4}" using calculation(2) unit_cases [of f] by blast
    ultimately show thesis using that(1) True by blast
  qed (rule that(2))
  then have "unit_base (unit_of f) (nat i) + in_unit f + width f \<le> unit_base (unit_of h) (nat j) + in_unit h \<or>
      unit_base (unit_of h) (nat j) + in_unit h + width h \<le> unit_base (unit_of f) (nat i) + in_unit f"
  proof cases
    case same
    then consider "nat i < nat j" | "nat j < nat i" by linarith
    then show ?thesis by cases (use same fb(4) hb(4) in \<open>auto simp: unit_base_def\<close>)
  next
    case other
    have "(unit_of f, unit_of h) \<in> {(0, 1), (0, 2), (1, 0), (1, 2), (2, 0), (2, 1), (3, 4), (4, 3)}"
      using unit_cases [of f] unit_cases [of h] planes other by (elim disjE) simp_all
    then show ?thesis
      unfolding insert_iff empty_iff Pair_inject
      by (elim disjE conjE FalseE) (use fb(2-) hb(2-) in \<open>simp_all add: unit_base_def\<close>)
  qed
  then show ?thesis unfolding row_at(1) [OF f(2)] row_at(1) [OF h(2)] .
qed

section \<open>The text interface\<close>

definition in_plane :: "plane \<Rightarrow> hg_zone_hw \<Rightarrow> hg_zone_cfg \<Rightarrow> u8 list" where
  "in_plane pl hw cfg = (case pl of PlaneHw \<Rightarrow> hw | PlaneCfg \<Rightarrow> cfg)"

definition field_bytes :: "hg_field \<Rightarrow> u8 list \<Rightarrow> nat \<Rightarrow> u8 list" where
  "field_bytes f img base = take (width f) (drop (base + fd_offset f) img)"

lemma find_rowD: "find_row g key = Some f \<Longrightarrow> f \<in> set HG_FIELDS \<and> fd_group f = g \<and> ci_eq (fd_key f) key"
  unfolding find_row_def by (auto simp: find_Some_iff)

lemma set_text_cases:
  assumes "hg_field_set_text hw cfg g idx key val = Inr (hw', cfg')"
  obtains f pl base where "find_row g key = Some f" "group_base g idx = Some (pl, base)"
    "hg_field_write f (in_plane pl hw cfg) base val = Inr (in_plane pl hw' cfg')"
    "pl = PlaneHw \<Longrightarrow> cfg' = cfg" "pl = PlaneCfg \<Longrightarrow> hw' = hw"
proof -
  from assms obtain f pl base where f: "find_row g key = Some f" "group_base g idx = Some (pl, base)"
    and r: "(case pl of PlaneHw \<Rightarrow> ebind (hg_field_write f hw base val) (\<lambda>hw'. Inr (hw', cfg))
      | PlaneCfg \<Rightarrow> ebind (hg_field_write f cfg base val) (\<lambda>cfg'. Inr (hw, cfg'))) = Inr (hw', cfg')"
    by (auto simp: hg_field_set_text_def ebind_eq_Inr need_eq_Inr)
  show thesis
    by (rule that [OF f]) (use r in \<open>cases pl; auto simp: ebind_eq_Inr in_plane_def\<close>)+
qed

lemma set_textI:
  assumes "find_row g key = Some f" "group_base g idx = Some (pl, base)"
    "hg_field_write f (in_plane pl hw cfg) base val = Inr (in_plane pl hw cfg)"
  shows "hg_field_set_text hw cfg g idx key val = Inr (hw, cfg)"
  using assms by (cases pl) (simp_all add: hg_field_set_text_def in_plane_def)

lemma plane_length:
  "length hw = 160 \<Longrightarrow> length cfg = 336 \<Longrightarrow> length (in_plane pl hw cfg) = (case pl of PlaneHw \<Rightarrow> 160 | PlaneCfg \<Rightarrow> 336)"
  by (cases pl) (simp_all add: in_plane_def)

lemma set_text_sound:
  assumes set: "hg_field_set_text hw cfg g idx key val = Inr (hw', cfg')"
    and len: "length hw = 160" "length cfg = 336" and cap: "17 \<le> cap"
  shows "length hw' = 160 \<and> length cfg' = 336 \<and>
    (\<exists>t. hg_field_get_text hw' cfg' g idx key cap = Inr t \<and>
         hg_field_set_text hw' cfg' g idx key t = Inr (hw', cfg')) \<and>
    (\<exists>f pl base. find_row g key = Some f \<and> group_base g idx = Some (pl, base) \<and>
       (if fd_type f = HG_T_STR16 then str16_ok (in_plane pl hw' cfg') (base + fd_offset f)
        else row_ok (in_plane pl hw' cfg') base f))"
proof -
  from set obtain f pl base where f: "find_row g key = Some f" and b: "group_base g idx = Some (pl, base)"
    and w: "hg_field_write f (in_plane pl hw cfg) base val = Inr (in_plane pl hw' cfg')"
    and same: "pl = PlaneHw \<Longrightarrow> cfg' = cfg" "pl = PlaneCfg \<Longrightarrow> hw' = hw"
    by (rule set_text_cases) blast
  note row = find_rowD [OF f]
  have wf: "row_wf f" using row row_wf_table by blast
  have fits: "base + fd_offset f + width f \<le> length (in_plane pl hw cfg)"
    using row_fits [of f idx pl base] row b plane_length [OF len] by simp
  obtain bs where "length bs = width f" "in_plane pl hw' cfg' = mem_put (in_plane pl hw cfg) (base + fd_offset f) bs"
    using write_frame [OF wf w] by blast
  then have "length (in_plane pl hw' cfg') = length (in_plane pl hw cfg)"
    using fits by (simp add: buf_simps)
  then have l: "length hw' = 160 \<and> length cfg' = 336"
    using same len by (cases pl) (simp_all add: in_plane_def)
  have "hg_field_get_text hw' cfg' g idx key cap = Inr (hg_field_read f (in_plane pl hw' cfg') base cap)"
    using f b by (simp add: hg_field_get_text_def in_plane_def)
  moreover have "hg_field_set_text hw' cfg' g idx key (hg_field_read f (in_plane pl hw' cfg') base cap) = Inr (hw', cfg')"
    by (rule set_textI [OF f b write_read_back [OF wf fits w cap]])
  ultimately show ?thesis using l f b write_in_range [OF wf fits w] by auto
qed

lemma set_text_frame:
  assumes set: "hg_field_set_text hw cfg g idx key val = Inr (hw', cfg')"
    and len: "length hw = 160" "length cfg = 336"
    and f: "find_row g key = Some f"
    and h: "h \<in> set HG_FIELDS" "group_base (fd_group h) j = Some (pl, c)"
    and other: "f \<noteq> h \<or> (hg_group_scope g \<noteq> 0 \<and> idx \<noteq> j)"
  shows "field_bytes h (in_plane pl hw' cfg') c = field_bytes h (in_plane pl hw cfg) c"
proof -
  from set obtain pl' base where b: "group_base g idx = Some (pl', base)"
    and w: "hg_field_write f (in_plane pl' hw cfg) base val = Inr (in_plane pl' hw' cfg')"
    and same: "pl' = PlaneHw \<Longrightarrow> cfg' = cfg" "pl' = PlaneCfg \<Longrightarrow> hw' = hw"
    using f by (auto elim!: set_text_cases)
  note row = find_rowD [OF f]
  show ?thesis
  proof (cases "pl' = pl")
    case False
    then show ?thesis using same by (cases pl; cases pl') (auto simp: in_plane_def)
  next
    case True
    have wf: "row_wf f" using row row_wf_table by blast
    have fits: "base + fd_offset f + width f \<le> length (in_plane pl hw cfg)"
      using row_fits [of f idx pl base] row b plane_length [OF len] True by simp
    obtain bs where bs: "length bs = width f"
      "in_plane pl hw' cfg' = mem_put (in_plane pl hw cfg) (base + fd_offset f) bs"
      using write_frame [OF wf w] True by blast
    have dis: "base + fd_offset f + width f \<le> c + fd_offset h \<or> c + fd_offset h + width h \<le> base + fd_offset f"
      using rows_disjoint [of f idx pl base h j c] row b h other True by blast
    have l: "length (in_plane pl hw' cfg') = length (in_plane pl hw cfg)" using bs fits by (simp add: buf_simps)
    have fits_h: "c + fd_offset h + width h \<le> length (in_plane pl hw cfg)"
      using row_fits [OF h] plane_length [OF len] by simp
    show ?thesis
      unfolding field_bytes_def
    proof (rule nth_equalityI)
      fix i
      assume "i < length (take (width h) (drop (c + fd_offset h) (in_plane pl hw' cfg')))"
      then show "take (width h) (drop (c + fd_offset h) (in_plane pl hw' cfg')) ! i =
          take (width h) (drop (c + fd_offset h) (in_plane pl hw cfg)) ! i"
        using fits_h fits dis bs l by (auto simp: buf_simps)
    qed (use l in simp)
  qed
qed

section \<open>Properties\<close>

lemma default_lengths: "length hg_defaults_hw = 160" "length hg_defaults_cfg = 336"
  by (simp_all add: hg_defaults_hw_eq hg_defaults_cfg_eq)

lemma linkloss_row: "find_row HG_G_ZONECFG ''LINKLOSS_S'' = Some (FLD HG_G_ZONECFG ''LINKLOSS_S'' 6 HG_T_U16 10 600 '''')"
  by code_simp

lemma linkloss_write: "\<exists>q. hg_field_set_text hg_defaults_hw hg_defaults_cfg HG_G_ZONECFG 0 ''LINKLOSS_S'' ''60'' = Inr q"
proof -
  have "group_base HG_G_ZONECFG 0 = Some (PlaneCfg, 0)" by code_simp
  moreover have "parse_int ''60'' = Some 60" by code_simp
  ultimately show ?thesis
    by (simp add: hg_field_set_text_def linkloss_row need_def hg_field_write_def FLD_def guard_not_def Let_def)
qed

text \<open>A text write to one field leaves the bytes of every other field, and of the same field of another shelf or output, as they were.\<close>

lemma set_text_touches_one_field:
  assumes "hg_field_set_text hw cfg g idx key val = Inr (hw', cfg')" "length hw = 160" "length cfg = 336"
    "find_row g key = Some f" "h \<in> set HG_FIELDS" "group_base (fd_group h) j = Some (pl, c)"
    "f \<noteq> h \<or> (hg_group_scope g \<noteq> 0 \<and> idx \<noteq> j)"
  shows "field_bytes h (in_plane pl hw' cfg') c = field_bytes h (in_plane pl hw cfg) c"
  using assms by (rule set_text_frame)

lemma set_text_touches_one_field_witness:
  \<open>field_bytes (HG_FIELDS ! 0) (snd (projr (hg_field_set_text hg_defaults_hw hg_defaults_cfg HG_G_ZONECFG 0 ''LINKLOSS_S'' ''60''))) 0 =
     field_bytes (HG_FIELDS ! 0) hg_defaults_cfg 0\<close>
proof -
  obtain hw' cfg' where w: "hg_field_set_text hg_defaults_hw hg_defaults_cfg HG_G_ZONECFG 0 ''LINKLOSS_S'' ''60'' = Inr (hw', cfg')"
    using linkloss_write by (metis surj_pair)
  have h: "HG_FIELDS ! 0 \<in> set HG_FIELDS" "group_base (fd_group (HG_FIELDS ! 0)) 0 = Some (PlaneCfg, 0)"
    "FLD HG_G_ZONECFG ''LINKLOSS_S'' 6 HG_T_U16 10 600 '''' \<noteq> HG_FIELDS ! 0"
    by (simp_all add: HG_FIELDS_def FLD_def group_base_def hg_group_scope_def group_ids)
  from set_text_touches_one_field [OF w default_lengths linkloss_row h(1,2) disjI1 [OF h(3)]] w
  show ?thesis by (simp add: in_plane_def)
qed

text \<open>C34. A text write that is accepted keeps the planes' sizes, leaves the field within the range of its table row, and the text then read back, written again, changes nothing.\<close>

lemma set_text_round_trip:
  assumes "hg_field_set_text hw cfg g idx key val = Inr (hw', cfg')" "length hw = 160" "length cfg = 336" "17 \<le> cap"
  shows "length hw' = 160 \<and> length cfg' = 336 \<and>
    (\<exists>t. hg_field_get_text hw' cfg' g idx key cap = Inr t \<and>
         hg_field_set_text hw' cfg' g idx key t = Inr (hw', cfg')) \<and>
    (\<exists>f pl base. find_row g key = Some f \<and> group_base g idx = Some (pl, base) \<and>
       (if fd_type f = HG_T_STR16 then str16_ok (in_plane pl hw' cfg') (base + fd_offset f)
        else row_ok (in_plane pl hw' cfg') base f))"
  using assms by (rule set_text_sound)

lemma set_text_round_trip_witness:
  \<open>length (snd (projr (hg_field_set_text hg_defaults_hw hg_defaults_cfg HG_G_ZONECFG 0 ''LINKLOSS_S'' ''60''))) = 336\<close>
proof -
  have w: "\<exists>q. hg_field_set_text hg_defaults_hw hg_defaults_cfg HG_G_ZONECFG 0 ''LINKLOSS_S'' ''60'' = Inr q"
    by (rule linkloss_write)
  then obtain hw' cfg' where "hg_field_set_text hg_defaults_hw hg_defaults_cfg HG_G_ZONECFG 0 ''LINKLOSS_S'' ''60'' = Inr (hw', cfg')"
    by (metis surj_pair)
  with set_text_round_trip [OF this default_lengths, of 32] show ?thesis by simp
qed

end
