(* ===== verification/HG_Model.thy ===== *)
theory HG_Model
  imports HG_Cfg_Text HG_Blob
begin

text \<open>
  \<^verbatim>\<open>components/hg_model/hg_model.c\<close>: the zone's live configuration, its edits, and what has
  still to be written to flash. A caller of an edit passes a function that changes copies of
  the planes and says with a mask what it changed. Shown: while callers keep that contract the
  model stays valid and a plane whose dirty bit is clear equals its flash copy, so that no
  accepted change is lost; and the checksum that identifies the logical plane covers its
  generation.
\<close>

section \<open>State and operations\<close>

definition HG_CH_HW :: u32 where "HG_CH_HW = 0x01"
definition HG_CH_CFG :: u32 where "HG_CH_CFG = 0x02"
definition HG_CH_HW_LIVE :: u32 where "HG_CH_HW_LIVE = 0x04"

record hg_model =
  m_hw :: hg_zone_hw
  m_cfg :: hg_zone_cfg
  m_seq :: u32
  m_hw_gen :: u32
  m_dirty :: u8
  m_restart_pending :: bool

definition gen_next :: "u32 \<Rightarrow> u32" where
  "gen_next g = (if g + 1 \<noteq> 0 then g + 1 else 1)"

definition hg_model_init :: hg_model where
  "hg_model_init = \<lparr>m_hw = hg_defaults_hw, m_cfg = hg_defaults_cfg, m_seq = 0, m_hw_gen = 0,
     m_dirty = 0, m_restart_pending = False\<rparr>"

definition hg_model_boot_load :: "hg_model \<Rightarrow> hg_zone_hw option \<Rightarrow> hg_zone_cfg option \<Rightarrow> hg_model" where
  "hg_model_boot_load m hw cfg =
     m\<lparr>m_hw := (case hw of None \<Rightarrow> m_hw m | Some h \<Rightarrow> h),
       m_cfg := (case cfg of None \<Rightarrow> m_cfg m | Some c \<Rightarrow> c),
       m_dirty := 0, m_restart_pending := False\<rparr>"

text \<open>The generation and the source are the first fields of the logical plane.\<close>

definition cfg_generation :: "hg_zone_cfg \<Rightarrow> u32" where
  "cfg_generation cfg = le32_at cfg 0"

definition cfg_stamp :: "hg_zone_cfg \<Rightarrow> u32 \<Rightarrow> u8 \<Rightarrow> hg_zone_cfg" where
  "cfg_stamp cfg gen src = mem_put (mem_put cfg 0 (le32_put gen)) 4 [src]"

type_synonym hg_edit_fn = "hg_zone_hw \<Rightarrow> hg_zone_cfg \<Rightarrow> hg_zone_hw \<times> hg_zone_cfg \<times> u32"

definition has_bits :: "u32 \<Rightarrow> u32 \<Rightarrow> bool" where
  "has_bits chg b \<longleftrightarrow> chg AND b \<noteq> 0"

text \<open>The dirty bits of an edit: a change that is live at once is saved like any other.\<close>

definition dirty_of :: "u32 \<Rightarrow> u8" where
  "dirty_of chg =
     ucast ((if has_bits chg HG_CH_HW_LIVE then HG_CH_HW else 0) OR (chg AND (HG_CH_HW OR HG_CH_CFG)))"

definition hg_model_edit :: "hg_model \<Rightarrow> hg_edit_fn \<Rightarrow> string + hg_model" where
  "hg_model_edit m fn =
     (let (hw, cfg, chg) = fn (m_hw m) (m_cfg m) in
      ebind (if has_bits chg (HG_CH_HW OR HG_CH_HW_LIVE) then hg_hw_validate hw else Inr ()) (\<lambda>_.
      ebind (if has_bits chg (HG_CH_CFG OR HG_CH_HW OR HG_CH_HW_LIVE)
             then hg_cfg_validate cfg (Some hw) else Inr ()) (\<lambda>_.
      Inr (m\<lparr>m_hw := hw,
             m_cfg := (if has_bits chg HG_CH_CFG
                       then cfg_stamp cfg (gen_next (cfg_generation cfg)) HG_SRC_LOCAL else cfg),
             m_hw_gen := (if has_bits chg (HG_CH_HW OR HG_CH_HW_LIVE) then m_hw_gen m + 1 else m_hw_gen m),
             m_seq := m_seq m + 1,
             m_dirty := m_dirty m OR dirty_of chg,
             m_restart_pending := m_restart_pending m \<or> has_bits chg HG_CH_HW\<rparr>))))"

text \<open>\<open>hg_model_take_dirty\<close>: the plane and the generation to store with it.\<close>

definition hg_model_take_dirty :: "hg_model \<Rightarrow> u8 \<Rightarrow> hg_model \<times> (u8 list \<times> u32) option" where
  "hg_model_take_dirty m kind =
     (if (kind = ucast HG_CH_HW \<or> kind = ucast HG_CH_CFG) \<and> m_dirty m AND kind \<noteq> 0
      then (m\<lparr>m_dirty := m_dirty m AND NOT kind\<rparr>,
            Some (if kind = ucast HG_CH_HW then (m_hw m, m_hw_gen m)
                  else (m_cfg m, cfg_generation (m_cfg m))))
      else (m, None))"

definition hg_model_apply_cfg :: "hg_model \<Rightarrow> hg_zone_cfg \<Rightarrow> hg_model" where
  "hg_model_apply_cfg m cfg =
     m\<lparr>m_cfg := cfg, m_dirty := m_dirty m OR ucast HG_CH_CFG, m_seq := m_seq m + 1\<rparr>"

definition hg_model_apply_hw :: "hg_model \<Rightarrow> hg_zone_hw \<Rightarrow> string + hg_model" where
  "hg_model_apply_hw m hw =
     ebind (hg_hw_validate hw) (\<lambda>_.
     ebind (hg_cfg_validate (m_cfg m) (Some hw)) (\<lambda>_.
     Inr (m\<lparr>m_hw := hw, m_hw_gen := m_hw_gen m + 1, m_dirty := m_dirty m OR ucast HG_CH_HW,
            m_restart_pending := True, m_seq := m_seq m + 1\<rparr>)))"

definition hg_model_cfg_info :: "hg_model \<Rightarrow> u32 \<times> u32" where
  "hg_model_cfg_info m = (cfg_generation (m_cfg m), hg_crc32 0 (m_cfg m))"

definition hg_model_hw_crc :: "hg_model \<Rightarrow> u32" where
  "hg_model_hw_crc m = hg_crc32 0 (m_hw m)"

definition hg_model_cfg_src :: "hg_model \<Rightarrow> u8" where
  "hg_model_cfg_src m = (if cfg_generation (m_cfg m) = 0 then 0 else m_cfg m ! 4 + 1)"

definition edit_ok :: "hg_edit_fn \<Rightarrow> bool" where
  "edit_ok fn \<longleftrightarrow>
     (\<forall>hw cfg. length hw = 160 \<longrightarrow> length cfg = 336 \<longrightarrow>
        (case fn hw cfg of (hw', cfg', chg) \<Rightarrow>
           length hw' = 160 \<and> length cfg' = 336 \<and>
           (has_bits chg (HG_CH_HW OR HG_CH_HW_LIVE) \<or> hw' = hw) \<and>
           (has_bits chg HG_CH_CFG \<or> cfg' = cfg)))"

text \<open>The planes of the model are whole and pass validation.\<close>

definition planes_ok :: "hg_zone_hw \<Rightarrow> hg_zone_cfg \<Rightarrow> bool" where
  "planes_ok hw cfg \<longleftrightarrow>
     length hw = 160 \<and> length cfg = 336 \<and> hw_spec hw \<and> cfg_spec cfg (Some hw)"

text \<open>A step from \<open>m\<close> to \<open>m'\<close> forgets no dirty bit and sets the bit of every plane it changes.\<close>

definition changes_marked :: "hg_model \<Rightarrow> hg_model \<Rightarrow> bool" where
  "changes_marked m m' \<longleftrightarrow>
     (bit (m_dirty m) 0 \<longrightarrow> bit (m_dirty m') 0) \<and> (bit (m_dirty m) 1 \<longrightarrow> bit (m_dirty m') 1) \<and>
     (m_hw m' \<noteq> m_hw m \<longrightarrow> bit (m_dirty m') 0) \<and> (m_cfg m' \<noteq> m_cfg m \<longrightarrow> bit (m_dirty m') 1)"

section \<open>The generation\<close>

lemma gen_next_not_0: "gen_next g \<noteq> 0"
  by (simp add: gen_next_def)

lemma cfg_stamp_eq: "length cfg = 336 \<Longrightarrow> cfg_stamp cfg gen src = le32_put gen @ src # drop 5 cfg"
  by (simp add: cfg_stamp_def mem_put_def)

lemma cfg_stamp_facts:
  assumes "length cfg = 336"
  shows "length (cfg_stamp cfg gen src) = 336" "drop 5 (cfg_stamp cfg gen src) = drop 5 cfg"
    "cfg_generation (cfg_stamp cfg gen src) = gen" "cfg_stamp cfg gen src ! 4 = src"
  using assms by (simp_all add: cfg_stamp_eq cfg_generation_def nth_append buf_simps le32_at_def le32_put_def le_simps)

text \<open>Nothing the validator reads lies in the first five bytes.\<close>

lemma cfg_spec_tail:
  assumes "drop 5 a = drop 5 b" "length a = 336" "length b = 336"
  shows "cfg_spec a hwo = cfg_spec b hwo"
proof -
  have d: "drop p a = drop p b" if "5 \<le> p" for p
    using that arg_cong [OF assms(1), of "drop (p - 5)"] by simp
  have n: "a ! p = b ! p" if "5 \<le> p" "p < 336" for p
    using d [OF that(1)] that(2) assms by (metis Cons_nth_drop_Suc list.inject)
  have le: "le16_at a p = le16_at b p" if "5 \<le> p" "p + 1 < 336" for p
    using n [of p] n [of "p + 1"] that by (simp add: le16_at_def)
  have r: "rows_ok a p g = rows_ok b p g" if "5 \<le> p" "p < 336" for p g
    using rows_ok_drop [of p a 0 g] rows_ok_drop [of p b 0 g] d [of p] that assms by simp
  have st: "str16_ok a p = str16_ok b p" if "5 \<le> p" for p
    using d [OF that] by (simp add: str16_ok_def)
  have z: "rows_ok a 0 HG_G_ZONECFG = rows_ok b 0 HG_G_ZONECFG"
    using le [of 6] by (simp add: rows_ZONECFG)
  have "shelf_cfg_ok a s = shelf_cfg_ok b s \<and> shelf_fits a hw s = shelf_fits b hw s" if "s < 4" for s hw
    using that by (simp add: shelf_cfg_ok_def shelf_fits_def Let_def off_defs r st le n)
  moreover have "(a ! cfg_aux_off k \<noteq> 0 \<longrightarrow> rows_ok a (cfg_aux_off k) HG_G_AUX) =
      (b ! cfg_aux_off k \<noteq> 0 \<longrightarrow> rows_ok b (cfg_aux_off k) HG_G_AUX)" if "k < 2" for k
    using that by (simp add: off_defs r n)
  ultimately show ?thesis
    by (simp add: cfg_spec_def HG_MAX_SHELVES_def HG_MAX_AUX_def z st [of 8] n [of 8])
qed

lemma cfg_spec_stamp: "length cfg = 336 \<Longrightarrow> cfg_spec (cfg_stamp cfg gen src) hwo = cfg_spec cfg hwo"
  by (rule cfg_spec_tail) (simp_all add: cfg_stamp_facts)

lemma crc_sees_generation:
  assumes "length cfg = 336" "gen \<noteq> gen'"
  shows "hg_crc32 0 (cfg_stamp cfg gen src) \<noteq> hg_crc32 0 (cfg_stamp cfg gen' src)"
  using assms hg_crc32_first_word [of 0 gen "src # drop 5 cfg" gen'] by (simp add: cfg_stamp_eq)

section \<open>Dirty bits\<close>

lemma and_bits:
  "(x AND 1 = 0) = (\<not> bit x 0)" "(x AND 2 = 0) = (\<not> bit x 1)" "(x AND 4 = 0) = (\<not> bit x 2)"
  for x :: "'a :: len word"
  using and_exp_eq_0_iff_not_bit [of x 0] and_exp_eq_0_iff_not_bit [of x 1] and_exp_eq_0_iff_not_bit [of x 2]
  by (simp_all add: bit_0)

lemma has_bits_or: "has_bits x (a OR b) \<longleftrightarrow> has_bits x a \<or> has_bits x b"
  by (auto simp: has_bits_def bit.conj_disj_distrib or_eq_0_iff)

lemma has_bits_simps:
  "has_bits x HG_CH_HW \<longleftrightarrow> bit x 0" "has_bits x HG_CH_CFG \<longleftrightarrow> bit x 1" "has_bits x HG_CH_HW_LIVE \<longleftrightarrow> bit x 2"
  by (simp_all only: has_bits_def HG_CH_HW_def HG_CH_CFG_def HG_CH_HW_LIVE_def and_bits not_not)

lemma dirty_of_bits:
  "bit (d OR dirty_of c) 0 \<longleftrightarrow> bit d 0 \<or> bit c 2 \<or> bit c 0" "bit (d OR dirty_of c) 1 \<longleftrightarrow> bit d 1 \<or> bit c 1"
  unfolding dirty_of_def has_bits_simps
  by (auto simp: bit_or_iff bit_and_iff bit_unsigned_iff HG_CH_HW_def HG_CH_CFG_def bit_numeral_rec bit_1_iff
      simp del: bit_0)

lemma dirty_or_bits:
  "bit (d OR ucast HG_CH_HW :: u8) 0" "bit (d OR ucast HG_CH_HW :: u8) 1 = bit d 1"
  "bit (d OR ucast HG_CH_CFG :: u8) 1" "bit (d OR ucast HG_CH_CFG :: u8) 0 = bit d 0"
  by (auto simp: bit_or_iff bit_unsigned_iff HG_CH_HW_def HG_CH_CFG_def bit_1_iff bit_numeral_rec simp del: bit_0)

section \<open>Edits and pushes\<close>

lemma edit_cases:
  assumes "hg_model_edit m fn = Inr m'"
  obtains hw cfg chg where "fn (m_hw m) (m_cfg m) = (hw, cfg, chg)"
    "bit chg 0 \<or> bit chg 2 \<longrightarrow> hw_spec hw" "bit chg 0 \<or> bit chg 1 \<or> bit chg 2 \<longrightarrow> cfg_spec cfg (Some hw)"
    "m_hw m' = hw" "m_cfg m' = (if bit chg 1 then cfg_stamp cfg (gen_next (cfg_generation cfg)) HG_SRC_LOCAL else cfg)"
    "bit (m_dirty m') 0 \<longleftrightarrow> bit (m_dirty m) 0 \<or> bit chg 2 \<or> bit chg 0"
    "bit (m_dirty m') 1 \<longleftrightarrow> bit (m_dirty m) 1 \<or> bit chg 1"
proof -
  obtain hw cfg chg where f: "fn (m_hw m) (m_cfg m) = (hw, cfg, chg)" by (metis prod_cases3)
  show thesis
    using assms
    by (intro that [OF f])
      (auto simp: hg_model_edit_def f ebind_eq_Inr has_bits_or has_bits_simps dirty_of_bits hg_hw_validate_spec
        hg_cfg_validate_spec split: if_splits simp del: bit_0 One_nat_def)
qed

lemma edit_keeps:
  assumes "hg_model_edit m fn = Inr m'" "edit_ok fn" "planes_ok (m_hw m) (m_cfg m)"
  shows "planes_ok (m_hw m') (m_cfg m')" "changes_marked m m'"
proof -
  from assms(1) obtain hw cfg chg where f: "fn (m_hw m) (m_cfg m) = (hw, cfg, chg)"
    and v: "bit chg 0 \<or> bit chg 2 \<longrightarrow> hw_spec hw" "bit chg 0 \<or> bit chg 1 \<or> bit chg 2 \<longrightarrow> cfg_spec cfg (Some hw)"
    and m': "m_hw m' = hw"
      "m_cfg m' = (if bit chg 1 then cfg_stamp cfg (gen_next (cfg_generation cfg)) HG_SRC_LOCAL else cfg)"
      "bit (m_dirty m') 0 \<longleftrightarrow> bit (m_dirty m) 0 \<or> bit chg 2 \<or> bit chg 0"
      "bit (m_dirty m') 1 \<longleftrightarrow> bit (m_dirty m) 1 \<or> bit chg 1"
    by (rule edit_cases)
  have l: "length hw = 160" "length cfg = 336" and h: "bit chg 0 \<or> bit chg 2 \<or> hw = m_hw m"
    and c: "bit chg 1 \<or> cfg = m_cfg m"
    using assms(2,3) f unfolding edit_ok_def planes_ok_def has_bits_or has_bits_simps
    by (metis (mono_tags, lifting) case_prod_conv)+
  show "planes_ok (m_hw m') (m_cfg m')"
    using assms(3) l h c v by (auto simp: planes_ok_def m' cfg_stamp_facts cfg_spec_stamp)
  show "changes_marked m m'" using h c by (auto simp: changes_marked_def m' simp del: bit_0 One_nat_def)
qed

lemma apply_hw_keeps:
  assumes "hg_model_apply_hw m hw = Inr m'" "length hw = 160" "length (m_cfg m) = 336"
  shows "planes_ok (m_hw m') (m_cfg m')" "changes_marked m m'"
  using assms
  by (auto simp: hg_model_apply_hw_def ebind_eq_Inr hg_hw_validate_spec hg_cfg_validate_spec planes_ok_def
      changes_marked_def dirty_or_bits simp del: bit_0 One_nat_def)

lemma apply_cfg_keeps:
  assumes "hg_cfg_validate cfg (Some (m_hw m)) = Inr ()" "length cfg = 336" "planes_ok (m_hw m) (m_cfg m)"
  shows "planes_ok (m_hw (hg_model_apply_cfg m cfg)) (m_cfg (hg_model_apply_cfg m cfg))"
    "changes_marked m (hg_model_apply_cfg m cfg)"
  using assms
  by (auto simp: hg_model_apply_cfg_def hg_cfg_validate_spec planes_ok_def changes_marked_def dirty_or_bits simp del: bit_0 One_nat_def)

lemma init_planes_ok: "planes_ok hg_defaults_hw hg_defaults_cfg"
  using defaults_hw_valid defaults_cfg_valid
  by (simp add: planes_ok_def hg_hw_validate_spec hg_cfg_validate_spec hg_defaults_hw_eq hg_defaults_cfg_eq)

text \<open>A refused edit or push changes nothing: the functions return no new state.\<close>

lemma take_dirty_cases:
  "hg_model_take_dirty m 1 = (if bit (m_dirty m) 0 then (m\<lparr>m_dirty := m_dirty m AND NOT 1\<rparr>, Some (m_hw m, m_hw_gen m)) else (m, None))"
  "hg_model_take_dirty m 2 =
     (if bit (m_dirty m) 1 then (m\<lparr>m_dirty := m_dirty m AND NOT 2\<rparr>, Some (m_cfg m, cfg_generation (m_cfg m))) else (m, None))"
  by (simp_all add: hg_model_take_dirty_def HG_CH_HW_def HG_CH_CFG_def and_bits del: bit_0)

lemma clear_bits:
  "\<not> bit (d AND NOT 1 :: u8) 0" "bit (d AND NOT 1 :: u8) 1 = bit d 1"
  "bit (d AND NOT 2 :: u8) 0 = bit d 0" "\<not> bit (d AND NOT 2 :: u8) 1"
  by (auto simp only: bit_and_iff bit_not_iff) (auto simp: bit_1_iff bit_numeral_rec simp del: bit_0)

section \<open>Properties\<close>

text \<open>The checksum that is meant to identify the content of the logical plane covers its generation: two planes that differ only there always have different checksums.\<close>

lemma checksum_covers_the_generation:
  assumes "length cfg = 336" "gen \<noteq> gen'"
  shows "snd (hg_model_cfg_info (m\<lparr>m_cfg := cfg_stamp cfg gen src\<rparr>)) \<noteq> snd (hg_model_cfg_info (m\<lparr>m_cfg := cfg_stamp cfg gen' src\<rparr>))"
  using crc_sees_generation [OF assms] by (simp add: hg_model_cfg_info_def)

lemma checksum_covers_the_generation_witness:
  \<open>snd (hg_model_cfg_info (hg_model_init\<lparr>m_cfg := cfg_stamp hg_defaults_cfg 1 0\<rparr>)) \<noteq>
     snd (hg_model_cfg_info (hg_model_init\<lparr>m_cfg := cfg_stamp hg_defaults_cfg 2 0\<rparr>))\<close>
  by (rule checksum_covers_the_generation) (simp_all add: hg_defaults_cfg_eq)

text \<open>An accepted edit, by a caller whose change mask names the planes it changed, leaves both planes whole and valid, drops no dirty bit and sets the bit of every plane whose content differs afterwards.\<close>

lemma accepted_edits_are_valid_and_marked:
  assumes "hg_model_edit m fn = Inr m'" "edit_ok fn" "planes_ok (m_hw m) (m_cfg m)"
  shows "planes_ok (m_hw m') (m_cfg m') \<and> changes_marked m m'"
  using edit_keeps [OF assms] by simp

lemma accepted_edits_are_valid_and_marked_witness:
  \<open>changes_marked hg_model_init (projr (hg_model_edit hg_model_init (\<lambda>hw cfg. (hw, cfg, HG_CH_CFG))))\<close>
proof -
  let ?f = "\<lambda>hw cfg. (hw, cfg, HG_CH_CFG)"
  have "\<exists>m'. hg_model_edit hg_model_init ?f = Inr m'"
    by (simp add: hg_model_edit_def hg_model_init_def defaults_cfg_valid ebind_def has_bits_or has_bits_simps
        HG_CH_CFG_def bit_numeral_rec del: bit_0)
  then obtain m' where "hg_model_edit hg_model_init ?f = Inr m'" ..
  with accepted_edits_are_valid_and_marked [OF this] init_planes_ok show ?thesis
    by (simp add: edit_ok_def hg_model_init_def has_bits_def HG_CH_CFG_def)
qed

end
