(* ===== verification/HG_Store.thy ===== *)
theory HG_Store
  imports HG_Model
begin

text \<open>
  \<^verbatim>\<open>components/hg_store/hg_store.c\<close>: the task that writes changed planes to flash, the flush
  that other tasks wait for, and the load at boot. The flash store (ESP NVS) is outside the
  repository: it holds at most one blob per key, and the outcome of each write is an input.
  Shown: at any point of any interleaving of edits, pushes and store steps, a plane that is
  neither dirty nor on its way is in flash as it is in memory, so that a restart of a settled
  zone gives the same configuration; a forced pass whose writes succeed settles the store; and
  a flush that polls between taking a plane and staging it reports success too early.
\<close>

section \<open>State\<close>

definition HG_MAGIC_HW :: u32 where "HG_MAGIC_HW = 0x57484748"
definition HG_MAGIC_CFG :: u32 where "HG_MAGIC_CFG = 0x46434748"
definition HG_HW_VER :: u16 where "HG_HW_VER = 1"
definition HG_HW_VER_MIN :: u16 where "HG_HW_VER_MIN = 1"
definition HG_CFG_VER :: u16 where "HG_CFG_VER = 1"
definition HG_CFG_VER_MIN :: u16 where "HG_CFG_VER_MIN = 1"
definition HG_NODE_UNASSIGNED :: u8 where "HG_NODE_UNASSIGNED = 254"
definition WRAP_BUF_LEN :: nat where "WRAP_BUF_LEN = 368"

text \<open>The constant columns of \<open>s_plane\<close>.\<close>

definition plane_kind :: "plane \<Rightarrow> u8" where
  "plane_kind p = (case p of PlaneHw \<Rightarrow> ucast HG_CH_HW | PlaneCfg \<Rightarrow> ucast HG_CH_CFG)"

definition plane_magic :: "plane \<Rightarrow> u32" where
  "plane_magic p = (case p of PlaneHw \<Rightarrow> HG_MAGIC_HW | PlaneCfg \<Rightarrow> HG_MAGIC_CFG)"

definition plane_ver :: "plane \<Rightarrow> u16" where
  "plane_ver p = (case p of PlaneHw \<Rightarrow> HG_HW_VER | PlaneCfg \<Rightarrow> HG_CFG_VER)"

definition plane_throttle_ms :: "plane \<Rightarrow> u32" where
  "plane_throttle_ms p = (case p of PlaneHw \<Rightarrow> 0 | PlaneCfg \<Rightarrow> 5000)"

record store_plane =
  sp_next_ms :: u32
  sp_fail_count :: u8
  sp_pending :: bool
  sp_wire :: "u8 list"

text \<open>
  \<open>zs_staging\<close> is the copy the store task has taken out of the model and not yet wrapped;
  \<open>zs_nvs\<close> is the content of the flash store.
\<close>

record zone_store =
  zs_model :: hg_model
  zs_plane :: "plane \<Rightarrow> store_plane"
  zs_staging :: "(plane \<times> u8 list \<times> u32) option"
  zs_force :: bool
  zs_zid :: u8
  zs_nvs :: "plane \<Rightarrow> u8 list option"

section \<open>Writing\<close>

definition stage_write :: "plane \<Rightarrow> u32 \<Rightarrow> u8 list \<Rightarrow> store_plane \<Rightarrow> store_plane" where
  "stage_write p gen payload sp =
     (case hg_blob_wrap (plane_magic p) (plane_ver p) gen payload WRAP_BUF_LEN of
        None \<Rightarrow> sp
      | Some wire \<Rightarrow> sp\<lparr>sp_wire := wire, sp_pending := True\<rparr>)"

text \<open>The result of \<open>nvs_set_blob\<close> and \<open>nvs_commit\<close>: after a failure the flash holds the old blob or the new one.\<close>

datatype nvs_res = NvsOk | NvsFailOld | NvsFailNew

definition window_open :: "u32 \<Rightarrow> store_plane \<Rightarrow> bool" where
  "window_open t sp \<longleftrightarrow> sint (t - sp_next_ms sp) < 0"

definition attempt_write :: "plane \<Rightarrow> bool \<Rightarrow> u32 \<Rightarrow> nvs_res \<Rightarrow> zone_store \<Rightarrow> zone_store" where
  "attempt_write p force t res s =
     (let sp = zs_plane s p in
      if \<not> sp_pending sp then s
      else if \<not> force \<and> window_open t sp then s
      else if res = NvsOk then
        s\<lparr>zs_nvs := (zs_nvs s)(p := Some (sp_wire sp)),
          zs_plane := (zs_plane s)(p := sp\<lparr>sp_pending := False, sp_fail_count := 0,
            sp_next_ms := t + plane_throttle_ms p\<rparr>)\<rparr>
      else
        let n = sp_fail_count sp + 1 in
        s\<lparr>zs_nvs := (if res = NvsFailNew then (zs_nvs s)(p := Some (sp_wire sp)) else zs_nvs s),
          zs_plane := (zs_plane s)(p := sp\<lparr>sp_fail_count := (if n \<ge> 3 then 0 else n),
            sp_next_ms := t + 30000\<rparr>)\<rparr>)"

text \<open>The body of the loop of \<open>stage_dirty\<close>, in its two parts; \<open>dirty\<close> is the mask read before the loop.\<close>

definition stage_take :: "u8 \<Rightarrow> bool \<Rightarrow> u32 \<Rightarrow> plane \<Rightarrow> zone_store \<Rightarrow> zone_store" where
  "stage_take dirty force t p s =
     (let sp = zs_plane s p in
      if sp_pending sp then s
      else if dirty AND plane_kind p = 0 then s
      else if \<not> force \<and> window_open t sp then s
      else case hg_model_take_dirty (zs_model s) (plane_kind p) of
        (m, None) \<Rightarrow> s\<lparr>zs_model := m\<rparr>
      | (m, Some (payload, gen)) \<Rightarrow> s\<lparr>zs_model := m, zs_staging := Some (p, payload, gen)\<rparr>)"

definition stage_put :: "zone_store \<Rightarrow> zone_store" where
  "stage_put s =
     (case zs_staging s of
        None \<Rightarrow> s
      | Some (p, payload, gen) \<Rightarrow>
          s\<lparr>zs_plane := (zs_plane s)(p := stage_write p gen payload (zs_plane s p)), zs_staging := None\<rparr>)"

definition stage_dirty :: "bool \<Rightarrow> (plane \<Rightarrow> u32) \<Rightarrow> zone_store \<Rightarrow> zone_store" where
  "stage_dirty force t s =
     (let dirty = m_dirty (zs_model s) in
      fold (\<lambda>p s. stage_put (stage_take dirty force (t p) p s)) [PlaneHw, PlaneCfg] s)"

definition attempt_all :: "bool \<Rightarrow> (plane \<Rightarrow> u32) \<Rightarrow> (plane \<Rightarrow> nvs_res) \<Rightarrow> zone_store \<Rightarrow> zone_store" where
  "attempt_all force t res s = fold (\<lambda>p. attempt_write p force (t p) (res p)) [PlaneHw, PlaneCfg] s"

definition settled :: "zone_store \<Rightarrow> bool" where
  "settled s \<longleftrightarrow> m_dirty (zs_model s) = 0 \<and> \<not> sp_pending (zs_plane s PlaneHw) \<and> \<not> sp_pending (zs_plane s PlaneCfg)"

text \<open>One pass of the store task: \<open>t i\<close> and \<open>res i\<close> are the clock and the write results of its loops.\<close>

definition store_pass :: "(nat \<Rightarrow> plane \<Rightarrow> u32) \<Rightarrow> (nat \<Rightarrow> plane \<Rightarrow> nvs_res) \<Rightarrow> zone_store \<Rightarrow> zone_store" where
  "store_pass t res s =
     (let force = zs_force s;
          s = attempt_all force (t 1) (res 0) (stage_dirty force (t 0) s)
      in if force then
           let s = attempt_all force (t 3) (res 1) (stage_dirty force (t 2) s)
           in if settled s then s\<lparr>zs_force := False\<rparr> else s
         else s)"

text \<open>One round of \<open>hg_store_flush\<close>, \<open>waited\<close> ms after it began: its result, if it returns.\<close>

definition flush_poll :: "u32 \<Rightarrow> u32 \<Rightarrow> zone_store \<Rightarrow> zone_store \<times> int option" where
  "flush_poll waited timeout_ms s =
     (if settled s then (s, Some 0)
      else if waited \<ge> timeout_ms then (s\<lparr>zs_force := False\<rparr>, Some (- 1))
      else (s\<lparr>zs_force := True\<rparr>, None))"

section \<open>The load at boot\<close>

definition plane_size :: "plane \<Rightarrow> nat" where
  "plane_size p = (case p of PlaneHw \<Rightarrow> 160 | PlaneCfg \<Rightarrow> 336)"

definition plane_ver_min :: "plane \<Rightarrow> u16" where
  "plane_ver_min p = (case p of PlaneHw \<Rightarrow> HG_HW_VER_MIN | PlaneCfg \<Rightarrow> HG_CFG_VER_MIN)"

definition plane_unwrap :: "plane \<Rightarrow> u8 list \<Rightarrow> hg_blob_rc \<times> (u8 list \<times> u32) option" where
  "plane_unwrap p blob = hg_blob_unwrap (plane_magic p) (plane_ver p) (plane_ver_min p) blob (plane_size p)"

text \<open>
  \<open>load_hw\<close> and \<open>load_cfg\<close>: the loaded plane and the plane record with a migrated blob staged
  to be written back. A blob longer than the buffer is an error of \<open>nvs_get_blob\<close>.
\<close>

definition load_blob :: "plane \<Rightarrow> u8 list option \<Rightarrow> (u8 list \<Rightarrow> bool) \<Rightarrow> store_plane \<Rightarrow> u8 list option \<times> store_plane" where
  "load_blob p blob valid sp =
     (case blob of
        None \<Rightarrow> (None, sp)
      | Some b \<Rightarrow>
          if length b > HG_BLOB_HDR_LEN + plane_size p then (None, sp)
          else case plane_unwrap p b of
            (HG_BLOB_OK, Some (pl, gen)) \<Rightarrow> if valid pl then (Some pl, sp) else (None, sp)
          | (HG_BLOB_MIGRATED, Some (pl, gen)) \<Rightarrow>
              if valid pl then (Some pl, stage_write p gen pl sp) else (None, sp)
          | _ \<Rightarrow> (None, sp))"

definition load_hw :: "u8 list option \<Rightarrow> store_plane \<Rightarrow> hg_zone_hw option \<times> store_plane" where
  "load_hw blob sp = load_blob PlaneHw blob (\<lambda>hw. hg_hw_validate hw = Inr ()) sp"

definition load_cfg :: "u8 list option \<Rightarrow> hg_zone_hw \<Rightarrow> store_plane \<Rightarrow> hg_zone_cfg option \<times> store_plane" where
  "load_cfg blob hw sp = load_blob PlaneCfg blob (\<lambda>cfg. hg_cfg_validate cfg (Some hw) = Inr ()) sp"

definition fresh_plane :: store_plane where
  "fresh_plane = \<lparr>sp_next_ms = 0, sp_fail_count = 0, sp_pending = False, sp_wire = replicate WRAP_BUF_LEN 0\<rparr>"

definition hg_store_init :: "(plane \<Rightarrow> u8 list option) \<Rightarrow> u8 option \<Rightarrow> zone_store" where
  "hg_store_init nvs zid =
     (let (hw, sph) = load_hw (nvs PlaneHw) fresh_plane;
          hw_for_cfg = (case hw of Some h \<Rightarrow> h | None \<Rightarrow> hg_defaults_hw);
          (cfg, spc) = load_cfg (nvs PlaneCfg) hw_for_cfg fresh_plane
      in \<lparr>zs_model = hg_model_boot_load hg_model_init hw cfg,
          zs_plane = (\<lambda>p. case p of PlaneHw \<Rightarrow> sph | PlaneCfg \<Rightarrow> spc), zs_staging = None, zs_force = False,
          zs_zid = (case zid of Some z \<Rightarrow> z | None \<Rightarrow> HG_NODE_UNASSIGNED), zs_nvs = nvs\<rparr>)"

section \<open>The store task among the others\<close>

text \<open>
  What can happen between two steps of the store task: an edit, a push that passed validation,
  a poll of a flush. The task itself stages a plane right after it has taken it, and writes
  when nothing is staged.
\<close>

inductive store_step :: "zone_store \<Rightarrow> zone_store \<Rightarrow> bool" where
  step_edit: "hg_model_edit (zs_model s) fn = Inr m \<Longrightarrow> edit_ok fn \<Longrightarrow> store_step s (s\<lparr>zs_model := m\<rparr>)"
| step_push_hw: "hg_model_apply_hw (zs_model s) hw = Inr m \<Longrightarrow> length hw = 160 \<Longrightarrow> store_step s (s\<lparr>zs_model := m\<rparr>)"
| step_push_cfg: "hg_cfg_validate cfg (Some (m_hw (zs_model s))) = Inr () \<Longrightarrow> length cfg = 336 \<Longrightarrow>
     store_step s (s\<lparr>zs_model := hg_model_apply_cfg (zs_model s) cfg\<rparr>)"
| step_take: "zs_staging s = None \<Longrightarrow> store_step s (stage_take dirty force t p s)"
| step_put: "store_step s (stage_put s)"
| step_write: "zs_staging s = None \<Longrightarrow> store_step s (attempt_write p force t res s)"
| step_poll: "store_step s (fst (flush_poll waited timeout_ms s))"
| step_release: "store_step s (s\<lparr>zs_force := False\<rparr>)"

inductive_cases store_stepE: "store_step s s'"

section \<open>What a plane in flash is\<close>

definition ram_plane :: "plane \<Rightarrow> hg_model \<Rightarrow> u8 list" where
  "ram_plane p m = (case p of PlaneHw \<Rightarrow> m_hw m | PlaneCfg \<Rightarrow> m_cfg m)"

definition default_plane :: "plane \<Rightarrow> u8 list" where
  "default_plane p = (case p of PlaneHw \<Rightarrow> hg_defaults_hw | PlaneCfg \<Rightarrow> hg_defaults_cfg)"

definition plane_bit :: "plane \<Rightarrow> nat" where
  "plane_bit p = (case p of PlaneHw \<Rightarrow> 0 | PlaneCfg \<Rightarrow> 1)"

text \<open>A blob of which the load at boot makes the plane \<open>pl\<close>.\<close>

definition image_of :: "plane \<Rightarrow> u8 list \<Rightarrow> u8 list \<Rightarrow> bool" where
  "image_of p blob pl \<longleftrightarrow> length blob \<le> HG_BLOB_HDR_LEN + plane_size p \<and>
     (\<exists>rc g. plane_unwrap p blob = (rc, Some (pl, g)) \<and> (rc = HG_BLOB_OK \<or> rc = HG_BLOB_MIGRATED))"

definition held_by :: "plane \<Rightarrow> u8 list option \<Rightarrow> u8 list \<Rightarrow> bool" where
  "held_by p blob pl = (case blob of None \<Rightarrow> pl = default_plane p | Some b \<Rightarrow> image_of p b pl)"

text \<open>Unless it is dirty, what is in memory is staged, waiting to be written, or in flash.\<close>

definition plane_safe :: "zone_store \<Rightarrow> plane \<Rightarrow> bool" where
  "plane_safe s p \<longleftrightarrow>
     (let pl = ram_plane p (zs_model s); sp = zs_plane s p in
      bit (m_dirty (zs_model s)) (plane_bit p) \<or>
      (\<exists>g. zs_staging s = Some (p, pl, g)) \<or>
      (\<forall>q g. zs_staging s \<noteq> Some (p, q, g)) \<and>
        (if sp_pending sp then image_of p (sp_wire sp) pl else held_by p (zs_nvs s p) pl))"

definition store_ok :: "zone_store \<Rightarrow> bool" where
  "store_ok s \<longleftrightarrow> planes_ok (m_hw (zs_model s)) (m_cfg (zs_model s)) \<and>
     (\<forall>n. bit (m_dirty (zs_model s)) n \<longrightarrow> n < 2) \<and> (\<forall>p. plane_safe s p)"

lemma plane_all: "(\<forall>p. P p) \<longleftrightarrow> P PlaneHw \<and> P PlaneCfg"
  by (metis plane.exhaust)

lemmas plane_consts = plane_kind_def plane_magic_def plane_ver_def plane_ver_min_def plane_size_def
  HG_MAGIC_HW_def HG_MAGIC_CFG_def HG_HW_VER_def HG_HW_VER_MIN_def HG_CFG_VER_def HG_CFG_VER_MIN_def

lemma ram_length: "planes_ok (m_hw m) (m_cfg m) \<Longrightarrow> length (ram_plane p m) = plane_size p"
  by (cases p) (simp_all add: planes_ok_def ram_plane_def plane_size_def)

lemma stage_write_image:
  assumes "length pl = plane_size p"
  obtains w where "stage_write p gen pl sp = sp\<lparr>sp_wire := w, sp_pending := True\<rparr>" "image_of p w pl"
proof -
  have l: "length pl < 65536" "HG_BLOB_HDR_LEN + length pl \<le> WRAP_BUF_LEN"
    using assms by (cases p; simp add: plane_size_def WRAP_BUF_LEN_def HG_BLOB_HDR_LEN_def)+
  then obtain w where w: "hg_blob_wrap (plane_magic p) (plane_ver p) gen pl WRAP_BUF_LEN = Some w"
    and lw: "length w = HG_BLOB_HDR_LEN + length pl"
    by (simp add: hg_blob_wrap_def Let_def HG_BLOB_HDR_LEN_def)
  have "plane_ver_min p \<le> plane_ver p" by (cases p) (simp_all add: plane_consts)
  from blob_round_trip [OF w, of "plane_size p" "plane_ver_min p" "plane_ver p" "[]"] this l assms
  have "plane_unwrap p w = (HG_BLOB_OK, Some (pl, gen))" by (simp add: plane_unwrap_def)
  with w lw assms show thesis by (intro that [of w]) (simp_all add: stage_write_def image_of_def)
qed

section \<open>Every step keeps the invariant\<close>

lemma store_ok_model:
  assumes "store_ok s" "planes_ok (m_hw m) (m_cfg m)" "changes_marked (zs_model s) m"
    "\<forall>n. bit (m_dirty m) n \<longrightarrow> n < 2"
  shows "store_ok (s\<lparr>zs_model := m\<rparr>)"
proof -
  have "plane_safe (s\<lparr>zs_model := m\<rparr>) p" for p
    using assms(1,3)
    by (cases p) (auto simp: store_ok_def plane_all plane_safe_def Let_def changes_marked_def ram_plane_def plane_bit_def
        simp del: bit_0 One_nat_def)
  with assms(2,4) show ?thesis by (simp add: store_ok_def)
qed

lemma dirty_bits_edit:
  assumes "hg_model_edit m fn = Inr m'" "\<forall>n. bit (m_dirty m) n \<longrightarrow> n < 2"
  shows "\<forall>n. bit (m_dirty m') n \<longrightarrow> n < 2"
proof -
  obtain hw cfg chg where f: "fn (m_hw m) (m_cfg m) = (hw, cfg, chg)" by (metis prod_cases3)
  have "m_dirty m' = m_dirty m OR dirty_of chg"
    using assms(1) by (auto simp: hg_model_edit_def f ebind_eq_Inr split: if_splits)
  moreover have "bit (dirty_of chg) n \<longrightarrow> n < 2" for n
    unfolding dirty_of_def HG_CH_HW_def HG_CH_CFG_def
    by (auto simp: bit_or_iff bit_and_iff bit_unsigned_iff bit_1_iff bit_numeral_rec split: nat.splits if_splits simp del: bit_0)
  ultimately show ?thesis using assms(2) by (auto simp: bit_or_iff)
qed

lemma dirty_bits_or: "\<forall>n. bit d n \<longrightarrow> n < 2 \<Longrightarrow> \<forall>n. bit (d OR ucast HG_CH_HW :: u8) n \<longrightarrow> n < 2"
  "\<forall>n. bit d n \<longrightarrow> n < 2 \<Longrightarrow> \<forall>n. bit (d OR ucast HG_CH_CFG :: u8) n \<longrightarrow> n < 2"
  by (auto simp: HG_CH_HW_def HG_CH_CFG_def bit_or_iff bit_1_iff bit_numeral_rec split: nat.splits simp del: bit_0)

lemma kind_simps: "plane_kind PlaneHw = 1" "plane_kind PlaneCfg = 2"
  by (simp_all add: plane_kind_def HG_CH_HW_def HG_CH_CFG_def)

lemma take_dirty_plane:
  "hg_model_take_dirty m (plane_kind p) =
     (if bit (m_dirty m) (plane_bit p)
      then (m\<lparr>m_dirty := m_dirty m AND NOT (plane_kind p)\<rparr>,
            Some (ram_plane p m, case p of PlaneHw \<Rightarrow> m_hw_gen m | PlaneCfg \<Rightarrow> cfg_generation (m_cfg m)))
      else (m, None))"
  by (cases p) (simp_all add: kind_simps take_dirty_cases plane_bit_def ram_plane_def del: bit_0)

lemma clear_kind:
  "bit (d AND NOT (plane_kind p)) n \<Longrightarrow> bit d n" "\<not> bit (d AND NOT (plane_kind p)) (plane_bit p)"
  "q \<noteq> p \<Longrightarrow> bit (d AND NOT (plane_kind p)) (plane_bit q) = bit d (plane_bit q)"
proof -
  show "\<not> bit (d AND NOT (plane_kind p)) (plane_bit p)"
    by (cases p) (simp_all only: kind_simps plane_bit_def plane.case clear_bits not_False_eq_True)
  show "q \<noteq> p \<Longrightarrow> bit (d AND NOT (plane_kind p)) (plane_bit q) = bit d (plane_bit q)"
    by (cases p; cases q) (simp_all only: kind_simps plane_bit_def plane.case clear_bits simp_thms)
qed (simp only: bit_and_iff)

lemma stage_take_cases:
  obtains "stage_take dirty force t p s = s"
  | gen where "\<not> sp_pending (zs_plane s p)" "bit (m_dirty (zs_model s)) (plane_bit p)"
      "stage_take dirty force t p s = s\<lparr>zs_model := (zs_model s)\<lparr>m_dirty := m_dirty (zs_model s) AND NOT (plane_kind p)\<rparr>,
         zs_staging := Some (p, ram_plane p (zs_model s), gen)\<rparr>"
proof (cases "sp_pending (zs_plane s p) \<or> dirty AND plane_kind p = 0 \<or> \<not> force \<and> window_open t (zs_plane s p) \<or>
    \<not> bit (m_dirty (zs_model s)) (plane_bit p)")
  case True
  then have "stage_take dirty force t p s = s" by (auto simp: stage_take_def Let_def take_dirty_plane)
  then show thesis by (rule that(1))
next
  case False
  then show thesis
    by (intro that(2) [of "case p of PlaneHw \<Rightarrow> m_hw_gen (zs_model s) | PlaneCfg \<Rightarrow> cfg_generation (m_cfg (zs_model s))"])
      (auto simp: stage_take_def Let_def take_dirty_plane)
qed

lemma store_ok_take:
  assumes "store_ok s" "zs_staging s = None"
  shows "store_ok (stage_take dirty force t p s)"
proof (cases rule: stage_take_cases [of dirty force t p s])
  case (2 gen)
  let ?s = "stage_take dirty force t p s"
  have r: "ram_plane q (zs_model ?s) = ram_plane q (zs_model s)" for q by (cases q) (simp_all add: 2(3) ram_plane_def)
  have "plane_safe ?s q" for q
  proof (cases "q = p")
    case True
    then show ?thesis by (simp add: plane_safe_def 2(3) ram_plane_def split: plane.split)
  next
    case False
    then have b: "bit (m_dirty (zs_model ?s)) (plane_bit q) = bit (m_dirty (zs_model s)) (plane_bit q)"
      using clear_kind(3) [OF False] by (simp add: 2(3))
    have "plane_safe s q" using assms(1) by (simp add: store_ok_def)
    then show ?thesis unfolding plane_safe_def r b using False assms(2) by (auto simp: 2(3) Let_def)
  qed
  with assms(1) show ?thesis
    by (auto simp: store_ok_def 2(3) dest: clear_kind(1))
qed (use assms in simp)

lemma store_ok_put: "store_ok s \<Longrightarrow> store_ok (stage_put s)"
proof (cases "zs_staging s")
  case (Some st)
  assume ok: "store_ok s"
  obtain p pl gen where st: "zs_staging s = Some (p, pl, gen)" using Some by (metis prod_cases3)
  have "plane_safe (stage_put s) q" for q
  proof -
    have q: "plane_safe s q" using ok by (simp add: store_ok_def)
    show ?thesis
    proof (cases "q = p \<and> pl = ram_plane p (zs_model s)")
      case True
      obtain w where "stage_write p gen pl (zs_plane s p) = (zs_plane s p)\<lparr>sp_wire := w, sp_pending := True\<rparr>"
        "image_of p w pl"
        using ok True ram_length [of "zs_model s" p] stage_write_image [of pl p] by (auto simp: store_ok_def)
      with True show ?thesis by (simp add: plane_safe_def stage_put_def st)
    next
      case False
      with q show ?thesis by (auto simp: plane_safe_def stage_put_def st Let_def)
    qed
  qed
  with ok show ?thesis by (auto simp: store_ok_def stage_put_def st)
qed (simp add: stage_put_def)

lemma attempt_write_frame:
  "zs_model (attempt_write p force t res s) = zs_model s"
  "zs_staging (attempt_write p force t res s) = zs_staging s"
  by (simp_all add: attempt_write_def Let_def)

lemma attempt_write_planes:
  "zs_plane (attempt_write p force t res s) q = (zs_plane s q)\<lparr>sp_next_ms := sp_next_ms (zs_plane (attempt_write p force t res s) q),
     sp_fail_count := sp_fail_count (zs_plane (attempt_write p force t res s) q),
     sp_pending := sp_pending (zs_plane (attempt_write p force t res s) q)\<rparr> \<and>
   (if sp_pending (zs_plane (attempt_write p force t res s) q) then sp_pending (zs_plane s q)
    else if sp_pending (zs_plane s q) then zs_nvs (attempt_write p force t res s) q = Some (sp_wire (zs_plane s q))
    else zs_nvs (attempt_write p force t res s) q = zs_nvs s q)"
  by (simp add: attempt_write_def Let_def)

lemma store_ok_write:
  assumes "store_ok s" "zs_staging s = None"
  shows "store_ok (attempt_write p force t res s)"
proof -
  let ?s = "attempt_write p force t res s"
  have "plane_safe ?s q" for q
  proof -
    have "plane_safe s q" using assms(1) by (simp add: store_ok_def)
    moreover have "sp_wire (zs_plane ?s q) = sp_wire (zs_plane s q)" by (simp add: attempt_write_def Let_def)
    ultimately show ?thesis
      using assms(2) attempt_write_planes [of p force t res s q]
      unfolding plane_safe_def attempt_write_frame Let_def held_by_def by (auto split: if_splits)
  qed
  then show ?thesis using assms(1) by (simp add: store_ok_def attempt_write_frame)
qed

lemma store_ok_force: "store_ok s \<Longrightarrow> store_ok (s\<lparr>zs_force := f\<rparr>)"
  by (auto simp: store_ok_def plane_safe_def Let_def)

lemma store_ok_step: "store_step s s' \<Longrightarrow> store_ok s \<Longrightarrow> store_ok s'"
proof (induction rule: store_step.induct)
  case (step_edit s fn m)
  then show ?case
    using edit_keeps [OF step_edit(1,2)] dirty_bits_edit [OF step_edit(1)] by (intro store_ok_model) (auto simp: store_ok_def)
next
  case (step_push_hw s hw m)
  have "m_dirty m = m_dirty (zs_model s) OR ucast HG_CH_HW"
    using step_push_hw(1) by (auto simp: hg_model_apply_hw_def ebind_eq_Inr)
  then show ?case
    using apply_hw_keeps [OF step_push_hw(1,2)] step_push_hw(3) dirty_bits_or(1)
    by (intro store_ok_model) (auto simp: store_ok_def planes_ok_def)
next
  case (step_push_cfg cfg s)
  have "m_dirty (hg_model_apply_cfg (zs_model s) cfg) = m_dirty (zs_model s) OR ucast HG_CH_CFG"
    by (simp add: hg_model_apply_cfg_def)
  then show ?case
    using apply_cfg_keeps [OF step_push_cfg(1,2)] step_push_cfg(3) dirty_bits_or(2)
    by (intro store_ok_model) (auto simp: store_ok_def)
qed (simp_all add: store_ok_take store_ok_put store_ok_write store_ok_force flush_poll_def)

lemma store_ok_reach: "store_step\<^sup>*\<^sup>* s s' \<Longrightarrow> store_ok s \<Longrightarrow> store_ok s'"
  by (induction rule: rtranclp_induct) (auto intro: store_ok_step)

section \<open>Boot\<close>

text \<open>
  The flash is clean when every blob in it is accepted by the load at boot, and when the
  default logical plane, where it is used, fits the hardware plane (the load does not check that).
\<close>

definition boot_hw :: "(plane \<Rightarrow> u8 list option) \<Rightarrow> hg_zone_hw" where
  "boot_hw nvs = (case fst (load_hw (nvs PlaneHw) fresh_plane) of Some h \<Rightarrow> h | None \<Rightarrow> hg_defaults_hw)"

definition boot_cfg :: "(plane \<Rightarrow> u8 list option) \<Rightarrow> hg_zone_cfg" where
  "boot_cfg nvs = (case fst (load_cfg (nvs PlaneCfg) (boot_hw nvs) fresh_plane) of Some c \<Rightarrow> c | None \<Rightarrow> hg_defaults_cfg)"

definition nvs_clean :: "(plane \<Rightarrow> u8 list option) \<Rightarrow> bool" where
  "nvs_clean nvs \<longleftrightarrow>
     (nvs PlaneHw = None \<or> fst (load_hw (nvs PlaneHw) fresh_plane) \<noteq> None) \<and>
     (nvs PlaneCfg = None \<and> hg_cfg_validate hg_defaults_cfg (Some (boot_hw nvs)) = Inr () \<or>
      fst (load_cfg (nvs PlaneCfg) (boot_hw nvs) fresh_plane) \<noteq> None)"

lemma init_model:
  "zs_model (hg_store_init nvs zid) = hg_model_init\<lparr>m_hw := boot_hw nvs, m_cfg := boot_cfg nvs\<rparr>"
  "zs_nvs (hg_store_init nvs zid) = nvs" "zs_staging (hg_store_init nvs zid) = None"
  "zs_plane (hg_store_init nvs zid) PlaneHw = snd (load_hw (nvs PlaneHw) fresh_plane)"
  "zs_plane (hg_store_init nvs zid) PlaneCfg = snd (load_cfg (nvs PlaneCfg) (boot_hw nvs) fresh_plane)"
  by (auto simp: hg_store_init_def boot_hw_def boot_cfg_def hg_model_boot_load_def hg_model_init_def split: prod.split option.split)

lemma unwrap_length:
  assumes "plane_unwrap p b = (rc, Some (pl, g))"
  shows "length pl = plane_size p"
  using assms by (auto simp: plane_unwrap_def hg_blob_unwrap_def Let_def split: if_splits)

text \<open>What the load of one blob does, by the image it holds.\<close>

lemma load_blob_image:
  assumes "image_of p b pl"
  shows "fst (load_blob p (Some b) valid sp) = (if valid pl then Some pl else None)"
  using assms by (auto simp: image_of_def load_blob_def)

lemma load_blob_cases:
  assumes "load_blob p blob valid fresh_plane = (res, sp)"
  shows "res = None \<and> sp = fresh_plane \<or>
    (\<exists>b pl. blob = Some b \<and> res = Some pl \<and> image_of p b pl \<and> valid pl \<and> length pl = plane_size p \<and>
       (if sp_pending sp then image_of p (sp_wire sp) pl else sp = fresh_plane))"
proof (cases blob)
  case (Some b)
  show ?thesis
  proof (cases "length b > HG_BLOB_HDR_LEN + plane_size p")
    case False
    obtain rc out where u: "plane_unwrap p b = (rc, out)" by fastforce
    show ?thesis
    proof (cases "\<exists>pl g. out = Some (pl, g) \<and> (rc = HG_BLOB_OK \<or> rc = HG_BLOB_MIGRATED) \<and> valid pl")
      case True
      then obtain pl g where o: "out = Some (pl, g)" "rc = HG_BLOB_OK \<or> rc = HG_BLOB_MIGRATED" "valid pl" by blast
      have im: "image_of p b pl" "length pl = plane_size p"
        using u o False unwrap_length by (auto simp: image_of_def)
      obtain w where w: "stage_write p g pl fresh_plane = fresh_plane\<lparr>sp_wire := w, sp_pending := True\<rparr>" "image_of p w pl"
        using stage_write_image [OF im(2)] .
      have "res = Some pl \<and> (sp = fresh_plane \<or> sp = fresh_plane\<lparr>sp_wire := w, sp_pending := True\<rparr>)"
        using assms o(2) by (auto simp: Some load_blob_def u o(1,3) False w(1) not_less[symmetric])
      with Some im w(2) o(3) show ?thesis by (auto simp: fresh_plane_def)
    next
      case none: False
      then show ?thesis using assms False
        by (auto simp: Some load_blob_def u split: hg_blob_rc.splits option.splits if_splits)
    qed
  qed (use assms Some in \<open>simp add: load_blob_def\<close>)
qed (use assms in \<open>simp add: load_blob_def\<close>)

lemma boot_hw_facts:
  shows "length (boot_hw nvs) = 160" "hw_spec (boot_hw nvs)"
proof -
  obtain res sp where l: "load_blob PlaneHw (nvs PlaneHw) (\<lambda>hw. hg_hw_validate hw = Inr ()) fresh_plane = (res, sp)"
    by fastforce
  have b: "boot_hw nvs = (case res of Some h \<Rightarrow> h | None \<Rightarrow> hg_defaults_hw)"
    unfolding boot_hw_def load_hw_def l by simp
  from load_blob_cases [OF l] init_planes_ok show "length (boot_hw nvs) = 160" "hw_spec (boot_hw nvs)"
    by (auto simp: b planes_ok_def plane_size_def hg_hw_validate_spec)
qed

lemma loaded_plane_safe:
  assumes "load_blob p blob valid fresh_plane = (res, sp)" "blob = None \<or> res \<noteq> None"
    "ram_plane p (zs_model s) = (case res of Some pl \<Rightarrow> pl | None \<Rightarrow> default_plane p)"
    "zs_staging s = None" "zs_plane s p = sp" "zs_nvs s p = blob"
  shows "plane_safe s p"
proof -
  have "if sp_pending sp then image_of p (sp_wire sp) (ram_plane p (zs_model s)) else held_by p blob (ram_plane p (zs_model s))"
    using load_blob_cases [OF assms(1)] assms(2,3) by (auto simp: held_by_def fresh_plane_def split: if_splits)
  then show ?thesis by (simp add: plane_safe_def Let_def assms(4-6) split: if_splits)
qed

text \<open>After a boot from clean flash everything in memory is in flash.\<close>

lemma boot_ok:
  assumes "nvs_clean nvs"
  shows "store_ok (hg_store_init nvs zid)"
proof -
  let ?s = "hg_store_init nvs zid"
  obtain rh sh where h: "load_blob PlaneHw (nvs PlaneHw) (\<lambda>hw. hg_hw_validate hw = Inr ()) fresh_plane = (rh, sh)"
    by fastforce
  obtain rc sc where c: "load_blob PlaneCfg (nvs PlaneCfg) (\<lambda>cfg. hg_cfg_validate cfg (Some (boot_hw nvs)) = Inr ()) fresh_plane = (rc, sc)"
    by fastforce
  have bh: "boot_hw nvs = (case rh of Some h \<Rightarrow> h | None \<Rightarrow> default_plane PlaneHw)"
    unfolding boot_hw_def load_hw_def h by (simp add: default_plane_def split: option.split)
  have bc: "boot_cfg nvs = (case rc of Some h \<Rightarrow> h | None \<Rightarrow> default_plane PlaneCfg)"
    unfolding boot_cfg_def load_cfg_def c by (simp add: default_plane_def split: option.split)
  have "plane_safe ?s PlaneHw"
    using assms by (intro loaded_plane_safe [OF h]) (auto simp: nvs_clean_def load_hw_def h init_model ram_plane_def bh)
  moreover have "plane_safe ?s PlaneCfg"
    using assms by (intro loaded_plane_safe [OF c]) (auto simp: nvs_clean_def load_cfg_def c init_model ram_plane_def bc)
  moreover have "planes_ok (boot_hw nvs) (boot_cfg nvs)"
  proof -
    have "length (boot_cfg nvs) = 336 \<and> cfg_spec (boot_cfg nvs) (Some (boot_hw nvs))"
    proof (cases rc)
      case None
      then have "boot_cfg nvs = hg_defaults_cfg" by (simp add: bc default_plane_def)
      moreover have "hg_cfg_validate hg_defaults_cfg (Some (boot_hw nvs)) = Inr ()"
        using assms None by (auto simp: nvs_clean_def load_cfg_def c)
      ultimately show ?thesis using init_planes_ok by (simp add: hg_cfg_validate_spec planes_ok_def)
    next
      case (Some pl)
      with load_blob_cases [OF c] show ?thesis by (auto simp: bc plane_size_def hg_cfg_validate_spec)
    qed
    then show ?thesis by (simp add: planes_ok_def boot_hw_facts)
  qed
  ultimately show ?thesis by (simp add: store_ok_def plane_all init_model hg_model_init_def)
qed

text \<open>In a settled store with nothing staged, the flash gives the planes back.\<close>

lemma settled_reload:
  assumes "store_ok s" "settled s" "zs_staging s = None"
  shows "boot_hw (zs_nvs s) = m_hw (zs_model s)" "boot_cfg (zs_nvs s) = m_cfg (zs_model s)" "nvs_clean (zs_nvs s)"
proof -
  have h: "held_by p (zs_nvs s p) (ram_plane p (zs_model s))" for p
    using assms by (cases p) (auto simp: store_ok_def plane_all plane_safe_def Let_def settled_def)
  have ok: "planes_ok (m_hw (zs_model s)) (m_cfg (zs_model s))" using assms(1) by (simp add: store_ok_def)
  show hw: "boot_hw (zs_nvs s) = m_hw (zs_model s)"
    using h [of PlaneHw] ok
    by (auto simp: boot_hw_def load_hw_def held_by_def load_blob_image ram_plane_def default_plane_def planes_ok_def
        hg_hw_validate_spec load_blob_def [where blob = None] split: option.splits)
  show "boot_cfg (zs_nvs s) = m_cfg (zs_model s)"
    using h [of PlaneCfg] ok
    by (auto simp: boot_cfg_def load_cfg_def hw held_by_def load_blob_image ram_plane_def default_plane_def planes_ok_def
        hg_cfg_validate_spec load_blob_def [where blob = None] split: option.splits)
  show "nvs_clean (zs_nvs s)"
    using h [of PlaneCfg] h [of PlaneHw] ok
    by (auto simp: nvs_clean_def load_cfg_def load_hw_def hw held_by_def load_blob_image ram_plane_def default_plane_def planes_ok_def
        hg_cfg_validate_spec hg_hw_validate_spec split: option.splits)
qed

section \<open>A whole pass\<close>

lemma stage_put_staging: "zs_staging (stage_put s) = None"
  by (simp add: stage_put_def split: option.split)

lemma stage_one_reach:
  "zs_staging s = None \<Longrightarrow> store_step\<^sup>*\<^sup>* s (stage_put (stage_take dirty force t p s))"
  by (meson converse_rtranclp_into_rtranclp r_into_rtranclp step_put step_take)

lemma stage_dirty_reach:
  assumes "zs_staging s = None"
  shows "store_step\<^sup>*\<^sup>* s (stage_dirty force t s)" "zs_staging (stage_dirty force t s) = None"
proof -
  let ?f = "\<lambda>p s'. stage_put (stage_take (m_dirty (zs_model s)) force (t p) p s')"
  have "store_step\<^sup>*\<^sup>* s (?f PlaneHw s)" using assms by (rule stage_one_reach)
  moreover have "store_step\<^sup>*\<^sup>* (?f PlaneHw s) (?f PlaneCfg (?f PlaneHw s))"
    by (rule stage_one_reach) (rule stage_put_staging)
  ultimately show "store_step\<^sup>*\<^sup>* s (stage_dirty force t s)" by (simp add: stage_dirty_def Let_def)
  show "zs_staging (stage_dirty force t s) = None" by (simp add: stage_dirty_def Let_def stage_put_staging)
qed

lemma attempt_all_reach:
  assumes "zs_staging s = None"
  shows "store_step\<^sup>*\<^sup>* s (attempt_all force t res s)" "zs_staging (attempt_all force t res s) = None"
    "zs_model (attempt_all force t res s) = zs_model s"
proof -
  have "store_step s (attempt_write PlaneHw force (t PlaneHw) (res PlaneHw) s)" using assms by (rule step_write)
  moreover have "store_step (attempt_write PlaneHw force (t PlaneHw) (res PlaneHw) s)
      (attempt_write PlaneCfg force (t PlaneCfg) (res PlaneCfg) (attempt_write PlaneHw force (t PlaneHw) (res PlaneHw) s))"
    by (rule step_write) (simp add: attempt_write_frame assms)
  ultimately show "store_step\<^sup>*\<^sup>* s (attempt_all force t res s)" by (simp add: attempt_all_def)
qed (simp_all add: attempt_all_def attempt_write_frame assms)

lemma round_reach:
  assumes "zs_staging s = None"
  shows "store_step\<^sup>*\<^sup>* s (attempt_all force t' res (stage_dirty force t s))"
    "zs_staging (attempt_all force t' res (stage_dirty force t s)) = None"
  using rtranclp_trans [OF stage_dirty_reach(1) [OF assms] attempt_all_reach(1) [OF stage_dirty_reach(2) [OF assms]]]
    attempt_all_reach(2) [OF stage_dirty_reach(2) [OF assms]] by blast+

lemma store_pass_reach:
  assumes "zs_staging s = None"
  shows "store_step\<^sup>*\<^sup>* s (store_pass t res s)" "zs_staging (store_pass t res s) = None"
proof -
  define s1 where "s1 = attempt_all (zs_force s) (t 1) (res 0) (stage_dirty (zs_force s) (t 0) s)"
  define s2 where "s2 = attempt_all (zs_force s) (t 3) (res 1) (stage_dirty (zs_force s) (t 2) s1)"
  have s1: "store_step\<^sup>*\<^sup>* s s1" "zs_staging s1 = None"
    unfolding s1_def by (rule round_reach [OF assms])+
  have s2: "store_step\<^sup>*\<^sup>* s1 s2" "zs_staging s2 = None"
    unfolding s2_def by (rule round_reach [OF s1(2)])+
  have "store_pass t res s = (if zs_force s then if settled s2 then s2\<lparr>zs_force := False\<rparr> else s2 else s1)"
    by (simp add: store_pass_def Let_def s1_def s2_def)
  moreover have "store_step\<^sup>*\<^sup>* s1 (s2\<lparr>zs_force := False\<rparr>)"
    by (rule rtranclp.rtrancl_into_rtrancl [OF s2(1)]) (rule step_release)
  ultimately show "store_step\<^sup>*\<^sup>* s (store_pass t res s)" "zs_staging (store_pass t res s) = None"
    using s1 s2 by (auto intro: rtranclp_trans)
qed

text \<open>A forced pass with good writes leaves nothing behind.\<close>

lemma kind_bit: "(d AND plane_kind p = 0) = (\<not> bit d (plane_bit p))"
  by (cases p) (simp_all only: kind_simps plane_bit_def plane.case and_bits)

lemma stage_one_forced:
  fixes dirty :: u8 and t :: u32 and p :: plane
  assumes "store_ok s" "zs_staging s = None"
  defines "s' \<equiv> stage_put (stage_take dirty True t p s)"
  shows "q \<noteq> p \<Longrightarrow> bit (m_dirty (zs_model s')) (plane_bit q) = bit (m_dirty (zs_model s)) (plane_bit q)"
    "q \<noteq> p \<Longrightarrow> zs_plane s' q = zs_plane s q"
    "\<not> sp_pending (zs_plane s p) \<Longrightarrow> bit dirty (plane_bit p) = bit (m_dirty (zs_model s)) (plane_bit p) \<Longrightarrow>
       \<not> bit (m_dirty (zs_model s')) (plane_bit p)"
proof -
  have m: "zs_model s' = zs_model (stage_take dirty True t p s)"
    by (simp add: s'_def stage_put_def split: option.split)
  show "q \<noteq> p \<Longrightarrow> bit (m_dirty (zs_model s')) (plane_bit q) = bit (m_dirty (zs_model s)) (plane_bit q)"
    unfolding m by (cases rule: stage_take_cases [of dirty True t p s]) (simp_all add: clear_kind(3))
  show "q \<noteq> p \<Longrightarrow> zs_plane s' q = zs_plane s q"
    by (cases rule: stage_take_cases [of dirty True t p s]) (simp_all add: s'_def stage_put_def assms(2))
  assume a: "\<not> sp_pending (zs_plane s p)" "bit dirty (plane_bit p) = bit (m_dirty (zs_model s)) (plane_bit p)"
  show "\<not> bit (m_dirty (zs_model s')) (plane_bit p)"
  proof (cases "bit dirty (plane_bit p)")
    case True
    with a show ?thesis by (auto simp: m stage_take_def Let_def kind_bit take_dirty_plane clear_kind(2))
  next
    case False
    with a show ?thesis by (simp add: m stage_take_def Let_def kind_bit)
  qed
qed

lemma stage_dirty_forced:
  assumes "store_ok s" "zs_staging s = None" "\<not> sp_pending (zs_plane s p)"
  shows "\<not> bit (m_dirty (zs_model (stage_dirty True t s))) (plane_bit p)"
proof -
  let ?d = "m_dirty (zs_model s)"
  define s1 where "s1 = stage_put (stage_take ?d True (t PlaneHw) PlaneHw s)"
  have ok: "store_ok s1" "zs_staging s1 = None"
    using store_ok_reach [OF stage_one_reach [OF assms(2)] assms(1)] stage_put_staging by (simp_all add: s1_def)
  have e: "stage_dirty True t s = stage_put (stage_take ?d True (t PlaneCfg) PlaneCfg s1)"
    by (simp add: stage_dirty_def Let_def s1_def)
  note f1 = stage_one_forced [OF assms(1,2), where dirty = ?d and t = "t PlaneHw" and p = PlaneHw, folded s1_def]
  note f2 = stage_one_forced [OF ok, where dirty = ?d and t = "t PlaneCfg" and p = PlaneCfg, folded e]
  show ?thesis
  proof (cases p)
    case PlaneHw
    then show ?thesis using f1(3) f2(1) [of PlaneHw] assms(3) by simp
  next
    case PlaneCfg
    then show ?thesis using f1(1,2) [of PlaneCfg] f2(3) assms(3) by simp
  qed
qed

lemma attempt_all_forced:
  assumes "\<forall>p. res p = NvsOk"
  shows "\<not> sp_pending (zs_plane (attempt_all True t res s) p)"
  using assms by (cases p) (simp_all add: attempt_all_def attempt_write_def Let_def)

lemma forced_pass_settles:
  assumes "store_ok s" "zs_staging s = None" "zs_force s" "\<forall>i p. res i p = NvsOk"
  shows "settled (store_pass t res s)" "\<not> zs_force (store_pass t res s)"
proof -
  define s1 where "s1 = attempt_all True (t 1) (res 0) (stage_dirty True (t 0) s)"
  define s2 where "s2 = attempt_all True (t 3) (res 1) (stage_dirty True (t 2) s1)"
  note d = stage_dirty_reach and a = attempt_all_reach
  have "store_step\<^sup>*\<^sup>* s s1" and st: "zs_staging s1 = None"
    unfolding s1_def by (rule round_reach [OF assms(2)])+
  then have ok: "store_ok s1" using assms(1) store_ok_reach by blast
  have p1: "\<not> sp_pending (zs_plane s1 p)" for p using assms(4) by (simp add: s1_def attempt_all_forced)
  have p2: "\<not> sp_pending (zs_plane s2 p)" for p using assms(4) by (simp add: s2_def attempt_all_forced)
  have "store_step\<^sup>*\<^sup>* s1 s2" unfolding s2_def by (rule round_reach [OF st])
  then have "store_ok s2" using ok store_ok_reach by blast
  moreover have "m_dirty (zs_model s2) = m_dirty (zs_model (stage_dirty True (t 2) s1))"
    using a(3) d(2) [OF st] by (simp add: s2_def)
  then have "\<not> bit (m_dirty (zs_model s2)) (plane_bit p)" for p
    using stage_dirty_forced [OF ok st p1] by simp
  from this [of PlaneHw] this [of PlaneCfg]
  have "\<not> bit (m_dirty (zs_model s2)) 0" "\<not> bit (m_dirty (zs_model s2)) 1" by (simp_all add: plane_bit_def del: bit_0)
  ultimately have "\<not> bit (m_dirty (zs_model s2)) n" for n
    unfolding store_ok_def by (cases "n = 0"; cases "n = 1") fastforce+
  then have "m_dirty (zs_model s2) = 0" by (intro bit_word_eqI) simp
  then have "settled s2" using p2 by (simp add: settled_def)
  moreover have "store_pass t res s = (if settled s2 then s2\<lparr>zs_force := False\<rparr> else s2)"
    using assms(3) by (simp add: store_pass_def Let_def s1_def s2_def)
  ultimately show "settled (store_pass t res s)" "\<not> zs_force (store_pass t res s)"
    by (simp_all add: settled_def)
qed

section \<open>Properties\<close>

definition empty_nvs :: "plane \<Rightarrow> u8 list option" where
  "empty_nvs p = None"

lemma empty_nvs_clean: "nvs_clean empty_nvs" "boot_hw empty_nvs = hg_defaults_hw" "boot_cfg empty_nvs = hg_defaults_cfg"
proof -
  show hw: "boot_hw empty_nvs = hg_defaults_hw" by (simp add: boot_hw_def load_hw_def load_blob_def empty_nvs_def)
  show "nvs_clean empty_nvs" by (simp add: nvs_clean_def hw defaults_cfg_valid) (simp add: empty_nvs_def)
  show "boot_cfg empty_nvs = hg_defaults_cfg" by (simp add: boot_cfg_def load_cfg_def load_blob_def empty_nvs_def)
qed

text \<open>A pushed plane, and the flush that waits for it.\<close>

definition pushed :: zone_store where
  "pushed = (let s = hg_store_init empty_nvs None in
     s\<lparr>zs_model := hg_model_apply_cfg (zs_model s) (cfg_stamp hg_defaults_cfg 7 HG_SRC_MASTER), zs_force := True\<rparr>)"

lemma pushed_facts:
  "m_dirty (zs_model pushed) = 2" "zs_staging pushed = None" "zs_force pushed" "\<not> sp_pending (zs_plane pushed p)"
  "zs_nvs pushed = empty_nvs" "m_cfg (zs_model pushed) = cfg_stamp hg_defaults_cfg 7 HG_SRC_MASTER"
  by (simp_all add: pushed_def Let_def init_model hg_model_apply_cfg_def hg_model_init_def HG_CH_CFG_def)
    (cases p; simp add: init_model load_hw_def load_cfg_def load_blob_def empty_nvs_def fresh_plane_def)

lemma pushed_reach: "store_step\<^sup>*\<^sup>* (hg_store_init empty_nvs None) pushed"
proof -
  let ?s = "hg_store_init empty_nvs None"
  let ?s1 = "?s\<lparr>zs_model := hg_model_apply_cfg (zs_model ?s) (cfg_stamp hg_defaults_cfg 7 HG_SRC_MASTER)\<rparr>"
  have l: "length hg_defaults_cfg = 336" using init_planes_ok by (simp add: planes_ok_def)
  have "store_step ?s ?s1"
    by (rule step_push_cfg)
      (use init_planes_ok in \<open>simp_all add: init_model empty_nvs_clean hg_cfg_validate_spec cfg_spec_stamp l cfg_stamp_facts planes_ok_def\<close>)
  moreover have "store_step ?s1 (fst (flush_poll 0 2000 ?s1))" by (rule step_poll)
  moreover have "fst (flush_poll 0 2000 ?s1) = pushed"
    by (simp add: flush_poll_def settled_def pushed_def Let_def hg_model_apply_cfg_def HG_CH_CFG_def init_model hg_model_init_def)
  ultimately show ?thesis by auto
qed

text \<open>A valid hardware plane with a pump limit below the default dose.\<close>

definition low_pump_hw :: hg_zone_hw where
  "low_pump_hw = mem_put hg_defaults_hw 52 (le16_put 10)"

lemma low_pump_valid: "length low_pump_hw = 160" "hw_spec low_pump_hw" "le16_at low_pump_hw 52 = 10"
proof -
  have l: "length hg_defaults_hw = 160" using init_planes_ok by (simp add: planes_ok_def)
  have d: "hw_spec hg_defaults_hw" using init_planes_ok by (simp add: planes_ok_def)
  show "length low_pump_hw = 160" by (simp add: low_pump_hw_def buf_simps l)
  show v: "le16_at low_pump_hw 52 = 10" using le16_at_mem_put [of 52 hg_defaults_hw 10] by (simp add: low_pump_hw_def l)
  have n: "low_pump_hw ! k = hg_defaults_hw ! k" if "k < 52 \<or> 54 \<le> k" for k
    using that by (auto simp: low_pump_hw_def buf_simps l)
  have le: "le16_at low_pump_hw k = le16_at hg_defaults_hw k" if "k < 51 \<or> 54 \<le> k" for k
    using that by (auto simp: le16_at_def n)
  have c: "hw_count low_pump_hw = hw_count hg_defaults_hw" by (simp add: hw_count_def n)
  have pins: "pca_pins low_pump_hw = pca_pins hg_defaults_hw" "pcf_pins low_pump_hw = pcf_pins hg_defaults_hw"
    "soil_chs low_pump_hw = soil_chs hg_defaults_hw"
    by (rule ext, case_tac x; simp add: pca_pins_def pcf_pins_def soil_chs_def Let_def off_defs n)+
  have ax: "map (aux_pins low_pump_hw) [0 ..< 2] = map (aux_pins hg_defaults_hw) [0 ..< 2]"
    by (rule map_cong [OF refl]) (simp add: aux_pins_def off_defs n)
  have "all_pca low_pump_hw = all_pca hg_defaults_hw" "all_pcf low_pump_hw = all_pcf hg_defaults_hw"
    "all_soil low_pump_hw = all_soil hg_defaults_hw"
    by (simp_all only: all_pca_def all_pcf_def all_soil_def c HG_MAX_AUX_def pins ax)
  moreover have "shelf_hw_ok low_pump_hw s" if s: "s < hw_count hg_defaults_hw" for s
  proof -
    have ok: "shelf_hw_ok hg_defaults_hw s" using d s by (simp add: hw_spec_def)
    show ?thesis
    proof (cases s)
      case 0
      with ok show ?thesis by (simp add: shelf_hw_ok_def Let_def off_defs rows_HWSHELF rows_CAL n le v)
    next
      case (Suc r)
      with ok show ?thesis by (simp add: shelf_hw_ok_def Let_def off_defs rows_HWSHELF rows_CAL n le)
    qed
  qed
  moreover have "rows_ok low_pump_hw 0 HG_G_HW" using d by (simp add: hw_spec_def rows_HW n le)
  ultimately show "hw_spec low_pump_hw" using d by (simp add: hw_spec_def c)
qed

lemma default_dose: "le16_at hg_defaults_cfg (cfg_shelf_off 0 + 36 + 4) = 20"
  by (simp add: hg_defaults_cfg_eq off_defs le16_at_def le16_get_def)

text \<open>The clock and the results of a pass in which every write succeeds.\<close>

definition good_pass :: "zone_store \<Rightarrow> zone_store" where
  "good_pass = store_pass (\<lambda>_ _. 0) (\<lambda>_ _. NvsOk)"

text \<open>When the stored hardware plane is valid but the logical plane is missing or refused, the load falls back to the default logical plane without checking it: with a pump limit below the default dose of 20 s the zone starts with a pair of planes that its own validator refuses.\<close>

lemma fallback_defaults_are_not_validated:
  assumes "image_of PlaneHw b hw" "hg_hw_validate hw = Inr ()" "le16_at hw (hw_shelf_off 0 + 20) < 20"
    "nvs PlaneHw = Some b" "fst (load_cfg (nvs PlaneCfg) hw fresh_plane) = None"
  shows "let m = zs_model (hg_store_init nvs zid) in
    m_cfg m = hg_defaults_cfg \<and> hg_cfg_validate (m_cfg m) (Some (m_hw m)) \<noteq> Inr ()"
proof -
  have hw: "boot_hw nvs = hw" using assms(1,2,4) by (simp add: boot_hw_def load_hw_def load_blob_image)
  then have "boot_cfg nvs = hg_defaults_cfg" using assms(5) by (simp add: boot_cfg_def)
  moreover have "\<not> shelf_fits hg_defaults_cfg hw 0"
    unfolding shelf_fits_def Let_def default_dose using assms(3) by auto
  ultimately show ?thesis
    by (auto simp: init_model hw hg_cfg_validate_spec cfg_spec_def HG_MAX_SHELVES_def Let_def)
qed

lemma fallback_defaults_are_not_validated_witness:
  \<open>\<exists>nvs. hg_cfg_validate (m_cfg (zs_model (hg_store_init nvs None))) (Some (m_hw (zs_model (hg_store_init nvs None)))) \<noteq> Inr ()\<close>
proof -
  obtain w where w: "image_of PlaneHw w low_pump_hw"
    using stage_write_image [of low_pump_hw PlaneHw] low_pump_valid(1) by (metis plane.simps(3) plane_size_def)
  let ?nvs = "empty_nvs(PlaneHw := Some w)"
  have "hg_cfg_validate (m_cfg (zs_model (hg_store_init ?nvs None))) (Some (m_hw (zs_model (hg_store_init ?nvs None)))) \<noteq> Inr ()"
  proof -
    have "hg_hw_validate low_pump_hw = Inr ()" "le16_at low_pump_hw (hw_shelf_off 0 + 20) < 20"
      "?nvs PlaneHw = Some w" "fst (load_cfg (?nvs PlaneCfg) low_pump_hw fresh_plane) = None"
      using low_pump_valid(2,3) by (simp_all add: hg_hw_validate_spec off_defs load_cfg_def load_blob_def empty_nvs_def)
    from fallback_defaults_are_not_validated [OF w this, of None] show ?thesis unfolding Let_def by (rule conjunct2)
  qed
  then show ?thesis by blast
qed

text \<open>When the only dirty plane has been taken out of the model but not yet staged, a flush polling at that moment reports success, while the flash still holds the old content.\<close>

lemma flush_can_report_too_early:
  fixes t :: u32
  assumes "m_dirty (zs_model s) = plane_kind p" "\<forall>q. \<not> sp_pending (zs_plane s q)"
  defines "s' \<equiv> stage_take (m_dirty (zs_model s)) True t p s"
  shows "snd (flush_poll waited timeout_ms s') = Some 0 \<and> zs_nvs s' = zs_nvs s \<and> zs_staging s' \<noteq> None"
proof -
  have "bit (plane_kind p) (plane_bit p)" using kind_bit [of "plane_kind p" p] by (cases p) (simp_all add: kind_simps)
  moreover have "plane_kind p \<noteq> 0" by (cases p) (simp_all add: kind_simps)
  ultimately show ?thesis
    using assms by (simp add: stage_take_def Let_def take_dirty_plane flush_poll_def settled_def)
qed

lemma flush_can_report_too_early_witness:
  \<open>snd (flush_poll 20 2000 (stage_take 2 True 0 PlaneCfg pushed)) = Some 0\<close>
  using flush_can_report_too_early [of pushed PlaneCfg 20 2000 0] by (simp add: pushed_facts kind_simps)

text \<open>A pass that a flush has forced, with writes that succeed, leaves the store settled however much was dirty or pending, and releases the flush.\<close>

lemma forced_pass_saves_everything:
  assumes "nvs_clean nvs" "store_step\<^sup>*\<^sup>* (hg_store_init nvs zid) s" "zs_staging s = None" "zs_force s"
    "\<forall>i p. res i p = NvsOk"
  shows "settled (store_pass t res s) \<and> \<not> zs_force (store_pass t res s) \<and>
    snd (flush_poll waited timeout_ms (store_pass t res s)) = Some 0"
  using forced_pass_settles [OF store_ok_reach [OF assms(2) boot_ok [OF assms(1)]] assms(3-5)] by (simp add: flush_poll_def)

lemma forced_pass_saves_everything_witness:
  \<open>settled (good_pass pushed)\<close>
  unfolding good_pass_def
  by (rule forced_pass_saves_everything [OF empty_nvs_clean(1) pushed_reach, THEN conjunct1]) (simp_all add: pushed_facts)

text \<open>C27. Started on flash of which each stored plane can be loaded (a missing one stands for the defaults, which must then fit the hardware plane), and with edits that report every plane they change: however edits, pushes, polls and the steps of the store task interleave, and whatever writes fail, once the store says it is settled and nothing is staged, a restart loads exactly the two planes that were in memory.\<close>

lemma nothing_accepted_is_lost:
  assumes "nvs_clean nvs" "store_step\<^sup>*\<^sup>* (hg_store_init nvs zid) s" "settled s" "zs_staging s = None"
  shows "m_hw (zs_model (hg_store_init (zs_nvs s) zid')) = m_hw (zs_model s) \<and>
    m_cfg (zs_model (hg_store_init (zs_nvs s) zid')) = m_cfg (zs_model s)"
  using settled_reload [OF store_ok_reach [OF assms(2) boot_ok [OF assms(1)]] assms(3,4)] by (simp add: init_model)

lemma nothing_accepted_is_lost_witness:
  \<open>m_cfg (zs_model (hg_store_init (zs_nvs (good_pass pushed)) None)) = m_cfg (zs_model (good_pass pushed))\<close>
proof -
  have r: "store_step\<^sup>*\<^sup>* (hg_store_init empty_nvs None) (good_pass pushed)" "zs_staging (good_pass pushed) = None"
    using rtranclp_trans [OF pushed_reach store_pass_reach(1)] store_pass_reach(2) pushed_facts(2)
    unfolding good_pass_def by blast+
  have "store_ok pushed" using store_ok_reach [OF pushed_reach boot_ok [OF empty_nvs_clean(1)]] .
  then have "settled (good_pass pushed)"
    unfolding good_pass_def by (rule forced_pass_settles) (simp_all add: pushed_facts)
  with nothing_accepted_is_lost [OF empty_nvs_clean(1) r(1) _ r(2)] show ?thesis by blast
qed

end
