(* ===== verification/Cli_Line.thy ===== *)
theory Cli_Line
  imports HG_Prelude
begin

text \<open>
  \<^verbatim>\<open>components/cli_line/cli_line.c\<close>: the line editor behind the serial console, in human
  mode (echo, history) and machine mode (no echo, an idle partial line is dropped). Characters
  are their bytes; the edit buffer is the array of the C, an entry of the history and the saved
  line are the strings the arrays hold. Shown: no byte stream makes it write outside its arrays;
  in machine mode it delivers the line of a plain reference editor; a recalled line is the line
  typed before; and an overlong line whose rest is discarded, by the idle timeout or by a recall,
  still spoils the next one.
\<close>

section \<open>State\<close>

definition CLI_LINE_MAX :: nat where "CLI_LINE_MAX = 192"
definition CLI_HIST_N :: nat where "CLI_HIST_N = 10"
definition CLI_HIST_LEN :: nat where "CLI_HIST_LEN = 96"
definition STALE_MS :: u32 where "STALE_MS = 30000"

datatype cli_evt = CLI_EVT_NONE | CLI_EVT_LINE | CLI_EVT_TOO_LONG

record cli_line =
  cl_buf :: "u8 list"
  cl_len :: nat
  cl_echo :: bool
  cl_esc :: u8
  cl_overflow :: bool
  cl_last_cr :: bool
  cl_browsing :: bool
  cl_hist :: "u8 list list"
  cl_hist_count :: nat
  cl_hist_next :: nat
  cl_hist_pos :: int
  cl_saved :: "u8 list"
  cl_last_ms :: u32
  cl_noise :: u32
  cl_stale :: u32

definition cli_line_init :: "bool \<Rightarrow> cli_line" where
  "cli_line_init echo = \<lparr>cl_buf = replicate CLI_LINE_MAX 0, cl_len = 0, cl_echo = echo, cl_esc = 0,
     cl_overflow = False, cl_last_cr = False, cl_browsing = False, cl_hist = replicate CLI_HIST_N [],
     cl_hist_count = 0, cl_hist_next = 0, cl_hist_pos = - 1, cl_saved = [], cl_last_ms = 0, cl_noise = 0,
     cl_stale = 0\<rparr>"

definition cli_line_set_echo :: "cli_line \<Rightarrow> bool \<Rightarrow> cli_line" where
  "cli_line_set_echo l echo = l\<lparr>cl_echo := echo\<rparr>"

section \<open>Echo and history\<close>

text \<open>The echo so far is \<open>out\<close>; what does not fit into \<open>cap\<close> bytes is dropped.\<close>

definition echo_put :: "cli_line \<Rightarrow> nat \<Rightarrow> u8 list \<Rightarrow> u8 list \<Rightarrow> u8 list" where
  "echo_put l cap out s = (if \<not> cl_echo l then out else out @ take (cap - length out) s)"

definition hist_push :: "cli_line \<Rightarrow> cli_line" where
  "hist_push l =
     (let line = cstr (cl_buf l);
          newest = (cl_hist_next l + CLI_HIST_N - 1) mod CLI_HIST_N
      in if line = [] then l
         else if cl_hist_count l > 0 \<and> cl_hist l ! newest = line then l
         else l\<lparr>cl_hist := (cl_hist l)[cl_hist_next l := take (CLI_HIST_LEN - 1) line],
                cl_hist_next := (cl_hist_next l + 1) mod CLI_HIST_N,
                cl_hist_count := (if cl_hist_count l < CLI_HIST_N then cl_hist_count l + 1 else cl_hist_count l)\<rparr>)"

text \<open>\<open>mod\<close> on \<open>int\<close> is never negative, so that the correction of the C is not needed.\<close>

definition hist_ring_index :: "cli_line \<Rightarrow> int \<Rightarrow> nat" where
  "hist_ring_index l pos = nat ((int (cl_hist_next l) - 1 - pos) mod int CLI_HIST_N)"

definition hist_load :: "cli_line \<Rightarrow> int \<Rightarrow> cli_line" where
  "hist_load l pos =
     (let e = cl_hist l ! hist_ring_index l pos in
      l\<lparr>cl_buf := put_cstr (cl_buf l) e, cl_len := length e\<rparr>)"

definition hist_echo :: "cli_line \<Rightarrow> nat \<Rightarrow> u8 list" where
  "hist_echo l cap = echo_put l cap (echo_put l cap [] [0x0D, 0x1B, 0x5B, 0x32]) (take (cl_len l) (cl_buf l))"

definition hist_up :: "cli_line \<Rightarrow> nat \<Rightarrow> cli_line \<times> u8 list" where
  "hist_up l cap =
     (if \<not> cl_browsing l \<and> cl_hist_count l = 0 then (l, [])
      else
        let l = (if \<not> cl_browsing l
                 then l\<lparr>cl_saved := take (cl_len l) (cl_buf l), cl_browsing := True, cl_hist_pos := 0\<rparr>
                 else if cl_hist_pos l < int (cl_hist_count l) - 1 then l\<lparr>cl_hist_pos := cl_hist_pos l + 1\<rparr>
                 else l);
            l = hist_load l (cl_hist_pos l)
        in (l, hist_echo l cap))"

definition hist_down :: "cli_line \<Rightarrow> nat \<Rightarrow> cli_line \<times> u8 list" where
  "hist_down l cap =
     (if \<not> cl_browsing l then (l, [])
      else
        let l = l\<lparr>cl_hist_pos := cl_hist_pos l - 1\<rparr>;
            l = (if cl_hist_pos l < 0
                 then l\<lparr>cl_buf := put_cstr (cl_buf l) (cl_saved l), cl_len := length (cl_saved l), cl_browsing := False\<rparr>
                 else hist_load l (cl_hist_pos l))
        in (l, hist_echo l cap))"

section \<open>One byte\<close>

text \<open>The second half of \<open>cli_line_feed\<close>: a byte that is not part of an escape sequence.\<close>

definition feed_plain :: "bool \<Rightarrow> cli_line \<Rightarrow> u8 \<Rightarrow> nat \<Rightarrow> cli_line \<times> cli_evt \<times> u8 list" where
  "feed_plain was_cr l b cap =
     (if b = 0x0D \<or> b = 0x0A then
        if b = 0x0A \<and> was_cr then (l, CLI_EVT_NONE, [])
        else
          let l = l\<lparr>cl_last_cr := (if b = 0x0D then True else cl_last_cr l), cl_browsing := False\<rparr> in
          if cl_overflow l then
            (l\<lparr>cl_overflow := False, cl_len := 0, cl_buf := (cl_buf l)[0 := 0]\<rparr>, CLI_EVT_TOO_LONG,
             echo_put l cap [] [0x0D, 0x0A])
          else
            let l = l\<lparr>cl_buf := (cl_buf l)[cl_len l := 0]\<rparr> in
            (if cl_echo l then hist_push l else l, CLI_EVT_LINE, echo_put l cap [] [0x0D, 0x0A])
      else if b = 0x03 then
        (l\<lparr>cl_len := 0, cl_buf := (cl_buf l)[0 := 0], cl_overflow := False, cl_browsing := False, cl_hist_pos := - 1\<rparr>,
         CLI_EVT_NONE, echo_put l cap [] [0x5E, 0x43, 0x0D, 0x0A])
      else if b = 0x08 \<or> b = 0x7F then
        if cl_len l > 0 then
          (l\<lparr>cl_len := cl_len l - 1, cl_buf := (cl_buf l)[cl_len l - 1 := 0], cl_overflow := False\<rparr>,
           CLI_EVT_NONE, echo_put l cap [] [0x08, 0x20, 0x08])
        else (l, CLI_EVT_NONE, [])
      else if 0x20 \<le> b \<and> b \<le> 0x7E then
        if cl_len l = CLI_LINE_MAX - 1 then (l\<lparr>cl_browsing := False, cl_overflow := True\<rparr>, CLI_EVT_NONE, [])
        else
          (l\<lparr>cl_browsing := False, cl_buf := (cl_buf l)[cl_len l := b, cl_len l + 1 := 0], cl_len := cl_len l + 1\<rparr>,
           CLI_EVT_NONE, echo_put l cap [] [b])
      else (l\<lparr>cl_noise := cl_noise l + 1\<rparr>, CLI_EVT_NONE, []))"

text \<open>The first part: the leftover of a taken line, the CR flag, the idle timeout of machine mode.\<close>

definition feed_start :: "cli_line \<Rightarrow> u32 \<Rightarrow> cli_line" where
  "feed_start l now =
     (let l = (if cl_len l = 0 then l\<lparr>cl_buf := (cl_buf l)[0 := 0]\<rparr> else l);
          l = l\<lparr>cl_last_cr := False\<rparr>;
          l = (if \<not> cl_echo l \<and> cl_len l > 0 \<and> now - cl_last_ms l > STALE_MS
               then l\<lparr>cl_len := 0, cl_buf := (cl_buf l)[0 := 0], cl_stale := cl_stale l + 1\<rparr> else l)
      in l\<lparr>cl_last_ms := now\<rparr>)"

definition cli_line_feed :: "cli_line \<Rightarrow> u8 \<Rightarrow> u32 \<Rightarrow> nat \<Rightarrow> cli_line \<times> cli_evt \<times> u8 list" where
  "cli_line_feed l b now cap =
     (let was_cr = cl_last_cr l; l = feed_start l now in
      if cl_echo l \<and> b = 0x1B then (l\<lparr>cl_esc := 1\<rparr>, CLI_EVT_NONE, [])
      else if cl_echo l \<and> cl_esc l = 1 then
        if b = 0x5B then (l\<lparr>cl_esc := 2\<rparr>, CLI_EVT_NONE, [])
        else (l\<lparr>cl_esc := 0, cl_noise := cl_noise l + 1\<rparr>, CLI_EVT_NONE, [])
      else if cl_echo l \<and> cl_esc l = 2 then
        let l = l\<lparr>cl_esc := 0\<rparr> in
        if b = 0x41 then (case hist_up l cap of (l, out) \<Rightarrow> (l, CLI_EVT_NONE, out))
        else if b = 0x42 then (case hist_down l cap of (l, out) \<Rightarrow> (l, CLI_EVT_NONE, out))
        else (l, CLI_EVT_NONE, [])
      else feed_plain was_cr l b cap)"

text \<open>The string returned, and the state after it.\<close>

definition cli_line_take :: "cli_line \<Rightarrow> cli_line \<times> u8 list" where
  "cli_line_take l =
     (let buf = (cl_buf l)[cl_len l := 0] in
      (l\<lparr>cl_buf := buf, cl_len := 0, cl_browsing := False, cl_overflow := False\<rparr>, cstr buf))"

section \<open>No byte stream leaves the arrays\<close>

definition printable :: "u8 \<Rightarrow> bool" where
  "printable c \<longleftrightarrow> 0x20 \<le> c \<and> c \<le> 0x7E"

definition cl_text :: "cli_line \<Rightarrow> u8 list" where
  "cl_text l = take (cl_len l) (cl_buf l)"

text \<open>
  The bounds of every index the C uses: the edit position and the byte behind it, the history
  slots, the saved line; and the edit buffer holds a terminated line unless it was just taken.
\<close>

definition cl_ok :: "cli_line \<Rightarrow> bool" where
  "cl_ok l \<longleftrightarrow>
     length (cl_buf l) = CLI_LINE_MAX \<and> cl_len l < CLI_LINE_MAX \<and>
     (cl_len l > 0 \<longrightarrow> cl_buf l ! cl_len l = 0) \<and> (\<forall>c \<in> set (cl_text l). printable c) \<and>
     length (cl_hist l) = CLI_HIST_N \<and> cl_hist_next l < CLI_HIST_N \<and> cl_hist_count l \<le> CLI_HIST_N \<and>
     (\<forall>e \<in> set (cl_hist l). length e < CLI_HIST_LEN \<and> (\<forall>c \<in> set e. printable c)) \<and>
     length (cl_saved l) < CLI_LINE_MAX \<and> (\<forall>c \<in> set (cl_saved l). printable c) \<and>
     (cl_browsing l \<longrightarrow> 0 \<le> cl_hist_pos l \<and> cl_hist_pos l < int (cl_hist_count l))"

definition cl_ready :: "cli_line \<Rightarrow> bool" where
  "cl_ready l \<longleftrightarrow> cl_ok l \<and> cl_buf l ! cl_len l = 0"

lemmas cli_consts = CLI_LINE_MAX_def CLI_HIST_N_def CLI_HIST_LEN_def

lemma printable_not_0: "\<not> printable 0"
  by (simp add: printable_def)

lemma ready_cstr: "cl_ready l \<Longrightarrow> cstr (cl_buf l) = cl_text l"
proof -
  assume r: "cl_ready l"
  then have l: "cl_len l < length (cl_buf l)" by (simp add: cl_ready_def cl_ok_def)
  have "cl_buf l = cl_text l @ 0 # drop (Suc (cl_len l)) (cl_buf l)"
    using id_take_nth_drop [OF l] r by (simp add: cl_text_def cl_ready_def)
  moreover have "0 \<notin> set (cl_text l)" using r printable_not_0 by (auto simp: cl_ready_def cl_ok_def)
  ultimately show "cstr (cl_buf l) = cl_text l"
    unfolding cstr_def by (metis (mono_tags, lifting) takeWhile_eq_all_conv takeWhile_tail append_Nil2 takeWhile_append2)
qed

lemma ready_start: "cl_ok l \<Longrightarrow> cl_ready (feed_start l now)"
  by (auto simp: cl_ready_def cl_ok_def feed_start_def Let_def cl_text_def cli_consts)

lemma put_cstr_ready:
  assumes "cl_ready l" "length e < CLI_LINE_MAX" "\<forall>c \<in> set e. printable c"
  shows "cl_ready (l\<lparr>cl_buf := put_cstr (cl_buf l) e, cl_len := length e\<rparr>)"
    "cl_text (l\<lparr>cl_buf := put_cstr (cl_buf l) e, cl_len := length e\<rparr>) = e"
  using assms by (auto simp: cl_ready_def cl_ok_def cl_text_def length_put_cstr put_cstr_def nth_append)

lemma ring_index_less: "hist_ring_index l pos < CLI_HIST_N"
  using pos_mod_bound [of "int CLI_HIST_N" "int (cl_hist_next l) - 1 - pos"]
  by (simp add: hist_ring_index_def CLI_HIST_N_def)

lemma hist_entry:
  assumes "cl_ok l"
  shows "length (cl_hist l ! hist_ring_index l pos) < CLI_HIST_LEN"
    "\<forall>c \<in> set (cl_hist l ! hist_ring_index l pos). printable c"
  using assms ring_index_less [of l pos] nth_mem [of "hist_ring_index l pos" "cl_hist l"] by (auto simp: cl_ok_def)

lemma hist_load_ready:
  assumes "cl_ready l"
  shows "cl_ready (hist_load l pos)" "cl_text (hist_load l pos) = cl_hist l ! hist_ring_index l pos"
proof -
  have "cl_ok l" using assms by (simp add: cl_ready_def)
  note e = hist_entry [OF this, of pos]
  then have "length (cl_hist l ! hist_ring_index l pos) < CLI_LINE_MAX" by (simp add: cli_consts)
  from put_cstr_ready [OF assms this e(2)]
  show "cl_ready (hist_load l pos)" "cl_text (hist_load l pos) = cl_hist l ! hist_ring_index l pos"
    by (simp_all add: hist_load_def Let_def)
qed

lemma hist_push_ready: "cl_ready l \<Longrightarrow> cl_ready (hist_push l)"
proof -
  assume r: "cl_ready l"
  have "\<forall>c \<in> set (take (CLI_HIST_LEN - 1) (cl_text l)). printable c"
    using r by (auto simp: cl_ready_def cl_ok_def dest: in_set_takeD)
  then show "cl_ready (hist_push l)"
    using r by (auto simp: hist_push_def Let_def ready_cstr cl_ready_def cl_ok_def cl_text_def CLI_HIST_N_def
        CLI_HIST_LEN_def dest!: set_update_subset_insert [THEN subsetD])
qed

lemma hist_up_ready: "cl_ready l \<Longrightarrow> cl_ready (fst (hist_up l cap))"
proof -
  assume r: "cl_ready l"
  have "cl_ready (l\<lparr>cl_saved := take (cl_len l) (cl_buf l), cl_browsing := True, cl_hist_pos := 0\<rparr>)"
    if "cl_hist_count l \<noteq> 0"
    using r that by (auto simp: cl_ready_def cl_ok_def cl_text_def)
  moreover have "cl_ready (l\<lparr>cl_hist_pos := cl_hist_pos l + 1\<rparr>)" if "cl_hist_pos l < int (cl_hist_count l) - 1"
    using r that by (auto simp: cl_ready_def cl_ok_def cl_text_def)
  ultimately show ?thesis using r by (auto simp: hist_up_def Let_def intro!: hist_load_ready(1))
qed

lemma hist_down_ready: "cl_ready l \<Longrightarrow> cl_ready (fst (hist_down l cap))"
proof -
  assume r: "cl_ready l"
  let ?l = "l\<lparr>cl_hist_pos := cl_hist_pos l - 1\<rparr>"
  show ?thesis
  proof (cases "cl_hist_pos l - 1 < 0")
    case True
    have "cl_ready (l\<lparr>cl_browsing := False, cl_hist_pos := cl_hist_pos l - 1\<rparr>)"
      using r by (auto simp: cl_ready_def cl_ok_def cl_text_def)
    from put_cstr_ready(1) [OF this, of "cl_saved l"] r True show ?thesis
      by (auto simp: hist_down_def Let_def cl_ready_def cl_ok_def cl_text_def)
  next
    case False
    then have "cl_browsing l \<Longrightarrow> cl_ready ?l" using r by (auto simp: cl_ready_def cl_ok_def cl_text_def)
    with False r show ?thesis by (auto simp: hist_down_def Let_def intro!: hist_load_ready(1))
  qed
qed

lemma text_put_char:
  assumes "cl_ready l" "cl_len l < CLI_LINE_MAX - 1"
  shows "take (cl_len l + 1) ((cl_buf l)[cl_len l := b, cl_len l + 1 := 0]) = cl_text l @ [b]"
  using assms by (auto simp: cl_ready_def cl_ok_def cl_text_def take_Suc_conv_app_nth)

text \<open>The cases of the plain byte, on the text and the overflow flag.\<close>

definition edit_ref :: "u8 list \<times> bool \<Rightarrow> u8 \<Rightarrow> u8 list \<times> bool" where
  "edit_ref = (\<lambda>(s, ov) b.
     if b = 0x03 then ([], False)
     else if b = 0x08 \<or> b = 0x7F then (if s = [] then ([], ov) else (butlast s, False))
     else if printable b then (if length s = CLI_LINE_MAX - 1 then (s, True) else (s @ [b], ov))
     else (s, ov))"

lemma plain_ready:
  assumes "cl_ready l"
  shows "cl_ready (fst (feed_plain w l b cap))"
proof (cases "b = 0x0D \<or> b = 0x0A \<or> b = 0x03")
  case True
  have r: "cl_ready (l\<lparr>cl_last_cr := x, cl_browsing := False, cl_buf := (cl_buf l)[cl_len l := 0]\<rparr>)" for x
    using assms by (auto simp: cl_ready_def cl_ok_def cl_text_def)
  have r2: "cl_ready (l\<lparr>cl_last_cr := x, cl_browsing := False, cl_overflow := False, cl_len := 0, cl_buf := (cl_buf l)[0 := 0]\<rparr>)" for x
    using assms by (auto simp: cl_ready_def cl_ok_def cl_text_def)
  have r3: "cl_ready (l\<lparr>cl_len := 0, cl_buf := (cl_buf l)[0 := 0], cl_overflow := False, cl_browsing := False, cl_hist_pos := - 1\<rparr>)"
    using assms by (auto simp: cl_ready_def cl_ok_def cl_text_def)
  show ?thesis
    using True assms r [of True] r [of "cl_last_cr l"] r2 [of True] r2 [of "cl_last_cr l"] r3
    by (auto simp: feed_plain_def Let_def hist_push_ready)
next
  case False
  show ?thesis
  proof (cases "b = 0x08 \<or> b = 0x7F")
    case True
    have "cl_ready (l\<lparr>cl_len := cl_len l - 1, cl_buf := (cl_buf l)[cl_len l - 1 := 0], cl_overflow := False\<rparr>)" if "cl_len l > 0"
    proof -
      have "set (take (cl_len l - Suc 0) (cl_buf l)) \<subseteq> set (take (cl_len l) (cl_buf l))"
        by (rule set_take_subset_set_take) simp
      then show ?thesis using assms that by (auto simp: cl_ready_def cl_ok_def cl_text_def)
    qed
    with True False assms show ?thesis by (auto simp: feed_plain_def)
  next
    case nbs: False
    have "cl_ready (l\<lparr>cl_browsing := False, cl_buf := (cl_buf l)[cl_len l := b, cl_len l + 1 := 0], cl_len := cl_len l + 1\<rparr>)"
      if "0x20 \<le> b" "b \<le> 0x7E" "cl_len l \<noteq> CLI_LINE_MAX - 1"
    proof -
      have "cl_len l < CLI_LINE_MAX - 1" using assms that(3) by (auto simp: cl_ready_def cl_ok_def)
      with text_put_char [OF assms this, of b] that assms show ?thesis
        by (auto simp: cl_ready_def cl_ok_def cl_text_def printable_def CLI_LINE_MAX_def)
    qed
    moreover have "cl_ready (l\<lparr>cl_browsing := False, cl_overflow := True\<rparr>)" "cl_ready (l\<lparr>cl_noise := cl_noise l + 1\<rparr>)"
      using assms by (auto simp: cl_ready_def cl_ok_def cl_text_def)
    ultimately show ?thesis using False nbs assms by (auto simp: feed_plain_def)
  qed
qed

lemma feed_ok: "cl_ok l \<Longrightarrow> cl_ready (fst (cli_line_feed l b now cap))"
proof -
  assume "cl_ok l"
  then have r: "cl_ready (feed_start l now)" by (rule ready_start)
  have esc: "cl_ready ((feed_start l now)\<lparr>cl_esc := e\<rparr>)" "cl_ready ((feed_start l now)\<lparr>cl_esc := e, cl_noise := n\<rparr>)" for e n
    using r by (simp_all add: cl_ready_def cl_ok_def cl_text_def)
  show ?thesis
    using r esc hist_up_ready [OF esc(1), of 0 cap] hist_down_ready [OF esc(1), of 0 cap] plain_ready
    by (auto simp: cli_line_feed_def Let_def split: prod.split)
qed

lemma take_ok: "cl_ok l \<Longrightarrow> cl_ok (fst (cli_line_take l))"
  by (auto simp: cli_line_take_def Let_def cl_ok_def cl_text_def)

datatype cli_ev = CliFeed u8 u32 nat | CliTake | CliEcho bool

fun cli_step :: "cli_line \<Rightarrow> cli_ev \<Rightarrow> cli_line \<times> cli_evt" where
  "cli_step l (CliFeed b now cap) = (case cli_line_feed l b now cap of (l', ev, _) \<Rightarrow> (l', ev))"
| "cli_step l CliTake = (fst (cli_line_take l), CLI_EVT_NONE)"
| "cli_step l (CliEcho e) = (cli_line_set_echo l e, CLI_EVT_NONE)"

lemma fst_cli_step_feed: "fst (cli_step l (CliFeed b now cap)) = fst (cli_line_feed l b now cap)"
  by (simp split: prod.split)

interpretation cli: step_invariant cli_step cl_ok
proof
  fix l e
  assume ok: "cl_ok l"
  show "cl_ok (fst (cli_step l e))"
  proof (cases e)
    case (CliFeed b now cap)
    then show ?thesis using feed_ok [OF ok, of b now cap] fst_cli_step_feed by (simp add: cl_ready_def del: cli_step.simps)
  next
    case CliTake
    with take_ok [OF ok] show ?thesis by simp
  next
    case (CliEcho x)
    with ok show ?thesis by (simp add: cli_line_set_echo_def cl_ok_def cl_text_def)
  qed
qed

lemma init_ok: "cl_ok (cli_line_init echo)"
  by (simp add: cl_ok_def cli_line_init_def cl_text_def cli_consts)

section \<open>Machine mode against a reference editor\<close>

definition cl_abs :: "cli_line \<Rightarrow> u8 list \<times> bool" where
  "cl_abs l = (cl_text l, cl_overflow l)"

lemma start_fields:
  "cl_echo (feed_start l now) = cl_echo l" "cl_overflow (feed_start l now) = cl_overflow l"
  "cl_last_ms (feed_start l now) = now"
  by (simp_all add: feed_start_def Let_def)

lemma start_text:
  assumes "\<not> (\<not> cl_echo l \<and> cl_len l > 0 \<and> now - cl_last_ms l > STALE_MS)"
  shows "cl_len (feed_start l now) = cl_len l" "cl_text (feed_start l now) = cl_text l"
  using assms by (auto simp: feed_start_def Let_def cl_text_def)

lemma length_text: "cl_ok l \<Longrightarrow> length (cl_text l) = cl_len l"
  by (auto simp: cl_ok_def cl_text_def)

lemma plain_edit:
  assumes "cl_ready l" "b \<noteq> 0x0D" "b \<noteq> 0x0A"
  shows "cl_abs (fst (feed_plain w l b cap)) = edit_ref (cl_abs l) b" "fst (snd (feed_plain w l b cap)) = CLI_EVT_NONE"
    "cl_echo (fst (feed_plain w l b cap)) = cl_echo l" "cl_last_ms (fst (feed_plain w l b cap)) = cl_last_ms l"
proof -
  have len: "length (cl_text l) = cl_len l" using assms(1) by (simp add: cl_ready_def length_text)
  then have ne: "(cl_text l = []) = (cl_len l = 0)" by auto
  have bl: "take (cl_len l - Suc 0) (cl_buf l) = butlast (cl_text l)"
    using assms(1) by (auto simp: cl_text_def butlast_take cl_ready_def cl_ok_def)
  have less: "cl_len l \<noteq> CLI_LINE_MAX - 1 \<Longrightarrow> cl_len l < CLI_LINE_MAX - 1" using assms(1) by (auto simp: cl_ready_def cl_ok_def)
  show "cl_abs (fst (feed_plain w l b cap)) = edit_ref (cl_abs l) b"
    using assms(2,3) text_put_char [OF assms(1) less, of b]
    by (auto simp: feed_plain_def cl_abs_def edit_ref_def ne len printable_def bl)
      (use assms(1) in \<open>auto simp: cl_text_def butlast_take cl_ready_def cl_ok_def CLI_LINE_MAX_def\<close>)
qed (use assms(2,3) in \<open>auto simp: feed_plain_def\<close>)

text \<open>A run of bytes with no pause longer than the timeout.\<close>

fun steady :: "u32 \<Rightarrow> (u8 \<times> u32) list \<Rightarrow> bool" where
  "steady t [] = True"
| "steady t ((b, now) # es) = (now - t \<le> STALE_MS \<and> b \<noteq> 0x0D \<and> b \<noteq> 0x0A \<and> steady now es)"

definition feed_all :: "nat \<Rightarrow> cli_line \<Rightarrow> (u8 \<times> u32) list \<Rightarrow> cli_line" where
  "feed_all cap l es = foldl (\<lambda>l (b, now). fst (cli_line_feed l b now cap)) l es"

lemma machine_feed:
  assumes "cl_ok l" "\<not> cl_echo l" "cl_len l = 0 \<or> now - cl_last_ms l \<le> STALE_MS" "b \<noteq> 0x0D" "b \<noteq> 0x0A"
  shows "cl_abs (fst (cli_line_feed l b now cap)) = edit_ref (cl_abs l) b" "\<not> cl_echo (fst (cli_line_feed l b now cap))"
    "cl_last_ms (fst (cli_line_feed l b now cap)) = now" "cl_ok (fst (cli_line_feed l b now cap))"
proof -
  have n: "\<not> (\<not> cl_echo l \<and> cl_len l > 0 \<and> now - cl_last_ms l > STALE_MS)" using assms(3) by auto
  have "cl_abs (feed_start l now) = cl_abs l" by (simp add: cl_abs_def start_text [OF n] start_fields)
  moreover have "cli_line_feed l b now cap = feed_plain (cl_last_cr l) (feed_start l now) b cap"
    by (simp add: cli_line_feed_def Let_def start_fields assms(2))
  ultimately show "cl_abs (fst (cli_line_feed l b now cap)) = edit_ref (cl_abs l) b" "\<not> cl_echo (fst (cli_line_feed l b now cap))"
    "cl_last_ms (fst (cli_line_feed l b now cap)) = now"
    using plain_edit [OF ready_start [OF assms(1)] assms(4,5)] assms(2) by (simp_all add: start_fields)
  show "cl_ok (fst (cli_line_feed l b now cap))" using feed_ok [OF assms(1)] by (simp add: cl_ready_def)
qed

lemma machine_run:
  assumes "cl_ok l" "\<not> cl_echo l" "steady (cl_last_ms l) es"
  shows "cl_abs (feed_all cap l es) = foldl edit_ref (cl_abs l) (map fst es) \<and> \<not> cl_echo (feed_all cap l es) \<and>
    cl_ok (feed_all cap l es) \<and> cl_last_ms (feed_all cap l es) = last (cl_last_ms l # map snd es)"
  using assms
proof (induction es arbitrary: l)
  case (Cons e es)
  obtain b now where e: "e = (b, now)" by fastforce
  with Cons.prems have h: "cl_len l = 0 \<or> now - cl_last_ms l \<le> STALE_MS" "b \<noteq> 0x0D" "b \<noteq> 0x0A" "steady now es" by simp_all
  note f = machine_feed [OF Cons.prems(1,2) h(1-3), where cap = cap]
  have "feed_all cap l (e # es) = feed_all cap (fst (cli_line_feed l b now cap)) es" by (simp add: feed_all_def e)
  with Cons.IH [OF f(4,2)] f h(4) show ?case by (simp add: e)
qed (simp add: feed_all_def)

text \<open>The end of a line.\<close>

lemma feed_cr:
  fixes cap :: nat
  assumes "cl_ok l" "\<not> cl_echo l" "cl_len l = 0 \<or> now - cl_last_ms l \<le> STALE_MS"
  defines "r \<equiv> cli_line_feed l 0x0D now cap"
  shows "fst (snd r) = (if cl_overflow l then CLI_EVT_TOO_LONG else CLI_EVT_LINE)"
    "\<not> cl_overflow l \<Longrightarrow> snd (cli_line_take (fst r)) = cl_text l"
    "cl_overflow l \<Longrightarrow> cl_abs (fst r) = ([], False)" "cl_abs (fst (cli_line_take (fst r))) = ([], False)"
proof -
  have n: "\<not> (\<not> cl_echo l \<and> cl_len l > 0 \<and> now - cl_last_ms l > STALE_MS)" using assms(3) by auto
  have r: "r = feed_plain (cl_last_cr l) (feed_start l now) 0x0D cap"
    by (simp add: r_def cli_line_feed_def Let_def start_fields assms(2))
  have rd: "cl_ready (feed_start l now)" using assms(1) by (rule ready_start)
  have "(cl_buf (feed_start l now))[cl_len (feed_start l now) := 0] = cl_buf (feed_start l now)"
    using rd by (simp add: cl_ready_def list_update_same_conv cl_ok_def)
  then show "fst (snd r) = (if cl_overflow l then CLI_EVT_TOO_LONG else CLI_EVT_LINE)"
    "\<not> cl_overflow l \<Longrightarrow> snd (cli_line_take (fst r)) = cl_text l"
    "cl_overflow l \<Longrightarrow> cl_abs (fst r) = ([], False)"
    "cl_abs (fst (cli_line_take (fst r))) = ([], False)"
    using ready_cstr [OF rd] start_text [OF n]
    by (simp_all add: r feed_plain_def Let_def start_fields assms(2) cli_line_take_def cl_abs_def cl_text_def)
qed

lemma machine_line:
  fixes cap :: nat
  assumes "cl_ok l" "\<not> cl_echo l" "cl_abs l = ([], False)" "steady (cl_last_ms l) es"
    "now - last (cl_last_ms l # map snd es) \<le> STALE_MS" "foldl edit_ref ([], False) (map fst es) = (s, ov)"
  defines "r \<equiv> cli_line_feed (feed_all cap l es) 0x0D now cap"
  shows "fst (snd r) = (if ov then CLI_EVT_TOO_LONG else CLI_EVT_LINE)"
    "\<not> ov \<Longrightarrow> snd (cli_line_take (fst r)) = s" "cl_abs (fst (cli_line_take (fst r))) = ([], False)"
proof -
  from machine_run [OF assms(1,2,4), of cap] assms(3,6)
  have a: "cl_text (feed_all cap l es) = s" "cl_overflow (feed_all cap l es) = ov" "\<not> cl_echo (feed_all cap l es)"
    "cl_ok (feed_all cap l es)" "cl_last_ms (feed_all cap l es) = last (cl_last_ms l # map snd es)"
    by (simp_all add: cl_abs_def)
  have h: "cl_len (feed_all cap l es) = 0 \<or> now - cl_last_ms (feed_all cap l es) \<le> STALE_MS" using assms(5) a(5) by simp
  note c = feed_cr [OF a(4,3) h, of cap, folded r_def]
  show "fst (snd r) = (if ov then CLI_EVT_TOO_LONG else CLI_EVT_LINE)" "\<not> ov \<Longrightarrow> snd (cli_line_take (fst r)) = s"
    "cl_abs (fst (cli_line_take (fst r))) = ([], False)"
    using c(1,2,4) a(1,2) by simp_all
qed

section \<open>Recall in human mode\<close>

lemma ring_index_newest:
  "cl_hist_next l < CLI_HIST_N \<Longrightarrow> hist_ring_index (l\<lparr>cl_hist_next := (cl_hist_next l + 1) mod CLI_HIST_N\<rparr>) 0 = cl_hist_next l"
  by (auto simp: hist_ring_index_def CLI_HIST_N_def zmod_int mod_diff_left_eq simp flip: of_nat_Suc)

lemma ring_index_0:
  "cl_hist_next l < CLI_HIST_N \<Longrightarrow> hist_ring_index l 0 = (cl_hist_next l + CLI_HIST_N - 1) mod CLI_HIST_N"
proof -
  assume "cl_hist_next l < CLI_HIST_N"
  have "(int (cl_hist_next l) - 1) mod 10 = (int (cl_hist_next l) - 1 + 10) mod 10" by (simp only: mod_add_self2)
  also have "int (cl_hist_next l) - 1 + 10 = int (cl_hist_next l + 9)" by simp
  finally have "nat ((int (cl_hist_next l) - 1) mod 10) = (cl_hist_next l + 9) mod 10"
    by (metis nat_int of_nat_numeral zmod_int)
  then show ?thesis by (simp add: hist_ring_index_def CLI_HIST_N_def add.commute)
qed

text \<open>After a line is pushed, the newest entry of the history is that line.\<close>

lemma push_newest:
  assumes "cl_ready l" "cl_text l \<noteq> []" "length (cl_text l) < CLI_HIST_LEN"
  shows "cl_hist (hist_push l) ! hist_ring_index (hist_push l) 0 = cl_text l" "0 < cl_hist_count (hist_push l)"
proof -
  have n: "cl_hist_next l < CLI_HIST_N" and lh: "length (cl_hist l) = CLI_HIST_N"
    using assms(1) by (simp_all add: cl_ready_def cl_ok_def)
  have "((cl_hist_next l + 1) mod CLI_HIST_N + CLI_HIST_N - 1) mod CLI_HIST_N = cl_hist_next l"
    using n by (auto simp: CLI_HIST_N_def mod_Suc)
  moreover have "(cl_hist_next l + 1) mod CLI_HIST_N < CLI_HIST_N" by (simp add: CLI_HIST_N_def)
  ultimately show "cl_hist (hist_push l) ! hist_ring_index (hist_push l) 0 = cl_text l" "0 < cl_hist_count (hist_push l)"
    using assms(2,3) n lh
    by (auto simp: hist_push_def Let_def ready_cstr [OF assms(1)] ring_index_0 CLI_HIST_LEN_def)
qed

lemma hist_push_frame: "cl_buf (hist_push l) = cl_buf l" "cl_len (hist_push l) = cl_len l" "cl_echo (hist_push l) = cl_echo l"
  "cl_esc (hist_push l) = cl_esc l" "cl_browsing (hist_push l) = cl_browsing l"
  by (simp_all add: hist_push_def Let_def)

lemma start_more:
  "cl_esc (feed_start l now) = cl_esc l" "cl_hist (feed_start l now) = cl_hist l"
  "cl_hist_next (feed_start l now) = cl_hist_next l" "cl_hist_count (feed_start l now) = cl_hist_count l"
  "cl_browsing (feed_start l now) = cl_browsing l"
  by (simp_all add: feed_start_def Let_def)

text \<open>A typed line, entered and taken.\<close>

lemma enter_line:
  fixes t :: u32 and cap :: nat
  assumes "cl_ok l" "cl_echo l" "cl_esc l = 0" "\<not> cl_overflow l" "cl_text l \<noteq> []" "length (cl_text l) < CLI_HIST_LEN"
  defines "r \<equiv> cli_line_feed l 0x0D t cap"
  defines "l1 \<equiv> fst (cli_line_take (fst r))"
  shows "fst (snd r) = CLI_EVT_LINE" "snd (cli_line_take (fst r)) = cl_text l"
    "cl_ok l1" "cl_echo l1" "cl_esc l1 = 0" "\<not> cl_browsing l1" "0 < cl_hist_count l1"
    "cl_hist l1 ! hist_ring_index l1 0 = cl_text l"
proof -
  define s where "s = (feed_start l t)\<lparr>cl_last_cr := True, cl_browsing := False\<rparr>"
  have rd: "cl_ready s" using ready_start [OF assms(1), of t] by (auto simp: s_def cl_ready_def cl_ok_def cl_text_def)
  have tx: "cl_text s = cl_text l" using start_text [of l t] assms(2) by (simp add: s_def cl_text_def)
  have same_buf: "(cl_buf s)[cl_len s := 0] = cl_buf s" using rd by (simp add: cl_ready_def list_update_same_conv cl_ok_def)
  have r: "r = (hist_push s, CLI_EVT_LINE, echo_put (feed_start l t) cap [] [0x0D, 0x0A])"
    using same_buf assms(2-4) by (simp add: r_def cli_line_feed_def Let_def start_fields start_more feed_plain_def s_def echo_put_def)
  show "fst (snd r) = CLI_EVT_LINE" by (simp add: r)
  show "snd (cli_line_take (fst r)) = cl_text l"
    using same_buf ready_cstr [OF rd] tx by (simp add: r cli_line_take_def Let_def hist_push_frame)
  have "cl_ready (hist_push s)" by (rule hist_push_ready [OF rd])
  then show "cl_ok l1" unfolding l1_def r by (simp add: take_ok cl_ready_def)
  show "cl_echo l1" "cl_esc l1 = 0" "\<not> cl_browsing l1"
    by (simp_all add: l1_def r cli_line_take_def Let_def hist_push_frame s_def start_fields start_more assms(2,3))
  have same: "cl_hist l1 = cl_hist (hist_push s)" "cl_hist_count l1 = cl_hist_count (hist_push s)"
    "hist_ring_index l1 0 = hist_ring_index (hist_push s) 0"
    by (simp_all add: l1_def r cli_line_take_def Let_def hist_ring_index_def)
  show "0 < cl_hist_count l1" "cl_hist l1 ! hist_ring_index l1 0 = cl_text l"
    unfolding same using push_newest [OF rd] tx assms(5,6) by simp_all
qed

text \<open>The cursor-up key, as its three bytes.\<close>

definition cursor_up :: "cli_line \<Rightarrow> u32 \<Rightarrow> nat \<Rightarrow> cli_line \<times> cli_evt \<times> u8 list" where
  "cursor_up l now cap =
     cli_line_feed (fst (cli_line_feed (fst (cli_line_feed l 0x1B now cap)) 0x5B now cap)) 0x41 now cap"

lemma cursor_up_eq:
  assumes "cl_ok l" "cl_echo l"
  obtains s where "cl_ready s" "cursor_up l now cap = (case hist_up s cap of (s', out) \<Rightarrow> (s', CLI_EVT_NONE, out))"
    "cl_browsing s = cl_browsing l" "cl_hist_count s = cl_hist_count l" "cl_hist s = cl_hist l"
    "hist_ring_index s 0 = hist_ring_index l 0" "cl_overflow s = cl_overflow l" "cl_echo s"
proof -
  define a where "a = (feed_start l now)\<lparr>cl_esc := 1\<rparr>"
  define b where "b = (feed_start a now)\<lparr>cl_esc := 2\<rparr>"
  define s where "s = (feed_start b now)\<lparr>cl_esc := 0\<rparr>"
  have a: "cl_ok a" using ready_start [OF assms(1), of now] by (simp add: a_def cl_ready_def cl_ok_def cl_text_def)
  have b: "cl_ok b" using ready_start [OF a, of now] by (simp add: b_def cl_ready_def cl_ok_def cl_text_def)
  have s: "cl_ready s" using ready_start [OF b, of now] by (simp add: s_def cl_ready_def cl_ok_def cl_text_def)
  have "cli_line_feed l 0x1B now cap = (a, CLI_EVT_NONE, [])"
    by (simp add: cli_line_feed_def Let_def start_fields a_def assms(2))
  moreover have "cli_line_feed a 0x5B now cap = (b, CLI_EVT_NONE, [])"
    by (simp add: cli_line_feed_def Let_def start_fields start_more b_def) (simp add: a_def start_fields assms(2))
  moreover have "cli_line_feed b 0x41 now cap = (case hist_up s cap of (s', out) \<Rightarrow> (s', CLI_EVT_NONE, out))"
    by (simp add: cli_line_feed_def Let_def start_fields start_more s_def)
      (simp add: b_def a_def start_fields start_more assms(2))
  ultimately have "cursor_up l now cap = (case hist_up s cap of (s', out) \<Rightarrow> (s', CLI_EVT_NONE, out))"
    by (simp add: cursor_up_def)
  with s show thesis
    by (rule that) (simp_all add: s_def b_def a_def start_fields start_more hist_ring_index_def assms(2))
qed

lemma take_append_parts: "take n a @ take (n - length (take n a)) b = take n (a @ b)"
  by (simp add: min_def)

lemma hist_echo_eq:
  "cl_echo l \<Longrightarrow> hist_echo l cap = take cap ([0x0D, 0x1B, 0x5B, 0x32] @ cl_text l)"
  unfolding hist_echo_def echo_put_def cl_text_def
  by (simp only: simp_thms if_False append_Nil list.size diff_zero take_append_parts)

lemma recall_newest:
  assumes "cl_ok l" "cl_echo l" "\<not> cl_browsing l" "0 < cl_hist_count l" "cl_hist l ! hist_ring_index l 0 = tx"
  shows "cl_ready (fst (cursor_up l now cap))" "cl_text (fst (cursor_up l now cap)) = tx"
    "snd (snd (cursor_up l now cap)) = take cap ([0x0D, 0x1B, 0x5B, 0x32] @ tx)"
    "cl_overflow (fst (cursor_up l now cap)) = cl_overflow l"
proof -
  obtain s where s: "cl_ready s" "cursor_up l now cap = (case hist_up s cap of (s', out) \<Rightarrow> (s', CLI_EVT_NONE, out))"
    "cl_browsing s = cl_browsing l" "cl_hist_count s = cl_hist_count l" "cl_hist s = cl_hist l"
    "hist_ring_index s 0 = hist_ring_index l 0" "cl_overflow s = cl_overflow l" "cl_echo s"
    using cursor_up_eq [OF assms(1,2)] by blast
  define u where "u = s\<lparr>cl_saved := take (cl_len s) (cl_buf s), cl_browsing := True, cl_hist_pos := 0\<rparr>"
  have u: "cl_ready u" using s(1,4) assms(4) by (auto simp: u_def cl_ready_def cl_ok_def cl_text_def)
  have iu: "cl_hist u ! hist_ring_index u 0 = tx" using s(5,6) assms(5) by (simp add: u_def hist_ring_index_def)
  have h: "hist_up s cap = (hist_load u 0, hist_echo (hist_load u 0) cap)"
    using s(3,4) assms(3,4) by (simp add: hist_up_def Let_def u_def)
  note l = hist_load_ready [OF u, of 0]
  show "cl_ready (fst (cursor_up l now cap))" "cl_text (fst (cursor_up l now cap)) = tx"
    using l iu by (simp_all add: s(2) h)
  have "cl_echo (hist_load u 0)" "cl_overflow (hist_load u 0) = cl_overflow l"
    using s(7,8) by (simp_all add: hist_load_def Let_def u_def)
  then show "snd (snd (cursor_up l now cap)) = take cap ([0x0D, 0x1B, 0x5B, 0x32] @ tx)"
    "cl_overflow (fst (cursor_up l now cap)) = cl_overflow l"
    using l(2) iu by (simp_all add: s(2) h hist_echo_eq)
qed

section \<open>A discarded line still counts as too long\<close>

lemma stale_keeps_overflow:
  assumes "cl_ok l" "\<not> cl_echo l" "cl_len l > 0" "now - cl_last_ms l > STALE_MS" "cl_overflow l" "printable b"
  shows "cl_abs (fst (cli_line_feed l b now cap)) = ([b], True)" "\<not> cl_echo (fst (cli_line_feed l b now cap))"
    "cl_last_ms (fst (cli_line_feed l b now cap)) = now" "cl_ok (fst (cli_line_feed l b now cap))"
proof -
  have b: "b \<noteq> 0x0D" "b \<noteq> 0x0A" "b \<noteq> 0x03" "b \<noteq> 0x08" "b \<noteq> 0x7F" using assms(6) by (auto simp: printable_def)
  have "cl_abs (feed_start l now) = ([], True)"
    using assms(2-5) by (simp add: cl_abs_def feed_start_def Let_def cl_text_def)
  moreover have f: "cli_line_feed l b now cap = feed_plain (cl_last_cr l) (feed_start l now) b cap"
    by (simp add: cli_line_feed_def Let_def start_fields assms(2))
  ultimately show "cl_abs (fst (cli_line_feed l b now cap)) = ([b], True)"
    "\<not> cl_echo (fst (cli_line_feed l b now cap))" "cl_last_ms (fst (cli_line_feed l b now cap)) = now"
    using plain_edit [OF ready_start [OF assms(1)] b(1,2)] assms(2,6) b
    by (simp_all add: edit_ref_def start_fields CLI_LINE_MAX_def)
  show "cl_ok (fst (cli_line_feed l b now cap))" using feed_ok [OF assms(1)] by (simp add: cl_ready_def)
qed

section \<open>Properties\<close>

text \<open>Human mode with two characters typed.\<close>

definition typed_ab :: cli_line where
  "typed_ab = (cli_line_init True)\<lparr>cl_buf := [0x41, 0x42] @ replicate 190 0, cl_len := 2\<rparr>"

lemma typed_ab_facts: "cl_ok typed_ab" "cl_echo typed_ab" "cl_esc typed_ab = 0" "\<not> cl_overflow typed_ab"
  "cl_text typed_ab = [0x41, 0x42]"
  by (simp_all add: typed_ab_def cl_ok_def cli_line_init_def cl_text_def cli_consts printable_def nth_append)

text \<open>Machine mode, a line of which the end did not fit.\<close>

definition overlong :: cli_line where
  "overlong = (cli_line_init False)\<lparr>cl_buf := replicate 191 0x41 @ [0], cl_len := 191, cl_overflow := True\<rparr>"

lemma overlong_facts: "cl_ok overlong" "\<not> cl_echo overlong" "cl_len overlong = 191" "cl_overflow overlong" "cl_last_ms overlong = 0"
  by (simp_all add: overlong_def cl_ok_def cli_line_init_def cl_text_def cli_consts printable_def nth_append)

text \<open>When the idle timeout of machine mode discards an overlong partial line, the overflow flag stays: a one-character line sent next, which a fresh editor would deliver, is answered with too long and lost.\<close>

lemma discarded_line_spoils_the_next:
  assumes "cl_ok l" "\<not> cl_echo l" "cl_len l > 0" "now - cl_last_ms l > STALE_MS" "cl_overflow l" "printable b"
    "now' - now \<le> STALE_MS"
  shows "let r = cli_line_feed (fst (cli_line_feed l b now cap)) 0x0D now' cap in
    edit_ref ([], False) b = ([b], False) \<and> fst (snd r) = CLI_EVT_TOO_LONG \<and> cl_text (fst r) = []"
proof -
  note s = stale_keeps_overflow [OF assms(1-6), of cap]
  have h: "cl_len (fst (cli_line_feed l b now cap)) = 0 \<or> now' - cl_last_ms (fst (cli_line_feed l b now cap)) \<le> STALE_MS"
    using assms(7) s(3) by simp
  have b: "b \<noteq> 0x03" "b \<noteq> 0x08" "b \<noteq> 0x7F" using assms(6) by (auto simp: printable_def)
  show ?thesis
    unfolding Let_def using feed_cr(1,3) [OF s(4,2) h, of cap] s(1) b assms(6)
    by (simp add: cl_abs_def edit_ref_def CLI_LINE_MAX_def)
qed

lemma discarded_line_spoils_the_next_witness:
  \<open>fst (snd (cli_line_feed (fst (cli_line_feed overlong 0x47 30001 64)) 0x0D 30002 64)) = CLI_EVT_TOO_LONG\<close>
proof -
  have a: "cl_len overlong > 0" "(30001 :: u32) - cl_last_ms overlong > STALE_MS" "printable 0x47" "(30002 :: u32) - 30001 \<le> STALE_MS"
    by (simp_all add: overlong_facts STALE_MS_def printable_def)
  from discarded_line_spoils_the_next [OF overlong_facts(1,2) a(1,2) overlong_facts(4) a(3,4), of 64]
  show ?thesis by (simp add: Let_def)
qed

text \<open>The echo of a recall is ESC [ 2 without the K that would erase the line: the length passed for the sequence is one short, so that a terminal takes the first character of the recalled line as the end of the control sequence.\<close>

lemma recall_does_not_erase_the_line:
  assumes "cl_ok l" "cl_echo l" "\<not> cl_browsing l" "0 < cl_hist_count l"
  shows "snd (snd (cursor_up l now cap)) = take cap ([0x0D, 0x1B, 0x5B, 0x32] @ cl_hist l ! hist_ring_index l 0)"
  using recall_newest(3) [OF assms refl] .

lemma recall_does_not_erase_the_line_witness:
  \<open>snd (snd (cursor_up (typed_ab\<lparr>cl_hist := replicate 10 [0x53], cl_hist_count := 10\<rparr>) 0 64)) = [0x0D, 0x1B, 0x5B, 0x32, 0x53]\<close>
  by (subst recall_does_not_erase_the_line)
    (simp_all add: typed_ab_def cl_ok_def cli_line_init_def cl_text_def cli_consts printable_def nth_append hist_ring_index_def)

text \<open>In human mode a line of at most 95 characters is reported, taken as typed, and the cursor-up key then brings exactly that line back into the edit buffer.\<close>

lemma entered_line_is_recalled:
  assumes "cl_ok l" "cl_echo l" "cl_esc l = 0" "\<not> cl_overflow l" "cl_text l \<noteq> []" "length (cl_text l) < CLI_HIST_LEN"
  shows "let r = cli_line_feed l 0x0D t cap; l1 = fst (cli_line_take (fst r)) in
    fst (snd r) = CLI_EVT_LINE \<and> snd (cli_line_take (fst r)) = cl_text l \<and> cl_text (fst (cursor_up l1 t' cap')) = cl_text l"
proof -
  note e = enter_line [OF assms, of t cap]
  show ?thesis unfolding Let_def using e(1,2) recall_newest(2) [OF e(3,4,6,7,8)] by blast
qed

lemma entered_line_is_recalled_witness:
  \<open>cl_text (fst (cursor_up (fst (cli_line_take (fst (cli_line_feed typed_ab 0x0D 0 64)))) 5 64)) = [0x41, 0x42]\<close>
  using entered_line_is_recalled [OF typed_ab_facts(1-4), of 0 64 5 64] typed_ab_facts(5)
  by (simp add: Let_def CLI_HIST_LEN_def)

text \<open>Whatever bytes arrive, with lines taken and modes switched at any time, the edit position, the history indices and the saved line stay inside their arrays, what they hold is printable, and the edit buffer is terminated.\<close>

lemma line_editor_stays_in_bounds:
  \<open>cl_ok (fst (run_steps cli_step (cli_line_init echo) es))\<close>
  by (rule cli.run_keeps) (rule init_ok)

text \<open>C38. In machine mode, for any bytes before a CR with no pause beyond the idle timeout, the end of the line is reported as a line or as too long exactly as a plain list editor (append, delete, clear, sticky overflow at 191 characters) says; the line taken is its text, and the editor is empty again.\<close>

lemma machine_line_is_the_edited_one:
  fixes cap :: nat
  assumes "cl_ok l" "\<not> cl_echo l" "cl_abs l = ([], False)" "steady (cl_last_ms l) es"
    "now - last (cl_last_ms l # map snd es) \<le> STALE_MS" "foldl edit_ref ([], False) (map fst es) = (s, ov)"
  defines "r \<equiv> cli_line_feed (feed_all cap l es) 0x0D now cap"
  shows "fst (snd r) = (if ov then CLI_EVT_TOO_LONG else CLI_EVT_LINE) \<and>
    (\<not> ov \<longrightarrow> snd (cli_line_take (fst r)) = s) \<and> cl_abs (fst (cli_line_take (fst r))) = ([], False)"
  using machine_line [OF assms(1-6), of cap] by (simp add: r_def)

lemma machine_line_is_the_edited_one_witness:
  \<open>snd (cli_line_take (fst (cli_line_feed (feed_all 64 (cli_line_init False) [(0x47, 5), (0x48, 6), (0x08, 7), (0x4F, 8)]) 0x0D 9 64))) =
     [0x47, 0x4F]\<close>
proof -
  from machine_line_is_the_edited_one [OF init_ok [of False], of "[(0x47, 5), (0x48, 6), (0x08, 7), (0x4F, 8)]" 9 "[0x47, 0x4F]" False 64]
  show ?thesis
    by (simp add: cl_abs_def cl_text_def cli_line_init_def STALE_MS_def edit_ref_def printable_def CLI_LINE_MAX_def)
qed

end
