(* ===== verification/Notify.thy ===== *)
theory Notify
  imports C_Text
begin

text \<open>
  \<^verbatim>\<open>components/notify/notify.c\<close>: the notification lines, their per-type rate limit and
  the sinks that receive them. The formatted payload of a line is an input; a sink is known by
  its place in the table. Shown: a type's name is parsed back; the line has the fixed shape
  within its buffer; between two lines of one type and index lies at least the interval of
  the type.
\<close>

definition NTF_COUNT :: nat where "NTF_COUNT = 11"
definition NTF_LINE_MAX :: nat where "NTF_LINE_MAX = 128"
definition NTF_MAX_SINKS :: nat where "NTF_MAX_SINKS = 3"
definition NTF_NEVER :: u32 where "NTF_NEVER = 0xFFFFFFFF"
definition NTF_IDX_N :: nat where "NTF_IDX_N = 8"

definition NTF_BOOT :: nat where "NTF_BOOT = 0"
definition NTF_ALARM :: nat where "NTF_ALARM = 1"
definition NTF_SAFE :: nat where "NTF_SAFE = 2"
definition NTF_NODE :: nat where "NTF_NODE = 3"
definition NTF_RING :: nat where "NTF_RING = 4"
definition NTF_FW :: nat where "NTF_FW = 8"
definition NTF_CMD :: nat where "NTF_CMD = 9"
definition NTF_WIFI :: nat where "NTF_WIFI = 10"

lemmas ntf_types = NTF_BOOT_def NTF_FW_def NTF_CMD_def NTF_WIFI_def

definition NTF_MASK :: "nat \<Rightarrow> u16" where
  "NTF_MASK t = push_bit t 1"

definition s_interval_ms :: "u32 list" where
  "s_interval_ms = [NTF_NEVER, 1000, 0, 0, 2000, 0, 1000, 60000, 0, 200, 2000]"

definition s_type_name :: "string list" where
  "s_type_name = [''BOOT'', ''ALARM'', ''SAFE'', ''NODE'', ''RING'', ''WATER'', ''LIGHT'', ''SOIL'', ''FW'',
     ''CMD'', ''WIFI'']"

record ntf_state =
  nt_node_id :: u8
  nt_sinks :: "u16 list"        \<comment> \<open>the masks of the registered sinks\<close>
  nt_last_ms :: "u32 list list"

definition notify_init :: "u8 \<Rightarrow> ntf_state" where
  "notify_init node = \<lparr>nt_node_id = node, nt_sinks = [],
     nt_last_ms = replicate NTF_COUNT (replicate NTF_IDX_N NTF_NEVER)\<rparr>"

definition notify_set_node_id :: "ntf_state \<Rightarrow> u8 \<Rightarrow> ntf_state" where
  "notify_set_node_id s node = s\<lparr>nt_node_id := node\<rparr>"

definition notify_add_sink :: "ntf_state \<Rightarrow> u16 \<Rightarrow> ntf_state \<times> nat option" where
  "notify_add_sink s m =
     (if length (nt_sinks s) \<ge> NTF_MAX_SINKS then (s, None)
      else (s\<lparr>nt_sinks := nt_sinks s @ [m]\<rparr>, Some (length (nt_sinks s))))"

definition notify_set_sink_mask :: "ntf_state \<Rightarrow> int \<Rightarrow> u16 \<Rightarrow> ntf_state" where
  "notify_set_sink_mask s sink m =
     (if sink < 0 \<or> sink \<ge> int (length (nt_sinks s)) then s else s\<lparr>nt_sinks := (nt_sinks s)[nat sink := m]\<rparr>)"

definition notify_sink_mask :: "ntf_state \<Rightarrow> int \<Rightarrow> u16" where
  "notify_sink_mask s sink =
     (if sink < 0 \<or> sink \<ge> int (length (nt_sinks s)) then 0 else nt_sinks s ! nat sink)"

definition notify_parse :: "string \<Rightarrow> nat option" where
  "notify_parse name = (if ci_eq name ''ALL'' then Some NTF_COUNT else first_idx (ci_eq name) s_type_name)"

definition notify_type_name :: "nat \<Rightarrow> string" where
  "notify_type_name t = (if t \<ge> NTF_COUNT then ''?'' else s_type_name ! t)"

text \<open>The line: the formatted text cut to the buffer, the newline put at its end or forced into it.\<close>

definition ntf_line :: "nat \<Rightarrow> u8 \<Rightarrow> string \<Rightarrow> string" where
  "ntf_line t node body =
     (let line = take (NTF_LINE_MAX - 1) (''NOTIFY '' @ s_type_name ! t @ '' '' @ show_dec (unat node) @ '' '' @ body)
      in if length line \<ge> NTF_LINE_MAX - 1 then take (NTF_LINE_MAX - 2) line @ [CHR 0x0A] else line @ [CHR 0x0A])"

definition idx_of :: "u8 \<Rightarrow> nat" where
  "idx_of idx = (if idx > 7 then 7 else unat idx)"

definition last_ms :: "ntf_state \<Rightarrow> nat \<Rightarrow> nat \<Rightarrow> u32" where
  "last_ms s t i = nt_last_ms s ! t ! i"

definition set_last_ms :: "ntf_state \<Rightarrow> nat \<Rightarrow> nat \<Rightarrow> u32 \<Rightarrow> ntf_state" where
  "set_last_ms s t i v = s\<lparr>nt_last_ms := (nt_last_ms s)[t := (nt_last_ms s ! t)[i := v]]\<rparr>"

text \<open>\<open>emit_v\<close>: the line and the sinks that get it, unless the limit holds it back.\<close>

definition emit_v :: "ntf_state \<Rightarrow> nat \<Rightarrow> u8 \<Rightarrow> u8 \<Rightarrow> u32 \<Rightarrow> string \<Rightarrow> ntf_state \<times> (string \<times> nat list) option" where
  "emit_v s t idx node now body =
     (let i = idx_of idx; prev = last_ms s t i in
      if prev \<noteq> NTF_NEVER \<and> now - prev < s_interval_ms ! t then (s, None)
      else (set_last_ms s t i now,
            Some (ntf_line t node body, filter (\<lambda>k. nt_sinks s ! k AND NTF_MASK t \<noteq> 0) [0 ..< length (nt_sinks s)])))"

definition notify_emit :: "ntf_state \<Rightarrow> nat \<Rightarrow> u8 \<Rightarrow> u32 \<Rightarrow> string \<Rightarrow> ntf_state \<times> (string \<times> nat list) option" where
  "notify_emit s t idx now body = emit_v s t idx (nt_node_id s) now body"

definition notify_emit_as :: "ntf_state \<Rightarrow> u8 \<Rightarrow> nat \<Rightarrow> u8 \<Rightarrow> u32 \<Rightarrow> string \<Rightarrow> ntf_state \<times> (string \<times> nat list) option" where
  "notify_emit_as s node t idx now body = emit_v s t idx node now body"

definition notify_reset :: "ntf_state \<Rightarrow> nat \<Rightarrow> u8 \<Rightarrow> ntf_state" where
  "notify_reset s t idx = (if t \<ge> NTF_COUNT then s else set_last_ms s t (idx_of idx) NTF_NEVER)"

section \<open>Names and lines\<close>

lemma name_facts:
  "t < NTF_COUNT \<Longrightarrow> notify_parse (s_type_name ! t) = Some t \<and> s_type_name ! t \<noteq> [] \<and> length (s_type_name ! t) < 6 \<and>
     (\<forall>c \<in> set (s_type_name ! t). c \<noteq> CHR '' '' \<and> is_alpha c)"
proof -
  have "list_all (\<lambda>t. notify_parse (s_type_name ! t) = Some t \<and> s_type_name ! t \<noteq> [] \<and> length (s_type_name ! t) < 6 \<and>
      list_all (\<lambda>c. c \<noteq> CHR '' '' \<and> is_alpha c) (s_type_name ! t)) [0 ..< NTF_COUNT]"
    by code_simp
  then show "t < NTF_COUNT \<Longrightarrow> ?thesis" by (auto simp: list_all_iff)
qed

lemma notify_parse_name: "t < NTF_COUNT \<Longrightarrow> notify_parse (notify_type_name t) = Some t"
  by (simp add: notify_type_name_def name_facts)

lemma length_show_dec_u8: "length (show_dec (unat (node :: u8))) \<le> 3"
proof -
  have "length (show_dec n) \<le> 3" if "n < 1000" for n
  proof -
    have "n div 10 div 10 < 10" using that by simp
    then show ?thesis by (subst show_dec_rec, subst show_dec_rec, subst show_dec_rec) simp
  qed
  from this [of "unat node"] show ?thesis using unat_u8_less [of node] by simp
qed

lemma ntf_line_fits:
  assumes "t < NTF_COUNT" "length body \<le> 109"
  shows "ntf_line t node body = ''NOTIFY '' @ s_type_name ! t @ '' '' @ show_dec (unat node) @ '' '' @ body @ [CHR 0x0A]"
proof -
  have "length (''NOTIFY '' @ s_type_name ! t @ '' '' @ show_dec (unat node) @ '' '' @ body) < NTF_LINE_MAX - 1"
    using name_facts [OF assms(1)] length_show_dec_u8 [of node] assms(2) by (simp add: NTF_LINE_MAX_def)
  then show ?thesis by (simp add: ntf_line_def Let_def)
qed

lemma ntf_line_bound: "length (ntf_line t node body) < NTF_LINE_MAX" "last (ntf_line t node body) = CHR 0x0A"
proof -
  obtain l where l: "length l \<le> 127" "ntf_line t node body = (if length l \<ge> 127 then take 126 l @ [CHR 0x0A] else l @ [CHR 0x0A])"
    by (rule that [of "take 127 (''NOTIFY '' @ s_type_name ! t @ '' '' @ show_dec (unat node) @ '' '' @ body)"])
      (simp_all only: length_take ntf_line_def Let_def NTF_LINE_MAX_def, simp_all)
  then show "length (ntf_line t node body) < NTF_LINE_MAX" "last (ntf_line t node body) = CHR 0x0A"
    by (simp_all add: NTF_LINE_MAX_def)
qed

section \<open>The rate limit\<close>

definition ntf_ok :: "ntf_state \<Rightarrow> bool" where
  "ntf_ok s \<longleftrightarrow> length (nt_last_ms s) = NTF_COUNT \<and> (\<forall>r \<in> set (nt_last_ms s). length r = NTF_IDX_N) \<and>
     length (nt_sinks s) \<le> NTF_MAX_SINKS"

lemma ntf_ok_init: "ntf_ok (notify_init node)"
  by (simp add: ntf_ok_def notify_init_def)

lemma idx_of_less: "idx_of i < NTF_IDX_N"
  by (auto simp: idx_of_def NTF_IDX_N_def not_less word_le_nat_alt)

lemma set_last_ok: "ntf_ok s \<Longrightarrow> ntf_ok (set_last_ms s t i v)"
  by (cases "t < NTF_COUNT") (auto simp: ntf_ok_def set_last_ms_def list_update_beyond dest!: set_update_subset_insert [THEN subsetD])

lemma last_set_last:
  assumes "ntf_ok s" "t < NTF_COUNT" "i < NTF_IDX_N"
  shows "last_ms (set_last_ms s t i v) t' i' = (if t' = t \<and> i' = i then v else last_ms s t' i')"
  using assms by (auto simp: ntf_ok_def last_ms_def set_last_ms_def nth_list_update)

text \<open>An emission, as the caller's arguments and the clock.\<close>

datatype ntf_call = NtfCall nat u8 u8 u32 string

fun ntf_step :: "ntf_state \<Rightarrow> ntf_call \<Rightarrow> ntf_state \<times> (string \<times> nat list) option" where
  "ntf_step s (NtfCall t idx node now body) = notify_emit_as s node t idx now body"

text \<open>The times at which lines of one type and index went out.\<close>

fun sent_at :: "nat \<Rightarrow> nat \<Rightarrow> ntf_call list \<Rightarrow> (string \<times> nat list) option list \<Rightarrow> u32 list" where
  "sent_at t i (NtfCall t' idx node now body # cs) (out # outs) =
     (if t' = t \<and> idx_of idx = i \<and> out \<noteq> None then now # sent_at t i cs outs else sent_at t i cs outs)"
| "sent_at t i cs outs = []"

definition spaced :: "nat \<Rightarrow> u32 \<Rightarrow> u32 \<Rightarrow> bool" where
  "spaced t a b \<longleftrightarrow> a = NTF_NEVER \<or> b - a \<ge> s_interval_ms ! t"

lemma emit_facts:
  assumes "ntf_ok s" "t' < NTF_COUNT"
  shows "ntf_ok (fst (emit_v s t' idx node now body))"
    "last_ms (fst (emit_v s t' idx node now body)) t i =
       (if t' = t \<and> idx_of idx = i \<and> snd (emit_v s t' idx node now body) \<noteq> None then now else last_ms s t i)"
    "snd (emit_v s t' idx node now body) \<noteq> None \<longleftrightarrow> spaced t' (last_ms s t' (idx_of idx)) now"
  using assms set_last_ok last_set_last [OF assms idx_of_less]
  by (auto simp: emit_v_def Let_def spaced_def not_less)

lemma sent_spaced:
  assumes "ntf_ok s" "\<forall>c \<in> set cs. \<forall>t idx node now body. c = NtfCall t idx node now body \<longrightarrow> t < NTF_COUNT"
  shows "successively (spaced t) (last_ms s t i # sent_at t i cs (snd (run_steps ntf_step s cs)))"
  using assms
proof (induction cs arbitrary: s)
  case (Cons c cs)
  obtain t' idx node now body where c: "c = NtfCall t' idx node now body" by (cases c)
  let ?e = "emit_v s t' idx node now body"
  have t': "t' < NTF_COUNT" using Cons.prems(2) c by simp
  note f = emit_facts [OF Cons.prems(1) t', of idx node now body]
  have IH: "successively (spaced t) (last_ms (fst ?e) t i # sent_at t i cs (snd (run_steps ntf_step (fst ?e) cs)))"
    by (rule Cons.IH [OF f(1)]) (use Cons.prems(2) in simp)
  show ?case
  proof (cases "t' = t \<and> idx_of idx = i")
    case True
    with IH f(2) [of t i] f(3) show ?thesis by (auto simp: c notify_emit_as_def)
  next
    case False
    with IH f(2) [of t i] show ?thesis by (auto simp: c notify_emit_as_def)
  qed
qed (simp add: run_steps.simps)

section \<open>The relay of a zone's line\<close>

text \<open>
  \<open>handle_notify_frame\<close> of \<^verbatim>\<open>components/node_mgr/node_mgr.c\<close>: the line in a NOTIFY
  frame is split into type, node and rest, and emitted again as the node. \<open>None\<close> is a line
  that is not relayed.
\<close>

definition strip_newline :: "string \<Rightarrow> string" where
  "strip_newline s = (if s \<noteq> [] \<and> last s = CHR 0x0A then butlast s else s)"

definition relay_split :: "string \<Rightarrow> (string \<times> string \<times> string) option" where
  "relay_split line =
     (let buf = strip_newline line;
          p = (if take 7 buf = ''NOTIFY '' then drop 7 buf else buf);
          ty = takeWhile (\<lambda>c. c \<noteq> CHR '' '') p; q = dropWhile (\<lambda>c. c \<noteq> CHR '' '') p
      in if q = [] then None
         else
           let ident = takeWhile (\<lambda>c. c \<noteq> CHR '' '') (tl q); r = dropWhile (\<lambda>c. c \<noteq> CHR '' '') (tl q)
           in Some (ty, ident, tl r))"

definition handle_notify_frame :: "ntf_state \<Rightarrow> string \<Rightarrow> u32 \<Rightarrow> ntf_state \<times> (string \<times> nat list) option" where
  "handle_notify_frame s line now =
     (case relay_split line of
        None \<Rightarrow> (s, None)
      | Some (ty, ident, rest) \<Rightarrow>
          (case notify_parse ty of
             None \<Rightarrow> (s, None)
           | Some t \<Rightarrow>
               if t \<ge> NTF_COUNT then (s, None)
               else
                 let node = of_int (fst (strtol10 ident));
                     s = (if t = NTF_BOOT then notify_reset s NTF_BOOT node else s)
                 in notify_emit_as s node t node now rest))"

lemma split_word: "\<forall>c \<in> set a. c \<noteq> CHR '' '' \<Longrightarrow> takeWhile (\<lambda>c. c \<noteq> CHR '' '') (a @ CHR '' '' # b) = a \<and>
    dropWhile (\<lambda>c. c \<noteq> CHR '' '') (a @ CHR '' '' # b) = CHR '' '' # b"
  by (simp add: takeWhile_append2 dropWhile_append2)

lemma show_dec_no_blank: "\<forall>c \<in> set (show_dec n). c \<noteq> CHR '' ''"
  using show_dec_digits [of n] by (auto simp: is_digit_def char_code_def)

lemma strtol_show_u8: "fst (strtol10 (show_dec (unat (node :: u8)))) = int (unat node)"
proof -
  have "uint node < 2147483648" using uint_bounded [of node] by simp
  then show ?thesis using strtol_digits [of "show_dec (unat node)" "[]"] show_dec_digits [of "unat node"] by simp
qed

text \<open>A line of the zone is emitted again under its own type, node and text.\<close>

lemma relay_of_line:
  assumes "t < NTF_COUNT" "length body \<le> 109"
  shows "relay_split (ntf_line t node body) = Some (s_type_name ! t, show_dec (unat node), body)"
proof -
  have b: "strip_newline (ntf_line t node body) = ''NOTIFY '' @ s_type_name ! t @ CHR '' '' # show_dec (unat node) @ CHR '' '' # body"
    by (simp add: ntf_line_fits [OF assms] strip_newline_def butlast_append)
  have ty: "\<forall>c \<in> set (s_type_name ! t). c \<noteq> CHR '' ''" using name_facts [OF assms(1)] by blast
  show ?thesis
    by (simp add: relay_split_def b Let_def split_word [OF ty] split_word [OF show_dec_no_blank])
qed

lemma relay_emits:
  assumes "t < NTF_COUNT" "length body \<le> 109"
  shows "handle_notify_frame s (ntf_line t node body) now =
    notify_emit_as (if t = NTF_BOOT then notify_reset s NTF_BOOT node else s) node t node now body"
  using assms name_facts [OF assms(1)]
  by (simp add: handle_notify_frame_def relay_of_line strtol_show_u8 Let_def not_le [symmetric])

lemma relay_line_same:
  assumes "t < NTF_COUNT" "length body \<le> 109" "handle_notify_frame s (ntf_line t node body) now = (s', Some (line, sinks))"
  shows "line = ntf_line t node body"
  using assms(3) unfolding relay_emits [OF assms(1,2)]
  by (auto simp: notify_emit_as_def emit_v_def Let_def split: if_splits)

section \<open>Properties\<close>

text \<open>The rate limit has eight places per type and clamps the index to 7, but zones are numbered 1 to 8: a line about zone 7 silences the line about zone 8 that follows within the interval of the type.\<close>

lemma zones_7_and_8_share_a_limit:
  assumes "ntf_ok s" "t < NTF_COUNT" "snd (notify_emit_as s 7 t 7 now0 body0) \<noteq> None" "now0 \<noteq> NTF_NEVER"
    "now - now0 < s_interval_ms ! t"
  shows "snd (notify_emit_as (fst (notify_emit_as s 7 t 7 now0 body0)) 8 t 8 now body) = None"
proof -
  have i: "idx_of 7 = 7" "idx_of 8 = 7" by (simp_all add: idx_of_def)
  note f = emit_facts(1,2) [OF assms(1,2), of 7 7 now0 body0]
  have "last_ms (fst (emit_v s t 7 7 now0 body0)) t 7 = now0"
    using f(2) [of t 7] assms(3) i by (auto simp: notify_emit_as_def)
  then show ?thesis using assms(4,5) by (simp add: notify_emit_as_def emit_v_def [of "fst (emit_v s t 7 7 now0 body0)"] Let_def i)
qed

lemma zones_7_and_8_share_a_limit_witness:
  \<open>snd (notify_emit_as (fst (notify_emit_as (notify_init 0) 7 1 7 0 ''F_A'')) 8 1 8 500 ''F_PUMP'') = None\<close>
  by (rule zones_7_and_8_share_a_limit [OF ntf_ok_init])
    (simp_all add: NTF_COUNT_def notify_emit_as_def emit_v_def Let_def NTF_NEVER_def s_interval_ms_def last_ms_def
      notify_init_def idx_of_def NTF_IDX_N_def)

text \<open>However often a notification is asked for, two consecutive lines of one type and index that go out are at least the interval of the type apart (a line sent at the one clock value used as the never mark excepted).\<close>

lemma lines_are_spaced:
  assumes "\<forall>c \<in> set cs. \<forall>t idx node now body. c = NtfCall t idx node now body \<longrightarrow> t < NTF_COUNT"
  shows "successively (spaced t) (sent_at t i cs (snd (run_steps ntf_step (notify_init me) cs)))"
  using sent_spaced [where s = "notify_init me" and t = t and i = i, OF ntf_ok_init assms]
  by (cases "sent_at t i cs (snd (run_steps ntf_step (notify_init me) cs))") simp_all

lemma lines_are_spaced_witness:
  \<open>successively (spaced 1) (sent_at 1 2 [NtfCall 1 2 2 5 ''F_A'', NtfCall 1 2 2 900 ''F_B'', NtfCall 1 2 2 1005 ''F_C'']
     (snd (run_steps ntf_step (notify_init 0) [NtfCall 1 2 2 5 ''F_A'', NtfCall 1 2 2 900 ''F_B'', NtfCall 1 2 2 1005 ''F_C''])))\<close>
  by (rule lines_are_spaced) (simp add: NTF_COUNT_def)

end
