(* ===== verification/Alarm_Mgr.thy ===== *)
theory Alarm_Mgr
  imports Notify
begin

text \<open>
  \<^verbatim>\<open>components/alarm_mgr/alarm_mgr.c\<close>: a sink of notification lines that keeps the last
  64 lines and derives from them the set of active alarms, one per type and node. A line is
  taken apart by the same scans as in the C; texts are cut as its arrays cut them. Shown: the
  slot table is a finite map updated as the lines say; a copy lists the last lines newest
  first; a reader that copies one event at a time never gets a wrong one; what \<open>notify\<close> emits
  is what the log records.
\<close>

section \<open>State\<close>

definition AM_EVENTS :: nat where "AM_EVENTS = 64"
definition AM_ACTIVE_MAX :: nat where "AM_ACTIVE_MAX = 16"
definition AM_KEY_MAX :: nat where "AM_KEY_MAX = 16"
definition AM_TEXT_MAX :: nat where "AM_TEXT_MAX = 72"

record am_event =
  ev_at_s :: u32
  ev_type :: u8
  ev_node :: u8
  ev_text :: string

record am_active =
  ac_used :: bool
  ac_key :: string
  ac_text :: string
  ac_since_s :: u32

record alarm_mgr =
  am_ring :: "am_event list"
  am_total :: u32
  am_slots :: "am_active list"

definition am_event_zero :: am_event where
  "am_event_zero = \<lparr>ev_at_s = 0, ev_type = 0, ev_node = 0, ev_text = []\<rparr>"

definition am_active_zero :: am_active where
  "am_active_zero = \<lparr>ac_used = False, ac_key = [], ac_text = [], ac_since_s = 0\<rparr>"

definition alarm_mgr_init :: alarm_mgr where
  "alarm_mgr_init = \<lparr>am_ring = replicate AM_EVENTS am_event_zero, am_total = 0,
     am_slots = replicate AM_ACTIVE_MAX am_active_zero\<rparr>"

section \<open>Words\<close>

definition ACT_WORDS :: "string list" where
  "ACT_WORDS = [''DEGRADED'', ''OFFLINE'', ''OPEN'', ''UPDATING'', ''FAILED'', ''UPDATE_FAILED'',
     ''CFG_SYNC_FAILED'', ''CFG_FORK'', ''ID_CONFLICT'', ''SAFE'']"

definition CLR_WORDS :: "string list" where
  "CLR_WORDS = [''ONLINE'', ''CLOSED'', ''DONE'', ''OK'', ''CLEARED'', ''TRIAL'', ''PASS'']"

text \<open>A copy into an array of \<open>cap\<close> bytes, with its terminator.\<close>

definition bcopy_trunc :: "nat \<Rightarrow> string \<Rightarrow> string" where
  "bcopy_trunc cap s = take (cap - 1) s"

definition is_activate_word :: "string \<Rightarrow> bool" where
  "is_activate_word w \<longleftrightarrow> (length w \<ge> 2 \<and> (take 2 w = ''W_'' \<or> take 2 w = ''F_'')) \<or> w \<in> set ACT_WORDS"

definition is_clear_word :: "string \<Rightarrow> bool" where
  "is_clear_word w \<longleftrightarrow> w \<in> set CLR_WORDS"

text \<open>The word at the start of a text, and what follows it.\<close>

definition next_word :: "string \<Rightarrow> string \<times> string" where
  "next_word p = (takeWhile (\<lambda>c. c \<noteq> CHR '' '') p, dropWhile (\<lambda>c. c \<noteq> CHR '' '') p)"

definition parse_u8_word :: "string \<Rightarrow> nat option" where
  "parse_u8_word w =
     (if w = [] \<or> length w > 3 \<or> \<not> list_all is_digit w then None
      else if dec_value w > 255 then None else Some (nat (dec_value w)))"

section \<open>The active set\<close>

definition active_upsert :: "am_active list \<Rightarrow> string \<Rightarrow> string \<Rightarrow> u32 \<Rightarrow> am_active list" where
  "active_upsert slots key tx now =
     (case first_idx (\<lambda>a. ac_used a \<and> ac_key a = key) slots of
        Some i \<Rightarrow> slots[i := (slots ! i)\<lparr>ac_text := bcopy_trunc AM_TEXT_MAX tx\<rparr>]
      | None \<Rightarrow>
          (case first_idx (\<lambda>a. \<not> ac_used a) slots of
             None \<Rightarrow> slots
           | Some i \<Rightarrow> slots[i := \<lparr>ac_used = True, ac_key = bcopy_trunc AM_KEY_MAX key,
                         ac_text = bcopy_trunc AM_TEXT_MAX tx, ac_since_s = now\<rparr>]))"

definition active_clear :: "am_active list \<Rightarrow> string \<Rightarrow> am_active list" where
  "active_clear slots key =
     (case first_idx (\<lambda>a. ac_used a \<and> ac_key a = key) slots of
        None \<Rightarrow> slots
      | Some i \<Rightarrow> slots[i := (slots ! i)\<lparr>ac_used := False\<rparr>])"

section \<open>The sink\<close>

text \<open>The line in its work buffer of 160 bytes, without the line ends.\<close>

definition work_line :: "string \<Rightarrow> string" where
  "work_line line = rev (dropWhile (\<lambda>c. c = CHR 0x0A \<or> c = CHR 0x0D) (rev (take 159 line)))"

text \<open>The line taken apart: type, node, rest, and the text from the type on; \<open>None\<close> is a malformed line.\<close>

definition split_line :: "string \<Rightarrow> (nat \<times> u8 \<times> string \<times> string) option" where
  "split_line line =
     (let work = work_line line in
      if take 7 work \<noteq> ''NOTIFY '' then None
      else
        let text_start = drop 7 work; (ty, p) = next_word text_start in
        if ty = [] \<or> length ty \<ge> 16 then None
        else case notify_parse ty of
          None \<Rightarrow> None
        | Some t \<Rightarrow>
            if t \<ge> NTF_COUNT \<or> p = [] then None
            else
              let (nd, q) = next_word (tl p) in
              (case parse_u8_word nd of
                 None \<Rightarrow> None
               | Some n \<Rightarrow> Some (t, of_nat n, if q = [] then q else tl q, text_start)))"

text \<open>The key and the state word: \<open>FW\<close> lines about a zone carry them after \<open>ZONE n\<close>.\<close>

definition key_and_word :: "nat \<Rightarrow> u8 \<Rightarrow> string \<Rightarrow> nat \<times> string" where
  "key_and_word t node rest =
     (let (w1, r1) = next_word rest; plain = (unat node, w1) in
      if t = NTF_FW \<and> w1 = ''ZONE'' \<and> r1 \<noteq> [] then
        let (w2, r2) = next_word (tl r1) in
        (case parse_u8_word w2 of
           None \<Rightarrow> plain
         | Some z \<Rightarrow>
             if r2 = [] then plain
             else let (w3, _) = next_word (tl r2) in if w3 \<noteq> [] then (z, w3) else plain)
      else plain)"

datatype am_action = AmNone | AmUpsert string | AmClear string

definition sink_action :: "nat \<Rightarrow> u8 \<Rightarrow> string \<Rightarrow> am_action" where
  "sink_action t node rest =
     (if t = NTF_BOOT \<or> t = NTF_CMD \<or> t = NTF_WIFI then AmNone
      else
        let (n, w) = key_and_word t node rest;
            key = take (AM_KEY_MAX - 1) (notify_type_name t @ '' '' @ show_dec n)
        in if is_activate_word w then AmUpsert key else if is_clear_word w then AmClear key else AmNone)"

text \<open>The part under the lock.\<close>

definition am_record :: "alarm_mgr \<Rightarrow> am_event \<Rightarrow> am_action \<Rightarrow> alarm_mgr" where
  "am_record m ev act =
     m\<lparr>am_ring := (am_ring m)[unat (am_total m) mod AM_EVENTS := ev], am_total := am_total m + 1,
       am_slots := (case act of AmNone \<Rightarrow> am_slots m | AmUpsert key \<Rightarrow> active_upsert (am_slots m) key (ev_text ev) (ev_at_s ev)
                    | AmClear key \<Rightarrow> active_clear (am_slots m) key)\<rparr>"

definition alarm_mgr_sink :: "alarm_mgr \<Rightarrow> string \<Rightarrow> u32 \<Rightarrow> alarm_mgr" where
  "alarm_mgr_sink m line now =
     (case split_line line of
        None \<Rightarrow> m
      | Some (t, node, rest, text_start) \<Rightarrow>
          am_record m \<lparr>ev_at_s = now, ev_type = of_nat t, ev_node = node, ev_text = bcopy_trunc AM_TEXT_MAX text_start\<rparr>
            (sink_action t node rest))"

section \<open>Readers\<close>

definition alarm_mgr_active_count :: "alarm_mgr \<Rightarrow> nat" where
  "alarm_mgr_active_count m = length (filter ac_used (am_slots m))"

definition am_kept :: "u32 \<Rightarrow> nat" where
  "am_kept tot = (if unat tot < AM_EVENTS then unat tot else AM_EVENTS)"

text \<open>\<open>alarm_mgr_copy\<close>: the active entries in slot order, the kept events newest first, the total.\<close>

definition alarm_mgr_copy :: "alarm_mgr \<Rightarrow> (string \<times> string \<times> u32) list \<times> am_event list \<times> u32" where
  "alarm_mgr_copy m =
     (map (\<lambda>a. (ac_key a, ac_text a, ac_since_s a)) (filter ac_used (am_slots m)),
      map (\<lambda>i. am_ring m ! (unat (am_total m - 1 - of_nat i) mod AM_EVENTS)) [0 ..< am_kept (am_total m)],
      am_total m)"

definition am_copy_active :: "alarm_mgr \<Rightarrow> int \<Rightarrow> (string \<times> string \<times> u32) option" where
  "am_copy_active m slot =
     (if slot < 0 \<or> slot \<ge> int AM_ACTIVE_MAX then None
      else let a = am_slots m ! nat slot in if ac_used a then Some (ac_key a, ac_text a, ac_since_s a) else None)"

text \<open>The event at place \<open>i\<close>, newest first, as of an earlier total.\<close>

definition am_copy_event :: "alarm_mgr \<Rightarrow> u32 \<Rightarrow> nat \<Rightarrow> am_event option" where
  "am_copy_event m tot i =
     (if i \<ge> am_kept tot then None
      else
        let seq = tot - 1 - of_nat i in
        if am_total m - seq \<le> of_nat AM_EVENTS then Some (am_ring m ! (unat seq mod AM_EVENTS)) else None)"

section \<open>The active set is a map\<close>

definition am_assoc :: "am_active list \<Rightarrow> (string \<times> string \<times> u32) list" where
  "am_assoc slots = map (\<lambda>a. (ac_key a, ac_text a, ac_since_s a)) (filter ac_used slots)"

definition am_map :: "am_active list \<Rightarrow> string \<rightharpoonup> string \<times> u32" where
  "am_map slots = map_of (am_assoc slots)"

definition slots_ok :: "am_active list \<Rightarrow> bool" where
  "slots_ok slots \<longleftrightarrow> length slots = AM_ACTIVE_MAX \<and> distinct (map fst (am_assoc slots))"

text \<open>What a line does to the map; a new key is dropped when all places are taken.\<close>

definition am_spec :: "(string \<rightharpoonup> string \<times> u32) \<Rightarrow> am_action \<Rightarrow> string \<Rightarrow> u32 \<Rightarrow> (string \<rightharpoonup> string \<times> u32)" where
  "am_spec M act tx now =
     (case act of
        AmNone \<Rightarrow> M
      | AmUpsert key \<Rightarrow>
          (case M key of
             Some (_, since) \<Rightarrow> M(key \<mapsto> (tx, since))
           | None \<Rightarrow> if card (dom M) < AM_ACTIVE_MAX then M(key \<mapsto> (tx, now)) else M)
      | AmClear key \<Rightarrow> M(key := None))"

lemma assoc_split:
  assumes "i < length slots"
  shows "am_assoc slots = am_assoc (take i slots) @
      (if ac_used (slots ! i) then [(ac_key (slots ! i), ac_text (slots ! i), ac_since_s (slots ! i))] else []) @
      am_assoc (drop (Suc i) slots)"
    "am_assoc (slots[i := a]) = am_assoc (take i slots) @
      (if ac_used a then [(ac_key a, ac_text a, ac_since_s a)] else []) @ am_assoc (drop (Suc i) slots)"
  by (subst id_take_nth_drop [OF assms], simp add: am_assoc_def) (simp add: am_assoc_def upd_conv_take_nth_drop [OF assms])

lemma assoc_key: "first_idx (\<lambda>a. ac_used a \<and> ac_key a = key) slots = None \<longleftrightarrow> key \<notin> fst ` set (am_assoc slots)"
  by (auto simp: first_idx_None am_assoc_def image_iff)

lemma map_key: "am_map slots key = None \<longleftrightarrow> key \<notin> fst ` set (am_assoc slots)"
  by (simp add: am_map_def map_of_eq_None_iff)

lemma map_of_middle:
  "k \<notin> fst ` set P \<Longrightarrow> map_of (P @ (k, v) # Q) = (map_of (P @ Q))(k \<mapsto> v)"
  "k \<notin> fst ` set P \<Longrightarrow> k \<notin> fst ` set Q \<Longrightarrow> map_of (P @ Q) = (map_of (P @ (k, v) # Q))(k := None)"
  by (rule ext, auto simp: map_add_def map_of_eq_None_iff [THEN iffD2] split: option.split)+

lemma card_dom_map: "slots_ok slots \<Longrightarrow> card (dom (am_map slots)) = length (am_assoc slots)"
  using distinct_card [of "map fst (am_assoc slots)"] by (simp add: am_map_def dom_map_of_conv_image_fst slots_ok_def)

lemma free_slot:
  assumes "slots_ok slots"
  shows "first_idx (\<lambda>a. \<not> ac_used a) slots = None \<longleftrightarrow> \<not> card (dom (am_map slots)) < AM_ACTIVE_MAX"
proof -
  have "length (am_assoc slots) < length slots \<longleftrightarrow> (\<exists>a \<in> set slots. \<not> ac_used a)"
    unfolding am_assoc_def length_map
  proof
    show "length (filter ac_used slots) < length slots \<Longrightarrow> \<exists>a \<in> set slots. \<not> ac_used a"
      by (metis filter_True less_irrefl)
  qed (use length_filter_less [of _ slots ac_used] in auto)
  then show ?thesis using assms by (auto simp: first_idx_None card_dom_map slots_ok_def)
qed

lemma map_of_middle_key: "k \<notin> fst ` set P \<Longrightarrow> map_of (P @ (k, v) # Q) k = Some v"
  by (auto simp: map_add_def map_of_eq_None_iff [THEN iffD2] split: option.split)

lemma upsert_refines:
  assumes "slots_ok slots" "length key < AM_KEY_MAX"
  shows "slots_ok (active_upsert slots key tx now)"
    "am_map (active_upsert slots key tx now) = am_spec (am_map slots) (AmUpsert key) (bcopy_trunc AM_TEXT_MAX tx) now"
proof -
  have "slots_ok (active_upsert slots key tx now) \<and>
    am_map (active_upsert slots key tx now) = am_spec (am_map slots) (AmUpsert key) (bcopy_trunc AM_TEXT_MAX tx) now"
  proof (cases "first_idx (\<lambda>a. ac_used a \<and> ac_key a = key) slots")
    case (Some i)
    note i = first_idx_Some [OF Some]
    define P Q where "P = am_assoc (take i slots)" and "Q = am_assoc (drop (Suc i) slots)"
    have l: "i < length slots" and u: "ac_used (slots ! i)" "ac_key (slots ! i) = key" using i by auto
    have a: "am_assoc slots = P @ (key, ac_text (slots ! i), ac_since_s (slots ! i)) # Q"
      using assoc_split(1) [OF l] u by (simp add: P_def Q_def)
    have b: "am_assoc (active_upsert slots key tx now) = P @ (key, bcopy_trunc AM_TEXT_MAX tx, ac_since_s (slots ! i)) # Q"
      using assoc_split(2) [OF l] u by (simp add: active_upsert_def Some P_def Q_def)
    have k: "key \<notin> fst ` set P" "key \<notin> fst ` set Q" using assms(1) by (auto simp: slots_ok_def a)
    have "am_map slots key = Some (ac_text (slots ! i), ac_since_s (slots ! i))"
      by (simp only: am_map_def a map_of_middle_key [OF k(1)])
    moreover have "am_map (active_upsert slots key tx now) = (am_map slots)(key \<mapsto> (bcopy_trunc AM_TEXT_MAX tx, ac_since_s (slots ! i)))"
      by (simp only: am_map_def a b map_of_middle(1) [OF k(1)] fun_upd_upd)
    moreover have "slots_ok (active_upsert slots key tx now)"
      using assms(1) by (simp add: slots_ok_def a b) (simp add: active_upsert_def Some)
    ultimately show ?thesis by (simp add: am_spec_def)
  next
    case none: None
    then have nk: "am_map slots key = None" "key \<notin> fst ` set (am_assoc slots)" by (simp_all add: assoc_key map_key)
    show ?thesis
    proof (cases "first_idx (\<lambda>a. \<not> ac_used a) slots")
      case None
      then show ?thesis using free_slot [OF assms(1)] none nk assms(1) by (simp add: active_upsert_def am_spec_def)
    next
      case (Some i)
      then have f: "card (dom (am_map slots)) < AM_ACTIVE_MAX" using free_slot [OF assms(1)] by simp
      note i = first_idx_Some [OF Some]
      define P Q where "P = am_assoc (take i slots)" and "Q = am_assoc (drop (Suc i) slots)"
      have l: "i < length slots" and u: "\<not> ac_used (slots ! i)" using i by auto
      have a: "am_assoc slots = P @ Q" using assoc_split(1) [OF l] u by (simp add: P_def Q_def)
      have k: "take (AM_KEY_MAX - 1) key = key" using assms(2) by (simp add: AM_KEY_MAX_def)
      have b: "am_assoc (active_upsert slots key tx now) = P @ (key, bcopy_trunc AM_TEXT_MAX tx, now) # Q"
        using assoc_split(2) [OF l] k by (simp add: active_upsert_def none Some P_def Q_def bcopy_trunc_def)
      have n: "key \<notin> fst ` set P" "key \<notin> fst ` set Q" using nk(2) by (auto simp: a)
      have "am_map (active_upsert slots key tx now) = (am_map slots)(key \<mapsto> (bcopy_trunc AM_TEXT_MAX tx, now))"
        by (simp only: am_map_def a b map_of_middle(1) [OF n(1)])
      moreover have "slots_ok (active_upsert slots key tx now)"
        using assms(1) n by (simp add: slots_ok_def a b) (simp add: active_upsert_def none Some)
      ultimately show ?thesis by (simp add: am_spec_def nk(1) f)
    qed
  qed
  then show "slots_ok (active_upsert slots key tx now)"
    "am_map (active_upsert slots key tx now) = am_spec (am_map slots) (AmUpsert key) (bcopy_trunc AM_TEXT_MAX tx) now"
    by simp_all
qed

lemma clear_refines:
  assumes "slots_ok slots"
  shows "slots_ok (active_clear slots key)" "am_map (active_clear slots key) = am_spec (am_map slots) (AmClear key) tx now"
proof -
  have "slots_ok (active_clear slots key) \<and> am_map (active_clear slots key) = (am_map slots)(key := None)"
  proof (cases "first_idx (\<lambda>a. ac_used a \<and> ac_key a = key) slots")
    case None
    then have "am_map slots key = None" by (simp add: assoc_key map_key)
    with None assms show ?thesis by (simp add: active_clear_def fun_upd_idem)
  next
    case (Some i)
    note i = first_idx_Some [OF Some]
    define P Q where "P = am_assoc (take i slots)" and "Q = am_assoc (drop (Suc i) slots)"
    have l: "i < length slots" and u: "ac_used (slots ! i)" "ac_key (slots ! i) = key" using i by auto
    have a: "am_assoc slots = P @ (key, ac_text (slots ! i), ac_since_s (slots ! i)) # Q"
      using assoc_split(1) [OF l] u by (simp add: P_def Q_def)
    have b: "am_assoc (active_clear slots key) = P @ Q"
      using assoc_split(2) [OF l] by (simp add: active_clear_def Some P_def Q_def)
    have k: "key \<notin> fst ` set P" "key \<notin> fst ` set Q" using assms by (auto simp: slots_ok_def a)
    show ?thesis
      using assms map_of_middle(2) [OF k] by (simp add: slots_ok_def am_map_def a b) (simp add: active_clear_def Some)
  qed
  then show "slots_ok (active_clear slots key)" "am_map (active_clear slots key) = am_spec (am_map slots) (AmClear key) tx now"
    by (simp_all add: am_spec_def)
qed

lemma slots_ok_init: "slots_ok (am_slots alarm_mgr_init)" "am_map (am_slots alarm_mgr_init) = Map.empty"
  by (simp_all add: slots_ok_def alarm_mgr_init_def am_assoc_def am_active_zero_def am_map_def)

section \<open>A line and its effect\<close>

lemma key_length: "sink_action t node rest = AmUpsert key \<or> sink_action t node rest = AmClear key \<Longrightarrow> length key < AM_KEY_MAX"
  by (auto simp: sink_action_def Let_def AM_KEY_MAX_def split: prod.splits if_splits)

text \<open>The event and the action of a well-formed line.\<close>

definition line_event :: "string \<Rightarrow> u32 \<Rightarrow> (am_event \<times> am_action) option" where
  "line_event line now =
     (case split_line line of
        None \<Rightarrow> None
      | Some (t, node, rest, text_start) \<Rightarrow>
          Some (\<lparr>ev_at_s = now, ev_type = of_nat t, ev_node = node, ev_text = bcopy_trunc AM_TEXT_MAX text_start\<rparr>,
            sink_action t node rest))"

lemma sink_eq: "alarm_mgr_sink m line now = (case line_event line now of None \<Rightarrow> m | Some (ev, act) \<Rightarrow> am_record m ev act)"
  by (simp add: alarm_mgr_sink_def line_event_def split: option.split prod.split)

lemma line_event_text: "line_event line now = Some (ev, act) \<Longrightarrow> bcopy_trunc AM_TEXT_MAX (ev_text ev) = ev_text ev \<and> ev_at_s ev = now"
  by (auto simp: line_event_def bcopy_trunc_def split: option.splits prod.splits)

lemma sink_refines:
  assumes "slots_ok (am_slots m)"
  shows "slots_ok (am_slots (alarm_mgr_sink m line now))"
    "am_map (am_slots (alarm_mgr_sink m line now)) =
       (case line_event line now of None \<Rightarrow> am_map (am_slots m) | Some (ev, act) \<Rightarrow> am_spec (am_map (am_slots m)) act (ev_text ev) now)"
proof -
  have "slots_ok (am_slots (alarm_mgr_sink m line now)) \<and>
    am_map (am_slots (alarm_mgr_sink m line now)) =
       (case line_event line now of None \<Rightarrow> am_map (am_slots m) | Some (ev, act) \<Rightarrow> am_spec (am_map (am_slots m)) act (ev_text ev) now)"
  proof (cases "line_event line now")
    case (Some e)
    obtain ev act where e: "line_event line now = Some (ev, act)" using Some by fastforce
    note tx = line_event_text [OF e]
    show ?thesis
    proof (cases act)
      case (AmUpsert key)
      then have "length key < AM_KEY_MAX"
        using e key_length by (auto simp: line_event_def split: option.splits prod.splits)
      with upsert_refines [OF assms this] tx show ?thesis by (simp add: sink_eq e am_record_def AmUpsert)
    next
      case (AmClear key)
      with clear_refines [OF assms] show ?thesis by (simp add: sink_eq e am_record_def)
    next
      case AmNone
      with assms show ?thesis by (simp add: sink_eq e am_record_def am_spec_def)
    qed
  qed (use assms in \<open>simp add: sink_eq\<close>)
  then show "slots_ok (am_slots (alarm_mgr_sink m line now))"
    "am_map (am_slots (alarm_mgr_sink m line now)) =
       (case line_event line now of None \<Rightarrow> am_map (am_slots m) | Some (ev, act) \<Rightarrow> am_spec (am_map (am_slots m)) act (ev_text ev) now)"
    by simp_all
qed

section \<open>The log\<close>

text \<open>After the events \<open>evs\<close>, each of the last 64 is in its slot.\<close>

definition log_ok :: "alarm_mgr \<Rightarrow> am_event list \<Rightarrow> bool" where
  "log_ok m evs \<longleftrightarrow> length (am_ring m) = AM_EVENTS \<and> length evs < 4294967296 \<and> am_total m = of_nat (length evs) \<and>
     (\<forall>j < length evs. length evs \<le> j + AM_EVENTS \<longrightarrow> am_ring m ! (j mod AM_EVENTS) = evs ! j)"

lemma mod_window: "n \<le> j + k \<Longrightarrow> j < n \<Longrightarrow> 0 < k \<Longrightarrow> j mod k = n mod k \<Longrightarrow> n = j + k"
  for n j k :: nat
proof -
  assume a: "n \<le> j + k" "j < n" "0 < k" "j mod k = n mod k"
  then have "k dvd n - j" by (metis less_imp_le mod_eq_dvd_iff_nat)
  with a show "n = j + k" using dvd_imp_le [of k "n - j"] by simp
qed

lemma log_record:
  assumes "log_ok m evs" "length evs + 1 < 4294967296"
  shows "log_ok (am_record m ev act) (evs @ [ev])"
proof -
  have t: "unat (am_total m) = length evs" using assms by (simp add: log_ok_def unat_of_nat_u32)
  have "am_ring (am_record m ev act) ! (j mod AM_EVENTS) = (evs @ [ev]) ! j"
    if "j < Suc (length evs)" "Suc (length evs) \<le> j + AM_EVENTS" for j
  proof (cases "j = length evs")
    case True
    have "length evs mod AM_EVENTS < length (am_ring m)" using assms(1) by (simp add: log_ok_def AM_EVENTS_def)
    with True show ?thesis by (simp add: am_record_def t)
  next
    case False
    then have j: "j < length evs" "length evs < j + AM_EVENTS" using that by auto
    then have "j mod AM_EVENTS \<noteq> length evs mod AM_EVENTS"
      using mod_window [of "length evs" j AM_EVENTS] by (auto simp: AM_EVENTS_def)
    moreover have "am_ring m ! (j mod AM_EVENTS) = evs ! j" using assms(1) j by (simp add: log_ok_def)
    ultimately show ?thesis using j by (simp add: am_record_def t nth_append)
  qed
  then show ?thesis using assms by (simp add: log_ok_def am_record_def)
qed

text \<open>The events of a list of lines.\<close>

definition events_of :: "(string \<times> u32) list \<Rightarrow> am_event list" where
  "events_of ls = concat (map (\<lambda>(line, now). case line_event line now of None \<Rightarrow> [] | Some (ev, _) \<Rightarrow> [ev]) ls)"

definition sink_all :: "alarm_mgr \<Rightarrow> (string \<times> u32) list \<Rightarrow> alarm_mgr" where
  "sink_all m ls = foldl (\<lambda>m (line, now). alarm_mgr_sink m line now) m ls"

lemma log_all:
  assumes "log_ok m evs" "length evs + length ls < 4294967296"
  shows "log_ok (sink_all m ls) (evs @ events_of ls)"
  using assms
proof (induction ls arbitrary: m evs)
  case (Cons l ls)
  obtain line now where l: "l = (line, now)" by fastforce
  define new where "new = (case line_event line now of None \<Rightarrow> [] | Some (ev, _) \<Rightarrow> [ev])"
  have new: "log_ok (alarm_mgr_sink m line now) (evs @ new) \<and> length new \<le> 1"
    using Cons.prems log_record [OF Cons.prems(1)] by (auto simp: sink_eq new_def split: option.split)
  then have "log_ok (sink_all (alarm_mgr_sink m line now) ls) ((evs @ new) @ events_of ls)"
    using Cons.prems(2) by (intro Cons.IH) auto
  then show ?case by (simp add: sink_all_def events_of_def l new_def)
qed (simp add: sink_all_def events_of_def)

lemma log_ok_init: "log_ok alarm_mgr_init []"
  by (simp add: log_ok_def alarm_mgr_init_def)

lemma seq_word: "i < n \<Longrightarrow> (of_nat n - 1 - of_nat i :: u32) = of_nat (n - 1 - i)"
proof -
  assume "i < n"
  then obtain q where n: "n = q + 1 + i" by (metis add.commute add.left_commute less_imp_Suc_add plus_1_eq_Suc)
  then show ?thesis by simp
qed

lemma unat_seq:
  assumes "n < 4294967296" "i < n"
  shows "unat (of_nat n - 1 - of_nat i :: u32) = n - 1 - i"
proof -
  have "unat (of_nat (n - 1 - i) :: u32) = n - 1 - i" using assms by (intro unat_of_nat_u32) simp
  then show ?thesis by (simp only: seq_word [OF assms(2)])
qed

lemma kept_eq: "n < 4294967296 \<Longrightarrow> am_kept (of_nat n) = min n AM_EVENTS"
  by (simp add: am_kept_def unat_of_nat_u32)

lemma copy_log:
  assumes "log_ok m evs"
  shows "fst (snd (alarm_mgr_copy m)) = take AM_EVENTS (rev evs)"
proof -
  have n: "length evs < 4294967296" and t: "am_total m = of_nat (length evs)" using assms by (simp_all add: log_ok_def)
  show ?thesis
  proof (rule nth_equalityI)
    fix i assume "i < length (fst (snd (alarm_mgr_copy m)))"
    then have i: "i < length evs" "i < AM_EVENTS" by (simp_all add: alarm_mgr_copy_def t kept_eq [OF n])
    have "am_ring m ! ((length evs - 1 - i) mod AM_EVENTS) = evs ! (length evs - 1 - i)"
      using assms i by (simp add: log_ok_def)
    then show "fst (snd (alarm_mgr_copy m)) ! i = take AM_EVENTS (rev evs) ! i"
      using i unat_seq [OF n i(1)] by (simp add: alarm_mgr_copy_def t kept_eq [OF n] rev_nth)
  qed (simp add: alarm_mgr_copy_def t kept_eq [OF n] min.commute)
qed

text \<open>A reader that noted the total after \<open>evs\<close>, when \<open>newer\<close> have come since.\<close>

lemma copy_event_log:
  assumes "log_ok m (evs @ newer)"
  shows "am_copy_event m (of_nat (length evs)) i =
    (if i < length evs \<and> i + length newer < AM_EVENTS then Some (rev evs ! i) else None)"
proof -
  let ?N = "length evs + length newer"
  have N: "?N < 4294967296" and t: "am_total m = of_nat ?N" using assms by (simp_all add: log_ok_def)
  show ?thesis
  proof (cases "i < length evs \<and> i < AM_EVENTS")
    case True
    then have i: "i < length evs" "i < AM_EVENTS" by simp_all
    define q where "q = length evs - 1 - i"
    have seq: "of_nat (length evs) - 1 - of_nat i = (of_nat q :: u32)" unfolding q_def by (rule seq_word [OF i(1)])
    have uq: "unat (of_nat q :: u32) = q" by (rule unat_of_nat_u32) (use N i in \<open>simp add: q_def\<close>)
    have d: "am_total m - of_nat q = (of_nat (?N - q) :: u32)" using t i by (simp add: q_def of_nat_diff)
    have live: "(am_total m - (of_nat q :: u32) \<le> of_nat AM_EVENTS) = (i + length newer < AM_EVENTS)"
    proof -
      have "(of_nat (?N - q) :: u32) \<le> of_nat AM_EVENTS \<longleftrightarrow> ?N - q \<le> AM_EVENTS"
        using N by (simp add: word_le_nat_alt unat_of_nat_u32 AM_EVENTS_def)
      then show ?thesis unfolding d using i by (auto simp: q_def)
    qed
    have "am_ring m ! (q mod AM_EVENTS) = rev evs ! i" if "i + length newer < AM_EVENTS"
      using assms that i by (simp add: log_ok_def q_def nth_append rev_nth)
    moreover have "am_kept (of_nat (length evs)) = min (length evs) AM_EVENTS" using N by (intro kept_eq) simp
    ultimately show ?thesis
      using i unfolding am_copy_event_def Let_def seq uq live by (auto simp: min_def not_le)
  next
    case False
    then show ?thesis using N by (auto simp: am_copy_event_def kept_eq)
  qed
qed

section \<open>Lines of the emitter\<close>

text \<open>A line that \<open>notify\<close> formats is taken apart into what it was made of.\<close>

lemma parse_u8_show: "parse_u8_word (show_dec (unat (node :: u8))) = Some (unat node)"
proof -
  have "dec_value (show_dec (unat node)) \<le> 255" "nat (dec_value (show_dec (unat node))) = unat node"
    using unat_u8_less [of node] by (simp_all only: dec_value_show_dec nat_int)
  then show ?thesis
    using show_dec_digits [of "unat node"] length_show_dec_u8 [of node] by (simp add: parse_u8_word_def list_all_iff not_less)
qed

definition ends_plain :: "string \<Rightarrow> bool" where
  "ends_plain body \<longleftrightarrow> body \<noteq> [] \<and> last body \<noteq> CHR 0x0A \<and> last body \<noteq> CHR 0x0D"

lemma work_of_line:
  assumes "t < NTF_COUNT" "length body \<le> 109" "ends_plain body"
  shows "work_line (ntf_line t node body) = ''NOTIFY '' @ s_type_name ! t @ CHR '' '' # show_dec (unat node) @ CHR '' '' # body"
proof -
  have l: "length (ntf_line t node body) \<le> 159" using ntf_line_bound(1) [of t node body] by (simp add: NTF_LINE_MAX_def)
  obtain b c where b: "body = b @ [c]" "c \<noteq> CHR 0x0A" "c \<noteq> CHR 0x0D"
    using assms(3) unfolding ends_plain_def by (metis append_butlast_last_id)
  have "length (b @ [c]) \<le> 109" using assms(2) b by simp
  then show ?thesis
    unfolding work_line_def take_all [OF l] by (simp add: ntf_line_fits [OF assms(1)] b)
qed

lemma split_of_line:
  assumes "t < NTF_COUNT" "length body \<le> 109" "ends_plain body"
  shows "split_line (ntf_line t node body) = Some (t, node, body, s_type_name ! t @ CHR '' '' # show_dec (unat node) @ CHR '' '' # body)"
proof -
  note n = name_facts [OF assms(1)]
  have ty: "\<forall>c \<in> set (s_type_name ! t). c \<noteq> CHR '' ''" using n by blast
  show ?thesis
    using n assms(1)
    by (simp add: split_line_def work_of_line [OF assms] next_word_def split_word [OF ty] split_word [OF show_dec_no_blank]
        parse_u8_show Let_def)
qed

section \<open>Properties\<close>

text \<open>The line a zone sends when a firmware trial fails and rolls back begins with the word TRIAL, which is in the list of clearing words: it removes the firmware alarm of the zone instead of raising it.\<close>

lemma failed_trial_clears_the_alarm:
  assumes "slots_ok (am_slots m)"
  shows "am_map (am_slots (alarm_mgr_sink m (ntf_line NTF_FW node ''TRIAL FAIL ROLLBACK'') now)) (''FW '' @ show_dec (unat node)) = None"
proof -
  have "split_line (ntf_line NTF_FW node ''TRIAL FAIL ROLLBACK'') =
      Some (NTF_FW, node, ''TRIAL FAIL ROLLBACK'', s_type_name ! NTF_FW @ CHR '' '' # show_dec (unat node) @ CHR '' '' # ''TRIAL FAIL ROLLBACK'')"
    by (rule split_of_line) (simp_all add: NTF_FW_def NTF_COUNT_def ends_plain_def)
  moreover have "sink_action NTF_FW node ''TRIAL FAIL ROLLBACK'' = AmClear (''FW '' @ show_dec (unat node))"
    using length_show_dec_u8 [of node]
    by (simp add: sink_action_def ntf_types key_and_word_def next_word_def Let_def notify_type_name_def NTF_COUNT_def s_type_name_def
        AM_KEY_MAX_def is_activate_word_def ACT_WORDS_def is_clear_word_def CLR_WORDS_def)
  ultimately show ?thesis using sink_refines(2) [OF assms, of "ntf_line NTF_FW node ''TRIAL FAIL ROLLBACK''" now]
    by (simp add: line_event_def am_spec_def)
qed

lemma failed_trial_clears_the_alarm_witness:
  \<open>am_map (am_slots (alarm_mgr_sink alarm_mgr_init (ntf_line NTF_FW 2 ''TRIAL FAIL ROLLBACK'') 9)) (''FW '' @ show_dec (unat (2 :: u8))) = None\<close>
  by (rule failed_trial_clears_the_alarm [OF slots_ok_init(1)])

text \<open>A line a zone formats reaches the master's log intact: relayed by the master and taken apart by the alarm log, it gives the zone's type, node and text.\<close>

lemma zone_line_is_logged_at_the_master:
  assumes "t < NTF_COUNT" "length body \<le> 109" "ends_plain body"
    "handle_notify_frame s (ntf_line t node body) now = (s', Some (line, sinks))"
  shows "split_line line = Some (t, node, body, s_type_name ! t @ CHR '' '' # show_dec (unat node) @ CHR '' '' # body)"
  using split_of_line [OF assms(1-3)] relay_line_same [OF assms(1,2,4)] by simp

lemma zone_line_is_logged_at_the_master_witness:
  \<open>split_line (fst (the (snd (handle_notify_frame (notify_init 0) (ntf_line 0 2 ''v1'') 5)))) =
     Some (0, 2, ''v1'', s_type_name ! 0 @ CHR '' '' # show_dec (unat (2 :: u8)) @ CHR '' '' # ''v1'')\<close>
proof -
  have n: "(0 :: nat) < NTF_COUNT" "length ''v1'' \<le> 109" by (simp_all add: NTF_COUNT_def)
  have "\<exists>s' line sinks. handle_notify_frame (notify_init 0) (ntf_line 0 2 ''v1'') 5 = (s', Some (line, sinks))"
    unfolding relay_emits [OF n]
    by (simp add: notify_emit_as_def emit_v_def Let_def ntf_types notify_reset_def NTF_COUNT_def set_last_ms_def last_ms_def
        notify_init_def idx_of_def NTF_IDX_N_def)
  then obtain s' line sinks where "handle_notify_frame (notify_init 0) (ntf_line 0 2 ''v1'') 5 = (s', Some (line, sinks))" by blast
  from zone_line_is_logged_at_the_master [OF n _ this] this show ?thesis by (simp add: ends_plain_def)
qed

text \<open>After any lines, a copy of the log lists the last 64 well-formed ones newest first; and a reader that noted the total earlier and copies one event at a time gets the event it asked for, or nothing once newer ones have overwritten it, never another one.\<close>

lemma log_gives_the_last_events:
  assumes "length old + length recent < 4294967296"
  shows "fst (snd (alarm_mgr_copy (sink_all alarm_mgr_init old))) = take AM_EVENTS (rev (events_of old)) \<and>
    am_copy_event (sink_all alarm_mgr_init (old @ recent)) (am_total (sink_all alarm_mgr_init old)) i =
      (if i < length (events_of old) \<and> i + length (events_of recent) < AM_EVENTS then Some (rev (events_of old) ! i) else None)"
proof -
  have a: "log_ok (sink_all alarm_mgr_init old) (events_of old)"
    using log_all [OF log_ok_init, of old] assms by simp
  have b: "log_ok (sink_all alarm_mgr_init (old @ recent)) (events_of old @ events_of recent)"
    using log_all [OF a] assms log_all [OF log_ok_init, of "old @ recent"] by (simp add: events_of_def)
  have "am_total (sink_all alarm_mgr_init old) = of_nat (length (events_of old))" using a by (simp add: log_ok_def)
  then show ?thesis using copy_log [OF a] copy_event_log [OF b] by simp
qed

lemma log_gives_the_last_events_witness:
  \<open>fst (snd (alarm_mgr_copy (sink_all alarm_mgr_init [(ntf_line 3 2 ''OFFLINE'', 4), (''noise'', 5)]))) =
     take AM_EVENTS (rev (events_of [(ntf_line 3 2 ''OFFLINE'', 4), (''noise'', 5)]))\<close>
  using log_gives_the_last_events [of "[(ntf_line 3 2 ''OFFLINE'', 4), (''noise'', 5)]" "[]"] by simp

text \<open>C37. Seen as a map from keys to text and start time, the slot table changes with each line exactly as specified: an activating word enters or refreshes the key and keeps the start of the streak, a clearing word removes it, a new key is dropped only when all sixteen places are taken; no key ever has two places.\<close>

lemma active_set_refines_a_map:
  assumes "slots_ok (am_slots m)"
  shows "slots_ok (am_slots (alarm_mgr_sink m line now)) \<and>
    am_map (am_slots (alarm_mgr_sink m line now)) =
      (case line_event line now of None \<Rightarrow> am_map (am_slots m)
       | Some (ev, act) \<Rightarrow> am_spec (am_map (am_slots m)) act (ev_text ev) now)"
  using sink_refines [OF assms] by simp

lemma active_set_refines_a_map_witness:
  \<open>am_map (am_slots (alarm_mgr_sink alarm_mgr_init (ntf_line 3 2 ''OFFLINE'') 9)) ''NODE 2'' = Some (''NODE 2 OFFLINE'', 9)\<close>
proof -
  have s: "show_dec (unat (2 :: u8)) = ''2''" by (subst show_dec.simps) simp
  have "split_line (ntf_line 3 2 ''OFFLINE'') = Some (3, 2, ''OFFLINE'', ''NODE 2 OFFLINE'')"
    using split_of_line [of 3 "''OFFLINE''" 2] s by (simp add: NTF_COUNT_def ends_plain_def s_type_name_def)
  then have "line_event (ntf_line 3 2 ''OFFLINE'') 9 =
      Some (\<lparr>ev_at_s = 9, ev_type = 3, ev_node = 2, ev_text = ''NODE 2 OFFLINE''\<rparr>, AmUpsert ''NODE 2'')"
    using s by (simp add: line_event_def bcopy_trunc_def AM_TEXT_MAX_def sink_action_def ntf_types key_and_word_def next_word_def
        Let_def notify_type_name_def NTF_COUNT_def s_type_name_def AM_KEY_MAX_def is_activate_word_def ACT_WORDS_def)
  with active_set_refines_a_map [OF slots_ok_init(1), of "ntf_line 3 2 ''OFFLINE''" 9] show ?thesis
    by (simp add: slots_ok_init am_spec_def AM_ACTIVE_MAX_def)
qed

end
