(* ===== verification/Zone_Cfg_Rx.thy ===== *)
theory Zone_Cfg_Rx
  imports Ring_Cfgx Ring_Dup Ring_Tlm Ring_Link HG_Store
begin

text \<open>
  \<^verbatim>\<open>zone/main/zone_ring_cfg.c\<close>, with the sending half of \<^verbatim>\<open>zone/main/zone_ring.c\<close>: how a zone
  takes a configuration the master pushes (CFG_CHUNK, CFG_COMMIT) and gives its own (CFG_GET).
  Here the reassembler, the at-most-once cache, the blob envelope, the validators and the model
  meet. Shown: a push that arrives whole is applied and acknowledged; a commit changes the model
  only to a newer, valid plane and is then a step of the store machine; a repeated push is
  answered without being applied again; what CFG_GET sends is rebuilt to the live plane; and an
  edit that falls between the check and the application is overwritten.
\<close>

section \<open>State and output\<close>

record zone_cfg_rx =
  zr_casm :: ring_casm
  zr_dup :: ring_dup
  zr_tx_seq :: u16
  zr_zid :: u8
  zr_model :: hg_model

text \<open>What leaves the handlers: a frame for the link, or a call of \<open>hg_store_flush\<close>.\<close>

datatype cfg_out = OutSend ring_hdr "u8 list" | OutFlush u32

definition zring_next_seq :: "zone_cfg_rx \<Rightarrow> zone_cfg_rx \<times> u16" where
  "zring_next_seq z = (let v = zr_tx_seq z + 1 in (z\<lparr>zr_tx_seq := v\<rparr>, v))"

definition zring_send :: "u8 \<Rightarrow> u8 \<Rightarrow> u8 list \<Rightarrow> zone_cfg_rx \<Rightarrow> zone_cfg_rx \<times> cfg_out list" where
  "zring_send dst type payload z =
     (let (z, seq) = zring_next_seq z in
      (z, [OutSend \<lparr>h_src = zr_zid z, h_dst = dst, h_type = type, h_flags = 0, h_ttl = RING_TTL_INIT,
             h_len = of_nat (length payload), h_seq = seq\<rparr> payload]))"

definition zring_send_ack :: "u8 \<Rightarrow> u16 \<Rightarrow> u8 \<Rightarrow> u8 list \<Rightarrow> zone_cfg_rx \<Rightarrow> zone_cfg_rx \<times> cfg_out list" where
  "zring_send_ack dst acked_seq status detail z =
     (case hg_ack_pack \<lparr>ack_acked_seq = acked_seq, ack_status = status, ack_detail = detail,
             ack_detail_len = of_nat (length detail)\<rparr> 128 of
        None \<Rightarrow> (z, [])
      | Some payload \<Rightarrow> zring_send dst RING_T_ACK payload z)"

definition zone_ring_cfg_init :: "zone_cfg_rx \<Rightarrow> zone_cfg_rx" where
  "zone_ring_cfg_init z = z\<lparr>zr_casm := ring_casm_init\<rparr>"

section \<open>Chunks\<close>

definition casm_complete :: "ring_casm \<Rightarrow> bool" where
  "casm_complete a \<longleftrightarrow> ca_active a \<and> ca_count a > 0 \<and> ca_got_mask a = push_bit (unat (ca_count a)) 1 - 1"

definition casm_fresh :: "u32 \<Rightarrow> ring_casm \<Rightarrow> ring_casm" where
  "casm_fresh now a = (if ring_casm_idle_expired a now then ring_casm_init else a)"

definition frame_bytes :: "ring_frame \<Rightarrow> u8 list" where
  "frame_bytes f = take (unat (h_len (f_hdr f))) (f_payload f)"

definition zone_ring_cfg_chunk :: "ring_frame \<Rightarrow> u32 \<Rightarrow> zone_cfg_rx \<Rightarrow> zone_cfg_rx" where
  "zone_ring_cfg_chunk f now z =
     z\<lparr>zr_casm := fst (ring_casm_feed (casm_fresh now (zr_casm z)) (frame_bytes f) now)\<rparr>"

section \<open>The answer to a commit\<close>

text \<open>\<open>fin\<close> is the fresh clock reading of \<open>zring_dup_finish\<close>.\<close>

definition commit_reply :: "ring_frame \<Rightarrow> u32 \<Rightarrow> u8 \<Rightarrow> string \<Rightarrow> zone_cfg_rx \<Rightarrow> zone_cfg_rx \<times> cfg_out list" where
  "commit_reply f fin status detail z =
     (let d = take 125 (bytes_of detail);
          z = z\<lparr>zr_dup := ring_dup_done (zr_dup z) (h_seq (f_hdr f)) status (Some d) fin\<rparr>
      in zring_send_ack (h_src (f_hdr f)) (h_seq (f_hdr f)) status d z)"

definition commit_fail :: "ring_frame \<Rightarrow> u32 \<Rightarrow> string \<Rightarrow> zone_cfg_rx \<Rightarrow> zone_cfg_rx \<times> cfg_out list" where
  "commit_fail f fin detail z =
     (let (z, out) = commit_reply f fin 1 detail z in (z\<lparr>zr_casm := ring_casm_init\<rparr>, out))"

definition commit_ok :: "ring_frame \<Rightarrow> u32 \<Rightarrow> bool \<Rightarrow> zone_cfg_rx \<Rightarrow> zone_cfg_rx \<times> cfg_out list" where
  "commit_ok f fin applied z =
     (let (z, out) = commit_reply f fin 0 ''OK'' z in
      (z\<lparr>zr_casm := ring_casm_init\<rparr>, out @ (if applied then [OutFlush 2000] else [])))"

section \<open>The decision\<close>

text \<open>
  The handler reads snapshots of the live planes, decides, and applies afterwards. The decision
  is a value of its own, because other tasks can edit the model before it is carried out.
\<close>

datatype commit_dec = CommitFail string | CommitSame | CommitCfg hg_zone_cfg | CommitHw hg_zone_hw

definition unwrap_token :: "hg_blob_rc \<Rightarrow> string" where
  "unwrap_token rc =
     (if rc = HG_BLOB_E_VERSION_NEWER \<or> rc = HG_BLOB_E_VERSION_OLD then ''ERR CFG_VERSION'' else ''ERR CRC_FAIL'')"

definition invalid_token :: "string \<Rightarrow> string" where
  "invalid_token err = take 125 (''ERR INVALID_FIELD '' @ take 47 err)"

definition commit_stale :: "u32 \<Rightarrow> u32 \<Rightarrow> u8 list \<Rightarrow> u8 list \<Rightarrow> commit_dec option" where
  "commit_stale gen cur payload live =
     (if gen > cur then None
      else if gen = cur \<and> payload = live then Some CommitSame
      else Some (CommitFail ''ERR CFG_VERSION''))"

definition decide_cfg :: "u32 \<Rightarrow> u8 list \<Rightarrow> hg_model \<Rightarrow> commit_dec" where
  "decide_cfg gen blob m =
     (case hg_blob_unwrap HG_MAGIC_CFG HG_CFG_VER HG_CFG_VER_MIN blob 336 of
        (rc, None) \<Rightarrow> CommitFail (unwrap_token rc)
      | (rc, Some (cfg, env_gen)) \<Rightarrow>
          case commit_stale gen (cfg_generation (m_cfg m)) cfg (m_cfg m) of
            Some d \<Rightarrow> d
          | None \<Rightarrow>
              if gen \<noteq> env_gen \<or> env_gen \<noteq> cfg_generation cfg then CommitFail ''ERR INVALID_FIELD generation''
              else case hg_cfg_validate cfg (Some (m_hw m)) of
                Inl err \<Rightarrow> CommitFail (invalid_token err)
              | Inr _ \<Rightarrow> CommitCfg cfg)"

definition decide_hw :: "u8 list \<Rightarrow> hg_model \<Rightarrow> commit_dec" where
  "decide_hw blob m =
     (case hg_blob_unwrap HG_MAGIC_HW HG_HW_VER HG_HW_VER_MIN blob 160 of
        (rc, None) \<Rightarrow> CommitFail (unwrap_token rc)
      | (rc, Some (hw, _)) \<Rightarrow> if hw = m_hw m then CommitSame else CommitHw hw)"

text \<open>\<open>Inl\<close> is an answer or a silent return before anything is decided.\<close>

definition commit_begin ::
  "ring_frame \<Rightarrow> u32 \<Rightarrow> zone_cfg_rx \<Rightarrow> zone_cfg_rx \<times> (cfg_out list + commit_dec)" where
  "commit_begin f now z =
     (if h_len (f_hdr f) < 5 then (z, Inl [])
      else case zring_dup_begin (zr_dup z) (h_seq (f_hdr f)) now of
        (_, DupSilent) \<Rightarrow> (z, Inl [])
      | (_, DupReply status detail) \<Rightarrow>
          (let (z, out) = zring_send_ack (h_src (f_hdr f)) (h_seq (f_hdr f)) status detail z in (z, Inl out))
      | (dup, DupRun) \<Rightarrow>
          let z = z\<lparr>zr_dup := dup, zr_casm := casm_fresh now (zr_casm z)\<rparr>;
              a = zr_casm z;
              kind = f_payload f ! 0; gen = le32_at (f_payload f) 1;
              blob = take (unat (ca_total a)) (ca_buf a)
          in (z, Inr (if \<not> casm_complete a \<or> ca_kind a \<noteq> kind \<or> ca_gen a \<noteq> gen
                      then CommitFail ''ERR MISSING_CHUNK''
                      else if kind = 1 then decide_cfg gen blob (zr_model z)
                      else if kind = 2 then decide_hw blob (zr_model z)
                      else CommitFail ''ERR MISSING_CHUNK'')))"

definition commit_finish :: "ring_frame \<Rightarrow> u32 \<Rightarrow> commit_dec \<Rightarrow> zone_cfg_rx \<Rightarrow> zone_cfg_rx \<times> cfg_out list" where
  "commit_finish f fin dec z =
     (case dec of
        CommitFail detail \<Rightarrow> commit_fail f fin detail z
      | CommitSame \<Rightarrow> commit_ok f fin False z
      | CommitCfg cfg \<Rightarrow> commit_ok f fin True (z\<lparr>zr_model := hg_model_apply_cfg (zr_model z) cfg\<rparr>)
      | CommitHw hw \<Rightarrow>
          (case hg_model_apply_hw (zr_model z) hw of
             Inl err \<Rightarrow> commit_fail f fin (invalid_token err) z
           | Inr m \<Rightarrow> commit_ok f fin True (z\<lparr>zr_model := m\<rparr>)))"

definition zone_ring_cfg_commit :: "ring_frame \<Rightarrow> u32 \<Rightarrow> u32 \<Rightarrow> zone_cfg_rx \<Rightarrow> zone_cfg_rx \<times> cfg_out list" where
  "zone_ring_cfg_commit f now fin z =
     (case commit_begin f now z of
        (z, Inl out) \<Rightarrow> (z, out)
      | (z, Inr dec) \<Rightarrow> commit_finish f fin dec z)"

section \<open>Giving the live planes\<close>

text \<open>The wire form of a plane and its generation; the buffer has room for the larger plane.\<close>

definition get_wire :: "u8 \<Rightarrow> hg_model \<Rightarrow> u8 list option \<times> u32" where
  "get_wire kind m =
     (if kind = 1 then (hg_blob_wrap HG_MAGIC_CFG HG_CFG_VER (cfg_generation (m_cfg m)) (m_cfg m) 352,
        cfg_generation (m_cfg m))
      else (hg_blob_wrap HG_MAGIC_HW HG_HW_VER 0 (m_hw m) 352, 0))"

fun send_chunks :: "u8 \<Rightarrow> u8 \<Rightarrow> u32 \<Rightarrow> u8 list \<Rightarrow> nat list \<Rightarrow> zone_cfg_rx \<Rightarrow> zone_cfg_rx \<times> cfg_out list" where
  "send_chunks dst kind gen wire [] z = (z, [])"
| "send_chunks dst kind gen wire (i # is) z =
     (case ring_cfg_chunk_build kind gen wire (of_nat i) (9 + RING_CFG_DATA_MAX) of
        None \<Rightarrow> (z, [])
      | Some payload \<Rightarrow>
          let (z, out) = zring_send dst RING_T_CFG_CHUNK payload z;
              (z, outs) = send_chunks dst kind gen wire is z
          in (z, out @ outs))"

definition zone_ring_cfg_get :: "ring_frame \<Rightarrow> zone_cfg_rx \<Rightarrow> zone_cfg_rx \<times> cfg_out list" where
  "zone_ring_cfg_get f z =
     (if h_len (f_hdr f) < 1 then (z, [])
      else
        let kind = f_payload f ! 0 in
        if kind \<noteq> 1 \<and> kind \<noteq> 2 then (z, [])
        else
          let (z, out) = zring_send_ack (h_src (f_hdr f)) (h_seq (f_hdr f)) 0 (bytes_of ''OK'') z
          in case get_wire kind (zr_model z) of
               (None, _) \<Rightarrow> (z, out)
             | (Some wire, gen) \<Rightarrow>
                 let (z, outs) = send_chunks (h_src (f_hdr f)) kind gen wire
                       [0 ..< ring_cfg_chunk_count (length wire)] z
                 in (z, out @ outs))"

section \<open>Acknowledgements\<close>

text \<open>The acknowledgement a frame carries: destination, sequence number, status and detail.\<close>

definition ack_blank :: hg_ack where
  "ack_blank = \<lparr>ack_acked_seq = 0, ack_status = 0, ack_detail = replicate 126 0, ack_detail_len = 0\<rparr>"

fun ack_seen :: "cfg_out \<Rightarrow> (u8 \<times> u16 \<times> u8 \<times> u8 list) option" where
  "ack_seen (OutSend h p) =
     (if h_type h = RING_T_ACK then map_option (\<lambda>a. (h_dst h, ack_view a)) (hg_ack_parse ack_blank p) else None)"
| "ack_seen (OutFlush t) = None"

lemma send_ack_seen:
  assumes "length detail \<le> 125"
  shows "fst (zring_send_ack dst s st detail z) = z\<lparr>zr_tx_seq := zr_tx_seq z + 1\<rparr>"
    "map ack_seen (snd (zring_send_ack dst s st detail z)) = [Some (dst, s, st, detail)]"
proof -
  let ?a = "\<lparr>ack_acked_seq = s, ack_status = st, ack_detail = detail, ack_detail_len = of_nat (length detail)\<rparr>"
  have u: "unat (of_nat (length detail) :: u8) = length detail" using assms by (simp add: unat_of_nat_u8)
  then have "\<not> 125 < (of_nat (length detail) :: u8)" using assms by (simp add: word_less_nat_alt)
  with u assms obtain p where p: "hg_ack_pack ?a 128 = Some p" by (simp add: hg_ack_pack_def Let_def)
  have v: "ack_view ?a = (s, st, detail)" by (simp add: ack_view_def u)
  from ack.round_trip [OF p, of ack_blank] have "map_option ack_view (hg_ack_parse ack_blank p) = Some (s, st, detail)"
    unfolding v .
  then have r: "map_option (\<lambda>a. (dst, ack_view a)) (hg_ack_parse ack_blank p) = Some (dst, s, st, detail)"
    by (auto simp: map_option_case split: option.splits)
  show "fst (zring_send_ack dst s st detail z) = z\<lparr>zr_tx_seq := zr_tx_seq z + 1\<rparr>"
    "map ack_seen (snd (zring_send_ack dst s st detail z)) = [Some (dst, s, st, detail)]"
    by (simp_all add: zring_send_ack_def p zring_send_def zring_next_seq_def Let_def r del: hg_ack_pack_def)
qed

lemma commit_reply_seen:
  "fst (commit_reply f fin st detail z) =
     z\<lparr>zr_dup := ring_dup_done (zr_dup z) (h_seq (f_hdr f)) st (Some (take 125 (bytes_of detail))) fin,
       zr_tx_seq := zr_tx_seq z + 1\<rparr>"
  "map ack_seen (snd (commit_reply f fin st detail z)) =
     [Some (h_src (f_hdr f), h_seq (f_hdr f), st, take 125 (bytes_of detail))]"
  by (simp_all add: commit_reply_def Let_def send_ack_seen)

lemma commit_fail_seen:
  "zr_model (fst (commit_fail f fin detail z)) = zr_model z"
  "map ack_seen (snd (commit_fail f fin detail z)) =
     [Some (h_src (f_hdr f), h_seq (f_hdr f), 1, take 125 (bytes_of detail))]"
  by (simp_all add: commit_fail_def split_def commit_reply_seen)

lemma commit_ok_seen:
  "fst (commit_ok f fin applied z) =
     z\<lparr>zr_dup := ring_dup_done (zr_dup z) (h_seq (f_hdr f)) 0 (Some (bytes_of ''OK'')) fin,
       zr_tx_seq := zr_tx_seq z + 1, zr_casm := ring_casm_init\<rparr>"
  "map ack_seen (snd (commit_ok f fin applied z)) =
     Some (h_src (f_hdr f), h_seq (f_hdr f), 0, bytes_of ''OK'') # (if applied then [None] else [])"
  "(OutFlush 2000 \<in> set (snd (commit_ok f fin applied z))) = applied"
proof -
  have t: "take 125 (bytes_of ''OK'') = bytes_of ''OK''" by simp
  show "fst (commit_ok f fin applied z) =
     z\<lparr>zr_dup := ring_dup_done (zr_dup z) (h_seq (f_hdr f)) 0 (Some (bytes_of ''OK'')) fin,
       zr_tx_seq := zr_tx_seq z + 1, zr_casm := ring_casm_init\<rparr>"
    "map ack_seen (snd (commit_ok f fin applied z)) =
     Some (h_src (f_hdr f), h_seq (f_hdr f), 0, bytes_of ''OK'') # (if applied then [None] else [])"
    by (simp_all add: commit_ok_def split_def commit_reply_seen t)
  have "OutFlush 2000 \<notin> set (snd (commit_reply f fin 0 ''OK'' z))"
  proof
    assume "OutFlush 2000 \<in> set (snd (commit_reply f fin 0 ''OK'' z))"
    then have "ack_seen (OutFlush 2000) \<in> set (map ack_seen (snd (commit_reply f fin 0 ''OK'' z)))"
      unfolding set_map by (rule imageI)
    then show False by (simp add: commit_reply_seen)
  qed
  then show "(OutFlush 2000 \<in> set (snd (commit_ok f fin applied z))) = applied"
    by (simp add: commit_ok_def split_def Let_def)
qed

section \<open>What a commit can do to the model\<close>

lemma hg_blob_unwrap_length:
  "hg_blob_unwrap magic ver vmin blob cap = (rc, Some (pl, g)) \<Longrightarrow> length pl = cap"
  by (auto simp: hg_blob_unwrap_def Let_def split: if_splits)

lemma decide_cfg_CommitCfg:
  assumes "decide_cfg gen blob m = CommitCfg cfg"
  shows "length cfg = 336" "cfg_generation cfg = gen" "cfg_generation (m_cfg m) < gen"
    "hg_cfg_validate cfg (Some (m_hw m)) = Inr ()"
  using assms
  by (auto simp: decide_cfg_def commit_stale_def dest: hg_blob_unwrap_length
      split: prod.splits option.splits if_splits sum.splits)

lemma decide_hw_CommitHw:
  assumes "decide_hw blob m = CommitHw hw"
  shows "length hw = 160" "hw \<noteq> m_hw m"
  using assms by (auto simp: decide_hw_def dest: hg_blob_unwrap_length split: prod.splits option.splits if_splits)

lemma decide_other:
  "decide_cfg gen blob m \<noteq> CommitHw hw" "decide_hw blob m \<noteq> CommitCfg cfg"
  by (auto simp: decide_cfg_def decide_hw_def commit_stale_def split: prod.splits option.splits if_splits sum.splits)

lemma commit_begin_model: "zr_model (fst (commit_begin f now z)) = zr_model z"
  by (auto simp: commit_begin_def Let_def zring_send_ack_def zring_send_def zring_next_seq_def
      split: prod.splits dup_action.splits option.splits)

lemma commit_begin_dec:
  assumes "commit_begin f now z = (z', Inr dec)"
  shows "dec = CommitCfg cfg \<Longrightarrow> f_payload f ! 0 = 1 \<and> decide_cfg (le32_at (f_payload f) 1)
        (take (unat (ca_total (zr_casm z'))) (ca_buf (zr_casm z'))) (zr_model z) = CommitCfg cfg"
    "dec = CommitHw hw \<Longrightarrow> f_payload f ! 0 = 2 \<and>
      decide_hw (take (unat (ca_total (zr_casm z'))) (ca_buf (zr_casm z'))) (zr_model z) = CommitHw hw"
  using assms decide_other
  by (auto simp: commit_begin_def Let_def split: prod.splits dup_action.splits if_splits)

lemma commit_model_cases:
  obtains "zr_model (fst (zone_ring_cfg_commit f now fin z)) = zr_model z"
  | cfg where "f_payload f ! 0 = 1" "length cfg = 336" "cfg_generation cfg = le32_at (f_payload f) 1"
      "cfg_generation (m_cfg (zr_model z)) < cfg_generation cfg"
      "hg_cfg_validate cfg (Some (m_hw (zr_model z))) = Inr ()"
      "zr_model (fst (zone_ring_cfg_commit f now fin z)) = hg_model_apply_cfg (zr_model z) cfg"
  | hw where "f_payload f ! 0 = 2" "length hw = 160" "hw \<noteq> m_hw (zr_model z)"
      "hg_model_apply_hw (zr_model z) hw = Inr (zr_model (fst (zone_ring_cfg_commit f now fin z)))"
proof (cases "snd (commit_begin f now z)")
  case (Inl out)
  then have "fst (zone_ring_cfg_commit f now fin z) = fst (commit_begin f now z)"
    by (simp add: zone_ring_cfg_commit_def split_def)
  then show thesis using that(1) by (simp add: commit_begin_model)
next
  case (Inr dec)
  obtain z1 where b: "commit_begin f now z = (z1, Inr dec)" using Inr by (metis prod.collapse)
  have z1: "zr_model z1 = zr_model z" using commit_begin_model [of f now z] b by simp
  have c: "zone_ring_cfg_commit f now fin z = commit_finish f fin dec z1" by (simp add: zone_ring_cfg_commit_def b)
  show thesis
  proof (cases dec)
    case (CommitCfg cfg)
    with commit_begin_dec(1) [OF b] have d: "f_payload f ! 0 = 1" "decide_cfg (le32_at (f_payload f) 1)
        (take (unat (ca_total (zr_casm z1))) (ca_buf (zr_casm z1))) (zr_model z) = CommitCfg cfg" by blast+
    note p = decide_cfg_CommitCfg [OF d(2)]
    have lt: "cfg_generation (m_cfg (zr_model z)) < cfg_generation cfg" using p(2,3) by simp
    show thesis
      by (rule that(2) [OF d(1) p(1,2) lt p(4)]) (simp add: c CommitCfg commit_finish_def commit_ok_seen z1)
  next
    case (CommitHw hw)
    with commit_begin_dec(2) [OF b] have d: "f_payload f ! 0 = 2" "decide_hw
        (take (unat (ca_total (zr_casm z1))) (ca_buf (zr_casm z1))) (zr_model z) = CommitHw hw" by blast+
    note p = decide_hw_CommitHw [OF d(2)]
    show thesis
    proof (cases "hg_model_apply_hw (zr_model z) hw")
      case (Inl e)
      then show thesis by (intro that(1)) (simp add: c CommitHw commit_finish_def z1 commit_fail_seen)
    next
      case (Inr m)
      then show thesis by (intro that(3) [OF d(1) p]) (simp add: c CommitHw commit_finish_def z1 commit_ok_seen)
    qed
  qed (intro that(1), simp add: c commit_finish_def commit_fail_seen commit_ok_seen z1)+
qed

text \<open>Seen from the store task, a commit does nothing or is the push step of the store machine.\<close>

lemma commit_is_store_step:
  assumes "zs_model s = zr_model z"
  shows "store_step\<^sup>=\<^sup>= s (s\<lparr>zs_model := zr_model (fst (zone_ring_cfg_commit f now fin z))\<rparr>)"
proof (cases rule: commit_model_cases [of f now fin z])
  case 1
  then have "s\<lparr>zs_model := zr_model (fst (zone_ring_cfg_commit f now fin z))\<rparr> = s" using assms by simp
  then show ?thesis by simp
next
  case (2 cfg)
  then show ?thesis using step_push_cfg [of cfg s] assms by simp
next
  case (3 hw)
  then show ?thesis using step_push_hw [of s hw] assms by simp
qed

section \<open>A push that arrives\<close>

lemma casm_fresh_keeps: "now - ca_last_ms a \<le> 2000 \<Longrightarrow> casm_fresh now a = a"
  by (simp add: casm_fresh_def ring_casm_idle_expired_def RING_CFG_IDLE_MS_def leD)

lemma casm_store_last: "ca_last_ms (fst (casm_store a idx data now)) = now"
  by (simp add: casm_store_def Let_def)

lemma casm_feed_last:
  assumes "casm_accepts p" "casm_same a p \<longrightarrow> ca_count a = p ! 6 \<and> ca_total a = le16_at p 7"
  shows "ca_last_ms (fst (ring_casm_feed a p now)) = now"
  using assms by (auto simp: ring_casm_feed_eq casm_store_last)

text \<open>No two neighbouring times are further apart than the idle time of the reassembler.\<close>

fun gaps_ok :: "u32 list \<Rightarrow> bool" where
  "gaps_ok (a # b # ts) \<longleftrightarrow> b - a \<le> 2000 \<and> gaps_ok (b # ts)"
| "gaps_ok _ \<longleftrightarrow> True"

definition in_transfer :: "u8 \<Rightarrow> u32 \<Rightarrow> ring_casm \<Rightarrow> bool" where
  "in_transfer kind gen a \<longleftrightarrow> ca_active a \<and> ca_kind a = kind \<and> ca_gen a = gen"

lemma casm_fresh_not_in: "\<not> in_transfer kind gen a \<Longrightarrow> \<not> in_transfer kind gen (casm_fresh now a)"
  by (simp add: casm_fresh_def in_transfer_def ring_casm_init_def)

definition feed_chunks :: "(ring_frame \<times> u32) list \<Rightarrow> zone_cfg_rx \<Rightarrow> zone_cfg_rx" where
  "feed_chunks fs z = fold (\<lambda>(f, t). zone_ring_cfg_chunk f t) fs z"

lemma feed_chunks_other [simp]:
  "zr_model (feed_chunks fs z) = zr_model z" "zr_dup (feed_chunks fs z) = zr_dup z"
  "zr_zid (feed_chunks fs z) = zr_zid z" "zr_tx_seq (feed_chunks fs z) = zr_tx_seq z"
  unfolding feed_chunks_def by (induction fs arbitrary: z) (auto simp: zone_ring_cfg_chunk_def)

lemma one_chunk:
  assumes b: "ring_cfg_chunk_build kind gen blob i cap = Some (frame_bytes f)"
    and S: "casm_has kind gen blob S (zr_casm z) \<and> t - ca_last_ms (zr_casm z) \<le> 2000 \<or>
      S = {} \<and> \<not> in_transfer kind gen (zr_casm z)"
  shows "casm_has kind gen blob (insert (unat i) S) (zr_casm (zone_ring_cfg_chunk f t z))"
    "ca_last_ms (zr_casm (zone_ring_cfg_chunk f t z)) = t"
proof -
  let ?a = "casm_fresh t (zr_casm z)"
  have S': "casm_has kind gen blob S ?a \<or> S = {} \<and> \<not> (ca_active ?a \<and> ca_kind ?a = kind \<and> ca_gen ?a = gen)"
    using S casm_fresh_not_in [of kind gen "zr_casm z" t] by (auto simp: casm_fresh_keeps in_transfer_def)
  show "casm_has kind gen blob (insert (unat i) S) (zr_casm (zone_ring_cfg_chunk f t z))"
    using casm_feed_has(1) [OF b S'] by (simp add: zone_ring_cfg_chunk_def)
  note fields = chunk_build_fields [OF b]
  have "casm_same ?a (frame_bytes f) \<longrightarrow> ca_count ?a = frame_bytes f ! 6 \<and> ca_total ?a = le16_at (frame_bytes f) 7"
  proof
    assume s: "casm_same ?a (frame_bytes f)"
    with S' have "casm_has kind gen blob S ?a" using fields(2,3) by (simp add: casm_same_def)
    then have "unat (ca_count ?a) = unat (frame_bytes f ! 6)" "unat (ca_total ?a) = unat (le16_at (frame_bytes f) 7)"
      by (simp_all add: casm_has_def fields)
    then show "ca_count ?a = frame_bytes f ! 6 \<and> ca_total ?a = le16_at (frame_bytes f) 7"
      by (simp add: word_unat_eq_iff)
  qed
  from casm_feed_last [OF fields(1) this] show "ca_last_ms (zr_casm (zone_ring_cfg_chunk f t z)) = t"
    by (simp add: zone_ring_cfg_chunk_def)
qed

lemma chunks_collected:
  assumes "map (\<lambda>i. ring_cfg_chunk_build kind gen blob i cap) is = map (Some \<circ> frame_bytes \<circ> fst) fs"
    "casm_has kind gen blob S (zr_casm z) \<and> (is \<noteq> [] \<longrightarrow> snd (hd fs) - ca_last_ms (zr_casm z) \<le> 2000) \<or>
      S = {} \<and> is \<noteq> [] \<and> \<not> in_transfer kind gen (zr_casm z)"
    "gaps_ok (map snd fs)"
  shows "casm_has kind gen blob (S \<union> unat ` set is) (zr_casm (feed_chunks fs z)) \<and>
    (is \<noteq> [] \<longrightarrow> ca_last_ms (zr_casm (feed_chunks fs z)) = snd (last fs))"
  using assms
proof (induction "is" arbitrary: fs S z)
  case Nil
  then show ?case by (simp add: feed_chunks_def)
next
  case (Cons i "is")
  from Cons.prems(1) obtain f t fs' where fs: "fs = (f, t) # fs'"
    and b: "ring_cfg_chunk_build kind gen blob i cap = Some (frame_bytes f)"
    and bs: "map (\<lambda>i. ring_cfg_chunk_build kind gen blob i cap) is = map (Some \<circ> frame_bytes \<circ> fst) fs'"
    by (cases fs) auto
  let ?z = "zone_ring_cfg_chunk f t z"
  note step = one_chunk [OF b, of S z t]
  have st: "casm_has kind gen blob (insert (unat i) S) (zr_casm ?z)" "ca_last_ms (zr_casm ?z) = t"
    using step Cons.prems(2) by (auto simp: fs)
  have fc: "feed_chunks fs z = feed_chunks fs' ?z" by (simp add: feed_chunks_def fs)
  have l: "length is = length fs'" using arg_cong [OF bs, of length] by simp
  have g: "is \<noteq> [] \<longrightarrow> snd (hd fs') - t \<le> 2000" "gaps_ok (map snd fs')"
    using Cons.prems(3) l by (cases fs'; simp add: fs)+
  have "casm_has kind gen blob (insert (unat i) S \<union> unat ` set is) (zr_casm (feed_chunks fs' ?z)) \<and>
    (is \<noteq> [] \<longrightarrow> ca_last_ms (zr_casm (feed_chunks fs' ?z)) = snd (last fs'))"
    by (rule Cons.IH [OF bs _ g(2)]) (use st g in simp)
  moreover have "ca_last_ms (zr_casm (feed_chunks fs z)) = snd (last fs)"
  proof (cases "is = []")
    case True
    with l have "fs' = []" by simp
    then show ?thesis by (simp add: fs feed_chunks_def st(2))
  next
    case False
    with l have "fs' \<noteq> []" by auto
    with False calculation show ?thesis unfolding fc by (simp add: fs)
  qed
  ultimately show ?case by (simp add: fc Un_insert_left Un_insert_right)
qed

lemma casm_has_complete:
  assumes "casm_has kind gen blob {..< ring_cfg_chunk_count (length blob)} a" "blob \<noteq> []"
    "length blob \<le> RING_CFG_BUF_MAX"
  shows "casm_complete a" "ca_kind a = kind" "ca_gen a = gen"
proof -
  let ?c = "ring_cfg_chunk_count (length blob)"
  have c: "?c \<le> 7" "0 < ?c"
    using assms(2,3) chunk_of_index [of 0 blob] by (simp_all add: ring_cfg_chunk_count_def cfg_consts)
  have h: "ca_active a" "unat (ca_count a) = ?c" "\<forall>i. bit (ca_got_mask a) i \<longleftrightarrow> i \<in> {..< ?c}"
    "ca_kind a = kind" "ca_gen a = gen"
    using assms(1) by (simp_all add: casm_has_def)
  have "ca_got_mask a = push_bit ?c 1 - 1" using full_mask_iff [OF h(3) subset_refl c(1)] by simp
  moreover have "0 < ca_count a" using h(2) c(2) by (simp add: word_less_nat_alt)
  ultimately show "casm_complete a" "ca_kind a = kind" "ca_gen a = gen" using h by (simp_all add: casm_complete_def)
qed

text \<open>Once the chunks of a blob are there, the commit of its transfer decides on the blob.\<close>

definition commit_frame :: "ring_frame \<Rightarrow> u8 \<Rightarrow> u32 \<Rightarrow> bool" where
  "commit_frame f kind gen \<longleftrightarrow> h_len (f_hdr f) \<ge> 5 \<and> f_payload f ! 0 = kind \<and> le32_at (f_payload f) 1 = gen"

text \<open>A push on the wire: the chunks of \<open>blob\<close> in any order and with repetitions, then the commit at \<open>now\<close>.\<close>

definition push_arrives ::
  "u8 \<Rightarrow> u32 \<Rightarrow> u8 list \<Rightarrow> u8 list \<Rightarrow> (ring_frame \<times> u32) list \<Rightarrow> ring_frame \<Rightarrow> u32 \<Rightarrow> zone_cfg_rx \<Rightarrow> bool" where
  "push_arrives kind gen blob is fs f now z \<longleftrightarrow>
     map (\<lambda>i. ring_cfg_chunk_build kind gen blob i 121) is = map (Some \<circ> frame_bytes \<circ> fst) fs \<and>
     unat ` set is = {..< ring_cfg_chunk_count (length blob)} \<and> is \<noteq> [] \<and>
     gaps_ok (map snd fs @ [now]) \<and> \<not> in_transfer kind gen (zr_casm z) \<and>
     commit_frame f kind gen \<and> ring_dup_check (zr_dup z) (h_seq (f_hdr f)) now = DUP_EXEC"

lemma gaps_ok_snoc: "gaps_ok (ts @ [b]) \<Longrightarrow> gaps_ok ts \<and> (ts \<noteq> [] \<longrightarrow> b - last ts \<le> 2000)"
  by (induction ts rule: gaps_ok.induct) auto

lemma push_decides:
  assumes "push_arrives kind gen blob is fs f now z" "blob \<noteq> []"
  obtains z1 where "commit_begin f now (feed_chunks fs z) =
      (z1, Inr (if kind = 1 then decide_cfg gen blob (zr_model z)
        else if kind = 2 then decide_hw blob (zr_model z) else CommitFail ''ERR MISSING_CHUNK''))"
    "zr_model z1 = zr_model z" "dup_seq (zr_dup z1) = h_seq (f_hdr f)"
proof -
  let ?z = "feed_chunks fs z"
  have b: "map (\<lambda>i. ring_cfg_chunk_build kind gen blob i 121) is = map (Some \<circ> frame_bytes \<circ> fst) fs"
    and all: "unat ` set is = {..< ring_cfg_chunk_count (length blob)}" "is \<noteq> []"
    and g: "gaps_ok (map snd fs @ [now])" and n: "\<not> in_transfer kind gen (zr_casm z)"
    and f: "\<not> h_len (f_hdr f) < 5" "f_payload f ! 0 = kind" "le32_at (f_payload f) 1 = gen"
    and d: "ring_dup_check (zr_dup z) (h_seq (f_hdr f)) now = DUP_EXEC"
    using assms(1) by (auto simp: push_arrives_def commit_frame_def)
  have fs: "fs \<noteq> []" using b all(2) by auto
  have c: "casm_has kind gen blob {..< ring_cfg_chunk_count (length blob)} (zr_casm ?z)"
    "ca_last_ms (zr_casm ?z) = snd (last fs)"
    using chunks_collected [OF b, of "{}" z] n all gaps_ok_snoc [OF g] by simp_all
  have len: "length blob \<le> RING_CFG_BUF_MAX"
    using b all(2) chunk_build_fields(9) [of kind gen blob "hd is" 121]
    by (cases "is"; cases fs; simp)
  note k = casm_has_complete [OF c(1) assms(2) len]
  have "now - ca_last_ms (zr_casm ?z) \<le> 2000"
    using gaps_ok_snoc [OF g] fs by (simp add: c(2) last_map)
  then have fr: "casm_fresh now (zr_casm ?z) = zr_casm ?z" by (rule casm_fresh_keeps)
  have blob: "take (unat (ca_total (zr_casm ?z))) (ca_buf (zr_casm ?z)) = blob"
    by (rule casm_has_all [OF c(1) len])
  let ?z1 = "?z\<lparr>zr_dup := ring_dup_start (zr_dup z) (h_seq (f_hdr f)) now\<rparr>"
  have "commit_begin f now ?z = (?z1, Inr (if kind = 1 then decide_cfg gen blob (zr_model z)
        else if kind = 2 then decide_hw blob (zr_model z) else CommitFail ''ERR MISSING_CHUNK''))"
    using f k d by (simp add: commit_begin_def zring_dup_begin_def fr blob Let_def)
  then show thesis by (intro that [of ?z1]) (simp_all add: ring_dup_start_def)
qed

lemma decide_on_wrapped:
  assumes "hg_blob_wrap HG_MAGIC_CFG HG_CFG_VER gen cfg cap = Some blob" "length cfg = 336" "cfg_generation cfg = gen"
  shows "decide_cfg gen blob m =
    (case commit_stale gen (cfg_generation (m_cfg m)) cfg (m_cfg m) of
       Some d \<Rightarrow> d
     | None \<Rightarrow> case hg_cfg_validate cfg (Some (m_hw m)) of
         Inl err \<Rightarrow> CommitFail (invalid_token err) | Inr _ \<Rightarrow> CommitCfg cfg)"
proof -
  have "HG_CFG_VER_MIN \<le> HG_CFG_VER" by (simp add: HG_CFG_VER_MIN_def HG_CFG_VER_def)
  from blob_round_trip [OF assms(1), of 336 HG_CFG_VER_MIN HG_CFG_VER "[]"] this assms(2)
  have "hg_blob_unwrap HG_MAGIC_CFG HG_CFG_VER HG_CFG_VER_MIN blob 336 = (HG_BLOB_OK, Some (cfg, gen))" by simp
  with assms(3) show ?thesis by (simp add: decide_cfg_def)
qed

lemma wrapped_nonempty: "hg_blob_wrap magic ver gen pl cap = Some blob \<Longrightarrow> blob \<noteq> []"
  by (auto simp: hg_blob_wrap_def Let_def le_put_defs split: if_splits)

text \<open>The acknowledgement \<open>0 OK\<close> of a frame.\<close>

definition ok_for :: "ring_frame \<Rightarrow> u8 \<times> u16 \<times> u8 \<times> u8 list" where
  "ok_for f = (h_src (f_hdr f), h_seq (f_hdr f), 0, bytes_of ''OK'')"

text \<open>A retransmission of a commit that was answered with success.\<close>

lemma commit_again:
  assumes "zone_ring_cfg_commit f now fin z0 = commit_ok f fin applied z1" "dup_seq (zr_dup z1) = h_seq (f_hdr f)"
    "h_len (f_hdr f) \<ge> 5" "later - fin \<le> 3000"
  defines "z2 \<equiv> fst (zone_ring_cfg_commit f now fin z0)"
  shows "zr_model (fst (zone_ring_cfg_commit f later fin' z2)) = zr_model z2"
    "map ack_seen (snd (zone_ring_cfg_commit f later fin' z2)) = [Some (ok_for f)]"
proof -
  have z2: "zr_dup z2 = ring_dup_done (zr_dup z1) (h_seq (f_hdr f)) 0 (Some (bytes_of ''OK'')) fin"
    by (simp add: z2_def assms(1) commit_ok_seen)
  have "snd (zring_dup_begin (zr_dup z2) (h_seq (f_hdr f)) later) = DupReply 0 (bytes_of ''OK'')"
    unfolding z2 using dup_done_replays [OF assms(2,4), of 0 "bytes_of ''OK''"] by simp
  then obtain d where "zring_dup_begin (zr_dup z2) (h_seq (f_hdr f)) later = (d, DupReply 0 (bytes_of ''OK''))"
    by (metis prod.collapse)
  moreover obtain z3 out where "zring_send_ack (h_src (f_hdr f)) (h_seq (f_hdr f)) 0 (bytes_of ''OK'') z2 = (z3, out)"
    by (metis surj_pair)
  ultimately have "zone_ring_cfg_commit f later fin' z2 =
      zring_send_ack (h_src (f_hdr f)) (h_seq (f_hdr f)) 0 (bytes_of ''OK'') z2"
    using assms(3) by (simp add: zone_ring_cfg_commit_def commit_begin_def leD)
  then show "zr_model (fst (zone_ring_cfg_commit f later fin' z2)) = zr_model z2"
    "map ack_seen (snd (zone_ring_cfg_commit f later fin' z2)) = [Some (ok_for f)]"
    by (simp_all add: send_ack_seen ok_for_def)
qed

lemma push_applied:
  assumes "push_arrives 1 gen blob is fs f now z"
    "hg_blob_wrap HG_MAGIC_CFG HG_CFG_VER gen cfg cap = Some blob" "length cfg = 336" "cfg_generation cfg = gen"
    "cfg_generation (m_cfg (zr_model z)) < gen" "hg_cfg_validate cfg (Some (m_hw (zr_model z))) = Inr ()"
  obtains z1 where "zone_ring_cfg_commit f now fin (feed_chunks fs z) = commit_ok f fin True z1"
    "zr_model z1 = hg_model_apply_cfg (zr_model z) cfg" "dup_seq (zr_dup z1) = h_seq (f_hdr f)"
proof -
  obtain z0 where "commit_begin f now (feed_chunks fs z) = (z0, Inr (decide_cfg gen blob (zr_model z)))"
    "zr_model z0 = zr_model z" "dup_seq (zr_dup z0) = h_seq (f_hdr f)"
    by (rule push_decides [OF assms(1) wrapped_nonempty [OF assms(2)]]) simp
  moreover have "decide_cfg gen blob (zr_model z) = CommitCfg cfg"
    using assms(5,6) by (simp add: decide_on_wrapped [OF assms(2-4)] commit_stale_def)
  ultimately show thesis
    by (intro that [of "z0\<lparr>zr_model := hg_model_apply_cfg (zr_model z0) cfg\<rparr>"]) (simp_all add: zone_ring_cfg_commit_def commit_finish_def)
qed

lemma push_repeated:
  assumes "push_arrives 1 gen blob is fs f now z"
    "hg_blob_wrap HG_MAGIC_CFG HG_CFG_VER gen cfg cap = Some blob" "length cfg = 336" "cfg_generation cfg = gen"
    "m_cfg (zr_model z) = cfg"
  obtains z1 where "zone_ring_cfg_commit f now fin (feed_chunks fs z) = commit_ok f fin False z1"
    "zr_model z1 = zr_model z"
proof -
  obtain z0 where "commit_begin f now (feed_chunks fs z) = (z0, Inr (decide_cfg gen blob (zr_model z)))"
    "zr_model z0 = zr_model z"
    by (rule push_decides [OF assms(1) wrapped_nonempty [OF assms(2)]]) simp
  moreover have "decide_cfg gen blob (zr_model z) = CommitSame"
    using assms(4,5) by (simp add: decide_on_wrapped [OF assms(2-4)] commit_stale_def)
  ultimately show thesis by (intro that [of z0]) (simp_all add: zone_ring_cfg_commit_def commit_finish_def)
qed

section \<open>What CFG_GET sends\<close>

text \<open>The payloads of the chunks among the output.\<close>

definition chunk_payloads :: "cfg_out list \<Rightarrow> u8 list list" where
  "chunk_payloads outs =
     concat (map (\<lambda>out. case out of OutSend h p \<Rightarrow> if h_type h = RING_T_CFG_CHUNK then [p] else [] | OutFlush _ \<Rightarrow> []) outs)"

lemma chunk_payloads_simps [simp]:
  "chunk_payloads [] = []" "chunk_payloads (xs @ ys) = chunk_payloads xs @ chunk_payloads ys"
  by (simp_all add: chunk_payloads_def)

lemma chunk_build_ok:
  assumes "length wire \<le> RING_CFG_BUF_MAX" "i < ring_cfg_chunk_count (length wire)"
  shows "ring_cfg_chunk_build kind gen wire (of_nat i) 121 \<noteq> None"
proof -
  have "ring_cfg_chunk_count (length wire) \<le> 7" using assms(1) by (simp add: ring_cfg_chunk_count_def cfg_consts)
  then have "unat (of_nat i :: u8) = i" using assms(2) by (simp add: unat_of_nat_u8)
  then show ?thesis using assms by (simp add: ring_cfg_chunk_build_def Let_def cfg_consts)
qed

lemma send_chunks_payloads:
  assumes "length wire \<le> RING_CFG_BUF_MAX" "\<forall>i \<in> set is. i < ring_cfg_chunk_count (length wire)"
  shows "map Some (chunk_payloads (snd (send_chunks dst kind gen wire is z))) =
      map (\<lambda>i. ring_cfg_chunk_build kind gen wire (of_nat i) 121) is"
  using assms(2)
proof (induction "is" arbitrary: z)
  case (Cons i "is")
  then obtain p where p: "ring_cfg_chunk_build kind gen wire (of_nat i) 121 = Some p"
    using chunk_build_ok [OF assms(1)] by fastforce
  have c: "9 + RING_CFG_DATA_MAX = 121" by (simp add: cfg_consts)
  show ?case
    using Cons by (simp add: p c zring_send_def zring_next_seq_def Let_def split_def) (simp add: chunk_payloads_def)
qed simp

lemma send_ack_no_chunk: "chunk_payloads (snd (zring_send_ack dst s st detail z)) = []"
  by (auto simp: zring_send_ack_def zring_send_def zring_next_seq_def Let_def chunk_payloads_def ring_types
      split: option.splits)

lemma send_ack_model: "zr_model (fst (zring_send_ack dst s st detail z)) = zr_model z"
  by (auto simp: zring_send_ack_def zring_send_def zring_next_seq_def Let_def split: option.splits)

definition kind_plane :: "u8 \<Rightarrow> plane" where "kind_plane kind = (if kind = 1 then PlaneCfg else PlaneHw)"

lemma get_wire_ok:
  assumes "planes_ok (m_hw m) (m_cfg m)"
  obtains wire where "get_wire kind m = (Some wire, snd (get_wire kind m))" "wire \<noteq> []" "length wire \<le> RING_CFG_BUF_MAX"
    "plane_unwrap (kind_plane kind) wire = (HG_BLOB_OK, Some (ram_plane (kind_plane kind) m, snd (get_wire kind m)))"
proof -
  let ?p = "kind_plane kind" and ?g = "snd (get_wire kind m)"
  have l: "length (ram_plane ?p m) = plane_size ?p" by (rule ram_length [OF assms])
  have w: "get_wire kind m = (hg_blob_wrap (plane_magic ?p) (plane_ver ?p) ?g (ram_plane ?p m) 352, ?g)"
    by (simp add: get_wire_def kind_plane_def plane_magic_def plane_ver_def ram_plane_def)
  have s: "plane_size ?p \<le> 336" by (simp add: kind_plane_def plane_size_def)
  then obtain wire where wire: "hg_blob_wrap (plane_magic ?p) (plane_ver ?p) ?g (ram_plane ?p m) 352 = Some wire"
    and lw: "length wire = 16 + plane_size ?p"
    by (simp add: hg_blob_wrap_def Let_def HG_BLOB_HDR_LEN_def l)
  have "plane_ver_min ?p \<le> plane_ver ?p" by (simp add: kind_plane_def plane_consts)
  with blob_round_trip [OF wire, of "plane_size ?p" "plane_ver_min ?p" "plane_ver ?p" "[]"] l s
  have "plane_unwrap ?p wire = (HG_BLOB_OK, Some (ram_plane ?p m, ?g))" by (simp add: plane_unwrap_def)
  moreover have "get_wire kind m = (Some wire, ?g)" using w wire by (metis)
  ultimately show thesis using lw s by (intro that [of wire]) (auto simp: cfg_consts)
qed

lemma get_payloads:
  assumes "planes_ok (m_hw (zr_model z)) (m_cfg (zr_model z))" "h_len (f_hdr f) \<ge> 1" "f_payload f ! 0 \<in> {1, 2}"
    "get_wire (f_payload f ! 0) (zr_model z) = (Some wire, gen)" "length wire \<le> RING_CFG_BUF_MAX"
  shows "map Some (chunk_payloads (snd (zone_ring_cfg_get f z))) =
    map (\<lambda>i. ring_cfg_chunk_build (f_payload f ! 0) gen wire (of_nat i) 121) [0 ..< ring_cfg_chunk_count (length wire)]"
proof -
  let ?is = "[0 ..< ring_cfg_chunk_count (length wire)]"
  obtain z1 out where a: "zring_send_ack (h_src (f_hdr f)) (h_seq (f_hdr f)) 0 (bytes_of ''OK'') z = (z1, out)"
    by (metis surj_pair)
  have m: "zr_model z1 = zr_model z" "chunk_payloads out = []"
    using send_ack_model [of "h_src (f_hdr f)" "h_seq (f_hdr f)" 0 "bytes_of ''OK''" z]
      send_ack_no_chunk [of "h_src (f_hdr f)" "h_seq (f_hdr f)" 0 "bytes_of ''OK''" z] by (simp_all add: a)
  have "snd (zone_ring_cfg_get f z) = out @ snd (send_chunks (h_src (f_hdr f)) (f_payload f ! 0) gen wire ?is z1)"
    using assms(2-4) by (auto simp: zone_ring_cfg_get_def a m leD split_def Let_def)
  then show ?thesis using send_chunks_payloads [OF assms(5), of ?is] by (simp add: m)
qed

lemma got_is_live:
  fixes t :: "u8 list \<Rightarrow> u32"
  assumes "planes_ok (m_hw (zr_model z)) (m_cfg (zr_model z))" "h_len (f_hdr f) \<ge> 1" "f_payload f ! 0 = kind"
    "kind \<in> {1, 2}" "\<not> in_transfer kind (snd (get_wire kind (zr_model z))) a"
  defines "a' \<equiv> fst (run_steps casm_step a (map (\<lambda>p. (p, t p)) (chunk_payloads (snd (zone_ring_cfg_get f z)))))"
  shows "casm_complete a'"
    "plane_unwrap (kind_plane kind) (take (unat (ca_total a')) (ca_buf a')) =
       (HG_BLOB_OK, Some (ram_plane (kind_plane kind) (zr_model z), snd (get_wire kind (zr_model z))))"
proof -
  let ?ps = "chunk_payloads (snd (zone_ring_cfg_get f z))" and ?g = "snd (get_wire kind (zr_model z))"
  obtain wire where w: "get_wire kind (zr_model z) = (Some wire, ?g)" "wire \<noteq> []" "length wire \<le> RING_CFG_BUF_MAX"
    and u: "plane_unwrap (kind_plane kind) wire = (HG_BLOB_OK, Some (ram_plane (kind_plane kind) (zr_model z), ?g))"
    by (rule get_wire_ok [OF assms(1)])
  let ?c = "ring_cfg_chunk_count (length wire)"
  let ?is = "map of_nat [0 ..< ?c] :: u8 list"
  have c: "0 < ?c" "?c \<le> 7" using w(2,3) chunk_of_index [of 0 wire] by (simp_all add: ring_cfg_chunk_count_def cfg_consts)
  have "map Some ?ps = map (\<lambda>i. ring_cfg_chunk_build kind ?g wire (of_nat i) 121) [0 ..< ?c]"
    using get_payloads [OF assms(1,2) _ _ w(3), of ?g] assms(3,4) w(1) by simp
  then have chunks: "map (\<lambda>i. ring_cfg_chunk_build kind ?g wire i 121) ?is = map (Some \<circ> fst) (map (\<lambda>p. (p, t p)) ?ps)"
    by (simp add: comp_def)
  have n: "\<not> (ca_active a \<and> ca_kind a = kind \<and> ca_gen a = ?g)" using assms(5) by (simp add: in_transfer_def)
  have "unat ` set ?is = (\<lambda>i. unat (of_nat i :: u8)) ` {..< ?c}" by (simp add: image_image atLeast0LessThan)
  also have "\<dots> = (\<lambda>i. i) ` {..< ?c}" by (rule image_cong) (use c(2) in \<open>simp_all add: unat_of_nat_u8\<close>)
  finally have all: "unat ` set ?is = {..< ?c}" by simp
  have ne: "?is \<noteq> []" using c(1) by simp
  have "casm_has kind ?g wire {..< ?c} a'"
    using casm_run_has [OF chunks disjI2 [OF conjI [OF refl n]] ne] all by (simp add: a'_def)
  from casm_has_complete(1) [OF this w(2,3)] show "casm_complete a'" .
  from casm_reassembles(1) [OF chunks n all ne]
  show "plane_unwrap (kind_plane kind) (take (unat (ca_total a')) (ca_buf a')) =
       (HG_BLOB_OK, Some (ram_plane (kind_plane kind) (zr_model z), ?g))"
    by (simp only: a'_def u)
qed

section \<open>An edit between the decision and its application\<close>

text \<open>The decision stands on the model of its time; the application does not look again.\<close>

lemma late_commit_overwrites:
  assumes "commit_begin f now z = (z1, Inr (CommitCfg cfg))"
  shows "m_cfg (zr_model (fst (commit_finish f fin (CommitCfg cfg) (z1\<lparr>zr_model := m\<rparr>)))) = cfg"
  by (simp add: commit_finish_def commit_ok_seen hg_model_apply_cfg_def)

text \<open>The two push steps of the store task.\<close>

definition pushes_cfg :: "zone_store \<Rightarrow> zone_store \<Rightarrow> bool" where
  "pushes_cfg s s' \<longleftrightarrow> (\<exists>cfg. length cfg = 336 \<and> hg_cfg_validate cfg (Some (m_hw (zs_model s))) = Inr () \<and>
     s' = s\<lparr>zs_model := hg_model_apply_cfg (zs_model s) cfg\<rparr>)"

definition pushes_hw :: "zone_store \<Rightarrow> zone_store \<Rightarrow> bool" where
  "pushes_hw s s' \<longleftrightarrow> (\<exists>hw m. length hw = 160 \<and> hg_model_apply_hw (zs_model s) hw = Inr m \<and> s' = s\<lparr>zs_model := m\<rparr>)"

lemma pushes_are_steps:
  "pushes_cfg s s' \<Longrightarrow> store_step s s'" "pushes_hw s s' \<Longrightarrow> store_step s s'"
  by (auto simp: pushes_cfg_def pushes_hw_def intro: step_push_cfg step_push_hw)

section \<open>Properties\<close>

text \<open>A push of a plane of which nothing is lost, to a zone that has just started.\<close>

definition push_frame :: "u8 \<Rightarrow> u8 list \<Rightarrow> ring_frame" where
  "push_frame type p = \<lparr>f_hdr = \<lparr>h_src = 0, h_dst = 1, h_type = type, h_flags = 1, h_ttl = 16,
     h_len = of_nat (length p), h_seq = 7\<rparr>, f_payload = p\<rparr>"

definition push_chunks :: "u32 \<Rightarrow> u8 list \<Rightarrow> (ring_frame \<times> u32) list" where
  "push_chunks gen blob =
     map (\<lambda>i. (push_frame RING_T_CFG_CHUNK (the (ring_cfg_chunk_build 1 gen blob (of_nat i) 121)), 0))
       [0 ..< ring_cfg_chunk_count (length blob)]"

definition push_commit :: "u32 \<Rightarrow> ring_frame" where
  "push_commit gen = push_frame RING_T_CFG_COMMIT (1 # le32_put gen)"

definition new_zone :: zone_cfg_rx where
  "new_zone = \<lparr>zr_casm = ring_casm_init, zr_dup = ring_dup_init, zr_tx_seq = 0, zr_zid = 1, zr_model = hg_model_init\<rparr>"

definition new_cfg :: hg_zone_cfg where "new_cfg = cfg_stamp hg_defaults_cfg 1 HG_SRC_MASTER"

definition new_wire :: "u8 list" where
  "new_wire = the (hg_blob_wrap HG_MAGIC_CFG HG_CFG_VER 1 new_cfg 352)"

lemma frame_bytes_push: "length p < 256 \<Longrightarrow> frame_bytes (push_frame type p) = p"
  by (simp add: frame_bytes_def push_frame_def unat_of_nat_u8)

lemma chunk_build_length: "ring_cfg_chunk_build kind gen blob i 121 = Some p \<Longrightarrow> length p \<le> 121"
  by (auto simp: ring_cfg_chunk_build_def Let_def cfg_consts split: if_splits)

lemma new_cfg_facts:
  "length new_cfg = 336" "cfg_generation new_cfg = 1" "hg_cfg_validate new_cfg (Some hg_defaults_hw) = Inr ()"
  "hg_blob_wrap HG_MAGIC_CFG HG_CFG_VER 1 new_cfg 352 = Some new_wire" "length new_wire = 352"
  "cfg_generation hg_defaults_cfg = 0"
proof -
  have l: "length hg_defaults_cfg = 336" by (simp add: hg_defaults_cfg_eq)
  show c: "length new_cfg = 336" "cfg_generation new_cfg = 1" by (simp_all add: new_cfg_def cfg_stamp_facts l)
  show "hg_cfg_validate new_cfg (Some hg_defaults_hw) = Inr ()"
    using defaults_cfg_valid by (simp add: hg_cfg_validate_spec new_cfg_def cfg_spec_stamp l)
  show "hg_blob_wrap HG_MAGIC_CFG HG_CFG_VER 1 new_cfg 352 = Some new_wire" "length new_wire = 352"
    by (simp_all add: new_wire_def hg_blob_wrap_def Let_def HG_BLOB_HDR_LEN_def c)
  show "cfg_generation hg_defaults_cfg = 0" by (simp add: hg_defaults_cfg_eq cfg_generation_def le32_at_def le32_get_def)
qed

lemma gaps_ok_same: "gaps_ok (replicate n t)"
proof (induction n)
  case (Suc n)
  then show ?case by (cases n) simp_all
qed simp

lemma new_push_arrives:
  assumes "\<not> in_transfer 1 1 (zr_casm z)" "ring_dup_check (zr_dup z) 7 0 = DUP_EXEC"
  shows "push_arrives 1 1 new_wire (map of_nat [0 ..< 4]) (push_chunks 1 new_wire) (push_commit 1) 0 z"
proof -
  have c: "ring_cfg_chunk_count (length new_wire) = 4"
    by (simp add: new_cfg_facts ring_cfg_chunk_count_def cfg_consts)
  have "ring_cfg_chunk_build 1 1 new_wire (of_nat i) 121 =
      Some (frame_bytes (push_frame RING_T_CFG_CHUNK (the (ring_cfg_chunk_build 1 1 new_wire (of_nat i) 121))))"
    if i: "i < 4" for i
  proof -
    obtain p where p: "ring_cfg_chunk_build 1 1 new_wire (of_nat i) 121 = Some p"
      using chunk_build_ok [of new_wire i 1 1] i c by (auto simp: new_cfg_facts cfg_consts)
    with chunk_build_length [OF p] show ?thesis by (simp add: frame_bytes_push)
  qed
  then have "map (\<lambda>i. ring_cfg_chunk_build 1 1 new_wire i 121) (map of_nat [0 ..< 4]) =
      map (Some \<circ> frame_bytes \<circ> fst) (push_chunks 1 new_wire)"
    by (simp add: push_chunks_def c)
  moreover have "map snd (push_chunks 1 new_wire) @ [0] = replicate 5 0"
    by (simp add: push_chunks_def c upt_4 numeral_eq_Suc)
  moreover have "unat ` set (map (of_nat :: nat \<Rightarrow> u8) [0 ..< 4]) = {..< 4}"
    by (simp add: upt_4 lessThan_nat_numeral lessThan_Suc insert_commute)
  moreover have "commit_frame (push_commit 1) 1 1"
    by (simp add: commit_frame_def push_commit_def push_frame_def le_put_defs le32_at_def le32_get_def)
  moreover have "h_seq (f_hdr (push_commit 1)) = 7" by (simp add: push_commit_def push_frame_def)
  ultimately show ?thesis
    using assms by (simp add: push_arrives_def c gaps_ok_same)
qed

lemma new_zone_facts:
  "\<not> in_transfer 1 1 (zr_casm new_zone)" "ring_dup_check (zr_dup new_zone) 7 0 = DUP_EXEC"
  "zr_model new_zone = hg_model_init"
  "m_hw hg_model_init = hg_defaults_hw" "m_cfg hg_model_init = hg_defaults_cfg"
  by (simp_all add: new_zone_def in_transfer_def ring_casm_init_def ring_dup_defs hg_model_init_def)

text \<open>The decision of a commit rests on a snapshot and the application does not look again: an edit of the logical plane that another task gets accepted in between is overwritten and acknowledged away, although by then the same push would be refused as stale.\<close>

lemma edit_during_a_commit_is_lost:
  assumes "commit_begin f now z = (z1, Inr (CommitCfg cfg))" "hg_model_edit (zr_model z1) fn = Inr m"
    "cfg_generation cfg \<le> cfg_generation (m_cfg m)"
  shows "let (z2, out) = commit_finish f fin (CommitCfg cfg) (z1\<lparr>zr_model := m\<rparr>) in
    m_cfg (zr_model z2) = cfg \<and> map ack_seen out = [Some (ok_for f), None] \<and>
    (\<forall>blob. decide_cfg (cfg_generation cfg) blob m \<noteq> CommitCfg cfg)"
proof -
  have "decide_cfg (cfg_generation cfg) blob m \<noteq> CommitCfg cfg" for blob
    using decide_cfg_CommitCfg(3) [of "cfg_generation cfg" blob m cfg] assms(3) by auto
  then show ?thesis
    by (simp add: Let_def split_def commit_finish_def commit_ok_seen hg_model_apply_cfg_def ok_for_def)
qed

lemma edit_during_a_commit_is_lost_witness:
  \<open>\<exists>z1 m. commit_begin (push_commit 1) 0 (feed_chunks (push_chunks 1 new_wire) new_zone) = (z1, Inr (CommitCfg new_cfg)) \<and>
    hg_model_edit (zr_model z1) (\<lambda>hw cfg. (hw, cfg, HG_CH_CFG)) = Inr m \<and> m_cfg m \<noteq> new_cfg \<and>
    m_cfg (zr_model (fst (commit_finish (push_commit 1) 0 (CommitCfg new_cfg) (z1\<lparr>zr_model := m\<rparr>)))) = new_cfg\<close>
proof -
  let ?fn = "\<lambda>hw cfg. (hw, cfg, HG_CH_CFG)"
  obtain z1 where z1: "commit_begin (push_commit 1) 0 (feed_chunks (push_chunks 1 new_wire) new_zone) =
      (z1, Inr (decide_cfg 1 new_wire (zr_model new_zone)))" "zr_model z1 = zr_model new_zone"
    by (rule push_decides [OF new_push_arrives [OF new_zone_facts(1,2)] wrapped_nonempty [OF new_cfg_facts(4)]]) simp
  have d: "decide_cfg 1 new_wire (zr_model new_zone) = CommitCfg new_cfg"
    by (simp add: decide_on_wrapped [OF new_cfg_facts(4,1,2)] commit_stale_def new_zone_facts new_cfg_facts)
  let ?m = "hg_model_init\<lparr>m_cfg := cfg_stamp hg_defaults_cfg 1 HG_SRC_LOCAL, m_seq := 1, m_dirty := dirty_of HG_CH_CFG\<rparr>"
  have l: "length hg_defaults_cfg = 336" by (simp add: hg_defaults_cfg_eq)
  have hb: "has_bits HG_CH_CFG HG_CH_CFG" "\<not> has_bits HG_CH_CFG HG_CH_HW" "\<not> has_bits HG_CH_CFG HG_CH_HW_LIVE"
    by (simp_all add: has_bits_def HG_CH_CFG_def HG_CH_HW_def HG_CH_HW_LIVE_def)
  have e: "hg_model_edit (zr_model z1) ?fn = Inr ?m"
    using defaults_cfg_valid
    by (simp add: hg_model_edit_def z1(2) new_zone_facts hg_model_init_def has_bits_or hb gen_next_def new_cfg_facts)
  have "cfg_stamp hg_defaults_cfg 1 HG_SRC_LOCAL ! 4 \<noteq> new_cfg ! 4"
    by (simp add: new_cfg_def cfg_stamp_facts l HG_SRC_LOCAL_def HG_SRC_MASTER_def)
  then have n: "m_cfg ?m \<noteq> new_cfg" by auto
  have "cfg_generation new_cfg \<le> cfg_generation (m_cfg ?m)" by (simp add: new_cfg_facts cfg_stamp_facts l)
  from edit_during_a_commit_is_lost [OF z1(1) [unfolded d] e this, of 0] z1(1) d e n show ?thesis
    by (intro exI [of _ z1] exI [of _ ?m]) (simp add: Let_def split_def)
qed

text \<open>The chunks that a CFG_GET makes the zone send are a complete transfer: fed to a reassembler that is not in that transfer they give a blob that unwraps to the live plane with its generation (0 for the hardware plane).\<close>

lemma fetched_plane_is_the_live_one:
  assumes "planes_ok (m_hw (zr_model z)) (m_cfg (zr_model z))" "h_len (f_hdr f) \<ge> 1" "f_payload f ! 0 = kind"
    "kind \<in> {1, 2}" "\<not> in_transfer kind (snd (get_wire kind (zr_model z))) a"
  shows "let a' = fst (run_steps casm_step a (map (\<lambda>p. (p, t p)) (chunk_payloads (snd (zone_ring_cfg_get f z)))))
    in casm_complete a' \<and> plane_unwrap (kind_plane kind) (take (unat (ca_total a')) (ca_buf a')) =
       (HG_BLOB_OK, Some (if kind = 1 then (m_cfg (zr_model z), cfg_generation (m_cfg (zr_model z)))
                          else (m_hw (zr_model z), 0)))"
proof -
  from assms(4) have "kind_plane kind = (if kind = 1 then PlaneCfg else PlaneHw)" by (simp add: kind_plane_def)
  with got_is_live [OF assms, of t] show ?thesis by (auto simp: Let_def ram_plane_def get_wire_def)
qed

lemma fetched_plane_is_the_live_one_witness:
  \<open>casm_complete (fst (run_steps casm_step ring_casm_init
     (map (\<lambda>p. (p, 0)) (chunk_payloads (snd (zone_ring_cfg_get (push_frame RING_T_CFG_GET [1]) new_zone))))))\<close>
  using fetched_plane_is_the_live_one [of new_zone "push_frame RING_T_CFG_GET [1]" 1 ring_casm_init "\<lambda>_. 0"] init_planes_ok
  by (simp add: new_zone_facts push_frame_def in_transfer_def ring_casm_init_def Let_def)

text \<open>When a plane that is already live is pushed again as a new transfer, as after a lost acknowledgement, the commit is answered with OK and the model is not touched: nothing is marked for writing again.\<close>

lemma repeated_push_is_idempotent:
  assumes "push_arrives 1 gen blob is fs f now z"
    "hg_blob_wrap HG_MAGIC_CFG HG_CFG_VER gen cfg cap = Some blob" "length cfg = 336" "cfg_generation cfg = gen"
    "m_cfg (zr_model z) = cfg"
  shows "let (z1, out) = zone_ring_cfg_commit f now fin (feed_chunks fs z)
    in zr_model z1 = zr_model z \<and> map ack_seen out = [Some (ok_for f)]"
proof -
  obtain z1 where "zone_ring_cfg_commit f now fin (feed_chunks fs z) = commit_ok f fin False z1" "zr_model z1 = zr_model z"
    by (rule push_repeated [OF assms])
  then show ?thesis by (simp add: Let_def split_def commit_ok_seen ok_for_def)
qed

lemma repeated_push_is_idempotent_witness:
  \<open>let z = new_zone\<lparr>zr_model := hg_model_init\<lparr>m_cfg := new_cfg\<rparr>\<rparr> in
    zr_model (fst (zone_ring_cfg_commit (push_commit 1) 0 0 (feed_chunks (push_chunks 1 new_wire) z))) = zr_model z\<close>
  using repeated_push_is_idempotent [OF new_push_arrives new_cfg_facts(4,1,2),
      of "new_zone\<lparr>zr_model := hg_model_init\<lparr>m_cfg := new_cfg\<rparr>\<rparr>" 0] new_zone_facts(1,2)
  by (simp add: Let_def split_def)

text \<open>C25. A newer, valid logical plane whose chunks reach the zone in any order and with repetitions, each less than 2 s after the other, and whose commit is no retransmission, becomes the live plane unchanged and is acknowledged with OK; a retransmission of the commit within 3 s is answered with the same acknowledgement and changes nothing.\<close>

lemma pushed_plane_is_applied_once:
  assumes "push_arrives 1 gen blob is fs f now z"
    "hg_blob_wrap HG_MAGIC_CFG HG_CFG_VER gen cfg cap = Some blob" "length cfg = 336" "cfg_generation cfg = gen"
    "cfg_generation (m_cfg (zr_model z)) < gen" "hg_cfg_validate cfg (Some (m_hw (zr_model z))) = Inr ()"
    "later - fin \<le> 3000"
  shows "let (z1, out) = zone_ring_cfg_commit f now fin (feed_chunks fs z);
             (z2, out') = zone_ring_cfg_commit f later fin' z1
    in zr_model z1 = hg_model_apply_cfg (zr_model z) cfg \<and> map ack_seen out = [Some (ok_for f), None] \<and>
       zr_model z2 = zr_model z1 \<and> map ack_seen out' = [Some (ok_for f)]"
proof -
  obtain z1 where c: "zone_ring_cfg_commit f now fin (feed_chunks fs z) = commit_ok f fin True z1"
    "zr_model z1 = hg_model_apply_cfg (zr_model z) cfg" "dup_seq (zr_dup z1) = h_seq (f_hdr f)"
    by (rule push_applied [OF assms(1-6)])
  have "h_len (f_hdr f) \<ge> 5" using assms(1) by (simp add: push_arrives_def commit_frame_def)
  from commit_again [OF c(1,3) this assms(7), of fin'] c show ?thesis
    by (simp add: Let_def split_def commit_ok_seen ok_for_def)
qed

lemma pushed_plane_is_applied_once_witness:
  \<open>m_cfg (zr_model (fst (zone_ring_cfg_commit (push_commit 1) 0 0 (feed_chunks (push_chunks 1 new_wire) new_zone)))) = new_cfg\<close>
  using pushed_plane_is_applied_once [OF new_push_arrives [OF new_zone_facts(1,2)] new_cfg_facts(4,1,2), of 0 0 0]
  by (simp add: new_zone_facts new_cfg_facts Let_def split_def) (simp add: hg_model_apply_cfg_def)

text \<open>C26. Whatever frame arrives as a commit, in whatever state: the model stays as it is, or it takes a whole logical plane with the generation the frame names, newer than the live one and accepted by the specification of the validator for the live hardware, with its dirty bit set and nothing else changed, or a whole hardware plane other than the live one, accepted by the specification together with the live logical plane, with its dirty bit and the pending restart set. For the store task these are no step, its step for a pushed logical plane, and its step for a pushed hardware plane, so that what is shown of the store's steps holds with pushes from the ring.\<close>

lemma commits_only_move_forward:
  "let m = zr_model z; m' = zr_model (fst (zone_ring_cfg_commit f now fin z));
       before = s\<lparr>zs_model := m\<rparr>; after = s\<lparr>zs_model := m'\<rparr> in
    m' = m \<or>
    store_step before after \<and>
     (pushes_cfg before after \<and> f_payload f ! 0 = 1 \<and> length (m_cfg m') = 336 \<and>
       cfg_generation (m_cfg m') = le32_at (f_payload f) 1 \<and> cfg_generation (m_cfg m) < cfg_generation (m_cfg m') \<and>
       cfg_spec (m_cfg m') (Some (m_hw m)) \<and>
       m' = m\<lparr>m_cfg := m_cfg m', m_dirty := m_dirty m OR 2, m_seq := m_seq m + 1\<rparr> \<or>
      pushes_hw before after \<and> f_payload f ! 0 = 2 \<and> length (m_hw m') = 160 \<and> m_hw m' \<noteq> m_hw m \<and>
       hw_spec (m_hw m') \<and> cfg_spec (m_cfg m) (Some (m_hw m')) \<and>
       m' = m\<lparr>m_hw := m_hw m', m_hw_gen := m_hw_gen m + 1, m_dirty := m_dirty m OR 1, m_restart_pending := True,
              m_seq := m_seq m + 1\<rparr>)"
proof (cases rule: commit_model_cases [of f now fin z])
  case 1
  then show ?thesis by (simp add: Let_def)
next
  case (2 cfg)
  have p: "pushes_cfg (s\<lparr>zs_model := zr_model z\<rparr>) (s\<lparr>zs_model := hg_model_apply_cfg (zr_model z) cfg\<rparr>)"
    using 2(2,5) by (auto simp: pushes_cfg_def)
  with pushes_are_steps(1) [OF p] 2(1-4) 2(5) [unfolded hg_cfg_validate_spec] show ?thesis
    unfolding 2(6) Let_def by (simp add: hg_model_apply_cfg_def HG_CH_CFG_def)
next
  case (3 hw)
  define m' where "m' = zr_model (fst (zone_ring_cfg_commit f now fin z))"
  have p: "pushes_hw (s\<lparr>zs_model := zr_model z\<rparr>) (s\<lparr>zs_model := m'\<rparr>)"
    using 3(2,4) by (auto simp: pushes_hw_def m'_def)
  have m: "m' = (zr_model z)\<lparr>m_hw := hw, m_hw_gen := m_hw_gen (zr_model z) + 1, m_dirty := m_dirty (zr_model z) OR 1,
      m_restart_pending := True, m_seq := m_seq (zr_model z) + 1\<rparr>" "hw_spec hw" "cfg_spec (m_cfg (zr_model z)) (Some hw)"
    using 3(4) by (auto simp: hg_model_apply_hw_def ebind_eq_Inr hg_hw_validate_spec hg_cfg_validate_spec HG_CH_HW_def m'_def)
  have "m_hw m' = hw" by (simp add: m(1))
  with pushes_are_steps(2) [OF p] p 3(1-3) m show ?thesis
    unfolding Let_def m'_def [symmetric] by simp
qed

lemma commits_only_move_forward_witness:
  \<open>cfg_generation (m_cfg hg_model_init) <
    cfg_generation (m_cfg (zr_model (fst (zone_ring_cfg_commit (push_commit 1) 0 0 (feed_chunks (push_chunks 1 new_wire) new_zone)))))\<close>
proof -
  let ?z = "feed_chunks (push_chunks 1 new_wire) new_zone"
  obtain z1 where c: "zone_ring_cfg_commit (push_commit 1) 0 0 ?z = commit_ok (push_commit 1) 0 True z1"
    "zr_model z1 = hg_model_apply_cfg (zr_model new_zone) new_cfg"
    by (rule push_applied [OF new_push_arrives [OF new_zone_facts(1,2)] new_cfg_facts(4,1,2), of 0])
      (simp_all add: new_zone_facts new_cfg_facts)
  define m' where "m' = zr_model (fst (zone_ring_cfg_commit (push_commit 1) 0 0 ?z))"
  have "m_cfg m' = new_cfg" by (simp add: m'_def c commit_ok_seen hg_model_apply_cfg_def)
  moreover have "new_cfg \<noteq> m_cfg hg_model_init" using new_cfg_facts(2,6) by (auto simp: new_zone_facts)
  moreover have "m_cfg (m\<lparr>m_hw := h, m_hw_gen := g, m_dirty := d, m_restart_pending := True, m_seq := q\<rparr>) = m_cfg m" for m h g d q
    by simp
  ultimately show ?thesis
    using commits_only_move_forward [where s = "hg_store_init empty_nvs None" and z = ?z and f = "push_commit 1" and now = 0 and fin = 0]
    unfolding Let_def feed_chunks_other new_zone_facts(3) m'_def [symmetric] by metis
qed

end
