(* ===== verification/HG_Mcfg.thy ===== *)
theory HG_Mcfg
  imports HG_Cfg_Text HG_Blob
begin

text \<open>
  The master's own configuration: \<^verbatim>\<open>components/hg_mcfg/hg_mcfg.c\<close> (layout, defaults, validation,
  envelope), \<^verbatim>\<open>hg_mcfg/mcfg_store.c\<close> (flash and the double buffer readers use without a lock),
  \<^verbatim>\<open>mcfg_ops/mcfg_ops.c\<close> (the locked read-modify-write) and \<^verbatim>\<open>panel_svc/psvc_mcfg.c\<close> (the edits
  of the web page and the panel). Shown: what is committed is well-formed, all of it or nothing
  is published, and a restart loads what was published unless a write failed; edits run one
  after the other lose nothing; and the double buffer protects a reader from one commit,
  but not from two.
\<close>

section \<open>The configuration\<close>

text \<open>The struct is its byte image of 368 bytes; a string runs up to the first zero byte, wherever that is.\<close>

type_synonym hg_mcfg = "u8 list"

definition HG_MAGIC_MCFG :: u32 where "HG_MAGIC_MCFG = 0x46434D48"
definition HG_MCFG_VER :: u16 where "HG_MCFG_VER = 1"
definition HG_MCFG_VER_MIN :: u16 where "HG_MCFG_VER_MIN = 1"
definition MCFG_F_WEB_DEFAULT :: u8 where "MCFG_F_WEB_DEFAULT = 0x01"
definition MCFG_F_AP_DEFAULT :: u8 where "MCFG_F_AP_DEFAULT = 0x02"
definition MCFG_LEN :: nat where "MCFG_LEN = 368"

definition mc_sta_ssid :: nat where "mc_sta_ssid = 0"
definition mc_sta_pass :: nat where "mc_sta_pass = 33"
definition mc_ap_ssid :: nat where "mc_ap_ssid = 98"
definition mc_ap_pass :: nat where "mc_ap_pass = 131"
definition mc_web_salt :: nat where "mc_web_salt = 196"
definition mc_web_hash :: nat where "mc_web_hash = 212"
definition mc_tz :: nat where "mc_tz = 244"
definition mc_ntp :: nat where "mc_ntp = 292"
definition mc_hostname :: nat where "mc_hostname = 340"
definition mc_flags :: nat where "mc_flags = 364"

lemmas mc_offs = mc_sta_ssid_def mc_sta_pass_def mc_ap_ssid_def mc_ap_pass_def mc_web_salt_def mc_web_hash_def
  mc_tz_def mc_ntp_def mc_hostname_def mc_flags_def

definition HG_MG_WIFI :: u8 where "HG_MG_WIFI = 0"
definition HG_MG_WEB :: u8 where "HG_MG_WEB = 1"
definition HG_MG_TIME :: u8 where "HG_MG_TIME = 2"
definition HG_MG_SYS :: u8 where "HG_MG_SYS = 3"
definition HG_MG_COUNT :: u8 where "HG_MG_COUNT = 4"

lemmas mgroup_ids = HG_MG_WIFI_def HG_MG_WEB_def HG_MG_TIME_def HG_MG_SYS_def HG_MG_COUNT_def

definition HG_MGROUP_NAMES :: "string list" where
  "HG_MGROUP_NAMES = [''WIFI'', ''WEB'', ''TIME'', ''SYS'']"

definition HG_MFIELDS :: "hg_field list" where
  "HG_MFIELDS =
    [FLD HG_MG_WIFI ''STA_SSID'' 0 HG_T_STR 0 32 '''',
     FLD HG_MG_WIFI ''STA_PASS'' 33 HG_T_STR 0 64 '''',
     FLD HG_MG_WIFI ''AP_SSID'' 98 HG_T_STR 0 32 '''',
     FLD HG_MG_WIFI ''AP_PASS'' 131 HG_T_STR 0 64 '''',
     FLD HG_MG_TIME ''TZ'' 244 HG_T_STR 0 47 '''',
     FLD HG_MG_TIME ''NTP'' 292 HG_T_STR 0 47 '''',
     FLD HG_MG_SYS ''HOSTNAME'' 340 HG_T_STR 0 23 '''']"

definition str_field :: "nat \<Rightarrow> string \<Rightarrow> u8 list" where
  "str_field n s = bytes_of s @ replicate (n - length s) 0"

definition hg_mcfg_defaults :: hg_mcfg where
  "hg_mcfg_defaults = replicate 33 0 @ replicate 65 0 @ str_field 33 ''HillGrow'' @ str_field 65 ''hillgrow1'' @
     replicate 16 0 @ replicate 32 0 @ str_field 48 ''CET-1CEST,M3.5.0,M10.5.0/3'' @
     str_field 48 ''pool.ntp.org'' @ str_field 24 ''hillgrow'' @ [MCFG_F_WEB_DEFAULT OR MCFG_F_AP_DEFAULT, 0, 0, 0]"

definition mfail :: "u8 \<Rightarrow> string \<Rightarrow> string" where
  "mfail g key = HG_MGROUP_NAMES ! unat g @ ''.'' @ key"

definition mc_str :: "hg_mcfg \<Rightarrow> nat \<Rightarrow> u8 list" where
  "mc_str m off = cstr (drop off m)"

definition host_char :: "u8 \<Rightarrow> bool" where
  "host_char c \<longleftrightarrow> 97 \<le> c \<and> c \<le> 122 \<or> 48 \<le> c \<and> c \<le> 57 \<or> c = 45"

text \<open>\<open>tzck\<close> is \<open>None\<close> for the NULL pointer. The error is the field's path.\<close>

definition hg_mcfg_validate :: "hg_mcfg \<Rightarrow> (u8 list \<Rightarrow> bool) option \<Rightarrow> string + unit" where
  "hg_mcfg_validate m tzck =
     (let n = (\<lambda>off. length (mc_str m off)) in
      ebind (guard_not (n mc_sta_ssid > 32) (mfail HG_MG_WIFI ''STA_SSID'')) (\<lambda>_.
      ebind (guard_not (n mc_sta_pass > 0 \<and> (n mc_sta_pass < 8 \<or> n mc_sta_pass > 63)) (mfail HG_MG_WIFI ''STA_PASS'')) (\<lambda>_.
      ebind (guard_not (n mc_ap_ssid < 1 \<or> n mc_ap_ssid > 32) (mfail HG_MG_WIFI ''AP_SSID'')) (\<lambda>_.
      ebind (guard_not (n mc_ap_pass < 8 \<or> n mc_ap_pass > 63) (mfail HG_MG_WIFI ''AP_PASS'')) (\<lambda>_.
      ebind (guard_not (case tzck of None \<Rightarrow> False | Some ck \<Rightarrow> \<not> ck (mc_str m mc_tz)) (mfail HG_MG_TIME ''TZ'')) (\<lambda>_.
      ebind (guard_not (n mc_ntp < 1 \<or> n mc_ntp > 47) (mfail HG_MG_TIME ''NTP'')) (\<lambda>_.
      ebind (guard_not (\<exists>c \<in> set (mc_str m mc_ntp). c = 32) (mfail HG_MG_TIME ''NTP'')) (\<lambda>_.
      ebind (guard_not (n mc_hostname < 1 \<or> n mc_hostname > 23) (mfail HG_MG_SYS ''HOSTNAME'')) (\<lambda>_.
      guard_not (\<exists>c \<in> set (mc_str m mc_hostname). \<not> host_char c) (mfail HG_MG_SYS ''HOSTNAME''))))))))))"

definition hg_mcfg_pack :: "hg_mcfg \<Rightarrow> u32 \<Rightarrow> nat \<Rightarrow> u8 list option" where
  "hg_mcfg_pack m gen cap = hg_blob_wrap HG_MAGIC_MCFG HG_MCFG_VER gen m cap"

definition hg_mcfg_unpack :: "u8 list \<Rightarrow> (hg_mcfg \<times> u32) option" where
  "hg_mcfg_unpack inp =
     (case hg_blob_unwrap HG_MAGIC_MCFG HG_MCFG_VER HG_MCFG_VER_MIN inp MCFG_LEN of
        (rc, r) \<Rightarrow> if rc \<noteq> HG_BLOB_OK \<and> rc \<noteq> HG_BLOB_MIGRATED then None else r)"

definition hg_mcfg_is_secret :: "hg_field \<Rightarrow> bool" where
  "hg_mcfg_is_secret f \<longleftrightarrow> fd_group f = HG_MG_WIFI \<and> (fd_key f = ''STA_PASS'' \<or> fd_key f = ''AP_PASS'')"

section \<open>The store\<close>

text \<open>The result of \<open>nvs_set_blob\<close> and \<open>nvs_commit\<close>: after a failure the flash holds the old blob or the new one.\<close>

datatype nvs_write = NvsDone | NvsFailedOld | NvsFailedNew

record mcfg_store =
  ms_buf :: "bool \<Rightarrow> hg_mcfg"
  ms_active :: bool
  ms_gen :: u32
  ms_mux :: bool
  ms_tzck :: "(u8 list \<Rightarrow> bool) option"
  ms_nvs :: "u8 list option"

definition MCFG_BUF_LEN :: nat where "MCFG_BUF_LEN = 384"

definition mcfg_get :: "mcfg_store \<Rightarrow> hg_mcfg" where
  "mcfg_get s = ms_buf s (ms_active s)"

text \<open>\<open>opened\<close> is the result of \<open>nvs_open\<close>; a blob longer than the buffer is an error of \<open>nvs_get_blob\<close>.\<close>

definition mcfg_load :: "bool \<Rightarrow> u8 list option \<Rightarrow> (hg_mcfg \<times> u32) option" where
  "mcfg_load opened nvs =
     (if \<not> opened then None
      else case nvs of
        None \<Rightarrow> None
      | Some blob \<Rightarrow> if length blob > MCFG_BUF_LEN then None else hg_mcfg_unpack blob)"

definition mcfg_store_init ::
  "bool \<Rightarrow> bool \<Rightarrow> (u8 list \<Rightarrow> bool) option \<Rightarrow> u8 list option \<Rightarrow> mcfg_store \<times> int" where
  "mcfg_store_init mux opened tzck nvs =
     (let s = \<lparr>ms_buf = (\<lambda>_. hg_mcfg_defaults), ms_active = False, ms_gen = 0, ms_mux = mux,
               ms_tzck = tzck, ms_nvs = nvs\<rparr>
      in case mcfg_load opened nvs of
           None \<Rightarrow> (s, -1)
         | Some (loaded, gen) \<Rightarrow> (s\<lparr>ms_buf := (\<lambda>_. loaded), ms_gen := gen\<rparr>, 0))"

definition mcfg_store_set_tz_check :: "(u8 list \<Rightarrow> bool) option \<Rightarrow> mcfg_store \<Rightarrow> mcfg_store" where
  "mcfg_store_set_tz_check fn s = s\<lparr>ms_tzck := fn\<rparr>"

text \<open>What the system answers during a commit: the mutex, \<open>nvs_open\<close>, the write.\<close>

record commit_env =
  ce_mutex :: bool
  ce_open :: bool
  ce_write :: nvs_write

definition mcfg_commit :: "commit_env \<Rightarrow> hg_mcfg \<Rightarrow> mcfg_store \<Rightarrow> mcfg_store \<times> int" where
  "mcfg_commit env m s =
     (if \<not> ms_mux s then (s, -2)
      else if \<not> ce_mutex env then (s, -2)
      else case hg_mcfg_validate m (ms_tzck s) of
        Inl err \<Rightarrow> (s, -1)
      | Inr _ \<Rightarrow>
          let new_gen = ms_gen s + 1 in
          case hg_mcfg_pack m new_gen MCFG_BUF_LEN of
            None \<Rightarrow> (s, -1)
          | Some packed \<Rightarrow>
              if \<not> ce_open env then (s, -2)
              else if ce_write env = NvsFailedOld then (s, -2)
              else if ce_write env = NvsFailedNew then (s\<lparr>ms_nvs := Some packed\<rparr>, -2)
              else
                let nxt = (\<not> ms_active s) in
                (s\<lparr>ms_nvs := Some packed, ms_buf := (ms_buf s)(nxt := m), ms_active := nxt, ms_gen := new_gen\<rparr>, 0))"

section \<open>The locked edit\<close>

text \<open>
  A caller's function gets a copy and returns the changed copy and 0, or refuses with a positive
  number. The result is the code's, with the configuration \<open>apply\<close> was called under.
\<close>

type_synonym mcfg_fn = "hg_mcfg \<Rightarrow> hg_mcfg \<times> int"

definition commit_and_log :: "commit_env \<Rightarrow> hg_mcfg \<Rightarrow> mcfg_store \<Rightarrow> mcfg_store \<times> int" where
  "commit_and_log env m s =
     (case mcfg_commit env m s of (s, rc) \<Rightarrow> (s, if rc = 0 then 0 else if rc = -2 then -2 else -3))"

definition mcfg_ops_edit_ms ::
  "bool \<Rightarrow> commit_env \<Rightarrow> mcfg_fn \<Rightarrow> mcfg_store \<Rightarrow> mcfg_store \<times> int \<times> hg_mcfg option" where
  "mcfg_ops_edit_ms locked env fn s =
     (if \<not> locked then (s, -1, None)
      else
        let (m, rc) = fn (mcfg_get s) in
        if rc = 0 then
          let (s, rc) = commit_and_log env m s in (s, rc, if rc = 0 then Some (mcfg_get s) else None)
        else (s, rc, None))"

section \<open>The edits of the panel service\<close>

datatype psvc_rc = PSVC_OK | PSVC_E_BUSY | PSVC_E_INVALID | PSVC_E_BAD_JSON | PSVC_E_INVALID_FIELD
  | PSVC_E_VALIDATION | PSVC_E_NO_CACHE | PSVC_E_ZONE_UNKNOWN | PSVC_E_ZONE_NOT_ONLINE | PSVC_E_STORAGE
  | PSVC_E_INTERNAL | PSVC_E_FLEET_BUSY | PSVC_E_FLEET_REJECTED | PSVC_E_NOT_ACTIVE | PSVC_E_UPLOAD_ACTIVE
  | PSVC_E_FLEET_ACTIVE | PSVC_E_TRIAL_PENDING | PSVC_E_NO_SLOT | PSVC_E_LOW_HEAP | PSVC_E_TOO_LARGE
  | PSVC_E_IMAGE_MISMATCH | PSVC_E_WRITE_FAILED | PSVC_E_STALLED | PSVC_E_RECV_FAILED | PSVC_E_ZONE_FW_BUSY

definition PSVC_EDIT_BAD_JSON :: int where "PSVC_EDIT_BAD_JSON = 1"
definition PSVC_EDIT_INVALID_FIELD :: int where "PSVC_EDIT_INVALID_FIELD = 2"
definition PSVC_EDIT_VALIDATION :: int where "PSVC_EDIT_VALIDATION = 3"

lemmas psvc_codes = PSVC_EDIT_BAD_JSON_def PSVC_EDIT_INVALID_FIELD_def PSVC_EDIT_VALIDATION_def

text \<open>A function of this layer also says what field it refused.\<close>

type_synonym psvc_fn = "hg_mcfg \<Rightarrow> hg_mcfg \<times> int \<times> string"

definition edit_tramp :: "(u8 list \<Rightarrow> bool) \<Rightarrow> psvc_fn \<Rightarrow> hg_mcfg \<Rightarrow> hg_mcfg \<times> int \<times> string" where
  "edit_tramp tz_check fn m =
     (let (m, rc, err) = fn m in
      if rc \<noteq> 0 then (m, if rc > 0 then rc else PSVC_EDIT_VALIDATION, err)
      else case hg_mcfg_validate m (Some tz_check) of
        Inl e \<Rightarrow> (m, PSVC_EDIT_VALIDATION, e)
      | Inr _ \<Rightarrow> (m, 0, err))"

definition psvc_rc_of :: "int \<Rightarrow> string \<Rightarrow> psvc_rc \<times> string" where
  "psvc_rc_of rc err =
     (if rc = 0 then (PSVC_OK, err)
      else if rc = -1 then (PSVC_E_BUSY, '''')
      else if rc = -2 then (PSVC_E_STORAGE, '''')
      else if rc = -3 then (PSVC_E_VALIDATION, '''')
      else if rc = PSVC_EDIT_BAD_JSON then (PSVC_E_BAD_JSON, err)
      else if rc = PSVC_EDIT_INVALID_FIELD then (PSVC_E_INVALID_FIELD, err)
      else if rc = PSVC_EDIT_VALIDATION then (PSVC_E_VALIDATION, err)
      else (PSVC_E_INTERNAL, err))"

definition psvc_mcfg_edit ::
  "(u8 list \<Rightarrow> bool) \<Rightarrow> bool \<Rightarrow> commit_env \<Rightarrow> psvc_fn \<Rightarrow> mcfg_store \<Rightarrow> mcfg_store \<times> (psvc_rc \<times> string) \<times> hg_mcfg option" where
  "psvc_mcfg_edit tz_check locked env fn s =
     (let tramp = edit_tramp tz_check fn;
          (s', rc, applied) = mcfg_ops_edit_ms locked env (\<lambda>m. let (m, rc, err) = tramp m in (m, rc)) s;
          err = (if locked then snd (snd (tramp (mcfg_get s))) else '''')
      in (s', psvc_rc_of rc err, applied))"

text \<open>One edit of a form: the row (\<open>None\<close> for NULL) and its text; then all of them. A refused form's copy is thrown away.\<close>

definition field_edit :: "hg_field option \<times> string \<Rightarrow> hg_mcfg \<Rightarrow> (int \<times> string) + hg_mcfg" where
  "field_edit e m =
     (case e of
        (None, _) \<Rightarrow> Inl (PSVC_EDIT_INVALID_FIELD, ''?'')
      | (Some f, tx) \<Rightarrow>
          if fd_group f \<ge> HG_MG_COUNT then Inl (PSVC_EDIT_INVALID_FIELD, ''?'')
          else if hg_mcfg_is_secret f \<and> tx = [] then Inr m
          else case hg_field_write f m 0 tx of
            Inl _ \<Rightarrow> Inl (PSVC_EDIT_INVALID_FIELD, HG_MGROUP_NAMES ! unat (fd_group f) @ ''.'' @ fd_key f)
          | Inr m' \<Rightarrow> Inr m')"

definition PSVC_FEDIT_TEXT_MAX :: nat where "PSVC_FEDIT_TEXT_MAX = 65"

definition psvc_mcfg_fields_fn :: "(hg_field option \<times> string) list \<Rightarrow> psvc_fn" where
  "psvc_mcfg_fields_fn eds m =
     (case efold (\<lambda>(f, tx). field_edit (f, take (PSVC_FEDIT_TEXT_MAX - 1) tx)) eds m of
        Inl (rc, err) \<Rightarrow> (m, rc, err)
      | Inr m' \<Rightarrow> (m', 0, ''''))"

section \<open>What the validator promises\<close>

definition mcfg_spec :: "hg_mcfg \<Rightarrow> (u8 list \<Rightarrow> bool) option \<Rightarrow> bool" where
  "mcfg_spec m tzck \<longleftrightarrow>
     (let n = (\<lambda>off. length (mc_str m off)) in
      n mc_sta_ssid \<le> 32 \<and> (n mc_sta_pass = 0 \<or> n mc_sta_pass \<in> {8..63}) \<and>
      n mc_ap_ssid \<in> {1..32} \<and> n mc_ap_pass \<in> {8..63} \<and>
      (case tzck of None \<Rightarrow> True | Some ck \<Rightarrow> ck (mc_str m mc_tz)) \<and>
      n mc_ntp \<in> {1..47} \<and> 32 \<notin> set (mc_str m mc_ntp) \<and>
      n mc_hostname \<in> {1..23} \<and> (\<forall>c \<in> set (mc_str m mc_hostname). host_char c))"

lemma hg_mcfg_validate_spec: "hg_mcfg_validate m tzck = Inr () \<longleftrightarrow> mcfg_spec m tzck"
  by (auto simp: hg_mcfg_validate_def mcfg_spec_def Let_def result_simps not_less Suc_le_eq split: option.splits)

text \<open>Every string but the time zone, whose grammar is the checker's, ends inside its own field.\<close>

definition strings_inside :: "hg_mcfg \<Rightarrow> bool" where
  "strings_inside m \<longleftrightarrow>
     (\<forall>(off, sz) \<in> {(mc_sta_ssid, 33), (mc_sta_pass, 65), (mc_ap_ssid, 33), (mc_ap_pass, 65), (mc_ntp, 48), (mc_hostname, 24)}.
        \<exists>k < sz. m ! (off + k) = 0 \<and> (\<forall>j < k. m ! (off + j) \<noteq> 0))"

lemma cstr_ends:
  assumes "length (mc_str m off) < sz" "off + sz \<le> length m"
  shows "\<exists>k < sz. m ! (off + k) = 0 \<and> (\<forall>j < k. m ! (off + j) \<noteq> 0)"
proof (intro exI conjI allI impI)
  let ?k = "length (mc_str m off)"
  show "?k < sz" by fact
  have "?k < length (drop off m)" using assms by simp
  then have "\<not> drop off m ! ?k \<noteq> 0" unfolding mc_str_def cstr_def by (rule nth_length_takeWhile)
  then show "m ! (off + ?k) = 0" using assms by simp
  fix j assume j: "j < ?k"
  then have "drop off m ! j = mc_str m off ! j" by (simp add: mc_str_def cstr_def takeWhile_nth)
  moreover have "mc_str m off ! j \<in> set (mc_str m off)" using j by simp
  moreover have "0 \<notin> set (mc_str m off)" by (simp add: mc_str_def cstr_no_nul)
  ultimately have "drop off m ! j \<noteq> 0" by metis
  then show "m ! (off + j) \<noteq> 0" using j assms by simp
qed

lemma valid_strings_inside:
  assumes "mcfg_spec m tzck" "length m = MCFG_LEN"
  shows "strings_inside m"
  unfolding strings_inside_def
  using assms cstr_ends [of m mc_sta_ssid 33] cstr_ends [of m mc_sta_pass 65] cstr_ends [of m mc_ap_ssid 33]
    cstr_ends [of m mc_ap_pass 65] cstr_ends [of m mc_ntp 48] cstr_ends [of m mc_hostname 24]
  by (auto simp: mcfg_spec_def Let_def MCFG_LEN_def mc_offs)

section \<open>Commits\<close>

lemma mcfg_pack_load:
  assumes "length m = MCFG_LEN"
  obtains w where "hg_mcfg_pack m gen MCFG_BUF_LEN = Some w" "mcfg_load True (Some w) = Some (m, gen)"
proof -
  obtain w where w: "hg_blob_wrap HG_MAGIC_MCFG HG_MCFG_VER gen m MCFG_BUF_LEN = Some w" and l: "length w = 384"
    using assms by (simp add: hg_blob_wrap_def Let_def MCFG_BUF_LEN_def MCFG_LEN_def HG_BLOB_HDR_LEN_def)
  have "HG_MCFG_VER_MIN \<le> HG_MCFG_VER" by (simp add: HG_MCFG_VER_MIN_def HG_MCFG_VER_def)
  with blob_round_trip [OF w, of MCFG_LEN HG_MCFG_VER_MIN HG_MCFG_VER "[]"] assms
  have "hg_blob_unwrap HG_MAGIC_MCFG HG_MCFG_VER HG_MCFG_VER_MIN w MCFG_LEN = (HG_BLOB_OK, Some (m, gen))"
    by (simp add: MCFG_LEN_def)
  with w l show thesis
    by (intro that [of w]) (simp_all add: hg_mcfg_pack_def mcfg_load_def hg_mcfg_unpack_def MCFG_BUF_LEN_def)
qed

text \<open>A commit changes nothing, or only the flash (and says so), or publishes.\<close>

lemma commit_cases:
  assumes "length m = MCFG_LEN"
  obtains rc where "mcfg_commit env m s = (s, rc)" "rc = -1 \<or> rc = -2" "rc = -1 \<longleftrightarrow>
      ms_mux s \<and> ce_mutex env \<and> hg_mcfg_validate m (ms_tzck s) \<noteq> Inr ()"
  | w where "mcfg_commit env m s = (s\<lparr>ms_nvs := Some w\<rparr>, -2)"
  | w where "mcfg_commit env m s = (s\<lparr>ms_nvs := Some w, ms_buf := (ms_buf s)((\<not> ms_active s) := m),
        ms_active := (\<not> ms_active s), ms_gen := ms_gen s + 1\<rparr>, 0)"
      "mcfg_load True (Some w) = Some (m, ms_gen s + 1)" "mcfg_spec m (ms_tzck s)"
proof -
  obtain w where w: "hg_mcfg_pack m (ms_gen s + 1) MCFG_BUF_LEN = Some w"
    "mcfg_load True (Some w) = Some (m, ms_gen s + 1)"
    by (rule mcfg_pack_load [OF assms])
  show thesis
  proof (cases "ms_mux s \<and> ce_mutex env \<and> hg_mcfg_validate m (ms_tzck s) = Inr () \<and> ce_open env \<and> ce_write env \<noteq> NvsFailedOld")
    case True
    then have v: "hg_mcfg_validate m (ms_tzck s) = Inr ()" by blast
    have e: "mcfg_commit env m s = (if ce_write env = NvsFailedNew then (s\<lparr>ms_nvs := Some w\<rparr>, -2)
        else (s\<lparr>ms_nvs := Some w, ms_buf := (ms_buf s)((\<not> ms_active s) := m), ms_active := (\<not> ms_active s),
                ms_gen := ms_gen s + 1\<rparr>, 0))"
      using True w(1) by (simp add: mcfg_commit_def Let_def v)
    show thesis
    proof (cases "ce_write env = NvsFailedNew")
      case True
      with e show thesis by (intro that(2)) simp
    next
      case False
      with e v w(2) show thesis by (intro that(3)) (simp_all add: hg_mcfg_validate_spec)
    qed
  next
    case False
    define rc :: int where "rc = (if ms_mux s \<and> ce_mutex env \<and> hg_mcfg_validate m (ms_tzck s) \<noteq> Inr () then -1 else -2)"
    have "mcfg_commit env m s = (s, rc)"
      using False w(1) by (auto simp: mcfg_commit_def rc_def Let_def split: sum.splits)
    then show thesis by (rule that(1)) (auto simp: rc_def)
  qed
qed

definition mcfg_edit_step ::
  "mcfg_store \<Rightarrow> bool \<times> commit_env \<times> mcfg_fn \<Rightarrow> mcfg_store \<times> (int \<times> hg_mcfg option)" where
  "mcfg_edit_step s ev = (case ev of (locked, env, fn) \<Rightarrow>
     let (s, rc, applied) = mcfg_ops_edit_ms locked env fn s in (s, rc, applied))"

text \<open>The contract of the functions: they keep the struct a struct and refuse with positive numbers.\<close>

definition fn_ok :: "bool \<times> commit_env \<times> mcfg_fn \<Rightarrow> bool" where
  "fn_ok ev \<longleftrightarrow> (\<forall>m. length m = MCFG_LEN \<longrightarrow> length (fst (snd (snd ev) m)) = MCFG_LEN \<and> 0 \<le> snd (snd (snd ev) m))"

definition mcfg_ok :: "mcfg_store \<Rightarrow> bool" where
  "mcfg_ok s \<longleftrightarrow> (\<forall>b. length (ms_buf s b) = MCFG_LEN)"

definition durable :: "mcfg_store \<Rightarrow> bool" where
  "durable s \<longleftrightarrow> mcfg_load True (ms_nvs s) = Some (mcfg_get s, ms_gen s)"

lemma mcfg_ok_get: "mcfg_ok s \<Longrightarrow> length (mcfg_get s) = MCFG_LEN"
  by (simp add: mcfg_ok_def mcfg_get_def)

lemma edit_step_cases:
  assumes "mcfg_ok s" "fn_ok (locked, env, fn)"
  obtains rc where "mcfg_edit_step s (locked, env, fn) = (s, rc, None)" "rc \<noteq> 0"
  | w where "mcfg_edit_step s (locked, env, fn) = (s\<lparr>ms_nvs := Some w\<rparr>, -2, None)"
  | w m where "m = fst (fn (mcfg_get s))" "mcfg_edit_step s (locked, env, fn) =
        (s\<lparr>ms_nvs := Some w, ms_buf := (ms_buf s)((\<not> ms_active s) := m), ms_active := (\<not> ms_active s),
           ms_gen := ms_gen s + 1\<rparr>, 0, Some m)"
      "mcfg_load True (Some w) = Some (m, ms_gen s + 1)" "mcfg_spec m (ms_tzck s)" "length m = MCFG_LEN"
proof -
  obtain m rc where f: "fn (mcfg_get s) = (m, rc)" by (metis surj_pair)
  have l: "length m = MCFG_LEN" using assms f mcfg_ok_get [OF assms(1)] unfolding fn_ok_def by (metis fst_conv snd_conv)
  show thesis
  proof (cases "locked \<and> rc = 0")
    case False
    then have "mcfg_edit_step s (locked, env, fn) = (s, if locked then rc else -1, None)"
      using f by (auto simp: mcfg_edit_step_def mcfg_ops_edit_ms_def)
    then show thesis by (rule that(1)) (use False in auto)
  next
    case True
    note d = mcfg_edit_step_def mcfg_ops_edit_ms_def commit_and_log_def
    show thesis
    proof (cases rule: commit_cases [OF l, of env s])
      case (1 r)
      then show thesis using that(1) f True by (auto simp: d)
    next
      case (2 w)
      then show thesis using that(2) f True by (simp add: d)
    next
      case (3 w)
      then show thesis using that(3) [of m w] f True l by (simp add: d mcfg_get_def)
    qed
  qed
qed

lemma edit_step_facts:
  assumes "mcfg_ok s" "fn_ok ev"
  defines "r \<equiv> mcfg_edit_step s ev"
  shows "mcfg_ok (fst r)" "ms_tzck (fst r) = ms_tzck s"
    "mcfg_get (fst r) = (if fst (snd r) = 0 then fst (snd (snd ev) (mcfg_get s)) else mcfg_get s)"
    "ms_gen (fst r) = (if fst (snd r) = 0 then ms_gen s + 1 else ms_gen s)"
    "fst (snd r) = 0 \<Longrightarrow> durable (fst r) \<and> mcfg_spec (mcfg_get (fst r)) (ms_tzck s)"
    "durable s \<Longrightarrow> fst (snd r) \<noteq> -2 \<Longrightarrow> durable (fst r)"
    "ms_buf (fst r) (ms_active s) = mcfg_get s"
proof -
  obtain locked env fn where ev: "ev = (locked, env, fn)" by (metis prod_cases3)
  have "mcfg_ok (fst r) \<and> ms_tzck (fst r) = ms_tzck s \<and>
    mcfg_get (fst r) = (if fst (snd r) = 0 then fst (snd (snd ev) (mcfg_get s)) else mcfg_get s) \<and>
    ms_gen (fst r) = (if fst (snd r) = 0 then ms_gen s + 1 else ms_gen s) \<and>
    (fst (snd r) = 0 \<longrightarrow> durable (fst r) \<and> mcfg_spec (mcfg_get (fst r)) (ms_tzck s)) \<and>
    (durable s \<longrightarrow> fst (snd r) \<noteq> -2 \<longrightarrow> durable (fst r)) \<and>
    ms_buf (fst r) (ms_active s) = mcfg_get s"
    by (cases rule: edit_step_cases [OF assms(1) assms(2) [unfolded ev]])
      (use assms(1) in \<open>auto simp: r_def ev mcfg_ok_def mcfg_get_def durable_def\<close>)
  then show "mcfg_ok (fst r)" "ms_tzck (fst r) = ms_tzck s"
    "mcfg_get (fst r) = (if fst (snd r) = 0 then fst (snd (snd ev) (mcfg_get s)) else mcfg_get s)"
    "ms_gen (fst r) = (if fst (snd r) = 0 then ms_gen s + 1 else ms_gen s)"
    "fst (snd r) = 0 \<Longrightarrow> durable (fst r) \<and> mcfg_spec (mcfg_get (fst r)) (ms_tzck s)"
    "durable s \<Longrightarrow> fst (snd r) \<noteq> -2 \<Longrightarrow> durable (fst r)"
    "ms_buf (fst r) (ms_active s) = mcfg_get s" by blast+
qed

interpretation mcfg: guarded_invariant mcfg_edit_step "\<lambda>s. mcfg_ok s \<and> ms_tzck s = ck" fn_ok for ck
  by unfold_locales (simp add: edit_step_facts(1,2))

text \<open>The abstract configuration: the accepted edits, one after the other.\<close>

fun accepted_edits :: "(bool \<times> commit_env \<times> mcfg_fn) list \<Rightarrow> (int \<times> hg_mcfg option) list \<Rightarrow> hg_mcfg \<Rightarrow> hg_mcfg" where
  "accepted_edits (ev # evs) (out # outs) m =
     accepted_edits evs outs (if fst out = 0 then fst (snd (snd ev) m) else m)"
| "accepted_edits _ _ m = m"

lemma edits_refine:
  assumes "mcfg_ok s" "\<forall>ev \<in> set evs. fn_ok ev"
  shows "mcfg_get (fst (run_steps mcfg_edit_step s evs)) =
      accepted_edits evs (snd (run_steps mcfg_edit_step s evs)) (mcfg_get s)"
    "ms_gen (fst (run_steps mcfg_edit_step s evs)) =
      ms_gen s + of_nat (length (filter (\<lambda>out. fst out = 0) (snd (run_steps mcfg_edit_step s evs))))"
  using assms
proof (induction evs arbitrary: s)
  case (Cons ev evs)
  {
    case 1
    then show ?case using Cons.IH(1) [OF edit_step_facts(1) [of s ev]] edit_step_facts(3) [of s ev] by simp
  next
    case 2
    then show ?case using Cons.IH(2) [OF edit_step_facts(1) [of s ev]] edit_step_facts(4) [of s ev] by simp
  }
qed simp_all

lemma edits_durable:
  assumes "mcfg_ok s" "\<forall>ev \<in> set evs. fn_ok ev" "k < length evs"
    "fst (snd (run_steps mcfg_edit_step s evs) ! k) = 0"
    "\<forall>j. k < j \<longrightarrow> j < length evs \<longrightarrow> fst (snd (run_steps mcfg_edit_step s evs) ! j) \<noteq> -2"
  shows "durable (fst (run_steps mcfg_edit_step s evs))"
  using assms
proof (induction evs rule: rev_induct)
  case (snoc ev evs)
  let ?s = "fst (run_steps mcfg_edit_step s evs)" and ?outs = "snd (run_steps mcfg_edit_step s evs)"
  have ok: "mcfg_ok ?s" using mcfg.guarded_run_keeps [of s "ms_tzck s" evs] snoc.prems(1,2) by simp
  have ev: "fn_ok ev" using snoc.prems(2) by simp
  have outs: "snd (run_steps mcfg_edit_step s (evs @ [ev])) = ?outs @ [snd (mcfg_edit_step ?s ev)]"
    "fst (run_steps mcfg_edit_step s (evs @ [ev])) = fst (mcfg_edit_step ?s ev)"
    by (simp_all add: run_steps_append)
  show ?case
  proof (cases "k < length evs")
    case False
    then have "k = length evs" using snoc.prems(3) by simp
    then have "fst (snd (mcfg_edit_step ?s ev)) = 0" using snoc.prems(4) by (simp add: outs nth_append)
    then show ?thesis using edit_step_facts(5) [OF ok ev] by (simp add: outs)
  next
    case True
    have "durable ?s"
    proof (rule snoc.IH [OF snoc.prems(1) _ True])
      show "\<forall>ev \<in> set evs. fn_ok ev" using snoc.prems(2) by simp
      show "fst (?outs ! k) = 0" using snoc.prems(4) True by (simp add: outs nth_append)
      show "\<forall>j. k < j \<longrightarrow> j < length evs \<longrightarrow> fst (?outs ! j) \<noteq> -2"
        using snoc.prems(5) by (auto simp: outs nth_append)
    qed
    moreover have "fst (snd (mcfg_edit_step ?s ev)) \<noteq> -2"
      using snoc.prems(5) [rule_format, of "length evs"] True by (simp add: outs nth_append)
    ultimately show ?thesis using edit_step_facts(6) [OF ok ev] by (simp add: outs)
  qed
qed simp

section \<open>Form edits\<close>

definition mfield_end :: "hg_field \<Rightarrow> nat" where
  "mfield_end f = fd_offset f + nat (fd_max f) + 1"

lemma mfields_wf:
  "f \<in> set HG_MFIELDS \<Longrightarrow> fd_type f = HG_T_STR \<and> 0 \<le> fd_max f \<and> mfield_end f \<le> MCFG_LEN \<and> fd_group f < HG_MG_COUNT"
  by (auto simp: HG_MFIELDS_def FLD_def mfield_end_def MCFG_LEN_def mgroup_ids)

lemma mfields_disjoint:
  assumes "f \<in> set HG_MFIELDS" "g \<in> set HG_MFIELDS" "fd_key f \<noteq> fd_key g"
  shows "mfield_end f \<le> fd_offset g \<or> mfield_end g \<le> fd_offset f"
  using assms by (auto simp: HG_MFIELDS_def FLD_def mfield_end_def)

definition mfield_bytes :: "hg_field \<Rightarrow> hg_mcfg \<Rightarrow> u8 list" where
  "mfield_bytes f m = take (nat (fd_max f) + 1) (drop (fd_offset f) m)"

lemma nth_mfield_bytes:
  assumes "f \<in> set HG_MFIELDS" "length m = MCFG_LEN" "length m' = MCFG_LEN"
    "\<forall>i. fd_offset f \<le> i \<longrightarrow> i < mfield_end f \<longrightarrow> m' ! i = m ! i"
  shows "mfield_bytes f m' = mfield_bytes f m"
proof (rule nth_equalityI)
  show "length (mfield_bytes f m') = length (mfield_bytes f m)" using assms(2,3) by (simp add: mfield_bytes_def)
  fix i assume "i < length (mfield_bytes f m')"
  then show "mfield_bytes f m' ! i = mfield_bytes f m ! i"
    using assms mfields_wf [OF assms(1)] by (auto simp: mfield_bytes_def mfield_end_def)
qed

lemma str_write:
  assumes "f \<in> set HG_MFIELDS" "length m = MCFG_LEN" "hg_field_write f m 0 tx = Inr m'"
  shows "length tx \<le> nat (fd_max f)"
    "m' = mem_put m (fd_offset f) (bytes_of tx @ replicate (nat (fd_max f) + 1 - length tx) 0)"
    "length m' = MCFG_LEN" "\<forall>i. i < fd_offset f \<or> mfield_end f \<le> i \<longrightarrow> m' ! i = m ! i"
proof -
  note wf = mfields_wf [OF assms(1)]
  let ?src = "bytes_of tx @ replicate (nat (fd_max f) + 1 - length tx) 0"
  from assms(3) wf show lt: "length tx \<le> nat (fd_max f)" and m': "m' = mem_put m (fd_offset f) ?src"
    by (auto simp: hg_field_write_def Let_def split: if_splits)
  have fit: "fd_offset f + length ?src \<le> length m" using wf lt assms(2) by (simp add: mfield_end_def)
  show "length m' = MCFG_LEN" unfolding m' using length_mem_put [OF fit] assms(2) by simp
  show "\<forall>i. i < fd_offset f \<or> mfield_end f \<le> i \<longrightarrow> m' ! i = m ! i"
    unfolding m' using nth_mem_put [OF fit] lt by (auto simp: mfield_end_def)
qed

lemma str_write_reads_back:
  assumes "f \<in> set HG_MFIELDS" "length m = MCFG_LEN" "hg_field_write f m 0 tx = Inr m'" "c_string tx"
  shows "mc_str m' (fd_offset f) = bytes_of tx"
proof -
  note w = str_write [OF assms(1-3)]
  obtain xs where xs: "bytes_of tx @ replicate (nat (fd_max f) + 1 - length tx) 0 = bytes_of tx @ 0 # xs"
    using w(1) by (cases "nat (fd_max f) + 1 - length tx") auto
  have "fd_offset f \<le> length m" using mfields_wf [OF assms(1)] assms(2) by (simp add: mfield_end_def)
  from text_at_mem_put [OF assms(4) this, of xs] have "text_at m' (fd_offset f) = tx" unfolding w(2) xs .
  then have "bytes_of (text_at m' (fd_offset f)) = bytes_of tx" by simp
  then show ?thesis by (simp add: text_at_def mc_str_def bytes_of_def comp_def)
qed

definition edit_row :: "hg_field option \<times> string \<Rightarrow> bool" where
  "edit_row e \<longleftrightarrow> (\<forall>f. fst e = Some f \<longrightarrow> f \<in> set HG_MFIELDS)"

text \<open>An edit that has an effect on a field: its row names it, and it is not a blank secret.\<close>

definition touches :: "string \<Rightarrow> hg_field option \<times> string \<Rightarrow> bool" where
  "touches key e \<longleftrightarrow> (\<exists>f. fst e = Some f \<and> fd_key f = key \<and> \<not> (hg_mcfg_is_secret f \<and> snd e = []))"

lemma field_edit_frame:
  assumes "edit_row e" "length m = MCFG_LEN" "field_edit e m = Inr m'" "g \<in> set HG_MFIELDS" "\<not> touches (fd_key g) e"
  shows "length m' = MCFG_LEN" "mfield_bytes g m' = mfield_bytes g m"
proof -
  obtain f tx where e: "e = (Some f, tx)" using assms(3) by (cases e) (auto simp: field_edit_def split: option.splits)
  have f: "f \<in> set HG_MFIELDS" using assms(1) e by (simp add: edit_row_def)
  show l: "length m' = MCFG_LEN"
    using assms(2,3) str_write(3) [OF f assms(2)] by (auto simp: e field_edit_def split: if_splits sum.splits)
  show "mfield_bytes g m' = mfield_bytes g m"
  proof (cases "hg_mcfg_is_secret f \<and> tx = []")
    case True
    then have "m' = m" using assms(3) by (auto simp: e field_edit_def split: if_splits)
    then show ?thesis by simp
  next
    case False
    then have k: "fd_key f \<noteq> fd_key g" and w: "hg_field_write f m 0 tx = Inr m'"
      using assms(3,5) by (auto simp: e field_edit_def touches_def split: if_splits sum.splits)
    show ?thesis
      using nth_mfield_bytes [OF assms(4,2) l] str_write(4) [OF f assms(2) w] mfields_disjoint [OF f assms(4) k] by force
  qed
qed

lemma field_edit_length:
  "edit_row e \<Longrightarrow> length m = MCFG_LEN \<Longrightarrow> field_edit e m = Inr m' \<Longrightarrow> length m' = MCFG_LEN"
  using str_write(3) by (auto simp: field_edit_def edit_row_def split: option.splits if_splits sum.splits prod.splits)

lemma fields_frame:
  assumes "\<forall>e \<in> set eds. edit_row e" "length m = MCFG_LEN" "g \<in> set HG_MFIELDS" "\<forall>e \<in> set eds. \<not> touches (fd_key g) e"
    "efold (\<lambda>(f, tx). field_edit (f, take (PSVC_FEDIT_TEXT_MAX - 1) tx)) eds m = Inr m'"
  shows "length m' = MCFG_LEN \<and> mfield_bytes g m' = mfield_bytes g m"
  using assms(1,2,4,5)
proof (induction eds arbitrary: m)
  case (Cons e eds)
  obtain f tx where e: "e = (f, tx)" by (metis surj_pair)
  let ?e = "(f, take (PSVC_FEDIT_TEXT_MAX - 1) tx)"
  obtain m1 where m1: "field_edit ?e m = Inr m1"
    and rest: "efold (\<lambda>(f, tx). field_edit (f, take (PSVC_FEDIT_TEXT_MAX - 1) tx)) eds m1 = Inr m'"
    using Cons.prems(4) by (auto simp: e ebind_eq_Inr)
  have r: "edit_row ?e" "\<not> touches (fd_key g) ?e"
    using Cons.prems(1,3) by (auto simp: e edit_row_def touches_def PSVC_FEDIT_TEXT_MAX_def)
  note fr = field_edit_frame [OF r(1) Cons.prems(2) m1 assms(3) r(2)]
  show ?case using Cons.IH [OF _ fr(1) _ rest] Cons.prems(1,3) fr(2) by simp
qed simp

lemma fields_length:
  assumes "\<forall>e \<in> set eds. edit_row e" "length m = MCFG_LEN"
    "efold (\<lambda>(f, tx). field_edit (f, take (PSVC_FEDIT_TEXT_MAX - 1) tx)) eds m = Inr m'"
  shows "length m' = MCFG_LEN"
  using assms
proof (induction eds arbitrary: m)
  case (Cons e eds)
  obtain f tx where e: "e = (f, tx)" by (metis surj_pair)
  obtain m1 where m1: "field_edit (f, take (PSVC_FEDIT_TEXT_MAX - 1) tx) m = Inr m1"
    and rest: "efold (\<lambda>(f, tx). field_edit (f, take (PSVC_FEDIT_TEXT_MAX - 1) tx)) eds m1 = Inr m'"
    using Cons.prems(3) by (auto simp: e ebind_eq_Inr)
  have r: "edit_row (f, take (PSVC_FEDIT_TEXT_MAX - 1) tx)" using Cons.prems(1) by (auto simp: e edit_row_def)
  show ?case using Cons.IH [OF _ field_edit_length [OF r Cons.prems(2) m1] rest] Cons.prems(1) by simp
qed simp

text \<open>The panel's edit, by its result.\<close>

lemma tramp_codes: "psvc_rc_of (fst (snd (edit_tramp ck fn m))) err = (PSVC_OK, e) \<Longrightarrow> fst (snd (edit_tramp ck fn m)) = 0"
  by (auto simp: edit_tramp_def psvc_rc_of_def psvc_codes split: prod.splits sum.splits if_splits)

lemma psvc_edit_cases:
  assumes "mcfg_ok s" "\<And>m. length m = MCFG_LEN \<Longrightarrow> length (fst (fn m)) = MCFG_LEN"
    "psvc_mcfg_edit ck locked env fn s = (s', (rc, err), applied)"
  shows "rc = PSVC_OK \<longleftrightarrow> applied \<noteq> None"
    "applied = Some m \<Longrightarrow> m = fst (fn (mcfg_get s)) \<and> fst (snd (fn (mcfg_get s))) = 0 \<and> mcfg_get s' = m \<and> mcfg_spec m (Some ck) \<and>
       durable s' \<and> locked"
    "applied = None \<Longrightarrow> mcfg_get s' = mcfg_get s \<and> ms_gen s' = ms_gen s \<and> (ms_nvs s' = ms_nvs s \<or> rc = PSVC_E_STORAGE)"
proof -
  let ?fn = "\<lambda>m. case edit_tramp ck fn m of (m, rc, err) \<Rightarrow> (m, rc)"
  have f: "fn_ok (locked, env, ?fn)"
    unfolding fn_ok_def
    using assms(2) by (auto simp: edit_tramp_def psvc_codes Let_def split: prod.splits sum.splits) (metis fst_conv)+
  obtain s1 rc1 ap1 where r: "mcfg_ops_edit_ms locked env ?fn s = (s1, rc1, ap1)" by (metis prod_cases3)
  have st: "mcfg_edit_step s (locked, env, ?fn) = (s1, rc1, ap1)" by (simp add: mcfg_edit_step_def r)
  have eq: "s' = s1" "applied = ap1" "(rc, err) = psvc_rc_of rc1 (if locked then snd (snd (edit_tramp ck fn (mcfg_get s))) else '''')"
    using assms(3) by (simp_all add: psvc_mcfg_edit_def Let_def r)
  have ok: "rc = PSVC_OK \<longleftrightarrow> rc1 = 0" using eq(3) by (auto simp: psvc_rc_of_def psvc_codes split: if_splits)
  have stor: "rc1 = -2 \<Longrightarrow> rc = PSVC_E_STORAGE" using eq(3) by (simp add: psvc_rc_of_def)
  have tr: "ap1 \<noteq> None \<Longrightarrow> locked \<and> fst (snd (edit_tramp ck fn (mcfg_get s))) = 0"
    using r by (auto simp: mcfg_ops_edit_ms_def Let_def split: if_splits prod.splits)
  have tv: "fst (snd (edit_tramp ck fn (mcfg_get s))) = 0 \<Longrightarrow>
      fst (snd (fn (mcfg_get s))) = 0 \<and> fst (edit_tramp ck fn (mcfg_get s)) = fst (fn (mcfg_get s)) \<and>
      mcfg_spec (fst (fn (mcfg_get s))) (Some ck)"
    by (auto simp: edit_tramp_def psvc_codes simp flip: hg_mcfg_validate_spec split: prod.splits sum.splits if_splits)
  note cs = edit_step_cases [OF assms(1) f]
  note facts = edit_step_facts [OF assms(1) f, unfolded st fst_conv snd_conv]
  show "rc = PSVC_OK \<longleftrightarrow> applied \<noteq> None"
    by (cases rule: cs) (use st ok eq in auto)
  show "m = fst (fn (mcfg_get s)) \<and> fst (snd (fn (mcfg_get s))) = 0 \<and> mcfg_get s' = m \<and> mcfg_spec m (Some ck) \<and>
       durable s' \<and> locked" if a: "applied = Some m"
  proof -
    have "rc1 = 0" using a st eq by (cases rule: cs) auto
    with facts(5) eq have "durable s'" by simp
    moreover have "m = fst (edit_tramp ck fn (mcfg_get s))" "mcfg_get s' = m"
      using a st eq by (cases rule: cs; auto simp: mcfg_get_def Let_def split_def)+
    ultimately show ?thesis using tr tv a eq(2) by auto
  qed
  show "mcfg_get s' = mcfg_get s \<and> ms_gen s' = ms_gen s \<and> (ms_nvs s' = ms_nvs s \<or> rc = PSVC_E_STORAGE)" if a: "applied = None"
    by (cases rule: cs) (use a st eq stor in \<open>auto simp: mcfg_get_def\<close>)
qed

section \<open>The defaults\<close>

lemma default_strings:
  "mc_str hg_mcfg_defaults mc_sta_ssid = []" "mc_str hg_mcfg_defaults mc_sta_pass = []"
  "mc_str hg_mcfg_defaults mc_ap_ssid = bytes_of ''HillGrow''"
  "mc_str hg_mcfg_defaults mc_ap_pass = bytes_of ''hillgrow1''"
  "mc_str hg_mcfg_defaults mc_tz = bytes_of ''CET-1CEST,M3.5.0,M10.5.0/3''"
  "mc_str hg_mcfg_defaults mc_ntp = bytes_of ''pool.ntp.org''"
  "mc_str hg_mcfg_defaults mc_hostname = bytes_of ''hillgrow''"
proof -
  have s: "cstr (bytes_of t @ 0 # ys) = bytes_of t" if "c_string t" for t ys
    unfolding cstr_def using that by (subst takeWhile_append2) auto
  have f: "cstr (str_field n t @ ys) = bytes_of t" if c: "c_string t" and n: "length t < n" for n t ys
  proof -
    obtain xs where "replicate (n - length t) (0 :: u8) = 0 # xs" using n by (cases "n - length t") auto
    then show ?thesis using s [OF c, of "xs @ ys"] by (simp add: str_field_def)
  qed
  have l: "length (str_field n t) = n" if "length t \<le> n" for n t using that by (simp add: str_field_def)
  show "mc_str hg_mcfg_defaults mc_sta_ssid = []" "mc_str hg_mcfg_defaults mc_sta_pass = []"
    by (simp_all add: mc_str_def hg_mcfg_defaults_def mc_offs cstr_def)
  show "mc_str hg_mcfg_defaults mc_ap_ssid = bytes_of ''HillGrow''"
    "mc_str hg_mcfg_defaults mc_ap_pass = bytes_of ''hillgrow1''"
    "mc_str hg_mcfg_defaults mc_tz = bytes_of ''CET-1CEST,M3.5.0,M10.5.0/3''"
    "mc_str hg_mcfg_defaults mc_ntp = bytes_of ''pool.ntp.org''"
    "mc_str hg_mcfg_defaults mc_hostname = bytes_of ''hillgrow''"
    by (simp_all add: mc_str_def hg_mcfg_defaults_def mc_offs l f c_string_def char_code_def)
qed

lemma length_defaults: "length hg_mcfg_defaults = MCFG_LEN"
  by (simp add: hg_mcfg_defaults_def str_field_def MCFG_LEN_def)

lemma host_char_byte: "is_digit c \<or> 97 \<le> char_code c \<and> char_code c \<le> 122 \<Longrightarrow> host_char (byte_of c)"
  by (auto simp: host_char_def word_le_nat_alt is_digit_def)

lemma defaults_spec: "mcfg_spec hg_mcfg_defaults tzck \<longleftrightarrow>
  (case tzck of None \<Rightarrow> True | Some ck \<Rightarrow> ck (bytes_of ''CET-1CEST,M3.5.0,M10.5.0/3''))"
proof -
  have "32 \<notin> set (bytes_of ''pool.ntp.org'')" by (simp add: bytes_of_def byte_of_def char_code_def)
  moreover have "\<forall>c \<in> set (bytes_of ''hillgrow''). host_char c"
    by (simp add: bytes_of_def host_char_byte char_code_def)
  ultimately show ?thesis by (cases tzck) (simp_all add: mcfg_spec_def Let_def default_strings)
qed

definition good_env :: commit_env where
  "good_env = \<lparr>ce_mutex = True, ce_open = True, ce_write = NvsDone\<rparr>"

definition fresh_store :: mcfg_store where
  "fresh_store = fst (mcfg_store_init True True None None)"

definition same_fn :: mcfg_fn where "same_fn m = (m, 0)"

lemma fresh_store_facts:
  "mcfg_ok fresh_store" "mcfg_get fresh_store = hg_mcfg_defaults" "fn_ok (True, good_env, same_fn)" "ms_tzck fresh_store = None"
  by (simp_all add: fresh_store_def mcfg_store_init_def mcfg_load_def mcfg_ok_def length_defaults mcfg_get_def fn_ok_def same_fn_def)

lemma fresh_step:
  assumes "mcfg_ok s" "ms_mux s" "ms_tzck s = None" "mcfg_get s = hg_mcfg_defaults"
  shows "fst (snd (mcfg_edit_step s (True, good_env, same_fn))) = 0"
proof -
  have v: "hg_mcfg_validate hg_mcfg_defaults None = Inr ()" by (simp add: hg_mcfg_validate_spec defaults_spec)
  obtain w where "hg_mcfg_pack hg_mcfg_defaults (ms_gen s + 1) MCFG_BUF_LEN = Some w"
    by (rule mcfg_pack_load [OF length_defaults])
  then show ?thesis
    using assms by (simp add: mcfg_edit_step_def mcfg_ops_edit_ms_def commit_and_log_def same_fn_def mcfg_commit_def v
        good_env_def Let_def)
qed

section \<open>Properties\<close>

text \<open>A form that is accepted leaves every field as it was that it does not name, and a password field also when it names it only with a blank text: a password cannot be cleared by saving a form.\<close>

lemma form_keeps_blank_secrets:
  assumes "psvc_mcfg_fields_fn eds m = (m', 0, err)" "\<forall>e \<in> set eds. edit_row e" "length m = MCFG_LEN"
    "g \<in> set HG_MFIELDS" "\<forall>(f, tx) \<in> set eds. \<forall>r. f = Some r \<longrightarrow> fd_key r = fd_key g \<longrightarrow> hg_mcfg_is_secret r \<and> tx = []"
  shows "length m' = MCFG_LEN \<and> mfield_bytes g m' = mfield_bytes g m"
proof -
  have "efold (\<lambda>(f, tx). field_edit (f, take (PSVC_FEDIT_TEXT_MAX - 1) tx)) eds m = Inr m'"
  proof (cases "efold (\<lambda>(f, tx). field_edit (f, take (PSVC_FEDIT_TEXT_MAX - 1) tx)) eds m")
    case (Inl e)
    have "efold (\<lambda>(f, tx). field_edit (f, take (PSVC_FEDIT_TEXT_MAX - 1) tx)) eds m \<noteq> Inl (0, x)" for x
    proof (induction eds arbitrary: m)
      case (Cons e eds)
      then show ?case
        by (cases e) (auto simp: field_edit_def ebind_def psvc_codes split: sum.splits option.splits if_splits)
    qed simp
    with Inl assms(1) show ?thesis by (cases e) (simp add: psvc_mcfg_fields_fn_def)
  qed (use assms(1) in \<open>simp add: psvc_mcfg_fields_fn_def\<close>)
  moreover have "\<forall>e \<in> set eds. \<not> touches (fd_key g) e" using assms(5) by (fastforce simp: touches_def)
  ultimately show ?thesis using fields_frame [OF assms(2-4)] by blast
qed

lemma form_keeps_blank_secrets_witness:
  \<open>mfield_bytes (HG_MFIELDS ! 3) (fst (psvc_mcfg_fields_fn [(Some (HG_MFIELDS ! 3), [])] hg_mcfg_defaults)) =
    mfield_bytes (HG_MFIELDS ! 3) hg_mcfg_defaults\<close>
proof -
  let ?g = "HG_MFIELDS ! 3"
  have g: "?g \<in> set HG_MFIELDS" "hg_mcfg_is_secret ?g" "\<not> HG_MG_COUNT \<le> fd_group ?g"
    by (simp_all add: HG_MFIELDS_def FLD_def hg_mcfg_is_secret_def mgroup_ids)
  have h: "psvc_mcfg_fields_fn [(Some ?g, [])] hg_mcfg_defaults = (hg_mcfg_defaults, 0, [])"
    using g by (simp add: psvc_mcfg_fields_fn_def field_edit_def)
  from form_keeps_blank_secrets [OF h _ length_defaults g(1)] g(1,2) show ?thesis
    unfolding h fst_conv by (simp add: edit_row_def)
qed

text \<open>An edit through the panel service reports success exactly when the new configuration is live; then it is what the caller's function made of the old one, valid under the real time-zone checker, and what a restart loads. On every other result code the live configuration and its generation are as before, and only a reported storage failure can have touched the flash.\<close>

lemma panel_edit_is_all_or_nothing:
  assumes "mcfg_ok s" "\<And>m. length m = MCFG_LEN \<Longrightarrow> length (fst (fn m)) = MCFG_LEN"
    "psvc_mcfg_edit ck locked env fn s = (s', (rc, err), applied)"
  shows "if rc = PSVC_OK
    then applied = Some (mcfg_get s') \<and> mcfg_get s' = fst (fn (mcfg_get s)) \<and> hg_mcfg_validate (mcfg_get s') (Some ck) = Inr () \<and>
         mcfg_load True (ms_nvs s') = Some (mcfg_get s', ms_gen s')
    else applied = None \<and> mcfg_get s' = mcfg_get s \<and> ms_gen s' = ms_gen s \<and> (rc \<noteq> PSVC_E_STORAGE \<longrightarrow> ms_nvs s' = ms_nvs s)"
proof (cases applied)
  case None
  with psvc_edit_cases(1,3) [OF assms] show ?thesis by auto
next
  case (Some m)
  with psvc_edit_cases(1) [OF assms] psvc_edit_cases(2) [OF assms Some] show ?thesis
    by (auto simp: hg_mcfg_validate_spec durable_def)
qed

lemma panel_edit_is_all_or_nothing_witness:
  \<open>mcfg_get (fst (psvc_mcfg_edit (\<lambda>_. True) False good_env (\<lambda>m. (m, 0, [])) fresh_store)) = hg_mcfg_defaults\<close>
proof -
  obtain s' rc err ap where r: "psvc_mcfg_edit (\<lambda>_. True) False good_env (\<lambda>m. (m, 0, [])) fresh_store = (s', (rc, err), ap)"
    by (metis prod_cases4 surj_pair)
  have "rc \<noteq> PSVC_OK" using r by (auto simp: psvc_mcfg_edit_def mcfg_ops_edit_ms_def psvc_rc_of_def)
  with panel_edit_is_all_or_nothing [OF fresh_store_facts(1) _ r] show ?thesis by (simp add: r fresh_store_facts)
qed

text \<open>The buffer a reader got from mcfg_get is left alone by the next edit, whatever its outcome, but if two edits succeed while the reader is still in it, the second writes its configuration into that very buffer.\<close>

lemma two_commits_overwrite_a_reader:
  assumes "mcfg_ok s" "fn_ok ev" "fn_ok ev'"
  defines "r1 \<equiv> mcfg_edit_step s ev"
  defines "r2 \<equiv> mcfg_edit_step (fst r1) ev'"
  shows "ms_buf (fst r1) (ms_active s) = mcfg_get s \<and>
    (fst (snd r1) = 0 \<and> fst (snd r2) = 0 \<longrightarrow> ms_buf (fst r2) (ms_active s) = fst (snd (snd ev') (mcfg_get (fst r1))))"
proof (intro conjI impI)
  note f1 = edit_step_facts [OF assms(1,2), folded r1_def]
  show "ms_buf (fst r1) (ms_active s) = mcfg_get s" by (rule f1(7))
  assume ok: "fst (snd r1) = 0 \<and> fst (snd r2) = 0"
  obtain locked env fn where ev: "ev = (locked, env, fn)" by (metis prod_cases3)
  obtain locked' env' fn' where ev': "ev' = (locked', env', fn')" by (metis prod_cases3)
  have a: "ms_active (fst r1) = (\<not> ms_active s)"
    using ok by (cases rule: edit_step_cases [OF assms(1) assms(2) [unfolded ev]]) (auto simp: r1_def ev)
  show "ms_buf (fst r2) (ms_active s) = fst (snd (snd ev') (mcfg_get (fst r1)))"
    using ok a by (cases rule: edit_step_cases [OF f1(1) assms(3) [unfolded ev']]) (auto simp: r2_def ev')
qed

lemma two_commits_overwrite_a_reader_witness:
  \<open>ms_buf (fst (mcfg_edit_step fresh_store (True, good_env, same_fn))) (ms_active fresh_store) = hg_mcfg_defaults\<close>
  using two_commits_overwrite_a_reader [OF fresh_store_facts(1,3,3)] fresh_store_facts(2) by simp

text \<open>C23. However edits of the master's configuration arrive, whatever locks and flash operations fail: the live configuration is the start value changed by exactly the edits that were answered with success, in order, and the generation counts them; and after the last success, unless a storage failure has been reported since, a restart loads the live configuration with its generation.\<close>

lemma master_edits_lose_nothing:
  assumes "mcfg_ok s" "\<forall>ev \<in> set evs. fn_ok ev"
  defines "r \<equiv> run_steps mcfg_edit_step s evs"
  shows "mcfg_get (fst r) = accepted_edits evs (snd r) (mcfg_get s) \<and>
    ms_gen (fst r) = ms_gen s + of_nat (length (filter (\<lambda>out. fst out = 0) (snd r))) \<and>
    (\<forall>k < length evs. fst (snd r ! k) = 0 \<longrightarrow> (\<forall>j. k < j \<longrightarrow> j < length evs \<longrightarrow> fst (snd r ! j) \<noteq> -2) \<longrightarrow>
       mcfg_load True (ms_nvs (fst r)) = Some (mcfg_get (fst r), ms_gen (fst r)))"
  using edits_refine [OF assms(1,2)] edits_durable [OF assms(1,2)] unfolding r_def durable_def by blast

lemma master_edits_lose_nothing_witness:
  \<open>mcfg_load True (ms_nvs (fst (run_steps mcfg_edit_step fresh_store [(True, good_env, same_fn)]))) =
    Some (hg_mcfg_defaults, 1)\<close>
proof -
  let ?r = "run_steps mcfg_edit_step fresh_store [(True, good_env, same_fn)]"
  have "fst (snd (mcfg_edit_step fresh_store (True, good_env, same_fn))) = 0"
    using fresh_step [of fresh_store] fresh_store_facts by (simp add: fresh_store_def mcfg_store_init_def mcfg_load_def)
  then obtain ap where r: "snd ?r = [(0, ap)]" by (cases "snd (mcfg_edit_step fresh_store (True, good_env, same_fn))") simp
  have g: "ms_gen fresh_store = 0" by (simp add: fresh_store_def mcfg_store_init_def mcfg_load_def)
  have "mcfg_get (fst ?r) = hg_mcfg_defaults \<and> ms_gen (fst ?r) = 1 \<and>
    mcfg_load True (ms_nvs (fst ?r)) = Some (mcfg_get (fst ?r), ms_gen (fst ?r))"
    using master_edits_lose_nothing [OF fresh_store_facts(1), of "[(True, good_env, same_fn)]"] fresh_store_facts(3)
    unfolding r g fresh_store_facts(2) by (simp add: same_fn_def)
  then show ?thesis by simp
qed

text \<open>C24. Every configuration an edit publishes is a whole image that passes the validator in force, and in it every name, password, server and host name is terminated inside its own field, so that no reader's strlen or copy runs into the next one; a host name has only lower-case letters, digits and hyphens.\<close>

lemma published_master_configurations_are_well_formed:
  assumes "mcfg_ok s" "ms_tzck s = ck" "\<forall>ev \<in> set evs. fn_ok ev"
  shows "\<forall>out \<in> set (snd (run_steps mcfg_edit_step s evs)). \<forall>m. snd out = Some m \<longrightarrow>
    length m = MCFG_LEN \<and> hg_mcfg_validate m ck = Inr () \<and> strings_inside m \<and> (\<forall>c \<in> set (mc_str m mc_hostname). host_char c)"
proof -
  have "list_all2 (\<lambda>_ out. \<forall>m. snd out = Some m \<longrightarrow> length m = MCFG_LEN \<and> mcfg_spec m ck) evs
      (snd (run_steps mcfg_edit_step s evs))"
  proof (rule mcfg.guarded_run_outputs [of s ck])
    fix s ev assume s: "mcfg_ok s \<and> ms_tzck s = ck" and "fn_ok ev"
    moreover obtain locked env fn where ev: "ev = (locked, env, fn)" by (metis prod_cases3)
    ultimately have f: "fn_ok (locked, env, fn)" by simp
    show "\<forall>m. snd (snd (mcfg_edit_step s ev)) = Some m \<longrightarrow> length m = MCFG_LEN \<and> mcfg_spec m ck"
      using s by (cases rule: edit_step_cases [OF conjunct1 [OF s] f]) (auto simp: ev)
  qed (use assms in auto)
  then have "\<forall>out \<in> set (snd (run_steps mcfg_edit_step s evs)). \<forall>m. snd out = Some m \<longrightarrow> length m = MCFG_LEN \<and> mcfg_spec m ck"
    by (induction rule: list_all2_induct) simp_all
  moreover have "mcfg_spec m ck \<Longrightarrow> \<forall>c \<in> set (mc_str m mc_hostname). host_char c" for m
    by (simp add: mcfg_spec_def Let_def)
  ultimately show ?thesis using valid_strings_inside unfolding hg_mcfg_validate_spec by blast
qed

lemma published_master_configurations_are_well_formed_witness:
  \<open>\<exists>m. snd (snd (mcfg_edit_step fresh_store (True, good_env, same_fn))) = Some m \<and> strings_inside m\<close>
proof -
  let ?r = "mcfg_edit_step fresh_store (True, good_env, same_fn)"
  have "fst (snd ?r) = 0"
    using fresh_step [of fresh_store] fresh_store_facts by (simp add: fresh_store_def mcfg_store_init_def mcfg_load_def)
  then obtain m where m: "snd (snd ?r) = Some m"
    by (cases rule: edit_step_cases [OF fresh_store_facts(1), of True good_env same_fn])
      (use fresh_store_facts(3) in auto)
  have "\<forall>out \<in> set (snd (run_steps mcfg_edit_step fresh_store [(True, good_env, same_fn)])). \<forall>m. snd out = Some m \<longrightarrow> strings_inside m"
    using published_master_configurations_are_well_formed [OF fresh_store_facts(1,4), of "[(True, good_env, same_fn)]"]
      fresh_store_facts(3) by simp
  with m show ?thesis by (cases ?r) simp
qed

end
