(* ===== verification/Web_Auth.thy ===== *)
theory Web_Auth
  imports HG_Mcfg
begin

text \<open>
  \<^verbatim>\<open>components/web_auth/web_auth.c\<close>: passwords, login with a lockout, four sessions behind a random
  cookie, and their packed form. SHA-256 and the random generator are function pointers the
  component is given: the hash is a parameter, the random bytes are an input of the operations
  that draw them. Shown: the constant-time comparisons decide equality; a cookie is accepted
  only if a login issued it and while it lasts; who logs in is let in; guessing is limited to five
  tries and then one a minute; a live session is evicted only when all four are live, and then
  the oldest; and packing keeps the sessions.
\<close>

definition WA_SESSIONS :: nat where "WA_SESSIONS = 4"
definition WA_TOKEN_LEN :: nat where "WA_TOKEN_LEN = 16"
definition WA_COOKIE :: string where "WA_COOKIE = ''hg_sess''"
definition WA_TTL_S :: u32 where "WA_TTL_S = 30 * 24 * 3600"
definition WA_LOCK_FAILS :: u8 where "WA_LOCK_FAILS = 5"
definition WA_LOCK_S :: u32 where "WA_LOCK_S = 60"
definition WA_PW_MIN :: nat where "WA_PW_MIN = 8"
definition WA_PW_MAX :: nat where "WA_PW_MAX = 63"
definition WA_PWBUF :: nat where "WA_PWBUF = 64"

record wa_session =
  wa_token :: "u8 list"
  wa_expires :: u32
  wa_used :: bool
  wa_seq :: u32

record wa_state =
  wa_s :: "wa_session list"
  wa_fails :: u8
  wa_lock_until :: u32
  wa_next_seq :: u32

definition wa_session_zero :: wa_session where
  "wa_session_zero = \<lparr>wa_token = replicate WA_TOKEN_LEN 0, wa_expires = 0, wa_used = False, wa_seq = 0\<rparr>"

definition web_auth_init :: wa_state where
  "web_auth_init = \<lparr>wa_s = replicate WA_SESSIONS wa_session_zero, wa_fails = 0, wa_lock_until = 0, wa_next_seq = 1\<rparr>"

section \<open>Comparisons\<close>

definition ct_eq :: "u8 list \<Rightarrow> u8 list \<Rightarrow> nat \<Rightarrow> bool" where
  "ct_eq a b n = (foldl (\<lambda>d i. d OR (a ! i XOR b ! i)) 0 [0 ..< n] = 0)"

text \<open>
  The loop of \<open>pad_str_ct\<close> over the bytes of a C string (without its terminator), with \<open>n\<close> rounds
  to go: the padded buffer, and how many rounds passed before the terminator was seen.
\<close>

fun pad_loop :: "nat \<Rightarrow> bool \<Rightarrow> u8 list \<Rightarrow> u8 list \<times> nat" where
  "pad_loop 0 seen s = ([], 0)"
| "pad_loop (Suc n) seen s =
     (let c = (if seen then 0 else case s of [] \<Rightarrow> 0 | x # _ \<Rightarrow> x);
          seen' = (seen \<or> c = 0);
          (out, len) = pad_loop n seen' (tl s)
      in ((if seen' then 0 else c) # out, if seen' then 0 else Suc len))"

definition pad_str_ct :: "u8 list \<Rightarrow> u8 list \<times> nat" where
  "pad_str_ct s = pad_loop WA_PWBUF False s"

definition ct_eq_str :: "u8 list \<Rightarrow> u8 list \<Rightarrow> bool" where
  "ct_eq_str a b =
     (let (ba, la) = pad_str_ct a; (bb, lb) = pad_str_ct b;
          d = ucast ((of_nat la :: u32) XOR of_nat lb) :: u8
      in foldl (\<lambda>d i. d OR (ba ! i XOR bb ! i)) d [0 ..< WA_PWBUF] = 0)"

section \<open>Passwords\<close>

definition web_salt :: "hg_mcfg \<Rightarrow> u8 list" where "web_salt m = take 16 (drop mc_web_salt m)"
definition web_hash :: "hg_mcfg \<Rightarrow> u8 list" where "web_hash m = take 32 (drop mc_web_hash m)"

definition pw_matches :: "(u8 list \<Rightarrow> u8 list) \<Rightarrow> hg_mcfg \<Rightarrow> u8 list \<Rightarrow> bool" where
  "pw_matches sha m pw =
     (if m ! mc_flags AND MCFG_F_WEB_DEFAULT \<noteq> 0 then ct_eq_str pw (bytes_of ''hillgrow1'')
      else ct_eq (sha (web_salt m @ take WA_PWBUF pw)) (web_hash m) 32)"

text \<open>\<open>salt\<close> is what the random generator wrote.\<close>

definition web_auth_set_password :: "(u8 list \<Rightarrow> u8 list) \<Rightarrow> u8 list \<Rightarrow> hg_mcfg \<Rightarrow> u8 list \<Rightarrow> hg_mcfg \<times> int" where
  "web_auth_set_password sha salt m pw =
     (if length pw < WA_PW_MIN \<or> length pw > WA_PW_MAX then (m, -1)
      else
        let m = mem_put m mc_web_salt salt;
            m = mem_put m mc_web_hash (sha (salt @ pw))
        in (m[mc_flags := m ! mc_flags AND NOT MCFG_F_WEB_DEFAULT], 0))"

definition web_auth_verify :: "(u8 list \<Rightarrow> u8 list) \<Rightarrow> hg_mcfg \<Rightarrow> u8 list \<Rightarrow> int" where
  "web_auth_verify sha m pw = (if pw_matches sha m pw then 0 else -1)"

section \<open>Cookies\<close>

definition hex_digit :: "u8 \<Rightarrow> char" where
  "hex_digit v = ''0123456789abcdef'' ! unat v"

definition hex_encode :: "u8 list \<Rightarrow> string" where
  "hex_encode bs = concat (map (\<lambda>b. [hex_digit (drop_bit 4 b), hex_digit (b AND 0x0F)]) bs)"

definition hexval :: "char \<Rightarrow> int" where
  "hexval c =
     (let n = char_code c in
      if 48 \<le> n \<and> n \<le> 57 then int n - 48
      else if 97 \<le> n \<and> n \<le> 102 then int n - 97 + 10
      else -1)"

fun hex_decode :: "string \<Rightarrow> u8 list" where
  "hex_decode (a # b # s) = (push_bit 4 (of_int (hexval a)) OR of_int (hexval b)) # hex_decode s"
| "hex_decode _ = []"

definition is_sep :: "char \<Rightarrow> bool" where "is_sep c \<longleftrightarrow> c = CHR '' '' \<or> c = CHR '';''"

function cookie_scan :: "string \<Rightarrow> u8 list option" where
  "cookie_scan p =
     (let q = dropWhile is_sep p in
      if q = [] then None
      else
        let seg = takeWhile (\<lambda>c. c \<noteq> CHR '';'') q;
            rest = dropWhile (\<lambda>c. c \<noteq> CHR '';'') q;
            nlen = length WA_COOKIE
        in if length seg > nlen \<and> take nlen seg = WA_COOKIE \<and> seg ! nlen = CHR ''='' then
             let val = drop (nlen + 1) seg in
             if length val \<noteq> 2 * WA_TOKEN_LEN then None
             else if \<exists>c \<in> set val. hexval c < 0 then None
             else Some (hex_decode val)
           else cookie_scan (tl rest))"
  by pat_completeness auto
termination
proof (relation "measure length")
  fix p q seg rest :: string and nlen :: nat
  assume q: "q = dropWhile is_sep p" "q \<noteq> []" and rest: "rest = dropWhile (\<lambda>c. c \<noteq> CHR '';'') q"
  have "hd q \<noteq> CHR '';''" using q hd_dropWhile [of is_sep p] by (auto simp: is_sep_def)
  then obtain c q' where "q = c # q'" "c \<noteq> CHR '';''" using q(2) by (cases q) auto
  then have "length rest < length q" using rest length_dropWhile_le [of "\<lambda>c. c \<noteq> CHR '';''" q'] by simp
  also have "length q \<le> length p" using length_dropWhile_le [of is_sep p] q by simp
  finally show "(tl rest, p) \<in> measure length" by simp
qed simp

declare cookie_scan.simps [simp del]

text \<open>\<open>None\<close> is the NULL header.\<close>

definition extract_cookie_token :: "string option \<Rightarrow> u8 list option" where
  "extract_cookie_token hdr = (case hdr of None \<Rightarrow> None | Some p \<Rightarrow> cookie_scan p)"

section \<open>Sessions\<close>

definition slot_free :: "u32 \<Rightarrow> wa_session \<Rightarrow> bool" where
  "slot_free now s \<longleftrightarrow> \<not> wa_used s \<or> wa_expires s = 0 \<or> now \<ge> wa_expires s"

fun lru_scan :: "nat \<Rightarrow> u32 \<Rightarrow> nat \<Rightarrow> wa_session list \<Rightarrow> nat" where
  "lru_scan idx oldest i [] = idx"
| "lru_scan idx oldest i (s # ss) =
     (if wa_seq s < oldest then lru_scan i (wa_seq s) (i + 1) ss else lru_scan idx oldest (i + 1) ss)"

definition pick_slot :: "u32 \<Rightarrow> wa_session list \<Rightarrow> nat" where
  "pick_slot now ss =
     (case first_idx (slot_free now) ss of
        Some i \<Rightarrow> i
      | None \<Rightarrow> lru_scan 0 (wa_seq (ss ! 0)) 1 (tl ss))"

text \<open>\<open>tok\<close> is what the random generator wrote. The cookie is returned on success.\<close>

definition web_auth_login ::
  "(u8 list \<Rightarrow> u8 list) \<Rightarrow> hg_mcfg \<Rightarrow> u8 list \<Rightarrow> u32 \<Rightarrow> u8 list \<Rightarrow> wa_state \<Rightarrow> wa_state \<times> int \<times> string" where
  "web_auth_login sha m pw now tok st =
     (if now < wa_lock_until st then (st, -2, '''')
      else if \<not> pw_matches sha m pw then
        let st = (if wa_fails st < 0xFF then st\<lparr>wa_fails := wa_fails st + 1\<rparr> else st);
            st = (if wa_fails st \<ge> WA_LOCK_FAILS then st\<lparr>wa_lock_until := now + WA_LOCK_S\<rparr> else st)
        in (st, -1, '''')
      else
        let st = st\<lparr>wa_fails := 0\<rparr>;
            idx = pick_slot now (wa_s st)
        in (st\<lparr>wa_s := (wa_s st)[idx := \<lparr>wa_token = tok, wa_expires = now + WA_TTL_S, wa_used = True,
                  wa_seq = wa_next_seq st\<rparr>],
               wa_next_seq := wa_next_seq st + 1\<rparr>,
            0, hex_encode tok))"

definition slot_of :: "u8 list \<Rightarrow> wa_session list \<Rightarrow> nat option" where
  "slot_of tok ss = first_idx (\<lambda>s. wa_used s \<and> ct_eq (wa_token s) tok WA_TOKEN_LEN) ss"

definition web_auth_check :: "string option \<Rightarrow> u32 \<Rightarrow> wa_state \<Rightarrow> int" where
  "web_auth_check hdr now st =
     (case extract_cookie_token hdr of
        None \<Rightarrow> -1
      | Some tok \<Rightarrow>
          case slot_of tok (wa_s st) of
            None \<Rightarrow> -1
          | Some i \<Rightarrow> if now < wa_expires (wa_s st ! i) then 0 else -1)"

definition web_auth_logout :: "string option \<Rightarrow> wa_state \<Rightarrow> wa_state" where
  "web_auth_logout hdr st =
     (case extract_cookie_token hdr of
        None \<Rightarrow> st
      | Some tok \<Rightarrow>
          case slot_of tok (wa_s st) of
            None \<Rightarrow> st
          | Some i \<Rightarrow> st\<lparr>wa_s := (wa_s st)[i := wa_session_zero]\<rparr>)"

definition WA_SESS_REC_LEN :: nat where "WA_SESS_REC_LEN = WA_TOKEN_LEN + 4"
definition WA_PACK_LEN :: nat where "WA_PACK_LEN = WA_SESSIONS * WA_SESS_REC_LEN"

definition web_auth_pack :: "wa_state \<Rightarrow> nat \<Rightarrow> u8 list option" where
  "web_auth_pack st cap =
     (if cap < WA_PACK_LEN then None
      else Some (concat (map (\<lambda>s. wa_token s @ le32_put (wa_expires s)) (wa_s st))))"

definition unpack_session :: "u8 list \<Rightarrow> wa_session" where
  "unpack_session p =
     (let e = le32_at p WA_TOKEN_LEN in
      \<lparr>wa_token = take WA_TOKEN_LEN p, wa_expires = e, wa_used = (e \<noteq> 0), wa_seq = 0\<rparr>)"

definition web_auth_unpack :: "u8 list \<Rightarrow> wa_state \<Rightarrow> wa_state \<times> int" where
  "web_auth_unpack inp st =
     (if length inp < WA_PACK_LEN then (st, -1)
      else (st\<lparr>wa_s := map (\<lambda>i. unpack_session (drop (i * WA_SESS_REC_LEN) inp)) [0 ..< WA_SESSIONS],
               wa_next_seq := 1\<rparr>, 0))"

section \<open>The comparisons decide equality\<close>

lemma foldl_or_zero:
  "foldl (\<lambda>d i. d OR f i) d xs = 0 \<longleftrightarrow> d = 0 \<and> (\<forall>i \<in> set xs. f i = (0 :: 'a :: len word))"
  by (induction xs arbitrary: d) (auto simp: or_eq_0_iff)

lemma take_eq_iff_nth:
  "n \<le> length a \<Longrightarrow> n \<le> length b \<Longrightarrow> (\<forall>i \<in> set [0 ..< n]. a ! i XOR b ! i = (0 :: u8)) \<longleftrightarrow> take n a = take n b"
  by (auto simp: word_xor_eq_0 list_eq_iff_nth_eq)

lemma ct_eq_iff: "n \<le> length a \<Longrightarrow> n \<le> length b \<Longrightarrow> ct_eq a b n \<longleftrightarrow> take n a = take n b"
  unfolding ct_eq_def foldl_or_zero using take_eq_iff_nth by simp

lemma pad_loop_seen: "pad_loop n True s = (replicate n 0, 0)"
  by (induction n arbitrary: s) simp_all

lemma pad_loop_eq: "0 \<notin> set s \<Longrightarrow> pad_loop n False s = (take n s @ replicate (n - length s) 0, min n (length s))"
proof (induction n arbitrary: s)
  case (Suc n)
  then show ?case by (cases s) (auto simp: pad_loop_seen)
qed simp

lemma xor_low_zero:
  assumes "a < 256" "b < 256" "(ucast ((of_nat a :: u32) XOR of_nat b) :: u8) = 0"
  shows "a = b"
proof -
  have "(ucast ((of_nat a :: u32) XOR of_nat b) :: u8) = (of_nat a :: u8) XOR of_nat b"
    by (rule bit_word_eqI) (auto simp: bit_simps)
  with assms(3) have "(of_nat a :: u8) = of_nat b" by (simp add: word_xor_eq_0)
  with assms(1,2) show ?thesis by (simp add: of_nat_u8_inj)
qed

lemma ct_eq_str_iff:
  assumes "0 \<notin> set a" "0 \<notin> set b"
  shows "ct_eq_str a b \<longleftrightarrow> take WA_PWBUF a = take WA_PWBUF b"
proof -
  let ?p = "\<lambda>s :: u8 list. take WA_PWBUF s @ replicate (WA_PWBUF - length s) 0"
  let ?d = "\<lambda>s :: u8 list. min WA_PWBUF (length s)"
  have l: "length (?p s) = WA_PWBUF" for s by simp
  have t: "take WA_PWBUF (?p s) = ?p s" for s using l [of s] by (metis order_refl take_all)
  note e = take_eq_iff_nth [of WA_PWBUF "?p a" "?p b", unfolded l, OF le_refl le_refl]
  have "ct_eq_str a b \<longleftrightarrow> (ucast ((of_nat (?d a) :: u32) XOR of_nat (?d b)) :: u8) = 0 \<and> ?p a = ?p b"
    by (simp only: ct_eq_str_def pad_str_ct_def pad_loop_eq [OF assms(1)] pad_loop_eq [OF assms(2)] Let_def prod.case
        foldl_or_zero e t)
  also have "\<dots> \<longleftrightarrow> take WA_PWBUF a = take WA_PWBUF b"
  proof
    assume h: "(ucast ((of_nat (?d a) :: u32) XOR of_nat (?d b)) :: u8) = 0 \<and> ?p a = ?p b"
    then have "?d a = ?d b" by (intro xor_low_zero) (simp_all add: WA_PWBUF_def)
    then have "length (take WA_PWBUF a) = length (take WA_PWBUF b)" by (simp add: min.commute)
    with h show "take WA_PWBUF a = take WA_PWBUF b" by simp
  next
    assume t: "take WA_PWBUF a = take WA_PWBUF b"
    then have d: "?d a = ?d b" by (metis length_take min.commute)
    then have "WA_PWBUF - length a = WA_PWBUF - length b" by (simp add: min_def split: if_splits)
    with t d show "(ucast ((of_nat (?d a) :: u32) XOR of_nat (?d b)) :: u8) = 0 \<and> ?p a = ?p b" by simp
  qed
  finally show ?thesis .
qed

section \<open>Hexadecimal tokens\<close>

lemma less_16_cases: "n < 16 \<Longrightarrow> n \<in> {0, 1, 2, 3, 4, 5, 6, 7, 8, 9, 10, 11, 12, 13, 14, 15 :: nat}"
  unfolding insert_iff empty_iff by presburger

lemma hexval_digit: "v < 16 \<Longrightarrow> hexval (hex_digit v) = uint v"
proof -
  assume "v < 16"
  then have "unat v < 16" by (simp add: word_less_nat_alt)
  moreover have "n < 16 \<Longrightarrow> hexval (''0123456789abcdef'' ! n) = int n" for n
    by (drule less_16_cases) (auto simp: hexval_def char_code_def)
  ultimately show ?thesis by (simp add: hex_digit_def)
qed

lemma nibbles: "drop_bit 4 (b :: u8) < 16" "b AND 0x0F < (16 :: u8)"
proof -
  have "unat (drop_bit 4 b) = unat b div 16" unfolding unat_drop_bit_eq by (simp add: drop_bit_eq_div)
  also have "\<dots> < 16" using unat_u8_less [of b] by (intro less_mult_imp_div_less) simp
  finally show "drop_bit 4 b < 16" by (simp add: word_less_nat_alt)
  have "b AND mask 4 < 2 ^ 4" by (rule and_mask_less') simp
  then show "b AND 0x0F < (16 :: u8)" by (simp add: mask_eq_exp_minus_1)
qed

lemma nibbles_join: "push_bit 4 (drop_bit 4 b) OR (b AND 0x0F) = (b :: u8)"
proof -
  have "push_bit 4 (drop_bit 4 b) OR (b AND mask 4) = b"
    by (rule bit_word_eqI) (auto simp: bit_simps)
  then show ?thesis by (simp add: mask_eq_exp_minus_1)
qed

lemma hex_encode_Cons: "hex_encode (b # bs) = hex_digit (drop_bit 4 b) # hex_digit (b AND 0x0F) # hex_encode bs"
  by (simp add: hex_encode_def)

lemma hex_decode_encode: "hex_decode (hex_encode bs) = bs"
proof (induction bs)
  case Nil
  then show ?case by (simp add: hex_encode_def)
next
  case (Cons b bs)
  then show ?case
    using hexval_digit [OF nibbles(1), of b] hexval_digit [OF nibbles(2), of b] nibbles_join [of b]
    by (simp add: hex_encode_Cons)
qed

lemma length_hex_encode: "length (hex_encode bs) = 2 * length bs"
  by (induction bs) (simp_all add: hex_encode_Cons, simp add: hex_encode_def)

lemma hex_encode_chars: "c \<in> set (hex_encode bs) \<Longrightarrow> 0 \<le> hexval c \<and> c \<noteq> CHR '';'' \<and> c \<noteq> CHR '' ''"
proof (induction bs)
  case Nil
  then show ?case by (simp add: hex_encode_def)
next
  case (Cons b bs)
  have "0 \<le> hexval (hex_digit v) \<and> hex_digit v \<noteq> CHR '';'' \<and> hex_digit v \<noteq> CHR '' ''" if "v < 16" for v
  proof -
    have h: "0 \<le> hexval (hex_digit v)" by (simp add: hexval_digit [OF that])
    moreover have "hexval (CHR '';'') < 0" "hexval (CHR '' '') < 0" by (simp_all add: hexval_def char_code_def)
    ultimately show ?thesis by (metis not_less)
  qed
  from Cons this [OF nibbles(1)] this [OF nibbles(2)] show ?case by (auto simp: hex_encode_Cons)
qed

text \<open>A header: other cookies, each followed by a semicolon and a blank, then ours, then anything.\<close>

definition plain_cookie :: "string \<Rightarrow> bool" where
  "plain_cookie s \<longleftrightarrow> s \<noteq> [] \<and> CHR '';'' \<notin> set s \<and> hd s \<noteq> CHR '' '' \<and> take 8 s \<noteq> ''hg_sess=''"

definition cookie_line :: "string list \<Rightarrow> string \<Rightarrow> string \<Rightarrow> string" where
  "cookie_line pre val post = concat (map (\<lambda>s. s @ ''; '') pre) @ ''hg_sess='' @ val @ post"

lemma length_WA_COOKIE: "length WA_COOKIE = 7"
  by (simp add: WA_COOKIE_def)

lemma ours_iff:
  "(length seg > length WA_COOKIE \<and> take (length WA_COOKIE) seg = WA_COOKIE \<and> seg ! length WA_COOKIE = CHR ''='') \<longleftrightarrow>
     take 8 seg = ''hg_sess=''"
  unfolding length_WA_COOKIE
proof
  assume h: "length seg > 7 \<and> take 7 seg = WA_COOKIE \<and> seg ! 7 = CHR ''=''"
  then have "take (Suc 7) seg = take 7 seg @ [seg ! 7]" by (intro take_Suc_conv_app_nth) simp
  moreover have "Suc 7 = 8" by simp
  ultimately have "take 8 seg = take 7 seg @ [seg ! 7]" by metis
  with h show "take 8 seg = ''hg_sess=''" by (simp only: WA_COOKIE_def append.simps)
next
  assume t: "take 8 seg = ''hg_sess=''"
  have "length (take 8 seg) = 8" unfolding t by simp
  then have l: "8 \<le> length seg" by simp
  moreover have "take 7 seg = take 7 (take 8 seg)" by (simp only: take_take) simp
  moreover have "seg ! 7 = take 8 seg ! 7" by (simp only: nth_take)
  ultimately show "length seg > 7 \<and> take 7 seg = WA_COOKIE \<and> seg ! 7 = CHR ''=''"
    unfolding t by (simp add: WA_COOKIE_def)
qed

lemma cookie_scan_step:
  assumes "dropWhile is_sep p = seg @ rest" "seg \<noteq> []" "CHR '';'' \<notin> set seg" "rest = [] \<or> hd rest = CHR '';''"
  shows "cookie_scan p =
    (if take 8 seg = ''hg_sess='' then
       if length (drop 8 seg) \<noteq> 32 \<or> (\<exists>c \<in> set (drop 8 seg). hexval c < 0) then None else Some (hex_decode (drop 8 seg))
     else cookie_scan (tl rest))"
proof -
  have t: "takeWhile (\<lambda>c. c \<noteq> CHR '';'') (seg @ rest) = seg" "dropWhile (\<lambda>c. c \<noteq> CHR '';'') (seg @ rest) = rest"
    using assms(3,4) by (cases rest; auto simp: takeWhile_append dropWhile_append)+
  have n: "length WA_COOKIE + 1 = 8" "2 * WA_TOKEN_LEN = 32" by (simp_all add: WA_COOKIE_def WA_TOKEN_LEN_def)
  have "seg @ rest \<noteq> []" using assms(2) by simp
  then show ?thesis
    by (subst cookie_scan.simps, simp only: assms(1) t Let_def ours_iff n, simp)
qed

lemma cookie_scan_skip: "cookie_scan (CHR '' '' # p) = cookie_scan p"
  by (subst (1 2) cookie_scan.simps) (simp add: is_sep_def)

lemma cookie_scan_plain:
  assumes "plain_cookie s"
  shows "cookie_scan (s @ ''; '' @ p) = cookie_scan p"
proof -
  have ns: "s \<noteq> []" "CHR '';'' \<notin> set s" "hd s \<noteq> CHR '' ''" "take 8 s \<noteq> ''hg_sess=''"
    using assms by (simp_all add: plain_cookie_def)
  then have d: "dropWhile is_sep (s @ ''; '' @ p) = s @ (''; '' @ p)" by (cases s) (auto simp: is_sep_def)
  show ?thesis using cookie_scan_step [OF d ns(1,2)] ns(4) by (simp add: cookie_scan_skip)
qed

lemma cookie_scan_finds:
  assumes "\<forall>s \<in> set pre. plain_cookie s" "length tok = WA_TOKEN_LEN" "post = [] \<or> hd post = CHR '';''"
  shows "cookie_scan (cookie_line pre (hex_encode tok) post) = Some tok"
  using assms(1)
proof (induction pre)
  case Nil
  let ?v = "hex_encode tok"
  have sc: "CHR '';'' \<notin> set (''hg_sess='' @ ?v)" using hex_encode_chars by auto
  have l: "length ?v = 32" using assms(2) by (simp add: length_hex_encode WA_TOKEN_LEN_def)
  have nv: "\<not> (\<exists>c \<in> set ?v. hexval c < 0)" using hex_encode_chars by (metis not_less)
  have d: "dropWhile is_sep (''hg_sess='' @ ?v @ post) = (''hg_sess='' @ ?v) @ post" by (simp add: is_sep_def)
  have "take 8 (''hg_sess='' @ ?v) = ''hg_sess=''" "drop 8 (''hg_sess='' @ ?v) = ?v" by simp_all
  with cookie_scan_step [OF d _ sc assms(3)] l nv show ?case by (simp add: cookie_line_def hex_decode_encode)
next
  case (Cons s pre)
  then show ?case using cookie_scan_plain [of s] by (simp add: cookie_line_def)
qed

section \<open>Slots\<close>

lemma lru_scan_min:
  assumes "rest = drop i ss" "idx < i" "i \<le> length ss" "oldest = wa_seq (ss ! idx)" "\<forall>j < i. oldest \<le> wa_seq (ss ! j)"
  shows "lru_scan idx oldest i rest < length ss \<and>
    (\<forall>j < length ss. wa_seq (ss ! lru_scan idx oldest i rest) \<le> wa_seq (ss ! j))"
  using assms
proof (induction idx oldest i rest rule: lru_scan.induct)
  case (2 idx oldest i s rest)
  have l: "i < length ss" using 2(3) by (metis drop_eq_Nil list.distinct(1) not_le)
  then have s: "s = ss ! i" "rest = drop (i + 1) ss" using 2(3) by (simp_all add: Cons_nth_drop_Suc [symmetric])
  show ?case
  proof (cases "wa_seq s < oldest")
    case True
    with 2(7) s have "\<forall>j < i + 1. wa_seq s \<le> wa_seq (ss ! j)" by (auto simp: less_Suc_eq intro: order_trans less_imp_le)
    with 2(1) [OF True s(2)] l s True show ?thesis by simp
  next
    case False
    with 2(7) s have "\<forall>j < i + 1. oldest \<le> wa_seq (ss ! j)" by (auto simp: less_Suc_eq)
    with 2(2) [OF False s(2)] 2(4,6) l False show ?thesis by simp
  qed
qed auto

lemma pick_slot_ok:
  assumes "ss \<noteq> []"
  shows "pick_slot now ss < length ss"
    "\<not> slot_free now (ss ! pick_slot now ss) \<Longrightarrow>
       \<forall>j < length ss. \<not> slot_free now (ss ! j) \<and> wa_seq (ss ! pick_slot now ss) \<le> wa_seq (ss ! j)"
proof -
  have l: "lru_scan 0 (wa_seq (ss ! 0)) 1 (tl ss) < length ss \<and>
    (\<forall>j < length ss. wa_seq (ss ! lru_scan 0 (wa_seq (ss ! 0)) 1 (tl ss)) \<le> wa_seq (ss ! j))"
    using assms by (intro lru_scan_min) (auto simp: drop_Suc Suc_le_eq)
  then show "pick_slot now ss < length ss"
    using first_idx_Some [of "slot_free now" ss] by (auto simp: pick_slot_def split: option.splits)
  assume "\<not> slot_free now (ss ! pick_slot now ss)"
  then have "first_idx (slot_free now) ss = None"
    using first_idx_Some [of "slot_free now" ss] by (auto simp: pick_slot_def split: option.splits)
  then have "pick_slot now ss = lru_scan 0 (wa_seq (ss ! 0)) 1 (tl ss)" "\<forall>j < length ss. \<not> slot_free now (ss ! j)"
    by (simp_all add: pick_slot_def flip: first_idx_None_nth)
  with l show "\<forall>j < length ss. \<not> slot_free now (ss ! j) \<and> wa_seq (ss ! pick_slot now ss) \<le> wa_seq (ss ! j)" by simp
qed

text \<open>Four slots with tokens of 16 bytes; a slot is in use when its expiry is set.\<close>

definition session_ok :: "wa_session \<Rightarrow> bool" where
  "session_ok s \<longleftrightarrow> length (wa_token s) = WA_TOKEN_LEN \<and> (wa_used s \<longleftrightarrow> wa_expires s \<noteq> 0)"

definition wa_ok :: "wa_state \<Rightarrow> bool" where
  "wa_ok st \<longleftrightarrow> length (wa_s st) = WA_SESSIONS \<and> (\<forall>s \<in> set (wa_s st). session_ok s)"

datatype wa_ev = Login hg_mcfg "u8 list" u32 "u8 list" | Logout "string option"

fun wa_ev_ok :: "wa_ev \<Rightarrow> bool" where
  "wa_ev_ok (Login m pw now tok) \<longleftrightarrow> length tok = WA_TOKEN_LEN \<and> now + WA_TTL_S \<noteq> 0"
| "wa_ev_ok (Logout hdr) \<longleftrightarrow> True"

fun wa_step :: "(u8 list \<Rightarrow> u8 list) \<Rightarrow> wa_state \<Rightarrow> wa_ev \<Rightarrow> wa_state \<times> (int \<times> string)" where
  "wa_step sha st (Login m pw now tok) = web_auth_login sha m pw now tok st"
| "wa_step sha st (Logout hdr) = (web_auth_logout hdr st, 0, '''')"

text \<open>What a login does, by its result.\<close>

lemma login_cases:
  obtains (locked) "now < wa_lock_until st" "web_auth_login sha m pw now tok st = (st, -2, '''')"
  | (wrong) "\<not> now < wa_lock_until st" "\<not> pw_matches sha m pw" "snd (web_auth_login sha m pw now tok st) = (-1, '''')"
      "wa_s (fst (web_auth_login sha m pw now tok st)) = wa_s st"
      "wa_fails (fst (web_auth_login sha m pw now tok st)) = (if wa_fails st < 0xFF then wa_fails st + 1 else wa_fails st)"
      "wa_lock_until (fst (web_auth_login sha m pw now tok st)) =
         (if (if wa_fails st < 0xFF then wa_fails st + 1 else wa_fails st) \<ge> WA_LOCK_FAILS then now + WA_LOCK_S else wa_lock_until st)"
  | (entered) "\<not> now < wa_lock_until st" "pw_matches sha m pw" "snd (web_auth_login sha m pw now tok st) = (0, hex_encode tok)"
      "wa_s (fst (web_auth_login sha m pw now tok st)) = (wa_s st)[pick_slot now (wa_s st) :=
         \<lparr>wa_token = tok, wa_expires = now + WA_TTL_S, wa_used = True, wa_seq = wa_next_seq st\<rparr>]"
proof (cases "now < wa_lock_until st")
  case True
  then show thesis using locked by (simp add: web_auth_login_def)
next
  case n: False
  show thesis
  proof (cases "pw_matches sha m pw")
    case True
    then show thesis using n by (intro entered) (simp_all add: web_auth_login_def Let_def)
  next
    case False
    then show thesis using n by (intro wrong) (simp_all add: web_auth_login_def Let_def)
  qed
qed

lemma session_ok_zero: "session_ok wa_session_zero"
  by (simp add: session_ok_def wa_session_zero_def)

lemma set_list_update_ok: "\<forall>s \<in> set ss. P s \<Longrightarrow> P x \<Longrightarrow> \<forall>s \<in> set (ss[i := x]). P s"
  using set_update_subset_insert [of ss i x] by auto

lemma wa_ok_step: "wa_ok st \<Longrightarrow> wa_ev_ok ev \<Longrightarrow> wa_ok (fst (wa_step sha st ev))"
proof (cases ev)
  case (Login m pw now tok)
  assume ok: "wa_ok st" "wa_ev_ok ev"
  show ?thesis
  proof (cases rule: login_cases [of now st sha m pw tok])
    case entered
    let ?s = "\<lparr>wa_token = tok, wa_expires = now + WA_TTL_S, wa_used = True, wa_seq = wa_next_seq st\<rparr>"
    have "session_ok ?s" using ok(2) Login by (simp add: session_ok_def)
    with ok(1) have "\<forall>s \<in> set ((wa_s st)[pick_slot now (wa_s st) := ?s]). session_ok s"
      by (intro set_list_update_ok) (simp_all add: wa_ok_def)
    with entered ok(1) Login show ?thesis by (simp add: wa_ok_def)
  qed (use ok Login in \<open>simp_all add: wa_ok_def\<close>)
next
  case (Logout hdr)
  assume "wa_ok st"
  then have "\<forall>s \<in> set ((wa_s st)[i := wa_session_zero]). session_ok s" for i
    by (intro set_list_update_ok session_ok_zero) (simp add: wa_ok_def)
  with \<open>wa_ok st\<close> Logout show ?thesis by (simp add: web_auth_logout_def wa_ok_def split: option.splits)
qed

interpretation wa: guarded_invariant "wa_step sha" wa_ok wa_ev_ok for sha
  by unfold_locales (rule wa_ok_step)

lemma wa_ok_init: "wa_ok web_auth_init"
  by (simp add: wa_ok_def web_auth_init_def session_ok_zero)

section \<open>A cookie was issued\<close>

definition sessions :: "wa_state \<Rightarrow> (u8 list \<times> u32) set" where
  "sessions st = {(wa_token s, wa_expires s) | s. s \<in> set (wa_s st) \<and> wa_used s}"

lemma sessions_step:
  "sessions (fst (wa_step sha st ev)) \<subseteq> sessions st \<union>
     {(tok, now + WA_TTL_S) | m pw now tok. ev = Login m pw now tok \<and> pw_matches sha m pw \<and> fst (snd (wa_step sha st ev)) = 0}"
proof (cases ev)
  case (Login m pw now tok)
  show ?thesis
  proof (cases rule: login_cases [of now st sha m pw tok])
    case entered
    then show ?thesis using set_update_subset_insert [of "wa_s st"] by (fastforce simp: sessions_def Login)
  qed (auto simp: sessions_def Login)
next
  case (Logout hdr)
  have "set ((wa_s st)[i := wa_session_zero]) \<subseteq> insert wa_session_zero (set (wa_s st))" for i
    by (rule set_update_subset_insert)
  then show ?thesis
    by (fastforce simp: sessions_def Logout web_auth_logout_def wa_session_zero_def split: option.splits)
qed

lemma sessions_run:
  "(tok, e) \<in> sessions (fst (run_steps (wa_step sha) st evs)) \<Longrightarrow> (tok, e) \<in> sessions st \<or>
     (\<exists>m pw now c. (Login m pw now tok, 0, c) \<in> set (zip evs (snd (run_steps (wa_step sha) st evs))) \<and>
        pw_matches sha m pw \<and> e = now + WA_TTL_S)"
proof (induction evs arbitrary: st)
  case (Cons ev evs)
  let ?st = "fst (wa_step sha st ev)"
  from Cons.prems have "(tok, e) \<in> sessions (fst (run_steps (wa_step sha) ?st evs))" by simp
  from Cons.IH [OF this] show ?case
  proof
    assume "(tok, e) \<in> sessions ?st"
    with sessions_step [of sha st ev] show ?thesis
      by (cases "snd (wa_step sha st ev)") fastforce
  next
    assume "\<exists>m pw now c. (Login m pw now tok, 0, c) \<in> set (zip evs (snd (run_steps (wa_step sha) ?st evs))) \<and>
        pw_matches sha m pw \<and> e = now + WA_TTL_S"
    then show ?thesis by auto
  qed
qed simp

lemma slot_of_Some:
  assumes "slot_of tok ss = Some i" "\<forall>s \<in> set ss. length (wa_token s) = WA_TOKEN_LEN" "length tok = WA_TOKEN_LEN"
  shows "i < length ss" "wa_used (ss ! i)" "wa_token (ss ! i) = tok"
proof -
  from first_idx_Some [OF assms(1) [unfolded slot_of_def]]
  have i: "i < length ss" "wa_used (ss ! i)" "ct_eq (wa_token (ss ! i)) tok WA_TOKEN_LEN" by blast+
  then show "i < length ss" "wa_used (ss ! i)" by blast+
  have "length (wa_token (ss ! i)) = WA_TOKEN_LEN" using assms(2) i(1) nth_mem by blast
  with i(3) assms(3) show "wa_token (ss ! i) = tok" by (simp add: ct_eq_iff)
qed

lemma hex_decode_length: "length (hex_decode s) = length s div 2"
  by (induction s rule: hex_decode.induct) simp_all

lemma cookie_scan_length: "cookie_scan p = Some tok \<Longrightarrow> length tok = WA_TOKEN_LEN"
proof (induction p rule: cookie_scan.induct)
  case (1 p)
  from "1.prems" show ?case
    by (subst (asm) cookie_scan.simps)
      (auto simp: Let_def hex_decode_length split: if_splits intro: "1.IH" [OF refl])
qed

lemma check_issued:
  assumes "wa_ok st" "web_auth_check hdr now st = 0"
  obtains tok e where "extract_cookie_token hdr = Some tok" "(tok, e) \<in> sessions st" "now < e"
proof -
  obtain tok i where t: "extract_cookie_token hdr = Some tok" "slot_of tok (wa_s st) = Some i" "now < wa_expires (wa_s st ! i)"
    using assms(2) by (auto simp: web_auth_check_def split: option.splits if_splits)
  have "length tok = WA_TOKEN_LEN"
    using t(1) cookie_scan_length by (auto simp: extract_cookie_token_def split: option.splits)
  from slot_of_Some [OF t(2) _ this] assms(1) have "(tok, wa_expires (wa_s st ! i)) \<in> sessions st"
    by (force simp: wa_ok_def session_ok_def sessions_def)
  with t show thesis by (intro that)
qed

section \<open>Login and check\<close>

lemma slot_of_eq:
  assumes "i < length ss" "wa_used (ss ! i)" "wa_token (ss ! i) = tok" "length tok = WA_TOKEN_LEN"
    "\<forall>s \<in> set ss. length (wa_token s) = WA_TOKEN_LEN"
    "\<forall>j < length ss. j \<noteq> i \<longrightarrow> wa_used (ss ! j) \<longrightarrow> wa_token (ss ! j) \<noteq> tok"
  shows "slot_of tok ss = Some i"
  unfolding slot_of_def
proof (rule first_idx_eq_Some)
  show "wa_used (ss ! i) \<and> ct_eq (wa_token (ss ! i)) tok WA_TOKEN_LEN" using assms(2-4) by (simp add: ct_eq_iff)
  show "\<forall>j < length ss. wa_used (ss ! j) \<and> ct_eq (wa_token (ss ! j)) tok WA_TOKEN_LEN \<longrightarrow> j = i"
    using assms(4-6) by (metis ct_eq_iff nth_mem order_refl take_all)
qed (rule assms(1))

lemma login_check:
  assumes "wa_ok st" "length tok = WA_TOKEN_LEN" "\<forall>s \<in> set (wa_s st). wa_used s \<longrightarrow> wa_token s \<noteq> tok"
    "fst (snd (web_auth_login sha m pw now tok st)) = 0" "extract_cookie_token hdr = Some tok"
  shows "web_auth_check hdr later (fst (web_auth_login sha m pw now tok st)) = (if later < now + WA_TTL_S then 0 else -1)"
proof (cases rule: login_cases [of now st sha m pw tok])
  case entered
  let ?i = "pick_slot now (wa_s st)"
  let ?s = "\<lparr>wa_token = tok, wa_expires = now + WA_TTL_S, wa_used = True, wa_seq = wa_next_seq st\<rparr>"
  have l: "length (wa_s st) = 4" using assms(1) by (simp add: wa_ok_def WA_SESSIONS_def)
  then have i: "?i < length (wa_s st)" using pick_slot_ok(1) [of "wa_s st" now] by fastforce
  have "\<forall>s \<in> set (wa_s st). length (wa_token s) = WA_TOKEN_LEN" using assms(1) by (simp add: wa_ok_def session_ok_def)
  then have "\<forall>s \<in> set ((wa_s st)[?i := ?s]). length (wa_token s) = WA_TOKEN_LEN"
    by (rule set_list_update_ok) (simp add: assms(2))
  moreover have "\<forall>j < length ((wa_s st)[?i := ?s]). j \<noteq> ?i \<longrightarrow> wa_used ((wa_s st)[?i := ?s] ! j) \<longrightarrow> wa_token ((wa_s st)[?i := ?s] ! j) \<noteq> tok"
    using assms(3) by (simp add: nth_list_update)
  ultimately have "slot_of tok ((wa_s st)[?i := ?s]) = Some ?i"
    using i assms(2) by (intro slot_of_eq) simp_all
  then show ?thesis using entered i assms(5) by (simp add: web_auth_check_def)
qed (use assms(4) in simp_all)

lemma login_keeps_live:
  assumes "wa_ok st" "fst (snd (web_auth_login sha m pw now tok st)) = 0" "j < WA_SESSIONS" "\<not> slot_free now (wa_s st ! j)"
    "wa_s (fst (web_auth_login sha m pw now tok st)) ! j \<noteq> wa_s st ! j"
  shows "\<forall>k < WA_SESSIONS. \<not> slot_free now (wa_s st ! k) \<and> wa_seq (wa_s st ! j) \<le> wa_seq (wa_s st ! k)"
proof (cases rule: login_cases [of now st sha m pw tok])
  case entered
  have l: "length (wa_s st) = WA_SESSIONS" "wa_s st \<noteq> []" using assms(1) by (auto simp: wa_ok_def WA_SESSIONS_def)
  have "j = pick_slot now (wa_s st)"
    using assms(5) entered(4) by (metis nth_list_update_neq)
  with pick_slot_ok(2) [OF l(2), of now] assms(4) l(1) show ?thesis by simp
qed (use assms(2) in simp_all)

section \<open>Guessing\<close>

fun ev_time :: "wa_ev \<Rightarrow> nat" where
  "ev_time (Login m pw now tok) = unat now"
| "ev_time (Logout hdr) = 0"

fun wrong_login :: "(u8 list \<Rightarrow> u8 list) \<Rightarrow> wa_ev \<Rightarrow> bool" where
  "wrong_login sha (Login m pw now tok) \<longleftrightarrow> \<not> pw_matches sha m pw \<and> unat now + 60 < 4294967296"
| "wrong_login sha (Logout hdr) \<longleftrightarrow> False"

text \<open>The number of passwords that were compared.\<close>

definition tries :: "(int \<times> string) list \<Rightarrow> nat" where
  "tries outs = length (filter (\<lambda>out. fst out = -1) outs)"

lemma tries_bound:
  assumes "\<forall>ev \<in> set evs. wrong_login sha ev" "sorted (map ev_time evs)"
  shows "let n = tries (snd (run_steps (wa_step sha) st evs)); f = unat (wa_fails st); T = ev_time (last evs) in
    (f \<ge> 5 \<longrightarrow> n \<ge> 1 \<longrightarrow> unat (wa_lock_until st) + 60 * (n - 1) \<le> T) \<and>
    (f < 5 \<longrightarrow> n > 5 - f \<longrightarrow> ev_time (hd evs) + 60 * (n - (5 - f)) \<le> T)"
  using assms
proof (induction evs arbitrary: st)
  case Nil
  then show ?case by (simp add: tries_def)
next
  case (Cons ev evs)
  obtain m pw now tok where ev: "ev = Login m pw now tok" and wr: "\<not> pw_matches sha m pw" "unat now + 60 < 4294967296"
    using Cons.prems(1) by (cases ev) auto
  let ?st = "fst (wa_step sha st ev)" and ?T = "ev_time (last (ev # evs))"
  define n' where "n' = tries (snd (run_steps (wa_step sha) ?st evs))"
  define n where "n = tries (snd (run_steps (wa_step sha) st (ev # evs)))"
  have T: "unat now \<le> ?T" using Cons.prems(2) by (cases evs rule: rev_cases) (auto simp: ev)
  have T': "evs \<noteq> [] \<Longrightarrow> ev_time (last evs) = ?T \<and> unat now \<le> ev_time (hd evs)"
    using Cons.prems(2) by (cases evs) (auto simp: ev)
  have n0: "evs = [] \<Longrightarrow> n' = 0" by (simp add: n'_def tries_def)
  have IH: "(unat (wa_fails ?st) \<ge> 5 \<longrightarrow> n' \<ge> 1 \<longrightarrow> unat (wa_lock_until ?st) + 60 * (n' - 1) \<le> ?T) \<and>
    (unat (wa_fails ?st) < 5 \<longrightarrow> n' > 5 - unat (wa_fails ?st) \<longrightarrow> unat now + 60 * (n' - (5 - unat (wa_fails ?st))) \<le> ?T)"
  proof (cases "evs = []")
    case True
    with n0 show ?thesis by simp
  next
    case False
    have "\<forall>ev \<in> set evs. wrong_login sha ev" "sorted (map ev_time evs)" using Cons.prems by simp_all
    from Cons.IH [OF this, of ?st, unfolded Let_def, folded n'_def] T' [OF False] show ?thesis by linarith
  qed
  have "(unat (wa_fails st) \<ge> 5 \<longrightarrow> n \<ge> 1 \<longrightarrow> unat (wa_lock_until st) + 60 * (n - 1) \<le> ?T) \<and>
    (unat (wa_fails st) < 5 \<longrightarrow> n > 5 - unat (wa_fails st) \<longrightarrow> unat now + 60 * (n - (5 - unat (wa_fails st))) \<le> ?T)"
  proof (cases rule: login_cases [of now st sha m pw tok])
    case locked
    then have "n = n'" "?st = st" by (simp_all add: n_def n'_def tries_def ev)
    with IH show ?thesis by simp
  next
    case wrong
    let ?f = "unat (wa_fails st)"
    have n: "n = Suc n'" using wrong(3) by (simp add: n_def n'_def tries_def ev)
    have u: "unat (now + 60) = unat now + 60" using wr(2) by (simp add: unat_plus_if_size word_size)
    have le: "unat (wa_lock_until st) \<le> unat now" using wrong(1) by (simp add: word_less_nat_alt)
    have f: "unat (wa_fails ?st) = (if ?f < 255 then ?f + 1 else ?f)"
      using wrong(5) by (simp add: ev word_less_nat_alt unat_plus_if_size word_size)
    have lk: "wa_lock_until ?st = (if 5 \<le> unat (wa_fails ?st) then now + 60 else wa_lock_until st)"
      using wrong(5,6) by (simp add: ev WA_LOCK_FAILS_def WA_LOCK_S_def word_le_nat_alt)
    show ?thesis
    proof (cases "unat (wa_fails ?st) \<ge> 5")
      case True
      then have "n' \<ge> 1 \<longrightarrow> unat now + 60 + 60 * (n' - 1) \<le> ?T" using IH lk u by simp
      moreover have "?f \<ge> 5 \<or> ?f = 4" using True f by (auto split: if_splits)
      ultimately show ?thesis unfolding n using T le by (elim disjE; cases n'; simp)
    next
      case False
      then have "unat (wa_fails ?st) = ?f + 1" using f by (simp split: if_splits)
      with False IH show ?thesis unfolding n by simp
    qed
  qed (use wr in simp)
  then show ?case by (simp add: Let_def n_def ev)
qed

section \<open>Packing\<close>

lemma unpack_packed:
  assumes "session_ok s"
  shows "unpack_session (wa_token s @ le32_put (wa_expires s) @ xs) = s\<lparr>wa_seq := 0\<rparr>"
proof -
  have l: "length (wa_token s) = 16" using assms by (simp add: session_ok_def WA_TOKEN_LEN_def)
  have "le32_at (wa_token s @ le32_put (wa_expires s) @ xs) 16 = wa_expires s"
    using l by (simp add: le32_at_def le32_put_def nth_append le_simps)
  with l assms show ?thesis by (cases s) (simp add: unpack_session_def WA_TOKEN_LEN_def session_ok_def Let_def)
qed

lemma pack_unpack:
  assumes "wa_ok st" "web_auth_pack st cap = Some bs"
  shows "web_auth_unpack (bs @ xs) st0 = (st0\<lparr>wa_s := map (\<lambda>s. s\<lparr>wa_seq := 0\<rparr>) (wa_s st), wa_next_seq := 1\<rparr>, 0)"
proof -
  let ?f = "\<lambda>s. wa_token s @ le32_put (wa_expires s)"
  have bs: "bs = concat (map ?f (wa_s st))" using assms(2) by (simp add: web_auth_pack_def split: if_splits)
  have l: "\<forall>s \<in> set (wa_s st). length (?f s) = WA_SESS_REC_LEN" "length (wa_s st) = WA_SESSIONS"
    using assms(1) by (simp_all add: wa_ok_def session_ok_def WA_SESS_REC_LEN_def)
  have lb: "length bs = WA_PACK_LEN" using length_concat_records [OF l(1)] l(2) by (simp add: bs WA_PACK_LEN_def)
  have "map (\<lambda>i. unpack_session (drop (i * WA_SESS_REC_LEN) (bs @ xs))) [0 ..< WA_SESSIONS] =
      map (\<lambda>s. s\<lparr>wa_seq := 0\<rparr>) (wa_s st)"
  proof (rule nth_equalityI)
    fix i assume "i < length (map (\<lambda>i. unpack_session (drop (i * WA_SESS_REC_LEN) (bs @ xs))) [0 ..< WA_SESSIONS])"
    then have i: "i < length (wa_s st)" by (simp add: l(2))
    have "i * WA_SESS_REC_LEN \<le> length bs" using i lb by (simp add: l(2) WA_PACK_LEN_def)
    then have "drop (i * WA_SESS_REC_LEN) (bs @ xs) = ?f (wa_s st ! i) @ drop ((i + 1) * WA_SESS_REC_LEN) bs @ xs"
      using drop_concat_records [OF l(1) i] by (simp add: bs)
    moreover have "session_ok (wa_s st ! i)" using assms(1) i by (simp add: wa_ok_def)
    ultimately have "unpack_session (drop (i * WA_SESS_REC_LEN) (bs @ xs)) = (wa_s st ! i)\<lparr>wa_seq := 0\<rparr>"
      by (simp only: append_assoc unpack_packed)
    with i show "map (\<lambda>i. unpack_session (drop (i * WA_SESS_REC_LEN) (bs @ xs))) [0 ..< WA_SESSIONS] ! i =
        map (\<lambda>s. s\<lparr>wa_seq := 0\<rparr>) (wa_s st) ! i" by (simp add: l(2))
  qed (simp add: l(2))
  with lb show ?thesis by (simp add: web_auth_unpack_def)
qed

lemma first_idx_map: "first_idx P (map f xs) = first_idx (P \<circ> f) xs"
  by (induction xs) simp_all

lemma check_ignores_seq:
  "web_auth_check hdr now (st\<lparr>wa_s := map (\<lambda>s. s\<lparr>wa_seq := 0\<rparr>) (wa_s st'), wa_next_seq := n\<rparr>) = web_auth_check hdr now st'"
proof -
  have s: "slot_of tok (map (\<lambda>s. s\<lparr>wa_seq := 0\<rparr>) ss) = slot_of tok ss" for tok ss
    by (simp add: slot_of_def first_idx_map comp_def)
  have "slot_of tok ss = Some i \<Longrightarrow> i < length ss" for tok ss i
    using first_idx_Some by (auto simp: slot_of_def)
  then show ?thesis by (auto simp: web_auth_check_def s split: option.splits)
qed

section \<open>Changing the password\<close>

lemma set_password_facts:
  assumes "web_auth_set_password sha salt m pw = (m', 0)" "length m = MCFG_LEN" "length salt = 16"
    "\<And>x. length (sha x) = 32"
  shows "length pw \<ge> 8" "length pw \<le> 63" "length m' = MCFG_LEN" "web_salt m' = salt" "web_hash m' = sha (salt @ pw)"
    "m' ! mc_flags AND MCFG_F_WEB_DEFAULT = 0"
    "\<forall>i < MCFG_LEN. i < 196 \<or> 244 \<le> i \<longrightarrow> i \<noteq> mc_flags \<longrightarrow> m' ! i = m ! i"
proof -
  let ?m1 = "mem_put m mc_web_salt salt"
  let ?m2 = "mem_put ?m1 mc_web_hash (sha (salt @ pw))"
  have pw: "8 \<le> length pw" "length pw \<le> 63" and m': "m' = ?m2[mc_flags := ?m2 ! mc_flags AND NOT MCFG_F_WEB_DEFAULT]"
    using assms(1) by (auto simp: web_auth_set_password_def Let_def WA_PW_MIN_def WA_PW_MAX_def split: if_splits)
  show "length pw \<ge> 8" "length pw \<le> 63" by fact+
  have fit1: "mc_web_salt + length salt \<le> length m" using assms(2,3) by (simp add: mc_offs MCFG_LEN_def)
  have l1: "length ?m1 = 368" using length_mem_put [OF fit1] assms(2) by (simp add: MCFG_LEN_def)
  have fit2: "mc_web_hash + length (sha (salt @ pw)) \<le> length ?m1" unfolding l1 assms(4) by (simp add: mc_offs)
  have l2: "length ?m2 = 368" using length_mem_put [OF fit2] l1 by simp
  show "length m' = MCFG_LEN" by (simp add: m' l2 MCFG_LEN_def)
  have n: "m' ! i = (if i = 364 then ?m2 ! 364 AND NOT MCFG_F_WEB_DEFAULT
      else if 212 \<le> i \<and> i < 244 then sha (salt @ pw) ! (i - 212)
      else if 196 \<le> i \<and> i < 212 then salt ! (i - 196) else m ! i)" if "i < 368" for i
    using that l2 nth_mem_put [OF fit2, of i] nth_mem_put [OF fit1, of i] assms(3,4)
    by (auto simp: m' nth_list_update mc_offs)
  have l: "length m' = 368" by (simp add: m' l2)
  show "web_salt m' = salt"
    by (rule nth_equalityI) (use assms(3) l n in \<open>simp_all add: web_salt_def mc_offs\<close>)
  show "web_hash m' = sha (salt @ pw)"
    by (rule nth_equalityI) (use assms(4) l n in \<open>simp_all add: web_hash_def mc_offs\<close>)
  show "m' ! mc_flags AND MCFG_F_WEB_DEFAULT = 0"
    using n [of 364] by (simp add: mc_offs MCFG_F_WEB_DEFAULT_def and.assoc)
  show "\<forall>i < MCFG_LEN. i < 196 \<or> 244 \<le> i \<longrightarrow> i \<noteq> mc_flags \<longrightarrow> m' ! i = m ! i"
    using n by (auto simp: MCFG_LEN_def mc_offs)
qed

lemma verify_after_set:
  assumes "web_auth_set_password sha salt m pw = (m', 0)" "length m = MCFG_LEN" "length salt = 16"
    "\<And>x. length (sha x) = 32"
  shows "web_auth_verify sha m' pw' = (if sha (salt @ take 64 pw') = sha (salt @ pw) then 0 else -1)"
  using set_password_facts [OF assms] assms(4)
  by (simp add: web_auth_verify_def pw_matches_def ct_eq_iff WA_PWBUF_def)

section \<open>Properties\<close>

text \<open>A configuration with the default password, and a login into a new state.\<close>

definition web_cfg :: hg_mcfg where "web_cfg = (replicate MCFG_LEN 0)[mc_flags := MCFG_F_WEB_DEFAULT]"

definition tok_a :: "u8 list" where "tok_a = replicate 16 0xA7"

lemma web_cfg_facts:
  "pw_matches sha web_cfg (bytes_of ''hillgrow1'')" "\<not> pw_matches sha web_cfg (bytes_of ''guess'')" "length web_cfg = MCFG_LEN"
proof -
  have f: "web_cfg ! mc_flags AND MCFG_F_WEB_DEFAULT \<noteq> 0"
    by (simp add: web_cfg_def MCFG_F_WEB_DEFAULT_def MCFG_LEN_def mc_offs)
  have z: "0 \<notin> set (bytes_of ''hillgrow1'')" "0 \<notin> set (bytes_of ''guess'')" by (simp_all add: c_string_def char_code_def)
  show "pw_matches sha web_cfg (bytes_of ''hillgrow1'')" using f z by (simp add: pw_matches_def ct_eq_str_iff)
  have "length (take 64 (bytes_of ''guess'')) \<noteq> length (take 64 (bytes_of ''hillgrow1''))" by simp
  then have "take WA_PWBUF (bytes_of ''guess'') \<noteq> take WA_PWBUF (bytes_of ''hillgrow1'')" unfolding WA_PWBUF_def by metis
  then show "\<not> pw_matches sha web_cfg (bytes_of ''guess'')" using f z by (simp add: pw_matches_def ct_eq_str_iff)
  show "length web_cfg = MCFG_LEN" by (simp add: web_cfg_def)
qed

abbreviation login_a :: "wa_state \<times> int \<times> string" where
  "login_a \<equiv> web_auth_login (\<lambda>x. x) web_cfg (bytes_of ''hillgrow1'') 1000 tok_a web_auth_init"

lemma login_a_facts:
  "fst (snd login_a) = 0" "length tok_a = WA_TOKEN_LEN" "\<forall>s \<in> set (wa_s web_auth_init). wa_used s \<longrightarrow> wa_token s \<noteq> tok_a"
  by (auto simp: web_auth_login_def web_cfg_facts web_auth_init_def wa_session_zero_def tok_a_def WA_TOKEN_LEN_def WA_SESSIONS_def Let_def)

lemma header_a: "extract_cookie_token (Some (cookie_line [''a=b''] (hex_encode tok_a) [])) = Some tok_a"
proof -
  have "plain_cookie ''a=b''" by (simp add: plain_cookie_def)
  then show ?thesis
    using cookie_scan_finds [of "[''a=b'']" tok_a "[]"] by (simp add: extract_cookie_token_def login_a_facts(2))
qed

text \<open>Setting a password of 8 to 63 bytes changes only salt, hash and the default flag; afterwards exactly the passwords whose salted hash equals that of the new one are accepted, the default one no longer for being the default.\<close>

lemma new_password_replaces_the_old:
  assumes "web_auth_set_password sha salt m pw = (m', 0)" "length m = MCFG_LEN" "length salt = 16"
    "\<And>x. length (sha x) = 32"
  shows "length m' = MCFG_LEN \<and> (\<forall>i < MCFG_LEN. i < mc_web_salt \<or> mc_tz \<le> i \<longrightarrow> i \<noteq> mc_flags \<longrightarrow> m' ! i = m ! i) \<and>
    (\<forall>pw'. web_auth_verify sha m' pw' = (if sha (salt @ take 64 pw') = sha (salt @ pw) then 0 else -1))"
  using set_password_facts(3,7) [OF assms] verify_after_set [OF assms] by (simp add: mc_offs)

lemma new_password_replaces_the_old_witness:
  \<open>web_auth_verify (\<lambda>x. take 32 (x @ replicate 32 0))
     (fst (web_auth_set_password (\<lambda>x. take 32 (x @ replicate 32 0)) (replicate 16 7) web_cfg (bytes_of ''greenhouse'')))
     (bytes_of ''greenhouse'') = 0\<close>
proof -
  let ?r = "web_auth_set_password (\<lambda>x. take 32 (x @ replicate 32 0)) (replicate 16 7) web_cfg (bytes_of ''greenhouse'')"
  have r: "?r = (fst ?r, 0)" by (simp add: web_auth_set_password_def WA_PW_MIN_def WA_PW_MAX_def Let_def)
  from new_password_replaces_the_old [OF r web_cfg_facts(3)] show ?thesis by simp
qed

text \<open>The sessions, packed and unpacked again (also from a longer buffer), accept exactly the headers they accepted before, at every time.\<close>

lemma sessions_survive_a_restart:
  assumes "wa_ok st" "web_auth_pack st cap = Some bs"
  shows "web_auth_check hdr now (fst (web_auth_unpack (bs @ xs) st0)) = web_auth_check hdr now st"
  using pack_unpack [OF assms, of xs st0] check_ignores_seq [where st = st0 and st' = st and n = 1] by simp

lemma sessions_survive_a_restart_witness:
  \<open>web_auth_check (Some (cookie_line [''a=b''] (hex_encode tok_a) [])) 2000
     (fst (web_auth_unpack (the (web_auth_pack (fst login_a) 80)) web_auth_init)) = 0\<close>
proof -
  have ok: "wa_ok (fst login_a)"
    using wa_ok_step [OF wa_ok_init, of "Login web_cfg (bytes_of ''hillgrow1'') 1000 tok_a" "\<lambda>x. x"] login_a_facts(2)
    by (simp add: WA_TTL_S_def)
  have p: "web_auth_pack (fst login_a) 80 = Some (the (web_auth_pack (fst login_a) 80))"
    by (simp add: web_auth_pack_def WA_PACK_LEN_def WA_SESSIONS_def WA_SESS_REC_LEN_def WA_TOKEN_LEN_def)
  have "web_auth_check (Some (cookie_line [''a=b''] (hex_encode tok_a) [])) 2000 (fst login_a) = 0"
    using login_check [OF wa_ok_init login_a_facts(2,3,1) header_a, of 2000] by (simp add: WA_TTL_S_def)
  with sessions_survive_a_restart [OF ok p, of _ 2000 "[]" web_auth_init] show ?thesis by simp
qed

text \<open>A login that pushes out another live session does so only when all four slots hold live sessions, and then the one with the lowest creation number.\<close>

lemma live_sessions_are_evicted_last:
  assumes "wa_ok st" "web_auth_login sha m pw now tok st = (st', 0, cookie)" "j < WA_SESSIONS"
    "\<not> slot_free now (wa_s st ! j)" "wa_s st' ! j \<noteq> wa_s st ! j"
  shows "\<forall>k < WA_SESSIONS. \<not> slot_free now (wa_s st ! k) \<and> wa_seq (wa_s st ! j) \<le> wa_seq (wa_s st ! k)"
  using login_keeps_live [OF assms(1) _ assms(3,4), of sha m pw tok] assms(2,5) by simp

lemma live_sessions_are_evicted_last_witness:
  \<open>let s = \<lparr>wa_token = replicate 16 1, wa_expires = 5000, wa_used = True, wa_seq = 3\<rparr>;
        st = web_auth_init\<lparr>wa_s := replicate 4 s\<rparr>;
        st' = fst (web_auth_login (\<lambda>x. x) web_cfg (bytes_of ''hillgrow1'') 1000 tok_a st)
    in wa_s st' ! 0 \<noteq> wa_s st ! 0 \<and> (\<forall>k < WA_SESSIONS. wa_seq (wa_s st ! 0) \<le> wa_seq (wa_s st ! k))\<close>
proof -
  let ?s = "\<lparr>wa_token = replicate 16 1, wa_expires = 5000, wa_used = True, wa_seq = 3\<rparr> :: wa_session"
  let ?st = "web_auth_init\<lparr>wa_s := replicate 4 ?s\<rparr>"
  let ?r = "web_auth_login (\<lambda>x. x) web_cfg (bytes_of ''hillgrow1'') 1000 tok_a ?st"
  have ok: "wa_ok ?st" by (simp add: wa_ok_def session_ok_def WA_SESSIONS_def WA_TOKEN_LEN_def)
  have nf: "\<not> slot_free 1000 ?s" by (simp add: slot_free_def)
  have "pick_slot 1000 (replicate 4 ?s) = 0" using nf by (simp add: pick_slot_def numeral_eq_Suc)
  then have r: "?r = (fst ?r, 0, hex_encode tok_a)" "wa_s (fst ?r) ! 0 \<noteq> wa_s ?st ! 0"
    by (simp_all add: web_auth_login_def web_cfg_facts web_auth_init_def Let_def)
  have "\<not> slot_free 1000 (wa_s ?st ! 0)" using nf by simp
  from live_sessions_are_evicted_last [OF ok r(1) _ this r(2)] r(2) show ?thesis
    by (simp add: Let_def WA_SESSIONS_def)
qed

text \<open>After a successful login the returned cookie, anywhere among other cookies of a header, is accepted exactly until 30 days later, provided the random token is not one already in use; comparing and finding it is the constant-time and parsing code of the source.\<close>

lemma login_lets_in:
  assumes "wa_ok st" "length tok = WA_TOKEN_LEN" "\<forall>s \<in> set (wa_s st). wa_used s \<longrightarrow> wa_token s \<noteq> tok"
    "web_auth_login sha m pw now tok st = (st', 0, cookie)"
    "\<forall>s \<in> set pre. plain_cookie s" "post = [] \<or> hd post = CHR '';''"
  shows "web_auth_check (Some (cookie_line pre cookie post)) later st' = (if later < now + WA_TTL_S then 0 else -1)"
proof -
  have c: "cookie = hex_encode tok"
    by (cases rule: login_cases [of now st sha m pw tok]) (use assms(4) in auto)
  have "extract_cookie_token (Some (cookie_line pre cookie post)) = Some tok"
    using cookie_scan_finds [OF assms(5,2,6)] by (simp add: extract_cookie_token_def c)
  from login_check [OF assms(1-3) _ this, of sha m pw now later] assms(4) show ?thesis by simp
qed

lemma login_lets_in_witness:
  \<open>web_auth_check (Some (cookie_line [''a=b''] (hex_encode tok_a) [])) 2000 (fst login_a) = 0\<close>
proof -
  have "login_a = (fst login_a, 0, hex_encode tok_a)"
    by (simp add: web_auth_login_def web_cfg_facts web_auth_init_def Let_def)
  from login_lets_in [OF wa_ok_init login_a_facts(2,3) this, of "[''a=b'']" "[]" 2000] show ?thesis
    by (simp add: plain_cookie_def WA_TTL_S_def)
qed

text \<open>C21. Over any run of logins and logouts from a fresh start: a request is let in only with a token that an earlier login with a matching password was given, one that was answered with success, and only during the 30 days after that login.\<close>

lemma accepted_cookies_were_issued:
  fixes sha :: "u8 list \<Rightarrow> u8 list"
  assumes "\<forall>ev \<in> set evs. wa_ev_ok ev"
  defines "r \<equiv> run_steps (wa_step sha) web_auth_init evs"
  assumes "web_auth_check hdr now (fst r) = 0"
  shows "\<exists>tok m pw t c. extract_cookie_token hdr = Some tok \<and> (Login m pw t tok, 0, c) \<in> set (zip evs (snd r)) \<and>
    pw_matches sha m pw \<and> now < t + WA_TTL_S"
proof -
  have "wa_ok (fst r)" unfolding r_def using wa.guarded_run_keeps [OF wa_ok_init assms(1)] .
  then obtain tok e where t: "extract_cookie_token hdr = Some tok" "(tok, e) \<in> sessions (fst r)" "now < e"
    by (rule check_issued [OF _ assms(3)])
  moreover have "sessions web_auth_init = {}" by (auto simp: sessions_def web_auth_init_def wa_session_zero_def)
  ultimately show ?thesis using sessions_run [of tok e sha web_auth_init evs] unfolding r_def by blast
qed

lemma accepted_cookies_were_issued_witness:
  \<open>pw_matches (\<lambda>x. x) web_cfg (bytes_of ''hillgrow1'') \<and> 2000 < 1000 + WA_TTL_S\<close>
proof -
  let ?ev = "Login web_cfg (bytes_of ''hillgrow1'') 1000 tok_a"
  have "web_auth_check (Some (cookie_line [''a=b''] (hex_encode tok_a) [])) 2000
      (fst (run_steps (wa_step (\<lambda>x. x)) web_auth_init [?ev])) = 0"
    using login_check [OF wa_ok_init login_a_facts(2,3,1) header_a, of 2000] by (simp add: WA_TTL_S_def)
  from accepted_cookies_were_issued [OF _ this] obtain tok m pw t c where
    "(Login m pw t tok, 0, c) \<in> set (zip [?ev] (snd (run_steps (wa_step (\<lambda>x. x)) web_auth_init [?ev])))"
    "pw_matches (\<lambda>x. x) m pw" "2000 < t + WA_TTL_S"
    by (auto simp: login_a_facts(2) WA_TTL_S_def)
  then show ?thesis by simp
qed

text \<open>C22. However fast wrong passwords are sent to a state without failures, in a run that lasts from the first to the last event at most five plus one per full minute are compared at all; the rest is refused unseen.\<close>

lemma guessing_is_slowed_down:
  assumes "\<forall>ev \<in> set evs. wrong_login sha ev" "sorted (map ev_time evs)" "wa_fails st = 0" "evs \<noteq> []"
  shows "tries (snd (run_steps (wa_step sha) st evs)) \<le> 5 + (ev_time (last evs) - ev_time (hd evs)) div 60"
proof -
  define n where "n = tries (snd (run_steps (wa_step sha) st evs))"
  have b: "n > 5 \<longrightarrow> ev_time (hd evs) + 60 * (n - 5) \<le> ev_time (last evs)"
    using tries_bound [OF assms(1,2), of st] assms(3) unfolding Let_def n_def [symmetric] by simp
  show ?thesis unfolding n_def [symmetric]
  proof (cases "n > 5")
    case True
    with b have "60 * (n - 5) \<le> ev_time (last evs) - ev_time (hd evs)" by simp
    then have "60 * (n - 5) div 60 \<le> (ev_time (last evs) - ev_time (hd evs)) div 60" by (rule div_le_mono)
    with True show "n \<le> 5 + (ev_time (last evs) - ev_time (hd evs)) div 60" by simp
  qed simp
qed

lemma guessing_is_slowed_down_witness:
  \<open>tries (snd (run_steps (wa_step (\<lambda>x. x)) web_auth_init (replicate 9 (Login web_cfg (bytes_of ''guess'') 100 tok_a)))) \<le> 5\<close>
proof -
  let ?e = "Login web_cfg (bytes_of ''guess'') 100 tok_a"
  have "\<forall>ev \<in> set (replicate 9 ?e). wrong_login (\<lambda>x. x) ev" by (simp add: web_cfg_facts)
  moreover have "sorted (map ev_time (replicate 9 ?e))" by (simp add: numeral_eq_Suc)
  ultimately show ?thesis
    using guessing_is_slowed_down [of "replicate 9 ?e" "\<lambda>x. x" web_auth_init] by (simp add: web_auth_init_def)
qed

end
