(* ===== verification/Cmd_Core.thy ===== *)
theory Cmd_Core
  imports C_Text
begin

text \<open>
  The command dispatcher (\<^verbatim>\<open>components/cmd_core\<close>): every command line of the console, the web
  interface and the ring goes through it. \<^verbatim>\<open>cmd_tok.c\<close> splits a line into words,
  \<^verbatim>\<open>cmd_dispatch.c\<close> finds the row of the command table, applies the gates of role, session and
  unlock window, types the arguments and calls the handler of the row, \<^verbatim>\<open>cmd_help.c\<close> renders the
  table and checks it, \<^verbatim>\<open>cmd_resp.c\<close> writes replies.

  A row names its handler by a number, and \<open>cc_call\<close> is the code behind it: it maps session and
  outside world \<open>'w\<close> to the new ones, the reply and the return code. Clock, audit and forwarding
  over the ring act on the same world. A reply buffer of \<open>len\<close> bytes is its text, cut where
  \<open>snprintf\<close> cuts it.
\<close>

section \<open>Constants and records\<close>

definition CMD_LINE_MAX :: nat where "CMD_LINE_MAX = 192"
definition CMD_MAX_TOKENS :: nat where "CMD_MAX_TOKENS = 12"
definition CMD_MAX_ARGS :: nat where "CMD_MAX_ARGS = 8"
definition CMD_RESP_MAX :: nat where "CMD_RESP_MAX = 4096"
definition CMD_UNLOCK_MS :: u32 where "CMD_UNLOCK_MS = 600000"
definition ZONE_FWD_TIMEOUT_MS :: u32 where "ZONE_FWD_TIMEOUT_MS = 3500"

datatype cmd_src = CMD_SRC_CLI | CMD_SRC_HTTP | CMD_SRC_RING | CMD_SRC_INTERNAL

definition ARG_INT :: u8 where "ARG_INT = 0"
definition ARG_ENUM :: u8 where "ARG_ENUM = 1"
definition ARG_STR :: u8 where "ARG_STR = 2"
definition ARG_TIME :: u8 where "ARG_TIME = 3"
definition ARG_MAC :: u8 where "ARG_MAC = 4"

lemmas arg_types = ARG_INT_def ARG_ENUM_def ARG_STR_def ARG_TIME_def ARG_MAC_def

definition CMDV_SET :: u8 where "CMDV_SET = 1"
definition CMDV_GET :: u8 where "CMDV_GET = 2"
definition CMDV_BARE :: u8 where "CMDV_BARE = 4"

lemmas verb_bits = CMDV_SET_def CMDV_GET_def CMDV_BARE_def

definition CMDF_ACTUATOR :: u16 where "CMDF_ACTUATOR = 1"
definition CMDF_UNLOCK :: u16 where "CMDF_UNLOCK = 2"
definition CMDF_MASTER :: u16 where "CMDF_MASTER = 4"
definition CMDF_ZONE :: u16 where "CMDF_ZONE = 8"
definition CMDF_SESSION :: u16 where "CMDF_SESSION = 16"
definition CMDF_SLOW :: u16 where "CMDF_SLOW = 32"

lemmas row_flags = CMDF_ACTUATOR_def CMDF_UNLOCK_def CMDF_MASTER_def CMDF_ZONE_def CMDF_SESSION_def CMDF_SLOW_def

definition CMD_ROLE_MASTER :: u8 where "CMD_ROLE_MASTER = 0"
definition CMD_ROLE_ZONE :: u8 where "CMD_ROLE_ZONE = 1"

record cmd_arg =
  ca_name :: string
  ca_type :: u8
  ca_min :: int
  ca_max :: int
  ca_enums :: "string option"

record cmd_session =
  cs_source :: cmd_src
  cs_echo :: u8
  cs_notify_mask :: u16
  cs_unlock_until_ms :: u32

record cmd_entry =
  ce_verbs :: u8
  ce_area :: u8
  ce_noun1 :: string
  ce_noun2 :: "string option"
  ce_args :: "cmd_arg list"
  ce_n_key :: nat
  ce_min_args :: nat
  ce_max_args :: nat
  ce_flags :: u16
  ce_handler :: "nat option"
  ce_desc :: "string option"

record cmd_req =
  cq_verb :: u8
  cq_n :: nat
  cq_tok :: "string list"
  cq_val :: "int list"
  cq_mac :: "u8 list"

record 'w cmd_core =
  cc_table :: "cmd_entry list"
  cc_role :: u8
  cc_zone_id :: u8
  cc_now_ms :: "'w \<Rightarrow> u32 \<times> 'w"
  cc_forward :: "(u8 \<Rightarrow> string \<Rightarrow> nat \<Rightarrow> u32 \<Rightarrow> 'w \<Rightarrow> 'w \<times> string \<times> int) option"
  cc_audit :: "(cmd_src \<Rightarrow> string \<Rightarrow> 'w \<Rightarrow> 'w) option"
  cc_debug_key :: "string option"
  cc_call :: "cmd_entry \<Rightarrow> cmd_req \<Rightarrow> nat \<Rightarrow> cmd_session \<Rightarrow> 'w \<Rightarrow> cmd_session \<times> 'w \<times> string \<times> int"

text \<open>A flag of a row, a verb bit of a row.\<close>

abbreviation has_flag :: "cmd_entry \<Rightarrow> u16 \<Rightarrow> bool" where
  "has_flag e b \<equiv> ce_flags e AND b \<noteq> 0"

abbreviation has_verb :: "cmd_entry \<Rightarrow> u8 \<Rightarrow> bool" where
  "has_verb e b \<equiv> ce_verbs e AND b \<noteq> 0"

section \<open>Replies\<close>

abbreviation LF :: char where "LF \<equiv> CHR 0x0A"

definition cmd_err :: "nat \<Rightarrow> string \<Rightarrow> string \<times> int" where
  "cmd_err len token = (take (len - 1) (''ERR '' @ token @ [LF]), -1)"

definition cmd_okf :: "nat \<Rightarrow> string \<Rightarrow> string \<times> int" where
  "cmd_okf len body =
     (let r = ''OK '' @ body in
      (if length r < len - 1 then r @ [LF] else take (len - 2) r @ [LF], 0))"

definition cmd_linef :: "nat \<Rightarrow> string \<Rightarrow> string \<Rightarrow> string \<times> int" where
  "cmd_linef len resp body =
     (if length resp \<ge> len - 2 then (resp, -1)
      else let r = resp @ body in
        if length r < len - 1 then (r @ [LF], 0) else (take (len - 2) r @ [LF], -1))"

section \<open>Words of a line\<close>

definition is_blank :: "char \<Rightarrow> bool" where
  "is_blank c \<longleftrightarrow> c = CHR '' '' \<or> c = CHR 0x09"

fun cmd_ci_eq :: "string \<Rightarrow> string \<Rightarrow> bool" where
  "cmd_ci_eq (a # as) (b # bs) = (if to_up a \<noteq> to_up b then False else cmd_ci_eq as bs)"
| "cmd_ci_eq as bs = (as = [] \<and> bs = [])"

lemma cmd_ci_eq_eq [simp]: "cmd_ci_eq = ci_eq"
proof (intro ext)
  fix a b
  show "cmd_ci_eq a b = ci_eq a b" by (induction a b rule: cmd_ci_eq.induct) auto
qed

lemma drop_word_shorter:
  "dropWhile is_blank p \<noteq> [] \<Longrightarrow> length (dropWhile (\<lambda>c. \<not> is_blank c) (dropWhile is_blank p)) < length p"
proof -
  assume "dropWhile is_blank p \<noteq> []"
  then obtain c r where d: "dropWhile is_blank p = c # r" by (cases "dropWhile is_blank p") auto
  have "\<not> is_blank c" using hd_dropWhile [of is_blank p] d by simp
  then have "length (dropWhile (\<lambda>c. \<not> is_blank c) (c # r)) \<le> length r" by (simp add: length_dropWhile_le)
  moreover have "length (c # r) \<le> length p" unfolding d [symmetric] by (rule length_dropWhile_le)
  ultimately show ?thesis by (simp add: d)
qed

text \<open>The loop of \<open>cmd_tokenize\<close>: \<open>acc\<close> are the tokens so far, \<open>None\<close> is its result -1.\<close>

function cmd_tokenize :: "nat \<Rightarrow> string list \<Rightarrow> string \<Rightarrow> string list option" where
  "cmd_tokenize mx acc p =
     (let p = dropWhile is_blank p in
      if p = [] then Some acc
      else if length acc = mx then None
      else cmd_tokenize mx (acc @ [takeWhile (\<lambda>c. \<not> is_blank c) p]) (drop 1 (dropWhile (\<lambda>c. \<not> is_blank c) p)))"
  by pat_completeness auto

termination
  by (relation "measure (\<lambda>(mx, acc, p). length p)") (use drop_word_shorter in \<open>force+\<close>)

declare cmd_tokenize.simps [simp del]

definition cmd_parse_time :: "string \<Rightarrow> int" where
  "cmd_parse_time s =
     (let colon = dropWhile (\<lambda>c. c \<noteq> CHR '':'') s in
      if colon = [] then
        let (v, rest) = strtol10 s in if rest = s \<or> rest \<noteq> [] \<or> v < 0 \<or> v > 1439 then -1 else v
      else if colon = s \<or> length (tl colon) \<noteq> 2 then -1
      else
        let (h, rest) = strtol10 s in
        if rest \<noteq> colon \<or> h < 0 \<or> h > 23 then -1
        else
          let (m, rest) = strtol10 (tl colon) in
          if rest \<noteq> [] \<or> m < 0 \<or> m > 59 then -1 else h * 60 + m)"

section \<open>Typed arguments\<close>

text \<open>\<open>strtol\<close> to base sixteen, with the 32 bit \<open>long\<close> of the targets and the optional \<open>0x\<close>.\<close>

definition hex_of_char :: "char \<Rightarrow> nat option" where
  "hex_of_char c =
     (let n = char_code c in
      if 48 \<le> n \<and> n \<le> 57 then Some (n - 48)
      else if 97 \<le> n \<and> n \<le> 102 then Some (n - 87)
      else if 65 \<le> n \<and> n \<le> 70 then Some (n - 55)
      else None)"

definition is_hex :: "char \<Rightarrow> bool" where "is_hex c \<longleftrightarrow> hex_of_char c \<noteq> None"

definition hex_value :: "string \<Rightarrow> int" where
  "hex_value ds = foldl (\<lambda>a c. a * 16 + int (the (hex_of_char c))) 0 ds"

definition strtol16 :: "string \<Rightarrow> int \<times> string" where
  "strtol16 p =
     (let q = dropWhile is_space p;
          (neg, q1) = (case q of
              [] \<Rightarrow> (False, q)
            | c # r \<Rightarrow> if c = CHR ''+'' then (False, r)
                      else if c = CHR ''-'' then (True, r) else (False, q));
          q2 = (case q1 of
              z # x # d # r \<Rightarrow> if z = CHR ''0'' \<and> to_up x = CHR ''X'' \<and> is_hex d then d # r else q1
            | _ \<Rightarrow> q1);
          ds = takeWhile is_hex q2
      in if ds = [] then (0, p)
         else
           let v = (if neg then - hex_value ds else hex_value ds)
           in (max (- 2147483648) (min 2147483647 v), dropWhile is_hex q2))"

definition parse_int_arg :: "string \<Rightarrow> int option" where
  "parse_int_arg s = (let (v, rest) = strtol10 s in if rest = s \<or> rest \<noteq> [] then None else Some v)"

text \<open>\<open>parse_mac\<close>: the argument counts the bytes still to come; the end pointer is \<open>s + 2\<close> when two
  characters are gone.\<close>

fun parse_mac_from :: "nat \<Rightarrow> string \<Rightarrow> u8 list option" where
  "parse_mac_from 0 s = (if s = [] then Some [] else None)"
| "parse_mac_from (Suc k) s =
     (let (v, rest) = strtol16 s in
      if length rest + 2 \<noteq> length s \<or> v < 0 \<or> v > 255 then None
      else if k = 0 then (if rest = [] then Some [of_int v] else None)
      else (case rest of
          [] \<Rightarrow> None
        | c # s \<Rightarrow> if c \<noteq> CHR '':'' then None else map_option (\<lambda>m. of_int v # m) (parse_mac_from k s)))"

definition parse_mac :: "string \<Rightarrow> u8 list option" where
  "parse_mac s = parse_mac_from 6 s"

lemma tl_dropWhile_shorter: "p \<noteq> [] \<Longrightarrow> length (tl (dropWhile P p)) < length p"
  using length_dropWhile_le [of P p] by (cases p) auto

text \<open>
  The loop of \<open>enum_index\<close>: the index of the name, if it is found, and the last index looked at. A
  name of 20 characters or more never matches.
\<close>

function enum_scan_from :: "string \<Rightarrow> string \<Rightarrow> int \<Rightarrow> int option \<times> int" where
  "enum_scan_from p val idx =
     (if p = [] then (None, idx)
      else
        let name = takeWhile (\<lambda>c. c \<noteq> CHR ''|'') p; bar = dropWhile (\<lambda>c. c \<noteq> CHR ''|'') p in
        if length name < 20 \<and> cmd_ci_eq name val then (Some idx, idx)
        else if bar = [] then (None, idx)
        else enum_scan_from (tl bar) val (idx + 1))"
  by pat_completeness auto

termination
  by (relation "measure (\<lambda>(p, val, idx). length p)", rule wf_measure)
    (simp only: in_measure split_conv, rule tl_dropWhile_shorter)

declare enum_scan_from.simps [simp del]

definition enum_index :: "string \<Rightarrow> string \<Rightarrow> int option" where
  "enum_index enums val =
     (case enum_scan_from enums val 0 of
        (Some idx, _) \<Rightarrow> Some idx
      | (None, idx) \<Rightarrow>
          if idx = 0 then None
          else (case parse_int_arg val of
              Some v \<Rightarrow> if v \<ge> 0 \<and> v \<le> idx then Some v else None
            | None \<Rightarrow> None))"

text \<open>
  One argument: its value (a number, an index, minutes, 0 for text and MAC) and the MAC last parsed,
  or the error token.
\<close>

definition arg_value :: "cmd_arg \<Rightarrow> string \<Rightarrow> u8 list \<Rightarrow> string + int \<times> u8 list" where
  "arg_value a t mac =
     (if ca_type a = ARG_INT then
        (case parse_int_arg t of
           None \<Rightarrow> Inl ''BAD_ARGS''
         | Some v \<Rightarrow> if v < ca_min a \<or> v > ca_max a then Inl ''OUT_OF_RANGE'' else Inr (v, mac))
      else if ca_type a = ARG_ENUM then
        (case enum_index (case ca_enums a of None \<Rightarrow> [] | Some s \<Rightarrow> s) t of
           None \<Rightarrow> Inl ''BAD_ARGS'' | Some v \<Rightarrow> Inr (v, mac))
      else if ca_type a = ARG_STR then
        (if int (length t) > ca_max a then Inl ''BAD_ARGS'' else Inr (0, mac))
      else if ca_type a = ARG_TIME then
        (let m = cmd_parse_time t in if m < 0 then Inl ''BAD_ARGS'' else Inr (m, mac))
      else if ca_type a = ARG_MAC then
        (case parse_mac t of None \<Rightarrow> Inl ''BAD_ARGS'' | Some m \<Rightarrow> Inr (0, m))
      else Inl ''INTERNAL'')"

text \<open>The loop over the given arguments. A row has at least \<open>max_args\<close> of them (see \<open>row_wf\<close>).\<close>

fun parse_args :: "cmd_arg list \<Rightarrow> string list \<Rightarrow> int list \<Rightarrow> u8 list \<Rightarrow> string + int list \<times> u8 list" where
  "parse_args as [] vals mac = Inr (vals, mac)"
| "parse_args [] (t # ts) vals mac = Inl ''INTERNAL''"
| "parse_args (a # as) (t # ts) vals mac =
     (case arg_value a t mac of
        Inl e \<Rightarrow> Inl e
      | Inr (v, mac) \<Rightarrow> parse_args as ts (vals @ [v]) mac)"

section \<open>Help\<close>

definition AREA_NAMES :: "string list" where
  "AREA_NAMES = [''SYSTEM'', ''CONFIG'', ''SESSION'', ''TIME'', ''FIRMWARE'', ''RING'', ''SHELF'', ''SENSORS'',
     ''FAULTS'', ''NETWORK'', ''DEBUG'']"

definition VERB_ORDER :: "u8 list" where "VERB_ORDER = [CMDV_SET, CMDV_GET, CMDV_BARE]"

definition row_visible :: "u8 \<Rightarrow> cmd_entry \<Rightarrow> bool" where
  "row_visible role e \<longleftrightarrow>
     (if has_flag e CMDF_MASTER \<and> role \<noteq> CMD_ROLE_MASTER then False
      else if has_flag e CMDF_ZONE \<and> role \<noteq> CMD_ROLE_ZONE then False else True)"

text \<open>A bounded append: \<open>*off\<close> is the length of the text in the buffer.\<close>

definition sappend :: "nat \<Rightarrow> string \<Rightarrow> string \<Rightarrow> string" where
  "sappend cap buf s = (if cap = 0 \<or> length buf \<ge> cap then buf else take (cap - 1) (buf @ s))"

definition show_int :: "int \<Rightarrow> string" where
  "show_int v = (if v < 0 then CHR ''-'' # show_dec (nat (- v)) else show_dec (nat v))"

definition render_arg :: "nat \<Rightarrow> cmd_arg \<Rightarrow> string" where
  "render_arg cap a = take (cap - 1)
     (if ca_type a = ARG_INT then ca_name a @ '' '' @ show_int (ca_min a) @ ''-'' @ show_int (ca_max a)
      else if ca_type a = ARG_ENUM then (case ca_enums a of None \<Rightarrow> ''(null)'' | Some s \<Rightarrow> s)
      else if ca_type a = ARG_STR then ca_name a
      else if ca_type a = ARG_TIME then ca_name a @ '' HH:MM''
      else if ca_type a = ARG_MAC then ca_name a @ '' xx:xx:xx:xx:xx:xx''
      else [])"

text \<open>The arguments \<open>i\<close> up to \<open>n\<close>; those from \<open>minidx\<close> on are optional.\<close>

definition render_args :: "nat \<Rightarrow> cmd_entry \<Rightarrow> nat \<Rightarrow> nat \<Rightarrow> nat \<Rightarrow> string \<Rightarrow> string" where
  "render_args cap e minidx i n buf =
     foldl (\<lambda>buf i. let a = render_arg 40 (ce_args e ! i) in
         sappend cap buf (if i \<ge> minidx then '' [<'' @ a @ ''>]'' else '' <'' @ a @ ''>'')) buf [i..<n]"

definition render_usage :: "cmd_entry \<Rightarrow> u8 \<Rightarrow> nat \<Rightarrow> string" where
  "render_usage e vbit cap =
     (let buf = sappend cap [] (''+ '' @ (if vbit = CMDV_SET then ''SET '' else if vbit = CMDV_GET then ''GET '' else [])
             @ ce_noun1 e);
          nargs = (if vbit = CMDV_GET then ce_n_key e else ce_max_args e);
          minidx = (if vbit = CMDV_GET then ce_n_key e else ce_min_args e);
          split = (ce_noun2 e \<noteq> None \<and> ce_n_key e \<ge> 1);
          keyn = (if split then (if ce_n_key e < nargs then ce_n_key e else nargs) else 0);
          buf = render_args cap e minidx 0 keyn buf;
          buf = (case ce_noun2 e of None \<Rightarrow> buf | Some n2 \<Rightarrow> sappend cap buf ('' '' @ n2));
          buf = render_args cap e minidx keyn nargs buf;
          buf = (if has_flag e CMDF_UNLOCK then sappend cap buf '' [unlock]'' else buf)
      in case ce_desc e of
           None \<Rightarrow> buf
         | Some d \<Rightarrow> if vbit \<noteq> CMDV_GET then sappend cap buf (''  -- '' @ d) else buf)"

text \<open>Help without a word: the grammar, and the nouns of each area.\<close>

definition area_nouns :: "cmd_entry list \<Rightarrow> u8 \<Rightarrow> nat \<Rightarrow> string \<times> bool" where
  "area_nouns table role a =
     foldl (\<lambda>(nouns, any) e.
         if unat (ce_area e) \<noteq> a \<or> \<not> row_visible role e then (nouns, any)
         else
           let nouns = (if any then sappend 160 nouns '', '' else nouns) in
           (sappend 160 nouns (case ce_noun2 e of None \<Rightarrow> ce_noun1 e | Some n2 \<Rightarrow> ce_noun1 e @ '' '' @ n2), True))
       ([], False) table"

definition help_index :: "cmd_entry list \<Rightarrow> u8 \<Rightarrow> nat \<Rightarrow> string" where
  "help_index table role len =
     foldl (\<lambda>resp a. let (nouns, any) = area_nouns table role a in
         if any then fst (cmd_linef len resp (''+ '' @ AREA_NAMES ! a @ '': '' @ nouns @ '' -- <NOUN> HELP for details''))
         else resp)
       (fst (cmd_linef len [] ''+ SET|GET <NOUN> [args] | <VERB> ZONE <z 0-8> <command> | <prefix> HELP''))
       [0..<length AREA_NAMES]"

definition help_matches :: "u8 \<Rightarrow> u8 \<Rightarrow> string option \<Rightarrow> string option \<Rightarrow> cmd_entry \<Rightarrow> bool" where
  "help_matches role vbit f1 f2 e \<longleftrightarrow>
     has_verb e vbit \<and> row_visible role e \<and>
     (case f1 of None \<Rightarrow> True | Some f \<Rightarrow> cmd_ci_eq (ce_noun1 e) f) \<and>
     (case f2 of None \<Rightarrow> True | Some f \<Rightarrow> (case ce_noun2 e of None \<Rightarrow> False | Some n \<Rightarrow> cmd_ci_eq n f))"

definition help_row :: "nat \<Rightarrow> string \<Rightarrow> cmd_entry \<Rightarrow> string" where
  "help_row len resp e =
     foldl (\<lambda>resp v. if has_verb e v then fst (cmd_linef len resp (render_usage e v 224)) else resp) resp VERB_ORDER"

definition verb_of :: "string \<Rightarrow> u8 \<times> nat" where
  "verb_of t = (if cmd_ci_eq t ''SET'' then (CMDV_SET, 1) else if cmd_ci_eq t ''GET'' then (CMDV_GET, 1) else (CMDV_BARE, 0))"

definition cmd_help :: "cmd_entry list \<Rightarrow> u8 \<Rightarrow> string list \<Rightarrow> nat \<Rightarrow> string \<times> int" where
  "cmd_help table role tok len =
     (if tok = [] then (help_index table role len, 0)
      else
        let (vbit, nstart) = verb_of (hd tok);
            f1 = (if length tok > nstart then Some (tok ! nstart) else None);
            f2 = (if length tok > nstart + 1 then Some (tok ! (nstart + 1)) else None);
            rows = [e \<leftarrow> table. help_matches role vbit f1 f2 e]
        in if rows = [] then cmd_err len ''UNKNOWN_CMD'' else (foldl (help_row len) [] rows, 0))"

section \<open>The check of a table\<close>

definition same_nouns1 :: "cmd_entry \<Rightarrow> cmd_entry \<Rightarrow> bool" where
  "same_nouns1 p e \<longleftrightarrow> ce_verbs p AND ce_verbs e \<noteq> 0 \<and> cmd_ci_eq (ce_noun1 p) (ce_noun1 e)"

definition same_noun2 :: "cmd_entry \<Rightarrow> cmd_entry \<Rightarrow> bool" where
  "same_noun2 p e \<longleftrightarrow>
     (case (ce_noun2 p, ce_noun2 e) of
        (Some a, Some b) \<Rightarrow> cmd_ci_eq a b | (None, None) \<Rightarrow> True | _ \<Rightarrow> False)"

definition bounded_duration :: "cmd_entry \<Rightarrow> bool" where
  "bounded_duration e \<longleftrightarrow>
     (\<exists>a \<in> set (take (ce_max_args e) (ce_args e)). ca_type a = ARG_INT \<and>
        (cmd_ci_eq (ca_name a) ''seconds'' \<or> cmd_ci_eq (ca_name a) ''minutes''))"

definition usage_too_long :: "cmd_entry \<Rightarrow> bool" where
  "usage_too_long e \<longleftrightarrow> (\<exists>v \<in> set VERB_ORDER. has_verb e v \<and> length (render_usage e v 224) > 96)"

definition row_bad :: "cmd_entry list \<Rightarrow> cmd_entry \<Rightarrow> bool" where
  "row_bad before e \<longleftrightarrow>
     ce_n_key e > ce_max_args e \<or> ce_min_args e > ce_max_args e \<or> ce_max_args e > CMD_MAX_ARGS \<or>
     ce_handler e = None \<or>
     (\<exists>a \<in> set (take (ce_max_args e) (ce_args e)). ca_type a = ARG_ENUM \<and> ca_enums a = None) \<or>
     (has_verb e CMDV_BARE \<and> has_verb e (CMDV_SET OR CMDV_GET)) \<or>
     (has_flag e CMDF_ACTUATOR \<and> \<not> bounded_duration e) \<or>
     usage_too_long e \<or>
     (\<exists>p \<in> set before. same_nouns1 p e \<and> same_noun2 p e) \<or>
     (\<exists>p \<in> set before. same_nouns1 p e \<and> (ce_noun2 p = None) \<noteq> (ce_noun2 e = None) \<and>
        ce_max_args (if ce_noun2 p = None then p else e) \<ge> 2)"

fun table_check_from :: "cmd_entry list \<Rightarrow> cmd_entry list \<Rightarrow> int" where
  "table_check_from before [] = -1"
| "table_check_from before (e # es) =
     (if row_bad before e then int (length before) else table_check_from (before @ [e]) es)"

definition cmd_table_check :: "cmd_entry list \<Rightarrow> int" where
  "cmd_table_check t = table_check_from [] t"

section \<open>Dispatch\<close>

text \<open>The row of a noun, of one word or of two.\<close>

definition cmd_match :: "cmd_entry list \<Rightarrow> u8 \<Rightarrow> string \<Rightarrow> string option \<Rightarrow> cmd_entry option" where
  "cmd_match table vbit n1 two = find (\<lambda>e.
     has_verb e vbit \<and>
     (case two of
        Some n2 \<Rightarrow> (case ce_noun2 e of None \<Rightarrow> False | Some m \<Rightarrow> cmd_ci_eq (ce_noun1 e) n1 \<and> cmd_ci_eq m n2)
      | None \<Rightarrow> ce_noun2 e = None \<and> cmd_ci_eq (ce_noun1 e) n1)) table"

text \<open>
  The row a command names, and the words that are its arguments: the second noun follows the first,
  or stands after one argument, or there is none.
\<close>

definition cmd_find_row :: "cmd_entry list \<Rightarrow> u8 \<Rightarrow> string list \<Rightarrow> (cmd_entry \<times> string list) option" where
  "cmd_find_row table vbit ws =
     (case ws of
        [] \<Rightarrow> None
      | n1 # ws \<Rightarrow>
        case (case ws of w1 # _ \<Rightarrow> cmd_match table vbit n1 (Some w1) | [] \<Rightarrow> None) of
          Some e \<Rightarrow> Some (e, tl ws)
        | None \<Rightarrow>
          case (case ws of w1 # w2 # _ \<Rightarrow> cmd_match table vbit n1 (Some w2) | _ \<Rightarrow> None) of
            Some e \<Rightarrow> Some (e, hd ws # drop 2 ws)
          | None \<Rightarrow> map_option (\<lambda>e. (e, ws)) (cmd_match table vbit n1 None))"

text \<open>The gates of role, session and unlock window, in the order of the code; only the last reads the clock.\<close>

definition cmd_gates :: "'w cmd_core \<Rightarrow> cmd_session \<Rightarrow> cmd_entry \<Rightarrow> 'w \<Rightarrow> 'w \<times> string option" where
  "cmd_gates core ses e w =
     (if has_flag e CMDF_MASTER \<and> cc_role core \<noteq> CMD_ROLE_MASTER then (w, Some ''MASTER_ONLY'')
      else if has_flag e CMDF_ZONE \<and> cc_role core \<noteq> CMD_ROLE_ZONE then (w, Some ''ZONE_ONLY'')
      else if has_flag e CMDF_SESSION \<and> cs_source ses = CMD_SRC_HTTP then (w, Some ''NOT_LOCAL'')
      else if has_flag e CMDF_UNLOCK then
        (let (now, w) = cc_now_ms core w in
         (w, if \<not> cs_unlock_until_ms ses > now then Some ''LOCKED'' else None))
      else (w, None))"

text \<open>The count and the types of the arguments: the request for the handler.\<close>

definition bind_request :: "cmd_entry \<Rightarrow> u8 \<Rightarrow> string list \<Rightarrow> string + cmd_req" where
  "bind_request e vbit args =
     (let n = length args;
          want_min = (if vbit = CMDV_GET then ce_n_key e else ce_min_args e);
          want_max = (if vbit = CMDV_GET then ce_n_key e else ce_max_args e)
      in if n < want_min \<or> n > want_max then Inl ''BAD_ARGS''
         else case parse_args (ce_args e) args [] (replicate 6 0) of
           Inl t \<Rightarrow> Inl t
         | Inr (vals, mac) \<Rightarrow> Inr \<lparr>cq_verb = vbit, cq_n = n, cq_tok = args, cq_val = vals, cq_mac = mac\<rparr>)"

text \<open>From the words of a command to a row and a request, or to the error token that is the answer.\<close>

definition cmd_resolve ::
  "'w cmd_core \<Rightarrow> cmd_session \<Rightarrow> string list \<Rightarrow> 'w \<Rightarrow> 'w \<times> (string + cmd_entry \<times> cmd_req)" where
  "cmd_resolve core ses tok w =
     (let (vbit, noun0) = verb_of (hd tok) in
      if vbit \<noteq> CMDV_BARE \<and> length tok < 2 then (w, Inl ''UNKNOWN_CMD'')
      else case cmd_find_row (cc_table core) vbit (drop noun0 tok) of
        None \<Rightarrow> (w, Inl ''UNKNOWN_CMD'')
      | Some (e, args) \<Rightarrow>
        case cmd_gates core ses e w of
          (w, Some t) \<Rightarrow> (w, Inl t)
        | (w, None) \<Rightarrow> (w, map_sum id (Pair e) (bind_request e vbit args)))"

text \<open>The call of the handler, the audit of actuators, and the unlock window that a command keeps open.\<close>

definition audit_row :: "'w cmd_core \<Rightarrow> cmd_session \<Rightarrow> cmd_entry \<Rightarrow> u8 \<Rightarrow> int \<Rightarrow> string \<Rightarrow> 'w \<Rightarrow> 'w" where
  "audit_row core ses e vbit rc line w =
     (if rc = 0 \<and> has_flag e CMDF_ACTUATOR \<and> vbit = CMDV_SET
      then (case cc_audit core of None \<Rightarrow> w | Some f \<Rightarrow> f (cs_source ses) line w) else w)"

definition renew_unlock :: "'w cmd_core \<Rightarrow> cmd_session \<Rightarrow> 'w \<Rightarrow> cmd_session \<times> 'w" where
  "renew_unlock core ses w =
     (let (now, w) = cc_now_ms core w in
      if cs_unlock_until_ms ses > now
      then let (now, w) = cc_now_ms core w in (ses\<lparr>cs_unlock_until_ms := now + CMD_UNLOCK_MS\<rparr>, w)
      else (ses, w))"

definition run_row ::
  "'w cmd_core \<Rightarrow> cmd_session \<Rightarrow> cmd_entry \<Rightarrow> cmd_req \<Rightarrow> string \<Rightarrow> nat \<Rightarrow> 'w \<Rightarrow> cmd_session \<times> 'w \<times> string \<times> int" where
  "run_row core ses e q line len w =
     (let (ses, w, resp, rc) = cc_call core e q len ses w in
      if resp = [] then (ses, w, cmd_err len ''INTERNAL'')
      else let (ses, w) = renew_unlock core ses (audit_row core ses e (cq_verb q) rc line w) in (ses, w, resp, rc))"

text \<open>A command that carries no zone.\<close>

definition dispatch_local ::
  "'w cmd_core \<Rightarrow> cmd_session \<Rightarrow> string list \<Rightarrow> string \<Rightarrow> nat \<Rightarrow> 'w \<Rightarrow> cmd_session \<times> 'w \<times> string \<times> int" where
  "dispatch_local core ses tok line len w =
     (if cmd_ci_eq (last tok) ''HELP'' then (ses, w, cmd_help (cc_table core) (cc_role core) (butlast tok) len)
      else case cmd_resolve core ses tok w of
        (w, Inl t) \<Rightarrow> (ses, w, cmd_err len t)
      | (w, Inr (e, q)) \<Rightarrow> run_row core ses e q line len w)"

text \<open>The line that goes on after \<open>ZONE z\<close> is cut out.\<close>

definition zone_tail :: "string list \<Rightarrow> string" where
  "zone_tail tok = hd tok @ concat (map (\<lambda>t. CHR '' '' # t) (drop 3 tok))"

text \<open>
  The reference tokenizer: cut at every blank, keep what is not empty. \<open>cmd_tokenize\<close> is that, up to
  its limit.
\<close>

fun pieces :: "string \<Rightarrow> string list" where
  "pieces [] = [[]]"
| "pieces (c # s) = (if is_blank c then [] # pieces s else (c # hd (pieces s)) # tl (pieces s))"

definition words_of :: "string \<Rightarrow> string list" where
  "words_of s = [w \<leftarrow> pieces s. w \<noteq> []]"

definition is_word :: "string \<Rightarrow> bool" where
  "is_word w \<longleftrightarrow> w \<noteq> [] \<and> (\<forall>c \<in> set w. \<not> is_blank c)"

lemma pieces_nonempty [simp]: "pieces s \<noteq> []"
  by (cases s) auto

lemma words_of_blank [simp]: "is_blank c \<Longrightarrow> words_of (c # s) = words_of s"
  by (simp add: words_of_def)

lemma words_of_Nil [simp]: "words_of [] = []"
  by (simp add: words_of_def)

lemma words_of_skip: "words_of (dropWhile is_blank p) = words_of p"
  by (induction p) auto

lemma pieces_word:
  "\<forall>c \<in> set w. \<not> is_blank c \<Longrightarrow> pieces (w @ r) = (w @ hd (pieces r)) # tl (pieces r)"
  by (induction w) auto

lemma words_of_word:
  assumes "is_word w" "r = [] \<or> is_blank (hd r)"
  shows "words_of (w @ r) = w # words_of (drop 1 r)"
proof -
  have p: "pieces (w @ r) = (w @ hd (pieces r)) # tl (pieces r)"
    using assms(1) by (intro pieces_word) (simp add: is_word_def)
  show ?thesis
  proof (cases r)
    case Nil
    then show ?thesis using p assms(1) by (simp add: words_of_def is_word_def)
  next
    case (Cons b r')
    then show ?thesis using p assms by (simp add: words_of_def is_word_def)
  qed
qed

lemma words_of_step:
  assumes "dropWhile is_blank p \<noteq> []"
  defines "q \<equiv> dropWhile is_blank p"
  shows "words_of p = takeWhile (\<lambda>c. \<not> is_blank c) q # words_of (drop 1 (dropWhile (\<lambda>c. \<not> is_blank c) q))"
proof -
  let ?w = "takeWhile (\<lambda>c. \<not> is_blank c) q" and ?r = "dropWhile (\<lambda>c. \<not> is_blank c) q"
  have hd: "\<not> is_blank (hd q)" using assms(1) hd_dropWhile [of is_blank p] by (simp add: q_def)
  then have "is_word ?w" using assms(1) unfolding is_word_def q_def [symmetric] by (cases q) (auto dest: set_takeWhileD)
  moreover have "?r = [] \<or> is_blank (hd ?r)" using hd_dropWhile [of "\<lambda>c. \<not> is_blank c" q] by auto
  ultimately have "words_of (?w @ ?r) = ?w # words_of (drop 1 ?r)" by (rule words_of_word)
  then show ?thesis by (simp add: q_def words_of_skip)
qed

lemma cmd_tokenize_words:
  "length acc \<le> mx \<Longrightarrow> cmd_tokenize mx acc p =
     (if length acc + length (words_of p) \<le> mx then Some (acc @ words_of p) else None)"
proof (induction mx acc p rule: cmd_tokenize.induct)
  case (1 mx acc p)
  show ?case
  proof (cases "dropWhile is_blank p = []")
    case True
    have "words_of p = []" using words_of_skip [of p] by (simp only: True words_of_Nil)
    with True 1(2) show ?thesis unfolding cmd_tokenize.simps [of mx acc p] Let_def by simp
  next
    case False
    note step = words_of_step [OF False]
    show ?thesis
    proof (cases "length acc = mx")
      case True
      with False step show ?thesis unfolding cmd_tokenize.simps [of mx acc p] Let_def by simp
    next
      case less: False
      let ?w = "takeWhile (\<lambda>c. \<not> is_blank c) (dropWhile is_blank p)"
      let ?r = "drop 1 (dropWhile (\<lambda>c. \<not> is_blank c) (dropWhile is_blank p))"
      have IH: "cmd_tokenize mx (acc @ [?w]) ?r =
          (if length (acc @ [?w]) + length (words_of ?r) \<le> mx then Some ((acc @ [?w]) @ words_of ?r) else None)"
        by (rule 1(1) [OF refl False less]) (use less 1(2) in simp)
      have "cmd_tokenize mx acc p = cmd_tokenize mx (acc @ [?w]) ?r"
        unfolding cmd_tokenize.simps [of mx acc p] Let_def using False less by (simp only: if_False)
      then show ?thesis unfolding IH step by simp
    qed
  qed
qed

lemma tokenize_Some: "cmd_tokenize mx [] p = Some tok \<longleftrightarrow> tok = words_of p \<and> length tok \<le> mx"
  by (auto simp: cmd_tokenize_words)

lemma pieces_no_blank: "\<forall>w \<in> set (pieces s). \<forall>c \<in> set w. \<not> is_blank c"
proof (induction s)
  case (Cons c s)
  obtain x xs where "pieces s = x # xs" by (cases "pieces s") auto
  with Cons show ?case by simp
qed simp

lemma words_of_word_set: "w \<in> set (words_of s) \<Longrightarrow> is_word w"
  using pieces_no_blank [of s] by (auto simp: words_of_def is_word_def)

lemma pieces_length: "sum_list (map length (pieces s)) + length (pieces s) = length s + 1"
proof (induction s)
  case (Cons c s)
  then show ?case by (cases "pieces s") auto
qed simp

lemma words_fit: "sum_list (map length (words_of s)) + length (words_of s) \<le> length s + 1"
proof -
  have "sum_list (map length [w \<leftarrow> ps. w \<noteq> []]) + length [w \<leftarrow> ps. w \<noteq> []] \<le> sum_list (map length ps) + length ps"
    for ps :: "string list" by (induction ps) auto
  from this [of "pieces s"] show ?thesis using pieces_length [of s] unfolding words_of_def by linarith
qed

lemma zone_tail_shorter:
  assumes "cmd_tokenize mx [] line = Some tok" "3 \<le> length tok"
  shows "length (zone_tail tok) < length line"
proof -
  obtain a b c ts where t: "tok = a # b # c # ts" using assms(2) by (cases tok; cases "tl tok"; cases "tl (tl tok)") auto
  have "length (concat (map (\<lambda>t. CHR '' '' # t) ts)) = sum_list (map length ts) + length ts"
    by (induction ts) auto
  moreover have "sum_list (map length tok) + length tok \<le> length line + 1"
    using assms(1) words_fit by (simp add: tokenize_Some)
  ultimately show ?thesis by (simp add: t zone_tail_def)
qed

lemma words_of_tail:
  assumes "\<forall>t \<in> set tok. is_word t" "3 \<le> length tok"
  shows "words_of (zone_tail tok) = hd tok # drop 3 tok"
proof -
  have ts: "\<forall>t \<in> set ts. is_word t \<Longrightarrow> words_of (concat (map (\<lambda>t. CHR '' '' # t) ts)) = ts" for ts
  proof (induction ts)
    case (Cons t ts)
    let ?r = "concat (map (\<lambda>t. CHR '' '' # t) ts)"
    have "?r = [] \<or> is_blank (hd ?r)" by (cases ts) (auto simp: is_blank_def)
    then have "words_of (t @ ?r) = t # words_of (drop 1 ?r)" using Cons.prems by (intro words_of_word) auto
    moreover have "words_of (drop 1 ?r) = words_of ?r" by (cases ts) (auto simp: is_blank_def)
    ultimately show ?case using Cons by (simp add: is_blank_def)
  qed simp
  let ?r = "concat (map (\<lambda>t. CHR '' '' # t) (drop 3 tok))"
  have "?r = [] \<or> is_blank (hd ?r)" by (cases "drop 3 tok") (auto simp: is_blank_def)
  then have "words_of (hd tok @ ?r) = hd tok # words_of (drop 1 ?r)"
    using assms by (intro words_of_word) (cases tok; simp)+
  moreover have "words_of (drop 1 ?r) = words_of ?r" by (cases "drop 3 tok") (auto simp: is_blank_def)
  moreover have "words_of ?r = drop 3 tok" using assms(1) by (intro ts) (auto dest: in_set_dropD)
  ultimately show ?thesis by (simp add: zone_tail_def)
qed

function cmd_dispatch ::
  "'w cmd_core \<Rightarrow> cmd_session \<Rightarrow> string \<Rightarrow> nat \<Rightarrow> 'w \<Rightarrow> cmd_session \<times> 'w \<times> string \<times> int" where
  "cmd_dispatch core ses line len w =
     (if length line \<ge> CMD_LINE_MAX then (ses, w, cmd_err len ''TOO_LONG'')
      else case cmd_tokenize CMD_MAX_TOKENS [] line of
        None \<Rightarrow> (ses, w, cmd_err len ''BAD_ARGS'')
      | Some tok \<Rightarrow>
        if tok = [] then (ses, w, cmd_err len ''EMPTY'')
        else if length tok \<ge> 3 \<and> cmd_ci_eq (tok ! 1) ''ZONE'' then
          (case parse_int_arg (tok ! 2) of
             None \<Rightarrow> (ses, w, cmd_err len ''BAD_ARGS'')
           | Some z \<Rightarrow>
             if z < 0 \<or> z > 8 then (ses, w, cmd_err len ''OUT_OF_RANGE'')
             else if length tok < 4 then (ses, w, cmd_err len ''BAD_ARGS'')
             else if cc_role core = CMD_ROLE_MASTER \<and> z \<noteq> 0 then
               (case cc_forward core of
                  None \<Rightarrow> (ses, w, cmd_err len ''ZONE_UNKNOWN'')
                | Some f \<Rightarrow> (ses, f (of_int z) (zone_tail tok) len ZONE_FWD_TIMEOUT_MS w))
             else if cc_role core = CMD_ROLE_ZONE \<and> z \<noteq> 0 \<and> z \<noteq> uint (cc_zone_id core) then
               (ses, w, cmd_err len ''WRONG_ZONE'')
             else cmd_dispatch core ses (zone_tail tok) len w)
        else dispatch_local core ses tok line len w)"
  by pat_completeness auto


termination
  by (relation "measure (\<lambda>(core, ses, line, len, w). length line)", rule wf_measure)
    (simp only: in_measure split_conv, rule zone_tail_shorter, assumption, simp)

declare cmd_dispatch.simps [simp del]

section \<open>What a request must satisfy\<close>

text \<open>
  The specification of a typed argument, and of a request a handler may be given. \<open>enum_names\<close> are
  the alternatives of an enumeration.
\<close>

fun enum_names :: "string \<Rightarrow> string list" where
  "enum_names [] = [[]]"
| "enum_names (c # s) = (if c = CHR ''|'' then [] # enum_names s else (c # hd (enum_names s)) # tl (enum_names s))"

definition arg_ok :: "cmd_arg \<Rightarrow> string \<Rightarrow> int \<Rightarrow> bool" where
  "arg_ok a t v \<longleftrightarrow>
     (if ca_type a = ARG_INT then parse_int t = Some v \<and> ca_min a \<le> v \<and> v \<le> ca_max a
      else if ca_type a = ARG_ENUM then
        (let names = enum_names (case ca_enums a of None \<Rightarrow> [] | Some s \<Rightarrow> s) in
         0 \<le> v \<and> v < int (length names) \<and>
         (ci_eq (names ! nat v) t \<or> (length names > 1 \<and> parse_int t = Some v)))
      else if ca_type a = ARG_STR then v = 0 \<and> int (length t) \<le> ca_max a
      else if ca_type a = ARG_TIME then 0 \<le> v \<and> v \<le> 1439
      else ca_type a = ARG_MAC \<and> v = 0 \<and> parse_mac t \<noteq> None)"

definition permitted :: "'w cmd_core \<Rightarrow> cmd_session \<Rightarrow> 'w \<Rightarrow> cmd_entry \<Rightarrow> cmd_req \<Rightarrow> bool" where
  "permitted core ses w e q \<longleftrightarrow>
     e \<in> set (cc_table core) \<and> has_verb e (cq_verb q) \<and> cq_verb q \<in> {CMDV_SET, CMDV_GET, CMDV_BARE} \<and>
     (has_flag e CMDF_MASTER \<longrightarrow> cc_role core = CMD_ROLE_MASTER) \<and>
     (has_flag e CMDF_ZONE \<longrightarrow> cc_role core = CMD_ROLE_ZONE) \<and>
     (has_flag e CMDF_SESSION \<longrightarrow> cs_source ses \<noteq> CMD_SRC_HTTP) \<and>
     (has_flag e CMDF_UNLOCK \<longrightarrow> fst (cc_now_ms core w) < cs_unlock_until_ms ses) \<and>
     (if cq_verb q = CMDV_GET then cq_n q = ce_n_key e else ce_min_args e \<le> cq_n q \<and> cq_n q \<le> ce_max_args e) \<and>
     cq_n q \<le> length (ce_args e) \<and> length (cq_tok q) = cq_n q \<and>
     list_all2 (\<lambda>(a, t) v. arg_ok a t v) (zip (ce_args e) (cq_tok q)) (cq_val q)"

lemma parse_int_arg_eq [simp]: "parse_int_arg = parse_int"
  by (rule ext) (simp add: parse_int_arg_def parse_int_def)

lemma enum_names_nonempty [simp]: "enum_names s \<noteq> []"
  by (cases s) auto

lemma enum_names_split:
  "enum_names p = takeWhile (\<lambda>c. c \<noteq> CHR ''|'') p #
     (if dropWhile (\<lambda>c. c \<noteq> CHR ''|'') p = [] then [] else enum_names (tl (dropWhile (\<lambda>c. c \<noteq> CHR ''|'') p)))"
  by (induction p) auto

lemma enum_scan_names:
  assumes "enum_scan_from p val idx = (r, l)" "0 \<le> idx"
  shows "l < idx + int (length (enum_names p)) \<and> idx \<le> l \<and>
    (\<forall>i. r = Some i \<longrightarrow> idx \<le> i \<and> i < idx + int (length (enum_names p)) \<and> ci_eq (enum_names p ! nat (i - idx)) val)"
  using assms
proof (induction p val idx rule: enum_scan_from.induct)
  case (1 p val idx)
  let ?bar = "dropWhile (\<lambda>c. c \<noteq> CHR ''|'') p"
  let ?name = "takeWhile (\<lambda>c. c \<noteq> CHR ''|'') p"
  obtain zs where names: "enum_names p = ?name # zs" using enum_names_split [of p] by blast
  consider "p = []" | "p \<noteq> []" "length ?name < 20 \<and> cmd_ci_eq ?name val"
    | "p \<noteq> []" "\<not> (length ?name < 20 \<and> cmd_ci_eq ?name val)" "?bar = []"
    | "p \<noteq> []" "\<not> (length ?name < 20 \<and> cmd_ci_eq ?name val)" "?bar \<noteq> []" by blast
  then show ?case
  proof cases
    case 4
    have "enum_scan_from (tl ?bar) val (idx + 1) = (r, l)"
      using 1(2) 4 unfolding enum_scan_from.simps [of p val idx] Let_def by (simp only: if_False)
    from 1(1) [OF 4(1) refl refl 4(2,3) this] 1(3)
    have IH: "l < idx + 1 + int (length (enum_names (tl ?bar))) \<and> idx + 1 \<le> l \<and>
      (\<forall>i. r = Some i \<longrightarrow> idx + 1 \<le> i \<and> i < idx + 1 + int (length (enum_names (tl ?bar))) \<and>
        ci_eq (enum_names (tl ?bar) ! nat (i - (idx + 1))) val)" by simp
    have n: "enum_names p = ?name # enum_names (tl ?bar)" using enum_names_split [of p] 4(3) by (simp only: if_False)
    show ?thesis
    proof (intro conjI allI impI)
      fix i assume "r = Some i"
      with IH have i: "idx + 1 \<le> i" "ci_eq (enum_names (tl ?bar) ! nat (i - (idx + 1))) val" by auto
      then have "nat (i - idx) = Suc (nat (i - (idx + 1)))" by linarith
      then show "ci_eq (enum_names p ! nat (i - idx)) val" using i(2) by (simp add: n)
    qed (use IH in \<open>auto simp: n\<close>)
  next
    case 1
    then have "r = None" "l = idx" using \<open>enum_scan_from p val idx = (r, l)\<close> by (simp_all add: enum_scan_from.simps)
    with names show ?thesis by simp
  next
    case 2
    then have "r = Some idx \<and> l = idx"
      using \<open>enum_scan_from p val idx = (r, l)\<close> unfolding enum_scan_from.simps [of p val idx] Let_def
      by (auto simp only: if_False if_True prod.inject simp_thms)
    with names 2 show ?thesis by simp
  next
    case 3
    then have "r = None \<and> l = idx"
      using \<open>enum_scan_from p val idx = (r, l)\<close> unfolding enum_scan_from.simps [of p val idx] Let_def
      by (auto simp only: if_False if_True prod.inject simp_thms)
    with names show ?thesis by simp
  qed
qed

lemma enum_index_ok:
  assumes "enum_index enums t = Some v"
  shows "0 \<le> v \<and> v < int (length (enum_names enums)) \<and>
    (ci_eq (enum_names enums ! nat v) t \<or> length (enum_names enums) > 1 \<and> parse_int t = Some v)"
proof -
  obtain r l where s: "enum_scan_from enums t 0 = (r, l)" by (metis surj_pair)
  note n = enum_scan_names [OF s]
  show ?thesis using assms n by (auto simp: enum_index_def s split: option.splits if_splits)
qed

lemma sum_case_Inr: "(case x of Inl e \<Rightarrow> Inl e | Inr y \<Rightarrow> f y) = Inr r \<longleftrightarrow> (\<exists>y. x = Inr y \<and> f y = Inr r)"
  by (cases x) auto

lemma arg_value_ok: "arg_value a t mac = Inr (v, mac') \<Longrightarrow> arg_ok a t v"
  unfolding arg_value_def arg_ok_def
  by (auto simp: arg_types Let_def cmd_parse_time_def dest: enum_index_ok split: if_splits option.splits prod.splits)

lemma parse_args_ok:
  assumes "parse_args as ts vals mac = Inr (vals', mac')"
  shows "\<exists>vs. vals' = vals @ vs \<and> length ts \<le> length as \<and> list_all2 (\<lambda>(a, t) v. arg_ok a t v) (zip as ts) vs"
  using assms
proof (induction as ts vals mac rule: parse_args.induct)
  case (3 a as t ts vals mac)
  from 3(2) obtain v m where a: "arg_value a t mac = Inr (v, m)" by (cases "arg_value a t mac") auto
  with 3 obtain vs where "vals' = vals @ v # vs" "length ts \<le> length as"
      "list_all2 (\<lambda>(a, t) v. arg_ok a t v) (zip as ts) vs" by fastforce
  with arg_value_ok [OF a] show ?case by (intro exI [of _ "v # vs"]) simp
qed auto

lemma cmd_match_in: "cmd_match table vbit n1 two = Some e \<Longrightarrow> e \<in> set table \<and> has_verb e vbit"
  by (auto simp: cmd_match_def find_Some_iff)

lemma cmd_find_row_in: "cmd_find_row table vbit ws = Some (e, args) \<Longrightarrow> e \<in> set table \<and> has_verb e vbit"
  by (auto simp: cmd_find_row_def dest: cmd_match_in split: list.splits option.splits)

lemma verb_of_cases: "verb_of t = (vbit, k) \<Longrightarrow> vbit \<in> {CMDV_SET, CMDV_GET, CMDV_BARE}"
  by (auto simp: verb_of_def split: if_splits)

lemma gates_None:
  assumes "cmd_gates core ses e w = (w', None)"
  shows "(has_flag e CMDF_MASTER \<longrightarrow> cc_role core = CMD_ROLE_MASTER) \<and>
     (has_flag e CMDF_ZONE \<longrightarrow> cc_role core = CMD_ROLE_ZONE) \<and>
     (has_flag e CMDF_SESSION \<longrightarrow> cs_source ses \<noteq> CMD_SRC_HTTP) \<and>
     (has_flag e CMDF_UNLOCK \<longrightarrow> fst (cc_now_ms core w) < cs_unlock_until_ms ses)"
  using assms unfolding cmd_gates_def by (auto split: if_splits prod.splits)

lemma bind_request_ok:
  assumes "bind_request e vbit args = Inr q"
  shows "cq_verb q = vbit \<and> cq_tok q = args \<and> cq_n q = length args \<and> length args \<le> length (ce_args e) \<and>
    (if vbit = CMDV_GET then length args = ce_n_key e else ce_min_args e \<le> length args \<and> length args \<le> ce_max_args e) \<and>
    list_all2 (\<lambda>(a, t) v. arg_ok a t v) (zip (ce_args e) args) (cq_val q)"
proof -
  obtain vals mac where p: "parse_args (ce_args e) args [] (replicate 6 0) = Inr (vals, mac)"
    and n: "\<not> (length args < (if vbit = CMDV_GET then ce_n_key e else ce_min_args e) \<or>
        length args > (if vbit = CMDV_GET then ce_n_key e else ce_max_args e))"
    and q: "q = \<lparr>cq_verb = vbit, cq_n = length args, cq_tok = args, cq_val = vals, cq_mac = mac\<rparr>"
    using assms by (cases "parse_args (ce_args e) args [] (replicate 6 0)")
      (auto simp: bind_request_def Let_def split: if_split_asm)
  then show ?thesis using parse_args_ok [OF p] by (simp split: if_split_asm)
qed

lemma map_sum_eq_Inr: "map_sum f g x = Inr y \<longleftrightarrow> (\<exists>z. x = Inr z \<and> y = g z)"
  by (cases x) auto

lemma resolve_permitted:
  assumes "cmd_resolve core ses tok w = (w', Inr (e, q))"
  shows "permitted core ses w e q"
proof -
  obtain vbit k where v: "verb_of (hd tok) = (vbit, k)" by (metis surj_pair)
  from assms obtain args where f: "cmd_find_row (cc_table core) vbit (drop k tok) = Some (e, args)"
    and g: "cmd_gates core ses e w = (w', None)" and b: "bind_request e vbit args = Inr q"
    by (auto simp: cmd_resolve_def v map_sum_eq_Inr split: if_split_asm option.split_asm prod.split_asm)
  show ?thesis
    using cmd_find_row_in [OF f] gates_None [OF g] bind_request_ok [OF b] verb_of_cases [OF v]
    by (simp add: permitted_def split: if_split_asm)
qed

section \<open>Watching the handlers\<close>

text \<open>The same core with a world that records every call of a handler.\<close>

type_synonym call = "cmd_entry \<times> cmd_req \<times> cmd_session"

definition spy :: "'w cmd_core \<Rightarrow> ('w \<times> call list) cmd_core" where
  "spy core = \<lparr>cc_table = cc_table core, cc_role = cc_role core, cc_zone_id = cc_zone_id core,
     cc_now_ms = (\<lambda>(w, l). let (t, w) = cc_now_ms core w in (t, w, l)),
     cc_forward = map_option (\<lambda>f z s len t (w, l). let (w, out) = f z s len t w in ((w, l), out)) (cc_forward core),
     cc_audit = map_option (\<lambda>f src s (w, l). (f src s w, l)) (cc_audit core),
     cc_debug_key = cc_debug_key core,
     cc_call = (\<lambda>e q len ses (w, l). let (ses', w, out) = cc_call core e q len ses w in (ses', (w, l @ [(e, q, ses)]), out))\<rparr>"

lemma spy_simps [simp]:
  "cc_table (spy core) = cc_table core" "cc_role (spy core) = cc_role core" "cc_zone_id (spy core) = cc_zone_id core"
  "cc_now_ms (spy core) (w, l) = (fst (cc_now_ms core w), snd (cc_now_ms core w), l)"
  "cc_audit (spy core) = map_option (\<lambda>f src s (w, l). (f src s w, l)) (cc_audit core)"
  by (simp_all add: spy_def split_def Let_def)

lemma spy_call:
  "cc_call core e q len ses w = (s, w', out) \<Longrightarrow> cc_call (spy core) e q len ses (w, l) = (s, (w', l @ [(e, q, ses)]), out)"
  by (simp add: spy_def)

lemma gates_spy: "cmd_gates (spy core) ses e (w, l) = (let (w', r) = cmd_gates core ses e w in ((w', l), r))"
  by (simp add: cmd_gates_def split_def Let_def)

lemma resolve_spy: "cmd_resolve (spy core) ses tok (w, l) = (let (w', r) = cmd_resolve core ses tok w in ((w', l), r))"
proof -
  obtain vbit k where v: "verb_of (hd tok) = (vbit, k)" by (metis surj_pair)
  define bad where "bad \<longleftrightarrow> vbit \<noteq> CMDV_BARE \<and> length tok < 2"
  note d = cmd_resolve_def v Let_def split_conv bad_def [symmetric]
  show ?thesis
  proof (cases "cmd_find_row (cc_table core) vbit (drop k tok)")
    case None
    then show ?thesis by (simp add: d)
  next
    case (Some ea)
    obtain e args where ea: "ea = (e, args)" by (cases ea)
    obtain w' r where g: "cmd_gates core ses e w = (w', r)" by (metis surj_pair)
    then show ?thesis by (cases r) (simp_all add: d Some ea gates_spy)
  qed
qed

lemma audit_spy: "audit_row (spy core) ses e vbit rc line (w, l) = (audit_row core ses e vbit rc line w, l)"
  by (cases "cc_audit core") (simp_all add: audit_row_def)

lemma renew_spy: "renew_unlock (spy core) ses (w, l) = (fst (renew_unlock core ses w), snd (renew_unlock core ses w), l)"
  by (simp add: renew_unlock_def split_def Let_def)

lemma run_row_spy:
  "run_row (spy core) ses e q line len (w, l) =
     (let (s, w', out) = run_row core ses e q line len w in (s, (w', l @ [(e, q, ses)]), out))"
proof -
  obtain s w' r rc where c: "cc_call core e q len ses w = (s, w', r, rc)" by (metis prod_cases4)
  show ?thesis
    by (simp add: run_row_def c spy_call [OF c] audit_spy renew_spy split_def Let_def)
qed

definition watched :: "(cmd_session \<times> 'w \<times> string \<times> int) \<Rightarrow> call list \<Rightarrow> cmd_session \<times> ('w \<times> call list) \<times> string \<times> int" where
  "watched r calls = (fst r, (fst (snd r), calls), snd (snd r))"

lemma local_spy:
  "\<exists>calls. dispatch_local (spy core) ses tok line len (w, l) = watched (dispatch_local core ses tok line len w) (l @ calls) \<and>
     length calls \<le> 1 \<and> (\<forall>(e, q, s) \<in> set calls. s = ses \<and> permitted core ses w e q)"
proof (cases "ci_eq (last tok) ''HELP''")
  case True
  then show ?thesis by (intro exI [of _ "[]"]) (simp add: dispatch_local_def watched_def)
next
  case False
  obtain w' r where res: "cmd_resolve core ses tok w = (w', r)" by (metis surj_pair)
  show ?thesis
  proof (cases r)
    case (Inl t)
    then show ?thesis using False res
      by (intro exI [of _ "[]"]) (simp add: dispatch_local_def watched_def resolve_spy)
  next
    case (Inr eq)
    obtain e q where r: "r = Inr (e, q)" using Inr by (cases eq) auto
    then show ?thesis using False res resolve_permitted [of core ses tok w w' e q]
      by (intro exI [of _ "[(e, q, ses)]"])
        (simp add: dispatch_local_def watched_def resolve_spy run_row_spy split_def Let_def)
  qed
qed

lemma dispatch_cases:
  obtains (reply) t where "\<And>w. cmd_dispatch core ses line len w = (ses, w, cmd_err len t)"
      "\<And>w. cmd_dispatch (spy core) ses line len w = (ses, w, cmd_err len t)"
  | (forward) f k tail where "cc_forward core = Some f" "\<And>w. cmd_dispatch core ses line len w = (ses, f k tail len ZONE_FWD_TIMEOUT_MS w)"
      "\<And>w. cmd_dispatch (spy core) ses line len w = (ses, the (cc_forward (spy core)) k tail len ZONE_FWD_TIMEOUT_MS w)"
  | (again) tail where "length tail < length line" "\<And>w. cmd_dispatch core ses line len w = cmd_dispatch core ses tail len w"
      "\<And>w. cmd_dispatch (spy core) ses line len w = cmd_dispatch (spy core) ses tail len w"
  | (here) "length line < CMD_LINE_MAX" "words_of line \<noteq> []"
      "\<And>w. cmd_dispatch core ses line len w = dispatch_local core ses (words_of line) line len w"
      "\<And>w. cmd_dispatch (spy core) ses line len w = dispatch_local (spy core) ses (words_of line) line len w"
proof (cases "length line \<ge> CMD_LINE_MAX \<or> length (words_of line) > CMD_MAX_TOKENS \<or> words_of line = []")
  case True
  then show thesis
    by (intro reply [of "if length line \<ge> CMD_LINE_MAX then ''TOO_LONG'' else if length (words_of line) > CMD_MAX_TOKENS
        then ''BAD_ARGS'' else ''EMPTY''"]) (auto simp: cmd_dispatch.simps cmd_tokenize_words)
next
  case False
  let ?tok = "words_of line"
  have tk: "cmd_tokenize CMD_MAX_TOKENS [] line = Some ?tok" using False by (simp add: cmd_tokenize_words)
  have nl: "(CMD_LINE_MAX \<le> length line) = False" "(?tok = []) = False" using False by simp_all
  have u: "cmd_dispatch core ses line len w =
      (if length ?tok \<ge> 3 \<and> ci_eq (?tok ! 1) ''ZONE'' then
          (case parse_int (?tok ! 2) of
             None \<Rightarrow> (ses, w, cmd_err len ''BAD_ARGS'')
           | Some z \<Rightarrow>
             if z < 0 \<or> z > 8 then (ses, w, cmd_err len ''OUT_OF_RANGE'')
             else if length ?tok < 4 then (ses, w, cmd_err len ''BAD_ARGS'')
             else if cc_role core = CMD_ROLE_MASTER \<and> z \<noteq> 0 then
               (case cc_forward core of
                  None \<Rightarrow> (ses, w, cmd_err len ''ZONE_UNKNOWN'')
                | Some f \<Rightarrow> (ses, f (of_int z) (zone_tail ?tok) len ZONE_FWD_TIMEOUT_MS w))
             else if cc_role core = CMD_ROLE_ZONE \<and> z \<noteq> 0 \<and> z \<noteq> uint (cc_zone_id core) then
               (ses, w, cmd_err len ''WRONG_ZONE'')
             else cmd_dispatch core ses (zone_tail ?tok) len w)
        else dispatch_local core ses ?tok line len w)" for core :: "'x cmd_core" and w
    unfolding cmd_dispatch.simps [of core ses line len w]
    by (simp only: tk nl if_False option.case cmd_ci_eq_eq parse_int_arg_eq)
  have sh: "length ?tok \<ge> 3 \<Longrightarrow> length (zone_tail ?tok) < length line"
    using False by (intro zone_tail_shorter [of CMD_MAX_TOKENS]) (auto simp: tokenize_Some)
  show thesis
  proof (cases "length ?tok \<ge> 3 \<and> ci_eq (?tok ! 1) ''ZONE''")
    case False
    then show thesis using \<open>\<not> (_ \<or> _ \<or> _)\<close> by (intro here) (simp_all only: u if_False, auto)
  next
    case zone: True
    note uz = u [unfolded if_P [OF zone]]
    show thesis
    proof (cases "parse_int (?tok ! 2)")
      case None
      then show thesis by (intro reply [of "''BAD_ARGS''"]) (simp_all add: uz)
    next
      case z: (Some z)
      note uz = uz [unfolded z option.case]
      show thesis
      proof (cases "z < 0 \<or> z > 8")
        case True
        then show thesis by (intro reply [of "''OUT_OF_RANGE''"]) (simp_all only: uz if_True)
      next
        case False
        note uz = uz [unfolded if_not_P [OF False]]
        show thesis
        proof (cases "length ?tok < 4")
          case True
          then show thesis by (intro reply [of "''BAD_ARGS''"]) (simp_all only: uz if_True)
        next
          case False
          note uz = uz [unfolded if_not_P [OF False]]
          consider f where "cc_role core = CMD_ROLE_MASTER \<and> z \<noteq> 0" "cc_forward core = Some f"
            | "cc_role core = CMD_ROLE_MASTER \<and> z \<noteq> 0" "cc_forward core = None"
            | "(cc_role core = CMD_ROLE_MASTER \<and> z \<noteq> 0) = False"
              "(cc_role core = CMD_ROLE_ZONE \<and> z \<noteq> 0 \<and> z \<noteq> uint (cc_zone_id core)) = True"
            | "(cc_role core = CMD_ROLE_MASTER \<and> z \<noteq> 0) = False"
              "(cc_role core = CMD_ROLE_ZONE \<and> z \<noteq> 0 \<and> z \<noteq> uint (cc_zone_id core)) = False"
            by blast
          then show thesis
          proof cases
            case 1
            then show thesis by (intro forward [of f "of_int z" "zone_tail ?tok"]) (simp_all add: uz spy_def)
          next
            case 2
            then show thesis by (intro reply [of "''ZONE_UNKNOWN''"]) (simp_all add: uz spy_def)
          next
            case 3
            then show thesis by (intro reply [of "''WRONG_ZONE''"]) (simp_all only: uz spy_simps if_True if_False)
          next
            case 4
            then show thesis
              using sh [OF conjunct1 [OF zone]]
              by (intro again [of "zone_tail ?tok"]) (simp_all only: uz spy_simps if_False)
          qed
        qed
      qed
    qed
  qed
qed

lemma dispatch_spy:
  "\<exists>calls. cmd_dispatch (spy core) ses line len (w, l) = watched (cmd_dispatch core ses line len w) (l @ calls) \<and>
     length calls \<le> 1 \<and> (\<forall>(e, q, s) \<in> set calls. s = ses \<and> permitted core ses w e q)"
proof (induction line rule: length_induct)
  case (1 line)
  show ?case
  proof (cases rule: dispatch_cases [of core ses line len])
    case (reply t)
    then show ?thesis by (intro exI [of _ "[]"]) (simp add: watched_def)
  next
    case (forward f k tail)
    then show ?thesis by (intro exI [of _ "[]"]) (simp add: watched_def spy_def split_def Let_def)
  next
    case (again tail)
    with 1 show ?thesis by simp
  next
    case here
    then show ?thesis using local_spy [of core ses "words_of line" line len w l] by simp
  qed
qed

section \<open>Replies\<close>

text \<open>What a reply must be, and what the dispatcher asks of the handlers and of the ring.\<close>

definition answer_ok :: "nat \<Rightarrow> string \<times> int \<Rightarrow> bool" where
  "answer_ok len out \<longleftrightarrow> fst out \<noteq> [] \<and> length (fst out) < len \<and> snd out \<in> {0, -1}"

definition handlers_ok :: "'w cmd_core \<Rightarrow> nat \<Rightarrow> bool" where
  "handlers_ok core len \<longleftrightarrow>
     (\<forall>e q ses w. let (s, w, r, rc) = cc_call core e q len ses w in length r < len \<and> rc \<in> {0, -1}) \<and>
     (case cc_forward core of None \<Rightarrow> True | Some f \<Rightarrow> \<forall>z s t w. answer_ok len (snd (f z s len t w)))"

named_theorems answers

lemma cmd_err_answer [answers]: "3 \<le> len \<Longrightarrow> answer_ok len (cmd_err len t)"
  by (auto simp: answer_ok_def cmd_err_def)

lemma cmd_okf_answer [answers]: "3 \<le> len \<Longrightarrow> answer_ok len (cmd_okf len t)"
  by (auto simp: answer_ok_def cmd_okf_def Let_def)

lemma cmd_linef_answer: "3 \<le> len \<Longrightarrow> length r < len \<Longrightarrow> fst (cmd_linef len r t) \<noteq> [] \<and> length (fst (cmd_linef len r t)) < len"
  by (auto simp: cmd_linef_def Let_def)

lemma foldl_answer:
  assumes "\<And>r x. length r < len \<Longrightarrow> r \<noteq> [] \<Longrightarrow> length (f r x) < len \<and> f r x \<noteq> []" "length (r :: string) < len" "r \<noteq> []"
  shows "length (foldl f r xs) < len \<and> foldl f r xs \<noteq> []"
  using assms(2,3) by (induction xs arbitrary: r) (auto simp: assms(1))

lemma help_row_keeps:
  assumes "3 \<le> len" "length r < len" "r \<noteq> []"
  shows "length (help_row len r e) < len \<and> help_row len r e \<noteq> []"
  unfolding help_row_def using cmd_linef_answer [OF assms(1)] assms(2,3) by (intro foldl_answer) auto

lemma help_row_starts:
  assumes "3 \<le> len" "has_verb e v" "v \<in> set VERB_ORDER"
  shows "length (help_row len [] e) < len \<and> help_row len [] e \<noteq> []"
proof -
  note l = cmd_linef_answer [OF assms(1)]
  have l0: "0 < len" using assms(1) by simp
  show ?thesis
    using assms(2,3) l l0 by (auto simp: help_row_def VERB_ORDER_def)
qed

lemma cmd_help_answer:
  assumes "3 \<le> len"
  shows "answer_ok len (cmd_help table role tok len)"
proof (cases "tok = []")
  case True
  have "length (help_index table role len) < len \<and> help_index table role len \<noteq> []"
    unfolding help_index_def using cmd_linef_answer [OF assms] assms
    by (intro foldl_answer) (auto split: prod.splits)
  with True show ?thesis by (simp add: cmd_help_def answer_ok_def)
next
  case False
  obtain vbit k where v: "verb_of (hd tok) = (vbit, k)" by (metis surj_pair)
  define rows where "rows = [e \<leftarrow> table. help_matches role vbit
      (if length tok > k then Some (tok ! k) else None) (if length tok > k + 1 then Some (tok ! (k + 1)) else None) e]"
  have h: "cmd_help table role tok len = (if rows = [] then cmd_err len ''UNKNOWN_CMD'' else (foldl (help_row len) [] rows, 0))"
    using False by (simp add: cmd_help_def v rows_def)
  show ?thesis
  proof (cases rows)
    case Nil
    then show ?thesis by (simp add: h answers assms)
  next
    case (Cons e es)
    then have "e \<in> set rows" by simp
    then have "has_verb e vbit" by (auto simp: rows_def help_matches_def)
    moreover have "vbit \<in> set VERB_ORDER" using verb_of_cases [OF v] by (auto simp: VERB_ORDER_def)
    ultimately have "length (help_row len [] e) < len \<and> help_row len [] e \<noteq> []" by (intro help_row_starts assms)
    then have "length (foldl (help_row len) (help_row len [] e) es) < len \<and> foldl (help_row len) (help_row len [] e) es \<noteq> []"
      using help_row_keeps [OF assms] by (intro foldl_answer) auto
    then show ?thesis by (simp add: h Cons answer_ok_def)
  qed
qed

lemma run_row_answer:
  assumes "3 \<le> len" "handlers_ok core len"
  shows "answer_ok len (snd (snd (run_row core ses e q line len w)))"
proof -
  obtain s w' r rc where c: "cc_call core e q len ses w = (s, w', r, rc)" by (metis prod_cases4)
  have "let (s, w, r, rc) = cc_call core e q len ses w in length r < len \<and> rc \<in> {0, -1}"
    using assms(2) unfolding handlers_ok_def by blast
  then have r: "length r < len \<and> rc \<in> {0, -1}" by (simp add: c)
  show ?thesis
  proof (cases "r = []")
    case True
    then show ?thesis using answers [OF assms(1)] by (simp add: run_row_def c)
  next
    case False
    with r show ?thesis by (simp add: run_row_def c answer_ok_def split_def Let_def)
  qed
qed

lemma dispatch_answer:
  assumes "3 \<le> len" "handlers_ok core len"
  shows "answer_ok len (snd (snd (cmd_dispatch core ses line len w)))"
proof (induction line rule: length_induct)
  case (1 line)
  show ?case
  proof (cases rule: dispatch_cases [of core ses line len])
    case (forward f k tail)
    then show ?thesis using assms(2) by (simp add: handlers_ok_def)
  next
    case here
    obtain w' r where "cmd_resolve core ses (words_of line) w = (w', r)" by (metis surj_pair)
    then have "answer_ok len (snd (snd (dispatch_local core ses (words_of line) line len w)))"
      using cmd_help_answer [OF assms(1)] run_row_answer [OF assms] answers [OF assms(1)]
      by (cases r) (simp_all add: dispatch_local_def split_def)
    then show ?thesis by (simp add: here)
  qed (use 1 in \<open>simp_all add: answers assms\<close>)
qed

text \<open>What reaches the caller of a handler's reply, and that nothing else does once a handler ran.\<close>

definition delivered :: "nat \<Rightarrow> string \<times> int \<Rightarrow> string \<times> int" where
  "delivered len reply = (if fst reply = [] then (take (len - 1) (''ERR INTERNAL'' @ [LF]), -1) else reply)"

lemma run_row_delivers:
  "snd (snd (run_row core ses e q line len w)) = delivered len (snd (snd (cc_call core e q len ses w)))"
  by (simp add: run_row_def delivered_def cmd_err_def split_def Let_def prod_eq_iff)

abbreviation spied :: "cmd_session \<times> ('w \<times> call list) \<times> string \<times> int \<Rightarrow> call list" where
  "spied r \<equiv> snd (fst (snd r))"

lemma local_delivers:
  "\<exists>calls. spied (dispatch_local (spy core) ses tok line len (w, l)) = l @ calls \<and>
    (\<forall>(e, q, s) \<in> set calls. \<exists>w0. snd (snd (dispatch_local core ses tok line len w)) = delivered len (snd (snd (cc_call core e q len s w0))))"
proof (cases "ci_eq (last tok) ''HELP''")
  case True
  then show ?thesis by (intro exI [of _ "[]"]) (simp add: dispatch_local_def)
next
  case False
  obtain w' r where res: "cmd_resolve core ses tok w = (w', r)" by (metis surj_pair)
  show ?thesis
  proof (cases r)
    case (Inl t)
    then show ?thesis using False res by (intro exI [of _ "[]"]) (simp add: dispatch_local_def resolve_spy)
  next
    case (Inr eq)
    obtain e q where r: "r = Inr (e, q)" using Inr by (cases eq) auto
    then show ?thesis using False res run_row_delivers [of core ses e q line len w']
      by (intro exI [of _ "[(e, q, ses)]"])
        (auto simp: dispatch_local_def resolve_spy run_row_spy split_def Let_def)
  qed
qed

lemma dispatch_delivers:
  "\<exists>calls. spied (cmd_dispatch (spy core) ses line len (w, l)) = l @ calls \<and>
    (\<forall>(e, q, s) \<in> set calls. \<exists>w0. snd (snd (cmd_dispatch core ses line len w)) = delivered len (snd (snd (cc_call core e q len s w0))))"
proof (induction line rule: length_induct)
  case (1 line)
  show ?case
  proof (cases rule: dispatch_cases [of core ses line len])
    case (reply t)
    then show ?thesis by (intro exI [of _ "[]"]) simp
  next
    case (forward f k tail)
    then show ?thesis by (intro exI [of _ "[]"]) (simp add: spy_def split_def Let_def)
  next
    case (again tail)
    then show ?thesis using 1 by simp
  next
    case here
    then show ?thesis using local_delivers [of core ses "words_of line" line len w l] by simp
  qed
qed

section \<open>The table\<close>

lemma row_good:
  assumes "table_check_from before t = -1"
  shows "\<forall>i < length t. \<not> row_bad (before @ take i t) (t ! i)"
  using assms
proof (induction t arbitrary: before)
  case (Cons e es)
  then have "\<not> row_bad before e" "table_check_from (before @ [e]) es = -1" by (auto split: if_splits)
  with Cons.IH [of "before @ [e]"] show ?case by (auto simp: less_Suc_eq_0_disj)
qed simp

lemma checked_rows_differ:
  assumes "cmd_table_check t = -1" "p \<in> set t" "e \<in> set t" "same_nouns1 p e" "same_noun2 p e"
  shows "p = e"
proof -
  obtain i j where ij: "i < length t" "t ! i = p" "j < length t" "t ! j = e" using assms(2,3) by (metis in_set_conv_nth)
  have sym: "same_nouns1 e p" "same_noun2 e p" using assms(4,5)
    by (auto simp: same_nouns1_def same_noun2_def ci_eq_map word_bw_comms split: option.splits)
  have good: "\<not> row_bad (take k t) (t ! k)" if k: "k < length t" for k
    using row_good [of "[]" t] assms(1) k by (simp add: cmd_table_check_def)
  have mem: "t ! a \<in> set (take b t)" if ab: "a < b" "b < length t" for a b
    using ab by (simp add: in_set_conv_nth) (metis length_take min.absorb4 nth_take)
  show ?thesis
  proof (cases i j rule: linorder_cases)
    case less
    then have "row_bad (take j t) e" unfolding row_bad_def using mem [of i j] ij assms(4,5) by blast
    then show ?thesis using good [of j] ij by simp
  next
    case greater
    then have "row_bad (take i t) p" unfolding row_bad_def using mem [of j i] ij sym by blast
    then show ?thesis using good [of i] ij by simp
  qed (use ij in simp)
qed

lemma find_unique:
  assumes "\<And>x y. x \<in> set t \<Longrightarrow> y \<in> set t \<Longrightarrow> P x \<Longrightarrow> P y \<Longrightarrow> x = y" "set t' = set t"
  shows "find P t' = find P t"
proof (cases "find P t")
  case None
  then have "find P t' = None" using assms(2) unfolding find_None_iff by simp
  with None show ?thesis by simp
next
  case (Some x)
  then have x: "x \<in> set t" "P x" by (auto simp: find_Some_iff)
  obtain y where y: "find P t' = Some y" using x assms(2) by (cases "find P t'") (auto simp: find_None_iff)
  then have "y \<in> set t" "P y" using assms(2) by (auto simp: find_Some_iff)
  with assms(1) [OF x(1) _ x(2)] Some y show ?thesis by simp
qed

lemma match_any_order:
  assumes "cmd_table_check t = -1" "set t' = set t" "vbit \<in> {CMDV_SET, CMDV_GET, CMDV_BARE}"
  shows "cmd_match t' vbit n1 two = cmd_match t vbit n1 two"
  unfolding cmd_match_def
proof (rule find_unique [OF _ assms(2)])
  fix x y
  let ?P = "\<lambda>e. has_verb e vbit \<and> (case two of
        Some n2 \<Rightarrow> (case ce_noun2 e of None \<Rightarrow> False | Some m \<Rightarrow> cmd_ci_eq (ce_noun1 e) n1 \<and> cmd_ci_eq m n2)
      | None \<Rightarrow> ce_noun2 e = None \<and> cmd_ci_eq (ce_noun1 e) n1)"
  assume xy: "x \<in> set t" "y \<in> set t" "?P x" "?P y"
  have "ce_verbs x AND ce_verbs y \<noteq> 0"
  proof -
    obtain i where "vbit = push_bit i 1" "i < 8"
      using assms(3) by (force simp: verb_bits intro: that [of 0] that [of 1] that [of 2])
    then have "bit (ce_verbs x) i" "bit (ce_verbs y) i"
      using xy(3,4) by (auto simp: bit_eq_iff [where ?'a = "8 word"] bit_simps)
    then have "bit (ce_verbs x AND ce_verbs y) i" by (simp add: bit_and_iff)
    then show ?thesis by (metis bit_0_eq bot_apply bot_bool_def)
  qed
  with xy show "x = y" by (intro checked_rows_differ [OF assms(1)])
      (auto simp: same_nouns1_def same_noun2_def ci_eq_map split: option.splits)
qed

lemma cmd_find_row_any_order:
  assumes "cmd_table_check t = -1" "set t' = set t" "vbit \<in> {CMDV_SET, CMDV_GET, CMDV_BARE}"
  shows "cmd_find_row t' vbit ws = cmd_find_row t vbit ws"
  unfolding cmd_find_row_def match_any_order [OF assms] ..

section \<open>Addressing a zone\<close>

lemma zone_prefix_dispatch:
  assumes "words_of line = verb # pre # zn # ws" "ci_eq pre ''ZONE''" "parse_int zn = Some z" "0 \<le> z" "z \<le> 8" "ws \<noteq> []"
    "length line < CMD_LINE_MAX" "length (words_of line) \<le> CMD_MAX_TOKENS"
  shows "cmd_dispatch core ses line len w =
     (if cc_role core = CMD_ROLE_MASTER \<and> z \<noteq> 0 then
        (case cc_forward core of
           None \<Rightarrow> (ses, w, cmd_err len ''ZONE_UNKNOWN'')
         | Some f \<Rightarrow> (ses, f (of_int z) (zone_tail (words_of line)) len ZONE_FWD_TIMEOUT_MS w))
      else if cc_role core = CMD_ROLE_ZONE \<and> z \<noteq> 0 \<and> z \<noteq> uint (cc_zone_id core) then
        (ses, w, cmd_err len ''WRONG_ZONE'')
      else cmd_dispatch core ses (zone_tail (words_of line)) len w)"
proof -
  have tk: "cmd_tokenize CMD_MAX_TOKENS [] line = Some (verb # pre # zn # ws)"
    using assms(1,8) by (simp add: cmd_tokenize_words)
  show ?thesis
    using assms(2-7) unfolding assms(1) cmd_dispatch.simps [of core ses line len w] by (simp add: tk Suc_le_eq)
qed

lemma zone_tail_words:
  assumes "words_of line = verb # pre # zn # ws"
  shows "words_of (zone_tail (words_of line)) = verb # ws" "length (zone_tail (words_of line)) < length line"
proof -
  have "words_of (zone_tail (words_of line)) = hd (words_of line) # drop 3 (words_of line)"
    by (rule words_of_tail) (use words_of_word_set assms in \<open>auto simp: assms [symmetric]\<close>, simp add: assms)
  then show "words_of (zone_tail (words_of line)) = verb # ws" by (simp add: assms)
  show "length (zone_tail (words_of line)) < length line"
    by (rule zone_tail_shorter [of "length (words_of line)"]) (simp_all add: tokenize_Some assms)
qed

section \<open>A small table\<close>

text \<open>Two rows, a clock that is the world, and handlers that answer \<open>OK\<close>.\<close>

definition sample_rows :: "cmd_entry list" where
  "sample_rows =
    [\<lparr>ce_verbs = CMDV_BARE, ce_area = 0, ce_noun1 = ''REBOOT'', ce_noun2 = None,
       ce_args = [\<lparr>ca_name = ''confirm'', ca_type = ARG_ENUM, ca_min = 0, ca_max = 0, ca_enums = Some ''CONFIRM''\<rparr>],
       ce_n_key = 0, ce_min_args = 1, ce_max_args = 1, ce_flags = 0, ce_handler = Some 0, ce_desc = None\<rparr>,
     \<lparr>ce_verbs = CMDV_SET, ce_area = 0, ce_noun1 = ''PUMP'', ce_noun2 = None,
       ce_args = [\<lparr>ca_name = ''shelf'', ca_type = ARG_INT, ca_min = 1, ca_max = 4, ca_enums = None\<rparr>,
         \<lparr>ca_name = ''seconds'', ca_type = ARG_INT, ca_min = 1, ca_max = 60, ca_enums = None\<rparr>],
       ce_n_key = 0, ce_min_args = 2, ce_max_args = 2, ce_flags = CMDF_ACTUATOR OR CMDF_UNLOCK, ce_handler = Some 1,
       ce_desc = None\<rparr>]"

definition sample_core :: "u32 cmd_core" where
  "sample_core = \<lparr>cc_table = sample_rows, cc_role = CMD_ROLE_ZONE, cc_zone_id = 2, cc_now_ms = (\<lambda>w. (w, w)),
     cc_forward = None, cc_audit = None, cc_debug_key = None,
     cc_call = (\<lambda>e q len ses w. (ses, w, fst (cmd_okf len (ce_noun1 e)), 0))\<rparr>"

definition sample_session :: cmd_session where
  "sample_session = \<lparr>cs_source = CMD_SRC_CLI, cs_echo = 0, cs_notify_mask = 0, cs_unlock_until_ms = 5000\<rparr>"

text \<open>Handlers that write nothing.\<close>

definition mute_core :: "u32 cmd_core" where
  "mute_core = sample_core\<lparr>cc_call := (\<lambda>e q len ses w. (ses, w, [], 0))\<rparr>"

lemma sample_handlers: "64 \<le> len \<Longrightarrow> handlers_ok sample_core len"
  using cmd_okf_answer [of len] by (auto simp: handlers_ok_def sample_core_def answer_ok_def)

lemma resolve_any_order:
  assumes "cmd_table_check t = -1" "set t' = set t"
  shows "cmd_resolve (core\<lparr>cc_table := t'\<rparr>) ses tok w = cmd_resolve (core\<lparr>cc_table := t\<rparr>) ses tok w"
proof -
  obtain vbit k where v: "verb_of (hd tok) = (vbit, k)" by (metis surj_pair)
  have g: "cmd_gates (core\<lparr>cc_table := t'\<rparr>) = cmd_gates (core\<lparr>cc_table := t\<rparr>)"
    by (intro ext) (simp add: cmd_gates_def)
  have tb: "cc_table (core\<lparr>cc_table := x\<rparr>) = x" for x by simp
  show ?thesis
    unfolding cmd_resolve_def v Let_def split_conv g tb cmd_find_row_any_order [OF assms verb_of_cases [OF v]] ..
qed

lemma unlock_gate:
  assumes "ce_flags e = CMDF_UNLOCK"
  shows "snd (cmd_gates (core\<lparr>cc_now_ms := \<lambda>w. (now, w)\<rparr>) ses e w) =
    (if cs_unlock_until_ms ses > now then None else Some ''LOCKED'')"
  by (simp add: cmd_gates_def assms row_flags)

section \<open>Properties\<close>



text \<open>A session unlocked at T0 is locked again from T0 + 600 s on, but the clock is the low 32 bits of the milliseconds since boot and the deadline is compared with it directly: when the clock reads T0 again, 2^32 ms later, the expired deadline opens the gate once more without the key.\<close>

lemma expired_unlock_comes_back:
  fixes core :: "'w cmd_core"
  assumes "ce_flags e = CMDF_UNLOCK" "cs_unlock_until_ms ses = of_nat (T0 + 600000)" "T0 + 600000 < 2 ^ 32"
  defines "at T \<equiv> core\<lparr>cc_now_ms := \<lambda>w. (of_nat T, w)\<rparr>"
  shows "(\<forall>T. T0 + 600000 \<le> T \<and> T < 2 ^ 32 \<longrightarrow> snd (cmd_gates (at T) ses e w) = Some ''LOCKED'') \<and>
    snd (cmd_gates (at (T0 + 2 ^ 32)) ses e w) = None"
proof (intro conjI allI impI)
  fix T assume "T0 + 600000 \<le> T \<and> T < 2 ^ 32"
  then show "snd (cmd_gates (at T) ses e w) = Some ''LOCKED''"
    using assms(3) by (simp add: at_def unlock_gate [OF assms(1)] assms(2) word_less_nat_alt unat_of_nat del: of_nat_add)
next
  have "(of_nat (T0 + 2 ^ 32) :: u32) = of_nat T0"
    by (simp add: word_of_nat_eq_iff take_bit_eq_mod del: of_nat_add)
  then show "snd (cmd_gates (at (T0 + 2 ^ 32)) ses e w) = None"
    using assms(3) by (simp add: at_def unlock_gate [OF assms(1)] assms(2) word_less_nat_alt unat_of_nat del: of_nat_add)
qed

lemma expired_unlock_comes_back_witness:
  \<open>snd (cmd_gates (sample_core\<lparr>cc_now_ms := \<lambda>w. (of_nat (1000 + 2 ^ 32), w)\<rparr>) (sample_session\<lparr>cs_unlock_until_ms := 601000\<rparr>)
     ((sample_rows ! 1)\<lparr>ce_flags := CMDF_UNLOCK\<rparr>) 7) = None\<close>
  using expired_unlock_comes_back [where core = sample_core and w = 7 and e = "(sample_rows ! 1)\<lparr>ce_flags := CMDF_UNLOCK\<rparr>"
      and ses = "sample_session\<lparr>cs_unlock_until_ms := 601000\<rparr>" and ?T0.0 = 1000]
  by simp

text \<open>In a table that cmd_table_check accepts the rows can be merged in any order, as the two firmwares do: every command resolves to the same row, request or refusal.\<close>

lemma row_order_does_not_matter:
  assumes "cmd_table_check t = -1" "set t' = set t"
  shows "cmd_resolve (core\<lparr>cc_table := t'\<rparr>) ses tok w = cmd_resolve (core\<lparr>cc_table := t\<rparr>) ses tok w"
  by (rule resolve_any_order [OF assms])

lemma row_order_does_not_matter_witness:
  \<open>cmd_resolve (sample_core\<lparr>cc_table := rev sample_rows\<rparr>) ses tok w = cmd_resolve (sample_core\<lparr>cc_table := sample_rows\<rparr>) ses tok w\<close>
proof (rule row_order_does_not_matter)
  show "cmd_table_check sample_rows = -1" by code_simp
qed simp

text \<open>A command with the prefix ZONE z is, on the master, handed to the ring for zone z as the same command without the prefix, and no handler of the master sees it; on a zone it is the command without the prefix when z is the zone itself or 0, and is refused with WRONG_ZONE otherwise.\<close>

lemma zone_prefix_reaches_one_node:
  assumes "words_of line = verb # pre # zn # ws" "ci_eq pre ''ZONE''" "parse_int zn = Some z" "0 \<le> z" "z \<le> 8" "ws \<noteq> []"
    "length line < CMD_LINE_MAX" "length (words_of line) \<le> CMD_MAX_TOKENS"
  defines "tail \<equiv> zone_tail (words_of line)"
  shows "words_of tail = verb # ws \<and> length tail < length line \<and>
    (cc_role core = CMD_ROLE_MASTER \<and> z \<noteq> 0 \<longrightarrow> (\<forall>f. cc_forward core = Some f \<longrightarrow>
       cmd_dispatch core ses line len w = (ses, f (of_int z) tail len ZONE_FWD_TIMEOUT_MS w))) \<and>
    (cc_role core = CMD_ROLE_ZONE \<and> (z = 0 \<or> z = uint (cc_zone_id core)) \<longrightarrow>
       cmd_dispatch core ses line len w = cmd_dispatch core ses tail len w) \<and>
    (cc_role core = CMD_ROLE_ZONE \<and> z \<noteq> 0 \<and> z \<noteq> uint (cc_zone_id core) \<longrightarrow>
       cmd_dispatch core ses line len w = (ses, w, cmd_err len ''WRONG_ZONE''))"
  unfolding tail_def zone_prefix_dispatch [OF assms(1-8)] using zone_tail_words [OF assms(1)]
  by (auto simp: CMD_ROLE_MASTER_def CMD_ROLE_ZONE_def)

lemma zone_prefix_reaches_one_node_witness:
  \<open>cmd_dispatch sample_core sample_session ''get ZONE 5 status'' 64 7 = (sample_session, 7, cmd_err 64 ''WRONG_ZONE'')\<close>
proof -
  have "words_of ''get ZONE 5 status'' = [''get'', ''ZONE'', ''5'', ''status'']" "ci_eq ''ZONE'' ''ZONE''"
    "parse_int ''5'' = Some 5" "length ''get ZONE 5 status'' < CMD_LINE_MAX"
    "length (words_of ''get ZONE 5 status'') \<le> CMD_MAX_TOKENS" by code_simp+
  note zone_prefix_reaches_one_node [OF this(1-3) _ _ _ this(4,5), where core = sample_core]
  moreover have "cc_role sample_core = CMD_ROLE_ZONE" "uint (cc_zone_id sample_core) = 2" by (simp_all add: sample_core_def)
  ultimately show ?thesis by simp
qed

text \<open>The in-place tokenizer gives exactly the words between the blanks and tabs of the line, in order, or fails when there are more than its limit.\<close>

lemma line_is_cut_into_its_words:
  \<open>cmd_tokenize mx [] line = (if length (words_of line) \<le> mx then Some (words_of line) else None)\<close>
  by (simp add: cmd_tokenize_words)

text \<open>C19. Watching the handlers does not change what the dispatcher does, and for one command line, whatever it contains, at most one handler runs, at most once, with the session of the caller, and only for a row of the table that has the verb, whose role, session and unlock gates are open, with a permitted number of arguments, each of its type and within the bounds of its row.\<close>

lemma handlers_run_only_when_permitted:
  assumes "cmd_dispatch (spy core) ses line len (w, []) = (ses', (w', calls), out)"
  shows "cmd_dispatch core ses line len w = (ses', w', out) \<and> length calls \<le> 1 \<and>
    (\<forall>(e, q, s) \<in> set calls. s = ses \<and> permitted core ses w e q)"
proof -
  obtain cs where cs: "cmd_dispatch (spy core) ses line len (w, []) = watched (cmd_dispatch core ses line len w) ([] @ cs)"
      "length cs \<le> 1" "\<forall>(e, q, s) \<in> set cs. s = ses \<and> permitted core ses w e q"
    using dispatch_spy [of core ses line len w "[]"] by (elim exE conjE) (rule that)
  obtain a b c where d: "cmd_dispatch core ses line len w = (a, b, c)" by (metis prod_cases3)
  have "(a, (b, cs), c) = (ses', (w', calls), out)" using cs(1) assms unfolding d watched_def by simp
  then show ?thesis using cs(2,3) d by simp
qed

lemma handlers_run_only_when_permitted_witness:
  \<open>permitted sample_core sample_session 100 (sample_rows ! 1)
     \<lparr>cq_verb = 1, cq_n = 2, cq_tok = [''1'', ''+30''], cq_val = [1, 30], cq_mac = replicate 6 0\<rparr>\<close>
proof -
  have "cmd_dispatch (spy sample_core) sample_session ''set zone 2 pump 1 +30'' 64 (100, []) =
    (sample_session\<lparr>cs_unlock_until_ms := 600100\<rparr>, (100, [(sample_rows ! 1,
       \<lparr>cq_verb = 1, cq_n = 2, cq_tok = [''1'', ''+30''], cq_val = [1, 30], cq_mac = replicate 6 0\<rparr>, sample_session)]),
     ''OK PUMP'' @ [LF], 0)" by code_simp
  from handlers_run_only_when_permitted [OF this] show ?thesis by simp
qed

text \<open>C20. Whatever bytes a command line has, dispatching it ends, and the answer is not empty, fits its buffer with the terminator and comes with return code 0 or -1. If a handler ran, the answer is what that handler wrote, with its return code, or ERR INTERNAL with -1 when it wrote nothing. Assumed are a buffer of at least three characters, handlers that leave room for the terminator and return 0 or -1, and a forwarding whose reply is not empty, leaves that room too and comes with 0 or -1.\<close>

lemma every_command_is_answered:
  assumes "3 \<le> len" "handlers_ok core len" "cmd_dispatch (spy core) ses line len (w, []) = (ses', (w', calls), out)"
  shows "cmd_dispatch core ses line len w = (ses', w', out) \<and> answer_ok len out \<and>
    (\<forall>(e, q, s) \<in> set calls. \<exists>w0. out = delivered len (snd (snd (cc_call core e q len s w0))))"
proof -
  obtain cs where cs: "cmd_dispatch (spy core) ses line len (w, []) = watched (cmd_dispatch core ses line len w) ([] @ cs)"
    using dispatch_spy [of core ses line len w "[]"] by blast
  obtain a b c where d: "cmd_dispatch core ses line len w = (a, b, c)" by (metis prod_cases3)
  have eq: "(a, (b, cs), c) = (ses', (w', calls), out)" using cs assms(3) unfolding d watched_def by simp
  obtain cs' where r: "spied (cmd_dispatch (spy core) ses line len (w, [])) = [] @ cs'"
    "\<forall>(e, q, s) \<in> set cs'. \<exists>w0. snd (snd (cmd_dispatch core ses line len w)) = delivered len (snd (snd (cc_call core e q len s w0)))"
    using dispatch_delivers [of core ses line len w "[]"] by blast
  have "cs' = calls" using r(1) by (simp add: assms(3))
  with r(2) eq have "\<forall>(e, q, s) \<in> set calls. \<exists>w0. out = delivered len (snd (snd (cc_call core e q len s w0)))" by (simp add: d)
  then show ?thesis using dispatch_answer [OF assms(1,2), of ses line w] eq by (simp add: d)
qed

lemma every_command_is_answered_witness:
  \<open>snd (snd (cmd_dispatch mute_core sample_session ''set zone 2 pump 1 +30'' 64 100)) = (''ERR INTERNAL'' @ [LF], -1)\<close>
proof -
  have d: "cmd_dispatch (spy mute_core) sample_session ''set zone 2 pump 1 +30'' 64 (100, []) =
    (sample_session, (100, [(sample_rows ! 1,
       \<lparr>cq_verb = 1, cq_n = 2, cq_tok = [''1'', ''+30''], cq_val = [1, 30], cq_mac = replicate 6 0\<rparr>, sample_session)]),
     ''ERR INTERNAL'' @ [LF], -1)" by code_simp
  have "handlers_ok mute_core 64" by (simp add: handlers_ok_def mute_core_def sample_core_def)
  from every_command_is_answered [OF _ this d] show ?thesis by simp
qed

end
