(* ===== verification/Node_Cfg.thy ===== *)
theory Node_Cfg
  imports Zone_Cfg_Rx Ring_Trk Ring_Health Notify
begin

text \<open>
  The master's side of the configuration of the zones (\<^verbatim>\<open>components/node_mgr\<close>, files
  \<^verbatim>\<open>node_mgr_cfg.c\<close>, \<^verbatim>\<open>node_mgr_cfgx.c\<close>, \<^verbatim>\<open>node_mgr_cfg_latch.c\<close>, \<^verbatim>\<open>node_mgr_cfg_api.c\<close>, and
  from \<^verbatim>\<open>node_mgr.c\<close> the submission of frames): a cache of the two planes of each zone, one
  transfer at a time that pulls a plane into the cache or pushes the logical plane out of it, the
  memory of failures that are not to be repeated, and the decision, once a second, what to do next.

  The arrays of the C files that are indexed by the zone are one function from zone ids to a
  record. The frames of a step are its output, its tracked frames go to the tracker of
  \<open>Ring_Trk\<close>, and a notification is an output as well. \<open>nm_clock\<close> is what
  \<open>nmgr_now_ms\<close> returns during the step; the argument \<open>now\<close> was read earlier by the task loop.
\<close>

section \<open>State\<close>

record nmgr_cache =
  nc_blob :: "u8 list"
  nc_gen :: u32
  nc_crc :: u32
  nc_valid :: bool

record nmgr_latch =
  la_valid :: bool
  la_hb_gen :: u32
  la_hb_crc :: u32
  la_cache_gen :: u32
  la_cache_crc :: u32

record zone_mem =
  zm_cfg :: nmgr_cache
  zm_hw :: nmgr_cache
  zm_fresh :: bool
  zm_set_req :: "hg_zone_cfg option"
  zm_latch_cfg :: nmgr_latch
  zm_latch_hw :: nmgr_latch
  zm_cooldown :: u32

datatype cx_state = CX_IDLE | CX_PULL_ACK | CX_PULL_STREAM | CX_PUSH_COMMIT | CX_RETRY_PULL | CX_RETRY_PUSH

record cx =
  cx_st :: cx_state
  cx_zone :: u8
  cx_kind :: u8
  cx_attempt :: u8
  cx_retry_at_ms :: u32
  cx_trk_seq :: u16
  cx_push_gen :: u32
  cx_hb_gen :: u32
  cx_hb_crc :: u32
  cx_cache_gen :: u32
  cx_cache_crc :: u32

record nmgr =
  nm_tab :: "hg_node list"
  nm_trk :: ring_trk
  nm_seq :: u16
  nm_clock :: u32
  nm_zone :: "u8 \<Rightarrow> zone_mem"
  nm_rr_next :: u8
  nm_push_req :: u8
  nm_clear_mask :: u8
  nm_cx :: cx
  nm_casm :: ring_casm
  nm_push_wire :: "u8 list"

datatype nm_out = NmSend ring_hdr "u8 list" | NmNote u8 nat u8 string

definition CFG_COOLDOWN_MS :: u32 where "CFG_COOLDOWN_MS = 30000"

definition BACKOFF_MS :: "u32 list" where "BACKOFF_MS = [1000, 2000, 4000]"

text \<open>A plane with its envelope: the cache and the push buffer have room for the larger one.\<close>

definition WIRE_MAX :: nat where "WIRE_MAX = HG_BLOB_HDR_LEN + 336"

definition cache_zero :: nmgr_cache where
  "cache_zero = \<lparr>nc_blob = replicate WIRE_MAX 0, nc_gen = 0, nc_crc = 0, nc_valid = False\<rparr>"

definition latch_zero :: nmgr_latch where
  "latch_zero = \<lparr>la_valid = False, la_hb_gen = 0, la_hb_crc = 0, la_cache_gen = 0, la_cache_crc = 0\<rparr>"

definition cx_zero :: cx where
  "cx_zero = \<lparr>cx_st = CX_IDLE, cx_zone = 0, cx_kind = 0, cx_attempt = 0, cx_retry_at_ms = 0, cx_trk_seq = 0,
     cx_push_gen = 0, cx_hb_gen = 0, cx_hb_crc = 0, cx_cache_gen = 0, cx_cache_crc = 0\<rparr>"

abbreviation zone_id_ok :: "u8 \<Rightarrow> bool" where "zone_id_ok z \<equiv> 1 \<le> z \<and> z \<le> 8"

definition upd_zone :: "u8 \<Rightarrow> (zone_mem \<Rightarrow> zone_mem) \<Rightarrow> nmgr \<Rightarrow> nmgr" where
  "upd_zone z f s = s\<lparr>nm_zone := (nm_zone s)(z := f (nm_zone s z))\<rparr>"

section \<open>Frames\<close>

definition nmgr_node_by_id :: "hg_node list \<Rightarrow> u8 \<Rightarrow> hg_node option" where
  "nmgr_node_by_id tab z = (if z < 1 \<or> z > 8 then None else Some (tab ! (unat z - 1)))"

definition upd_node :: "u8 \<Rightarrow> (hg_node \<Rightarrow> hg_node) \<Rightarrow> nmgr \<Rightarrow> nmgr" where
  "upd_node z f s = s\<lparr>nm_tab := (nm_tab s)[unat z - 1 := f (nm_tab s ! (unat z - 1))]\<rparr>"

definition nmgr_next_seq :: "nmgr \<Rightarrow> nmgr \<times> u16" where
  "nmgr_next_seq s = (let v = nm_seq s + 1 in (s\<lparr>nm_seq := v\<rparr>, v))"

definition nmgr_submit :: "u8 \<Rightarrow> u8 \<Rightarrow> u8 list \<Rightarrow> nmgr \<Rightarrow> nmgr \<times> u16 option" where
  "nmgr_submit dst type payload s =
     (let (s, seq) = nmgr_next_seq s;
          h = \<lparr>h_src = RING_ID_MASTER, h_dst = dst, h_type = type, h_flags = RING_F_ACK_REQ, h_ttl = RING_TTL_INIT,
               h_len = of_nat (length payload), h_seq = seq\<rparr>
      in case ring_trk_submit (nm_trk s) h payload of
           None \<Rightarrow> (s, None)
         | Some t \<Rightarrow> (s\<lparr>nm_trk := t\<rparr>, Some seq))"

definition nmgr_cancel :: "u16 \<Rightarrow> nmgr \<Rightarrow> nmgr" where
  "nmgr_cancel seq s = (case ring_trk_cancel (nm_trk s) seq of None \<Rightarrow> s | Some t \<Rightarrow> s\<lparr>nm_trk := t\<rparr>)"

definition nmgr_send_raw :: "u8 \<Rightarrow> u8 \<Rightarrow> u8 list \<Rightarrow> nmgr \<Rightarrow> nmgr \<times> nm_out list" where
  "nmgr_send_raw dst type payload s =
     (let (s, seq) = nmgr_next_seq s in
      (s, [NmSend \<lparr>h_src = RING_ID_MASTER, h_dst = dst, h_type = type, h_flags = 0, h_ttl = RING_TTL_INIT,
             h_len = of_nat (length payload), h_seq = seq\<rparr> payload]))"

section \<open>The memory of failures\<close>

definition latch_of :: "u8 \<Rightarrow> zone_mem \<Rightarrow> nmgr_latch" where
  "latch_of kind m = (if kind = 1 then zm_latch_cfg m else zm_latch_hw m)"

definition set_latch :: "u8 \<Rightarrow> nmgr_latch \<Rightarrow> zone_mem \<Rightarrow> zone_mem" where
  "set_latch kind l m = (if kind = 1 then m\<lparr>zm_latch_cfg := l\<rparr> else m\<lparr>zm_latch_hw := l\<rparr>)"

definition latch_slot :: "u8 \<Rightarrow> u8 \<Rightarrow> bool" where
  "latch_slot zone kind \<longleftrightarrow> \<not> (zone < 1 \<or> zone > 8 \<or> kind < 1 \<or> kind > 2)"

definition nmgr_cfg_latch_clear :: "u8 \<Rightarrow> nmgr \<Rightarrow> nmgr" where
  "nmgr_cfg_latch_clear zone s =
     (if zone < 1 \<or> zone > 8 then s
      else upd_zone zone (\<lambda>m. m\<lparr>zm_latch_cfg := latch_zero, zm_latch_hw := latch_zero\<rparr>) s)"

definition nmgr_cfg_cooldown_clear :: "u8 \<Rightarrow> nmgr \<Rightarrow> nmgr" where
  "nmgr_cfg_cooldown_clear zone s = (if zone \<ge> 1 \<and> zone \<le> 8 then upd_zone zone (\<lambda>m. m\<lparr>zm_cooldown := 0\<rparr>) s else s)"

text \<open>A signed reading of a difference of clock values: \<open>now\<close> is before \<open>t\<close>.\<close>

definition before :: "u32 \<Rightarrow> u32 \<Rightarrow> bool" where
  "before now t \<longleftrightarrow> sint (now - t) < 0"

definition nmgr_cfg_cooling_down :: "u8 \<Rightarrow> u32 \<Rightarrow> nmgr \<Rightarrow> nmgr \<times> bool" where
  "nmgr_cfg_cooling_down zone now s =
     (if zone < 1 \<or> zone > 8 \<or> zm_cooldown (nm_zone s zone) = 0 then (s, False)
      else if before now (zm_cooldown (nm_zone s zone)) then (s, True)
      else (upd_zone zone (\<lambda>m. m\<lparr>zm_cooldown := 0\<rparr>) s, False))"

definition nmgr_cfg_latched :: "u8 \<Rightarrow> u8 \<Rightarrow> u32 \<Rightarrow> u32 \<Rightarrow> u32 \<Rightarrow> u32 \<Rightarrow> nmgr \<Rightarrow> bool" where
  "nmgr_cfg_latched zone kind hb_gen hb_crc cache_gen cache_crc s \<longleftrightarrow>
     latch_slot zone kind \<and>
     (let l = latch_of kind (nm_zone s zone) in
      la_valid l \<and> la_hb_gen l = hb_gen \<and> la_hb_crc l = hb_crc \<and> la_cache_gen l = cache_gen \<and> la_cache_crc l = cache_crc)"

definition nmgr_cfg_note_synced :: "u8 \<Rightarrow> u8 \<Rightarrow> nmgr \<Rightarrow> nmgr" where
  "nmgr_cfg_note_synced zone kind s =
     (if \<not> latch_slot zone kind then s
      else
        let s = upd_zone zone (set_latch kind latch_zero) s
        in (case nmgr_node_by_id (nm_tab s) zone of
              None \<Rightarrow> s | Some _ \<Rightarrow> upd_node zone (\<lambda>nd. nd\<lparr>nd_cmd_timeouts := 0\<rparr>) s))"

definition nmgr_cfg_note_failed ::
  "u8 \<Rightarrow> u8 \<Rightarrow> bool \<Rightarrow> u32 \<Rightarrow> u32 \<Rightarrow> u32 \<Rightarrow> u32 \<Rightarrow> nmgr \<Rightarrow> nmgr \<times> nm_out list" where
  "nmgr_cfg_note_failed zone kind terminal hb_gen hb_crc cache_gen cache_crc s =
     (if \<not> latch_slot zone kind then (s, [])
      else
        let s = (case nmgr_node_by_id (nm_tab s) zone of
              None \<Rightarrow> s
            | Some _ \<Rightarrow> upd_node zone (\<lambda>nd. if nd_cmd_timeouts nd < 3 then nd\<lparr>nd_cmd_timeouts := 3\<rparr> else nd) s);
            s = (if \<not> terminal then upd_zone zone (\<lambda>m. m\<lparr>zm_cooldown := nm_clock s + CFG_COOLDOWN_MS\<rparr>) s
                 else upd_zone zone (set_latch kind \<lparr>la_valid = True, la_hb_gen = hb_gen, la_hb_crc = hb_crc,
                        la_cache_gen = cache_gen, la_cache_crc = cache_crc\<rparr>) s)
        in (s, [NmNote zone NTF_NODE zone ''CFG_SYNC_FAILED'']))"

definition node_mgr_cfg_sync_failed :: "u8 \<Rightarrow> nmgr \<Rightarrow> bool" where
  "node_mgr_cfg_sync_failed zone s \<longleftrightarrow>
     \<not> (zone < 1 \<or> zone > 8) \<and> (la_valid (zm_latch_cfg (nm_zone s zone)) \<or> la_valid (zm_latch_hw (nm_zone s zone)))"

section \<open>The transfer\<close>

definition cache_of :: "u8 \<Rightarrow> zone_mem \<Rightarrow> nmgr_cache" where
  "cache_of kind m = (if kind = 1 then zm_cfg m else zm_hw m)"

definition set_cache :: "u8 \<Rightarrow> nmgr_cache \<Rightarrow> zone_mem \<Rightarrow> zone_mem" where
  "set_cache kind c m = (if kind = 1 then m\<lparr>zm_cfg := c\<rparr> else m\<lparr>zm_hw := c\<rparr>)"

definition nmgr_cfg_cache :: "u8 \<Rightarrow> u8 \<Rightarrow> nmgr \<Rightarrow> nmgr_cache option" where
  "nmgr_cfg_cache zone kind s =
     (if zone < 1 \<or> zone > 8 then None
      else if kind = 1 \<or> kind = 2 then Some (cache_of kind (nm_zone s zone)) else None)"

definition cache_payload_len :: "u8 \<Rightarrow> nat" where
  "cache_payload_len kind = (if kind = 1 then 336 else 160)"

definition nmgr_cx_init :: "nmgr \<Rightarrow> nmgr" where
  "nmgr_cx_init s = s\<lparr>nm_cx := cx_zero, nm_casm := ring_casm_init\<rparr>"

definition finish_failed :: "bool \<Rightarrow> nmgr \<Rightarrow> nmgr \<times> nm_out list" where
  "finish_failed terminal s =
     (let c = nm_cx s;
          (s, out) = nmgr_cfg_note_failed (cx_zone c) (cx_kind c) terminal
                       (cx_hb_gen c) (cx_hb_crc c) (cx_cache_gen c) (cx_cache_crc c) s
      in (nmgr_cx_init s, out))"

definition nmgr_cx_busy :: "u8 \<Rightarrow> nmgr \<Rightarrow> bool" where
  "nmgr_cx_busy zone s \<longleftrightarrow> cx_st (nm_cx s) \<noteq> CX_IDLE \<and> cx_zone (nm_cx s) = zone"

definition fail_or_retry :: "bool \<Rightarrow> bool \<Rightarrow> nmgr \<Rightarrow> nmgr \<times> nm_out list" where
  "fail_or_retry is_push terminal s =
     (let c = nm_cx s in
      if terminal \<or> cx_attempt c \<ge> 4 then finish_failed terminal s
      else
        let wait = BACKOFF_MS ! (unat (cx_attempt c) - 1)
        in (s\<lparr>nm_cx := c\<lparr>cx_attempt := cx_attempt c + 1, cx_st := (if is_push then CX_RETRY_PUSH else CX_RETRY_PULL),
                        cx_retry_at_ms := nm_clock s + wait\<rparr>\<rparr>, []))"

definition start_pull :: "u8 \<Rightarrow> u8 \<Rightarrow> u8 \<Rightarrow> nmgr \<Rightarrow> nmgr" where
  "start_pull zone kind attempt s =
     (let s = s\<lparr>nm_cx := (nm_cx s)\<lparr>cx_zone := zone, cx_kind := kind, cx_attempt := attempt\<rparr>\<rparr> in
      case nmgr_submit zone RING_T_CFG_GET [kind] s of
        (s, None) \<Rightarrow> s\<lparr>nm_cx := (nm_cx s)\<lparr>cx_st := CX_RETRY_PULL, cx_retry_at_ms := nm_clock s + 1000\<rparr>\<rparr>
      | (s, Some seq) \<Rightarrow> s\<lparr>nm_casm := ring_casm_init, nm_cx := (nm_cx s)\<lparr>cx_st := CX_PULL_ACK, cx_trk_seq := seq\<rparr>\<rparr>)"

text \<open>The plane that was pulled is unwrapped, wrapped again in the layout of the master, and cached.\<close>

definition pull_magic :: "u8 \<Rightarrow> u32 \<times> u16 \<times> u16" where
  "pull_magic kind = (if kind = 1 then (HG_MAGIC_CFG, HG_CFG_VER, HG_CFG_VER_MIN) else (HG_MAGIC_HW, HG_HW_VER, HG_HW_VER_MIN))"

definition cache_store :: "u8 \<Rightarrow> u8 list \<Rightarrow> u32 \<Rightarrow> nmgr_cache \<Rightarrow> nmgr_cache" where
  "cache_store kind plane gen c =
     (let (magic, ver, _) = pull_magic kind;
          blob = (case hg_blob_wrap magic ver gen plane WIRE_MAX of
              None \<Rightarrow> nc_blob c | Some w \<Rightarrow> mem_put (nc_blob c) 0 w)
      in \<lparr>nc_blob = blob, nc_gen = (if kind = 1 then gen else 0),
          nc_crc = hg_crc32 0 (take (cache_payload_len kind) (drop HG_BLOB_HDR_LEN blob)), nc_valid = True\<rparr>)"

definition accept_pull :: "nmgr \<Rightarrow> nmgr \<times> nm_out list" where
  "accept_pull s =
     (let zone = cx_zone (nm_cx s); kind = cx_kind (nm_cx s) in
      case nmgr_cfg_cache zone kind s of
        None \<Rightarrow> finish_failed False s
      | Some c \<Rightarrow>
          let (magic, ver, vmin) = pull_magic kind in
          case hg_blob_unwrap magic ver vmin (take (unat (ca_total (nm_casm s))) (ca_buf (nm_casm s)))
                 (cache_payload_len kind) of
            (rc, None) \<Rightarrow> fail_or_retry False (rc = HG_BLOB_E_VERSION_NEWER) s
          | (rc, Some (plane, gen)) \<Rightarrow>
              let s = upd_zone zone (set_cache kind (cache_store kind plane gen c)) s;
                  s = nmgr_cfg_note_synced zone kind s
              in (nmgr_cx_init s, []))"

text \<open>The bytes of a push, and the chunks of the burst.\<close>

definition push_wire :: "u32 \<Rightarrow> nmgr_cache \<Rightarrow> u8 list option" where
  "push_wire gen c =
     hg_blob_wrap HG_MAGIC_CFG HG_CFG_VER gen
       (cfg_stamp (take 336 (drop HG_BLOB_HDR_LEN (nc_blob c))) gen HG_SRC_MASTER) WIRE_MAX"

fun send_burst :: "u8 \<Rightarrow> u32 \<Rightarrow> u8 list \<Rightarrow> nat list \<Rightarrow> nmgr \<Rightarrow> nmgr \<times> nm_out list" where
  "send_burst zone gen wire [] s = (s, [])"
| "send_burst zone gen wire (i # is) s =
     (case ring_cfg_chunk_build 1 gen wire (of_nat i) (9 + RING_CFG_DATA_MAX) of
        None \<Rightarrow> (s, [])
      | Some payload \<Rightarrow>
          let (s, out) = nmgr_send_raw zone RING_T_CFG_CHUNK payload s;
              (s, outs) = send_burst zone gen wire is s
          in (s, out @ outs))"

definition start_push ::
  "u8 \<Rightarrow> u32 \<Rightarrow> u8 \<Rightarrow> u32 \<Rightarrow> u32 \<Rightarrow> u32 \<Rightarrow> u32 \<Rightarrow> nmgr \<Rightarrow> nmgr \<times> nm_out list" where
  "start_push zone gen attempt hb_gen hb_crc cache_gen cache_crc s =
     (case nmgr_cfg_cache zone 1 s of
        None \<Rightarrow> (s, [])
      | Some c \<Rightarrow>
          let s = (case push_wire gen c of None \<Rightarrow> s | Some w \<Rightarrow> s\<lparr>nm_push_wire := w\<rparr>);
              s = s\<lparr>nm_cx := (nm_cx s)\<lparr>cx_zone := zone, cx_kind := 1, cx_attempt := attempt, cx_push_gen := gen,
                     cx_hb_gen := hb_gen, cx_hb_crc := hb_crc, cx_cache_gen := cache_gen, cx_cache_crc := cache_crc,
                     cx_trk_seq := 0, cx_st := CX_PUSH_COMMIT\<rparr>\<rparr>;
              (s, outs) = send_burst zone gen (nm_push_wire s) [0 ..< ring_cfg_chunk_count (336 + HG_BLOB_HDR_LEN)] s
          in case nmgr_submit zone RING_T_CFG_COMMIT ([1] @ le32_put gen) s of
               (s, None) \<Rightarrow> (s\<lparr>nm_cx := (nm_cx s)\<lparr>cx_st := CX_RETRY_PUSH, cx_retry_at_ms := nm_clock s + 1000\<rparr>\<rparr>, outs)
             | (s, Some seq) \<Rightarrow> (s\<lparr>nm_cx := (nm_cx s)\<lparr>cx_st := CX_PUSH_COMMIT, cx_trk_seq := seq\<rparr>\<rparr>, outs))"

definition accept_push :: "nmgr \<Rightarrow> nmgr" where
  "accept_push s =
     (let zone = cx_zone (nm_cx s) in
      case nmgr_cfg_cache zone 1 s of
        None \<Rightarrow> s\<lparr>nm_cx := cx_zero\<rparr>
      | Some c \<Rightarrow>
          let blob = nm_push_wire s;
              s = upd_zone zone (set_cache 1 \<lparr>nc_blob = blob, nc_gen = cx_push_gen (nm_cx s),
                    nc_crc = hg_crc32 0 (take 336 (drop HG_BLOB_HDR_LEN blob)), nc_valid = True\<rparr>) s;
              s = nmgr_cfg_note_synced zone 1 s
          in s\<lparr>nm_cx := cx_zero\<rparr>)"

definition nmgr_cx_pull :: "u8 \<Rightarrow> u8 \<Rightarrow> u32 \<Rightarrow> u32 \<Rightarrow> u32 \<Rightarrow> u32 \<Rightarrow> nmgr \<Rightarrow> nmgr" where
  "nmgr_cx_pull zone kind hb_gen hb_crc cache_gen cache_crc s =
     start_pull zone kind 1 (s\<lparr>nm_cx := (nm_cx s)\<lparr>cx_hb_gen := hb_gen, cx_hb_crc := hb_crc,
       cx_cache_gen := cache_gen, cx_cache_crc := cache_crc\<rparr>\<rparr>)"

definition nmgr_cx_push :: "u8 \<Rightarrow> u32 \<Rightarrow> u32 \<Rightarrow> u32 \<Rightarrow> u32 \<Rightarrow> u32 \<Rightarrow> nmgr \<Rightarrow> nmgr \<times> nm_out list" where
  "nmgr_cx_push zone gen hb_gen hb_crc cache_gen cache_crc s = start_push zone gen 1 hb_gen hb_crc cache_gen cache_crc s"

definition nmgr_cx_abort :: "u8 \<Rightarrow> nmgr \<Rightarrow> nmgr" where
  "nmgr_cx_abort zone s =
     (if cx_st (nm_cx s) = CX_IDLE \<or> cx_zone (nm_cx s) \<noteq> zone then s
      else nmgr_cx_init (if cx_st (nm_cx s) = CX_PULL_ACK \<or> cx_st (nm_cx s) = CX_PUSH_COMMIT
             then nmgr_cancel (cx_trk_seq (nm_cx s)) s else s))"

text \<open>The result says whether the tick belonged to a transfer.\<close>

definition nmgr_cx_tick_1s :: "u32 \<Rightarrow> nmgr \<Rightarrow> (nmgr \<times> nm_out list) \<times> bool" where
  "nmgr_cx_tick_1s now s =
     (let c = nm_cx s in
      case cx_st c of
        CX_IDLE \<Rightarrow> ((s, []), False)
      | CX_PULL_STREAM \<Rightarrow>
          (if ring_casm_idle_expired (nm_casm s) now then fail_or_retry False False s else (s, []), True)
      | CX_RETRY_PULL \<Rightarrow>
          (if before now (cx_retry_at_ms c) then (s, []) else (start_pull (cx_zone c) (cx_kind c) (cx_attempt c) s, []), True)
      | CX_RETRY_PUSH \<Rightarrow>
          (if before now (cx_retry_at_ms c) then (s, [])
           else start_push (cx_zone c) (cx_push_gen c) (cx_attempt c) (cx_hb_gen c) (cx_hb_crc c) (cx_cache_gen c)
                  (cx_cache_crc c) s, True)
      | _ \<Rightarrow> ((s, []), True))"

definition nmgr_cfg_on_chunk :: "ring_frame \<Rightarrow> u32 \<Rightarrow> nmgr \<Rightarrow> nmgr \<times> nm_out list" where
  "nmgr_cfg_on_chunk f now s =
     (if cx_st (nm_cx s) \<noteq> CX_PULL_STREAM \<or> h_src (f_hdr f) \<noteq> cx_zone (nm_cx s) then (s, [])
      else
        let (a, rc) = ring_casm_feed (casm_fresh now (nm_casm s)) (frame_bytes f) now;
            s = s\<lparr>nm_casm := a\<rparr>
        in case rc of
             CasmComplete \<Rightarrow> accept_pull s
           | CasmRejected \<Rightarrow> fail_or_retry False False s
           | CasmProgress \<Rightarrow> (s, []))"

definition nmgr_cfg_on_ev :: "ring_trk_ev \<Rightarrow> nmgr \<Rightarrow> nmgr \<times> nm_out list" where
  "nmgr_cfg_on_ev ev s =
     (let c = nm_cx s; ok = (ev_kind ev = EV_DONE \<and> ev_status ev = 0) in
      if cx_st c \<noteq> CX_PULL_ACK \<and> cx_st c \<noteq> CX_PUSH_COMMIT then (s, [])
      else if ev_seq ev \<noteq> cx_trk_seq c then (s, [])
      else if cx_st c = CX_PULL_ACK then
        (if ok then (s\<lparr>nm_cx := c\<lparr>cx_st := CX_PULL_STREAM\<rparr>\<rparr>, []) else fail_or_retry False False s)
      else if ok then (accept_push s, [])
      else if ev_kind ev = EV_DONE then
        fail_or_retry True (take 15 (ev_detail ev) = bytes_of ''ERR CFG_VERSION'' \<or>
          take 17 (ev_detail ev) = bytes_of ''ERR INVALID_FIELD'') s
      else fail_or_retry True False s)"

section \<open>The decision\<close>

definition hb_of :: "u8 \<Rightarrow> nmgr \<Rightarrow> u32 \<times> u32" where
  "hb_of zone s =
     (case nmgr_node_by_id (nm_tab s) zone of
        Some nd \<Rightarrow> if nd_used nd then (hb_cfg_gen (nd_hb nd), hb_cfg_crc (nd_hb nd)) else (0, 0)
      | None \<Rightarrow> (0, 0))"

definition push_gen_for :: "u8 \<Rightarrow> nmgr_cache \<Rightarrow> nmgr \<Rightarrow> u32" where
  "push_gen_for zone c s = (let hg = fst (hb_of zone s) in (if hg > nc_gen c then hg else nc_gen c) + 1)"

text \<open>The result says whether something was started.\<close>

definition try_start :: "u8 \<Rightarrow> hg_node \<Rightarrow> nmgr \<Rightarrow> (nmgr \<times> nm_out list) \<times> bool" where
  "try_start zone nd s =
     (let m = nm_zone s zone; cfg = zm_cfg m; hw = zm_hw m; hb = nd_hb nd;
          g = hb_cfg_gen hb; c = hb_cfg_crc hb; h = hb_hw_crc hb in
      if \<not> nc_valid cfg \<and> \<not> nmgr_cfg_latched zone 1 g c (nc_gen cfg) (nc_crc cfg) s then
        ((nmgr_cx_pull zone 1 g c (nc_gen cfg) (nc_crc cfg) s, []), True)
      else if (\<not> nc_valid hw \<or> h \<noteq> nc_crc hw) \<and> \<not> nmgr_cfg_latched zone 2 0 h 0 (nc_crc hw) s then
        ((nmgr_cx_pull zone 2 0 h 0 (nc_crc hw) s, []), True)
      else if \<not> nc_valid cfg then ((s, []), False)
      else if g = nc_gen cfg \<and> c = nc_crc cfg then ((s, []), False)
      else if nmgr_cfg_latched zone 1 g c (nc_gen cfg) (nc_crc cfg) s then ((s, []), False)
      else
        let new_gen = push_gen_for zone cfg s;
            note = (if g = nc_gen cfg then [NmNote zone NTF_NODE zone ''CFG_FORK'']
                    else if g > nc_gen cfg then [NmNote zone NTF_NODE zone (''CFG_REVERTED '' @ show_dec (unat new_gen))]
                    else []);
            (s, out) = nmgr_cx_push zone new_gen g c (nc_gen cfg) (nc_crc cfg) s
        in ((s, note @ out), True))"

definition zone_mem_zero :: zone_mem where
  "zone_mem_zero = \<lparr>zm_cfg = cache_zero, zm_hw = cache_zero, zm_fresh = False, zm_set_req = None,
     zm_latch_cfg = latch_zero, zm_latch_hw = latch_zero, zm_cooldown = 0\<rparr>"

text \<open>
  \<open>nmgr_cfg_init\<close> clears the caches, the flags, the failure memory and the inbox of every zone (the
  payload of an empty inbox slot is not modelled), not the two request words.
\<close>

definition nmgr_cfg_init :: "nmgr \<Rightarrow> nmgr" where
  "nmgr_cfg_init s = nmgr_cx_init (s\<lparr>nm_zone := (\<lambda>_. zone_mem_zero), nm_rr_next := 1\<rparr>)"

definition nmgr_cfg_drop_set_req :: "u8 \<Rightarrow> nmgr \<Rightarrow> nmgr" where
  "nmgr_cfg_drop_set_req zone s = (if zone < 1 \<or> zone > 8 then s else upd_zone zone (\<lambda>m. m\<lparr>zm_set_req := None\<rparr>) s)"

definition nmgr_cfg_invalidate :: "u8 \<Rightarrow> nmgr \<Rightarrow> nmgr" where
  "nmgr_cfg_invalidate zone s =
     (if zone < 1 \<or> zone > 8 then s
      else nmgr_cx_abort zone (nmgr_cfg_cooldown_clear zone (nmgr_cfg_latch_clear zone
             (upd_zone zone (\<lambda>m. m\<lparr>zm_cfg := cache_zero, zm_hw := cache_zero\<rparr>) s))))"

definition nmgr_cfg_clear :: "u8 \<Rightarrow> nmgr \<Rightarrow> nmgr" where
  "nmgr_cfg_clear zone s =
     (if zone < 1 \<or> zone > 8 then s
      else nmgr_cfg_drop_set_req zone (upd_zone zone (\<lambda>m. m\<lparr>zm_fresh := False\<rparr>) (nmgr_cfg_invalidate zone s)))"

definition nmgr_cfg_request_clear :: "u8 \<Rightarrow> nmgr \<Rightarrow> nmgr" where
  "nmgr_cfg_request_clear zone s =
     (if zone < 1 \<or> zone > 8 then s else s\<lparr>nm_clear_mask := nm_clear_mask s OR push_bit (unat zone - 1) 1\<rparr>)"

definition nmgr_cfg_note_fresh_hb :: "u8 \<Rightarrow> nmgr \<Rightarrow> nmgr" where
  "nmgr_cfg_note_fresh_hb zone s = (if zone \<ge> 1 \<and> zone \<le> 8 then upd_zone zone (\<lambda>m. m\<lparr>zm_fresh := True\<rparr>) s else s)"

definition start_set_req :: "u8 \<Rightarrow> hg_zone_cfg \<Rightarrow> nmgr \<Rightarrow> nmgr \<times> nm_out list" where
  "start_set_req zone want s =
     (let c = zm_cfg (nm_zone s zone);
          (hb_gen, hb_crc) = hb_of zone s;
          new_gen = push_gen_for zone c s;
          work = cfg_stamp want new_gen HG_SRC_MASTER;
          blob = (case hg_blob_wrap HG_MAGIC_CFG HG_CFG_VER new_gen work WIRE_MAX of
              None \<Rightarrow> nc_blob c | Some w \<Rightarrow> mem_put (nc_blob c) 0 w);
          crc = hg_crc32 0 (take 336 (drop HG_BLOB_HDR_LEN blob));
          s = upd_zone zone (\<lambda>m. m\<lparr>zm_cfg := \<lparr>nc_blob = blob, nc_gen = new_gen, nc_crc = crc, nc_valid = True\<rparr>\<rparr>) s
      in nmgr_cx_push zone new_gen hb_gen hb_crc new_gen crc (nmgr_cfg_cooldown_clear zone s))"

text \<open>The write inbox: one slot for each zone, taken in the order of the ids.\<close>

definition zone_ids :: "u8 list" where "zone_ids = [1, 2, 3, 4, 5, 6, 7, 8]"

definition nmgr_cfg_req_pending :: "u8 \<Rightarrow> nmgr \<Rightarrow> bool" where
  "nmgr_cfg_req_pending zone s \<longleftrightarrow> \<not> (zone < 1 \<or> zone > 8) \<and> zm_set_req (nm_zone s zone) \<noteq> None"

definition nmgr_cfg_take_set_req :: "nmgr \<Rightarrow> nmgr \<times> (u8 \<times> hg_zone_cfg) option" where
  "nmgr_cfg_take_set_req s =
     (case find (\<lambda>z. zm_set_req (nm_zone s z) \<noteq> None) zone_ids of
        None \<Rightarrow> (s, None)
      | Some z \<Rightarrow> (upd_zone z (\<lambda>m. m\<lparr>zm_set_req := None\<rparr>) s, Some (z, the (zm_set_req (nm_zone s z)))))"

text \<open>
  The scan for the next decision. The start of the scan is read anew in every round, as in the code,
  and a decision moves it.
\<close>

definition rr_id :: "nmgr \<Rightarrow> nat \<Rightarrow> u8" where
  "rr_id s i = of_nat ((unat (nm_rr_next s) - 1 + i) mod 8 + 1)"

fun rr_scan :: "u32 \<Rightarrow> nat list \<Rightarrow> nmgr \<Rightarrow> nmgr \<times> nm_out list" where
  "rr_scan now [] s = (s, [])"
| "rr_scan now (i # is) s =
     (let id = rr_id s i in
      if \<not> zm_fresh (nm_zone s id) then rr_scan now is s
      else
        let s = upd_zone id (\<lambda>m. m\<lparr>zm_fresh := False\<rparr>) s in
        case nmgr_node_by_id (nm_tab s) id of
          None \<Rightarrow> rr_scan now is s
        | Some nd \<Rightarrow>
            if \<not> nd_used nd then rr_scan now is s
            else if nd_health nd = NODE_H_OFFLINE \<or> nd_health nd = NODE_H_UPDATING then rr_scan now is s
            else
              let (s, cooling) = nmgr_cfg_cooling_down id now s in
              if cooling then rr_scan now is s
              else
                let s = s\<lparr>nm_rr_next := of_nat (unat id mod 8 + 1)\<rparr>;
                    ((s, out), started) = try_start id nd s
                in if started then (s, out)
                   else let (s, outs) = rr_scan now is s in (s, out @ outs))"

definition clear_marked :: "u8 \<Rightarrow> nmgr \<Rightarrow> nmgr" where
  "clear_marked marks s = fold (\<lambda>id s. if marks AND push_bit (unat id - 1) 1 \<noteq> 0 then nmgr_cfg_clear id s else s) zone_ids s"

definition nmgr_cfg_tick_1s :: "u32 \<Rightarrow> nmgr \<Rightarrow> nmgr \<times> nm_out list" where
  "nmgr_cfg_tick_1s now s =
     (let marks = nm_clear_mask s; push_zone = nm_push_req s;
          s = s\<lparr>nm_clear_mask := 0, nm_push_req := 0\<rparr>;
          s = clear_marked marks s;
          ((s, out), busy) = nmgr_cx_tick_1s now s
      in if busy then (s, out)
         else
           let (s, req) = nmgr_cfg_take_set_req s in
           case req of
             Some (z, want) \<Rightarrow> start_set_req z want s
           | None \<Rightarrow>
               if push_zone \<noteq> 0 \<and> nc_valid (zm_cfg (nm_zone s push_zone)) then
                 let cfg = zm_cfg (nm_zone s push_zone);
                     (hb_gen, hb_crc) = hb_of push_zone s
                 in nmgr_cx_push push_zone (push_gen_for push_zone cfg s) hb_gen hb_crc (nc_gen cfg) (nc_crc cfg) s
               else rr_scan now [0 ..< 8] s)"

section \<open>The interface for other tasks\<close>

definition node_mgr_push_cfg :: "u8 \<Rightarrow> nmgr \<Rightarrow> nmgr \<times> int" where
  "node_mgr_push_cfg zone s =
     (if zone < 1 \<or> zone > 8 then (s, -1)
      else if \<not> nc_valid (zm_cfg (nm_zone s zone)) then (s, -1)
      else (s\<lparr>nm_push_req := zone\<rparr>, 0))"

text \<open>The logical plane with its generation, and the hardware plane if it is there.\<close>

definition node_mgr_cfg_get :: "u8 \<Rightarrow> nmgr \<Rightarrow> (hg_zone_cfg \<times> u32 \<times> hg_zone_hw option) option" where
  "node_mgr_cfg_get zone s =
     (if zone < 1 \<or> zone > 8 then None
      else
        let c = zm_cfg (nm_zone s zone); h = zm_hw (nm_zone s zone) in
        if \<not> nc_valid c then None
        else case hg_blob_unwrap HG_MAGIC_CFG HG_CFG_VER HG_CFG_VER_MIN (nc_blob c) 336 of
            (_, None) \<Rightarrow> None
          | (_, Some (cfg, gen)) \<Rightarrow>
              Some (cfg, gen,
                if \<not> nc_valid h then None
                else map_option fst (snd (hg_blob_unwrap HG_MAGIC_HW HG_HW_VER HG_HW_VER_MIN
                       (take (HG_BLOB_HDR_LEN + 160) (nc_blob h)) 160))))"

definition node_mgr_cfg_busy :: "u8 \<Rightarrow> nmgr \<Rightarrow> bool" where
  "node_mgr_cfg_busy zone s \<longleftrightarrow> \<not> (zone < 1 \<or> zone > 8) \<and> (nmgr_cfg_req_pending zone s \<or> nmgr_cx_busy zone s)"

definition node_mgr_cfg_set :: "u8 \<Rightarrow> hg_zone_cfg \<Rightarrow> nmgr \<Rightarrow> nmgr \<times> int" where
  "node_mgr_cfg_set zone cfg s =
     (if zone < 1 \<or> zone > 8 then (s, -1)
      else case nmgr_node_by_id (nm_tab s) zone of
        None \<Rightarrow> (s, -1)
      | Some nd \<Rightarrow>
          if \<not> nd_used nd then (s, -1)
          else if nd_health nd \<noteq> NODE_H_ONLINE then (s, -3)
          else if nmgr_cx_busy zone s then (s, -2)
          else if zm_set_req (nm_zone s zone) = None then (upd_zone zone (\<lambda>m. m\<lparr>zm_set_req := Some cfg\<rparr>) s, 0)
          else (s, -2))"

section \<open>The invariant\<close>

text \<open>A valid cache is a whole envelope around a plane, with its generation and checksum.\<close>

definition holds_plane :: "u8 \<Rightarrow> nmgr_cache \<Rightarrow> u8 list \<Rightarrow> u32 \<Rightarrow> bool" where
  "holds_plane kind c plane gen \<longleftrightarrow>
     nc_valid c \<and> length plane = cache_payload_len kind \<and>
     (\<exists>w xs. hg_blob_wrap (fst (pull_magic kind)) (fst (snd (pull_magic kind))) gen plane WIRE_MAX = Some w \<and> nc_blob c = w @ xs) \<and>
     nc_gen c = (if kind = 1 then gen else 0) \<and> nc_crc c = hg_crc32 0 plane"

definition cache_ok :: "u8 \<Rightarrow> nmgr_cache \<Rightarrow> bool" where
  "cache_ok kind c \<longleftrightarrow> length (nc_blob c) = WIRE_MAX \<and> (nc_valid c \<longrightarrow> (\<exists>plane gen. holds_plane kind c plane gen))"

definition mem_ok :: "zone_mem \<Rightarrow> bool" where
  "mem_ok m \<longleftrightarrow> cache_ok 1 (zm_cfg m) \<and> cache_ok 2 (zm_hw m) \<and> (\<forall>c. zm_set_req m = Some c \<longrightarrow> length c = 336)"

text \<open>The transfer slot: a push is of the logical plane, and its bytes are in the push buffer.\<close>

definition is_push_wire :: "u8 list \<Rightarrow> u32 \<Rightarrow> u8 list \<Rightarrow> bool" where
  "is_push_wire wire gen plane \<longleftrightarrow>
     length plane = 336 \<and> cfg_generation plane = gen \<and> hg_blob_wrap HG_MAGIC_CFG HG_CFG_VER gen plane WIRE_MAX = Some wire"

definition cx_ok :: "u8 list \<Rightarrow> cx \<Rightarrow> bool" where
  "cx_ok wire c \<longleftrightarrow>
     cx_st c = CX_IDLE \<or>
     zone_id_ok (cx_zone c) \<and> (cx_kind c = 1 \<or> cx_kind c = 2) \<and> 1 \<le> cx_attempt c \<and> cx_attempt c \<le> 4 \<and>
     (cx_st c = CX_PUSH_COMMIT \<or> cx_st c = CX_RETRY_PUSH \<longrightarrow>
        cx_kind c = 1 \<and> (\<exists>plane. is_push_wire wire (cx_push_gen c) plane))"

definition nm_ok :: "nmgr \<Rightarrow> bool" where
  "nm_ok s \<longleftrightarrow>
     length (nm_tab s) = 8 \<and> (\<forall>z. mem_ok (nm_zone s z)) \<and> cx_ok (nm_push_wire s) (nm_cx s) \<and>
     1 \<le> nm_rr_next s \<and> nm_rr_next s \<le> 8 \<and> nm_push_req s \<le> 8"

lemma payload_len_simps [simp]: "cache_payload_len 1 = 336" "cache_payload_len 2 = 160"
  by (simp_all add: cache_payload_len_def)

lemma payload_len_le: "cache_payload_len kind \<le> 336"
  by (simp add: cache_payload_len_def)

lemma wrap_ok:
  assumes "length plane \<le> 336"
  obtains w where "hg_blob_wrap magic ver gen plane WIRE_MAX = Some w" "length w = 16 + length plane" "drop HG_BLOB_HDR_LEN w = plane"
proof -
  let ?hdr = "le32_put magic @ le16_put ver @ le16_put (of_nat (length plane)) @ le32_put gen"
  let ?w = "?hdr @ le32_put (hg_crc32 (hg_crc32 0 ?hdr) plane) @ plane"
  have "hg_blob_wrap magic ver gen plane WIRE_MAX = Some ?w"
    using assms by (simp add: hg_blob_wrap_def WIRE_MAX_def HG_BLOB_HDR_LEN_def Let_def)
  moreover have "length ?w = 16 + length plane" "drop HG_BLOB_HDR_LEN ?w = plane"
    by (simp_all add: HG_BLOB_HDR_LEN_def length_le_put)
  ultimately show thesis by (rule that)
qed

lemma cache_store_holds:
  assumes "length (nc_blob c) = WIRE_MAX" "length plane = cache_payload_len kind"
  shows "holds_plane kind (cache_store kind plane gen c) plane gen" "length (nc_blob (cache_store kind plane gen c)) = WIRE_MAX"
proof -
  have l: "length plane \<le> 336" using assms(2) payload_len_le by simp
  obtain magic ver vmin where m: "pull_magic kind = (magic, ver, vmin)" by (metis prod_cases3)
  obtain w where w: "hg_blob_wrap magic ver gen plane WIRE_MAX = Some w" "length w = 16 + length plane"
    "drop HG_BLOB_HDR_LEN w = plane" by (rule wrap_ok [OF l])
  have b: "mem_put (nc_blob c) 0 w = w @ drop (length w) (nc_blob c)" by (simp add: mem_put_def)
  have d: "take (length plane) (drop HG_BLOB_HDR_LEN (w @ ys)) = plane" for ys
    using w(2,3) by (simp add: HG_BLOB_HDR_LEN_def)
  have c: "cache_store kind plane gen c = \<lparr>nc_blob = w @ drop (length w) (nc_blob c),
      nc_gen = (if kind = 1 then gen else 0), nc_crc = hg_crc32 0 plane, nc_valid = True\<rparr>"
    by (simp only: cache_store_def m w(1) split_conv Let_def option.case b d assms(2) [symmetric])
  show "holds_plane kind (cache_store kind plane gen c) plane gen" "length (nc_blob (cache_store kind plane gen c)) = WIRE_MAX"
    using assms l w(1,2) by (auto simp: c holds_plane_def m WIRE_MAX_def HG_BLOB_HDR_LEN_def)
qed

lemma upd_zone_simps [simp]:
  "nm_zone (upd_zone z f s) = (nm_zone s)(z := f (nm_zone s z))" "nm_tab (upd_zone z f s) = nm_tab s"
  "nm_trk (upd_zone z f s) = nm_trk s" "nm_seq (upd_zone z f s) = nm_seq s" "nm_clock (upd_zone z f s) = nm_clock s"
  "nm_rr_next (upd_zone z f s) = nm_rr_next s" "nm_push_req (upd_zone z f s) = nm_push_req s"
  "nm_clear_mask (upd_zone z f s) = nm_clear_mask s" "nm_cx (upd_zone z f s) = nm_cx s"
  "nm_casm (upd_zone z f s) = nm_casm s" "nm_push_wire (upd_zone z f s) = nm_push_wire s"
  by (simp_all add: upd_zone_def)

lemma upd_node_simps [simp]:
  "nm_zone (upd_node z g s) = nm_zone s" "length (nm_tab (upd_node z g s)) = length (nm_tab s)"
  "nm_trk (upd_node z g s) = nm_trk s" "nm_seq (upd_node z g s) = nm_seq s" "nm_clock (upd_node z g s) = nm_clock s"
  "nm_rr_next (upd_node z g s) = nm_rr_next s" "nm_push_req (upd_node z g s) = nm_push_req s"
  "nm_clear_mask (upd_node z g s) = nm_clear_mask s" "nm_cx (upd_node z g s) = nm_cx s"
  "nm_casm (upd_node z g s) = nm_casm s" "nm_push_wire (upd_node z g s) = nm_push_wire s"
  by (simp_all add: upd_node_def)

text \<open>Frames change the tracker and the sequence number, and nothing else.\<close>

definition same_but_frames :: "nmgr \<Rightarrow> nmgr \<Rightarrow> bool" where
  "same_but_frames s s' \<longleftrightarrow> s' = s\<lparr>nm_trk := nm_trk s', nm_seq := nm_seq s'\<rparr>"

lemma same_but_frames_simps:
  assumes "same_but_frames s s'"
  shows "nm_zone s' = nm_zone s" "nm_tab s' = nm_tab s" "nm_clock s' = nm_clock s" "nm_rr_next s' = nm_rr_next s"
    "nm_push_req s' = nm_push_req s" "nm_clear_mask s' = nm_clear_mask s" "nm_cx s' = nm_cx s" "nm_casm s' = nm_casm s"
    "nm_push_wire s' = nm_push_wire s"
  using assms by (cases s; cases s'; simp add: same_but_frames_def)+

lemma same_but_frames_refl [simp]: "same_but_frames s s"
  by (simp add: same_but_frames_def)

lemma same_but_frames_trans: "same_but_frames a b \<Longrightarrow> same_but_frames b c \<Longrightarrow> same_but_frames a c"
  unfolding same_but_frames_def by (cases a; cases b; cases c) simp

lemma submit_frames: "same_but_frames s (fst (nmgr_submit dst type p s))"
  by (simp add: nmgr_submit_def nmgr_next_seq_def same_but_frames_def Let_def split: option.split)

lemma cancel_frames: "same_but_frames s (nmgr_cancel seq s)"
  by (simp add: nmgr_cancel_def same_but_frames_def split: option.split)

lemma burst_frames: "same_but_frames s (fst (send_burst zone gen wire is s))"
proof (induction "is" arbitrary: s)
  case (Cons i "is")
  show ?case
  proof (cases "ring_cfg_chunk_build 1 gen wire (of_nat i) (9 + RING_CFG_DATA_MAX)")
    case (Some p)
    let ?s = "fst (nmgr_send_raw zone RING_T_CFG_CHUNK p s)"
    have "same_but_frames s ?s" by (simp add: nmgr_send_raw_def nmgr_next_seq_def same_but_frames_def Let_def)
    with Cons.IH [of ?s] show ?thesis by (auto simp: Some split_def Let_def intro: same_but_frames_trans)
  qed simp
qed simp

lemma nm_ok_frames: "same_but_frames s s' \<Longrightarrow> nm_ok s' \<longleftrightarrow> nm_ok s"
  by (simp add: nm_ok_def same_but_frames_simps)

lemma nm_ok_upd_zone: "nm_ok s \<Longrightarrow> (mem_ok (nm_zone s z) \<Longrightarrow> mem_ok (f (nm_zone s z))) \<Longrightarrow> nm_ok (upd_zone z f s)"
  by (simp add: nm_ok_def)

lemma nm_ok_upd_node: "nm_ok s \<Longrightarrow> nm_ok (upd_node z f s)"
  by (simp add: nm_ok_def)

lemma mem_ok_other [simp]:
  "mem_ok (m\<lparr>zm_fresh := b\<rparr>) = mem_ok m" "mem_ok (m\<lparr>zm_latch_cfg := l\<rparr>) = mem_ok m" "mem_ok (m\<lparr>zm_latch_hw := l\<rparr>) = mem_ok m"
  "mem_ok (m\<lparr>zm_cooldown := t\<rparr>) = mem_ok m" "mem_ok (set_latch kind l m) = mem_ok m"
  by (simp_all add: mem_ok_def set_latch_def)

lemma cache_zero_ok [simp]: "cache_ok kind cache_zero"
  by (simp add: cache_ok_def cache_zero_def)

lemma cx_zero_ok [simp]: "cx_ok wire cx_zero"
  by (simp add: cx_ok_def cx_zero_def)

lemma nm_ok_cx: "nm_ok s \<Longrightarrow> cx_ok (nm_push_wire s) c \<Longrightarrow> nm_ok (s\<lparr>nm_cx := c\<rparr>)"
  by (simp add: nm_ok_def)

lemma nm_ok_casm [simp]: "nm_ok (s\<lparr>nm_casm := a\<rparr>) = nm_ok s"
  by (simp add: nm_ok_def)

lemma nm_ok_cx_init: "nm_ok s \<Longrightarrow> nm_ok (nmgr_cx_init s)"
  by (simp add: nmgr_cx_init_def nm_ok_def)

lemma note_synced_ok: "nm_ok s \<Longrightarrow> nm_ok (nmgr_cfg_note_synced zone kind s)"
  by (auto simp: nmgr_cfg_note_synced_def Let_def intro!: nm_ok_upd_zone nm_ok_upd_node split: option.split)

lemma note_failed_ok: "nm_ok s \<Longrightarrow> nm_ok (fst (nmgr_cfg_note_failed zone kind terminal a b c d s))"
  by (auto simp: nmgr_cfg_note_failed_def Let_def intro!: nm_ok_upd_zone nm_ok_upd_node split: option.split)

lemma note_failed_out: "snd (nmgr_cfg_note_failed zone kind terminal a b c d s) =
    (if latch_slot zone kind then [NmNote zone NTF_NODE zone ''CFG_SYNC_FAILED''] else [])"
  by (simp add: nmgr_cfg_note_failed_def Let_def)

lemma finish_failed_ok: "nm_ok s \<Longrightarrow> nm_ok (fst (finish_failed terminal s))"
  by (simp add: finish_failed_def Let_def split_def nm_ok_cx_init note_failed_ok)

lemma fail_or_retry_ok:
  assumes "nm_ok s" "cx_st (nm_cx s) \<noteq> CX_IDLE" "is_push \<Longrightarrow> cx_st (nm_cx s) = CX_PUSH_COMMIT"
  shows "nm_ok (fst (fail_or_retry is_push terminal s))"
proof (cases "terminal \<or> cx_attempt (nm_cx s) \<ge> 4")
  case True
  then show ?thesis by (simp add: fail_or_retry_def finish_failed_ok assms(1))
next
  case False
  then have a: "cx_attempt (nm_cx s) < 4" by (simp add: linorder_not_le)
  then have "1 \<le> cx_attempt (nm_cx s) + 1 \<and> cx_attempt (nm_cx s) + 1 \<le> 4"
    using assms(1,2) by (auto simp: nm_ok_def cx_ok_def word_le_nat_alt word_less_nat_alt unat_word_ariths)
  then show ?thesis using False assms
    by (auto simp: fail_or_retry_def Let_def cx_ok_def nm_ok_def)
qed

lemma start_pull_ok:
  assumes "nm_ok s" "zone_id_ok zone" "kind = 1 \<or> kind = 2" "1 \<le> attempt" "attempt \<le> 4"
  shows "nm_ok (start_pull zone kind attempt s)"
proof -
  let ?s = "s\<lparr>nm_cx := (nm_cx s)\<lparr>cx_zone := zone, cx_kind := kind, cx_attempt := attempt\<rparr>\<rparr>"
  obtain s' r where r: "nmgr_submit zone RING_T_CFG_GET [kind] ?s = (s', r)" by (metis surj_pair)
  then have f: "same_but_frames ?s s'" using submit_frames by (metis fst_conv)
  have "nm_ok (s\<lparr>nm_cx := cx_zero\<rparr>)" using assms(1) by (simp add: nm_ok_cx)
  then show ?thesis
    using assms(2-5) by (cases r) (simp_all add: start_pull_def r nm_ok_def cx_ok_def same_but_frames_simps [OF f])
qed

lemma push_wire_ok:
  assumes "length (nc_blob c) = WIRE_MAX"
  obtains plane w where "push_wire gen c = Some w" "is_push_wire w gen plane" "length w = WIRE_MAX"
    "plane = cfg_stamp (take 336 (drop HG_BLOB_HDR_LEN (nc_blob c))) gen HG_SRC_MASTER"
proof -
  let ?p = "cfg_stamp (take 336 (drop HG_BLOB_HDR_LEN (nc_blob c))) gen HG_SRC_MASTER"
  have l: "length (take 336 (drop HG_BLOB_HDR_LEN (nc_blob c))) = 336"
    using assms by (simp add: WIRE_MAX_def HG_BLOB_HDR_LEN_def)
  note st = cfg_stamp_facts [OF l]
  obtain w where w: "hg_blob_wrap HG_MAGIC_CFG HG_CFG_VER gen ?p WIRE_MAX = Some w" "length w = 16 + length ?p"
    by (rule wrap_ok [of ?p]) (use st(1) in simp)
  show thesis
    by (rule that [of w ?p]) (use w st in \<open>simp_all add: push_wire_def is_push_wire_def WIRE_MAX_def HG_BLOB_HDR_LEN_def\<close>)
qed

text \<open>What a push does: it takes the slot, sends the burst of the stamped plane and submits the commit.\<close>

lemma start_push_cases:
  assumes "nm_ok s" "zone_id_ok zone"
  defines "c \<equiv> zm_cfg (nm_zone s zone)"
  obtains w plane s' r where "push_wire gen c = Some w" "is_push_wire w gen plane" "length w = WIRE_MAX"
    "plane = cfg_stamp (take 336 (drop HG_BLOB_HDR_LEN (nc_blob c))) gen HG_SRC_MASTER"
    "fst (start_push zone gen attempt a b d e s) = s'"
    "same_but_frames (s\<lparr>nm_push_wire := w, nm_cx := nm_cx s'\<rparr>) s'"
    "snd (start_push zone gen attempt a b d e s) =
       snd (send_burst zone gen w [0 ..< 4] (s\<lparr>nm_push_wire := w, nm_cx := (nm_cx s)\<lparr>cx_zone := zone, cx_kind := 1,
         cx_attempt := attempt, cx_push_gen := gen, cx_hb_gen := a, cx_hb_crc := b, cx_cache_gen := d, cx_cache_crc := e,
         cx_trk_seq := 0, cx_st := CX_PUSH_COMMIT\<rparr>\<rparr>))"
    "cx_st (nm_cx s') = CX_PUSH_COMMIT \<or> cx_st (nm_cx s') = CX_RETRY_PUSH"
    "cx_zone (nm_cx s') = zone" "cx_kind (nm_cx s') = 1" "cx_attempt (nm_cx s') = attempt" "cx_push_gen (nm_cx s') = gen"
    "cx_hb_gen (nm_cx s') = a" "cx_hb_crc (nm_cx s') = b" "cx_cache_gen (nm_cx s') = d" "cx_cache_crc (nm_cx s') = e"
proof -
  have l: "length (nc_blob c) = WIRE_MAX" using assms(1) by (simp add: nm_ok_def mem_ok_def cache_ok_def c_def)
  obtain plane w where w: "push_wire gen c = Some w" "is_push_wire w gen plane" "length w = WIRE_MAX"
    "plane = cfg_stamp (take 336 (drop HG_BLOB_HDR_LEN (nc_blob c))) gen HG_SRC_MASTER" by (rule push_wire_ok [OF l])
  let ?s = "s\<lparr>nm_push_wire := w, nm_cx := (nm_cx s)\<lparr>cx_zone := zone, cx_kind := 1, cx_attempt := attempt, cx_push_gen := gen,
     cx_hb_gen := a, cx_hb_crc := b, cx_cache_gen := d, cx_cache_crc := e, cx_trk_seq := 0, cx_st := CX_PUSH_COMMIT\<rparr>\<rparr>"
  have cnt: "ring_cfg_chunk_count (336 + HG_BLOB_HDR_LEN) = 4"
    by (simp add: ring_cfg_chunk_count_def cfg_consts HG_BLOB_HDR_LEN_def)
  have cache: "nmgr_cfg_cache zone 1 s = Some c" using assms(2) by (simp add: nmgr_cfg_cache_def cache_of_def c_def word_less_nat_alt word_le_nat_alt)
  obtain s1 outs where b: "send_burst zone gen w [0 ..< 4] ?s = (s1, outs)" by (metis surj_pair)
  obtain s2 r where r: "nmgr_submit zone RING_T_CFG_COMMIT ([1] @ le32_put gen) s1 = (s2, r)" by (metis surj_pair)
  have f: "same_but_frames ?s s2"
    using burst_frames [of ?s zone gen w "[0 ..< 4]"] submit_frames [of s1 zone RING_T_CFG_COMMIT "[1] @ le32_put gen"]
    unfolding b r by (auto intro: same_but_frames_trans)
  note f' = same_but_frames_simps [OF f]
  have sp: "start_push zone gen attempt a b d e s = (case r of
      None \<Rightarrow> (s2\<lparr>nm_cx := (nm_cx s2)\<lparr>cx_st := CX_RETRY_PUSH, cx_retry_at_ms := nm_clock s2 + 1000\<rparr>\<rparr>, outs)
    | Some seq \<Rightarrow> (s2\<lparr>nm_cx := (nm_cx s2)\<lparr>cx_st := CX_PUSH_COMMIT, cx_trk_seq := seq\<rparr>\<rparr>, outs))"
    using b r by (simp add: start_push_def cache w(1) cnt Let_def split_def split: option.split)
  show thesis
    by (rule that [OF w refl])
      (use f' f b in \<open>auto simp: sp same_but_frames_def split: option.splits\<close>)
qed


lemma is_push_wire_facts:
  assumes "is_push_wire w gen plane"
  shows "length w = WIRE_MAX" "holds_plane 1 \<lparr>nc_blob = w, nc_gen = gen,
    nc_crc = hg_crc32 0 (take 336 (drop HG_BLOB_HDR_LEN w)), nc_valid = True\<rparr> plane gen"
proof -
  have l: "length plane = 336" "hg_blob_wrap HG_MAGIC_CFG HG_CFG_VER gen plane WIRE_MAX = Some w"
    using assms by (simp_all add: is_push_wire_def)
  obtain w' where "hg_blob_wrap HG_MAGIC_CFG HG_CFG_VER gen plane WIRE_MAX = Some w'" "length w' = 16 + length plane"
    "drop HG_BLOB_HDR_LEN w' = plane" by (rule wrap_ok [of plane]) (simp add: l(1))
  then show "length w = WIRE_MAX" "holds_plane 1 \<lparr>nc_blob = w, nc_gen = gen,
    nc_crc = hg_crc32 0 (take 336 (drop HG_BLOB_HDR_LEN w)), nc_valid = True\<rparr> plane gen"
    using l by (simp_all add: WIRE_MAX_def HG_BLOB_HDR_LEN_def holds_plane_def pull_magic_def)
qed

lemma start_push_ok:
  assumes "nm_ok s" "zone_id_ok zone" "1 \<le> attempt" "attempt \<le> 4"
  shows "nm_ok (fst (start_push zone gen attempt a b d e s))"
proof -
  obtain w plane s' where w: "is_push_wire w gen plane" and s': "fst (start_push zone gen attempt a b d e s) = s'"
    and f: "same_but_frames (s\<lparr>nm_push_wire := w, nm_cx := nm_cx s'\<rparr>) s'"
    and c: "cx_zone (nm_cx s') = zone" "cx_kind (nm_cx s') = 1" "cx_attempt (nm_cx s') = attempt" "cx_push_gen (nm_cx s') = gen"
    by (rule start_push_cases [OF assms(1,2)])
  have "cx_ok w (nm_cx s')" unfolding cx_ok_def using assms(2-4) w by (auto simp: c)
  then have "nm_ok (s\<lparr>nm_push_wire := w, nm_cx := nm_cx s'\<rparr>)" using assms(1) by (simp add: nm_ok_def)
  then show ?thesis using nm_ok_frames [OF f] by (simp add: s')
qed

lemma cfg_cache_cases:
  assumes "zone_id_ok zone" "kind = 1 \<or> kind = 2"
  shows "nmgr_cfg_cache zone kind s = Some (cache_of kind (nm_zone s zone))"
  using assms by (auto simp: nmgr_cfg_cache_def word_less_nat_alt word_le_nat_alt)

lemma set_cache_ok:
  assumes "mem_ok m" "kind = 1 \<or> kind = 2" "cache_ok kind c"
  shows "mem_ok (set_cache kind c m)"
  using assms by (auto simp: mem_ok_def set_cache_def)

lemma accept_push_ok:
  assumes "nm_ok s" "cx_st (nm_cx s) = CX_PUSH_COMMIT"
  shows "nm_ok (accept_push s)"
proof -
  let ?c = "nm_cx s"
  have z: "zone_id_ok (cx_zone ?c)" and p: "\<exists>plane. is_push_wire (nm_push_wire s) (cx_push_gen ?c) plane"
    using assms by (auto simp: nm_ok_def cx_ok_def)
  obtain plane where w: "is_push_wire (nm_push_wire s) (cx_push_gen ?c) plane" using p by blast
  let ?n = "\<lparr>nc_blob = nm_push_wire s, nc_gen = cx_push_gen ?c,
    nc_crc = hg_crc32 0 (take 336 (drop HG_BLOB_HDR_LEN (nm_push_wire s))), nc_valid = True\<rparr>"
  have "cache_ok 1 ?n" using is_push_wire_facts [OF w] by (auto simp: cache_ok_def)
  then have "nm_ok (upd_zone (cx_zone ?c) (set_cache 1 ?n) s)"
    by (intro nm_ok_upd_zone [OF assms(1)]) (simp add: set_cache_ok)
  then show ?thesis
    using cfg_cache_cases [OF z, of 1] by (simp add: accept_push_def Let_def nm_ok_cx note_synced_ok)
qed

lemma accept_pull_ok:
  assumes "nm_ok s" "cx_st (nm_cx s) = CX_PULL_STREAM"
  shows "nm_ok (fst (accept_pull s))"
proof -
  let ?z = "cx_zone (nm_cx s)" and ?k = "cx_kind (nm_cx s)"
  have z: "zone_id_ok ?z" "?k = 1 \<or> ?k = 2" using assms by (auto simp: nm_ok_def cx_ok_def)
  let ?c = "cache_of ?k (nm_zone s ?z)"
  have l: "length (nc_blob ?c) = WIRE_MAX" using assms(1) by (auto simp: nm_ok_def mem_ok_def cache_ok_def cache_of_def)
  obtain magic ver vmin where m: "pull_magic ?k = (magic, ver, vmin)" by (metis prod_cases3)
  obtain rc res where u: "hg_blob_unwrap magic ver vmin (take (unat (ca_total (nm_casm s))) (ca_buf (nm_casm s)))
      (cache_payload_len ?k) = (rc, res)" by (metis surj_pair)
  show ?thesis
  proof (cases res)
    case None
    then show ?thesis
      using assms by (simp add: accept_pull_def cfg_cache_cases [OF z] m u fail_or_retry_ok)
  next
    case (Some r)
    obtain plane gen where r: "r = (plane, gen)" by (metis surj_pair)
    have "length plane = cache_payload_len ?k" using hg_blob_unwrap_length [OF u [unfolded Some r]] .
    then have "cache_ok ?k (cache_store ?k plane gen ?c)" using cache_store_holds [OF l] unfolding cache_ok_def by blast
    then have "nm_ok (upd_zone ?z (set_cache ?k (cache_store ?k plane gen ?c)) s)"
      by (intro nm_ok_upd_zone [OF assms(1)]) (simp add: set_cache_ok z)
    then show ?thesis
      by (simp add: accept_pull_def cfg_cache_cases [OF z] m u Some r Let_def nm_ok_cx_init note_synced_ok)
  qed
qed


lemma start_pull_id_ok:
  assumes "nm_ok s" "zone_id_ok zone" "kind = 1 \<or> kind = 2"
  shows "nm_ok (nmgr_cx_pull zone kind a b c d s)"
proof -
  let ?s = "s\<lparr>nm_cx := (nm_cx s)\<lparr>cx_hb_gen := a, cx_hb_crc := b, cx_cache_gen := c, cx_cache_crc := d\<rparr>\<rparr>"
  have "nm_ok ?s" using assms(1) by (simp add: nm_ok_def cx_ok_def)
  then show ?thesis unfolding nmgr_cx_pull_def using assms(2,3) by (intro start_pull_ok) auto
qed

lemma abort_ok: "nm_ok s \<Longrightarrow> nm_ok (nmgr_cx_abort zone s)"
  by (simp add: nmgr_cx_abort_def nm_ok_cx_init nm_ok_frames [OF cancel_frames])

lemma cx_tick_ok:
  assumes "nm_ok s"
  shows "nm_ok (fst (fst (nmgr_cx_tick_1s now s)))"
proof (cases "cx_st (nm_cx s)")
  case CX_RETRY_PUSH
  then have "zone_id_ok (cx_zone (nm_cx s))" "1 \<le> cx_attempt (nm_cx s)" "cx_attempt (nm_cx s) \<le> 4"
    using assms by (simp_all add: nm_ok_def cx_ok_def)
  then show ?thesis using CX_RETRY_PUSH assms start_push_ok by (simp add: nmgr_cx_tick_1s_def Let_def)
next
  case CX_RETRY_PULL
  then have "zone_id_ok (cx_zone (nm_cx s))" "cx_kind (nm_cx s) = 1 \<or> cx_kind (nm_cx s) = 2"
    "1 \<le> cx_attempt (nm_cx s)" "cx_attempt (nm_cx s) \<le> 4" using assms by (simp_all add: nm_ok_def cx_ok_def)
  then show ?thesis using CX_RETRY_PULL assms start_pull_ok by (simp add: nmgr_cx_tick_1s_def Let_def)
next
  case CX_PULL_STREAM
  then show ?thesis using assms by (simp add: nmgr_cx_tick_1s_def Let_def fail_or_retry_ok)
qed (simp_all add: nmgr_cx_tick_1s_def Let_def assms)

lemma on_chunk_ok:
  assumes "nm_ok s"
  shows "nm_ok (fst (nmgr_cfg_on_chunk f now s))"
proof (cases "cx_st (nm_cx s) \<noteq> CX_PULL_STREAM \<or> h_src (f_hdr f) \<noteq> cx_zone (nm_cx s)")
  case False
  obtain a rc where r: "ring_casm_feed (casm_fresh now (nm_casm s)) (frame_bytes f) now = (a, rc)" by (metis surj_pair)
  have n: "nm_ok (s\<lparr>nm_casm := a\<rparr>)" "cx_st (nm_cx (s\<lparr>nm_casm := a\<rparr>)) = CX_PULL_STREAM" using False assms by simp_all
  show ?thesis using False n
    by (cases rc) (simp_all add: nmgr_cfg_on_chunk_def r Let_def accept_pull_ok fail_or_retry_ok)
next
  case True
  then show ?thesis using assms by (simp add: nmgr_cfg_on_chunk_def)
qed

lemma on_ev_ok:
  assumes "nm_ok s"
  shows "nm_ok (fst (nmgr_cfg_on_ev ev s))"
proof (cases "cx_st (nm_cx s)")
  case CX_PULL_ACK
  then show ?thesis using assms
    by (auto simp: nmgr_cfg_on_ev_def Let_def fail_or_retry_ok) (simp add: nm_ok_def cx_ok_def)
next
  case CX_PUSH_COMMIT
  then show ?thesis using assms
    by (simp add: nmgr_cfg_on_ev_def Let_def accept_push_ok fail_or_retry_ok)
qed (simp_all add: nmgr_cfg_on_ev_def Let_def assms)

lemma try_start_ok:
  assumes "nm_ok s" "zone_id_ok zone"
  shows "nm_ok (fst (fst (try_start zone nd s)))"
  using assms start_push_ok [OF assms, of 1]
  by (simp add: try_start_def Let_def split_def start_pull_id_ok nmgr_cx_push_def)

lemma cooling_ok: "nm_ok s \<Longrightarrow> nm_ok (fst (nmgr_cfg_cooling_down zone now s))"
  by (auto simp: nmgr_cfg_cooling_down_def intro!: nm_ok_upd_zone)

lemma ring_word:
  "unat (of_nat (n mod 8 + 1) :: u8) = n mod 8 + 1" "1 \<le> (of_nat (n mod 8 + 1) :: u8)" "(of_nat (n mod 8 + 1) :: u8) \<le> 8"
proof -
  have "n mod 8 + 1 < 256" using mod_less_divisor [of 8 n] by linarith
  then show u: "unat (of_nat (n mod 8 + 1) :: u8) = n mod 8 + 1" by (rule unat_of_nat_u8)
  show "1 \<le> (of_nat (n mod 8 + 1) :: u8)" "(of_nat (n mod 8 + 1) :: u8) \<le> 8"
    unfolding word_le_nat_alt u using mod_less_divisor [of 8 n] by simp_all
qed

lemma rr_id_ok: "zone_id_ok (rr_id s i)"
  unfolding rr_id_def using ring_word by blast

lemma rr_scan_ok: "nm_ok s \<Longrightarrow> nm_ok (fst (rr_scan now is s))"
proof (induction "is" arbitrary: s)
  case (Cons i "is")
  let ?id = "rr_id s i" and ?s = "upd_zone (rr_id s i) (\<lambda>m. m\<lparr>zm_fresh := False\<rparr>) s"
  have s1: "nm_ok ?s" using Cons.prems by (auto intro!: nm_ok_upd_zone)
  obtain s2 cool where c: "nmgr_cfg_cooling_down ?id now ?s = (s2, cool)" by (metis surj_pair)
  have s2: "nm_ok s2" using cooling_ok [OF s1] c by (metis fst_conv)
  let ?s3 = "s2\<lparr>nm_rr_next := of_nat (unat ?id mod 8 + 1)\<rparr>"
  have s3: "nm_ok ?s3" using s2 ring_word(2,3) [of "unat ?id"] unfolding nm_ok_def by simp
  have "nm_ok (fst (fst (try_start ?id nd ?s3)))" for nd by (rule try_start_ok [OF s3 rr_id_ok])
  then show ?case using Cons s1 s2
    by (auto simp: Let_def c split_def split: option.split)
qed simp

lemma invalidate_ok: "nm_ok s \<Longrightarrow> nm_ok (nmgr_cfg_invalidate zone s)"
  unfolding nmgr_cfg_invalidate_def nmgr_cfg_cooldown_clear_def nmgr_cfg_latch_clear_def
  by (auto intro!: abort_ok nm_ok_upd_zone simp: mem_ok_def)

lemma clear_ok: "nm_ok s \<Longrightarrow> nm_ok (nmgr_cfg_clear zone s)"
  unfolding nmgr_cfg_clear_def nmgr_cfg_drop_set_req_def
  by (auto intro!: nm_ok_upd_zone invalidate_ok) (auto simp: mem_ok_def)

lemma take_set_req_ok: "nm_ok s \<Longrightarrow> nm_ok (fst (nmgr_cfg_take_set_req s))"
  by (auto simp: nmgr_cfg_take_set_req_def mem_ok_def intro!: nm_ok_upd_zone split: option.split)

lemma take_set_req_zone:
  assumes "nmgr_cfg_take_set_req s = (s', Some (z, want))"
  shows "zone_id_ok z" "zm_set_req (nm_zone s z) = Some want" "s' = upd_zone z (\<lambda>m. m\<lparr>zm_set_req := None\<rparr>) s"
proof -
  obtain y where y: "find (\<lambda>z. zm_set_req (nm_zone s z) \<noteq> None) zone_ids = Some y" "y = z"
    "the (zm_set_req (nm_zone s y)) = want" "s' = upd_zone y (\<lambda>m. m\<lparr>zm_set_req := None\<rparr>) s"
    using assms by (auto simp: nmgr_cfg_take_set_req_def split: option.splits)
  then have "z \<in> set zone_ids" "zm_set_req (nm_zone s z) \<noteq> None" by (auto simp: find_Some_iff in_set_conv_nth)
  then show "zone_id_ok z" "zm_set_req (nm_zone s z) = Some want" "s' = upd_zone z (\<lambda>m. m\<lparr>zm_set_req := None\<rparr>) s"
    using y by (auto simp: zone_ids_def)
qed


text \<open>A write of the operator replaces the cache and then pushes it.\<close>

lemma start_set_req_eq:
  fixes zone :: u8
  assumes "nm_ok s" "length want = 336"
  defines "gen \<equiv> push_gen_for zone (zm_cfg (nm_zone s zone)) s" and "hb \<equiv> hb_of zone s"
  defines "plane \<equiv> cfg_stamp want gen HG_SRC_MASTER"
  obtains w n s0 where "is_push_wire w gen plane" "drop HG_BLOB_HDR_LEN w = plane" "holds_plane 1 n plane gen" "nc_blob n = w"
    "s0 = nmgr_cfg_cooldown_clear zone (upd_zone zone (\<lambda>m. m\<lparr>zm_cfg := n\<rparr>) s)" "nm_ok s0"
    "start_set_req zone want s = start_push zone gen 1 (fst hb) (snd hb) gen (nc_crc n) s0"
proof -
  let ?c = "zm_cfg (nm_zone s zone)"
  have p: "length plane = 336" "cfg_generation plane = gen" using cfg_stamp_facts(1,3) [OF assms(2)] by (simp_all add: plane_def)
  have b: "length (nc_blob ?c) = WIRE_MAX" using assms(1) by (simp add: nm_ok_def mem_ok_def cache_ok_def)
  obtain w where w: "hg_blob_wrap HG_MAGIC_CFG HG_CFG_VER gen plane WIRE_MAX = Some w" "length w = 16 + length plane"
    "drop HG_BLOB_HDR_LEN w = plane" by (rule wrap_ok [of plane]) (simp add: p)
  have m: "mem_put (nc_blob ?c) 0 w = w" using w(2) p b by (simp add: mem_put_def WIRE_MAX_def HG_BLOB_HDR_LEN_def)
  have pw: "is_push_wire w gen plane" using w(1) p by (simp add: is_push_wire_def)
  let ?n = "\<lparr>nc_blob = w, nc_gen = gen, nc_crc = hg_crc32 0 (take 336 (drop HG_BLOB_HDR_LEN w)), nc_valid = True\<rparr>"
  let ?s = "nmgr_cfg_cooldown_clear zone (upd_zone zone (\<lambda>m. m\<lparr>zm_cfg := ?n\<rparr>) s)"
  have n: "cache_ok 1 ?n" using is_push_wire_facts [OF pw] unfolding cache_ok_def by auto
  have ok: "nm_ok ?s" unfolding nmgr_cfg_cooldown_clear_def using assms(1) n
    by (auto intro!: nm_ok_upd_zone simp: mem_ok_def)
  have run: "start_set_req zone want s = start_push zone gen 1 (fst hb) (snd hb) gen (nc_crc ?n) ?s"
    using w(1) m by (simp add: start_set_req_def Let_def split_def nmgr_cx_push_def gen_def plane_def hb_def)
  show thesis by (rule that [OF pw w(3) is_push_wire_facts(2) [OF pw] _ refl ok run]) simp
qed

lemma start_set_req_ok:
  assumes "nm_ok s" "zone_id_ok zone" "length want = 336"
  shows "nm_ok (fst (start_set_req zone want s))"
proof -
  obtain n :: nmgr_cache and s0 where "nm_ok s0" "start_set_req zone want s = start_push zone (push_gen_for zone (zm_cfg (nm_zone s zone)) s) 1
      (fst (hb_of zone s)) (snd (hb_of zone s)) (push_gen_for zone (zm_cfg (nm_zone s zone)) s) (nc_crc n) s0"
    by (rule start_set_req_eq [OF assms(1,3), of zone]) (rule that, assumption+)
  then show ?thesis using start_push_ok [OF _ assms(2)] by simp
qed

lemma clear_requested_ok:
  "nm_ok s \<Longrightarrow> nm_ok (fold (\<lambda>id s. if P id then nmgr_cfg_clear id s else s) ids s)"
  by (induction ids arbitrary: s) (simp_all add: clear_ok)

lemma clear_marked_ok: "nm_ok s \<Longrightarrow> nm_ok (clear_marked marks s)"
  unfolding clear_marked_def by (rule clear_requested_ok)

lemma nested_pair:
  obtains a b c where "x = ((a, b), c)"
  by (cases x; cases "fst x") auto

lemma cfg_tick_ok:
  assumes "nm_ok s"
  shows "nm_ok (fst (nmgr_cfg_tick_1s now s))"
proof -
  let ?s1 = "clear_marked (nm_clear_mask s) (s\<lparr>nm_clear_mask := 0, nm_push_req := 0\<rparr>)"
  have p: "nm_push_req s \<le> 8" using assms by (simp add: nm_ok_def)
  have s1: "nm_ok ?s1" by (rule clear_marked_ok) (use assms in \<open>simp add: nm_ok_def\<close>)
  obtain s2 out busy where t: "nmgr_cx_tick_1s now ?s1 = ((s2, out), busy)" by (rule nested_pair)
  have s2: "nm_ok s2" using cx_tick_ok [OF s1, of now] by (simp add: t)
  obtain s3 req where r: "nmgr_cfg_take_set_req s2 = (s3, req)" by (metis surj_pair)
  have s3: "nm_ok s3" using take_set_req_ok [OF s2] by (simp add: r)
  have q: "nm_ok (fst (start_set_req z want s3))" if "req = Some (z, want)" for z want
  proof (rule start_set_req_ok [OF s3])
    note k = take_set_req_zone [OF r [unfolded that]]
    show "zone_id_ok z" by (rule k(1))
    show "length want = 336" using s2 k(2) by (auto simp: nm_ok_def mem_ok_def)
  qed
  have m: "nm_ok (fst (nmgr_cx_push (nm_push_req s) g a b d e s3))" if "nm_push_req s \<noteq> 0" for g a b d e
    unfolding nmgr_cx_push_def using that p
    by (intro start_push_ok [OF s3]) (auto simp: word_le_nat_alt Suc_le_eq unat_gt_0)
  show ?thesis
    using s2 q m rr_scan_ok [OF s3]
    by (cases req) (auto simp: nmgr_cfg_tick_1s_def Let_def t r split_def)
qed

section \<open>The component as a machine\<close>

text \<open>
  The calls the other tasks and the ring make, one step each; \<open>EvWorld\<close> is everything around it: the
  node table, the tracker, the sequence number and the clock belong to other parts of the master.
\<close>

datatype cfg_ev =
    EvTick u32
  | EvChunk ring_frame u32
  | EvTrk ring_trk_ev
  | EvHb u8
  | EvPush u8
  | EvSet u8 hg_zone_cfg
  | EvRequestClear u8
  | EvInvalidate u8
  | EvClear u8
  | EvWorld "hg_node list" ring_trk u16 u32

fun cfg_step :: "nmgr \<Rightarrow> cfg_ev \<Rightarrow> nmgr \<times> nm_out list" where
  "cfg_step s (EvTick now) = nmgr_cfg_tick_1s now s"
| "cfg_step s (EvChunk f now) = nmgr_cfg_on_chunk f now s"
| "cfg_step s (EvTrk ev) = nmgr_cfg_on_ev ev s"
| "cfg_step s (EvHb z) = (nmgr_cfg_note_fresh_hb z s, [])"
| "cfg_step s (EvPush z) = (fst (node_mgr_push_cfg z s), [])"
| "cfg_step s (EvSet z c) = (fst (node_mgr_cfg_set z c s), [])"
| "cfg_step s (EvRequestClear z) = (nmgr_cfg_request_clear z s, [])"
| "cfg_step s (EvInvalidate z) = (nmgr_cfg_invalidate z s, [])"
| "cfg_step s (EvClear z) = (nmgr_cfg_clear z s, [])"
| "cfg_step s (EvWorld tab trk seq clk) = (s\<lparr>nm_tab := tab, nm_trk := trk, nm_seq := seq, nm_clock := clk\<rparr>, [])"

fun cfg_ev_ok :: "cfg_ev \<Rightarrow> bool" where
  "cfg_ev_ok (EvSet z c) \<longleftrightarrow> length c = 336"
| "cfg_ev_ok (EvWorld tab trk seq clk) \<longleftrightarrow> length tab = 8"
| "cfg_ev_ok _ \<longleftrightarrow> True"

lemma cfg_step_ok:
  assumes "nm_ok s" "cfg_ev_ok e"
  shows "nm_ok (fst (cfg_step s e))"
proof (cases e)
  case (EvPush z)
  then show ?thesis using assms(1) by (auto simp: node_mgr_push_cfg_def nm_ok_def not_less)
next
  case (EvSet z c)
  then show ?thesis using assms
    by (auto simp: node_mgr_cfg_set_def mem_ok_def intro!: nm_ok_upd_zone split: option.split)
next
  case (EvHb z)
  then show ?thesis using assms(1) by (auto simp: nmgr_cfg_note_fresh_hb_def intro!: nm_ok_upd_zone)
next
  case (EvRequestClear z)
  then show ?thesis using assms(1) by (simp add: nmgr_cfg_request_clear_def nm_ok_def)
next
  case (EvWorld tab trk seq clk)
  then show ?thesis using assms by (simp add: nm_ok_def)
qed (simp_all add: assms(1) cfg_tick_ok on_chunk_ok on_ev_ok invalidate_ok clear_ok)

interpretation ncfg: guarded_invariant cfg_step nm_ok cfg_ev_ok
  by unfold_locales (rule cfg_step_ok)

lemma ncfg_init_ok: "length (nm_tab s) = 8 \<Longrightarrow> nm_push_req s \<le> 8 \<Longrightarrow> nm_ok (nmgr_cfg_init s)"
  by (simp add: nmgr_cfg_init_def nm_ok_def nmgr_cx_init_def zone_mem_zero_def mem_ok_def)


section \<open>Reading the cache\<close>

lemma holds_plane_unwrap:
  assumes "holds_plane kind c plane gen" "length (nc_blob c) = WIRE_MAX" "kind = 1 \<or> kind = 2"
  defines "n \<equiv> HG_BLOB_HDR_LEN + cache_payload_len kind"
  shows "snd (hg_blob_unwrap (fst (pull_magic kind)) (fst (snd (pull_magic kind))) (snd (snd (pull_magic kind)))
      (take n (nc_blob c)) (cache_payload_len kind)) = Some (plane, gen)"
proof -
  obtain magic ver vmin where m: "pull_magic kind = (magic, ver, vmin)" by (metis prod_cases3)
  have v: "vmin \<le> ver" using m assms(3)
    by (auto simp: pull_magic_def HG_CFG_VER_def HG_CFG_VER_MIN_def HG_HW_VER_def HG_HW_VER_MIN_def split: if_splits)
  obtain w xs where w: "hg_blob_wrap magic ver gen plane WIRE_MAX = Some w" "nc_blob c = w @ xs"
    and l: "length plane = cache_payload_len kind" using assms(1) by (auto simp: holds_plane_def m)
  have b: "length plane \<le> 336" using l payload_len_le by simp
  have "length w = n"
  proof -
    obtain w' where "hg_blob_wrap magic ver gen plane WIRE_MAX = Some w'" "length w' = 16 + length plane"
      "drop HG_BLOB_HDR_LEN w' = plane" by (rule wrap_ok [OF b])
    then show ?thesis using w(1) l by (simp add: n_def HG_BLOB_HDR_LEN_def)
  qed
  then have "take n (nc_blob c) = w @ []" by (simp add: w(2))
  then show ?thesis
    using blob_round_trip [OF w(1), of "cache_payload_len kind" vmin ver "[]"] b v l by (simp add: m)
qed

text \<open>What the interface returns for a zone whose logical plane is cached.\<close>

lemma cfg_get_cached:
  assumes "nm_ok s" "zone_id_ok z"
  shows "case node_mgr_cfg_get z s of
      None \<Rightarrow> \<not> nc_valid (zm_cfg (nm_zone s z))
    | Some (plane, gen, hw) \<Rightarrow> holds_plane 1 (zm_cfg (nm_zone s z)) plane gen \<and>
        (case hw of None \<Rightarrow> \<not> nc_valid (zm_hw (nm_zone s z)) | Some h \<Rightarrow> \<exists>g. holds_plane 2 (zm_hw (nm_zone s z)) h g)"
proof (cases "nc_valid (zm_cfg (nm_zone s z))")
  case False
  then show ?thesis using assms(2) by (simp add: node_mgr_cfg_get_def Let_def word_less_nat_alt word_le_nat_alt)
next
  case True
  let ?c = "zm_cfg (nm_zone s z)" and ?h = "zm_hw (nm_zone s z)"
  have ok: "cache_ok 1 ?c" "cache_ok 2 ?h" using assms(1) by (simp_all add: nm_ok_def mem_ok_def)
  obtain plane gen where p: "holds_plane 1 ?c plane gen" using ok(1) True by (auto simp: cache_ok_def)
  have l: "length (nc_blob ?c) = HG_BLOB_HDR_LEN + 336" "length (nc_blob ?h) = WIRE_MAX"
    using ok by (simp_all add: cache_ok_def WIRE_MAX_def)
  have "snd (hg_blob_unwrap HG_MAGIC_CFG HG_CFG_VER HG_CFG_VER_MIN (nc_blob ?c) 336) = Some (plane, gen)"
    using holds_plane_unwrap [OF p] l by (simp add: pull_magic_def WIRE_MAX_def)
  then obtain rc where u: "hg_blob_unwrap HG_MAGIC_CFG HG_CFG_VER HG_CFG_VER_MIN (nc_blob ?c) 336 = (rc, Some (plane, gen))"
    by (metis prod.collapse)
  have g: "node_mgr_cfg_get z s = Some (plane, gen, if \<not> nc_valid ?h then None
      else map_option fst (snd (hg_blob_unwrap HG_MAGIC_HW HG_HW_VER HG_HW_VER_MIN
                       (take (HG_BLOB_HDR_LEN + 160) (nc_blob ?h)) 160)))"
    using True assms(2) by (simp add: node_mgr_cfg_get_def Let_def u word_less_nat_alt word_le_nat_alt)
  show ?thesis
  proof (cases "nc_valid ?h")
    case False
    then show ?thesis using p by (simp add: g)
  next
    case h: True
    obtain hp hg where q: "holds_plane 2 ?h hp hg" using ok(2) h by (auto simp: cache_ok_def)
    show ?thesis using p q h holds_plane_unwrap [OF q l(2)] by (auto simp: g pull_magic_def)
  qed
qed


section \<open>A push and its end\<close>

text \<open>The \<open>i\<close>-th chunk of a push to \<open>zone\<close>, as it is sent.\<close>

definition is_push_chunk :: "u8 \<Rightarrow> u32 \<Rightarrow> u8 list \<Rightarrow> nat \<Rightarrow> nm_out \<Rightarrow> bool" where
  "is_push_chunk zone gen wire i x =
     (case x of
        NmSend h p \<Rightarrow> h_dst h = zone \<and> h_src h = RING_ID_MASTER \<and> h_type h = RING_T_CFG_CHUNK \<and>
          h_len h = of_nat (length p) \<and> ring_cfg_chunk_build 1 gen wire (of_nat i) 121 = Some p
      | _ \<Rightarrow> False)"

lemma burst_sends:
  assumes "length wire = WIRE_MAX" "\<forall>i \<in> set is. i < 4"
  shows "list_all2 (is_push_chunk zone gen wire) is (snd (send_burst zone gen wire is s))"
  using assms(2)
proof (induction "is" arbitrary: s)
  case (Cons i "is")
  have n: "ring_cfg_chunk_count (length wire) = 4" "length wire \<le> RING_CFG_BUF_MAX"
    using assms(1) by (simp_all add: WIRE_MAX_def HG_BLOB_HDR_LEN_def ring_cfg_chunk_count_def cfg_consts)
  have d: "9 + RING_CFG_DATA_MAX = 121" by (simp add: cfg_consts)
  obtain p where p: "ring_cfg_chunk_build 1 gen wire (of_nat i) 121 = Some p"
    using chunk_build_ok [of wire i 1 gen] n Cons.prems by auto
  show ?case
    using Cons.IH [of "fst (nmgr_send_raw zone RING_T_CFG_CHUNK p s)"] Cons.prems
    by (simp add: d p split_def Let_def nmgr_send_raw_def nmgr_next_seq_def is_push_chunk_def)
qed simp

lemma start_push_sends:
  assumes "nm_ok s" "zone_id_ok zone"
  shows "list_all2 (is_push_chunk zone gen (nm_push_wire (fst (start_push zone gen attempt a b d e s)))) [0 ..< 4]
    (snd (start_push zone gen attempt a b d e s))"
proof -
  obtain w plane s' where l: "length w = WIRE_MAX" and s': "fst (start_push zone gen attempt a b d e s) = s'"
    and f: "same_but_frames (s\<lparr>nm_push_wire := w, nm_cx := nm_cx s'\<rparr>) s'"
    and o: "snd (start_push zone gen attempt a b d e s) =
       snd (send_burst zone gen w [0 ..< 4] (s\<lparr>nm_push_wire := w, nm_cx := (nm_cx s)\<lparr>cx_zone := zone, cx_kind := 1,
         cx_attempt := attempt, cx_push_gen := gen, cx_hb_gen := a, cx_hb_crc := b, cx_cache_gen := d, cx_cache_crc := e,
         cx_trk_seq := 0, cx_st := CX_PUSH_COMMIT\<rparr>\<rparr>))"
    by (rule start_push_cases [OF assms])
  have "nm_push_wire s' = w" using same_but_frames_simps(9) [OF f] by simp
  then show ?thesis using burst_sends [OF l, of "[0 ..< 4]"] by (simp add: s' o)
qed

text \<open>The acknowledgement of the commit.\<close>

definition commit_acked :: "ring_trk_ev \<Rightarrow> nmgr \<Rightarrow> bool" where
  "commit_acked ev s \<longleftrightarrow> cx_st (nm_cx s) = CX_PUSH_COMMIT \<and> ev_seq ev = cx_trk_seq (nm_cx s) \<and>
     ev_kind ev = EV_DONE \<and> ev_status ev = 0"

lemma push_accepted:
  assumes "nm_ok s" "commit_acked ev s"
  obtains plane where "is_push_wire (nm_push_wire s) (cx_push_gen (nm_cx s)) plane"
    "holds_plane 1 (zm_cfg (nm_zone (fst (nmgr_cfg_on_ev ev s)) (cx_zone (nm_cx s)))) plane (cx_push_gen (nm_cx s))"
    "nm_cx (fst (nmgr_cfg_on_ev ev s)) = cx_zero"
    "zm_latch_cfg (nm_zone (fst (nmgr_cfg_on_ev ev s)) (cx_zone (nm_cx s))) = latch_zero"
    "zone_id_ok (cx_zone (nm_cx s))"
proof -
  let ?c = "nm_cx s" and ?s' = "fst (nmgr_cfg_on_ev ev s)"
  have st: "cx_st ?c = CX_PUSH_COMMIT" using assms(2) by (simp add: commit_acked_def)
  have z: "zone_id_ok (cx_zone ?c)" and p: "\<exists>plane. is_push_wire (nm_push_wire s) (cx_push_gen ?c) plane"
    using assms(1) st by (auto simp: nm_ok_def cx_ok_def)
  obtain plane where w: "is_push_wire (nm_push_wire s) (cx_push_gen ?c) plane" using p by blast
  have e: "?s' = accept_push s" using assms(2) by (simp add: nmgr_cfg_on_ev_def Let_def commit_acked_def)
  let ?n = "\<lparr>nc_blob = nm_push_wire s, nc_gen = cx_push_gen ?c,
    nc_crc = hg_crc32 0 (take 336 (drop HG_BLOB_HDR_LEN (nm_push_wire s))), nc_valid = True\<rparr>"
  have l: "latch_slot (cx_zone ?c) 1" using z by (simp add: latch_slot_def word_less_nat_alt word_le_nat_alt)
  have "zm_cfg (nm_zone ?s' (cx_zone ?c)) = ?n" "nm_cx ?s' = cx_zero"
    "zm_latch_cfg (nm_zone ?s' (cx_zone ?c)) = latch_zero"
    using cfg_cache_cases [OF z, of 1] l
    by (simp_all add: e accept_push_def Let_def nmgr_cfg_note_synced_def set_cache_def set_latch_def split: option.split)
  then show thesis using that [OF w] is_push_wire_facts(2) [OF w] z by simp
qed

text \<open>
  What a fetch is, seen from outside: a request for the plane joins the queue of the ring and the slot waits for
  its acknowledgement, or the queue is full and the slot waits for another attempt; nothing is sent and no cache changes.
\<close>

definition fetches :: "u8 \<Rightarrow> u8 \<Rightarrow> nmgr \<Rightarrow> nmgr \<Rightarrow> bool" where
  "fetches zone kind s s' \<longleftrightarrow>
     nm_zone s' = nm_zone s \<and> nm_tab s' = nm_tab s \<and> cx_zone (nm_cx s') = zone \<and> cx_kind (nm_cx s') = kind \<and>
     (case ring_trk_submit (nm_trk s) \<lparr>h_src = RING_ID_MASTER, h_dst = zone, h_type = RING_T_CFG_GET, h_flags = RING_F_ACK_REQ,
         h_ttl = RING_TTL_INIT, h_len = 1, h_seq = nm_seq s + 1\<rparr> [kind] of
        Some t \<Rightarrow> nm_trk s' = t \<and> cx_st (nm_cx s') = CX_PULL_ACK \<and> cx_trk_seq (nm_cx s') = nm_seq s + 1
      | None \<Rightarrow> nm_trk s' = nm_trk s \<and> cx_st (nm_cx s') = CX_RETRY_PULL)"

lemma pull_fetches: "fetches zone kind s (nmgr_cx_pull zone kind a b c d s)"
  by (simp add: fetches_def nmgr_cx_pull_def start_pull_def nmgr_submit_def nmgr_next_seq_def Let_def split: option.split)

lemma in_sync_decision:
  assumes "nc_valid (zm_cfg (nm_zone s zone))"
    "hb_cfg_gen (nd_hb nd) = nc_gen (zm_cfg (nm_zone s zone))" "hb_cfg_crc (nd_hb nd) = nc_crc (zm_cfg (nm_zone s zone))"
  shows "let hw = zm_hw (nm_zone s zone); h = hb_hw_crc (nd_hb nd) in
    if nc_valid hw \<and> h = nc_crc hw \<or> nmgr_cfg_latched zone 2 0 h 0 (nc_crc hw) s then try_start zone nd s = ((s, []), False)
    else \<exists>s'. try_start zone nd s = ((s', []), True) \<and> fetches zone 2 s s'"
  using assms pull_fetches [of zone 2 s] by (simp add: try_start_def Let_def)

text \<open>
  The zone's half is \<open>Zone_Cfg_Rx\<close>: the chunks of the wire arrive, in any order and with repetitions,
  and the commit is decided.
\<close>

lemma push_agrees:
  fixes fin :: u32
  assumes "nm_ok s" "cx_st (nm_cx s) = CX_PUSH_COMMIT"
    "push_arrives 1 (cx_push_gen (nm_cx s)) (nm_push_wire s) is fs f now z"
    "cfg_generation (m_cfg (zr_model z)) < cx_push_gen (nm_cx s)"
    "\<And>plane. is_push_wire (nm_push_wire s) (cx_push_gen (nm_cx s)) plane \<Longrightarrow>
       hg_cfg_validate plane (Some (m_hw (zr_model z))) = Inr ()"
    "commit_acked ev s"
  defines "z' \<equiv> fst (zone_ring_cfg_commit f now fin (feed_chunks fs z))"
    and "s' \<equiv> fst (nmgr_cfg_on_ev ev s)"
  shows "\<exists>hw. node_mgr_cfg_get (cx_zone (nm_cx s)) s' = Some (m_cfg (zr_model z'), cx_push_gen (nm_cx s), hw)"
    "hg_model_cfg_info (zr_model z') =
       (nc_gen (zm_cfg (nm_zone s' (cx_zone (nm_cx s)))), nc_crc (zm_cfg (nm_zone s' (cx_zone (nm_cx s)))))"
    "nc_valid (zm_cfg (nm_zone s' (cx_zone (nm_cx s))))" "cx_st (nm_cx s') = CX_IDLE"
    "map ack_seen (snd (zone_ring_cfg_commit f now fin (feed_chunks fs z))) = [Some (ok_for f), None]"
proof -
  let ?g = "cx_push_gen (nm_cx s)" and ?zone = "cx_zone (nm_cx s)"
  obtain plane where w: "is_push_wire (nm_push_wire s) ?g plane"
    and h: "holds_plane 1 (zm_cfg (nm_zone s' ?zone)) plane ?g" and cx: "nm_cx s' = cx_zero" and zn: "zone_id_ok ?zone"
    unfolding s'_def by (rule push_accepted [OF assms(1,6)])
  have p: "length plane = 336" "cfg_generation plane = ?g"
    "hg_blob_wrap HG_MAGIC_CFG HG_CFG_VER ?g plane WIRE_MAX = Some (nm_push_wire s)"
    using w by (simp_all add: is_push_wire_def)
  obtain z1 where z1: "zone_ring_cfg_commit f now fin (feed_chunks fs z) = commit_ok f fin True z1"
    "zr_model z1 = hg_model_apply_cfg (zr_model z) plane"
    by (rule push_applied [OF assms(3) p(3,1,2) assms(4) assms(5) [OF w]])
  have m: "m_cfg (zr_model z') = plane" using z1 by (simp add: z'_def commit_ok_seen hg_model_apply_cfg_def)
  have s': "nm_ok s'" unfolding s'_def by (rule on_ev_ok [OF assms(1)])
  show v: "nc_valid (zm_cfg (nm_zone s' ?zone))" using h by (simp add: holds_plane_def)
  show "cx_st (nm_cx s') = CX_IDLE" by (simp add: cx cx_zero_def)
  show "hg_model_cfg_info (zr_model z') = (nc_gen (zm_cfg (nm_zone s' ?zone)), nc_crc (zm_cfg (nm_zone s' ?zone)))"
    using h p(2) by (simp add: hg_model_cfg_info_def m holds_plane_def)
  show "map ack_seen (snd (zone_ring_cfg_commit f now fin (feed_chunks fs z))) = [Some (ok_for f), None]"
    using z1(1) by (simp add: commit_ok_seen ok_for_def)
  obtain pl g hw where g: "node_mgr_cfg_get ?zone s' = Some (pl, g, hw)" "holds_plane 1 (zm_cfg (nm_zone s' ?zone)) pl g"
    using cfg_get_cached [OF s' zn] v by (auto split: option.splits)
  have c: "length (nc_blob (zm_cfg (nm_zone s' ?zone))) = WIRE_MAX" using s' by (simp add: nm_ok_def mem_ok_def cache_ok_def)
  have "Some (pl, g) = Some (plane, ?g)"
    using holds_plane_unwrap [OF g(2) c] holds_plane_unwrap [OF h c] by simp
  then show "\<exists>hw. node_mgr_cfg_get ?zone s' = Some (m_cfg (zr_model z'), ?g, hw)" using g(1) m by simp
qed


section \<open>A write by the operator\<close>

lemma stamp_twice: "length cfg = 336 \<Longrightarrow> cfg_stamp (cfg_stamp cfg gen src) gen src = cfg_stamp cfg gen src"
  by (simp add: cfg_stamp_eq cfg_stamp_facts)

lemma cfg_set_accepted:
  assumes "node_mgr_cfg_set zone want s = (s1, 0)"
  shows "zone_id_ok zone" "s1 = upd_zone zone (\<lambda>m. m\<lparr>zm_set_req := Some want\<rparr>) s"
  using assms by (auto simp: node_mgr_cfg_set_def word_less_nat_alt word_le_nat_alt split: if_splits option.splits)

text \<open>The inbox gives the write of the lowest id.\<close>

lemma take_lowest_request:
  assumes "zone_id_ok zone" "\<forall>y < zone. zm_set_req (nm_zone s y) = None"
  shows "nmgr_cfg_take_set_req (upd_zone zone (\<lambda>m. m\<lparr>zm_set_req := Some want\<rparr>) s) =
    (upd_zone zone (\<lambda>m. m\<lparr>zm_set_req := None\<rparr>) (upd_zone zone (\<lambda>m. m\<lparr>zm_set_req := Some want\<rparr>) s), Some (zone, want))"
proof -
  let ?P = "\<lambda>y. y = zone \<or> zm_set_req (nm_zone s y) \<noteq> None"
  have u: "1 \<le> unat zone" "unat zone \<le> 8" using assms(1) by (simp_all add: word_le_nat_alt)
  have i: "zone_ids ! j = of_nat (Suc j)" if "j < 8" for j
    using that by (auto simp: zone_ids_def less_Suc_eq numeral_nat)
  have "\<not> ?P (zone_ids ! j)" if "j < unat zone - 1" for j
  proof -
    have "zone_ids ! j < zone" using that u by (simp add: i word_less_nat_alt unat_of_nat_u8 del: of_nat_Suc)
    then show ?thesis using assms(2) by auto
  qed
  moreover have "zone_ids ! (unat zone - 1) = zone" using u by (simp add: i)
  ultimately have "find ?P zone_ids = Some zone"
    using u unfolding find_Some_iff by (intro exI [of _ "unat zone - 1"]) (simp add: zone_ids_def)
  moreover have "(\<lambda>y. zm_set_req (nm_zone (upd_zone zone (\<lambda>m. m\<lparr>zm_set_req := Some want\<rparr>) s) y) \<noteq> None) =
      (\<lambda>y. y = zone \<or> zm_set_req (nm_zone s y) \<noteq> None)" by (intro ext) simp
  ultimately show ?thesis by (simp add: nmgr_cfg_take_set_req_def)
qed

lemma write_becomes_a_push:
  assumes "nm_ok s" "zone_id_ok zone" "length want = 336"
  defines "gen \<equiv> push_gen_for zone (zm_cfg (nm_zone s zone)) s"
  defines "plane \<equiv> cfg_stamp want gen HG_SRC_MASTER" and "s2 \<equiv> fst (start_set_req zone want s)"
  shows "is_push_wire (nm_push_wire s2) gen plane" "holds_plane 1 (zm_cfg (nm_zone s2 zone)) plane gen"
    "list_all2 (is_push_chunk zone gen (nm_push_wire s2)) [0 ..< 4] (snd (start_set_req zone want s))"
    "nmgr_cx_busy zone s2" "cx_push_gen (nm_cx s2) = gen"
    "nm_tab s2 = nm_tab s" "zm_set_req (nm_zone s2 y) = zm_set_req (nm_zone s y)"
proof -
  let ?hb = "hb_of zone s"
  obtain w n s0 where pw: "is_push_wire w gen plane" "drop HG_BLOB_HDR_LEN w = plane" and h: "holds_plane 1 n plane gen" "nc_blob n = w"
    and s0: "s0 = nmgr_cfg_cooldown_clear zone (upd_zone zone (\<lambda>m. m\<lparr>zm_cfg := n\<rparr>) s)" and ok: "nm_ok s0"
    and run: "start_set_req zone want s = start_push zone gen 1 (fst ?hb) (snd ?hb) gen (nc_crc n) s0"
    unfolding gen_def plane_def by (rule start_set_req_eq [OF assms(1,3), of zone])
  have z: "zm_cfg (nm_zone s0 zone) = n" using assms(2) by (simp add: s0 nmgr_cfg_cooldown_clear_def)
  obtain w' plane' s' where r: "is_push_wire w' gen plane'" "push_wire gen (zm_cfg (nm_zone s0 zone)) = Some w'"
    "plane' = cfg_stamp (take 336 (drop HG_BLOB_HDR_LEN (nc_blob (zm_cfg (nm_zone s0 zone))))) gen HG_SRC_MASTER"
    "fst (start_set_req zone want s) = s'"
    "same_but_frames (s0\<lparr>nm_push_wire := w', nm_cx := nm_cx s'\<rparr>) s'"
    and st: "cx_st (nm_cx s') = CX_PUSH_COMMIT \<or> cx_st (nm_cx s') = CX_RETRY_PUSH"
    and cx: "cx_zone (nm_cx s') = zone" "cx_push_gen (nm_cx s') = gen"
    unfolding run by (rule start_push_cases [OF ok assms(2)])
  have "length plane = 336" using cfg_stamp_facts(1) [OF assms(3)] by (simp add: plane_def)
  then have pl: "plane' = plane"
    using r(3) [unfolded z h(2)] pw(2) stamp_twice [OF assms(3), of gen HG_SRC_MASTER] by (simp add: plane_def)
  have s2: "s2 = s'" by (simp add: s2_def r(4))
  note f = same_but_frames_simps [OF r(5)]
  show "is_push_wire (nm_push_wire s2) gen plane" using r(1) f(9) by (simp add: s2 pl)
  show "holds_plane 1 (zm_cfg (nm_zone s2 zone)) plane gen" using h(1) z f(1) by (simp add: s2)
  show "nmgr_cx_busy zone s2" "cx_push_gen (nm_cx s2) = gen" using st cx by (auto simp: nmgr_cx_busy_def s2)
  show "nm_tab s2 = nm_tab s" "zm_set_req (nm_zone s2 y) = zm_set_req (nm_zone s y)"
    using f by (simp_all add: s2 s0 nmgr_cfg_cooldown_clear_def)
  show "list_all2 (is_push_chunk zone gen (nm_push_wire s2)) [0 ..< 4] (snd (start_set_req zone want s))"
    using start_push_sends [OF ok assms(2)] unfolding s2_def run .
qed

lemma clear_marked_0 [simp]: "clear_marked 0 s = s"
  by (simp add: clear_marked_def zone_ids_def)

lemma write_tick:
  assumes "cx_st (nm_cx s) = CX_IDLE" "nm_clear_mask s = 0" "\<forall>y < zone. zm_set_req (nm_zone s y) = None"
    "node_mgr_cfg_set zone want s = (s1, 0)"
  obtains s3 where "nmgr_cfg_tick_1s now s1 = start_set_req zone want s3" "nm_ok s \<Longrightarrow> nm_ok s3"
    "nm_tab s3 = nm_tab s" "zm_cfg (nm_zone s3 zone) = zm_cfg (nm_zone s zone)"
    "zm_set_req (nm_zone s3 zone) = None" "\<And>y. y \<noteq> zone \<Longrightarrow> zm_set_req (nm_zone s3 y) = zm_set_req (nm_zone s y)"
proof -
  let ?s0 = "s\<lparr>nm_push_req := 0\<rparr>"
  let ?s1 = "upd_zone zone (\<lambda>m. m\<lparr>zm_set_req := Some want\<rparr>) ?s0"
  note a = cfg_set_accepted [OF assms(4)]
  have s1: "s1\<lparr>nm_clear_mask := 0, nm_push_req := 0\<rparr> = ?s1" "nm_clear_mask s1 = 0"
    using assms(2) by (simp_all add: a(2) upd_zone_def)
  have t: "nmgr_cx_tick_1s now ?s1 = ((?s1, []), False)" using assms(1) by (simp add: nmgr_cx_tick_1s_def Let_def)
  have r: "nmgr_cfg_take_set_req ?s1 = (upd_zone zone (\<lambda>m. m\<lparr>zm_set_req := None\<rparr>) ?s1, Some (zone, want))"
    by (rule take_lowest_request [OF a(1)]) (use assms(3) in simp)
  have "nmgr_cfg_tick_1s now s1 = start_set_req zone want (upd_zone zone (\<lambda>m. m\<lparr>zm_set_req := None\<rparr>) ?s1)"
    by (simp add: nmgr_cfg_tick_1s_def Let_def s1 t r)
  moreover have "nm_ok s \<Longrightarrow> nm_ok (upd_zone zone (\<lambda>m. m\<lparr>zm_set_req := None\<rparr>) ?s1)"
    by (auto simp: nm_ok_def mem_ok_def)
  ultimately show thesis by (rule that) (simp_all add: upd_zone_def)
qed

section \<open>What a refusal prevents\<close>

text \<open>What the decisions about zone \<open>z\<close> look at, and a slot that does not hold its logical plane.\<close>

definition zone_view :: "u8 \<Rightarrow> nmgr \<Rightarrow> nmgr_cache \<times> nmgr_latch \<times> hg_zone_cfg option \<times> hg_hb \<times> u8 \<times> u8" where
  "zone_view z s =
     (let m = nm_zone s z in (zm_cfg m, zm_latch_cfg m, zm_set_req m, nd_hb (nm_tab s ! (unat z - 1)), nm_push_req s, nm_clear_mask s))"

definition calm :: "u8 \<Rightarrow> nmgr \<Rightarrow> bool" where
  "calm z s \<longleftrightarrow> cx_st (nm_cx s) = CX_IDLE \<or> cx_zone (nm_cx s) \<noteq> z \<or> cx_kind (nm_cx s) = 2"

fun sends_to :: "u8 \<Rightarrow> nm_out \<Rightarrow> bool" where
  "sends_to z (NmSend h p) \<longleftrightarrow> h_dst h = z"
| "sends_to z _ \<longleftrightarrow> False"

definition leaves_alone :: "u8 \<Rightarrow> nmgr \<Rightarrow> nmgr \<times> nm_out list \<Rightarrow> bool" where
  "leaves_alone z s r \<longleftrightarrow> zone_view z (fst r) = zone_view z s \<and> calm z (fst r) \<and> (\<forall>x \<in> set (snd r). \<not> sends_to z x)"


lemma view_frames:
  assumes "same_but_frames s s'"
  shows "zone_view z s' = zone_view z s" "calm z s' = calm z s"
  by (simp_all add: zone_view_def calm_def same_but_frames_simps [OF assms])

lemma view_cx [simp]:
  "zone_view z (s\<lparr>nm_cx := c\<rparr>) = zone_view z s" "zone_view z (s\<lparr>nm_casm := a\<rparr>) = zone_view z s"
  "zone_view z (s\<lparr>nm_push_wire := w\<rparr>) = zone_view z s" "zone_view z (nmgr_cx_init s) = zone_view z s"
  "zone_view z (s\<lparr>nm_rr_next := n\<rparr>) = zone_view z s"
  by (simp_all add: zone_view_def nmgr_cx_init_def)

lemma calm_init [simp]: "calm z (nmgr_cx_init s)" "calm z (s\<lparr>nm_cx := cx_zero\<rparr>)"
  by (simp_all add: calm_def nmgr_cx_init_def cx_zero_def)

lemma view_upd_zone:
  "y \<noteq> z \<or> (\<forall>m. zm_cfg (f m) = zm_cfg m \<and> zm_latch_cfg (f m) = zm_latch_cfg m \<and> zm_set_req (f m) = zm_set_req m) \<Longrightarrow>
    zone_view z (upd_zone y f s) = zone_view z s"
  by (auto simp: zone_view_def Let_def)

lemma view_upd_node:
  assumes "length (nm_tab s) = 8" "\<And>nd. nd_hb (f nd) = nd_hb nd"
  shows "zone_view z (upd_node y f s) = zone_view z s"
proof -
  have "nd_hb ((nm_tab s)[unat y - 1 := f (nm_tab s ! (unat y - 1))] ! i) = nd_hb (nm_tab s ! i)" for i
    by (cases "unat y - 1 = i"; cases "i < length (nm_tab s)") (simp_all add: assms(2) list_update_beyond)
  then show ?thesis by (simp add: zone_view_def upd_node_def)
qed

lemma calm_upd [simp]: "calm z (upd_zone y f s) = calm z s" "calm z (upd_node y h s) = calm z s"
  by (simp_all add: calm_def)

lemma note_failed_alone:
  assumes "length (nm_tab s) = 8" "y \<noteq> z \<or> kind = 2" "calm z s"
  shows "leaves_alone z s (nmgr_cfg_note_failed y kind terminal a b c d s)"
  using assms
  by (auto simp: leaves_alone_def nmgr_cfg_note_failed_def Let_def set_latch_def view_upd_zone view_upd_node split: option.split)

lemma note_synced_alone:
  assumes "length (nm_tab s) = 8" "y \<noteq> z \<or> kind = 2"
  shows "zone_view z (nmgr_cfg_note_synced y kind s) = zone_view z s" "calm z (nmgr_cfg_note_synced y kind s) = calm z s"
  using assms
  by (auto simp: nmgr_cfg_note_synced_def Let_def set_latch_def view_upd_zone view_upd_node split: option.split)

lemma calm_cases: "calm z s \<Longrightarrow> cx_st (nm_cx s) \<noteq> CX_IDLE \<Longrightarrow> cx_zone (nm_cx s) \<noteq> z \<or> cx_kind (nm_cx s) = 2"
  by (auto simp: calm_def)

lemma fail_alone:
  assumes "length (nm_tab s) = 8" "calm z s" "cx_st (nm_cx s) \<noteq> CX_IDLE"
  shows "leaves_alone z s (finish_failed terminal s)" "leaves_alone z s (fail_or_retry is_push terminal s)"
proof -
  note n = note_failed_alone [OF assms(1) calm_cases [OF assms(2,3)] assms(2)]
  show f: "leaves_alone z s (finish_failed terminal s)" for terminal
    using n by (simp add: finish_failed_def Let_def split_def leaves_alone_def)
  show "leaves_alone z s (fail_or_retry is_push terminal s)"
    using f [of terminal] calm_cases [OF assms(2,3)]
    by (simp add: fail_or_retry_def Let_def leaves_alone_def calm_def)
qed

lemma start_pull_alone:
  assumes "y \<noteq> z \<or> kind = 2"
  shows "zone_view z (start_pull y kind attempt s) = zone_view z s" "calm z (start_pull y kind attempt s)"
proof -
  let ?s = "s\<lparr>nm_cx := (nm_cx s)\<lparr>cx_zone := y, cx_kind := kind, cx_attempt := attempt\<rparr>\<rparr>"
  obtain s' r where r: "nmgr_submit y RING_T_CFG_GET [kind] ?s = (s', r)" by (metis surj_pair)
  then have f: "same_but_frames ?s s'" using submit_frames by (metis fst_conv)
  have "cx_zone (nm_cx s') = y" "cx_kind (nm_cx s') = kind" using same_but_frames_simps(7) [OF f] by simp_all
  then show "zone_view z (start_pull y kind attempt s) = zone_view z s" "calm z (start_pull y kind attempt s)"
    using assms view_frames(1) [OF f]
    by (cases r; auto simp: start_pull_def r calm_def)+
qed

lemma chunks_not_to:
  assumes "list_all2 (is_push_chunk y gen wire) is outs" "y \<noteq> z" "x \<in> set outs"
  shows "\<not> sends_to z x"
proof -
  obtain i where "is_push_chunk y gen wire i x"
    using assms(1,3) by (auto simp: list_all2_conv_all_nth in_set_conv_nth)
  then show ?thesis using assms(2) by (cases x) (auto simp: is_push_chunk_def)
qed

lemma start_push_alone:
  assumes "nm_ok s" "zone_id_ok y" "y \<noteq> z"
  shows "leaves_alone z s (start_push y gen attempt a b d e s)"
proof -
  obtain w plane s' where s': "fst (start_push y gen attempt a b d e s) = s'"
    and f: "same_but_frames (s\<lparr>nm_push_wire := w, nm_cx := nm_cx s'\<rparr>) s'" and c: "cx_zone (nm_cx s') = y"
    by (rule start_push_cases [OF assms(1,2)])
  have "zone_view z s' = zone_view z s" using view_frames(1) [OF f] by simp
  moreover have "\<not> sends_to z x" if "x \<in> set (snd (start_push y gen attempt a b d e s))" for x
    by (rule chunks_not_to [OF start_push_sends [OF assms(1,2)] assms(3) that])
  ultimately show ?thesis using c assms(3) by (simp add: leaves_alone_def s' calm_def)
qed

lemma accept_alone:
  assumes "nm_ok s" "calm z s" "cx_st (nm_cx s) \<noteq> CX_IDLE"
  shows "leaves_alone z s (accept_pull s)" "cx_zone (nm_cx s) \<noteq> z \<Longrightarrow> leaves_alone z s (accept_push s, [])"
proof -
  let ?y = "cx_zone (nm_cx s)" and ?k = "cx_kind (nm_cx s)"
  have l: "length (nm_tab s) = 8" using assms(1) by (simp add: nm_ok_def)
  note c = calm_cases [OF assms(2,3)]
  have v: "zone_view z (upd_zone ?y (set_cache ?k x) s) = zone_view z s" for x
    using c by (auto intro!: view_upd_zone simp: set_cache_def)
  have t: "length (nm_tab (upd_zone ?y f s)) = 8" for f using l by simp
  show "leaves_alone z s (accept_pull s)"
    using fail_alone [OF l assms(2,3)] note_synced_alone(1) [OF t c] v
    by (auto simp: accept_pull_def Let_def split_def leaves_alone_def split: option.split)
  show "leaves_alone z s (accept_push s, [])" if y: "?y \<noteq> z"
    using note_synced_alone(1) [OF t disjI1 [OF y]] view_upd_zone [OF disjI1 [OF y]]
    by (auto simp: accept_push_def Let_def leaves_alone_def split: option.split)
qed


text \<open>
  The zone has refused the plane in the cache, and nothing about the two has changed since: the last
  heartbeat and the cache are those of the refusal, and no write waits.
\<close>

definition refused :: "u8 \<Rightarrow> nmgr \<Rightarrow> bool" where
  "refused z s \<longleftrightarrow>
     (let m = nm_zone s z; hb = nd_hb (nm_tab s ! (unat z - 1)) in
      nc_valid (zm_cfg m) \<and> zm_set_req m = None \<and>
      nmgr_cfg_latched z 1 (hb_cfg_gen hb) (hb_cfg_crc hb) (nc_gen (zm_cfg m)) (nc_crc (zm_cfg m)) s)"

lemma refused_view: "zone_view z s' = zone_view z s \<Longrightarrow> refused z s' = refused z s"
  by (simp add: refused_def zone_view_def Let_def nmgr_cfg_latched_def latch_of_def)

lemma leaves_alone_trans:
  assumes "leaves_alone z s (s1, outs)" "leaves_alone z s1 r"
  shows "leaves_alone z s (fst r, outs @ snd r)"
  using assms by (auto simp: leaves_alone_def)

lemma start_pull_id_alone:
  assumes "y \<noteq> z \<or> kind = 2"
  shows "leaves_alone z s (nmgr_cx_pull y kind a b c d s, [])"
  using start_pull_alone [OF assms] by (simp add: leaves_alone_def nmgr_cx_pull_def)

lemma calm_leaves_alone [simp]: "leaves_alone z s (s, []) = calm z s"
  by (simp add: leaves_alone_def)

lemma try_start_alone:
  assumes "nm_ok s" "zone_id_ok y" "calm z s" "y = z \<Longrightarrow> refused z s \<and> nd = nm_tab s ! (unat z - 1)"
  shows "leaves_alone z s (fst (try_start y nd s))"
proof (cases "y = z")
  case True
  with assms(4) have "refused z s" "nd = nm_tab s ! (unat z - 1)" by auto
  then show ?thesis
    using assms(3) start_pull_id_alone [of z z 2] by (simp add: True try_start_def refused_def Let_def)
next
  case False
  have n: "leaves_alone z s (fst (nmgr_cx_push y g a b d e s), ns @ snd (nmgr_cx_push y g a b d e s))"
    if "\<forall>x \<in> set ns. \<not> sends_to z x" for g a b d e ns
    using start_push_alone [OF assms(1,2) False, of g 1 a b d e] that
    by (auto simp: leaves_alone_def nmgr_cx_push_def)
  show ?thesis
    using assms(3) start_pull_id_alone [OF disjI1 [OF False]] n
    by (simp add: try_start_def Let_def split_def)
qed

lemma node_by_id: "nmgr_node_by_id tab z = Some nd \<Longrightarrow> nd = tab ! (unat z - 1)"
  by (simp add: nmgr_node_by_id_def split: if_splits)

lemma rr_scan_alone:
  assumes "nm_ok s" "refused z s" "calm z s"
  shows "leaves_alone z s (rr_scan now is s)"
  using assms
proof (induction "is" arbitrary: s)
  case (Cons i "is")
  let ?y = "rr_id s i" and ?s = "upd_zone (rr_id s i) (\<lambda>m. m\<lparr>zm_fresh := False\<rparr>) s"
  have v1: "zone_view z ?s = zone_view z s" by (rule view_upd_zone) simp
  obtain s2 cool where c: "nmgr_cfg_cooling_down ?y now ?s = (s2, cool)" by (metis surj_pair)
  have v2: "zone_view z s2 = zone_view z ?s" "nm_cx s2 = nm_cx s" "nm_tab s2 = nm_tab s"
    using c by (auto simp: nmgr_cfg_cooling_down_def view_upd_zone split: if_splits)
  let ?s3 = "s2\<lparr>nm_rr_next := of_nat (unat ?y mod 8 + 1)\<rparr>"
  have ok1: "nm_ok ?s" using Cons.prems(1) by (auto intro!: nm_ok_upd_zone)
  have ok2: "nm_ok s2" using cooling_ok [OF ok1] c by (metis fst_conv)
  have ok3: "nm_ok ?s3" using ok2 ring_word(2,3) [of "unat ?y"] unfolding nm_ok_def by simp
  have r: "refused z ?s" "refused z s2" "refused z ?s3"
    using Cons.prems(2) refused_view [OF v1] refused_view [OF v2(1)] refused_view [of z ?s3 s2] by simp_all
  have ca: "calm z ?s" "calm z s2" "calm z ?s3" using Cons.prems(3) by (simp_all add: calm_def v2)
  have alone1: "leaves_alone z s (rr_scan now is ?s)" "leaves_alone z s (rr_scan now is s2)" "leaves_alone z s (rr_scan now is s)"
    using Cons.IH [OF ok1 r(1) ca(1)] Cons.IH [OF ok2 r(2) ca(2)] Cons.IH [OF Cons.prems] v1 v2 by (simp_all add: leaves_alone_def)
  show ?case
  proof (cases "zm_fresh (nm_zone s ?y) \<and> (\<exists>nd. nmgr_node_by_id (nm_tab s) ?y = Some nd \<and> nd_used nd \<and>
      \<not> (nd_health nd = NODE_H_OFFLINE \<or> nd_health nd = NODE_H_UPDATING)) \<and> \<not> cool")
    case False
    then show ?thesis using alone1 by (auto simp: Let_def c split: option.split)
  next
    case True
    then obtain nd where nd: "zm_fresh (nm_zone s ?y)" "nmgr_node_by_id (nm_tab s) ?y = Some nd" "nd_used nd"
      "\<not> (nd_health nd = NODE_H_OFFLINE \<or> nd_health nd = NODE_H_UPDATING)" "\<not> cool" by blast
    obtain s4 out started where t: "try_start ?y nd ?s3 = ((s4, out), started)" by (rule nested_pair)
    have a4: "leaves_alone z ?s3 (s4, out)"
    proof -
      have "leaves_alone z ?s3 (fst (try_start ?y nd ?s3))"
        by (rule try_start_alone [OF ok3 rr_id_ok ca(3)]) (use r(3) node_by_id [OF nd(2)] v2(3) in simp)
      then show ?thesis by (simp only: t fst_conv)
    qed
    have ok4: "nm_ok s4" using try_start_ok [OF ok3 rr_id_ok, of s i nd] t by simp
    have v4: "zone_view z s4 = zone_view z s" "calm z s4" "\<forall>x \<in> set out. \<not> sends_to z x"
      using a4 v1 v2 by (simp_all add: leaves_alone_def)
    have "leaves_alone z s4 (rr_scan now is s4)"
      using Cons.IH [OF ok4 _ v4(2)] refused_view [OF v4(1)] Cons.prems(2) by simp
    then show ?thesis using nd t v4 by (auto simp: Let_def c split_def leaves_alone_def)
  qed
qed simp


lemma start_set_req_alone:
  assumes "nm_ok s" "zone_id_ok y" "length want = 336" "y \<noteq> z"
  shows "leaves_alone z s (start_set_req y want s)"
proof -
  obtain n :: nmgr_cache and s0 where s0: "s0 = nmgr_cfg_cooldown_clear y (upd_zone y (\<lambda>m. m\<lparr>zm_cfg := n\<rparr>) s)" "nm_ok s0"
    and run: "start_set_req y want s = start_push y (push_gen_for y (zm_cfg (nm_zone s y)) s) 1
      (fst (hb_of y s)) (snd (hb_of y s)) (push_gen_for y (zm_cfg (nm_zone s y)) s) (nc_crc n) s0"
    by (rule start_set_req_eq [OF assms(1,3), of y]) (rule that, assumption+)
  have "zone_view z s0 = zone_view z s" using assms(4) by (simp add: s0(1) nmgr_cfg_cooldown_clear_def view_upd_zone)
  then show ?thesis
    using start_push_alone [OF s0(2) assms(2,4)] unfolding run by (simp add: leaves_alone_def)
qed

lemma cx_tick_alone:
  assumes "nm_ok s" "calm z s"
  shows "leaves_alone z s (fst (nmgr_cx_tick_1s now s))"
proof (cases "cx_st (nm_cx s) = CX_IDLE")
  case True
  then show ?thesis using assms(2) by (simp add: nmgr_cx_tick_1s_def Let_def)
next
  case False
  have l: "length (nm_tab s) = 8" using assms(1) by (simp add: nm_ok_def)
  note c = calm_cases [OF assms(2) False]
  have p: "zone_id_ok (cx_zone (nm_cx s))" "cx_st (nm_cx s) = CX_RETRY_PUSH \<Longrightarrow> cx_kind (nm_cx s) = 1"
    using assms(1) False by (auto simp: nm_ok_def cx_ok_def)
  have "cx_zone (nm_cx s) \<noteq> z" if "cx_st (nm_cx s) = CX_RETRY_PUSH" using p(2) [OF that] c by auto
  then show ?thesis
    using assms(2) False fail_alone(2) [OF l assms(2) False] start_pull_alone [OF c] start_push_alone [OF assms(1) p(1)]
    by (cases "cx_st (nm_cx s)") (auto simp: nmgr_cx_tick_1s_def Let_def leaves_alone_def)
qed

lemma on_ev_alone:
  assumes "nm_ok s" "calm z s"
  shows "leaves_alone z s (nmgr_cfg_on_ev ev s)"
proof (cases "cx_st (nm_cx s) = CX_PULL_ACK \<or> cx_st (nm_cx s) = CX_PUSH_COMMIT")
  case False
  then show ?thesis using assms(2) by (simp add: nmgr_cfg_on_ev_def Let_def)
next
  case True
  then have i: "cx_st (nm_cx s) \<noteq> CX_IDLE" by auto
  have l: "length (nm_tab s) = 8" using assms(1) by (simp add: nm_ok_def)
  have p: "cx_st (nm_cx s) = CX_PUSH_COMMIT \<Longrightarrow> cx_kind (nm_cx s) = 1"
    using assms(1) by (auto simp: nm_ok_def cx_ok_def)
  have y: "cx_zone (nm_cx s) \<noteq> z" if "cx_st (nm_cx s) = CX_PUSH_COMMIT" using p [OF that] calm_cases [OF assms(2) i] by auto
  have st: "leaves_alone z s (s\<lparr>nm_cx := (nm_cx s)\<lparr>cx_st := CX_PULL_STREAM\<rparr>\<rparr>, [])"
    using calm_cases [OF assms(2) i] by (auto simp: leaves_alone_def calm_def)
  show ?thesis
    using True y st assms(2) fail_alone(2) [OF l assms(2) i] accept_alone(2) [OF assms i]
    by (auto simp: nmgr_cfg_on_ev_def Let_def)
qed

lemma on_chunk_alone:
  assumes "nm_ok s" "calm z s"
  shows "leaves_alone z s (nmgr_cfg_on_chunk f now s)"
proof (cases "cx_st (nm_cx s) \<noteq> CX_PULL_STREAM \<or> h_src (f_hdr f) \<noteq> cx_zone (nm_cx s)")
  case True
  then show ?thesis using assms(2) by (simp add: nmgr_cfg_on_chunk_def)
next
  case False
  obtain a rc where r: "ring_casm_feed (casm_fresh now (nm_casm s)) (frame_bytes f) now = (a, rc)" by (metis surj_pair)
  let ?s = "s\<lparr>nm_casm := a\<rparr>"
  have n: "nm_ok ?s" "calm z ?s" "cx_st (nm_cx ?s) \<noteq> CX_IDLE" "length (nm_tab ?s) = 8"
    using False assms by (simp_all add: calm_def) (simp add: nm_ok_def)
  have "leaves_alone z ?s x \<Longrightarrow> leaves_alone z s x" for x by (simp add: leaves_alone_def)
  then show ?thesis
    using False n accept_alone(1) [OF n(1,2,3)] fail_alone(2) [OF n(4,2,3)]
    by (cases rc) (auto simp: nmgr_cfg_on_chunk_def r Let_def)
qed

lemma take_set_req_alone:
  assumes "zm_set_req (nm_zone s z) = None" "calm z s"
  shows "leaves_alone z s (fst (nmgr_cfg_take_set_req s), [])"
    "nmgr_cfg_take_set_req s = (s', Some (y, want)) \<Longrightarrow> y \<noteq> z"
proof -
  show "nmgr_cfg_take_set_req s = (s', Some (y, want)) \<Longrightarrow> y \<noteq> z" using take_set_req_zone(2) [of s s' y want] assms(1) by auto
  obtain s1 r where t: "nmgr_cfg_take_set_req s = (s1, r)" by (metis surj_pair)
  show "leaves_alone z s (fst (nmgr_cfg_take_set_req s), [])"
  proof (cases r)
    case None
    then show ?thesis using t assms(2) by (auto simp: nmgr_cfg_take_set_req_def leaves_alone_def split: option.splits)
  next
    case (Some q)
    obtain y want where q: "q = (y, want)" by (metis surj_pair)
    note k = take_set_req_zone [OF t [unfolded Some q]]
    have "y \<noteq> z" using k(2) assms(1) by auto
    then show ?thesis using k(3) assms(2) t by (simp add: leaves_alone_def view_upd_zone)
  qed
qed


lemma clear_alone:
  assumes "y \<noteq> z"
  shows "zone_view z (nmgr_cfg_clear y s) = zone_view z s" "calm z s \<Longrightarrow> calm z (nmgr_cfg_clear y s)"
    "zone_view z (nmgr_cfg_invalidate y s) = zone_view z s" "calm z s \<Longrightarrow> calm z (nmgr_cfg_invalidate y s)"
proof -
  have a: "zone_view z (nmgr_cx_abort y s) = zone_view z s" "calm z s \<Longrightarrow> calm z (nmgr_cx_abort y s)" for s
    by (auto simp: nmgr_cx_abort_def view_frames [OF cancel_frames])
  show i: "zone_view z (nmgr_cfg_invalidate y s) = zone_view z s" "calm z s \<Longrightarrow> calm z (nmgr_cfg_invalidate y s)"
    using assms by (auto simp: nmgr_cfg_invalidate_def nmgr_cfg_cooldown_clear_def nmgr_cfg_latch_clear_def a view_upd_zone)
  show "zone_view z (nmgr_cfg_clear y s) = zone_view z s" "calm z s \<Longrightarrow> calm z (nmgr_cfg_clear y s)"
    using assms i by (auto simp: nmgr_cfg_clear_def nmgr_cfg_drop_set_req_def view_upd_zone)
qed

definition marked :: "u8 \<Rightarrow> nmgr \<Rightarrow> bool" where
  "marked z s \<longleftrightarrow> nm_clear_mask s AND push_bit (unat z - 1) 1 \<noteq> 0"

lemma clear_marked_alone:
  assumes "\<not> marked z s0" "calm z s"
  shows "zone_view z (clear_marked (nm_clear_mask s0) s) = zone_view z s \<and> calm z (clear_marked (nm_clear_mask s0) s)"
proof -
  have "zone_view z (fold (\<lambda>id s. if nm_clear_mask s0 AND push_bit (unat id - 1) 1 \<noteq> 0 then nmgr_cfg_clear id s else s) ids s) =
      zone_view z s \<and> calm z (fold (\<lambda>id s. if nm_clear_mask s0 AND push_bit (unat id - 1) 1 \<noteq> 0 then nmgr_cfg_clear id s else s) ids s)"
    for ids using assms(2)
  proof (induction ids arbitrary: s)
    case (Cons y ids)
    let ?s = "if nm_clear_mask s0 AND push_bit (unat y - 1) 1 \<noteq> 0 then nmgr_cfg_clear y s else s"
    have "zone_view z ?s = zone_view z s \<and> calm z ?s"
    proof (cases "y = z")
      case True
      then show ?thesis using assms(1) Cons.prems by (simp add: marked_def)
    next
      case False
      then show ?thesis using clear_alone(1,2) [OF False] Cons.prems by simp
    qed
    then show ?case using Cons.IH [of ?s] by simp
  qed simp
  then show ?thesis by (simp add: clear_marked_def)
qed

definition stuck :: "u8 \<Rightarrow> nmgr \<Rightarrow> bool" where
  "stuck z s \<longleftrightarrow> nm_ok s \<and> zone_id_ok z \<and> refused z s \<and> calm z s \<and> nm_push_req s \<noteq> z \<and> \<not> marked z s"

lemma stuck_after:
  assumes "stuck z s" "nm_ok (fst r)" "leaves_alone z s r"
  shows "stuck z (fst r)" "\<forall>x \<in> set (snd r). \<not> sends_to z x"
proof -
  have v: "zone_view z (fst r) = zone_view z s" using assms(3) by (simp add: leaves_alone_def)
  have "nm_push_req (fst r) = nm_push_req s" "nm_clear_mask (fst r) = nm_clear_mask s"
    using v by (simp_all add: zone_view_def Let_def)
  then show "stuck z (fst r)" "\<forall>x \<in> set (snd r). \<not> sends_to z x"
    using assms refused_view [OF v] by (auto simp: stuck_def leaves_alone_def marked_def)
qed

lemma no_zone_0: "zone_id_ok z \<Longrightarrow> z \<noteq> 0"
  by auto

lemma tick_alone:
  assumes "stuck z s"
  shows "leaves_alone z (s\<lparr>nm_clear_mask := 0, nm_push_req := 0\<rparr>) (nmgr_cfg_tick_1s now s)"
proof -
  let ?s0 = "s\<lparr>nm_clear_mask := 0, nm_push_req := 0\<rparr>" and ?p = "nm_push_req s"
  have ok: "nm_ok s" "zone_id_ok z" "refused z s" "calm z s" "?p \<noteq> z" "\<not> marked z s" using assms by (simp_all add: stuck_def)
  have s0: "nm_ok ?s0" "refused z ?s0" "calm z ?s0" using ok
    by (simp_all add: nm_ok_def calm_def refused_def Let_def nmgr_cfg_latched_def)
  let ?s1 = "clear_marked (nm_clear_mask s) ?s0"
  have s1: "nm_ok ?s1" "zone_view z ?s1 = zone_view z ?s0" "calm z ?s1"
    using clear_marked_ok [OF s0(1)] clear_marked_alone [OF ok(6) s0(3)] by simp_all
  obtain s2 out busy where t: "nmgr_cx_tick_1s now ?s1 = ((s2, out), busy)" by (rule nested_pair)
  have a2: "leaves_alone z ?s1 (s2, out)" using cx_tick_alone [OF s1(1,3), of now] by (simp add: t)
  have s2: "nm_ok s2" "zone_view z s2 = zone_view z ?s0" "calm z s2"
    using cx_tick_ok [OF s1(1), of now] a2 s1(2) by (simp_all add: t leaves_alone_def)
  have r2: "refused z s2" using refused_view [OF s2(2)] s0(2) by simp
  then have q2: "zm_set_req (nm_zone s2 z) = None" by (simp add: refused_def Let_def)
  obtain s3 req where r: "nmgr_cfg_take_set_req s2 = (s3, req)" by (metis surj_pair)
  have s3: "nm_ok s3" "zone_view z s3 = zone_view z s2" "calm z s3"
    using take_set_req_ok [OF s2(1)] take_set_req_alone(1) [OF q2 s2(3)] by (simp_all add: r leaves_alone_def)
  have alone0: "leaves_alone z s3 x \<Longrightarrow> leaves_alone z ?s0 x" for x using s3 s2 by (simp add: leaves_alone_def)
  show ?thesis
  proof (cases busy)
    case True
    then show ?thesis using a2 s1(2) by (simp add: nmgr_cfg_tick_1s_def Let_def t leaves_alone_def)
  next
    case False
    show ?thesis
    proof (cases req)
      case (Some q)
      obtain y want where q: "q = (y, want)" by (metis surj_pair)
      note k = take_set_req_zone [OF r [unfolded Some q]]
      have y: "y \<noteq> z" by (rule take_set_req_alone(2) [OF q2 s2(3) r [unfolded Some q]])
      have "length want = 336" using s2(1) k(2) by (auto simp: nm_ok_def mem_ok_def)
      then have "leaves_alone z s3 (start_set_req y want s3)" by (rule start_set_req_alone [OF s3(1) k(1) _ y])
      then show ?thesis using alone0 False by (simp add: nmgr_cfg_tick_1s_def Let_def t r Some q)
    next
      case None
      have p: "zone_id_ok ?p" if "?p \<noteq> 0" using that ok(1) by (auto simp: nm_ok_def word_le_nat_alt Suc_le_eq unat_gt_0)
      have "leaves_alone z s3 (nmgr_cx_push ?p g a b d e s3)" if "?p \<noteq> 0" for g a b d e
        unfolding nmgr_cx_push_def by (rule start_push_alone [OF s3(1) p [OF that] ok(5)])
      moreover have "leaves_alone z s3 (rr_scan now [0 ..< 8] s3)"
        by (rule rr_scan_alone [OF s3(1) _ s3(3)]) (use refused_view [OF s3(2)] r2 in simp)
      ultimately show ?thesis using alone0 False
        by (auto simp: nmgr_cfg_tick_1s_def Let_def t r None split_def)
    qed
  qed
qed

text \<open>The events that leave the refusal in force: nobody asks for a push of this zone, and it reports what it reported.\<close>

fun nothing_new :: "u8 \<Rightarrow> u32 \<times> u32 \<Rightarrow> cfg_ev \<Rightarrow> bool" where
  "nothing_new z hb (EvPush y) \<longleftrightarrow> y \<noteq> z"
| "nothing_new z hb (EvSet y c) \<longleftrightarrow> y \<noteq> z"
| "nothing_new z hb (EvRequestClear y) \<longleftrightarrow> y \<noteq> z"
| "nothing_new z hb (EvInvalidate y) \<longleftrightarrow> y \<noteq> z"
| "nothing_new z hb (EvClear y) \<longleftrightarrow> y \<noteq> z"
| "nothing_new z hb (EvWorld tab trk seq clk) \<longleftrightarrow>
     (hb_cfg_gen (nd_hb (tab ! (unat z - 1))), hb_cfg_crc (nd_hb (tab ! (unat z - 1)))) = hb"
| "nothing_new z hb _ \<longleftrightarrow> True"

definition reported :: "u8 \<Rightarrow> nmgr \<Rightarrow> u32 \<times> u32" where
  "reported z s = (let hb = nd_hb (nm_tab s ! (unat z - 1)) in (hb_cfg_gen hb, hb_cfg_crc hb))"


lemma marked_bit: "marked z s \<longleftrightarrow> bit (nm_clear_mask s) (unat z - 1)"
proof -
  have "nm_clear_mask s AND push_bit n 1 \<noteq> 0 \<longleftrightarrow> bit (nm_clear_mask s) n" for n
  proof -
    have "bit (nm_clear_mask s AND push_bit n 1) k \<longleftrightarrow> k = n \<and> bit (nm_clear_mask s) n" for k
      by (auto simp: bit_simps dest: bit_imp_le_length)
    then show ?thesis by (metis bit_eqI bit_0_eq bot_apply bot_bool_def)
  qed
  then show ?thesis by (simp add: marked_def)
qed

lemma request_clear_marks:
  assumes "zone_id_ok z" "y \<noteq> z" "\<not> marked z s"
  shows "\<not> marked z (nmgr_cfg_request_clear y s)"
proof (cases "zone_id_ok y")
  case True
  have "unat y - 1 \<noteq> unat z - 1"
    using True assms(1,2) by (metis word_le_nat_alt unat_1 le_add_diff_inverse word_unat_eq_iff)
  then show ?thesis using assms(3) by (auto simp: marked_bit nmgr_cfg_request_clear_def bit_simps)
next
  case False
  then have "y < 1 \<or> y > 8" by (auto simp: not_le)
  then show ?thesis using assms(3) by (simp add: nmgr_cfg_request_clear_def)
qed

lemma alone_no_output:
  assumes "stuck z s" "nm_ok s'" "zone_view z s' = zone_view z s" "calm z s'"
  shows "stuck z s' \<and> reported z s' = reported z s"
  using stuck_after(1) [OF assms(1), of "(s', [])"] assms(2-4)
  by (auto simp: leaves_alone_def reported_def zone_view_def Let_def)

lemma stuck_step:
  assumes "stuck z s" "cfg_ev_ok e" "nothing_new z (reported z s) e"
  shows "stuck z (fst (cfg_step s e)) \<and> reported z (fst (cfg_step s e)) = reported z s \<and>
    (\<forall>x \<in> set (snd (cfg_step s e)). \<not> sends_to z x)"
proof -
  have ok: "nm_ok s" "zone_id_ok z" "refused z s" "calm z s" "nm_push_req s \<noteq> z" "\<not> marked z s" using assms(1) by (simp_all add: stuck_def)
  note n = cfg_step_ok [OF ok(1) assms(2)]
  have via: ?thesis if "leaves_alone z s (cfg_step s e)"
    using stuck_after [OF assms(1) n that] that by (auto simp: leaves_alone_def reported_def zone_view_def Let_def)
  show ?thesis
  proof (cases e)
    case (EvTick now)
    note a = tick_alone [OF assms(1), of now]
    have v: "zone_view z (fst (cfg_step s e)) = zone_view z (s\<lparr>nm_clear_mask := 0, nm_push_req := 0\<rparr>)"
      using a by (simp add: EvTick leaves_alone_def)
    have r: "refused z (s\<lparr>nm_clear_mask := 0, nm_push_req := 0\<rparr>)"
      using ok(3) by (simp add: refused_def Let_def nmgr_cfg_latched_def)
    have "nm_push_req (fst (cfg_step s e)) = 0" "nm_clear_mask (fst (cfg_step s e)) = 0" "reported z (fst (cfg_step s e)) = reported z s"
      using v by (simp_all add: zone_view_def reported_def Let_def)
    then show ?thesis using a r refused_view [OF v] n ok(2) no_zone_0 [OF ok(2)]
      by (auto simp: EvTick stuck_def leaves_alone_def marked_def)
  next
    case (EvChunk f now)
    show ?thesis by (rule via) (simp add: EvChunk on_chunk_alone ok)
  next
    case (EvTrk ev)
    show ?thesis by (rule via) (simp add: EvTrk on_ev_alone ok)
  next
    case (EvHb y)
    show ?thesis by (rule via) (use ok(4) in \<open>auto simp: EvHb nmgr_cfg_note_fresh_hb_def leaves_alone_def view_upd_zone\<close>)
  next
    case (EvSet y c)
    then have "y \<noteq> z" using assms(3) by simp
    then show ?thesis using ok(4)
      by (intro via) (auto simp: EvSet node_mgr_cfg_set_def leaves_alone_def view_upd_zone split: option.split)
  next
    case (EvInvalidate y)
    then show ?thesis using assms(3) clear_alone(3,4) ok(4) by (intro via) (simp add: leaves_alone_def)
  next
    case (EvClear y)
    then show ?thesis using assms(3) clear_alone(1,2) ok(4) by (intro via) (simp add: leaves_alone_def)
  next
    case (EvPush y)
    then have "y \<noteq> z" using assms(3) by simp
    then show ?thesis using ok n
      by (auto simp: EvPush node_mgr_push_cfg_def stuck_def reported_def refused_def calm_def marked_def Let_def nmgr_cfg_latched_def)
  next
    case (EvRequestClear y)
    have m: "\<not> marked z (nmgr_cfg_request_clear y s)" using request_clear_marks [OF ok(2) _ ok(6)] assms(3) by (simp add: EvRequestClear)
    then show ?thesis using ok n
      by (auto simp: EvRequestClear nmgr_cfg_request_clear_def stuck_def reported_def refused_def calm_def Let_def nmgr_cfg_latched_def)
  next
    case (EvWorld tab trk seq clk)
    then show ?thesis using ok n assms(3)
      by (auto simp: EvWorld stuck_def reported_def refused_def calm_def marked_def Let_def nmgr_cfg_latched_def)
  qed
qed

lemma stuck_run:
  assumes "stuck z s" "\<forall>e \<in> set es. cfg_ev_ok e \<and> nothing_new z (reported z s) e"
  shows "\<forall>outs \<in> set (snd (run_steps cfg_step s es)). \<forall>x \<in> set outs. \<not> sends_to z x"
  using assms
proof (induction es arbitrary: s)
  case (Cons e es)
  have st: "stuck z (fst (cfg_step s e))" "reported z (fst (cfg_step s e)) = reported z s"
    "\<forall>x \<in> set (snd (cfg_step s e)). \<not> sends_to z x" using stuck_step [OF Cons.prems(1), of e] Cons.prems(2) by simp_all
  show ?case using Cons.IH [OF st(1)] st(2,3) Cons.prems(2) by simp
qed simp


text \<open>The answer that ends a push for good, and the circumstances of the push unchanged since it began.\<close>

definition commit_refused :: "ring_trk_ev \<Rightarrow> nmgr \<Rightarrow> bool" where
  "commit_refused ev s \<longleftrightarrow> cx_st (nm_cx s) = CX_PUSH_COMMIT \<and> ev_seq ev = cx_trk_seq (nm_cx s) \<and>
     ev_kind ev = EV_DONE \<and> ev_status ev \<noteq> 0 \<and>
     (take 15 (ev_detail ev) = bytes_of ''ERR CFG_VERSION'' \<or> take 17 (ev_detail ev) = bytes_of ''ERR INVALID_FIELD'')"

definition as_pushed :: "nmgr \<Rightarrow> bool" where
  "as_pushed s \<longleftrightarrow>
     (let c = nm_cx s; m = nm_zone s (cx_zone c) in
      nc_valid (zm_cfg m) \<and> zm_set_req m = None \<and>
      (cx_cache_gen c, cx_cache_crc c) = (nc_gen (zm_cfg m), nc_crc (zm_cfg m)) \<and>
      (cx_hb_gen c, cx_hb_crc c) = reported (cx_zone c) s)"

lemma refusal_sticks:
  assumes "nm_ok s" "commit_refused ev s" "as_pushed s"
    "nm_push_req s \<noteq> cx_zone (nm_cx s)" "\<not> marked (cx_zone (nm_cx s)) s"
  shows "stuck (cx_zone (nm_cx s)) (fst (nmgr_cfg_on_ev ev s))"
    "reported (cx_zone (nm_cx s)) (fst (nmgr_cfg_on_ev ev s)) = reported (cx_zone (nm_cx s)) s"
    "snd (nmgr_cfg_on_ev ev s) = [NmNote (cx_zone (nm_cx s)) NTF_NODE (cx_zone (nm_cx s)) ''CFG_SYNC_FAILED'']"
    "node_mgr_cfg_sync_failed (cx_zone (nm_cx s)) (fst (nmgr_cfg_on_ev ev s))"
proof -
  let ?c = "nm_cx s"
  let ?z = "cx_zone ?c" and ?s' = "fst (nmgr_cfg_on_ev ev s)"
  have st: "cx_st ?c = CX_PUSH_COMMIT" using assms(2) by (simp add: commit_refused_def)
  have z: "zone_id_ok ?z" "cx_kind ?c = 1" using assms(1) st by (auto simp: nm_ok_def cx_ok_def)
  have l: "latch_slot ?z 1" "\<not> (?z < 1 \<or> 8 < ?z)" "length (nm_tab s) = 8"
    using z assms(1) by (simp_all add: latch_slot_def word_less_nat_alt word_le_nat_alt nm_ok_def)
  have e: "nmgr_cfg_on_ev ev s = finish_failed True s"
    using assms(2) by (auto simp: nmgr_cfg_on_ev_def Let_def commit_refused_def fail_or_retry_def)
  define nf where "nf = nmgr_cfg_note_failed ?z 1 True (cx_hb_gen ?c) (cx_hb_crc ?c) (cx_cache_gen ?c) (cx_cache_crc ?c) s"
  have ff: "finish_failed True s = (nmgr_cx_init (fst nf), snd nf)"
    by (simp add: finish_failed_def Let_def split_def nf_def z(2))
  have m: "nm_zone (fst nf) ?z = (nm_zone s ?z)\<lparr>zm_latch_cfg := \<lparr>la_valid = True, la_hb_gen = cx_hb_gen ?c, la_hb_crc = cx_hb_crc ?c,
      la_cache_gen = cx_cache_gen ?c, la_cache_crc = cx_cache_crc ?c\<rparr>\<rparr>"
    "nm_push_req (fst nf) = nm_push_req s" "nm_clear_mask (fst nf) = nm_clear_mask s"
    using l(1) by (auto simp: nf_def nmgr_cfg_note_failed_def Let_def set_latch_def split: option.split)
  have h: "nd_hb (nm_tab (fst nf) ! i) = nd_hb (nm_tab s ! i)" for i
    using l(1,3) by (cases "i < 8"; cases "i = unat ?z - 1")
      (auto simp: nf_def nmgr_cfg_note_failed_def Let_def upd_node_def list_update_beyond split: option.split)
  show r: "reported ?z ?s' = reported ?z s" by (simp add: e ff reported_def nmgr_cx_init_def h)
  show "snd (nmgr_cfg_on_ev ev s) = [NmNote ?z NTF_NODE ?z ''CFG_SYNC_FAILED'']"
    by (simp add: e ff nf_def note_failed_out l(1))
  show "node_mgr_cfg_sync_failed ?z ?s'" using l(2) by (simp add: e ff node_mgr_cfg_sync_failed_def nmgr_cx_init_def m)
  have "refused ?z ?s'"
    using assms(3) l(1) by (simp add: e ff refused_def as_pushed_def Let_def nmgr_cx_init_def m h nmgr_cfg_latched_def latch_of_def reported_def)
  moreover have "nm_ok ?s'" by (rule on_ev_ok [OF assms(1)])
  moreover have "calm ?z ?s'" by (simp add: e ff)
  moreover have "nm_push_req ?s' \<noteq> ?z" "\<not> marked ?z ?s'" using assms(4,5) by (simp_all add: e ff nmgr_cx_init_def m marked_def)
  ultimately show "stuck ?z ?s'" using z(1) by (simp add: stuck_def)
qed

lemma push_wire_unique: "is_push_wire w gen p \<Longrightarrow> is_push_wire w gen q \<Longrightarrow> p = q"
proof -
  assume p: "is_push_wire w gen p" and q: "is_push_wire w gen q"
  have "drop HG_BLOB_HDR_LEN w = x" if x: "is_push_wire w gen x" for x
  proof -
    obtain w' where "hg_blob_wrap HG_MAGIC_CFG HG_CFG_VER gen x WIRE_MAX = Some w'" "length w' = 16 + length x"
      "drop HG_BLOB_HDR_LEN w' = x" by (rule wrap_ok [of x]) (use x in \<open>simp add: is_push_wire_def\<close>)
    then show ?thesis using x by (simp add: is_push_wire_def)
  qed
  then show ?thesis using p q by blast
qed

section \<open>Requests and the scan\<close>

text \<open>A transfer that owns the tick takes the place of a push that was asked for.\<close>

lemma busy_tick_drops:
  assumes "cx_st (nm_cx s) = CX_PULL_ACK \<or> cx_st (nm_cx s) = CX_PUSH_COMMIT" "nm_clear_mask s = 0"
  shows "nmgr_cfg_tick_1s now s = (s\<lparr>nm_push_req := 0\<rparr>, [])"
proof -
  have "nm_clear_mask s = 0 \<Longrightarrow> s\<lparr>nm_clear_mask := 0, nm_push_req := 0\<rparr> = s\<lparr>nm_push_req := 0\<rparr>" by simp
  then show ?thesis using assms
    by (auto simp: nmgr_cfg_tick_1s_def Let_def nmgr_cx_tick_1s_def)
qed

text \<open>A zone that is up and has what the master has.\<close>

definition in_sync :: "u8 \<Rightarrow> nmgr \<Rightarrow> bool" where
  "in_sync z s \<longleftrightarrow>
     (let m = nm_zone s z; nd = nm_tab s ! (unat z - 1); hb = nd_hb nd in
      nd_used nd \<and> nd_health nd = NODE_H_ONLINE \<and> zm_cooldown m = 0 \<and> nc_valid (zm_cfg m) \<and> nc_valid (zm_hw m) \<and>
      hb_cfg_gen hb = nc_gen (zm_cfg m) \<and> hb_cfg_crc hb = nc_crc (zm_cfg m) \<and> hb_hw_crc hb = nc_crc (zm_hw m))"

lemma scan_one:
  assumes "rr_id s i = z" "zone_id_ok z" "in_sync z s" "zm_fresh (nm_zone s z)"
  shows "rr_scan now (i # is) s = rr_scan now is
    ((upd_zone z (\<lambda>m. m\<lparr>zm_fresh := False\<rparr>) s)\<lparr>nm_rr_next := of_nat (unat z mod 8 + 1)\<rparr>)"
proof -
  define s1 where "s1 = upd_zone z (\<lambda>m. m\<lparr>zm_fresh := False\<rparr>) s"
  define nd where "nd = nm_tab s ! (unat z - 1)"
  have b: "\<not> (z < 1 \<or> 8 < z)" using assms(2) by (auto simp: not_less)
  then have n: "nmgr_node_by_id (nm_tab s1) z = Some nd" by (simp add: nmgr_node_by_id_def nd_def s1_def)
  have y: "in_sync z s1" using assms(3) by (simp add: in_sync_def Let_def s1_def)
  then have c: "nmgr_cfg_cooling_down z now s1 = (s1, False)" by (simp add: nmgr_cfg_cooling_down_def in_sync_def Let_def)
  have t: "try_start z nd (s1\<lparr>nm_rr_next := x\<rparr>) = ((s1\<lparr>nm_rr_next := x\<rparr>, []), False)" for x
    using y by (simp add: try_start_def in_sync_def Let_def nd_def s1_def)
  have h: "nd_used nd" "nd_health nd = NODE_H_ONLINE" using y by (simp_all add: in_sync_def Let_def nd_def s1_def)
  show ?thesis
    unfolding s1_def [symmetric] rr_scan.simps Let_def assms(1)
    using assms(4) h by (simp add: n c t split_def)
qed

lemma in_sync_after [simp]: "in_sync y ((upd_zone z (\<lambda>m. m\<lparr>zm_fresh := b\<rparr>) s)\<lparr>nm_rr_next := n\<rparr>) = in_sync y s"
  by (simp add: in_sync_def Let_def)


definition visit :: "u8 \<Rightarrow> nmgr \<Rightarrow> nmgr" where
  "visit z s = (upd_zone z (\<lambda>m. m\<lparr>zm_fresh := False\<rparr>) s)\<lparr>nm_rr_next := of_nat (unat z mod 8 + 1)\<rparr>"

lemma visit_simps [simp]:
  "in_sync y (visit z s) = in_sync y s" "zm_fresh (nm_zone (visit z s) y) = (y \<noteq> z \<and> zm_fresh (nm_zone s y))"
  "nm_rr_next (visit z s) = of_nat (unat z mod 8 + 1)"
  by (simp_all add: visit_def)

text \<open>All eight zones are due, and none needs anything: the walk is 1, 3, 6, 2, 7, 5, 4, 4.\<close>

lemma full_scan:
  assumes "\<forall>z. zone_id_ok z \<longrightarrow> in_sync z s \<and> zm_fresh (nm_zone s z)" "nm_rr_next s = 1"
  shows "rr_scan now [0 ..< 8] s = (visit 4 (visit 5 (visit 7 (visit 2 (visit 6 (visit 3 (visit 1 s)))))), [])"
proof -
  let ?s1 = "visit 1 s"
  let ?s2 = "visit 3 ?s1"
  let ?s3 = "visit 6 ?s2"
  let ?s4 = "visit 2 ?s3"
  let ?s5 = "visit 7 ?s4"
  let ?s6 = "visit 5 ?s5"
  let ?s7 = "visit 4 ?s6"
  have y: "in_sync z s" "zm_fresh (nm_zone s z)" if "z \<in> {1, 2, 3, 4, 5, 6, 7}" for z using assms(1) that by auto
  note step = scan_one [where now = now, folded visit_def]
  have l: "[0 ..< 8] = [0, 1, 2, 3, 4, 5, 6, 7 :: nat]" by (simp add: upt_rec)
  have "rr_scan now [0, 1, 2, 3, 4, 5, 6, 7] s = rr_scan now [1, 2, 3, 4, 5, 6, 7] ?s1"
    by (rule step) (simp_all add: rr_id_def assms(2) y)
  also have "\<dots> = rr_scan now [2, 3, 4, 5, 6, 7] ?s2" by (rule step) (simp_all add: rr_id_def y)
  also have "\<dots> = rr_scan now [3, 4, 5, 6, 7] ?s3" by (rule step) (simp_all add: rr_id_def y)
  also have "\<dots> = rr_scan now [4, 5, 6, 7] ?s4" by (rule step) (simp_all add: rr_id_def y)
  also have "\<dots> = rr_scan now [5, 6, 7] ?s5" by (rule step) (simp_all add: rr_id_def y)
  also have "\<dots> = rr_scan now [6, 7] ?s6" by (rule step) (simp_all add: rr_id_def y)
  also have "\<dots> = rr_scan now [7] ?s7" by (rule step) (simp_all add: rr_id_def y)
  also have "\<dots> = (?s7, [])" by (simp add: rr_id_def)
  finally show ?thesis by (simp add: l)
qed

section \<open>Examples\<close>

definition pushing_mem :: zone_mem where
  "pushing_mem = zone_mem_zero\<lparr>zm_cfg := \<lparr>nc_blob = new_wire, nc_gen = 1,
     nc_crc = hg_crc32 0 (take 336 (drop HG_BLOB_HDR_LEN new_wire)), nc_valid = True\<rparr>\<rparr>"

definition pushing_node :: hg_node where
  "pushing_node = (sample_node 1 1 NODE_H_ONLINE)\<lparr>nd_hb := sample_hb\<lparr>hb_cfg_gen := 0, hb_cfg_crc := 5\<rparr>\<rparr>"

definition pushing :: nmgr where
  "pushing = \<lparr>nm_tab = replicate 8 pushing_node, nm_trk = [], nm_seq = 7, nm_clock = 0,
     nm_zone = (\<lambda>z. zone_mem_zero)(1 := pushing_mem), nm_rr_next = 2, nm_push_req = 0, nm_clear_mask = 0,
     nm_cx = \<lparr>cx_st = CX_PUSH_COMMIT, cx_zone = 1, cx_kind = 1, cx_attempt = 1, cx_retry_at_ms = 0, cx_trk_seq = 7,
       cx_push_gen = 1, cx_hb_gen = 0, cx_hb_crc = 5, cx_cache_gen = 1,
       cx_cache_crc = hg_crc32 0 (take 336 (drop HG_BLOB_HDR_LEN new_wire))\<rparr>,
     nm_casm = ring_casm_init, nm_push_wire = new_wire\<rparr>"

lemma pushing_wire: "is_push_wire new_wire 1 new_cfg"
  using new_cfg_facts by (simp add: is_push_wire_def WIRE_MAX_def HG_BLOB_HDR_LEN_def)

lemma pushing_ok: "nm_ok pushing"
proof -
  have "cache_ok 1 (zm_cfg pushing_mem)" using is_push_wire_facts [OF pushing_wire] unfolding cache_ok_def
    by (auto simp: pushing_mem_def)
  then show ?thesis using pushing_wire
    by (auto simp: nm_ok_def pushing_def mem_ok_def zone_mem_zero_def pushing_mem_def cx_ok_def)
qed

definition push_end :: "u8 \<Rightarrow> string \<Rightarrow> ring_trk_ev" where
  "push_end st tok = \<lparr>ev_kind = EV_DONE, ev_seq = 7, ev_dst = 1, ev_type = RING_T_CFG_COMMIT, ev_wire = None,
     ev_status = st, ev_detail = bytes_of tok, ev_fail_token = None\<rparr>"

definition online :: nmgr where
  "online = pushing\<lparr>nm_cx := cx_zero\<rparr>"

lemma online_ok: "nm_ok online"
  using pushing_ok by (simp add: online_def nm_ok_cx)

section \<open>Properties\<close>

text \<open>A write that was accepted and has become a push is undone by the acknowledgement of a forwarded SET for the same zone: the slot is freed, the cached plane with the operator's values is gone, and nothing is marked as failed.\<close>

lemma forwarded_edit_discards_a_write:
  assumes "nm_ok s" "cx_st (nm_cx s) = CX_IDLE" "nm_clear_mask s = 0" "\<forall>y < zone. zm_set_req (nm_zone s y) = None"
    "length want = 336" "node_mgr_cfg_set zone want s = (s1, 0)"
  shows "let s2 = fst (nmgr_cfg_tick_1s now s1); s3 = nmgr_cfg_invalidate zone s2 in
    node_mgr_cfg_busy zone s2 \<and> cx_st (nm_cx s3) = CX_IDLE \<and> node_mgr_cfg_get zone s3 = None \<and> \<not> node_mgr_cfg_sync_failed zone s3"
proof -
  obtain s3 where r: "nmgr_cfg_tick_1s now s1 = start_set_req zone want s3" "nm_ok s3"
    using write_tick [OF assms(2,3,4,6)] assms(1) by metis
  have z: "zone_id_ok zone" by (rule cfg_set_accepted(1) [OF assms(6)])
  have b: "nmgr_cx_busy zone (fst (nmgr_cfg_tick_1s now s1))" unfolding r(1) by (rule write_becomes_a_push(4) [OF r(2) z assms(5)])
  have n: "\<not> (zone < 1 \<or> 8 < zone)" using z by (auto simp: not_less)
  have f: "nm_zone (nmgr_cx_abort zone s) = nm_zone s" for s
    by (simp add: nmgr_cx_abort_def nmgr_cx_init_def same_but_frames_simps(1) [OF cancel_frames])
  show ?thesis using b n
    by (simp add: Let_def node_mgr_cfg_busy_def nmgr_cfg_invalidate_def node_mgr_cfg_get_def node_mgr_cfg_sync_failed_def
        nmgr_cfg_cooldown_clear_def nmgr_cfg_latch_clear_def f cache_zero_def latch_zero_def)
      (simp add: nmgr_cx_abort_def nmgr_cx_busy_def nmgr_cx_init_def cx_zero_def)
qed

lemma forwarded_edit_discards_a_write_witness:
  \<open>\<exists>s1. node_mgr_cfg_set 1 new_cfg online = (s1, 0) \<and>
    node_mgr_cfg_get 1 (nmgr_cfg_invalidate 1 (fst (nmgr_cfg_tick_1s 0 s1))) = None\<close>
proof -
  let ?s1 = "upd_zone 1 (\<lambda>m. m\<lparr>zm_set_req := Some new_cfg\<rparr>) online"
  have q: "zm_set_req (nm_zone online y) = None" for y
    by (simp add: online_def pushing_def pushing_mem_def zone_mem_zero_def)
  have a: "node_mgr_cfg_set 1 new_cfg online = (?s1, 0)"
    by (simp add: node_mgr_cfg_set_def nmgr_node_by_id_def online_def pushing_def pushing_node_def sample_node_def
        nmgr_cx_busy_def cx_zero_def pushing_mem_def zone_mem_zero_def)
  have i: "cx_st (nm_cx online) = CX_IDLE" "nm_clear_mask online = 0" by (simp_all add: online_def cx_zero_def pushing_def)
  show ?thesis
    using forwarded_edit_discards_a_write [OF online_ok i _ new_cfg_facts(1) a, of 0] q a by (auto simp: Let_def)
qed

text \<open>The scan reads its starting point anew in every round while a decision moves it: with all eight zones due and in order, it looks at the zones 1, 3, 6, 2, 7, 5, 4 and again 4, and leaves zone 8 for a later tick although nothing was started.\<close>

lemma scan_can_pass_over_a_zone:
  assumes "\<forall>z. 1 \<le> z \<and> z \<le> 8 \<longrightarrow> in_sync z s \<and> zm_fresh (nm_zone s z)" "nm_rr_next s = 1"
  shows "let (s', out) = rr_scan now [0 ..< 8] s in
    out = [] \<and> (\<forall>z. 1 \<le> z \<and> z \<le> 8 \<longrightarrow> zm_fresh (nm_zone s' z) = (z = 8))"
proof -
  have d: "z = 1 \<or> z = 2 \<or> z = 3 \<or> z = 4 \<or> z = 5 \<or> z = 6 \<or> z = 7 \<or> z = 8" if "1 \<le> z \<and> z \<le> 8" for z :: u8
  proof -
    have "unat z \<in> {1 .. 8}" using that by (simp add: word_le_nat_alt)
    then have "unat z \<in> unat ` {1, 2, 3, 4, 5, 6, 7, 8 :: u8}" by auto
    then show ?thesis by (metis (no_types, lifting) imageE insertE empty_iff word_unat_eq_iff)
  qed
  then show ?thesis using full_scan [OF assms, of now] assms(1) by (auto dest!: d)
qed

lemma scan_can_pass_over_a_zone_witness:
  \<open>let s = pushing\<lparr>nm_rr_next := 1, nm_tab := replicate 8 (pushing_node\<lparr>nd_hb := sample_hb\<lparr>hb_cfg_gen := 0, hb_cfg_crc := 0, hb_hw_crc := 0\<rparr>\<rparr>),
      nm_zone := (\<lambda>z. zone_mem_zero\<lparr>zm_fresh := True, zm_cfg := cache_zero\<lparr>nc_valid := True\<rparr>, zm_hw := cache_zero\<lparr>nc_valid := True\<rparr>\<rparr>)\<rparr>
    in zm_fresh (nm_zone (fst (rr_scan 0 [0 ..< 8] s)) 8)\<close>
  unfolding Let_def
  by (rule scan_can_pass_over_a_zone [where now = 0, unfolded Let_def split_def, THEN conjunct2, rule_format, THEN iffD2])
    (auto simp: in_sync_def Let_def pushing_def pushing_node_def sample_node_def zone_mem_zero_def cache_zero_def
      word_le_nat_alt word_less_nat_alt nth_replicate)

text \<open>A push request is accepted while a transfer is under way, and the next tick drops it without starting the push, as the header of the component says it may.\<close>

lemma accepted_push_request_can_be_lost:
  assumes "node_mgr_push_cfg zone s = (s1, 0)" "cx_st (nm_cx s) = CX_PULL_ACK \<or> cx_st (nm_cx s) = CX_PUSH_COMMIT" "nm_clear_mask s = 0"
  shows "nm_push_req s1 = zone \<and> nmgr_cfg_tick_1s now s1 = (s\<lparr>nm_push_req := 0\<rparr>, [])"
proof -
  have "s1 = s\<lparr>nm_push_req := zone\<rparr>" using assms(1) by (auto simp: node_mgr_push_cfg_def split: if_splits)
  then show ?thesis using busy_tick_drops [of s1 now] assms(2,3) by simp
qed

lemma accepted_push_request_can_be_lost_witness:
  \<open>nmgr_cfg_tick_1s 5 (fst (node_mgr_push_cfg 1 pushing)) = (pushing\<lparr>nm_push_req := 0\<rparr>, [])\<close>
proof -
  have "node_mgr_push_cfg 1 pushing = (pushing\<lparr>nm_push_req := 1\<rparr>, 0)"
    by (simp add: node_mgr_push_cfg_def pushing_def pushing_mem_def)
  from accepted_push_request_can_be_lost [OF this, of 5] show ?thesis
    by (simp add: node_mgr_push_cfg_def pushing_def pushing_mem_def)
qed

text \<open>C1. When the chunks of a push reach the zone, in any order and with repetitions, the zone has an older generation and the plane suits its hardware, then the commit is answered with OK, and once that answer is back the two sides agree: the zone's live plane is the one the master hands out, generation and checksum are those of the master's cache and the slot for transfers is free. A heartbeat that reports this starts no transfer of the logical plane: if the hardware plane it reports is the cached one, or that fetch is latched as failed, the master does nothing at all, no frame is queued either, and otherwise it fetches the hardware plane.\<close>

lemma push_brings_master_and_zone_together:
  fixes fin :: u32
  assumes "nm_ok s" "is_push_wire (nm_push_wire s) (cx_push_gen (nm_cx s)) plane"
    "push_arrives 1 (cx_push_gen (nm_cx s)) (nm_push_wire s) is fs f now z"
    "cfg_generation (m_cfg (zr_model z)) < cx_push_gen (nm_cx s)"
    "hg_cfg_validate plane (Some (m_hw (zr_model z))) = Inr ()" "commit_acked ev s"
  shows "let zone = cx_zone (nm_cx s); s' = fst (nmgr_cfg_on_ev ev s);
      (z', out) = zone_ring_cfg_commit f now fin (feed_chunks fs z); m = zr_model z'; c = zm_cfg (nm_zone s' zone) in
    map ack_seen out = [Some (ok_for f), None] \<and>
    (\<exists>hw. node_mgr_cfg_get zone s' = Some (m_cfg m, cx_push_gen (nm_cx s), hw)) \<and>
    hg_model_cfg_info m = (nc_gen c, nc_crc c) \<and> cx_st (nm_cx s') = CX_IDLE \<and>
    (\<forall>nd. (hb_cfg_gen (nd_hb nd), hb_cfg_crc (nd_hb nd)) = hg_model_cfg_info m \<longrightarrow>
       (let hw = zm_hw (nm_zone s' zone); h = hb_hw_crc (nd_hb nd) in
         if nc_valid hw \<and> h = nc_crc hw \<or> nmgr_cfg_latched zone 2 0 h 0 (nc_crc hw) s' then try_start zone nd s' = ((s', []), False)
         else \<exists>s2. try_start zone nd s' = ((s2, []), True) \<and> fetches zone 2 s' s2))"
proof -
  have st: "cx_st (nm_cx s) = CX_PUSH_COMMIT" using assms(6) by (simp add: commit_acked_def)
  have v: "hg_cfg_validate p (Some (m_hw (zr_model z))) = Inr ()"
    if "is_push_wire (nm_push_wire s) (cx_push_gen (nm_cx s)) p" for p
    using push_wire_unique [OF assms(2) that] assms(5) by simp
  note a = push_agrees [OF assms(1) st assms(3,4) v assms(6)]
  show ?thesis
    unfolding Let_def split_def
    by (intro conjI a(1,2,4,5) allI impI in_sync_decision [OF a(3), unfolded Let_def]) (use a(2) in simp_all)
qed

lemma push_brings_master_and_zone_together_witness:
  \<open>hg_model_cfg_info (zr_model (fst (zone_ring_cfg_commit (push_commit 1) 0 0 (feed_chunks (push_chunks 1 new_wire) new_zone)))) =
    (nc_gen (zm_cfg (nm_zone (fst (nmgr_cfg_on_ev (push_end 0 ''OK'') pushing)) 1)),
     nc_crc (zm_cfg (nm_zone (fst (nmgr_cfg_on_ev (push_end 0 ''OK'') pushing)) 1)))\<close>
proof -
  have p: "cx_push_gen (nm_cx pushing) = 1" "nm_push_wire pushing = new_wire" "cx_zone (nm_cx pushing) = 1" by (simp_all add: pushing_def)
  have "is_push_wire (nm_push_wire pushing) (cx_push_gen (nm_cx pushing)) new_cfg" by (simp add: p pushing_wire)
  moreover have "push_arrives 1 (cx_push_gen (nm_cx pushing)) (nm_push_wire pushing) (map of_nat [0 ..< 4])
      (push_chunks 1 new_wire) (push_commit 1) 0 new_zone" unfolding p by (rule new_push_arrives [OF new_zone_facts(1,2)])
  moreover have "cfg_generation (m_cfg (zr_model new_zone)) < cx_push_gen (nm_cx pushing)" by (simp add: p new_zone_facts new_cfg_facts)
  moreover have "hg_cfg_validate new_cfg (Some (m_hw (zr_model new_zone))) = Inr ()" by (simp add: new_zone_facts new_cfg_facts)
  moreover have "commit_acked (push_end 0 ''OK'') pushing" by (simp add: commit_acked_def push_end_def pushing_def)
  ultimately show ?thesis
    using push_brings_master_and_zone_together [OF pushing_ok, of new_cfg "map of_nat [0 ..< 4]" "push_chunks 1 new_wire" "push_commit 1" 0
        new_zone "push_end 0 ''OK''" 0]
    by (simp add: Let_def split_def p)
qed

text \<open>C8. A zone that refuses a plane for its version or a field, with nothing changed since the push began, is reported once and marked, and no chunk is sent to it again by whatever ticks, frames, answers, heartbeats and requests for other zones follow, as long as nobody asks for a push, a write or a reset of this zone and its heartbeats report the same plane.\<close>

lemma refused_plane_is_not_pushed_again:
  assumes "nm_ok s" "commit_refused ev s" "as_pushed s" "nm_push_req s \<noteq> cx_zone (nm_cx s)" "\<not> marked (cx_zone (nm_cx s)) s"
    "\<forall>e \<in> set es. cfg_ev_ok e \<and> nothing_new (cx_zone (nm_cx s)) (reported (cx_zone (nm_cx s)) s) e"
  shows "let zone = cx_zone (nm_cx s); (s', out) = nmgr_cfg_on_ev ev s in
    out = [NmNote zone NTF_NODE zone ''CFG_SYNC_FAILED''] \<and> node_mgr_cfg_sync_failed zone s' \<and>
    (\<forall>outs \<in> set (snd (run_steps cfg_step s' es)). \<forall>x \<in> set outs. \<not> sends_to zone x)"
proof -
  note r = refusal_sticks [OF assms(1-5)]
  have "\<forall>e \<in> set es. cfg_ev_ok e \<and> nothing_new (cx_zone (nm_cx s)) (reported (cx_zone (nm_cx s)) (fst (nmgr_cfg_on_ev ev s))) e"
    using assms(6) by (simp add: r(2))
  then show ?thesis using stuck_run [OF r(1)] r(3,4) by (simp add: Let_def split_def)
qed

lemma refused_plane_is_not_pushed_again_witness:
  \<open>list_all (list_all (\<lambda>x. \<not> sends_to 1 x)) (snd (run_steps cfg_step (fst (nmgr_cfg_on_ev (push_end 1 ''ERR CFG_VERSION'') pushing))
     [EvHb 1, EvTick 1000, EvHb 1, EvTick 2000]))\<close>
proof -
  have "commit_refused (push_end 1 ''ERR CFG_VERSION'') pushing" by (simp add: commit_refused_def push_end_def pushing_def bytes_of_def)
  moreover have "as_pushed pushing" "cx_zone (nm_cx pushing) = 1" "nm_push_req pushing = 0" "\<not> marked 1 pushing"
    by (simp_all add: as_pushed_def pushing_def pushing_mem_def zone_mem_zero_def reported_def pushing_node_def marked_def)
  ultimately show ?thesis
    using refused_plane_is_not_pushed_again [OF pushing_ok, of "push_end 1 ''ERR CFG_VERSION''" "[EvHb 1, EvTick 1000, EvHb 1, EvTick 2000]"]
    by (simp add: Let_def split_def list_all_iff)
qed

text \<open>C13. Whatever the ring, the operator and the other tasks do, a cached logical plane can always be read: the interface returns a whole plane with the cached generation, whose checksum is the cached one; it returns nothing only for a zone with no valid plane. A transfer is for a zone that exists and has been tried at most four times, and what is pushed is a logical plane whose generation is the pushed one.\<close>

lemma cached_configurations_are_whole:
  assumes "length (nm_tab s) = 8" "nm_push_req s \<le> 8" "\<forall>e \<in> set es. cfg_ev_ok e" "1 \<le> z" "z \<le> 8"
  shows "let s' = fst (run_steps cfg_step (nmgr_cfg_init s) es); c = zm_cfg (nm_zone s' z); x = nm_cx s' in
    (case node_mgr_cfg_get z s' of None \<Rightarrow> \<not> nc_valid c
     | Some (plane, gen, hw) \<Rightarrow> nc_valid c \<and> length plane = 336 \<and> gen = nc_gen c \<and> hg_crc32 0 plane = nc_crc c \<and>
         (case hw of None \<Rightarrow> \<not> nc_valid (zm_hw (nm_zone s' z)) | Some h \<Rightarrow> length h = 160 \<and> hg_crc32 0 h = nc_crc (zm_hw (nm_zone s' z)))) \<and>
    (cx_st x \<noteq> CX_IDLE \<longrightarrow> 1 \<le> cx_zone x \<and> cx_zone x \<le> 8 \<and> 1 \<le> cx_attempt x \<and> cx_attempt x \<le> 4) \<and>
    (cx_st x = CX_PUSH_COMMIT \<or> cx_st x = CX_RETRY_PUSH \<longrightarrow> (\<exists>plane. is_push_wire (nm_push_wire s') (cx_push_gen x) plane))"
proof -
  let ?s = "fst (run_steps cfg_step (nmgr_cfg_init s) es)"
  have ok: "nm_ok ?s" by (rule ncfg.guarded_run_keeps [OF ncfg_init_ok [OF assms(1,2)] assms(3)])
  show ?thesis
    using cfg_get_cached [OF ok, of z] assms(4,5) ok
    by (auto simp: Let_def holds_plane_def nm_ok_def cx_ok_def split: option.splits)
qed

lemma cached_configurations_are_whole_witness:
  \<open>case node_mgr_cfg_get 1 (fst (run_steps cfg_step (nmgr_cfg_init pushing) [EvHb 1, EvTick 1000])) of
    None \<Rightarrow> \<not> nc_valid (zm_cfg (nm_zone (fst (run_steps cfg_step (nmgr_cfg_init pushing) [EvHb 1, EvTick 1000])) 1))
  | Some (plane, gen, hw) \<Rightarrow> length plane = 336\<close>
proof -
  have "length (nm_tab pushing) = 8" "nm_push_req pushing \<le> 8" by (simp_all add: pushing_def)
  from cached_configurations_are_whole [OF this, of "[EvHb 1, EvTick 1000]" 1] show ?thesis
    by (auto simp: Let_def split: option.splits prod.splits)
qed

text \<open>C14. A write was accepted for a zone while the transfer slot was free, no zone was marked for clearing, and no write for a zone with a lower id was waiting (one write is taken each second, the lowest id first; a marked zone would lose its write). Then the next tick takes it: the plane, stamped by the master with one more than the larger of the generation the zone reported and the cached one, becomes the cached plane, its four chunks are sent to the zone, the inbox of the zone is empty and those of the others as before. The zone counts as busy, and a further write to it is refused as such.\<close>

lemma operator_write_is_pushed:
  assumes "nm_ok s" "cx_st (nm_cx s) = CX_IDLE" "nm_clear_mask s = 0" "\<forall>y < zone. zm_set_req (nm_zone s y) = None"
    "length want = 336" "node_mgr_cfg_set zone want s = (s1, 0)"
  shows "let (s2, out) = nmgr_cfg_tick_1s now s1; hb = fst (hb_of zone s); cached = nc_gen (zm_cfg (nm_zone s zone));
      gen = max hb cached + 1; plane = cfg_stamp want gen HG_SRC_MASTER in
    holds_plane 1 (zm_cfg (nm_zone s2 zone)) plane gen \<and>
    is_push_wire (nm_push_wire s2) gen plane \<and> cx_push_gen (nm_cx s2) = gen \<and>
    list_all2 (is_push_chunk zone gen (nm_push_wire s2)) [0 ..< 4] out \<and>
    node_mgr_cfg_busy zone s2 \<and> node_mgr_cfg_set zone other s2 = (s2, -2) \<and>
    zm_set_req (nm_zone s2 zone) = None \<and> (\<forall>y. y \<noteq> zone \<longrightarrow> zm_set_req (nm_zone s2 y) = zm_set_req (nm_zone s y))"
proof -
  obtain s3 where r: "nmgr_cfg_tick_1s now s1 = start_set_req zone want s3" "nm_ok s3"
    "nm_tab s3 = nm_tab s" "zm_cfg (nm_zone s3 zone) = zm_cfg (nm_zone s zone)"
    "zm_set_req (nm_zone s3 zone) = None" "\<And>y. y \<noteq> zone \<Longrightarrow> zm_set_req (nm_zone s3 y) = zm_set_req (nm_zone s y)"
    using write_tick [OF assms(2,3,4,6)] assms(1) by metis
  have z: "zone_id_ok zone" by (rule cfg_set_accepted(1) [OF assms(6)])
  have g: "push_gen_for zone (zm_cfg (nm_zone s3 zone)) s3 = max (fst (hb_of zone s)) (nc_gen (zm_cfg (nm_zone s zone))) + 1"
    by (auto simp: push_gen_for_def hb_of_def r Let_def max_def split: option.split)
  note w = write_becomes_a_push [OF r(2) z assms(5)]
  obtain nd where nd: "nmgr_node_by_id (nm_tab s) zone = Some nd" "nd_used nd" "nd_health nd = NODE_H_ONLINE" "\<not> (zone < 1 \<or> zone > 8)"
    using assms(6) by (auto simp: node_mgr_cfg_set_def split: option.splits if_splits)
  have "node_mgr_cfg_set zone other (fst (start_set_req zone want s3)) = (fst (start_set_req zone want s3), -2)"
    using w(4) using nd(4) unfolding node_mgr_cfg_set_def w(6) r(3) nd(1) by (simp add: nd(2,3))
  then show ?thesis
    using w z r(5,6) by (simp add: r(1) g Let_def split_def node_mgr_cfg_busy_def word_less_nat_alt word_le_nat_alt)
qed

lemma operator_write_is_pushed_witness:
  \<open>\<exists>s1. node_mgr_cfg_set 1 new_cfg online = (s1, 0) \<and>
    nc_gen (zm_cfg (nm_zone (fst (nmgr_cfg_tick_1s 0 s1)) 1)) = 2\<close>
proof -
  let ?s1 = "upd_zone 1 (\<lambda>m. m\<lparr>zm_set_req := Some new_cfg\<rparr>) online"
  have q: "zm_set_req (nm_zone online y) = None" for y
    by (simp add: online_def pushing_def pushing_mem_def zone_mem_zero_def)
  have a: "node_mgr_cfg_set 1 new_cfg online = (?s1, 0)"
    by (simp add: node_mgr_cfg_set_def nmgr_node_by_id_def online_def pushing_def pushing_node_def sample_node_def
        nmgr_cx_busy_def cx_zero_def pushing_mem_def zone_mem_zero_def)
  have i: "cx_st (nm_cx online) = CX_IDLE" "nm_clear_mask online = 0" by (simp_all add: online_def cx_zero_def pushing_def)
  have "fst (hb_of 1 online) = 0" "nc_gen (zm_cfg (nm_zone online 1)) = 1"
    by (simp_all add: hb_of_def nmgr_node_by_id_def online_def pushing_def pushing_node_def sample_node_def pushing_mem_def)
  then show ?thesis
    using operator_write_is_pushed [OF online_ok i _ new_cfg_facts(1) a, of 0] q a
    by (auto simp: Let_def split_def holds_plane_def max_def)
qed

end
