(* ===== verification/Node_Mgr.thy ===== *)
theory Node_Mgr
  imports Node_Cfg Zone_Table Fleet_Seq
begin

text \<open>
  The task of the master that runs the ring (\<^verbatim>\<open>components/node_mgr\<close>: \<^verbatim>\<open>node_mgr.c\<close>,
  \<^verbatim>\<open>node_mgr_enrol.c\<close>, \<^verbatim>\<open>node_mgr_fwd.c\<close>, \<^verbatim>\<open>node_mgr_fleet.c\<close>, and \<^verbatim>\<open>node_store/node_store_nvs.c\<close>
  for the zone table in flash): enrolment by heartbeats, the node table, the forwarding of a
  command line to a zone, the notifications about zones and ring, and the firmware updates. The
  configuration part is \<open>Node_Cfg\<close>, whose state is the field \<open>mg_core\<close>; it holds the node table, the
  tracker, the frame counter and the clock as well.

  One step of the node manager's task and one call of another task are one operation here. What
  an operation sends, prints or resets is its output, in order. Shown: the node table in RAM, the
  zone table and the list of boards without a zone always agree; who gets which id; that an
  answered heartbeat draws no second answer; the accounting of lost heartbeats; and what a
  forwarded command does to the configuration cache.
\<close>

section \<open>State\<close>

definition FWD_TIMEOUT_MAX_MS :: u32 where "FWD_TIMEOUT_MAX_MS = 5000"
definition FLEET_REBOOT_MS :: u16 where "FLEET_REBOOT_MS = 500"

text \<open>
  The slot of the forwarded command. \<open>sl_busy\<close> is the mutex \<open>s_busy\<close>, held from the start of
  \<open>node_mgr_forward\<close> to its return.
\<close>

record fwd_slot =
  sl_busy :: bool
  sl_active :: bool
  sl_done :: bool
  sl_waiter :: bool
  sl_seq :: u16
  sl_status :: u8
  sl_detail :: "u8 list"
  sl_fail_token :: "string option"
  sl_zone :: u8
  sl_verb_set :: bool

record mgr =
  mg_core :: nmgr
  mg_ztab :: ztab
  mg_last_seq :: "u16 list"
  mg_seq_known :: "bool list"
  mg_unassigned :: "u8 list list"
  mg_unassigned_notified :: bool
  mg_ring_status :: ring_status
  mg_time_valid :: bool
  mg_fwd :: fwd_slot
  mg_fleet :: fleet
  mg_store_gen :: u32
  mg_flash :: "u8 list option"     \<comment> \<open>the blob \<open>ztab\<close> in flash\<close>

text \<open>
  The outputs: those of the configuration part, a line of the master itself, the reset of a rate limit,
  a line of a zone to be relayed, and a frame that the tracker has encoded.
\<close>

datatype mg_out = MgCfg nm_out | MgEmit nat u8 string | MgReset nat u8 | MgRelay string | MgWire "u8 list"

definition hb_zero :: hg_hb where
  "hb_zero = \<lparr>hb_mac = replicate 6 0, hb_fw_maj = 0, hb_fw_min = 0, hb_fw_patch = 0, hb_n_shelves = 0, hb_uptime_s = 0,
     hb_unix_time = 0, hb_cfg_gen = 0, hb_cfg_crc = 0, hb_hw_crc = 0, hb_cfg_src = 0, hb_mode = 0, hb_reset_reason = 0,
     hb_time_quality = 0, hb_active_faults = 0, hb_shelf_faults = replicate 4 0, hb_link_flags = 0, hb_override_mask = 0,
     hb_rx_crc_err = 0, hb_rx_uart_err = 0, hb_rx_drop = 0, hb_fwd_count = 0, hb_min_free_heap_kb = 0,
     hb_shelf = replicate 4 \<lparr>sh_raw_a = 0, sh_raw_b = 0, sh_pct_a = 0, sh_pct_b = 0, sh_white = 0, sh_red = 0,
       sh_out_flags = 0, sh_light_state = 0, sh_water_state = 0, sh_rsvd = 0, sh_pump_today_s = 0\<rparr>\<rparr>"

definition node_zero :: hg_node where
  "node_zero = \<lparr>nd_used = False, nd_id = 0, nd_mac = replicate 6 0, nd_name = replicate 16 0, nd_unconfigured = False,
     nd_health = NODE_H_EMPTY, nd_fault_flag = False, nd_last_hb_ms = 0, nd_updating_until_ms = 0, nd_hops = 0,
     nd_link_flags = 0, nd_cmd_timeouts = 0, nd_hops_valid = False, nd_hb = hb_zero, nd_seq_drop_tally = 0\<rparr>"

definition fwd_init :: fwd_slot where
  "fwd_init = \<lparr>sl_busy = False, sl_active = False, sl_done = False, sl_waiter = False, sl_seq = 0, sl_status = 0,
     sl_detail = [], sl_fail_token = None, sl_zone = 0, sl_verb_set = False\<rparr>"

definition upd_core :: "(nmgr \<Rightarrow> nmgr) \<Rightarrow> mgr \<Rightarrow> mgr" where
  "upd_core f s = s\<lparr>mg_core := f (mg_core s)\<rparr>"

definition run_core :: "(nmgr \<Rightarrow> nmgr \<times> nm_out list) \<Rightarrow> mgr \<Rightarrow> mgr \<times> mg_out list" where
  "run_core f s = (let (c, out) = f (mg_core s) in (s\<lparr>mg_core := c\<rparr>, map MgCfg out))"

abbreviation now_ms :: "mgr \<Rightarrow> u32" where "now_ms s \<equiv> nm_clock (mg_core s)"

section \<open>The zone table in flash\<close>

definition node_store_load :: "bool \<Rightarrow> u8 list option \<Rightarrow> (ztab \<times> u32) option" where
  "node_store_load opens flash =
     (if \<not> opens then None
      else case flash of
          None \<Rightarrow> None
        | Some buf \<Rightarrow>
            if length buf < HG_BLOB_HDR_LEN \<or> length buf > HG_BLOB_HDR_LEN + 192 then None else ztab_unpack buf)"

definition node_store_save :: "nvs_result \<Rightarrow> mgr \<Rightarrow> mgr \<times> bool" where
  "node_store_save r s =
     (let gen = mg_store_gen s + 1 in
      case ztab_pack (mg_ztab s) gen (HG_BLOB_HDR_LEN + 192) of
        None \<Rightarrow> (s, False)
      | Some buf \<Rightarrow>
          let s = s\<lparr>mg_store_gen := gen\<rparr> in
          case r of
            NvsOpenFails \<Rightarrow> (s, False)
          | NvsSetFails \<Rightarrow> (s, False)
          | NvsCommitFails written \<Rightarrow> (if written then s\<lparr>mg_flash := Some buf\<rparr> else s, False)
          | NvsDone \<Rightarrow> (s\<lparr>mg_flash := Some buf\<rparr>, True))"

section \<open>Start\<close>

text \<open>The rows of the node table that the zone table from flash gives.\<close>

definition boot_row :: "u32 \<Rightarrow> ztab_ent \<Rightarrow> hg_node list \<Rightarrow> hg_node list" where
  "boot_row now e tab =
     (if ze_flags e AND ZTAB_F_ASSIGNED = 0 \<or> ze_id e < 1 \<or> ze_id e > 8 then tab
      else tab[unat (ze_id e) - 1 := node_zero\<lparr>nd_used := True, nd_id := ze_id e, nd_mac := ze_mac e,
             nd_name := ze_name e, nd_unconfigured := ze_flags e AND ZTAB_F_UNCONFIGURED \<noteq> 0, nd_last_hb_ms := now\<rparr>])"

definition nmgr_enrol_boot_init :: "bool \<Rightarrow> mgr \<Rightarrow> mgr" where
  "nmgr_enrol_boot_init opens s =
     (let (t, gen) = (case node_store_load opens (mg_flash s) of None \<Rightarrow> (ztab_empty, mg_store_gen s) | Some r \<Rightarrow> r)
      in upd_core (\<lambda>c. c\<lparr>nm_tab := fold (boot_row (nm_clock c)) t (nm_tab c)\<rparr>)
           (s\<lparr>mg_ztab := t, mg_store_gen := gen, mg_last_seq := replicate 8 0, mg_seq_known := replicate 8 False\<rparr>))"

text \<open>The static variables as the program starts, and the start of the task.\<close>

definition mgr_static :: "u32 \<Rightarrow> u8 list option \<Rightarrow> mgr" where
  "mgr_static now flash =
     \<lparr>mg_core = \<lparr>nm_tab = replicate 8 node_zero, nm_trk = ring_trk_init, nm_seq = 0, nm_clock = now,
        nm_zone = (\<lambda>_. zone_mem_zero), nm_rr_next = 0, nm_push_req = 0, nm_clear_mask = 0, nm_cx = cx_zero,
        nm_casm = ring_casm_init, nm_push_wire = replicate WIRE_MAX 0\<rparr>,
      mg_ztab = ztab_empty, mg_last_seq = replicate 8 0, mg_seq_known = replicate 8 False, mg_unassigned = [],
      mg_unassigned_notified = False,
      mg_ring_status = \<lparr>rs_state = RING_ST_IDLE, rs_size = 0, rs_online_mask = 0, rs_blame = [], rs_pending_blame = [],
        rs_pending_ticks = 0\<rparr>,
      mg_time_valid = False, mg_fwd = fwd_init, mg_fleet = fleet_init, mg_store_gen = 0, mg_flash = flash\<rparr>"

definition node_mgr_start :: "bool \<Rightarrow> u32 \<Rightarrow> u8 list option \<Rightarrow> mgr" where
  "node_mgr_start opens now flash =
     nmgr_enrol_boot_init opens (upd_core (\<lambda>c. nmgr_cfg_init (c\<lparr>nm_trk := ring_trk_init\<rparr>)) (mgr_static now flash))"

section \<open>Names and retirement of zones\<close>

definition put_node :: "u8 \<Rightarrow> (hg_node \<Rightarrow> hg_node) \<Rightarrow> mgr \<Rightarrow> mgr" where
  "put_node z f s = upd_core (upd_node z f) s"

definition node_at :: "u8 \<Rightarrow> mgr \<Rightarrow> hg_node" where
  "node_at z s = nm_tab (mg_core s) ! (unat z - 1)"

text \<open>\<open>snprintf(dst, 16, "%s", name)\<close>; the result of an operation that can fail is 0 or -1.\<close>

definition set_name_buf :: "u8 list \<Rightarrow> u8 list \<Rightarrow> u8 list" where
  "set_name_buf name d = put_cstr d (take 15 name)"

definition node_mgr_set_name :: "u8 \<Rightarrow> u8 list \<Rightarrow> nvs_result \<Rightarrow> mgr \<Rightarrow> mgr \<times> int" where
  "node_mgr_set_name zone name r s =
     (case ztab_set_name (mg_ztab s) zone name of
        None \<Rightarrow> (s, -1)
      | Some t \<Rightarrow>
          let (s, ok) = node_store_save r (s\<lparr>mg_ztab := t\<rparr>) in
          if \<not> ok then (s, -1)
          else (case nmgr_node_by_id (nm_tab (mg_core s)) zone of
              None \<Rightarrow> s
            | Some nd \<Rightarrow> if nd_used nd then put_node zone (\<lambda>nd. nd\<lparr>nd_name := set_name_buf name (nd_name nd)\<rparr>) s else s, 0))"

definition nmgr_ztab_clear :: "u8 \<Rightarrow> nvs_result \<Rightarrow> mgr \<Rightarrow> mgr \<times> bool" where
  "nmgr_ztab_clear zone r s =
     (case ztab_clear (mg_ztab s) zone of
        None \<Rightarrow> (s, False)
      | Some t \<Rightarrow> node_store_save r (s\<lparr>mg_ztab := t, mg_unassigned_notified := False\<rparr>))"

definition node_mgr_clear :: "u8 \<Rightarrow> nvs_result \<Rightarrow> mgr \<Rightarrow> mgr \<times> int" where
  "node_mgr_clear zone r s =
     (let (s, ok) = nmgr_ztab_clear zone r s in
      if \<not> ok then (s, -1)
      else
        let s = (case nmgr_node_by_id (nm_tab (mg_core s)) zone of
              None \<Rightarrow> s | Some _ \<Rightarrow> put_node zone (\<lambda>_. node_zero) s)
        in (upd_core (nmgr_cfg_request_clear zone) s, 0))"


section \<open>Enrolment\<close>

definition lift_out :: "(mgr \<times> nm_out list) \<Rightarrow> mgr \<times> mg_out list" where
  "lift_out r = (fst r, map MgCfg (snd r))"

definition send_assign :: "u8 list \<Rightarrow> u8 \<Rightarrow> mgr \<Rightarrow> mgr \<times> mg_out list" where
  "send_assign mac zone_id s =
     (case hg_assign_pack \<lparr>as_mac = mac, as_zone_id = zone_id\<rparr> of
        None \<Rightarrow> (s, [])
      | Some payload \<Rightarrow> run_core (nmgr_send_raw RING_ID_UNASSIGNED RING_T_ASSIGN_ID payload) s)"

definition mac_digit :: "nat \<Rightarrow> char" where "mac_digit d = ''0123456789abcdef'' ! d"

text \<open>\<open>"%02x:%02x:..."\<close>.\<close>

definition mac_str :: "u8 list \<Rightarrow> string" where
  "mac_str mac = concat (map (\<lambda>i. (if i = 0 then [] else '':'') @
     [mac_digit (unat (mac ! i) div 16), mac_digit (unat (mac ! i) mod 16)]) [0 ..< 6])"

definition track_unassigned :: "u8 list \<Rightarrow> mgr \<Rightarrow> mgr \<times> mg_out list" where
  "track_unassigned mac s =
     (if mac \<in> set (mg_unassigned s) then (s, [])
      else
        let s = (if length (mg_unassigned s) < HG_MAX_ZONES then s\<lparr>mg_unassigned := mg_unassigned s @ [mac]\<rparr> else s)
        in if mg_unassigned_notified s then (s, [])
           else (s\<lparr>mg_unassigned_notified := True\<rparr>, [MgEmit NTF_NODE 0 ''TABLE_FULL'']))"

text \<open>The last element takes the place of the removed one.\<close>

definition purge_unassigned :: "u8 list \<Rightarrow> mgr \<Rightarrow> mgr" where
  "purge_unassigned mac s =
     (case first_idx (\<lambda>m. m = mac) (mg_unassigned s) of
        None \<Rightarrow> s
      | Some i \<Rightarrow> s\<lparr>mg_unassigned := butlast ((mg_unassigned s)[i := last (mg_unassigned s)])\<rparr>)"

text \<open>The lost heartbeats that a new sequence number tells of, after the one before.\<close>

definition hb_gap :: "u16 \<Rightarrow> u16 \<Rightarrow> u32" where
  "hb_gap last_seq seq = (let delta = seq - last_seq in if delta > 1 \<and> delta < 32768 then ucast delta - 1 else 0)"

definition update_telemetry :: "u8 \<Rightarrow> ring_hdr \<Rightarrow> hg_hb \<Rightarrow> mgr \<Rightarrow> mgr" where
  "update_telemetry zone_id hdr hb s =
     (let idx = unat (zone_id - 1);
          nd = node_at zone_id s;
          known = mg_seq_known s ! idx \<and> \<not> hb_uptime_s hb < hb_uptime_s (nd_hb nd);
          lost = (if known then hb_gap (mg_last_seq s ! idx) (h_seq hdr) else 0);
          s = put_node zone_id (\<lambda>nd. nd\<lparr>nd_hops := RING_TTL_INIT - h_ttl hdr, nd_hops_valid := True,
                nd_link_flags := hb_link_flags hb, nd_fault_flag := hb_active_faults hb \<noteq> 0, nd_last_hb_ms := now_ms s,
                nd_seq_drop_tally := nd_seq_drop_tally nd + lost, nd_hb := hb\<rparr>) s
      in upd_core (nmgr_cfg_note_fresh_hb zone_id)
           (s\<lparr>mg_last_seq := (mg_last_seq s)[idx := h_seq hdr], mg_seq_known := (mg_seq_known s)[idx := True]\<rparr>))"

text \<open>
  The heartbeat handler. \<open>junk\<close> is what the local \<open>hg_hb_t\<close> holds before it is filled in; the result of
  saving the table is ignored, as in the code.
\<close>

definition enrol_new_row :: "u8 \<Rightarrow> u8 list \<Rightarrow> nvs_result \<Rightarrow> mgr \<Rightarrow> mgr \<times> mg_out list" where
  "enrol_new_row out_id mac r s =
     (let s = fst (node_store_save r (purge_unassigned mac s));
          s = put_node out_id (\<lambda>_. node_zero\<lparr>nd_used := True, nd_id := out_id, nd_unconfigured := True, nd_mac := mac\<rparr>) s
      in (s\<lparr>mg_seq_known := (mg_seq_known s)[unat (out_id - 1) := False]\<rparr>,
          [MgCfg (NmNote out_id NTF_NODE out_id (''NEW '' @ mac_str mac))]))"

definition nmgr_enrol_handle_hb :: "ring_frame \<Rightarrow> hg_hb \<Rightarrow> nvs_result \<Rightarrow> mgr \<Rightarrow> mgr \<times> mg_out list" where
  "nmgr_enrol_handle_hb f junk r s =
     (case hg_hb_parse junk (frame_bytes f) of
        None \<Rightarrow> (s, [])
      | Some hb \<Rightarrow>
          let (t, v, oid) = ztab_enrol (mg_ztab s) (hb_mac hb) (h_src (f_hdr f));
              out_id = (case oid of None \<Rightarrow> 0 | Some i \<Rightarrow> i);
              s = s\<lparr>mg_ztab := t\<rparr>
          in if v = ZTAB_EN_FULL then track_unassigned (hb_mac hb) s
             else if v = ZTAB_EN_CONFLICT then
               let (s, out) = send_assign (hb_mac hb) RING_ID_UNASSIGNED s
               in (s, MgCfg (NmNote out_id NTF_NODE out_id ''ID_CONFLICT'') # out)
             else
               (case nmgr_node_by_id (nm_tab (mg_core s)) out_id of
                  None \<Rightarrow> (s, [])
                | Some _ \<Rightarrow>
                    let (s, out) = (if v = ZTAB_EN_ASSIGNED then enrol_new_row out_id (hb_mac hb) r s else (s, []));
                        s = update_telemetry out_id (f_hdr f) hb s;
                        (s, asserted) = (if h_src (f_hdr f) \<noteq> out_id then send_assign (hb_mac hb) out_id s else (s, []))
                    in (s, out @ asserted)))"

text \<open>\<open>SET NODE <z> MAC\<close>: an id is bound to a board before the board reports.\<close>

definition seed_mac_refused :: "u8 \<Rightarrow> u8 list \<Rightarrow> bool" where
  "seed_mac_refused zone mac \<longleftrightarrow> zone < 1 \<or> zone > 8 \<or> mac ! 0 AND 1 \<noteq> 0 \<or> (\<forall>i \<in> {0 ..< 6}. mac ! i = 0)"

definition seed_row :: "u8 \<Rightarrow> u8 list \<Rightarrow> ztab_ent" where
  "seed_row zone mac = \<lparr>ze_mac = mac, ze_id = zone, ze_flags = ZTAB_F_ASSIGNED OR ZTAB_F_UNCONFIGURED,
     ze_name = replicate 16 0\<rparr>"

definition reset_row :: "u8 \<Rightarrow> hg_node \<Rightarrow> mgr \<Rightarrow> mgr" where
  "reset_row z nd s =
     (case nmgr_node_by_id (nm_tab (mg_core s)) z of None \<Rightarrow> s | Some _ \<Rightarrow> put_node z (\<lambda>_. nd) s)"

text \<open>After the release of the row that the MAC held (its id is \<open>old_id\<close>, 0 for none).\<close>

definition seed_put :: "u8 \<Rightarrow> u8 list \<Rightarrow> nvs_result \<Rightarrow> u8 \<Rightarrow> ztab \<Rightarrow> mgr \<Rightarrow> mgr \<times> int" where
  "seed_put zone mac r old_id t s =
     (case (case ztab_find_id t zone of Some k \<Rightarrow> Some k | None \<Rightarrow> first_idx (\<lambda>e. ze_id e = 0) t) of
        None \<Rightarrow> (s\<lparr>mg_ztab := t\<rparr>, -1)
      | Some slot \<Rightarrow>
          let s = fst (node_store_save r (s\<lparr>mg_ztab := t[slot := seed_row zone mac]\<rparr>));
              s = (if old_id \<noteq> 0 then
                     let s = reset_row old_id node_zero s
                     in s\<lparr>mg_seq_known := (mg_seq_known s)[unat (old_id - 1) := False]\<rparr>
                   else s);
              s = reset_row zone (node_zero\<lparr>nd_used := True, nd_id := zone, nd_unconfigured := True, nd_mac := mac,
                    nd_last_hb_ms := now_ms s\<rparr>) s;
              s = purge_unassigned mac (s\<lparr>mg_seq_known := (mg_seq_known s)[unat (zone - 1) := False]\<rparr>);
              s = upd_core (nmgr_cfg_request_clear zone) (s\<lparr>mg_unassigned_notified := False\<rparr>)
          in (if old_id \<noteq> 0 then upd_core (nmgr_cfg_request_clear old_id) s else s, 0))"

definition node_mgr_seed_mac :: "u8 \<Rightarrow> u8 list \<Rightarrow> nvs_result \<Rightarrow> mgr \<Rightarrow> mgr \<times> int" where
  "node_mgr_seed_mac zone mac r s =
     (if seed_mac_refused zone mac then (s, -1)
      else
        let t = mg_ztab s; found = ztab_find_mac t mac in
        case found of
          Some k \<Rightarrow> if ze_id (t ! k) = zone then (s, 0) else seed_put zone mac r (ze_id (t ! k)) (t[k := ztab_ent_zero]) s
        | None \<Rightarrow> seed_put zone mac r 0 t s)"

section \<open>Time and health\<close>

definition node_mgr_node_count :: "mgr \<Rightarrow> nat" where
  "node_mgr_node_count s = length (filter nd_used (nm_tab (mg_core s)))"

definition nmgr_ring_size :: "mgr \<Rightarrow> u8" where
  "nmgr_ring_size s = of_nat (node_mgr_node_count s)"

text \<open>\<open>utc\<close> and \<open>offs\<close> are what \<open>time\<close> and \<open>time_svc_utc_offset\<close> return.\<close>

definition nmgr_broadcast_time_sync :: "u32 \<Rightarrow> u32 \<Rightarrow> u32 \<Rightarrow> mgr \<Rightarrow> mgr \<times> mg_out list" where
  "nmgr_broadcast_time_sync now utc offs s =
     (case hg_ts_pack \<lparr>ts_utc = utc, ts_utc_offset_s = offs, ts_flags = (if mg_time_valid s then 1 else 0),
         ts_ring_size = nmgr_ring_size s, ts_online_mask = ring_online_mask (nm_tab (mg_core s)) now, ts_inhibit_mask = 0\<rparr> of
        None \<Rightarrow> (s, [])
      | Some payload \<Rightarrow> run_core (nmgr_send_raw RING_ID_BCAST RING_T_TIME_SYNC payload) s)"

text \<open>A line of the health evaluation as notifications; a RING line resets its rate limit first.\<close>

definition nmgr_health_cb :: "string \<Rightarrow> mg_out list" where
  "nmgr_health_cb line =
     (if take 5 line = ''NODE '' then
        let p = drop 5 line; node = of_int (fst (strtol10 p)); sp = dropWhile (\<lambda>c. c \<noteq> CHR '' '') p
        in [MgCfg (NmNote node NTF_NODE node (if sp \<noteq> [] then tl sp else p))]
      else if take 5 line = ''RING '' then [MgReset NTF_RING 0, MgEmit NTF_RING 0 (drop 5 line)]
      else [])"

definition nmgr_health_tick :: "u32 \<Rightarrow> u32 \<Rightarrow> mgr \<Rightarrow> mgr \<times> mg_out list" where
  "nmgr_health_tick now ts_returned s =
     (let (tab, st, lines) = ring_health_eval (nm_tab (mg_core s)) now ts_returned (mg_ring_status s)
      in (upd_core (\<lambda>c. c\<lparr>nm_tab := tab\<rparr>) (s\<lparr>mg_ring_status := st\<rparr>), concat (map nmgr_health_cb lines)))"

definition node_mgr_mark_updating :: "u8 \<Rightarrow> u32 \<Rightarrow> mgr \<Rightarrow> mgr" where
  "node_mgr_mark_updating zone hold_ms s =
     (case nmgr_node_by_id (nm_tab (mg_core s)) zone of
        None \<Rightarrow> s | Some _ \<Rightarrow> put_node zone (\<lambda>nd. nd\<lparr>nd_updating_until_ms := now_ms s + hold_ms\<rparr>) s)"

section \<open>Forwarding of a command\<close>

text \<open>A C string read past its end gives NUL where these functions look.\<close>

definition c_at :: "u8 list \<Rightarrow> nat \<Rightarrow> char" where
  "c_at l i = (if i < length l then char_of_byte (l ! i) else CHR 0x00)"

definition verb_is_set :: "u8 list \<Rightarrow> bool" where
  "verb_is_set line =
     (let l = dropWhile (\<lambda>c. c = byte_of (CHR '' '')) line in
      (c_at l 0 = CHR ''S'' \<or> c_at l 0 = CHR ''s'') \<and> (c_at l 1 = CHR ''E'' \<or> c_at l 1 = CHR ''e'') \<and>
      (c_at l 2 = CHR ''T'' \<or> c_at l 2 = CHR ''t'') \<and> (c_at l 3 = CHR '' '' \<or> c_at l 3 = CHR 0x00))"

definition reply_is_ok :: "u8 list \<Rightarrow> bool" where
  "reply_is_ok detail \<longleftrightarrow> c_at detail 0 = CHR ''O'' \<and> c_at detail 1 = CHR ''K'' \<and>
     (c_at detail 2 = CHR 0x00 \<or> c_at detail 2 = CHR '' '' \<or> c_at detail 2 = CHR 0x0A)"

definition errline :: "string \<Rightarrow> u8 list" where
  "errline token = bytes_of (''ERR '' @ token @ [CHR 0x0A])"

text \<open>The reply that fits into the buffer of the caller, and the return value.\<close>

definition reply :: "nat \<Rightarrow> u8 list \<Rightarrow> int \<Rightarrow> u8 list \<times> int" where
  "reply resp_len resp rc = (take (resp_len - 1) resp, rc)"

definition upd_fwd :: "(fwd_slot \<Rightarrow> fwd_slot) \<Rightarrow> mgr \<Rightarrow> mgr" where
  "upd_fwd f s = s\<lparr>mg_fwd := f (mg_fwd s)\<rparr>"

text \<open>
  \<open>node_mgr_forward\<close> up to its wait: either it returns at once with a reply or the caller waits.
\<close>

definition do_forward :: "u8 \<Rightarrow> u8 list \<Rightarrow> mgr \<Rightarrow> mgr \<times> string option" where
  "do_forward zone line s =
     (if zone < 1 \<or> zone > 8 then (s, Some ''ZONE_UNKNOWN'')
      else if \<not> nd_used (node_at zone s) then (s, Some ''ZONE_UNKNOWN'')
      else if nd_health (node_at zone s) = NODE_H_OFFLINE then (s, Some ''ZONE_OFFLINE'')
      else if rs_state (mg_ring_status s) = RING_ST_OPEN then (s, Some ''RING_DOWN'')
      else
        case nmgr_submit zone RING_T_CMD (take RING_MAX_PAYLOAD line) (mg_core s) of
          (c, None) \<Rightarrow> (s\<lparr>mg_core := c\<rparr>, Some ''BUSY'')
        | (c, Some seq) \<Rightarrow>
            (upd_fwd (\<lambda>w. w\<lparr>sl_seq := seq, sl_active := True, sl_done := False, sl_fail_token := None, sl_zone := zone,
               sl_verb_set := verb_is_set line, sl_waiter := True\<rparr>) (s\<lparr>mg_core := c\<rparr>), None))"

definition node_mgr_forward :: "u8 \<Rightarrow> u8 list \<Rightarrow> mgr \<Rightarrow> mgr \<times> string option" where
  "node_mgr_forward zone line s =
     (if sl_busy (mg_fwd s) then (s, Some ''BUSY'')
      else
        case do_forward zone line s of
          (s, Some token) \<Rightarrow> (s, Some token)
        | (s, None) \<Rightarrow> (upd_fwd (\<lambda>w. w\<lparr>sl_busy := True\<rparr>) s, None))"

definition fwd_wait_ms :: "u32 \<Rightarrow> u32" where
  "fwd_wait_ms timeout_ms = (if timeout_ms > FWD_TIMEOUT_MAX_MS then FWD_TIMEOUT_MAX_MS else timeout_ms)"

definition nmgr_fwd_on_ev :: "ring_trk_ev \<Rightarrow> mgr \<Rightarrow> mgr" where
  "nmgr_fwd_on_ev ev s =
     (let w = mg_fwd s in
      if \<not> sl_active w \<or> ev_seq ev \<noteq> sl_seq w then s
      else
        let w = w\<lparr>sl_active := False, sl_done := True\<rparr> in
        if ev_kind ev = EV_DONE then
          let s = s\<lparr>mg_fwd := w\<lparr>sl_status := ev_status ev, sl_detail := take 125 (cstr (ev_detail ev)), sl_fail_token := None\<rparr>\<rparr>
          in if sl_verb_set w \<and> ev_status ev = 0 \<and> reply_is_ok (cstr (ev_detail ev)) \<and> sl_zone w \<noteq> 0
             then upd_core (nmgr_cfg_invalidate (sl_zone w)) s else s
        else s\<lparr>mg_fwd := w\<lparr>sl_fail_token := ev_fail_token ev\<rparr>\<rparr>)"

text \<open>After the wait: the caller was woken, or the time is over.\<close>

definition bump_timeouts :: "u8 \<Rightarrow> mgr \<Rightarrow> mgr" where
  "bump_timeouts zone s =
     put_node zone (\<lambda>nd. if nd_cmd_timeouts nd < 255 then nd\<lparr>nd_cmd_timeouts := nd_cmd_timeouts nd + 1\<rparr> else nd) s"

definition fwd_finish :: "nat \<Rightarrow> mgr \<Rightarrow> mgr \<times> u8 list \<times> int" where
  "fwd_finish resp_len s =
     (let w = mg_fwd s; zone = sl_zone w; s = upd_fwd (\<lambda>w. w\<lparr>sl_busy := False\<rparr>) s in
      case sl_fail_token w of
        Some tok \<Rightarrow>
          (bump_timeouts zone s,
           reply resp_len (errline (if nd_used (node_at zone s) \<and> tok = ''ZONE_UNKNOWN'' then ''ZONE_OFFLINE'' else tok)) (-1))
      | None \<Rightarrow>
          (put_node zone (\<lambda>nd. nd\<lparr>nd_cmd_timeouts := 0\<rparr>) s,
           reply resp_len (sl_detail w) (if sl_status w = 0 then 0 else -1)))"

definition fwd_expire :: "nat \<Rightarrow> mgr \<Rightarrow> mgr \<times> u8 list \<times> int" where
  "fwd_expire resp_len s =
     (if \<not> sl_done (mg_fwd s) then
        (bump_timeouts (sl_zone (mg_fwd s)) (upd_fwd (\<lambda>w. w\<lparr>sl_waiter := False, sl_active := False, sl_busy := False\<rparr>) s),
         reply resp_len (errline ''ZONE_TIMEOUT'') (-1))
      else fwd_finish resp_len s)"

section \<open>Firmware updates of the zones\<close>

definition fw_of :: "hg_hb \<Rightarrow> u8 \<times> u8 \<times> u8" where
  "fw_of hb = (hb_fw_maj hb, hb_fw_min hb, hb_fw_patch hb)"

text \<open>\<open>used\<close>, \<open>online\<close>, version, uptime and time of the last heartbeat.\<close>

definition snap_zone :: "u8 \<Rightarrow> mgr \<Rightarrow> bool \<times> bool \<times> (u8 \<times> u8 \<times> u8) \<times> u32 \<times> u32" where
  "snap_zone zone s =
     (case nmgr_node_by_id (nm_tab (mg_core s)) zone of
        Some nd \<Rightarrow>
          if nd_used nd then
            (True, nd_health nd = NODE_H_ONLINE, fw_of (nd_hb nd), hb_uptime_s (nd_hb nd), nd_last_hb_ms nd)
          else (False, False, (0, 0, 0), 0, 0)
      | None \<Rightarrow> (False, False, (0, 0, 0), 0, 0))"

definition zone_word :: "u8 \<Rightarrow> string \<Rightarrow> string" where
  "zone_word zone what = ''ZONE '' @ show_dec (unat zone) @ '' '' @ what"

text \<open>A zone whose run has failed: the hold is over and the line is printed.\<close>

definition fleet_failed :: "fleet_act option \<Rightarrow> mgr \<Rightarrow> mgr \<times> mg_out list" where
  "fleet_failed act s =
     (case act of
        Some (FA_FAILED z) \<Rightarrow> (node_mgr_mark_updating z 0 s, [MgEmit NTF_FW z (zone_word z ''UPDATE_FAILED'')])
      | _ \<Rightarrow> (s, []))"

definition fwu_request :: hg_fwu where
  "fwu_request = \<lparr>fw_reboot_delay_ms = FLEET_REBOOT_MS, fw_ssid = put_cstr (replicate 33 0) (bytes_of ''HillGrow''),
     fw_pass = put_cstr (replicate 65 0) (bytes_of ''hillgrow1'')\<rparr>"

definition fleet_do_start :: "u8 \<Rightarrow> mgr \<Rightarrow> mgr \<times> mg_out list" where
  "fleet_do_start zone s =
     (let (_, _, fw, _, _) = snap_zone zone s;
          s = node_mgr_mark_updating zone FLEET_HOLD_MS s;
          (c, sent) = (case hg_fwu_pack fwu_request 99 of
              None \<Rightarrow> (mg_core s, None)
            | Some payload \<Rightarrow> nmgr_submit zone RING_T_FW_UPDATE payload (mg_core s));
          s = s\<lparr>mg_core := c\<rparr>;
          (fl, act) = fleet_note_submitted (mg_fleet s) (sent \<noteq> None) (case sent of None \<Rightarrow> 0 | Some q \<Rightarrow> q) (now_ms s) fw;
          (s, out) = fleet_failed act (s\<lparr>mg_fleet := fl\<rparr>)
      in (s, MgEmit NTF_FW zone (zone_word zone ''UPDATING'') # out))"

text \<open>\<open>image_ok\<close> is what \<open>fw_srv_image_ok\<close> returns.\<close>

definition nmgr_fleet_tick_1s :: "u32 \<Rightarrow> bool \<Rightarrow> mgr \<Rightarrow> mgr \<times> mg_out list" where
  "nmgr_fleet_tick_1s now image_ok s =
     (if \<not> fl_active (mg_fleet s) then (s, [])
      else
        let (used, online, fw, uptime, arrived) = snap_zone (cur_zone (mg_fleet s)) s;
            (fl, act) = fleet_tick (mg_fleet s) \<lparr>ob_now_ms = now, ob_image_ok = image_ok, ob_online = online,
              ob_hb_valid = used, ob_hb_fw = fw, ob_hb_uptime = uptime, ob_hb_arrived_ms = arrived\<rparr>;
            s = s\<lparr>mg_fleet := fl\<rparr>
        in case act of
             Some (FA_START z) \<Rightarrow> fleet_do_start z s
           | Some (FA_DONE z (a, b, c)) \<Rightarrow>
               (node_mgr_mark_updating z 0 s,
                [MgEmit NTF_FW z (zone_word z (''DONE '' @ show_dec (unat a) @ ''.'' @ show_dec (unat b) @ ''.'' @ show_dec (unat c)))])
           | _ \<Rightarrow> fleet_failed act s)"

definition nmgr_fleet_on_ev :: "ring_trk_ev \<Rightarrow> mgr \<Rightarrow> mgr \<times> mg_out list" where
  "nmgr_fleet_on_ev ev s =
     (let (fl, act) = fleet_on_ack (mg_fleet s) (ev_seq ev) (ev_kind ev = EV_DONE \<and> ev_status ev = 0) (now_ms s)
      in fleet_failed act (s\<lparr>mg_fleet := fl\<rparr>))"

definition fleet_rc :: "fleet_start_rc \<Rightarrow> int" where
  "fleet_rc rc = (case rc of FleetStarted \<Rightarrow> 0 | FleetBusy \<Rightarrow> -2 | FleetInvalid \<Rightarrow> -1)"

definition fleet_begin :: "bool \<Rightarrow> u8 list \<Rightarrow> mgr \<Rightarrow> mgr \<times> int" where
  "fleet_begin upload zones s =
     (if upload then (s, -2) else let (fl, rc) = fleet_start (mg_fleet s) zones in (s\<lparr>mg_fleet := fl\<rparr>, fleet_rc rc))"

definition node_mgr_fw_zone :: "u8 \<Rightarrow> bool \<Rightarrow> mgr \<Rightarrow> mgr \<times> int" where
  "node_mgr_fw_zone zone upload s = (if zone < 1 \<or> zone > 8 then (s, -1) else fleet_begin upload [zone] s)"

definition node_mgr_fw_all :: "bool \<Rightarrow> mgr \<Rightarrow> mgr \<times> int" where
  "node_mgr_fw_all upload s =
     (let zones = filter (\<lambda>z. nd_used (node_at z s)) zone_ids
      in if zones = [] then (s, -1) else fleet_begin upload zones s)"

definition node_mgr_fw_abort :: "mgr \<Rightarrow> mgr \<times> int" where
  "node_mgr_fw_abort s =
     (if fl_active (mg_fleet s) then (s\<lparr>mg_fleet := fleet_cancel (mg_fleet s)\<rparr>, 0) else (s, -1))"

section \<open>The task\<close>

definition route_trk_ev :: "ring_trk_ev \<Rightarrow> mgr \<Rightarrow> mgr \<times> mg_out list" where
  "route_trk_ev ev s =
     (if ev_type ev = RING_T_CMD then (nmgr_fwd_on_ev ev s, [])
      else if ev_type ev = RING_T_CFG_GET \<or> ev_type ev = RING_T_CFG_COMMIT then run_core (nmgr_cfg_on_ev ev) s
      else if ev_type ev = RING_T_FW_UPDATE then nmgr_fleet_on_ev ev s
      else (s, []))"

text \<open>The queue after an operation of the tracker, and the event it gave.\<close>

definition route_after :: "ring_trk \<times> ring_trk_ev option \<Rightarrow> mgr \<Rightarrow> mgr \<times> mg_out list" where
  "route_after r s =
     (let s = upd_core (\<lambda>c. c\<lparr>nm_trk := fst r\<rparr>) s
      in case snd r of None \<Rightarrow> (s, []) | Some ev \<Rightarrow> route_trk_ev ev s)"

definition ack_local :: hg_ack where
  "ack_local = \<lparr>ack_acked_seq = 0, ack_status = 0, ack_detail = replicate 126 0, ack_detail_len = 0\<rparr>"

definition handle_ack :: "ring_frame \<Rightarrow> mgr \<Rightarrow> mgr \<times> mg_out list" where
  "handle_ack f s =
     (case hg_ack_parse ack_local (frame_bytes f) of
        None \<Rightarrow> (s, [])
      | Some a \<Rightarrow>
          route_after (ring_trk_ack (nm_trk (mg_core s)) (ack_acked_seq a) (ack_status a) (ack_detail a) (ack_detail_len a)) s)"

definition frame_text :: "ring_frame \<Rightarrow> string" where
  "frame_text f = text_at (take RING_MAX_PAYLOAD (frame_bytes f)) 0"

definition handle_fault_event :: "ring_frame \<Rightarrow> mg_out list" where
  "handle_fault_event f = [MgCfg (NmNote (h_src (f_hdr f)) NTF_ALARM (h_src (f_hdr f)) (frame_text f))]"

definition dispatch_frame :: "ring_frame \<Rightarrow> u32 \<Rightarrow> hg_hb \<Rightarrow> nvs_result \<Rightarrow> mgr \<Rightarrow> mgr \<times> mg_out list" where
  "dispatch_frame f now junk r s =
     (let type = h_type (f_hdr f) in
      if h_src (f_hdr f) = RING_ID_MASTER then route_after (ring_trk_unclaimed (nm_trk (mg_core s)) (f_hdr f)) s
      else if type = RING_T_HEARTBEAT then nmgr_enrol_handle_hb f junk r s
      else if type = RING_T_ACK then handle_ack f s
      else if type = RING_T_NOTIFY then (s, [MgRelay (frame_text f)])
      else if type = RING_T_FAULT_EVENT then (s, handle_fault_event f)
      else if type = RING_T_CFG_CHUNK then run_core (nmgr_cfg_on_chunk f now) s
      else (s, []))"

definition trk_tick :: "u32 \<Rightarrow> mgr \<Rightarrow> mgr \<times> mg_out list" where
  "trk_tick now s =
     (let (t, ev) = ring_trk_tick (nm_trk (mg_core s)) now (nmgr_ring_size s);
          s' = upd_core (\<lambda>c. c\<lparr>nm_trk := t\<rparr>) s
      in case ev of
           None \<Rightarrow> (s', [])
         | Some e \<Rightarrow> if ev_kind e = EV_SEND then (s', [MgWire (case ev_wire e of None \<Rightarrow> [] | Some w \<Rightarrow> w)]) else route_trk_ev e s')"

section \<open>The interface for reading\<close>

definition node_mgr_get :: "int \<Rightarrow> mgr \<Rightarrow> hg_node option" where
  "node_mgr_get slot s =
     (if slot < 0 \<or> slot \<ge> 8 then None
      else let nd = nm_tab (mg_core s) ! nat slot in if nd_used nd then Some nd else None)"

definition nmgr_unassigned_copy :: "nat \<Rightarrow> mgr \<Rightarrow> u8 list list" where
  "nmgr_unassigned_copy cap s = take cap (mg_unassigned s)"

definition node_mgr_fw_status :: "nat \<Rightarrow> mgr \<Rightarrow> string" where
  "node_mgr_fw_status n s = take (n - 1) (fleet_status (mg_fleet s))"

section \<open>The machine\<close>

text \<open>
  The sections of the task loop, which run in any order here, the calls of the other tasks, and the passing of
  time. A restart keeps the flash only.
\<close>

datatype mg_ev =
    MgTrkTick u32
  | MgFrame ring_frame u32 hg_hb nvs_result
  | MgHealth u32 u32
  | MgCfgTick u32
  | MgFleetTick u32 bool
  | MgTimeSync u32 u32 u32
  | MgSetName u8 "u8 list" nvs_result
  | MgClear u8 nvs_result
  | MgSeed u8 "u8 list" nvs_result
  | MgPush u8
  | MgCfgSet u8 hg_zone_cfg
  | MgForward u8 "u8 list"
  | MgFwdDone nat
  | MgFwdExpire nat
  | MgFwZone u8 bool
  | MgFwAll bool
  | MgFwAbort
  | MgTimeSet
  | MgClock u32
  | MgRestart bool u32

fun mg_step :: "mgr \<Rightarrow> mg_ev \<Rightarrow> mgr \<times> mg_out list" where
  "mg_step s (MgTrkTick now) = trk_tick now s"
| "mg_step s (MgFrame f now junk r) = dispatch_frame f now junk r s"
| "mg_step s (MgHealth now ts) = nmgr_health_tick now ts s"
| "mg_step s (MgCfgTick now) = run_core (nmgr_cfg_tick_1s now) s"
| "mg_step s (MgFleetTick now image_ok) = nmgr_fleet_tick_1s now image_ok s"
| "mg_step s (MgTimeSync now utc offs) = nmgr_broadcast_time_sync now utc offs s"
| "mg_step s (MgSetName z name r) = (fst (node_mgr_set_name z name r s), [])"
| "mg_step s (MgClear z r) = (fst (node_mgr_clear z r s), [])"
| "mg_step s (MgSeed z mac r) = (fst (node_mgr_seed_mac z mac r s), [])"
| "mg_step s (MgPush z) = (upd_core (\<lambda>c. fst (node_mgr_push_cfg z c)) s, [])"
| "mg_step s (MgCfgSet z c) = (upd_core (\<lambda>m. fst (node_mgr_cfg_set z c m)) s, [])"
| "mg_step s (MgForward z line) = (fst (node_mgr_forward z line s), [])"
| "mg_step s (MgFwdDone n) = (if sl_busy (mg_fwd s) \<and> sl_done (mg_fwd s) then fst (fwd_finish n s) else s, [])"
| "mg_step s (MgFwdExpire n) = (if sl_busy (mg_fwd s) then fst (fwd_expire n s) else s, [])"
| "mg_step s (MgFwZone z upload) = (fst (node_mgr_fw_zone z upload s), [])"
| "mg_step s (MgFwAll upload) = (fst (node_mgr_fw_all upload s), [])"
| "mg_step s MgFwAbort = (fst (node_mgr_fw_abort s), [])"
| "mg_step s MgTimeSet = (s\<lparr>mg_time_valid := True\<rparr>, [])"
| "mg_step s (MgClock now) = (upd_core (\<lambda>c. c\<lparr>nm_clock := now\<rparr>) s, [])"
| "mg_step s (MgRestart opens now) = (node_mgr_start opens now (mg_flash s), [])"

text \<open>
  One pass of the task loop: a tick of the tracker, the frames that are there, and once a second and every two
  seconds the periodic work.
\<close>

definition pass_events ::
  "u32 \<Rightarrow> u32 \<Rightarrow> u32 \<Rightarrow> (ring_frame \<times> hg_hb \<times> nvs_result) list \<Rightarrow> u32 \<Rightarrow> bool \<Rightarrow> u32 \<Rightarrow> u32 \<Rightarrow> mg_ev list" where
  "pass_events now last_1s last_2s frames ts_returned image_ok utc offs =
     [MgTrkTick now] @ map (\<lambda>(f, junk, r). MgFrame f now junk r) frames @
     (if now - last_1s \<ge> 1000 then [MgHealth now ts_returned, MgCfgTick now, MgFleetTick now image_ok] else []) @
     (if now - last_2s \<ge> 2000 then [MgTimeSync now utc offs] else [])"

section \<open>The invariant\<close>

text \<open>A row of the node table shows the row of the zone table with the same id.\<close>

definition row_agrees :: "ztab_ent \<Rightarrow> hg_node \<Rightarrow> bool" where
  "row_agrees e nd \<longleftrightarrow> nd_used nd \<and> nd_id nd = ze_id e \<and> nd_mac nd = ze_mac e \<and> cstr (nd_name nd) = cstr (ze_name e)"

definition rows_mirror :: "ztab \<Rightarrow> hg_node list \<Rightarrow> bool" where
  "rows_mirror t tab \<longleftrightarrow> length tab = 8 \<and>
     (\<forall>e \<in> set t. ze_id e \<noteq> 0 \<longrightarrow> row_agrees e (tab ! (unat (ze_id e) - 1))) \<and>
     (\<forall>i < 8. nd_used (tab ! i) \<longrightarrow> (\<exists>e \<in> set t. unat (ze_id e) = i + 1))"

definition ztab_flagged :: "ztab \<Rightarrow> bool" where
  "ztab_flagged t \<longleftrightarrow> (\<forall>e \<in> set t. ze_id e \<noteq> 0 \<longrightarrow> ze_flags e AND ZTAB_F_ASSIGNED \<noteq> 0)"

text \<open>A blob in flash was written by \<open>node_store_save\<close>.\<close>

definition flash_ok :: "u8 list option \<Rightarrow> bool" where
  "flash_ok fl \<longleftrightarrow> (case fl of None \<Rightarrow> True
     | Some b \<Rightarrow> \<exists>t gen. ztab_ok t \<and> ztab_flagged t \<and> ztab_pack t gen (HG_BLOB_HDR_LEN + 192) = Some b)"

definition waiting_ok :: "ztab \<Rightarrow> u8 list list \<Rightarrow> bool" where
  "waiting_ok t ws \<longleftrightarrow> distinct ws \<and> length ws \<le> 8 \<and> (\<forall>m \<in> set ws. ztab_map t m = None)"

definition mgr_ok :: "mgr \<Rightarrow> bool" where
  "mgr_ok s \<longleftrightarrow> nm_ok (mg_core s) \<and> ztab_ok (mg_ztab s) \<and> ztab_flagged (mg_ztab s) \<and>
     rows_mirror (mg_ztab s) (nm_tab (mg_core s)) \<and> waiting_ok (mg_ztab s) (mg_unassigned s) \<and>
     length (mg_last_seq s) = 8 \<and> length (mg_seq_known s) = 8 \<and> flash_ok (mg_flash s)"

text \<open>A naming or a retirement whose table cannot be written to flash is left to its own lemma.\<close>

fun mg_ev_ok :: "mg_ev \<Rightarrow> bool" where
  "mg_ev_ok (MgSetName z name r) \<longleftrightarrow> r = NvsDone \<and> 0 \<notin> set name"
| "mg_ev_ok (MgClear z r) \<longleftrightarrow> r = NvsDone"
| "mg_ev_ok (MgSeed z mac r) \<longleftrightarrow> length mac = 6"
| "mg_ev_ok (MgCfgSet z c) \<longleftrightarrow> length c = 336"
| "mg_ev_ok _ \<longleftrightarrow> True"

subsection \<open>Rows\<close>

definition same_row :: "hg_node \<Rightarrow> hg_node \<Rightarrow> bool" where
  "same_row a b \<longleftrightarrow> nd_used b = nd_used a \<and> nd_id b = nd_id a \<and> nd_mac b = nd_mac a \<and> nd_name b = nd_name a"

definition same_rows :: "nmgr \<Rightarrow> nmgr \<Rightarrow> bool" where
  "same_rows s s' \<longleftrightarrow> list_all2 same_row (nm_tab s) (nm_tab s')"

lemma same_row_refl [simp]: "same_row a a" by (simp add: same_row_def)

lemma same_rows_refl [simp]: "same_rows s s"
  by (simp add: same_rows_def list_all2_refl)

lemma same_rows_eq: "nm_tab s' = nm_tab s \<Longrightarrow> same_rows s s'"
  by (simp add: same_rows_def list_all2_refl)

lemma same_rows_trans [trans]: "same_rows a b \<Longrightarrow> same_rows b c \<Longrightarrow> same_rows a c"
  unfolding same_rows_def by (rule list_all2_trans [of same_row same_row same_row]) (auto simp: same_row_def)

lemma same_rows_upd_node: "(\<And>nd. same_row nd (f nd)) \<Longrightarrow> same_rows s (upd_node z f s)"
  unfolding same_rows_def upd_node_def list_all2_conv_all_nth
  by simp (metis nth_list_update_eq nth_list_update_neq same_row_refl)

lemma mirror_same_rows:
  assumes "rows_mirror t tab" "list_all2 same_row tab tab'" "ztab_ok t"
  shows "rows_mirror t tab'"
proof -
  have len: "length tab = 8" "length tab' = 8" using assms(1,2) by (auto simp: rows_mirror_def dest: list_all2_lengthD)
  have r: "same_row (tab ! i) (tab' ! i)" if "i < 8" for i using assms(2) that len by (simp add: list_all2_conv_all_nth)
  have i: "unat (ze_id e) - 1 < 8" if "e \<in> set t" for e
    using that assms(3) by (auto simp: ztab_ok_def ztab_ent_ok_def in_set_conv_nth word_le_nat_alt)
  have "row_agrees e (tab' ! (unat (ze_id e) - 1))" if "e \<in> set t" "ze_id e \<noteq> 0" for e
    using that assms(1) r [OF i [OF that(1)]] by (auto simp: rows_mirror_def row_agrees_def same_row_def)
  moreover have "nd_used (tab' ! j) = nd_used (tab ! j)" if "j < 8" for j using r [OF that] by (simp add: same_row_def)
  ultimately show ?thesis using assms(1) len by (auto simp: rows_mirror_def)
qed

lemma same_rows_frames: "same_but_frames s s' \<Longrightarrow> same_rows s s'"
  by (rule same_rows_eq) (simp add: same_but_frames_simps)

text \<open>The configuration part counts failures in the node table and changes nothing else there.\<close>

lemma same_rows_simps [simp]:
  "same_rows s (upd_zone z f s') = same_rows s s'" "same_rows s (s'\<lparr>nm_cx := c\<rparr>) = same_rows s s'"
  "same_rows s (s'\<lparr>nm_casm := a\<rparr>) = same_rows s s'" "same_rows s (s'\<lparr>nm_push_wire := w\<rparr>) = same_rows s s'"
  "same_rows s (s'\<lparr>nm_rr_next := n\<rparr>) = same_rows s s'" "same_rows s (s'\<lparr>nm_clear_mask := n\<rparr>) = same_rows s s'"
  "same_rows s (s'\<lparr>nm_push_req := y\<rparr>) = same_rows s s'" "same_rows s (s'\<lparr>nm_trk := q\<rparr>) = same_rows s s'"
  "same_rows s (s'\<lparr>nm_zone := h\<rparr>) = same_rows s s'" "same_rows s (nmgr_cx_init s') = same_rows s s'"
  by (simp_all add: same_rows_def nmgr_cx_init_def)

lemma rows_note_synced: "same_rows s (nmgr_cfg_note_synced zone kind s)"
  by (auto simp: nmgr_cfg_note_synced_def Let_def same_row_def split: option.split
      intro!: same_rows_trans [OF _ same_rows_upd_node])

lemma rows_note_failed: "same_rows s (fst (nmgr_cfg_note_failed zone kind terminal a b c d s))"
  by (auto simp: nmgr_cfg_note_failed_def Let_def same_row_def split: option.split
      intro!: same_rows_trans [OF _ same_rows_upd_node])

lemma rows_finish_failed: "same_rows s (fst (finish_failed terminal s))"
  by (simp add: finish_failed_def Let_def split_def rows_note_failed)

lemma rows_fail_or_retry: "same_rows s (fst (fail_or_retry is_push terminal s))"
  by (simp add: fail_or_retry_def Let_def rows_finish_failed)

lemma rows_start_pull: "same_rows s (start_pull zone kind attempt s)"
proof -
  let ?s = "s\<lparr>nm_cx := (nm_cx s)\<lparr>cx_zone := zone, cx_kind := kind, cx_attempt := attempt\<rparr>\<rparr>"
  have "same_rows ?s (fst (nmgr_submit zone RING_T_CFG_GET [kind] ?s))" by (rule same_rows_frames [OF submit_frames])
  moreover have "same_rows s ?s" by (rule same_rows_eq) simp
  ultimately have "same_rows s (fst (nmgr_submit zone RING_T_CFG_GET [kind] ?s))" by (rule same_rows_trans [rotated])
  then show ?thesis by (auto simp: start_pull_def Let_def split: prod.split option.split)
qed

lemma rows_start_push: "same_rows s (fst (start_push zone gen attempt a b c d s))"
proof (cases "nmgr_cfg_cache zone 1 s")
  case (Some c0)
  define s1 where "s1 = (case push_wire gen c0 of None \<Rightarrow> s | Some w \<Rightarrow> s\<lparr>nm_push_wire := w\<rparr>)"
  define s2 where "s2 = s1\<lparr>nm_cx := (nm_cx s1)\<lparr>cx_zone := zone, cx_kind := 1, cx_attempt := attempt, cx_push_gen := gen,
      cx_hb_gen := a, cx_hb_crc := b, cx_cache_gen := c, cx_cache_crc := d, cx_trk_seq := 0, cx_st := CX_PUSH_COMMIT\<rparr>\<rparr>"
  obtain s3 outs where s3: "send_burst zone gen (nm_push_wire s1) [0 ..< ring_cfg_chunk_count (336 + HG_BLOB_HDR_LEN)] s2 = (s3, outs)"
    by (metis surj_pair)
  have "same_rows s s2" by (rule same_rows_eq) (simp add: s2_def s1_def split: option.split)
  also have "same_rows s2 s3" using same_rows_frames [OF burst_frames, of s2] by (metis s3 fst_conv)
  also have "same_rows s3 (fst (nmgr_submit zone RING_T_CFG_COMMIT ([1] @ le32_put gen) s3))"
    by (rule same_rows_frames [OF submit_frames])
  finally show ?thesis
    by (auto simp: start_push_def Some Let_def s1_def [symmetric] s2_def [symmetric] s3 split: prod.split option.split)
qed (simp add: start_push_def)

lemma rows_accept_push: "same_rows s (accept_push s)"
proof (cases "nmgr_cfg_cache (cx_zone (nm_cx s)) 1 s")
  case (Some c)
  show ?thesis unfolding accept_push_def Some Let_def option.case same_rows_simps
    by (rule same_rows_trans [OF _ rows_note_synced]) simp
qed (simp add: accept_push_def)

lemma rows_accept_pull: "same_rows s (fst (accept_pull s))"
proof -
  have n: "same_rows s (nmgr_cfg_note_synced z k (upd_zone z f s))" for z k f
    by (rule same_rows_trans [OF _ rows_note_synced]) simp
  show ?thesis
    by (auto simp: accept_pull_def Let_def rows_finish_failed rows_fail_or_retry n split: option.split prod.split)
qed

lemma rows_on_ev: "same_rows s (fst (nmgr_cfg_on_ev ev s))"
  by (simp add: nmgr_cfg_on_ev_def Let_def rows_fail_or_retry rows_accept_push)

lemma rows_on_chunk: "same_rows s (fst (nmgr_cfg_on_chunk f now s))"
proof -
  have "same_rows s (fst (accept_pull (s\<lparr>nm_casm := a\<rparr>)))" for a
    by (rule same_rows_trans [OF _ rows_accept_pull]) simp
  moreover have "same_rows s (fst (fail_or_retry b t (s\<lparr>nm_casm := a\<rparr>)))" for a b t
    by (rule same_rows_trans [OF _ rows_fail_or_retry]) simp
  ultimately show ?thesis
    by (auto simp: nmgr_cfg_on_chunk_def Let_def split: prod.split casm_res.split)
qed

lemma rows_cx_tick: "same_rows s (fst (fst (nmgr_cx_tick_1s now s)))"
  by (simp add: nmgr_cx_tick_1s_def Let_def rows_fail_or_retry rows_start_pull rows_start_push split: cx_state.split)

lemma rows_try_start: "same_rows s (fst (fst (try_start zone nd s)))"
proof -
  have "same_rows s (nmgr_cx_pull zone k a b c d s)" for k a b c d
    unfolding nmgr_cx_pull_def by (rule same_rows_trans [OF _ rows_start_pull]) simp
  then show ?thesis
    by (auto simp: try_start_def Let_def nmgr_cx_push_def split_def rows_start_push)
qed

lemma rows_cooling: "same_rows s (fst (nmgr_cfg_cooling_down zone now s))"
  by (simp add: nmgr_cfg_cooling_down_def)

lemma rows_rr_scan: "same_rows s (fst (rr_scan now is s))"
proof (induction "is" arbitrary: s)
  case (Cons i "is")
  let ?id = "rr_id s i" and ?s = "upd_zone (rr_id s i) (\<lambda>m. m\<lparr>zm_fresh := False\<rparr>) s"
  obtain s1 cooling where c: "nmgr_cfg_cooling_down ?id now ?s = (s1, cooling)" by (metis surj_pair)
  have 1: "same_rows s s1" using rows_cooling [of ?s ?id now] same_rows_trans [of s ?s s1] by (simp add: c)
  let ?s2 = "s1\<lparr>nm_rr_next := of_nat (unat ?id mod 8 + 1)\<rparr>"
  have 2: "same_rows s (fst (fst (try_start ?id nd ?s2)))" for nd
    by (rule same_rows_trans [OF _ rows_try_start]) (simp add: 1)
  have 3: "same_rows s s' \<Longrightarrow> same_rows s (fst (rr_scan now is s'))" for s'
    by (rule same_rows_trans [OF _ Cons.IH])
  show ?case
    using 3 [of s] 3 [of ?s] 3 [OF 1] 2 3 [OF 2]
    by (auto simp: Let_def c split_def split: option.split)
qed simp

lemma rows_cancel: "same_rows s (nmgr_cancel seq s)"
  by (rule same_rows_frames [OF cancel_frames])

lemma rows_invalidate: "same_rows s (nmgr_cfg_invalidate zone s)"
  unfolding nmgr_cfg_invalidate_def nmgr_cx_abort_def nmgr_cfg_cooldown_clear_def nmgr_cfg_latch_clear_def
  by (auto intro: same_rows_trans [OF _ rows_cancel])

lemma rows_clear: "same_rows s (nmgr_cfg_clear zone s)"
  by (simp add: nmgr_cfg_clear_def nmgr_cfg_drop_set_req_def rows_invalidate)

lemma rows_clear_marked: "same_rows s (clear_marked marks s)"
proof -
  have "same_rows s (fold (\<lambda>id s. if marks AND push_bit (unat id - 1) 1 \<noteq> 0 then nmgr_cfg_clear id s else s) zs s)" for zs s
    by (induction zs arbitrary: s) (auto intro: same_rows_trans [OF rows_clear])
  then show ?thesis by (simp add: clear_marked_def)
qed

lemma rows_start_set_req: "same_rows s (fst (start_set_req zone want s))"
  unfolding start_set_req_def Let_def split_def nmgr_cx_push_def nmgr_cfg_cooldown_clear_def
  by (rule same_rows_trans [OF _ rows_start_push]) simp

lemma rows_cfg_tick: "same_rows s (fst (nmgr_cfg_tick_1s now s))"
proof -
  let ?s = "clear_marked (nm_clear_mask s) (s\<lparr>nm_clear_mask := 0, nm_push_req := 0\<rparr>)"
  obtain s1 out busy where t: "nmgr_cx_tick_1s now ?s = ((s1, out), busy)" by (metis surj_pair)
  obtain s2 req where r: "nmgr_cfg_take_set_req s1 = (s2, req)" by (metis surj_pair)
  have "same_rows s ?s" by (rule same_rows_trans [OF _ rows_clear_marked]) simp
  also have "same_rows ?s s1" using rows_cx_tick [of ?s now] by (simp add: t)
  finally have 1: "same_rows s s1" .
  have "same_rows s1 s2" using r by (auto simp: nmgr_cfg_take_set_req_def split: option.splits)
  with 1 have 2: "same_rows s s2" by (rule same_rows_trans)
  show ?thesis
    using 1 same_rows_trans [OF 2 rows_start_set_req] same_rows_trans [OF 2 rows_start_push] same_rows_trans [OF 2 rows_rr_scan]
    by (auto simp: nmgr_cfg_tick_1s_def Let_def t r split_def nmgr_cx_push_def split: option.split)
qed

subsection \<open>The zone table and its rows\<close>

lemma ztab_len: "ztab_ok t \<Longrightarrow> length t = 8"
  by (simp add: ztab_ok_def HG_MAX_ZONES_def)

lemma zone_slot: "zone_id_ok z \<Longrightarrow> unat z - 1 < 8 \<and> unat z = Suc (unat z - 1)"
  by (auto simp: word_le_nat_alt)

lemma ztab_ids: "ztab_ok t \<Longrightarrow> e \<in> set t \<Longrightarrow> ze_id e \<noteq> 0 \<Longrightarrow> zone_id_ok (ze_id e)"
  by (auto simp: ztab_ok_def ztab_ent_ok_def in_set_conv_nth word_le_nat_alt unat_gt_0 Suc_le_eq)

lemma zone_slot_inj: "zone_id_ok a \<Longrightarrow> zone_id_ok b \<Longrightarrow> unat a - 1 = unat b - 1 \<Longrightarrow> a = b"
  using zone_slot [of a] zone_slot [of b] by (metis word_unat_eq_iff)

lemma mirror_put:
  assumes "ztab_ok t" "k < length t" "ze_id (t ! k) = 0" "zone_id_ok (ze_id e)" "ze_id e \<notin> ran (ztab_map t)"
    "rows_mirror t tab" "row_agrees e nd"
  shows "rows_mirror (t[k := e]) (tab[unat (ze_id e) - 1 := nd])"
proof -
  let ?i = "unat (ze_id e) - 1"
  have len: "length tab = 8" using assms(6) by (simp add: rows_mirror_def)
  have i: "?i < 8" "unat (ze_id e) = Suc ?i" using zone_slot [OF assms(4)] by auto
  have old: "e' \<in> set t \<and> ze_id e' \<noteq> 0 \<and> unat (ze_id e') - 1 \<noteq> ?i" if "e' \<in> set (t[k := e])" "e' \<noteq> e" "ze_id e' \<noteq> 0" for e'
  proof -
    have t: "e' \<in> set t" using that set_update_subset_insert [of t k e] by auto
    then have "ze_id e' \<noteq> ze_id e" using assms(4,5) ran_ztab_map [OF assms(1), of "ze_id e"] by (auto simp: in_set_conv_nth)
    then show ?thesis using zone_slot_inj [OF ztab_ids [OF assms(1) t that(3)] assms(4)] t that(3) by blast
  qed
  have "row_agrees e' (tab[?i := nd] ! (unat (ze_id e') - 1))" if "e' \<in> set (t[k := e])" "ze_id e' \<noteq> 0" for e'
    using old [OF that(1) _ that(2)] assms(6,7) i(1) len by (cases "e' = e") (auto simp: rows_mirror_def)
  moreover have "\<exists>e' \<in> set (t[k := e]). unat (ze_id e') = j + 1" if "j < 8" "nd_used (tab[?i := nd] ! j)" for j
  proof (cases "j = ?i")
    case True
    then show ?thesis using i(2) assms(2) by (intro bexI [of _ e]) (auto simp: set_update_memI)
  next
    case False
    then have "nd_used (tab ! j)" using that(2) by simp
    with that(1) obtain e' where e': "e' \<in> set t" "unat (ze_id e') = j + 1" using assms(6) unfolding rows_mirror_def by blast
    then have "e' \<noteq> t ! k" using assms(3) by auto
    with e' have "e' \<in> set (t[k := e])" by (metis in_set_conv_nth length_list_update nth_list_update_neq)
    with e' show ?thesis by blast
  qed
  ultimately show ?thesis using len by (simp add: rows_mirror_def)
qed

lemma mirror_drop:
  assumes "ztab_ok t" "k < length t" "ze_id (t ! k) = z" "z \<noteq> 0" "rows_mirror t tab" "\<not> nd_used nd"
  shows "rows_mirror (t[k := ztab_ent_zero]) (tab[unat z - 1 := nd])"
proof -
  let ?e = "ztab_ent_zero"
  have len: "length tab = 8" using assms(5) by (simp add: rows_mirror_def)
  have z: "zone_id_ok z" using ztab_ids [OF assms(1), of "t ! k"] assms(2-4) by simp
  have k: "e' \<in> set t \<and> unat (ze_id e') - 1 \<noteq> unat z - 1" if "e' \<in> set (t[k := ?e])" "ze_id e' \<noteq> 0" for e'
  proof -
    from that(1) obtain j where j: "j < length t" "t[k := ?e] ! j = e'" unfolding in_set_conv_nth length_list_update by blast
    then have "j \<noteq> k" using that(2) by (auto simp: ztab_ent_zero_def)
    then have e': "t ! j = e'" using j by simp
    with ztab_row_unique [OF assms(1) j(1) assms(2)] \<open>j \<noteq> k\<close> that(2) assms(3) have "ze_id e' \<noteq> z" by auto
    moreover have "e' \<in> set t" using e' j(1) by auto
    ultimately show ?thesis using zone_slot_inj [OF ztab_ids [OF assms(1) _ that(2)] z] by blast
  qed
  have "row_agrees e' (tab[unat z - 1 := nd] ! (unat (ze_id e') - 1))" if "e' \<in> set (t[k := ?e])" "ze_id e' \<noteq> 0" for e'
    using k [OF that] assms(5) that(2) by (auto simp: rows_mirror_def)
  moreover have "\<exists>e' \<in> set (t[k := ?e]). unat (ze_id e') = j + 1" if "j < 8" "nd_used (tab[unat z - 1 := nd] ! j)" for j
  proof -
    have j: "j \<noteq> unat z - 1" using that zone_slot [OF z] len assms(6) by auto
    then have "nd_used (tab ! j)" using that(2) by simp
    with that(1) obtain e' where e': "e' \<in> set t" "unat (ze_id e') = j + 1" using assms(5) unfolding rows_mirror_def by blast
    then have "e' \<noteq> t ! k" using assms(3) j zone_slot [OF z] by auto
    with e' have "e' \<in> set (t[k := ?e])" by (metis in_set_conv_nth length_list_update nth_list_update_neq)
    with e' show ?thesis by blast
  qed
  ultimately show ?thesis using len by (simp add: rows_mirror_def)
qed

text \<open>What an enrolment does to the table, for whatever MAC a heartbeat carries.\<close>

lemma free_row_mac: "ztab_ok t \<Longrightarrow> k < length t \<Longrightarrow> ze_id (t ! k) = 0 \<Longrightarrow> ze_mac (t ! k) = replicate 6 0"
  by (simp add: ztab_ok_def ztab_ent_ok_def)

lemma find_mac_None_map: "ztab_ok t \<Longrightarrow> ztab_find_mac t mac = None \<Longrightarrow> ztab_map t mac = None"
  by (simp add: ztab_find_mac_def first_idx_None_nth ztab_map_None)

lemma ztab_place_cases:
  assumes "ztab_ok t" "ztab_find_mac t mac = None" "ztab_place t mac i = Some t'"
  obtains k where "k < length t" "ze_id (t ! k) = 0" "t' = t[k := seed_row i mac]" "mac \<noteq> replicate 6 0"
proof -
  obtain k where k: "first_idx (\<lambda>e. ze_id e = 0) t = Some k" "t' = t[k := seed_row i mac]"
    using assms(3) by (auto simp: ztab_place_def seed_row_def)
  note f = first_idx_Some [OF k(1)]
  have "ze_mac (t ! k) \<noteq> mac" using assms(2) f by (simp add: ztab_find_mac_def first_idx_None_nth)
  then have "mac \<noteq> replicate 6 0" using free_row_mac [OF assms(1), of k] f by auto
  with f k(2) show thesis by (intro that [of k]) auto
qed

lemma enrol_cases:
  assumes ok: "ztab_ok t" and e: "ztab_enrol t mac claimed = (t', v, oid)"
  shows "v = ZTAB_EN_KNOWN \<or> v = ZTAB_EN_STALE \<Longrightarrow> t' = t \<and> (\<exists>k < length t. ze_mac (t ! k) = mac \<and> oid = Some (ze_id (t ! k)) \<and>
      (v = ZTAB_EN_KNOWN) = (claimed = ze_id (t ! k)))"
    and "v = ZTAB_EN_CONFLICT \<Longrightarrow> t' = t \<and> oid = Some claimed \<and> ztab_map t mac = None \<and> claimed \<in> ran (ztab_map t)"
    and "v = ZTAB_EN_FULL \<Longrightarrow> t' = t \<and> oid = None \<and> ztab_map t mac = None"
    and "v = ZTAB_EN_ASSIGNED \<Longrightarrow> \<exists>k i. k < length t \<and> ze_id (t ! k) = 0 \<and> t' = t[k := seed_row i mac] \<and> oid = Some i \<and>
      zone_id_ok i \<and> i \<notin> ran (ztab_map t) \<and> mac \<noteq> replicate 6 0 \<and> ztab_map t mac = None"
proof -
  have "(v = ZTAB_EN_KNOWN \<or> v = ZTAB_EN_STALE) \<and> t' = t \<and> (\<exists>k < length t. ze_mac (t ! k) = mac \<and> oid = Some (ze_id (t ! k)) \<and>
      (v = ZTAB_EN_KNOWN) = (claimed = ze_id (t ! k))) \<or>
    v = ZTAB_EN_CONFLICT \<and> t' = t \<and> oid = Some claimed \<and> ztab_map t mac = None \<and> claimed \<in> ran (ztab_map t) \<or>
    v = ZTAB_EN_FULL \<and> t' = t \<and> oid = None \<and> ztab_map t mac = None \<or>
    v = ZTAB_EN_ASSIGNED \<and> (\<exists>k i. k < length t \<and> ze_id (t ! k) = 0 \<and> t' = t[k := seed_row i mac] \<and> oid = Some i \<and>
      zone_id_ok i \<and> i \<notin> ran (ztab_map t) \<and> mac \<noteq> replicate 6 0 \<and> ztab_map t mac = None)"
  proof (cases "ztab_find_mac t mac")
    case (Some k)
    then have "k < length t" "ze_mac (t ! k) = mac" unfolding ztab_find_mac_def by (auto dest: first_idx_Some)
    then show ?thesis using e by (auto simp: ztab_enrol_def Some Let_def split: if_splits)
  next
    case None
    note m = find_mac_None_map [OF ok None]
    show ?thesis
    proof (cases "claimed \<ge> 1 \<and> unat claimed \<le> HG_MAX_ZONES")
      case True
      then have c: "zone_id_ok claimed" by (simp add: HG_MAX_ZONES_def word_le_nat_alt)
      show ?thesis
      proof (cases "ztab_find_id t claimed")
        case (Some j)
        then show ?thesis using e None True m ztab_find_id_map [OF ok, of claimed] by (auto simp: ztab_enrol_def)
      next
        case f: None
        then have r: "claimed \<notin> ran (ztab_map t)" using ztab_find_id_map [OF ok] by blast
        show ?thesis
        proof (cases "ztab_place t mac claimed")
          case None
          then show ?thesis using e f True m \<open>ztab_find_mac t mac = None\<close> by (auto simp: ztab_enrol_def)
        next
          case p: (Some t1)
          have x: "t' = t1" "v = ZTAB_EN_ASSIGNED" "oid = Some claimed" using e f True p None by (auto simp: ztab_enrol_def)
          show ?thesis using ztab_place_cases [OF ok None p] c r m x by metis
        qed
      qed
    next
      case False
      then have en: "ztab_enrol t mac claimed = (case ztab_assign t mac of
              (t', None) \<Rightarrow> (t', ZTAB_EN_FULL, None) | (t', Some i) \<Rightarrow> (t', ZTAB_EN_ASSIGNED, Some i))"
        by (simp only: ztab_enrol_def None option.case if_False)
      show ?thesis
      proof (cases "List.find (\<lambda>i. ztab_find_id t i = None) [1, 2, 3, 4, 5, 6, 7, 8]")
        case f: None
        then have "ztab_assign t mac = (t, None)" unfolding ztab_assign_def None by simp
        then show ?thesis using e m by (simp only: en) auto
      next
        case f: (Some i)
        have c: "zone_id_ok i" using find_free_id [OF f] by (simp add: word_le_nat_alt)
        have r: "i \<notin> ran (ztab_map t)" using find_free_id(1) [OF f] ztab_find_id_map [OF ok] by blast
        show ?thesis
        proof (cases "ztab_place t mac i")
          case p: None
          then have "ztab_assign t mac = (t, None)" unfolding ztab_assign_def None f by simp
          then show ?thesis using e m by (simp only: en) auto
        next
          case p: (Some t1)
          then have "ztab_assign t mac = (t1, Some i)" unfolding ztab_assign_def None f by simp
          then have x: "t' = t1" "v = ZTAB_EN_ASSIGNED" "oid = Some i" using e by (auto simp: en)
          show ?thesis using ztab_place_cases [OF ok None p] c r m x by metis
        qed
      qed
    qed
  qed
  then show "v = ZTAB_EN_KNOWN \<or> v = ZTAB_EN_STALE \<Longrightarrow> t' = t \<and> (\<exists>k < length t. ze_mac (t ! k) = mac \<and> oid = Some (ze_id (t ! k)) \<and>
      (v = ZTAB_EN_KNOWN) = (claimed = ze_id (t ! k)))"
    and "v = ZTAB_EN_CONFLICT \<Longrightarrow> t' = t \<and> oid = Some claimed \<and> ztab_map t mac = None \<and> claimed \<in> ran (ztab_map t)"
    and "v = ZTAB_EN_FULL \<Longrightarrow> t' = t \<and> oid = None \<and> ztab_map t mac = None"
    and "v = ZTAB_EN_ASSIGNED \<Longrightarrow> \<exists>k i. k < length t \<and> ze_id (t ! k) = 0 \<and> t' = t[k := seed_row i mac] \<and> oid = Some i \<and>
      zone_id_ok i \<and> i \<notin> ran (ztab_map t) \<and> mac \<noteq> replicate 6 0 \<and> ztab_map t mac = None"
    by blast+
qed

text \<open>The board that leaves the list of those without a zone.\<close>

lemma purge_list:
  assumes "first_idx (\<lambda>m. m = mac) ws = Some i" "distinct ws"
  shows "distinct (mac # butlast (ws[i := last ws]))" "set (butlast (ws[i := last ws])) = set ws - {mac}"
    "length (butlast (ws[i := last ws])) \<le> length ws"
proof -
  let ?v = "ws[i := last ws]"
  have i: "i < length ws" "ws ! i = mac" using first_idx_Some [OF assms(1)] by auto
  then have ne: "?v \<noteq> []" by auto
  have "ws \<noteq> []" using i(1) by auto
  then have l: "last ?v = last ws" by (simp add: last_list_update)
  have "mset (butlast ?v @ [last ws]) = mset ?v" using append_butlast_last_id [OF ne] l by simp
  also have "\<dots> = add_mset (last ws) (mset ws - {#mac#})" using mset_update [OF i(1), of "last ws"] i(2) by simp
  finally have "mset (butlast ?v) = mset ws - {#mac#}" by simp
  moreover have "mac \<in># mset ws" using i by auto
  ultimately have m: "mset (mac # butlast ?v) = mset ws" by simp
  then show d: "distinct (mac # butlast ?v)" using assms(2) mset_eq_imp_distinct_iff by blast
  have "set ws = insert mac (set (butlast ?v))" using mset_eq_setD [OF m] by simp
  with d show "set (butlast ?v) = set ws - {mac}" by auto
  show "length (butlast ?v) \<le> length ws" by simp
qed

definition waiting_after :: "u8 list \<Rightarrow> u8 list list \<Rightarrow> u8 list list" where
  "waiting_after mac ws =
     (case first_idx (\<lambda>m. m = mac) ws of None \<Rightarrow> ws | Some i \<Rightarrow> butlast (ws[i := last ws]))"

lemma purge_eq: "purge_unassigned mac s = s\<lparr>mg_unassigned := waiting_after mac (mg_unassigned s)\<rparr>"
  by (simp add: purge_unassigned_def waiting_after_def split: option.split)

lemma waiting_after_facts:
  assumes "distinct ws"
  shows "distinct (waiting_after mac ws)" "set (waiting_after mac ws) = set ws - {mac}" "length (waiting_after mac ws) \<le> length ws"
  using purge_list [OF _ assms, of mac] assms
  by (auto simp: waiting_after_def first_idx_None split: option.split)

lemma waiting_purged:
  assumes "waiting_ok t ws" "\<And>m. m \<noteq> mac \<Longrightarrow> ztab_map t m = None \<Longrightarrow> ztab_map t' m = None"
  shows "waiting_ok t' (waiting_after mac ws)"
  using assms waiting_after_facts [of ws mac] by (auto simp: waiting_ok_def intro: order_trans)

lemma flagged_put: "ztab_flagged t \<Longrightarrow> ze_id e = 0 \<or> ze_flags e AND ZTAB_F_ASSIGNED \<noteq> 0 \<Longrightarrow> ztab_flagged (t[k := e])"
  using set_update_subset_insert [of t k e] by (auto simp: ztab_flagged_def)

lemma seed_row_simps [simp]:
  "ze_id (seed_row z mac) = z" "ze_mac (seed_row z mac) = mac" "ze_name (seed_row z mac) = replicate 16 0"
  "ze_flags (seed_row z mac) AND ZTAB_F_ASSIGNED \<noteq> 0" "ze_id ztab_ent_zero = 0"
  by (simp_all add: seed_row_def ZTAB_F_ASSIGNED_def ZTAB_F_UNCONFIGURED_def ztab_ent_zero_def)

lemma ztab_drop:
  assumes "ztab_ok t" "k < length t" "ze_id (t ! k) \<noteq> 0"
  shows "ztab_ok (t[k := ztab_ent_zero])" "ztab_map (t[k := ztab_ent_zero]) = (ztab_map t)(ze_mac (t ! k) := None)"
    "ztab_map t (ze_mac (t ! k)) = Some (ze_id (t ! k))"
proof -
  show ok: "ztab_ok (t[k := ztab_ent_zero])"
    by (rule ztab_ok_put [OF assms(1,2)]) (simp_all add: ztab_ent_ok_def ztab_ent_zero_def)
  show "ztab_map (t[k := ztab_ent_zero]) = (ztab_map t)(ze_mac (t ! k) := None)"
    by (rule ztab_map_clear [OF assms(1,2) ok _ assms(3)]) simp
  show "ztab_map t (ze_mac (t ! k)) = Some (ze_id (t ! k))" using assms by (auto simp: ztab_map_Some)
qed

lemma ztab_add:
  assumes "ztab_ok t" "k < length t" "ze_id (t ! k) = 0" "zone_id_ok z" "z \<notin> ran (ztab_map t)" "zone_mac mac" "ztab_map t mac = None"
  shows "ztab_ok (t[k := seed_row z mac])" "ztab_map (t[k := seed_row z mac]) = (ztab_map t)(mac \<mapsto> z)"
proof -
  have z0: "z \<noteq> 0" using assms(4) by auto
  show ok: "ztab_ok (t[k := seed_row z mac])"
  proof (rule ztab_ok_put [OF assms(1,2)])
    show "ztab_ent_ok (seed_row z mac)" using assms(4,6) z0
      by (simp add: ztab_ent_ok_def zone_mac_def)
    show "\<forall>j < length t. j \<noteq> k \<longrightarrow> ze_id (seed_row z mac) \<noteq> 0 \<longrightarrow>
        ze_id (t ! j) \<noteq> ze_id (seed_row z mac) \<and> ze_mac (t ! j) \<noteq> ze_mac (seed_row z mac)"
    proof (intro allI impI conjI)
      fix j assume j: "j < length t"
      show "ze_id (t ! j) \<noteq> ze_id (seed_row z mac)" using assms(5) z0 j by (auto simp: ran_ztab_map [OF assms(1)])
      have "ztab_ent_ok (t ! j)" using assms(1) j by (simp add: ztab_ok_def)
      then show "ze_mac (t ! j) \<noteq> ze_mac (seed_row z mac)"
        using assms(6,7) j ztab_map_None [OF assms(1), of mac] by (auto simp: ztab_ent_ok_def zone_mac_def)
    qed
  qed
  show "ztab_map (t[k := seed_row z mac]) = (ztab_map t)(mac \<mapsto> z)"
    using ztab_map_put [OF assms(1,2) ok assms(3)] z0 by simp
qed

lemma store_save_cases:
  assumes "ztab_ok (mg_ztab s)" "ztab_flagged (mg_ztab s)" "flash_ok (mg_flash s)"
  obtains g fl where "fst (node_store_save r s) = s\<lparr>mg_store_gen := g, mg_flash := fl\<rparr>" "flash_ok fl"
    "snd (node_store_save r s) = (r = NvsDone)" "r = NvsDone \<Longrightarrow> fl = ztab_pack (mg_ztab s) g (HG_BLOB_HDR_LEN + 192)"
    "r = NvsDone \<Longrightarrow> fl \<noteq> None"
proof -
  let ?g = "mg_store_gen s + 1"
  have "\<forall>e \<in> set (mg_ztab s). length (ztab_ent_bytes e) = 24"
    using assms(1) by (auto simp: ztab_ok_def ztab_ent_ok_def ztab_ent_bytes_def in_set_conv_nth)
  from length_concat_records [OF this] have "length (concat (map ztab_ent_bytes (mg_ztab s))) = 192"
    using ztab_len [OF assms(1)] by simp
  then obtain b where b: "ztab_pack (mg_ztab s) ?g (HG_BLOB_HDR_LEN + 192) = Some b"
    by (simp add: ztab_pack_def hg_blob_wrap_def HG_BLOB_HDR_LEN_def Let_def)
  then have f: "flash_ok (Some b)" using assms(1,2) by (auto simp: flash_ok_def)
  show thesis
    by (rule that [where g = ?g and fl = "if r = NvsDone \<or> r = NvsCommitFails True then Some b else mg_flash s"])
      (use b f assms(3) in \<open>auto simp: node_store_save_def Let_def split: nvs_result.split\<close>)
qed

subsection \<open>The operations keep it\<close>

lemma node_found: "zone_id_ok z \<Longrightarrow> nmgr_node_by_id tab z = Some (tab ! (unat z - 1))"
  by (auto simp: nmgr_node_by_id_def)

lemma mgr_ok_core: "mgr_ok s \<Longrightarrow> nm_ok c \<Longrightarrow> same_rows (mg_core s) c \<Longrightarrow> mgr_ok (s\<lparr>mg_core := c\<rparr>)"
  unfolding mgr_ok_def same_rows_def by (auto intro: mirror_same_rows)

lemma mgr_ok_other [simp]:
  "mgr_ok (s\<lparr>mg_fwd := w\<rparr>) = mgr_ok s" "mgr_ok (s\<lparr>mg_fleet := fl\<rparr>) = mgr_ok s" "mgr_ok (upd_fwd g s) = mgr_ok s"
  "mgr_ok (s\<lparr>mg_ring_status := st\<rparr>) = mgr_ok s" "mgr_ok (s\<lparr>mg_time_valid := b\<rparr>) = mgr_ok s"
  "mgr_ok (s\<lparr>mg_unassigned_notified := b\<rparr>) = mgr_ok s" "mgr_ok (s\<lparr>mg_store_gen := n\<rparr>) = mgr_ok s"
  by (simp_all add: mgr_ok_def upd_fwd_def)

lemma mgr_ok_seqs: "mgr_ok s \<Longrightarrow> length a = 8 \<Longrightarrow> length b = 8 \<Longrightarrow> mgr_ok (s\<lparr>mg_last_seq := a, mg_seq_known := b\<rparr>)"
  by (simp add: mgr_ok_def)

lemma mgr_ok_known: "mgr_ok s \<Longrightarrow> mgr_ok (s\<lparr>mg_seq_known := (mg_seq_known s)[i := b]\<rparr>)"
  by (simp add: mgr_ok_def)

lemma upd_core_ok: "mgr_ok s \<Longrightarrow> nm_ok (f (mg_core s)) \<Longrightarrow> same_rows (mg_core s) (f (mg_core s)) \<Longrightarrow> mgr_ok (upd_core f s)"
  by (simp add: upd_core_def mgr_ok_core)

lemma run_core_ok:
  "mgr_ok s \<Longrightarrow> nm_ok (fst (f (mg_core s))) \<Longrightarrow> same_rows (mg_core s) (fst (f (mg_core s))) \<Longrightarrow> mgr_ok (fst (run_core f s))"
  by (simp add: run_core_def Let_def split_def mgr_ok_core)

lemma put_node_ok: "mgr_ok s \<Longrightarrow> (\<And>nd. same_row nd (f nd)) \<Longrightarrow> mgr_ok (put_node z f s)"
  unfolding put_node_def by (intro upd_core_ok nm_ok_upd_node same_rows_upd_node) (auto simp: mgr_ok_def)

lemma frames_ok: "mgr_ok s \<Longrightarrow> same_but_frames (mg_core s) c \<Longrightarrow> mgr_ok (s\<lparr>mg_core := c\<rparr>)"
  by (intro mgr_ok_core) (auto simp: nm_ok_frames same_rows_frames mgr_ok_def)

lemma send_raw_frames: "same_but_frames s (fst (nmgr_send_raw dst type p s))"
  by (simp add: nmgr_send_raw_def nmgr_next_seq_def same_but_frames_def Let_def)

lemma send_raw_ok: "mgr_ok s \<Longrightarrow> mgr_ok (fst (run_core (nmgr_send_raw dst type p) s))"
  by (simp add: run_core_def Let_def split_def frames_ok send_raw_frames)

lemma send_assign_ok: "mgr_ok s \<Longrightarrow> mgr_ok (fst (send_assign mac z s))"
  by (simp add: send_assign_def hg_assign_pack_def send_raw_ok)

lemma mark_updating_ok: "mgr_ok s \<Longrightarrow> mgr_ok (node_mgr_mark_updating z hold s)"
  by (auto simp: node_mgr_mark_updating_def same_row_def intro!: put_node_ok split: option.split)

lemma request_clear_frame: "nm_ok s \<Longrightarrow> nm_ok (nmgr_cfg_request_clear z s) \<and> same_rows s (nmgr_cfg_request_clear z s)"
  by (simp add: nmgr_cfg_request_clear_def nm_ok_def)

lemma request_clear_mgr_ok: "mgr_ok s \<Longrightarrow> mgr_ok (upd_core (nmgr_cfg_request_clear z) s)"
  using request_clear_frame by (intro upd_core_ok) (auto simp: mgr_ok_def)

lemma telemetry_ok: "mgr_ok s \<Longrightarrow> mgr_ok (update_telemetry z hdr hb s)"
proof -
  assume s: "mgr_ok s"
  have n: "mgr_ok (upd_core (nmgr_cfg_note_fresh_hb z) s')" if "mgr_ok s'" for s'
    using that by (intro upd_core_ok) (auto simp: mgr_ok_def nmgr_cfg_note_fresh_hb_def intro!: nm_ok_upd_zone)
  have "mgr_ok (put_node z f s)" if "\<And>nd. same_row nd (f nd)" for f by (rule put_node_ok [OF s that])
  then show ?thesis
    unfolding update_telemetry_def Let_def
    by (intro n mgr_ok_seqs) (simp_all add: same_row_def put_node_def upd_core_def s [unfolded mgr_ok_def])
qed

lemma track_unassigned_ok:
  assumes "mgr_ok s" "ztab_map (mg_ztab s) mac = None"
  shows "mgr_ok (fst (track_unassigned mac s))"
  using assms by (auto simp: track_unassigned_def Let_def mgr_ok_def waiting_ok_def HG_MAX_ZONES_def)

text \<open>A board gets a free id: the new rows in both tables.\<close>

lemma zone_mac_iff: "length mac = 6 \<Longrightarrow> mac \<noteq> replicate 6 0 \<Longrightarrow> zone_mac mac"
  by (simp add: zone_mac_def)

lemma new_row_ok:
  assumes s: "mgr_ok s" and k: "k < length (mg_ztab s)" "ze_id (mg_ztab s ! k) = 0" "zone_id_ok i" "i \<notin> ran (ztab_map (mg_ztab s))"
    and mac: "zone_mac mac" "ztab_map (mg_ztab s) mac = None"
  shows "mgr_ok (fst (enrol_new_row i mac r (s\<lparr>mg_ztab := (mg_ztab s)[k := seed_row i mac]\<rparr>)))"
proof -
  let ?t = "(mg_ztab s)[k := seed_row i mac]"
  have ok: "ztab_ok (mg_ztab s)" "ztab_flagged (mg_ztab s)" "flash_ok (mg_flash s)" "waiting_ok (mg_ztab s) (mg_unassigned s)"
    "nm_ok (mg_core s)" "rows_mirror (mg_ztab s) (nm_tab (mg_core s))" using s by (auto simp: mgr_ok_def)
  note t = ztab_add [OF ok(1) k mac]
  have fl: "ztab_flagged ?t" by (intro flagged_put [OF ok(2)]) simp
  define s1 where "s1 = purge_unassigned mac (s\<lparr>mg_ztab := ?t\<rparr>)"
  have s1: "mg_ztab s1 = ?t" "mg_flash s1 = mg_flash s" "mg_core s1 = mg_core s" "mg_unassigned s1 = waiting_after mac (mg_unassigned s)"
    "mg_last_seq s1 = mg_last_seq s" "mg_seq_known s1 = mg_seq_known s"
    by (simp_all add: s1_def purge_eq)
  obtain g b where sv: "fst (node_store_save r s1) = s1\<lparr>mg_store_gen := g, mg_flash := b\<rparr>" "flash_ok b"
    using store_save_cases [of s1 r] t(1) fl ok(3) by (metis s1(1,2))
  have w: "waiting_ok ?t (waiting_after mac (mg_unassigned s))"
    by (rule waiting_purged [OF ok(4)]) (simp add: t(2))
  define nd where "nd = node_zero\<lparr>nd_used := True, nd_id := i, nd_unconfigured := True, nd_mac := mac\<rparr>"
  have "row_agrees (seed_row i mac) nd" by (simp add: row_agrees_def nd_def node_zero_def)
  from mirror_put [OF ok(1) k(1,2) _ _ ok(6) this] k(3,4)
  have m: "rows_mirror ?t ((nm_tab (mg_core s))[unat i - 1 := nd])" by simp
  show ?thesis
    using s w m t(1) fl sv(2) nm_ok_upd_node [OF ok(5), of i "\<lambda>_. nd"]
    by (simp add: enrol_new_row_def Let_def s1_def [symmetric] sv(1) put_node_def upd_core_def mgr_ok_def s1 nd_def [symmetric])
      (simp add: upd_node_def)
qed

lemma hb_parse_mac: "hg_hb_parse junk p = Some hb \<Longrightarrow> length (hb_mac hb) = 6"
  by (auto simp: hg_hb_parse_def Let_def split: if_splits)

lemma handle_hb_ok:
  assumes s: "mgr_ok s"
  shows "mgr_ok (fst (nmgr_enrol_handle_hb f junk r s))"
proof (cases "hg_hb_parse junk (frame_bytes f)")
  case (Some hb)
  let ?mac = "hb_mac hb" and ?src = "h_src (f_hdr f)"
  obtain t v oid where e: "ztab_enrol (mg_ztab s) ?mac ?src = (t, v, oid)" by (metis prod_cases3)
  have ok: "ztab_ok (mg_ztab s)" using s by (simp add: mgr_ok_def)
  note ec = enrol_cases [OF ok e]
  define i where "i = (case oid of None \<Rightarrow> 0 | Some i \<Rightarrow> i)"
  have rest: "mgr_ok (fst (let s = update_telemetry i (f_hdr f) hb s1;
      (s, asserted) = (if ?src \<noteq> i then send_assign ?mac i s else (s, [])) in (s, out @ asserted)))" if "mgr_ok s1" for s1 out
    using telemetry_ok [OF that] send_assign_ok [OF telemetry_ok [OF that]] by (simp add: Let_def split_def)
  show ?thesis
  proof (cases v)
    case ZTAB_EN_FULL
    with ec(3) s show ?thesis by (simp add: nmgr_enrol_handle_hb_def Some e track_unassigned_ok)
  next
    case ZTAB_EN_CONFLICT
    with ec(2) s send_assign_ok [OF s, of ?mac RING_ID_UNASSIGNED] show ?thesis
      by (simp add: nmgr_enrol_handle_hb_def Some e Let_def split_def)
  next
    case ZTAB_EN_ASSIGNED
    with ec(4) obtain k where k: "k < length (mg_ztab s)" "ze_id (mg_ztab s ! k) = 0" "t = (mg_ztab s)[k := seed_row i ?mac]"
      "zone_id_ok i" "i \<notin> ran (ztab_map (mg_ztab s))" "?mac \<noteq> replicate 6 0" "ztab_map (mg_ztab s) ?mac = None"
      by (auto simp: i_def)
    obtain s1 out where r: "enrol_new_row i ?mac r (s\<lparr>mg_ztab := t\<rparr>) = (s1, out)" by (metis surj_pair)
    have "mgr_ok s1" using new_row_ok [OF s k(1,2,4,5) zone_mac_iff [OF hb_parse_mac [OF Some] k(6)] k(7), of r] r by (simp add: k(3))
    from rest [OF this, of out] show ?thesis
      by (simp add: nmgr_enrol_handle_hb_def Some e i_def [symmetric] ZTAB_EN_ASSIGNED node_found [OF k(4)] r Let_def split_def split: if_splits)
  qed (use ec(1) s rest [OF s, of "[]"] in \<open>auto simp: nmgr_enrol_handle_hb_def Some e i_def [symmetric] Let_def split_def split: option.split\<close>)
qed (simp add: nmgr_enrol_handle_hb_def s)

text \<open>Naming and retirement, with a table that reaches the flash.\<close>

lemma save_done:
  assumes "ztab_ok (mg_ztab s)" "ztab_flagged (mg_ztab s)" "flash_ok (mg_flash s)"
  obtains g b where "fst (node_store_save NvsDone s) = s\<lparr>mg_store_gen := g, mg_flash := b\<rparr>" "flash_ok b"
    "snd (node_store_save NvsDone s)"
  by (rule store_save_cases [OF assms, of NvsDone]) (simp add: that)

lemma cstr_padded: "0 \<notin> set xs \<Longrightarrow> cstr (xs @ replicate n 0) = xs"
proof (induction xs)
  case Nil
  show ?case by (cases n) (simp_all add: cstr_def)
qed (simp add: cstr_def)

lemma name_mirror:
  assumes "ztab_ok t" "ztab_set_name t z name = Some t'" "rows_mirror t tab" "0 \<notin> set name"
  shows "rows_mirror t' (tab[unat z - 1 := (tab ! (unat z - 1))\<lparr>nd_name := set_name_buf name (nd_name (tab ! (unat z - 1)))\<rparr>])"
    "zone_id_ok z" "nd_used (tab ! (unat z - 1))"
proof -
  let ?i = "unat z - 1" and ?nd = "(tab ! (unat z - 1))\<lparr>nd_name := set_name_buf name (nd_name (tab ! (unat z - 1)))\<rparr>"
  obtain k where k: "ztab_find_id t z = Some k" "length name \<le> 15"
    and t': "t' = t[k := (t ! k)\<lparr>ze_name := name @ replicate (16 - length name) 0\<rparr>]"
    using assms(2) by (auto simp: ztab_set_name_def split: option.splits if_splits)
  note f = ztab_find_id_Some [OF k(1)]
  let ?e = "(t ! k)\<lparr>ze_name := name @ replicate (16 - length name) 0\<rparr>"
  have len: "length tab = 8" using assms(3) by (simp add: rows_mirror_def)
  show z: "zone_id_ok z" using ztab_ids [OF assms(1), of "t ! k"] f by auto
  have rk: "row_agrees (t ! k) (tab ! ?i)" using assms(3) f by (auto simp: rows_mirror_def)
  then show "nd_used (tab ! (unat z - 1))" by (simp add: row_agrees_def)
  have i: "?i < 8" using zone_slot [OF z] by simp
  note c = cstr_padded [OF assms(4), of "16 - length name"]
  have agree: "row_agrees ?e ?nd"
    using rk c k(2) assms(4) by (simp add: row_agrees_def set_name_buf_def cstr_put_cstr)
  have "row_agrees e (tab[?i := ?nd] ! (unat (ze_id e) - 1))" if e: "e \<in> set t'" "ze_id e \<noteq> 0" for e
  proof -
    obtain j where j: "j < length t" "t' ! j = e" using e(1) by (auto simp: t' in_set_conv_nth)
    show ?thesis
    proof (cases "j = k")
      case True
      then have "e = ?e" using j f by (auto simp: t')
      then show ?thesis using agree f i len by simp
    next
      case False
      then have tj: "t ! j = e" using j by (simp add: t')
      then have et: "e \<in> set t" using j(1) by auto
      have "ze_id e \<noteq> z" using ztab_row_unique [OF assms(1) j(1), of k] f False tj e(2) by auto
      then have "unat (ze_id e) - 1 \<noteq> ?i" using zone_slot_inj [OF ztab_ids [OF assms(1) et e(2)] z] by blast
      then show ?thesis using assms(3) et e(2) by (auto simp: rows_mirror_def)
    qed
  qed
  moreover have "\<exists>e \<in> set t'. unat (ze_id e) = j + 1" if j: "j < 8" "nd_used (tab[?i := ?nd] ! j)" for j
  proof -
    have "nd_used (tab ! j)" using j i len by (cases "j = ?i") auto
    then obtain e where e: "e \<in> set t" "unat (ze_id e) = j + 1" using assms(3) j(1) unfolding rows_mirror_def by blast
    then obtain m where m: "m < length t" "t ! m = e" by (auto simp: in_set_conv_nth)
    then have "ze_id (t' ! m) = ze_id e" using f by (cases "m = k") (auto simp: t')
    moreover have "t' ! m \<in> set t'" using m(1) by (simp add: t')
    ultimately show ?thesis using e(2) by metis
  qed
  ultimately show "rows_mirror t' (tab[?i := ?nd])" using len by (simp add: rows_mirror_def)
qed

lemma set_name_ok:
  assumes s: "mgr_ok s" and n: "0 \<notin> set name"
  shows "mgr_ok (fst (node_mgr_set_name z name NvsDone s))"
proof (cases "ztab_set_name (mg_ztab s) z name")
  case (Some t)
  have ok: "ztab_ok (mg_ztab s)" "ztab_flagged (mg_ztab s)" "flash_ok (mg_flash s)" "rows_mirror (mg_ztab s) (nm_tab (mg_core s))"
    "nm_ok (mg_core s)" using s by (auto simp: mgr_ok_def)
  note t = ztab_ok_name [OF ok(1) Some] and m = name_mirror [OF ok(1) Some ok(4) n]
  have fl: "ztab_flagged t"
    using Some ok(2) ztab_find_id_Some [of "mg_ztab s" z]
    by (auto simp: ztab_set_name_def split: option.splits if_splits intro!: flagged_put) (auto simp: ztab_flagged_def)
  have p: "ztab_ok (mg_ztab (s\<lparr>mg_ztab := t\<rparr>))" "ztab_flagged (mg_ztab (s\<lparr>mg_ztab := t\<rparr>))" "flash_ok (mg_flash (s\<lparr>mg_ztab := t\<rparr>))"
    using t(1) fl ok(3) by simp_all
  obtain g b where sv: "fst (node_store_save NvsDone (s\<lparr>mg_ztab := t\<rparr>)) = s\<lparr>mg_ztab := t, mg_store_gen := g, mg_flash := b\<rparr>"
    "flash_ok b" "snd (node_store_save NvsDone (s\<lparr>mg_ztab := t\<rparr>))"
    by (rule save_done [OF p])
  have "nm_ok (upd_node z f (mg_core s))" for f by (rule nm_ok_upd_node [OF ok(5)])
  then show ?thesis
    using s t fl sv(2) m
    by (simp add: node_mgr_set_name_def Some Let_def split_def sv node_found [OF m(2)] put_node_def upd_core_def mgr_ok_def
        waiting_ok_def) (simp add: upd_node_def)
qed (simp add: node_mgr_set_name_def s)

lemma clear_cases:
  assumes "ztab_ok t" "ztab_clear t z = Some t'"
  obtains k where "k < length t" "ze_id (t ! k) = z" "z \<noteq> 0" "zone_id_ok z" "t' = t[k := ztab_ent_zero]"
proof -
  obtain k where k: "ztab_find_id t z = Some k" "t' = t[k := ztab_ent_zero]" using assms(2) by (auto simp: ztab_clear_def)
  note f = ztab_find_id_Some [OF k(1)]
  with ztab_ids [OF assms(1), of "t ! k"] k(2) show thesis by (intro that [of k]) auto
qed

lemma clear_mgr_ok:
  assumes s: "mgr_ok s"
  shows "mgr_ok (fst (node_mgr_clear z NvsDone s))"
proof (cases "ztab_clear (mg_ztab s) z")
  case (Some t)
  have ok: "ztab_ok (mg_ztab s)" "ztab_flagged (mg_ztab s)" "flash_ok (mg_flash s)" "rows_mirror (mg_ztab s) (nm_tab (mg_core s))"
    "nm_ok (mg_core s)" "waiting_ok (mg_ztab s) (mg_unassigned s)" using s by (auto simp: mgr_ok_def)
  obtain k where k: "k < length (mg_ztab s)" "ze_id (mg_ztab s ! k) = z" "z \<noteq> 0" "zone_id_ok z" "t = (mg_ztab s)[k := ztab_ent_zero]"
    by (rule clear_cases [OF ok(1) Some])
  note d = ztab_drop [OF ok(1) k(1)]
  have t: "ztab_ok t" "ztab_map t = (ztab_map (mg_ztab s))(ze_mac (mg_ztab s ! k) := None)" using d k by auto
  have fl: "ztab_flagged t" unfolding k(5) by (rule flagged_put [OF ok(2)]) simp
  have m: "rows_mirror t ((nm_tab (mg_core s))[unat z - 1 := node_zero])"
    unfolding k(5) by (rule mirror_drop [OF ok(1) k(1,2,3) ok(4)]) (simp add: node_zero_def)
  have w: "waiting_ok t (mg_unassigned s)" using ok(6) by (simp add: waiting_ok_def t(2))
  let ?s = "s\<lparr>mg_ztab := t, mg_unassigned_notified := False\<rparr>"
  have p: "ztab_ok (mg_ztab ?s)" "ztab_flagged (mg_ztab ?s)" "flash_ok (mg_flash ?s)" using t(1) fl ok(3) by simp_all
  obtain g b where sv: "fst (node_store_save NvsDone ?s) = ?s\<lparr>mg_store_gen := g, mg_flash := b\<rparr>"
    "flash_ok b" "snd (node_store_save NvsDone ?s)"
    by (rule save_done [OF p])
  have "nm_ok (upd_node z (\<lambda>_. node_zero) (mg_core s))" by (rule nm_ok_upd_node [OF ok(5)])
  then have "mgr_ok (put_node z (\<lambda>_. node_zero) (?s\<lparr>mg_store_gen := g, mg_flash := b\<rparr>))"
    using s t(1) fl sv(2) m w by (simp add: put_node_def upd_core_def mgr_ok_def) (simp add: upd_node_def)
  from request_clear_mgr_ok [OF this, of z] show ?thesis
    by (simp add: node_mgr_clear_def nmgr_ztab_clear_def Some Let_def split_def sv node_found [OF k(4)])
qed (simp add: node_mgr_clear_def nmgr_ztab_clear_def s)

text \<open>A board bound to an id: the id leaves its holder, the board leaves its id.\<close>

definition seed_map :: "u8 \<Rightarrow> u8 list \<Rightarrow> (u8 list \<Rightarrow> u8 option) \<Rightarrow> u8 list \<Rightarrow> u8 option" where
  "seed_map z mac m = (\<lambda>a. if a = mac then Some z else if m a = Some z then None else m a)"

definition seed_slot :: "u8 \<Rightarrow> ztab \<Rightarrow> nat option" where
  "seed_slot z t = (case ztab_find_id t z of Some k \<Rightarrow> Some k | None \<Rightarrow> first_idx (\<lambda>e. ze_id e = 0) t)"

lemma seed_replace:
  assumes t: "ztab_ok t" "ztab_flagged t" "rows_mirror t tab" and z: "zone_id_ok z"
    and mac: "zone_mac mac" "ztab_map t mac = None" and nd: "row_agrees (seed_row z mac) nd"
  obtains k where "seed_slot z t = Some k" "ztab_ok (t[k := seed_row z mac])" "ztab_flagged (t[k := seed_row z mac])"
    "rows_mirror (t[k := seed_row z mac]) (tab[unat z - 1 := nd])" "ztab_map (t[k := seed_row z mac]) = seed_map z mac (ztab_map t)"
proof (cases "ztab_find_id t z")
  case None
  then have r: "z \<notin> ran (ztab_map t)" using ztab_find_id_map [OF t(1)] by blast
  have u: "1 \<le> unat z" "unat z \<le> 8" using z by (auto simp: word_le_nat_alt)
  obtain k where k: "k < length t" "ze_id (t ! k) = 0" "first_idx (\<lambda>e. ze_id e = 0) t = Some k" by (rule free_row [OF t(1) r u])
  note a = ztab_add [OF t(1) k(1,2) z r mac]
  show thesis
  proof (rule that [of k])
    show "seed_slot z t = Some k" by (simp add: seed_slot_def None k(3))
    show "ztab_ok (t[k := seed_row z mac])" by (rule a(1))
    show "ztab_flagged (t[k := seed_row z mac])" by (intro flagged_put [OF t(2)]) simp
    show "rows_mirror (t[k := seed_row z mac]) (tab[unat z - 1 := nd])"
      using mirror_put [OF t(1) k(1,2) _ _ t(3) nd] z r by simp
    show "ztab_map (t[k := seed_row z mac]) = seed_map z mac (ztab_map t)"
      using r by (auto simp: a(2) seed_map_def fun_eq_iff ran_def)
  qed
next
  case (Some k)
  note f = ztab_find_id_Some [OF Some]
  then have k: "k < length t" "ze_id (t ! k) = z" "ze_id (t ! k) \<noteq> 0" by auto
  note d = ztab_drop [OF t(1) k(1,3)]
  let ?t = "t[k := ztab_ent_zero]"
  have fl: "ztab_flagged ?t" by (rule flagged_put [OF t(2)]) simp
  have m: "rows_mirror ?t (tab[unat z - 1 := node_zero])"
    using mirror_drop [OF t(1) k(1,2) _ t(3), of node_zero] k(3) f by (simp add: node_zero_def)
  have dm: "ztab_map t (ze_mac (t ! k)) = Some z" using d(3) k(2) by simp
  have uniq: "m = ze_mac (t ! k)" if "ztab_map t m = Some z" for m by (rule ztab_map_inj [OF t(1) that dm])
  have r: "z \<notin> ran (ztab_map ?t)"
    unfolding d(2) ran_def by (auto dest: uniq split: if_splits)
  have free: "k < length ?t" "ze_id (?t ! k) = 0" using k(1) by simp_all
  have mac': "ztab_map ?t mac = None" using mac(2) by (simp add: d(2))
  note a = ztab_add [OF d(1) free z r mac(1) mac']
  have map': "ztab_map (?t[k := seed_row z mac]) = seed_map z mac (ztab_map t)"
    unfolding a(2) d(2) seed_map_def fun_eq_iff using dm by (auto dest: uniq)
  show thesis
  proof (rule that [of k])
    show "seed_slot z t = Some k" by (simp add: seed_slot_def Some)
    show "ztab_ok (t[k := seed_row z mac])" using a(1) by simp
    show "ztab_flagged (t[k := seed_row z mac])" by (intro flagged_put [OF t(2)]) simp
    show "rows_mirror (t[k := seed_row z mac]) (tab[unat z - 1 := nd])"
      using mirror_put [OF d(1) free _ _ m nd] z r by simp
    show "ztab_map (t[k := seed_row z mac]) = seed_map z mac (ztab_map t)" using map' by simp
  qed
qed

definition seeded_node :: "u8 \<Rightarrow> u8 list \<Rightarrow> u32 \<Rightarrow> hg_node" where
  "seeded_node z mac now = node_zero\<lparr>nd_used := True, nd_id := z, nd_unconfigured := True, nd_mac := mac, nd_last_hb_ms := now\<rparr>"

lemma seeded_agrees: "row_agrees (seed_row z mac) (seeded_node z mac now)"
  by (simp add: row_agrees_def seeded_node_def node_zero_def)

definition core_ready :: "mgr \<Rightarrow> bool" where
  "core_ready s \<longleftrightarrow> nm_ok (mg_core s) \<and> length (mg_last_seq s) = 8 \<and> length (mg_seq_known s) = 8 \<and> flash_ok (mg_flash s)"

lemma seed_put_ok:
  assumes c: "core_ready s" and z: "zone_id_ok z" "old_id \<noteq> 0 \<Longrightarrow> zone_id_ok old_id"
    and tab: "tab = (if old_id \<noteq> 0 then (nm_tab (mg_core s))[unat old_id - 1 := node_zero] else nm_tab (mg_core s))"
    and t: "ztab_ok t" "ztab_flagged t" "rows_mirror t tab" "waiting_ok t0 (mg_unassigned s)"
    and t0: "\<And>m. m \<noteq> mac \<Longrightarrow> ztab_map t0 m = None \<Longrightarrow> ztab_map t m = None"
    and mac: "zone_mac mac" "ztab_map t mac = None"
  shows "mgr_ok (fst (seed_put z mac r old_id t s))" "snd (seed_put z mac r old_id t s) = 0"
    "ztab_map (mg_ztab (fst (seed_put z mac r old_id t s))) = seed_map z mac (ztab_map t)"
proof -
  define nd where "nd = seeded_node z mac (now_ms s)"
  have nd: "row_agrees (seed_row z mac) nd" unfolding nd_def by (rule seeded_agrees)
  obtain k where k: "seed_slot z t = Some k" "ztab_ok (t[k := seed_row z mac])" "ztab_flagged (t[k := seed_row z mac])"
    "rows_mirror (t[k := seed_row z mac]) (tab[unat z - 1 := nd])" "ztab_map (t[k := seed_row z mac]) = seed_map z mac (ztab_map t)"
    by (rule seed_replace [OF t(1-3) z(1) mac nd])
  define t' where "t' = t[k := seed_row z mac]"
  note k' = k [folded t'_def]
  let ?s = "s\<lparr>mg_ztab := t'\<rparr>"
  have p: "ztab_ok (mg_ztab ?s)" "ztab_flagged (mg_ztab ?s)" "flash_ok (mg_flash ?s)" using k' c by (simp_all add: core_ready_def)
  obtain g b where sv: "fst (node_store_save r ?s) = ?s\<lparr>mg_store_gen := g, mg_flash := b\<rparr>" "flash_ok b"
    using store_save_cases [OF p, of r] by blast
  have w: "waiting_ok t' (waiting_after mac (mg_unassigned s))"
    by (rule waiting_purged [OF t(4)]) (use t0 in \<open>auto simp: k'(5) seed_map_def\<close>)
  define s1 where "s1 = (if old_id \<noteq> 0 then
      (put_node old_id (\<lambda>_. node_zero) (?s\<lparr>mg_store_gen := g, mg_flash := b\<rparr>))\<lparr>mg_seq_known := (mg_seq_known s)[unat (old_id - 1) := False]\<rparr>
    else ?s\<lparr>mg_store_gen := g, mg_flash := b\<rparr>)"
  have s1: "mg_ztab s1 = t'" "mg_flash s1 = b" "mg_unassigned s1 = mg_unassigned s" "nm_tab (mg_core s1) = tab"
    "length (mg_seq_known s1) = 8" "mg_last_seq s1 = mg_last_seq s" "nm_ok (mg_core s1)" "now_ms s1 = now_ms s"
    using c nm_ok_upd_node [of "mg_core s" old_id "\<lambda>_. node_zero"] tab
    by (auto simp: s1_def put_node_def upd_core_def core_ready_def upd_node_def)
  define s2 where "s2 = purge_unassigned mac ((put_node z (\<lambda>_. nd) s1)\<lparr>mg_seq_known := (mg_seq_known s1)[unat (z - 1) := False]\<rparr>)"
  have s2: "mgr_ok s2"
    using nm_ok_upd_node [OF s1(7), of z "\<lambda>_. nd"] k'(2-4) w c s1 sv(2)
    by (simp add: s2_def purge_eq put_node_def upd_core_def mgr_ok_def core_ready_def) (simp add: upd_node_def)
  have z2: "mg_ztab s2 = t'" by (simp add: s2_def purge_eq put_node_def upd_core_def s1)
  have seed: "seed_put z mac r old_id t s =
      (let s3 = upd_core (nmgr_cfg_request_clear z) (s2\<lparr>mg_unassigned_notified := False\<rparr>)
       in (if old_id \<noteq> 0 then upd_core (nmgr_cfg_request_clear old_id) s3 else s3, 0))"
    unfolding seed_put_def seed_slot_def [symmetric] k(1)
    by (simp add: Let_def sv(1) reset_row_def node_found z t'_def [symmetric] s1_def s2_def nd_def seeded_node_def put_node_def upd_core_def)
  show "snd (seed_put z mac r old_id t s) = 0" by (simp add: seed Let_def)
  show "mgr_ok (fst (seed_put z mac r old_id t s))"
    using s2 by (simp add: seed Let_def request_clear_mgr_ok)
  show "ztab_map (mg_ztab (fst (seed_put z mac r old_id t s))) = seed_map z mac (ztab_map t)"
    using k'(5) z2 by (simp add: seed Let_def upd_core_def)
qed

lemma seed_accepted:
  assumes "length mac = 6" "\<not> seed_mac_refused z mac"
  shows "zone_id_ok z" "zone_mac mac"
proof -
  show "zone_id_ok z" using assms(2) unfolding seed_mac_refused_def by (meson not_less)
  have "mac \<noteq> replicate 6 0" using assms(2) by (auto simp: seed_mac_refused_def)
  then show "zone_mac mac" using assms(1) by (simp add: zone_mac_def)
qed

lemma seed_mac_effect:
  assumes s: "mgr_ok s" and mac: "length mac = 6" "\<not> seed_mac_refused z mac"
  shows "mgr_ok (fst (node_mgr_seed_mac z mac r s))" "snd (node_mgr_seed_mac z mac r s) = 0"
    "ztab_map (mg_ztab (fst (node_mgr_seed_mac z mac r s))) = seed_map z mac (ztab_map (mg_ztab s))"
proof -
  note a = seed_accepted [OF mac]
  have ok: "ztab_ok (mg_ztab s)" "ztab_flagged (mg_ztab s)" "rows_mirror (mg_ztab s) (nm_tab (mg_core s))"
    "waiting_ok (mg_ztab s) (mg_unassigned s)" using s by (auto simp: mgr_ok_def)
  have c: "core_ready s" using s by (simp add: core_ready_def mgr_ok_def)
  have "mgr_ok (fst (node_mgr_seed_mac z mac r s)) \<and> snd (node_mgr_seed_mac z mac r s) = 0 \<and>
    ztab_map (mg_ztab (fst (node_mgr_seed_mac z mac r s))) = seed_map z mac (ztab_map (mg_ztab s))"
  proof (cases "ztab_find_mac (mg_ztab s) mac")
    case None
    note p = seed_put_ok [OF c a(1) _ _ ok _ a(2) find_mac_None_map [OF ok(1) None], of 0 r]
    have "node_mgr_seed_mac z mac r s = seed_put z mac r 0 (mg_ztab s) s"
      using mac(2) by (simp add: node_mgr_seed_mac_def Let_def None)
    then show ?thesis using p by simp
  next
    case (Some k)
    then have k: "k < length (mg_ztab s)" "ze_mac (mg_ztab s ! k) = mac" unfolding ztab_find_mac_def by (auto dest: first_idx_Some)
    define i where "i = ze_id (mg_ztab s ! k)"
    have i: "i \<noteq> 0" using k ok(1) a(2) by (auto simp: i_def ztab_ok_def ztab_ent_ok_def zone_mac_def)
    have zi: "zone_id_ok i" using ztab_ids [OF ok(1), of "mg_ztab s ! k"] k(1) i by (simp add: i_def)
    note d = ztab_drop [OF ok(1) k(1) i [unfolded i_def]]
    have d2: "ztab_map ((mg_ztab s)[k := ztab_ent_zero]) = (ztab_map (mg_ztab s))(mac := None)" using d(2) k(2) by simp
    have m: "ztab_map (mg_ztab s) mac = Some i" using d(3) k(2) by (simp add: i_def)
    have uniq: "a = mac" if "ztab_map (mg_ztab s) a = Some i" for a by (rule ztab_map_inj [OF ok(1) that m])
    show ?thesis
    proof (cases "i = z")
      case True
      then have "node_mgr_seed_mac z mac r s = (s, 0)"
        using mac(2) by (simp add: node_mgr_seed_mac_def Let_def Some i_def)
      moreover have "seed_map z mac (ztab_map (mg_ztab s)) = ztab_map (mg_ztab s)"
        unfolding seed_map_def fun_eq_iff using m True by (auto dest: uniq [unfolded True])
      ultimately show ?thesis using s by simp
    next
      case False
      have e: "node_mgr_seed_mac z mac r s = seed_put z mac r i ((mg_ztab s)[k := ztab_ent_zero]) s"
        using mac(2) False by (simp add: node_mgr_seed_mac_def Let_def Some i_def)
      have fl: "ztab_flagged ((mg_ztab s)[k := ztab_ent_zero])" by (rule flagged_put [OF ok(2)]) simp
      have mi: "rows_mirror ((mg_ztab s)[k := ztab_ent_zero]) ((nm_tab (mg_core s))[unat i - 1 := node_zero])"
        by (rule mirror_drop [OF ok(1) k(1) i_def [symmetric] i ok(3)]) (simp add: node_zero_def)
      have t: "(nm_tab (mg_core s))[unat i - 1 := node_zero] =
          (if i \<noteq> 0 then (nm_tab (mg_core s))[unat i - 1 := node_zero] else nm_tab (mg_core s))" using i by simp
      have n: "ztab_map ((mg_ztab s)[k := ztab_ent_zero]) mac = None" by (simp add: d2)
      have keep: "ztab_map ((mg_ztab s)[k := ztab_ent_zero]) x = None" if "x \<noteq> mac" "ztab_map (mg_ztab s) x = None" for x
        using that by (simp add: d2)
      note p = seed_put_ok [OF c a(1) zi t d(1) fl mi ok(4) keep a(2) n, of r]
      have "seed_map z mac (ztab_map ((mg_ztab s)[k := ztab_ent_zero])) = seed_map z mac (ztab_map (mg_ztab s))"
        by (auto simp: d2 seed_map_def fun_eq_iff)
      then show ?thesis unfolding e using p by simp
    qed
  qed
  then show "mgr_ok (fst (node_mgr_seed_mac z mac r s))" "snd (node_mgr_seed_mac z mac r s) = 0"
    "ztab_map (mg_ztab (fst (node_mgr_seed_mac z mac r s))) = seed_map z mac (ztab_map (mg_ztab s))" by blast+
qed

lemma seed_mgr_ok: "mgr_ok s \<Longrightarrow> length mac = 6 \<Longrightarrow> mgr_ok (fst (node_mgr_seed_mac z mac r s))"
  using seed_mac_effect(1) by (cases "seed_mac_refused z mac") (auto simp: node_mgr_seed_mac_def)

text \<open>The other operations touch the tables through the configuration part and the counters only.\<close>

lemma submit_ok: "mgr_ok s \<Longrightarrow> nmgr_submit dst type p (mg_core s) = (c, q) \<Longrightarrow> mgr_ok (s\<lparr>mg_core := c\<rparr>)"
  using submit_frames [of "mg_core s" dst type p] by (intro frames_ok) simp_all

lemma forward_ok: "mgr_ok s \<Longrightarrow> mgr_ok (fst (node_mgr_forward z line s))"
  by (auto simp: node_mgr_forward_def do_forward_def split: prod.splits option.splits if_splits intro: submit_ok)

lemma bump_ok: "mgr_ok s \<Longrightarrow> mgr_ok (bump_timeouts z s)"
  by (auto simp: bump_timeouts_def same_row_def intro!: put_node_ok)

lemma fwd_finish_ok: "mgr_ok s \<Longrightarrow> mgr_ok (fst (fwd_finish n s))"
  by (auto simp: fwd_finish_def Let_def same_row_def intro!: put_node_ok bump_ok split: option.split)

lemma fwd_expire_ok: "mgr_ok s \<Longrightarrow> mgr_ok (fst (fwd_expire n s))"
  by (simp add: fwd_expire_def fwd_finish_ok bump_ok)

lemma fwd_on_ev_ok: "mgr_ok s \<Longrightarrow> mgr_ok (nmgr_fwd_on_ev ev s)"
  by (auto simp: nmgr_fwd_on_ev_def Let_def intro!: upd_core_ok invalidate_ok rows_invalidate) (simp add: mgr_ok_def)

lemma fleet_failed_ok: "mgr_ok s \<Longrightarrow> mgr_ok (fst (fleet_failed act s))"
  by (simp add: fleet_failed_def mark_updating_ok split: option.split fleet_act.split)

lemma fleet_do_start_ok:
  assumes "mgr_ok s"
  shows "mgr_ok (fst (fleet_do_start z s))"
proof -
  let ?s = "node_mgr_mark_updating z FLEET_HOLD_MS s"
  obtain c sent where c: "(case hg_fwu_pack fwu_request 99 of None \<Rightarrow> (mg_core ?s, None)
      | Some payload \<Rightarrow> nmgr_submit z RING_T_FW_UPDATE payload (mg_core ?s)) = (c, sent)" by (metis surj_pair)
  have m: "mgr_ok ?s" by (rule mark_updating_ok [OF assms])
  then have "mgr_ok (?s\<lparr>mg_core := c\<rparr>)" using c by (auto split: option.splits intro: submit_ok)
  then show ?thesis by (simp add: fleet_do_start_def Let_def split_def c [unfolded split_def] fleet_failed_ok)
qed

lemma fleet_tick_ok: "mgr_ok s \<Longrightarrow> mgr_ok (fst (nmgr_fleet_tick_1s now image_ok s))"
  by (simp add: nmgr_fleet_tick_1s_def Let_def split_def fleet_do_start_ok fleet_failed_ok mark_updating_ok
      split: option.split fleet_act.split)

lemma fleet_on_ev_ok: "mgr_ok s \<Longrightarrow> mgr_ok (fst (nmgr_fleet_on_ev ev s))"
  by (simp add: nmgr_fleet_on_ev_def Let_def split_def fleet_failed_ok)

lemma route_ok: "mgr_ok s \<Longrightarrow> mgr_ok (fst (route_trk_ev ev s))"
proof -
  assume s: "mgr_ok s"
  have "mgr_ok (fst (run_core (nmgr_cfg_on_ev ev) s))"
    using s by (intro run_core_ok) (auto simp: mgr_ok_def on_ev_ok rows_on_ev)
  then show ?thesis using s by (simp add: route_trk_ev_def fwd_on_ev_ok fleet_on_ev_ok)
qed

lemma trk_ok_core: "mgr_ok s \<Longrightarrow> mgr_ok (upd_core (\<lambda>c. c\<lparr>nm_trk := t\<rparr>) s)"
  by (intro upd_core_ok) (auto simp: mgr_ok_def nm_ok_def)

lemma route_after_ok: "mgr_ok s \<Longrightarrow> mgr_ok (fst (route_after res s))"
  by (simp add: route_after_def Let_def trk_ok_core route_ok split: option.split)

lemma trk_tick_ok: "mgr_ok s \<Longrightarrow> mgr_ok (fst (trk_tick now s))"
  by (simp add: trk_tick_def Let_def split_def trk_ok_core route_ok split: option.split)

lemma dispatch_ok:
  assumes "mgr_ok s"
  shows "mgr_ok (fst (dispatch_frame f now junk r s))"
proof -
  have "mgr_ok (fst (run_core (nmgr_cfg_on_chunk f now) s))"
    using assms by (intro run_core_ok) (auto simp: mgr_ok_def on_chunk_ok rows_on_chunk)
  then show ?thesis
    using assms by (simp add: dispatch_frame_def Let_def handle_ack_def route_after_ok handle_hb_ok split: option.split)
qed

lemma eval_rows:
  assumes "ring_health_eval tab now ts st = (tab', st', lines)"
  shows "list_all2 same_row tab tab'"
proof -
  have "tab' = map (fst \<circ> node_eval now) tab"
    using assms by (auto simp: ring_health_eval_def Let_def split: if_splits prod.splits)
  then show ?thesis
    by (auto simp: list_all2_conv_all_nth node_eval_def Let_def same_row_def)
qed

lemma health_tick_ok:
  assumes "mgr_ok s"
  shows "mgr_ok (fst (nmgr_health_tick now ts s))"
proof -
  obtain tab st lines where e: "ring_health_eval (nm_tab (mg_core s)) now ts (mg_ring_status s) = (tab, st, lines)"
    by (metis prod_cases3)
  note r = eval_rows [OF e]
  have "nm_ok ((mg_core s)\<lparr>nm_tab := tab\<rparr>)" using assms list_all2_lengthD [OF r] by (simp add: mgr_ok_def nm_ok_def)
  then have "mgr_ok (upd_core (\<lambda>c. c\<lparr>nm_tab := tab\<rparr>) (s\<lparr>mg_ring_status := st\<rparr>))"
    using assms r by (intro upd_core_ok) (simp_all add: same_rows_def)
  then show ?thesis by (simp add: nmgr_health_tick_def e)
qed

text \<open>The start reads back what was saved.\<close>

lemma boot_rows:
  assumes "sorted_wrt (\<lambda>a b. ze_id b \<noteq> 0 \<longrightarrow> ze_id a \<noteq> ze_id b) (es @ fs)" "rows_mirror es tab"
    "\<forall>e \<in> set (es @ fs). ze_id e \<noteq> 0 \<longrightarrow> zone_id_ok (ze_id e)" "\<forall>e \<in> set fs. ze_id e \<noteq> 0 \<longrightarrow> ze_flags e AND ZTAB_F_ASSIGNED \<noteq> 0"
  shows "rows_mirror (es @ fs) (fold (boot_row now) fs tab)"
  using assms
proof (induction fs arbitrary: es tab)
  case (Cons e fs)
  have len: "length tab = 8" using Cons.prems(2) by (simp add: rows_mirror_def)
  have "rows_mirror (es @ [e]) (boot_row now e tab)"
  proof (cases "ze_id e = 0")
    case True
    then show ?thesis using Cons.prems(2) by (auto simp: boot_row_def rows_mirror_def)
  next
    case False
    then have z: "zone_id_ok (ze_id e)" using Cons.prems(3) by simp
    let ?i = "unat (ze_id e) - 1"
    have i: "?i < 8" "unat (ze_id e) = ?i + 1" using zone_slot [OF z] by auto
    have fl: "ze_flags e AND ZTAB_F_ASSIGNED \<noteq> 0" using Cons.prems(4) False by simp
    obtain nd where b: "boot_row now e tab = tab[?i := nd]" "row_agrees e nd"
      using z fl by (auto simp: boot_row_def row_agrees_def node_zero_def not_less [symmetric])
    have other: "unat (ze_id a) - 1 \<noteq> ?i" if "a \<in> set es" "ze_id a \<noteq> 0" for a
    proof -
      have "ze_id a \<noteq> ze_id e" using Cons.prems(1) that False by (auto simp: sorted_wrt_append)
      moreover have "zone_id_ok (ze_id a)" using Cons.prems(3) that by simp
      ultimately show ?thesis using zone_slot_inj [OF _ z] by blast
    qed
    have "row_agrees a (tab[?i := nd] ! (unat (ze_id a) - 1))" if "a \<in> set (es @ [e])" "ze_id a \<noteq> 0" for a
      using that other [of a] b(2) i(1) len Cons.prems(2) by (cases "a = e") (auto simp: rows_mirror_def)
    moreover have "\<exists>a \<in> set (es @ [e]). unat (ze_id a) = j + 1" if "j < 8" "nd_used (tab[?i := nd] ! j)" for j
      using that i(2) Cons.prems(2) by (cases "j = ?i") (auto simp: rows_mirror_def)
    ultimately show ?thesis using len b(1) by (simp add: rows_mirror_def)
  qed
  with Cons.IH [of "es @ [e]" "boot_row now e tab"] Cons.prems(1,3,4) show ?case by simp
qed simp

lemma boot_mirror:
  assumes "ztab_ok t" "ztab_flagged t"
  shows "rows_mirror t (fold (boot_row now) t (replicate 8 node_zero))"
proof -
  have "sorted_wrt (\<lambda>a b. ze_id b \<noteq> 0 \<longrightarrow> ze_id a \<noteq> ze_id b) t"
    using ztab_row_unique [OF assms(1)] unfolding sorted_wrt_iff_nth_less by (metis less_imp_neq order.strict_trans)
  moreover have "rows_mirror [] (replicate 8 node_zero)" by (auto simp: rows_mirror_def node_zero_def)
  ultimately show ?thesis
    using boot_rows [of "[]" t "replicate 8 node_zero" now] ztab_ids [OF assms(1)] assms(2) by (auto simp: ztab_flagged_def)
qed

lemma store_load_ok:
  assumes "flash_ok flash" "node_store_load opens flash = Some (t, gen)"
  shows "ztab_ok t" "ztab_flagged t"
proof -
  obtain b where b: "flash = Some b" "ztab_unpack b = Some (t, gen)"
    using assms(2) by (auto simp: node_store_load_def split: if_splits option.splits)
  obtain t0 g0 where p: "ztab_ok t0" "ztab_flagged t0" "ztab_pack t0 g0 (HG_BLOB_HDR_LEN + 192) = Some b"
    using assms(1) b(1) by (auto simp: flash_ok_def)
  have "ztab_unpack b = Some (t0, g0)" using ztab_pack_unpack [OF p(1,3), of "[]"] by simp
  then have "t = t0" using b(2) by simp
  with p show "ztab_ok t" "ztab_flagged t" by simp_all
qed

lemma boot_row_length [simp]: "length (fold (boot_row now) t tab) = length tab"
  by (induction t arbitrary: tab) (simp_all add: boot_row_def)

lemma start_mgr_ok:
  assumes "flash_ok flash"
  shows "mgr_ok (node_mgr_start opens now flash)"
proof -
  obtain t g where t: "(case node_store_load opens flash of None \<Rightarrow> (ztab_empty, 0) | Some r \<Rightarrow> r) = (t, g :: u32)"
    by (metis surj_pair)
  have ok: "ztab_ok t" "ztab_flagged t"
    using t store_load_ok [OF assms, of opens] ztab_ok_empty
    by (auto simp: ztab_flagged_def ztab_empty_def split: option.splits)
  have core: "nm_ok (nmgr_cfg_init c)" if "length (nm_tab c) = 8" "nm_push_req c = 0" for c
    using ncfg_init_ok [OF that(1)] that(2) by simp
  let ?c = "nmgr_cfg_init ((mg_core (mgr_static now flash))\<lparr>nm_trk := ring_trk_init\<rparr>)"
  have c: "nm_tab ?c = replicate 8 node_zero" "nm_clock ?c = now" by (simp_all add: nmgr_cfg_init_def nmgr_cx_init_def mgr_static_def)
  have n: "nm_ok ?c" by (rule core) (simp_all add: mgr_static_def)
  define s0 where "s0 = upd_core (\<lambda>c. nmgr_cfg_init (c\<lparr>nm_trk := ring_trk_init\<rparr>)) (mgr_static now flash)"
  have s0: "mg_flash s0 = flash" "mg_store_gen s0 = 0" "mg_core s0 = ?c" "mg_unassigned s0 = []"
    by (simp_all add: s0_def upd_core_def mgr_static_def)
  have "node_mgr_start opens now flash = s0\<lparr>mg_core := ?c\<lparr>nm_tab := fold (boot_row now) t (replicate 8 node_zero)\<rparr>,
      mg_ztab := t, mg_store_gen := g, mg_last_seq := replicate 8 0, mg_seq_known := replicate 8 False\<rparr>"
    unfolding node_mgr_start_def s0_def [symmetric] nmgr_enrol_boot_init_def s0(1,2) t
    by (simp add: upd_core_def s0(3) c)
  moreover have "nm_ok (?c\<lparr>nm_tab := fold (boot_row now) t (replicate 8 node_zero)\<rparr>)" using n by (simp add: nm_ok_def)
  ultimately show ?thesis
    using ok boot_mirror [OF ok] assms by (simp add: mgr_ok_def waiting_ok_def s0)
qed

lemma mg_step_ok:
  assumes s: "mgr_ok s" and e: "mg_ev_ok e"
  shows "mgr_ok (fst (mg_step s e))"
proof (cases e)
  case (MgCfgTick now)
  have "mgr_ok (fst (run_core (nmgr_cfg_tick_1s now) s))"
    using s by (intro run_core_ok) (auto simp: mgr_ok_def cfg_tick_ok rows_cfg_tick)
  with MgCfgTick show ?thesis by simp
next
  case (MgTimeSync now utc offs)
  with s show ?thesis by (simp add: nmgr_broadcast_time_sync_def hg_ts_pack_def send_raw_ok)
next
  case (MgPush z)
  have "nm_ok (fst (node_mgr_push_cfg z (mg_core s)))" "same_rows (mg_core s) (fst (node_mgr_push_cfg z (mg_core s)))"
    using s cfg_step_ok [of "mg_core s" "EvPush z"] by (simp_all add: mgr_ok_def node_mgr_push_cfg_def)
  with MgPush s show ?thesis by (simp add: upd_core_ok)
next
  case (MgCfgSet z c)
  have "nm_ok (fst (node_mgr_cfg_set z c (mg_core s)))" "same_rows (mg_core s) (fst (node_mgr_cfg_set z c (mg_core s)))"
    using s e cfg_step_ok [of "mg_core s" "EvSet z c"] MgCfgSet by (simp_all add: mgr_ok_def node_mgr_cfg_set_def split: option.split)
  with MgCfgSet s show ?thesis by (simp add: upd_core_ok)
next
  case (MgClock now)
  have "mgr_ok (upd_core (\<lambda>c. c\<lparr>nm_clock := now\<rparr>) s)"
    using s by (intro upd_core_ok) (auto simp: mgr_ok_def nm_ok_def intro: same_rows_eq)
  with MgClock show ?thesis by simp
next
  case (MgRestart opens now)
  moreover have "flash_ok (mg_flash s)" using s by (simp add: mgr_ok_def)
  ultimately show ?thesis by (simp add: start_mgr_ok)
qed (use s e in \<open>simp_all add: trk_tick_ok dispatch_ok health_tick_ok fleet_tick_ok set_name_ok clear_mgr_ok seed_mgr_ok forward_ok
    fwd_finish_ok fwd_expire_ok node_mgr_fw_zone_def node_mgr_fw_all_def fleet_begin_def node_mgr_fw_abort_def Let_def split_def\<close>)

interpretation nmgr: guarded_invariant mg_step mgr_ok mg_ev_ok
  by unfold_locales (rule mg_step_ok)

end
