(* ===== verification/Node_Enrol.thy ===== *)
theory Node_Enrol
  imports Node_Mgr
begin

text \<open>
  Enrolment as the node manager does it (\<^verbatim>\<open>components/node_mgr/node_mgr_enrol.c\<close>), seen from the
  outside: what a heartbeat does to the map from boards to ids and which assignment it is answered
  with, that a board keeps its id until the operator takes it away, what binding a board to an id does,
  the counting of lost heartbeats, and what happens when the flash fails under a retirement.
\<close>

section \<open>Who has which id\<close>

text \<open>The assignments that an output sends, as the boards read them.\<close>

fun assigns :: "mg_out \<Rightarrow> (u8 list \<times> u8) option" where
  "assigns (MgCfg (NmSend h p)) =
     (if h_type h = RING_T_ASSIGN_ID then map_option (\<lambda>a. (as_mac a, as_zone_id a)) (hg_assign_parse p) else None)"
| "assigns _ = None"

definition hb_answer :: "ztab_en \<Rightarrow> u8 list \<Rightarrow> u8 \<Rightarrow> u8 option \<Rightarrow> (u8 list \<times> u8) list" where
  "hb_answer v mac claimed oid =
     (if v = ZTAB_EN_FULL then [] else if v = ZTAB_EN_CONFLICT then [(mac, RING_ID_UNASSIGNED)]
      else case oid of None \<Rightarrow> [] | Some i \<Rightarrow> if claimed = i then [] else [(mac, i)])"

lemma send_assign_out:
  assumes "length mac = 6"
  shows "List.map_filter assigns (snd (send_assign mac z s)) = [(mac, z)]"
  using assms
  by (simp add: send_assign_def hg_assign_pack_def run_core_def nmgr_send_raw_def nmgr_next_seq_def Let_def List.map_filter_def
      hg_assign_parse_def HG_ASSIGN_LEN_def nth_append)

lemma send_assign_ztab [simp]: "mg_ztab (fst (send_assign mac z s)) = mg_ztab s"
  by (simp add: send_assign_def hg_assign_pack_def run_core_def split_def Let_def)

lemma telemetry_ztab [simp]: "mg_ztab (update_telemetry z hdr hb s) = mg_ztab s"
  by (simp add: update_telemetry_def Let_def upd_core_def put_node_def)

lemma save_ztab [simp]: "mg_ztab (fst (node_store_save r s)) = mg_ztab s"
  by (simp add: node_store_save_def Let_def split: option.split nvs_result.split)

lemma new_row_facts [simp]:
  "mg_ztab (fst (enrol_new_row i mac r s)) = mg_ztab s" "List.map_filter assigns (snd (enrol_new_row i mac r s)) = []"
  by (simp_all add: enrol_new_row_def Let_def put_node_def upd_core_def purge_eq List.map_filter_def)

lemma track_facts [simp]:
  "mg_ztab (fst (track_unassigned mac s)) = mg_ztab s" "List.map_filter assigns (snd (track_unassigned mac s)) = []"
  by (simp_all add: track_unassigned_def Let_def List.map_filter_def)

lemma map_filter_append: "List.map_filter f (xs @ ys) = List.map_filter f xs @ List.map_filter f ys"
  by (simp add: List.map_filter_def)

lemma map_filter_Nil [simp]: "List.map_filter f [] = []"
  by (simp add: List.map_filter_def)

lemma handle_hb_effect:
  assumes ok: "ztab_ok (mg_ztab s)" and hb: "hg_hb_parse junk (frame_bytes f) = Some hb"
    and mac: "hb_mac hb \<noteq> replicate 6 0"
    and e: "enrol_spec (ztab_map (mg_ztab s)) (hb_mac hb) (h_src (f_hdr f)) = (m, v, oid)"
  shows "ztab_map (mg_ztab (fst (nmgr_enrol_handle_hb f junk r s))) = m"
    "List.map_filter assigns (snd (nmgr_enrol_handle_hb f junk r s)) = hb_answer v (hb_mac hb) (h_src (f_hdr f)) oid"
proof -
  let ?mac = "hb_mac hb" and ?src = "h_src (f_hdr f)"
  note len = hb_parse_mac [OF hb]
  have zm: "zone_mac ?mac" by (rule zone_mac_iff [OF len mac])
  obtain t v' oid' where en: "ztab_enrol (mg_ztab s) ?mac ?src = (t, v', oid')" by (metis prod_cases3)
  from ztab_enrol_refines [OF ok zm en] e have t: "ztab_ok t" "ztab_map t = m" "v' = v" "oid' = oid" by auto
  note ec = enrol_cases [OF ok en, unfolded t(3,4)]
  define i where "i = (case oid of None \<Rightarrow> 0 | Some i \<Rightarrow> i)"
  note out = send_assign_out [OF len]
  have known: "zone_id_ok i \<and> oid = Some i" if "v \<noteq> ZTAB_EN_FULL" "v \<noteq> ZTAB_EN_CONFLICT"
  proof (cases "v = ZTAB_EN_ASSIGNED")
    case True
    with ec(4) show ?thesis by (auto simp: i_def)
  next
    case False
    then have "v = ZTAB_EN_KNOWN \<or> v = ZTAB_EN_STALE" using that by (cases v) auto
    then obtain k where k: "k < length (mg_ztab s)" "ze_mac (mg_ztab s ! k) = ?mac" "oid = Some (ze_id (mg_ztab s ! k))"
      using ec(1) by blast
    have "ze_id (mg_ztab s ! k) \<noteq> 0" using free_row_mac [OF ok k(1)] k(2) mac by auto
    with ztab_ids [OF ok, of "mg_ztab s ! k"] k show ?thesis by (simp add: i_def)
  qed
  obtain s1 o1 where r: "(if v = ZTAB_EN_ASSIGNED then enrol_new_row i ?mac r (s\<lparr>mg_ztab := t\<rparr>) else (s\<lparr>mg_ztab := t\<rparr>, [])) = (s1, o1)"
    by (metis surj_pair)
  have s1: "mg_ztab s1 = t" "List.map_filter assigns o1 = []"
    using arg_cong [OF r, of fst] arg_cong [OF r, of snd] new_row_facts [of i ?mac r "s\<lparr>mg_ztab := t\<rparr>"]
    by (auto split: if_splits)
  show "ztab_map (mg_ztab (fst (nmgr_enrol_handle_hb f junk r s))) = m"
    using known s1(1) t(2) ec(2,3)
    by (auto simp: nmgr_enrol_handle_hb_def hb en t(3,4) i_def [symmetric] Let_def split_def r [unfolded split_def] node_found)
  show "List.map_filter assigns (snd (nmgr_enrol_handle_hb f junk r s)) = hb_answer v ?mac ?src oid"
    using known s1(2) out ec(2,3)
    by (auto simp: nmgr_enrol_handle_hb_def hb en t(3,4) i_def [symmetric] Let_def split_def r [unfolded split_def] node_found hb_answer_def
        map_filter_append)
qed

section \<open>A board keeps its id\<close>

lemma ztab_core [simp]:
  "mg_ztab (upd_core f s) = mg_ztab s" "mg_ztab (put_node z g s) = mg_ztab s" "mg_ztab (upd_fwd h s) = mg_ztab s"
  "mg_ztab (fst (run_core k s)) = mg_ztab s"
  by (simp_all add: upd_core_def put_node_def upd_fwd_def run_core_def split_def Let_def)

lemma ztab_marks [simp]:
  "mg_ztab (node_mgr_mark_updating z hold s) = mg_ztab s" "mg_ztab (bump_timeouts z s) = mg_ztab s"
  "mg_ztab (nmgr_fwd_on_ev ev s) = mg_ztab s" "mg_ztab (fst (fwd_finish n s)) = mg_ztab s" "mg_ztab (fst (fwd_expire n s)) = mg_ztab s"
  "mg_ztab (fst (fleet_failed act s)) = mg_ztab s"
  by (simp_all add: node_mgr_mark_updating_def bump_timeouts_def nmgr_fwd_on_ev_def fwd_finish_def fwd_expire_def fleet_failed_def
      Let_def split: option.split fleet_act.split)

lemma ztab_forward [simp]: "mg_ztab (fst (node_mgr_forward z line s)) = mg_ztab s"
  by (auto simp: node_mgr_forward_def do_forward_def split: prod.splits option.splits if_splits)

lemma ztab_fleet [simp]:
  "mg_ztab (fst (fleet_do_start z s)) = mg_ztab s" "mg_ztab (fst (nmgr_fleet_on_ev ev s)) = mg_ztab s"
  by (simp_all add: fleet_do_start_def nmgr_fleet_on_ev_def Let_def split_def)

lemma ztab_fleet_tick [simp]: "mg_ztab (fst (nmgr_fleet_tick_1s now ok s)) = mg_ztab s"
  by (simp add: nmgr_fleet_tick_1s_def Let_def split_def split: option.split fleet_act.split)

lemma ztab_route [simp]:
  "mg_ztab (fst (route_trk_ev ev s)) = mg_ztab s" "mg_ztab (fst (route_after res s)) = mg_ztab s" "mg_ztab (fst (trk_tick now s)) = mg_ztab s"
  by (simp_all add: route_trk_ev_def route_after_def trk_tick_def Let_def split_def split: option.split)

lemma hb_ztab:
  assumes "hg_hb_parse junk (frame_bytes f) = Some hb"
  shows "mg_ztab (fst (nmgr_enrol_handle_hb f junk r s)) = fst (ztab_enrol (mg_ztab s) (hb_mac hb) (h_src (f_hdr f)))"
proof -
  obtain t v oid where en: "ztab_enrol (mg_ztab s) (hb_mac hb) (h_src (f_hdr f)) = (t, v, oid)" by (metis prod_cases3)
  show ?thesis by (simp add: nmgr_enrol_handle_hb_def assms en Let_def split_def split: option.split)
qed

text \<open>The events that take an id from a board: retiring the zone, binding it or the board anew, a restart.\<close>

fun keeps_board :: "u8 list \<Rightarrow> u8 \<Rightarrow> mg_ev \<Rightarrow> bool" where
  "keeps_board mac z (MgClear y r) \<longleftrightarrow> y \<noteq> z"
| "keeps_board mac z (MgSeed y b r) \<longleftrightarrow> y \<noteq> z \<and> b \<noteq> mac"
| "keeps_board mac z (MgRestart opens now) \<longleftrightarrow> False"
| "keeps_board mac z _ \<longleftrightarrow> True"

lemma enrol_keeps:
  assumes "ztab_ok t" "ztab_map t mac = Some z" "length b = 6"
  shows "ztab_map (fst (ztab_enrol t b claimed)) mac = Some z"
proof -
  obtain t' v oid where en: "ztab_enrol t b claimed = (t', v, oid)" by (metis prod_cases3)
  note ec = enrol_cases [OF assms(1) en]
  show ?thesis
  proof (cases "v = ZTAB_EN_ASSIGNED")
    case True
    with ec(4) obtain k i where k: "k < length t" "ze_id (t ! k) = 0" "t' = t[k := seed_row i b]" "zone_id_ok i"
      "i \<notin> ran (ztab_map t)" "b \<noteq> replicate 6 0" "ztab_map t b = None" by blast
    have "ztab_map t' = (ztab_map t)(b \<mapsto> i)"
      unfolding k(3) by (rule ztab_add(2) [OF assms(1) k(1,2,4,5) zone_mac_iff [OF assms(3) k(6)] k(7)])
    then show ?thesis using en assms(2) k(7) by auto
  next
    case False
    then have "t' = t" using ec(1-3) by (cases v) auto
    then show ?thesis using en assms(2) by simp
  qed
qed

lemma clear_keeps:
  assumes "ztab_ok t" "ztab_clear t y = Some t'" "ztab_map t mac = Some z" "y \<noteq> z"
  shows "ztab_map t' mac = Some z"
proof -
  obtain m where "ztab_map t m = Some y" "ztab_map t' = (ztab_map t)(m := None)" using ztab_ok_clear(3) [OF assms(1,2)] by blast
  with assms(3,4) show ?thesis by auto
qed

lemma keeps_board_step:
  assumes s: "mgr_ok s" "mg_ev_ok e" "keeps_board mac z e" and m: "ztab_map (mg_ztab s) mac = Some z"
  shows "ztab_map (mg_ztab (fst (mg_step s e))) mac = Some z"
proof -
  have ok: "ztab_ok (mg_ztab s)" using s(1) by (simp add: mgr_ok_def)
  show ?thesis
  proof (cases e)
    case (MgFrame f now junk r)
    have "ztab_map (mg_ztab (fst (nmgr_enrol_handle_hb f junk r s))) mac = Some z"
      using hb_ztab [of junk f _ r s] enrol_keeps [OF ok m] hb_parse_mac [of junk "frame_bytes f"] m
      by (cases "hg_hb_parse junk (frame_bytes f)") (simp_all add: nmgr_enrol_handle_hb_def)
    with MgFrame m show ?thesis by (simp add: dispatch_frame_def handle_ack_def Let_def split: option.split)
  next
    case (MgSetName y name r)
    have "mg_ztab (fst (node_mgr_set_name y name r s)) = (case ztab_set_name (mg_ztab s) y name of None \<Rightarrow> mg_ztab s | Some t \<Rightarrow> t)"
      by (simp add: node_mgr_set_name_def Let_def split_def split: option.split)
    then show ?thesis using m ztab_ok_name(2) [OF ok] MgSetName by (auto split: option.split)
  next
    case (MgClear y r)
    have "mg_ztab (fst (node_mgr_clear y r s)) = (case ztab_clear (mg_ztab s) y of None \<Rightarrow> mg_ztab s | Some t \<Rightarrow> t)"
      by (simp add: node_mgr_clear_def nmgr_ztab_clear_def Let_def split_def split: option.split)
    then show ?thesis using m clear_keeps [OF ok _ m] MgClear s(3) by (auto split: option.split)
  next
    case (MgSeed y b r)
    then have l: "length b = 6" "y \<noteq> z" "b \<noteq> mac" using s(2,3) by auto
    show ?thesis
    proof (cases "seed_mac_refused y b")
      case True
      then show ?thesis using MgSeed m by (simp add: node_mgr_seed_mac_def)
    next
      case False
      then show ?thesis using seed_mac_effect(3) [OF s(1) l(1) False, of r] MgSeed m l by (simp add: seed_map_def)
    qed
  next
    case (MgTimeSync now utc offs)
    then show ?thesis using m by (simp add: nmgr_broadcast_time_sync_def hg_ts_pack_def)
  qed (use m s(3) in \<open>simp_all add: nmgr_health_tick_def split_def Let_def node_mgr_fw_zone_def node_mgr_fw_all_def fleet_begin_def
      node_mgr_fw_abort_def\<close>)
qed

lemma keeps_board_run:
  assumes "mgr_ok s" "\<forall>e \<in> set es. mg_ev_ok e \<and> keeps_board mac z e" "ztab_map (mg_ztab s) mac = Some z"
  shows "ztab_map (mg_ztab (fst (run_steps mg_step s es))) mac = Some z"
  using assms
proof (induction es arbitrary: s)
  case (Cons e es)
  then show ?case using mg_step_ok [of s e] keeps_board_step [of s e mac z] by simp
qed simp

text \<open>A board that the table knows is answered by its id, whatever it claims, and the table stays.\<close>

lemma known_board_answer:
  assumes "mgr_ok s" "hg_hb_parse junk (frame_bytes f) = Some hb" "ztab_map (mg_ztab s) (hb_mac hb) = Some z"
  shows "List.map_filter assigns (snd (nmgr_enrol_handle_hb f junk r s)) = (if h_src (f_hdr f) = z then [] else [(hb_mac hb, z)])"
    "ztab_map (mg_ztab (fst (nmgr_enrol_handle_hb f junk r s))) = ztab_map (mg_ztab s)"
proof -
  have ok: "ztab_ok (mg_ztab s)" using assms(1) by (simp add: mgr_ok_def)
  obtain k where k: "k < length (mg_ztab s)" "ze_mac (mg_ztab s ! k) = hb_mac hb" "ze_id (mg_ztab s ! k) = z" "z \<noteq> 0"
    using assms(3) by (auto simp: ztab_map_Some [OF ok])
  have "ztab_ent_ok (mg_ztab s ! k)" using ok k(1) by (simp add: ztab_ok_def)
  then have mac: "hb_mac hb \<noteq> replicate 6 0" using k by (auto simp: ztab_ent_ok_def)
  have e: "enrol_spec (ztab_map (mg_ztab s)) (hb_mac hb) (h_src (f_hdr f)) =
      (ztab_map (mg_ztab s), if h_src (f_hdr f) = z then ZTAB_EN_KNOWN else ZTAB_EN_STALE, Some z)"
    by (simp add: enrol_spec_def assms(3))
  show "List.map_filter assigns (snd (nmgr_enrol_handle_hb f junk r s)) = (if h_src (f_hdr f) = z then [] else [(hb_mac hb, z)])"
    "ztab_map (mg_ztab (fst (nmgr_enrol_handle_hb f junk r s))) = ztab_map (mg_ztab s)"
    using handle_hb_effect [OF ok assms(2) mac e, of r] by (auto simp: hb_answer_def)
qed

lemma mirror_facts:
  assumes "ztab_ok t" "rows_mirror t tab" "zone_id_ok z"
  shows "nd_used (tab ! (unat z - 1)) \<longleftrightarrow> z \<in> ran (ztab_map t)"
    "nd_used (tab ! (unat z - 1)) \<Longrightarrow> nd_id (tab ! (unat z - 1)) = z \<and> ztab_map t (nd_mac (tab ! (unat z - 1))) = Some z"
proof -
  let ?nd = "tab ! (unat z - 1)"
  have to_map: "nd_id ?nd = z \<and> ztab_map t (nd_mac ?nd) = Some z" if used: "nd_used ?nd"
  proof -
    obtain e where e: "e \<in> set t" "unat (ze_id e) = unat z"
      using assms(2) used zone_slot [OF assms(3)] unfolding rows_mirror_def by (metis Suc_eq_plus1)
    then have "ze_id e = z" by (simp add: word_unat_eq_iff)
    moreover have "z \<noteq> 0" using assms(3) by auto
    ultimately have "row_agrees e ?nd" using assms(2) e(1) unfolding rows_mirror_def by blast
    moreover obtain k where "k < length t" "t ! k = e" using e(1) by (auto simp: in_set_conv_nth)
    ultimately show ?thesis using \<open>ze_id e = z\<close> \<open>z \<noteq> 0\<close> by (auto simp: row_agrees_def ztab_map_Some [OF assms(1)])
  qed
  moreover have "nd_used ?nd" if r: "z \<in> ran (ztab_map t)"
  proof -
    obtain k where "z \<noteq> 0" "k < length t" "ze_id (t ! k) = z" using r ran_ztab_map [OF assms(1)] by blast
    then show ?thesis using assms(2) by (auto simp: rows_mirror_def row_agrees_def)
  qed
  ultimately show "nd_used ?nd \<longleftrightarrow> z \<in> ran (ztab_map t)"
    "nd_used ?nd \<Longrightarrow> nd_id ?nd = z \<and> ztab_map t (nd_mac ?nd) = Some z"
    by (auto simp: ran_def)
qed

section \<open>Lost heartbeats\<close>

text \<open>
  The heartbeats of one zone as they are heard: the counter of the zone without its wrap, the header and the
  contents. A gap is short enough when fewer than 32767 heartbeats in a row are lost.
\<close>

fun hear :: "u8 \<Rightarrow> (nat \<times> ring_hdr \<times> hg_hb) list \<Rightarrow> mgr \<Rightarrow> mgr" where
  "hear z [] s = s"
| "hear z ((c, hdr, hb) # hs) s = hear z hs (update_telemetry z (hdr\<lparr>h_seq := of_nat c\<rparr>) hb s)"

fun one_boot :: "nat \<Rightarrow> u32 \<Rightarrow> (nat \<times> ring_hdr \<times> hg_hb) list \<Rightarrow> bool" where
  "one_boot c0 up0 [] \<longleftrightarrow> True"
| "one_boot c0 up0 ((c, hdr, hb) # hs) \<longleftrightarrow> c0 < c \<and> c < c0 + 32768 \<and> up0 \<le> hb_uptime_s hb \<and> one_boot c (hb_uptime_s hb) hs"

definition last_count :: "nat \<Rightarrow> (nat \<times> ring_hdr \<times> hg_hb) list \<Rightarrow> nat" where
  "last_count c0 hs = last (c0 # map fst hs)"

lemma hb_gap_counts:
  assumes "c0 < c" "c < c0 + 32768"
  shows "hb_gap (of_nat c0) (of_nat c) = of_nat (c - c0 - 1)"
proof -
  define d where "d = c - c0"
  have d: "c = c0 + d" "1 \<le> d" "d < 32768" using assms by (simp_all add: d_def)
  have u: "unat (of_nat d :: u16) = d" using d(3) by (simp add: unat_of_nat_u16)
  have uc: "(ucast (of_nat d :: u16) :: u32) = of_nat d" by (simp only: word_unat_eq_iff unsigned_ucast_eq u) (simp add: unsigned_of_nat)
  have lt: "(of_nat d :: u16) < 32768" using d(3) u by (simp add: word_less_nat_alt)
  have one: "(1 :: u16) < of_nat d \<longleftrightarrow> d \<noteq> 1" using d(2) u by (auto simp: word_less_nat_alt)
  have "(of_nat c :: u16) - of_nat c0 = of_nat d" by (simp add: d(1))
  then have "hb_gap (of_nat c0) (of_nat c) = (if d \<noteq> 1 then of_nat d - 1 else 0)"
    unfolding hb_gap_def Let_def using lt one uc by simp
  also have "\<dots> = of_nat (d - 1)" using d(2) by (simp add: of_nat_diff)
  also have "d - 1 = c - c0 - 1" by (simp add: d_def)
  finally show ?thesis .
qed

lemma telemetry_row:
  assumes "mgr_ok s" "zone_id_ok z"
  defines "i \<equiv> unat (z - 1)"
  shows "node_at z (update_telemetry z hdr hb s) = (node_at z s)\<lparr>nd_hops := RING_TTL_INIT - h_ttl hdr, nd_hops_valid := True,
      nd_link_flags := hb_link_flags hb, nd_fault_flag := hb_active_faults hb \<noteq> 0, nd_last_hb_ms := now_ms s,
      nd_seq_drop_tally := nd_seq_drop_tally (node_at z s) +
        (if mg_seq_known s ! i \<and> \<not> hb_uptime_s hb < hb_uptime_s (nd_hb (node_at z s)) then hb_gap (mg_last_seq s ! i) (h_seq hdr) else 0),
      nd_hb := hb\<rparr>"
    "mg_last_seq (update_telemetry z hdr hb s) ! i = h_seq hdr" "mg_seq_known (update_telemetry z hdr hb s) ! i"
proof -
  have l: "length (nm_tab (mg_core s)) = 8" "length (mg_last_seq s) = 8" "length (mg_seq_known s) = 8"
    using assms(1) by (auto simp: mgr_ok_def nm_ok_def)
  have z0: "z \<noteq> 0" using assms(2) by auto
  have iz: "unat z - Suc 0 = i" unfolding i_def using z0 by (simp add: unat_minus_one)
  then have i8: "i < 8" using zone_slot [OF assms(2)] by simp
  show "node_at z (update_telemetry z hdr hb s) = (node_at z s)\<lparr>nd_hops := RING_TTL_INIT - h_ttl hdr, nd_hops_valid := True,
      nd_link_flags := hb_link_flags hb, nd_fault_flag := hb_active_faults hb \<noteq> 0, nd_last_hb_ms := now_ms s,
      nd_seq_drop_tally := nd_seq_drop_tally (node_at z s) +
        (if mg_seq_known s ! i \<and> \<not> hb_uptime_s hb < hb_uptime_s (nd_hb (node_at z s)) then hb_gap (mg_last_seq s ! i) (h_seq hdr) else 0),
      nd_hb := hb\<rparr>"
    using i8 l(1) assms(2)
    by (simp add: update_telemetry_def Let_def node_at_def upd_core_def put_node_def nmgr_cfg_note_fresh_hb_def i_def [symmetric] iz)
      (simp add: upd_node_def iz)
  show "mg_last_seq (update_telemetry z hdr hb s) ! i = h_seq hdr" "mg_seq_known (update_telemetry z hdr hb s) ! i"
    using i8 l by (simp_all add: update_telemetry_def Let_def upd_core_def put_node_def i_def [symmetric])
qed

lemma hear_tally:
  assumes "mgr_ok s" "zone_id_ok z" "mg_seq_known s ! unat (z - 1)" "mg_last_seq s ! unat (z - 1) = of_nat c0"
    "one_boot c0 (hb_uptime_s (nd_hb (node_at z s))) hs"
  shows "nd_seq_drop_tally (node_at z (hear z hs s)) = nd_seq_drop_tally (node_at z s) + of_nat (last_count c0 hs - c0 - length hs) \<and>
    c0 + length hs \<le> last_count c0 hs"
  using assms
proof (induction hs arbitrary: s c0)
  case Nil
  show ?case by (simp add: last_count_def)
next
  case (Cons h hs)
  obtain c hdr hb where h: "h = (c, hdr, hb)" by (metis prod_cases3)
  let ?hdr = "hdr\<lparr>h_seq := of_nat c\<rparr>"
  let ?s = "update_telemetry z ?hdr hb s"
  have g: "c0 < c" "c < c0 + 32768" "hb_uptime_s (nd_hb (node_at z s)) \<le> hb_uptime_s hb" "one_boot c (hb_uptime_s hb) hs"
    using Cons.prems(5) by (simp_all add: h)
  note r = telemetry_row [OF Cons.prems(1,2), of ?hdr hb]
  have tally: "nd_seq_drop_tally (node_at z ?s) = nd_seq_drop_tally (node_at z s) + of_nat (c - c0 - 1)"
    using r(1) Cons.prems(3,4) g(3) hb_gap_counts [OF g(1,2)] by (simp add: not_less)
  have up: "nd_hb (node_at z ?s) = hb" using r(1) by simp
  have ih: "nd_seq_drop_tally (node_at z (hear z hs ?s)) = nd_seq_drop_tally (node_at z ?s) + of_nat (last_count c hs - c - length hs)
      \<and> c + length hs \<le> last_count c hs"
    using Cons.IH [OF telemetry_ok [OF Cons.prems(1), of z ?hdr hb] Cons.prems(2), of c] r(2,3) g(4) up by simp
  have lc: "last_count c0 (h # hs) = last_count c hs" by (simp add: last_count_def h)
  have "(of_nat (c - c0 - 1) :: u32) + of_nat (last_count c hs - c - length hs) = of_nat (last_count c hs - c0 - length (h # hs))"
    unfolding of_nat_add [symmetric] using g(1) ih by (intro arg_cong [of _ _ of_nat]) simp
  then show ?case using ih tally g(1) unfolding lc by (simp add: h add.assoc)
qed

section \<open>A retirement that does not reach the flash\<close>

lemma save_frame: "\<exists>g fl. fst (node_store_save r s) = s\<lparr>mg_store_gen := g, mg_flash := fl\<rparr>"
proof (cases "ztab_pack (mg_ztab s) (mg_store_gen s + 1) (HG_BLOB_HDR_LEN + 192)")
  case None
  then have "fst (node_store_save r s) = s\<lparr>mg_store_gen := mg_store_gen s, mg_flash := mg_flash s\<rparr>" by (simp add: node_store_save_def)
  then show ?thesis by blast
next
  case (Some b)
  have "fst (node_store_save r s) = s\<lparr>mg_store_gen := mg_store_gen s + 1,
      mg_flash := (if r = NvsDone \<or> r = NvsCommitFails True then Some b else mg_flash s)\<rparr>"
    by (simp add: node_store_save_def Some Let_def split: nvs_result.split)
  then show ?thesis by blast
qed

lemma save_result: "snd (node_store_save r s) \<Longrightarrow> r = NvsDone"
  by (auto simp: node_store_save_def Let_def split: option.splits nvs_result.splits if_splits)

lemma failed_clear:
  assumes "mgr_ok s" "z \<in> ran (ztab_map (mg_ztab s))" "r \<noteq> NvsDone"
  shows "snd (node_mgr_clear z r s) = -1" "z \<notin> ran (ztab_map (mg_ztab (fst (node_mgr_clear z r s))))"
    "mg_core (fst (node_mgr_clear z r s)) = mg_core s" "nd_used (node_at z s)"
    "node_mgr_clear z r' (fst (node_mgr_clear z r s)) = (fst (node_mgr_clear z r s), -1)"
proof -
  have ok: "ztab_ok (mg_ztab s)" "rows_mirror (mg_ztab s) (nm_tab (mg_core s))" using assms(1) by (auto simp: mgr_ok_def)
  obtain t where t: "ztab_clear (mg_ztab s) z = Some t"
    using ztab_find_id_map [OF ok(1), of z] assms(2) by (auto simp: ztab_clear_def)
  note c = ztab_ok_clear [OF ok(1) t]
  let ?s = "s\<lparr>mg_ztab := t, mg_unassigned_notified := False\<rparr>"
  obtain g fl where f: "fst (node_store_save r ?s) = ?s\<lparr>mg_store_gen := g, mg_flash := fl\<rparr>" using save_frame by blast
  have n: "\<not> snd (node_store_save r ?s)" using save_result [of r ?s] assms(3) by blast
  have e: "node_mgr_clear z r s = (?s\<lparr>mg_store_gen := g, mg_flash := fl\<rparr>, -1)"
    using f n by (simp add: node_mgr_clear_def nmgr_ztab_clear_def t Let_def split_def)
  show "snd (node_mgr_clear z r s) = -1" "mg_core (fst (node_mgr_clear z r s)) = mg_core s"
    "z \<notin> ran (ztab_map (mg_ztab (fst (node_mgr_clear z r s))))" using c(2) by (simp_all add: e)
  have "zone_id_ok z" using ran_ztab_map_bound [OF ok(1) assms(2)] by (simp add: word_le_nat_alt)
  then show "nd_used (node_at z s)" using mirror_facts(1) [OF ok] assms(2) by (simp add: node_at_def)
  have "ztab_clear t z = None" using ztab_find_id_map [OF c(1), of z] c(2) by (simp add: ztab_clear_def)
  then show "node_mgr_clear z r' (fst (node_mgr_clear z r s)) = (fst (node_mgr_clear z r s), -1)"
    unfolding e fst_conv by (simp add: node_mgr_clear_def nmgr_ztab_clear_def)
qed

section \<open>Examples\<close>

definition fresh_mgr :: mgr where
  "fresh_mgr = node_mgr_start True 0 None"

definition board_mac :: "u8 list" where "board_mac = [2, 0, 0, 0, 0, 9]"

definition hb_hdr :: "u8 \<Rightarrow> u16 \<Rightarrow> ring_hdr" where
  "hb_hdr src seq = \<lparr>h_src = src, h_dst = RING_ID_MASTER, h_type = RING_T_HEARTBEAT, h_flags = 0, h_ttl = 9, h_len = 62, h_seq = seq\<rparr>"

definition hb_frame :: "u8 \<Rightarrow> ring_frame" where
  "hb_frame src = \<lparr>f_hdr = hb_hdr src 5, f_payload = board_mac @ replicate 56 0\<rparr>"

lemma fresh_facts: "mgr_ok fresh_mgr" "mg_ztab fresh_mgr = ztab_empty"
proof -
  show "mgr_ok fresh_mgr" unfolding fresh_mgr_def by (rule start_mgr_ok) (simp add: flash_ok_def)
  show "mg_ztab fresh_mgr = ztab_empty"
    by (simp add: fresh_mgr_def node_mgr_start_def nmgr_enrol_boot_init_def node_store_load_def mgr_static_def upd_core_def Let_def split_def)
qed

lemma board_facts [simp]: "length board_mac = 6" "board_mac \<noteq> replicate 6 0" "\<not> seed_mac_refused 2 board_mac"
proof -
  show "length board_mac = 6" by (simp add: board_mac_def)
  show "board_mac \<noteq> replicate 6 0" by (simp add: board_mac_def numeral_eq_Suc)
  have "\<not> (\<forall>i \<in> {0 ..< 6}. board_mac ! i = 0)" by (auto simp: board_mac_def intro!: bexI [of _ 0])
  then show "\<not> seed_mac_refused 2 board_mac" by (simp add: seed_mac_refused_def board_mac_def)
qed

lemma hb_frame_parse: "\<exists>hb. hg_hb_parse sample_hb (frame_bytes (hb_frame src)) = Some hb \<and> hb_mac hb = board_mac"
  by (simp add: hg_hb_parse_def frame_bytes_def hb_frame_def hb_hdr_def board_mac_def nth_append)

lemma hb_frame_src [simp]: "h_src (f_hdr (hb_frame src)) = src"
  by (simp add: hb_frame_def hb_hdr_def)

definition bound_mgr :: mgr where
  "bound_mgr = fst (node_mgr_seed_mac 2 board_mac NvsDone fresh_mgr)"

lemma bound_facts: "mgr_ok bound_mgr" "ztab_map (mg_ztab bound_mgr) board_mac = Some 2"
  "node_mgr_seed_mac 2 board_mac NvsDone fresh_mgr = (bound_mgr, 0)"
  using seed_mac_effect [OF fresh_facts(1), of board_mac 2 NvsDone]
  by (simp_all add: bound_mgr_def seed_map_def prod_eq_iff)

definition heard_mgr :: mgr where
  "heard_mgr = update_telemetry 2 (hb_hdr 2 7) sample_hb bound_mgr"

section \<open>Properties\<close>

text \<open>When the flash refuses the table during a retirement, the call returns -1 with the row of the zone table already gone, while the row of the node table and the cached configuration stay; every further attempt returns -1 and changes nothing, whatever the flash does then.\<close>

lemma failed_retirement_cannot_be_repeated:
  assumes "mgr_ok s" "z \<in> ran (ztab_map (mg_ztab s))" "r \<noteq> NvsDone"
  shows "let (s', rc) = node_mgr_clear z r s in
    rc = -1 \<and> z \<notin> ran (ztab_map (mg_ztab s')) \<and> mg_core s' = mg_core s \<and> nd_used (node_at z s') \<and>
    (\<forall>r'. node_mgr_clear z r' s' = (s', -1))"
  using failed_clear [OF assms] by (simp add: Let_def split_def node_at_def)

lemma failed_retirement_cannot_be_repeated_witness:
  \<open>node_mgr_clear 2 NvsDone (fst (node_mgr_clear 2 NvsSetFails bound_mgr)) = (fst (node_mgr_clear 2 NvsSetFails bound_mgr), -1)\<close>
  using failed_retirement_cannot_be_repeated [OF bound_facts(1), of 2 NvsSetFails] bound_facts(2) by (auto simp: Let_def split_def ran_def)

text \<open>C5. From the first start on, whatever the ring, the operator, failing saves at enrolments and restarts do: the zone table is consistent and so is its image in flash; a row of the node table is in use exactly for the ids of the zone table and shows the board that has the id; and the boards without a zone are listed at most once, and none of them is in the table. Namings and retirements are taken with a save that succeeds.\<close>

lemma node_tables_agree:
  assumes "\<forall>e \<in> set es. mg_ev_ok e" "1 \<le> z" "z \<le> 8"
  shows "let s = fst (run_steps mg_step (node_mgr_start opens now None) es); m = ztab_map (mg_ztab s); nd = node_at z s in
    ztab_ok (mg_ztab s) \<and> flash_ok (mg_flash s) \<and> (nd_used nd \<longleftrightarrow> z \<in> ran m) \<and>
    (nd_used nd \<longrightarrow> nd_id nd = z \<and> m (nd_mac nd) = Some z) \<and>
    distinct (mg_unassigned s) \<and> length (mg_unassigned s) \<le> 8 \<and> (\<forall>b \<in> set (mg_unassigned s). m b = None)"
proof -
  let ?s = "fst (run_steps mg_step (node_mgr_start opens now None) es)"
  have "mgr_ok (node_mgr_start opens now None)" by (rule start_mgr_ok) (simp add: flash_ok_def)
  then have ok: "mgr_ok ?s" using assms(1) by (rule nmgr.guarded_run_keeps)
  then have "ztab_ok (mg_ztab ?s)" "rows_mirror (mg_ztab ?s) (nm_tab (mg_core ?s))" by (simp_all add: mgr_ok_def)
  note m = mirror_facts [OF this, of z]
  show ?thesis using ok m assms(2,3) by (simp add: Let_def node_at_def mgr_ok_def waiting_ok_def)
qed

lemma node_tables_agree_witness:
  \<open>length (mg_unassigned (fst (run_steps mg_step (node_mgr_start True 0 None)
     [MgSeed 2 board_mac NvsSetFails, MgFrame (hb_frame 5) 0 sample_hb NvsDone, MgClear 2 NvsDone, MgRestart True 9]))) \<le> 8\<close>
  using node_tables_agree [of "[MgSeed 2 board_mac NvsSetFails, MgFrame (hb_frame 5) 0 sample_hb NvsDone, MgClear 2 NvsDone, MgRestart True 9]" 1 True 0]
  by (simp add: Let_def del: run_steps_Cons)

text \<open>C6. When binding a board to an id is answered with 0, whether or not the flash could be written, the board has the id at once, the earlier holder of the id has none, and nobody else's id changes; whatever happens meanwhile to other zones and boards, the first heartbeat of the board is answered with the id, unless it already claims it.\<close>

lemma bound_board_gets_its_id:
  assumes "mgr_ok s" "length (hb_mac hb) = 6" "node_mgr_seed_mac z (hb_mac hb) r s = (s1, 0)"
    "\<forall>e \<in> set es. mg_ev_ok e \<and> keeps_board (hb_mac hb) z e" "hg_hb_parse junk (frame_bytes f) = Some hb"
  shows "ztab_map (mg_ztab s1) (hb_mac hb) = Some z \<and>
    (\<forall>b. b \<noteq> hb_mac hb \<longrightarrow> ztab_map (mg_ztab s1) b = (if ztab_map (mg_ztab s) b = Some z then None else ztab_map (mg_ztab s) b)) \<and>
    List.map_filter assigns (snd (nmgr_enrol_handle_hb f junk r' (fst (run_steps mg_step s1 es)))) =
      (if h_src (f_hdr f) = z then [] else [(hb_mac hb, z)])"
proof -
  have nr: "\<not> seed_mac_refused z (hb_mac hb)" using assms(3) by (auto simp: node_mgr_seed_mac_def)
  note e = seed_mac_effect [OF assms(1,2) nr, of r, unfolded assms(3) fst_conv]
  have m: "ztab_map (mg_ztab s1) (hb_mac hb) = Some z" using e(3) by (simp add: seed_map_def)
  have ok: "mgr_ok (fst (run_steps mg_step s1 es))" using nmgr.guarded_run_keeps [OF e(1)] assms(4) by blast
  show ?thesis using known_board_answer(1) [OF ok assms(5) keeps_board_run [OF e(1) assms(4) m], of r'] m e(3)
    by (simp add: seed_map_def)
qed

lemma bound_board_gets_its_id_witness:
  \<open>List.map_filter assigns (snd (nmgr_enrol_handle_hb (hb_frame RING_ID_UNASSIGNED) sample_hb NvsDone
     (fst (run_steps mg_step bound_mgr [MgHealth 0 0])))) = [(board_mac, 2)]\<close>
proof -
  obtain hb where hb: "hg_hb_parse sample_hb (frame_bytes (hb_frame RING_ID_UNASSIGNED)) = Some hb" "hb_mac hb = board_mac"
    using hb_frame_parse by blast
  show ?thesis
    using bound_board_gets_its_id [OF fresh_facts(1) _ _ _ hb(1), of 2 NvsDone bound_mgr "[MgHealth 0 0]" NvsDone]
    by (simp add: hb(2) bound_facts(3) RING_ID_UNASSIGNED_def del: run_steps_Cons)
qed

text \<open>C15. A board that has an id keeps it, whatever frames, ticks, commands and requests for other zones and boards follow, until its zone is retired, its zone or the board is bound anew, or the master restarts: its next heartbeat, whatever id it claims, leaves the map as it is and is answered with that id, and only if it claims another one.\<close>

lemma board_keeps_its_id:
  assumes "mgr_ok s" "\<forall>e \<in> set es. mg_ev_ok e \<and> keeps_board (hb_mac hb) z e" "ztab_map (mg_ztab s) (hb_mac hb) = Some z"
    "hg_hb_parse junk (frame_bytes f) = Some hb"
  shows "let s' = fst (run_steps mg_step s es); (s'', out) = nmgr_enrol_handle_hb f junk r s' in
    List.map_filter assigns out = (if h_src (f_hdr f) = z then [] else [(hb_mac hb, z)]) \<and>
    ztab_map (mg_ztab s'') = ztab_map (mg_ztab s') \<and> ztab_map (mg_ztab s') (hb_mac hb) = Some z"
proof -
  let ?s = "fst (run_steps mg_step s es)"
  have ok: "mgr_ok ?s" using nmgr.guarded_run_keeps [OF assms(1)] assms(2) by blast
  note k = keeps_board_run [OF assms(1-3)]
  show ?thesis using known_board_answer [OF ok assms(4) k, of r] k by (simp add: Let_def split_def)
qed

lemma board_keeps_its_id_witness:
  \<open>List.map_filter assigns (snd (nmgr_enrol_handle_hb (hb_frame 7) sample_hb NvsDone
     (fst (run_steps mg_step bound_mgr [MgClear 3 NvsDone, MgFrame (hb_frame 4) 0 sample_hb NvsSetFails, MgHealth 0 0])))) = [(board_mac, 2)]\<close>
proof -
  obtain hb where hb: "hg_hb_parse sample_hb (frame_bytes (hb_frame 7)) = Some hb" "hb_mac hb = board_mac" using hb_frame_parse by blast
  show ?thesis
    using board_keeps_its_id [OF bound_facts(1) _ _ hb(1), of "[MgClear 3 NvsDone, MgFrame (hb_frame 4) 0 sample_hb NvsSetFails, MgHealth 0 0]" 2 NvsDone]
    by (simp add: hb(2) bound_facts(2) Let_def split_def del: run_steps_Cons)
qed

text \<open>C16. A heartbeat acts on the map from boards to ids as the decision table of enrolment says, and is answered by exactly the assignment that corrects the sender: none if it already uses its id or the table is full, the id it has or gets otherwise, and the unassigned id for a board that claims the id of another.\<close>

lemma heartbeat_enrols:
  assumes "ztab_ok (mg_ztab s)" "hg_hb_parse junk (frame_bytes f) = Some hb" "hb_mac hb \<noteq> replicate 6 0"
    "enrol_spec (ztab_map (mg_ztab s)) (hb_mac hb) (h_src (f_hdr f)) = (m, v, oid)"
  shows "let (s', out) = nmgr_enrol_handle_hb f junk r s in
    ztab_map (mg_ztab s') = m \<and> List.map_filter assigns out = hb_answer v (hb_mac hb) (h_src (f_hdr f)) oid"
  using handle_hb_effect [OF assms, of r] by (simp add: split_def)

lemma heartbeat_enrols_witness:
  \<open>List.map_filter assigns (snd (nmgr_enrol_handle_hb (hb_frame RING_ID_UNASSIGNED) sample_hb NvsDone fresh_mgr)) = [(board_mac, 1)]\<close>
proof -
  obtain hb where hb: "hg_hb_parse sample_hb (frame_bytes (hb_frame RING_ID_UNASSIGNED)) = Some hb" "hb_mac hb = board_mac"
    using hb_frame_parse by blast
  have "enrol_spec (ztab_map (mg_ztab fresh_mgr)) (hb_mac hb) RING_ID_UNASSIGNED = (Map.empty(board_mac \<mapsto> 1), ZTAB_EN_ASSIGNED, Some 1)"
    by (simp add: enrol_spec_def fresh_facts(2) ztab_map_empty hb(2) RING_ID_UNASSIGNED_def)
  then show ?thesis
    using heartbeat_enrols [OF _ hb(1), of fresh_mgr _ ZTAB_EN_ASSIGNED "Some 1" NvsDone]
    by (simp add: fresh_facts(2) ztab_ok_empty hb(2) Let_def split_def hb_answer_def RING_ID_UNASSIGNED_def)
qed

text \<open>C17. Over heartbeats of one boot of a zone, with fewer than 32767 lost in a row, the tally of the zone grows by exactly the number of heartbeats between the first and the last counter that were not heard, also when the 16-bit counter wraps (the tally counts modulo 2^32).\<close>

lemma lost_heartbeats_are_counted:
  assumes "mgr_ok s" "1 \<le> z" "z \<le> 8" "mg_seq_known s ! unat (z - 1)" "mg_last_seq s ! unat (z - 1) = of_nat c0"
    "one_boot c0 (hb_uptime_s (nd_hb (node_at z s))) hs"
  shows "nd_seq_drop_tally (node_at z (hear z hs s)) = nd_seq_drop_tally (node_at z s) + of_nat (last_count c0 hs - c0 - length hs)"
proof -
  have "zone_id_ok z" using assms(2,3) by simp
  then show ?thesis using hear_tally [OF assms(1) _ assms(4-6)] by blast
qed

lemma lost_heartbeats_are_counted_witness:
  \<open>nd_seq_drop_tally (node_at 2 (hear 2 [(10, hb_hdr 2 0, sample_hb), (13, hb_hdr 2 0, sample_hb)] heard_mgr)) = nd_seq_drop_tally (node_at 2 heard_mgr) + 4\<close>
proof -
  have z: "zone_id_ok (2 :: u8)" by simp
  note r = telemetry_row [OF bound_facts(1) z, of "hb_hdr 2 7" sample_hb, folded heard_mgr_def]
  have "mgr_ok heard_mgr" unfolding heard_mgr_def by (rule telemetry_ok [OF bound_facts(1)])
  moreover have "nd_hb (node_at 2 heard_mgr) = sample_hb" using r(1) by simp
  ultimately show ?thesis
    using lost_heartbeats_are_counted [of heard_mgr 2 7 "[(10, hb_hdr 2 0, sample_hb), (13, hb_hdr 2 0, sample_hb)]"] r(2,3)
    by (simp add: last_count_def hb_hdr_def)
qed

end
