(* ===== verification/Node_Fwd.thy ===== *)
theory Node_Fwd
  imports Node_Mgr
begin

text \<open>
  What the node manager does with the command of an operator and with its own lines
  (\<^verbatim>\<open>components/node_mgr\<close>, files \<^verbatim>\<open>node_mgr_fwd.c\<close>, \<^verbatim>\<open>node_mgr_enrol.c\<close>, \<^verbatim>\<open>node_mgr.c\<close>):
  a forwarded edit is adopted and not undone, an answer goes to the caller that waits for it, failed commands
  degrade a zone, and no line about the ring is lost to the rate limit.
\<close>

section \<open>The lines on the sinks\<close>

text \<open>An output at the notification module of the master: the line and its sinks, if one is printed.\<close>

fun note_out :: "u32 \<Rightarrow> ntf_state \<Rightarrow> mg_out \<Rightarrow> ntf_state \<times> (string \<times> nat list) option" where
  "note_out now n (MgCfg (NmNote node t idx body)) = notify_emit_as n node t idx now body"
| "note_out now n (MgEmit t idx body) = notify_emit n t idx now body"
| "note_out now n (MgReset t idx) = (notify_reset n t idx, None)"
| "note_out now n (MgRelay line) = handle_notify_frame n line now"
| "note_out now n _ = (n, None)"

definition printed :: "(string \<times> nat list) option list \<Rightarrow> string list" where
  "printed xs = map fst (List.map_filter (\<lambda>x. x) xs)"

lemma set_last_ms_node [simp]: "nt_node_id (set_last_ms n t i v) = nt_node_id n" "nt_sinks (set_last_ms n t i v) = nt_sinks n"
  by (simp_all add: set_last_ms_def)

lemma idx_less [simp]: "idx_of idx < NTF_IDX_N"
  by (simp add: idx_of_def NTF_IDX_N_def unat_u8_less word_le_nat_alt not_less)

lemma reset_then_emit:
  assumes "ntf_ok n" "t < NTF_COUNT"
  shows "snd (emit_v (notify_reset n t idx) t idx node now body) =
    Some (ntf_line t node body, filter (\<lambda>k. nt_sinks n ! k AND NTF_MASK t \<noteq> 0) [0 ..< length (nt_sinks n)])"
    "ntf_ok (notify_reset n t idx)"
proof -
  have l: "t < length (nt_last_ms n)" "idx_of idx < length (nt_last_ms n ! t)"
    using assms idx_less [of idx] by (auto simp: ntf_ok_def)
  have "last_ms (notify_reset n t idx) t (idx_of idx) = NTF_NEVER"
    using assms(2) l by (simp add: notify_reset_def last_ms_def set_last_ms_def)
  moreover have "nt_sinks (notify_reset n t idx) = nt_sinks n" by (simp add: notify_reset_def)
  ultimately show "snd (emit_v (notify_reset n t idx) t idx node now body) =
    Some (ntf_line t node body, filter (\<lambda>k. nt_sinks n ! k AND NTF_MASK t \<noteq> 0) [0 ..< length (nt_sinks n)])"
    by (simp add: emit_v_def Let_def)
  show "ntf_ok (notify_reset n t idx)" using assms by (simp add: notify_reset_def set_last_ok)
qed

text \<open>Every line about the ring that the health evaluation makes.\<close>

definition is_ring_line :: "string \<Rightarrow> bool" where
  "is_ring_line l \<longleftrightarrow> take 5 l = ''RING ''"

lemma cb_ring: "is_ring_line l \<Longrightarrow> nmgr_health_cb l = [MgReset NTF_RING 0, MgEmit NTF_RING 0 (drop 5 l)]"
  by (simp add: nmgr_health_cb_def is_ring_line_def)

lemma note_ring:
  assumes "ntf_ok n" "is_ring_line l"
  shows "map_option fst (last (snd (run_steps (note_out now) n (nmgr_health_cb l)))) = Some (ntf_line NTF_RING (nt_node_id n) (drop 5 l))"
proof -
  have t: "NTF_RING < NTF_COUNT" by (simp add: NTF_RING_def NTF_COUNT_def)
  have i: "nt_node_id (notify_reset n NTF_RING 0) = nt_node_id n" by (simp add: notify_reset_def)
  show ?thesis
    unfolding cb_ring [OF assms(2)]
    by (simp add: notify_emit_def reset_then_emit(1) [OF assms(1) t] i)
qed

section \<open>A forwarded edit\<close>

lemma invalidate_facts:
  assumes "zone_id_ok z"
  shows "nm_zone (nmgr_cfg_invalidate z s) = (nm_zone s)(z := (nm_zone s z)\<lparr>zm_cfg := cache_zero, zm_hw := cache_zero,
      zm_latch_cfg := latch_zero, zm_latch_hw := latch_zero, zm_cooldown := 0\<rparr>)"
    "\<not> nmgr_cx_busy z (nmgr_cfg_invalidate z s)"
proof -
  have z: "(z < 1 \<or> z > 8) = False" "(z \<ge> 1 \<and> z \<le> 8) = True" using assms by auto
  have c: "nm_zone (nmgr_cancel q c) = nm_zone c" for q c using same_but_frames_simps [OF cancel_frames] by blast
  have a: "nm_zone (nmgr_cx_abort z c) = nm_zone c" for c by (simp add: nmgr_cx_abort_def nmgr_cx_init_def c)
  show "nm_zone (nmgr_cfg_invalidate z s) = (nm_zone s)(z := (nm_zone s z)\<lparr>zm_cfg := cache_zero, zm_hw := cache_zero,
      zm_latch_cfg := latch_zero, zm_latch_hw := latch_zero, zm_cooldown := 0\<rparr>)"
    unfolding nmgr_cfg_invalidate_def nmgr_cfg_cooldown_clear_def nmgr_cfg_latch_clear_def z if_False if_True a by simp
  show "\<not> nmgr_cx_busy z (nmgr_cfg_invalidate z s)"
    unfolding nmgr_cfg_invalidate_def z if_False by (simp add: nmgr_cx_busy_def nmgr_cx_abort_def nmgr_cx_init_def cx_zero_def)
qed

lemma start_after_invalidate:
  assumes "zone_id_ok z"
  shows "try_start z nd (nmgr_cfg_invalidate z s) =
    ((nmgr_cx_pull z 1 (hb_cfg_gen (nd_hb nd)) (hb_cfg_crc (nd_hb nd)) 0 0 (nmgr_cfg_invalidate z s), []), True)"
  by (simp add: try_start_def Let_def invalidate_facts(1) [OF assms] nmgr_cfg_latched_def cache_zero_def latch_of_def latch_zero_def)

definition is_ok_edit :: "ring_trk_ev \<Rightarrow> fwd_slot \<Rightarrow> bool" where
  "is_ok_edit ev w \<longleftrightarrow> sl_active w \<and> ev_seq ev = sl_seq w \<and> ev_kind ev = EV_DONE \<and> ev_status ev = 0 \<and> sl_verb_set w \<and>
     reply_is_ok (cstr (ev_detail ev))"

lemma fwd_on_ev_core:
  assumes "zone_id_ok (sl_zone (mg_fwd s))"
  shows "mg_core (nmgr_fwd_on_ev ev s) =
    (if is_ok_edit ev (mg_fwd s) then nmgr_cfg_invalidate (sl_zone (mg_fwd s)) (mg_core s) else mg_core s)"
proof -
  have "sl_zone (mg_fwd s) \<noteq> 0" using assms by auto
  then show ?thesis by (simp add: nmgr_fwd_on_ev_def is_ok_edit_def Let_def upd_core_def)
qed

section \<open>Who gets an answer\<close>

lemma forward_accepted:
  assumes "node_mgr_forward z line s = (s', None)"
  shows "\<not> sl_busy (mg_fwd s)" "zone_id_ok z" "nd_used (node_at z s)"
    "mg_fwd s' = (mg_fwd s)\<lparr>sl_busy := True, sl_seq := nm_seq (mg_core s) + 1, sl_active := True, sl_done := False,
       sl_fail_token := None, sl_zone := z, sl_verb_set := verb_is_set line, sl_waiter := True\<rparr>"
    "same_but_frames (mg_core s) (mg_core s')"
proof -
  show b: "\<not> sl_busy (mg_fwd s)" using assms by (auto simp: node_mgr_forward_def)
  obtain s1 where d: "do_forward z line s = (s1, None)" "s' = upd_fwd (\<lambda>w. w\<lparr>sl_busy := True\<rparr>) s1"
    using assms b by (auto simp: node_mgr_forward_def split: prod.splits option.splits)
  have nz: "\<not> (z < 1 \<or> z > 8)" using d(1) by (auto simp: do_forward_def)
  then show "zone_id_ok z" by (meson not_less)
  show "nd_used (node_at z s)" using d(1) nz by (auto simp: do_forward_def split: if_splits)
  obtain c q where sb: "nmgr_submit z RING_T_CMD (take RING_MAX_PAYLOAD line) (mg_core s) = (c, Some q)"
    "s1 = upd_fwd (\<lambda>w. w\<lparr>sl_seq := q, sl_active := True, sl_done := False, sl_fail_token := None, sl_zone := z,
               sl_verb_set := verb_is_set line, sl_waiter := True\<rparr>) (s\<lparr>mg_core := c\<rparr>)"
    using d(1) nz by (auto simp: do_forward_def split: if_splits prod.splits option.splits)
  have q: "q = nm_seq (mg_core s) + 1"
    using sb(1) by (auto simp: nmgr_submit_def nmgr_next_seq_def Let_def split: option.splits)
  show "mg_fwd s' = (mg_fwd s)\<lparr>sl_busy := True, sl_seq := nm_seq (mg_core s) + 1, sl_active := True, sl_done := False,
       sl_fail_token := None, sl_zone := z, sl_verb_set := verb_is_set line, sl_waiter := True\<rparr>"
    by (simp add: d(2) sb(2) q upd_fwd_def)
  show "same_but_frames (mg_core s) (mg_core s')"
    using submit_frames [of "mg_core s" z RING_T_CMD "take RING_MAX_PAYLOAD line"] by (simp add: d(2) sb upd_fwd_def)
qed

lemma foreign_answer: "ev_seq ev \<noteq> sl_seq (mg_fwd s) \<or> \<not> sl_active (mg_fwd s) \<Longrightarrow> nmgr_fwd_on_ev ev s = s"
  by (auto simp: nmgr_fwd_on_ev_def Let_def)

lemma answer_taken:
  assumes "sl_active (mg_fwd s)" "ev_seq ev = sl_seq (mg_fwd s)"
  shows "ev_kind ev = EV_DONE \<Longrightarrow> snd (fwd_finish n (nmgr_fwd_on_ev ev s)) =
      (take (n - 1) (take 125 (cstr (ev_detail ev))), if ev_status ev = 0 then 0 else -1)"
    "ev_kind ev = EV_FAIL \<Longrightarrow> ev_fail_token ev = Some tok \<Longrightarrow> nd_used (node_at (sl_zone (mg_fwd s)) s) \<Longrightarrow>
      snd (fwd_finish n (nmgr_fwd_on_ev ev s)) =
        (take (n - 1) (errline (if tok = ''ZONE_UNKNOWN'' then ''ZONE_OFFLINE'' else tok)), -1)"
    "sl_done (mg_fwd (nmgr_fwd_on_ev ev s))" "sl_busy (mg_fwd (nmgr_fwd_on_ev ev s)) = sl_busy (mg_fwd s)"
  using assms by (auto simp: nmgr_fwd_on_ev_def Let_def fwd_finish_def reply_def upd_core_def upd_fwd_def node_at_def split: if_splits)

lemma slot_released: "\<not> sl_busy (mg_fwd (fst (fwd_finish n s)))" "\<not> sl_busy (mg_fwd (fst (fwd_expire n s)))"
  by (simp_all add: fwd_expire_def fwd_finish_def Let_def upd_fwd_def bump_timeouts_def put_node_def upd_core_def split: option.split)

lemma expired_slot: "\<not> sl_done (mg_fwd s) \<Longrightarrow> nmgr_fwd_on_ev ev (fst (fwd_expire n s)) = fst (fwd_expire n s)"
  by (rule foreign_answer) (simp add: fwd_expire_def upd_fwd_def bump_timeouts_def put_node_def upd_core_def)

section \<open>Failed commands degrade a zone\<close>

text \<open>A failed command, or a heartbeat of the zone.\<close>

fun exchange :: "u8 \<Rightarrow> (ring_hdr \<times> hg_hb) option \<Rightarrow> mgr \<Rightarrow> mgr" where
  "exchange z None s = bump_timeouts z s"
| "exchange z (Some (hdr, hb)) s = update_telemetry z hdr hb s"

definition failures :: "(ring_hdr \<times> hg_hb) option list \<Rightarrow> nat" where
  "failures xs = length (filter (\<lambda>x. x = None) xs)"

lemma u8_le: "unat (x :: u8) \<le> 255"
  using unat_u8_less [of x] by linarith

lemma exchange_ok: "mgr_ok s \<Longrightarrow> mgr_ok (exchange z x s)"
  by (cases x) (auto simp: bump_ok telemetry_ok)

lemma node_put: "mgr_ok s \<Longrightarrow> zone_id_ok z \<Longrightarrow> node_at z (put_node z f s) = f (node_at z s)"
  using zone_slot [of z] by (simp add: node_at_def put_node_def upd_core_def upd_node_def mgr_ok_def nm_ok_def)

lemma exchange_count:
  assumes "mgr_ok s" "zone_id_ok z"
  shows "unat (nd_cmd_timeouts (node_at z (exchange z x s))) = min 255 (unat (nd_cmd_timeouts (node_at z s)) + failures [x])"
proof (cases x)
  case None
  have b: "unat (nd_cmd_timeouts (node_at z s)) \<le> 255" by (rule u8_le)
  show ?thesis
  proof (cases "nd_cmd_timeouts (node_at z s) < 255")
    case True
    then have l: "unat (nd_cmd_timeouts (node_at z s)) < 255" by (simp add: word_less_nat_alt)
    then have "unat (nd_cmd_timeouts (node_at z s) + 1) = unat (nd_cmd_timeouts (node_at z s)) + 1"
      by (subst unat_add_lem [THEN iffD1]) simp_all
    then show ?thesis using True l by (simp add: None bump_timeouts_def node_put [OF assms] failures_def)
  next
    case False
    then have "unat (nd_cmd_timeouts (node_at z s)) = 255" using b by (simp add: word_less_nat_alt)
    then show ?thesis using False by (simp add: None bump_timeouts_def node_put [OF assms] failures_def)
  qed
next
  case (Some y)
  obtain hdr hb where y: "y = (hdr, hb)" by (metis surj_pair)
  have "nd_cmd_timeouts (node_at z (update_telemetry z hdr hb s)) = nd_cmd_timeouts (node_at z s)"
    unfolding update_telemetry_def Let_def
    using node_put [OF assms] by (simp add: node_at_def upd_core_def nmgr_cfg_note_fresh_hb_def put_node_def)
  moreover have "unat (nd_cmd_timeouts (node_at z s)) \<le> 255" by (rule u8_le)
  ultimately show ?thesis by (simp add: Some y failures_def)
qed

lemma exchanges_count:
  assumes "mgr_ok s" "zone_id_ok z"
  shows "unat (nd_cmd_timeouts (node_at z (fold (exchange z) xs s))) = min 255 (unat (nd_cmd_timeouts (node_at z s)) + failures xs)"
  using assms(1)
proof (induction xs arbitrary: s)
  case Nil
  show ?case using u8_le [of "nd_cmd_timeouts (node_at z s)"] by (simp add: failures_def)
next
  case (Cons x xs)
  have "failures (x # xs) = failures [x] + failures xs" by (simp add: failures_def)
  then show ?case using Cons.IH [OF exchange_ok [OF Cons.prems], of z x] exchange_count [OF Cons.prems assms(2), of x] by simp
qed

section \<open>Examples\<close>

definition idle_mgr :: mgr where
  "idle_mgr = (mgr_static 0 None)\<lparr>mg_core := online\<rparr>"

definition set_line :: "u8 list" where
  "set_line = bytes_of ''set SHELF 1 NAME basil''"

lemma idle_forward:
  obtains s1 where "node_mgr_forward 1 set_line idle_mgr = (s1, None)" "nm_seq (mg_core idle_mgr) = 7"
proof -
  have n: "node_at 1 idle_mgr = pushing_node" by (simp add: node_at_def idle_mgr_def online_def pushing_def)
  have p: "nd_used pushing_node" "nd_health pushing_node = NODE_H_ONLINE" by (simp_all add: pushing_node_def sample_node_def)
  have r: "rs_state (mg_ring_status idle_mgr) = RING_ST_IDLE" "\<not> sl_busy (mg_fwd idle_mgr)"
    by (simp_all add: idle_mgr_def mgr_static_def fwd_init_def)
  have l: "take RING_MAX_PAYLOAD set_line = set_line" "length set_line = 22"
    by (simp_all add: set_line_def bytes_of_def RING_MAX_PAYLOAD_def)
  let ?h = "\<lparr>h_src = RING_ID_MASTER, h_dst = 1, h_type = RING_T_CMD, h_flags = RING_F_ACK_REQ, h_ttl = RING_TTL_INIT,
      h_len = of_nat (length set_line), h_seq = 8\<rparr>"
  obtain w where w: "ring_frame_encode ?h set_line RING_WIRE_MAX = Some w"
    using ring_frame_encode_fits [of ?h set_line] by (auto simp: l(2) RING_MAX_PAYLOAD_def)
  have q: "nm_trk (mg_core idle_mgr) = []" "nm_seq (mg_core idle_mgr) = 7" by (simp_all add: idle_mgr_def online_def pushing_def)
  have "\<exists>c q. nmgr_submit 1 RING_T_CMD (take RING_MAX_PAYLOAD set_line) (mg_core idle_mgr) = (c, Some q)"
    using w by (simp add: nmgr_submit_def nmgr_next_seq_def Let_def ring_trk_submit_def q RING_TRK_DEPTH_def l(1))
  then obtain c sq where sb: "nmgr_submit 1 RING_T_CMD (take RING_MAX_PAYLOAD set_line) (mg_core idle_mgr) = (c, Some sq)" by blast
  have "\<exists>s1. node_mgr_forward 1 set_line idle_mgr = (s1, None)"
    by (simp add: node_mgr_forward_def do_forward_def n p r sb)
  then show thesis using q(2) that by blast
qed

definition ok_answer :: ring_trk_ev where
  "ok_answer = \<lparr>ev_kind = EV_DONE, ev_seq = 8, ev_dst = 1, ev_type = RING_T_CMD, ev_wire = None, ev_status = 0,
     ev_detail = bytes_of ''OK'', ev_fail_token = None\<rparr>"

lemma ok_text: "cstr (bytes_of ''OK'') = bytes_of ''OK''" "reply_is_ok (bytes_of ''OK'')" "length (bytes_of ''OK'') = 2"
  by code_simp+

text \<open>
  What counts as an edit, and as its acceptance, in the words of the protocol: after blanks the word SET in
  upper or lower case (\<open>+ 32\<close>), then a blank or the end; OK, then a blank, a line feed or the end.
\<close>

definition is_set_line :: "u8 list \<Rightarrow> bool" where
  "is_set_line line \<longleftrightarrow> (\<exists>n w rest. line = replicate n 32 @ w @ rest \<and>
     list_all2 (\<lambda>b c. b = byte_of c \<or> b = byte_of c + 32) w ''SET'' \<and> (rest = [] \<or> hd rest \<in> {32, 0}))"

definition is_ok_reply :: "u8 list \<Rightarrow> bool" where
  "is_ok_reply d \<longleftrightarrow> (\<exists>rest. d = bytes_of ''OK'' @ rest \<and> (rest = [] \<or> hd rest \<in> {32, 10, 0}))"

lemma char_of_byte_eq: "char_of_byte b = c \<longleftrightarrow> b = byte_of c"
  by (metis byte_of_char_of_byte char_of_byte_of)

lemma letters [simp]:
  "byte_of (CHR ''S'') = 83" "byte_of (CHR ''s'') = 115" "byte_of (CHR ''E'') = 69" "byte_of (CHR ''e'') = 101"
  "byte_of (CHR ''T'') = 84" "byte_of (CHR ''t'') = 116" "byte_of (CHR ''O'') = 79" "byte_of (CHR ''K'') = 75"
  "byte_of (CHR '' '') = 32" "byte_of (CHR 0x0A) = 10" "byte_of (CHR 0x00) = 0"
  by (simp_all add: byte_of_def char_code_def)

lemma c_at_simps [simp]:
  "c_at [] i = CHR 0x00" "c_at (x # xs) 0 = char_of_byte x" "c_at (x # xs) (Suc i) = c_at xs i"
  by (simp_all add: c_at_def)

lemma c_at_numeral [simp]:
  "c_at (x # xs) 1 = c_at xs 0" "c_at (x # xs) 2 = c_at xs 1" "c_at (x # xs) 3 = c_at xs 2"
  by (simp_all add: c_at_def numeral_2_eq_2 numeral_3_eq_3)

lemma reply_is_ok_iff: "reply_is_ok d \<longleftrightarrow> is_ok_reply d"
proof (cases "\<exists>a b rest. d = a # b # rest")
  case True
  then obtain a b rest where d: "d = a # b # rest" by blast
  show ?thesis unfolding is_ok_reply_def by (cases rest) (auto simp: d reply_is_ok_def char_of_byte_eq bytes_of_def)
next
  case False
  then have "d = [] \<or> (\<exists>a. d = [a])" by (metis neq_Nil_conv)
  then show ?thesis by (auto simp: is_ok_reply_def reply_is_ok_def char_of_byte_eq bytes_of_def)
qed

lemma word_is_set:
  "(\<exists>w rest. l = w @ rest \<and> list_all2 (\<lambda>b c. b = byte_of c \<or> b = byte_of c + 32) w ''SET'' \<and> (rest = [] \<or> hd rest \<in> {32, 0})) \<longleftrightarrow>
    (c_at l 0 = CHR ''S'' \<or> c_at l 0 = CHR ''s'') \<and> (c_at l 1 = CHR ''E'' \<or> c_at l 1 = CHR ''e'') \<and>
    (c_at l 2 = CHR ''T'' \<or> c_at l 2 = CHR ''t'') \<and> (c_at l 3 = CHR '' '' \<or> c_at l 3 = CHR 0x00)" (is "?S \<longleftrightarrow> ?C")
proof
  assume ?S
  then obtain w rest where "l = w @ rest" "list_all2 (\<lambda>b c. b = byte_of c \<or> b = byte_of c + 32) w ''SET''"
    "rest = [] \<or> hd rest \<in> {32, 0}" by blast
  then show ?C by (cases rest) (auto simp: list_all2_Cons2 char_of_byte_eq)
next
  assume c: ?C
  then obtain x y z rest where l: "l = x # y # z # rest"
    by (cases l; cases "tl l"; cases "tl (tl l)") (auto simp: numeral_2_eq_2)
  show ?S
    by (intro exI [of _ "[x, y, z]"] exI [of _ rest]) (use c in \<open>cases rest; auto simp: l char_of_byte_eq\<close>)
qed

lemma verb_is_set_iff: "verb_is_set line \<longleftrightarrow> is_set_line line"
proof -
  define l where "l = dropWhile (\<lambda>c. c = 32) line"
  have v: "verb_is_set line \<longleftrightarrow> (\<exists>w rest. l = w @ rest \<and> list_all2 (\<lambda>b c. b = byte_of c \<or> b = byte_of c + 32) w ''SET'' \<and>
      (rest = [] \<or> hd rest \<in> {32, 0}))"
    unfolding word_is_set by (simp add: verb_is_set_def l_def Let_def)
  have "takeWhile (\<lambda>c. c = 32) line = replicate (length (takeWhile (\<lambda>c. c = 32) line)) 32"
    by (rule replicate_length_same [symmetric]) (metis (full_types) set_takeWhileD)
  then have line: "line = replicate (length (takeWhile (\<lambda>c. c = 32) line)) 32 @ l"
    unfolding l_def by (metis takeWhile_dropWhile_id)
  have "l = w @ rest" if ln: "line = replicate n 32 @ w @ rest" and wd: "list_all2 (\<lambda>b c. b = byte_of c \<or> b = byte_of c + 32) w ''SET''" for n w rest
  proof -
    obtain x w' where "w = x # w'" "x \<noteq> 32" using wd by (auto simp: list_all2_Cons2)
    moreover have "dropWhile (\<lambda>c. c = 32) (replicate n 32 @ ys) = dropWhile (\<lambda>c. c = 32) ys" for ys :: "u8 list"
      by (induction n) simp_all
    ultimately show ?thesis by (simp add: l_def ln)
  qed
  note split = this
  show ?thesis unfolding v is_set_line_def
  proof
    assume "\<exists>w rest. l = w @ rest \<and> list_all2 (\<lambda>b c. b = byte_of c \<or> b = byte_of c + 32) w ''SET'' \<and> (rest = [] \<or> hd rest \<in> {32, 0})"
    then obtain w rest where "l = w @ rest" "list_all2 (\<lambda>b c. b = byte_of c \<or> b = byte_of c + 32) w ''SET''"
      "rest = [] \<or> hd rest \<in> {32, 0}" by blast
    then show "\<exists>n w rest. line = replicate n 32 @ w @ rest \<and>
        list_all2 (\<lambda>b c. b = byte_of c \<or> b = byte_of c + 32) w ''SET'' \<and> (rest = [] \<or> hd rest \<in> {32, 0})" using line by blast
  next
    assume "\<exists>n w rest. line = replicate n 32 @ w @ rest \<and>
        list_all2 (\<lambda>b c. b = byte_of c \<or> b = byte_of c + 32) w ''SET'' \<and> (rest = [] \<or> hd rest \<in> {32, 0})"
    then show "\<exists>w rest. l = w @ rest \<and> list_all2 (\<lambda>b c. b = byte_of c \<or> b = byte_of c + 32) w ''SET'' \<and> (rest = [] \<or> hd rest \<in> {32, 0})"
      using split by blast
  qed
qed

lemma ok_edit_iff:
  assumes "sl_active (mg_fwd s)" "sl_verb_set (mg_fwd s) = verb_is_set line" "sl_seq (mg_fwd s) = q"
  shows "is_ok_edit ev (mg_fwd s) \<longleftrightarrow> ev_seq ev = q \<and> ev_kind ev = EV_DONE \<and> ev_status ev = 0 \<and> is_set_line line \<and>
    is_ok_reply (cstr (ev_detail ev))"
  using assms by (simp add: is_ok_edit_def verb_is_set_iff reply_is_ok_iff)

section \<open>Properties\<close>

text \<open>A line of the health evaluation about the ring is always printed, however shortly after the last one and whatever the state of the rate limits, with the text of the evaluation and the master as its node.\<close>

lemma ring_lines_are_never_held_back:
  assumes "ntf_ok n" "is_ring_line l"
  shows "map_option fst (last (snd (run_steps (note_out now) n (nmgr_health_cb l)))) = Some (ntf_line NTF_RING (nt_node_id n) (drop 5 l))"
  by (rule note_ring [OF assms])

lemma ring_lines_are_never_held_back_witness:
  \<open>map_option fst (last (snd (run_steps (note_out 5) (notify_init 0) (nmgr_health_cb ''RING CLOSED'')))) = Some (ntf_line NTF_RING 0 ''CLOSED'')\<close>
  using ring_lines_are_never_held_back [OF ntf_ok_init, of "''RING CLOSED''" 5 0] by (simp add: is_ring_line_def notify_init_def)

text \<open>Failed commands to a zone are counted up to 255 and heartbeats in between do not reset the count: after three failures, in whatever order with heartbeats, the next evaluation shows the zone as degraded, offline or updating, never as online; an answer sets the count back to zero.\<close>

lemma three_failures_degrade_a_zone:
  assumes "mgr_ok s" "1 \<le> z" "z \<le> 8"
  shows "unat (nd_cmd_timeouts (node_at z (fold (exchange z) xs s))) = min 255 (unat (nd_cmd_timeouts (node_at z s)) + failures xs) \<and>
    (failures xs \<ge> 3 \<longrightarrow> node_ladder now (node_at z (fold (exchange z) xs s)) \<noteq> NODE_H_ONLINE) \<and>
    (sl_fail_token (mg_fwd s) = None \<and> sl_zone (mg_fwd s) = z \<longrightarrow> nd_cmd_timeouts (node_at z (fst (fwd_finish n s))) = 0)"
proof -
  have z: "zone_id_ok z" using assms(2,3) by simp
  note c = exchanges_count [OF assms(1) z, of xs]
  have "node_ladder now (node_at z (fold (exchange z) xs s)) \<noteq> NODE_H_ONLINE" if "failures xs \<ge> 3"
  proof -
    have "nd_cmd_timeouts (node_at z (fold (exchange z) xs s)) \<ge> 3" using c that by (simp add: word_le_nat_alt)
    then show ?thesis by (simp add: node_ladder_def Let_def)
  qed
  moreover have "nd_cmd_timeouts (node_at z (fst (fwd_finish n s))) = 0" if "sl_fail_token (mg_fwd s) = None" "sl_zone (mg_fwd s) = z"
  proof -
    have "mgr_ok (upd_fwd (\<lambda>w. w\<lparr>sl_busy := False\<rparr>) s)" using assms(1) by simp
    from node_put [OF this z] show ?thesis using that by (simp add: fwd_finish_def Let_def)
  qed
  ultimately show ?thesis using c by blast
qed

lemma three_failures_degrade_a_zone_witness:
  \<open>node_ladder 0 (node_at 1 (fold (exchange 1) [None, Some (sample_hdr, sample_hb), None, None] (node_mgr_start True 0 None))) \<noteq> NODE_H_ONLINE\<close>
proof -
  have "mgr_ok (node_mgr_start True 0 None)" by (rule start_mgr_ok) (simp add: flash_ok_def)
  from three_failures_degrade_a_zone [OF this, of 1 "[None, Some (sample_hdr, sample_hb), None, None]" 0] show ?thesis
    by (simp add: failures_def)
qed

text \<open>C7. A command was forwarded to a zone and the slot of the forwarding is as that call left it. If the line is a SET (after blanks the word in upper or lower case, then a blank or the end) and the zone answers it, under its number, with status 0 and OK (then a blank, a line feed or the end), the master drops both planes it has cached of that zone and ends a transfer with it, and nothing of another zone changes: whatever the next heartbeat reports, the next decision about the zone fetches its logical plane and pushes nothing back. No other event changes anything in the configuration part.\<close>

lemma forwarded_edit_is_adopted:
  assumes "node_mgr_forward z line s = (s1, None)" "mg_fwd s2 = mg_fwd s1"
  shows "let q = nm_seq (mg_core s) + 1; c = mg_core (nmgr_fwd_on_ev ev s2) in
    if ev_seq ev = q \<and> ev_kind ev = EV_DONE \<and> ev_status ev = 0 \<and> is_set_line line \<and> is_ok_reply (cstr (ev_detail ev)) then
      (\<forall>nd. \<exists>c'. try_start z nd c = ((c', []), True) \<and> fetches z 1 c c') \<and>
      zm_cfg (nm_zone c z) = cache_zero \<and> zm_hw (nm_zone c z) = cache_zero \<and> \<not> nmgr_cx_busy z c \<and>
      (\<forall>y. y \<noteq> z \<longrightarrow> nm_zone c y = nm_zone (mg_core s2) y)
    else c = mg_core s2"
proof -
  note f = forward_accepted [OF assms(1)]
  have w: "sl_active (mg_fwd s2)" "sl_verb_set (mg_fwd s2) = verb_is_set line" "sl_seq (mg_fwd s2) = nm_seq (mg_core s) + 1"
    "sl_zone (mg_fwd s2) = z" by (simp_all add: assms(2) f(4))
  have "zone_id_ok (sl_zone (mg_fwd s2))" using f(2) by (simp only: w(4))
  note c = fwd_on_ev_core [OF this, of ev, unfolded w(4) ok_edit_iff [OF w(1-3)]]
  show ?thesis
    unfolding Let_def c by (simp add: start_after_invalidate [OF f(2)] invalidate_facts [OF f(2)] pull_fetches)
qed

lemma forwarded_edit_is_adopted_witness:
  \<open>zm_cfg (nm_zone (mg_core (nmgr_fwd_on_ev ok_answer (fst (node_mgr_forward 1 set_line idle_mgr)))) 1) = cache_zero\<close>
proof -
  obtain s1 where f: "node_mgr_forward 1 set_line idle_mgr = (s1, None)" "nm_seq (mg_core idle_mgr) = 7" by (rule idle_forward)
  have "is_set_line set_line" unfolding is_set_line_def
    by (rule exI [of _ 0], rule exI [of _ "bytes_of ''set''"], rule exI [of _ "drop 3 set_line"]) (simp add: set_line_def bytes_of_def)
  moreover have "is_ok_reply (cstr (ev_detail ok_answer))" unfolding is_ok_reply_def
    by (rule exI [of _ "[]"]) (simp add: ok_answer_def ok_text)
  ultimately show ?thesis using forwarded_edit_is_adopted [OF f(1) refl, of ok_answer] by (simp add: Let_def f ok_answer_def)
qed

text \<open>C18. A forwarded command that was accepted waits for one sequence number: events with another one do not touch the slot; the answer of the zone is returned to the caller, cut to its buffer, with 0 for the status 0; a failure of the tracker is returned as an error, where an unanswered id of a zone in the table reads as offline; and once the wait is over the slot is free and a late answer is dropped.\<close>

lemma answer_reaches_its_caller:
  assumes "node_mgr_forward z line s = (s1, None)" "mg_fwd s2 = mg_fwd s1" "nd_used (node_at z s2)"
  shows "let q = nm_seq (mg_core s) + 1 in
    (\<forall>ev. ev_seq ev \<noteq> q \<longrightarrow> nmgr_fwd_on_ev ev s2 = s2) \<and>
    (\<forall>ev. ev_seq ev = q \<and> ev_kind ev = EV_DONE \<longrightarrow> snd (fwd_finish n (nmgr_fwd_on_ev ev s2)) =
        (take (n - 1) (take 125 (cstr (ev_detail ev))), if ev_status ev = 0 then 0 else -1)) \<and>
    (\<forall>ev tok. ev_seq ev = q \<and> ev_kind ev = EV_FAIL \<and> ev_fail_token ev = Some tok \<longrightarrow> snd (fwd_finish n (nmgr_fwd_on_ev ev s2)) =
        (take (n - 1) (errline (if tok = ''ZONE_UNKNOWN'' then ''ZONE_OFFLINE'' else tok)), -1)) \<and>
    (\<forall>ev. \<not> sl_busy (mg_fwd (fst (fwd_expire n s2))) \<and> nmgr_fwd_on_ev ev (fst (fwd_expire n s2)) = fst (fwd_expire n s2))"
proof -
  note f = forward_accepted [OF assms(1)]
  have w: "sl_seq (mg_fwd s2) = nm_seq (mg_core s) + 1" "sl_active (mg_fwd s2)" "\<not> sl_done (mg_fwd s2)" "sl_zone (mg_fwd s2) = z"
    by (simp_all add: assms(2) f(4))
  show ?thesis
    using foreign_answer [of _ s2] answer_taken(1,2) [OF w(2)] slot_released(2) [of n s2] expired_slot [OF w(3)] assms(3)
    by (simp add: Let_def w)
qed

lemma answer_reaches_its_caller_witness:
  \<open>snd (fwd_finish 64 (nmgr_fwd_on_ev ok_answer (fst (node_mgr_forward 1 set_line idle_mgr)))) = (bytes_of ''OK'', 0)\<close>
proof -
  obtain s1 where f: "node_mgr_forward 1 set_line idle_mgr = (s1, None)" "nm_seq (mg_core idle_mgr) = 7" by (rule idle_forward)
  note a = forward_accepted [OF f(1)]
  have t: "nm_tab (mg_core s1) = nm_tab (mg_core idle_mgr)" using same_but_frames_simps [OF a(5)] by blast
  have "nd_used (node_at 1 s1)" using a(3) by (simp add: node_at_def t)
  then show ?thesis
    using answer_reaches_its_caller [OF f(1) refl, of 64] by (simp add: Let_def f ok_answer_def ok_text)
qed

end
