(* ===== verification/Fw_Trial.thy ===== *)
theory Fw_Trial
  imports Notify
begin

text \<open>
  \<^verbatim>\<open>components/ota_trial/trial_eval.c\<close> and \<^verbatim>\<open>ota_trial.c\<close>: the trial of a new image. The running
  image is judged once a second; it is confirmed only when it has shown that it works, on the
  fleet path only when it heard the master, and otherwise it is rolled back after three minutes.
  Shown: what the probes say is what happened since the start, so that an image that is
  confirmed has earned it; a trial gives one verdict; and a trial of the fleet ends.
\<close>

section \<open>The judgement\<close>

record trial_probes =
  tp_cfg_loaded :: u8
  tp_drivers_ok :: u8
  tp_ticks :: u16
  tp_twdt_ok :: u8
  tp_min_heap_kb :: u32
  tp_master_frame_seen :: u8
  tp_confirmed :: u8

datatype trial_verdict = TRIAL_PENDING | TRIAL_PASS | TRIAL_FAIL

definition TRIAL_FLEET_WINDOW_MS :: u32 where "TRIAL_FLEET_WINDOW_MS = 180000"
definition TRIAL_BENCH_WINDOW_MS :: u32 where "TRIAL_BENCH_WINDOW_MS = 60000"
definition TRIAL_MIN_TICKS :: u16 where "TRIAL_MIN_TICKS = 50"
definition TRIAL_MIN_HEAP_KB :: u32 where "TRIAL_MIN_HEAP_KB = 40"

lemmas trial_limits = TRIAL_FLEET_WINDOW_MS_def TRIAL_BENCH_WINDOW_MS_def TRIAL_MIN_TICKS_def TRIAL_MIN_HEAP_KB_def

definition trial_eval :: "trial_probes \<Rightarrow> u8 \<Rightarrow> u32 \<Rightarrow> u32 \<Rightarrow> trial_verdict" where
  "trial_eval p expect_link start_ms now_ms =
     (if tp_confirmed p \<noteq> 0 then TRIAL_PASS
      else
        let base = tp_cfg_loaded p \<noteq> 0 \<and> tp_drivers_ok p \<noteq> 0 \<and> tp_ticks p \<ge> TRIAL_MIN_TICKS \<and>
              tp_twdt_ok p \<noteq> 0 \<and> tp_min_heap_kb p > TRIAL_MIN_HEAP_KB;
            elapsed = now_ms - start_ms
        in if base \<and> expect_link \<noteq> 0 \<and> tp_master_frame_seen p \<noteq> 0 then TRIAL_PASS
           else if base \<and> expect_link = 0 \<and> elapsed \<ge> TRIAL_BENCH_WINDOW_MS then TRIAL_PASS
           else if expect_link \<noteq> 0 \<and> elapsed \<ge> TRIAL_FLEET_WINDOW_MS then TRIAL_FAIL
           else TRIAL_PENDING)"

section \<open>The trial\<close>

text \<open>
  \<open>tr_crumb\<close> is the key \<^verbatim>\<open>trial\<close> of the flash namespace \<^verbatim>\<open>hg\<close>, which the rescue system leaves
  behind. The calls of the update library, of the timer and of the console are outputs.
\<close>

record trial =
  tr_probes :: trial_probes
  tr_expect_link :: u8
  tr_start_ms :: u32
  tr_active :: bool
  tr_crumb :: "u8 option"

datatype trial_call = TrTimerStart u32 | TrTimerStop | TrMarkValid | TrNotify nat string | TrDrainUart | TrRollback

definition trial_boot :: "u8 option \<Rightarrow> trial" where
  "trial_boot crumb = \<lparr>tr_probes = \<lparr>tp_cfg_loaded = 0, tp_drivers_ok = 0, tp_ticks = 0, tp_twdt_ok = 0,
     tp_min_heap_kb = 0, tp_master_frame_seen = 0, tp_confirmed = 0\<rparr>, tr_expect_link = 0, tr_start_ms = 0,
     tr_active = False, tr_crumb = crumb\<rparr>"

text \<open>
  \<open>opens\<close> and \<open>erased\<close>: whether the flash namespace opens, and whether the erasure reaches it.
\<close>

definition trial_take_expect_link :: "bool \<Rightarrow> bool \<Rightarrow> trial \<Rightarrow> trial \<times> u8" where
  "trial_take_expect_link opens erased s =
     (if \<not> opens then (s, 0)
      else (if erased then s\<lparr>tr_crumb := None\<rparr> else s, case tr_crumb s of None \<Rightarrow> 0 | Some v \<Rightarrow> v))"

text \<open>
  The state of the running slot, as the update library reports it: \<open>None\<close> when there is no such
  partition or the query fails.
\<close>

datatype img_state = IMG_NEW | IMG_PENDING_VERIFY | IMG_VALID | IMG_INVALID | IMG_ABORTED | IMG_UNDEFINED

definition ota_trial_running_on_trial :: "img_state option \<Rightarrow> bool" where
  "ota_trial_running_on_trial state \<longleftrightarrow> state = Some IMG_PENDING_VERIFY"

definition ota_trial_start ::
  "img_state option \<Rightarrow> bool \<Rightarrow> bool \<Rightarrow> u32 \<Rightarrow> bool \<Rightarrow> trial \<Rightarrow> trial \<times> trial_call list" where
  "ota_trial_start state opens erased now timer_ok s =
     (if \<not> ota_trial_running_on_trial state then (s, [])
      else
        let s = s\<lparr>tr_probes := \<lparr>tp_cfg_loaded = 1, tp_drivers_ok = 0, tp_ticks = 0, tp_twdt_ok = 1,
                    tp_min_heap_kb = 0, tp_master_frame_seen = 0, tp_confirmed = 0\<rparr>\<rparr>;
            (s, link) = trial_take_expect_link opens erased s;
            s = s\<lparr>tr_expect_link := link, tr_start_ms := now, tr_active := True\<rparr>
        in if \<not> timer_ok then (s\<lparr>tr_active := False\<rparr>, []) else (s, [TrTimerStart 1000000]))"

definition upd_probes :: "(trial_probes \<Rightarrow> trial_probes) \<Rightarrow> trial \<Rightarrow> trial" where
  "upd_probes f s = s\<lparr>tr_probes := f (tr_probes s)\<rparr>"

definition ota_trial_master_frame :: "trial \<Rightarrow> trial" where
  "ota_trial_master_frame s = (if tr_active s then upd_probes (\<lambda>p. p\<lparr>tp_master_frame_seen := 1\<rparr>) s else s)"

definition ota_trial_tick :: "trial \<Rightarrow> trial" where
  "ota_trial_tick s = (if tr_active s then upd_probes (\<lambda>p. p\<lparr>tp_ticks := tp_ticks p + 1\<rparr>) s else s)"

definition ota_trial_drivers_ok :: "trial \<Rightarrow> trial" where
  "ota_trial_drivers_ok s = (if tr_active s then upd_probes (\<lambda>p. p\<lparr>tp_drivers_ok := 1\<rparr>) s else s)"

definition ota_trial_confirm :: "trial \<Rightarrow> trial \<times> int" where
  "ota_trial_confirm s =
     (if \<not> tr_active s then (s, - 1) else (upd_probes (\<lambda>p. p\<lparr>tp_confirmed := 1\<rparr>) s, 0))"

text \<open>\<open>heap\<close> is the smallest free heap so far, in bytes.\<close>

definition trial_timer_cb :: "u32 \<Rightarrow> u32 \<Rightarrow> trial \<Rightarrow> trial \<times> trial_call list" where
  "trial_timer_cb now heap s =
     (if \<not> tr_active s then (s, [])
      else
        let s = upd_probes (\<lambda>p. p\<lparr>tp_min_heap_kb := heap div 1024\<rparr>) s
        in case trial_eval (tr_probes s) (tr_expect_link s) (tr_start_ms s) now of
             TRIAL_PASS \<Rightarrow> (s\<lparr>tr_active := False\<rparr>, [TrTimerStop, TrMarkValid, TrNotify NTF_FW ''TRIAL PASS''])
           | TRIAL_FAIL \<Rightarrow> (s\<lparr>tr_active := False\<rparr>,
               [TrTimerStop, TrNotify NTF_FW ''TRIAL FAIL ROLLBACK'', TrDrainUart, TrRollback])
           | TRIAL_PENDING \<Rightarrow> (s, []))"

datatype trial_ev = TrMasterFrame | TrTick | TrDriversOk | TrConfirm | TrTimer u32 u32

fun trial_step :: "trial \<Rightarrow> trial_ev \<Rightarrow> trial \<times> trial_call list" where
  "trial_step s TrMasterFrame = (ota_trial_master_frame s, [])"
| "trial_step s TrTick = (ota_trial_tick s, [])"
| "trial_step s TrDriversOk = (ota_trial_drivers_ok s, [])"
| "trial_step s TrConfirm = (fst (ota_trial_confirm s), [])"
| "trial_step s (TrTimer now heap) = trial_timer_cb now heap s"

section \<open>The probes are the history\<close>

lemmas trial_defs = ota_trial_master_frame_def ota_trial_tick_def ota_trial_drivers_ok_def ota_trial_confirm_def
  trial_timer_cb_def upd_probes_def

text \<open>What is to be seen of a trial after the events \<open>es\<close>, as long as it has no verdict.\<close>

definition trial_saw :: "trial \<Rightarrow> trial_ev list \<Rightarrow> trial \<Rightarrow> bool" where
  "trial_saw s0 es s \<longleftrightarrow>
     tp_cfg_loaded (tr_probes s) = 1 \<and> tp_twdt_ok (tr_probes s) = 1 \<and>
     tp_drivers_ok (tr_probes s) = (if TrDriversOk \<in> set es then 1 else 0) \<and>
     tp_ticks (tr_probes s) = of_nat (count_list es TrTick) \<and>
     tp_master_frame_seen (tr_probes s) = (if TrMasterFrame \<in> set es then 1 else 0) \<and>
     tp_confirmed (tr_probes s) = (if TrConfirm \<in> set es then 1 else 0) \<and>
     tr_expect_link s = tr_expect_link s0 \<and> tr_start_ms s = tr_start_ms s0"

lemma trial_inactive: "\<not> tr_active s \<Longrightarrow> trial_step s e = (s, [])"
  by (cases e) (simp_all add: trial_defs)

lemma trial_inactive_run: "\<not> tr_active s \<Longrightarrow> run_steps trial_step s es = (s, replicate (length es) [])"
  by (induction es) (simp_all add: prod_eq_iff trial_inactive)

lemma trial_saw_step:
  assumes "trial_saw s0 es s" "tr_active s"
  shows "trial_saw s0 (es @ [e]) (fst (trial_step s e))"
  using assms by (cases e) (auto simp: trial_saw_def trial_defs Let_def split: trial_verdict.split)

lemma trial_active_back: "tr_active (fst (trial_step s e)) \<Longrightarrow> tr_active s"
  using trial_inactive [of s e] by (cases "tr_active s") auto

lemma trial_saw_run:
  assumes "trial_saw s0 [] s0" "tr_active (fst (run_steps trial_step s0 es))"
  shows "trial_saw s0 es (fst (run_steps trial_step s0 es))"
  using assms(2)
proof (induction es rule: rev_induct)
  case (snoc e es)
  then have a: "tr_active (fst (run_steps trial_step s0 es))"
    by (auto simp: run_steps_append dest: trial_active_back)
  show ?case using trial_saw_step [OF snoc.IH [OF a] a, of e] by (simp add: run_steps_append)
qed (simp add: assms(1))

text \<open>The rule of the design document, over the history.\<close>

definition trial_earned :: "trial \<Rightarrow> trial_ev list \<Rightarrow> u32 \<Rightarrow> u32 \<Rightarrow> bool" where
  "trial_earned s0 es now heap \<longleftrightarrow> TrConfirm \<in> set es \<or>
     TrDriversOk \<in> set es \<and> count_list es TrTick mod 65536 \<ge> 50 \<and> heap div 1024 > 40 \<and>
     (if tr_expect_link s0 \<noteq> 0 then TrMasterFrame \<in> set es else now - tr_start_ms s0 \<ge> 60000)"

definition trial_lost :: "trial \<Rightarrow> trial_ev list \<Rightarrow> u32 \<Rightarrow> u32 \<Rightarrow> bool" where
  "trial_lost s0 es now heap \<longleftrightarrow>
     \<not> trial_earned s0 es now heap \<and> tr_expect_link s0 \<noteq> 0 \<and> now - tr_start_ms s0 \<ge> 180000"

lemma ticks_50: "TRIAL_MIN_TICKS \<le> (of_nat n :: u16) \<longleftrightarrow> 50 \<le> n mod 65536"
  by (simp add: TRIAL_MIN_TICKS_def word_le_nat_alt unat_of_nat take_bit_eq_mod)

lemma trial_verdict_is:
  assumes "trial_saw s0 es s"
  shows "trial_eval (tr_probes (upd_probes (\<lambda>p. p\<lparr>tp_min_heap_kb := heap div 1024\<rparr>) s)) (tr_expect_link s) (tr_start_ms s) now =
     (if trial_earned s0 es now heap then TRIAL_PASS else if trial_lost s0 es now heap then TRIAL_FAIL else TRIAL_PENDING)"
  using assms by (auto simp: trial_saw_def trial_eval_def trial_earned_def trial_lost_def upd_probes_def ticks_50
      TRIAL_FLEET_WINDOW_MS_def TRIAL_BENCH_WINDOW_MS_def TRIAL_MIN_HEAP_KB_def Let_def not_le)

lemma trial_timer_is:
  assumes "trial_saw s0 es s" "tr_active s"
  shows "snd (trial_timer_cb now heap s) =
      (if trial_earned s0 es now heap then [TrTimerStop, TrMarkValid, TrNotify NTF_FW ''TRIAL PASS'']
       else if trial_lost s0 es now heap then [TrTimerStop, TrNotify NTF_FW ''TRIAL FAIL ROLLBACK'', TrDrainUart, TrRollback]
       else [])"
    "tr_active (fst (trial_timer_cb now heap s)) =
      (\<not> trial_earned s0 es now heap \<and> \<not> trial_lost s0 es now heap)"
  unfolding trial_timer_cb_def using assms(2) trial_verdict_is [OF assms(1), of heap now]
  by (simp_all add: Let_def upd_probes_def)

lemma trial_start_saw:
  assumes "ota_trial_start (Some IMG_PENDING_VERIFY) opens erased now True s = (s0, out)"
  shows "trial_saw s0 [] s0" "tr_active s0" "tr_start_ms s0 = now" "out = [TrTimerStart 1000000]"
    "tr_expect_link s0 = (if opens then case tr_crumb s of None \<Rightarrow> 0 | Some v \<Rightarrow> v else 0)"
  using assms by (auto simp: ota_trial_start_def ota_trial_running_on_trial_def trial_take_expect_link_def
      trial_saw_def Let_def split: if_splits)

lemma trial_output_active:
  "snd (trial_step s e) \<noteq> [] \<Longrightarrow> tr_active s \<and> \<not> tr_active (fst (trial_step s e)) \<and> (\<exists>now heap. e = TrTimer now heap)"
  by (cases e) (auto simp: trial_defs Let_def split: if_splits trial_verdict.splits)

lemma trial_quiet_active: "tr_active s \<Longrightarrow> snd (trial_step s e) = [] \<Longrightarrow> tr_active (fst (trial_step s e))"
  by (cases e) (auto simp: trial_defs Let_def split: if_splits trial_verdict.splits)

lemma trial_verdicts:
  "length (filter (\<lambda>out. out \<noteq> []) (snd (run_steps trial_step s es))) =
     (if tr_active s \<and> \<not> tr_active (fst (run_steps trial_step s es)) then 1 else 0)"
proof (induction es arbitrary: s)
  case (Cons e es)
  show ?case
  proof (cases "snd (trial_step s e) = []")
    case True
    then show ?thesis using Cons [of "fst (trial_step s e)"] trial_quiet_active [of s e]
        trial_active_back [of s e] by (cases "tr_active s") auto
  next
    case False
    with trial_output_active have a: "tr_active s" "\<not> tr_active (fst (trial_step s e))" by blast+
    then show ?thesis using False by (simp add: trial_inactive_run)
  qed
qed simp

section \<open>Properties\<close>

text \<open>C10. A new image is confirmed at a check exactly when it has earned it: the operator said so, or its drivers came up, its task ran, its heap held, and it heard the master (fleet) or lasted a minute (bench). It is rolled back exactly when it has not earned that three minutes after a start by the fleet. However the run goes on, there is at most one verdict.\<close>

lemma trial_gives_one_earned_verdict:
  assumes "ota_trial_start (Some IMG_PENDING_VERIFY) opens erased t0 True s = (s0, out)"
    "tr_active (fst (run_steps trial_step s0 es))"
  shows "let v = snd (trial_step (fst (run_steps trial_step s0 es)) (TrTimer now heap)) in
    (TrMarkValid \<in> set v \<longleftrightarrow> trial_earned s0 es now heap) \<and>
    (TrRollback \<in> set v \<longleftrightarrow> \<not> trial_earned s0 es now heap \<and> tr_expect_link s0 \<noteq> 0 \<and> now - t0 \<ge> 180000) \<and>
    (\<forall>es'. length (filter (\<lambda>c. c \<noteq> []) (snd (run_steps trial_step s0 (es @ TrTimer now heap # es')))) \<le> 1)"
proof -
  note s = trial_start_saw [OF assms(1)]
  note t = trial_timer_is [OF trial_saw_run [OF s(1) assms(2)] assms(2), of now heap]
  show ?thesis using t(1) s(3) trial_verdicts [of s0] by (auto simp: Let_def trial_lost_def)
qed

lemma trial_gives_one_earned_verdict_witness:
  "TrRollback \<in> set (snd (trial_step (fst (run_steps trial_step
     (fst (ota_trial_start (Some IMG_PENDING_VERIFY) True True 100 True (trial_boot (Some 1)))) [TrTick, TrDriversOk]))
     (TrTimer 180100 90000)))"
proof -
  obtain s0 out where s: "ota_trial_start (Some IMG_PENDING_VERIFY) True True 100 True (trial_boot (Some 1)) = (s0, out)" by force
  note f = trial_start_saw [OF s]
  have l: "tr_expect_link s0 = 1" using f(5) by (simp add: trial_boot_def)
  have a: "tr_active (fst (run_steps trial_step s0 [TrTick, TrDriversOk]))"
    using f(2) by (simp add: ota_trial_tick_def ota_trial_drivers_ok_def upd_probes_def)
  have "\<not> trial_earned s0 [TrTick, TrDriversOk] 180100 90000" by (simp add: trial_earned_def)
  then show ?thesis
    using trial_gives_one_earned_verdict [OF s a, of 180100 90000] l by (simp add: Let_def s del: run_steps_Cons trial_step.simps)
qed

end
