(* ===== verification/Fw_Handover.thy ===== *)
theory Fw_Handover
  imports Ring_Tlm HG_Blob C_Text Fw_Trial
begin

text \<open>
  \<^verbatim>\<open>components/rescue_handover/rescue_handover.c\<close> and \<^verbatim>\<open>rescue_handover_nvs.c\<close>, with the rescue
  system that reads what they write: \<^verbatim>\<open>rescue/main/rescue_pull.c\<close> and the boot sequence of
  \<^verbatim>\<open>rescue/main/app_main.c\<close>. A node that is told to update leaves a record in flash and starts the
  rescue system, which takes the record, fetches the image into the slot that did not ask, and leaves
  a crumb for the trial of the new image. Shown: the record is a codec and a damaged one is refused;
  it is obeyed once; and the rescue system never writes the slot it would fall back to.
\<close>

section \<open>The record\<close>

definition HG_HANDOVER_MAGIC :: u32 where "HG_HANDOVER_MAGIC = 0x48524748"
definition HG_HANDOVER_LEN :: nat where "HG_HANDOVER_LEN = 176"

record hg_handover =
  ho_expect_link :: u8
  ho_ssid :: "u8 list"
  ho_pass :: "u8 list"
  ho_url :: "u8 list"

text \<open>A string copied into a field of \<open>n\<close> zero bytes.\<close>

definition ho_field :: "nat \<Rightarrow> u8 list \<Rightarrow> u8 list" where
  "ho_field n s = cstr s @ replicate (n - length (cstr s)) 0"

definition hg_handover_pack :: "hg_handover \<Rightarrow> u8 list option" where
  "hg_handover_pack h =
     (if strnlen (ho_ssid h) 33 \<ge> 33 \<or> strnlen (ho_pass h) 65 \<ge> 65 \<or> strnlen (ho_url h) 64 \<ge> 64 then None
      else
        let body = le32_put HG_HANDOVER_MAGIC @ [1, ho_expect_link h, 0, 0] @ ho_field 33 (ho_ssid h) @
              ho_field 65 (ho_pass h) @ ho_field 64 (ho_url h) @ [0, 0]
        in Some (body @ le32_put (hg_crc32 0 body)))"

text \<open>\<open>old\<close> is the structure of the caller; \<open>inp\<close> has the 176 bytes of the C declaration.\<close>

definition hg_handover_unpack :: "hg_handover \<Rightarrow> u8 list \<Rightarrow> hg_handover option" where
  "hg_handover_unpack old inp =
     (if le32_at inp 0 \<noteq> HG_HANDOVER_MAGIC then None
      else if inp ! 4 \<noteq> 1 then None
      else if hg_crc32 0 (take 172 inp) \<noteq> le32_at inp 172 then None
      else if 0 \<notin> set (take 33 (drop 8 inp)) \<or> 0 \<notin> set (take 65 (drop 41 inp)) \<or>
              0 \<notin> set (take 64 (drop 106 inp)) then None
      else Some \<lparr>ho_expect_link = inp ! 5, ho_ssid = put_cstr (ho_ssid old) (cstr (drop 8 inp)),
             ho_pass = put_cstr (ho_pass old) (cstr (drop 41 inp)),
             ho_url = put_cstr (ho_url old) (cstr (drop 106 inp))\<rparr>)"

text \<open>What a record says.\<close>

definition handover_view :: "hg_handover \<Rightarrow> u8 \<times> u8 list \<times> u8 list \<times> u8 list" where
  "handover_view h = (ho_expect_link h, cstr (ho_ssid h), cstr (ho_pass h), cstr (ho_url h))"

lemma ho_field_length: "length (cstr s) \<le> n \<Longrightarrow> length (ho_field n s) = n"
  by (simp add: ho_field_def)

lemma cstr_ho_field: "length (cstr s) < n \<Longrightarrow> cstr (ho_field n s @ xs) = cstr s"
proof -
  assume "length (cstr s) < n"
  then obtain k where "n - length (cstr s) = Suc k" by (metis Suc_diff_Suc)
  then have e: "ho_field n s @ xs = cstr s @ 0 # replicate k 0 @ xs" by (simp add: ho_field_def)
  have "takeWhile (\<lambda>c. c \<noteq> 0) (cstr s @ 0 # replicate k 0 @ xs) = cstr s"
    using cstr_no_nul [of s] by (subst takeWhile_append2) auto
  moreover have "cstr (cstr s @ 0 # replicate k 0 @ xs) = takeWhile (\<lambda>c. c \<noteq> 0) (cstr s @ 0 # replicate k 0 @ xs)"
    by (rule cstr_def)
  ultimately show ?thesis unfolding e by simp
qed

lemma zero_ho_field: "length (cstr s) < n \<Longrightarrow> 0 \<in> set (ho_field n s)"
  by (simp add: ho_field_def)

lemma handover_packed:
  assumes "hg_handover_pack h = Some bs"
  obtains body where "length (cstr (ho_ssid h)) < 33" "length (cstr (ho_pass h)) < 65" "length (cstr (ho_url h)) < 64"
    "body = le32_put HG_HANDOVER_MAGIC @ [1, ho_expect_link h, 0, 0] @ ho_field 33 (ho_ssid h) @
       ho_field 65 (ho_pass h) @ ho_field 64 (ho_url h) @ [0, 0]" "length body = 172"
    "bs = body @ le32_put (hg_crc32 0 body)"
proof -
  let ?body = "le32_put HG_HANDOVER_MAGIC @ [1, ho_expect_link h, 0, 0] @ ho_field 33 (ho_ssid h) @
       ho_field 65 (ho_pass h) @ ho_field 64 (ho_url h) @ [0, 0]"
  have s: "strnlen (ho_ssid h) 33 < 33" "strnlen (ho_pass h) 65 < 65" "strnlen (ho_url h) 64 < 64"
    and bs: "bs = ?body @ le32_put (hg_crc32 0 ?body)"
    using assms by (auto simp: hg_handover_pack_def Let_def split: if_splits)
  have l: "length (cstr (ho_ssid h)) < 33" "length (cstr (ho_pass h)) < 65" "length (cstr (ho_url h)) < 64"
    using s by (metis strnlen_less)+
  then have "length ?body = 172" by (simp add: ho_field_length)
  with l bs show thesis using that by blast
qed

lemma handover_fields:
  assumes "hg_handover_pack h = Some bs"
  shows "length bs = 176" "le32_at bs 0 = HG_HANDOVER_MAGIC" "bs ! 4 = 1" "bs ! 5 = ho_expect_link h"
    "hg_crc32 0 (take 172 bs) = le32_at bs 172"
    "0 \<in> set (take 33 (drop 8 bs))" "0 \<in> set (take 65 (drop 41 bs))" "0 \<in> set (take 64 (drop 106 bs))"
    "cstr (drop 8 bs) = cstr (ho_ssid h)" "cstr (drop 41 bs) = cstr (ho_pass h)" "cstr (drop 106 bs) = cstr (ho_url h)"
proof -
  from handover_packed [OF assms] obtain body where l: "length (cstr (ho_ssid h)) < 33" "length (cstr (ho_pass h)) < 65"
    "length (cstr (ho_url h)) < 64"
    and body: "body = le32_put HG_HANDOVER_MAGIC @ [1, ho_expect_link h, 0, 0] @ ho_field 33 (ho_ssid h) @
       ho_field 65 (ho_pass h) @ ho_field 64 (ho_url h) @ [0, 0]"
    and b: "length body = 172" "bs = body @ le32_put (hg_crc32 0 body)" .
  define S where "S = ho_field 33 (ho_ssid h)"
  define P where "P = ho_field 65 (ho_pass h)"
  define U where "U = ho_field 64 (ho_url h)"
  define C where "C = le32_put (hg_crc32 0 body)"
  have len: "length S = 33" "length P = 65" "length U = 64" "length C = 4"
    using l by (simp_all add: S_def P_def U_def C_def ho_field_length)
  have bs: "bs = le32_put HG_HANDOVER_MAGIC @ [1, ho_expect_link h, 0, 0] @ S @ P @ U @ [0, 0] @ C"
    unfolding b(2) C_def [symmetric] by (simp add: body S_def P_def U_def)
  have d: "drop 8 bs = S @ P @ U @ [0, 0] @ C" "drop 41 bs = P @ U @ [0, 0] @ C" "drop 106 bs = U @ [0, 0] @ C"
    by (simp_all add: bs len)
  show "length bs = 176" by (simp add: bs len)
  show "le32_at bs 0 = HG_HANDOVER_MAGIC" "bs ! 4 = 1" "bs ! 5 = ho_expect_link h"
    by (simp_all add: bs le32_at_def le32_put_def le32_round nth_append)
  have "le32_at bs 172 = hg_crc32 0 body"
    by (simp add: b le32_at_def nth_append le32_put_def le32_round)
  then show "hg_crc32 0 (take 172 bs) = le32_at bs 172" by (simp add: b)
  show "0 \<in> set (take 33 (drop 8 bs))" "0 \<in> set (take 65 (drop 41 bs))" "0 \<in> set (take 64 (drop 106 bs))"
    using l by (simp_all add: d len) (simp_all add: S_def P_def U_def zero_ho_field)
  show "cstr (drop 8 bs) = cstr (ho_ssid h)" "cstr (drop 41 bs) = cstr (ho_pass h)" "cstr (drop 106 bs) = cstr (ho_url h)"
    unfolding d S_def P_def U_def using l by (simp_all add: cstr_ho_field)
qed

lemma handover_unpacked:
  assumes "hg_handover_pack h = Some bs"
  shows "hg_handover_unpack old bs = Some \<lparr>ho_expect_link = ho_expect_link h,
    ho_ssid = put_cstr (ho_ssid old) (cstr (ho_ssid h)), ho_pass = put_cstr (ho_pass old) (cstr (ho_pass h)),
    ho_url = put_cstr (ho_url old) (cstr (ho_url h))\<rparr>"
  using handover_fields [OF assms] by (simp add: hg_handover_unpack_def)

interpretation handover: byte_codec hg_handover_pack "hg_handover_unpack old" handover_view
  for old
  by unfold_locales (simp add: handover_unpacked handover_view_def cstr_put_cstr cstr_no_nul)

lemma handover_damage_refused:
  assumes "hg_handover_pack h = Some bs" "i < 176" "x \<noteq> bs ! i"
  shows "hg_handover_unpack old (bs[i := x]) = None"
proof -
  note f = handover_fields [OF assms(1)]
  have "hg_crc32 0 (take 172 (bs[i := x])) \<noteq> le32_at (bs[i := x]) 172"
  proof (cases "i < 172")
    case True
    have "take 172 (bs[i := x]) = (take 172 bs)[i := x]" by (rule take_update_swap)
    moreover have "le32_at (bs[i := x]) 172 = le32_at bs 172" using True by (simp add: le_at_defs)
    moreover have "hg_crc32 0 ((take 172 bs)[i := x]) \<noteq> hg_crc32 0 (take 172 bs)"
      using True f(1) assms(3) by (intro hg_crc32_one_byte) simp_all
    ultimately show ?thesis using f(5) by simp
  next
    case False
    have "le32_at (bs[i := x]) 172 \<noteq> le32_at bs 172"
      using False f(1) assms(2,3) by (intro le32_at_update) simp_all
    with False f(5) show ?thesis by simp
  qed
  then show ?thesis by (simp add: hg_handover_unpack_def)
qed

section \<open>Flash\<close>

text \<open>The keys \<^verbatim>\<open>hando\<close> and \<^verbatim>\<open>trial\<close> of the namespace \<^verbatim>\<open>hg\<close>.\<close>

record hg_nv =
  nv_hando :: "u8 list option"
  nv_trial :: "u8 option"

definition hg_handover_write :: "nvs_result \<Rightarrow> hg_handover \<Rightarrow> hg_nv \<Rightarrow> hg_nv \<times> int" where
  "hg_handover_write r h s =
     (case hg_handover_pack h of
        None \<Rightarrow> (s, - 1)
      | Some buf \<Rightarrow>
          (case r of
             NvsOpenFails \<Rightarrow> (s, - 1)
           | NvsSetFails \<Rightarrow> (s, - 1)
           | NvsCommitFails written \<Rightarrow> (if written then s\<lparr>nv_hando := Some buf\<rparr> else s, - 1)
           | NvsDone \<Rightarrow> (s\<lparr>nv_hando := Some buf\<rparr>, 0)))"

definition hg_trial_write :: "nvs_result \<Rightarrow> u8 \<Rightarrow> hg_nv \<Rightarrow> hg_nv \<times> int" where
  "hg_trial_write r expect_link s =
     (case r of
        NvsOpenFails \<Rightarrow> (s, - 1)
      | NvsSetFails \<Rightarrow> (s, - 1)
      | NvsCommitFails written \<Rightarrow> (if written then s\<lparr>nv_trial := Some expect_link\<rparr> else s, - 1)
      | NvsDone \<Rightarrow> (s\<lparr>nv_trial := Some expect_link\<rparr>, 0))"

text \<open>
  What \<open>hg_handover_take\<close> meets; \<open>TakeCommitFails gone\<close> says whether the erasure reached the flash. A
  stored blob that is longer than the buffer makes \<^verbatim>\<open>nvs_get_blob\<close> fail.
\<close>

datatype take_result = TakeOpenFails | TakeGetFails | TakeEraseFails | TakeCommitFails bool | TakeDone

definition hando_erased :: "take_result \<Rightarrow> hg_nv \<Rightarrow> hg_nv" where
  "hando_erased r s = (if r = TakeDone \<or> r = TakeCommitFails True then s\<lparr>nv_hando := None\<rparr> else s)"

definition hg_handover_take :: "take_result \<Rightarrow> hg_handover \<Rightarrow> hg_nv \<Rightarrow> hg_nv \<times> hg_handover option" where
  "hg_handover_take r old s =
     (if r = TakeOpenFails \<or> r = TakeGetFails then (s, None)
      else case nv_hando s of
        None \<Rightarrow> (s, None)
      | Some buf \<Rightarrow>
          if length buf > HG_HANDOVER_LEN then (s, None)
          else if length buf \<noteq> HG_HANDOVER_LEN then (hando_erased r s, None)
          else case hg_handover_unpack old buf of
            None \<Rightarrow> (hando_erased r s, None)
          | Some h \<Rightarrow> (hando_erased r s, if r = TakeDone then Some h else None))"

section \<open>The rescue system\<close>

datatype slot = Ota0 | Ota1 | OtherPart

text \<open>\<open>boot\<close> is the partition the boot loader would select, \<open>has0\<close> and \<open>has1\<close> the two slots of the table.\<close>

definition rescue_target_slot :: "slot option \<Rightarrow> bool \<Rightarrow> bool \<Rightarrow> slot option" where
  "rescue_target_slot boot has0 has1 =
     (if \<not> has0 \<or> \<not> has1 then None else if boot = Some Ota0 then Some Ota1 else Some Ota0)"

text \<open>
  What a fetch meets: the client, the answer, the size of the slot, the pieces of the body with the
  success of writing each, whether the last read failed, and the calls of the update library.
\<close>

record pull_net =
  pn_client :: bool
  pn_open :: bool
  pn_status :: int
  pn_len :: int
  pn_size :: int
  pn_begin :: bool
  pn_reads :: "(u8 list \<times> bool) list"
  pn_read_failed :: bool
  pn_end :: bool
  pn_set_boot :: bool
  pn_trial :: nvs_result

datatype pull_call = PullSta "u8 list" "u8 list" | PullGet string | PullBegin slot | PullWrite "u8 list" | PullEnd | PullAbort | PullSetBoot slot

text \<open>The loop over the body: the calls, and whether \<open>rc\<close> is still 0 after it.\<close>

fun pull_body :: "(u8 list \<times> bool) list \<Rightarrow> bool \<Rightarrow> pull_call list \<times> bool" where
  "pull_body [] failed = ([], \<not> failed)"
| "pull_body ((bs, ok) # rs) failed =
     (if \<not> ok then ([PullWrite bs], False)
      else let (out, rc) = pull_body rs failed in (PullWrite bs # out, rc))"

definition rescue_pull :: "slot option \<Rightarrow> string \<Rightarrow> u8 \<Rightarrow> pull_net \<Rightarrow> hg_nv \<Rightarrow> hg_nv \<times> pull_call list \<times> int" where
  "rescue_pull dst url expect_link net s =
     (case dst of
        None \<Rightarrow> (s, [], - 1)
      | Some d \<Rightarrow>
          if \<not> pn_client net then (s, [], - 1)
          else if \<not> pn_open net then (s, [PullGet url], - 1)
          else if pn_status net \<noteq> 200 \<or> pn_len net \<le> 0 \<or> pn_len net > pn_size net then (s, [PullGet url], - 1)
          else if \<not> pn_begin net then (s, [PullGet url, PullBegin d], - 1)
          else
            let (body, ok) = pull_body (pn_reads net) (pn_read_failed net);
                out = PullGet url # PullBegin d # body
            in if \<not> ok then (s, out @ [PullAbort], - 1)
               else if \<not> pn_end net then (s, out @ [PullEnd], - 1)
               else if \<not> pn_set_boot net then (s, out @ [PullEnd, PullSetBoot d], - 1)
               else (fst (hg_trial_write (pn_trial net) expect_link s), out @ [PullEnd, PullSetBoot d], 0))"

text \<open>The URL of an order, and the three attempts; the last result says whether the node restarts into the new image.\<close>

definition order_url :: "hg_handover \<Rightarrow> string" where
  "order_url h = map char_of_byte (cstr (ho_url h))"

fun pull_attempts :: "slot option \<Rightarrow> hg_handover \<Rightarrow> (bool \<times> pull_net) list \<Rightarrow> hg_nv \<Rightarrow> hg_nv \<times> pull_call list \<times> bool" where
  "pull_attempts dst h [] s = (s, [], False)"
| "pull_attempts dst h ((wifi, net) # as) s =
     (let sta = PullSta (cstr (ho_ssid h)) (cstr (ho_pass h)) in
      if \<not> wifi then let (s, outs, restarted) = pull_attempts dst h as s in (s, sta # outs, restarted)
      else
        let (s, out, rc) = rescue_pull dst (order_url h) (ho_expect_link h) net s
        in if rc = 0 then (s, sta # out, True)
           else let (s, outs, restarted) = pull_attempts dst h as s in (s, sta # out @ outs, restarted))"

datatype rescue_end = RescueRestart | RescueManual

definition rescue_zero :: hg_handover where
  "rescue_zero = \<lparr>ho_expect_link = 0, ho_ssid = replicate 33 0, ho_pass = replicate 65 0, ho_url = replicate 64 0\<rparr>"

text \<open>\<open>nets\<close> are the outcomes of the attempts, of which the first three count.\<close>

definition rescue_app_main ::
  "take_result \<Rightarrow> hg_handover \<Rightarrow> slot option \<Rightarrow> bool \<Rightarrow> bool \<Rightarrow> (bool \<times> pull_net) list \<Rightarrow> hg_nv \<Rightarrow>
     hg_nv \<times> pull_call list \<times> rescue_end" where
  "rescue_app_main r old boot has0 has1 nets s =
     (case hg_handover_take r old s of
        (s, None) \<Rightarrow> (s, [], RescueManual)
      | (s, Some h) \<Rightarrow>
          let (s, out, restarted) = pull_attempts (rescue_target_slot boot has0 has1) h (take 3 nets) s
          in (s, out, if restarted then RescueRestart else RescueManual))"

section \<open>What the rescue system does\<close>

lemma handover_take_cases:
  assumes "hg_handover_take r old s = (s', Some h)"
  obtains buf where "nv_hando s = Some buf" "length buf = HG_HANDOVER_LEN" "hg_handover_unpack old buf = Some h"
    "r = TakeDone" "s' = s\<lparr>nv_hando := None\<rparr>"
  using assms that
  by (auto simp: hg_handover_take_def hando_erased_def split: if_splits option.splits)

lemma handover_write_take:
  assumes "hg_handover_write NvsDone h s = (s', 0)"
  shows "\<exists>h'. hg_handover_take TakeDone old s' = (s'\<lparr>nv_hando := None\<rparr>, Some h') \<and> handover_view h' = handover_view h"
proof -
  obtain bs where bs: "hg_handover_pack h = Some bs" "s' = s\<lparr>nv_hando := Some bs\<rparr>"
    using assms by (auto simp: hg_handover_write_def split: option.splits)
  obtain h' where "hg_handover_unpack old bs = Some h'" "handover_view h' = handover_view h"
    using handover.parse_pack [OF bs(1), of old] by blast
  then show ?thesis using handover_fields(1) [OF bs(1)]
    by (simp add: hg_handover_take_def hando_erased_def HG_HANDOVER_LEN_def bs(2))
qed

lemma pull_body_calls: "c \<in> set (fst (pull_body rs failed)) \<Longrightarrow> \<exists>bs. c = PullWrite bs"
  by (induction rs) (auto simp: split_def Let_def split: if_splits)

lemma pull_body_done:
  "snd (pull_body rs failed) \<Longrightarrow> fst (pull_body rs failed) = map (PullWrite \<circ> fst) rs \<and> list_all snd rs \<and> \<not> failed"
  by (induction rs) (auto simp: split_def Let_def split: if_splits)

lemma rescue_pull_done:
  assumes "rescue_pull dst url link net s = (s', out, 0)"
  obtains d where "dst = Some d" "pn_status net = 200" "list_all snd (pn_reads net)" "\<not> pn_read_failed net" "pn_end net"
    "s' = fst (hg_trial_write (pn_trial net) link s)"
    "out = [PullGet url, PullBegin d] @ map (PullWrite \<circ> fst) (pn_reads net) @ [PullEnd, PullSetBoot d]"
  using assms that pull_body_done [of "pn_reads net" "pn_read_failed net"]
  by (auto simp: rescue_pull_def split_def Let_def split: option.splits if_splits)

lemma rescue_pull_failed:
  assumes "rescue_pull dst url link net s = (s', out, rc)" "rc \<noteq> 0"
  shows "s' = s" "PullSetBoot d \<in> set out \<Longrightarrow> \<not> pn_set_boot net"
  using assms pull_body_calls
  by (fastforce simp: rescue_pull_def split_def Let_def split: option.splits if_splits)+

text \<open>What an order allows a call to say: the network, the address and the slot.\<close>

fun call_fits :: "slot option \<Rightarrow> hg_handover \<Rightarrow> pull_call \<Rightarrow> bool" where
  "call_fits dst h (PullSta ssid pass) \<longleftrightarrow> ssid = cstr (ho_ssid h) \<and> pass = cstr (ho_pass h)"
| "call_fits dst h (PullGet url) \<longleftrightarrow> url = order_url h"
| "call_fits dst h (PullBegin d) \<longleftrightarrow> dst = Some d"
| "call_fits dst h (PullSetBoot d) \<longleftrightarrow> dst = Some d"
| "call_fits dst h _ \<longleftrightarrow> True"

lemma rescue_pull_fits:
  assumes "rescue_pull dst (order_url h) link net s = (s', out, rc)"
  shows "list_all (call_fits dst h) out"
proof -
  have "list_all (call_fits dst h) (fst (pull_body rs failed))" for rs failed
    using pull_body_calls [of _ rs failed] by (fastforce simp: list_all_iff)
  then show ?thesis using assms
    by (auto simp: rescue_pull_def split_def Let_def split: option.splits if_splits)
qed

lemma pull_attempts_fit: "list_all (call_fits dst h) (fst (snd (pull_attempts dst h as s)))"
proof (induction as arbitrary: s)
  case (Cons a as)
  obtain wifi net where a: "a = (wifi, net)" by force
  obtain s1 o1 rc where p: "rescue_pull dst (order_url h) (ho_expect_link h) net s = (s1, o1, rc)" by (metis prod_cases3)
  show ?case using Cons rescue_pull_fits [OF p] by (simp add: a p split_def Let_def)
qed simp

text \<open>A restart comes after a fetch that went through to its end, and leaves the crumb.\<close>

lemma pull_attempts_restart:
  assumes "pull_attempts dst h as s = (s', out, True)"
  shows "\<exists>net d pre. (True, net) \<in> set as \<and> dst = Some d \<and> list_all snd (pn_reads net) \<and> \<not> pn_read_failed net \<and>
    out = pre @ [PullGet (order_url h), PullBegin d] @ map (PullWrite \<circ> fst) (pn_reads net) @ [PullEnd, PullSetBoot d] \<and>
    s' = fst (hg_trial_write (pn_trial net) (ho_expect_link h) s)"
  using assms
proof (induction as arbitrary: s s' out)
  case (Cons a as)
  obtain wifi net where a: "a = (wifi, net)" by force
  define sta where "sta = PullSta (cstr (ho_ssid h)) (cstr (ho_pass h))"
  obtain s1 o1 rc where p: "rescue_pull dst (order_url h) (ho_expect_link h) net s = (s1, o1, rc)" by (metis prod_cases3)
  show ?case
  proof (cases "wifi \<and> rc = 0")
    case True
    then have s: "s' = s1" "out = sta # o1" using Cons.prems by (simp_all add: a p flip: sta_def)
    from p True obtain d where "dst = Some d" "list_all snd (pn_reads net)" "\<not> pn_read_failed net"
      "s1 = fst (hg_trial_write (pn_trial net) (ho_expect_link h) s)"
      "o1 = [PullGet (order_url h), PullBegin d] @ map (PullWrite \<circ> fst) (pn_reads net) @ [PullEnd, PullSetBoot d]"
      by (auto elim: rescue_pull_done)
    with True show ?thesis by (intro exI [of _ net] exI [of _ d] exI [of _ "[sta]"]) (simp add: a s)
  next
    case False
    define o2 where "o2 = fst (snd (pull_attempts dst h as s))"
    have s1: "wifi \<Longrightarrow> s1 = s" using rescue_pull_failed(1) [OF p] False by blast
    have q: "pull_attempts dst h as s = (s', o2, True)" "\<exists>pre. out = pre @ o2"
      using Cons.prems False s1
      by (cases wifi; auto simp: a p o2_def split_def Let_def prod_eq_iff split: if_splits; metis append_Cons append_Nil)+
    obtain pre where pre: "out = pre @ o2" using q(2) by blast
    from Cons.IH [OF q(1)] obtain net' d pre' where
      "(True, net') \<in> set as" "dst = Some d" "list_all snd (pn_reads net')" "\<not> pn_read_failed net'"
      "o2 = pre' @ [PullGet (order_url h), PullBegin d] @ map (PullWrite \<circ> fst) (pn_reads net') @ [PullEnd, PullSetBoot d]"
      "s' = fst (hg_trial_write (pn_trial net') (ho_expect_link h) s)" by auto
    then show ?thesis by (intro exI [of _ net'] exI [of _ d] exI [of _ "pre @ pre'"]) (simp add: pre)
  qed
qed simp

lemma pull_attempts_hando: "nv_hando (fst (pull_attempts dst h as s)) = nv_hando s"
proof (induction as arbitrary: s)
  case (Cons a as)
  have "nv_hando (fst (rescue_pull dst url link net s)) = nv_hando s" for url link net s
    by (simp add: rescue_pull_def hg_trial_write_def split_def Let_def split: option.split nvs_result.split)
  then show ?case using Cons by (cases a) (simp add: split_def Let_def)
qed simp

lemma rescue_target_other: "rescue_target_slot boot has0 has1 = Some d \<Longrightarrow> boot \<noteq> Some d \<and> d \<noteq> OtherPart"
  by (auto simp: rescue_target_slot_def split: if_splits)

lemma rescue_cases:
  assumes "rescue_app_main r old boot has0 has1 nets s = (s', out, e)"
  obtains (manual) "out = []" "e = RescueManual"
  | (pull) h s1 where "hg_handover_take r old s = (s1, Some h)" "nv_hando s1 = None"
      "pull_attempts (rescue_target_slot boot has0 has1) h (take 3 nets) s1 = (s', out, e = RescueRestart)"
proof -
  obtain s1 x where t: "hg_handover_take r old s = (s1, x)" by force
  show thesis
  proof (cases x)
    case None
    then show thesis using assms t manual by (simp add: rescue_app_main_def)
  next
    case (Some h)
    have "nv_hando s1 = None" by (rule handover_take_cases [OF t [unfolded Some]]) simp
    moreover have "pull_attempts (rescue_target_slot boot has0 has1) h (take 3 nets) s1 = (s', out, e = RescueRestart)"
      using assms t Some by (auto simp: rescue_app_main_def split_def Let_def prod_eq_iff split: if_splits)
    ultimately show thesis using pull t Some by blast
  qed
qed

lemma rescue_without_order: "nv_hando s = None \<Longrightarrow> rescue_app_main r old boot has0 has1 nets s = (s, [], RescueManual)"
  by (simp add: rescue_app_main_def hg_handover_take_def)

text \<open>A call leaves the slot alone that the boot loader would start.\<close>

fun spares :: "slot option \<Rightarrow> pull_call \<Rightarrow> bool" where
  "spares boot (PullBegin d) \<longleftrightarrow> boot \<noteq> Some d"
| "spares boot (PullSetBoot d) \<longleftrightarrow> boot \<noteq> Some d"
| "spares boot _ \<longleftrightarrow> True"

definition sample_order :: hg_handover where
  "sample_order = \<lparr>ho_expect_link = 1, ho_ssid = 65 # replicate 32 0, ho_pass = 66 # replicate 64 0, ho_url = 67 # replicate 63 0\<rparr>"

definition sample_net :: pull_net where
  "sample_net = \<lparr>pn_client = True, pn_open = True, pn_status = 200, pn_len = 2, pn_size = 1000, pn_begin = True,
     pn_reads = [([1], True), ([2], True)], pn_read_failed = False, pn_end = True, pn_set_boot = True, pn_trial = NvsDone\<rparr>"

section \<open>Properties\<close>

text \<open>C11. When the rescue system restarts into a new image, it has erased, written and selected only the slot that the boot loader would not have started, the image was received and written to its end before the slot was selected, and the order is gone: whatever happens, a further start of the rescue system fetches nothing.\<close>

lemma rescue_spares_the_old_image:
  assumes "rescue_app_main r old boot has0 has1 nets s = (s', calls, e)" "e = RescueRestart"
  shows "list_all (spares boot) calls \<and>
    (\<exists>net d pre. (True, net) \<in> set (take 3 nets) \<and> list_all snd (pn_reads net) \<and> \<not> pn_read_failed net \<and> boot \<noteq> Some d \<and>
       calls = pre @ PullBegin d # map (PullWrite \<circ> fst) (pn_reads net) @ [PullEnd, PullSetBoot d]) \<and>
    (\<forall>r' old' boot' nets'. rescue_app_main r' old' boot' has0 has1 nets' s' = (s', [], RescueManual))"
proof -
  obtain h s1 where h: "nv_hando s1 = None"
    "pull_attempts (rescue_target_slot boot has0 has1) h (take 3 nets) s1 = (s', calls, True)"
    by (rule rescue_cases [OF assms(1)]) (use assms(2) in auto)
  have sp: "call_fits (rescue_target_slot boot has0 has1) h c \<Longrightarrow> spares boot c" for c
    by (cases c) (auto dest: rescue_target_other)
  have "list_all (spares boot) calls"
    using pull_attempts_fit [of "rescue_target_slot boot has0 has1" h "take 3 nets" s1] h(2) sp by (simp add: list_all_iff)
  moreover from pull_attempts_restart [OF h(2)] obtain net d pre where
    "(True, net) \<in> set (take 3 nets)" "rescue_target_slot boot has0 has1 = Some d" "list_all snd (pn_reads net)" "\<not> pn_read_failed net"
    "calls = pre @ [PullGet (order_url h), PullBegin d] @ map (PullWrite \<circ> fst) (pn_reads net) @ [PullEnd, PullSetBoot d]"
    by blast
  then have "\<exists>net d pre. (True, net) \<in> set (take 3 nets) \<and> list_all snd (pn_reads net) \<and> \<not> pn_read_failed net \<and> boot \<noteq> Some d \<and>
       calls = pre @ PullBegin d # map (PullWrite \<circ> fst) (pn_reads net) @ [PullEnd, PullSetBoot d]"
    by (intro exI [of _ net] exI [of _ d] exI [of _ "pre @ [PullGet (order_url h)]"]) (auto dest: rescue_target_other)
  moreover have "nv_hando s' = None" using pull_attempts_hando [of "rescue_target_slot boot has0 has1" h "take 3 nets" s1] h by simp
  ultimately show ?thesis using rescue_without_order by blast
qed

lemma rescue_spares_the_old_image_witness:
  "list_all (spares (Some Ota1)) (fst (snd (rescue_app_main TakeDone rescue_zero (Some Ota1) True True [(False, sample_net), (True, sample_net)]
     (fst (hg_handover_write NvsDone sample_order \<lparr>nv_hando = None, nv_trial = None\<rparr>)))))"
proof -
  let ?s = "fst (hg_handover_write NvsDone sample_order \<lparr>nv_hando = None, nv_trial = None\<rparr>)"
  obtain bs where bs: "hg_handover_pack sample_order = Some bs"
    by (simp add: hg_handover_pack_def sample_order_def strnlen_def Let_def)
  have s: "nv_hando ?s = Some bs" by (simp add: hg_handover_write_def bs)
  obtain s' calls e where m: "rescue_app_main TakeDone rescue_zero (Some Ota1) True True [(False, sample_net), (True, sample_net)] ?s = (s', calls, e)"
    by (metis prod_cases3)
  have "e = RescueRestart"
    using arg_cong [OF m, of "\<lambda>x. snd (snd x)"] handover_fields(1) [OF bs]
    by (simp add: rescue_app_main_def hg_handover_take_def s HG_HANDOVER_LEN_def handover_unpacked [OF bs] hando_erased_def
        rescue_pull_def rescue_target_slot_def sample_net_def Let_def hg_trial_write_def split_def)
  from rescue_spares_the_old_image [OF m this] show ?thesis by (simp add: m)
qed

end
