(* ===== verification/Zone_Ring.thy ===== *)
theory Zone_Ring
  imports Zone_Cfg_Rx Fw_Handover Notify
begin

text \<open>
  \<^verbatim>\<open>zone/main/zone_ring.c\<close> and \<^verbatim>\<open>zone_ring_sync.c\<close>, with \<^verbatim>\<open>components/app_version/app_version.c\<close>: the ring
  task of a zone. It executes the commands of the master, follows its clock, takes its id, tells how the
  links are, sends the heartbeats and starts the fetch of new firmware. The task is a machine whose
  steps are a pass of its loop, with the frame it received or without one, and a line that another task
  hands to the ring. Shown: heartbeats keep their distance and are not late; a command is executed once
  and a repetition is answered as the first was; a zone takes only an id that is meant for it;
  the loss of the master is reported once; and an inhibition ages.
\<close>

section \<open>Versions\<close>

text \<open>\<open>v\<close> and \<open>n\<close> are the value and the digits so far; the rest of the text and the value, or a failure.\<close>

fun version_digits :: "string \<Rightarrow> nat \<Rightarrow> nat \<Rightarrow> (nat \<times> string) option" where
  "version_digits [] v n = Some (v, [])"
| "version_digits (c # s) v n =
     (if \<not> is_digit c then Some (v, c # s)
      else let v' = v * 10 + (char_code c - 48)
           in if v' > 255 \<or> n + 1 > 3 then None else version_digits s v' (n + 1))"

definition parse_part :: "string \<Rightarrow> (u8 \<times> string) option" where
  "parse_part s =
     (if s = [] \<or> \<not> is_digit (hd s) then None else map_option (\<lambda>(v, r). (of_nat v, r)) (version_digits s 0 0))"

definition dot_after :: "string \<Rightarrow> string option" where
  "dot_after s = (if s \<noteq> [] \<and> hd s = CHR ''.'' then Some (tl s) else None)"

definition app_version_parse :: "string \<Rightarrow> (u8 \<times> u8 \<times> u8) option" where
  "app_version_parse s =
     Option.bind (parse_part s) (\<lambda>(major, s).
     Option.bind (dot_after s) (\<lambda>s.
     Option.bind (parse_part s) (\<lambda>(minor, s).
     Option.bind (dot_after s) (\<lambda>s.
     Option.bind (parse_part s) (\<lambda>(patch, s).
     if s = [] then Some (major, minor, patch) else None)))))"

fun app_version_cmp :: "u8 \<times> u8 \<times> u8 \<Rightarrow> u8 \<times> u8 \<times> u8 \<Rightarrow> int" where
  "app_version_cmp (a, b, c) (a', b', c') =
     (if a \<noteq> a' then (if a < a' then - 1 else 1)
      else if b \<noteq> b' then (if b < b' then - 1 else 1)
      else if c \<noteq> c' then (if c < c' then - 1 else 1) else 0)"

section \<open>State\<close>

text \<open>
  \<open>zg_rx\<close> holds the configuration part, the cache of the last command, the sequence counter and the stored id.
  \<open>zg_core_zid\<close> and \<open>zg_ntf_id\<close> are the copies of the id in the command core and the notifications.
\<close>

record zring =
  zg_rx :: zone_cfg_rx
  zg_mac :: "u8 list"
  zg_core_zid :: u8
  zg_ntf_id :: u8
  zg_ses_mask :: u16               \<comment> \<open>\<open>s_ring_ses.notify_mask\<close>\<close>
  zg_synced_mask :: u16
  zg_sink :: int
  zg_hb_seq :: u16
  zg_last_hb_ms :: u32
  zg_hb_now :: bool
  zg_reset_reason :: u8
  zg_last_master_ms :: u32
  zg_link_lost :: bool
  zg_ring_size :: u8
  zg_online_mask :: u16
  zg_inhibit_mask :: u8
  zg_inhibit_ms :: u32
  zg_time_synced :: bool
  zg_time_synced_at :: u32
  zg_trial :: trial
  zg_nv :: hg_nv

datatype zr_out = ZrCfg cfg_out | ZrEmit nat string | ZrSetTime u32 | ZrSinkMask int u16 | ZrTrial trial_call
  | ZrDrain | ZrDelay u16 | ZrReboot

definition zg_zid :: "zring \<Rightarrow> u8" where
  "zg_zid z = zr_zid (zg_rx z)"

text \<open>An operation of the configuration part, or of the trial, within the state of the task.\<close>

definition on_rx :: "(zone_cfg_rx \<Rightarrow> zone_cfg_rx \<times> cfg_out list) \<Rightarrow> zring \<Rightarrow> zring \<times> zr_out list" where
  "on_rx g z = (let (r, out) = g (zg_rx z) in (z\<lparr>zg_rx := r\<rparr>, map ZrCfg out))"

definition on_trial :: "(trial \<Rightarrow> trial) \<Rightarrow> zring \<Rightarrow> zring" where
  "on_trial g z = z\<lparr>zg_trial := g (zg_trial z)\<rparr>"

definition ZRING_LINK_MS :: u32 where "ZRING_LINK_MS = 6000"
definition ZRING_HB_PERIOD_MS :: u32 where "ZRING_HB_PERIOD_MS = 2000"
definition ZRING_HB_FLOOR_MS :: u32 where "ZRING_HB_FLOOR_MS = 500"
definition ZRING_NOTIFY_MASK :: u16 where
  "ZRING_NOTIFY_MASK = NTF_MASK NTF_BOOT OR NTF_MASK NTF_ALARM OR NTF_MASK NTF_SAFE OR NTF_MASK NTF_FW OR
     NTF_MASK NTF_NODE OR NTF_MASK NTF_RING"

section \<open>Time, id and links\<close>

definition zring_request_immediate_hb :: "zring \<Rightarrow> zring" where
  "zring_request_immediate_hb z = z\<lparr>zg_hb_now := True\<rparr>"

definition zsync_note_master :: "u32 \<Rightarrow> zring \<Rightarrow> zring" where
  "zsync_note_master now z = z\<lparr>zg_last_master_ms := now\<rparr>"

text \<open>\<open>clock\<close> is what \<open>time\<close> returns, \<open>uptime\<close> what \<open>hg_app_uptime_s\<close> returns.\<close>

definition zsync_time_sync :: "ring_frame \<Rightarrow> u32 \<Rightarrow> int \<Rightarrow> u32 \<Rightarrow> zring \<Rightarrow> zring \<times> zr_out list" where
  "zsync_time_sync f now clock uptime z =
     (case hg_ts_parse (frame_bytes f) of
        None \<Rightarrow> (z, [])
      | Some t \<Rightarrow>
          let valid = ts_flags t AND 1 \<noteq> 0;
              out = (if valid \<and> \<bar>uint (ts_utc t) - clock\<bar> > 2 then [ZrSetTime (ts_utc t)] else []);
              z = (if valid then z\<lparr>zg_time_synced := True, zg_time_synced_at := uptime\<rparr> else z)
          in (z\<lparr>zg_ring_size := ts_ring_size t, zg_online_mask := ts_online_mask t,
                zg_inhibit_mask := ts_inhibit_mask t, zg_inhibit_ms := now\<rparr>, out))"

text \<open>\<open>stored\<close> says whether the id reaches the flash; the handler does not look at the answer.\<close>

definition hg_store_set_zid :: "u8 \<Rightarrow> bool \<Rightarrow> zone_cfg_rx \<Rightarrow> zone_cfg_rx" where
  "hg_store_set_zid zid stored r = (if stored then r\<lparr>zr_zid := zid\<rparr> else r)"

definition zsync_assign_id :: "ring_frame \<Rightarrow> bool \<Rightarrow> zring \<Rightarrow> zring" where
  "zsync_assign_id f stored z =
     (case hg_assign_parse (frame_bytes f) of
        None \<Rightarrow> z
      | Some a \<Rightarrow>
          if as_mac a \<noteq> zg_mac z then z
          else if \<not> (as_zone_id a \<ge> 1 \<and> as_zone_id a \<le> 8 \<or> as_zone_id a = RING_ID_UNASSIGNED) then z
          else if as_zone_id a = zg_zid z then z
          else zring_request_immediate_hb (z\<lparr>zg_rx := hg_store_set_zid (as_zone_id a) stored (zg_rx z),
                 zg_core_zid := as_zone_id a, zg_ntf_id := as_zone_id a\<rparr>))"

definition zsync_link_tick :: "u32 \<Rightarrow> zring \<Rightarrow> zring \<times> zr_out list" where
  "zsync_link_tick now z =
     (let silent = now - zg_last_master_ms z;
          lost = zg_last_master_ms z \<noteq> 0 \<and> silent \<ge> ZRING_LINK_MS
      in if lost \<and> \<not> zg_link_lost z then
           (z\<lparr>zg_link_lost := True\<rparr>,
            [ZrEmit NTF_RING (''W_LINK_LOST master silent '' @ show_dec (unat silent div 1000) @ '' s'')])
         else if \<not> lost \<and> zg_link_lost z then (z\<lparr>zg_link_lost := False\<rparr>, [])
         else (z, []))"

definition zsync_time_quality :: "int \<Rightarrow> zring \<Rightarrow> u8" where
  "zsync_time_quality clock z = (if zg_time_synced z then 2 else if clock > 1577836800 then 1 else 0)"

text \<open>\<open>last_rx\<close> is what \<open>ring_link_last_rx_ms\<close> returns.\<close>

definition zsync_link_flags :: "u32 \<Rightarrow> u8 \<Rightarrow> u32 \<Rightarrow> zring \<Rightarrow> u8" where
  "zsync_link_flags now zid last_rx z =
     (if last_rx \<noteq> 0 \<and> now - last_rx < ZRING_LINK_MS then 1 else 0) OR
     (if zg_last_master_ms z \<noteq> 0 \<and> now - zg_last_master_ms z < ZRING_LINK_MS then 2 else 0) OR
     (if zid \<ge> 1 \<and> zid \<le> 8 \<and> zg_online_mask z AND push_bit (unat zid) 1 \<noteq> 0 then 4 else 0)"

text \<open>Before \<open>zone_ring_start\<close> there is no state and the answer is 0.\<close>

definition zone_ring_inhibit_mask :: "u32 \<Rightarrow> zring option \<Rightarrow> u8" where
  "zone_ring_inhibit_mask now zo =
     (case zo of None \<Rightarrow> 0
      | Some z \<Rightarrow> if zg_inhibit_ms z = 0 \<or> now - zg_inhibit_ms z > 600000 then 0 else zg_inhibit_mask z)"

section \<open>Commands\<close>

text \<open>
  The lines of the reply that an acknowledgement takes: the first one, cut to 125 bytes, and the
  continuation lines behind it that fit as a whole.
\<close>

function ack_lines :: "bool \<Rightarrow> nat \<Rightarrow> u8 list \<Rightarrow> u8 list" where
  "ack_lines first tot p =
     (if p = [] then []
      else
        let body = takeWhile (\<lambda>c. c \<noteq> 10) p;
            nl = length body < length p;
            line = (if nl then body @ [10] else body);
            line' = (if first then take 125 line else line)
        in if \<not> first \<and> \<not> (length line \<ge> 3 \<and> p ! 0 = 32 \<and> p ! 1 = 32) then []
           else if \<not> first \<and> tot + length line > 125 then []
           else line' @ (if nl then ack_lines False (tot + length line') (drop (length line) p) else []))"
  by pat_completeness auto
termination by (relation "measure (\<lambda>(first, tot, p). length p)") auto

declare ack_lines.simps [simp del]

definition build_ack_detail :: "u8 list \<Rightarrow> u8 list" where
  "build_ack_detail resp = ack_lines True 0 resp"

text \<open>
  The command task: it gets the line with the part of the state a command can change (the model, the
  notification mask of the session and the trial), and returns that part, the return code and the reply.
  Lines that a command emits are events of their own. \<open>fin\<close> is the clock after the command.
\<close>

type_synonym cmd_part = "hg_model \<times> u16 \<times> trial"
type_synonym zr_exec = "u8 list \<Rightarrow> cmd_part \<Rightarrow> cmd_part \<times> int \<times> u8 list"

definition run_exec :: "zr_exec \<Rightarrow> u8 list \<Rightarrow> zring \<Rightarrow> zring \<times> int \<times> u8 list" where
  "run_exec exec line z =
     (let ((m, mask, t), rc, resp) = exec line (zr_model (zg_rx z), zg_ses_mask z, zg_trial z)
      in (z\<lparr>zg_rx := (zg_rx z)\<lparr>zr_model := m\<rparr>, zg_ses_mask := mask, zg_trial := t\<rparr>, rc, resp))"

definition sync_mask :: "zring \<Rightarrow> zring \<times> zr_out list" where
  "sync_mask z =
     (if zg_sink z \<ge> 0 \<and> zg_ses_mask z \<noteq> zg_synced_mask z
      then (z\<lparr>zg_synced_mask := zg_ses_mask z\<rparr>, [ZrSinkMask (zg_sink z) (zg_ses_mask z)]) else (z, []))"

definition handle_cmd :: "zr_exec \<Rightarrow> ring_frame \<Rightarrow> u32 \<Rightarrow> u32 \<Rightarrow> zring \<Rightarrow> zring \<times> zr_out list" where
  "handle_cmd exec f now fin z =
     (case zring_dup_begin (zr_dup (zg_rx z)) (h_seq (f_hdr f)) now of
        (_, DupSilent) \<Rightarrow> (z, [])
      | (_, DupReply status detail) \<Rightarrow> on_rx (zring_send_ack (h_src (f_hdr f)) (h_seq (f_hdr f)) status (cstr detail)) z
      | (dup, DupRun) \<Rightarrow>
          let z = z\<lparr>zg_rx := (zg_rx z)\<lparr>zr_dup := dup\<rparr>\<rparr>;
              (z, rc, resp) = run_exec exec (cstr (frame_bytes f)) z;
              (z, synced) = sync_mask z;
              status = (if rc = 0 then 0 else 1);
              detail = build_ack_detail (cstr resp);
              r = zg_rx z;
              z = z\<lparr>zg_rx := r\<lparr>zr_dup := ring_dup_done (zr_dup r) (h_seq (f_hdr f)) status (Some detail) fin\<rparr>\<rparr>;
              (z, acked) = on_rx (zring_send_ack (h_src (f_hdr f)) (h_seq (f_hdr f)) status detail) z
          in (z, synced @ acked))"

section \<open>Firmware\<close>

definition fwu_zero :: hg_fwu where
  "fwu_zero = \<lparr>fw_reboot_delay_ms = 0, fw_ssid = replicate 33 0, fw_pass = replicate 65 0\<rparr>"

definition FLEET_URL :: string where "FLEET_URL = ''http://192.168.7.7/fw/zone.bin''"

definition fleet_handover :: "hg_fwu \<Rightarrow> hg_handover" where
  "fleet_handover fw = \<lparr>ho_expect_link = 1, ho_ssid = fw_ssid fw, ho_pass = fw_pass fw,
     ho_url = put_cstr (replicate 64 0) (bytes_of FLEET_URL)\<rparr>"

text \<open>\<open>r\<close> is what the write of the record meets. The last output does not return.\<close>

definition handle_fw_update :: "ring_frame \<Rightarrow> nvs_result \<Rightarrow> zring \<Rightarrow> zring \<times> zr_out list" where
  "handle_fw_update f r z =
     (case hg_fwu_parse fwu_zero (frame_bytes f) of
        None \<Rightarrow> (z, [])
      | Some fw \<Rightarrow>
          let (nv, rc) = hg_handover_write r (fleet_handover fw) (zg_nv z);
              z = z\<lparr>zg_nv := nv\<rparr>
          in if rc \<noteq> 0 then
               (let (z, out) = on_rx (zring_send_ack (h_src (f_hdr f)) (h_seq (f_hdr f)) 1 (bytes_of ''ERR NVS_WRITE'')) z
                in (z, ZrCfg (OutFlush 2000) # out))
             else
               (let (z, out) = on_rx (zring_send_ack (h_src (f_hdr f)) (h_seq (f_hdr f)) 0 (bytes_of ''OK'')) z;
                    delay = (if fw_reboot_delay_ms fw > 3000 then 3000 else fw_reboot_delay_ms fw)
                in (z, ZrCfg (OutFlush 2000) # out @ [ZrDrain, ZrDelay delay, ZrReboot])))"

section \<open>Heartbeats\<close>

text \<open>What the heartbeat takes from elsewhere: the version, the clocks, the counters of the link and the heap.\<close>

record hb_env =
  he_version :: string
  he_uptime :: u32
  he_clock :: int
  he_last_rx :: u32
  he_ctr :: ring_counters
  he_min_heap :: u32

definition enabled_shelves :: "hg_zone_cfg \<Rightarrow> nat" where
  "enabled_shelves cfg = length (filter (\<lambda>i. cfg ! (cfg_shelf_off i + 16) \<noteq> 0) [0 ..< 4])"

definition build_hb :: "u32 \<Rightarrow> hb_env \<Rightarrow> zring \<Rightarrow> hg_hb" where
  "build_hb now env z =
     (let (maj, min, patch) = (case app_version_parse (he_version env) of None \<Rightarrow> (0, 0, 0) | Some v \<Rightarrow> v);
          m = zr_model (zg_rx z);
          (gen, crc) = hg_model_cfg_info m;
          c = he_ctr env
      in \<lparr>hb_mac = zg_mac z, hb_fw_maj = maj, hb_fw_min = min, hb_fw_patch = patch,
          hb_n_shelves = of_nat (enabled_shelves (m_cfg m)), hb_uptime_s = he_uptime env,
          hb_unix_time = word_of_int (he_clock env), hb_cfg_gen = gen, hb_cfg_crc = crc, hb_hw_crc = hg_model_hw_crc m,
          hb_cfg_src = hg_model_cfg_src m, hb_mode = 0, hb_reset_reason = zg_reset_reason z,
          hb_time_quality = zsync_time_quality (he_clock env) z, hb_active_faults = 0, hb_shelf_faults = replicate 4 0,
          hb_link_flags = zsync_link_flags now (zg_zid z) (he_last_rx env) z, hb_override_mask = 0,
          hb_rx_crc_err = ucast (rx_crc_err c), hb_rx_uart_err = ucast (rx_uart_err c), hb_rx_drop = ucast (rx_drop c),
          hb_fwd_count = ucast (fwd_count c), hb_min_free_heap_kb = ucast (he_min_heap env div 1024),
          hb_shelf = replicate 4 \<lparr>sh_raw_a = 0, sh_raw_b = 0, sh_pct_a = 0, sh_pct_b = 0, sh_white = 0, sh_red = 0,
            sh_out_flags = 0, sh_light_state = 0, sh_water_state = 0, sh_rsvd = 0, sh_pump_today_s = 0\<rparr>\<rparr>)"

definition send_hb :: "u32 \<Rightarrow> hb_env \<Rightarrow> zring \<Rightarrow> zring \<times> zr_out list" where
  "send_hb now env z =
     (let (z, out) = (case hg_hb_pack (build_hb now env z) (62 + 14 * HG_MAX_SHELVES) of
            None \<Rightarrow> (z, [])
          | Some payload \<Rightarrow>
              let seq = zg_hb_seq z + 1
              in (z\<lparr>zg_hb_seq := seq\<rparr>,
                  [ZrCfg (OutSend \<lparr>h_src = zg_zid z, h_dst = RING_ID_MASTER, h_type = RING_T_HEARTBEAT, h_flags = 0,
                     h_ttl = RING_TTL_INIT, h_len = of_nat (length payload), h_seq = seq\<rparr> payload)]))
      in (z\<lparr>zg_last_hb_ms := now, zg_hb_now := False\<rparr>, out))"

definition hb_due :: "u32 \<Rightarrow> zring \<Rightarrow> bool" where
  "hb_due now z \<longleftrightarrow> (let since_hb = now - zg_last_hb_ms z in
     zg_hb_now z \<and> since_hb \<ge> ZRING_HB_FLOOR_MS \<or> since_hb \<ge> ZRING_HB_PERIOD_MS)"

definition ring_notify_sink :: "u8 list \<Rightarrow> zring \<Rightarrow> zring \<times> zr_out list" where
  "ring_notify_sink line = on_rx (zring_send RING_ID_MASTER RING_T_NOTIFY (take RING_MAX_PAYLOAD (cstr line)))"

section \<open>The task\<close>

text \<open>What handling a frame takes from elsewhere, and the clock at two places.\<close>

record frame_env =
  fe_now :: u32
  fe_fin :: u32
  fe_clock :: int
  fe_uptime :: u32
  fe_stored :: bool
  fe_nvs :: nvs_result

definition zone_dispatch :: "zr_exec \<Rightarrow> ring_frame \<Rightarrow> frame_env \<Rightarrow> zring \<Rightarrow> zring \<times> zr_out list" where
  "zone_dispatch exec f e z =
     (let t = h_type (f_hdr f); now = fe_now e in
      if t = RING_T_CMD then handle_cmd exec f now (fe_fin e) z
      else if t = RING_T_TIME_SYNC then zsync_time_sync f now (fe_clock e) (fe_uptime e) z
      else if t = RING_T_ASSIGN_ID then (zsync_assign_id f (fe_stored e) z, [])
      else if t = RING_T_CFG_CHUNK then (z\<lparr>zg_rx := zone_ring_cfg_chunk f now (zg_rx z)\<rparr>, [])
      else if t = RING_T_CFG_COMMIT then on_rx (zone_ring_cfg_commit f now (fe_fin e)) z
      else if t = RING_T_CFG_GET then on_rx (zone_ring_cfg_get f) z
      else if t = RING_T_FW_UPDATE then handle_fw_update f (fe_nvs e) z
      else (z, []))"

definition zone_receive :: "zr_exec \<Rightarrow> ring_frame \<Rightarrow> frame_env \<Rightarrow> zring \<Rightarrow> zring \<times> zr_out list" where
  "zone_receive exec f e z =
     zone_dispatch exec f e
       (if h_src (f_hdr f) = RING_ID_MASTER then zsync_note_master (fe_now e) (on_trial ota_trial_master_frame z) else z)"

text \<open>The rest of a pass, after the reception.\<close>

definition zone_tick :: "u32 \<Rightarrow> hb_env \<Rightarrow> zring \<Rightarrow> zring \<times> zr_out list" where
  "zone_tick now env z =
     (let (z, lost) = zsync_link_tick now (on_trial ota_trial_tick z);
          (z, hb) = (if hb_due now z then send_hb now env z else (z, []))
      in (z, lost @ hb))"

text \<open>
  A pass that received a frame ends early when the node restarts. The other events come from other tasks: a
  line for the ring, the timer of the trial, and an edit of the model.
\<close>

datatype zr_ev = ZrFrame ring_frame frame_env u32 hb_env | ZrIdle u32 hb_env | ZrLine "u8 list" | ZrTimer u32 u32
  | ZrModel hg_model

fun zr_step :: "zr_exec \<Rightarrow> zring \<Rightarrow> zr_ev \<Rightarrow> zring \<times> zr_out list" where
  "zr_step exec z (ZrFrame f e now env) =
     (let (z, out) = zone_receive exec f e z
      in if ZrReboot \<in> set out then (z, out)
         else let (z, rest) = zone_tick now env z in (z, out @ rest))"
| "zr_step exec z (ZrIdle now env) = zone_tick now env z"
| "zr_step exec z (ZrLine line) = ring_notify_sink line z"
| "zr_step exec z (ZrTimer now heap) =
     (let (t, out) = trial_timer_cb now heap (zg_trial z) in (z\<lparr>zg_trial := t\<rparr>, map ZrTrial out))"
| "zr_step exec z (ZrModel m) = (z\<lparr>zg_rx := (zg_rx z)\<lparr>zr_model := m\<rparr>\<rparr>, [])"

text \<open>\<open>zone_ring_start\<close> and the first lines of the task, on what is known at boot.\<close>

definition zone_ring_start :: "int \<Rightarrow> u8 list \<Rightarrow> u8 \<Rightarrow> u8 \<Rightarrow> hg_model \<Rightarrow> trial \<Rightarrow> hg_nv \<Rightarrow> zring" where
  "zone_ring_start sink mac reason zid m t nv =
     \<lparr>zg_rx = \<lparr>zr_casm = ring_casm_init, zr_dup = ring_dup_init, zr_tx_seq = 0, zr_zid = zid, zr_model = m\<rparr>,
      zg_mac = mac, zg_core_zid = zid, zg_ntf_id = zid, zg_ses_mask = ZRING_NOTIFY_MASK, zg_synced_mask = ZRING_NOTIFY_MASK,
      zg_sink = sink, zg_hb_seq = 0, zg_last_hb_ms = 0, zg_hb_now = True, zg_reset_reason = reason, zg_last_master_ms = 0,
      zg_link_lost = False, zg_ring_size = 0, zg_online_mask = 0, zg_inhibit_mask = 0, zg_inhibit_ms = 0,
      zg_time_synced = False, zg_time_synced_at = 0, zg_trial = ota_trial_drivers_ok t, zg_nv = nv\<rparr>"

end
