(* ===== verification/Zone_Life.thy ===== *)
theory Zone_Life
  imports Zone_Ring
begin

text \<open>
  What holds of the ring task of a zone over its runs: the distance of the heartbeats, the one execution of a
  command, the id a zone takes, and the report of a lost master; and the order to fetch new firmware,
  followed from the frame over the flash and the rescue system to the trial of the new image.
\<close>

section \<open>The distance of heartbeats\<close>

fun hb_frame_out :: "zr_out \<Rightarrow> bool" where
  "hb_frame_out (ZrCfg (OutSend h p)) \<longleftrightarrow> h_type h = RING_T_HEARTBEAT"
| "hb_frame_out _ \<longleftrightarrow> False"

fun not_hb :: "cfg_out \<Rightarrow> bool" where
  "not_hb (OutSend h p) \<longleftrightarrow> h_type h \<noteq> RING_T_HEARTBEAT"
| "not_hb (OutFlush t) \<longleftrightarrow> True"

named_theorems quiet \<open>operations that send no heartbeat\<close>

lemma send_not_hb [quiet]: "t \<noteq> RING_T_HEARTBEAT \<Longrightarrow> list_all not_hb (snd (zring_send dst t p r))"
  by (simp add: zring_send_def zring_next_seq_def Let_def)

lemma ack_not_hb [quiet]: "list_all not_hb (snd (zring_send_ack dst s st d r))"
  by (simp add: zring_send_ack_def send_not_hb RING_T_ACK_def RING_T_HEARTBEAT_def split: option.split)

lemma reply_not_hb [quiet]:
  "list_all not_hb (snd (commit_reply f fin st d r))" "list_all not_hb (snd (commit_fail f fin d r))"
  "list_all not_hb (snd (commit_ok f fin applied r))"
  by (simp_all add: commit_fail_def commit_ok_def commit_reply_def Let_def split_def ack_not_hb)

lemma finish_not_hb [quiet]: "list_all not_hb (snd (commit_finish f fin dec r))"
  by (cases dec) (simp_all add: commit_finish_def reply_not_hb split: sum.split)

lemma begin_not_hb [quiet]: "snd (commit_begin f now r) = Inl out \<Longrightarrow> list_all not_hb out"
  using ack_not_hb [of "h_src (f_hdr f)" "h_seq (f_hdr f)"]
  by (auto simp: commit_begin_def Let_def split_def split: if_splits dup_action.splits prod.splits)

lemma commit_not_hb [quiet]: "list_all not_hb (snd (zone_ring_cfg_commit f now fin r))"
  using begin_not_hb [of f now r]
  by (cases "commit_begin f now r") (auto simp: zone_ring_cfg_commit_def finish_not_hb split: sum.splits)

lemma chunks_not_hb [quiet]: "list_all not_hb (snd (send_chunks dst kind gen wire is r))"
  by (induction "is" arbitrary: r)
    (auto simp: split_def Let_def send_not_hb RING_T_CFG_CHUNK_def RING_T_HEARTBEAT_def split: option.split)

lemma get_not_hb [quiet]: "list_all not_hb (snd (zone_ring_cfg_get f r))"
  by (simp add: zone_ring_cfg_get_def Let_def split_def ack_not_hb chunks_not_hb split: option.split)

lemma on_rx_quiet:
  assumes "list_all not_hb (snd (g (zg_rx z)))"
  shows "\<not> (\<exists>x \<in> set (snd (on_rx g z)). hb_frame_out x)"
proof -
  have "\<not> hb_frame_out (ZrCfg c)" if "not_hb c" for c using that by (cases c) auto
  then show ?thesis using assms by (auto simp: on_rx_def split_def Let_def list_all_iff)
qed

text \<open>The fields that pace the heartbeats.\<close>

definition pace :: "zring \<Rightarrow> u32 \<times> u16" where
  "pace z = (zg_last_hb_ms z, zg_hb_seq z)"

lemma on_rx_pace [simp]: "pace (fst (on_rx g z)) = pace z"
  by (simp add: on_rx_def split_def Let_def pace_def)

lemma run_exec_pace: "pace (fst (run_exec exec line z)) = pace z"
  by (simp add: run_exec_def split_def Let_def pace_def)

lemma sync_mask_pace: "pace (fst (sync_mask z)) = pace z" "\<not> (\<exists>x \<in> set (snd (sync_mask z)). hb_frame_out x)"
  by (simp_all add: sync_mask_def pace_def)

lemma pace_upd [simp]: "pace (z\<lparr>zg_rx := r\<rparr>) = pace z" "pace (z\<lparr>zg_nv := nv\<rparr>) = pace z" "pace (z\<lparr>zg_trial := t\<rparr>) = pace z"
  by (simp_all add: pace_def)

lemma handle_cmd_quiet:
  "pace (fst (handle_cmd exec f now fin z)) = pace z \<and> \<not> (\<exists>x \<in> set (snd (handle_cmd exec f now fin z)). hb_frame_out x)"
proof -
  have on_rx_ack: "\<not> (\<exists>x \<in> set (snd (on_rx (zring_send_ack d s st dt) z)). hb_frame_out x)" for d s st dt z
    by (rule on_rx_quiet) (rule ack_not_hb)
  obtain dup act where b: "zring_dup_begin (zr_dup (zg_rx z)) (h_seq (f_hdr f)) now = (dup, act)" by force
  show ?thesis
  proof (cases act)
    case DupRun
    let ?z = "z\<lparr>zg_rx := (zg_rx z)\<lparr>zr_dup := dup\<rparr>\<rparr>"
    obtain z1 rc resp where e: "run_exec exec (cstr (frame_bytes f)) ?z = (z1, rc, resp)"
      by (cases "run_exec exec (cstr (frame_bytes f)) ?z") auto
    obtain z2 o2 where s: "sync_mask z1 = (z2, o2)" by force
    have p: "pace z2 = pace z" "\<not> (\<exists>x \<in> set o2. hb_frame_out x)"
      using run_exec_pace [of exec "cstr (frame_bytes f)" ?z] sync_mask_pace [of z1] by (simp_all add: e s)
    show ?thesis using p on_rx_ack by (auto simp: handle_cmd_def b DupRun e s Let_def split_def)
  next
    case DupSilent
    then show ?thesis by (simp add: handle_cmd_def b)
  next
    case (DupReply st dt)
    then show ?thesis using on_rx_ack by (simp add: handle_cmd_def b)
  qed
qed

lemma fw_update_quiet:
  "pace (fst (handle_fw_update f r z)) = pace z \<and> \<not> (\<exists>x \<in> set (snd (handle_fw_update f r z)). hb_frame_out x)"
proof -
  have on_rx_ack: "\<not> (\<exists>x \<in> set (snd (on_rx (zring_send_ack d s st dt) z)). hb_frame_out x)" for d s st dt z
    by (rule on_rx_quiet) (rule ack_not_hb)
  show ?thesis using on_rx_ack by (simp add: handle_fw_update_def Let_def split_def split: option.split)
qed

lemma receive_quiet:
  "pace (fst (zone_receive exec f e z)) = pace z \<and> \<not> (\<exists>x \<in> set (snd (zone_receive exec f e z)). hb_frame_out x)"
proof -
  define z0 where "z0 = (if h_src (f_hdr f) = RING_ID_MASTER then zsync_note_master (fe_now e) (on_trial ota_trial_master_frame z) else z)"
  have "pace z0 = pace z" by (simp add: z0_def zsync_note_master_def on_trial_def pace_def)
  moreover have "pace (fst (zsync_time_sync f a b c z0)) = pace z0" "\<not> (\<exists>x \<in> set (snd (zsync_time_sync f a b c z0)). hb_frame_out x)" for a b c
    by (simp_all add: zsync_time_sync_def Let_def pace_def split: option.split)
  moreover have "pace (zsync_assign_id f b z0) = pace z0" for b
    by (simp add: zsync_assign_id_def zring_request_immediate_hb_def pace_def split: option.split)
  ultimately show ?thesis
    using handle_cmd_quiet [of exec f "fe_now e" "fe_fin e" z0] fw_update_quiet [of f "fe_nvs e" z0]
      on_rx_quiet [where g = "zone_ring_cfg_commit f (fe_now e) (fe_fin e)", OF commit_not_hb, of z0]
      on_rx_quiet [where g = "zone_ring_cfg_get f", OF get_not_hb, of z0]
    by (simp add: zone_receive_def zone_dispatch_def Let_def flip: z0_def)
qed

lemma shelves_le: "enabled_shelves cfg \<le> 4"
  unfolding enabled_shelves_def by (rule order_trans [OF length_filter_le]) simp

lemma build_hb_packs: "\<exists>p. hg_hb_pack (build_hb now env z) (62 + 14 * HG_MAX_SHELVES) = Some p"
proof -
  have n: "hb_n_shelves (build_hb now env z) = of_nat (enabled_shelves (m_cfg (zr_model (zg_rx z))))"
    by (simp add: build_hb_def Let_def split_def)
  have "unat (of_nat (enabled_shelves c) :: u8) = enabled_shelves c" for c
    using shelves_le [of c] by (simp add: unat_of_nat_u8)
  then show ?thesis using shelves_le [of "m_cfg (zr_model (zg_rx z))"]
    by (simp add: hg_hb_pack_def n Let_def word_less_nat_alt HG_MAX_SHELVES_def)
qed

lemma send_hb_facts:
  "zg_last_hb_ms (fst (send_hb now env z)) = now" "\<not> zg_hb_now (fst (send_hb now env z))"
  "zg_hb_seq (fst (send_hb now env z)) = zg_hb_seq z + 1"
  "\<exists>p. hg_hb_pack (build_hb now env z) (62 + 14 * HG_MAX_SHELVES) = Some p \<and>
     snd (send_hb now env z) = [ZrCfg (OutSend \<lparr>h_src = zg_zid z, h_dst = RING_ID_MASTER, h_type = RING_T_HEARTBEAT,
       h_flags = 0, h_ttl = RING_TTL_INIT, h_len = of_nat (length p), h_seq = zg_hb_seq z + 1\<rparr> p)]"
proof -
  obtain p where p: "hg_hb_pack (build_hb now env z) (62 + 14 * HG_MAX_SHELVES) = Some p" using build_hb_packs by blast
  show "zg_last_hb_ms (fst (send_hb now env z)) = now" "\<not> zg_hb_now (fst (send_hb now env z))"
    "zg_hb_seq (fst (send_hb now env z)) = zg_hb_seq z + 1"
    "\<exists>p. hg_hb_pack (build_hb now env z) (62 + 14 * HG_MAX_SHELVES) = Some p \<and>
     snd (send_hb now env z) = [ZrCfg (OutSend \<lparr>h_src = zg_zid z, h_dst = RING_ID_MASTER, h_type = RING_T_HEARTBEAT,
       h_flags = 0, h_ttl = RING_TTL_INIT, h_len = of_nat (length p), h_seq = zg_hb_seq z + 1\<rparr> p)]"
    by (simp_all add: send_hb_def p Let_def)
qed

lemma link_tick_keeps:
  "pace (fst (zsync_link_tick now z)) = pace z" "zg_hb_now (fst (zsync_link_tick now z)) = zg_hb_now z"
  "\<not> (\<exists>x \<in> set (snd (zsync_link_tick now z)). hb_frame_out x)"
  by (simp_all add: zsync_link_tick_def Let_def pace_def)

text \<open>The numbers of the heartbeats among the outputs of a pass.\<close>

fun hb_number :: "zr_out \<Rightarrow> u16 option" where
  "hb_number (ZrCfg (OutSend h p)) = (if h_type h = RING_T_HEARTBEAT then Some (h_seq h) else None)"
| "hb_number _ = None"

abbreviation hb_numbers :: "zr_out list \<Rightarrow> u16 list" where
  "hb_numbers \<equiv> List.map_filter hb_number"

lemma hb_number_None: "hb_number x = None \<longleftrightarrow> \<not> hb_frame_out x"
  by (cases x rule: hb_number.cases) simp_all

lemma hb_numbers_quiet: "\<not> (\<exists>x \<in> set out. hb_frame_out x) \<Longrightarrow> hb_numbers out = []"
  by (induction out) (simp_all add: map_filter_simps hb_number_None [symmetric])

lemma hb_numbers_append: "hb_numbers (xs @ ys) = hb_numbers xs @ hb_numbers ys"
  by (simp add: List.map_filter_def)

lemma tick_cases:
  obtains (fired) "now - zg_last_hb_ms z \<ge> 500" "zg_last_hb_ms (fst (zone_tick now env z)) = now"
      "hb_numbers (snd (zone_tick now env z)) = [zg_hb_seq z + 1]" "zg_hb_seq (fst (zone_tick now env z)) = zg_hb_seq z + 1"
  | (waited) "now - zg_last_hb_ms z < 2000" "pace (fst (zone_tick now env z)) = pace z"
      "\<not> (\<exists>x \<in> set (snd (zone_tick now env z)). hb_frame_out x)"
proof -
  define z1 where "z1 = fst (zsync_link_tick now (on_trial ota_trial_tick z))"
  have z1: "pace z1 = pace z" using link_tick_keeps(1) [of now "on_trial ota_trial_tick z"] by (simp add: z1_def on_trial_def)
  then have l: "zg_last_hb_ms z1 = zg_last_hb_ms z" "zg_hb_seq z1 = zg_hb_seq z" by (simp_all add: pace_def)
  have t: "zone_tick now env z = (let (z2, hb) = (if hb_due now z1 then send_hb now env z1 else (z1, [])) in
      (z2, snd (zsync_link_tick now (on_trial ota_trial_tick z)) @ hb))"
    by (simp add: zone_tick_def z1_def split_def Let_def)
  show thesis
  proof (cases "hb_due now z1")
    case True
    then have "now - zg_last_hb_ms z \<ge> 500 \<or> now - zg_last_hb_ms z \<ge> 2000"
      by (auto simp: hb_due_def Let_def l ZRING_HB_FLOOR_MS_def ZRING_HB_PERIOD_MS_def)
    then have "now - zg_last_hb_ms z \<ge> 500" by (auto intro: order_trans [of 500 2000])
    moreover have "hb_numbers (snd (send_hb now env z1)) = [zg_hb_seq z + 1]"
      using send_hb_facts(4) [of now env z1] by (auto simp: l map_filter_simps)
    ultimately show thesis
      using True fired send_hb_facts(1,3) [of now env z1] hb_numbers_quiet [OF link_tick_keeps(3) [of now "on_trial ota_trial_tick z"]]
      by (simp add: t split_def Let_def l hb_numbers_append)
  next
    case False
    then have "now - zg_last_hb_ms z < 2000" by (simp add: hb_due_def Let_def l ZRING_HB_PERIOD_MS_def not_le)
    with False show thesis using waited z1 link_tick_keeps(3) [of now "on_trial ota_trial_tick z"] by (simp add: t)
  qed
qed

text \<open>The heartbeats of a run, each with its time and number, and the distance of neighbours.\<close>

fun pass_time :: "zr_ev \<Rightarrow> u32" where
  "pass_time (ZrFrame f e now env) = now"
| "pass_time (ZrIdle now env) = now"
| "pass_time _ = 0"

fun hb_log :: "zr_ev list \<Rightarrow> zr_out list list \<Rightarrow> (u32 \<times> u16) list" where
  "hb_log (e # es) (out # outs) = map (Pair (pass_time e)) (hb_numbers out) @ hb_log es outs"
| "hb_log _ _ = []"

fun far_apart :: "u32 \<Rightarrow> u32 list \<Rightarrow> bool" where
  "far_apart t0 [] \<longleftrightarrow> True"
| "far_apart t0 (t # ts) \<longleftrightarrow> t - t0 \<ge> 500 \<and> far_apart t ts"

fun consecutive :: "u16 \<Rightarrow> u16 list \<Rightarrow> bool" where
  "consecutive n [] \<longleftrightarrow> True"
| "consecutive n (m # ms) \<longleftrightarrow> m = n + 1 \<and> consecutive m ms"

lemma step_hb_cases:
  obtains (sent) "pass_time e - zg_last_hb_ms z \<ge> 500" "zg_last_hb_ms (fst (zr_step exec z e)) = pass_time e"
      "hb_numbers (snd (zr_step exec z e)) = [zg_hb_seq z + 1]" "zg_hb_seq (fst (zr_step exec z e)) = zg_hb_seq z + 1"
  | (quiet) "pace (fst (zr_step exec z e)) = pace z" "hb_numbers (snd (zr_step exec z e)) = []"
proof (cases e)
  case (ZrFrame f fe now env)
  obtain z1 o1 where r: "zone_receive exec f fe z = (z1, o1)" by force
  have q: "pace z1 = pace z" "\<not> (\<exists>x \<in> set o1. hb_frame_out x)" using receive_quiet [of exec f fe z] by (simp_all add: r)
  then have l: "zg_last_hb_ms z1 = zg_last_hb_ms z" "zg_hb_seq z1 = zg_hb_seq z" by (simp_all add: pace_def)
  show thesis
  proof (cases "ZrReboot \<in> set o1")
    case True
    then show thesis using quiet q by (simp add: ZrFrame r hb_numbers_quiet)
  next
    case False
    then have s: "zr_step exec z (ZrFrame f fe now env) = (fst (zone_tick now env z1), o1 @ snd (zone_tick now env z1))"
      by (simp add: r split_def Let_def)
    show thesis
    proof (cases rule: tick_cases [where now = now and z = z1 and env = env])
      case fired
      show thesis by (rule sent) (use fired hb_numbers_quiet [OF q(2)] in \<open>simp_all add: s l ZrFrame hb_numbers_append del: zr_step.simps\<close>)
    next
      case waited
      show thesis by (rule quiet) (use waited q in \<open>simp_all add: ZrFrame s hb_numbers_append hb_numbers_quiet del: zr_step.simps\<close>)
    qed
  qed
next
  case (ZrIdle now env)
  show thesis
  proof (cases rule: tick_cases [where now = now and z = z and env = env])
    case fired
    show thesis by (rule sent) (use fired in \<open>simp_all add: ZrIdle\<close>)
  next
    case waited
    show thesis by (rule quiet) (use waited in \<open>simp_all add: ZrIdle hb_numbers_quiet\<close>)
  qed
next
  case (ZrLine line)
  have n: "\<not> (\<exists>x \<in> set (snd (ring_notify_sink line z)). hb_frame_out x)" unfolding ring_notify_sink_def
    by (rule on_rx_quiet) (simp add: send_not_hb RING_T_NOTIFY_def RING_T_HEARTBEAT_def)
  have p: "pace (fst (ring_notify_sink line z)) = pace z" by (simp add: ring_notify_sink_def)
  show thesis by (rule quiet) (use n p in \<open>simp_all add: ZrLine hb_numbers_quiet\<close>)
next
  case (ZrTimer now heap)
  show thesis by (rule quiet) (simp_all add: ZrTimer split_def Let_def hb_numbers_quiet)
next
  case (ZrModel m)
  show thesis by (rule quiet) (simp_all add: ZrModel hb_numbers_quiet)
qed

lemma hb_run:
  "let (z', outs) = run_steps (zr_step exec) z es; log = hb_log es outs in
     far_apart (zg_last_hb_ms z) (map fst log) \<and>
     consecutive (zg_hb_seq z) (map snd log) \<and>
     pace z' = (last (zg_last_hb_ms z # map fst log), last (zg_hb_seq z # map snd log))"
proof (induction es arbitrary: z)
  case Nil
  then show ?case by (simp add: pace_def)
next
  case (Cons e es)
  define z1 where "z1 = fst (zr_step exec z e)"
  note ih = Cons [of z1, unfolded Let_def split_def, simplified]
  show ?case
  proof (cases rule: step_hb_cases [where e = e and z = z and exec = exec])
    case sent
    then show ?thesis using ih
      by (simp add: split_def Let_def comp_def flip: z1_def)
  next
    case quiet
    then have "zg_last_hb_ms z1 = zg_last_hb_ms z" "zg_hb_seq z1 = zg_hb_seq z" by (simp_all add: pace_def z1_def)
    with quiet show ?thesis using ih by (simp add: split_def Let_def flip: z1_def)
  qed
qed

lemma tick_not_late: "now - zg_last_hb_ms (fst (zone_tick now env z)) < 2000"
proof (cases rule: tick_cases [where now = now and z = z and env = env])
  case fired
  then show ?thesis by simp
next
  case waited
  then show ?thesis by (simp add: pace_def)
qed

lemma hb_not_late:
  "now - zg_last_hb_ms (fst (zr_step exec z (ZrIdle now env))) < 2000"
  "ZrReboot \<in> set (snd (zr_step exec z (ZrFrame f fe now env))) \<or>
     now - zg_last_hb_ms (fst (zr_step exec z (ZrFrame f fe now env))) < 2000"
  using tick_not_late [of now env] by (auto simp: split_def Let_def)

section \<open>The id a zone takes\<close>

lemma send_zid [simp]: "zr_zid (fst (zring_send dst t p r)) = zr_zid r" "zr_dup (fst (zring_send dst t p r)) = zr_dup r"
  "zr_model (fst (zring_send dst t p r)) = zr_model r" "zr_casm (fst (zring_send dst t p r)) = zr_casm r"
  by (simp_all add: zring_send_def zring_next_seq_def Let_def)

lemma ack_zid [simp]: "zr_zid (fst (zring_send_ack dst s st d r)) = zr_zid r"
  by (simp add: zring_send_ack_def split: option.split)

lemma chunks_zid [simp]: "zr_zid (fst (send_chunks dst kind gen wire is r)) = zr_zid r"
  by (induction "is" arbitrary: r) (simp_all add: split_def Let_def split: option.split)

lemma get_zid [simp]: "zr_zid (fst (zone_ring_cfg_get f r)) = zr_zid r"
  by (simp add: zone_ring_cfg_get_def Let_def split_def split: option.split)

lemma reply_zid [simp]:
  "zr_zid (fst (commit_reply f fin st d r)) = zr_zid r" "zr_zid (fst (commit_fail f fin d r)) = zr_zid r"
  "zr_zid (fst (commit_ok f fin applied r)) = zr_zid r"
  by (simp_all add: commit_fail_def commit_ok_def commit_reply_def Let_def split_def)

lemma commit_zid [simp]: "zr_zid (fst (zone_ring_cfg_commit f now fin r)) = zr_zid r"
proof -
  have b: "zr_zid (fst (commit_begin f now r)) = zr_zid r"
    by (simp add: commit_begin_def Let_def split_def split: dup_action.split)
  have "zr_zid (fst (commit_finish f fin dec r)) = zr_zid r" for dec r
    by (cases dec) (simp_all add: commit_finish_def split: sum.split)
  with b show ?thesis
    by (cases "commit_begin f now r") (auto simp: zone_ring_cfg_commit_def split: sum.splits)
qed

text \<open>The three copies of the id, with the address of the board.\<close>

definition ids :: "zring \<Rightarrow> u8 list \<times> u8 \<times> u8 \<times> u8" where
  "ids z = (zg_mac z, zg_zid z, zg_core_zid z, zg_ntf_id z)"

lemma on_rx_ids: "(\<And>r. zr_zid (fst (g r)) = zr_zid r) \<Longrightarrow> ids (fst (on_rx g z)) = ids z"
  by (simp add: on_rx_def split_def Let_def ids_def zg_zid_def)

lemma run_exec_ids: "ids (fst (run_exec exec line z)) = ids z"
  by (simp add: run_exec_def split_def Let_def ids_def zg_zid_def)

lemma handle_cmd_ids: "ids (fst (handle_cmd exec f now fin z)) = ids z"
proof -
  have a: "ids (fst (on_rx (zring_send_ack d s st dt) z)) = ids z" for d s st dt z by (rule on_rx_ids) simp
  have u: "ids (z\<lparr>zg_rx := (zg_rx z)\<lparr>zr_dup := dup\<rparr>\<rparr>) = ids z" for z dup by (simp add: ids_def zg_zid_def)
  have m: "ids (fst (sync_mask z)) = ids z" for z by (simp add: sync_mask_def ids_def zg_zid_def)
  obtain dup act where b: "zring_dup_begin (zr_dup (zg_rx z)) (h_seq (f_hdr f)) now = (dup, act)" by force
  show ?thesis
    by (cases act) (simp_all add: handle_cmd_def b Let_def split_def a u m run_exec_ids)
qed

lemma fw_update_ids: "ids (fst (handle_fw_update f r z)) = ids z"
proof -
  have a: "ids (fst (on_rx (zring_send_ack d s st dt) z)) = ids z" for d s st dt z by (rule on_rx_ids) simp
  have u: "ids (z\<lparr>zg_nv := nv\<rparr>) = ids z" for nv by (simp add: ids_def zg_zid_def)
  show ?thesis by (simp add: handle_fw_update_def Let_def split_def a u split: option.split)
qed

text \<open>The id that a frame gives the board with the address \<open>mac\<close>.\<close>

definition gives_id :: "u8 list \<Rightarrow> ring_frame \<Rightarrow> u8 option" where
  "gives_id mac f =
     (if h_type (f_hdr f) \<noteq> RING_T_ASSIGN_ID then None
      else case hg_assign_parse (frame_bytes f) of
        None \<Rightarrow> None
      | Some a \<Rightarrow> if as_mac a = mac \<and> (as_zone_id a \<ge> 1 \<and> as_zone_id a \<le> 8 \<or> as_zone_id a = RING_ID_UNASSIGNED)
                  then Some (as_zone_id a) else None)"

lemma receive_ids:
  "ids (fst (zone_receive exec f e z)) =
     (case gives_id (zg_mac z) f of
        None \<Rightarrow> ids z
      | Some i \<Rightarrow> if i = zg_zid z then ids z else (zg_mac z, if fe_stored e then i else zg_zid z, i, i))"
proof -
  define z0 where "z0 = (if h_src (f_hdr f) = RING_ID_MASTER then zsync_note_master (fe_now e) (on_trial ota_trial_master_frame z) else z)"
  have z0: "ids z0 = ids z" "zg_mac z0 = zg_mac z" "zg_zid z0 = zg_zid z"
    by (simp_all add: z0_def zsync_note_master_def on_trial_def ids_def zg_zid_def)
  have t: "ids (fst (zsync_time_sync f a b c z0)) = ids z0" for a b c
    by (simp add: zsync_time_sync_def Let_def ids_def zg_zid_def split: option.split)
  have a: "ids (zsync_assign_id f st z0) = (case hg_assign_parse (frame_bytes f) of None \<Rightarrow> ids z0
      | Some a \<Rightarrow> if as_mac a = zg_mac z \<and> (as_zone_id a \<ge> 1 \<and> as_zone_id a \<le> 8 \<or> as_zone_id a = RING_ID_UNASSIGNED) \<and>
            as_zone_id a \<noteq> zg_zid z
          then (zg_mac z, if st then as_zone_id a else zg_zid z, as_zone_id a, as_zone_id a) else ids z0)" for st
    using z0 by (auto simp: zsync_assign_id_def zring_request_immediate_hb_def hg_store_set_zid_def ids_def zg_zid_def split: option.split)
  have x: "ids (fst (on_rx (zone_ring_cfg_commit f n1 n2) z0)) = ids z0" "ids (fst (on_rx (zone_ring_cfg_get f) z0)) = ids z0" for n1 n2
    by (rule on_rx_ids, simp)+
  have c: "ids (z0\<lparr>zg_rx := zone_ring_cfg_chunk f n (zg_rx z0)\<rparr>) = ids z0" for n
    by (simp add: ids_def zg_zid_def zone_ring_cfg_chunk_def)
  show ?thesis
    unfolding zone_receive_def z0_def [symmetric] zone_dispatch_def Let_def gives_id_def
    using z0 a [of "fe_stored e"]
    by (auto simp: t x c handle_cmd_ids fw_update_ids RING_T_ASSIGN_ID_def RING_T_TIME_SYNC_def RING_T_CMD_def
        split: option.splits if_splits)
qed

lemma tick_ids: "ids (fst (zone_tick now env z)) = ids z"
proof -
  have "ids (fst (zsync_link_tick now z)) = ids z" for z by (simp add: zsync_link_tick_def Let_def ids_def zg_zid_def)
  moreover have "ids (fst (send_hb now env z)) = ids z" for z
    by (simp add: send_hb_def Let_def split_def ids_def zg_zid_def split: option.split)
  moreover have "ids (on_trial g z) = ids z" for g by (simp add: on_trial_def ids_def zg_zid_def)
  ultimately show ?thesis by (simp add: zone_tick_def split_def Let_def)
qed

lemma step_ids:
  "ids (fst (zr_step exec z e)) =
     (case e of
        ZrFrame f fe now env \<Rightarrow>
          (case gives_id (zg_mac z) f of
             None \<Rightarrow> ids z
           | Some i \<Rightarrow> if i = zg_zid z then ids z else (zg_mac z, if fe_stored fe then i else zg_zid z, i, i))
      | _ \<Rightarrow> ids z)"
proof (cases e)
  case (ZrFrame f fe now env)
  then show ?thesis by (simp add: split_def Let_def tick_ids receive_ids)
next
  case (ZrLine line)
  have "ids (fst (ring_notify_sink line z)) = ids z" unfolding ring_notify_sink_def by (rule on_rx_ids) simp
  with ZrLine show ?thesis by simp
next
  case (ZrIdle now env)
  then show ?thesis by (simp add: tick_ids)
qed (simp_all add: split_def Let_def ids_def zg_zid_def)

lemma gives_id_legal: "gives_id mac f = Some i \<Longrightarrow> i \<ge> 1 \<and> i \<le> 8 \<or> i = RING_ID_UNASSIGNED"
  by (auto simp: gives_id_def split: if_splits option.splits)

text \<open>A frame is in a run with an id for the board.\<close>

definition was_given :: "u8 list \<Rightarrow> zr_ev list \<Rightarrow> u8 \<Rightarrow> bool" where
  "was_given mac es i \<longleftrightarrow> (\<exists>f fe now env. ZrFrame f fe now env \<in> set es \<and> gives_id mac f = Some i)"

fun id_stored :: "zr_ev \<Rightarrow> bool" where
  "id_stored (ZrFrame f fe now env) \<longleftrightarrow> fe_stored fe"
| "id_stored _ \<longleftrightarrow> True"

lemma was_given_Cons:
  "was_given mac es i \<Longrightarrow> was_given mac (e # es) i"
  "gives_id mac f = Some i \<Longrightarrow> was_given mac (ZrFrame f fe now env # es) i"
  unfolding was_given_def by auto

lemma run_ids:
  "zg_mac (fst (run_steps (zr_step exec) z es)) = zg_mac z \<and>
   (zg_zid (fst (run_steps (zr_step exec) z es)) = zg_zid z \<or>
     was_given (zg_mac z) es (zg_zid (fst (run_steps (zr_step exec) z es))))"
proof (induction es arbitrary: z)
  case (Cons e es)
  let ?z = "fst (zr_step exec z e)"
  have s: "zg_mac ?z = zg_mac z" "zg_zid ?z = zg_zid z \<or> was_given (zg_mac z) (e # es) (zg_zid ?z)"
    using step_ids [of exec z e] was_given_Cons(2)
    by (auto simp: ids_def split: zr_ev.splits option.splits if_splits)
  then show ?case using Cons [of ?z] was_given_Cons(1) [of "zg_mac z" es] by auto
qed simp

lemma run_copies:
  assumes "zg_core_zid z = zg_zid z" "zg_ntf_id z = zg_zid z" "list_all id_stored es"
  shows "zg_core_zid (fst (run_steps (zr_step exec) z es)) = zg_zid (fst (run_steps (zr_step exec) z es)) \<and>
    zg_ntf_id (fst (run_steps (zr_step exec) z es)) = zg_zid (fst (run_steps (zr_step exec) z es))"
  using assms
proof (induction es arbitrary: z)
  case (Cons e es)
  let ?z = "fst (zr_step exec z e)"
  have "zg_core_zid ?z = zg_zid ?z" "zg_ntf_id ?z = zg_zid ?z"
    using Cons.prems step_ids [of exec z e]
    by (auto simp: ids_def split: zr_ev.splits option.splits if_splits)
  with Cons show ?case by simp
qed simp

text \<open>An assignment of the id the zone already has changes nothing and asks for no heartbeat.\<close>

lemma assign_again: "zsync_assign_id f stored z = z" if "gives_id (zg_mac z) f = Some (zg_zid z)"
  using that by (auto simp: gives_id_def zsync_assign_id_def split: if_splits option.splits)

section \<open>A command runs once\<close>

lemma ack_lines_cases:
  obtains (stop) "ack_lines first tot p = []"
  | (more) line line' nl where "p \<noteq> []" "line \<noteq> []" "set line \<subseteq> insert 10 (set p)"
      "line' = (if first then take 125 line else line)" "first \<or> tot + length line \<le> 125"
      "ack_lines first tot p = line' @ (if nl then ack_lines False (tot + length line') (drop (length line) p) else [])"
proof -
  define body where "body = takeWhile (\<lambda>c. c \<noteq> 10) p"
  define nl where "nl = (length body < length p)"
  define line where "line = (if nl then body @ [10] else body)"
  define line' where "line' = (if first then take 125 line else line)"
  have u: "ack_lines first tot p =
     (if p = [] then []
      else if \<not> first \<and> \<not> (length line \<ge> 3 \<and> p ! 0 = 32 \<and> p ! 1 = 32) then []
      else if \<not> first \<and> tot + length line > 125 then []
      else line' @ (if nl then ack_lines False (tot + length line') (drop (length line) p) else []))"
    by (subst ack_lines.simps) (simp only: Let_def body_def nl_def line_def line'_def)
  have "p \<noteq> [] \<Longrightarrow> line \<noteq> []" by (cases p) (auto simp: line_def nl_def body_def)
  moreover have "set line \<subseteq> insert 10 (set p)" by (auto simp: line_def body_def dest: set_takeWhileD)
  ultimately show thesis using stop more [of line line' nl] u line'_def by (fastforce simp: not_less split: if_splits)
qed

lemma ack_lines_no_nul: "0 \<notin> set p \<Longrightarrow> 0 \<notin> set (ack_lines first tot p)"
proof (induction "length p" arbitrary: first tot p rule: less_induct)
  case less
  show ?case
  proof (cases rule: ack_lines_cases [where first = first and tot = tot and p = p])
    case (more line line' nl)
    have "length (drop (length line) p) < length p" using more(1,2) by (cases p) auto
    moreover have "0 \<notin> set (drop (length line) p)" using less.prems by (auto dest: in_set_dropD)
    ultimately have "0 \<notin> set (ack_lines False (tot + length line') (drop (length line) p))" by (rule less.hyps)
    moreover have "0 \<notin> set line'" using more(3,4) less.prems by (auto dest: in_set_takeD split: if_splits)
    ultimately show ?thesis unfolding more(6) by simp
  qed simp
qed

lemma ack_lines_len: "tot \<le> 125 \<Longrightarrow> (first \<Longrightarrow> tot = 0) \<Longrightarrow> tot + length (ack_lines first tot p) \<le> 125"
proof (induction "length p" arbitrary: first tot p rule: less_induct)
  case less
  show ?case
  proof (cases rule: ack_lines_cases [where first = first and tot = tot and p = p])
    case (more line line' nl)
    have d: "length (drop (length line) p) < length p" using more(1,2) by (cases p) auto
    have l: "tot + length line' \<le> 125" using more(4,5) less.prems by auto
    have "tot + length line' + length (ack_lines False (tot + length line') (drop (length line) p)) \<le> 125"
      by (rule less.hyps [OF d l]) simp
    with l show ?thesis unfolding more(6) by simp
  qed (simp add: less.prems)
qed

lemma ack_detail_fits: "length (build_ack_detail p) \<le> 125" "0 \<notin> set p \<Longrightarrow> 0 \<notin> set (build_ack_detail p)"
  using ack_lines_len [of 0 True p] ack_lines_no_nul [of p True 0] by (simp_all add: build_ack_detail_def)

lemma cstr_id: "0 \<notin> set s \<Longrightarrow> cstr s = s"
  unfolding cstr_def by (rule takeWhile_eq_all_conv [THEN iffD2]) auto

text \<open>What the execution of a command leaves, and its acknowledgement.\<close>

lemma sync_mask_rx: "zg_rx (fst (sync_mask z)) = zg_rx z" "\<And>c. ZrCfg c \<notin> set (snd (sync_mask z))"
  by (simp_all add: sync_mask_def)

fun ack_out :: "zr_out \<Rightarrow> (u8 \<times> u16 \<times> u8 \<times> u8 list) option" where
  "ack_out (ZrCfg c) = ack_seen c"
| "ack_out _ = None"

definition acks :: "zr_out list \<Rightarrow> (u8 \<times> u16 \<times> u8 \<times> u8 list) list" where
  "acks out = List.map_filter ack_out out"

lemma acks_append: "acks (xs @ ys) = acks xs @ acks ys"
  by (simp add: acks_def List.map_filter_def)

lemma acks_on_rx: "acks (snd (on_rx (zring_send_ack d s st dt) z)) = [(d, s, st, dt)]" if "length dt \<le> 125"
proof -
  have "map ack_seen (snd (zring_send_ack d s st dt (zg_rx z))) = [Some (d, s, st, dt)]" using send_ack_seen(2) [OF that] .
  then obtain c where "snd (zring_send_ack d s st dt (zg_rx z)) = [c]" "ack_seen c = Some (d, s, st, dt)" by auto
  then show ?thesis by (simp add: acks_def on_rx_def split_def Let_def List.map_filter_def)
qed

lemma acks_sync: "acks (snd (sync_mask z)) = []"
  by (simp add: sync_mask_def acks_def List.map_filter_def)

lemma handle_cmd_runs:
  assumes "ring_dup_check (zr_dup (zg_rx z)) (h_seq (f_hdr f)) now = DUP_EXEC"
    "run_exec exec (cstr (frame_bytes f))
       (z\<lparr>zg_rx := (zg_rx z)\<lparr>zr_dup := ring_dup_start (zr_dup (zg_rx z)) (h_seq (f_hdr f)) now\<rparr>\<rparr>) = (z1, rc, resp)"
  defines "st \<equiv> if rc = 0 then 0 else 1" and "d \<equiv> build_ack_detail (cstr resp)"
  shows "acks (snd (handle_cmd exec f now fin z)) = [(h_src (f_hdr f), h_seq (f_hdr f), st, d)]"
    "zr_dup (zg_rx (fst (handle_cmd exec f now fin z))) = \<lparr>dup_seq = h_seq (f_hdr f), dup_state = RING_DUP_REPLAY,
       dup_status = st, dup_t_ms = fin, dup_detail = d\<rparr>"
proof -
  have b: "zring_dup_begin (zr_dup (zg_rx z)) (h_seq (f_hdr f)) now =
      (ring_dup_start (zr_dup (zg_rx z)) (h_seq (f_hdr f)) now, DupRun)"
    by (simp add: zring_dup_begin_def assms(1))
  have d: "length d \<le> 125" "take 125 d = d" using ack_detail_fits(1) [of "cstr resp"] by (simp_all add: d_def)
  have dup: "zr_dup (zg_rx z1) = ring_dup_start (zr_dup (zg_rx z)) (h_seq (f_hdr f)) now"
    using arg_cong [OF assms(2), of "\<lambda>x. zr_dup (zg_rx (fst x))"] by (simp add: run_exec_def split_def Let_def)
  show "acks (snd (handle_cmd exec f now fin z)) = [(h_src (f_hdr f), h_seq (f_hdr f), st, d)]"
    using d(1) by (simp add: handle_cmd_def b assms(2) Let_def split_def acks_append acks_sync acks_on_rx st_def
        flip: d_def)
  have a: "zr_dup (fst (zring_send_ack x y v d r)) = zr_dup r" for x y v r
    using send_ack_seen(1) [OF d(1)] by simp
  have r: "ring_dup_done (ring_dup_start c q now) q v (Some d) fin = \<lparr>dup_seq = q, dup_state = RING_DUP_REPLAY,
      dup_status = v, dup_t_ms = fin, dup_detail = d\<rparr>" for c q v
    by (simp add: ring_dup_defs d(2))
  show "zr_dup (zg_rx (fst (handle_cmd exec f now fin z))) = \<lparr>dup_seq = h_seq (f_hdr f), dup_state = RING_DUP_REPLAY,
       dup_status = st, dup_t_ms = fin, dup_detail = d\<rparr>"
    by (simp add: handle_cmd_def b assms(2) Let_def split_def on_rx_def sync_mask_rx dup a r st_def flip: d_def)
qed

text \<open>A repetition within three seconds of the completion.\<close>

lemma handle_cmd_replays:
  assumes "zr_dup (zg_rx z) = \<lparr>dup_seq = h_seq (f_hdr f), dup_state = RING_DUP_REPLAY, dup_status = st, dup_t_ms = fin,
      dup_detail = d\<rparr>" "now - fin \<le> 3000" "length d \<le> 125" "0 \<notin> set d"
  shows "acks (snd (handle_cmd exec f now fin' z)) = [(h_src (f_hdr f), h_seq (f_hdr f), st, d)]"
    "fst (handle_cmd exec f now fin' z) = z\<lparr>zg_rx := (zg_rx z)\<lparr>zr_tx_seq := zr_tx_seq (zg_rx z) + 1\<rparr>\<rparr>"
proof -
  have b: "zring_dup_begin (zr_dup (zg_rx z)) (h_seq (f_hdr f)) now = (zr_dup (zg_rx z), DupReply st d)"
    by (simp add: zring_dup_begin_def ring_dup_check_def assms(1,2) RING_DUP_REPLAY_def RING_DUP_ABSORB_def)
  show "acks (snd (handle_cmd exec f now fin' z)) = [(h_src (f_hdr f), h_seq (f_hdr f), st, d)]"
    using acks_on_rx [OF assms(3)] by (simp add: handle_cmd_def b cstr_id [OF assms(4)])
  show "fst (handle_cmd exec f now fin' z) = z\<lparr>zg_rx := (zg_rx z)\<lparr>zr_tx_seq := zr_tx_seq (zg_rx z) + 1\<rparr>\<rparr>"
    using send_ack_seen(1) [OF assms(3)] by (simp add: handle_cmd_def b cstr_id [OF assms(4)] on_rx_def split_def Let_def)
qed

section \<open>From the order to the trial\<close>

text \<open>The report of a lost master.\<close>

fun lost_line :: "zr_out \<Rightarrow> bool" where
  "lost_line (ZrEmit t l) \<longleftrightarrow> t = NTF_RING \<and> take 11 l = ''W_LINK_LOST''"
| "lost_line _ \<longleftrightarrow> False"

lemma image_order_frame:
  assumes "hg_fwu_pack fw cap = Some bs"
  obtains fw' where "hg_fwu_parse fwu_zero bs = Some fw'" "fw_reboot_delay_ms fw' = fw_reboot_delay_ms fw"
    "cstr (fw_ssid fw') = cstr (fw_ssid fw)" "cstr (fw_pass fw') = cstr (fw_pass fw)"
    "length (cstr (fw_ssid fw')) < 33" "length (cstr (fw_pass fw')) < 65"
proof -
  obtain fw' where p: "hg_fwu_parse fwu_zero bs = Some fw'" "fwu_view fw' = fwu_view fw"
    using fwu.parse_pack [OF assms, of fwu_zero] by blast
  have s: "strnlen (fw_ssid fw) 33 < 33" "strnlen (fw_pass fw) 65 < 65"
    using assms by (auto simp: hg_fwu_pack_def Let_def split: if_splits)
  then have "length (cstr (fw_ssid fw)) < 33" "length (cstr (fw_pass fw)) < 65" by (metis strnlen_less)+
  with p show thesis using that by (simp add: fwu_view_def)
qed

lemma fleet_url: "length (bytes_of FLEET_URL) = 30" "0 \<notin> set (bytes_of FLEET_URL)"
  by (simp_all add: FLEET_URL_def bytes_of_def byte_of_def char_code_def)

lemma strnlen_cstr: "length (cstr s) < n \<Longrightarrow> strnlen s n = length (cstr s)"
proof (induction n arbitrary: s)
  case (Suc n)
  then show ?case by (cases s) (auto simp: strnlen_def cstr_def split: if_splits)
qed simp

lemma fleet_handover_packs:
  assumes "length (cstr (fw_ssid fw)) < 33" "length (cstr (fw_pass fw)) < 65"
  shows "\<exists>bs. hg_handover_pack (fleet_handover fw) = Some bs"
proof -
  have u: "cstr (ho_url (fleet_handover fw)) = bytes_of FLEET_URL"
    unfolding fleet_handover_def by (simp add: cstr_put_cstr [OF fleet_url(2)])
  have "strnlen (ho_url (fleet_handover fw)) 64 < 64" using fleet_url(1) by (simp add: strnlen_cstr u)
  moreover have "ho_ssid (fleet_handover fw) = fw_ssid fw" "ho_pass (fleet_handover fw) = fw_pass fw"
    by (simp_all add: fleet_handover_def)
  ultimately show ?thesis using assms by (simp add: hg_handover_pack_def strnlen_cstr Let_def)
qed

lemma fw_update_receive:
  assumes "h_type (f_hdr f) = RING_T_FW_UPDATE" "hg_fwu_parse fwu_zero (frame_bytes f) = Some fw" "fe_nvs e = NvsDone"
    "hg_handover_pack (fleet_handover fw) = Some bs"
  shows "nv_hando (zg_nv (fst (zone_receive exec f e z))) = Some bs"
    "acks (snd (zone_receive exec f e z)) = [(h_src (f_hdr f), h_seq (f_hdr f), 0, bytes_of ''OK'')]"
    "\<exists>pre. snd (zone_receive exec f e z) = ZrCfg (OutFlush 2000) # pre @ [ZrDrain, ZrDelay (min 3000 (fw_reboot_delay_ms fw)), ZrReboot]"
proof -
  define z0 where "z0 = (if h_src (f_hdr f) = RING_ID_MASTER then zsync_note_master (fe_now e) (on_trial ota_trial_master_frame z) else z)"
  have d: "zone_receive exec f e z = handle_fw_update f (fe_nvs e) z0"
    by (simp add: zone_receive_def zone_dispatch_def Let_def assms(1) RING_T_FW_UPDATE_def RING_T_CMD_def RING_T_TIME_SYNC_def
        RING_T_ASSIGN_ID_def RING_T_CFG_CHUNK_def RING_T_CFG_COMMIT_def RING_T_CFG_GET_def flip: z0_def)
  have w: "hg_handover_write NvsDone (fleet_handover fw) (zg_nv z0) = ((zg_nv z0)\<lparr>nv_hando := Some bs\<rparr>, 0)"
    by (simp add: hg_handover_write_def assms(4))
  define z1 where "z1 = z0\<lparr>zg_nv := (zg_nv z0)\<lparr>nv_hando := Some bs\<rparr>\<rparr>"
  define a where "a = on_rx (zring_send_ack (h_src (f_hdr f)) (h_seq (f_hdr f)) 0 (bytes_of ''OK'')) z1"
  have h: "handle_fw_update f (fe_nvs e) z0 =
      (fst a, ZrCfg (OutFlush 2000) # snd a @ [ZrDrain, ZrDelay (min 3000 (fw_reboot_delay_ms fw)), ZrReboot])"
    using assms(3)
    by (auto simp: handle_fw_update_def assms(2) w Let_def split_def min_def not_le simp flip: z1_def a_def)
  have "zg_nv (fst a) = zg_nv z1" by (simp add: a_def on_rx_def split_def Let_def)
  then show "nv_hando (zg_nv (fst (zone_receive exec f e z))) = Some bs" by (simp add: d h z1_def)
  have "length (bytes_of ''OK'') \<le> 125" by simp
  then have "acks (snd a) = [(h_src (f_hdr f), h_seq (f_hdr f), 0, bytes_of ''OK'')]" unfolding a_def by (rule acks_on_rx)
  then show "acks (snd (zone_receive exec f e z)) = [(h_src (f_hdr f), h_seq (f_hdr f), 0, bytes_of ''OK'')]"
    by (simp add: d h acks_def List.map_filter_def)
  show "\<exists>pre. snd (zone_receive exec f e z) = ZrCfg (OutFlush 2000) # pre @ [ZrDrain, ZrDelay (min 3000 (fw_reboot_delay_ms fw)), ZrReboot]"
    by (simp add: d h)
qed

section \<open>Samples\<close>

definition no_exec :: zr_exec where "no_exec line p = (p, 0, bytes_of ''OK'')"
definition some_mac :: "u8 list" where "some_mac = [2, 0, 0, 0, 0, 7]"

definition boot_zone :: zring where
  "boot_zone = zone_ring_start 0 some_mac 1 RING_ID_UNASSIGNED hg_model_init (trial_boot None) \<lparr>nv_hando = None, nv_trial = None\<rparr>"

definition quiet_env :: hb_env where
  "quiet_env = \<lparr>he_version = ''1.2.3'', he_uptime = 9, he_clock = 0, he_last_rx = 0,
     he_ctr = \<lparr>rx_crc_err = 0, rx_uart_err = 0, rx_drop = 0, fwd_count = 0, tx_count = 0, drop_self = 0\<rparr>, he_min_heap = 90000\<rparr>"

definition frame_to :: "u8 \<Rightarrow> u8 list \<Rightarrow> ring_frame" where
  "frame_to t p = \<lparr>f_hdr = \<lparr>h_src = 0, h_dst = RING_ID_UNASSIGNED, h_type = t, h_flags = 0, h_ttl = 9,
     h_len = of_nat (length p), h_seq = 7\<rparr>, f_payload = p\<rparr>"

definition good_fe :: frame_env where
  "good_fe = \<lparr>fe_now = 5000, fe_fin = 5010, fe_clock = 0, fe_uptime = 5, fe_stored = True, fe_nvs = NvsDone\<rparr>"

definition some_fwu :: hg_fwu where
  "some_fwu = \<lparr>fw_reboot_delay_ms = 100, fw_ssid = put_cstr (replicate 33 0) (bytes_of ''Hill''),
     fw_pass = put_cstr (replicate 65 0) (bytes_of ''secret'')\<rparr>"

lemma some_order:
  "\<exists>p. hg_fwu_pack some_fwu 99 = Some p \<and> frame_bytes (frame_to RING_T_FW_UPDATE p) = p"
proof -
  have c: "cstr (fw_ssid some_fwu) = bytes_of ''Hill''" "cstr (fw_pass some_fwu) = bytes_of ''secret''"
    unfolding some_fwu_def by (simp_all add: cstr_put_cstr bytes_of_def byte_of_def char_code_def)
  then have "strnlen (fw_ssid some_fwu) 33 = 4" "strnlen (fw_pass some_fwu) 65 = 6"
    using strnlen_cstr [of "fw_ssid some_fwu" 33] strnlen_cstr [of "fw_pass some_fwu" 65] by simp_all
  moreover have "length (fw_ssid some_fwu) = 33" "length (fw_pass some_fwu) = 65"
    by (simp_all add: some_fwu_def length_put_cstr)
  ultimately show ?thesis
    by (simp add: hg_fwu_pack_def Let_def frame_bytes_def frame_to_def)
qed

text \<open>What an order allows a call of the rescue system to say, from the fields of the order alone: the network
  and its password, the image of the zones at the address of the master, and a slot that the boot loader would not start.\<close>

fun order_allows :: "u8 list \<Rightarrow> u8 list \<Rightarrow> slot option \<Rightarrow> pull_call \<Rightarrow> bool" where
  "order_allows ssid pass boot (PullSta s p) \<longleftrightarrow> s = ssid \<and> p = pass"
| "order_allows ssid pass boot (PullGet url) \<longleftrightarrow> url = ''http://192.168.7.7/fw/zone.bin''"
| "order_allows ssid pass boot (PullBegin d) \<longleftrightarrow> d \<in> {Ota0, Ota1} \<and> boot \<noteq> Some d"
| "order_allows ssid pass boot (PullSetBoot d) \<longleftrightarrow> d \<in> {Ota0, Ota1} \<and> boot \<noteq> Some d"
| "order_allows ssid pass boot _ \<longleftrightarrow> True"

lemma order_allowed:
  assumes "cstr (ho_ssid h) = ssid" "cstr (ho_pass h) = pass" "order_url h = ''http://192.168.7.7/fw/zone.bin''"
    "call_fits (rescue_target_slot boot has0 has1) h c"
  shows "order_allows ssid pass boot c"
proof -
  have "d \<in> {Ota0, Ota1} \<and> boot \<noteq> Some d" if "rescue_target_slot boot has0 has1 = Some d" for d
    using that by (auto simp: rescue_target_slot_def split: if_splits)
  with assms show ?thesis by (cases c) auto
qed

lemma handover_order:
  assumes "hg_handover_pack (fleet_handover fw) = Some bs" "hg_handover_unpack old bs = Some h"
  shows "ho_expect_link h = 1" "cstr (ho_ssid h) = cstr (fw_ssid fw)" "cstr (ho_pass h) = cstr (fw_pass fw)"
    "order_url h = ''http://192.168.7.7/fw/zone.bin''"
proof -
  have u: "cstr (ho_url (fleet_handover fw)) = bytes_of FLEET_URL"
    unfolding fleet_handover_def by (simp add: cstr_put_cstr [OF fleet_url(2)])
  show v: "ho_expect_link h = 1" "cstr (ho_ssid h) = cstr (fw_ssid fw)" "cstr (ho_pass h) = cstr (fw_pass fw)"
    using assms(2) handover_unpacked [OF assms(1), of old] by (auto simp: cstr_put_cstr cstr_no_nul fleet_handover_def)
  have "cstr (ho_url h) = bytes_of FLEET_URL"
    using assms(2) handover_unpacked [OF assms(1), of old] u by (auto simp: cstr_put_cstr [OF fleet_url(2)])
  then show "order_url h = ''http://192.168.7.7/fw/zone.bin''" by (simp add: order_url_def FLEET_URL_def)
qed

section \<open>Properties\<close>

text \<open>While no frame of the master arrives, the passes of the task report the loss exactly once, at the first pass six seconds after the last frame.\<close>

lemma master_loss_is_reported_once:
  assumes "zg_last_master_ms z \<noteq> 0" "sorted (map (\<lambda>(now, env). unat (now - zg_last_master_ms z)) ps)"
    "zg_link_lost z \<Longrightarrow> list_all (\<lambda>(now, env). now - zg_last_master_ms z \<ge> 6000) ps"
  shows "length (filter lost_line (concat (snd (run_steps (\<lambda>z (now, env). zone_tick now env z) z ps)))) =
    (if \<not> zg_link_lost z \<and> list_ex (\<lambda>(now, env). now - zg_last_master_ms z \<ge> 6000) ps then 1 else 0)"
  using assms
proof (induction ps arbitrary: z)
  case (Cons p ps)
  obtain now env where p: "p = (now, env)" by force
  let ?z = "fst (zone_tick now env z)" and ?late = "now - zg_last_master_ms z \<ge> 6000"
  have m: "zg_last_master_ms ?z = zg_last_master_ms z"
    by (simp add: zone_tick_def split_def Let_def zsync_link_tick_def send_hb_def on_trial_def split: option.split)
  have l: "zg_link_lost ?z = ?late"
    using Cons.prems(1)
    by (auto simp: zone_tick_def split_def Let_def zsync_link_tick_def send_hb_def on_trial_def ZRING_LINK_MS_def split: option.split)
  have o: "length (filter lost_line (snd (zone_tick now env z))) = (if ?late \<and> \<not> zg_link_lost z then 1 else 0)"
    using Cons.prems(1)
    by (auto simp: zone_tick_def split_def Let_def zsync_link_tick_def send_hb_def on_trial_def ZRING_LINK_MS_def split: option.split)
  have late: "list_all (\<lambda>(now, env). now - zg_last_master_ms z \<ge> 6000) ps" if ?late
    using that Cons.prems(2) by (fastforce simp: p list_all_iff word_le_nat_alt)
  note IH = Cons.IH [of ?z, unfolded m l]
  have "length (filter lost_line (concat (snd (run_steps (\<lambda>z (now, env). zone_tick now env z) ?z ps)))) =
      (if \<not> ?late \<and> list_ex (\<lambda>(now, env). now - zg_last_master_ms z \<ge> 6000) ps then 1 else 0)"
    by (rule IH) (use Cons.prems late in \<open>simp_all add: p\<close>)
  then show ?case using o Cons.prems(3) by (auto simp: p)
qed simp

text \<open>When the flash does not take a new id, the zone keeps the old one on the ring while its command core and its notifications use the new one.\<close>

lemma failed_id_write_leaves_two_ids:
  assumes "gives_id (zg_mac z) f = Some i" "i \<noteq> zg_zid z" "\<not> fe_stored e"
  shows "let z' = fst (zone_receive exec f e z) in zg_zid z' = zg_zid z \<and> zg_core_zid z' = i \<and> zg_ntf_id z' = i"
  using receive_ids [of exec f e z] assms by (simp add: Let_def ids_def)

text \<open>C3. From the order of the master to the trial: when a zone takes a FW_UPDATE frame and its flash takes the record, it restarts. If the rescue system then ends with a restart, every network it joined is the one the order names, with the password of the order, every fetch was for http://192.168.7.7/fw/zone.bin, and every slot written or selected is an update slot the boot loader would not have started; the last attempt fetched, wrote, finished and selected one slot, the order is gone from flash, and the trial of the new image expects to hear the master, provided the crumb for it could be written.\<close>

lemma fleet_order_starts_a_checked_fetch:
  assumes "hg_fwu_pack fw cap = Some (frame_bytes f)" "h_type (f_hdr f) = RING_T_FW_UPDATE" "fe_nvs e = NvsDone"
    "rescue_app_main TakeDone old boot has0 has1 nets (zg_nv (fst (zone_receive exec f e z))) = (nv, calls, RescueRestart)"
    "list_all (\<lambda>(wifi, net). pn_trial net = NvsDone) nets"
  shows "ZrReboot \<in> set (snd (zone_receive exec f e z)) \<and>
    list_all (order_allows (cstr (fw_ssid fw)) (cstr (fw_pass fw)) boot) calls \<and>
    (\<exists>pre d image. calls = pre @ [PullGet ''http://192.168.7.7/fw/zone.bin'', PullBegin d] @ map PullWrite image @ [PullEnd, PullSetBoot d]) \<and>
    nv_hando nv = None \<and>
    tr_expect_link (fst (ota_trial_start (Some IMG_PENDING_VERIFY) True erased now True (trial_boot (nv_trial nv)))) = 1"
proof -
  obtain fw' where fw': "hg_fwu_parse fwu_zero (frame_bytes f) = Some fw'" "cstr (fw_ssid fw') = cstr (fw_ssid fw)"
    "cstr (fw_pass fw') = cstr (fw_pass fw)" "length (cstr (fw_ssid fw')) < 33" "length (cstr (fw_pass fw')) < 65"
    using image_order_frame [OF assms(1)] by metis
  obtain bs where bs: "hg_handover_pack (fleet_handover fw') = Some bs" using fleet_handover_packs [OF fw'(4,5)] by blast
  note r = fw_update_receive [OF assms(2) fw'(1) assms(3) bs, of exec z]
  let ?dst = "rescue_target_slot boot has0 has1"
  obtain h s1 where h: "hg_handover_take TakeDone old (zg_nv (fst (zone_receive exec f e z))) = (s1, Some h)" "nv_hando s1 = None"
    "pull_attempts ?dst h (take 3 nets) s1 = (nv, calls, True)"
    by (rule rescue_cases [OF assms(4)]) auto
  have "hg_handover_unpack old bs = Some h" by (rule handover_take_cases [OF h(1)]) (simp add: r(1))
  note v = handover_order [OF bs this, unfolded fw'(2,3)]
  have c: "list_all (order_allows (cstr (fw_ssid fw)) (cstr (fw_pass fw)) boot) calls"
    using pull_attempts_fit [of ?dst h "take 3 nets" s1] order_allowed [OF v(2-4), of boot has0 has1]
    by (auto simp: h(3) list_all_iff)
  obtain net d pre where n: "(True, net) \<in> set (take 3 nets)" "nv = fst (hg_trial_write (pn_trial net) (ho_expect_link h) s1)"
    "calls = pre @ [PullGet (order_url h), PullBegin d] @ map (PullWrite \<circ> fst) (pn_reads net) @ [PullEnd, PullSetBoot d]"
    using pull_attempts_restart [OF h(3)] by blast
  have "pn_trial net = NvsDone" using assms(5) n(1) by (auto simp: list_all_iff dest: in_set_takeD)
  then have "nv = s1\<lparr>nv_trial := Some 1\<rparr>" using n(2) v(1) by (simp add: hg_trial_write_def)
  then have nv: "nv_trial nv = Some 1" "nv_hando nv = None" using h(2) by simp_all
  have "calls = pre @ [PullGet ''http://192.168.7.7/fw/zone.bin'', PullBegin d] @ map PullWrite (map fst (pn_reads net)) @ [PullEnd, PullSetBoot d]"
    using n(3) by (simp add: v(4))
  then have t: "\<exists>pre d image. calls = pre @ [PullGet ''http://192.168.7.7/fw/zone.bin'', PullBegin d] @ map PullWrite image @ [PullEnd, PullSetBoot d]"
    by blast
  have "ZrReboot \<in> set (snd (zone_receive exec f e z))" using r(3) by auto
  with c t nv show ?thesis
    by (simp add: ota_trial_start_def ota_trial_running_on_trial_def trial_boot_def trial_take_expect_link_def Let_def)
qed

lemma fleet_order_starts_a_checked_fetch_witness:
  "list_all (order_allows (cstr (fw_ssid some_fwu)) (cstr (fw_pass some_fwu)) (Some Ota0))
    (fst (snd (rescue_app_main TakeDone rescue_zero (Some Ota0) True True [(True, sample_net)]
     (zg_nv (fst (zone_receive no_exec (frame_to RING_T_FW_UPDATE (the (hg_fwu_pack some_fwu 99))) good_fe boot_zone))))))"
proof -
  obtain p where p: "hg_fwu_pack some_fwu 99 = Some p" "frame_bytes (frame_to RING_T_FW_UPDATE p) = p" using some_order by blast
  let ?f = "frame_to RING_T_FW_UPDATE p"
  have t: "h_type (f_hdr ?f) = RING_T_FW_UPDATE" "fe_nvs good_fe = NvsDone" by (simp_all add: frame_to_def good_fe_def)
  have k: "hg_fwu_pack some_fwu 99 = Some (frame_bytes ?f)" by (simp only: p)
  obtain fw' where fw': "hg_fwu_parse fwu_zero (frame_bytes ?f) = Some fw'" "length (cstr (fw_ssid fw')) < 33" "length (cstr (fw_pass fw')) < 65"
    by (rule image_order_frame [OF k])
  obtain bs where bs: "hg_handover_pack (fleet_handover fw') = Some bs" using fleet_handover_packs [OF fw'(2,3)] by blast
  note r = fw_update_receive(1) [OF t(1) fw'(1) t(2) bs, of no_exec boot_zone]
  have "snd (snd (rescue_app_main TakeDone rescue_zero (Some Ota0) True True [(True, sample_net)]
      (zg_nv (fst (zone_receive no_exec ?f good_fe boot_zone))))) = RescueRestart"
    using handover_fields(1) [OF bs]
    by (simp add: rescue_app_main_def hg_handover_take_def r HG_HANDOVER_LEN_def handover_unpacked [OF bs] hando_erased_def
        rescue_pull_def rescue_target_slot_def sample_net_def Let_def hg_trial_write_def split_def)
  then obtain nv calls where "rescue_app_main TakeDone rescue_zero (Some Ota0) True True [(True, sample_net)]
      (zg_nv (fst (zone_receive no_exec ?f good_fe boot_zone))) = (nv, calls, RescueRestart)" by (metis prod.collapse)
  from fleet_order_starts_a_checked_fetch [OF k t this] this show ?thesis by (simp add: p(1) sample_net_def)
qed

text \<open>C4. A command frame that was executed is not executed by its repetitions within three seconds of its completion: each is answered with the acknowledgement of the first, and nothing else changes but the sequence number of the answers, whatever the command would do if it ran again.\<close>

lemma repeated_command_runs_once:
  assumes "ring_dup_check (zr_dup (zg_rx z)) (h_seq (f_hdr f)) now = DUP_EXEC"
    "run_exec exec (cstr (frame_bytes f))
       (z\<lparr>zg_rx := (zg_rx z)\<lparr>zr_dup := ring_dup_start (zr_dup (zg_rx z)) (h_seq (f_hdr f)) now\<rparr>\<rparr>) = (z1, rc, resp)"
    "list_all (\<lambda>(t, t'). t - fin \<le> 3000) ts"
  shows "let (z2, out) = handle_cmd exec f now fin z;
      (z3, outs) = run_steps (\<lambda>z (t, t'). handle_cmd exec' f t t' z) z2 ts
    in z3 = z2\<lparr>zg_rx := (zg_rx z2)\<lparr>zr_tx_seq := zr_tx_seq (zg_rx z2) + of_nat (length ts)\<rparr>\<rparr> \<and>
       map acks (out # outs) = replicate (Suc (length ts))
         [(h_src (f_hdr f), h_seq (f_hdr f), if rc = 0 then 0 else 1, build_ack_detail (cstr resp))]"
proof -
  note r = handle_cmd_runs [OF assms(1,2), where fin = fin]
  let ?z2 = "fst (handle_cmd exec f now fin z)" and ?d = "build_ack_detail (cstr resp)"
  let ?a = "[(h_src (f_hdr f), h_seq (f_hdr f), if rc = 0 then 0 else 1, ?d)]"
  let ?run = "run_steps (\<lambda>z (t, t'). handle_cmd exec' f t t' z)"
  have d: "length ?d \<le> 125" "0 \<notin> set ?d" using ack_detail_fits [of "cstr resp"] cstr_no_nul by blast+
  have "fst (?run z ts) = z\<lparr>zg_rx := (zg_rx z)\<lparr>zr_tx_seq := zr_tx_seq (zg_rx z) + of_nat (length ts)\<rparr>\<rparr> \<and>
      map acks (snd (?run z ts)) = replicate (length ts) ?a" if "zr_dup (zg_rx z) = zr_dup (zg_rx ?z2)" for z
    using assms(3) that
  proof (induction ts arbitrary: z)
    case (Cons t ts)
    obtain t1 t2 where t: "t = (t1, t2)" by force
    have w: "t1 - fin \<le> 3000" using Cons.prems(1) by (simp add: t)
    note h = handle_cmd_replays [OF Cons.prems(2) [unfolded r(2)] w d, of exec' t2]
    show ?case using Cons.IH [of "z\<lparr>zg_rx := (zg_rx z)\<lparr>zr_tx_seq := zr_tx_seq (zg_rx z) + 1\<rparr>\<rparr>"] Cons.prems
      by (simp add: t h algebra_simps)
  qed simp
  from this [OF refl] r(1) show ?thesis by (simp add: Let_def split_def)
qed

lemma repeated_command_runs_once_witness:
  "zr_tx_seq (zg_rx (fst (run_steps (\<lambda>z (t, t'). handle_cmd no_exec (frame_to RING_T_CMD (bytes_of ''HELP'')) t t' z)
     (fst (handle_cmd no_exec (frame_to RING_T_CMD (bytes_of ''HELP'')) 100 120 boot_zone)) [(600, 0), (1100, 0)]))) =
   zr_tx_seq (zg_rx (fst (handle_cmd no_exec (frame_to RING_T_CMD (bytes_of ''HELP'')) 100 120 boot_zone))) + 2"
proof -
  let ?f = "frame_to RING_T_CMD (bytes_of ''HELP'')"
  have c: "ring_dup_check (zr_dup (zg_rx boot_zone)) (h_seq (f_hdr ?f)) 100 = DUP_EXEC"
    by (simp add: boot_zone_def zone_ring_start_def frame_to_def ring_dup_check_def ring_dup_init_def)
  obtain z1 rc resp where r: "run_exec no_exec (cstr (frame_bytes ?f))
      (boot_zone\<lparr>zg_rx := (zg_rx boot_zone)\<lparr>zr_dup := ring_dup_start (zr_dup (zg_rx boot_zone)) (h_seq (f_hdr ?f)) 100\<rparr>\<rparr>) = (z1, rc, resp)"
    by (metis prod_cases3)
  have "list_all (\<lambda>(t, t'). t - 120 \<le> 3000) [(600, 0), (1100, 0) :: u32 \<times> u32]" by simp
  from repeated_command_runs_once [OF c r this, of no_exec] show ?thesis by (simp add: Let_def split_def del: run_steps_Cons)
qed

text \<open>C9. Over any run of the ring task, whatever frames, lines and edits arrive: of the heartbeat frames that leave, two are at least 500 ms apart, and each carries in its header the number after that of the one before; a pass that does not end in a restart ends with the last heartbeat less than 2000 ms old.\<close>

lemma heartbeats_are_paced:
  "let (z', outs) = run_steps (zr_step exec) z es; log = hb_log es outs;
       (z1, _) = zr_step exec z' (ZrIdle now env); (z2, out) = zr_step exec z' (ZrFrame f fe now env) in
     far_apart (zg_last_hb_ms z) (map fst log) \<and> consecutive (zg_hb_seq z) (map snd log) \<and>
     zg_last_hb_ms z' = last (zg_last_hb_ms z # map fst log) \<and>
     now - zg_last_hb_ms z1 < 2000 \<and> (ZrReboot \<in> set out \<or> now - zg_last_hb_ms z2 < 2000)"
  using hb_run [where z = z and es = es and exec = exec] hb_not_late(1) [of now exec _ env] hb_not_late(2) [of exec _ f fe now env]
  unfolding Let_def split_def pace_def prod.inject by blast

text \<open>C12. The id of a zone changes only to one that an assignment with the address of the board names, and that is 1 to 8 or the unassigned id; as long as the flash takes the ids, the copies in the command core and in the notifications follow it.\<close>

lemma zone_takes_only_its_own_id:
  assumes "zg_core_zid z = zg_zid z" "zg_ntf_id z = zg_zid z" "list_all id_stored es"
  shows "let z' = fst (run_steps (zr_step exec) z es) in
    zg_mac z' = zg_mac z \<and> zg_core_zid z' = zg_zid z' \<and> zg_ntf_id z' = zg_zid z' \<and>
    (zg_zid z' = zg_zid z \<or> was_given (zg_mac z) es (zg_zid z') \<and>
       (zg_zid z' \<ge> 1 \<and> zg_zid z' \<le> 8 \<or> zg_zid z' = RING_ID_UNASSIGNED))"
proof -
  have "i \<ge> 1 \<and> i \<le> 8 \<or> i = RING_ID_UNASSIGNED" if "was_given mac es i" for mac i
    using that gives_id_legal by (auto simp: was_given_def)
  then show ?thesis using run_ids [of exec z es] run_copies [OF assms] by (simp add: Let_def) blast
qed

lemma zone_takes_only_its_own_id_witness:
  "zg_core_zid (fst (run_steps (zr_step no_exec) boot_zone
      [ZrFrame (frame_to RING_T_ASSIGN_ID (some_mac @ [3])) good_fe 5001 quiet_env, ZrIdle 6000 quiet_env])) =
   zg_zid (fst (run_steps (zr_step no_exec) boot_zone
      [ZrFrame (frame_to RING_T_ASSIGN_ID (some_mac @ [3])) good_fe 5001 quiet_env, ZrIdle 6000 quiet_env]))"
proof -
  have "zg_core_zid boot_zone = zg_zid boot_zone" "zg_ntf_id boot_zone = zg_zid boot_zone"
    by (simp_all add: boot_zone_def zone_ring_start_def zg_zid_def)
  moreover have "list_all id_stored [ZrFrame (frame_to RING_T_ASSIGN_ID (some_mac @ [3])) good_fe 5001 quiet_env, ZrIdle 6000 quiet_env]"
    by (simp add: good_fe_def)
  ultimately show ?thesis
    using zone_takes_only_its_own_id [of boot_zone
        "[ZrFrame (frame_to RING_T_ASSIGN_ID (some_mac @ [3])) good_fe 5001 quiet_env, ZrIdle 6000 quiet_env]" no_exec]
    unfolding Let_def by blast
qed

end
