(* ===== verification/Ring_Enrol.thy ===== *)
theory Ring_Enrol
  imports Node_Enrol Zone_Life
begin

text \<open>
  The master and a zone together: what happens to the id of a board when its heartbeats reach the master
  and the answers of the master reach the board. A round is one heartbeat and its answer. Shown: after two
  rounds at most the board and the table of the master agree, and from then on nothing is answered.
\<close>

section \<open>Frames on the way\<close>

text \<open>A frame as the receiver takes it from its queue, with \<open>ttl\<close> hops left.\<close>

definition arrived :: "u8 \<Rightarrow> ring_hdr \<Rightarrow> u8 list \<Rightarrow> ring_frame" where
  "arrived ttl h p = \<lparr>f_hdr = h\<lparr>h_ttl := ttl\<rparr>, f_payload = take (unat (h_len h)) p @ replicate (RING_MAX_PAYLOAD - unat (h_len h)) 0\<rparr>"

lemma arrived_simps [simp]:
  "h_src (f_hdr (arrived ttl h p)) = h_src h" "h_type (f_hdr (arrived ttl h p)) = h_type h"
  by (simp_all add: arrived_def)

lemma arrived_bytes: "h_len h = of_nat (length p) \<Longrightarrow> length p < 256 \<Longrightarrow> frame_bytes (arrived ttl h p) = p"
  by (simp add: frame_bytes_def arrived_def unat_of_nat_u8)

fun zone_frame :: "u8 \<Rightarrow> zr_out \<Rightarrow> ring_frame option" where
  "zone_frame ttl (ZrCfg (OutSend h p)) = Some (arrived ttl h p)"
| "zone_frame ttl _ = None"

fun master_frame :: "u8 \<Rightarrow> mg_out \<Rightarrow> ring_frame option" where
  "master_frame ttl (MgCfg (NmSend h p)) = Some (arrived ttl h p)"
| "master_frame ttl _ = None"

section \<open>A round\<close>

text \<open>
  What a round takes from elsewhere: the clock and the environment of the zone, the hops left, the bytes on the stack of the
  master, the result of its flash and the environment of the reception.
\<close>

record round =
  ro_now :: u32
  ro_env :: hb_env
  ro_ttl :: u8
  ro_junk :: hg_hb
  ro_nvs :: nvs_result
  ro_fe :: frame_env

definition master_hears :: "round \<Rightarrow> ring_frame list \<Rightarrow> mgr \<Rightarrow> mgr \<times> mg_out list" where
  "master_hears ro fs s = fold (\<lambda>f (s, out). let (s', o') = nmgr_enrol_handle_hb f (ro_junk ro) (ro_nvs ro) s in (s', out @ o')) fs (s, [])"

definition zone_hears :: "zr_exec \<Rightarrow> round \<Rightarrow> ring_frame list \<Rightarrow> zring \<Rightarrow> zring" where
  "zone_hears exec ro gs z = fold (\<lambda>g z. fst (zone_receive exec g (ro_fe ro) z)) gs z"

definition enrol_round :: "zr_exec \<Rightarrow> round \<Rightarrow> zring \<times> mgr \<Rightarrow> (zring \<times> mgr) \<times> ring_frame list" where
  "enrol_round exec ro = (\<lambda>(z, s).
     let (z, beat) = send_hb (ro_now ro) (ro_env ro) z;
         (s, out) = master_hears ro (List.map_filter (zone_frame (ro_ttl ro)) beat) s;
         gs = List.map_filter (master_frame (ro_ttl ro)) out
     in ((zone_hears exec ro gs z, s), gs))"

section \<open>What a heartbeat says\<close>

lemma hb_pack_length: "length (hb_mac h) = 6 \<Longrightarrow> hg_hb_pack h cap = Some p \<Longrightarrow> length p < 256"
proof -
  assume m: "length (hb_mac h) = 6" and p: "hg_hb_pack h cap = Some p"
  then have n: "unat (hb_n_shelves h) \<le> 4" "p = hb_base h @ concat (map (\<lambda>i. hb_shelf_put (hb_shelf h ! i)) [0 ..< unat (hb_n_shelves h)])"
    by (auto simp: hg_hb_pack_eq word_less_nat_alt split: if_splits)
  have "length p = 62 + 14 * unat (hb_n_shelves h)"
    using length_hb_base [OF m] length_concat_records [of "[0 ..< unat (hb_n_shelves h)]" "\<lambda>i. hb_shelf_put (hb_shelf h ! i)" 14]
    by (simp add: n(2))
  then show ?thesis using n(1) by simp
qed

lemma beat_arrives:
  assumes "length (zg_mac z) = 6"
  obtains g where "List.map_filter (zone_frame ttl) (snd (send_hb now env z)) = [g]" "h_src (f_hdr g) = zg_zid z"
    "\<And>junk. \<exists>hb. hg_hb_parse junk (frame_bytes g) = Some hb \<and> hb_mac hb = zg_mac z"
proof -
  let ?h = "build_hb now env z"
  obtain p where p: "hg_hb_pack ?h (62 + 14 * HG_MAX_SHELVES) = Some p"
    "snd (send_hb now env z) = [ZrCfg (OutSend \<lparr>h_src = zg_zid z, h_dst = RING_ID_MASTER, h_type = RING_T_HEARTBEAT,
       h_flags = 0, h_ttl = RING_TTL_INIT, h_len = of_nat (length p), h_seq = zg_hb_seq z + 1\<rparr> p)]"
    using send_hb_facts(4) [of now env z] by blast
  have m: "hb_mac ?h = zg_mac z" by (simp add: build_hb_def split_def Let_def)
  have wf: "hb_wf ?h" using assms by (simp add: hb_wf_def build_hb_def split_def Let_def)
  have l: "length p < 256" using hb_pack_length [OF _ p(1)] m assms by simp
  have "\<exists>hb. hg_hb_parse junk p = Some hb \<and> hb_mac hb = zg_mac z" for junk
  proof -
    obtain hb where "hg_hb_parse junk p = Some hb" "hb_view hb = hb_view ?h"
      using hb.parse_pack [where a = ?h and bs = p and old = junk and cap = "62 + 14 * HG_MAX_SHELVES"] p(1) wf by auto
    moreover have "hb_mac hb = hb_mac (hb_view hb)" "hb_mac ?h = hb_mac (hb_view ?h)" by (simp_all add: hb_view_def)
    ultimately show ?thesis using m by (intro exI [of _ hb]) simp
  qed
  then show thesis
    by (intro that [where g = "arrived ttl \<lparr>h_src = zg_zid z, h_dst = RING_ID_MASTER, h_type = RING_T_HEARTBEAT,
       h_flags = 0, h_ttl = RING_TTL_INIT, h_len = of_nat (length p), h_seq = zg_hb_seq z + 1\<rparr> p"])
      (simp_all add: p(2) List.map_filter_def arrived_bytes l)
qed

lemma send_hb_ids: "ids (fst (send_hb now env z)) = ids z"
  by (simp add: send_hb_def Let_def split_def ids_def zg_zid_def split: option.split)

section \<open>What an answer does\<close>

text \<open>What the master sends in answer to a heartbeat are assignments, and a frame carries each of them.\<close>

fun assign_only :: "mg_out \<Rightarrow> bool" where
  "assign_only (MgCfg (NmSend h p)) \<longleftrightarrow> h_type h = RING_T_ASSIGN_ID \<and> h_len h = of_nat (length p) \<and> length p = 7"
| "assign_only _ \<longleftrightarrow> True"

lemma send_assign_only: "length mac = 6 \<Longrightarrow> list_all assign_only (snd (send_assign mac i s))"
  by (simp add: send_assign_def hg_assign_pack_def run_core_def nmgr_send_raw_def nmgr_next_seq_def Let_def)

lemma handle_hb_only:
  assumes "hg_hb_parse junk (frame_bytes f) = Some hb"
  shows "list_all assign_only (snd (nmgr_enrol_handle_hb f junk r s))"
proof -
  note len = hb_parse_mac [OF assms]
  have n: "list_all assign_only (snd (enrol_new_row i mac r s))" for i mac s by (simp add: enrol_new_row_def Let_def)
  have t: "list_all assign_only (snd (track_unassigned mac s))" for mac s by (simp add: track_unassigned_def Let_def)
  show ?thesis
    by (simp add: nmgr_enrol_handle_hb_def assms Let_def split_def n t send_assign_only [OF len] split: option.split)
qed

definition carries :: "ring_frame \<Rightarrow> u8 list \<times> u8 \<Rightarrow> bool" where
  "carries g a \<longleftrightarrow> h_type (f_hdr g) = RING_T_ASSIGN_ID \<and>
     map_option (\<lambda>a. (as_mac a, as_zone_id a)) (hg_assign_parse (frame_bytes g)) = Some a"

lemma answer_frames:
  "list_all assign_only out \<Longrightarrow> list_all2 carries (List.map_filter (master_frame ttl) out) (List.map_filter assigns out)"
proof (induction out)
  case (Cons x out)
  have m: "List.map_filter f (y # ys) = (case f y of None \<Rightarrow> [] | Some b \<Rightarrow> [b]) @ List.map_filter f ys" for f :: "mg_out \<Rightarrow> 'b option" and y ys
    by (simp add: List.map_filter_def split: option.split)
  show ?case
  proof (cases "\<exists>h p. x = MgCfg (NmSend h p)")
    case True
    then obtain h p where x: "x = MgCfg (NmSend h p)" by blast
    then have w: "h_type h = RING_T_ASSIGN_ID" "h_len h = of_nat (length p)" "length p = 7" using Cons.prems by simp_all
    then obtain a where a: "hg_assign_parse p = Some a" by (simp add: hg_assign_parse_def HG_ASSIGN_LEN_def)
    have "frame_bytes (arrived ttl h p) = p" using w by (intro arrived_bytes) simp_all
    then have "carries (arrived ttl h p) (as_mac a, as_zone_id a)" by (simp add: carries_def w a)
    then show ?thesis using Cons unfolding m by (simp add: x w a)
  next
    case False
    then have "master_frame ttl x = None" "assigns x = None"
      by (cases x rule: assigns.cases; simp)+
    then show ?thesis using Cons unfolding m by simp
  qed
qed simp

lemma zone_takes:
  assumes "carries g (zg_mac z, i)" "i \<ge> 1 \<and> i \<le> 8 \<or> i = RING_ID_UNASSIGNED" "fe_stored e"
  shows "zg_zid (fst (zone_receive exec g e z)) = i" "zg_mac (fst (zone_receive exec g e z)) = zg_mac z"
proof -
  have "gives_id (zg_mac z) g = Some i" using assms(1,2) by (auto simp: carries_def gives_id_def)
  then show "zg_zid (fst (zone_receive exec g e z)) = i" "zg_mac (fst (zone_receive exec g e z)) = zg_mac z"
    using receive_ids [of exec g e z] assms(3) by (auto simp: ids_def split: if_splits)
qed

text \<open>One round, on the map of the master and the id of the zone.\<close>

lemma round_effect:
  assumes ok: "ztab_ok (mg_ztab s)" and mac: "length (zg_mac z) = 6" "zg_mac z \<noteq> replicate 6 0" and st: "fe_stored (ro_fe ro)"
    and e: "enrol_spec (ztab_map (mg_ztab s)) (zg_mac z) (zg_zid z) = (m, v, oid)"
    and legal: "\<forall>i. oid = Some i \<longrightarrow> i \<ge> 1 \<and> i \<le> 8"
    and r: "enrol_round exec ro (z, s) = ((z', s'), gs)"
  shows "ztab_map (mg_ztab s') = m" "ztab_ok (mg_ztab s')" "zg_mac z' = zg_mac z"
    "length gs = length (hb_answer v (zg_mac z) (zg_zid z) oid)"
    "zg_zid z' = (case hb_answer v (zg_mac z) (zg_zid z) oid of [] \<Rightarrow> zg_zid z | a # _ \<Rightarrow> snd a)"
proof -
  obtain g where g: "List.map_filter (zone_frame (ro_ttl ro)) (snd (send_hb (ro_now ro) (ro_env ro) z)) = [g]" "h_src (f_hdr g) = zg_zid z"
    "\<exists>hb. hg_hb_parse (ro_junk ro) (frame_bytes g) = Some hb \<and> hb_mac hb = zg_mac z"
    by (rule beat_arrives [OF mac(1), of "ro_ttl ro" "ro_now ro" "ro_env ro"]) blast
  then obtain hb where hb: "hg_hb_parse (ro_junk ro) (frame_bytes g) = Some hb" "hb_mac hb = zg_mac z" by blast
  define h where "h = nmgr_enrol_handle_hb g (ro_junk ro) (ro_nvs ro) s"
  define zb where "zb = fst (send_hb (ro_now ro) (ro_env ro) z)"
  have zb: "zg_mac zb = zg_mac z" "zg_zid zb = zg_zid z" using send_hb_ids [of "ro_now ro" "ro_env ro" z] by (simp_all add: zb_def ids_def)
  have mh: "master_hears ro [g] s = h" by (simp add: master_hears_def h_def split_def Let_def)
  have rr: "s' = fst h" "gs = List.map_filter (master_frame (ro_ttl ro)) (snd h)" "z' = zone_hears exec ro gs zb"
    using r by (auto simp: enrol_round_def g(1) mh zb_def split_def Let_def)
  have e': "enrol_spec (ztab_map (mg_ztab s)) (hb_mac hb) (h_src (f_hdr g)) = (m, v, oid)" by (simp add: hb(2) g(2) e)
  have nz: "hb_mac hb \<noteq> replicate 6 0" by (simp add: hb(2) mac(2))
  note eff = handle_hb_effect [OF ok hb(1) nz e', of "ro_nvs ro", folded h_def, unfolded hb(2) g(2)]
  show "ztab_map (mg_ztab s') = m" using eff(1) by (simp add: rr(1))
  show "ztab_ok (mg_ztab s')"
  proof -
    obtain t v' oid' where en: "ztab_enrol (mg_ztab s) (hb_mac hb) (h_src (f_hdr g)) = (t, v', oid')" by (metis prod_cases3)
    have "zone_mac (hb_mac hb)" by (rule zone_mac_iff) (simp_all add: hb(2) mac)
    from ztab_enrol_refines(1) [OF ok this en] show ?thesis using hb_ztab [OF hb(1), of "ro_nvs ro" s] by (simp add: rr(1) h_def en)
  qed
  have c: "list_all2 carries gs (hb_answer v (zg_mac z) (zg_zid z) oid)"
    using answer_frames [OF handle_hb_only [OF hb(1), of "ro_nvs ro" s], of "ro_ttl ro"] eff(2) by (simp add: rr(2) h_def)
  then show "length gs = length (hb_answer v (zg_mac z) (zg_zid z) oid)" by (rule list_all2_lengthD)
  have "hb_answer v (zg_mac z) (zg_zid z) oid = [] \<or> (\<exists>i. hb_answer v (zg_mac z) (zg_zid z) oid = [(zg_mac z, i)] \<and>
      (i \<ge> 1 \<and> i \<le> 8 \<or> i = RING_ID_UNASSIGNED))"
    using legal by (simp add: hb_answer_def split: option.split)
  then consider "hb_answer v (zg_mac z) (zg_zid z) oid = []"
    | i where "hb_answer v (zg_mac z) (zg_zid z) oid = [(zg_mac z, i)]" "i \<ge> 1 \<and> i \<le> 8 \<or> i = RING_ID_UNASSIGNED"
    by blast
  then have "zg_mac z' = zg_mac z \<and> zg_zid z' = (case hb_answer v (zg_mac z) (zg_zid z) oid of [] \<Rightarrow> zg_zid z | a # _ \<Rightarrow> snd a)"
  proof cases
    case 1
    then show ?thesis using c zb by (simp add: rr(3) zone_hears_def)
  next
    case (2 i)
    then obtain g' where g': "gs = [g']" "carries g' (zg_mac zb, i)" using c zb(1) by (auto simp: list_all2_Cons2)
    from zone_takes [OF g'(2) 2(2) st, of exec] show ?thesis using 2(1) zb by (simp add: rr(3) g'(1) zone_hears_def)
  qed
  then show "zg_mac z' = zg_mac z" "zg_zid z' = (case hb_answer v (zg_mac z) (zg_zid z) oid of [] \<Rightarrow> zg_zid z | a # _ \<Rightarrow> snd a)"
    by blast+
qed

text \<open>A board is settled when it uses the id the master has for it.\<close>

definition board_settled :: "zring \<times> mgr \<Rightarrow> bool" where
  "board_settled = (\<lambda>(z, s). ztab_map (mg_ztab s) (zg_mac z) = Some (zg_zid z))"

lemma settled_round:
  assumes "ztab_ok (mg_ztab s)" "length (zg_mac z) = 6" "zg_mac z \<noteq> replicate 6 0" "fe_stored (ro_fe ro)"
    "board_settled (z, s)" "enrol_round exec ro (z, s) = ((z', s'), gs)"
  shows "gs = [] \<and> board_settled (z', s') \<and> zg_zid z' = zg_zid z \<and> ztab_map (mg_ztab s') = ztab_map (mg_ztab s)"
proof -
  have e: "enrol_spec (ztab_map (mg_ztab s)) (zg_mac z) (zg_zid z) = (ztab_map (mg_ztab s), ZTAB_EN_KNOWN, Some (zg_zid z))"
    using assms(5) by (simp add: enrol_spec_def board_settled_def)
  have l: "\<forall>i. Some (zg_zid z) = Some i \<longrightarrow> i \<ge> 1 \<and> i \<le> 8"
    using assms(5) ran_ztab_map_bound [OF assms(1), of "zg_zid z"] by (auto simp: board_settled_def ran_def word_le_nat_alt)
  have a: "hb_answer ZTAB_EN_KNOWN (zg_mac z) (zg_zid z) (Some (zg_zid z)) = []" by (simp add: hb_answer_def)
  from round_effect [OF assms(1-4) e l assms(6)] assms(5) show ?thesis by (simp add: a board_settled_def)
qed

text \<open>
  A round of a board that is not settled settles it, unless it claims the id of another board; then it gives the id up.
\<close>

lemma unsettled_round:
  assumes "ztab_ok (mg_ztab s)" "length (zg_mac z) = 6" "zg_mac z \<noteq> replicate 6 0" "fe_stored (ro_fe ro)"
    "\<not> board_settled (z, s)" "enrol_round exec ro (z, s) = ((z', s'), gs)"
    "ztab_map (mg_ztab s) (zg_mac z) \<noteq> None \<or> (\<exists>i. 1 \<le> i \<and> i \<le> 8 \<and> i \<notin> ran (ztab_map (mg_ztab s)))"
  shows "board_settled (z', s') \<or>
    zg_zid z' = RING_ID_UNASSIGNED \<and> ztab_map (mg_ztab s') = ztab_map (mg_ztab s) \<and> 1 \<le> zg_zid z \<and> zg_zid z \<le> 8"
proof -
  let ?m = "ztab_map (mg_ztab s)"
  have bound: "i \<ge> 1 \<and> i \<le> 8" if "i \<in> ran ?m" for i
    using ran_ztab_map_bound [OF assms(1) that] by (simp add: word_le_nat_alt)
  note eff = round_effect [OF assms(1-4) _ _ assms(6)]
  show ?thesis
  proof (cases "?m (zg_mac z)")
    case (Some i)
    then have i: "i \<noteq> zg_zid z" "i \<ge> 1 \<and> i \<le> 8" using assms(5) bound [of i] by (auto simp: board_settled_def ran_def)
    then have e: "enrol_spec ?m (zg_mac z) (zg_zid z) = (?m, ZTAB_EN_STALE, Some i)" by (simp add: enrol_spec_def Some)
    have a: "hb_answer ZTAB_EN_STALE (zg_mac z) (zg_zid z) (Some i) = [(zg_mac z, i)]" using i(1) by (simp add: hb_answer_def)
    show ?thesis using eff [OF e] i Some by (simp add: a board_settled_def)
  next
    case None
    then obtain k where k: "1 \<le> k" "k \<le> 8" "k \<notin> ran ?m" using assms(7) by auto
    show ?thesis
    proof (cases "1 \<le> zg_zid z \<and> zg_zid z \<le> 8")
      case True
      show ?thesis
      proof (cases "zg_zid z \<in> ran ?m")
        case r: True
        then have e: "enrol_spec ?m (zg_mac z) (zg_zid z) = (?m, ZTAB_EN_CONFLICT, Some (zg_zid z))"
          using True by (simp add: enrol_spec_def None)
        have a: "hb_answer ZTAB_EN_CONFLICT (zg_mac z) (zg_zid z) (Some (zg_zid z)) = [(zg_mac z, RING_ID_UNASSIGNED)]"
          by (simp add: hb_answer_def)
        show ?thesis using eff [OF e] True by (simp add: a)
      next
        case r: False
        then have e: "enrol_spec ?m (zg_mac z) (zg_zid z) = (?m(zg_mac z \<mapsto> zg_zid z), ZTAB_EN_ASSIGNED, Some (zg_zid z))"
          using True by (simp add: enrol_spec_def None)
        have a: "hb_answer ZTAB_EN_ASSIGNED (zg_mac z) (zg_zid z) (Some (zg_zid z)) = []" by (simp add: hb_answer_def)
        show ?thesis using eff [OF e] True by (simp add: a board_settled_def)
      qed
    next
      case False
      have "unat k \<in> {1, 2, 3, 4, 5, 6, 7, 8}" using k(1,2) by (auto simp: word_le_nat_alt)
      then have "of_nat (unat k) \<in> (of_nat :: nat \<Rightarrow> u8) ` {1, 2, 3, 4, 5, 6, 7, 8}" by (rule imageI)
      then have "k \<in> set [1, 2, 3, 4, 5, 6, 7, 8]" by simp
      with k(3) have "List.find (\<lambda>i. i \<notin> ran ?m) [1, 2, 3, 4, 5, 6, 7, 8] \<noteq> None" unfolding find_None_iff by blast
      then obtain i where i: "List.find (\<lambda>i. i \<notin> ran ?m) [1, 2, 3, 4, 5, 6, 7, 8] = Some i" by blast
      note b = find_free_id [OF i]
      have l: "i \<ge> 1 \<and> i \<le> 8" using b(2,3) by (simp add: word_le_nat_alt)
      have ne: "i \<noteq> zg_zid z" using l False by blast
      have e: "enrol_spec ?m (zg_mac z) (zg_zid z) = (?m(zg_mac z \<mapsto> i), ZTAB_EN_ASSIGNED, Some i)"
        using False i by (auto simp: enrol_spec_def None)
      have a: "hb_answer ZTAB_EN_ASSIGNED (zg_mac z) (zg_zid z) (Some i) = [(zg_mac z, i)]" using ne by (simp add: hb_answer_def)
      show ?thesis using eff [OF e] l by (simp add: a board_settled_def)
    qed
  qed
qed

lemma spec_legal:
  assumes "ztab_ok t" "enrol_spec (ztab_map t) mac c = (m, v, Some i)"
  shows "i \<ge> 1 \<and> i \<le> 8"
proof (cases "ztab_map t mac")
  case (Some j)
  then have "i = j" "j \<in> ran (ztab_map t)" using assms(2) by (auto simp: enrol_spec_def ran_def)
  then show ?thesis using ran_ztab_map_bound [OF assms(1)] by (simp add: word_le_nat_alt)
next
  case None
  show ?thesis
  proof (cases "1 \<le> c \<and> c \<le> 8")
    case True
    then have "i = c" using assms(2) None by (auto simp: enrol_spec_def split: if_splits)
    then show ?thesis using True by simp
  next
    case False
    then have "List.find (\<lambda>i. i \<notin> ran (ztab_map t)) [1, 2, 3, 4, 5, 6, 7, 8] = Some i"
      using assms(2) None unfolding enrol_spec_def
      by (cases "List.find (\<lambda>i. i \<notin> ran (ztab_map t)) [1, 2, 3, 4, 5, 6, 7, 8]") (simp_all only: option.case if_False prod.inject simp_thms)
    from find_free_id [OF this] show ?thesis by (simp add: word_le_nat_alt)
  qed
qed

definition sample_round :: round where
  "sample_round = \<lparr>ro_now = 2500, ro_env = quiet_env, ro_ttl = 9, ro_junk = hb_zero, ro_nvs = NvsDone, ro_fe = good_fe\<rparr>"

lemma boot_zone_facts: "zg_mac boot_zone = some_mac" "length some_mac = 6" "some_mac \<noteq> replicate 6 0"
  by (simp_all add: boot_zone_def zone_ring_start_def some_mac_def numeral_eq_Suc)

section \<open>Any number of rounds\<close>

abbreviation enrol_rounds :: "zr_exec \<Rightarrow> zring \<times> mgr \<Rightarrow> round list \<Rightarrow> (zring \<times> mgr) \<times> ring_frame list list" where
  "enrol_rounds exec \<equiv> run_steps (\<lambda>c ro. enrol_round exec ro c)"

lemma round_keeps:
  assumes "ztab_ok (mg_ztab s)" "length (zg_mac z) = 6" "zg_mac z \<noteq> replicate 6 0" "fe_stored (ro_fe ro)"
    "enrol_round exec ro (z, s) = ((z', s'), gs)"
  shows "zg_mac z' = zg_mac z" "ztab_ok (mg_ztab s')"
proof -
  obtain m v oid where e: "enrol_spec (ztab_map (mg_ztab s)) (zg_mac z) (zg_zid z) = (m, v, oid)" by (metis prod_cases3)
  have "i \<ge> 1 \<and> i \<le> 8" if o: "oid = Some i" for i
    by (rule spec_legal [OF assms(1) e [unfolded o]])
  then show "zg_mac z' = zg_mac z" "ztab_ok (mg_ztab s')" using round_effect(2,3) [OF assms(1-4) e _ assms(5)] by blast+
qed

lemma two_rounds:
  assumes ok: "ztab_ok (mg_ztab s)" and mac: "length (zg_mac z) = 6" "zg_mac z \<noteq> replicate 6 0"
    and st: "fe_stored (ro_fe ro1)" "fe_stored (ro_fe ro2)"
    and room: "ztab_map (mg_ztab s) (zg_mac z) \<noteq> None \<or> (\<exists>i. 1 \<le> i \<and> i \<le> 8 \<and> i \<notin> ran (ztab_map (mg_ztab s)))"
    and r: "enrol_round exec ro1 (z, s) = ((z1, s1), gs1)" "enrol_round exec ro2 (z1, s1) = ((z2, s2), gs2)"
  shows "board_settled (z2, s2)" "zg_mac z2 = zg_mac z" "ztab_ok (mg_ztab s2)"
proof -
  note k1 = round_keeps [OF ok mac st(1) r(1)]
  have m1: "length (zg_mac z1) = 6" "zg_mac z1 \<noteq> replicate 6 0" using k1 mac by simp_all
  note k2 = round_keeps [OF k1(2) m1 st(2) r(2)]
  show "zg_mac z2 = zg_mac z" "ztab_ok (mg_ztab s2)" using k1 k2 by simp_all
  show "board_settled (z2, s2)"
  proof (cases "board_settled (z1, s1)")
    case True
    from settled_round [OF k1(2) m1 st(2) True r(2)] show ?thesis by blast
  next
    case False
    have ns: "\<not> board_settled (z, s)" using settled_round [OF ok mac st(1) _ r(1)] False by blast
    from unsettled_round [OF ok mac st(1) ns r(1) room] False
    have u: "zg_zid z1 = RING_ID_UNASSIGNED" "ztab_map (mg_ztab s1) = ztab_map (mg_ztab s)" by blast+
    have "ztab_map (mg_ztab s1) (zg_mac z1) \<noteq> None \<or> (\<exists>i. 1 \<le> i \<and> i \<le> 8 \<and> i \<notin> ran (ztab_map (mg_ztab s1)))"
      using room k1 by (simp add: u(2))
    from unsettled_round [OF k1(2) m1 st(2) False r(2) this] u(1) show ?thesis
      by (auto simp: RING_ID_UNASSIGNED_def)
  qed
qed

lemma settled_rounds:
  assumes "ztab_ok (mg_ztab s)" "length (zg_mac z) = 6" "zg_mac z \<noteq> replicate 6 0" "list_all (\<lambda>ro. fe_stored (ro_fe ro)) ros"
    "board_settled (z, s)" "enrol_rounds exec (z, s) ros = ((z', s'), gss)"
  shows "concat gss = [] \<and> zg_zid z' = zg_zid z \<and> ztab_map (mg_ztab s') = ztab_map (mg_ztab s)"
  using assms
proof (induction ros arbitrary: z s gss)
  case (Cons ro ros)
  obtain z1 s1 gs where r: "enrol_round exec ro (z, s) = ((z1, s1), gs)" by (metis prod.collapse)
  obtain gss' where rs: "enrol_rounds exec (z1, s1) ros = ((z', s'), gss')" "gss = gs # gss'"
    using Cons.prems(6) by (auto simp: r run_steps.simps Let_def split: prod.splits)
  have st: "fe_stored (ro_fe ro)" "list_all (\<lambda>ro. fe_stored (ro_fe ro)) ros" using Cons.prems(4) by simp_all
  note k = round_keeps [OF Cons.prems(1-3) st(1) r] and f = settled_round [OF Cons.prems(1-3) st(1) Cons.prems(5) r]
  have "concat gss' = [] \<and> zg_zid z' = zg_zid z1 \<and> ztab_map (mg_ztab s') = ztab_map (mg_ztab s1)"
    using Cons.IH [OF k(2) _ _ st(2) _ rs(1)] k(1) Cons.prems(2,3) f by simp
  with f show ?case by (simp add: rs(2))
qed simp

section \<open>Properties\<close>

text \<open>C2. Whatever id a board with a real address claims and in whatever consistent state the master is, once the address is in the table of the master or an id is free: if the zone's flash takes the ids it is given and nothing else happens to the two in between, two heartbeats and their answers settle it. The board then uses the id that the master has for it, and its further heartbeats, however many, are not answered and change neither the id nor the table.\<close>

lemma enrolment_settles:
  assumes "mgr_ok s" "length (zg_mac z) = 6" "zg_mac z \<noteq> replicate 6 0"
    "ztab_map (mg_ztab s) (zg_mac z) \<noteq> None \<or> (\<exists>i. 1 \<le> i \<and> i \<le> 8 \<and> i \<notin> ran (ztab_map (mg_ztab s)))"
    "list_all (\<lambda>ro. fe_stored (ro_fe ro)) (ro1 # ro2 # later)"
    "enrol_rounds exec (z, s) [ro1, ro2] = ((z2, s2), answers)" "enrol_rounds exec (z2, s2) later = ((z3, s3), answers3)"
  shows "ztab_map (mg_ztab s2) (zg_mac z) = Some (zg_zid z2) \<and>
    concat answers3 = [] \<and> zg_zid z3 = zg_zid z2 \<and> ztab_map (mg_ztab s3) = ztab_map (mg_ztab s2)"
proof -
  have ok: "ztab_ok (mg_ztab s)" using assms(1) by (simp add: mgr_ok_def)
  obtain z1 s1 gs1 where r1: "enrol_round exec ro1 (z, s) = ((z1, s1), gs1)" by (metis prod.collapse)
  obtain gs2 where r2: "enrol_round exec ro2 (z1, s1) = ((z2, s2), gs2)"
    using assms(6) by (auto simp: r1 run_steps.simps Let_def split: prod.splits)
  have st: "fe_stored (ro_fe ro1)" "fe_stored (ro_fe ro2)" "list_all (\<lambda>ro. fe_stored (ro_fe ro)) later" using assms(5) by simp_all
  note t = two_rounds [OF ok assms(2,3) st(1,2) assms(4) r1 r2]
  show ?thesis using settled_rounds [OF t(3) _ _ st(3) t(1) assms(7)] t assms(2,3) by (simp add: board_settled_def)
qed

lemma enrolment_settles_witness:
  "let (z, s) = fst (enrol_rounds no_exec (boot_zone, fresh_mgr) [sample_round, sample_round])
   in ztab_map (mg_ztab s) some_mac = Some (zg_zid z) \<and> concat (snd (enrol_rounds no_exec (z, s) [sample_round, sample_round])) = []"
proof -
  obtain z2 s2 a where r: "enrol_rounds no_exec (boot_zone, fresh_mgr) [sample_round, sample_round] = ((z2, s2), a)" by (metis prod.collapse)
  obtain z3 s3 b where r3: "enrol_rounds no_exec (z2, s2) [sample_round, sample_round] = ((z3, s3), b)" by (metis prod.collapse)
  have st: "list_all (\<lambda>ro. fe_stored (ro_fe ro)) [sample_round, sample_round, sample_round, sample_round]"
    by (simp add: sample_round_def good_fe_def)
  have "1 \<le> (1 :: u8) \<and> (1 :: u8) \<le> 8 \<and> 1 \<notin> ran (ztab_map (mg_ztab fresh_mgr))" by (simp add: fresh_facts(2) ztab_map_empty)
  then have "ztab_map (mg_ztab fresh_mgr) (zg_mac boot_zone) \<noteq> None \<or>
      (\<exists>i. 1 \<le> i \<and> i \<le> 8 \<and> i \<notin> ran (ztab_map (mg_ztab fresh_mgr)))" by blast
  moreover have "length (zg_mac boot_zone) = 6" "zg_mac boot_zone \<noteq> replicate 6 0" using boot_zone_facts by simp_all
  ultimately show ?thesis
    using enrolment_settles [OF fresh_facts(1) _ _ _ st r r3] unfolding r fst_conv prod.case Let_def r3 snd_conv
    by (simp add: boot_zone_facts)
qed

end
