(* ===== verification/Spec2Isabelle.thy ===== *)
theory Spec2Isabelle
  imports Ring_Dup Ring_Journey Ring_Trk Ring_Cfgx Ring_Health Zone_Table Fleet_Seq Time_Core HG_Store Cli_Line Alarm_Mgr Zone_Cfg_Rx Web_Auth Cmd_Core Node_Cfg Node_Mgr Node_Enrol Node_Fwd Zone_Life Ring_Enrol
begin

text \<open>
  HillGrow is a greenhouse controller: one master (WiFi, web server, touch panel, console) and up
  to eight zone controllers on a one-way serial ring. The master numbers the zones, pushes
  configurations and firmware to them and watches the ring; a zone runs its pumps, lamps and fans
  from a configuration it keeps in flash. The development models the C code that decides: the
  protocol, the tables, the configuration and its storage, the console and the alarms. Everything
  is under \<^verbatim>\<open>src/components\<close>, unless a path says otherwise.

  \<^bold>\<open>How the code is represented.\<close> A C struct is a record, an enum a datatype, \<open>uintN_t\<close> the
  word of \<open>N\<close> bits, so that additions and subtractions wrap; a byte buffer is a list of bytes and
  a packed configuration plane is its byte image. A static variable set is a state record that each
  operation returns updated. An error return is the left side of a sum, or an option. A loop over an array is
  structural recursion. Time is a parameter of every operation that reads the clock. Where the code
  takes a mutex, the locked section is one operation of the model. There is no fuel anywhere:
  every loop of the modelled code is over a list or a bounded counter, and the definitions are total.

  \<^bold>\<open>Foundations.\<close>
  \<^item> \<open>HG_Prelude\<close>: words, little-endian codecs, buffers, results with early return, and machines
    driven by a list of events with the locales \<open>guarded_invariant\<close> and \<open>step_invariant\<close>, which
    the stateful components interpret.
  \<^item> \<open>C_Text\<close>: the character and number functions of the C library that the code uses.

  \<^bold>\<open>The ring\<close> (\<^verbatim>\<open>ring_proto\<close>, \<^verbatim>\<open>ring_link\<close>).
  \<^item> \<open>Ring_Proto\<close>, \<open>Ring_Crc\<close>, \<open>Ring_Cobs\<close>, \<open>Ring_Frame\<close>: constants, CRC, byte stuffing, frames. The
    decoder resynchronises after any garbage, stays in its buffer, and accepts only what has a
    correct checksum.
  \<^item> \<open>Ring_Link\<close>, \<open>Ring_Journey\<close>: what a node does with a frame, and what a frame does on a ring
    of such nodes: delivery, and no endless circulation.
  \<^item> \<open>Ring_Trk\<close>, \<open>Ring_Dup\<close>: the sender's stop-and-wait queue and the receiver's one-slot cache, which
    together give at-most-once commands with a verdict for each; a frame leaves at most three times.
  \<^item> \<open>Ring_Tlm\<close>: the payload codecs. \<open>Ring_Cfgx\<close>: configuration blobs in chunks.
  \<^item> \<open>Ring_Health\<close>: who is online, which leg of the ring is cut, and when that is published.

  \<^bold>\<open>The master's tables and its ring task\<close> (\<^verbatim>\<open>node_store\<close>, \<^verbatim>\<open>node_mgr\<close>, \<^verbatim>\<open>notify\<close>, \<^verbatim>\<open>alarm_mgr\<close>).
  \<^item> \<open>Zone_Table\<close>: which MAC has which zone id, and enrolment. \<open>Fleet_Seq\<close>: firmware updates, one zone
    after the other. \<open>Notify\<close>: typed, rate-limited lines, and how a zone's line gets to
    the master's sinks. \<open>Alarm_Mgr\<close>: the log and the active alarms made from those lines.
  \<^item> \<open>Node_Cfg\<close> (\<^verbatim>\<open>node_mgr_cfg*.c\<close>): the master's caches of the zones' configurations, the transfer
    that fills or pushes them, the memory of failures and the decision of each second. Composed with
    \<open>Zone_Cfg_Rx\<close>, \<open>Ring_Cfgx\<close> and \<open>Ring_Trk\<close>: a push that is accepted leaves master and zone with the same
    plane, a refused one is not repeated.
  \<^item> \<open>Node_Mgr\<close> (\<^verbatim>\<open>node_mgr.c\<close>, \<^verbatim>\<open>node_mgr_enrol.c\<close>, \<^verbatim>\<open>node_mgr_fwd.c\<close>, \<^verbatim>\<open>node_mgr_fleet.c\<close>,
    \<^verbatim>\<open>node_store_nvs.c\<close>): the state and the operations of the task that runs the ring, as a machine whose
    invariant \<open>mgr_ok\<close> ties zone table, node table, waiting boards and flash together. The steps are the sections
    of the task loop (\<open>pass_events\<close> gives one pass), the calls of other tasks, time and restarts.
    \<open>Node_Enrol\<close>: the task seen as a map from boards to ids that heartbeats, bindings and retirements change, and
    the counting of lost heartbeats. \<open>Node_Fwd\<close>: forwarded commands and the lines about the ring.

  \<^bold>\<open>The zone's configuration\<close> (\<^verbatim>\<open>hg_cfg\<close>, \<^verbatim>\<open>hg_blob\<close>, \<^verbatim>\<open>hg_model\<close>, \<^verbatim>\<open>hg_store\<close>).
  \<^item> \<open>HG_Cfg\<close>, \<open>HG_Cfg_Valid\<close>, \<open>HG_Cfg_Text\<close>: the two planes, defaults, field table, the validators with a
    specification each, and the access by text.
  \<^item> \<open>HG_Blob\<close>: the checksummed envelope of everything that is stored or pushed.
  \<^item> \<open>HG_Model\<close>, \<open>HG_Store\<close>: the live planes, and the write-back to flash. The invariant \<open>store_ok\<close>
    relates model, dirty bits, staging and flash: nothing accepted is lost.

  \<^item> \<open>Zone_Cfg_Rx\<close> (\<^verbatim>\<open>src/zone/main/zone_ring_cfg.c\<close>): what a zone does with a pushed or fetched plane.
    The theory composes the ring's cache and reassembler with envelope, validators and model: a
    push is applied at most once and never over a newer generation. A commit is split into decision
    and application, since other tasks run in between.

  \<^bold>\<open>The ring task of a zone\<close> (\<^verbatim>\<open>src/zone/main\<close>). \<open>Zone_Ring\<close> (\<^verbatim>\<open>zone_ring.c\<close>,
  \<^verbatim>\<open>zone_ring_sync.c\<close>): the task as a machine whose steps are the passes of its loop and the calls of other
  tasks. \<open>Zone_Life\<close>: the distance of heartbeats, the single execution of a command, the id a zone takes.
  \<open>Ring_Enrol\<close> puts the task and the master's together: after two heartbeats at most they agree on the id.

  \<^bold>\<open>New firmware\<close> (\<^verbatim>\<open>ota_trial\<close>, \<^verbatim>\<open>rescue_handover\<close>, \<^verbatim>\<open>src/rescue/main\<close>). \<open>Fw_Trial\<close>: the trial of an image,
  whose probes are shown to be its history. \<open>Fw_Handover\<close>: the record a node leaves for the rescue system, and
  what the rescue system does with it. \<open>Zone_Life\<close> follows an order from the frame through both to the trial.
  The calls of the update library are outputs.

  \<^bold>\<open>The master's configuration and its web sessions\<close> (\<^verbatim>\<open>hg_mcfg\<close>, \<^verbatim>\<open>mcfg_ops\<close>, \<^verbatim>\<open>panel_svc\<close>,
  \<^verbatim>\<open>web_auth\<close>).
  \<^item> \<open>HG_Mcfg\<close>: the record of the master's settings, its validator, the double-buffered store, the
    locked read-modify-write and the panel's forms over it.
  \<^item> \<open>Web_Auth\<close>: passwords, the login lock, session slots and their image in flash. SHA-256 is a
    parameter; the random bytes and the clock are inputs.

  \<^bold>\<open>Console and clock\<close> (\<^verbatim>\<open>cli_line\<close>, \<^verbatim>\<open>cmd_core\<close>, \<^verbatim>\<open>time_core\<close>). \<open>Cli_Line\<close>: the line editor against a
  reference editor. \<open>Cmd_Core\<close>: tokens, the command table and its check, the gates, and the dispatch of a line;
  handlers, clock, audit and forwarding are parameters. \<open>Time_Core\<close>: calendar and time zones.

  \<^bold>\<open>Code outside \<^verbatim>\<open>src\<close>\<close> is a parameter: results of flash writes and of queue sends are
  inputs of the steps.

  \<^bold>\<open>Not modelled.\<close> Code that only calls ESP-IDF, LVGL or a JSON library: the web server,
  the panel's screens, WiFi, SD card, OTA streaming, task start-up; vendored
  drivers and generated fonts. The manifest lists each of them with its reason.
\<close>

end
